(* ===== verification/Prelude.thy ===== *)
theory Prelude
  imports Main "HOL-Library.Word"
begin

text \<open>
  Shared vocabulary of the development.

  Machine integers are words of the width the C++ type has; an \<open>intN_t\<close> is the same word
  read with \<^term>\<open>sint\<close>.  A byte buffer with its size argument is a list of bytes; a
  pointer that the code compares with \<open>nullptr\<close> is an \<open>option\<close>.  \<open>slice\<close> reads and
  \<open>write_at\<close> overwrites a segment of a buffer without changing its length, and
  \<open>be_bytes\<close>/\<open>be_val\<close> are the big-endian byte order that every codec of the firmware uses.
  The two collections \<open>buffer_simps\<close> and \<open>be_simps\<close> carry the codec proofs.
\<close>

unbundle bit_operations_syntax

type_synonym u8 = "8 word"
type_synonym u16 = "16 word"
type_synonym u32 = "32 word"
type_synonym u64 = "64 word"
type_synonym i8 = "8 word"
type_synonym i16 = "16 word"
type_synonym i32 = "32 word"

type_synonym bytes = "u8 list"

named_theorems buffer_simps \<open>reading a buffer after writes at known offsets\<close>
named_theorems be_simps \<open>big-endian field encodings\<close>

abbreviation UINT32_MAX :: u32 where "UINT32_MAX \<equiv> 0xFFFFFFFF"
abbreviation UINT16_MAX :: u16 where "UINT16_MAX \<equiv> 0xFFFF"
abbreviation UINT64_MAX :: u64 where "UINT64_MAX \<equiv> 0xFFFFFFFFFFFFFFFF"

section \<open>Bounds of words\<close>

lemma unat_lt_8: "unat (x :: 8 word) < 256"
  using unsigned_less [of x, where 'a = nat] by simp

lemma unat_lt_16: "unat (x :: 16 word) < 65536"
  using unsigned_less [of x, where 'a = nat] by simp

lemma unat_lt_32: "unat (x :: 32 word) < 2 ^ 32"
  using unsigned_less [of x, where 'a = nat] by simp

lemma unat_lt_64: "unat (x :: 64 word) < 2 ^ 64"
  using unsigned_less [of x, where 'a = nat] by simp

section \<open>Segments of buffers\<close>

definition slice :: "nat \<Rightarrow> nat \<Rightarrow> 'a list \<Rightarrow> 'a list" where
  "slice off n xs = take n (drop off xs)"

definition write_at :: "nat \<Rightarrow> 'a list \<Rightarrow> 'a list \<Rightarrow> 'a list" where
  "write_at off ys xs = take off xs @ take (length xs - off) ys @ drop (off + length ys) xs"

lemma length_slice [simp, buffer_simps]:
  "length (slice off n xs) = min n (length xs - off)"
  by (simp add: slice_def)

lemma length_write_at [simp, buffer_simps]: "length (write_at off ys xs) = length xs"
  by (simp add: write_at_def)

lemma slice_full: "length xs = n \<Longrightarrow> slice 0 n xs = xs"
  by (simp add: slice_def)

lemma nth_slice [simp]: "i < n \<Longrightarrow> off + n \<le> length xs \<Longrightarrow> slice off n xs ! i = xs ! (off + i)"
  by (simp add: slice_def)

lemma nth_write_at:
  assumes "off + length ys \<le> length xs" and "i < length xs"
  shows "write_at off ys xs ! i =
    (if off \<le> i \<and> i < off + length ys then ys ! (i - off) else xs ! i)"
  using assms by (auto simp: write_at_def nth_append)

lemma nth_write_at_before [buffer_simps]: "i < off \<Longrightarrow> i < length xs \<Longrightarrow> write_at off ys xs ! i = xs ! i"
  by (simp add: write_at_def nth_append)

lemma nth_write_at_after [buffer_simps]:
  "off + length ys \<le> i \<Longrightarrow> i < length xs \<Longrightarrow> write_at off ys xs ! i = xs ! i"
  by (simp add: nth_write_at)

lemma nth_write_at_in [buffer_simps]:
  "off \<le> i \<Longrightarrow> i < off + length ys \<Longrightarrow> off + length ys \<le> length xs \<Longrightarrow>
   write_at off ys xs ! i = ys ! (i - off)"
  by (simp add: nth_write_at)

lemma slice_write_at_same [buffer_simps]:
  "n = length ys \<Longrightarrow> off + n \<le> length xs \<Longrightarrow> slice off n (write_at off ys xs) = ys"
  by (simp add: slice_def write_at_def)

lemma slice_write_at_before [buffer_simps]:
  "o' + n \<le> off \<Longrightarrow> slice o' n (write_at off ys xs) = slice o' n xs"
  by (rule nth_equalityI) (auto simp: slice_def nth_write_at_before less_diff_conv add.commute)

lemma slice_write_at_after [buffer_simps]:
  assumes "off + length ys \<le> o'"
  shows "slice o' n (write_at off ys xs) = slice o' n xs"
proof (rule nth_equalityI)
  fix i assume i: "i < length (slice o' n (write_at off ys xs))"
  then have "o' + i < length xs" and "i < n" by auto
  then have "off + length ys \<le> length xs" and "off + length ys \<le> o' + i" using assms by auto
  then show "slice o' n (write_at off ys xs) ! i = slice o' n xs ! i"
    using \<open>o' + i < length xs\<close> \<open>i < n\<close> by (simp add: slice_def nth_write_at)
qed simp

lemma slice_update_before [buffer_simps]: "o' + n \<le> i \<Longrightarrow> slice o' n (xs[i := v]) = slice o' n xs"
  by (simp add: slice_def drop_update_swap)

lemma slice_update_after [buffer_simps]: "i < o' \<Longrightarrow> slice o' n (xs[i := v]) = slice o' n xs"
  by (simp add: slice_def)

lemma slice_slice [buffer_simps]:
  "o2 + n2 \<le> n1 \<Longrightarrow> slice o2 n2 (slice o1 n1 xs) = slice (o1 + o2) n2 xs"
  by (simp add: slice_def drop_take add.commute min_def)

lemma slice_append_left: "o' + n \<le> length xs \<Longrightarrow> slice o' n (xs @ ys) = slice o' n xs"
  by (simp add: slice_def)

lemma slice_append_right:
  "length xs \<le> o' \<Longrightarrow> slice o' n (xs @ ys) = slice (o' - length xs) n ys"
  by (simp add: slice_def)

lemma slice_Suc: "i < length xs \<Longrightarrow> slice i (Suc n) xs = xs ! i # slice (Suc i) n xs"
  by (simp add: slice_def Cons_nth_drop_Suc [symmetric])

lemma slice_eq_map: "off + n \<le> length xs \<Longrightarrow> slice off n xs = map (\<lambda>i. xs ! (off + i)) [0..<n]"
  by (rule nth_equalityI) auto

lemma slice_join: "slice off n xs @ slice (off + n) m xs = slice off (n + m) xs"
  unfolding slice_def take_add by (simp add: add.commute)

lemma slice_join': "off + n = k \<Longrightarrow> slice off n xs @ slice k m xs = slice off (n + m) xs"
  using slice_join by blast

lemma write_at_append:
  "off + length ys + length zs \<le> length xs \<Longrightarrow>
   write_at (off + length ys) zs (write_at off ys xs) = write_at off (ys @ zs) xs"
  by (simp add: write_at_def ac_simps)

lemma write_at_slice_id: "off + n \<le> length xs \<Longrightarrow> write_at off (slice off n xs) xs = xs"
  by (rule nth_equalityI) (auto simp: nth_write_at)

lemma nth_write_at_slice:
  "off + n \<le> length xs \<Longrightarrow> length ys = length xs \<Longrightarrow> i < length xs \<Longrightarrow>
   write_at off (slice off n ys) xs ! i = (if off \<le> i \<and> i < off + n then ys ! i else xs ! i)"
  by (auto simp: nth_write_at)

lemma write_at_full: "length ys = length xs \<Longrightarrow> write_at 0 ys xs = ys"
  by (simp add: write_at_def)

text \<open>A loop that stores one computed byte per index is one segment write.\<close>

lemma fold_update_eq_write_at:
  "off + n \<le> length xs \<Longrightarrow>
   fold (\<lambda>i ys. ys[off + i := f i]) [0..<n] xs = write_at off (map f [0..<n]) xs"
proof (induction n)
  case 0
  show ?case by (simp add: write_at_def)
next
  case (Suc n)
  then have IH: "fold (\<lambda>i ys. ys[off + i := f i]) [0..<n] xs = write_at off (map f [0..<n]) xs"
    by simp
  have "(write_at off (map f [0..<n]) xs)[off + n := f n] = write_at off (map f [0..<Suc n]) xs"
    using Suc.prems by (intro nth_equalityI) (auto simp: nth_write_at nth_list_update nth_append)
  then show ?case using IH by simp
qed

lemma update2_eq_write_at:
  "off + 2 \<le> length xs \<Longrightarrow> xs[off := a, off + 1 := b] = write_at off [a, b] xs"
  by (intro nth_equalityI) (auto simp: nth_write_at nth_list_update nth_Cons')

lemma update4_eq_write_at:
  "off + 4 \<le> length xs \<Longrightarrow>
   xs[off := a, off + 1 := b, off + 2 := c, off + 3 := d] = write_at off [a, b, c, d] xs"
  by (intro nth_equalityI) (auto simp: nth_write_at nth_list_update nth_Cons')

lemma slice_2: "off + 2 \<le> length xs \<Longrightarrow> slice off 2 xs = [xs ! off, xs ! (off + 1)]"
  by (simp add: slice_eq_map upt_rec)

lemma slice_4:
  "off + 4 \<le> length xs \<Longrightarrow>
   slice off 4 xs = [xs ! off, xs ! (off + 1), xs ! (off + 2), xs ! (off + 3)]"
  by (simp add: slice_eq_map upt_rec numeral_eq_Suc)

lemma fold_slice: "off + n \<le> length xs \<Longrightarrow>
  fold (\<lambda>i v. g v (xs ! (off + i))) [0..<n] v0 = foldl g v0 (slice off n xs)"
proof -
  assume "off + n \<le> length xs"
  then have "slice off n xs = map (\<lambda>i. xs ! (off + i)) [0..<n]" by (rule slice_eq_map)
  then show ?thesis by (simp add: foldl_conv_fold fold_map comp_def)
qed

section \<open>Big-endian fields\<close>

definition be_bytes :: "nat \<Rightarrow> 'a::len word \<Rightarrow> bytes" where
  "be_bytes n v = map (\<lambda>i. ucast (drop_bit (8 * (n - 1 - i)) v)) [0..<n]"

definition be_val :: "bytes \<Rightarrow> 'a::len word" where
  "be_val bs = foldl (\<lambda>v b. push_bit 8 v OR ucast b) 0 bs"

lemma length_be_bytes [simp, buffer_simps, be_simps]: "length (be_bytes n v) = n"
  by (simp add: be_bytes_def)

lemma be_val_snoc: "be_val (bs @ [b]) = push_bit 8 (be_val bs) OR ucast b"
  by (simp add: be_val_def)

lemma bit_be_val:
  "bit (be_val bs :: 'a::len word) k \<longleftrightarrow>
   k < LENGTH('a) \<and> k div 8 < length bs \<and> bit (rev bs ! (k div 8)) (k mod 8)"
proof (induction bs arbitrary: k rule: rev_induct)
  case Nil
  show ?case by (simp add: be_val_def)
next
  case (snoc b bs)
  show ?case
  proof (cases "k < 8")
    case True
    then show ?thesis
      by (auto simp: be_val_snoc bit_or_iff bit_push_bit_iff bit_ucast_iff)
  next
    case False
    have big: "\<not> bit b k" using False bit_imp_le_length [of b k] by auto
    have d: "k div 8 = Suc ((k - 8) div 8)" and m: "(k - 8) mod 8 = k mod 8"
      using False by (auto simp: le_div_geq le_mod_geq)
    show ?thesis
      using False big snoc.IH [of "k - 8"]
      by (auto simp: be_val_snoc bit_or_iff bit_push_bit_iff bit_ucast_iff d m)
  qed
qed

lemma nth_rev_be_bytes:
  "j < n \<Longrightarrow> rev (be_bytes n v) ! j = ucast (drop_bit (8 * j) v)"
  by (simp add: be_bytes_def rev_nth)

lemma be_val_be_bytes [simp, be_simps]:
  assumes "8 * n = LENGTH('a)"
  shows "be_val (be_bytes n (v :: 'a::len word)) = v"
proof (rule bit_word_eqI)
  fix k assume k: "k < LENGTH('a)"
  then have "k div 8 < n" using assms by auto
  then show "bit (be_val (be_bytes n v) :: 'a word) k = bit v k"
    using k by (simp add: bit_be_val nth_rev_be_bytes bit_ucast_iff bit_drop_bit_eq)
qed

lemma be_bytes_be_val [simp, be_simps]:
  assumes len: "length bs = n" and width: "8 * n = LENGTH('a)"
  shows "be_bytes n (be_val bs :: 'a::len word) = bs"
proof (rule nth_equalityI)
  show "length (be_bytes n (be_val bs :: 'a word)) = length bs" by (simp add: len)
next
  fix i assume i: "i < length (be_bytes n (be_val bs :: 'a word))"
  then have i_n: "i < n" by simp
  show "be_bytes n (be_val bs :: 'a word) ! i = bs ! i"
  proof (rule bit_word_eqI)
    fix k assume k: "k < LENGTH(8)"
    then have k8: "k < 8" by simp
    let ?j = "8 * (n - 1 - i) + k"
    have d: "?j div 8 = n - 1 - i" and m: "?j mod 8 = k" using k8 by auto
    have lt: "?j < LENGTH('a)"
      using i_n k8 width by linarith
    have "bit (be_bytes n (be_val bs :: 'a word) ! i) k = bit (be_val bs :: 'a word) ?j"
      using i_n k8 by (simp add: be_bytes_def bit_ucast_iff bit_drop_bit_eq)
    also have "\<dots> = bit (rev bs ! (n - 1 - i)) k"
      using lt i_n len by (simp only: bit_be_val d m) simp
    also have "rev bs ! (n - 1 - i) = bs ! i"
      using i_n len by (simp add: rev_nth)
    finally show "bit (be_bytes n (be_val bs :: 'a word) ! i) k = bit (bs ! i) k" .
  qed
qed

lemma be_bytes_inj: "8 * n = LENGTH('a) \<Longrightarrow> be_bytes n v = be_bytes n w \<longleftrightarrow> v = (w :: 'a::len word)"
  by (metis be_val_be_bytes)

lemma be_val_inj:
  "length xs = n \<Longrightarrow> length ys = n \<Longrightarrow> 8 * n = LENGTH('a) \<Longrightarrow>
   (be_val xs :: 'a::len word) = be_val ys \<longleftrightarrow> xs = ys"
  by (metis be_bytes_be_val)

lemma be_eq_iff:
  fixes v :: "'a::len word"
  assumes "length xs = n" "8 * n = LENGTH('a)"
  shows "xs = be_bytes n v \<longleftrightarrow> be_val xs = v"
  using assms by (metis be_bytes_be_val be_val_be_bytes)

lemma be_bytes_2: "be_bytes 2 v = [ucast (drop_bit 8 v), ucast v]"
  by (simp add: be_bytes_def upt_rec)

lemma be_bytes_4:
  "be_bytes 4 v = [ucast (drop_bit 24 v), ucast (drop_bit 16 v), ucast (drop_bit 8 v), ucast v]"
  by (simp add: be_bytes_def upt_rec)

lemma be_val_2: "be_val [a, b] = push_bit 8 (ucast a) OR ucast b"
  by (simp add: be_val_def)

lemma be_val_4:
  "be_val [a, b, c, d] =
   (push_bit 24 (ucast a) OR push_bit 16 (ucast b) OR push_bit 8 (ucast c) OR ucast d)"
  by (simp add: be_val_def push_bit_or ac_simps)

text \<open>All bits set and all bits clear, read through the byte order.\<close>

lemma be_val_erased4: "be_val [0xFF, 0xFF, 0xFF, 0xFF] = UINT32_MAX"
  by (simp add: be_val_def)

lemma be_val_zero: "be_val (replicate n 0) = 0"
  by (induction n) (simp_all add: be_val_def)

lemma succ_greater: "g \<noteq> UINT64_MAX \<Longrightarrow> g < g + (1 :: u64)"
proof -
  assume g: "g \<noteq> UINT64_MAX"
  have "1 + g \<noteq> 0"
  proof
    assume "1 + g = 0"
    then have "g = - 1" by (simp add: eq_neg_iff_add_eq_0 add.commute)
    then show False using g by simp
  qed
  then show ?thesis by (simp add: word_less_nat_alt unatSuc add.commute)
qed

end
