(* ===== verification/Monotonic_Time.thy ===== *)
theory Monotonic_Time
  imports Prelude
begin

text \<open>
  \<open>firmware/include/monotonic_time.h\<close>: the wrapping 32-bit millisecond clock.
  \<open>reached\<close>, \<open>elapsed\<close> and \<open>nextFuture\<close> are the constexpr helpers, \<open>TickMillis\<close> the
  class that extends the wrapping RTOS tick counter before converting it to milliseconds.
\<close>

definition reached :: "u32 \<Rightarrow> u32 \<Rightarrow> bool" where
  "reached now deadline \<longleftrightarrow> now - deadline < 0x80000000"

definition elapsed :: "u32 \<Rightarrow> u32 \<Rightarrow> u32 \<Rightarrow> bool" where
  "elapsed now start duration \<longleftrightarrow> now - start \<ge> duration"

text \<open>The caller never passes a zero interval (the division traps in C++).\<close>

definition nextFuture :: "u32 \<Rightarrow> u32 \<Rightarrow> u32 \<Rightarrow> u32" where
  "nextFuture now due interval =
     (if reached now due then due + ((now - due) div interval + 1) * interval else due)"

record TickMillis =
  extended_ticks :: u64
  previous_ticks :: u32

definition TickMillis_init :: TickMillis where
  "TickMillis_init = \<lparr>extended_ticks = 0, previous_ticks = 0\<rparr>"

definition update64 :: "TickMillis \<Rightarrow> u32 \<Rightarrow> u32 \<Rightarrow> TickMillis \<times> u64" where
  "update64 c ticks ticks_per_second =
     (let ext = extended_ticks c + ucast (ticks - previous_ticks c) in
      (c\<lparr>extended_ticks := ext, previous_ticks := ticks\<rparr>,
       ext * 1000 div ucast ticks_per_second))"

definition update32 :: "TickMillis \<Rightarrow> u32 \<Rightarrow> u32 \<Rightarrow> TickMillis \<times> u32" where
  "update32 c ticks ticks_per_second =
     (let (c', ms) = update64 c ticks ticks_per_second in (c', ucast ms))"

text \<open>The loop task calling \<open>update64\<close> once per pass on the raw counter values it reads.\<close>

fun tick_run :: "TickMillis \<Rightarrow> u32 \<Rightarrow> u32 list \<Rightarrow> TickMillis" where
  "tick_run c tps [] = c"
| "tick_run c tps (t # ts) = tick_run (fst (update64 c t tps)) tps ts"

section \<open>Deadlines\<close>

lemma unat_diff_32: "unat (a - b :: u32) = (unat a + 2 ^ 32 - unat b) mod 2 ^ 32"
  using unat_lt_32 [of a] unat_lt_32 [of b]
  by (simp add: unat_sub_if' word_size mod_if)

lemma reached_refl [simp]: "reached t t"
  by (simp add: reached_def)

text \<open>A deadline at most half the clock range ahead is reached exactly when that time has passed.\<close>

lemma reached_after:
  assumes "d < 2 ^ 31" and "e < 2 ^ 31"
  shows "reached (t + of_nat e) (t + of_nat d) \<longleftrightarrow> d \<le> e"
proof -
  have "t + of_nat e - (t + of_nat d :: u32) = of_nat e - of_nat d" by simp
  moreover have "unat (of_nat e - of_nat d :: u32) = (e + 2 ^ 32 - d) mod 2 ^ 32"
    using assms by (simp add: unat_diff_32 unat_of_nat)
  ultimately show ?thesis
    using assms by (auto simp: reached_def word_less_nat_alt mod_if)
qed

lemma nextFuture_not_reached: "\<not> reached now due \<Longrightarrow> nextFuture now due interval = due"
  by (simp add: nextFuture_def)

lemma nextFuture_offset:
  assumes "reached now due" and "0 < interval" and "interval \<le> 0x80000000"
  shows "unat (nextFuture now due interval - due) =
     (unat (now - due) div unat interval + 1) * unat interval"
proof -
  let ?d = "now - due"
  have d: "unat ?d < 2 ^ 31" using assms(1) by (simp add: reached_def word_less_nat_alt)
  have i: "unat interval \<le> 2 ^ 31" using assms(3) by (simp add: word_le_nat_alt)
  have ipos: "0 < unat interval" using assms(2) by (simp add: word_less_nat_alt)
  let ?q = "unat ?d div unat interval"
  have small: "(?q + 1) * unat interval < 2 ^ 32"
  proof -
    have "?q * unat interval \<le> unat ?d" by (rule div_times_less_eq_dividend)
    moreover have "(?q + 1) * unat interval = ?q * unat interval + unat interval"
      by (simp add: algebra_simps)
    moreover have "(2::nat) ^ 31 + 2 ^ 31 = 2 ^ 32" by simp
    ultimately show ?thesis using d i by linarith
  qed
  have q1: "unat (?d div interval + 1) = ?q + 1"
  proof -
    have "?q \<le> unat ?d" by (rule div_le_dividend)
    then have "?q < 2 ^ 31" using d by (rule le_less_trans)
    then show ?thesis by (simp add: unat_word_ariths unat_div)
  qed
  have "nextFuture now due interval - due = (?d div interval + 1) * interval"
    using assms(1) by (simp add: nextFuture_def)
  then have "unat (nextFuture now due interval - due) = unat (?d div interval + 1) * unat interval mod 2 ^ 32"
    by (simp add: unat_word_ariths)
  then show ?thesis using small by (simp only: q1) simp
qed

section \<open>Tick extension\<close>

lemma update64_extends:
  assumes "extended_ticks c = of_nat n" and "previous_ticks c = of_nat n"
    and "n \<le> m" and "m < n + 2 ^ 32"
  shows "extended_ticks (fst (update64 c (of_nat m) tps)) = of_nat m \<and>
         previous_ticks (fst (update64 c (of_nat m) tps)) = of_nat m"
proof -
  have "(of_nat m :: u32) - of_nat n = of_nat (m - n)" using assms(3) by simp
  moreover have "(ucast (of_nat (m - n) :: u32) :: u64) = of_nat (m - n)"
    using assms(3,4)
    by (simp add: unsigned_of_nat take_bit_nat_eq_self del: of_nat_diff)
  ultimately show ?thesis using assms by (simp add: update64_def Let_def)
qed

text \<open>Counter readings that never advance by a whole wrap between two passes.\<close>

fun paced :: "nat \<Rightarrow> nat list \<Rightarrow> bool" where
  "paced n [] = True"
| "paced n (m # ms) = (n \<le> m \<and> m < n + 2 ^ 32 \<and> paced m ms)"

lemma tick_run_extends:
  "extended_ticks c = of_nat n \<Longrightarrow> previous_ticks c = of_nat n \<Longrightarrow> paced n ms \<Longrightarrow>
   extended_ticks (tick_run c tps (map of_nat ms)) = of_nat (last (n # ms))"
proof (induction ms arbitrary: c n)
  case Nil
  then show ?case by simp
next
  case (Cons m ms)
  have "extended_ticks (fst (update64 c (of_nat m) tps)) = of_nat m \<and>
        previous_ticks (fst (update64 c (of_nat m) tps)) = of_nat m"
    using Cons.prems by (intro update64_extends [of _ n]) auto
  then show ?case using Cons.IH [of _ m] Cons.prems(3) by simp
qed

end
