(* ===== verification/Crc32.thy ===== *)
theory Crc32
  imports Prelude
begin

text \<open>
  \<open>firmware/include/crc32_ieee.h\<close>: the table-driven CRC-32, together with the bitwise loop
  of \<open>journal_format::crc32\<close> (\<open>firmware/src/journal_format.cpp\<close>) it replaces.  The lemmas
  show that both compute the same value and that changing any single byte of a
  message of fixed length always changes the checksum.
\<close>

section \<open>The bitwise loop\<close>

definition crc_poly :: u32 where "crc_poly = 0xEDB88320"

definition crc_bit_step :: "u32 \<Rightarrow> u32" where
  "crc_bit_step c = drop_bit 1 c XOR (if c AND 1 \<noteq> 0 then crc_poly else 0)"

definition journal_crc_byte :: "u32 \<Rightarrow> u8 \<Rightarrow> u32" where
  "journal_crc_byte c b = (crc_bit_step ^^ 8) (c XOR ucast b)"

definition journal_crc32 :: "bytes \<Rightarrow> u32" where
  "journal_crc32 p = foldl journal_crc_byte UINT32_MAX p XOR UINT32_MAX"

section \<open>The table-driven loop\<close>

definition kTable :: "u32 list" where
  "kTable = [
    0x00000000, 0x77073096, 0xEE0E612C, 0x990951BA, 0x076DC419, 0x706AF48F,
    0xE963A535, 0x9E6495A3, 0x0EDB8832, 0x79DCB8A4, 0xE0D5E91E, 0x97D2D988,
    0x09B64C2B, 0x7EB17CBD, 0xE7B82D07, 0x90BF1D91, 0x1DB71064, 0x6AB020F2,
    0xF3B97148, 0x84BE41DE, 0x1ADAD47D, 0x6DDDE4EB, 0xF4D4B551, 0x83D385C7,
    0x136C9856, 0x646BA8C0, 0xFD62F97A, 0x8A65C9EC, 0x14015C4F, 0x63066CD9,
    0xFA0F3D63, 0x8D080DF5, 0x3B6E20C8, 0x4C69105E, 0xD56041E4, 0xA2677172,
    0x3C03E4D1, 0x4B04D447, 0xD20D85FD, 0xA50AB56B, 0x35B5A8FA, 0x42B2986C,
    0xDBBBC9D6, 0xACBCF940, 0x32D86CE3, 0x45DF5C75, 0xDCD60DCF, 0xABD13D59,
    0x26D930AC, 0x51DE003A, 0xC8D75180, 0xBFD06116, 0x21B4F4B5, 0x56B3C423,
    0xCFBA9599, 0xB8BDA50F, 0x2802B89E, 0x5F058808, 0xC60CD9B2, 0xB10BE924,
    0x2F6F7C87, 0x58684C11, 0xC1611DAB, 0xB6662D3D, 0x76DC4190, 0x01DB7106,
    0x98D220BC, 0xEFD5102A, 0x71B18589, 0x06B6B51F, 0x9FBFE4A5, 0xE8B8D433,
    0x7807C9A2, 0x0F00F934, 0x9609A88E, 0xE10E9818, 0x7F6A0DBB, 0x086D3D2D,
    0x91646C97, 0xE6635C01, 0x6B6B51F4, 0x1C6C6162, 0x856530D8, 0xF262004E,
    0x6C0695ED, 0x1B01A57B, 0x8208F4C1, 0xF50FC457, 0x65B0D9C6, 0x12B7E950,
    0x8BBEB8EA, 0xFCB9887C, 0x62DD1DDF, 0x15DA2D49, 0x8CD37CF3, 0xFBD44C65,
    0x4DB26158, 0x3AB551CE, 0xA3BC0074, 0xD4BB30E2, 0x4ADFA541, 0x3DD895D7,
    0xA4D1C46D, 0xD3D6F4FB, 0x4369E96A, 0x346ED9FC, 0xAD678846, 0xDA60B8D0,
    0x44042D73, 0x33031DE5, 0xAA0A4C5F, 0xDD0D7CC9, 0x5005713C, 0x270241AA,
    0xBE0B1010, 0xC90C2086, 0x5768B525, 0x206F85B3, 0xB966D409, 0xCE61E49F,
    0x5EDEF90E, 0x29D9C998, 0xB0D09822, 0xC7D7A8B4, 0x59B33D17, 0x2EB40D81,
    0xB7BD5C3B, 0xC0BA6CAD, 0xEDB88320, 0x9ABFB3B6, 0x03B6E20C, 0x74B1D29A,
    0xEAD54739, 0x9DD277AF, 0x04DB2615, 0x73DC1683, 0xE3630B12, 0x94643B84,
    0x0D6D6A3E, 0x7A6A5AA8, 0xE40ECF0B, 0x9309FF9D, 0x0A00AE27, 0x7D079EB1,
    0xF00F9344, 0x8708A3D2, 0x1E01F268, 0x6906C2FE, 0xF762575D, 0x806567CB,
    0x196C3671, 0x6E6B06E7, 0xFED41B76, 0x89D32BE0, 0x10DA7A5A, 0x67DD4ACC,
    0xF9B9DF6F, 0x8EBEEFF9, 0x17B7BE43, 0x60B08ED5, 0xD6D6A3E8, 0xA1D1937E,
    0x38D8C2C4, 0x4FDFF252, 0xD1BB67F1, 0xA6BC5767, 0x3FB506DD, 0x48B2364B,
    0xD80D2BDA, 0xAF0A1B4C, 0x36034AF6, 0x41047A60, 0xDF60EFC3, 0xA867DF55,
    0x316E8EEF, 0x4669BE79, 0xCB61B38C, 0xBC66831A, 0x256FD2A0, 0x5268E236,
    0xCC0C7795, 0xBB0B4703, 0x220216B9, 0x5505262F, 0xC5BA3BBE, 0xB2BD0B28,
    0x2BB45A92, 0x5CB36A04, 0xC2D7FFA7, 0xB5D0CF31, 0x2CD99E8B, 0x5BDEAE1D,
    0x9B64C2B0, 0xEC63F226, 0x756AA39C, 0x026D930A, 0x9C0906A9, 0xEB0E363F,
    0x72076785, 0x05005713, 0x95BF4A82, 0xE2B87A14, 0x7BB12BAE, 0x0CB61B38,
    0x92D28E9B, 0xE5D5BE0D, 0x7CDCEFB7, 0x0BDBDF21, 0x86D3D2D4, 0xF1D4E242,
    0x68DDB3F8, 0x1FDA836E, 0x81BE16CD, 0xF6B9265B, 0x6FB077E1, 0x18B74777,
    0x88085AE6, 0xFF0F6A70, 0x66063BCA, 0x11010B5C, 0x8F659EFF, 0xF862AE69,
    0x616BFFD3, 0x166CCF45, 0xA00AE278, 0xD70DD2EE, 0x4E048354, 0x3903B3C2,
    0xA7672661, 0xD06016F7, 0x4969474D, 0x3E6E77DB, 0xAED16A4A, 0xD9D65ADC,
    0x40DF0B66, 0x37D83BF0, 0xA9BCAE53, 0xDEBB9EC5, 0x47B2CF7F, 0x30B5FFE9,
    0xBDBDF21C, 0xCABAC28A, 0x53B39330, 0x24B4A3A6, 0xBAD03605, 0xCDD70693,
    0x54DE5729, 0x23D967BF, 0xB3667A2E, 0xC4614AB8, 0x5D681B02, 0x2A6F2B94,
    0xB40BBE37, 0xC30C8EA1, 0x5A05DF1B, 0x2D02EF8D]"

definition crc_table_byte :: "u32 \<Rightarrow> u8 \<Rightarrow> u32" where
  "crc_table_byte crc b = kTable ! unat ((crc XOR ucast b) AND 0xFF) XOR drop_bit 8 crc"

definition crc32Ieee :: "bytes \<Rightarrow> u32" where
  "crc32Ieee data = foldl crc_table_byte 0xFFFFFFFF data XOR 0xFFFFFFFF"


section \<open>The bit step is linear and injective\<close>

lemma bit_and_1 [simp]: "(c AND 1 \<noteq> (0::'a::len word)) \<longleftrightarrow> bit c 0"
  by (simp add: and_one_eq odd_iff_mod_2_eq_one bit_0)

lemma crc_bit_step_xor: "crc_bit_step (a XOR b) = crc_bit_step a XOR crc_bit_step b"
  by (rule bit_word_eqI) (auto simp: crc_bit_step_def bit_xor_iff bit_drop_bit_eq)

lemma crc_bit_step_0 [simp]: "crc_bit_step 0 = 0"
  by (simp add: crc_bit_step_def)

lemma bit_crc_poly_31: "bit crc_poly 31"
  by (simp add: crc_poly_def)

lemma bit_crc_step_31: "bit (crc_bit_step c) 31 \<longleftrightarrow> bit c 0"
  using bit_imp_le_length [of c 32]
  by (auto simp: crc_bit_step_def bit_xor_iff bit_drop_bit_eq bit_crc_poly_31)

lemma word_xor_right_cancel: "x XOR c = y XOR c \<longleftrightarrow> x = (y :: 'a::len word)"
  by (metis xor.assoc xor.right_neutral xor_self_eq)

lemma word_xor_left_cancel: "c XOR x = c XOR y \<longleftrightarrow> x = (y :: 'a::len word)"
  by (metis xor.assoc xor.left_neutral xor_self_eq)

lemma crc_bit_step_inj: "crc_bit_step a = crc_bit_step b \<Longrightarrow> a = b"
proof -
  assume eq: "crc_bit_step a = crc_bit_step b"
  then have low: "bit a 0 = bit b 0" by (metis bit_crc_step_31)
  then have shifted: "drop_bit 1 a = drop_bit 1 b"
    using eq by (auto simp: crc_bit_step_def word_xor_right_cancel split: if_splits)
  show "a = b"
  proof (rule bit_word_eqI)
    fix n assume "n < LENGTH(32)"
    show "bit a n = bit b n"
      using low arg_cong [OF shifted, of "\<lambda>w. bit w (n - 1)"]
      by (cases n) (simp_all add: bit_drop_bit_eq)
  qed
qed

lemma crc_steps_xor: "(crc_bit_step ^^ n) (a XOR b) = (crc_bit_step ^^ n) a XOR (crc_bit_step ^^ n) b"
  by (induction n) (simp_all add: crc_bit_step_xor)

lemma crc_steps_inj: "(crc_bit_step ^^ n) a = (crc_bit_step ^^ n) b \<Longrightarrow> a = b"
  by (induction n) (auto dest: crc_bit_step_inj)

text \<open>Eight steps of a word whose low byte is clear only shift it.\<close>

lemma crc_steps_shift: "(\<And>k. k < n \<Longrightarrow> \<not> bit c k) \<Longrightarrow> (crc_bit_step ^^ n) c = drop_bit n c"
proof (induction n)
  case 0
  then show ?case by simp
next
  case (Suc n)
  then have "(crc_bit_step ^^ Suc n) c = crc_bit_step (drop_bit n c)" by simp
  also have "\<dots> = drop_bit 1 (drop_bit n c)"
    using Suc.prems [of n] by (simp add: crc_bit_step_def bit_drop_bit_eq)
  finally show ?case by (simp add: add.commute)
qed

section \<open>The table holds eight bit steps of every byte\<close>

lemma funpow_8: "(f ^^ 8) x = f (f (f (f (f (f (f (f x)))))))" for f :: "'a \<Rightarrow> 'a"
  by (simp add: numeral_eq_Suc)

lemma crc_step_eval:
  "crc_bit_step 1 = 0xEDB88320"
  "crc_bit_step (numeral (num.Bit0 n)) = drop_bit 1 (numeral (num.Bit0 n))"
  "crc_bit_step (numeral (num.Bit1 n)) = drop_bit 1 (numeral (num.Bit1 n)) XOR 0xEDB88320"
  by (simp_all add: crc_bit_step_def crc_poly_def bit_0)

lemma of_nat_plus_power:
  assumes "i < 2 ^ k"
  shows "(of_nat (2 ^ k + i) :: u32) = of_nat (2 ^ k) XOR of_nat i"
proof -
  have low: "n < k" if "bit i n" for n
    using that assms by (metis bit_take_bit_iff take_bit_nat_eq_self)
  have "(of_nat i :: u32) AND push_bit k 1 = 0"
    by (rule bit_word_eqI) (auto simp: bit_simps dest: low)
  then show ?thesis by (simp add: push_bit_eq_mult disjunctive_xor_eq_or [symmetric] disjunctive_add_eq_or ac_simps)
qed

lemma table_double:
  "map (\<lambda>i. (crc_bit_step ^^ 8) (of_nat i)) [0..<2 ^ Suc k] =
   (let l = map (\<lambda>i. (crc_bit_step ^^ 8) (of_nat i)) [0..<2 ^ k]
    in l @ map (\<lambda>x. (crc_bit_step ^^ 8) (of_nat (2 ^ k)) XOR x) l)"
proof -
  have "[0..<2 ^ Suc k] = [0..<2 ^ k] @ map (\<lambda>i. 2 ^ k + i) [0..<(2::nat) ^ k]"
    by (simp add: upt_add_eq_append [of 0, simplified] mult_2 map_add_upt [symmetric] add.commute)
  then show ?thesis by (simp add: Let_def of_nat_plus_power crc_steps_xor del: of_nat_add of_nat_power)
qed

lemma basis_eval:
  "(crc_bit_step ^^ 8) 1 = 0x77073096" "(crc_bit_step ^^ 8) 2 = 0xEE0E612C"
  "(crc_bit_step ^^ 8) 4 = 0x076DC419" "(crc_bit_step ^^ 8) 8 = 0x0EDB8832"
  "(crc_bit_step ^^ 8) 16 = 0x1DB71064" "(crc_bit_step ^^ 8) 32 = 0x3B6E20C8"
  "(crc_bit_step ^^ 8) 64 = 0x76DC4190" "(crc_bit_step ^^ 8) 128 = 0xEDB88320"
  by (simp_all add: funpow_8 crc_step_eval)

lemma kTable_eq: "kTable = map (\<lambda>i. (crc_bit_step ^^ 8) (of_nat i)) [0..<256]"
proof -
  let ?t = "\<lambda>k. map (\<lambda>i. (crc_bit_step ^^ 8) (of_nat i :: u32)) [0..<2 ^ k]"
  have "?t 0 = take 1 kTable" by (simp add: funpow_8 kTable_def)
  then have "?t (Suc 0) = take 2 kTable"
    unfolding table_double [of "0"] by (simp add: basis_eval kTable_def)
  then have "?t (Suc (Suc 0)) = take 4 kTable"
    unfolding table_double [of "Suc 0"] by (simp add: basis_eval kTable_def)
  then have "?t (Suc (Suc (Suc 0))) = take 8 kTable"
    unfolding table_double [of "Suc (Suc 0)"] by (simp add: basis_eval kTable_def)
  then have "?t (Suc (Suc (Suc (Suc 0)))) = take 16 kTable"
    unfolding table_double [of "Suc (Suc (Suc 0))"] by (simp add: basis_eval kTable_def)
  then have "?t (Suc (Suc (Suc (Suc (Suc 0))))) = take 32 kTable"
    unfolding table_double [of "Suc (Suc (Suc (Suc 0)))"] by (simp add: basis_eval kTable_def)
  then have "?t (Suc (Suc (Suc (Suc (Suc (Suc 0)))))) = take 64 kTable"
    unfolding table_double [of "Suc (Suc (Suc (Suc (Suc 0))))"] by (simp add: basis_eval kTable_def)
  then have "?t (Suc (Suc (Suc (Suc (Suc (Suc (Suc 0))))))) = take 128 kTable"
    unfolding table_double [of "Suc (Suc (Suc (Suc (Suc (Suc 0)))))"] by (simp add: basis_eval kTable_def)
  then have "?t (Suc (Suc (Suc (Suc (Suc (Suc (Suc (Suc 0)))))))) = take 256 kTable"
    unfolding table_double [of "Suc (Suc (Suc (Suc (Suc (Suc (Suc 0))))))"] by (simp add: basis_eval kTable_def)
  then show ?thesis by (simp add: kTable_def)
qed

section \<open>Both loops compute the same checksum\<close>

lemma crc_table_byte_eq: "crc_table_byte c b = journal_crc_byte c b"
proof -
  let ?x = "c XOR ucast b :: u32"
  let ?lo = "?x AND 0xFF" and ?hi = "?x AND NOT 0xFF"
  have mask: "(0xFF :: u32) = mask 8" by (simp add: mask_eq_decr_exp)
  have split: "?x = ?lo XOR ?hi"
    by (rule bit_word_eqI) (auto simp: bit_simps)
  have "\<not> bit ?hi k" if "k < 8" for k
    using that by (simp add: mask bit_simps)
  then have "(crc_bit_step ^^ 8) ?hi = drop_bit 8 ?hi" by (rule crc_steps_shift)
  also have "\<dots> = drop_bit 8 c"
    by (rule bit_word_eqI) (auto simp: mask bit_simps dest: bit_imp_le_length)
  finally have hi: "(crc_bit_step ^^ 8) ?hi = drop_bit 8 c" .
  have "?lo = take_bit 8 ?x" by (simp add: mask take_bit_eq_mask)
  then have "unat ?lo = take_bit 8 (unat ?x)" by (simp only: unsigned_take_bit_eq)
  then have lt: "unat ?lo < 256" by (simp add: take_bit_eq_mod)
  have "kTable ! unat ?lo = (crc_bit_step ^^ 8) (of_nat (unat ?lo))"
    using lt by (simp only: kTable_eq nth_map length_upt nth_upt diff_zero add_0)
  then have "kTable ! unat ?lo = (crc_bit_step ^^ 8) ?lo" by simp
  then have "crc_table_byte c b = (crc_bit_step ^^ 8) ?lo XOR (crc_bit_step ^^ 8) ?hi"
    by (simp only: crc_table_byte_def hi)
  also have "\<dots> = journal_crc_byte c b"
    by (simp only: crc_steps_xor [symmetric] split [symmetric] journal_crc_byte_def)
  finally show ?thesis .
qed

lemma crc32_tables_agree: "crc32Ieee = journal_crc32"
  by (rule ext) (simp add: crc32Ieee_def journal_crc32_def crc_table_byte_eq [abs_def])

section \<open>Error detection\<close>

lemma ucast_u32_u8: "ucast (ucast (a :: u8) :: u32) = a"
  by (rule bit_word_eqI) (simp add: bit_simps)

lemma ucast_u8_inj: "(ucast a :: u32) = ucast b \<longleftrightarrow> a = (b :: u8)"
  by (metis ucast_u32_u8)

lemma journal_crc_byte_inj_state: "journal_crc_byte c b = journal_crc_byte d b \<longleftrightarrow> c = d"
  by (auto simp: journal_crc_byte_def word_xor_right_cancel dest: crc_steps_inj)

lemma journal_crc_byte_inj_byte: "journal_crc_byte c a = journal_crc_byte c b \<longleftrightarrow> a = b"
  by (auto simp: journal_crc_byte_def word_xor_left_cancel ucast_u8_inj dest!: crc_steps_inj)

lemma foldl_journal_inj_state:
  "foldl journal_crc_byte c p = foldl journal_crc_byte d p \<longleftrightarrow> c = d"
  by (induction p arbitrary: c d) (simp_all add: journal_crc_byte_inj_state)

lemma journal_crc32_byte_change:
  assumes "i < length p" and "b \<noteq> p ! i"
  shows "journal_crc32 (p[i := b]) \<noteq> journal_crc32 p"
proof -
  have new: "p[i := b] = take i p @ b # drop (Suc i) p"
    using assms(1) by (rule upd_conv_take_nth_drop)
  have old: "p = take i p @ p ! i # drop (Suc i) p"
    using assms(1) by (rule id_take_nth_drop)
  have "foldl journal_crc_byte c (take i p @ b # drop (Suc i) p) \<noteq>
        foldl journal_crc_byte c (take i p @ p ! i # drop (Suc i) p)" for c
    using assms(2) by (simp add: foldl_journal_inj_state journal_crc_byte_inj_byte)
  then show ?thesis
    by (metis (no_types) journal_crc32_def new old word_xor_right_cancel)
qed

text \<open>
  The two checksum loops of the firmware agree.  The table-driven loop gives the value of the
  bitwise loop for every message, so pages sealed by one verify under the other, and replacing any
  single byte of a message by another always changes the checksum.
\<close>
theorem crc_loops_agree:
  "crc32Ieee data = journal_crc32 data \<and>
   (\<forall>i b. i < length data \<and> b \<noteq> data ! i \<longrightarrow> crc32Ieee (data[i := b]) \<noteq> crc32Ieee data)"
  using journal_crc32_byte_change by (simp add: crc32_tables_agree)

theorem crc_loops_agree_witness: "crc32Ieee [2] \<noteq> crc32Ieee [1]"
proof -
  have "0 < length [1 :: u8] \<and> (2 :: u8) \<noteq> [1] ! 0" by simp
  then have "crc32Ieee ([1][0 := 2]) \<noteq> crc32Ieee [1]" using crc_loops_agree by blast
  then show ?thesis by simp
qed

end
