(* ===== verification/Packet_Dedupe.thy ===== *)
theory Packet_Dedupe
  imports Prelude
begin

text \<open>
  \<open>firmware/include/packet_dedupe.h\<close>: the bounded duplicate filter
  \<open>PacketDedupeCache<Capacity>\<close>, a ring of keys with one valid flag per slot.  The template
  parameter is the length of the two arrays.

  Its abstract value is the window \<open>dd_window\<close>: the remembered keys, oldest first.  The locale
  \<open>dedupe_window\<close> states what a client may rely on, its lemmas say how long a key is
  remembered, and the ring is interpreted as one instance.
\<close>

record PacketKey =
  key_source_device_id :: u64
  key_sequence_number :: u32

record 'k dedupe_cache =
  dd_entries :: "'k list"
  dd_valid :: "bool list"
  dd_next :: nat

definition dd_empty :: "nat \<Rightarrow> 'k \<Rightarrow> 'k dedupe_cache" where
  "dd_empty capacity k0 = \<lparr>dd_entries = replicate capacity k0, dd_valid = replicate capacity False, dd_next = 0\<rparr>"

definition dd_contains :: "'k dedupe_cache \<Rightarrow> 'k \<Rightarrow> bool" where
  "dd_contains c key = list_ex (\<lambda>i. dd_valid c ! i \<and> dd_entries c ! i = key) [0..<length (dd_entries c)]"

text \<open>Returns whether the key was already there, and the cache afterwards.\<close>

definition dd_observe :: "'k dedupe_cache \<Rightarrow> 'k \<Rightarrow> bool \<times> 'k dedupe_cache" where
  "dd_observe c key =
     (if dd_contains c key then (True, c)
      else (False, c\<lparr>dd_entries := (dd_entries c)[dd_next c := key],
                     dd_valid := (dd_valid c)[dd_next c := True],
                     dd_next := (dd_next c + 1) mod length (dd_entries c)\<rparr>))"

definition dd_clear :: "'k dedupe_cache \<Rightarrow> 'k dedupe_cache" where
  "dd_clear c = c\<lparr>dd_valid := map (\<lambda>_. False) (dd_valid c), dd_next := 0\<rparr>"

section \<open>What a client relies on\<close>

locale dedupe_window =
  fixes contains :: "'c \<Rightarrow> 'k \<Rightarrow> bool"
    and observe :: "'c \<Rightarrow> 'k \<Rightarrow> bool \<times> 'c"
    and clear :: "'c \<Rightarrow> 'c"
    and inv :: "'c \<Rightarrow> bool"
    and capacity :: "'c \<Rightarrow> nat"
    and window :: "'c \<Rightarrow> 'k list"
  assumes contains_window: "inv c \<Longrightarrow> contains c k \<longleftrightarrow> k \<in> set (window c)"
    and observe_fst: "inv c \<Longrightarrow> fst (observe c k) \<longleftrightarrow> k \<in> set (window c)"
    and observe_window: "inv c \<Longrightarrow> window (snd (observe c k)) =
      (if k \<in> set (window c) then window c
       else (if length (window c) = capacity c then tl (window c) else window c) @ [k])"
    and observe_inv: "inv c \<Longrightarrow> inv (snd (observe c k))"
    and observe_capacity: "inv c \<Longrightarrow> capacity (snd (observe c k)) = capacity c"
    and clear_window: "inv c \<Longrightarrow> window (clear c) = []"
    and clear_inv: "inv c \<Longrightarrow> inv (clear c)"
    and window_bound: "inv c \<Longrightarrow> length (window c) \<le> capacity c"
    and window_distinct: "inv c \<Longrightarrow> distinct (window c)"
    and capacity_pos: "inv c \<Longrightarrow> 0 < capacity c"
begin

fun observe_all :: "'c \<Rightarrow> 'k list \<Rightarrow> 'c" where
  "observe_all c [] = c"
| "observe_all c (k # ks) = observe_all (snd (observe c k)) ks"

lemma observe_all_inv: "inv c \<Longrightarrow> inv (observe_all c ks) \<and> capacity (observe_all c ks) = capacity c"
  by (induction ks arbitrary: c) (simp_all add: observe_inv observe_capacity)

lemma observe_then_contains: "inv c \<Longrightarrow> contains (snd (observe c k)) k"
  by (simp add: contains_window observe_inv observe_window)

lemma observe_last:
  "inv c \<Longrightarrow> k \<notin> set (window c) \<Longrightarrow> \<exists>xs. window (snd (observe c k)) = xs @ [k]"
  by (simp add: observe_window)

text \<open>A key survives as many further observations as there are slots newer than it.\<close>

lemma window_keeps:
  "inv c \<Longrightarrow> window c = xs @ k # ys \<Longrightarrow> length ys + length ks < capacity c \<Longrightarrow>
   k \<in> set (window (observe_all c ks))"
proof (induction ks arbitrary: c xs ys)
  case Nil
  then show ?case by simp
next
  case (Cons q ks)
  let ?c = "snd (observe c q)"
  note ci = observe_inv [OF Cons.prems(1)] observe_capacity [OF Cons.prems(1)]
  show ?case
  proof (cases "q \<in> set (window c)")
    case True
    then have "window ?c = xs @ k # ys" using Cons.prems by (simp add: observe_window)
    then show ?thesis using Cons.IH [of ?c xs ys] Cons.prems(3) ci by simp
  next
    case False
    have "\<exists>xs'. window ?c = xs' @ k # (ys @ [q])"
    proof (cases "length (window c) = capacity c")
      case True
      then obtain x xs' where "xs = x # xs'" using Cons.prems(2,3) by (cases xs) auto
      then show ?thesis using True False Cons.prems(1,2) by (simp add: observe_window)
    next
      case not_full: False
      then show ?thesis using False Cons.prems(1,2) by (simp add: observe_window)
    qed
    then show ?thesis using Cons.IH [of ?c _ "ys @ [q]"] Cons.prems(3) ci by auto
  qed
qed

lemma fresh_key_remembered:
  assumes "inv c" and "k \<notin> set (window c)" and "length ks < capacity c"
  shows "contains (observe_all (snd (observe c k)) ks) k"
proof -
  let ?c = "snd (observe c k)"
  obtain xs where "window ?c = xs @ k # []" using observe_last [OF assms(1,2)] by blast
  then have "k \<in> set (window (observe_all ?c ks))"
    using assms by (intro window_keeps [where ys = "[]"]) (simp_all add: observe_inv observe_capacity)
  then show ?thesis using assms(1) by (simp add: contains_window observe_all_inv observe_inv)
qed

end

section \<open>The ring implements the window\<close>

definition dd_inv :: "'k dedupe_cache \<Rightarrow> bool" where
  "dd_inv c \<longleftrightarrow>
     length (dd_valid c) = length (dd_entries c) \<and> dd_next c < length (dd_entries c) \<and>
     (if dd_valid c ! dd_next c
      then (\<forall>i < length (dd_entries c). dd_valid c ! i) \<and> distinct (dd_entries c)
      else (\<forall>i < length (dd_entries c). dd_valid c ! i \<longleftrightarrow> i < dd_next c) \<and>
           distinct (take (dd_next c) (dd_entries c)))"

definition dd_window :: "'k dedupe_cache \<Rightarrow> 'k list" where
  "dd_window c =
     (if dd_valid c ! dd_next c then drop (dd_next c) (dd_entries c) @ take (dd_next c) (dd_entries c)
      else take (dd_next c) (dd_entries c))"

definition dd_capacity :: "'k dedupe_cache \<Rightarrow> nat" where
  "dd_capacity c = length (dd_entries c)"

lemma dd_window_upd:
  "dd_window (c\<lparr>dd_entries := e, dd_valid := v, dd_next := p\<rparr>) =
   (if v ! p then drop p e @ take p e else take p e)"
  by (simp add: dd_window_def)

lemma dd_inv_upd:
  "dd_inv (c\<lparr>dd_entries := e, dd_valid := v, dd_next := p\<rparr>) \<longleftrightarrow>
   length v = length e \<and> p < length e \<and>
   (if v ! p then (\<forall>i < length e. v ! i) \<and> distinct e
    else (\<forall>i < length e. v ! i \<longleftrightarrow> i < p) \<and> distinct (take p e))"
  by (simp add: dd_inv_def)

lemma set_rotated: "set (drop n xs @ take n xs) = set xs"
  by (metis append_take_drop_id set_append Un_commute)

lemma distinct_rotated: "distinct (drop n xs @ take n xs) \<longleftrightarrow> distinct xs"
proof -
  have "distinct xs = distinct (take n xs @ drop n xs)" by simp
  then show ?thesis by (simp only: distinct_append Int_commute) blast
qed

lemma dd_inv_empty [intro]: "0 < n \<Longrightarrow> dd_inv (dd_empty n k0)"
  by (simp add: dd_inv_def dd_empty_def)

lemma dd_window_empty [simp]: "0 < n \<Longrightarrow> dd_window (dd_empty n k0) = []"
  by (simp add: dd_window_def dd_empty_def)

lemma dd_capacity_simps [simp]:
  "dd_capacity (dd_empty n k0) = n" "dd_capacity (dd_clear c) = dd_capacity c"
  by (simp_all add: dd_capacity_def dd_empty_def dd_clear_def)

lemma dd_inv_next: "dd_inv c \<Longrightarrow> dd_next c < length (dd_entries c)"
  and dd_inv_length: "dd_inv c \<Longrightarrow> length (dd_valid c) = length (dd_entries c)"
  by (simp_all add: dd_inv_def)

lemma dd_inv_full:
  "dd_inv c \<Longrightarrow> dd_valid c ! dd_next c \<Longrightarrow>
   (\<forall>i < length (dd_entries c). dd_valid c ! i) \<and> distinct (dd_entries c)"
  by (simp add: dd_inv_def)

lemma dd_inv_filling:
  "dd_inv c \<Longrightarrow> \<not> dd_valid c ! dd_next c \<Longrightarrow>
   (\<forall>i < length (dd_entries c). dd_valid c ! i \<longleftrightarrow> i < dd_next c) \<and>
   distinct (take (dd_next c) (dd_entries c))"
  by (simp add: dd_inv_def)

lemma set_dd_window:
  assumes inv: "dd_inv c"
  shows "set (dd_window c) = {dd_entries c ! i | i. i < length (dd_entries c) \<and> dd_valid c ! i}"
proof (cases "dd_valid c ! dd_next c")
  case True
  then have "set (dd_window c) = set (dd_entries c)"
    by (simp only: dd_window_def if_True set_rotated)
  then show ?thesis using dd_inv_full [OF inv True] by (simp only: set_conv_nth) blast
next
  case False
  have "set (dd_window c) = {dd_entries c ! i | i. i < dd_next c}"
    using False dd_inv_next [OF inv] by (auto simp: dd_window_def nth_image [symmetric])
  moreover have "i < length (dd_entries c) \<and> dd_valid c ! i \<longleftrightarrow> i < dd_next c" for i
    using dd_inv_filling [OF inv False] dd_inv_next [OF inv] by (meson less_trans)
  ultimately show ?thesis by simp
qed

lemma dd_contains_window: "dd_inv c \<Longrightarrow> dd_contains c k \<longleftrightarrow> k \<in> set (dd_window c)"
  by (auto simp: dd_contains_def set_dd_window list_ex_iff)

lemma length_dd_window:
  assumes inv: "dd_inv c"
  shows "length (dd_window c) =
    (if dd_valid c ! dd_next c then length (dd_entries c) else dd_next c)"
  using dd_inv_next [OF inv] by (simp add: dd_window_def)

lemma distinct_dd_window:
  assumes inv: "dd_inv c"
  shows "distinct (dd_window c)"
proof (cases "dd_valid c ! dd_next c")
  case True
  then show ?thesis
    using dd_inv_full [OF inv True] by (simp only: dd_window_def if_True distinct_rotated)
next
  case False
  then show ?thesis using dd_inv_filling [OF inv False] by (simp add: dd_window_def)
qed

text \<open>One observation of a new key, before and after the ring has filled up.\<close>

lemma dd_observe_new_filling:
  assumes inv: "dd_inv c" and new: "k \<notin> set (dd_window c)" and filling: "\<not> dd_valid c ! dd_next c"
  defines "c' \<equiv> snd (dd_observe c k)"
  shows "dd_window c' = dd_window c @ [k]" and "dd_inv c'"
proof -
  let ?n = "length (dd_entries c)"
  note len = dd_inv_length [OF inv] dd_inv_next [OF inv]
  have valid: "dd_valid c ! i \<longleftrightarrow> i < dd_next c" if "i < ?n" for i
    using that dd_inv_filling [OF inv filling] by blast
  have c': "c' = c\<lparr>dd_entries := (dd_entries c)[dd_next c := k],
      dd_valid := (dd_valid c)[dd_next c := True], dd_next := Suc (dd_next c) mod ?n\<rparr>"
    using inv new by (simp add: c'_def dd_observe_def dd_contains_window)
  have pre: "take (Suc (dd_next c)) ((dd_entries c)[dd_next c := k]) = dd_window c @ [k]"
    using len filling by (simp add: take_Suc_conv_app_nth dd_window_def)
  have dist: "distinct (dd_window c @ [k])" using distinct_dd_window [OF inv] new by simp
  have "dd_window c' = dd_window c @ [k] \<and> dd_inv c'"
  proof (cases "Suc (dd_next c) = ?n")
    case True
    have all: "(dd_entries c)[dd_next c := k] = dd_window c @ [k]"
      using pre True by simp
    have v: "(dd_valid c)[dd_next c := True] ! i" if "i < ?n" for i
      using that valid len True by (auto simp: nth_list_update)
    have pos: "0 < ?n" using len(2) by (rule le_less_trans [OF le0])
    have next': "Suc (dd_next c) mod ?n = 0" using True by simp
    have "dd_window c' = (dd_entries c)[dd_next c := k]"
      using v [OF pos] by (simp add: c' next' dd_window_upd)
    moreover have "distinct ((dd_entries c)[dd_next c := k])" by (simp only: all dist)
    then have "dd_inv c'" using v len pos by (simp add: c' next' dd_inv_upd)
    ultimately show ?thesis by (simp add: all)
  next
    case False
    then have next': "Suc (dd_next c) mod ?n = Suc (dd_next c)" "Suc (dd_next c) < ?n"
      using len by auto
    have v: "(dd_valid c)[dd_next c := True] ! i \<longleftrightarrow> i < Suc (dd_next c)" if "i < ?n" for i
      using that valid len by (auto simp: nth_list_update)
    show ?thesis using next' v v [OF next'(2)] pre dist len
      by (simp add: c' dd_window_upd dd_inv_upd)
  qed
  then show "dd_window c' = dd_window c @ [k]" and "dd_inv c'" by simp_all
qed

lemma dd_observe_new_full:
  assumes inv: "dd_inv c" and new: "k \<notin> set (dd_window c)" and full: "dd_valid c ! dd_next c"
  defines "c' \<equiv> snd (dd_observe c k)"
  shows "dd_window c' = tl (dd_window c) @ [k]" and "dd_inv c'"
proof -
  let ?n = "length (dd_entries c)" and ?e = "dd_entries c" and ?p = "dd_next c"
  note len = dd_inv_length [OF inv] dd_inv_next [OF inv]
  have dist: "distinct ?e" and valid: "\<And>i. i < ?n \<Longrightarrow> dd_valid c ! i"
    using dd_inv_full [OF inv full] by blast+
  have c': "c' = c\<lparr>dd_entries := ?e[?p := k], dd_valid := (dd_valid c)[?p := True],
      dd_next := Suc ?p mod ?n\<rparr>"
    using inv new by (simp add: c'_def dd_observe_def dd_contains_window)
  have upd: "?e[?p := k] = take ?p ?e @ k # drop (Suc ?p) ?e"
    using len by (simp add: upd_conv_take_nth_drop)
  have win: "dd_window c = ?e ! ?p # drop (Suc ?p) ?e @ take ?p ?e"
    using full len by (simp add: dd_window_def Cons_nth_drop_Suc)
  have v: "(dd_valid c)[?p := True] ! i" if "i < ?n" for i
    using that valid len by (auto simp: nth_list_update)
  have "k \<notin> set ?e" using new full by (simp only: dd_window_def if_True set_rotated) simp
  then have dist': "distinct (?e[?p := k])" using dist by (simp add: distinct_list_update)
  have "dd_window c' = tl (dd_window c) @ [k] \<and> dd_inv c'"
  proof (cases "Suc ?p = ?n")
    case True
    have pos: "0 < ?n" using len(2) by (rule le_less_trans [OF le0])
    have next': "Suc ?p mod ?n = 0" using True by simp
    have "dd_window c' = ?e[?p := k]"
      using v [OF pos] by (simp add: c' next' dd_window_upd)
    moreover have "?e[?p := k] = tl (dd_window c) @ [k]" using True by (simp add: win upd)
    moreover have "dd_inv c'" using v len pos dist' by (simp add: c' next' dd_inv_upd)
    ultimately show ?thesis by simp
  next
    case False
    then have next': "Suc ?p mod ?n = Suc ?p" "Suc ?p < ?n" using len by auto
    have "drop (Suc ?p) (?e[?p := k]) @ take (Suc ?p) (?e[?p := k]) = tl (dd_window c) @ [k]"
      using len by (simp add: win upd)
    then show ?thesis using next' v v [OF next'(2)] dist' len
      by (simp add: c' dd_window_upd dd_inv_upd)
  qed
  then show "dd_window c' = tl (dd_window c) @ [k]" and "dd_inv c'" by simp_all
qed

lemma dd_observe_seen: "dd_inv c \<Longrightarrow> k \<in> set (dd_window c) \<Longrightarrow> dd_observe c k = (True, c)"
  by (simp add: dd_observe_def dd_contains_window)

lemma dd_clear_window: "dd_inv c \<Longrightarrow> dd_window (dd_clear c) = [] \<and> dd_inv (dd_clear c)"
proof -
  assume inv: "dd_inv c"
  have "map (\<lambda>_. False) (dd_valid c) ! i = False" if "i < length (dd_entries c)" for i
    using that dd_inv_length [OF inv] by simp
  moreover have "0 < length (dd_entries c)"
    using dd_inv_next [OF inv] by (rule le_less_trans [OF le0])
  ultimately show ?thesis
    using dd_inv_length [OF inv] by (simp add: dd_inv_def dd_window_def dd_clear_def)
qed

interpretation ring: dedupe_window dd_contains dd_observe dd_clear dd_inv dd_capacity dd_window
proof (unfold_locales, goal_cases)
  case (1 c k) then show ?case by (rule dd_contains_window)
next
  case (2 c k) then show ?case by (simp add: dd_observe_def dd_contains_window)
next
  case (3 c k)
  then show ?case
    using dd_inv_next [OF 3]
    by (cases "dd_valid c ! dd_next c"; cases "k \<in> set (dd_window c)")
      (simp_all add: dd_observe_seen dd_observe_new_filling dd_observe_new_full length_dd_window
        dd_capacity_def)
next
  case (4 c k)
  then show ?case
    by (cases "k \<in> set (dd_window c)"; cases "dd_valid c ! dd_next c")
      (simp_all add: dd_observe_seen dd_observe_new_filling dd_observe_new_full)
next
  case (5 c k) then show ?case by (simp add: dd_observe_def dd_capacity_def)
next
  case (6 c) then show ?case by (simp add: dd_clear_window)
next
  case (7 c) then show ?case by (simp add: dd_clear_window)
next
  case (8 c)
  then show ?case using dd_inv_next [OF 8] by (simp add: length_dd_window dd_capacity_def)
next
  case (9 c) then show ?case by (rule distinct_dd_window)
next
  case (10 c)
  then show ?case
    unfolding dd_capacity_def by (rule le_less_trans [OF le0 dd_inv_next])
qed

end
