(* ===== verification/Tlp_Packets.thy ===== *)
theory Tlp_Packets
  imports Prelude
begin

text \<open>
  The TLP v1 radio packets: \<open>tlp_test_packet\<close>, \<open>tlp_position_packet\<close> and
  \<open>tlp_relay_forward_packet\<close> under \<open>firmware/include\<close> and \<open>firmware/src\<close>.  Each of the
  three source files has a private copy of the same byte-order helpers; they are modelled
  once.  A serializer returns the filled output buffer or \<open>None\<close> where the code returns
  false without writing; a deserializer returns the decoded packet or the failure.  The
  callers always pass non-null result pointers.
\<close>

section \<open>Byte order helpers\<close>

definition writeU16BigEndian :: "bytes \<Rightarrow> nat \<Rightarrow> u16 \<Rightarrow> bytes" where
  "writeU16BigEndian output p v = output[p := ucast (drop_bit 8 v), p + 1 := ucast v]"

definition writeU32BigEndian :: "bytes \<Rightarrow> nat \<Rightarrow> u32 \<Rightarrow> bytes" where
  "writeU32BigEndian output p v =
     output[p := ucast (drop_bit 24 v), p + 1 := ucast (drop_bit 16 v),
            p + 2 := ucast (drop_bit 8 v), p + 3 := ucast v]"

definition writeU64BigEndian :: "bytes \<Rightarrow> nat \<Rightarrow> u64 \<Rightarrow> bytes" where
  "writeU64BigEndian output p v =
     fold (\<lambda>i out. out[p + i := ucast (drop_bit (56 - i * 8) v)]) [0..<8] output"

definition readU16BigEndian :: "bytes \<Rightarrow> nat \<Rightarrow> u16" where
  "readU16BigEndian input p = push_bit 8 (ucast (input ! p)) OR ucast (input ! (p + 1))"

definition readU32BigEndian :: "bytes \<Rightarrow> nat \<Rightarrow> u32" where
  "readU32BigEndian input p =
     (push_bit 24 (ucast (input ! p)) OR push_bit 16 (ucast (input ! (p + 1))) OR
      push_bit 8 (ucast (input ! (p + 2))) OR ucast (input ! (p + 3)))"

definition readU64BigEndian :: "bytes \<Rightarrow> nat \<Rightarrow> u64" where
  "readU64BigEndian input p =
     fold (\<lambda>i v. push_bit 8 v OR ucast (input ! (p + i))) [0..<8] 0"

lemma writeU16_eq [be_simps]:
  "p + 2 \<le> length out \<Longrightarrow> writeU16BigEndian out p v = write_at p (be_bytes 2 v) out"
  unfolding writeU16BigEndian_def by (simp only: update2_eq_write_at be_bytes_2)

lemma writeU32_eq [be_simps]:
  "p + 4 \<le> length out \<Longrightarrow> writeU32BigEndian out p v = write_at p (be_bytes 4 v) out"
  unfolding writeU32BigEndian_def by (simp only: update4_eq_write_at be_bytes_4)

lemma writeU64_eq [be_simps]:
  assumes "p + 8 \<le> length out"
  shows "writeU64BigEndian out p v = write_at p (be_bytes 8 v) out"
proof -
  have "be_bytes 8 v = map (\<lambda>i. ucast (drop_bit (56 - i * 8) v)) [0..<8]"
    unfolding be_bytes_def by (rule map_cong) (auto simp: algebra_simps)
  then show ?thesis
    using assms by (simp only: writeU64BigEndian_def fold_update_eq_write_at)
qed

lemma readU16_eq [be_simps]:
  "p + 2 \<le> length inp \<Longrightarrow> readU16BigEndian inp p = be_val (slice p 2 inp)"
  by (simp only: readU16BigEndian_def slice_2 be_val_2)

lemma readU32_eq [be_simps]:
  "p + 4 \<le> length inp \<Longrightarrow> readU32BigEndian inp p = be_val (slice p 4 inp)"
  by (simp only: readU32BigEndian_def slice_4 be_val_4)

lemma readU64_eq [be_simps]:
  "p + 8 \<le> length inp \<Longrightarrow> readU64BigEndian inp p = be_val (slice p 8 inp)"
  unfolding readU64BigEndian_def be_val_def by (rule fold_slice)

section \<open>TEST packet\<close>

definition kProtocolVersion :: u8 where "kProtocolVersion = 1"
definition kPacketTypeTest :: u8 where "kPacketTypeTest = 1"
definition kTestPacketSize :: nat where "kTestPacketSize = 18"

record TestPacket =
  test_source_device_id :: u64
  test_sequence_number :: u32
  test_uptime_ms :: u32

definition serializeTestPacket :: "TestPacket \<Rightarrow> bytes option \<Rightarrow> bytes option" where
  "serializeTestPacket packet output =
     (case output of None \<Rightarrow> None
      | Some out \<Rightarrow>
          if length out \<noteq> kTestPacketSize then None
          else let out = out[0 := kProtocolVersion, 1 := kPacketTypeTest];
                   out = writeU64BigEndian out 2 (test_source_device_id packet);
                   out = writeU32BigEndian out 10 (test_sequence_number packet);
                   out = writeU32BigEndian out 14 (test_uptime_ms packet)
               in Some out)"

definition deserializeTestPacket :: "bytes option \<Rightarrow> TestPacket option" where
  "deserializeTestPacket input =
     (case input of None \<Rightarrow> None
      | Some inp \<Rightarrow>
          if length inp \<noteq> kTestPacketSize \<or> inp ! 0 \<noteq> kProtocolVersion \<or> inp ! 1 \<noteq> kPacketTypeTest
          then None
          else Some \<lparr>test_source_device_id = readU64BigEndian inp 2,
                     test_sequence_number = readU32BigEndian inp 10,
                     test_uptime_ms = readU32BigEndian inp 14\<rparr>)"

section \<open>POSITION packet\<close>

definition kPacketTypePosition :: u8 where "kPacketTypePosition = 2"
definition kPositionPacketSize :: nat where "kPositionPacketSize = 34"

definition kPositionFlagValidFix :: u8 where "kPositionFlagValidFix = push_bit 0 1"
definition kPositionFlagValidUtcTime :: u8 where "kPositionFlagValidUtcTime = push_bit 1 1"
definition kPositionFlag3dFix :: u8 where "kPositionFlag3dFix = push_bit 2 1"

record PositionPacket =
  source_device_id :: u64
  sequence_number :: u32
  gnss_utc_epoch_seconds :: u32
  pos_latitude_e7 :: i32
  pos_longitude_e7 :: i32
  altitude_mm :: i32
  hdop_x100 :: u16
  satellites :: u8
  flags :: u8

definition coordinatesAreInRange :: "i32 \<Rightarrow> i32 \<Rightarrow> bool" where
  "coordinatesAreInRange lat lon \<longleftrightarrow>
     sint lat \<ge> -900000000 \<and> sint lat \<le> 900000000 \<and>
     sint lon \<ge> -1800000000 \<and> sint lon \<le> 1800000000"

definition serializePositionPacket :: "PositionPacket \<Rightarrow> bytes option \<Rightarrow> bytes option" where
  "serializePositionPacket packet output =
     (case output of None \<Rightarrow> None
      | Some out \<Rightarrow>
          if length out \<noteq> kPositionPacketSize \<or>
             \<not> coordinatesAreInRange (pos_latitude_e7 packet) (pos_longitude_e7 packet) \<or>
             flags packet AND NOT 0x07 \<noteq> 0
          then None
          else let out = out[0 := kProtocolVersion, 1 := kPacketTypePosition];
                   out = writeU64BigEndian out 2 (source_device_id packet);
                   out = writeU32BigEndian out 10 (sequence_number packet);
                   out = writeU32BigEndian out 14 (gnss_utc_epoch_seconds packet);
                   out = writeU32BigEndian out 18 (pos_latitude_e7 packet);
                   out = writeU32BigEndian out 22 (pos_longitude_e7 packet);
                   out = writeU32BigEndian out 26 (altitude_mm packet);
                   out = writeU16BigEndian out 30 (hdop_x100 packet);
                   out = out[32 := satellites packet, 33 := flags packet]
               in Some out)"

definition deserializePositionPacket :: "bytes option \<Rightarrow> PositionPacket option" where
  "deserializePositionPacket input =
     (case input of None \<Rightarrow> None
      | Some inp \<Rightarrow>
          if length inp \<noteq> kPositionPacketSize \<or> inp ! 0 \<noteq> kProtocolVersion \<or>
             inp ! 1 \<noteq> kPacketTypePosition
          then None
          else let packet = \<lparr>source_device_id = readU64BigEndian inp 2,
                             sequence_number = readU32BigEndian inp 10,
                             gnss_utc_epoch_seconds = readU32BigEndian inp 14,
                             pos_latitude_e7 = readU32BigEndian inp 18,
                             pos_longitude_e7 = readU32BigEndian inp 22,
                             altitude_mm = readU32BigEndian inp 26,
                             hdop_x100 = readU16BigEndian inp 30,
                             satellites = inp ! 32,
                             flags = inp ! 33\<rparr>
               in if coordinatesAreInRange (pos_latitude_e7 packet) (pos_longitude_e7 packet) \<and>
                     flags packet AND NOT 0x07 = 0
                  then Some packet else None)"

section \<open>RELAY_FORWARD envelope\<close>

definition kPacketTypeRelayForward :: u8 where "kPacketTypeRelayForward = 3"
definition kRelayHopCount :: u8 where "kRelayHopCount = 1"
definition kRelayForwardHeaderSize :: nat where "kRelayForwardHeaderSize = 15"
definition kRelayForwardPacketSize :: nat where
  "kRelayForwardPacketSize = kRelayForwardHeaderSize + kPositionPacketSize"

record RelayForwardPacket =
  relay_device_id :: u64
  hop_count :: u8
  original_length :: u8
  ingress_rssi_dbm :: i16
  ingress_snr_db :: i8
  original_packet :: bytes

datatype RelayDecodeStatus =
  kOk | kLength | kVersion | kType | kHopCount | kOriginalLength | kNestedRelay
  | kInnerVersion | kInnerType | kMalformedPosition

text \<open>The inner packet is passed with \<open>original_length\<close>, which the guard before has fixed to 34.\<close>

definition serializeRelayForwardPacket :: "RelayForwardPacket \<Rightarrow> bytes option \<Rightarrow> bytes option" where
  "serializeRelayForwardPacket packet output =
     (case output of None \<Rightarrow> None
      | Some out \<Rightarrow>
          if length out \<noteq> kRelayForwardPacketSize \<or> hop_count packet \<noteq> kRelayHopCount \<or>
             original_length packet \<noteq> of_nat kPositionPacketSize \<or>
             deserializePositionPacket
               (Some (slice 0 (unat (original_length packet)) (original_packet packet))) = None
          then None
          else let out = out[0 := kProtocolVersion, 1 := kPacketTypeRelayForward];
                   out = writeU64BigEndian out 2 (relay_device_id packet);
                   out = out[10 := hop_count packet, 11 := original_length packet];
                   out = writeU16BigEndian out 12 (ingress_rssi_dbm packet);
                   out = out[14 := ingress_snr_db packet];
                   out = write_at kRelayForwardHeaderSize
                           (slice 0 kPositionPacketSize (original_packet packet)) out
               in Some out)"

text \<open>The status, and on \<open>kOk\<close> the envelope and the decoded inner position.\<close>

definition deserializeRelayForwardPacket ::
  "bytes option \<Rightarrow> RelayDecodeStatus \<times> (RelayForwardPacket \<times> PositionPacket) option" where
  "deserializeRelayForwardPacket input =
     (case input of None \<Rightarrow> (kLength, None)
      | Some inp \<Rightarrow>
          if length inp < kRelayForwardHeaderSize then (kLength, None)
          else if inp ! 0 \<noteq> kProtocolVersion then (kVersion, None)
          else if inp ! 1 \<noteq> kPacketTypeRelayForward then (kType, None)
          else if inp ! 10 \<noteq> kRelayHopCount then (kHopCount, None)
          else if inp ! 11 \<noteq> of_nat kPositionPacketSize then (kOriginalLength, None)
          else if length inp \<noteq> kRelayForwardHeaderSize + unat (inp ! 11) then (kLength, None)
          else let original = drop kRelayForwardHeaderSize inp in
          if original ! 0 \<noteq> kProtocolVersion then (kInnerVersion, None)
          else if original ! 1 = kPacketTypeRelayForward then (kNestedRelay, None)
          else if original ! 1 \<noteq> kPacketTypePosition then (kInnerType, None)
          else (case deserializePositionPacket (Some (slice 0 (unat (inp ! 11)) original)) of
                  None \<Rightarrow> (kMalformedPosition, None)
                | Some position \<Rightarrow>
                    (kOk, Some (\<lparr>relay_device_id = readU64BigEndian inp 2,
                                 hop_count = inp ! 10,
                                 original_length = inp ! 11,
                                 ingress_rssi_dbm = readU16BigEndian inp 12,
                                 ingress_snr_db = inp ! 14,
                                 original_packet = slice 0 kPositionPacketSize original\<rparr>,
                               position))))"

section \<open>Codec lemmas\<close>

lemmas tlp_sizes = kTestPacketSize_def kPositionPacketSize_def kRelayForwardHeaderSize_def
  kRelayForwardPacketSize_def
lemmas tlp_tags = kProtocolVersion_def kPacketTypeTest_def kPacketTypePosition_def
  kPacketTypeRelayForward_def kRelayHopCount_def

lemma test_roundtrip:
  assumes "serializeTestPacket p output = Some out"
  shows "deserializeTestPacket (Some out) = Some p"
proof -
  obtain o0 where o0: "output = Some o0" "length o0 = 18"
    and out: "Some out = serializeTestPacket p (Some o0)"
    using assms by (auto simp: serializeTestPacket_def kTestPacketSize_def split: option.splits if_splits)
  show ?thesis
    using out o0
    by (simp add: serializeTestPacket_def deserializeTestPacket_def tlp_sizes tlp_tags
        be_simps buffer_simps)
qed

definition position_ok :: "PositionPacket \<Rightarrow> bool" where
  "position_ok p \<longleftrightarrow>
     coordinatesAreInRange (pos_latitude_e7 p) (pos_longitude_e7 p) \<and> flags p AND NOT 0x07 = 0"

lemma serializePosition_Some:
  "serializePositionPacket p output = Some out \<Longrightarrow>
   (\<exists>o0. output = Some o0 \<and> length o0 = 34) \<and> position_ok p \<and> length out = 34"
  by (auto simp: serializePositionPacket_def position_ok_def tlp_sizes be_simps
      split: option.splits if_splits)

lemma serializePosition_succeeds:
  "position_ok p \<Longrightarrow> length o0 = 34 \<Longrightarrow> \<exists>out. serializePositionPacket p (Some o0) = Some out"
  by (simp add: serializePositionPacket_def position_ok_def kPositionPacketSize_def Let_def)

lemma position_roundtrip:
  assumes "serializePositionPacket p output = Some out"
  shows "deserializePositionPacket (Some out) = Some p"
proof -
  from serializePosition_Some [OF assms] obtain o0
    where o0: "output = Some o0" "length o0 = 34" and ok: "position_ok p" by blast
  show ?thesis
    using assms ok o0
    by (auto simp: serializePositionPacket_def deserializePositionPacket_def position_ok_def
        tlp_sizes tlp_tags be_simps buffer_simps)
qed

lemma deserializePosition_Some:
  "deserializePositionPacket (Some inp) = Some p \<Longrightarrow>
   length inp = 34 \<and> inp ! 0 = kProtocolVersion \<and> inp ! 1 = kPacketTypePosition \<and> position_ok p"
  by (auto simp: deserializePositionPacket_def position_ok_def kPositionPacketSize_def Let_def
      split: if_splits)

text \<open>Re-serializing a decoded packet gives back the very bytes it was decoded from.\<close>

lemma position_canonical:
  assumes dec: "deserializePositionPacket (Some inp) = Some p" and len: "length o0 = 34"
  shows "serializePositionPacket p (Some o0) = Some inp"
proof -
  from deserializePosition_Some [OF dec] have inp: "length inp = 34" and ok: "position_ok p"
    and tags: "inp ! 0 = kProtocolVersion" "inp ! 1 = kPacketTypePosition" by auto
  have p: "p = \<lparr>source_device_id = be_val (slice 2 8 inp), sequence_number = be_val (slice 10 4 inp),
      gnss_utc_epoch_seconds = be_val (slice 14 4 inp), pos_latitude_e7 = be_val (slice 18 4 inp),
      pos_longitude_e7 = be_val (slice 22 4 inp), altitude_mm = be_val (slice 26 4 inp),
      hdop_x100 = be_val (slice 30 2 inp), satellites = inp ! 32, flags = inp ! 33\<rparr>"
    using dec inp by (auto simp: deserializePositionPacket_def Let_def be_simps split: if_splits)
  obtain out where out: "serializePositionPacket p (Some o0) = Some out"
    using serializePosition_succeeds [OF ok len] by blast
  have "out = inp"
  proof (rule nth_equalityI)
    show "length out = length inp" using serializePosition_Some [OF out] inp by simp
    fix i assume "i < length out"
    then have i: "i < 34" using serializePosition_Some [OF out] by simp
    show "out ! i = inp ! i"
      using out ok i inp len tags
      by (cases "i = 0"; cases "i = 1")
        (auto simp: serializePositionPacket_def kPositionPacketSize_def position_ok_def be_simps p
          nth_list_update nth_write_at_slice)
  qed
  then show ?thesis using out by simp
qed

lemma deserializePosition_inj:
  "deserializePositionPacket (Some a) = Some p \<Longrightarrow> deserializePositionPacket (Some b) = Some p \<Longrightarrow> a = b"
  using position_canonical [of a p "replicate 34 0"] position_canonical [of b p "replicate 34 0"]
  by simp

definition relay_ok :: "RelayForwardPacket \<Rightarrow> bool" where
  "relay_ok p \<longleftrightarrow> hop_count p = 1 \<and> original_length p = 34 \<and> length (original_packet p) = 34 \<and>
     deserializePositionPacket (Some (original_packet p)) \<noteq> None"

lemma serializeRelay_succeeds:
  "relay_ok p \<Longrightarrow> length o0 = 49 \<Longrightarrow>
   \<exists>out. serializeRelayForwardPacket p (Some o0) = Some out \<and> length out = 49"
  by (auto simp: serializeRelayForwardPacket_def relay_ok_def tlp_sizes tlp_tags Let_def slice_full
      be_simps)

lemma relay_roundtrip:
  assumes ser: "serializeRelayForwardPacket p output = Some out"
    and len: "length (original_packet p) = 34"
  shows "\<exists>pos. deserializePositionPacket (Some (original_packet p)) = Some pos \<and>
    deserializeRelayForwardPacket (Some out) = (kOk, Some (p, pos))"
proof -
  from ser obtain o0 pos where o0: "output = Some o0" "length o0 = 49"
    and hop: "hop_count p = 1" "original_length p = 34"
    and pos: "deserializePositionPacket (Some (original_packet p)) = Some pos"
    using len
    by (auto simp: serializeRelayForwardPacket_def tlp_sizes tlp_tags slice_full
        split: option.splits if_splits)
  let ?b = "writeU16BigEndian ((writeU64BigEndian (o0[0 := 1, 1 := 3]) 2 (relay_device_id p))
      [10 := 1, 11 := 34]) 12 (ingress_rssi_dbm p)"
  have out: "out = write_at 15 (original_packet p) (?b[14 := ingress_snr_db p])"
    using ser o0 hop pos len
    by (simp add: serializeRelayForwardPacket_def tlp_sizes tlp_tags slice_full Let_def)
  have "slice 15 34 out = original_packet p" using o0 len by (simp add: out be_simps buffer_simps)
  moreover have lout: "length out = 49" using o0 by (simp add: out be_simps)
  ultimately have inner: "drop 15 out = original_packet p" by (simp add: slice_def)
  from deserializePosition_Some [OF pos]
  have tags: "original_packet p ! 0 = 1" "original_packet p ! Suc 0 = 2" by (simp_all add: tlp_tags)
  have "deserializeRelayForwardPacket (Some out) = (kOk, Some (p, pos))"
    using o0 hop pos len
    by (simp add: deserializeRelayForwardPacket_def tlp_sizes tlp_tags Let_def lout inner tags
        slice_full) (simp add: out be_simps buffer_simps)
  then show ?thesis using pos by blast
qed

text \<open>A relay envelope never carries another relay envelope.\<close>

lemma relay_decode_inner:
  assumes "deserializeRelayForwardPacket (Some inp) = (st, Some (p, pos))"
  shows "st = kOk \<and> relay_ok p \<and> deserializePositionPacket (Some (original_packet p)) = Some pos"
  using assms
  by (auto simp: deserializeRelayForwardPacket_def relay_ok_def tlp_sizes tlp_tags Let_def slice_full
      split: if_splits option.splits dest: deserializePosition_Some)

lemma relay_decode_tags:
  "deserializeRelayForwardPacket (Some inp) = (st, Some d) \<Longrightarrow>
   2 \<le> length inp \<and> inp ! 0 = kProtocolVersion \<and> inp ! 1 = kPacketTypeRelayForward"
  by (auto simp: deserializeRelayForwardPacket_def tlp_sizes Let_def split: if_splits)

section \<open>Properties\<close>

text \<open>
  the POSITION codec is exact.  Whatever \<open>serializePositionPacket\<close> produces decodes to the
  packet it was given, and re-serializing a decoded packet reproduces the received bytes, so
  every accepted packet has exactly one encoding.
\<close>

theorem position_codec_exact:
  "(serializePositionPacket p (Some o0) = Some out \<longrightarrow>
      deserializePositionPacket (Some out) = Some p) \<and>
   (deserializePositionPacket (Some inp) = Some p \<and> length o0 = 34 \<longrightarrow>
      serializePositionPacket p (Some o0) = Some inp)"
  using position_roundtrip position_canonical by blast

theorem position_codec_exact_witness:
  "\<exists>p out. serializePositionPacket p (Some (replicate 34 0)) = Some out \<and>
     deserializePositionPacket (Some out) = Some p"
proof -
  let ?p = "\<lparr>source_device_id = 1, sequence_number = 2, gnss_utc_epoch_seconds = 3,
     pos_latitude_e7 = -900000000, pos_longitude_e7 = 1800000000, altitude_mm = -5, hdop_x100 = 90,
     satellites = 9, flags = 7\<rparr>"
  have "position_ok ?p" by code_simp
  then obtain out where "serializePositionPacket ?p (Some (replicate 34 0)) = Some out"
    using serializePosition_succeeds [of ?p "replicate 34 0"] by auto
  then show ?thesis using position_codec_exact [of ?p "replicate 34 0" out] by blast
qed

text \<open>
  the relay envelope round trip.  A serialized envelope decodes with status \<open>kOk\<close> to the
  same envelope and to the position its inner packet decodes to.
\<close>

theorem relay_envelope_roundtrip:
  assumes "serializeRelayForwardPacket p (Some o0) = Some out" and "length (original_packet p) = 34"
  shows "\<exists>pos. deserializePositionPacket (Some (original_packet p)) = Some pos \<and>
    deserializeRelayForwardPacket (Some out) = (kOk, Some (p, pos))"
  using assms by (rule relay_roundtrip)

theorem relay_envelope_roundtrip_witness:
  "\<exists>p out pos. serializeRelayForwardPacket p (Some (replicate 49 0)) = Some out \<and>
     deserializeRelayForwardPacket (Some out) = (kOk, Some (p, pos))"
proof -
  let ?p = "\<lparr>relay_device_id = 7, hop_count = 1, original_length = 34, ingress_rssi_dbm = -90,
     ingress_snr_db = -3, original_packet = [1, 2] @ replicate 32 0\<rparr>"
  have ok: "relay_ok ?p" by code_simp
  then obtain out where "serializeRelayForwardPacket ?p (Some (replicate 49 0)) = Some out"
    using serializeRelay_succeeds [of ?p "replicate 49 0"] by auto
  then show ?thesis
    using relay_envelope_roundtrip [of ?p "replicate 49 0" out] ok by (auto simp: relay_ok_def)
qed

end
