(* ===== verification/Node_Role.thy ===== *)
theory Node_Role
  imports Prelude "HOL-Library.Char_ord"
begin

text \<open>
  \<open>firmware/include/node_role.h\<close>, \<open>node_behavior.h\<close> and \<open>firmware/src/node_role.cpp\<close>: the
  legacy role of a node, the behaviour it stands for, the serial ROLE command and the
  controller that follows GNSS detection until the operator overrides it.
\<close>

datatype NodeRole = kTracker | kRelay | kBase

record LegacyRoleBehavior =
  relay_forwarding_enabled_value :: bool
  publish_gnss_position_value :: bool
  receive_application_position_value :: bool

fun legacyRoleBehavior :: "NodeRole \<Rightarrow> LegacyRoleBehavior" where
  "legacyRoleBehavior NodeRole.kTracker = \<lparr>relay_forwarding_enabled_value = False,
     publish_gnss_position_value = True, receive_application_position_value = False\<rparr>"
| "legacyRoleBehavior NodeRole.kRelay = \<lparr>relay_forwarding_enabled_value = True,
     publish_gnss_position_value = False, receive_application_position_value = False\<rparr>"
| "legacyRoleBehavior NodeRole.kBase = \<lparr>relay_forwarding_enabled_value = False,
     publish_gnss_position_value = False, receive_application_position_value = True\<rparr>"

fun roleName :: "NodeRole \<Rightarrow> string" where
  "roleName NodeRole.kTracker = ''TRACKER''"
| "roleName NodeRole.kRelay = ''RELAY''"
| "roleName NodeRole.kBase = ''BASE''"

datatype RoleCommand = kNone | kQuery | CmdTracker | CmdRelay | CmdBase | kInvalid

definition upper :: "char \<Rightarrow> char" where
  "upper value = (if (of_char value :: nat) \<ge> 97 \<and> (of_char value :: nat) \<le> 122
     then char_of (of_char value - 97 + 65 :: nat) else value)"

fun equals :: "string \<Rightarrow> string \<Rightarrow> bool" where
  "equals input [] = (input = [])"
| "equals [] (e # es) = False"
| "equals (c # cs) (e # es) = (if upper c \<noteq> e then False else equals cs es)"

definition is_blank :: "char \<Rightarrow> bool" where
  "is_blank c \<longleftrightarrow> c = CHR '' '' \<or> c = CHR 0x09"

definition trim :: "string \<Rightarrow> string" where
  "trim line = rev (dropWhile is_blank (rev (dropWhile is_blank line)))"

definition parseRoleCommand :: "string option \<Rightarrow> RoleCommand" where
  "parseRoleCommand line =
     (case line of None \<Rightarrow> kInvalid
      | Some l \<Rightarrow>
          let t = trim l in
          if equals t ''ROLE?'' then kQuery
          else if equals t ''ROLE TRACKER'' then CmdTracker
          else if equals t ''ROLE RELAY'' then CmdRelay
          else if equals t ''ROLE BASE'' then CmdBase
          else if length t = 0 then kNone else kInvalid)"

record RoleController =
  rc_role :: NodeRole
  rc_automatic :: bool

definition RoleController_init :: RoleController where
  "RoleController_init = \<lparr>rc_role = NodeRole.kBase, rc_automatic = True\<rparr>"

definition updateAutomatic :: "RoleController \<Rightarrow> bool \<Rightarrow> bool \<Rightarrow> bool \<times> RoleController" where
  "updateAutomatic c detection_complete gnss_detected =
     (if \<not> rc_automatic c \<or> \<not> detection_complete then (False, c)
      else let nxt = (if gnss_detected then NodeRole.kTracker else NodeRole.kBase)
           in (nxt \<noteq> rc_role c, c\<lparr>rc_role := nxt\<rparr>))"

definition applyOverride :: "RoleController \<Rightarrow> NodeRole \<Rightarrow> bool \<times> RoleController" where
  "applyOverride c role =
     (rc_automatic c \<or> role \<noteq> rc_role c, c\<lparr>rc_automatic := False, rc_role := role\<rparr>)"

definition restoreAutomatic :: "RoleController \<Rightarrow> RoleController" where
  "restoreAutomatic c = c\<lparr>rc_automatic := True\<rparr>"

lemma equals_iff: "equals input e \<longleftrightarrow> map upper input = e"
  by (induction input e rule: equals.induct) auto

lemma of_char_upper:
  "(of_char (upper c) :: nat) =
   (if 97 \<le> (of_char c :: nat) \<and> (of_char c :: nat) \<le> 122 then of_char c - 32 else of_char c)"
proof -
  have "(of_char c :: nat) < 256"
    by (metis of_char_mod_256 mod_less_divisor zero_less_numeral)
  then have "of_char c - 32 < (256 :: nat)" by (rule less_imp_diff_less)
  then have "(of_char c - 32) mod 256 = (of_char c - 32 :: nat)" by (rule mod_less)
  then show ?thesis by (auto simp: upper_def of_char_of)
qed

lemma upper_upper [simp]: "upper (upper c) = upper c"
proof -
  have "(of_char (upper (upper c)) :: nat) = of_char (upper c)"
    by (subst of_char_upper) (auto simp: of_char_upper)
  then show ?thesis by simp
qed

lemma is_blank_code: "is_blank x \<longleftrightarrow> (of_char x :: nat) = 32 \<or> (of_char x :: nat) = 9"
proof -
  have "(of_char (CHR '' '') :: nat) = 32" "(of_char (CHR 0x09) :: nat) = 9" by simp_all
  then show ?thesis unfolding is_blank_def by (metis of_char_eq_iff)
qed

lemma upper_blank [simp]: "is_blank (upper c) \<longleftrightarrow> is_blank c"
  by (auto simp: is_blank_code of_char_upper)

lemma trim_map_upper: "trim (map upper l) = map upper (trim l)"
proof -
  have "dropWhile is_blank (map upper xs) = map upper (dropWhile is_blank xs)" for xs
    by (simp add: dropWhile_map comp_def)
  then show ?thesis by (simp add: trim_def rev_map)
qed

lemma trim_surround:
  assumes "\<forall>c \<in> set ls. is_blank c" and "\<forall>c \<in> set rs. is_blank c"
  shows "trim (ls @ l @ rs) = trim l"
proof -
  have "dropWhile is_blank (rev (dropWhile is_blank (l @ rs))) = dropWhile is_blank (rev (dropWhile is_blank l))"
  proof (cases "\<forall>c \<in> set l. is_blank c")
    case True
    then have "dropWhile is_blank (l @ rs) = []" "dropWhile is_blank l = []"
      using assms(2) by (simp_all add: dropWhile_eq_Nil_conv ball_Un)
    then show ?thesis by (simp only: rev.simps dropWhile.simps)
  next
    case False
    then have "dropWhile is_blank (l @ rs) = dropWhile is_blank l @ rs"
      by (auto simp: dropWhile_append)
    then show ?thesis using assms(2) by (simp add: dropWhile_append)
  qed
  moreover have "dropWhile is_blank (ls @ l @ rs) = dropWhile is_blank (l @ rs)"
    using assms(1) by (simp add: dropWhile_append)
  ultimately show ?thesis by (simp add: trim_def)
qed

end
