(* ===== verification/Network_Service.thy ===== *)
theory Network_Service
  imports Node_Role Packet_Dedupe Tlp_Packets Monotonic_Time
begin

text \<open>
  \<open>firmware/include/network_service.h\<close>, \<open>relay_config.h\<close> and
  \<open>firmware/src/network_service.cpp\<close>: one-hop relaying and base reception of POSITION
  packets.  A received payload is a possibly null buffer; \<open>receive\<close> returns the event and
  the new service state, \<open>takeDueForward\<close> the envelope to transmit, if one is due.
\<close>

definition kMinimumDelayMs :: u32 where "kMinimumDelayMs = 1200"
definition kMaximumDelayMs :: u32 where "kMaximumDelayMs = 4200"
definition kForwardQueueSize :: nat where "kForwardQueueSize = 4"
definition kRelayDedupeSize :: nat where "kRelayDedupeSize = 16"
definition kBaseDedupeSize :: nat where "kBaseDedupeSize = 32"

datatype NetworkEventKind =
  EvNone | kIgnoredPosition | kMalformed | kRelayQueued | kRelayDuplicate | kRelayQueueDrop
  | kRelayNestedRejected | kBaseNew | kBaseDuplicate

datatype NetworkPath = kDirect | PathRelay

record NetworkEvent =
  ev_kind :: NetworkEventKind
  ev_path :: NetworkPath
  ev_position :: PositionPacket
  ev_relay_device_id :: u64
  ev_ingress_rssi_dbm :: i16
  ev_ingress_snr_db :: i8
  ev_link_rssi_dbm :: i16
  ev_link_snr_db :: i8
  ev_relay_delay_ms :: u32

definition PositionPacket_zero :: PositionPacket where
  "PositionPacket_zero = \<lparr>source_device_id = 0, sequence_number = 0, gnss_utc_epoch_seconds = 0,
     pos_latitude_e7 = 0, pos_longitude_e7 = 0, altitude_mm = 0, hdop_x100 = 0, satellites = 0,
     flags = 0\<rparr>"

definition NetworkEvent_init :: NetworkEvent where
  "NetworkEvent_init = \<lparr>ev_kind = EvNone, ev_path = kDirect, ev_position = PositionPacket_zero,
     ev_relay_device_id = 0, ev_ingress_rssi_dbm = 0, ev_ingress_snr_db = 0,
     ev_link_rssi_dbm = 0, ev_link_snr_db = 0, ev_relay_delay_ms = 0\<rparr>"

record RelayDiagnostics =
  valid_packets_received :: u32
  duplicates_suppressed :: u32
  queued :: u32
  queue_drops :: u32
  forwards_attempted :: u32
  forwards_completed :: u32
  forward_failures :: u32
  malformed_rejected :: u32
  nested_rejected :: u32

record BaseDiagnostics =
  new_application_packets :: u32
  duplicates :: u32
  direct_observations :: u32
  relay_observations :: u32
  malformed_relay_envelopes :: u32

definition RelayDiagnostics_init :: RelayDiagnostics where
  "RelayDiagnostics_init = \<lparr>valid_packets_received = 0, duplicates_suppressed = 0, queued = 0,
     queue_drops = 0, forwards_attempted = 0, forwards_completed = 0, forward_failures = 0,
     malformed_rejected = 0, nested_rejected = 0\<rparr>"

definition BaseDiagnostics_init :: BaseDiagnostics where
  "BaseDiagnostics_init = \<lparr>new_application_packets = 0, duplicates = 0, direct_observations = 0,
     relay_observations = 0, malformed_relay_envelopes = 0\<rparr>"

record QueueEntry =
  qe_valid :: bool
  qe_due_ms :: u32
  qe_ingress_rssi_dbm :: i16
  qe_ingress_snr_db :: i8
  qe_packet :: bytes

definition QueueEntry_init :: QueueEntry where
  "QueueEntry_init = \<lparr>qe_valid = False, qe_due_ms = 0, qe_ingress_rssi_dbm = 0,
     qe_ingress_snr_db = 0, qe_packet = replicate kPositionPacketSize 0\<rparr>"

record NetworkService =
  local_device_id :: u64
  ns_role :: NodeRole
  relay_forwarding_enabled :: bool
  relay_dedupe :: "PacketKey dedupe_cache"
  base_dedupe :: "PacketKey dedupe_cache"
  queue :: "QueueEntry list"
  queued_count :: u8
  forward_active :: bool
  relay_diagnostics :: RelayDiagnostics
  base_diagnostics :: BaseDiagnostics

definition PacketKey_zero :: PacketKey where
  "PacketKey_zero = \<lparr>key_source_device_id = 0, key_sequence_number = 0\<rparr>"

definition NetworkService_init :: NetworkService where
  "NetworkService_init = \<lparr>local_device_id = 0, ns_role = NodeRole.kBase,
     relay_forwarding_enabled = False,
     relay_dedupe = dd_empty kRelayDedupeSize PacketKey_zero,
     base_dedupe = dd_empty kBaseDedupeSize PacketKey_zero,
     queue = replicate kForwardQueueSize QueueEntry_init, queued_count = 0,
     forward_active = False, relay_diagnostics = RelayDiagnostics_init,
     base_diagnostics = BaseDiagnostics_init\<rparr>"

section \<open>Operations\<close>

definition mix :: "u32 \<Rightarrow> u32" where
  "mix value =
     (let value = value XOR drop_bit 16 value;
          value = value * 0x7FEB352D;
          value = value XOR drop_bit 15 value;
          value = value * 0x846CA68B
      in value XOR drop_bit 16 value)"

definition keyFor :: "PositionPacket \<Rightarrow> PacketKey" where
  "keyFor packet = \<lparr>key_source_device_id = source_device_id packet,
                    key_sequence_number = sequence_number packet\<rparr>"

definition deterministicRelayDelay :: "u64 \<Rightarrow> u32 \<Rightarrow> u64 \<Rightarrow> u32" where
  "deterministicRelayDelay source seqn relay =
     (let value = ucast source XOR ucast (drop_bit 32 source) XOR seqn;
          value = mix (value XOR ucast relay);
          value = mix (value XOR ucast (drop_bit 32 relay));
          width = kMaximumDelayMs - kMinimumDelayMs + 1
      in kMinimumDelayMs + value mod width)"

definition clearQueue :: "NetworkService \<Rightarrow> NetworkService" where
  "clearQueue s = s\<lparr>queue := map (\<lambda>e. e\<lparr>qe_valid := False\<rparr>) (queue s), queued_count := 0\<rparr>"

definition ns_begin :: "NetworkService \<Rightarrow> u64 \<Rightarrow> NodeRole \<Rightarrow> NetworkService" where
  "ns_begin s device role =
     (let s = s\<lparr>local_device_id := device, ns_role := role,
                relay_forwarding_enabled := relay_forwarding_enabled_value (legacyRoleBehavior role),
                relay_dedupe := dd_clear (relay_dedupe s),
                base_dedupe := dd_clear (base_dedupe s)\<rparr>;
          s = clearQueue s
      in s\<lparr>forward_active := False, relay_diagnostics := RelayDiagnostics_init,
           base_diagnostics := BaseDiagnostics_init\<rparr>)"

definition setRole :: "NetworkService \<Rightarrow> NodeRole \<Rightarrow> NetworkService" where
  "setRole s role =
     (if role = ns_role s then s
      else let s = s\<lparr>ns_role := role,
                     relay_forwarding_enabled := relay_forwarding_enabled_value (legacyRoleBehavior role),
                     relay_dedupe := dd_clear (relay_dedupe s),
                     base_dedupe := dd_clear (base_dedupe s)\<rparr>;
               s = clearQueue s
           in s\<lparr>forward_active := False\<rparr>)"

definition resetRelayState :: "NetworkService \<Rightarrow> NetworkService" where
  "resetRelayState s =
     (clearQueue (s\<lparr>relay_dedupe := dd_clear (relay_dedupe s)\<rparr>))\<lparr>forward_active := False\<rparr>"

definition setRelayForwardingEnabled :: "NetworkService \<Rightarrow> bool \<Rightarrow> NetworkService" where
  "setRelayForwardingEnabled s enabled =
     (if enabled = relay_forwarding_enabled s then s
      else resetRelayState (s\<lparr>relay_forwarding_enabled := enabled\<rparr>))"

definition malformedEvent :: "NetworkService \<Rightarrow> bool \<Rightarrow> NetworkEvent \<times> NetworkService" where
  "malformedEvent s relay_envelope =
     (let rd = relay_diagnostics s; bd = base_diagnostics s;
          rd' = (if relay_forwarding_enabled s
                 then rd\<lparr>malformed_rejected := malformed_rejected rd + 1\<rparr> else rd);
          bd' = (if ns_role s = NodeRole.kBase \<and> relay_envelope
                 then bd\<lparr>malformed_relay_envelopes := malformed_relay_envelopes bd + 1\<rparr> else bd)
      in (NetworkEvent_init\<lparr>ev_kind := kMalformed\<rparr>,
          s\<lparr>relay_diagnostics := rd', base_diagnostics := bd'\<rparr>))"

definition enqueue :: "NetworkService \<Rightarrow> bytes \<Rightarrow> i16 \<Rightarrow> i8 \<Rightarrow> u32 \<Rightarrow> NetworkService option" where
  "enqueue s packet rssi snr due =
     (case find (\<lambda>i. \<not> qe_valid (queue s ! i)) [0..<length (queue s)] of
        None \<Rightarrow> None
      | Some i \<Rightarrow>
          Some (s\<lparr>queue := (queue s)[i := \<lparr>qe_valid = True, qe_due_ms = due, qe_ingress_rssi_dbm = rssi,
                     qe_ingress_snr_db = snr, qe_packet = slice 0 kPositionPacketSize packet\<rparr>],
                  queued_count := queued_count s + 1\<rparr>))"

text \<open>The base branch shared by direct and relayed positions: observe the key, count, name the event.\<close>

definition base_observe :: "NetworkService \<Rightarrow> NetworkEvent \<Rightarrow> NetworkEvent \<times> NetworkService" where
  "base_observe s event =
     (let (seen, cache) = dd_observe (base_dedupe s) (keyFor (ev_position event));
          bd = base_diagnostics s; s = s\<lparr>base_dedupe := cache\<rparr>
      in if seen then (event\<lparr>ev_kind := kBaseDuplicate\<rparr>,
                       s\<lparr>base_diagnostics := bd\<lparr>duplicates := duplicates bd + 1\<rparr>\<rparr>)
         else (event\<lparr>ev_kind := kBaseNew\<rparr>,
               s\<lparr>base_diagnostics := bd\<lparr>new_application_packets := new_application_packets bd + 1\<rparr>\<rparr>))"

definition receive_position ::
  "NetworkService \<Rightarrow> bytes \<Rightarrow> i16 \<Rightarrow> i8 \<Rightarrow> u32 \<Rightarrow> NetworkEvent \<times> NetworkService" where
  "receive_position s payload rssi snr now_ms =
     (case deserializePositionPacket (Some payload) of
        None \<Rightarrow> malformedEvent s False
      | Some position \<Rightarrow>
          let event = NetworkEvent_init\<lparr>ev_position := position, ev_path := kDirect,
                        ev_link_rssi_dbm := rssi, ev_link_snr_db := snr\<rparr>;
              rd = relay_diagnostics s; bd = base_diagnostics s in
          if relay_forwarding_enabled s then
            (let rd = rd\<lparr>valid_packets_received := valid_packets_received rd + 1\<rparr>;
                 key = keyFor position in
             if dd_contains (relay_dedupe s) key
             then (event\<lparr>ev_kind := kRelayDuplicate\<rparr>,
                   s\<lparr>relay_diagnostics := rd\<lparr>duplicates_suppressed := duplicates_suppressed rd + 1\<rparr>\<rparr>)
             else
               let delay = deterministicRelayDelay (source_device_id position)
                             (sequence_number position) (local_device_id s);
                   event = event\<lparr>ev_relay_delay_ms := delay\<rparr> in
               (case enqueue s payload rssi snr (now_ms + delay) of
                  None \<Rightarrow> (event\<lparr>ev_kind := kRelayQueueDrop\<rparr>,
                           s\<lparr>relay_diagnostics := rd\<lparr>queue_drops := queue_drops rd + 1\<rparr>\<rparr>)
                | Some s' \<Rightarrow>
                    (event\<lparr>ev_kind := kRelayQueued\<rparr>,
                     s'\<lparr>relay_dedupe := snd (dd_observe (relay_dedupe s) key),
                        relay_diagnostics := rd\<lparr>queued := queued rd + 1\<rparr>\<rparr>)))
          else if ns_role s = NodeRole.kBase then
            base_observe (s\<lparr>base_diagnostics := bd\<lparr>direct_observations := direct_observations bd + 1\<rparr>\<rparr>) event
          else (event\<lparr>ev_kind := kIgnoredPosition\<rparr>, s))"

definition receive_relay_forward ::
  "NetworkService \<Rightarrow> bytes \<Rightarrow> i16 \<Rightarrow> i8 \<Rightarrow> NetworkEvent \<times> NetworkService" where
  "receive_relay_forward s payload rssi snr =
     (let (status, decoded) = deserializeRelayForwardPacket (Some payload);
          rd = relay_diagnostics s; bd = base_diagnostics s in
      if relay_forwarding_enabled s then
        (if status = kOk \<or> status = kNestedRelay
         then (NetworkEvent_init\<lparr>ev_kind := kRelayNestedRejected\<rparr>,
               s\<lparr>relay_diagnostics := rd\<lparr>nested_rejected := nested_rejected rd + 1\<rparr>\<rparr>)
         else malformedEvent s True)
      else (case decoded of
          None \<Rightarrow> malformedEvent s True
        | Some (envelope, position) \<Rightarrow>
            if ns_role s \<noteq> NodeRole.kBase
            then (NetworkEvent_init\<lparr>ev_kind := kIgnoredPosition\<rparr>, s)
            else base_observe
              (s\<lparr>base_diagnostics := bd\<lparr>relay_observations := relay_observations bd + 1\<rparr>\<rparr>)
              (NetworkEvent_init\<lparr>ev_path := PathRelay, ev_position := position,
                 ev_relay_device_id := relay_device_id envelope,
                 ev_ingress_rssi_dbm := ingress_rssi_dbm envelope,
                 ev_ingress_snr_db := ingress_snr_db envelope,
                 ev_link_rssi_dbm := rssi, ev_link_snr_db := snr\<rparr>)))"

definition receive ::
  "NetworkService \<Rightarrow> bytes option \<Rightarrow> i16 \<Rightarrow> i8 \<Rightarrow> u32 \<Rightarrow> NetworkEvent \<times> NetworkService" where
  "receive s payload rssi snr now_ms =
     (case payload of None \<Rightarrow> malformedEvent s False
      | Some p \<Rightarrow>
          if length p < 2 \<or> p ! 0 \<noteq> kProtocolVersion
          then malformedEvent s (length p \<ge> 2 \<and> p ! 1 = kPacketTypeRelayForward)
          else if p ! 1 = kPacketTypePosition then receive_position s p rssi snr now_ms
          else if p ! 1 = kPacketTypeRelayForward then receive_relay_forward s p rssi snr
          else malformedEvent s False)"

definition takeDueForward :: "NetworkService \<Rightarrow> u32 \<Rightarrow> (RelayForwardPacket \<times> NetworkService) option" where
  "takeDueForward s now_ms =
     (if \<not> relay_forwarding_enabled s \<or> forward_active s then None
      else case find (\<lambda>i. qe_valid (queue s ! i) \<and> reached now_ms (qe_due_ms (queue s ! i)))
                  [0..<length (queue s)] of
          None \<Rightarrow> None
        | Some i \<Rightarrow>
            let entry = queue s ! i in
            Some (\<lparr>relay_device_id = local_device_id s, hop_count = kRelayHopCount,
                   original_length = of_nat kPositionPacketSize,
                   ingress_rssi_dbm = qe_ingress_rssi_dbm entry,
                   ingress_snr_db = qe_ingress_snr_db entry,
                   original_packet = qe_packet entry\<rparr>,
                  s\<lparr>queue := (queue s)[i := entry\<lparr>qe_valid := False\<rparr>],
                    queued_count := queued_count s - 1\<rparr>))"

definition onForwardTxStarted :: "NetworkService \<Rightarrow> NetworkService" where
  "onForwardTxStarted s =
     (let rd = relay_diagnostics s in
      s\<lparr>forward_active := True, relay_diagnostics := rd\<lparr>forwards_attempted := forwards_attempted rd + 1\<rparr>\<rparr>)"

definition onForwardTxResult :: "NetworkService \<Rightarrow> bool \<Rightarrow> NetworkService" where
  "onForwardTxResult s success =
     (let rd = relay_diagnostics s in
      s\<lparr>forward_active := False,
        relay_diagnostics := (if success then rd\<lparr>forwards_completed := forwards_completed rd + 1\<rparr>
                              else rd\<lparr>forward_failures := forward_failures rd + 1\<rparr>)\<rparr>)"


section \<open>Invariant\<close>

text \<open>
  Sizes of the fixed arrays, the queue counter, decodable queue entries, an idle queue while
  forwarding is off, and the accounting of the diagnostic counters (modulo \<open>2^32\<close>).
\<close>

definition entry_ok :: "QueueEntry \<Rightarrow> bool" where
  "entry_ok e \<longleftrightarrow> length (qe_packet e) = 34 \<and>
     (qe_valid e \<longrightarrow> deserializePositionPacket (Some (qe_packet e)) \<noteq> None)"

definition relay_accounts :: "RelayDiagnostics \<Rightarrow> bool" where
  "relay_accounts d \<longleftrightarrow>
     valid_packets_received d = duplicates_suppressed d + queue_drops d + queued d"

definition base_accounts :: "BaseDiagnostics \<Rightarrow> bool" where
  "base_accounts d \<longleftrightarrow>
     new_application_packets d + duplicates d = direct_observations d + relay_observations d"

definition ns_inv :: "NetworkService \<Rightarrow> bool" where
  "ns_inv s \<longleftrightarrow>
     dd_inv (relay_dedupe s) \<and> dd_capacity (relay_dedupe s) = 16 \<and>
     dd_inv (base_dedupe s) \<and> dd_capacity (base_dedupe s) = 32 \<and>
     length (queue s) = 4 \<and> list_all entry_ok (queue s) \<and>
     unat (queued_count s) = length (filter qe_valid (queue s)) \<and>
     (\<not> relay_forwarding_enabled s \<longrightarrow> queued_count s = 0) \<and>
     relay_accounts (relay_diagnostics s) \<and> base_accounts (base_diagnostics s)"

named_theorems ns_simps

lemma filter_update_True:
  assumes "i < length xs" and "\<not> P (xs ! i)" and "P x"
  shows "length (filter P (xs[i := x])) = Suc (length (filter P xs))"
  using assms by (simp add: upd_conv_take_nth_drop)
    (subst (3) id_take_nth_drop [OF assms(1)], simp)

lemma filter_update_False:
  assumes "i < length xs" and "P (xs ! i)" and "\<not> P x"
  shows "Suc (length (filter P (xs[i := x]))) = length (filter P xs)"
  using assms by (simp add: upd_conv_take_nth_drop)
    (subst (3) id_take_nth_drop [OF assms(1)], simp)

lemma find_upt_Some: "find P [0..<n] = Some i \<Longrightarrow> i < n \<and> P i"
  by (auto simp: find_Some_iff)

lemma find_upt_None: "find P [0..<n] = None \<longleftrightarrow> (\<forall>i < n. \<not> P i)"
  by (auto simp: find_None_iff)

lemma clearQueue_inv [ns_simps]:
  "dd_inv (relay_dedupe s) \<Longrightarrow> dd_capacity (relay_dedupe s) = 16 \<Longrightarrow>
   dd_inv (base_dedupe s) \<Longrightarrow> dd_capacity (base_dedupe s) = 32 \<Longrightarrow>
   length (queue s) = 4 \<Longrightarrow> list_all entry_ok (queue s) \<Longrightarrow>
   relay_accounts (relay_diagnostics s) \<Longrightarrow> base_accounts (base_diagnostics s) \<Longrightarrow>
   ns_inv (clearQueue s)"
  by (auto simp: ns_inv_def clearQueue_def list_all_iff entry_ok_def filter_map comp_def)

lemma ns_inv_init: "ns_inv NetworkService_init"
  by (simp add: ns_inv_def NetworkService_init_def list_all_iff kRelayDedupeSize_def kBaseDedupeSize_def
      kForwardQueueSize_def QueueEntry_init_def kPositionPacketSize_def entry_ok_def dd_inv_empty
      relay_accounts_def base_accounts_def RelayDiagnostics_init_def BaseDiagnostics_init_def)

lemma ns_inv_active [simp]: "ns_inv (s\<lparr>forward_active := b\<rparr>) = ns_inv s"
  by (simp add: ns_inv_def)

lemma ns_begin_inv: "ns_inv s \<Longrightarrow> ns_inv (ns_begin s device role)"
  unfolding ns_begin_def Let_def
  by (auto simp: ns_inv_def clearQueue_def list_all_iff entry_ok_def filter_map comp_def
      ring.clear_inv relay_accounts_def base_accounts_def RelayDiagnostics_init_def
      BaseDiagnostics_init_def)

lemma setRole_inv: "ns_inv s \<Longrightarrow> ns_inv (setRole s role)"
  by (auto simp: setRole_def Let_def ns_inv_def [of s] ring.clear_inv intro!: clearQueue_inv)

lemma setRelayForwardingEnabled_inv: "ns_inv s \<Longrightarrow> ns_inv (setRelayForwardingEnabled s e)"
  by (auto simp: setRelayForwardingEnabled_def resetRelayState_def ns_inv_def [of s] ring.clear_inv
      intro!: clearQueue_inv)

lemma onForwardTx_inv:
  "ns_inv s \<Longrightarrow> ns_inv (onForwardTxStarted s)" "ns_inv s \<Longrightarrow> ns_inv (onForwardTxResult s ok)"
  by (auto simp: onForwardTxStarted_def onForwardTxResult_def ns_inv_def relay_accounts_def Let_def)

lemma malformedEvent_inv: "ns_inv s \<Longrightarrow> ns_inv (snd (malformedEvent s e))"
  by (auto simp: malformedEvent_def ns_inv_def relay_accounts_def base_accounts_def Let_def)

lemma takeDueForward_Some:
  assumes "takeDueForward s now = Some (pkt, s')"
  obtains i where "i < length (queue s)" "qe_valid (queue s ! i)"
    "reached now (qe_due_ms (queue s ! i))" "relay_forwarding_enabled s" "\<not> forward_active s"
    "pkt = \<lparr>relay_device_id = local_device_id s, hop_count = 1, original_length = 34,
       ingress_rssi_dbm = qe_ingress_rssi_dbm (queue s ! i),
       ingress_snr_db = qe_ingress_snr_db (queue s ! i), original_packet = qe_packet (queue s ! i)\<rparr>"
    "s' = s\<lparr>queue := (queue s)[i := (queue s ! i)\<lparr>qe_valid := False\<rparr>],
            queued_count := queued_count s - 1\<rparr>"
  using assms
  by (auto simp: takeDueForward_def Let_def kRelayHopCount_def kPositionPacketSize_def
      split: if_splits option.splits dest: find_upt_Some)

lemma takeDueForward_entry:
  assumes "ns_inv s" and "takeDueForward s now = Some (pkt, s')"
  shows "relay_ok pkt \<and> relay_device_id pkt = local_device_id s"
  using assms(2)
proof (rule takeDueForward_Some)
  fix i
  assume i: "i < length (queue s)" "qe_valid (queue s ! i)"
    and pkt: "pkt = \<lparr>relay_device_id = local_device_id s, hop_count = 1, original_length = 34,
       ingress_rssi_dbm = qe_ingress_rssi_dbm (queue s ! i),
       ingress_snr_db = qe_ingress_snr_db (queue s ! i), original_packet = qe_packet (queue s ! i)\<rparr>"
  have "entry_ok (queue s ! i)" using assms(1) i by (simp add: ns_inv_def list_all_length)
  then show ?thesis using i by (simp add: pkt relay_ok_def entry_ok_def)
qed

lemma list_all_update: "list_all P xs \<Longrightarrow> P x \<Longrightarrow> list_all P (xs[i := x])"
  using set_update_subset_insert [of xs i x] by (auto simp: list_all_iff)

lemma takeDueForward_inv: "ns_inv s \<Longrightarrow> takeDueForward s now = Some (pkt, s') \<Longrightarrow> ns_inv s'"
proof (erule takeDueForward_Some)
  fix i
  let ?e = "queue s ! i" and ?q = "(queue s)[i := (queue s ! i)\<lparr>qe_valid := False\<rparr>]"
  assume inv: "ns_inv s" and i: "i < length (queue s)" "qe_valid ?e"
    and en: "relay_forwarding_enabled s"
    and s': "s' = s\<lparr>queue := ?q, queued_count := queued_count s - 1\<rparr>"
  have cnt: "Suc (length (filter qe_valid ?q)) = length (filter qe_valid (queue s))"
    using i by (intro filter_update_False) simp_all
  then have "unat (queued_count s - 1) = length (filter qe_valid ?q)"
    using inv unat_minus_one [of "queued_count s"] by (cases "queued_count s = 0") (simp_all add: ns_inv_def)
  moreover have "entry_ok (?e\<lparr>qe_valid := False\<rparr>)"
    using inv i by (auto simp: ns_inv_def entry_ok_def list_all_length)
  ultimately show "ns_inv s'"
    using inv en by (simp add: ns_inv_def s' list_all_update)
qed

lemma enqueue_Some:
  assumes "enqueue s packet rssi snr due = Some s'"
  obtains i where "i < length (queue s)" "\<not> qe_valid (queue s ! i)"
    "s' = s\<lparr>queue := (queue s)[i := \<lparr>qe_valid = True, qe_due_ms = due, qe_ingress_rssi_dbm = rssi,
              qe_ingress_snr_db = snr, qe_packet = slice 0 34 packet\<rparr>],
            queued_count := queued_count s + 1\<rparr>"
  using assms by (auto simp: enqueue_def kPositionPacketSize_def split: option.splits dest: find_upt_Some)

lemma enqueue_inv:
  assumes inv: "ns_inv s" and en: "relay_forwarding_enabled s"
    and pos: "deserializePositionPacket (Some packet) = Some pos"
    and enq: "enqueue s packet rssi snr due = Some s'"
  shows "ns_inv s'"
proof (rule enqueue_Some [OF enq])
  fix i
  let ?e = "\<lparr>qe_valid = True, qe_due_ms = due, qe_ingress_rssi_dbm = rssi,
              qe_ingress_snr_db = snr, qe_packet = slice 0 34 packet\<rparr>"
  assume i: "i < length (queue s)" "\<not> qe_valid (queue s ! i)"
    and s': "s' = s\<lparr>queue := (queue s)[i := ?e], queued_count := queued_count s + 1\<rparr>"
  have len: "length packet = 34" using deserializePosition_Some [OF pos] by simp
  have cnt: "length (filter qe_valid ((queue s)[i := ?e])) = Suc (length (filter qe_valid (queue s)))"
    using i by (intro filter_update_True) simp_all
  moreover have "length (filter qe_valid ((queue s)[i := ?e])) \<le> 4"
    using inv length_filter_le [of qe_valid "(queue s)[i := ?e]"] by (simp add: ns_inv_def)
  ultimately have "unat (queued_count s + 1) = length (filter qe_valid ((queue s)[i := ?e]))"
    using inv by (simp add: ns_inv_def unat_word_ariths)
  moreover have "entry_ok ?e" using len pos by (simp add: entry_ok_def slice_full)
  ultimately show ?thesis using inv en by (simp add: ns_inv_def s' list_all_update)
qed

lemma base_observe_inv:
  assumes "ns_inv (s\<lparr>base_diagnostics := d\<rparr>)" and "base_accounts d"
    and "base_diagnostics s = d\<lparr>direct_observations := a\<rparr> \<and> direct_observations d + 1 = a \<or>
         base_diagnostics s = d\<lparr>relay_observations := a\<rparr> \<and> relay_observations d + 1 = a"
  shows "ns_inv (snd (base_observe s ev))"
  using assms
  by (auto simp: base_observe_def Let_def ns_inv_def base_accounts_def ring.observe_inv
      ring.observe_capacity algebra_simps split: prod.splits dest!: arg_cong [of _ _ snd])

lemma receive_position_inv: "ns_inv s \<Longrightarrow> ns_inv (snd (receive_position s p rssi snr now))"
proof (cases "deserializePositionPacket (Some p)")
  case None
  then show "ns_inv s \<Longrightarrow> ?thesis" by (simp add: receive_position_def malformedEvent_inv)
next
  case (Some pos)
  assume inv: "ns_inv s"
  show ?thesis
  proof (cases "relay_forwarding_enabled s")
    case False
    have "ns_inv (s\<lparr>base_diagnostics := base_diagnostics s\<rparr>)" "base_accounts (base_diagnostics s)"
      using inv by (simp_all add: ns_inv_def)
    then show ?thesis using Some False inv
      by (auto simp: receive_position_def Let_def intro!: base_observe_inv)
  next
    case True
    let ?d = "deterministicRelayDelay (source_device_id pos) (sequence_number pos) (local_device_id s)"
    show ?thesis
    proof (cases "enqueue s p rssi snr (now + ?d)")
      case None
      then show ?thesis using Some True inv
        by (auto simp: receive_position_def Let_def ns_inv_def relay_accounts_def algebra_simps)
    next
      case enq: (Some s')
      have "ns_inv s'" using enqueue_inv [OF inv True Some enq] .
      moreover have "relay_dedupe s' = relay_dedupe s" "relay_diagnostics s' = relay_diagnostics s"
        using enq by (auto elim: enqueue_Some)
      ultimately show ?thesis using Some True inv enq
        by (auto simp: receive_position_def Let_def ns_inv_def relay_accounts_def algebra_simps
            ring.observe_inv ring.observe_capacity)
    qed
  qed
qed

lemma receive_relay_forward_inv: "ns_inv s \<Longrightarrow> ns_inv (snd (receive_relay_forward s p rssi snr))"
proof -
  assume inv: "ns_inv s"
  then have "ns_inv (s\<lparr>base_diagnostics := base_diagnostics s\<rparr>)" "base_accounts (base_diagnostics s)"
    and "ns_inv (s\<lparr>relay_diagnostics := (relay_diagnostics s)\<lparr>nested_rejected := n\<rparr>\<rparr>)" for n
    by (simp_all add: ns_inv_def relay_accounts_def)
  then show ?thesis using inv
    by (auto simp: receive_relay_forward_def Let_def malformedEvent_inv split: prod.splits option.splits
        intro!: base_observe_inv)
qed

lemma receive_inv: "ns_inv s \<Longrightarrow> ns_inv (snd (receive s payload rssi snr now))"
  by (auto simp: receive_def malformedEvent_inv receive_position_inv receive_relay_forward_inv
      split: option.splits)

section \<open>The service as a state machine\<close>

datatype ns_op =
  OpReceive "bytes option" i16 i8 u32
  | OpTakeDue u32
  | OpTxStarted
  | OpTxResult bool
  | OpSetRole NodeRole
  | OpSetForwarding bool
  | OpBegin u64 NodeRole

fun ns_apply :: "NetworkService \<Rightarrow> ns_op \<Rightarrow> NetworkEvent option \<times> NetworkService" where
  "ns_apply s (OpReceive p rssi snr now) = map_prod Some id (receive s p rssi snr now)"
| "ns_apply s (OpTakeDue now) = (None, case takeDueForward s now of None \<Rightarrow> s | Some (_, s') \<Rightarrow> s')"
| "ns_apply s OpTxStarted = (None, onForwardTxStarted s)"
| "ns_apply s (OpTxResult ok) = (None, onForwardTxResult s ok)"
| "ns_apply s (OpSetRole r) = (None, setRole s r)"
| "ns_apply s (OpSetForwarding e) = (None, setRelayForwardingEnabled s e)"
| "ns_apply s (OpBegin d r) = (None, ns_begin s d r)"

inductive ns_reachable :: "NetworkService \<Rightarrow> bool" where
  ns_start: "ns_reachable NetworkService_init"
| ns_step: "ns_reachable s \<Longrightarrow> ns_reachable (snd (ns_apply s op))"

fun ns_run :: "NetworkService \<Rightarrow> ns_op list \<Rightarrow> NetworkService" where
  "ns_run s [] = s"
| "ns_run s (op # ops) = ns_run (snd (ns_apply s op)) ops"

text \<open>Radio traffic: everything but a change of role, forwarding or identity.\<close>

fun is_traffic :: "ns_op \<Rightarrow> bool" where
  "is_traffic (OpSetRole r) = False"
| "is_traffic (OpSetForwarding e) = False"
| "is_traffic (OpBegin d r) = False"
| "is_traffic op = True"

definition op_queued_keys :: "NetworkService \<Rightarrow> ns_op \<Rightarrow> PacketKey list" where
  "op_queued_keys s op =
     (case fst (ns_apply s op) of
        Some ev \<Rightarrow> if ev_kind ev = kRelayQueued then [keyFor (ev_position ev)] else []
      | None \<Rightarrow> [])"

fun queued_keys :: "NetworkService \<Rightarrow> ns_op list \<Rightarrow> PacketKey list" where
  "queued_keys s [] = []"
| "queued_keys s (op # ops) = op_queued_keys s op @ queued_keys (snd (ns_apply s op)) ops"

lemma ns_apply_inv: "ns_inv s \<Longrightarrow> ns_inv (snd (ns_apply s op))"
  by (cases op) (auto simp: receive_inv ns_begin_inv setRole_inv setRelayForwardingEnabled_inv
      onForwardTx_inv takeDueForward_inv split: option.splits)

lemma ns_reachable_inv: "ns_reachable s \<Longrightarrow> ns_inv s"
  by (induction rule: ns_reachable.induct) (simp_all add: ns_inv_init ns_apply_inv)

lemma malformedEvent_facts [ns_simps]:
  "ev_kind (fst (malformedEvent s e)) = kMalformed"
  "relay_dedupe (snd (malformedEvent s e)) = relay_dedupe s"
  "relay_forwarding_enabled (snd (malformedEvent s e)) = relay_forwarding_enabled s"
  by (simp_all add: malformedEvent_def NetworkEvent_init_def Let_def)

lemma base_observe_facts [ns_simps]:
  "ev_kind (fst (base_observe s ev)) \<noteq> kRelayQueued"
  "relay_dedupe (snd (base_observe s ev)) = relay_dedupe s"
  "relay_forwarding_enabled (snd (base_observe s ev)) = relay_forwarding_enabled s"
  by (simp_all add: base_observe_def Let_def split: prod.splits)

lemma enqueue_facts:
  "enqueue s p rssi snr due = Some t \<Longrightarrow>
   relay_dedupe t = relay_dedupe s \<and> relay_forwarding_enabled t = relay_forwarding_enabled s"
  by (erule enqueue_Some) simp

definition dedupe_follows :: "NetworkService \<Rightarrow> NetworkEvent \<times> NetworkService \<Rightarrow> bool" where
  "dedupe_follows s r \<longleftrightarrow>
     relay_dedupe (snd r) = (if ev_kind (fst r) = kRelayQueued
       then snd (dd_observe (relay_dedupe s) (keyFor (ev_position (fst r)))) else relay_dedupe s) \<and>
     relay_forwarding_enabled (snd r) = relay_forwarding_enabled s"

lemma malformedEvent_follows: "dedupe_follows s (malformedEvent s e)"
  by (simp add: dedupe_follows_def ns_simps)

lemma base_observe_follows: "dedupe_follows s (base_observe (s\<lparr>base_diagnostics := d\<rparr>) ev)"
  by (simp add: dedupe_follows_def ns_simps)

lemma receive_position_follows: "dedupe_follows s (receive_position s p rssi snr now)"
proof (cases "deserializePositionPacket (Some p)")
  case None
  then show ?thesis by (simp add: receive_position_def malformedEvent_follows)
next
  case (Some pos)
  show ?thesis
  proof (cases "relay_forwarding_enabled s")
    case False
    then show ?thesis using Some
      by (simp add: receive_position_def Let_def base_observe_follows)
        (simp add: dedupe_follows_def)
  next
    case True
    let ?d = "deterministicRelayDelay (source_device_id pos) (sequence_number pos) (local_device_id s)"
    show ?thesis
      using Some True enqueue_facts [of s p rssi snr "now + ?d"]
      by (cases "enqueue s p rssi snr (now + ?d)")
        (simp_all add: receive_position_def Let_def dedupe_follows_def)
  qed
qed

lemma receive_relay_forward_follows: "dedupe_follows s (receive_relay_forward s p rssi snr)"
proof -
  obtain st d where "deserializeRelayForwardPacket (Some p) = (st, d)" by fastforce
  then show ?thesis
    by (cases d; cases "relay_forwarding_enabled s")
      (auto simp: receive_relay_forward_def Let_def malformedEvent_follows base_observe_follows
        split: prod.split, simp_all add: dedupe_follows_def NetworkEvent_init_def)
qed

lemma receive_follows: "dedupe_follows s (receive s payload rssi snr now)"
  by (simp add: receive_def malformedEvent_follows receive_position_follows
      receive_relay_forward_follows split: option.split)

lemma traffic_dedupe:
  assumes "is_traffic op"
  shows "relay_dedupe (snd (ns_apply s op)) = ring.observe_all (relay_dedupe s) (op_queued_keys s op)"
    and "relay_forwarding_enabled (snd (ns_apply s op)) = relay_forwarding_enabled s"
proof -
  have "relay_dedupe (snd (ns_apply s op)) = ring.observe_all (relay_dedupe s) (op_queued_keys s op) \<and>
    relay_forwarding_enabled (snd (ns_apply s op)) = relay_forwarding_enabled s"
  proof (cases op)
    case (OpReceive p rssi snr now)
    obtain ev s' where r: "receive s p rssi snr now = (ev, s')" by fastforce
    show ?thesis using receive_follows [of s p rssi snr now]
      by (simp add: OpReceive r op_queued_keys_def dedupe_follows_def)
  qed (use assms in \<open>auto simp: op_queued_keys_def onForwardTxStarted_def onForwardTxResult_def Let_def
      split: option.splits elim!: takeDueForward_Some\<close>)
  then show "relay_dedupe (snd (ns_apply s op)) = ring.observe_all (relay_dedupe s) (op_queued_keys s op)"
    and "relay_forwarding_enabled (snd (ns_apply s op)) = relay_forwarding_enabled s" by simp_all
qed

lemma observe_all_append:
  "ring.observe_all c (ks @ ls) = ring.observe_all (ring.observe_all c ks) ls"
  by (induction ks arbitrary: c) simp_all

lemma run_dedupe:
  "list_all is_traffic ops \<Longrightarrow>
   relay_dedupe (ns_run s ops) = ring.observe_all (relay_dedupe s) (queued_keys s ops) \<and>
   relay_forwarding_enabled (ns_run s ops) = relay_forwarding_enabled s"
  by (induction ops arbitrary: s) (simp_all add: traffic_dedupe observe_all_append)

lemma run_inv: "ns_inv s \<Longrightarrow> ns_inv (ns_run s ops)"
  by (induction ops arbitrary: s) (simp_all add: ns_apply_inv)

lemma relay_delay_bounds:
  "1200 \<le> unat (deterministicRelayDelay a b c) \<and> unat (deterministicRelayDelay a b c) \<le> 4200"
proof -
  have "unat (v mod 3001 :: u32) < 3001" for v by (simp add: unat_mod)
  moreover have "unat (1200 + w :: u32) = 1200 + unat w" if "unat w < 3001" for w
    using that by (simp add: unat_word_ariths)
  ultimately show ?thesis
    by (simp add: deterministicRelayDelay_def kMinimumDelayMs_def kMaximumDelayMs_def Let_def
        less_Suc_eq_le [symmetric])
qed

text \<open>What a relay does with a well-formed position.\<close>

lemma receive_position_payload:
  "deserializePositionPacket (Some p) = Some pos \<Longrightarrow>
   receive s (Some p) rssi snr now = receive_position s p rssi snr now"
  using deserializePosition_Some [of p pos] by (simp add: receive_def tlp_tags)

lemma relay_duplicate:
  assumes "deserializePositionPacket (Some p) = Some pos" and "relay_forwarding_enabled s"
    and "dd_contains (relay_dedupe s) (keyFor pos)"
  shows "ev_kind (fst (receive s (Some p) rssi snr now)) = kRelayDuplicate \<and>
         queue (snd (receive s (Some p) rssi snr now)) = queue s \<and>
         queued_count (snd (receive s (Some p) rssi snr now)) = queued_count s"
  using assms by (simp add: receive_position_payload receive_position_def Let_def)

lemma unsigned_eq_4: "unat (x :: u8) = 4 \<longleftrightarrow> x = 4"
  by (simp add: word_unat_eq_iff)

lemma enqueue_None_iff:
  "ns_inv s \<Longrightarrow> enqueue s p rssi snr due = None \<longleftrightarrow> queued_count s = 4"
proof -
  assume inv: "ns_inv s"
  have "enqueue s p rssi snr due = None \<longleftrightarrow> (\<forall>i < length (queue s). qe_valid (queue s ! i))"
    using find_upt_None [of "\<lambda>i. \<not> qe_valid (queue s ! i)" "length (queue s)"]
    by (auto simp: enqueue_def split: option.splits)
  also have "\<dots> \<longleftrightarrow> (\<forall>e \<in> set (queue s). qe_valid e)" by (auto simp: all_set_conv_all_nth)
  also have "\<dots> \<longleftrightarrow> length (filter qe_valid (queue s)) = length (queue s)"
    by (metis filter_True length_filter_less less_irrefl)
  also have "\<dots> \<longleftrightarrow> unat (queued_count s) = 4" using inv by (simp add: ns_inv_def)
  also have "\<dots> \<longleftrightarrow> queued_count s = 4" by (simp add: unsigned_eq_4)
  finally show ?thesis .
qed

lemma relay_new:
  assumes inv: "ns_inv s" and "deserializePositionPacket (Some p) = Some pos"
    and "relay_forwarding_enabled s" and "\<not> dd_contains (relay_dedupe s) (keyFor pos)"
    and r: "receive s (Some p) rssi snr now = (ev, s')"
  defines "d \<equiv> deterministicRelayDelay (source_device_id pos) (sequence_number pos) (local_device_id s)"
  shows "if queued_count s = 4 then ev_kind ev = kRelayQueueDrop \<and> queue s' = queue s \<and>
           relay_dedupe s' = relay_dedupe s
         else ev_kind ev = kRelayQueued \<and> ev_position ev = pos \<and> ev_relay_delay_ms ev = d \<and>
           queued_count s' = queued_count s + 1 \<and> forward_active s' = forward_active s \<and>
           (\<exists>i < length (queue s). \<not> qe_valid (queue s ! i) \<and>
             queue s' = (queue s)[i := \<lparr>qe_valid = True, qe_due_ms = now + d,
               qe_ingress_rssi_dbm = rssi, qe_ingress_snr_db = snr, qe_packet = p\<rparr>])"
proof (cases "enqueue s p rssi snr (now + d)")
  case None
  then show ?thesis
    using assms enqueue_None_iff [OF inv, of p rssi snr "now + d"]
    by (auto simp: receive_position_payload receive_position_def Let_def NetworkEvent_init_def)
next
  case (Some t)
  have len: "length p = 34" using deserializePosition_Some assms(2) by blast
  show ?thesis
    using assms Some len enqueue_None_iff [OF inv, of p rssi snr "now + d"]
    by (auto simp: receive_position_payload receive_position_def Let_def NetworkEvent_init_def
        slice_full elim!: enqueue_Some)
qed

lemma receive_queued_new:
  assumes "ns_inv s" and "deserializePositionPacket (Some p) = Some pos"
    and "relay_forwarding_enabled s" and "receive s (Some p) rssi snr now = (ev, s')"
    and "ev_kind ev = kRelayQueued"
  shows "\<not> dd_contains (relay_dedupe s) (keyFor pos)" and "ev_position ev = pos"
    and "queued_count s \<noteq> 4"
proof -
  show nc: "\<not> dd_contains (relay_dedupe s) (keyFor pos)"
    using relay_duplicate [OF assms(2,3), of rssi snr now] assms(4,5) by auto
  show "ev_position ev = pos" "queued_count s \<noteq> 4"
    using relay_new [OF assms(1-3) nc assms(4)] assms(5) by (auto split: if_splits)
qed

lemma receive_queued_payload:
  assumes "receive s payload rssi snr now = (ev, s')" and "ev_kind ev = kRelayQueued"
  shows "\<exists>p pos. payload = Some p \<and> deserializePositionPacket (Some p) = Some pos \<and>
    relay_forwarding_enabled s"
proof -
  have m: "ev_kind (fst (malformedEvent s e)) \<noteq> kRelayQueued" for e by (simp add: ns_simps)
  have f: "ev_kind (fst (receive_relay_forward s p rssi snr)) \<noteq> kRelayQueued" for p
  proof -
    obtain st d where "deserializeRelayForwardPacket (Some p) = (st, d)" by fastforce
    then show ?thesis
      by (cases d)
        (auto simp: receive_relay_forward_def Let_def ns_simps NetworkEvent_init_def split: prod.splits)
  qed
  from assms obtain p where p: "payload = Some p" using m [of False]
    by (cases payload) (auto simp: receive_def)
  have "receive s payload rssi snr now = receive_position s p rssi snr now"
    using assms m f by (auto simp: p receive_def split: if_splits) (metis fst_conv)+
  then show ?thesis using assms m base_observe_facts(1) p
    by (auto simp: receive_position_def Let_def split: option.splits if_splits) (metis fst_conv)+
qed

section \<open>Where a queue entry comes from\<close>

text \<open>
  A waiting entry is one well-formed position that the service received and answered with
  \<open>kRelayQueued\<close>: its bytes, the link quality it arrived with, and the time it arrived plus the delay
  the event reported.
\<close>

definition queued_by :: "NetworkService \<Rightarrow> ns_op list \<Rightarrow> QueueEntry \<Rightarrow> bool" where
  "queued_by s ops e \<longleftrightarrow>
     (\<exists>pre post p rssi snr t pos. ops = pre @ OpReceive (Some p) rssi snr t # post \<and>
        deserializePositionPacket (Some p) = Some pos \<and>
        (let got = fst (receive (ns_run s pre) (Some p) rssi snr t) in
           ev_kind got = kRelayQueued \<and> ev_position got = pos \<and>
           e = \<lparr>qe_valid = True, qe_due_ms = t + ev_relay_delay_ms got, qe_ingress_rssi_dbm = rssi,
                qe_ingress_snr_db = snr, qe_packet = p\<rparr>))"

lemma ns_run_append: "ns_run s (ops @ ops') = ns_run (ns_run s ops) ops'"
  by (induction ops arbitrary: s) simp_all

lemma queued_by_later: "queued_by s ops e \<Longrightarrow> queued_by s (ops @ ops') e"
  unfolding queued_by_def by (elim exE conjE) (intro exI conjI, auto)

lemma update_valid_entry:
  "e \<in> set (xs[i := x]) \<Longrightarrow> qe_valid e \<Longrightarrow> e \<in> set xs \<or> e = x"
  by (meson insert_iff set_update_subset_insert subsetD)

lemma clearQueue_entries: "e \<in> set (queue (clearQueue s)) \<Longrightarrow> \<not> qe_valid e"
  by (auto simp: clearQueue_def)

lemma receive_entries:
  assumes inv: "ns_inv s" and r: "receive s payload rssi snr t = (ev, s')" and e: "e \<in> set (queue s')" "qe_valid e"
  shows "e \<in> set (queue s) \<or>
    (\<exists>p pos. payload = Some p \<and> deserializePositionPacket (Some p) = Some pos \<and> ev_kind ev = kRelayQueued \<and>
       ev_position ev = pos \<and>
       e = \<lparr>qe_valid = True, qe_due_ms = t + ev_relay_delay_ms ev, qe_ingress_rssi_dbm = rssi,
            qe_ingress_snr_db = snr, qe_packet = p\<rparr>)"
proof (cases "ev_kind ev = kRelayQueued")
  case True
  obtain p pos where p: "payload = Some p" "deserializePositionPacket (Some p) = Some pos" "relay_forwarding_enabled s"
    using receive_queued_payload [OF r True] by blast
  note r' = r [unfolded p(1)]
  note new = receive_queued_new [OF inv p(2,3) r' True]
  from relay_new [OF inv p(2,3) new(1) r'] new(3) obtain i
    where "queue s' = (queue s)[i := \<lparr>qe_valid = True, qe_due_ms = t + ev_relay_delay_ms ev,
      qe_ingress_rssi_dbm = rssi, qe_ingress_snr_db = snr, qe_packet = p\<rparr>]" by auto
  then show ?thesis using update_valid_entry e p new(2) True by metis
next
  case False
  have m: "queue (snd (malformedEvent s x)) = queue s" for x by (simp add: malformedEvent_def Let_def)
  have b: "queue (snd (base_observe (s\<lparr>base_diagnostics := d\<rparr>) x)) = queue s" for d x
    by (simp add: base_observe_def Let_def split: prod.split)
  have "queue (snd (receive_position s p rssi snr t)) = queue s"
    if "ev_kind (fst (receive_position s p rssi snr t)) \<noteq> kRelayQueued" for p
    using that by (auto simp: receive_position_def Let_def m b split: option.splits if_splits)
  moreover have "queue (snd (receive_relay_forward s p rssi snr)) = queue s" for p
    by (auto simp: receive_relay_forward_def Let_def m b split: option.splits prod.splits)
  moreover have "ev_kind (fst (receive s payload rssi snr t)) \<noteq> kRelayQueued" using False r by simp
  ultimately have "queue (snd (receive s payload rssi snr t)) = queue s"
    by (auto simp: receive_def m split: option.splits if_splits)
  then show ?thesis using e r by simp
qed

lemma step_entries:
  assumes inv: "ns_inv s" and e: "e \<in> set (queue (snd (ns_apply s op)))" "qe_valid e"
  shows "e \<in> set (queue s) \<or>
    (\<exists>p rssi snr t pos. op = OpReceive (Some p) rssi snr t \<and> deserializePositionPacket (Some p) = Some pos \<and>
       (let got = fst (receive s (Some p) rssi snr t) in
          ev_kind got = kRelayQueued \<and> ev_position got = pos \<and>
          e = \<lparr>qe_valid = True, qe_due_ms = t + ev_relay_delay_ms got, qe_ingress_rssi_dbm = rssi,
               qe_ingress_snr_db = snr, qe_packet = p\<rparr>))"
proof (cases op)
  case (OpReceive payload rssi snr t)
  obtain ev s' where r: "receive s payload rssi snr t = (ev, s')" by fastforce
  have "e \<in> set (queue s')" using e(1) by (simp add: OpReceive r)
  from receive_entries [OF inv r this e(2)] show ?thesis
    using r by (elim disjE exE conjE) (simp_all add: OpReceive)
next
  case (OpTakeDue now)
  show ?thesis
  proof (cases "takeDueForward s now")
    case (Some r)
    obtain pkt s' where "takeDueForward s now = Some (pkt, s')" using Some by (cases r) simp
    then show ?thesis
    proof (rule takeDueForward_Some)
      fix i
      assume "s' = s\<lparr>queue := (queue s)[i := (queue s ! i)\<lparr>qe_valid := False\<rparr>], queued_count := queued_count s - 1\<rparr>"
      then show ?thesis
        using e update_valid_entry [of e "queue s" i "(queue s ! i)\<lparr>qe_valid := False\<rparr>"]
          \<open>takeDueForward s now = Some (pkt, s')\<close> by (auto simp: OpTakeDue)
    qed
  qed (use e in \<open>simp add: OpTakeDue\<close>)
qed (use e in \<open>auto simp: onForwardTxStarted_def onForwardTxResult_def setRole_def setRelayForwardingEnabled_def
      resetRelayState_def ns_begin_def Let_def clearQueue_def split: if_splits\<close>)

lemma run_entries:
  "e \<in> set (queue (ns_run NetworkService_init ops)) \<Longrightarrow> qe_valid e \<Longrightarrow> queued_by NetworkService_init ops e"
proof (induction ops rule: rev_induct)
  case Nil
  then show ?case by (simp add: NetworkService_init_def QueueEntry_init_def)
next
  case (snoc op ops)
  let ?s = "ns_run NetworkService_init ops"
  have inv: "ns_inv ?s" by (rule run_inv [OF ns_inv_init])
  from snoc.prems(1) have e: "e \<in> set (queue (snd (ns_apply ?s op)))" by (simp add: ns_run_append)
  from step_entries [OF inv e snoc.prems(2)] show ?case
  proof (elim disjE exE conjE)
    assume "e \<in> set (queue ?s)"
    then show ?thesis using snoc.IH [OF _ snoc.prems(2)] queued_by_later by blast
  qed (unfold queued_by_def, blast)
qed

section \<open>Properties\<close>

text \<open>
  C39: in every state the service can reach (any sequence of received payloads, due takes,
  transmit results, role, forwarding and identity changes), the fixed arrays keep their sizes,
  \<open>queued_count_\<close> is the number of valid queue entries and at most 4, every queued entry is
  a decodable POSITION, nothing is queued while forwarding is off, and the relay and base
  counters add up modulo \<open>2^32\<close>.
\<close>

theorem network_service_invariant:
  assumes "ns_reachable s"
  shows "ns_inv s \<and> unat (queued_count s) \<le> 4"
proof -
  have inv: "ns_inv s" using assms by (rule ns_reachable_inv)
  then have "unat (queued_count s) = length (filter qe_valid (queue s))" by (simp add: ns_inv_def)
  also have "\<dots> \<le> length (queue s)" by (rule length_filter_le)
  finally show ?thesis using inv by (simp add: ns_inv_def)
qed

definition sample_position :: PositionPacket where
  "sample_position = \<lparr>source_device_id = 0xA1, sequence_number = 5, gnss_utc_epoch_seconds = 0,
     pos_latitude_e7 = 410000000, pos_longitude_e7 = 290000000, altitude_mm = 0, hdop_x100 = 90,
     satellites = 9, flags = 1\<rparr>"

definition sample_bytes :: bytes where
  "sample_bytes = [1, 2, 0, 0, 0, 0, 0, 0, 0, 161, 0, 0, 0, 5, 0, 0, 0, 0, 24, 112, 26, 128,
     17, 73, 12, 128, 0, 0, 0, 0, 0, 90, 9, 1]"

definition sample_relay :: NetworkService where
  "sample_relay = ns_begin NetworkService_init 7 NodeRole.kRelay"

definition sample_relay_queued :: NetworkService where
  "sample_relay_queued = snd (receive sample_relay (Some sample_bytes) 0 0 1000)"

lemma sample_relay_reachable: "ns_reachable sample_relay"
  using ns_step [OF ns_start, of "OpBegin 7 NodeRole.kRelay"] by (simp add: sample_relay_def)

lemma sample_queued_reachable: "ns_reachable sample_relay_queued"
  using ns_step [OF sample_relay_reachable, of "OpReceive (Some sample_bytes) 0 0 1000"]
  by (simp add: sample_relay_queued_def)

theorem network_service_invariant_witness:
  "queued_count sample_relay_queued = 1 \<and> unat (queued_count sample_relay_queued) \<le> 4"
proof -
  have "queued_count sample_relay_queued = 1" by code_simp
  then show ?thesis using network_service_invariant [OF sample_queued_reachable] by simp
qed

text \<open>
  C37: duplicate suppression of the relay.  Once a relay has queued a packet, every further copy
  of it (any link quality, any time) is answered with \<open>kRelayDuplicate\<close> and leaves the queue
  alone, as long as fewer than 16 other packets have been queued in between, whatever other
  traffic was received, taken or transmitted meanwhile.
\<close>

theorem relay_suppresses_duplicates:
  assumes "ns_reachable s" and "deserializePositionPacket (Some p) = Some pos"
    and "receive s (Some p) rssi snr now = (ev, s1)" and "ev_kind ev = kRelayQueued"
    and "list_all is_traffic ops" and "length (queued_keys s1 ops) < 16"
  shows "let s2 = ns_run s1 ops; (ev', s3) = receive s2 (Some p) rssi' snr' now' in
    ev_kind ev' = kRelayDuplicate \<and> queue s3 = queue s2 \<and> queued_count s3 = queued_count s2"
proof -
  have inv: "ns_inv s" using assms(1) by (rule ns_reachable_inv)
  have en: "relay_forwarding_enabled s" using receive_queued_payload [OF assms(3,4)] by simp
  note new = receive_queued_new [OF inv assms(2) en assms(3,4)]
  have ring: "dd_inv (relay_dedupe s)" "dd_capacity (relay_dedupe s) = 16"
    using inv by (simp_all add: ns_inv_def)
  have s1: "relay_dedupe s1 = snd (dd_observe (relay_dedupe s) (keyFor pos))"
    "relay_forwarding_enabled s1"
    using receive_follows [of s "Some p" rssi snr now] assms(3,4) en new(2)
    by (simp_all add: dedupe_follows_def)
  have "dd_contains (relay_dedupe (ns_run s1 ops)) (keyFor pos)"
    using ring.fresh_key_remembered [OF ring(1), of "keyFor pos"] new(1) assms(6) ring
    by (simp add: run_dedupe [OF assms(5)] s1 ring.contains_window)
  then show ?thesis
    using relay_duplicate [OF assms(2)] run_dedupe [OF assms(5)] s1(2)
    by (simp add: Let_def split_beta)
qed

theorem relay_suppresses_duplicates_witness:
  "ev_kind (fst (receive sample_relay (Some sample_bytes) 0 0 1000)) = kRelayQueued \<and>
   ev_kind (fst (receive (ns_run sample_relay_queued [OpTakeDue 9000, OpTxStarted, OpTxResult True])
                   (Some sample_bytes) 1 1 9500)) = kRelayDuplicate"
proof -
  let ?ops = "[OpTakeDue 9000, OpTxStarted, OpTxResult True]"
  obtain ev where r: "receive sample_relay (Some sample_bytes) 0 0 1000 = (ev, sample_relay_queued)"
    by (metis prod.collapse sample_relay_queued_def)
  have k: "ev_kind (fst (receive sample_relay (Some sample_bytes) 0 0 1000)) = kRelayQueued"
    by code_simp
  have d: "deserializePositionPacket (Some sample_bytes) = Some sample_position" by code_simp
  have q: "length (queued_keys sample_relay_queued ?ops) < 16" by (simp add: op_queued_keys_def)
  show ?thesis
    using relay_suppresses_duplicates [OF sample_relay_reachable d r _ _ q, of 1 1 9500] k
    by (simp add: r Let_def split_beta)
qed

text \<open>
  admission at a relay.  A new well-formed position is queued exactly when the queue has a
  free slot (its key is then remembered and the counter goes up by one); with four entries
  waiting it is dropped, the waiting entries keep their deadlines and the key is not
  remembered, so a later copy can still be queued; a remembered key is a duplicate.
\<close>

theorem relay_admission:
  assumes "ns_reachable s" and "relay_forwarding_enabled s"
    and "deserializePositionPacket (Some p) = Some pos"
    and "receive s (Some p) rssi snr now = (ev, s')"
  shows "ev_kind ev = (if dd_contains (relay_dedupe s) (keyFor pos) then kRelayDuplicate
           else if queued_count s = 4 then kRelayQueueDrop else kRelayQueued) \<and>
    (ev_kind ev \<noteq> kRelayQueued \<longrightarrow> queue s' = queue s \<and> relay_dedupe s' = relay_dedupe s) \<and>
    (ev_kind ev = kRelayQueued \<longrightarrow> queued_count s' = queued_count s + 1 \<and>
       dd_contains (relay_dedupe s') (keyFor pos))"
proof -
  have inv: "ns_inv s" using assms(1) by (rule ns_reachable_inv)
  note follows = receive_follows [of s "Some p" rssi snr now, unfolded assms(4) dedupe_follows_def]
  have "(ev_kind ev = (if dd_contains (relay_dedupe s) (keyFor pos) then kRelayDuplicate
           else if queued_count s = 4 then kRelayQueueDrop else kRelayQueued)) \<and>
     (ev_kind ev \<noteq> kRelayQueued \<longrightarrow> queue s' = queue s) \<and>
     (ev_kind ev = kRelayQueued \<longrightarrow> queued_count s' = queued_count s + 1 \<and> ev_position ev = pos)"
    using relay_duplicate [OF assms(3,2), of rssi snr now] relay_new [OF inv assms(3,2) _ assms(4)]
      assms(4) by (cases "dd_contains (relay_dedupe s) (keyFor pos)") (auto split: if_splits)
  then show ?thesis
    using follows inv by (auto simp: ns_inv_def ring.observe_then_contains)
qed

theorem relay_admission_witness:
  "ev_kind (fst (receive sample_relay (Some sample_bytes) 0 0 1000)) = kRelayQueued \<and>
   queued_count sample_relay_queued = queued_count sample_relay + 1"
proof -
  obtain ev where r: "receive sample_relay (Some sample_bytes) 0 0 1000 = (ev, sample_relay_queued)"
    by (metis prod.collapse sample_relay_queued_def)
  have d: "deserializePositionPacket (Some sample_bytes) = Some sample_position" by code_simp
  have e: "relay_forwarding_enabled sample_relay" by code_simp
  have "\<not> dd_contains (relay_dedupe sample_relay) (keyFor sample_position)"
    "queued_count sample_relay \<noteq> 4" by code_simp+
  then show ?thesis
    using relay_admission [OF sample_relay_reachable e d r] by (simp add: r)
qed

text \<open>
  bounded delay of a relay.  A packet queued at time \<open>now\<close> into an idle relay (empty
  queue, no forward in flight) is due \<open>ev_relay_delay_ms\<close> later, which lies between 1200 and
  4200 ms; within half the clock range \<open>takeDueForward\<close> yields it from then on and not before,
  also when the millisecond clock wraps in between.
\<close>

theorem relay_bounded_delay:
  assumes "ns_reachable s" and "receive s (Some p) rssi snr now = (ev, s')"
    and "ev_kind ev = kRelayQueued" and "queued_count s = 0" and "\<not> forward_active s"
    and "e < 2 ^ 31"
  shows "1200 \<le> unat (ev_relay_delay_ms ev) \<and> unat (ev_relay_delay_ms ev) \<le> 4200 \<and>
    (takeDueForward s' (now + of_nat e) \<noteq> None \<longleftrightarrow> unat (ev_relay_delay_ms ev) \<le> e)"
proof -
  have inv: "ns_inv s" using assms(1) by (rule ns_reachable_inv)
  obtain pos where d: "deserializePositionPacket (Some p) = Some pos"
    and en: "relay_forwarding_enabled s"
    using receive_queued_payload [OF assms(2,3)] by auto
  note new = receive_queued_new [OF inv d en assms(2,3)]
  let ?d = "deterministicRelayDelay (source_device_id pos) (sequence_number pos) (local_device_id s)"
  obtain i where i: "i < length (queue s)"
    and q: "queue s' = (queue s)[i := \<lparr>qe_valid = True, qe_due_ms = now + ?d,
       qe_ingress_rssi_dbm = rssi, qe_ingress_snr_db = snr, qe_packet = p\<rparr>]"
    and ev: "ev_relay_delay_ms ev = ?d" and fa: "\<not> forward_active s'"
    using relay_new [OF inv d en new(1) assms(2)] new(3) assms(5) by auto
  have empty: "\<not> qe_valid (queue s ! j)" if "j < length (queue s)" for j
  proof -
    have "filter qe_valid (queue s) = []" using inv assms(4) by (simp add: ns_inv_def)
    then show ?thesis using that by (simp add: filter_empty_conv)
  qed
  have bounds: "1200 \<le> unat ?d \<and> unat ?d \<le> 4200" by (rule relay_delay_bounds)
  have r: "reached (now + of_nat e) (now + ?d) \<longleftrightarrow> unat ?d \<le> e"
    using reached_after [of "unat ?d" e now] bounds assms(6) by simp
  have "takeDueForward s' (now + of_nat e) \<noteq> None \<longleftrightarrow>
        (\<exists>j < length (queue s'). qe_valid (queue s' ! j) \<and> reached (now + of_nat e) (qe_due_ms (queue s' ! j)))"
    using find_upt_None [of "\<lambda>j. qe_valid (queue s' ! j) \<and> reached (now + of_nat e) (qe_due_ms (queue s' ! j))"
        "length (queue s')"] fa en receive_follows [of s "Some p" rssi snr now] assms(2)
    by (auto simp: takeDueForward_def dedupe_follows_def Let_def split: option.splits)
  also have "\<dots> \<longleftrightarrow> unat ?d \<le> e"
    using i empty r by (auto simp: q nth_list_update)
  finally show ?thesis
    using bounds by (simp_all add: ev)
qed

theorem relay_bounded_delay_witness:
  "takeDueForward sample_relay_queued (1000 + of_nat 1199) = None \<and>
   takeDueForward sample_relay_queued (1000 + of_nat 4200) \<noteq> None"
proof -
  obtain ev where r: "receive sample_relay (Some sample_bytes) 0 0 1000 = (ev, sample_relay_queued)"
    by (metis prod.collapse sample_relay_queued_def)
  have k: "ev_kind (fst (receive sample_relay (Some sample_bytes) 0 0 1000)) = kRelayQueued"
    and z: "queued_count sample_relay = 0" and f: "\<not> forward_active sample_relay" by code_simp+
  have k': "ev_kind ev = kRelayQueued" using k by (simp add: r)
  note b = relay_bounded_delay [OF sample_relay_reachable r k' z f]
  show ?thesis using b [of 1199] b [of 4200]
    by (cases "takeDueForward sample_relay_queued 2199") auto
qed

text \<open>
  C38: one hop end to end.  Whatever a relay hands out as due, after any history of receptions,
  transmissions and changes of role since it was switched on, is the very packet of an earlier reception
  that it answered with \<open>kRelayQueued\<close>, no sooner than the delay announced there.  It is serialized
  without error, and a base receiving these bytes reports a relayed observation with the position the
  relay received then, the relay's identity and the RSSI and SNR the relay measured then; it is new or a
  duplicate according to the base's own memory of the source and sequence number.
\<close>

theorem relay_to_base:
  assumes "relay = ns_run NetworkService_init ops" and "takeDueForward relay now = Some (pkt, relay')"
    and "ns_role base = NodeRole.kBase" and "\<not> relay_forwarding_enabled base"
  shows "\<exists>pre post p rssi0 snr0 t0 pos out.
    ops = pre @ OpReceive (Some p) rssi0 snr0 t0 # post \<and>
    deserializePositionPacket (Some p) = Some pos \<and> original_packet pkt = p \<and>
    (let got = fst (receive (ns_run NetworkService_init pre) (Some p) rssi0 snr0 t0) in
       ev_kind got = kRelayQueued \<and> ev_position got = pos \<and> reached now (t0 + ev_relay_delay_ms got)) \<and>
    serializeRelayForwardPacket pkt (Some (replicate 49 0)) = Some out \<and>
    (let ev = fst (receive base (Some out) rssi snr t) in
     ev_kind ev = (if dd_contains (base_dedupe base) (keyFor pos) then kBaseDuplicate else kBaseNew) \<and>
     ev_path ev = PathRelay \<and> ev_position ev = pos \<and>
     ev_relay_device_id ev = local_device_id relay \<and>
     ev_ingress_rssi_dbm ev = rssi0 \<and> ev_ingress_snr_db ev = snr0 \<and>
     ev_link_rssi_dbm ev = rssi \<and> ev_link_snr_db ev = snr)"
proof -
  have inv: "ns_inv relay" unfolding assms(1) by (rule run_inv [OF ns_inv_init])
  have pkt: "relay_ok pkt" using takeDueForward_entry [OF inv assms(2)] by simp
  then have len: "length (original_packet pkt) = 34" by (simp add: relay_ok_def)
  obtain out where out: "serializeRelayForwardPacket pkt (Some (replicate 49 0)) = Some out"
    and lout: "length out = 49"
    using serializeRelay_succeeds [OF pkt, of "replicate 49 0"] by auto
  obtain pos where pos: "deserializePositionPacket (Some (original_packet pkt)) = Some pos"
    and dec: "deserializeRelayForwardPacket (Some out) = (kOk, Some (pkt, pos))"
    using relay_roundtrip [OF out len] by blast
  have base: "receive base (Some out) rssi snr t = receive_relay_forward base out rssi snr"
    using relay_decode_tags [OF dec] by (simp add: receive_def tlp_tags)
  obtain i where i: "i < length (queue relay)" "qe_valid (queue relay ! i)"
    "reached now (qe_due_ms (queue relay ! i))"
    and p: "pkt = \<lparr>relay_device_id = local_device_id relay, hop_count = 1, original_length = 34,
       ingress_rssi_dbm = qe_ingress_rssi_dbm (queue relay ! i),
       ingress_snr_db = qe_ingress_snr_db (queue relay ! i), original_packet = qe_packet (queue relay ! i)\<rparr>"
    using assms(2) by (rule takeDueForward_Some)
  have "queued_by NetworkService_init ops (queue relay ! i)"
    using i(1,2) unfolding assms(1) by (intro run_entries nth_mem)
  then show ?thesis
    using out pos assms(3,4) i(3) unfolding queued_by_def
    by (elim exE conjE)
       (intro exI conjI, auto simp: p base receive_relay_forward_def dec Let_def base_observe_def dd_observe_def
         NetworkEvent_init_def)
qed

definition sample_base :: NetworkService where
  "sample_base = ns_begin NetworkService_init 9 NodeRole.kBase"

definition sample_forward :: RelayForwardPacket where
  "sample_forward = \<lparr>relay_device_id = 7, hop_count = 1, original_length = 34,
     ingress_rssi_dbm = -90, ingress_snr_db = 5, original_packet = sample_bytes\<rparr>"

definition sample_history :: "ns_op list" where
  "sample_history = [OpBegin 7 NodeRole.kRelay, OpReceive (Some sample_bytes) (-90) 5 1000]"

theorem relay_to_base_witness:
  "\<exists>out. serializeRelayForwardPacket sample_forward (Some (replicate 49 0)) = Some out \<and>
    (let ev = fst (receive sample_base (Some out) (-60) 8 0) in
     ev_kind ev = kBaseNew \<and> ev_position ev = sample_position \<and> ev_relay_device_id ev = 7 \<and>
     ev_ingress_rssi_dbm ev = -90 \<and> ev_ingress_snr_db ev = 5)"
proof -
  have t: "map_option fst (takeDueForward (ns_run NetworkService_init sample_history) 9000) = Some sample_forward"
    by code_simp
  then obtain r where t': "takeDueForward (ns_run NetworkService_init sample_history) 9000 = Some (sample_forward, r)"
    by auto
  have b: "ns_role sample_base = NodeRole.kBase" "\<not> relay_forwarding_enabled sample_base"
    and n: "\<not> dd_contains (base_dedupe sample_base) (keyFor sample_position)"
    and p: "deserializePositionPacket (Some sample_bytes) = Some sample_position"
    and d: "local_device_id (ns_run NetworkService_init sample_history) = 7"
    by code_simp+
  show ?thesis
    using relay_to_base [OF refl t' b, of "-60" 8 0] p n d
    by (auto simp: Let_def sample_history_def Cons_eq_append_conv append_eq_Cons_conv)
qed

text \<open>
  a relay never forwards a forwarded packet.  With forwarding enabled a well-formed relay
  envelope is answered with \<open>kRelayNestedRejected\<close>: nothing is queued or remembered and the
  only change is the rejection counter.
\<close>

theorem relay_rejects_envelopes:
  assumes "relay_forwarding_enabled s" and "relay_ok pkt"
    and "serializeRelayForwardPacket pkt (Some o0) = Some out"
  shows "let (ev, s') = receive s (Some out) rssi snr now in
    ev_kind ev = kRelayNestedRejected \<and>
    s' = s\<lparr>relay_diagnostics := (relay_diagnostics s)\<lparr>nested_rejected :=
             nested_rejected (relay_diagnostics s) + 1\<rparr>\<rparr>"
proof -
  have "length (original_packet pkt) = 34" using assms(2) by (simp add: relay_ok_def)
  then obtain pos where dec: "deserializeRelayForwardPacket (Some out) = (kOk, Some (pkt, pos))"
    using relay_roundtrip [OF assms(3)] by blast
  have "receive s (Some out) rssi snr now = receive_relay_forward s out rssi snr"
    using relay_decode_tags [OF dec] by (simp add: receive_def tlp_tags)
  then show ?thesis using assms(1)
    by (simp add: receive_relay_forward_def dec Let_def NetworkEvent_init_def)
qed

theorem relay_rejects_envelopes_witness:
  "\<exists>out. serializeRelayForwardPacket sample_forward (Some (replicate 49 0)) = Some out \<and>
    ev_kind (fst (receive sample_relay (Some out) 0 0 0)) = kRelayNestedRejected"
proof -
  have ok: "relay_ok sample_forward" and e: "relay_forwarding_enabled sample_relay" by code_simp+
  obtain out where o: "serializeRelayForwardPacket sample_forward (Some (replicate 49 0)) = Some out"
    using serializeRelay_succeeds [OF ok, of "replicate 49 0"] by auto
  show ?thesis using relay_rejects_envelopes [OF e ok o, of 0 0 0] o
    by (auto simp: Let_def split_beta)
qed

end
