(* ===== verification/Geofence_Geometry.thy ===== *)
theory Geofence_Geometry
  imports Complex_Main Prelude
begin

text \<open>
  \<open>firmware/include/geofence_geometry.h\<close> and \<open>firmware/src/geofence_geometry.cpp\<close>: validation
  of a field-scale polygon and winding-number containment.  Coordinates are \<open>int32_t\<close> words
  read with \<^term>\<open>sint\<close>; the \<open>int64_t\<close> products are computed in \<^typ>\<open>int\<close>, and
  \<open>geometry_fits_int64\<close> shows that they never leave the 64-bit range.
  A polygon view is a possibly null vertex array; its length is the \<open>uint16_t\<close> count.
\<close>

definition kMaximumPolygonVertices :: nat where "kMaximumPolygonVertices = 64"
definition kMaximumPolygonSpanE7 :: int where "kMaximumPolygonSpanE7 = 100000000"

record GeoPointE7 =
  latitude_e7 :: i32
  longitude_e7 :: i32

type_synonym GeofencePolygonView = "GeoPointE7 list option"

definition effectiveGeofenceVertexCount :: "GeofencePolygonView \<Rightarrow> nat" where
  "effectiveGeofenceVertexCount polygon =
     (case polygon of None \<Rightarrow> 0
      | Some vs \<Rightarrow>
          if length vs = 0 then 0
          else if length vs > 1 \<and> latitude_e7 (vs ! 0) = latitude_e7 (vs ! (length vs - 1)) \<and>
                  longitude_e7 (vs ! 0) = longitude_e7 (vs ! (length vs - 1))
          then length vs - 1 else length vs)"

datatype GeofencePolygonValidation =
  kOk | kNullVertices | kTooFewVertices | kTooManyVertices | kCoordinateOutOfRange
  | kSpanTooLarge | kDuplicateAdjacentVertex | kDegenerate | kSelfIntersecting

datatype GeofencePointRelation = kInside | kBoundary | kOutside | kInvalidPolygon | kInvalidPoint

definition samePoint :: "GeoPointE7 \<Rightarrow> GeoPointE7 \<Rightarrow> bool" where
  "samePoint a b \<longleftrightarrow> latitude_e7 a = latitude_e7 b \<and> longitude_e7 a = longitude_e7 b"

definition coordinateInRange :: "GeoPointE7 \<Rightarrow> bool" where
  "coordinateInRange p \<longleftrightarrow>
     sint (latitude_e7 p) > -900000000 \<and> sint (latitude_e7 p) < 900000000 \<and>
     sint (longitude_e7 p) > -1800000000 \<and> sint (longitude_e7 p) < 1800000000"

definition cross :: "GeoPointE7 \<Rightarrow> GeoPointE7 \<Rightarrow> GeoPointE7 \<Rightarrow> int" where
  "cross a b point =
     (let ab_x = sint (longitude_e7 b) - sint (longitude_e7 a);
          ab_y = sint (latitude_e7 b) - sint (latitude_e7 a);
          ap_x = sint (longitude_e7 point) - sint (longitude_e7 a);
          ap_y = sint (latitude_e7 point) - sint (latitude_e7 a)
      in ab_x * ap_y - ab_y * ap_x)"

definition orientation :: "GeoPointE7 \<Rightarrow> GeoPointE7 \<Rightarrow> GeoPointE7 \<Rightarrow> int" where
  "orientation a b point =
     (let value = cross a b point in if value < 0 then -1 else if value > 0 then 1 else 0)"

definition betweenInclusive :: "i32 \<Rightarrow> i32 \<Rightarrow> i32 \<Rightarrow> bool" where
  "betweenInclusive value a b =
     (let low = (if sint a < sint b then a else b); high = (if sint a < sint b then b else a)
      in sint value \<ge> sint low \<and> sint value \<le> sint high)"

definition pointOnSegment :: "GeoPointE7 \<Rightarrow> GeoPointE7 \<Rightarrow> GeoPointE7 \<Rightarrow> bool" where
  "pointOnSegment a b point \<longleftrightarrow>
     orientation a b point = 0 \<and>
     betweenInclusive (latitude_e7 point) (latitude_e7 a) (latitude_e7 b) \<and>
     betweenInclusive (longitude_e7 point) (longitude_e7 a) (longitude_e7 b)"

definition segmentsIntersect :: "GeoPointE7 \<Rightarrow> GeoPointE7 \<Rightarrow> GeoPointE7 \<Rightarrow> GeoPointE7 \<Rightarrow> bool" where
  "segmentsIntersect a b c d =
     (let o1 = orientation a b c; o2 = orientation a b d;
          o3 = orientation c d a; o4 = orientation c d b in
      if o1 \<noteq> o2 \<and> o3 \<noteq> o4 then True
      else if o1 = 0 \<and> pointOnSegment a b c then True
      else if o2 = 0 \<and> pointOnSegment a b d then True
      else if o3 = 0 \<and> pointOnSegment c d a then True
      else if o4 = 0 \<and> pointOnSegment c d b then True
      else False)"

definition edgesAreAdjacent :: "nat \<Rightarrow> nat \<Rightarrow> nat \<Rightarrow> bool" where
  "edgesAreAdjacent first second count =
     (if first = second then True
      else (first + 1) mod count = second \<or> (second + 1) mod count = first)"

text \<open>The running minimum and maximum of both coordinates.\<close>

record bounds =
  minimum_latitude :: int
  maximum_latitude :: int
  minimum_longitude :: int
  maximum_longitude :: int

definition bounds_of :: "GeoPointE7 \<Rightarrow> bounds" where
  "bounds_of p = \<lparr>minimum_latitude = sint (latitude_e7 p), maximum_latitude = sint (latitude_e7 p),
     minimum_longitude = sint (longitude_e7 p), maximum_longitude = sint (longitude_e7 p)\<rparr>"

definition extend_bounds :: "bounds \<Rightarrow> GeoPointE7 \<Rightarrow> bounds" where
  "extend_bounds b p =
     \<lparr>minimum_latitude = (if sint (latitude_e7 p) < minimum_latitude b then sint (latitude_e7 p) else minimum_latitude b),
      maximum_latitude = (if sint (latitude_e7 p) > maximum_latitude b then sint (latitude_e7 p) else maximum_latitude b),
      minimum_longitude = (if sint (longitude_e7 p) < minimum_longitude b then sint (longitude_e7 p) else minimum_longitude b),
      maximum_longitude = (if sint (longitude_e7 p) > maximum_longitude b then sint (longitude_e7 p) else maximum_longitude b)\<rparr>"

text \<open>The first loop of the validator: the index list is \<open>i = 0 \<dots> count - 1\<close>.\<close>

fun scan_vertices ::
  "GeoPointE7 list \<Rightarrow> nat \<Rightarrow> nat list \<Rightarrow> bounds \<Rightarrow> GeofencePolygonValidation + bounds" where
  "scan_vertices vs count [] b = Inr b"
| "scan_vertices vs count (i # is) b =
     (let current = vs ! i; nxt = vs ! ((i + 1) mod count) in
      if \<not> coordinateInRange current then Inl kCoordinateOutOfRange
      else if samePoint current nxt then Inl kDuplicateAdjacentVertex
      else scan_vertices vs count is (extend_bounds b current))"

definition shoelace_term :: "GeoPointE7 list \<Rightarrow> nat \<Rightarrow> nat \<Rightarrow> int" where
  "shoelace_term vs count i =
     (let origin_x = sint (longitude_e7 (vs ! 0)); origin_y = sint (latitude_e7 (vs ! 0));
          a = vs ! i; b = vs ! ((i + 1) mod count);
          ax = sint (longitude_e7 a) - origin_x; ay = sint (latitude_e7 a) - origin_y;
          bx = sint (longitude_e7 b) - origin_x; by' = sint (latitude_e7 b) - origin_y
      in ax * by' - ay * bx)"

definition signed_area_twice :: "GeoPointE7 list \<Rightarrow> nat \<Rightarrow> nat \<Rightarrow> int" where
  "signed_area_twice vs count k = fold (\<lambda>i s. s + shoelace_term vs count i) [0..<k] 0"

definition selfIntersects :: "GeoPointE7 list \<Rightarrow> nat \<Rightarrow> bool" where
  "selfIntersects vs count =
     list_ex (\<lambda>first. list_ex (\<lambda>second.
         \<not> edgesAreAdjacent first second count \<and>
         segmentsIntersect (vs ! first) (vs ! ((first + 1) mod count))
                           (vs ! second) (vs ! ((second + 1) mod count)))
       [first + 1..<count]) [0..<count]"

definition validate_vertices :: "GeoPointE7 list \<Rightarrow> nat \<Rightarrow> GeofencePolygonValidation" where
  "validate_vertices vs count =
     (if count < 3 then kTooFewVertices
      else if count > kMaximumPolygonVertices then kTooManyVertices
      else case scan_vertices vs count [0..<count] (bounds_of (vs ! 0)) of
        Inl e \<Rightarrow> e
      | Inr b \<Rightarrow>
          if maximum_latitude b - minimum_latitude b > kMaximumPolygonSpanE7 \<or>
             maximum_longitude b - minimum_longitude b > kMaximumPolygonSpanE7
          then kSpanTooLarge
          else if signed_area_twice vs count count = 0 then kDegenerate
          else if selfIntersects vs count then kSelfIntersecting
          else kOk)"

definition validateGeofencePolygon :: "GeofencePolygonView \<Rightarrow> GeofencePolygonValidation" where
  "validateGeofencePolygon polygon =
     (case polygon of None \<Rightarrow> kNullVertices
      | Some vs \<Rightarrow> validate_vertices vs (effectiveGeofenceVertexCount polygon))"

definition winding_step :: "GeoPointE7 \<Rightarrow> GeoPointE7 \<Rightarrow> GeoPointE7 \<Rightarrow> int \<Rightarrow> int" where
  "winding_step a b point winding_number =
     (if sint (latitude_e7 a) \<le> sint (latitude_e7 point)
      then (if sint (latitude_e7 b) > sint (latitude_e7 point) \<and> cross a b point > 0
            then winding_number + 1 else winding_number)
      else if sint (latitude_e7 b) \<le> sint (latitude_e7 point) \<and> cross a b point < 0
      then winding_number - 1 else winding_number)"

definition winding :: "GeoPointE7 list \<Rightarrow> nat \<Rightarrow> GeoPointE7 \<Rightarrow> int" where
  "winding vs count point =
     fold (\<lambda>i. winding_step (vs ! i) (vs ! ((i + 1) mod count)) point) [0..<count] 0"

definition outside_bounds :: "bounds \<Rightarrow> GeoPointE7 \<Rightarrow> bool" where
  "outside_bounds b p \<longleftrightarrow>
     sint (latitude_e7 p) < minimum_latitude b \<or> sint (latitude_e7 p) > maximum_latitude b \<or>
     sint (longitude_e7 p) < minimum_longitude b \<or> sint (longitude_e7 p) > maximum_longitude b"

definition classify_vertices :: "GeoPointE7 list \<Rightarrow> nat \<Rightarrow> GeoPointE7 \<Rightarrow> GeofencePointRelation" where
  "classify_vertices vs count point =
     (let b = fold (\<lambda>i b. extend_bounds b (vs ! i)) [1..<count] (bounds_of (vs ! 0)) in
      if outside_bounds b point then kOutside
      else if list_ex (\<lambda>i. pointOnSegment (vs ! i) (vs ! ((i + 1) mod count)) point) [0..<count]
      then kBoundary
      else if winding vs count point = 0 then kOutside else kInside)"

definition classifyPointInGeofencePolygon ::
  "GeofencePolygonView \<Rightarrow> GeoPointE7 \<Rightarrow> GeofencePointRelation" where
  "classifyPointInGeofencePolygon polygon point =
     (if validateGeofencePolygon polygon \<noteq> kOk then kInvalidPolygon
      else if \<not> coordinateInRange point then kInvalidPoint
      else case polygon of None \<Rightarrow> kInvalidPolygon
        | Some vs \<Rightarrow> classify_vertices vs (effectiveGeofenceVertexCount polygon) point)"

section \<open>The bounding box\<close>

definition in_box :: "bounds \<Rightarrow> GeoPointE7 \<Rightarrow> bool" where
  "in_box b p \<longleftrightarrow>
     minimum_latitude b \<le> sint (latitude_e7 p) \<and> sint (latitude_e7 p) \<le> maximum_latitude b \<and>
     minimum_longitude b \<le> sint (longitude_e7 p) \<and> sint (longitude_e7 p) \<le> maximum_longitude b"

definition box_le :: "bounds \<Rightarrow> bounds \<Rightarrow> bool" where
  "box_le b c \<longleftrightarrow>
     minimum_latitude c \<le> minimum_latitude b \<and> maximum_latitude b \<le> maximum_latitude c \<and>
     minimum_longitude c \<le> minimum_longitude b \<and> maximum_longitude b \<le> maximum_longitude c"

lemma in_box_bounds_of [simp]: "in_box (bounds_of p) p"
  by (simp add: in_box_def bounds_of_def)

lemma in_box_extend [simp]: "in_box (extend_bounds b p) p"
  by (auto simp: in_box_def extend_bounds_def)

lemma box_le_extend [simp]: "box_le b (extend_bounds b p)"
  by (auto simp: box_le_def extend_bounds_def)

lemma box_le_refl [simp]: "box_le b b" and box_le_trans: "box_le b c \<Longrightarrow> box_le c d \<Longrightarrow> box_le b d"
  by (auto simp: box_le_def)

lemma in_box_mono: "in_box b p \<Longrightarrow> box_le b c \<Longrightarrow> in_box c p"
  by (auto simp: in_box_def box_le_def)

lemma outside_bounds_iff: "outside_bounds b p \<longleftrightarrow> \<not> in_box b p"
  by (auto simp: outside_bounds_def in_box_def)

definition box_of :: "GeoPointE7 list \<Rightarrow> nat list \<Rightarrow> bounds \<Rightarrow> bounds" where
  "box_of vs is b = fold (\<lambda>i b. extend_bounds b (vs ! i)) is b"

lemma box_of_le: "box_le b (box_of vs is b)"
proof (induction "is" arbitrary: b)
  case (Cons i "is")
  have "box_le b (extend_bounds b (vs ! i))" by simp
  also note Cons.IH [of "extend_bounds b (vs ! i)"]
  finally (box_le_trans) show ?case by (simp add: box_of_def)
qed (simp add: box_of_def)

lemma box_of_in: "i \<in> set is \<Longrightarrow> in_box (box_of vs is b) (vs ! i)"
proof (induction "is" arbitrary: b)
  case (Cons j "is")
  show ?case
  proof (cases "i \<in> set is")
    case True
    then show ?thesis using Cons.IH by (simp add: box_of_def)
  next
    case False
    then have "i = j" using Cons.prems by simp
    have "in_box (extend_bounds b (vs ! j)) (vs ! j)" by simp
    then have "in_box (box_of vs is (extend_bounds b (vs ! j))) (vs ! j)"
      using box_of_le by (rule in_box_mono)
    then show ?thesis using \<open>i = j\<close> by (simp add: box_of_def)
  qed
qed simp

lemma box_of_first: "in_box (box_of vs is (bounds_of (vs ! 0))) (vs ! 0)"
  using box_of_le in_box_bounds_of in_box_mono by blast

lemma scan_vertices_box: "scan_vertices vs n is b = Inr b' \<Longrightarrow> b' = box_of vs is b"
  by (induction vs n "is" b rule: scan_vertices.induct)
    (auto simp: box_of_def Let_def split: if_splits)

lemma scan_vertices_ok:
  "scan_vertices vs n is b = Inr b' \<Longrightarrow> i \<in> set is \<Longrightarrow>
   coordinateInRange (vs ! i) \<and> \<not> samePoint (vs ! i) (vs ! ((i + 1) mod n))"
  by (induction vs n "is" b rule: scan_vertices.induct) (auto simp: Let_def split: if_splits)

lemma scan_vertices_not_ok: "scan_vertices vs n is b \<noteq> Inl kOk"
  by (induction vs n "is" b rule: scan_vertices.induct) (auto simp: Let_def)

lemma scan_vertices_congr:
  assumes "\<And>i. i < n \<Longrightarrow> vs ! i = ws ! i" and "set is \<subseteq> {..<n}"
  shows "scan_vertices vs n is b = scan_vertices ws n is b"
  using assms(2)
proof (induction "is" arbitrary: b)
  case (Cons i "is")
  then have i: "i < n" by simp
  then have "Suc i mod n < n" by (intro mod_less_divisor) simp
  then have "vs ! i = ws ! i" "vs ! (Suc i mod n) = ws ! (Suc i mod n)"
    using assms(1) i by simp_all
  then show ?case using Cons by (simp add: Let_def)
qed simp

section \<open>The explicit closing vertex\<close>

text \<open>Only the first \<open>count\<close> vertices are ever read.\<close>

lemma fold_index_cong:
  "(\<And>i x. i \<in> set is \<Longrightarrow> f i x = g i x) \<Longrightarrow> fold f is x = fold g is x"
  by (induction "is" arbitrary: x) simp_all

lemma validate_congr:
  assumes eq: "\<And>i. i < n \<Longrightarrow> vs ! i = ws ! i"
  shows "validate_vertices vs n = validate_vertices ws n"
proof (cases "n < 3")
  case False
  have m: "Suc i mod n < n" for i using False by simp
  have z: "vs ! 0 = ws ! 0" using eq False by simp
  have sc: "scan_vertices vs n [0..<n] b = scan_vertices ws n [0..<n] b" for b
    by (rule scan_vertices_congr) (auto simp: eq)
  have st: "shoelace_term vs n i = shoelace_term ws n i" if "i < n" for i
    using that by (simp add: shoelace_term_def eq m z)
  have ar: "signed_area_twice vs n n = signed_area_twice ws n n"
    unfolding signed_area_twice_def by (rule fold_index_cong) (simp add: st)
  have si: "selfIntersects vs n = selfIntersects ws n"
    unfolding selfIntersects_def list_ex_iff by (rule bex_cong) (auto simp: eq m)
  show ?thesis by (simp add: validate_vertices_def sc ar si z)
qed (simp add: validate_vertices_def)

lemma classify_congr:
  assumes eq: "\<And>i. i < n \<Longrightarrow> vs ! i = ws ! i" and pos: "0 < n"
  shows "classify_vertices vs n p = classify_vertices ws n p"
proof -
  have m: "Suc i mod n < n" for i using pos by simp
  have z: "vs ! 0 = ws ! 0" using eq pos by simp
  have bx: "fold (\<lambda>i b. extend_bounds b (vs ! i)) [1..<n] b = fold (\<lambda>i b. extend_bounds b (ws ! i)) [1..<n] b" for b
    by (rule fold_index_cong) (simp add: eq)
  have wn: "winding vs n p = winding ws n p"
    unfolding winding_def by (rule fold_index_cong) (simp add: eq m)
  have on: "list_ex (\<lambda>i. pointOnSegment (vs ! i) (vs ! ((i + 1) mod n)) p) [0..<n] =
            list_ex (\<lambda>i. pointOnSegment (ws ! i) (ws ! ((i + 1) mod n)) p) [0..<n]"
    unfolding list_ex_iff by (rule bex_cong) (auto simp: eq m)
  show ?thesis by (simp only: classify_vertices_def bx z wn on)
qed

definition effective_vertices :: "GeoPointE7 list \<Rightarrow> GeoPointE7 list" where
  "effective_vertices vs = take (effectiveGeofenceVertexCount (Some vs)) vs"

lemma effective_le: "effectiveGeofenceVertexCount (Some vs) \<le> length vs"
  by (simp add: effectiveGeofenceVertexCount_def)

lemma length_effective [simp]:
  "length (effective_vertices vs) = effectiveGeofenceVertexCount (Some vs)"
  using effective_le [of vs] by (simp add: effective_vertices_def)

lemma validate_okD:
  assumes "validate_vertices vs n = kOk"
  shows "3 \<le> n" "n \<le> 64"
    and "\<And>i. i < n \<Longrightarrow> coordinateInRange (vs ! i) \<and> \<not> samePoint (vs ! i) (vs ! ((i + 1) mod n))"
    and "\<not> selfIntersects vs n" and "signed_area_twice vs n n \<noteq> 0"
  using assms
  by (auto simp: validate_vertices_def kMaximumPolygonVertices_def scan_vertices_not_ok
      split: if_splits sum.splits dest: scan_vertices_ok)

text \<open>Stripping the closing vertex of a valid polygon leaves nothing further to strip.\<close>

lemma effective_idem:
  assumes "validateGeofencePolygon (Some vs) = kOk"
  shows "effectiveGeofenceVertexCount (Some (effective_vertices vs)) = length (effective_vertices vs)"
proof -
  let ?n = "effectiveGeofenceVertexCount (Some vs)"
  have ok: "validate_vertices vs ?n = kOk" using assms by (simp add: validateGeofencePolygon_def)
  note n = validate_okD(1) [OF ok]
  have "\<not> samePoint (vs ! (?n - 1)) (vs ! ((?n - 1 + 1) mod ?n))"
    using validate_okD(3) [OF ok, of "?n - 1"] n by simp
  then have "\<not> samePoint (vs ! 0) (vs ! (?n - 1))" using n by (auto simp: samePoint_def)
  moreover have "effective_vertices vs ! (?n - 1) = vs ! (?n - 1)" "effective_vertices vs ! 0 = vs ! 0"
    using n by (simp_all add: effective_vertices_def)
  ultimately have "\<not> samePoint (effective_vertices vs ! 0)
      (effective_vertices vs ! (length (effective_vertices vs) - 1))" by simp
  then show ?thesis
    using n unfolding effectiveGeofenceVertexCount_def [of "Some (effective_vertices vs)"] samePoint_def
    by (auto simp del: length_effective)
qed

lemma effective_vertices_same:
  assumes "validateGeofencePolygon (Some vs) = kOk"
  shows "validateGeofencePolygon (Some (effective_vertices vs)) = kOk"
    and "classifyPointInGeofencePolygon (Some (effective_vertices vs)) p =
         classifyPointInGeofencePolygon (Some vs) p"
proof -
  let ?n = "effectiveGeofenceVertexCount (Some vs)"
  have eq: "effective_vertices vs ! i = vs ! i" if "i < ?n" for i
    using that by (simp add: effective_vertices_def)
  have pos: "0 < ?n"
    using validate_okD(1) [of vs ?n] assms by (simp add: validateGeofencePolygon_def)
  show ok: "validateGeofencePolygon (Some (effective_vertices vs)) = kOk"
    using assms validate_congr [OF eq] by (simp add: validateGeofencePolygon_def effective_idem [OF assms])
  show "classifyPointInGeofencePolygon (Some (effective_vertices vs)) p =
        classifyPointInGeofencePolygon (Some vs) p"
    using classify_congr [OF eq pos]
    by (simp add: classifyPointInGeofencePolygon_def assms ok effective_idem [OF assms])
qed

section \<open>64-bit range\<close>

lemma box_first: "box_of vs [0..<n] (bounds_of (vs ! 0)) = box_of vs [1..<n] (bounds_of (vs ! 0))"
  if "0 < n"
proof -
  have "extend_bounds (bounds_of p) p = bounds_of p" for p by (simp add: extend_bounds_def bounds_of_def)
  then show ?thesis using that by (simp add: box_of_def upt_conv_Cons)
qed

definition small_box :: "bounds \<Rightarrow> bool" where
  "small_box b \<longleftrightarrow> maximum_latitude b - minimum_latitude b \<le> kMaximumPolygonSpanE7 \<and>
     maximum_longitude b - minimum_longitude b \<le> kMaximumPolygonSpanE7"

lemma box_delta:
  assumes "in_box b p" "in_box b q" "small_box b"
  shows "\<bar>sint (longitude_e7 p) - sint (longitude_e7 q)\<bar> \<le> 100000000"
    and "\<bar>sint (latitude_e7 p) - sint (latitude_e7 q)\<bar> \<le> 100000000"
  using assms by (auto simp: in_box_def small_box_def kMaximumPolygonSpanE7_def)

lemma product_difference_bound:
  fixes x :: int
  assumes "\<bar>x\<bar> \<le> m" "\<bar>y\<bar> \<le> m" "\<bar>u\<bar> \<le> m" "\<bar>v\<bar> \<le> m"
  shows "\<bar>x * u - y * v\<bar> \<le> 2 * (m * m)"
proof -
  have "\<bar>x * u\<bar> \<le> m * m" "\<bar>y * v\<bar> \<le> m * m"
    using assms mult_mono [of "\<bar>x\<bar>" m "\<bar>u\<bar>" m] mult_mono [of "\<bar>y\<bar>" m "\<bar>v\<bar>" m]
    by (auto simp: abs_mult)
  then show ?thesis by linarith
qed

lemma cross_int64:
  assumes "in_box b p" "in_box b q" "in_box b r" "small_box b"
  shows "\<bar>cross p q r\<bar> \<le> 20000000000000000"
  using product_difference_bound
    [OF box_delta(1) [OF assms(2,1,4)] box_delta(2) [OF assms(2,1,4)]
        box_delta(2) [OF assms(3,1,4)] box_delta(1) [OF assms(3,1,4)]]
  by (simp add: cross_def Let_def)

lemma shoelace_term_int64:
  assumes "in_box b (vs ! 0)" "in_box b (vs ! i)" "in_box b (vs ! ((i + 1) mod n))" "small_box b"
  shows "\<bar>shoelace_term vs n i\<bar> \<le> 20000000000000000"
  using product_difference_bound
    [OF box_delta(1) [OF assms(2,1,4)] box_delta(2) [OF assms(2,1,4)]
        box_delta(2) [OF assms(3,1,4)] box_delta(1) [OF assms(3,1,4)]]
  by (simp add: shoelace_term_def Let_def)

lemma shoelace_int64:
  assumes "\<And>i. i < k \<Longrightarrow> \<bar>shoelace_term vs n i\<bar> \<le> m"
  shows "\<bar>signed_area_twice vs n k\<bar> \<le> int k * m"
  using assms
proof (induction k)
  case (Suc k)
  then have "\<bar>signed_area_twice vs n k\<bar> \<le> int k * m" "\<bar>shoelace_term vs n k\<bar> \<le> m" by simp_all
  moreover have "signed_area_twice vs n (Suc k) = signed_area_twice vs n k + shoelace_term vs n k"
    by (simp add: signed_area_twice_def)
  ultimately show ?case by (simp add: algebra_simps)
qed (simp add: signed_area_twice_def)

text \<open>
  Once the coordinate and span checks have passed - the point from which on the code
  multiplies - every delta product difference and every partial shoelace sum fits a signed
  64-bit integer, for polygon vertices and for query points inside the bounding box.
\<close>
theorem geometry_fits_int64:
  assumes "n \<le> kMaximumPolygonVertices" and "0 < n"
    and "scan_vertices vs n [0..<n] (bounds_of (vs ! 0)) = Inr b"
    and "maximum_latitude b - minimum_latitude b \<le> kMaximumPolygonSpanE7"
    and "maximum_longitude b - minimum_longitude b \<le> kMaximumPolygonSpanE7"
  shows "(\<forall>i<n. \<forall>j<n. \<forall>k<n. \<bar>cross (vs ! i) (vs ! j) (vs ! k)\<bar> < 2 ^ 63) \<and>
    (\<forall>i<n. \<forall>j<n. \<forall>p. \<not> outside_bounds b p \<longrightarrow> \<bar>cross (vs ! i) (vs ! j) p\<bar> < 2 ^ 63) \<and>
    (\<forall>k\<le>n. \<bar>signed_area_twice vs n k\<bar> < 2 ^ 63)"
proof -
  note b = scan_vertices_box [OF assms(3)]
  have small: "small_box b" using assms(4,5) by (simp add: small_box_def)
  have inb: "in_box b (vs ! i)" if "i < n" for i using that by (simp add: b box_of_in)
  have m: "(i + 1) mod n < n" for i using assms(2) by simp
  have 1: "\<bar>cross (vs ! i) (vs ! j) p\<bar> < 2 ^ 63" if "i < n" "j < n" "in_box b p" for i j p
    using cross_int64 [OF inb [OF that(1)] inb [OF that(2)] that(3) small] by simp
  have 2: "\<bar>signed_area_twice vs n k\<bar> < 2 ^ 63" if "k \<le> n" for k
  proof -
    have "\<bar>signed_area_twice vs n k\<bar> \<le> int k * 20000000000000000"
      by (rule shoelace_int64) (use that in \<open>intro shoelace_term_int64 [OF _ _ _ small] inb m; simp add: assms(2)\<close>)
    also have "\<dots> \<le> 64 * 20000000000000000"
      using that assms(1) by (intro mult_right_mono) (simp_all add: kMaximumPolygonVertices_def)
    finally show ?thesis by simp
  qed
  show ?thesis using 1 2 inb by (auto simp: outside_bounds_iff)
qed

definition sample_square :: "GeoPointE7 list" where
  "sample_square = [\<lparr>latitude_e7 = 0, longitude_e7 = 0\<rparr>, \<lparr>latitude_e7 = 0, longitude_e7 = 1000\<rparr>,
     \<lparr>latitude_e7 = 1000, longitude_e7 = 1000\<rparr>, \<lparr>latitude_e7 = 1000, longitude_e7 = 0\<rparr>]"

definition sample_point :: "i32 \<Rightarrow> i32 \<Rightarrow> GeoPointE7" where
  "sample_point y x = \<lparr>latitude_e7 = y, longitude_e7 = x\<rparr>"

theorem geometry_fits_int64_witness:
  "\<bar>cross (sample_square ! 0) (sample_square ! 1) (sample_square ! 2)\<bar> < 2 ^ 63"
proof -
  have "scan_vertices sample_square 4 [0..<4] (bounds_of (sample_square ! 0)) =
      Inr \<lparr>minimum_latitude = 0, maximum_latitude = 1000, minimum_longitude = 0, maximum_longitude = 1000\<rparr>"
    by code_simp
  from geometry_fits_int64 [OF _ _ this] show ?thesis
    by (simp add: kMaximumPolygonVertices_def kMaximumPolygonSpanE7_def)
qed

declare of_int_sint [simp del]

section \<open>The plane the integer predicates describe\<close>

definition xr :: "GeoPointE7 \<Rightarrow> real" where "xr p = real_of_int (sint (longitude_e7 p))"
definition yr :: "GeoPointE7 \<Rightarrow> real" where "yr p = real_of_int (sint (latitude_e7 p))"

text \<open>The points of the closed segment from \<open>a\<close> to \<open>b\<close>, in real coordinates.\<close>

definition on_segment :: "GeoPointE7 \<Rightarrow> GeoPointE7 \<Rightarrow> real \<Rightarrow> real \<Rightarrow> bool" where
  "on_segment a b x y \<longleftrightarrow>
     (\<exists>t. 0 \<le> t \<and> t \<le> 1 \<and> x = xr a + t * (xr b - xr a) \<and> y = yr a + t * (yr b - yr a))"

lemma cross_real:
  "real_of_int (cross a b c) = (xr b - xr a) * (yr c - yr a) - (yr b - yr a) * (xr c - xr a)"
  by (simp add: cross_def xr_def yr_def Let_def)

lemma samePoint_real: "samePoint a b \<longleftrightarrow> xr a = xr b \<and> yr a = yr b"
  by (auto simp: samePoint_def xr_def yr_def intro: signed_word_eqI)

lemma orientation_cases:
  "orientation a b c = 0 \<longleftrightarrow> real_of_int (cross a b c) = 0"
  "orientation a b c = 1 \<longleftrightarrow> real_of_int (cross a b c) > 0"
  "orientation a b c = - 1 \<longleftrightarrow> real_of_int (cross a b c) < 0"
  by (auto simp: orientation_def Let_def)

lemma betweenInclusive_real:
  "betweenInclusive p a b \<longleftrightarrow>
     min (real_of_int (sint a)) (real_of_int (sint b)) \<le> real_of_int (sint p) \<and>
     real_of_int (sint p) \<le> max (real_of_int (sint a)) (real_of_int (sint b))"
  by (auto simp: betweenInclusive_def Let_def)

lemma between_param:
  fixes a b :: real
  assumes "0 \<le> t" "t \<le> 1"
  shows "min a b \<le> a + t * (b - a)" and "a + t * (b - a) \<le> max a b"
proof -
  have 1: "0 \<le> t * (b - a) \<and> t * (b - a) \<le> b - a" if "a \<le> b"
    using assms that mult_left_le_one_le [of "b - a" t] by simp
  have 2: "0 \<le> t * (a - b) \<and> t * (a - b) \<le> a - b" if "b \<le> a"
    using assms that mult_left_le_one_le [of "a - b" t] by simp
  show "min a b \<le> a + t * (b - a)" "a + t * (b - a) \<le> max a b"
    using 1 2 by (auto simp: min_def max_def algebra_simps)
qed

lemma param_between:
  fixes a b x :: real
  assumes "a \<noteq> b" "min a b \<le> x" "x \<le> max a b"
  shows "0 \<le> (x - a) / (b - a)" "(x - a) / (b - a) \<le> 1"
  using assms by (auto simp: min_def max_def field_simps split: if_splits)

lemma pointOnSegment_real:
  "pointOnSegment a b p \<longleftrightarrow> on_segment a b (xr p) (yr p)"
proof
  assume "pointOnSegment a b p"
  then have c: "(xr b - xr a) * (yr p - yr a) = (yr b - yr a) * (xr p - xr a)"
    and x: "min (xr a) (xr b) \<le> xr p" "xr p \<le> max (xr a) (xr b)"
    and y: "min (yr a) (yr b) \<le> yr p" "yr p \<le> max (yr a) (yr b)"
    by (simp_all add: pointOnSegment_def orientation_cases cross_real betweenInclusive_real xr_def yr_def)
  show "on_segment a b (xr p) (yr p)"
  proof (cases "xr a = xr b")
    case False
    let ?t = "(xr p - xr a) / (xr b - xr a)"
    have "yr p = yr a + ?t * (yr b - yr a)" using c False by (simp add: field_simps)
    then show ?thesis using param_between [OF False x] False
      by (auto simp: on_segment_def intro!: exI [of _ ?t])
  next
    case True
    show ?thesis
    proof (cases "yr a = yr b")
      case False
      let ?t = "(yr p - yr a) / (yr b - yr a)"
      show ?thesis using param_between [OF False y] False True x
        by (auto simp: on_segment_def intro!: exI [of _ ?t])
    next
      case True
      then show ?thesis using \<open>xr a = xr b\<close> x y by (auto simp: on_segment_def intro!: exI [of _ 0])
    qed
  qed
next
  assume "on_segment a b (xr p) (yr p)"
  then obtain t where t: "0 \<le> t" "t \<le> 1" "xr p = xr a + t * (xr b - xr a)" "yr p = yr a + t * (yr b - yr a)"
    by (auto simp: on_segment_def)
  have "real_of_int (cross a b p) = 0" by (simp add: cross_real t(3,4) algebra_simps)
  then show "pointOnSegment a b p"
    using between_param [OF t(1,2), of "xr a" "xr b"] between_param [OF t(1,2), of "yr a" "yr b"]
    by (simp add: pointOnSegment_def orientation_cases betweenInclusive_real
        flip: t(3,4) xr_def yr_def)
qed

subsection \<open>Crossing segments\<close>

lemma crossing_param:
  fixes s d :: real
  assumes "s * (s - d) \<le> 0" "d \<noteq> 0"
  shows "0 \<le> s / d" "s / d \<le> 1"
proof -
  have "s \<ge> 0 \<and> s \<le> d \<or> s \<le> 0 \<and> d \<le> s"
    using assms(1) by (auto simp: mult_le_0_iff)
  then show "0 \<le> s / d" "s / d \<le> 1"
    using assms(2) by (auto simp: divide_simps)
qed

lemma opposite_orientation:
  assumes "orientation a b c \<noteq> orientation a b d"
  shows "real_of_int (cross a b c) * real_of_int (cross a b d) \<le> 0"
    and "cross a b c \<noteq> cross a b d"
  using assms by (auto simp: orientation_def Let_def mult_le_0_iff split: if_splits)

lemma proper_crossing:
  assumes o: "orientation a b c \<noteq> orientation a b d" "orientation c d a \<noteq> orientation c d b"
  shows "\<exists>x y. on_segment a b x y \<and> on_segment c d x y"
proof -
  define D where "D = (xr b - xr a) * (yr d - yr c) - (yr b - yr a) * (xr d - xr c)"
  define s where "s = real_of_int (cross a b c)"
  define u where "u = real_of_int (cross c d a)"
  have sd: "real_of_int (cross a b d) = s + D"
    by (simp add: s_def D_def cross_real algebra_simps)
  have ud: "real_of_int (cross c d b) = u - D"
    by (simp add: u_def D_def cross_real algebra_simps)
  have "D \<noteq> 0" using opposite_orientation(2) [OF o(1)] sd by (auto simp: s_def)
  have ss: "(- s) * (- s - D) \<le> 0" using opposite_orientation(1) [OF o(1)] sd
    by (simp add: s_def algebra_simps)
  have us: "u * (u - D) \<le> 0" using opposite_orientation(1) [OF o(2)] ud by (simp add: u_def)
  let ?t = "- s / D" and ?v = "u / D"
  note t = crossing_param [OF ss \<open>D \<noteq> 0\<close>] and v = crossing_param [OF us \<open>D \<noteq> 0\<close>]
  have "D * (xr c - xr a) = u * (xr b - xr a) + s * (xr d - xr c)"
    "D * (yr c - yr a) = u * (yr b - yr a) + s * (yr d - yr c)"
    by (simp_all add: s_def u_def D_def cross_real algebra_simps)
  then have "xr a + ?v * (xr b - xr a) = xr c + ?t * (xr d - xr c)"
    "yr a + ?v * (yr b - yr a) = yr c + ?t * (yr d - yr c)"
    using \<open>D \<noteq> 0\<close> by (simp_all add: field_simps)
  then show ?thesis using t v unfolding on_segment_def by metis
qed

lemma on_segment_ends: "on_segment a b (xr a) (yr a)" "on_segment a b (xr b) (yr b)"
  unfolding on_segment_def by (rule exI [of _ 0], simp, rule exI [of _ 1], simp)

lemma collinear_param:
  assumes "cross a b c = 0" "\<not> samePoint a b"
  obtains g where "xr c = xr a + g * (xr b - xr a)" "yr c = yr a + g * (yr b - yr a)"
proof -
  have c: "(xr b - xr a) * (yr c - yr a) = (yr b - yr a) * (xr c - xr a)"
    using assms(1) cross_real [of a b c] by simp
  show thesis
  proof (cases "xr a = xr b")
    case False
    then show thesis using c by (intro that [of "(xr c - xr a) / (xr b - xr a)"]) (simp_all add: field_simps)
  next
    case True
    then have ne: "yr a \<noteq> yr b" using assms(2) by (simp add: samePoint_real)
    then show thesis using c True by (intro that [of "(yr c - yr a) / (yr b - yr a)"]) simp_all
  qed
qed

lemma cross_common:
  assumes "on_segment a b x y" "on_segment c d x y"
  obtains t where "0 \<le> t" "t \<le> 1"
    "(1 - t) * real_of_int (cross a b c) + t * real_of_int (cross a b d) = 0"
proof -
  obtain u t where u: "x = xr a + u * (xr b - xr a)" "y = yr a + u * (yr b - yr a)"
    and t: "0 \<le> t" "t \<le> 1" "x = xr c + t * (xr d - xr c)" "y = yr c + t * (yr d - yr c)"
    using assms unfolding on_segment_def by blast
  have "(1 - t) * real_of_int (cross a b c) + t * real_of_int (cross a b d) =
      (xr b - xr a) * (yr c + t * (yr d - yr c) - yr a) - (yr b - yr a) * (xr c + t * (xr d - xr c) - xr a)"
    by (simp add: cross_real algebra_simps)
  also have "\<dots> = (xr b - xr a) * (y - yr a) - (yr b - yr a) * (x - xr a)"
    by (simp only: t(3,4))
  also have "\<dots> = 0" by (simp add: u algebra_simps)
  finally show thesis using t that by blast
qed

lemma convex_zero:
  fixes p q :: real
  assumes "0 \<le> t" "t \<le> 1" "(1 - t) * p + t * q = 0" "0 < p \<and> 0 < q \<or> p < 0 \<and> q < 0"
  shows False
proof -
  have "0 < (1 - t) * p + t * q" if "0 < p" "0 < q"
    using that assms(1,2) by (cases "t = 0") (auto intro: add_nonneg_pos)
  moreover have "0 < (1 - t) * (- p) + t * (- q)" if "p < 0" "q < 0"
    using that assms(1,2) by (cases "t = 0") (auto intro!: add_nonneg_pos simp del: mult_minus_right)
  ultimately show False using assms(3,4) by (auto simp: algebra_simps)
qed

lemma same_side_collinear:
  assumes "on_segment a b x y" "on_segment c d x y" "orientation a b c = orientation a b d"
  shows "cross a b c = 0" "cross a b d = 0"
proof -
  obtain t where t: "0 \<le> t" "t \<le> 1"
    "(1 - t) * real_of_int (cross a b c) + t * real_of_int (cross a b d) = 0"
    using cross_common [OF assms(1,2)] .
  have "cross a b c = 0 \<and> cross a b d = 0"
    using convex_zero [OF t] assms(3) by (auto simp: orientation_def Let_def split: if_splits)
  then show "cross a b c = 0" "cross a b d = 0" by simp_all
qed

lemma collinear_overlap:
  assumes p: "on_segment a b x y" "on_segment c d x y"
    and z: "cross a b c = 0" "cross a b d = 0" and ne: "\<not> samePoint a b"
  shows "pointOnSegment a b c \<or> pointOnSegment a b d \<or> pointOnSegment c d a"
proof -
  obtain g where g: "xr c = xr a + g * (xr b - xr a)" "yr c = yr a + g * (yr b - yr a)"
    using collinear_param [OF z(1) ne] .
  obtain h where h: "xr d = xr a + h * (xr b - xr a)" "yr d = yr a + h * (yr b - yr a)"
    using collinear_param [OF z(2) ne] .
  obtain u t where u: "0 \<le> u" "u \<le> 1" "x = xr a + u * (xr b - xr a)" "y = yr a + u * (yr b - yr a)"
    and t: "0 \<le> t" "t \<le> 1" "x = xr c + t * (xr d - xr c)" "y = yr c + t * (yr d - yr c)"
    using p unfolding on_segment_def by blast
  have "(u - (g + t * (h - g))) * (xr b - xr a) = 0" "(u - (g + t * (h - g))) * (yr b - yr a) = 0"
    using u(3,4) t(3,4) g h by (simp_all add: algebra_simps)
  then have uu: "u = g + t * (h - g)" using ne by (auto simp: samePoint_real)
  have c: ?thesis if "0 \<le> g" "g \<le> 1" using that g by (auto simp: pointOnSegment_real on_segment_def)
  have d: ?thesis if "0 \<le> h" "h \<le> 1" using that h by (auto simp: pointOnSegment_real on_segment_def)
  have a: ?thesis if "0 \<le> g / (g - h)" "g / (g - h) \<le> 1" "g \<noteq> h"
  proof -
    have "xr a = xr c + (g / (g - h)) * (xr d - xr c)" "yr a = yr c + (g / (g - h)) * (yr d - yr c)"
      using that(3) by (simp_all add: g h field_simps)
    then show ?thesis using that by (auto simp: pointOnSegment_real on_segment_def)
  qed
  have bt: "min g h \<le> u" "u \<le> max g h" using between_param [OF t(1,2), of g h] uu by simp_all
  show ?thesis
  proof (cases "0 \<le> g \<and> g \<le> 1 \<or> 0 \<le> h \<and> h \<le> 1")
    case True then show ?thesis using c d by blast
  next
    case False
    then have "g < 0 \<and> 1 < h \<or> h < 0 \<and> 1 < g" using bt u(1,2) by (auto simp: min_def max_def split: if_splits)
    then show ?thesis by (intro a) (auto simp: field_simps)
  qed
qed

lemma segmentsIntersect_real:
  assumes "\<not> samePoint a b" "\<not> samePoint c d"
  shows "segmentsIntersect a b c d \<longleftrightarrow> (\<exists>x y. on_segment a b x y \<and> on_segment c d x y)"
proof
  assume "segmentsIntersect a b c d"
  then have "(orientation a b c \<noteq> orientation a b d \<and> orientation c d a \<noteq> orientation c d b) \<or>
    pointOnSegment a b c \<or> pointOnSegment a b d \<or> pointOnSegment c d a \<or> pointOnSegment c d b"
    by (simp add: segmentsIntersect_def Let_def split: if_splits)
  then show "\<exists>x y. on_segment a b x y \<and> on_segment c d x y"
    using proper_crossing on_segment_ends unfolding pointOnSegment_real by blast
next
  assume "\<exists>x y. on_segment a b x y \<and> on_segment c d x y"
  then obtain x y where p: "on_segment a b x y" "on_segment c d x y" by blast
  have *: "segmentsIntersect a b c d" if "pointOnSegment a b c \<or> pointOnSegment a b d \<or> pointOnSegment c d a \<or> pointOnSegment c d b"
    using that by (auto simp: segmentsIntersect_def Let_def pointOnSegment_def)
  show "segmentsIntersect a b c d"
  proof (cases "orientation a b c \<noteq> orientation a b d \<and> orientation c d a \<noteq> orientation c d b")
    case True then show ?thesis by (simp add: segmentsIntersect_def Let_def)
  next
    case False
    then consider "orientation a b c = orientation a b d" | "orientation c d a = orientation c d b" by blast
    then show ?thesis
    proof cases
      case 1
      show ?thesis using collinear_overlap [OF p same_side_collinear [OF p 1] assms(1)] * by blast
    next
      case 2
      show ?thesis using collinear_overlap [OF p(2,1) same_side_collinear [OF p(2,1) 2] assms(2)] * by blast
    qed
  qed
qed

lemma bex_pairs:
  "(\<exists>i\<in>{0..<n}. \<exists>j\<in>{i + 1..<n}. P i j \<and> Q i j) \<longleftrightarrow> (\<exists>i j. i < j \<and> j < n \<and> P i j \<and> Q i j)"
  for n :: nat
proof
  assume "\<exists>i j. i < j \<and> j < n \<and> P i j \<and> Q i j"
  then obtain i j where "i < j" "j < n" "P i j" "Q i j" by blast
  then show "\<exists>i\<in>{0..<n}. \<exists>j\<in>{i + 1..<n}. P i j \<and> Q i j" by (intro bexI [of _ i] bexI [of _ j]) simp_all
next
  assume "\<exists>i\<in>{0..<n}. \<exists>j\<in>{i + 1..<n}. P i j \<and> Q i j"
  then obtain i j where i: "i \<in> {0..<n}" and j: "j \<in> {i + 1..<n}" and pq: "P i j \<and> Q i j" by blast
  from j have "i < j" "j < n" by simp_all
  with pq show "\<exists>i j. i < j \<and> j < n \<and> P i j \<and> Q i j" by blast
qed

lemma selfIntersects_real:
  assumes "\<And>i. i < n \<Longrightarrow> \<not> samePoint (vs ! i) (vs ! ((i + 1) mod n))"
  shows "selfIntersects vs n \<longleftrightarrow>
    (\<exists>i j x y. i < j \<and> j < n \<and> \<not> edgesAreAdjacent i j n \<and>
       on_segment (vs ! i) (vs ! ((i + 1) mod n)) x y \<and> on_segment (vs ! j) (vs ! ((j + 1) mod n)) x y)"
proof -
  have "selfIntersects vs n \<longleftrightarrow> (\<exists>i j. i < j \<and> j < n \<and> \<not> edgesAreAdjacent i j n \<and>
      segmentsIntersect (vs ! i) (vs ! ((i + 1) mod n)) (vs ! j) (vs ! ((j + 1) mod n)))"
    unfolding selfIntersects_def list_ex_iff set_upt by (rule bex_pairs)
  moreover have "segmentsIntersect (vs ! i) (vs ! ((i + 1) mod n)) (vs ! j) (vs ! ((j + 1) mod n)) \<longleftrightarrow>
      (\<exists>x y. on_segment (vs ! i) (vs ! ((i + 1) mod n)) x y \<and> on_segment (vs ! j) (vs ! ((j + 1) mod n)) x y)"
    if "i < j" "j < n" for i j
    by (rule segmentsIntersect_real; rule assms) (use that in simp_all)
  ultimately show ?thesis by blast
qed

text \<open>
  C26: An accepted polygon is simple in the plane: its effective vertices are 3 to 64 in number,
  no two consecutive ones coincide, its enclosed area is not zero, and no two edges that are not
  neighbours share any point, real coordinates included.
\<close>
theorem accepted_polygon_is_simple:
  assumes "validateGeofencePolygon (Some vs) = kOk"
    and "n = effectiveGeofenceVertexCount (Some vs)"
  shows "3 \<le> n \<and> n \<le> kMaximumPolygonVertices \<and> signed_area_twice vs n n \<noteq> 0 \<and>
    (\<forall>i<n. \<not> samePoint (vs ! i) (vs ! ((i + 1) mod n))) \<and>
    (\<forall>i j x y. i < j \<and> j < n \<and> \<not> edgesAreAdjacent i j n \<longrightarrow>
       \<not> (on_segment (vs ! i) (vs ! ((i + 1) mod n)) x y \<and>
          on_segment (vs ! j) (vs ! ((j + 1) mod n)) x y))"
proof -
  have ok: "validate_vertices vs n = kOk" using assms by (simp add: validateGeofencePolygon_def)
  note d = validate_okD [OF ok]
  then have "\<And>i. i < n \<Longrightarrow> \<not> samePoint (vs ! i) (vs ! ((i + 1) mod n))" by blast
  from selfIntersects_real [OF this] d show ?thesis
    unfolding kMaximumPolygonVertices_def by blast
qed

theorem accepted_polygon_is_simple_witness:
  "\<not> (on_segment (sample_square ! 0) (sample_square ! 1) 500 0 \<and>
      on_segment (sample_square ! 2) (sample_square ! 3) 500 0)"
proof -
  have v: "validateGeofencePolygon (Some sample_square) = kOk" by code_simp
  have n: "4 = effectiveGeofenceVertexCount (Some sample_square)" by code_simp
  have "\<not> edgesAreAdjacent 0 2 4" by code_simp
  then show ?thesis
    using accepted_polygon_is_simple [OF v n, THEN conjunct2, THEN conjunct2, THEN conjunct2, THEN conjunct2,
      THEN spec [of _ 0], THEN spec [of _ 2], THEN spec [of _ 500], THEN spec [of _ 0]] by simp
qed

section \<open>The box test is only an optimisation\<close>

text \<open>
  For a query point left of every vertex each edge counts the level change of its end points,
  so a closed walk sums to zero.
\<close>

definition above :: "GeoPointE7 \<Rightarrow> GeoPointE7 \<Rightarrow> int" where
  "above p a = (if sint (latitude_e7 a) > sint (latitude_e7 p) then 1 else 0)"

lemma left_cross_sign:
  assumes "sint (longitude_e7 p) < sint (longitude_e7 a)" "sint (longitude_e7 p) < sint (longitude_e7 b)"
  shows "sint (latitude_e7 a) \<le> sint (latitude_e7 p) \<Longrightarrow> sint (latitude_e7 p) < sint (latitude_e7 b) \<Longrightarrow> cross a b p > 0"
    and "sint (latitude_e7 p) < sint (latitude_e7 a) \<Longrightarrow> sint (latitude_e7 b) \<le> sint (latitude_e7 p) \<Longrightarrow> cross a b p < 0"
proof -
  let ?u = "sint (latitude_e7 p) - sint (latitude_e7 a)" and ?v = "sint (latitude_e7 b) - sint (latitude_e7 p)"
  let ?s = "sint (longitude_e7 b) - sint (longitude_e7 p)" and ?t = "sint (longitude_e7 a) - sint (longitude_e7 p)"
  have c: "cross a b p = ?s * ?u + ?t * ?v" by (simp add: cross_def Let_def algebra_simps)
  show "cross a b p > 0" if "sint (latitude_e7 a) \<le> sint (latitude_e7 p)" "sint (latitude_e7 p) < sint (latitude_e7 b)"
    unfolding c by (rule add_nonneg_pos) (use assms that in simp_all)
  show "cross a b p < 0" if "sint (latitude_e7 p) < sint (latitude_e7 a)" "sint (latitude_e7 b) \<le> sint (latitude_e7 p)"
    unfolding c by (rule add_neg_nonpos) (use assms that in \<open>simp_all add: mult_pos_neg mult_nonneg_nonpos\<close>)
qed

lemma right_cross_sign:
  assumes "sint (longitude_e7 a) < sint (longitude_e7 p)" "sint (longitude_e7 b) < sint (longitude_e7 p)"
  shows "sint (latitude_e7 a) \<le> sint (latitude_e7 p) \<Longrightarrow> sint (latitude_e7 p) < sint (latitude_e7 b) \<Longrightarrow> cross a b p < 0"
    and "sint (latitude_e7 p) < sint (latitude_e7 a) \<Longrightarrow> sint (latitude_e7 b) \<le> sint (latitude_e7 p) \<Longrightarrow> cross a b p > 0"
proof -
  let ?u = "sint (latitude_e7 p) - sint (latitude_e7 a)" and ?v = "sint (latitude_e7 b) - sint (latitude_e7 p)"
  let ?s = "sint (longitude_e7 b) - sint (longitude_e7 p)" and ?t = "sint (longitude_e7 a) - sint (longitude_e7 p)"
  have c: "cross a b p = ?s * ?u + ?t * ?v" by (simp add: cross_def Let_def algebra_simps)
  show "cross a b p < 0" if "sint (latitude_e7 a) \<le> sint (latitude_e7 p)" "sint (latitude_e7 p) < sint (latitude_e7 b)"
    unfolding c by (rule add_nonpos_neg) (use assms that in \<open>simp_all add: mult_neg_pos mult_nonpos_nonneg\<close>)
  show "cross a b p > 0" if "sint (latitude_e7 p) < sint (latitude_e7 a)" "sint (latitude_e7 b) \<le> sint (latitude_e7 p)"
    unfolding c by (rule add_pos_nonneg) (use assms that in \<open>simp_all add: mult_neg_neg mult_nonpos_nonpos\<close>)
qed

lemma winding_step_left:
  assumes "sint (longitude_e7 p) < sint (longitude_e7 a)" "sint (longitude_e7 p) < sint (longitude_e7 b)"
  shows "winding_step a b p w = w + above p b - above p a"
  using left_cross_sign [OF assms]
  by (cases "sint (latitude_e7 a) \<le> sint (latitude_e7 p)"; cases "sint (latitude_e7 b) \<le> sint (latitude_e7 p)")
    (simp_all add: winding_step_def above_def not_le not_less)

lemma winding_telescope:
  assumes step: "\<And>i w. i < n \<Longrightarrow> winding_step (vs ! i) (vs ! ((i + 1) mod n)) p w = w + f ((i + 1) mod n) - f i"
  shows "winding vs n p = 0"
proof -
  let ?g = "\<lambda>i. winding_step (vs ! i) (vs ! ((i + 1) mod n)) p"
  have "fold ?g [0..<k] 0 = f k - f 0" if "k < n" for k
    using that
  proof (induction k)
    case (Suc k)
    then show ?case using step [of k] by simp
  qed simp
  moreover have "[0..<n] = [0..<n - 1] @ [n - 1]" if "0 < n" using that by (metis Suc_pred' upt_Suc_append zero_le)
  ultimately show ?thesis using step [of "n - 1"]
    by (cases "n = 0") (simp_all add: winding_def)
qed

lemma winding_outside_box:
  assumes "\<And>i. i < n \<Longrightarrow> in_box b (vs ! i)" and "outside_bounds b p"
  shows "winding vs n p = 0"
proof -
  have m: "(i + 1) mod n < n" if "i < n" for i using that by simp
  note lo = assms(1) [unfolded in_box_def]
  consider "sint (latitude_e7 p) < minimum_latitude b" | "sint (latitude_e7 p) > maximum_latitude b"
    | "sint (longitude_e7 p) < minimum_longitude b" | "sint (longitude_e7 p) > maximum_longitude b"
    using assms(2) by (auto simp: outside_bounds_def)
  then show ?thesis
  proof cases
    case 1
    show ?thesis
      by (rule winding_telescope [of _ _ _ "\<lambda>_. 0"])
        (use lo [OF m] lo 1 in \<open>fastforce simp: winding_step_def\<close>)
  next
    case 2
    show ?thesis
      by (rule winding_telescope [of _ _ _ "\<lambda>_. 0"])
        (use lo [OF m] lo 2 in \<open>fastforce simp: winding_step_def\<close>)
  next
    case 3
    have "sint (longitude_e7 p) < sint (longitude_e7 (vs ! i))" if "i < n" for i using lo [OF that] 3 by simp
    then show ?thesis
      by (intro winding_telescope [of _ _ _ "\<lambda>i. above p (vs ! i)"] winding_step_left) (simp_all add: m)
  next
    case 4
    have r: "sint (longitude_e7 (vs ! i)) < sint (longitude_e7 p)" if "i < n" for i using lo [OF that] 4 by simp
    show ?thesis
    proof (rule winding_telescope [of _ _ _ "\<lambda>_. 0"])
      fix i w assume "i < n"
      then show "winding_step (vs ! i) (vs ! ((i + 1) mod n)) p w = w + 0 - 0"
        using right_cross_sign [OF r r [OF m], of i i]
        by (cases "sint (latitude_e7 (vs ! i)) \<le> sint (latitude_e7 p)") (force simp: winding_step_def not_le not_less)+
    qed
  qed
qed

lemma pointOnSegment_in_box:
  assumes "pointOnSegment a c p" "in_box b a" "in_box b c"
  shows "in_box b p"
  using assms by (auto simp: pointOnSegment_def betweenInclusive_def Let_def in_box_def split: if_splits)

text \<open>
  C25: For an accepted polygon and an in-range point the classifier answers exactly: boundary when
  the point lies on one of the real edges, otherwise inside when the winding number is not zero.
  The bounding-box shortcut therefore never changes an answer, and an explicit closing vertex
  is irrelevant to it.
\<close>
theorem containment_exact:
  assumes "validateGeofencePolygon (Some vs) = kOk" and "coordinateInRange p"
    and "n = effectiveGeofenceVertexCount (Some vs)"
  shows "classifyPointInGeofencePolygon (Some vs) p =
      (if \<exists>i<n. on_segment (vs ! i) (vs ! ((i + 1) mod n)) (xr p) (yr p) then kBoundary
       else if winding vs n p \<noteq> 0 then kInside else kOutside) \<and>
    classifyPointInGeofencePolygon (Some (take n vs)) p = classifyPointInGeofencePolygon (Some vs) p"
proof -
  have ok: "validate_vertices vs n = kOk" using assms by (simp add: validateGeofencePolygon_def)
  have n: "3 \<le> n" using validate_okD(1) [OF ok] .
  define b where "b = box_of vs [1..<n] (bounds_of (vs ! 0))"
  have b0: "b = box_of vs [0..<n] (bounds_of (vs ! 0))" using box_first [of n vs] n by (simp add: b_def)
  have inb: "in_box b (vs ! i)" if "i < n" for i using that by (simp add: b0 box_of_in)
  let ?on = "\<exists>i<n. pointOnSegment (vs ! i) (vs ! ((i + 1) mod n)) p"
  have "?on \<Longrightarrow> in_box b p" using pointOnSegment_in_box inb by fastforce
  then have "classify_vertices vs n p = (if ?on then kBoundary else if winding vs n p \<noteq> 0 then kInside else kOutside)"
    using winding_outside_box [OF inb, of n p]
    by (auto simp: classify_vertices_def list_ex_iff Let_def outside_bounds_iff b_def box_of_def)
  then show ?thesis using effective_vertices_same(2) [OF assms(1), of p] assms(1,2)
    unfolding assms(3) effective_vertices_def
    by (simp add: classifyPointInGeofencePolygon_def pointOnSegment_real)
qed

theorem containment_exact_witness:
  "classifyPointInGeofencePolygon (Some (sample_square @ [sample_square ! 0])) (sample_point 500 500) = kInside \<and>
   \<not> on_segment (sample_square ! 0) (sample_square ! 1) (xr (sample_point 500 500)) (yr (sample_point 500 500))"
proof -
  let ?vs = "sample_square @ [sample_square ! 0]"
  have c: "classifyPointInGeofencePolygon (Some ?vs) (sample_point 500 500) = kInside" by code_simp
  have "validateGeofencePolygon (Some ?vs) = kOk" "coordinateInRange (sample_point 500 500)"
    "4 = effectiveGeofenceVertexCount (Some ?vs)" by code_simp+
  from containment_exact [OF this] c show ?thesis
    by (auto simp: sample_square_def split: if_splits dest: spec [of _ 0])
qed

end
