(* ===== verification/Geofence_Area_Set.thy ===== *)
theory Geofence_Area_Set
  imports Geofence_Geometry
begin

text \<open>
  \<open>firmware/include/geofence_area_set.h\<close> and \<open>firmware/src/geofence_area_set.cpp\<close>: the union
  of several permitted polygons.  A set view is a possibly null array of polygon views; the two
  passes of \<open>assessPermittedGeofenceAreas\<close> are the recursions \<open>first_invalid\<close> and
  \<open>classify_areas\<close> over the remaining areas, with the loop index \<open>i\<close>.
\<close>

definition kNoGeofenceAreaIndex :: u16 where "kNoGeofenceAreaIndex = 0xFFFF"

type_synonym GeofenceAreaSetView = "GeofencePolygonView list option"

datatype PermittedAreaRelation = kInside | kBoundary | kOutside | kInvalidAreaSet | kInvalidPoint

record PermittedAreaAssessment =
  relation :: PermittedAreaRelation
  area_index :: u16

definition assessment_of :: "PermittedAreaRelation \<Rightarrow> u16 \<Rightarrow> PermittedAreaAssessment" where
  "assessment_of r i = \<lparr>relation = r, area_index = i\<rparr>"

definition default_assessment :: PermittedAreaAssessment where
  "default_assessment = assessment_of kInvalidAreaSet kNoGeofenceAreaIndex"

fun first_invalid :: "nat \<Rightarrow> GeofencePolygonView list \<Rightarrow> nat option" where
  "first_invalid i [] = None"
| "first_invalid i (a # as) =
     (if validateGeofencePolygon a \<noteq> kOk then Some i else first_invalid (i + 1) as)"

fun classify_areas ::
  "GeoPointE7 \<Rightarrow> nat \<Rightarrow> u16 \<Rightarrow> GeofencePolygonView list \<Rightarrow> PermittedAreaAssessment" where
  "classify_areas point i boundary_index [] =
     (if boundary_index \<noteq> kNoGeofenceAreaIndex then assessment_of kBoundary boundary_index
      else assessment_of kOutside kNoGeofenceAreaIndex)"
| "classify_areas point i boundary_index (a # as) =
     (let r = classifyPointInGeofencePolygon a point in
      if r = GeofencePointRelation.kInvalidPoint then assessment_of kInvalidPoint kNoGeofenceAreaIndex
      else if r = GeofencePointRelation.kInvalidPolygon then assessment_of kInvalidAreaSet (of_nat i)
      else if r = GeofencePointRelation.kInside then assessment_of kInside (of_nat i)
      else classify_areas point (i + 1)
        (if r = GeofencePointRelation.kBoundary \<and> boundary_index = kNoGeofenceAreaIndex
         then of_nat i else boundary_index) as)"

definition assessPermittedGeofenceAreas ::
  "GeofenceAreaSetView \<Rightarrow> GeoPointE7 \<Rightarrow> PermittedAreaAssessment" where
  "assessPermittedGeofenceAreas area_set point =
     (case area_set of None \<Rightarrow> assessment_of kInvalidAreaSet kNoGeofenceAreaIndex
      | Some areas \<Rightarrow>
          if areas = [] then assessment_of kInvalidAreaSet kNoGeofenceAreaIndex
          else case first_invalid 0 areas of
            Some i \<Rightarrow> assessment_of kInvalidAreaSet (of_nat i)
          | None \<Rightarrow> classify_areas point 0 kNoGeofenceAreaIndex areas)"

section \<open>Lemmas\<close>

lemma assessment_of_simps [simp]:
  "relation (assessment_of r i) = r" "area_index (assessment_of r i) = i"
  by (simp_all add: assessment_of_def)

lemma assessment_of_inject [simp]: "assessment_of r i = assessment_of r' i' \<longleftrightarrow> r = r' \<and> i = i'"
  by (simp add: assessment_of_def)

lemma first_invalid_None: "first_invalid i as = None \<longleftrightarrow> (\<forall>a\<in>set as. validateGeofencePolygon a = kOk)"
  by (induction as arbitrary: i) auto

lemma find_map_Suc: "find P (map Suc xs) = map_option Suc (find (P \<circ> Suc) xs)"
  by (induction xs) auto

lemma find_upt_Suc:
  "find P [0..<Suc n] = (if P 0 then Some 0 else map_option Suc (find (\<lambda>i. P (Suc i)) [0..<n]))"
proof -
  have "[0..<Suc n] = 0 # map Suc [0..<n]" by (subst upt_conv_Cons) (simp_all add: map_Suc_upt del: upt_Suc)
  then show ?thesis by (simp add: find_map_Suc comp_def del: upt_Suc)
qed

lemma first_invalid_find:
  "first_invalid i as =
     map_option ((+) i) (find (\<lambda>k. validateGeofencePolygon (as ! k) \<noteq> kOk) [0..<length as])"
  by (induction as arbitrary: i) (auto simp: find_upt_Suc option.map_comp comp_def simp del: upt_Suc intro!: option.map_cong)

lemma classify_valid:
  assumes "validateGeofencePolygon a = kOk"
  shows "classifyPointInGeofencePolygon a p = GeofencePointRelation.kInvalidPoint \<longleftrightarrow> \<not> coordinateInRange p"
    and "classifyPointInGeofencePolygon a p \<noteq> GeofencePointRelation.kInvalidPolygon"
proof -
  obtain vs where "a = Some vs" using assms by (cases a) (auto simp: validateGeofencePolygon_def)
  then show "classifyPointInGeofencePolygon a p = GeofencePointRelation.kInvalidPoint \<longleftrightarrow> \<not> coordinateInRange p"
    "classifyPointInGeofencePolygon a p \<noteq> GeofencePointRelation.kInvalidPolygon"
    using assms by (auto simp: classifyPointInGeofencePolygon_def classify_vertices_def Let_def)
qed

text \<open>The two areas of one configuration agree on everything a caller can observe.\<close>

definition same_area :: "GeofencePolygonView \<Rightarrow> GeofencePolygonView \<Rightarrow> bool" where
  "same_area a b \<longleftrightarrow> validateGeofencePolygon a = validateGeofencePolygon b \<and>
     classifyPointInGeofencePolygon a = classifyPointInGeofencePolygon b"

lemma assess_cong:
  assumes "list_all2 same_area as bs"
  shows "assessPermittedGeofenceAreas (Some as) p = assessPermittedGeofenceAreas (Some bs) p"
proof -
  have 1: "first_invalid i as = first_invalid i bs" for i
    using assms by (induction arbitrary: i rule: list_all2_induct) (auto simp: same_area_def)
  have 2: "classify_areas p i k as = classify_areas p i k bs" for i k
    using assms by (induction arbitrary: i k rule: list_all2_induct) (auto simp: same_area_def Let_def)
  have 3: "as = [] \<longleftrightarrow> bs = []" using assms by auto
  show ?thesis unfolding assessPermittedGeofenceAreas_def option.case 1 2 3 ..
qed

text \<open>The scan keeps the first boundary index and stops at the first interior area.\<close>

definition first_with :: "GeofencePointRelation \<Rightarrow> GeoPointE7 \<Rightarrow> GeofencePolygonView list \<Rightarrow> nat option" where
  "first_with r p as = find (\<lambda>i. classifyPointInGeofencePolygon (as ! i) p = r) [0..<length as]"

lemma first_with_Nil [simp]: "first_with r p [] = None"
  by (simp add: first_with_def)

lemma first_with_Cons:
  "first_with r p (a # as) =
     (if classifyPointInGeofencePolygon a p = r then Some 0 else map_option Suc (first_with r p as))"
  by (simp add: first_with_def find_upt_Suc del: upt_Suc)

lemma first_with_bounds: "first_with r p as = Some j \<Longrightarrow> j < length as"
  by (auto simp: first_with_def find_Some_iff)

lemma index_not_sentinel: "k < 65535 \<Longrightarrow> (of_nat k :: u16) \<noteq> kNoGeofenceAreaIndex"
proof -
  assume "k < 65535"
  then have "unat (of_nat k :: u16) = k" by (simp add: unat_of_nat)
  then show ?thesis using \<open>k < 65535\<close> by (auto simp: kNoGeofenceAreaIndex_def)
qed

lemma classify_areas_result:
  assumes "\<forall>a\<in>set as. validateGeofencePolygon a = kOk" and "coordinateInRange p"
    and "i + length as \<le> 65535"
  shows "classify_areas p i b as =
    (case first_with GeofencePointRelation.kInside p as of
       Some j \<Rightarrow> assessment_of kInside (of_nat (i + j))
     | None \<Rightarrow>
         if b \<noteq> kNoGeofenceAreaIndex then assessment_of kBoundary b
         else case first_with GeofencePointRelation.kBoundary p as of
           Some j \<Rightarrow> assessment_of kBoundary (of_nat (i + j))
         | None \<Rightarrow> assessment_of kOutside kNoGeofenceAreaIndex)"
  using assms
proof (induction as arbitrary: i b)
  case (Cons a as)
  have v: "validateGeofencePolygon a = kOk" using Cons.prems by simp
  have ns: "(of_nat i :: u16) \<noteq> kNoGeofenceAreaIndex" using Cons.prems by (intro index_not_sentinel) simp
  have IH: "classify_areas p (Suc i) b' as =
    (case first_with GeofencePointRelation.kInside p as of
       Some j \<Rightarrow> assessment_of kInside (of_nat (Suc i + j))
     | None \<Rightarrow>
         if b' \<noteq> kNoGeofenceAreaIndex then assessment_of kBoundary b'
         else case first_with GeofencePointRelation.kBoundary p as of
           Some j \<Rightarrow> assessment_of kBoundary (of_nat (Suc i + j))
         | None \<Rightarrow> assessment_of kOutside kNoGeofenceAreaIndex)" for b'
    using Cons.prems by (intro Cons.IH) simp_all
  show ?case
    using classify_valid [OF v, of p] Cons.prems(2) ns
    by (cases "classifyPointInGeofencePolygon a p")
      (simp_all add: IH first_with_Cons Let_def split: option.split)
qed simp

lemma map_add_0: "map_option ((+) 0) m = (m :: nat option)"
  by (cases m) simp_all

lemma assess_out_of_range:
  assumes "as \<noteq> []" and "\<forall>a\<in>set as. validateGeofencePolygon a = kOk" and "\<not> coordinateInRange p"
  shows "assessPermittedGeofenceAreas (Some as) p = assessment_of kInvalidPoint kNoGeofenceAreaIndex"
proof -
  have 1: "first_invalid 0 as = None" using assms(2) by (simp add: first_invalid_None)
  have 2: "classify_areas p 0 b as = assessment_of kInvalidPoint kNoGeofenceAreaIndex" for b
    using assms classify_valid(1) by (cases as) simp_all
  show ?thesis using assms(1) by (simp add: assessPermittedGeofenceAreas_def 1 2)
qed

text \<open>
  Exact union semantics.  A null or empty set, or one holding any malformed polygon, is
  rejected with the index of the first malformed one, whatever the point; an out-of-range point
  is rejected next; otherwise interior membership in any area wins over boundary contact with
  any other, and the first matching area is named.
\<close>
theorem area_set_union:
  assumes "length as \<le> 65535"
  shows "assessPermittedGeofenceAreas (Some as) p =
    (if as = [] then assessment_of kInvalidAreaSet kNoGeofenceAreaIndex
     else case find (\<lambda>i. validateGeofencePolygon (as ! i) \<noteq> kOk) [0..<length as] of
       Some i \<Rightarrow> assessment_of kInvalidAreaSet (of_nat i)
     | None \<Rightarrow>
       if \<not> coordinateInRange p then assessment_of kInvalidPoint kNoGeofenceAreaIndex
       else case find (\<lambda>i. classifyPointInGeofencePolygon (as ! i) p = GeofencePointRelation.kInside)
              [0..<length as] of
         Some i \<Rightarrow> assessment_of kInside (of_nat i)
       | None \<Rightarrow>
         (case find (\<lambda>i. classifyPointInGeofencePolygon (as ! i) p = GeofencePointRelation.kBoundary)
              [0..<length as] of
            Some i \<Rightarrow> assessment_of kBoundary (of_nat i)
          | None \<Rightarrow> assessment_of kOutside kNoGeofenceAreaIndex))"
proof -
  have fi: "first_invalid 0 as = find (\<lambda>i. validateGeofencePolygon (as ! i) \<noteq> kOk) [0..<length as]"
    by (simp add: first_invalid_find map_add_0)
  show ?thesis
  proof (cases "first_invalid 0 as")
    case (Some j)
    then show ?thesis by (auto simp: assessPermittedGeofenceAreas_def fi)
  next
    case None
    then have v: "\<forall>a\<in>set as. validateGeofencePolygon a = kOk" by (simp add: first_invalid_None)
    show ?thesis
    proof (cases "coordinateInRange p")
      case True
      show ?thesis
        using None True assms classify_areas_result [OF v True, of 0 kNoGeofenceAreaIndex, unfolded first_with_def]
        by (auto simp: assessPermittedGeofenceAreas_def simp flip: fi split: option.split)
    next
      case False
      then show ?thesis using assess_out_of_range [OF _ v False] None
        by (cases "as = []") (simp_all add: assessPermittedGeofenceAreas_def flip: fi)
    qed
  qed
qed

theorem area_set_union_witness:
  "assessPermittedGeofenceAreas (Some [Some sample_square,
       Some [sample_point (-500) 0, sample_point (-500) 1000, sample_point 500 1000, sample_point 500 0]])
     (sample_point 0 500) = assessment_of kInside 1"
proof -
  have "length [Some sample_square,
      Some [sample_point (-500) 0, sample_point (-500) 1000, sample_point 500 1000, sample_point 500 0]] \<le> 65535" by simp
  from area_set_union [OF this] show ?thesis by (rule trans) code_simp
qed

lemma assess_relation:
  assumes "length as \<le> 65535" and "as \<noteq> []" and "\<forall>a\<in>set as. validateGeofencePolygon a = kOk"
    and "coordinateInRange p"
  shows "relation (assessPermittedGeofenceAreas (Some as) p) =
    (if \<exists>a\<in>set as. classifyPointInGeofencePolygon a p = GeofencePointRelation.kInside then kInside
     else if \<exists>a\<in>set as. classifyPointInGeofencePolygon a p = GeofencePointRelation.kBoundary then kBoundary
     else kOutside)"
proof -
  have ex: "first_with r p as = None \<longleftrightarrow> \<not> (\<exists>a\<in>set as. classifyPointInGeofencePolygon a p = r)" for r
    by (fastforce simp: first_with_def find_None_iff in_set_conv_nth)
  have "first_invalid 0 as = None" using assms(3) by (simp add: first_invalid_None)
  then show ?thesis
    using classify_areas_result [OF assms(3,4), of 0 kNoGeofenceAreaIndex] assms(1,2) ex
    by (simp add: assessPermittedGeofenceAreas_def split: option.split) (metis option.distinct(1))
qed

lemma assess_accepts:
  assumes "as \<noteq> []" and "\<forall>a\<in>set as. validateGeofencePolygon a = kOk" and "length as \<le> 65535"
  shows "relation (assessPermittedGeofenceAreas (Some as) p) \<noteq> kInvalidAreaSet"
    and "relation (assessPermittedGeofenceAreas (Some as) p) = kInvalidPoint \<longleftrightarrow> \<not> coordinateInRange p"
proof -
  have "relation (assessPermittedGeofenceAreas (Some as) p) \<noteq> kInvalidAreaSet \<and>
    (relation (assessPermittedGeofenceAreas (Some as) p) = kInvalidPoint \<longleftrightarrow> \<not> coordinateInRange p)"
  proof (cases "coordinateInRange p")
    case True
    then show ?thesis using assess_relation [OF assms(3,1,2)] by simp
  next
    case False
    then show ?thesis using assms by (simp add: assess_out_of_range)
  qed
  then show "relation (assessPermittedGeofenceAreas (Some as) p) \<noteq> kInvalidAreaSet"
    and "relation (assessPermittedGeofenceAreas (Some as) p) = kInvalidPoint \<longleftrightarrow> \<not> coordinateInRange p"
    by simp_all
qed

end
