(* ===== verification/Geofence_Runtime.thy ===== *)
theory Geofence_Runtime
  imports Geofence_Area_Set
begin

text \<open>
  \<open>firmware/include/geofence_runtime.h\<close> and \<open>firmware/src/geofence_runtime.cpp\<close>: the owner of
  one bounded copy of the permitted geometry.  The fixed vertex pool is a list of 64 points and
  an area view into it is the pair of its start and its length, as the stored pointer is.
  The candidate handed to \<open>configure\<close> never points into the pool, which is private.
\<close>

definition rt_kMaximumAreas :: nat where "rt_kMaximumAreas = 8"
definition rt_kMaximumTotalVertices :: nat where "rt_kMaximumTotalVertices = 64"

datatype GeofenceRuntimeConfigResult = kApplied | kInvalidAreaSet | kTooManyAreas | kTooManyVertices
datatype GeofenceObservationResult = kNotConfigured | kAccepted | kInvalidPoint | kConfigFault

record GeofenceRuntime =
  rt_vertices :: "GeoPointE7 list"
  rt_areas :: "(nat \<times> nat) option list"
  rt_area_count :: u8
  rt_total_vertex_count :: u16
  rt_configured :: bool
  rt_has_assessment :: bool
  rt_assessment :: PermittedAreaAssessment
  rt_assessed_at_ms :: u32

definition GeofenceRuntime_init :: GeofenceRuntime where
  "GeofenceRuntime_init =
     \<lparr>rt_vertices = replicate rt_kMaximumTotalVertices \<lparr>latitude_e7 = 0, longitude_e7 = 0\<rparr>,
      rt_areas = replicate rt_kMaximumAreas None, rt_area_count = 0, rt_total_vertex_count = 0,
      rt_configured = False, rt_has_assessment = False, rt_assessment = default_assessment,
      rt_assessed_at_ms = 0\<rparr>"

text \<open>The first loop: validate and size the whole candidate.\<close>

fun size_candidate :: "u16 \<Rightarrow> GeofencePolygonView list \<Rightarrow> GeofenceRuntimeConfigResult + u16" where
  "size_candidate total_vertices [] = Inr total_vertices"
| "size_candidate total_vertices (area # rest) =
     (let validation = validateGeofencePolygon area in
      if validation = GeofencePolygonValidation.kTooManyVertices then Inl kTooManyVertices
      else if validation \<noteq> kOk then Inl kInvalidAreaSet
      else
        let stored = effectiveGeofenceVertexCount area in
        if int stored > int rt_kMaximumTotalVertices - int (unat total_vertices) then Inl kTooManyVertices
        else size_candidate (of_nat (unat total_vertices + stored)) rest)"

text \<open>The second loop: copy the vertices and record each view.\<close>

definition copy_vertices :: "GeoPointE7 list \<Rightarrow> nat \<Rightarrow> nat \<Rightarrow> GeoPointE7 list \<Rightarrow> GeoPointE7 list" where
  "copy_vertices source n offset pool = fold (\<lambda>v pool. pool[offset + v := source ! v]) [0..<n] pool"

fun copy_areas ::
  "nat \<Rightarrow> nat \<Rightarrow> GeofencePolygonView list \<Rightarrow> GeoPointE7 list \<times> (nat \<times> nat) option list \<Rightarrow>
   GeoPointE7 list \<times> (nat \<times> nat) option list" where
  "copy_areas i offset [] s = s"
| "copy_areas i offset (source # rest) (pool, areas) =
     (let stored = effectiveGeofenceVertexCount source;
          points = (case source of None \<Rightarrow> [] | Some vs \<Rightarrow> vs)
      in copy_areas (i + 1) (offset + stored) rest
           (copy_vertices points stored offset pool, areas[i := Some (offset, stored)]))"

definition rt_configure ::
  "GeofenceRuntime \<Rightarrow> GeofenceAreaSetView \<Rightarrow> GeofenceRuntime \<times> GeofenceRuntimeConfigResult" where
  "rt_configure s candidate =
     (case candidate of None \<Rightarrow> (s, kInvalidAreaSet)
      | Some areas \<Rightarrow>
        if areas = [] then (s, kInvalidAreaSet)
        else if length areas > rt_kMaximumAreas then (s, kTooManyAreas)
        else case size_candidate 0 areas of
          Inl e \<Rightarrow> (s, e)
        | Inr total_vertices \<Rightarrow>
            let (pool, views) = copy_areas 0 0 areas (rt_vertices s, rt_areas s);
                views' = fold (\<lambda>i vs. vs[i := None]) [length areas..<rt_kMaximumAreas] views
            in (s\<lparr>rt_vertices := pool, rt_areas := views', rt_area_count := of_nat (length areas),
                  rt_total_vertex_count := total_vertices, rt_configured := True, rt_has_assessment := False,
                  rt_assessment := default_assessment, rt_assessed_at_ms := 0\<rparr>, kApplied))"

definition rt_clear :: "GeofenceRuntime \<Rightarrow> GeofenceRuntime" where
  "rt_clear s = s\<lparr>rt_area_count := 0, rt_total_vertex_count := 0, rt_configured := False,
     rt_has_assessment := False, rt_assessment := default_assessment, rt_assessed_at_ms := 0\<rparr>"

text \<open>What a stored view points at.\<close>

definition deref_view :: "GeofenceRuntime \<Rightarrow> (nat \<times> nat) option \<Rightarrow> GeofencePolygonView" where
  "deref_view s v = (case v of None \<Rightarrow> None | Some (start, n) \<Rightarrow> Some (slice start n (rt_vertices s)))"

lemma deref_view_simps [simp]:
  "deref_view s None = None"
  "deref_view s (Some (start, n)) = Some (slice start n (rt_vertices s))"
  by (simp_all add: deref_view_def)

lemma deref_view_cong: "rt_vertices s = rt_vertices t \<Longrightarrow> deref_view s = deref_view t"
  by (intro ext) (simp add: deref_view_def split: option.split)

definition rt_area_set :: "GeofenceRuntime \<Rightarrow> GeofenceAreaSetView" where
  "rt_area_set s = Some (map (deref_view s) (take (unat (rt_area_count s)) (rt_areas s)))"

definition rt_observeAcceptedPosition ::
  "GeofenceRuntime \<Rightarrow> GeoPointE7 \<Rightarrow> u32 \<Rightarrow> GeofenceRuntime \<times> GeofenceObservationResult" where
  "rt_observeAcceptedPosition s point captured_at_ms =
     (if \<not> rt_configured s then (s, kNotConfigured)
      else
        let a = assessPermittedGeofenceAreas (rt_area_set s) point in
        if relation a = PermittedAreaRelation.kInvalidPoint then (s, kInvalidPoint)
        else if relation a = PermittedAreaRelation.kInvalidAreaSet then (s, kConfigFault)
        else (s\<lparr>rt_assessment := a, rt_assessed_at_ms := captured_at_ms, rt_has_assessment := True\<rparr>,
              kAccepted))"

section \<open>The stored copy is the candidate\<close>

definition total_effective :: "GeofencePolygonView list \<Rightarrow> nat" where
  "total_effective areas = sum_list (map effectiveGeofenceVertexCount areas)"

lemma total_effective_simps [simp]:
  "total_effective [] = 0"
  "total_effective (a # as) = effectiveGeofenceVertexCount a + total_effective as"
  by (simp_all add: total_effective_def)

lemma size_candidate_ok:
  assumes "unat total_vertices \<le> 64"
  shows "size_candidate total_vertices areas = Inr total' \<longleftrightarrow>
    (\<forall>a\<in>set areas. validateGeofencePolygon a = kOk) \<and> unat total_vertices + total_effective areas \<le> 64 \<and>
    total' = total_vertices + of_nat (total_effective areas)"
  using assms
proof (induction areas arbitrary: total_vertices)
  case (Cons a areas)
  let ?n = "effectiveGeofenceVertexCount a"
  show ?case
  proof (cases "validateGeofencePolygon a = kOk \<and> unat total_vertices + ?n \<le> 64")
    case True
    have u: "unat (total_vertices + of_nat ?n) = unat total_vertices + ?n"
      using True by (simp add: unat_word_ariths unat_of_nat)
    have "\<not> int ?n > 64 - int (unat total_vertices)" using True by linarith
    then have "size_candidate total_vertices (a # areas) = size_candidate (total_vertices + of_nat ?n) areas"
      using True by (simp add: Let_def rt_kMaximumTotalVertices_def)
    moreover have "size_candidate (total_vertices + of_nat ?n) areas = Inr total' \<longleftrightarrow>
        (\<forall>a\<in>set areas. validateGeofencePolygon a = kOk) \<and>
        unat total_vertices + ?n + total_effective areas \<le> 64 \<and>
        total' = total_vertices + of_nat ?n + of_nat (total_effective areas)"
      using Cons.IH [of "total_vertices + of_nat ?n"] True by (simp only: u)
    ultimately show ?thesis using True by (simp add: add.assoc)
  next
    case False
    then have "validateGeofencePolygon a = kOk \<Longrightarrow> int ?n > 64 - int (unat total_vertices)" by linarith
    then have "size_candidate total_vertices (a # areas) \<noteq> Inr total'"
      by (simp add: Let_def rt_kMaximumTotalVertices_def)
    then show ?thesis using False by auto
  qed
qed auto

lemma copy_vertices_write_at:
  assumes "n \<le> length source" "offset + n \<le> length pool"
  shows "copy_vertices source n offset pool = write_at offset (take n source) pool"
proof -
  have "take n source = map (\<lambda>v. source ! v) [0..<n]"
    using assms(1) by (simp add: list_eq_iff_nth_eq)
  then show ?thesis using assms(2) by (simp add: copy_vertices_def fold_update_eq_write_at)
qed

fun layout :: "nat \<Rightarrow> GeofencePolygonView list \<Rightarrow> (nat \<times> nat) list" where
  "layout offset [] = []"
| "layout offset (a # as) =
     (offset, effectiveGeofenceVertexCount a) # layout (offset + effectiveGeofenceVertexCount a) as"

definition stored_area :: "GeofencePolygonView \<Rightarrow> GeoPointE7 list" where
  "stored_area a = (case a of None \<Rightarrow> [] | Some vs \<Rightarrow> effective_vertices vs)"

lemma length_stored_area [simp]: "length (stored_area a) = effectiveGeofenceVertexCount a"
  by (cases a) (simp_all add: stored_area_def effectiveGeofenceVertexCount_def [of None])

lemma length_layout [simp]: "length (layout offset as) = length as"
  by (induction as arbitrary: offset) simp_all

lemma write_at_one: "i < length xs \<Longrightarrow> xs[i := v] = write_at i [v] xs"
  by (intro nth_equalityI) (auto simp: nth_write_at nth_list_update)

lemma write_at_Nil [simp]: "write_at i [] xs = xs"
  by (simp add: write_at_def)

lemma copy_areas_result:
  "offset + total_effective src \<le> length pool \<Longrightarrow> i + length src \<le> length areas \<Longrightarrow>
   copy_areas i offset src (pool, areas) =
     (write_at offset (concat (map stored_area src)) pool, write_at i (map Some (layout offset src)) areas)"
proof (induction src arbitrary: i offset pool areas)
  case (Cons a src)
  let ?n = "effectiveGeofenceVertexCount a" and ?vs = "case a of None \<Rightarrow> [] | Some vs \<Rightarrow> vs"
  have "?n \<le> length ?vs" using effective_le
    by (cases a) (simp_all add: effectiveGeofenceVertexCount_def [of None])
  moreover have "take ?n ?vs = stored_area a"
    by (cases a) (simp_all add: stored_area_def effective_vertices_def)
  ultimately have pool: "copy_vertices ?vs ?n offset pool = write_at offset (stored_area a) pool"
    using Cons.prems(1) by (simp add: copy_vertices_write_at)
  have l: "length (concat (map stored_area src)) = total_effective src" for src
    by (simp add: length_concat total_effective_def comp_def)
  have "write_at (offset + ?n) (concat (map stored_area src)) (write_at offset (stored_area a) pool) =
      write_at offset (concat (map stored_area (a # src))) pool"
    using Cons.prems(1) write_at_append [of offset "stored_area a" "concat (map stored_area src)" pool]
    by (simp add: l)
  moreover have "write_at (Suc i) (map Some (layout (offset + ?n) src)) (areas[i := Some (offset, ?n)]) =
      write_at i (map Some (layout offset (a # src))) areas"
    using Cons.prems(2) write_at_append [of i "[Some (offset, ?n)]" "map Some (layout (offset + ?n) src)" areas]
    by (simp add: write_at_one)
  ultimately show ?case
    using Cons.prems Cons.IH [of "offset + ?n" "write_at offset (stored_area a) pool" "Suc i" "areas[i := Some (offset, ?n)]"]
    by (simp add: Let_def pool)
qed simp

lemma layout_slices:
  assumes "slice offset (total_effective src) pool = concat (map stored_area src)"
    and "offset + total_effective src \<le> length pool"
  shows "map (\<lambda>(start, n). slice start n pool) (layout offset src) = map stored_area src"
  using assms
proof (induction src arbitrary: offset)
  case (Cons a src)
  let ?n = "effectiveGeofenceVertexCount a"
  have j: "slice offset ?n pool @ slice (offset + ?n) (total_effective src) pool =
      stored_area a @ concat (map stored_area src)"
    using Cons.prems(1) by (simp add: slice_join)
  have "length (slice offset ?n pool) = length (stored_area a)" using Cons.prems(2) by simp
  with j have "slice offset ?n pool = stored_area a"
    "slice (offset + ?n) (total_effective src) pool = concat (map stored_area src)" by auto
  then show ?case using Cons.IH [of "offset + ?n"] Cons.prems(2) by simp
qed simp

lemma clear_tail:
  "length xs = n \<Longrightarrow> k \<le> n \<Longrightarrow> fold (\<lambda>i vs. vs[i := None]) [k..<n] xs = take k xs @ replicate (n - k) None"
proof (induction "n - k" arbitrary: k xs)
  case (Suc m)
  then have k: "k < n" by simp
  then have "fold (\<lambda>i vs. vs[i := None]) [k..<n] xs = fold (\<lambda>i vs. vs[i := None]) [Suc k..<n] (xs[k := None])"
    by (simp add: upt_conv_Cons)
  also have "\<dots> = take (Suc k) (xs[k := None]) @ replicate (n - Suc k) None"
    using Suc by (intro Suc.hyps(1)) simp_all
  also have "\<dots> = take k xs @ replicate (n - k) None"
    using k Suc.prems(1) by (simp add: take_Suc_conv_app_nth Suc_diff_Suc flip: replicate_Suc)
  finally show ?case .
qed simp

text \<open>The runtime invariant: the pool and the view array keep their sizes, and a configured runtime holds valid areas.\<close>

definition rt_inv :: "GeofenceRuntime \<Rightarrow> bool" where
  "rt_inv s \<longleftrightarrow> length (rt_vertices s) = rt_kMaximumTotalVertices \<and> length (rt_areas s) = rt_kMaximumAreas \<and>
     (rt_configured s \<longrightarrow>
        0 < unat (rt_area_count s) \<and> unat (rt_area_count s) \<le> rt_kMaximumAreas \<and>
        (\<forall>v\<in>set (take (unat (rt_area_count s)) (rt_areas s)).
           validateGeofencePolygon (deref_view s v) = kOk))"

lemma rt_init_inv: "rt_inv GeofenceRuntime_init"
  by (simp add: rt_inv_def GeofenceRuntime_init_def)

definition acceptable :: "GeofencePolygonView list \<Rightarrow> bool" where
  "acceptable areas \<longleftrightarrow> areas \<noteq> [] \<and> length areas \<le> rt_kMaximumAreas \<and>
     (\<forall>a\<in>set areas. validateGeofencePolygon a = kOk) \<and> total_effective areas \<le> rt_kMaximumTotalVertices"

lemma configure_applied:
  assumes inv: "rt_inv s" and ok: "acceptable areas"
  shows "snd (rt_configure s (Some areas)) = kApplied"
    and "rt_area_set (fst (rt_configure s (Some areas))) = Some (map (Some \<circ> stored_area) areas)"
    and "rt_configured (fst (rt_configure s (Some areas)))"
    and "\<not> rt_has_assessment (fst (rt_configure s (Some areas)))"
    and "unat (rt_area_count (fst (rt_configure s (Some areas)))) = length areas"
    and "unat (rt_total_vertex_count (fst (rt_configure s (Some areas)))) = total_effective areas"
    and "length (rt_vertices (fst (rt_configure s (Some areas)))) = 64"
    and "length (rt_areas (fst (rt_configure s (Some areas)))) = 8"
proof -
  note c = rt_kMaximumAreas_def rt_kMaximumTotalVertices_def
  have le: "total_effective areas \<le> 64" "length areas \<le> 8" "areas \<noteq> []"
    and v: "\<forall>a\<in>set areas. validateGeofencePolygon a = kOk" using ok by (simp_all add: acceptable_def c)
  have len: "length (rt_vertices s) = 64" "length (rt_areas s) = 8" using inv by (simp_all add: rt_inv_def c)
  have sz: "size_candidate 0 areas = Inr (of_nat (total_effective areas))"
    using size_candidate_ok [of 0 areas] v le by simp
  define pool where "pool = write_at 0 (concat (map stored_area areas)) (rt_vertices s)"
  define views where "views = map Some (layout 0 areas) @ replicate (8 - length areas) None"
  have "take (length areas) (write_at 0 (map Some (layout 0 areas)) (rt_areas s)) = map Some (layout 0 areas)"
    using slice_write_at_same [of "length areas" "map Some (layout 0 areas)" 0 "rt_areas s"] le len by (simp add: slice_def)
  then have conf: "rt_configure s (Some areas) =
      (s\<lparr>rt_vertices := pool, rt_areas := views, rt_area_count := of_nat (length areas),
         rt_total_vertex_count := of_nat (total_effective areas), rt_configured := True,
         rt_has_assessment := False, rt_assessment := default_assessment, rt_assessed_at_ms := 0\<rparr>, kApplied)"
    using le len sz copy_areas_result [of 0 areas "rt_vertices s" 0 "rt_areas s"]
    by (simp add: rt_configure_def c clear_tail pool_def views_def)
  have lp: "length pool = 64" by (simp add: pool_def len)
  have lc: "length (concat (map stored_area areas)) = total_effective areas"
    by (simp add: length_concat total_effective_def comp_def)
  have "slice 0 (total_effective areas) pool = concat (map stored_area areas)"
    using slice_write_at_same [of "total_effective areas" "concat (map stored_area areas)" 0 "rt_vertices s"] le len
    by (simp add: pool_def lc)
  then have sl: "map (\<lambda>(start, n). slice start n pool) (layout 0 areas) = map stored_area areas"
    using le lp by (intro layout_slices) simp_all
  have un: "unat (of_nat (length areas) :: u8) = length areas" using le by (simp add: unat_of_nat)
  have d: "map (deref_view t) (map Some l) = map Some (map (\<lambda>(start, n). slice start n (rt_vertices t)) l)" for t l
    by auto
  show "rt_area_set (fst (rt_configure s (Some areas))) = Some (map (Some \<circ> stored_area) areas)"
    unfolding rt_area_set_def conf by (simp add: un views_def d sl del: map_map) (simp add: comp_def)
  show "unat (rt_total_vertex_count (fst (rt_configure s (Some areas)))) = total_effective areas"
    using le by (simp add: conf unat_of_nat)
  show "snd (rt_configure s (Some areas)) = kApplied" "rt_configured (fst (rt_configure s (Some areas)))"
    "\<not> rt_has_assessment (fst (rt_configure s (Some areas)))"
    "unat (rt_area_count (fst (rt_configure s (Some areas)))) = length areas"
    "length (rt_vertices (fst (rt_configure s (Some areas)))) = 64"
    "length (rt_areas (fst (rt_configure s (Some areas)))) = 8"
    using un lp le by (simp_all add: conf views_def)
qed

lemma size_candidate_not_applied: "size_candidate t areas \<noteq> Inl kApplied"
  by (induction t areas rule: size_candidate.induct) (simp_all add: Let_def)

lemma configure_rejected:
  assumes "\<not> acceptable areas"
  shows "fst (rt_configure s (Some areas)) = s" and "snd (rt_configure s (Some areas)) \<noteq> kApplied"
proof -
  have "\<And>t. size_candidate 0 areas = Inr t \<Longrightarrow> areas \<noteq> [] \<Longrightarrow> length areas \<le> rt_kMaximumAreas \<Longrightarrow> False"
    using assms size_candidate_ok [of 0 areas] by (simp add: acceptable_def rt_kMaximumTotalVertices_def)
  then show "fst (rt_configure s (Some areas)) = s" "snd (rt_configure s (Some areas)) \<noteq> kApplied"
    using size_candidate_not_applied [of 0 areas]
    by (auto simp: rt_configure_def split: sum.splits)
qed

lemma stored_area_same:
  assumes "validateGeofencePolygon a = kOk"
  shows "same_area (Some (stored_area a)) a"
proof -
  obtain vs where "a = Some vs" using assms by (cases a) (auto simp: validateGeofencePolygon_def)
  then show ?thesis using assms effective_vertices_same by (auto simp: same_area_def stored_area_def)
qed

lemma assess_stored:
  assumes "\<forall>a\<in>set areas. validateGeofencePolygon a = kOk"
  shows "assessPermittedGeofenceAreas (Some (map (Some \<circ> stored_area) areas)) p =
    assessPermittedGeofenceAreas (Some areas) p"
  using assms by (intro assess_cong) (simp add: list_all2_conv_all_nth stored_area_same)

lemma rt_configure_inv:
  assumes "rt_inv s"
  shows "rt_inv (fst (rt_configure s candidate))"
proof (cases "\<exists>areas. candidate = Some areas \<and> acceptable areas")
  case True
  then obtain areas where c: "candidate = Some areas" "acceptable areas" by blast
  note a = configure_applied [OF assms c(2)]
  let ?t = "fst (rt_configure s (Some areas))"
  have "map (deref_view ?t) (take (unat (rt_area_count ?t)) (rt_areas ?t)) = map (Some \<circ> stored_area) areas"
    using a(2) by (simp add: rt_area_set_def)
  then have "deref_view ?t ` set (take (unat (rt_area_count ?t)) (rt_areas ?t)) = (Some \<circ> stored_area) ` set areas"
    by (metis set_map)
  moreover have "\<forall>a\<in>set areas. validateGeofencePolygon (Some (stored_area a)) = kOk"
    using c(2) stored_area_same by (auto simp: acceptable_def same_area_def)
  ultimately have "\<forall>v\<in>set (take (unat (rt_area_count ?t)) (rt_areas ?t)). validateGeofencePolygon (deref_view ?t v) = kOk"
    by (metis (no_types, lifting) comp_apply image_iff)
  moreover have "0 < length areas" "length areas \<le> rt_kMaximumAreas" using c(2) by (simp_all add: acceptable_def)
  ultimately show ?thesis unfolding c(1) using a
    by (simp add: rt_inv_def rt_kMaximumAreas_def rt_kMaximumTotalVertices_def)
next
  case False
  then have "fst (rt_configure s candidate) = s"
    using configure_rejected(1) by (cases candidate) (auto simp: rt_configure_def)
  then show ?thesis using assms by simp
qed

lemma rt_clear_inv: "rt_inv s \<Longrightarrow> rt_inv (rt_clear s)"
  by (simp add: rt_inv_def rt_clear_def)

lemma observe_frame:
  "rt_configured (fst (rt_observeAcceptedPosition s p t)) = rt_configured s"
  "rt_area_set (fst (rt_observeAcceptedPosition s p t)) = rt_area_set s"
  "rt_inv s \<Longrightarrow> rt_inv (fst (rt_observeAcceptedPosition s p t))"
proof -
  let ?t = "fst (rt_observeAcceptedPosition s p t)"
  have "rt_configured ?t = rt_configured s" "rt_vertices ?t = rt_vertices s" "rt_areas ?t = rt_areas s"
    "rt_area_count ?t = rt_area_count s"
    by (simp_all add: rt_observeAcceptedPosition_def Let_def)
  moreover from this have "deref_view ?t = deref_view s" by (intro deref_view_cong)
  ultimately show "rt_configured ?t = rt_configured s" "rt_area_set ?t = rt_area_set s" "rt_inv s \<Longrightarrow> rt_inv ?t"
    by (simp_all add: rt_area_set_def rt_inv_def)
qed

lemma observe_configured:
  assumes "rt_inv s" "rt_configured s"
  shows "snd (rt_observeAcceptedPosition s p t) = (if coordinateInRange p then kAccepted else kInvalidPoint)"
proof -
  let ?as = "map (deref_view s) (take (unat (rt_area_count s)) (rt_areas s))"
  have ne: "?as \<noteq> []" and v: "\<forall>a\<in>set ?as. validateGeofencePolygon a = kOk" and len: "length ?as \<le> 65535"
    using assms by (auto simp: rt_inv_def rt_kMaximumAreas_def)
  show ?thesis using assess_accepts [OF ne v len, of p] assms(2)
    by (simp add: rt_observeAcceptedPosition_def rt_area_set_def)
qed

text \<open>
  Replacing the configuration is all or nothing.  A candidate is applied exactly when it is
  non-empty, has at most 8 areas, every area is a valid polygon and the effective vertices fit the
  64-slot pool; any other candidate leaves the whole state untouched.
\<close>
theorem runtime_configure_all_or_nothing:
  assumes "rt_inv s"
  shows "(snd (rt_configure s (Some areas)) = kApplied \<longleftrightarrow>
      areas \<noteq> [] \<and> length areas \<le> rt_kMaximumAreas \<and>
      (\<forall>a\<in>set areas. validateGeofencePolygon a = kOk) \<and>
      sum_list (map effectiveGeofenceVertexCount areas) \<le> rt_kMaximumTotalVertices) \<and>
    (snd (rt_configure s (Some areas)) \<noteq> kApplied \<longrightarrow> fst (rt_configure s (Some areas)) = s) \<and>
    rt_inv (fst (rt_configure s (Some areas)))"
  using configure_applied(1) [OF assms, of areas] configure_rejected [of areas s] rt_configure_inv [OF assms]
  unfolding acceptable_def total_effective_def by blast

theorem runtime_configure_all_or_nothing_witness:
  "snd (rt_configure GeofenceRuntime_init (Some [Some sample_square, Some (sample_square @ [sample_square ! 0])])) = kApplied"
proof -
  let ?as = "[Some sample_square, Some (sample_square @ [sample_square ! 0])]"
  have "?as \<noteq> [] \<and> length ?as \<le> rt_kMaximumAreas \<and> (\<forall>a\<in>set ?as. validateGeofencePolygon a = kOk) \<and>
      sum_list (map effectiveGeofenceVertexCount ?as) \<le> rt_kMaximumTotalVertices" by code_simp
  then show ?thesis using runtime_configure_all_or_nothing [OF rt_init_inv] by blast
qed

text \<open>
  After a candidate has been applied, every accepted coordinate is assessed exactly as the
  caller's own polygons would assess it, whatever the caller does with them afterwards, and the
  defensive configuration fault is never reported.
\<close>
theorem runtime_assesses_candidate:
  assumes "rt_inv s" and "rt_configure s (Some areas) = (s', kApplied)"
    and "rt_observeAcceptedPosition s' p t = (s'', r)"
  shows "r = (if coordinateInRange p then kAccepted else kInvalidPoint) \<and>
    (if coordinateInRange p
     then rt_has_assessment s'' \<and> rt_assessment s'' = assessPermittedGeofenceAreas (Some areas) p \<and>
          rt_assessed_at_ms s'' = t
     else s'' = s')"
proof -
  have ok: "acceptable areas" using configure_rejected(2) [of areas s] assms(2) by force
  have s': "s' = fst (rt_configure s (Some areas))" using assms(2) by simp
  note a = configure_applied [OF assms(1) ok, folded s']
  have inv: "rt_inv s'" using rt_configure_inv [OF assms(1)] by (simp add: s')
  have as: "assessPermittedGeofenceAreas (rt_area_set s') p = assessPermittedGeofenceAreas (Some areas) p"
    using assess_stored [of areas p] ok by (simp add: a(2) acceptable_def)
  have r: "r = (if coordinateInRange p then kAccepted else kInvalidPoint)"
    using observe_configured [OF inv a(3), of p t] assms(3) by simp
  then show ?thesis using assms(3) a(3)
    by (auto simp: rt_observeAcceptedPosition_def Let_def as split: if_splits)
qed

theorem runtime_assesses_candidate_witness:
  "\<exists>s' s''. rt_configure GeofenceRuntime_init (Some [Some sample_square]) = (s', kApplied) \<and>
     rt_observeAcceptedPosition s' (sample_point 0 500) 7 = (s'', kAccepted) \<and>
     rt_assessment s'' = assessment_of PermittedAreaRelation.kBoundary 0"
proof -
  obtain s' r where c: "rt_configure GeofenceRuntime_init (Some [Some sample_square]) = (s', r)" by fastforce
  moreover have "snd (rt_configure GeofenceRuntime_init (Some [Some sample_square])) = kApplied" by code_simp
  ultimately have c: "rt_configure GeofenceRuntime_init (Some [Some sample_square]) = (s', kApplied)" by simp
  obtain s'' r where o: "rt_observeAcceptedPosition s' (sample_point 0 500) 7 = (s'', r)" by fastforce
  have "coordinateInRange (sample_point 0 500)"
    "assessPermittedGeofenceAreas (Some [Some sample_square]) (sample_point 0 500) =
      assessment_of PermittedAreaRelation.kBoundary 0" by code_simp+
  then show ?thesis using runtime_assesses_candidate [OF rt_init_inv c o] c o by auto
qed

end
