(* ===== verification/Geofence_Operational.thy ===== *)
theory Geofence_Operational
  imports Geofence_Area_Set
begin

text \<open>
  \<open>firmware/include/geofence_operational_state.h\<close> and
  \<open>firmware/src/geofence_operational_state.cpp\<close>: the INSIDE/OUTSIDE state machine with its
  bounded three-observation confirmation episode, and its refinement of a specification that
  keeps the collected observations themselves instead of counters.
\<close>

definition kConfirmationObservationLimit :: u8 where "kConfirmationObservationLimit = 3"
definition kTransitionVotesRequired :: u8 where "kTransitionVotesRequired = 2"

datatype ConfirmationOrigin = kNone | kUnclassified | kInside | kOutside
datatype GeofenceOperationalState = kInside | kOutside
datatype GeofenceCadenceMode = kBase | kBaseDividedBy3

datatype GeofenceOperationalResult =
  kInvalidObservation | kBoundaryNoDecision | kInitializedInside | kInitializedOutside
  | kStableInside | kStableOutside | kConfirmationStarted | kConfirmationContinues
  | kConfirmationRejected | kConfirmedOutside | kConfirmedInside

record GeofenceOperationalStateMachine =
  has_confirmed_state :: bool
  confirmed_state :: GeofenceOperationalState
  confirmation_active :: bool
  confirmation_origin :: ConfirmationOrigin
  confirmation_observation_count :: u8
  confirmation_inside_votes :: u8
  confirmation_outside_votes :: u8

definition GeofenceOperationalStateMachine_init :: GeofenceOperationalStateMachine where
  "GeofenceOperationalStateMachine_init =
     \<lparr>has_confirmed_state = False, confirmed_state = kInside, confirmation_active = False,
      confirmation_origin = kNone, confirmation_observation_count = 0,
      confirmation_inside_votes = 0, confirmation_outside_votes = 0\<rparr>"

definition isAcceptedOperationalRelation :: "PermittedAreaRelation \<Rightarrow> bool" where
  "isAcceptedOperationalRelation r \<longleftrightarrow>
     r = PermittedAreaRelation.kInside \<or> r = PermittedAreaRelation.kBoundary \<or>
     r = PermittedAreaRelation.kOutside"

definition getConfirmedState :: "GeofenceOperationalStateMachine \<Rightarrow> GeofenceOperationalState option" where
  "getConfirmedState s = (if has_confirmed_state s then Some (confirmed_state s) else None)"

definition cadenceMode :: "GeofenceOperationalStateMachine \<Rightarrow> GeofenceCadenceMode" where
  "cadenceMode s = (if has_confirmed_state s \<and> confirmed_state s = kOutside then kBaseDividedBy3 else kBase)"

definition clearConfirmation :: "GeofenceOperationalStateMachine \<Rightarrow> GeofenceOperationalStateMachine" where
  "clearConfirmation s = s\<lparr>confirmation_active := False, confirmation_origin := kNone,
     confirmation_observation_count := 0, confirmation_inside_votes := 0, confirmation_outside_votes := 0\<rparr>"

definition addConfirmationObservation ::
  "GeofenceOperationalStateMachine \<Rightarrow> PermittedAreaRelation \<Rightarrow> GeofenceOperationalStateMachine" where
  "addConfirmationObservation s r =
     (let s1 = s\<lparr>confirmation_observation_count := confirmation_observation_count s + 1\<rparr> in
      if r = PermittedAreaRelation.kInside
      then s1\<lparr>confirmation_inside_votes := confirmation_inside_votes s1 + 1\<rparr>
      else if r = PermittedAreaRelation.kOutside
      then s1\<lparr>confirmation_outside_votes := confirmation_outside_votes s1 + 1\<rparr>
      else s1)"

definition startConfirmation ::
  "GeofenceOperationalStateMachine \<Rightarrow> ConfirmationOrigin \<Rightarrow> PermittedAreaRelation \<Rightarrow>
   GeofenceOperationalStateMachine" where
  "startConfirmation s origin first_relation =
     addConfirmationObservation
       ((clearConfirmation s)\<lparr>confirmation_active := True, confirmation_origin := origin\<rparr>) first_relation"

definition finishConfirmation ::
  "GeofenceOperationalStateMachine \<Rightarrow> GeofenceOperationalStateMachine \<times> GeofenceOperationalResult" where
  "finishConfirmation s =
     (let origin = confirmation_origin s; inside_votes = confirmation_inside_votes s;
          outside_votes = confirmation_outside_votes s; c = clearConfirmation s;
          to_outside = c\<lparr>has_confirmed_state := True, confirmed_state := kOutside\<rparr>;
          to_inside = c\<lparr>has_confirmed_state := True, confirmed_state := kInside\<rparr>
      in
      if origin = ConfirmationOrigin.kInside then
        (if outside_votes \<ge> kTransitionVotesRequired then (to_outside, kConfirmedOutside)
         else (c, kConfirmationRejected))
      else if origin = ConfirmationOrigin.kOutside then
        (if inside_votes \<ge> kTransitionVotesRequired then (to_inside, kConfirmedInside)
         else (c, kConfirmationRejected))
      else if origin = kUnclassified then
        (if outside_votes \<ge> kTransitionVotesRequired then (to_outside, kInitializedOutside)
         else if inside_votes \<ge> kTransitionVotesRequired then (to_inside, kInitializedInside)
         else (c, kConfirmationRejected))
      else (c, kConfirmationRejected))"

definition op_observe ::
  "GeofenceOperationalStateMachine \<Rightarrow> PermittedAreaRelation \<Rightarrow>
   GeofenceOperationalStateMachine \<times> GeofenceOperationalResult" where
  "op_observe s r =
     (if \<not> isAcceptedOperationalRelation r then (s, kInvalidObservation)
      else if confirmation_active s then
        (let s1 = addConfirmationObservation s r in
         if confirmation_observation_count s1 < kConfirmationObservationLimit
         then (s1, kConfirmationContinues) else finishConfirmation s1)
      else if \<not> has_confirmed_state s then
        (if r = PermittedAreaRelation.kBoundary then (s, kBoundaryNoDecision)
         else if r = PermittedAreaRelation.kInside
         then (s\<lparr>has_confirmed_state := True, confirmed_state := kInside\<rparr>, kInitializedInside)
         else (startConfirmation s kUnclassified r, kConfirmationStarted))
      else if confirmed_state s = kInside then
        (if r = PermittedAreaRelation.kInside then (s, kStableInside)
         else if r = PermittedAreaRelation.kBoundary then (s, kBoundaryNoDecision)
         else (startConfirmation s ConfirmationOrigin.kInside r, kConfirmationStarted))
      else if r = PermittedAreaRelation.kOutside then (s, kStableOutside)
      else if r = PermittedAreaRelation.kBoundary then (s, kBoundaryNoDecision)
      else (startConfirmation s ConfirmationOrigin.kOutside r, kConfirmationStarted))"

definition op_abortConfirmation ::
  "GeofenceOperationalStateMachine \<Rightarrow> GeofenceOperationalStateMachine \<times> bool" where
  "op_abortConfirmation s = (if \<not> confirmation_active s then (s, False) else (clearConfirmation s, True))"

definition op_reset :: "GeofenceOperationalStateMachine \<Rightarrow> GeofenceOperationalStateMachine" where
  "op_reset s = clearConfirmation (s\<lparr>has_confirmed_state := False, confirmed_state := kInside\<rparr>)"

section \<open>The specification: collected evidence\<close>

text \<open>
  The specification state is the confirmed state, if any, and the observations of the open
  episode in order (empty when no episode is open).  An episode opens on evidence against the
  confirmed state, closes at its third observation and is decided by the majority of its
  non-boundary observations.
\<close>

record evidence_state =
  authority :: "GeofenceOperationalState option"
  episode :: "PermittedAreaRelation list"

definition votes :: "PermittedAreaRelation \<Rightarrow> PermittedAreaRelation list \<Rightarrow> nat" where
  "votes r e = length (filter ((=) r) e)"

definition decide :: "GeofenceOperationalState option \<Rightarrow> PermittedAreaRelation list \<Rightarrow>
    GeofenceOperationalState option \<times> GeofenceOperationalResult" where
  "decide a e =
     (if a \<noteq> Some kOutside \<and> votes PermittedAreaRelation.kOutside e \<ge> 2
      then (Some kOutside, if a = None then kInitializedOutside else kConfirmedOutside)
      else if a \<noteq> Some kInside \<and> votes PermittedAreaRelation.kInside e \<ge> 2
      then (Some kInside, if a = None then kInitializedInside else kConfirmedInside)
      else (a, kConfirmationRejected))"

definition spec_observe ::
  "evidence_state \<Rightarrow> PermittedAreaRelation \<Rightarrow> evidence_state \<times> GeofenceOperationalResult" where
  "spec_observe s r =
     (if r \<notin> {PermittedAreaRelation.kInside, PermittedAreaRelation.kBoundary, PermittedAreaRelation.kOutside}
      then (s, kInvalidObservation)
      else if episode s \<noteq> [] then
        (let e = episode s @ [r] in
         if length e < 3 then (s\<lparr>episode := e\<rparr>, kConfirmationContinues)
         else let (a, res) = decide (authority s) e in (\<lparr>authority = a, episode = []\<rparr>, res))
      else if r = PermittedAreaRelation.kBoundary then (s, kBoundaryNoDecision)
      else if r = PermittedAreaRelation.kInside then
        (case authority s of
           None \<Rightarrow> (s\<lparr>authority := Some kInside\<rparr>, kInitializedInside)
         | Some kInside \<Rightarrow> (s, kStableInside)
         | Some kOutside \<Rightarrow> (s\<lparr>episode := [r]\<rparr>, kConfirmationStarted))
      else
        (if authority s = Some kOutside then (s, kStableOutside)
         else (s\<lparr>episode := [r]\<rparr>, kConfirmationStarted)))"

text \<open>The refinement relation between the counters and the collected evidence.\<close>

definition op_refines :: "GeofenceOperationalStateMachine \<Rightarrow> evidence_state \<Rightarrow> bool" where
  "op_refines s e \<longleftrightarrow>
     getConfirmedState s = authority e \<and>
     (confirmation_active s \<longleftrightarrow> episode e \<noteq> []) \<and> length (episode e) < 3 \<and>
     confirmation_observation_count s = of_nat (length (episode e)) \<and>
     confirmation_inside_votes s = of_nat (votes PermittedAreaRelation.kInside (episode e)) \<and>
     confirmation_outside_votes s = of_nat (votes PermittedAreaRelation.kOutside (episode e)) \<and>
     confirmation_origin s =
       (if episode e = [] then kNone
        else case authority e of None \<Rightarrow> kUnclassified
          | Some kInside \<Rightarrow> ConfirmationOrigin.kInside | Some kOutside \<Rightarrow> ConfirmationOrigin.kOutside)"

lemma short_list_cases:
  assumes "length e < 3"
  obtains "e = []" | a where "e = [a]" | a b where "e = [a, b]"
  using assms by (cases e; cases "tl e"; cases "tl (tl e)") auto

lemma votes_snoc: "votes q (e @ [r]) = votes q e + (if r = q then 1 else 0)"
  by (auto simp: votes_def)

lemma votes_le: "votes q e \<le> length e"
  by (simp add: votes_def)

lemma u8_ge_2: "n < 256 \<Longrightarrow> (2 :: u8) \<le> of_nat n \<longleftrightarrow> 2 \<le> n"
  by (simp add: word_le_nat_alt unat_of_nat)

lemma u8_less_3: "n < 256 \<Longrightarrow> (of_nat n :: u8) < 3 \<longleftrightarrow> n < 3"
  by (simp add: word_less_nat_alt unat_of_nat)

lemma add_counts:
  assumes "confirmation_observation_count s = of_nat (length e)"
    and "confirmation_inside_votes s = of_nat (votes PermittedAreaRelation.kInside e)"
    and "confirmation_outside_votes s = of_nat (votes PermittedAreaRelation.kOutside e)"
  shows "confirmation_observation_count (addConfirmationObservation s r) = of_nat (length (e @ [r]))"
    and "confirmation_inside_votes (addConfirmationObservation s r) =
           of_nat (votes PermittedAreaRelation.kInside (e @ [r]))"
    and "confirmation_outside_votes (addConfirmationObservation s r) =
           of_nat (votes PermittedAreaRelation.kOutside (e @ [r]))"
  using assms by (simp_all add: addConfirmationObservation_def votes_snoc Let_def)

lemma add_frame [simp]:
  "has_confirmed_state (addConfirmationObservation s r) = has_confirmed_state s"
  "confirmed_state (addConfirmationObservation s r) = confirmed_state s"
  "confirmation_active (addConfirmationObservation s r) = confirmation_active s"
  "confirmation_origin (addConfirmationObservation s r) = confirmation_origin s"
  "getConfirmedState (addConfirmationObservation s r) = getConfirmedState s"
  by (simp_all add: addConfirmationObservation_def Let_def getConfirmedState_def)

lemma authority_cases:
  assumes "getConfirmedState s = a"
  obtains "a = None" "\<not> has_confirmed_state s"
    | "a = Some kInside" "has_confirmed_state s" "confirmed_state s = kInside"
    | "a = Some kOutside" "has_confirmed_state s" "confirmed_state s = kOutside"
  using assms by (cases "confirmed_state s") (auto simp: getConfirmedState_def split: if_splits)

lemma observe_refines_idle:
  assumes "op_refines s e" "episode e = []" "isAcceptedOperationalRelation r"
  shows "op_refines (fst (op_observe s r)) (fst (spec_observe e r)) \<and>
    snd (op_observe s r) = snd (spec_observe e r)"
proof -
  have "getConfirmedState s = authority e" using assms(1) by (simp add: op_refines_def)
  then show ?thesis
    by (cases rule: authority_cases; cases r)
      (use assms in \<open>simp_all add: op_refines_def op_observe_def spec_observe_def
        isAcceptedOperationalRelation_def getConfirmedState_def startConfirmation_def
        clearConfirmation_def addConfirmationObservation_def votes_def\<close>)
qed

lemma observe_refines_active:
  assumes rf: "op_refines s e" and ne: "episode e \<noteq> []" and acc: "isAcceptedOperationalRelation r"
  shows "op_refines (fst (op_observe s r)) (fst (spec_observe e r)) \<and>
    snd (op_observe s r) = snd (spec_observe e r)"
proof -
  let ?s1 = "addConfirmationObservation s r" and ?e1 = "episode e @ [r]"
  have l: "length (episode e) < 3" and act: "confirmation_active s" and au: "getConfirmedState s = authority e"
    using rf ne by (simp_all add: op_refines_def)
  have cnt: "confirmation_observation_count ?s1 = of_nat (length ?e1)"
    "confirmation_inside_votes ?s1 = of_nat (votes PermittedAreaRelation.kInside ?e1)"
    "confirmation_outside_votes ?s1 = of_nat (votes PermittedAreaRelation.kOutside ?e1)"
    by (intro add_counts; use rf in \<open>simp add: op_refines_def\<close>)+
  have small: "length ?e1 < 256" "votes q ?e1 < 256" for q using votes_le [of q ?e1] l by simp_all
  have lim: "confirmation_observation_count ?s1 < kConfirmationObservationLimit \<longleftrightarrow> length ?e1 < 3"
    unfolding cnt kConfirmationObservationLimit_def by (rule u8_less_3 [OF small(1)])
  have acc': "r \<in> {PermittedAreaRelation.kInside, PermittedAreaRelation.kBoundary, PermittedAreaRelation.kOutside}"
    using acc by (auto simp: isAcceptedOperationalRelation_def)
  show ?thesis
  proof (cases "length ?e1 < 3")
    case True
    have o: "op_observe s r = (?s1, kConfirmationContinues)"
      using acc act True unfolding op_observe_def lim Let_def by simp
    have p: "spec_observe e r = (e\<lparr>episode := ?e1\<rparr>, kConfirmationContinues)"
      using acc' ne True unfolding spec_observe_def Let_def by simp
    have "op_refines ?s1 (e\<lparr>episode := ?e1\<rparr>)"
      using rf ne True cnt by (simp add: op_refines_def)
    then show ?thesis unfolding o p by simp
  next
    case False
    have o: "op_observe s r = finishConfirmation ?s1"
      using acc act False unfolding op_observe_def lim Let_def by simp
    have p: "spec_observe e r = (\<lparr>authority = fst (decide (authority e) ?e1), episode = []\<rparr>, snd (decide (authority e) ?e1))"
      using acc' ne False unfolding spec_observe_def Let_def by (simp add: case_prod_beta)
    have v: "kTransitionVotesRequired \<le> confirmation_inside_votes ?s1 \<longleftrightarrow> 2 \<le> votes PermittedAreaRelation.kInside ?e1"
      "kTransitionVotesRequired \<le> confirmation_outside_votes ?s1 \<longleftrightarrow> 2 \<le> votes PermittedAreaRelation.kOutside ?e1"
      unfolding cnt kTransitionVotesRequired_def by (rule u8_ge_2 [OF small(2)])+
    have og: "confirmation_origin s = (case authority e of None \<Rightarrow> kUnclassified
          | Some kInside \<Rightarrow> ConfirmationOrigin.kInside | Some kOutside \<Rightarrow> ConfirmationOrigin.kOutside)"
      using rf ne by (simp add: op_refines_def)
    show ?thesis unfolding o p using au
      by (cases rule: authority_cases)
        (simp_all add: finishConfirmation_def Let_def og v decide_def op_refines_def
          clearConfirmation_def getConfirmedState_def votes_def [of _ "[]"])
  qed
qed

lemma observe_refines:
  assumes "op_refines s e"
  shows "op_refines (fst (op_observe s r)) (fst (spec_observe e r)) \<and>
    snd (op_observe s r) = snd (spec_observe e r)"
proof (cases "isAcceptedOperationalRelation r")
  case True
  then show ?thesis using observe_refines_idle [OF assms] observe_refines_active [OF assms] by blast
next
  case False
  then show ?thesis using assms
    by (simp add: op_observe_def spec_observe_def isAcceptedOperationalRelation_def)
qed

section \<open>Runs\<close>

text \<open>Everything the owner may call: an observation, an abort, a reset.\<close>

datatype op_event = Observe PermittedAreaRelation | Abort | Reset

definition op_step :: "GeofenceOperationalStateMachine \<Rightarrow> op_event \<Rightarrow> GeofenceOperationalStateMachine" where
  "op_step s ev = (case ev of Observe r \<Rightarrow> fst (op_observe s r)
     | Abort \<Rightarrow> fst (op_abortConfirmation s) | Reset \<Rightarrow> op_reset s)"

definition spec_step :: "evidence_state \<Rightarrow> op_event \<Rightarrow> evidence_state" where
  "spec_step e ev = (case ev of Observe r \<Rightarrow> fst (spec_observe e r)
     | Abort \<Rightarrow> e\<lparr>episode := []\<rparr> | Reset \<Rightarrow> \<lparr>authority = None, episode = []\<rparr>)"

definition op_run :: "op_event list \<Rightarrow> GeofenceOperationalStateMachine" where
  "op_run evs = foldl op_step GeofenceOperationalStateMachine_init evs"

definition spec_run :: "op_event list \<Rightarrow> evidence_state" where
  "spec_run evs = foldl spec_step \<lparr>authority = None, episode = []\<rparr> evs"

lemma init_refines: "op_refines GeofenceOperationalStateMachine_init \<lparr>authority = None, episode = []\<rparr>"
  by (simp add: op_refines_def GeofenceOperationalStateMachine_init_def getConfirmedState_def votes_def)

lemma clear_refines:
  "op_refines s e \<Longrightarrow> op_refines (clearConfirmation s) (e\<lparr>episode := []\<rparr>)"
  by (auto simp: op_refines_def clearConfirmation_def getConfirmedState_def votes_def split: if_splits)

lemma abort_refines: "op_refines s e \<Longrightarrow> op_refines (fst (op_abortConfirmation s)) (e\<lparr>episode := []\<rparr>)"
  using clear_refines [of s e] by (auto simp: op_abortConfirmation_def op_refines_def)

lemma reset_refines: "op_refines (op_reset s) \<lparr>authority = None, episode = []\<rparr>"
  by (simp add: op_refines_def op_reset_def clearConfirmation_def getConfirmedState_def votes_def)

lemma step_refines: "op_refines s e \<Longrightarrow> op_refines (op_step s ev) (spec_step e ev)"
  using observe_refines abort_refines reset_refines
  by (auto simp: op_step_def spec_step_def split: op_event.split)

lemma run_refines: "op_refines (op_run evs) (spec_run evs)"
proof -
  have "op_refines s e \<Longrightarrow> op_refines (foldl op_step s evs) (foldl spec_step e evs)" for s e
    by (induction evs arbitrary: s e) (simp_all add: step_refines)
  then show ?thesis by (simp add: op_run_def spec_run_def init_refines)
qed

lemma run_snoc [simp]:
  "op_run (evs @ [ev]) = op_step (op_run evs) ev" "spec_run (evs @ [ev]) = spec_step (spec_run evs) ev"
  by (simp_all add: op_run_def spec_run_def)

text \<open>
  C24: The counter machine refines the evidence specification on every sequence of observations,
  aborts and resets: same confirmed state, same open episode, and the next observation returns
  the same result.
\<close>
theorem operational_refines_evidence:
  "getConfirmedState (op_run evs) = authority (spec_run evs) \<and>
   confirmation_active (op_run evs) = (episode (spec_run evs) \<noteq> []) \<and>
   unat (confirmation_observation_count (op_run evs)) = length (episode (spec_run evs)) \<and>
   unat (confirmation_inside_votes (op_run evs)) = votes PermittedAreaRelation.kInside (episode (spec_run evs)) \<and>
   unat (confirmation_outside_votes (op_run evs)) = votes PermittedAreaRelation.kOutside (episode (spec_run evs)) \<and>
   snd (op_observe (op_run evs) r) = snd (spec_observe (spec_run evs) r)"
proof -
  note rf = run_refines [of evs]
  have "votes q (episode (spec_run evs)) < 3" for q
    using rf le_less_trans [OF length_filter_le] unfolding op_refines_def votes_def by blast
  then have "votes q (episode (spec_run evs)) < 256" for q by (meson less_trans numeral_less_iff semiring_norm)
  then show ?thesis using rf observe_refines [OF rf, of r] by (simp add: op_refines_def unat_of_nat)
qed

text \<open>The open episode is a suffix of the observations made, all of them accepted relations.\<close>

fun trailing_observations :: "op_event list \<Rightarrow> PermittedAreaRelation list" where
  "trailing_observations [] = []"
| "trailing_observations (Observe r # evs) =
     (if isAcceptedOperationalRelation r then r # trailing_observations evs else trailing_observations evs)"
| "trailing_observations (_ # evs) = []"

definition recent :: "op_event list \<Rightarrow> PermittedAreaRelation list" where
  "recent evs = rev (trailing_observations (rev evs))"

lemma recent_snoc [simp]:
  "recent (evs @ [Observe r]) = (if isAcceptedOperationalRelation r then recent evs @ [r] else recent evs)"
  "recent (evs @ [Abort]) = []" "recent (evs @ [Reset]) = []" "recent [] = []"
  by (simp_all add: recent_def)

definition opposes :: "GeofenceOperationalState option \<Rightarrow> PermittedAreaRelation \<Rightarrow> bool" where
  "opposes a r \<longleftrightarrow> (if a = Some kOutside then r = PermittedAreaRelation.kInside else r = PermittedAreaRelation.kOutside)"

lemma episode_recent:
  "episode (spec_run evs) = [] \<or>
   opposes (authority (spec_run evs)) (hd (episode (spec_run evs))) \<and>
   (\<exists>pre. recent evs = pre @ episode (spec_run evs))"
proof (induction evs rule: rev_induct)
  case Nil
  then show ?case by (simp add: spec_run_def)
next
  case (snoc ev evs)
  show ?case
  proof (cases ev)
    case (Observe r)
    then show ?thesis using snoc
      by (cases "episode (spec_run evs)")
        (auto simp: spec_step_def spec_observe_def opposes_def isAcceptedOperationalRelation_def Let_def
          split: option.splits GeofenceOperationalState.splits prod.splits)
  qed (simp_all add: spec_step_def)
qed

lemma votes_three: "votes q [a, b, c] = of_bool (a = q) + of_bool (b = q) + of_bool (c = q)"
  by (auto simp: votes_def)

text \<open>
  C34: The machine reports a confirmed INSIDE to OUTSIDE transition only on three consecutive accepted
  observations, uninterrupted by an abort or a reset, the first of them OUTSIDE and at least one
  more OUTSIDE after it; the confirmed state was INSIDE before and is OUTSIDE afterwards.
\<close>
theorem outside_needs_majority:
  assumes "snd (op_observe (op_run evs) r) = kConfirmedOutside"
  shows "(\<exists>pre x. recent (evs @ [Observe r]) = pre @ [PermittedAreaRelation.kOutside, x, r] \<and>
      (x = PermittedAreaRelation.kOutside \<or> r = PermittedAreaRelation.kOutside)) \<and>
    getConfirmedState (op_run evs) = Some kInside \<and>
    getConfirmedState (fst (op_observe (op_run evs) r)) = Some kOutside"
proof -
  note rf = run_refines [of evs]
  let ?e = "spec_run evs"
  have sp: "snd (spec_observe ?e r) = kConfirmedOutside"
    using assms observe_refines [OF rf, of r] by simp
  have l: "length (episode ?e) < 3" using rf by (simp add: op_refines_def)
  have acc: "isAcceptedOperationalRelation r" and ne: "episode ?e \<noteq> []" and l2: "\<not> length (episode ?e @ [r]) < 3"
    and d: "snd (decide (authority ?e) (episode ?e @ [r])) = kConfirmedOutside"
    using sp by (auto simp: spec_observe_def isAcceptedOperationalRelation_def Let_def
        split: if_splits option.splits GeofenceOperationalState.splits prod.splits)
  obtain a x where ep: "episode ?e = [a, x]" using l l2 by (cases rule: short_list_cases) auto
  have au: "authority ?e = Some kInside" and v: "votes PermittedAreaRelation.kOutside [a, x, r] \<ge> 2"
    using d ep by (auto simp: decide_def split: if_splits) (metis GeofenceOperationalState.exhaust)
  have "a = PermittedAreaRelation.kOutside" using episode_recent [of evs] ep au by (simp add: opposes_def)
  moreover have "x = PermittedAreaRelation.kOutside \<or> r = PermittedAreaRelation.kOutside"
    using v by (auto simp: votes_three of_bool_def split: if_splits)
  moreover have "\<exists>pre. recent (evs @ [Observe r]) = pre @ [a, x, r]"
    using episode_recent [of evs] ep acc by auto
  moreover have "fst (spec_observe ?e r) = \<lparr>authority = Some kOutside, episode = []\<rparr>"
    using acc ep au v by (simp add: spec_observe_def isAcceptedOperationalRelation_def decide_def Let_def)
  then have "getConfirmedState (fst (op_observe (op_run evs) r)) = Some kOutside"
    using observe_refines [OF rf, of r] by (simp add: op_refines_def)
  moreover have "getConfirmedState (op_run evs) = Some kInside" using rf au by (simp add: op_refines_def)
  ultimately show ?thesis by blast
qed

theorem outside_needs_majority_witness:
  "getConfirmedState (op_run [Observe PermittedAreaRelation.kInside, Observe PermittedAreaRelation.kOutside,
     Observe PermittedAreaRelation.kBoundary]) = Some kInside"
proof -
  have "snd (op_observe (op_run [Observe PermittedAreaRelation.kInside, Observe PermittedAreaRelation.kOutside,
     Observe PermittedAreaRelation.kBoundary]) PermittedAreaRelation.kOutside) = kConfirmedOutside" by code_simp
  from outside_needs_majority [OF this] show ?thesis by blast
qed

text \<open>
  C35: An episode is bounded: from any reachable state with an open episode the next accepted
  observation closes it, or the one after that does and the confirmed state has not changed in
  between.
\<close>
theorem episode_terminates:
  assumes "confirmation_active (op_run evs)" and "isAcceptedOperationalRelation r1" and "isAcceptedOperationalRelation r2"
  shows "let s1 = fst (op_observe (op_run evs) r1) in
    \<not> confirmation_active s1 \<or>
    (\<not> confirmation_active (fst (op_observe s1 r2)) \<and> getConfirmedState s1 = getConfirmedState (op_run evs))"
proof -
  let ?s1 = "fst (op_observe (op_run evs) r1)" and ?e1 = "fst (spec_observe (spec_run evs) r1)"
  note rf = run_refines [of evs]
  have rf1: "op_refines ?s1 ?e1" using observe_refines [OF rf] by blast
  have rf2: "op_refines (fst (op_observe ?s1 r2)) (fst (spec_observe ?e1 r2))" using observe_refines [OF rf1] by blast
  have ne: "episode (spec_run evs) \<noteq> []" using rf assms(1) by (simp add: op_refines_def)
  have "episode ?e1 = [] \<or> episode (fst (spec_observe ?e1 r2)) = [] \<and> authority ?e1 = authority (spec_run evs)"
  proof -
    have "length (episode (spec_run evs)) < 3" using rf by (simp add: op_refines_def)
    then show ?thesis
      using ne assms(2,3)
      by (cases rule: short_list_cases)
        (auto simp: spec_observe_def isAcceptedOperationalRelation_def Let_def split: prod.splits)
  qed
  then show ?thesis using rf rf1 rf2 by (auto simp: op_refines_def Let_def)
qed

theorem episode_terminates_witness:
  "\<not> confirmation_active (fst (op_observe (fst (op_observe (op_run [Observe PermittedAreaRelation.kOutside])
     PermittedAreaRelation.kBoundary)) PermittedAreaRelation.kInside))"
proof -
  have "confirmation_active (op_run [Observe PermittedAreaRelation.kOutside])"
    "isAcceptedOperationalRelation PermittedAreaRelation.kBoundary"
    "isAcceptedOperationalRelation PermittedAreaRelation.kInside" by code_simp+
  from episode_terminates [OF this] have "let s1 = fst (op_observe (op_run [Observe PermittedAreaRelation.kOutside])
      PermittedAreaRelation.kBoundary) in \<not> confirmation_active s1 \<or>
      \<not> confirmation_active (fst (op_observe s1 PermittedAreaRelation.kInside))" by (auto simp: Let_def)
  moreover have "confirmation_active (fst (op_observe (op_run [Observe PermittedAreaRelation.kOutside])
      PermittedAreaRelation.kBoundary))" by code_simp
  ultimately show ?thesis by (simp add: Let_def)
qed

end
