(* ===== verification/Geofence_Confirmation.thy ===== *)
theory Geofence_Confirmation
  imports Geofence_Runtime Geofence_Operational Monotonic_Time
begin

text \<open>
  \<open>firmware/src/geofence_runtime_policy.cpp\<close> (cadence and representative choice) and
  \<open>firmware/src/geofence_confirmation_coordinator.cpp\<close>, the composition of the runtime geometry
  (\<open>Geofence_Runtime\<close>) with the operational state machine (\<open>Geofence_Operational\<close>): it buffers
  the evidence of the open episode, enforces its deadline and names the representative fix.
\<close>

section \<open>Runtime policy\<close>

definition effectiveTrackingIntervalMs :: "u32 \<Rightarrow> GeofenceCadenceMode \<Rightarrow> u32" where
  "effectiveTrackingIntervalMs base_interval_seconds mode =
     (if base_interval_seconds = 0 then 0
      else
        let seconds =
          (if mode = kBaseDividedBy3 then
             let q = base_interval_seconds div 3;
                 q' = (if base_interval_seconds mod 3 \<noteq> 0 then q + 1 else q)
             in (if q' = 0 then 1 else q')
           else base_interval_seconds)
        in if seconds > UINT32_MAX div 1000 then 0 else seconds * 1000)"

record RepresentativeCandidate =
  rc_relation :: PermittedAreaRelation
  hdop_x100 :: u16
  satellites :: u8
  observation_index :: u8

definition default_candidate :: RepresentativeCandidate where
  "default_candidate = \<lparr>rc_relation = PermittedAreaRelation.kInvalidPoint, hdop_x100 = UINT16_MAX,
     satellites = 0, observation_index = 0\<rparr>"

definition better_candidate :: "RepresentativeCandidate \<Rightarrow> RepresentativeCandidate \<Rightarrow> bool" where
  "better_candidate c best \<longleftrightarrow>
     hdop_x100 c < hdop_x100 best \<or>
     (hdop_x100 c = hdop_x100 best \<and> satellites c > satellites best) \<or>
     (hdop_x100 c = hdop_x100 best \<and> satellites c = satellites best \<and>
      observation_index c > observation_index best)"

text \<open>The scan: \<open>None\<close> is \<open>found == false\<close>.\<close>

definition scan_candidate ::
  "PermittedAreaRelation \<Rightarrow> RepresentativeCandidate \<Rightarrow> RepresentativeCandidate option \<Rightarrow>
   RepresentativeCandidate option" where
  "scan_candidate winning c best =
     (if rc_relation c \<noteq> winning then best
      else case best of None \<Rightarrow> Some c | Some b \<Rightarrow> if better_candidate c b then Some c else best)"

definition selectRepresentative ::
  "RepresentativeCandidate list option \<Rightarrow> PermittedAreaRelation \<Rightarrow> u8 option" where
  "selectRepresentative candidates winning =
     (case candidates of None \<Rightarrow> None
      | Some cs \<Rightarrow>
        if cs = [] \<or> (winning \<noteq> PermittedAreaRelation.kInside \<and> winning \<noteq> PermittedAreaRelation.kOutside)
        then None
        else map_option observation_index (fold (scan_candidate winning) cs None))"

text \<open>
  The working cadence outside the fence is a third of the base interval, rounded up to a whole
  second and never zero; no accepted interval overflows the 32-bit millisecond value, and an
  interval too large to represent is refused as 0 instead of wrapping.
\<close>
theorem tracking_interval_exact:
  "unat (effectiveTrackingIntervalMs b m) =
     (let seconds = (if m = kBaseDividedBy3 then (unat b + 2) div 3 else unat b) in
      if b = 0 \<or> seconds > 4294967 then 0 else seconds * 1000)"
proof -
  have b: "unat b < 2 ^ 32" using unat_lt_32 .
  define q where "q = (if b mod 3 \<noteq> 0 then b div 3 + 1 else b div 3)"
  have m0: "b mod 3 = 0 \<longleftrightarrow> unat b mod 3 = 0"
    by (simp add: word_unat_eq_iff unat_mod)
  have u1: "unat (b div 3 + 1) = unat b div 3 + 1"
    using b by (simp add: unat_word_ariths unat_div)
  have q: "unat q = (unat b + 2) div 3"
    unfolding q_def m0 using u1 by (auto simp: unat_div) presburger+
  have s: "unat (if m = kBaseDividedBy3 then if q = 0 then 1 else q else b) =
      (if m = kBaseDividedBy3 then (unat b + 2) div 3 else unat b)" if "b \<noteq> 0"
  proof -
    have "0 < unat b" using that by (simp add: unat_gt_0)
    then have "0 < (unat b + 2) div 3" by presburger
    then have "q \<noteq> 0" using q by auto
    then show ?thesis using q by simp
  qed
  define secs where "secs = (if m = kBaseDividedBy3 then if q = 0 then 1 else q else b)"
  have e: "effectiveTrackingIntervalMs b m =
      (if b = 0 then 0 else if secs > UINT32_MAX div 1000 then 0 else secs * 1000)"
    by (simp add: effectiveTrackingIntervalMs_def Let_def secs_def q_def)
  have c: "secs > UINT32_MAX div 1000 \<longleftrightarrow> unat secs > 4294967"
    by (simp add: word_less_nat_alt)
  have m: "unat (secs * 1000) = unat secs * 1000" if "unat secs \<le> 4294967"
    using that by (simp add: unat_word_ariths)
  show ?thesis unfolding e c using s m by (simp add: Let_def flip: secs_def)
qed

lemma better_keeps: "\<not> better_candidate c b \<Longrightarrow> better_candidate d b \<Longrightarrow> \<not> better_candidate c d"
  by (auto simp: better_candidate_def)

lemma better_irrefl [simp]: "\<not> better_candidate c c"
  by (simp add: better_candidate_def)

lemma better_asym: "better_candidate d b \<Longrightarrow> \<not> better_candidate b d"
  by (auto simp: better_candidate_def)

text \<open>What the scan has established about the candidates it has seen.\<close>

definition best_among :: "PermittedAreaRelation \<Rightarrow> RepresentativeCandidate list \<Rightarrow> RepresentativeCandidate option \<Rightarrow> bool" where
  "best_among w cs best \<longleftrightarrow>
     (case best of None \<Rightarrow> \<forall>c\<in>set cs. rc_relation c \<noteq> w
      | Some b \<Rightarrow> b \<in> set cs \<and> rc_relation b = w \<and>
          (\<forall>c\<in>set cs. rc_relation c = w \<longrightarrow> \<not> better_candidate c b))"

lemma scan_best: "best_among w cs best \<Longrightarrow> best_among w (cs @ [c]) (scan_candidate w c best)"
proof (cases best)
  case None
  assume "best_among w cs best"
  then show ?thesis using None by (auto simp: best_among_def scan_candidate_def)
next
  case (Some b)
  assume b: "best_among w cs best"
  show ?thesis
  proof (cases "rc_relation c = w \<and> better_candidate c b")
    case True
    then have "\<not> better_candidate d c" if "d \<in> set cs" "rc_relation d = w" for d
      using b Some that True better_keeps [of d b c] by (simp add: best_among_def)
    then show ?thesis using True by (simp add: best_among_def scan_candidate_def Some)
  next
    case False
    then show ?thesis using b Some by (simp add: best_among_def scan_candidate_def)
  qed
qed

lemma fold_scan_best: "best_among w cs (fold (scan_candidate w) cs None)"
proof (induction cs rule: rev_induct)
  case Nil
  show ?case by (simp add: best_among_def)
next
  case (snoc c cs)
  then show ?case using scan_best by simp
qed

lemma selectRepresentative_best:
  assumes "w = PermittedAreaRelation.kInside \<or> w = PermittedAreaRelation.kOutside"
    and "\<exists>c\<in>set cs. rc_relation c = w"
  obtains b where "selectRepresentative (Some cs) w = Some (observation_index b)" "b \<in> set cs"
    "rc_relation b = w" "\<And>c. c \<in> set cs \<Longrightarrow> rc_relation c = w \<Longrightarrow> \<not> better_candidate c b"
proof -
  obtain b where b: "fold (scan_candidate w) cs None = Some b"
    using fold_scan_best [of w cs] assms(2) by (cases "fold (scan_candidate w) cs None") (auto simp: best_among_def)
  moreover have "selectRepresentative (Some cs) w = Some (observation_index b)"
    using assms b by (auto simp: selectRepresentative_def)
  ultimately show thesis using fold_scan_best [of w cs] that by (simp add: best_among_def)
qed

section \<open>The coordinator\<close>

definition kConfirmationDeadlineMs :: u32 where "kConfirmationDeadlineMs = 10000"

record GeofenceConfirmationUpdate =
  geometry_result :: GeofenceObservationResult
  operational_result :: GeofenceOperationalResult
  request_additional_observation :: bool
  episode_evidence_accepted :: bool
  episode_slot :: u8
  representative_available :: bool
  representative_slot :: u8
  confirmation_timed_out :: bool
  outside_event_occurrence :: bool
  cadence_changed :: bool
  cadence_mode :: GeofenceCadenceMode

definition GeofenceConfirmationUpdate_init :: GeofenceConfirmationUpdate where
  "GeofenceConfirmationUpdate_init =
     \<lparr>geometry_result = kNotConfigured, operational_result = kInvalidObservation,
      request_additional_observation = False, episode_evidence_accepted = False, episode_slot = 0,
      representative_available = False, representative_slot = 0, confirmation_timed_out = False,
      outside_event_occurrence = False, cadence_changed = False, cadence_mode = kBase\<rparr>"

record GeofenceConfirmationCoordinator =
  gc_runtime :: GeofenceRuntime
  gc_operational :: GeofenceOperationalStateMachine
  gc_evidence :: "RepresentativeCandidate list"
  gc_evidence_count :: u8
  gc_started_at_ms :: u32
  gc_deadline_active :: bool

definition Coordinator_init :: GeofenceConfirmationCoordinator where
  "Coordinator_init = \<lparr>gc_runtime = GeofenceRuntime_init, gc_operational = GeofenceOperationalStateMachine_init,
     gc_evidence = replicate 3 default_candidate, gc_evidence_count = 0, gc_started_at_ms = 0,
     gc_deadline_active = False\<rparr>"

definition clearEpisodeEvidence :: "GeofenceConfirmationCoordinator \<Rightarrow> GeofenceConfirmationCoordinator" where
  "clearEpisodeEvidence s = s\<lparr>gc_evidence_count := 0, gc_started_at_ms := 0, gc_deadline_active := False\<rparr>"

definition gc_configure ::
  "GeofenceConfirmationCoordinator \<Rightarrow> GeofenceAreaSetView \<Rightarrow>
   GeofenceConfirmationCoordinator \<times> GeofenceRuntimeConfigResult" where
  "gc_configure s candidate =
     (let (rt, result) = rt_configure (gc_runtime s) candidate; s1 = s\<lparr>gc_runtime := rt\<rparr> in
      if result = kApplied
      then (clearEpisodeEvidence (s1\<lparr>gc_operational := op_reset (gc_operational s1)\<rparr>), result)
      else (s1, result))"

definition gc_clear :: "GeofenceConfirmationCoordinator \<Rightarrow> GeofenceConfirmationCoordinator" where
  "gc_clear s = clearEpisodeEvidence
     (s\<lparr>gc_runtime := rt_clear (gc_runtime s), gc_operational := op_reset (gc_operational s)\<rparr>)"

definition addEpisodeEvidence ::
  "GeofenceConfirmationCoordinator \<Rightarrow> PermittedAreaRelation \<Rightarrow> u16 \<Rightarrow> u8 \<Rightarrow> GeofenceConfirmationCoordinator" where
  "addEpisodeEvidence s r hdop sats =
     (if gc_evidence_count s \<ge> kConfirmationObservationLimit then s
      else s\<lparr>gc_evidence := (gc_evidence s)[unat (gc_evidence_count s) :=
               \<lparr>rc_relation = r, hdop_x100 = hdop, satellites = sats, observation_index = gc_evidence_count s\<rparr>],
             gc_evidence_count := gc_evidence_count s + 1\<rparr>)"

definition chooseRepresentative ::
  "GeofenceConfirmationCoordinator \<Rightarrow> GeofenceOperationalResult \<Rightarrow> u8 option" where
  "chooseRepresentative s result =
     (let pick = (\<lambda>w. selectRepresentative (Some (take (unat (gc_evidence_count s)) (gc_evidence s))) w) in
      if result = kConfirmedOutside \<or> result = kInitializedOutside then pick PermittedAreaRelation.kOutside
      else if result = kConfirmedInside \<or> result = kInitializedInside then pick PermittedAreaRelation.kInside
      else None)"

definition gc_abortConfirmation ::
  "GeofenceConfirmationCoordinator \<Rightarrow> GeofenceConfirmationCoordinator \<times> bool" where
  "gc_abortConfirmation s =
     (let (op, aborted) = op_abortConfirmation (gc_operational s) in
      if \<not> aborted then (s\<lparr>gc_operational := op\<rparr>, False)
      else (clearEpisodeEvidence (s\<lparr>gc_operational := op\<rparr>), True))"

definition gc_expireConfirmation ::
  "GeofenceConfirmationCoordinator \<Rightarrow> u32 \<Rightarrow> GeofenceConfirmationCoordinator \<times> bool" where
  "gc_expireConfirmation s now_ms =
     (if \<not> gc_deadline_active s \<or> \<not> confirmation_active (gc_operational s) then (s, False)
      else if \<not> elapsed now_ms (gc_started_at_ms s) kConfirmationDeadlineMs then (s, False)
      else gc_abortConfirmation s)"

text \<open>The tail of \<open>observeAcceptedLocation\<close>, from the assessed relation on.\<close>

definition observe_relation ::
  "GeofenceConfirmationCoordinator \<Rightarrow> PermittedAreaRelation \<Rightarrow> u32 \<Rightarrow> u16 \<Rightarrow> u8 \<Rightarrow> GeofenceConfirmationUpdate \<Rightarrow>
   GeofenceConfirmationCoordinator \<times> GeofenceConfirmationUpdate" where
  "observe_relation s r captured_at_ms hdop sats update =
     (let was_active = confirmation_active (gc_operational s);
          cadence_before = cadenceMode (gc_operational s);
          slot_before = gc_evidence_count s;
          (op, result) = op_observe (gc_operational s) r;
          s1 = s\<lparr>gc_operational := op\<rparr>;
          u1 = update\<lparr>operational_result := result\<rparr>;
          (s2, u2) =
            (if \<not> was_active \<and> result = kConfirmationStarted then
               (addEpisodeEvidence
                  ((clearEpisodeEvidence s1)\<lparr>gc_started_at_ms := captured_at_ms, gc_deadline_active := True\<rparr>)
                  r hdop sats,
                u1\<lparr>episode_evidence_accepted := True, episode_slot := 0\<rparr>)
             else if was_active then
               (let s' = addEpisodeEvidence s1 r hdop sats in
                (s', u1\<lparr>episode_evidence_accepted := (gc_evidence_count s' = slot_before + 1),
                        episode_slot := slot_before\<rparr>))
             else (s1, u1));
          u3 = u2\<lparr>request_additional_observation := confirmation_active op,
                  outside_event_occurrence := (result = kConfirmedOutside),
                  cadence_mode := cadenceMode op,
                  cadence_changed := (cadenceMode op \<noteq> cadence_before)\<rparr>
      in
      if \<not> confirmation_active op \<and> was_active then
        (clearEpisodeEvidence s2,
         case chooseRepresentative s2 result of
           None \<Rightarrow> u3
         | Some slot \<Rightarrow> u3\<lparr>representative_available := True, representative_slot := slot\<rparr>)
      else (s2, u3))"

definition observeAcceptedLocation ::
  "GeofenceConfirmationCoordinator \<Rightarrow> GeoPointE7 \<Rightarrow> u32 \<Rightarrow> u16 \<Rightarrow> u8 \<Rightarrow>
   GeofenceConfirmationCoordinator \<times> GeofenceConfirmationUpdate" where
  "observeAcceptedLocation s point captured_at_ms hdop sats =
     (let update = GeofenceConfirmationUpdate_init\<lparr>cadence_mode := cadenceMode (gc_operational s)\<rparr>;
          was_active = confirmation_active (gc_operational s);
          (rt, geometry) = rt_observeAcceptedPosition (gc_runtime s) point captured_at_ms;
          s1 = s\<lparr>gc_runtime := rt\<rparr>;
          update = update\<lparr>geometry_result := geometry\<rparr>
      in
      if was_active \<and> gc_deadline_active s1 \<and>
         elapsed captured_at_ms (gc_started_at_ms s1) kConfirmationDeadlineMs then
        (let (s2, aborted) = gc_abortConfirmation s1 in
         (s2, update\<lparr>confirmation_timed_out := aborted, cadence_mode := cadenceMode (gc_operational s2)\<rparr>))
      else if geometry \<noteq> kAccepted then
        (s1, update\<lparr>request_additional_observation :=
               (was_active \<and> geometry = GeofenceObservationResult.kInvalidPoint)\<rparr>)
      else observe_relation s1 (relation (rt_assessment rt)) captured_at_ms hdop sats update)"

section \<open>The coordinator invariant\<close>

text \<open>The evidence gathered in the open episode, oldest first.\<close>

definition gathered :: "GeofenceConfirmationCoordinator \<Rightarrow> RepresentativeCandidate list" where
  "gathered s = take (unat (gc_evidence_count s)) (gc_evidence s)"

definition evidence_matches :: "GeofenceConfirmationCoordinator \<Rightarrow> evidence_state \<Rightarrow> bool" where
  "evidence_matches s e \<longleftrightarrow>
     op_refines (gc_operational s) e \<and> length (gc_evidence s) = 3 \<and>
     gc_deadline_active s = (episode e \<noteq> []) \<and>
     gc_evidence_count s = of_nat (length (episode e)) \<and>
     map rc_relation (gathered s) = episode e \<and>
     map observation_index (gathered s) = map of_nat [0..<length (gathered s)]"

definition gc_inv :: "GeofenceConfirmationCoordinator \<Rightarrow> bool" where
  "gc_inv s \<longleftrightarrow> rt_inv (gc_runtime s) \<and> (\<exists>e. evidence_matches s e)"

lemma gc_inv_init: "gc_inv Coordinator_init"
  using rt_init_inv init_refines
  by (auto simp: gc_inv_def evidence_matches_def Coordinator_init_def gathered_def
      intro!: exI [of _ "\<lparr>authority = None, episode = []\<rparr>"])

lemma cleared_matches:
  assumes "op_refines op e" "episode e = []" "length (gc_evidence s) = 3"
  shows "evidence_matches (clearEpisodeEvidence (s\<lparr>gc_operational := op\<rparr>)) e"
  using assms by (simp add: evidence_matches_def clearEpisodeEvidence_def gathered_def)

lemma abort_matches:
  assumes "evidence_matches s e"
  shows "evidence_matches (fst (gc_abortConfirmation s)) (e\<lparr>episode := []\<rparr>)"
    and "snd (gc_abortConfirmation s) = confirmation_active (gc_operational s)"
    and "gc_runtime (fst (gc_abortConfirmation s)) = gc_runtime s"
proof -
  have rf: "op_refines (gc_operational s) e" and len: "length (gc_evidence s) = 3"
    using assms by (simp_all add: evidence_matches_def)
  have "evidence_matches (clearEpisodeEvidence (s\<lparr>gc_operational := clearConfirmation (gc_operational s)\<rparr>)) (e\<lparr>episode := []\<rparr>)"
    by (intro cleared_matches [OF clear_refines [OF rf] _ len]) simp
  moreover have "\<not> confirmation_active (gc_operational s) \<Longrightarrow> e\<lparr>episode := []\<rparr> = e"
    using rf by (simp add: op_refines_def)
  ultimately show "evidence_matches (fst (gc_abortConfirmation s)) (e\<lparr>episode := []\<rparr>)"
    "snd (gc_abortConfirmation s) = confirmation_active (gc_operational s)"
    "gc_runtime (fst (gc_abortConfirmation s)) = gc_runtime s"
    using assms by (simp_all add: gc_abortConfirmation_def op_abortConfirmation_def clearEpisodeEvidence_def)
qed

lemma add_evidence:
  assumes "gc_evidence_count s = of_nat n" "n < 3" "length (gc_evidence s) = 3"
  shows "gathered (addEpisodeEvidence s r h q) =
      gathered s @ [\<lparr>rc_relation = r, hdop_x100 = h, satellites = q, observation_index = of_nat n\<rparr>]"
    and "gc_evidence_count (addEpisodeEvidence s r h q) = of_nat (Suc n)"
    and "length (gc_evidence (addEpisodeEvidence s r h q)) = 3"
    and "gc_operational (addEpisodeEvidence s r h q) = gc_operational s"
    and "gc_deadline_active (addEpisodeEvidence s r h q) = gc_deadline_active s"
    and "gc_runtime (addEpisodeEvidence s r h q) = gc_runtime s"
    and "gc_started_at_ms (addEpisodeEvidence s r h q) = gc_started_at_ms s"
proof -
  have u: "unat (of_nat n :: u8) = n" "unat (1 + of_nat n :: u8) = Suc n"
    using assms(2) by (simp_all add: unat_of_nat unat_word_ariths)
  have "\<not> gc_evidence_count s \<ge> kConfirmationObservationLimit"
    using assms(1,2) u by (simp add: kConfirmationObservationLimit_def word_le_nat_alt)
  then show "gathered (addEpisodeEvidence s r h q) =
      gathered s @ [\<lparr>rc_relation = r, hdop_x100 = h, satellites = q, observation_index = of_nat n\<rparr>]"
    "gc_evidence_count (addEpisodeEvidence s r h q) = of_nat (Suc n)"
    "length (gc_evidence (addEpisodeEvidence s r h q)) = 3"
    "gc_operational (addEpisodeEvidence s r h q) = gc_operational s"
    "gc_deadline_active (addEpisodeEvidence s r h q) = gc_deadline_active s"
    "gc_runtime (addEpisodeEvidence s r h q) = gc_runtime s"
    "gc_started_at_ms (addEpisodeEvidence s r h q) = gc_started_at_ms s"
    using assms u by (simp_all add: addEpisodeEvidence_def gathered_def add.commute take_Suc_conv_app_nth)
qed

lemma matches_count:
  assumes "evidence_matches s e"
  shows "length (episode e) < 3" "gc_evidence_count s = of_nat (length (episode e))"
    "unat (gc_evidence_count s) = length (episode e)" "length (gathered s) = length (episode e)"
    "confirmation_active (gc_operational s) = (episode e \<noteq> [])"
    "getConfirmedState (gc_operational s) = authority e"
proof -
  show l: "length (episode e) < 3" using assms by (simp add: evidence_matches_def op_refines_def)
  show c: "gc_evidence_count s = of_nat (length (episode e))" using assms by (simp add: evidence_matches_def)
  show "unat (gc_evidence_count s) = length (episode e)" using l by (simp add: c unat_of_nat)
  show "length (gathered s) = length (episode e)" using assms length_map [of rc_relation "gathered s"]
    by (simp add: evidence_matches_def)
  show "confirmation_active (gc_operational s) = (episode e \<noteq> [])"
    "getConfirmedState (gc_operational s) = authority e"
    using assms by (simp_all add: evidence_matches_def op_refines_def)
qed

lemma add_matches:
  assumes "map rc_relation (gathered s) = es" "map observation_index (gathered s) = map of_nat [0..<length (gathered s)]"
    and "gc_evidence_count s = of_nat (length es)" "length es < 3" "length (gc_evidence s) = 3"
  shows "map rc_relation (gathered (addEpisodeEvidence s r h q)) = es @ [r]"
    and "map observation_index (gathered (addEpisodeEvidence s r h q)) =
      map of_nat [0..<length (gathered (addEpisodeEvidence s r h q))]"
proof -
  have "length (gathered s) = length es" using assms(1) by (metis length_map)
  then show "map rc_relation (gathered (addEpisodeEvidence s r h q)) = es @ [r]"
    "map observation_index (gathered (addEpisodeEvidence s r h q)) =
      map of_nat [0..<length (gathered (addEpisodeEvidence s r h q))]"
    using add_evidence(1) [OF assms(3,4,5)] assms(1,2) by simp_all
qed

lemma observe_relation_matches:
  assumes m: "evidence_matches s e" and acc: "isAcceptedOperationalRelation r"
  shows "evidence_matches (fst (observe_relation s r t h q u)) (fst (spec_observe e r))"
proof -
  let ?e1 = "fst (spec_observe e r)"
  obtain op res where o: "op_observe (gc_operational s) r = (op, res)" by fastforce
  have rf: "op_refines (gc_operational s) e" using m by (simp add: evidence_matches_def)
  have rf1: "op_refines op ?e1" and res: "res = snd (spec_observe e r)"
    using observe_refines [OF rf, of r] o by simp_all
  note c = matches_count [OF m]
  have len: "length (gc_evidence s) = 3" using m by (simp add: evidence_matches_def)
  have act1: "confirmation_active op = (episode ?e1 \<noteq> [])" using rf1 by (simp add: op_refines_def)
  show ?thesis
  proof (cases "episode e = []")
    case True
    have start: "res = kConfirmationStarted \<longleftrightarrow> episode ?e1 = [r]" "res \<noteq> kConfirmationStarted \<longrightarrow> episode ?e1 = []"
      using True acc unfolding res
      by (auto simp: spec_observe_def isAcceptedOperationalRelation_def split: option.split GeofenceOperationalState.split)
    let ?s0 = "(clearEpisodeEvidence (s\<lparr>gc_operational := op\<rparr>))\<lparr>gc_started_at_ms := t, gc_deadline_active := True\<rparr>"
    have z: "gc_evidence_count ?s0 = of_nat (length ([] :: PermittedAreaRelation list))" "length (gc_evidence ?s0) = 3"
      "map rc_relation (gathered ?s0) = []"
      using len by (simp_all add: clearEpisodeEvidence_def gathered_def)
    have zi: "map observation_index (gathered ?s0) = map of_nat [0..<length (gathered ?s0)]"
      by (simp add: clearEpisodeEvidence_def gathered_def)
    have a: "gc_operational ?s0 = op" "gc_deadline_active ?s0" by (simp_all add: clearEpisodeEvidence_def)
    note ad = add_evidence [OF z(1) _ z(2)] and am = add_matches [OF z(3) zi z(1) _ z(2)]
    have "evidence_matches (addEpisodeEvidence ?s0 r h q) ?e1" if "episode ?e1 = [r]"
      using that rf1 ad am a by (simp add: evidence_matches_def)
    moreover have "evidence_matches (s\<lparr>gc_operational := op\<rparr>) ?e1" if "episode ?e1 = []"
      using that rf1 m True by (simp add: evidence_matches_def gathered_def)
    ultimately show ?thesis
      using True start c(5) act1 by (auto simp: observe_relation_def Let_def o)
  next
    case False
    let ?s1 = "s\<lparr>gc_operational := op\<rparr>" and ?s2 = "addEpisodeEvidence (s\<lparr>gc_operational := op\<rparr>) r h q"
    have g: "gathered ?s1 = gathered s" by (simp add: gathered_def)
    have m1: "map rc_relation (gathered ?s1) = episode e"
      "map observation_index (gathered ?s1) = map of_nat [0..<length (gathered ?s1)]"
      using m unfolding g by (simp_all add: evidence_matches_def)
    have z: "gc_evidence_count ?s1 = of_nat (length (episode e))" "length (gc_evidence ?s1) = 3"
      using c(2) len by simp_all
    note ad = add_evidence [OF z(1) c(1) z(2), of r h q] and am = add_matches [OF m1 z(1) c(1) z(2), of r h q]
    have ep: "episode ?e1 = (if length (episode e @ [r]) < 3 then episode e @ [r] else [])"
      using False acc by (auto simp: spec_observe_def isAcceptedOperationalRelation_def Let_def split: prod.split)
    have d: "gc_deadline_active s" using m False by (simp add: evidence_matches_def)
    have "fst (observe_relation s r t h q u) =
        (if \<not> confirmation_active op then clearEpisodeEvidence ?s2 else ?s2)"
      using c(5) False by (simp add: observe_relation_def Let_def o)
    moreover have "evidence_matches ?s2 ?e1" if "episode ?e1 \<noteq> []"
      using that rf1 ad am ep d by (auto simp: evidence_matches_def split: if_splits)
    moreover have "evidence_matches (clearEpisodeEvidence ?s2) ?e1" if "episode ?e1 = []"
      using that rf1 ad by (simp add: evidence_matches_def clearEpisodeEvidence_def gathered_def)
    ultimately show ?thesis using act1 by auto
  qed
qed

lemma observe_relation_runtime: "gc_runtime (fst (observe_relation s r t h q u)) = gc_runtime s"
  by (auto simp: observe_relation_def Let_def clearEpisodeEvidence_def addEpisodeEvidence_def
      split: prod.split)

section \<open>Runs of the coordinator\<close>

datatype gc_event =
    Configure GeofenceAreaSetView
  | ClearAreas
  | Located GeoPointE7 u32 u16 u8
  | Expire u32
  | AbortEpisode

definition gc_step :: "GeofenceConfirmationCoordinator \<Rightarrow> gc_event \<Rightarrow> GeofenceConfirmationCoordinator" where
  "gc_step s ev = (case ev of
      Configure c \<Rightarrow> fst (gc_configure s c)
    | ClearAreas \<Rightarrow> gc_clear s
    | Located p t h q \<Rightarrow> fst (observeAcceptedLocation s p t h q)
    | Expire now \<Rightarrow> fst (gc_expireConfirmation s now)
    | AbortEpisode \<Rightarrow> fst (gc_abortConfirmation s))"

definition gc_run :: "gc_event list \<Rightarrow> GeofenceConfirmationCoordinator" where
  "gc_run evs = foldl gc_step Coordinator_init evs"

lemma observed_relation_accepted:
  assumes "rt_observeAcceptedPosition rt p t = (rt', kAccepted)"
  shows "isAcceptedOperationalRelation (relation (rt_assessment rt'))"
  using assms
  by (cases "relation (assessPermittedGeofenceAreas (rt_area_set rt) p)")
    (auto simp: rt_observeAcceptedPosition_def Let_def isAcceptedOperationalRelation_def split: if_splits)

lemma matches_runtime [simp]: "evidence_matches (s\<lparr>gc_runtime := rt\<rparr>) e = evidence_matches s e"
  by (simp add: evidence_matches_def gathered_def)

lemma abort_inv: "gc_inv s \<Longrightarrow> gc_inv (fst (gc_abortConfirmation s))"
  using abort_matches unfolding gc_inv_def by metis

lemma located_inv:
  assumes "gc_inv s"
  shows "gc_inv (fst (observeAcceptedLocation s p t h q))"
proof -
  obtain rt g where o: "rt_observeAcceptedPosition (gc_runtime s) p t = (rt, g)" by fastforce
  have rt: "rt_inv rt" using observe_frame(3) [of "gc_runtime s" p t] assms o by (simp add: gc_inv_def)
  have i1: "gc_inv (s\<lparr>gc_runtime := rt\<rparr>)" using assms rt by (simp add: gc_inv_def)
  then obtain e where e: "evidence_matches (s\<lparr>gc_runtime := rt\<rparr>) e" by (auto simp: gc_inv_def)
  have i2: "gc_inv (fst (observe_relation (s\<lparr>gc_runtime := rt\<rparr>) (relation (rt_assessment rt)) t h q u))"
    if "g = kAccepted" for u
  proof -
    have "isAcceptedOperationalRelation (relation (rt_assessment rt))"
      using o that by (intro observed_relation_accepted [of "gc_runtime s" p t]) simp
    from observe_relation_matches [OF e this]
    have "\<exists>e'. evidence_matches (fst (observe_relation (s\<lparr>gc_runtime := rt\<rparr>) (relation (rt_assessment rt)) t h q u)) e'"
      by blast
    then show ?thesis using rt by (simp add: gc_inv_def observe_relation_runtime)
  qed
  show ?thesis using i1 i2 abort_inv [OF i1]
    by (auto simp: observeAcceptedLocation_def Let_def o split: prod.split)
qed

lemma gc_step_inv:
  assumes "gc_inv s"
  shows "gc_inv (gc_step s ev)"
proof (cases ev)
  case (Configure c)
  obtain rt r where o: "rt_configure (gc_runtime s) c = (rt, r)" by fastforce
  have rt: "rt_inv rt" using rt_configure_inv [of "gc_runtime s" c] assms o by (simp add: gc_inv_def)
  obtain e where e: "evidence_matches s e" using assms by (auto simp: gc_inv_def)
  have "evidence_matches (clearEpisodeEvidence (s\<lparr>gc_runtime := rt, gc_operational := op_reset (gc_operational s)\<rparr>))
      \<lparr>authority = None, episode = []\<rparr>"
    using cleared_matches [OF reset_refines [of "gc_operational s"], of "s\<lparr>gc_runtime := rt\<rparr>"] e
    by (simp add: evidence_matches_def)
  then show ?thesis using rt e Configure
    by (cases "r = kApplied")
      (auto simp: gc_step_def gc_configure_def o gc_inv_def clearEpisodeEvidence_def Let_def)
next
  case ClearAreas
  obtain e where e: "evidence_matches s e" using assms by (auto simp: gc_inv_def)
  have "evidence_matches (clearEpisodeEvidence (s\<lparr>gc_runtime := rt_clear (gc_runtime s), gc_operational := op_reset (gc_operational s)\<rparr>))
      \<lparr>authority = None, episode = []\<rparr>"
    using cleared_matches [OF reset_refines [of "gc_operational s"], of "s\<lparr>gc_runtime := rt_clear (gc_runtime s)\<rparr>"] e
    by (simp add: evidence_matches_def)
  then show ?thesis using assms rt_clear_inv ClearAreas
    by (auto simp: gc_step_def gc_clear_def gc_inv_def clearEpisodeEvidence_def)
next
  case (Located p t h q)
  then show ?thesis using located_inv [OF assms] by (simp add: gc_step_def)
next
  case (Expire now)
  then show ?thesis using assms abort_inv by (simp add: gc_step_def gc_expireConfirmation_def)
next
  case AbortEpisode
  then show ?thesis using assms abort_inv by (simp add: gc_step_def)
qed

lemma gc_run_inv: "gc_inv (gc_run evs)"
proof -
  have "gc_inv s \<Longrightarrow> gc_inv (foldl gc_step s evs)" for s
    by (induction evs arbitrary: s) (simp_all add: gc_step_inv)
  then show ?thesis by (simp add: gc_run_def gc_inv_init)
qed

text \<open>
  In every reachable state the evidence buffer and the state machine agree: the deadline is
  armed exactly while an episode is open, the buffer holds one candidate per counted observation,
  numbered in order of arrival, and its candidates carry the votes the machine has counted.
\<close>
theorem coordinator_evidence_invariant:
  "let s = gc_run evs; op = gc_operational s in
    gc_deadline_active s = confirmation_active op \<and>
    gc_evidence_count s = confirmation_observation_count op \<and>
    unat (gc_evidence_count s) = length (gathered s) \<and> length (gathered s) < 3 \<and>
    map observation_index (gathered s) = map of_nat [0..<length (gathered s)] \<and>
    confirmation_inside_votes op = of_nat (votes PermittedAreaRelation.kInside (map rc_relation (gathered s))) \<and>
    confirmation_outside_votes op = of_nat (votes PermittedAreaRelation.kOutside (map rc_relation (gathered s)))"
proof -
  obtain e where e: "evidence_matches (gc_run evs) e" using gc_run_inv [of evs] by (auto simp: gc_inv_def)
  show ?thesis using e matches_count [OF e] by (simp add: Let_def evidence_matches_def op_refines_def)
qed

lemma decided_votes:
  assumes "snd (spec_observe e r) = res" "episode e \<noteq> []" "length (episode e) < 3"
  shows "res = kConfirmedOutside \<or> res = kInitializedOutside \<Longrightarrow> PermittedAreaRelation.kOutside \<in> set (episode e @ [r])"
    and "res = kConfirmedInside \<or> res = kInitializedInside \<Longrightarrow> PermittedAreaRelation.kInside \<in> set (episode e @ [r])"
proof -
  have p: "q \<in> set es" if "2 \<le> votes q es" for q es
  proof (rule ccontr)
    assume "q \<notin> set es"
    then have "votes q es = 0" by (auto simp: votes_def filter_empty_conv)
    then show False using that by simp
  qed
  show "PermittedAreaRelation.kOutside \<in> set (episode e @ [r])" if "res = kConfirmedOutside \<or> res = kInitializedOutside"
    by (rule p) (use that assms in \<open>auto simp: spec_observe_def decide_def Let_def split: if_splits prod.splits\<close>)
  show "PermittedAreaRelation.kInside \<in> set (episode e @ [r])" if "res = kConfirmedInside \<or> res = kInitializedInside"
    by (rule p) (use that assms in \<open>auto simp: spec_observe_def decide_def Let_def split: if_splits prod.splits\<close>)
qed

text \<open>The winning relation of a deciding result.\<close>

definition winner :: "GeofenceOperationalResult \<Rightarrow> PermittedAreaRelation option" where
  "winner res =
     (if res = kConfirmedOutside \<or> res = kInitializedOutside then Some PermittedAreaRelation.kOutside
      else if res = kConfirmedInside \<or> res = kInitializedInside then Some PermittedAreaRelation.kInside
      else None)"

lemma winner_cases: "winner res = Some w \<Longrightarrow> w = PermittedAreaRelation.kInside \<or> w = PermittedAreaRelation.kOutside"
  by (auto simp: winner_def split: if_splits)

lemma chooseRepresentative_winner:
  "chooseRepresentative s res = (case winner res of None \<Rightarrow> None | Some w \<Rightarrow> selectRepresentative (Some (gathered s)) w)"
  by (simp add: chooseRepresentative_def winner_def gathered_def Let_def)

lemma choose_best:
  assumes idx: "map observation_index (gathered s) = map of_nat [0..<length (gathered s)]"
    and len: "length (gathered s) \<le> 3" and w: "winner res = Some w"
    and ex: "w \<in> set (map rc_relation (gathered s))"
  shows "\<exists>slot. chooseRepresentative s res = Some slot \<and> unat slot < length (gathered s) \<and>
    rc_relation (gathered s ! unat slot) = w \<and>
    (\<forall>c\<in>set (gathered s). rc_relation c = w \<longrightarrow> \<not> better_candidate c (gathered s ! unat slot))"
proof -
  have "\<exists>c\<in>set (gathered s). rc_relation c = w" using ex by auto
  then obtain b where b: "selectRepresentative (Some (gathered s)) w = Some (observation_index b)"
    "b \<in> set (gathered s)" "rc_relation b = w"
    "\<And>c. c \<in> set (gathered s) \<Longrightarrow> rc_relation c = w \<Longrightarrow> \<not> better_candidate c b"
    using selectRepresentative_best [OF winner_cases [OF w], of "gathered s"] by metis
  obtain k where k: "k < length (gathered s)" "gathered s ! k = b" using b(2) by (auto simp: in_set_conv_nth)
  have "observation_index b = of_nat k"
    using arg_cong [OF idx, of "\<lambda>l. l ! k"] k by simp
  then have "unat (observation_index b) = k" using k(1) len by (simp add: unat_of_nat)
  then show ?thesis using b k w by (auto simp: chooseRepresentative_winner)
qed

text \<open>The update produced by the tail, field by field.\<close>

lemma observe_relation_update:
  assumes "op_observe (gc_operational s) r = (op, res)"
  shows "operational_result (snd (observe_relation s r t h q u)) = res"
    and "outside_event_occurrence (snd (observe_relation s r t h q u)) = (res = kConfirmedOutside)"
    and "cadence_mode (snd (observe_relation s r t h q u)) = cadenceMode op"
    and "cadence_changed (snd (observe_relation s r t h q u)) = (cadenceMode op \<noteq> cadenceMode (gc_operational s))"
    and "confirmation_timed_out (snd (observe_relation s r t h q u)) = confirmation_timed_out u"
    and "geometry_result (snd (observe_relation s r t h q u)) = geometry_result u"
    and "gc_operational (fst (observe_relation s r t h q u)) = op"
    and "confirmation_active (gc_operational s) \<Longrightarrow> \<not> confirmation_active op \<Longrightarrow>
      (representative_available (snd (observe_relation s r t h q u)),
       representative_slot (snd (observe_relation s r t h q u))) =
      (case chooseRepresentative (addEpisodeEvidence (s\<lparr>gc_operational := op\<rparr>) r h q) res of
         None \<Rightarrow> (representative_available u, representative_slot u) | Some k \<Rightarrow> (True, k))"
    and "\<not> confirmation_active (gc_operational s) \<or> confirmation_active op \<Longrightarrow>
      representative_available (snd (observe_relation s r t h q u)) = representative_available u"
  by (simp_all add: observe_relation_def assms Let_def clearEpisodeEvidence_def addEpisodeEvidence_def
      split: option.split)

lemma op_idle_no_confirm:
  assumes "\<not> confirmation_active s" "has_confirmed_state s \<or> True"
  shows "snd (op_observe s r) \<notin> {kConfirmedOutside, kConfirmedInside, kInitializedOutside}"
  using assms by (auto simp: op_observe_def)

lemma spec_winner_closes:
  assumes "episode e \<noteq> []" "winner (snd (spec_observe e r)) \<noteq> None"
  shows "episode (fst (spec_observe e r)) = []"
  using assms by (auto simp: spec_observe_def winner_def Let_def split: if_splits prod.splits)

lemma located_cases:
  assumes o: "rt_observeAcceptedPosition (gc_runtime s) p t = (rt, g)"
    and u0: "u0 = GeofenceConfirmationUpdate_init\<lparr>cadence_mode := cadenceMode (gc_operational s), geometry_result := g\<rparr>"
  obtains (late) "confirmation_active (gc_operational s)" "gc_deadline_active s"
      "elapsed t (gc_started_at_ms s) kConfirmationDeadlineMs"
      "observeAcceptedLocation s p t h q =
        (fst (gc_abortConfirmation (s\<lparr>gc_runtime := rt\<rparr>)),
         u0\<lparr>confirmation_timed_out := snd (gc_abortConfirmation (s\<lparr>gc_runtime := rt\<rparr>)),
            cadence_mode := cadenceMode (gc_operational (fst (gc_abortConfirmation (s\<lparr>gc_runtime := rt\<rparr>))))\<rparr>)"
  | (unusable) "\<not> (confirmation_active (gc_operational s) \<and> gc_deadline_active s \<and>
        elapsed t (gc_started_at_ms s) kConfirmationDeadlineMs)" "g \<noteq> kAccepted"
      "observeAcceptedLocation s p t h q =
        (s\<lparr>gc_runtime := rt\<rparr>, u0\<lparr>request_additional_observation :=
           (confirmation_active (gc_operational s) \<and> g = GeofenceObservationResult.kInvalidPoint)\<rparr>)"
  | (evidence) "\<not> (confirmation_active (gc_operational s) \<and> gc_deadline_active s \<and>
        elapsed t (gc_started_at_ms s) kConfirmationDeadlineMs)" "g = kAccepted"
      "observeAcceptedLocation s p t h q =
        observe_relation (s\<lparr>gc_runtime := rt\<rparr>) (relation (rt_assessment rt)) t h q u0"
proof -
  let ?late = "confirmation_active (gc_operational s) \<and> gc_deadline_active s \<and>
    elapsed t (gc_started_at_ms s) kConfirmationDeadlineMs"
  consider "?late" | "\<not> ?late" "g \<noteq> kAccepted" | "\<not> ?late" "g = kAccepted" by blast
  then show thesis
  proof cases
    case 1
    then show ?thesis
      by (intro late) (simp_all add: observeAcceptedLocation_def o u0 Let_def case_prod_beta
          GeofenceConfirmationUpdate_init_def)
  next
    case 2
    then show ?thesis
      by (intro unusable) (auto simp: observeAcceptedLocation_def o u0 Let_def
          GeofenceConfirmationUpdate_init_def)
  next
    case 3
    then show ?thesis
      by (intro evidence) (auto simp: observeAcceptedLocation_def o u0 Let_def
          GeofenceConfirmationUpdate_init_def)
  qed
qed

lemma init_update_simps [simp]:
  "operational_result GeofenceConfirmationUpdate_init = kInvalidObservation"
  "representative_available GeofenceConfirmationUpdate_init = False"
  "outside_event_occurrence GeofenceConfirmationUpdate_init = False"
  "confirmation_timed_out GeofenceConfirmationUpdate_init = False"
  "cadence_changed GeofenceConfirmationUpdate_init = False"
  "episode_evidence_accepted GeofenceConfirmationUpdate_init = False"
  by (simp_all add: GeofenceConfirmationUpdate_init_def)

lemma winner_invalid [simp]: "winner kInvalidObservation = None"
  by (simp add: winner_def)

text \<open>
  Whenever an observation decides an episode, a representative fix is available: its slot is
  one of the episode's own observations, that observation carries the winning relation, and no
  other observation with that relation has a better quality (lower HDOP, then more satellites,
  then later arrival).
\<close>
theorem representative_is_best_evidence:
  assumes "s = gc_run evs" and "observeAcceptedLocation s p t h q = (s', u)"
    and "confirmation_active (gc_operational s)" and "winner (operational_result u) = Some w"
  shows "representative_available u \<and>
    (let fix = \<lparr>rc_relation = relation (rt_assessment (gc_runtime s')), hdop_x100 = h, satellites = q,
                observation_index = gc_evidence_count s\<rparr>;
         ev = gathered s @ [fix]; slot = unat (representative_slot u) in
     slot < length ev \<and> rc_relation (ev ! slot) = w \<and>
     (\<forall>c\<in>set ev. rc_relation c = w \<longrightarrow> \<not> better_candidate c (ev ! slot)))"
proof -
  obtain rt g where o: "rt_observeAcceptedPosition (gc_runtime s) p t = (rt, g)" by fastforce
  let ?s1 = "s\<lparr>gc_runtime := rt\<rparr>" and ?r = "relation (rt_assessment rt)"
  have "\<exists>u0. observe_relation ?s1 ?r t h q u0 = (s', u)"
    using assms(2,4) by (cases rule: located_cases [OF o refl, of h q]) auto
  then obtain u0 where u: "(s', u) = observe_relation ?s1 ?r t h q u0" by metis
  obtain e where m0: "evidence_matches s e" using gc_run_inv [of evs] assms(1) by (auto simp: gc_inv_def)
  then have m: "evidence_matches ?s1 e" by simp
  note c = matches_count [OF m]
  have ne: "episode e \<noteq> []" using c(5) assms(3) by simp
  obtain op res where op: "op_observe (gc_operational ?s1) ?r = (op, res)" by fastforce
  have rf: "op_refines (gc_operational ?s1) e" using m by (simp add: evidence_matches_def)
  have res: "res = snd (spec_observe e ?r)" and rf1: "op_refines op (fst (spec_observe e ?r))"
    using observe_refines [OF rf, of ?r] op by simp_all
  note up = observe_relation_update [OF op, of t h q u0]
  have w: "winner res = Some w" using assms(4) up(1) u by (metis snd_conv)
  have closed: "\<not> confirmation_active op"
    using spec_winner_closes [OF ne] w res rf1 by (simp add: op_refines_def)
  let ?s2 = "addEpisodeEvidence (?s1\<lparr>gc_operational := op\<rparr>) ?r h q"
  have gth: "gathered (?s1\<lparr>gc_operational := op\<rparr>) = gathered s" by (simp add: gathered_def)
  have z: "gc_evidence_count (?s1\<lparr>gc_operational := op\<rparr>) = of_nat (length (episode e))"
    "length (gc_evidence (?s1\<lparr>gc_operational := op\<rparr>)) = 3" using c(2) m by (simp_all add: evidence_matches_def)
  have mm: "map rc_relation (gathered (?s1\<lparr>gc_operational := op\<rparr>)) = episode e"
    "map observation_index (gathered (?s1\<lparr>gc_operational := op\<rparr>)) =
      map of_nat [0..<length (gathered (?s1\<lparr>gc_operational := op\<rparr>))]"
    using m0 unfolding gth by (simp_all add: evidence_matches_def)
  note ad = add_evidence [OF z(1) c(1) z(2), of ?r h q] and am = add_matches [OF mm z(1) c(1) z(2), of ?r h q]
  have "w \<in> set (map rc_relation (gathered ?s2))"
    using decided_votes [OF res [symmetric] ne c(1)] w unfolding am(1) winner_def by (auto split: if_splits)
  moreover have "length (gathered ?s2) \<le> 3" using arg_cong [OF am(1), of length] c(1) by simp
  ultimately obtain k where k: "chooseRepresentative ?s2 res = Some k" "unat k < length (gathered ?s2)"
    "rc_relation (gathered ?s2 ! unat k) = w"
    "\<forall>c\<in>set (gathered ?s2). rc_relation c = w \<longrightarrow> \<not> better_candidate c (gathered ?s2 ! unat k)"
    using choose_best [OF am(2) _ w] by blast
  have su: "s' = fst (observe_relation ?s1 ?r t h q u0)" "u = snd (observe_relation ?s1 ?r t h q u0)"
    using u by (metis fst_conv, metis snd_conv)
  have r: "representative_available u \<and> representative_slot u = k"
    using up(8) assms(3) closed k(1) unfolding su(2) by simp
  have rt': "gc_runtime s' = rt" by (simp add: su(1) observe_relation_runtime)
  have cnt: "gc_evidence_count s = of_nat (length (episode e))" using matches_count(2) [OF m0] .
  show ?thesis using r k(2-4) unfolding ad(1) gth rt' cnt Let_def by simp
qed

theorem representative_is_best_evidence_witness:
  "let s = gc_run [Configure (Some [Some sample_square]), Located (sample_point 500 500) 0 100 5,
       Located (sample_point 2000 0) 1000 150 6, Located (sample_point 2000 0) 2000 120 6];
     u = snd (observeAcceptedLocation s (sample_point 3000 0) 3000 120 7)
   in representative_available u \<and> operational_result u = kConfirmedOutside \<and> representative_slot u = 2"
proof -
  let ?evs = "[Configure (Some [Some sample_square]), Located (sample_point 500 500) 0 100 5,
     Located (sample_point 2000 0) 1000 150 6, Located (sample_point 2000 0) 2000 120 6]"
  have a: "confirmation_active (gc_operational (gc_run ?evs))" by code_simp
  have r: "operational_result (snd (observeAcceptedLocation (gc_run ?evs) (sample_point 3000 0) 3000 120 7)) = kConfirmedOutside \<and>
      representative_slot (snd (observeAcceptedLocation (gc_run ?evs) (sample_point 3000 0) 3000 120 7)) = 2" by code_simp
  then have w: "winner (operational_result (snd (observeAcceptedLocation (gc_run ?evs) (sample_point 3000 0) 3000 120 7))) =
      Some PermittedAreaRelation.kOutside" by (simp add: winner_def)
  show ?thesis using representative_is_best_evidence [OF refl surjective_pairing a w] r by (simp add: Let_def)
qed

text \<open>
  A late observation decides nothing.  When an observation captured at or after the 10-second
  deadline arrives in an open episode, the episode is closed, no evidence is taken, no result,
  representative or outside event is reported, and the confirmed state and the cadence stay.
\<close>
theorem late_observation_preserves_authority:
  assumes "s = gc_run evs" and "confirmation_active (gc_operational s)"
    and "t - gc_started_at_ms s \<ge> 10000"
    and "observeAcceptedLocation s p t h q = (s', u)"
  shows "confirmation_timed_out u \<and> operational_result u = kInvalidObservation \<and>
    \<not> episode_evidence_accepted u \<and> \<not> representative_available u \<and> \<not> outside_event_occurrence u \<and>
    \<not> cadence_changed u \<and> \<not> confirmation_active (gc_operational s') \<and>
    gathered s' = [] \<and> \<not> gc_deadline_active s' \<and>
    getConfirmedState (gc_operational s') = getConfirmedState (gc_operational s) \<and>
    cadence_mode u = cadenceMode (gc_operational s)"
proof -
  obtain rt g where o: "rt_observeAcceptedPosition (gc_runtime s) p t = (rt, g)" by fastforce
  obtain e where m0: "evidence_matches s e" using gc_run_inv [of evs] assms(1) by (auto simp: gc_inv_def)
  then have m: "evidence_matches (s\<lparr>gc_runtime := rt\<rparr>) e" by simp
  have d: "gc_deadline_active s" using m0 matches_count(5) [OF m0] assms(2) by (simp add: evidence_matches_def)
  have l: "elapsed t (gc_started_at_ms s) kConfirmationDeadlineMs"
    using assms(3) by (simp add: elapsed_def kConfirmationDeadlineMs_def)
  note ab = abort_matches [OF m]
  note c1 = matches_count [OF ab(1)] and c0 = matches_count [OF m0]
  let ?s2 = "fst (gc_abortConfirmation (s\<lparr>gc_runtime := rt\<rparr>))"
  have cad: "cadenceMode x = (if getConfirmedState x = Some kOutside then kBaseDividedBy3 else kBase)" for x
    by (simp add: cadenceMode_def getConfirmedState_def)
  have eq: "s' = ?s2 \<and> u = (GeofenceConfirmationUpdate_init\<lparr>cadence_mode := cadenceMode (gc_operational s), geometry_result := g\<rparr>)
      \<lparr>confirmation_timed_out := snd (gc_abortConfirmation (s\<lparr>gc_runtime := rt\<rparr>)),
       cadence_mode := cadenceMode (gc_operational ?s2)\<rparr>"
    using assms(2,4) d l by (cases rule: located_cases [OF o refl, of h q]) auto
  show ?thesis
    using eq ab(1,2) c1 c0 assms(2) by (auto simp: cad evidence_matches_def)
qed

theorem late_observation_preserves_authority_witness:
  "confirmation_timed_out (snd (observeAcceptedLocation
     (gc_run [Configure (Some [Some sample_square]), Located (sample_point 2000 0) 1000 150 6])
     (sample_point 3000 0) 11000 120 7))"
proof -
  let ?s = "gc_run [Configure (Some [Some sample_square]), Located (sample_point 2000 0) 1000 150 6]"
  have "confirmation_active (gc_operational ?s)" "11000 - gc_started_at_ms ?s \<ge> 10000" by code_simp+
  from late_observation_preserves_authority [OF refl this surjective_pairing] show ?thesis by blast
qed

text \<open>
  The outside event is reported exactly when the confirmed state goes from INSIDE to OUTSIDE, and
  a cadence change exactly when the mode the new confirmed state asks for differs from the old one;
  discovering OUTSIDE for the first time after a boot or a reconfiguration is no event.
\<close>
theorem outside_event_exact:
  assumes "s = gc_run evs" and "observeAcceptedLocation s p t h q = (s', u)"
  shows "(outside_event_occurrence u \<longleftrightarrow>
      getConfirmedState (gc_operational s) = Some kInside \<and> getConfirmedState (gc_operational s') = Some kOutside) \<and>
    (cadence_changed u \<longleftrightarrow> cadenceMode (gc_operational s') \<noteq> cadenceMode (gc_operational s)) \<and>
    cadence_mode u = cadenceMode (gc_operational s')"
proof -
  obtain rt g where o: "rt_observeAcceptedPosition (gc_runtime s) p t = (rt, g)" by fastforce
  obtain e where m0: "evidence_matches s e" using gc_run_inv [of evs] assms(1) by (auto simp: gc_inv_def)
  then have m: "evidence_matches (s\<lparr>gc_runtime := rt\<rparr>) e" by simp
  have cad: "cadenceMode x = (if getConfirmedState x = Some kOutside then kBaseDividedBy3 else kBase)" for x
    by (simp add: cadenceMode_def getConfirmedState_def)
  let ?s2 = "fst (gc_abortConfirmation (s\<lparr>gc_runtime := rt\<rparr>))"
  have same: "getConfirmedState (gc_operational ?s2) = getConfirmedState (gc_operational s)"
    using matches_count(6) [OF abort_matches(1) [OF m]] matches_count(6) [OF m0] by simp
  show ?thesis
  proof (cases rule: located_cases [OF o refl, of h q])
    case 1
    then show ?thesis using assms(2) same by (auto simp: cad)
  next
    case 2
    then show ?thesis using assms(2) by auto
  next
    case 3
    let ?r = "relation (rt_assessment rt)"
    obtain op res where op: "op_observe (gc_operational (s\<lparr>gc_runtime := rt\<rparr>)) ?r = (op, res)" by fastforce
    note up = observe_relation_update [OF op]
    have rf: "op_refines (gc_operational s) e" using m0 by (simp add: evidence_matches_def)
    have r1: "op_refines op (fst (spec_observe e ?r))" and r2: "res = snd (spec_observe e ?r)"
      using observe_refines [OF rf, of ?r] op by simp_all
    have "res = kConfirmedOutside \<longleftrightarrow>
        authority e = Some kInside \<and> authority (fst (spec_observe e ?r)) = Some kOutside"
      unfolding r2 by (cases "authority e"; cases "the (authority e)")
        (auto simp: spec_observe_def decide_def Let_def split: if_splits)
    then have ev: "res = kConfirmedOutside \<longleftrightarrow> getConfirmedState (gc_operational s) = Some kInside \<and>
        getConfirmedState op = Some kOutside"
      using r1 rf by (simp add: op_refines_def)
    define X where "X = observe_relation (s\<lparr>gc_runtime := rt\<rparr>) ?r t h q
      (GeofenceConfirmationUpdate_init\<lparr>cadence_mode := cadenceMode (gc_operational s), geometry_result := g\<rparr>)"
    have "X = (s', u)" using 3(3) assms(2) by (simp add: X_def)
    then have "s' = fst X" "u = snd X" by simp_all
    then show ?thesis using ev by (simp add: X_def up)
  qed
qed

theorem outside_event_exact_witness:
  "\<not> outside_event_occurrence (snd (observeAcceptedLocation
     (gc_run [Configure (Some [Some sample_square]), Located (sample_point 2000 0) 0 150 6, Located (sample_point 2000 0) 1000 150 6])
     (sample_point 3000 0) 2000 120 7))"
proof -
  let ?s = "gc_run [Configure (Some [Some sample_square]), Located (sample_point 2000 0) 0 150 6, Located (sample_point 2000 0) 1000 150 6]"
  have "getConfirmedState (gc_operational ?s) \<noteq> Some kInside" by code_simp
  then show ?thesis using outside_event_exact [of ?s, OF refl surjective_pairing] by blast
qed

end
