(* ===== verification/Journal_Format.thy ===== *)
theory Journal_Format
  imports Crc32 Tlp_Packets
begin

text \<open>
  \<open>firmware/include/journal_format.h\<close> and \<open>firmware/src/journal_format.cpp\<close>: byte order
  helpers, the CRC seal and the page, sequence, state and record slots of the position journal.
  A pointer into a buffer is the buffer and an offset.  The decoders return an option; what the
  code leaves in the out-parameters of a failed decode is not modelled (no caller reads it).
\<close>

section \<open>Byte order helpers\<close>

definition put16 :: "bytes \<Rightarrow> nat \<Rightarrow> u16 \<Rightarrow> bytes" where
  "put16 p off v = p[off + 1 := ucast v, off := ucast (drop_bit 8 v)]"

definition put_loop :: "nat \<Rightarrow> bytes \<Rightarrow> nat \<Rightarrow> 'a::len word \<Rightarrow> bytes" where
  "put_loop n p off v =
     fst (fold (\<lambda>i (p, v). (p[off + i := ucast v], drop_bit 8 v)) (rev [0..<n]) (p, v))"

definition put32 :: "bytes \<Rightarrow> nat \<Rightarrow> u32 \<Rightarrow> bytes" where "put32 p off v = put_loop 4 p off v"
definition put64 :: "bytes \<Rightarrow> nat \<Rightarrow> u64 \<Rightarrow> bytes" where "put64 p off v = put_loop 8 p off v"

definition get16 :: "bytes \<Rightarrow> nat \<Rightarrow> u16" where
  "get16 p off = push_bit 8 (ucast (p ! off)) OR ucast (p ! (off + 1))"

definition get32 :: "bytes \<Rightarrow> nat \<Rightarrow> u32" where
  "get32 p off = fold (\<lambda>i v. push_bit 8 v OR ucast (p ! (off + i))) [0..<4] 0"

definition get64 :: "bytes \<Rightarrow> nat \<Rightarrow> u64" where
  "get64 p off = fold (\<lambda>i v. push_bit 8 v OR ucast (p ! (off + i))) [0..<8] 0"

definition erased :: "bytes \<Rightarrow> nat \<Rightarrow> nat \<Rightarrow> bool" where
  "erased p off n \<longleftrightarrow> list_all (\<lambda>i. p ! (off + i) = 0xFF) [0..<n]"

lemma put16_eq [be_simps]: "off + 2 \<le> length p \<Longrightarrow> put16 p off v = write_at off (be_bytes 2 v) p"
  unfolding put16_def be_bytes_2
  by (intro nth_equalityI) (auto simp: nth_write_at nth_list_update nth_Cons')

lemma put_loop_state:
  "k \<le> n \<Longrightarrow> off + n \<le> length p \<Longrightarrow>
   fold (\<lambda>i (p, v). (p[off + i := ucast v], drop_bit 8 v)) (rev [n - k..<n]) (p, v) =
     (write_at (off + (n - k)) (map (\<lambda>i. ucast (drop_bit (8 * (n - 1 - i)) v)) [n - k..<n]) p, drop_bit (8 * k) v)"
  for p :: bytes
proof (induction k)
  case 0
  show ?case by (simp add: write_at_def)
next
  case (Suc k)
  let ?f = "\<lambda>i. ucast (drop_bit (8 * (n - 1 - i)) v) :: u8"
  have up: "[n - Suc k..<n] = (n - Suc k) # [n - k..<n]"
    using Suc.prems by (simp add: upt_conv_Cons Suc_diff_Suc)
  have "(write_at (off + (n - k)) (map ?f [n - k..<n]) p)[off + (n - Suc k) := ucast (drop_bit (8 * k) v)] =
      write_at (off + (n - Suc k)) (map ?f [n - Suc k..<n]) p"
    using Suc.prems
    by (intro nth_equalityI) (auto simp: nth_write_at nth_list_update up nth_Cons' Suc_diff_Suc)
  then show ?case using Suc by (simp add: up drop_bit_drop_bit add.commute)
qed

lemma put_loop_eq: "off + n \<le> length p \<Longrightarrow> put_loop n p off v = write_at off (be_bytes n v) p"
  using put_loop_state [of n n off p v] by (simp add: put_loop_def be_bytes_def)

lemma put32_eq [be_simps]: "off + 4 \<le> length p \<Longrightarrow> put32 p off v = write_at off (be_bytes 4 v) p"
  by (simp add: put32_def put_loop_eq)

lemma put64_eq [be_simps]: "off + 8 \<le> length p \<Longrightarrow> put64 p off v = write_at off (be_bytes 8 v) p"
  by (simp add: put64_def put_loop_eq)

lemma get16_eq [be_simps]: "off + 2 \<le> length p \<Longrightarrow> get16 p off = be_val (slice off 2 p)"
  by (simp only: get16_def slice_2 be_val_2)

lemma get32_eq [be_simps]: "off + 4 \<le> length p \<Longrightarrow> get32 p off = be_val (slice off 4 p)"
  unfolding get32_def be_val_def by (rule fold_slice)

lemma get64_eq [be_simps]: "off + 8 \<le> length p \<Longrightarrow> get64 p off = be_val (slice off 8 p)"
  unfolding get64_def be_val_def by (rule fold_slice)

lemma erased_iff: "erased p off n \<longleftrightarrow> (\<forall>i<n. p ! (off + i) = 0xFF)"
  by (auto simp: erased_def list_all_iff)

section \<open>The CRC seal\<close>

definition kCommit :: u32 where "kCommit = 0"

definition seal :: "bytes \<Rightarrow> nat \<Rightarrow> nat \<Rightarrow> bytes" where
  "seal p crc commit =
     (let p = put32 p crc (journal_crc32 (take crc p)) in put32 p commit kCommit)"

definition sealed :: "bytes \<Rightarrow> nat \<Rightarrow> nat \<Rightarrow> bool" where
  "sealed p crc commit \<longleftrightarrow> get32 p commit = kCommit \<and> get32 p crc = journal_crc32 (take crc p)"

lemma length_seal [simp, buffer_simps]:
  "c + 4 \<le> m \<Longrightarrow> m + 4 \<le> length p \<Longrightarrow> length (seal p c m) = length p"
  by (simp add: seal_def Let_def be_simps)

lemma seal_body [buffer_simps]:
  "c + 4 \<le> m \<Longrightarrow> m + 4 \<le> length p \<Longrightarrow> off + n \<le> c \<Longrightarrow> slice off n (seal p c m) = slice off n p"
  by (simp add: seal_def Let_def be_simps buffer_simps)

lemma nth_seal_body [buffer_simps]:
  "c + 4 \<le> m \<Longrightarrow> m + 4 \<le> length p \<Longrightarrow> i < c \<Longrightarrow> seal p c m ! i = p ! i"
  by (simp add: seal_def Let_def be_simps buffer_simps)

lemma take_slice: "take n xs = slice 0 n xs"
  by (simp add: slice_def)

lemma sealed_seal:
  assumes "c + 8 \<le> length p"
  shows "sealed (seal p c (c + 4)) c (c + 4)"
proof -
  have "take c (seal p c (c + 4)) = take c p"
    using assms by (simp add: take_slice seal_body)
  then show ?thesis using assms
    by (simp add: sealed_def seal_def Let_def be_simps buffer_simps take_slice)
qed

lemma slice_eqD:
  assumes "slice off n xs = slice off n ys" "i < n" "off + n \<le> length xs" "off + n \<le> length ys"
  shows "xs ! (off + i) = ys ! (off + i)"
  using arg_cong [OF assms(1), of "\<lambda>l. l ! i"] assms(2-) by simp

lemma sealed_byte_change:
  assumes "sealed p c (c + 4)" and "c + 8 \<le> length p" and "i < c + 8" and "v \<noteq> p ! i"
  shows "\<not> sealed (p[i := v]) c (c + 4)"
proof
  assume s: "sealed (p[i := v]) c (c + 4)"
  have commit: "get32 p (c + 4) = get32 (p[i := v]) (c + 4)"
    using assms(1) s by (simp add: sealed_def)
  then have ct: "slice (c + 4) 4 p = slice (c + 4) 4 (p[i := v])"
    using assms(2) by (simp add: be_simps be_val_inj [where ?'a = 32])
  have ni: "\<not> c + 4 \<le> i"
  proof
    assume "c + 4 \<le> i"
    moreover from this have "i - (c + 4) < 4" using assms(3) by linarith
    ultimately show False using slice_eqD [OF ct, of "i - (c + 4)"] assms(2-4) by auto
  qed
  show False
  proof (cases "i < c")
    case True
    then have "slice c 4 (p[i := v]) = slice c 4 p" by (simp add: slice_update_after)
    then have "get32 (p[i := v]) c = get32 p c" using assms(2) by (simp add: be_simps)
    moreover have "take c (p[i := v]) = (take c p)[i := v]" by (simp add: take_update_swap)
    ultimately have "journal_crc32 ((take c p)[i := v]) = journal_crc32 (take c p)"
      using assms(1) s by (simp add: sealed_def)
    then show False using journal_crc32_byte_change [of i "take c p" v] True assms(2,4) by simp
  next
    case False
    then have "take c (p[i := v]) = take c p" by simp
    then have "get32 p c = get32 (p[i := v]) c" using assms(1) s by (simp add: sealed_def)
    then have "slice c 4 p = slice c 4 (p[i := v])"
      using assms(2) by (simp add: be_simps be_val_inj [where ?'a = 32])
    moreover have "i - c < 4" using False ni by linarith
    ultimately show False using slice_eqD [of c 4 p "p[i := v]" "i - c"] False assms(2-4) by auto
  qed
qed

section \<open>Headers and slots\<close>

definition kPageMagic :: u32 where "kPageMagic = 0x4F524A34"
definition kVersion :: u8 where "kVersion = 4"
definition kStaticHeaderSize :: nat where "kStaticHeaderSize = 64"
definition kSequenceSlotSize :: nat where "kSequenceSlotSize = 16"
definition kStateSlotSize :: nat where "kStateSlotSize = 32"
definition kRecordSize :: nat where "kRecordSize = 36"
definition kSequenceBlockSize :: u64 where "kSequenceBlockSize = 256"

definition memset :: "bytes \<Rightarrow> nat \<Rightarrow> u8 \<Rightarrow> nat \<Rightarrow> bytes" where
  "memset p off v n = write_at off (replicate n v) p"

definition looksLikeJournalHeader :: "bytes \<Rightarrow> bool" where
  "looksLikeJournalHeader p =
     (let m = [0x4F, 0x52, 0x4A, 0x34] in
      list_all (\<lambda>i. p ! i = 0xFF \<or> p ! i = m ! i) [0..<4] \<and> list_ex (\<lambda>i. p ! i \<noteq> 0xFF) [0..<4])"

record JournalRecord =
  identity :: u64
  packet :: bytes

record JournalState =
  st_generation :: u64
  delivered_through :: u64
  replay_cursor :: u64

definition validPacket :: "bytes \<Rightarrow> u64 \<Rightarrow> u64 \<Rightarrow> bool" where
  "validPacket p ident device \<longleftrightarrow> ident \<noteq> 0 \<and>
     (case deserializePositionPacket (Some p) of None \<Rightarrow> False
      | Some d \<Rightarrow> source_device_id d = device \<and> sequence_number d = ucast (ident - 1) \<and>
          flags d AND kPositionFlagValidFix \<noteq> 0 \<and>
          (flags d AND kPositionFlagValidUtcTime \<noteq> 0 \<or> gnss_utc_epoch_seconds d = 0))"

definition encodePage :: "u64 \<Rightarrow> u64 \<Rightarrow> u64 \<Rightarrow> bytes \<Rightarrow> bytes" where
  "encodePage gen dev incarnation p =
     (let p = memset p 0 0 kStaticHeaderSize; p = put32 p 0 kPageMagic; p = p[4 := kVersion];
          p = put64 p 8 gen; p = put64 p 16 dev; p = put64 p 24 incarnation
      in seal p 56 60)"

definition decodePage :: "bytes \<Rightarrow> u64 \<Rightarrow> (u64 \<times> u64) option" where
  "decodePage p dev =
     (if get32 p 0 \<noteq> kPageMagic \<or> p ! 4 \<noteq> kVersion \<or> p ! 5 \<noteq> 0 \<or> p ! 6 \<noteq> 0 \<or> p ! 7 \<noteq> 0 \<or>
         get64 p 16 \<noteq> dev \<or> get64 p 8 = 0 \<or> get64 p 24 = 0 \<or> \<not> sealed p 56 60 then None
      else if list_ex (\<lambda>i. p ! i \<noteq> 0) [32..<56] then None
      else Some (get64 p 8, get64 p 24))"

definition encodeSequenceEnd :: "u64 \<Rightarrow> bytes \<Rightarrow> bytes" where
  "encodeSequenceEnd e p = (let p = memset p 0 0 kSequenceSlotSize; p = put64 p 0 e in seal p 8 12)"

definition decodeSequenceEnd :: "bytes \<Rightarrow> u64 option" where
  "decodeSequenceEnd p =
     (if sealed p 8 12 \<and> get64 p 0 \<noteq> 0 \<and> get64 p 0 mod kSequenceBlockSize = 0
      then Some (get64 p 0) else None)"

definition encodeState :: "JournalState \<Rightarrow> bytes \<Rightarrow> bytes" where
  "encodeState s p =
     (let p = memset p 0 0 kStateSlotSize; p = put64 p 0 (st_generation s);
          p = put64 p 8 (delivered_through s); p = put64 p 16 (replay_cursor s)
      in seal p 24 28)"

definition decodeState :: "bytes \<Rightarrow> JournalState option" where
  "decodeState p =
     (if \<not> sealed p 24 28 \<or> get64 p 0 = 0 then None
      else Some \<lparr>st_generation = get64 p 0, delivered_through = get64 p 8, replay_cursor = get64 p 16\<rparr>)"

text \<open>
  The packet structure \<open>deserializePositionPacket\<close> leaves behind: zero when the header is wrong,
  the raw fields otherwise, even when its final range check fails.
\<close>

definition zero_packet :: PositionPacket where
  "zero_packet = \<lparr>source_device_id = 0, sequence_number = 0, gnss_utc_epoch_seconds = 0,
     pos_latitude_e7 = 0, pos_longitude_e7 = 0, altitude_mm = 0, hdop_x100 = 0, satellites = 0, flags = 0\<rparr>"

definition packet_fields :: "bytes \<Rightarrow> PositionPacket" where
  "packet_fields inp =
     (if length inp \<noteq> kPositionPacketSize \<or> inp ! 0 \<noteq> kProtocolVersion \<or> inp ! 1 \<noteq> kPacketTypePosition
      then zero_packet
      else \<lparr>source_device_id = readU64BigEndian inp 2, sequence_number = readU32BigEndian inp 10,
            gnss_utc_epoch_seconds = readU32BigEndian inp 14, pos_latitude_e7 = readU32BigEndian inp 18,
            pos_longitude_e7 = readU32BigEndian inp 22, altitude_mm = readU32BigEndian inp 26,
            hdop_x100 = readU16BigEndian inp 30, satellites = inp ! 32, flags = inp ! 33\<rparr>)"

definition encodeRecord :: "JournalRecord \<Rightarrow> bytes \<Rightarrow> bytes" where
  "encodeRecord r p =
     (let d = packet_fields (packet r); p = memset p 0 0 kRecordSize;
          p = put32 p 0 (sequence_number d); p = put32 p 4 (gnss_utc_epoch_seconds d);
          p = put32 p 8 (pos_latitude_e7 d); p = put32 p 12 (pos_longitude_e7 d);
          p = put32 p 16 (altitude_mm d); p = put16 p 20 (hdop_x100 d);
          p = p[22 := satellites d, 23 := flags d];
          p = put32 p 24 (ucast (drop_bit 32 (identity r - 1)))
      in seal p 28 32)"

definition decodeRecord :: "bytes \<Rightarrow> u64 \<Rightarrow> JournalRecord option" where
  "decodeRecord p dev =
     (if \<not> sealed p 28 32 then None
      else
        let d = \<lparr>source_device_id = dev, sequence_number = get32 p 0, gnss_utc_epoch_seconds = get32 p 4,
                 pos_latitude_e7 = get32 p 8, pos_longitude_e7 = get32 p 12, altitude_mm = get32 p 16,
                 hdop_x100 = get16 p 20, satellites = p ! 22, flags = p ! 23\<rparr>;
            ticket = push_bit 32 (ucast (get32 p 24)) OR ucast (sequence_number d)
        in
        if ticket = UINT64_MAX then None
        else case serializePositionPacket d (Some (replicate kPositionPacketSize 0)) of
          None \<Rightarrow> None
        | Some pk \<Rightarrow> if validPacket pk (ticket + 1) dev
                     then Some \<lparr>identity = ticket + 1, packet = pk\<rparr> else None)"

lemmas journal_sizes = kStaticHeaderSize_def kSequenceSlotSize_def kStateSlotSize_def kRecordSize_def
  tlp_sizes

lemma length_memset [simp, buffer_simps]: "length (memset p off v n) = length p"
  by (simp add: memset_def)

lemma nth_memset [buffer_simps]: "i < n \<Longrightarrow> n \<le> length p \<Longrightarrow> memset p 0 v n ! i = v"
  by (simp add: memset_def nth_write_at)

lemma sequence_end_roundtrip:
  assumes "length p = 16" "e \<noteq> 0" "e mod 256 = 0"
  shows "decodeSequenceEnd (encodeSequenceEnd e p) = Some e"
proof -
  have "sealed (encodeSequenceEnd e p) 8 12"
    using sealed_seal [of 8] assms by (simp add: encodeSequenceEnd_def Let_def be_simps)
  moreover have "get64 (encodeSequenceEnd e p) 0 = e"
    using assms by (simp add: encodeSequenceEnd_def Let_def be_simps buffer_simps)
  ultimately show ?thesis using assms by (simp add: decodeSequenceEnd_def kSequenceBlockSize_def)
qed

lemma state_roundtrip:
  assumes "length p = 32" "st_generation s \<noteq> 0"
  shows "decodeState (encodeState s p) = Some s"
proof -
  have "sealed (encodeState s p) 24 28"
    using sealed_seal [of 24] assms by (simp add: encodeState_def Let_def be_simps)
  moreover have "get64 (encodeState s p) 0 = st_generation s" "get64 (encodeState s p) 8 = delivered_through s"
    "get64 (encodeState s p) 16 = replay_cursor s"
    using assms by (simp_all add: encodeState_def Let_def be_simps buffer_simps)
  ultimately show ?thesis using assms(2) by (simp add: decodeState_def)
qed


lemma page_roundtrip:
  assumes "length p = 64" "gen \<noteq> 0" "incarnation \<noteq> 0"
  shows "decodePage (encodePage gen dev incarnation p) dev = Some (gen, incarnation)"
proof -
  let ?e = "encodePage gen dev incarnation p"
  have "sealed ?e 56 60"
    using sealed_seal [of 56] assms by (simp add: encodePage_def Let_def be_simps kStaticHeaderSize_def)
  moreover have "get32 ?e 0 = kPageMagic" "get64 ?e 8 = gen" "get64 ?e 16 = dev" "get64 ?e 24 = incarnation"
    "?e ! 4 = kVersion" "?e ! 5 = 0" "?e ! 6 = 0" "?e ! 7 = 0"
    using assms by (simp_all add: encodePage_def Let_def be_simps buffer_simps kStaticHeaderSize_def)
  moreover have "?e ! i = 0" if "32 \<le> i" "i < 56" for i
    using that assms by (simp add: encodePage_def Let_def be_simps buffer_simps kStaticHeaderSize_def)
  ultimately show ?thesis using assms by (auto simp: decodePage_def list_ex_iff)
qed

lemma ticket_split: "push_bit 32 (ucast (ucast (drop_bit 32 w) :: u32)) OR ucast (ucast w :: u32) = (w :: u64)"
  by (rule bit_word_eqI) (auto simp: bit_simps)

lemma position_ok_fields: "deserializePositionPacket (Some q) = Some d \<Longrightarrow> packet_fields q = d"
  by (auto simp: deserializePositionPacket_def packet_fields_def Let_def split: if_splits)

lemma encodeRecord_sealed: "length p = 36 \<Longrightarrow> sealed (encodeRecord r p) 28 32"
  using sealed_seal [of 28] by (simp add: encodeRecord_def Let_def be_simps kRecordSize_def)

lemma encodeRecord_fields:
  assumes "length p = 36" and "packet_fields (packet r) = d"
  shows "get32 (encodeRecord r p) 0 = sequence_number d"
    "get32 (encodeRecord r p) 4 = gnss_utc_epoch_seconds d"
    "get32 (encodeRecord r p) 8 = pos_latitude_e7 d"
    "get32 (encodeRecord r p) 12 = pos_longitude_e7 d"
    "get32 (encodeRecord r p) 16 = altitude_mm d"
    "get16 (encodeRecord r p) 20 = hdop_x100 d"
    "encodeRecord r p ! 22 = satellites d" "encodeRecord r p ! 23 = flags d"
    "get32 (encodeRecord r p) 24 = ucast (drop_bit 32 (identity r - 1))"
  using assms(1) by (simp_all add: encodeRecord_def assms(2) Let_def be_simps buffer_simps kRecordSize_def)

lemma length_encodeRecord: "length p = 36 \<Longrightarrow> length (encodeRecord r p) = 36"
  by (simp add: encodeRecord_def Let_def be_simps buffer_simps kRecordSize_def)

lemma record_slot_roundtrip:
  assumes "validPacket (packet r) (identity r) dev" and "length p = kRecordSize"
  shows "decodeRecord (encodeRecord r p) dev = Some r"
proof -
  let ?e = "encodeRecord r p"
  obtain d where d: "deserializePositionPacket (Some (packet r)) = Some d" "source_device_id d = dev"
    "sequence_number d = ucast (identity r - 1)" and id0: "identity r \<noteq> 0"
    using assms(1) by (auto simp: validPacket_def split: option.splits)
  have f: "packet_fields (packet r) = d" using d(1) by (rule position_ok_fields)
  have len: "length p = 36" using assms(2) by (simp add: kRecordSize_def)
  note g = encodeRecord_fields [OF len f]
  have rec: "\<lparr>source_device_id = dev, sequence_number = get32 ?e 0, gnss_utc_epoch_seconds = get32 ?e 4,
      pos_latitude_e7 = get32 ?e 8, pos_longitude_e7 = get32 ?e 12, altitude_mm = get32 ?e 16,
      hdop_x100 = get16 ?e 20, satellites = ?e ! 22, flags = ?e ! 23\<rparr> = d"
    unfolding g d(2) [symmetric] by simp
  have t: "push_bit 32 (ucast (get32 ?e 24)) OR ucast (sequence_number d) = identity r - 1"
    unfolding g d(3) by (rule ticket_split)
  have ne: "identity r - 1 \<noteq> UINT64_MAX"
  proof
    assume "identity r - 1 = UINT64_MAX"
    then have "identity r = UINT64_MAX + 1" by (metis diff_add_cancel)
    then show False using id0 by simp
  qed
  have ser: "serializePositionPacket d (Some (replicate kPositionPacketSize 0)) = Some (packet r)"
    using position_canonical [OF d(1), of "replicate kPositionPacketSize 0"] by (simp add: kPositionPacketSize_def)
  show ?thesis
    using encodeRecord_sealed [OF len, of r] ne ser assms(1)
    unfolding decodeRecord_def rec by (simp add: Let_def t)
qed

text \<open>
  A record slot is lossless: every valid journal record, whose packet is stored without its
  constant header and device identity and whose identity is stored without its low half, is read
  back exactly as it was written.
\<close>
theorem journal_record_roundtrip:
  assumes "validPacket (packet r) (identity r) dev" and "length p = kRecordSize"
  shows "decodeRecord (encodeRecord r p) dev = Some r"
  by (rule record_slot_roundtrip [OF assms])

definition journal_sample_position :: PositionPacket where
  "journal_sample_position = \<lparr>source_device_id = 0x1122334455667788, sequence_number = 6,
     gnss_utc_epoch_seconds = 1700000000, pos_latitude_e7 = 241000000, pos_longitude_e7 = 452000000,
     altitude_mm = 612000, hdop_x100 = 110, satellites = 9, flags = 7\<rparr>"

definition journal_sample_record :: JournalRecord where
  "journal_sample_record = \<lparr>identity = 0x500000007,
     packet = the (serializePositionPacket journal_sample_position (Some (replicate 34 0)))\<rparr>"

theorem journal_record_roundtrip_witness:
  "decodeRecord (encodeRecord journal_sample_record (replicate 36 0xFF)) 0x1122334455667788 = Some journal_sample_record"
proof (rule journal_record_roundtrip)
  show "validPacket (packet journal_sample_record) (identity journal_sample_record) 0x1122334455667788" by code_simp
  show "length (replicate 36 (0xFF :: u8)) = kRecordSize" by (simp add: kRecordSize_def)
qed

text \<open>
  A damaged record slot is never read as a record: after changing any single byte of a sealed slot -
  a data byte, a reserved byte, a checksum byte or a byte of the commit word - the decoder rejects it.
\<close>
theorem journal_record_corruption_rejected:
  assumes "length p = kRecordSize" and "sealed p 28 32" and "i < kRecordSize" and "v \<noteq> p ! i"
  shows "decodeRecord (p[i := v]) dev = None"
proof -
  have "\<not> sealed (p[i := v]) 28 (28 + 4)"
    by (rule sealed_byte_change) (use assms in \<open>simp_all add: kRecordSize_def\<close>)
  then show ?thesis by (simp add: decodeRecord_def)
qed

theorem journal_record_corruption_rejected_witness:
  "decodeRecord ((encodeRecord journal_sample_record (replicate 36 0xFF))[22 := 0xAA]) 0x1122334455667788 = None"
proof (rule journal_record_corruption_rejected)
  let ?e = "encodeRecord journal_sample_record (replicate 36 0xFF)"
  have len: "length (replicate 36 (0xFF :: u8)) = 36" by simp
  show "length ?e = kRecordSize" using length_encodeRecord [OF len] by (simp add: kRecordSize_def)
  show "sealed ?e 28 32" by (rule encodeRecord_sealed [OF len])
  have "packet_fields (packet journal_sample_record) = journal_sample_position" by code_simp
  from encodeRecord_fields(7) [OF len this] show "0xAA \<noteq> ?e ! 22" by (simp add: journal_sample_position_def)
qed (simp add: kRecordSize_def)

end
