(* ===== verification/Geofence_Format.thy ===== *)
theory Geofence_Format
  imports Journal_Format Geofence_Runtime
begin

text \<open>
  \<open>firmware/include/geofence_format.h\<close> and \<open>firmware/src/geofence_format.cpp\<close>: the durable
  564-byte record of one complete permitted-area resource, its encoder and decoders, and the
  classification of what a flash page holds.  A snapshot's two fixed arrays are lists of length
  8 and 64 (\<open>snapshot_shape\<close>).
\<close>

definition gf_kMagic :: u32 where "gf_kMagic = 0x4F524731"
definition gf_kVersion :: u8 where "gf_kVersion = 1"
definition gf_kCommit :: u32 where "gf_kCommit = 0"
definition kErasedWord :: u32 where "kErasedWord = UINT32_MAX"
definition gf_kMaximumAreas :: nat where "gf_kMaximumAreas = 8"
definition gf_kMaximumTotalVertices :: nat where "gf_kMaximumTotalVertices = 64"
definition kPayloadSize :: u16 where "kPayloadSize = 520"
definition kStateOffset :: nat where "kStateOffset = 28"
definition kAreaCountOffset :: nat where "kAreaCountOffset = 29"
definition kTotalVertexCountOffset :: nat where "kTotalVertexCountOffset = 30"
definition kPayloadSizeOffset :: nat where "kPayloadSizeOffset = 32"
definition kAreaVertexCountsOffset :: nat where "kAreaVertexCountsOffset = 36"
definition kVerticesOffset :: nat where "kVerticesOffset = 44"
definition kCrcOffset :: nat where "kCrcOffset = 556"
definition kCommitOffset :: nat where "kCommitOffset = 560"
definition gf_kRecordSize :: nat where "gf_kRecordSize = 564"

lemmas gf_layout = gf_kMaximumAreas_def gf_kMaximumTotalVertices_def kPayloadSize_def kStateOffset_def
  kAreaCountOffset_def kTotalVertexCountOffset_def kPayloadSizeOffset_def kAreaVertexCountsOffset_def
  kVerticesOffset_def kCrcOffset_def kCommitOffset_def gf_kRecordSize_def

datatype ResourceState = kClear | kConfigured

record StateToken =
  incarnation :: u64
  revision :: u32

record Snapshot =
  sn_state :: ResourceState
  sn_area_count :: u8
  sn_total_vertex_count :: u16
  sn_area_vertex_counts :: "u8 list"
  sn_vertices :: "GeoPointE7 list"

record GeofenceRecord =
  gr_generation :: u64
  gr_token :: StateToken
  gr_snapshot :: Snapshot

datatype PageEvidence =
  kErased | kStaged | kUncommittedOrTorn | kPartialCommit | kCommittedClear | kCommittedConfigured
  | kCommittedCorrupt | kUnsupportedNewer | kSupportedCorrupt

record PageInspection =
  evidence :: PageEvidence
  decoded :: "GeofenceRecord option"

definition zero_point :: GeoPointE7 where "zero_point = \<lparr>latitude_e7 = 0, longitude_e7 = 0\<rparr>"

definition Snapshot_init :: Snapshot where
  "Snapshot_init = \<lparr>sn_state = kClear, sn_area_count = 0, sn_total_vertex_count = 0,
     sn_area_vertex_counts = replicate 8 0, sn_vertices = replicate 64 zero_point\<rparr>"

definition makeClearSnapshot :: Snapshot where "makeClearSnapshot = Snapshot_init"

definition pointIsZero :: "GeoPointE7 \<Rightarrow> bool" where
  "pointIsZero p \<longleftrightarrow> latitude_e7 p = 0 \<and> longitude_e7 p = 0"

text \<open>The area loop of \<open>snapshotValid\<close>; it yields the vertex sum, or nothing on a rejection.\<close>

fun check_areas :: "Snapshot \<Rightarrow> nat list \<Rightarrow> u16 \<Rightarrow> u16 \<Rightarrow> u16 option" where
  "check_areas s [] acc offset = Some acc"
| "check_areas s (area # rest) acc offset =
     (let count = sn_area_vertex_counts s ! area in
      if area \<ge> unat (sn_area_count s) then
        (if count \<noteq> 0 then None else check_areas s rest acc offset)
      else if unat count < 3 \<or> unat count > kMaximumPolygonVertices then None
      else if unat acc > gf_kMaximumTotalVertices - unat count then None
      else
        let polygon = Some (slice (unat offset) (unat count) (sn_vertices s)) in
        if effectiveGeofenceVertexCount polygon \<noteq> unat count then None
        else if validateGeofencePolygon polygon \<noteq> kOk then None
        else check_areas s rest (acc + ucast count) (offset + ucast count))"

definition snapshotValid :: "Snapshot \<Rightarrow> bool" where
  "snapshotValid s =
     (if sn_state s = kClear then
        sn_area_count s = 0 \<and> sn_total_vertex_count s = 0 \<and>
        list_all (\<lambda>i. sn_area_vertex_counts s ! i = 0) [0..<gf_kMaximumAreas] \<and>
        list_all (\<lambda>i. pointIsZero (sn_vertices s ! i)) [0..<gf_kMaximumTotalVertices]
      else if sn_area_count s = 0 \<or> unat (sn_area_count s) > gf_kMaximumAreas \<or>
              sn_total_vertex_count s = 0 \<or> unat (sn_total_vertex_count s) > gf_kMaximumTotalVertices
      then False
      else case check_areas s [0..<gf_kMaximumAreas] 0 0 of
        None \<Rightarrow> False
      | Some acc \<Rightarrow>
          acc = sn_total_vertex_count s \<and>
          list_all (\<lambda>i. pointIsZero (sn_vertices s ! i))
            [unat (sn_total_vertex_count s)..<gf_kMaximumTotalVertices])"

definition recordValid :: "GeofenceRecord \<Rightarrow> bool" where
  "recordValid r \<longleftrightarrow> gr_generation r \<noteq> 0 \<and> incarnation (gr_token r) \<noteq> 0 \<and> revision (gr_token r) \<noteq> 0 \<and>
     snapshotValid (gr_snapshot r)"

definition wordErased :: "bytes \<Rightarrow> nat \<Rightarrow> bool" where
  "wordErased b off \<longleftrightarrow> b ! off = 0xFF \<and> b ! (off + 1) = 0xFF \<and> b ! (off + 2) = 0xFF \<and> b ! (off + 3) = 0xFF"

fun prefix_scan :: "bytes \<Rightarrow> nat list \<Rightarrow> bool \<Rightarrow> bool \<Rightarrow> bool" where
  "prefix_scan b [] saw_programmed saw_erased_tail = (saw_programmed \<and> saw_erased_tail)"
| "prefix_scan b (off # rest) saw_programmed saw_erased_tail =
     (if wordErased b off then prefix_scan b rest saw_programmed (saw_programmed \<or> saw_erased_tail)
      else if saw_erased_tail then False
      else prefix_scan b rest True saw_erased_tail)"

definition programmedPrefixWithErasedTail :: "bytes \<Rightarrow> nat \<Rightarrow> bool" where
  "programmedPrefixWithErasedTail b n =
     (if n mod 4 \<noteq> 0 then False else prefix_scan b (map ((*) 4) [0..<n div 4]) False False)"

definition unsupportedNewerDiscriminator :: "bytes \<Rightarrow> bool" where
  "unsupportedNewerDiscriminator b =
     (if get32 b 0 \<noteq> gf_kMagic then False
      else let version = b ! 4 in
        if version = gf_kVersion \<or> version = 0xFF then False
        else b ! 5 = 0 \<and> b ! 6 = 0 \<and> b ! 7 = 0 \<and> version AND 0x03 = 0)"

text \<open>The copy loop of \<open>canonicalizeConfiguredAreaSet\<close>.\<close>

fun canonicalize_areas :: "GeofencePolygonView list \<Rightarrow> nat \<Rightarrow> u16 \<Rightarrow> Snapshot \<Rightarrow> (u16 \<times> Snapshot) option" where
  "canonicalize_areas [] area acc c = Some (acc, c)"
| "canonicalize_areas (polygon # rest) area acc c =
     (if validateGeofencePolygon polygon \<noteq> kOk then None
      else
        let effective = effectiveGeofenceVertexCount polygon;
            points = (case polygon of None \<Rightarrow> [] | Some vs \<Rightarrow> vs) in
        if effective < 3 \<or> effective > kMaximumPolygonVertices \<or>
           int (unat acc) > int gf_kMaximumTotalVertices - int effective then None
        else canonicalize_areas rest (area + 1) (of_nat (unat acc + effective))
          (c\<lparr>sn_area_vertex_counts := (sn_area_vertex_counts c)[area := of_nat effective],
             sn_vertices := fold (\<lambda>v vs. vs[unat acc + v := points ! v]) [0..<effective] (sn_vertices c)\<rparr>))"

definition canonicalizeConfiguredAreaSet :: "GeofenceAreaSetView \<Rightarrow> Snapshot option" where
  "canonicalizeConfiguredAreaSet area_set =
     (case area_set of None \<Rightarrow> None
      | Some areas \<Rightarrow>
        if areas = [] \<or> length areas > gf_kMaximumAreas then None
        else case canonicalize_areas areas 0 0
               (Snapshot_init\<lparr>sn_state := kConfigured, sn_area_count := of_nat (length areas)\<rparr>) of
          None \<Rightarrow> None
        | Some (acc, c) \<Rightarrow>
            let c = c\<lparr>sn_total_vertex_count := acc\<rparr> in if snapshotValid c then Some c else None)"

definition state_byte :: "ResourceState \<Rightarrow> u8" where
  "state_byte s = (case s of kClear \<Rightarrow> 0 | kConfigured \<Rightarrow> 1)"

definition put_vertices :: "bytes \<Rightarrow> GeoPointE7 list \<Rightarrow> nat \<Rightarrow> bytes \<times> nat" where
  "put_vertices b vs n =
     fold (\<lambda>v (b, offset).
         (put32 (put32 b offset (latitude_e7 (vs ! v))) (offset + 4) (longitude_e7 (vs ! v)), offset + 8))
       [0..<n] (b, kVerticesOffset)"

definition gf_encode :: "GeofenceRecord \<Rightarrow> bytes option \<Rightarrow> bytes option" where
  "gf_encode r bytes =
     (case bytes of None \<Rightarrow> None
      | Some b \<Rightarrow>
        if length b < gf_kRecordSize \<or> \<not> recordValid r then None
        else
          let s = gr_snapshot r;
              b = memset b 0 0 gf_kRecordSize;
              b = put32 b 0 gf_kMagic;
              b = b[4 := gf_kVersion];
              b = put64 b 8 (gr_generation r);
              b = put64 b 16 (incarnation (gr_token r));
              b = put32 b 24 (revision (gr_token r));
              b = b[kStateOffset := state_byte (sn_state s)];
              b = b[kAreaCountOffset := sn_area_count s];
              b = put16 b kTotalVertexCountOffset (sn_total_vertex_count s);
              b = put16 b kPayloadSizeOffset kPayloadSize;
              b = fold (\<lambda>area b. b[kAreaVertexCountsOffset + area := sn_area_vertex_counts s ! area])
                    [0..<gf_kMaximumAreas] b;
              b = fst (put_vertices b (sn_vertices s) gf_kMaximumTotalVertices);
              b = put32 b kCrcOffset (journal_crc32 (take kCrcOffset b))
          in Some (put32 b kCommitOffset gf_kCommit))"

definition decodeBody :: "bytes option \<Rightarrow> GeofenceRecord option" where
  "decodeBody bytes =
     (case bytes of None \<Rightarrow> None
      | Some b \<Rightarrow>
        if length b < gf_kRecordSize then None
        else if get32 b 0 \<noteq> gf_kMagic \<or> b ! 4 \<noteq> gf_kVersion \<or> b ! 5 \<noteq> 0 \<or> b ! 6 \<noteq> 0 \<or> b ! 7 \<noteq> 0 then None
        else if b ! 34 \<noteq> 0 \<or> b ! 35 \<noteq> 0 then None
        else if get16 b kPayloadSizeOffset \<noteq> kPayloadSize then None
        else if get32 b kCrcOffset \<noteq> journal_crc32 (take kCrcOffset b) then None
        else if get64 b 8 = 0 \<or> get64 b 16 = 0 \<or> get32 b 24 = 0 then None
        else if b ! kStateOffset > 1 then None
        else
          let candidate =
            \<lparr>gr_generation = get64 b 8,
             gr_token = \<lparr>incarnation = get64 b 16, revision = get32 b 24\<rparr>,
             gr_snapshot =
               \<lparr>sn_state = (if b ! kStateOffset = 0 then kClear else kConfigured),
                sn_area_count = b ! kAreaCountOffset,
                sn_total_vertex_count = get16 b kTotalVertexCountOffset,
                sn_area_vertex_counts = map (\<lambda>area. b ! (kAreaVertexCountsOffset + area)) [0..<gf_kMaximumAreas],
                sn_vertices = map (\<lambda>v. \<lparr>latitude_e7 = get32 b (kVerticesOffset + 8 * v),
                                         longitude_e7 = get32 b (kVerticesOffset + 8 * v + 4)\<rparr>)
                                [0..<gf_kMaximumTotalVertices]\<rparr>\<rparr>
          in if recordValid candidate then Some candidate else None)"

definition gf_decode :: "bytes option \<Rightarrow> GeofenceRecord option" where
  "gf_decode bytes =
     (case bytes of None \<Rightarrow> None
      | Some b \<Rightarrow>
        if length b < gf_kRecordSize \<or> get32 b kCommitOffset \<noteq> gf_kCommit then None
        else decodeBody (Some b))"

definition inspectPage :: "bytes option \<Rightarrow> PageInspection option" where
  "inspectPage bytes =
     (case bytes of None \<Rightarrow> None
      | Some b \<Rightarrow>
        if length b < gf_kRecordSize then None
        else if erased b 0 gf_kRecordSize then Some \<lparr>evidence = kErased, decoded = None\<rparr>
        else if get32 b 0 = gf_kMagic \<and> b ! 4 = gf_kVersion then
          (let body = decodeBody (Some b); commit = get32 b kCommitOffset in
           if commit = kErasedWord then
             Some \<lparr>evidence = (if body \<noteq> None then kStaged else kUncommittedOrTorn), decoded = body\<rparr>
           else if commit = gf_kCommit then
             (case body of None \<Rightarrow> Some \<lparr>evidence = kCommittedCorrupt, decoded = None\<rparr>
              | Some r \<Rightarrow> Some \<lparr>evidence = (if sn_state (gr_snapshot r) = kClear then kCommittedClear
                                         else kCommittedConfigured), decoded = body\<rparr>)
           else if body \<noteq> None then Some \<lparr>evidence = kPartialCommit, decoded = body\<rparr>
           else Some \<lparr>evidence = kSupportedCorrupt, decoded = None\<rparr>)
        else if programmedPrefixWithErasedTail b gf_kRecordSize
        then Some \<lparr>evidence = kSupportedCorrupt, decoded = None\<rparr>
        else if unsupportedNewerDiscriminator b then Some \<lparr>evidence = kUnsupportedNewer, decoded = None\<rparr>
        else Some \<lparr>evidence = kSupportedCorrupt, decoded = None\<rparr>)"

definition isAuthoritativeCommitted :: "PageEvidence \<Rightarrow> bool" where
  "isAuthoritativeCommitted e \<longleftrightarrow> e = kCommittedClear \<or> e = kCommittedConfigured"

definition conflictingCommittedIncarnations :: "PageInspection \<Rightarrow> PageInspection \<Rightarrow> bool" where
  "conflictingCommittedIncarnations a b =
     (case (decoded a, decoded b) of
        (Some r, Some q) \<Rightarrow> isAuthoritativeCommitted (evidence a) \<and> isAuthoritativeCommitted (evidence b) \<and>
          incarnation (gr_token r) \<noteq> incarnation (gr_token q)
      | _ \<Rightarrow> False)"

section \<open>The one encoding of a record\<close>

definition snapshot_shape :: "Snapshot \<Rightarrow> bool" where
  "snapshot_shape s \<longleftrightarrow> length (sn_area_vertex_counts s) = 8 \<and> length (sn_vertices s) = 64"

definition vertex_bytes :: "GeoPointE7 \<Rightarrow> bytes" where
  "vertex_bytes p = be_bytes 4 (latitude_e7 p) @ be_bytes 4 (longitude_e7 p)"

definition body_bytes :: "GeofenceRecord \<Rightarrow> bytes" where
  "body_bytes r =
     be_bytes 4 gf_kMagic @ [gf_kVersion, 0, 0, 0] @ be_bytes 8 (gr_generation r) @
     be_bytes 8 (incarnation (gr_token r)) @ be_bytes 4 (revision (gr_token r)) @
     [state_byte (sn_state (gr_snapshot r)), sn_area_count (gr_snapshot r)] @
     be_bytes 2 (sn_total_vertex_count (gr_snapshot r)) @ be_bytes 2 kPayloadSize @ [0, 0] @
     sn_area_vertex_counts (gr_snapshot r) @ concat (map vertex_bytes (sn_vertices (gr_snapshot r)))"

definition record_bytes :: "GeofenceRecord \<Rightarrow> bytes" where
  "record_bytes r = body_bytes r @ be_bytes 4 (journal_crc32 (body_bytes r)) @ be_bytes 4 gf_kCommit"

lemma length_vertex_bytes [simp]: "length (vertex_bytes p) = 8"
  by (simp add: vertex_bytes_def)

lemma length_concat_vertices [simp]: "length (concat (map vertex_bytes vs)) = 8 * length vs"
  by (induction vs) simp_all

lemma length_body_bytes: "snapshot_shape (gr_snapshot r) \<Longrightarrow> length (body_bytes r) = 556"
  by (simp add: body_bytes_def snapshot_shape_def)

lemma length_record_bytes: "snapshot_shape (gr_snapshot r) \<Longrightarrow> length (record_bytes r) = 564"
  by (simp add: record_bytes_def length_body_bytes)

lemma put_vertices_eq:
  "n \<le> length vs \<Longrightarrow> 44 + 8 * n \<le> length b \<Longrightarrow>
   put_vertices b vs n = (write_at 44 (concat (map vertex_bytes (take n vs))) b, 44 + 8 * n)"
proof (induction n)
  case 0
  show ?case by (simp add: put_vertices_def kVerticesOffset_def write_at_def)
next
  case (Suc n)
  let ?w = "write_at 44 (concat (map vertex_bytes (take n vs))) b" and ?p = "vs ! n"
  have IH: "put_vertices b vs n = (?w, 44 + 8 * n)" using Suc by simp
  have "put_vertices b vs (Suc n) =
      (put32 (put32 ?w (44 + 8 * n) (latitude_e7 ?p)) (44 + 8 * n + 4) (longitude_e7 ?p), 44 + 8 * n + 8)"
    using IH by (simp add: put_vertices_def)
  also have "put32 (put32 ?w (44 + 8 * n) (latitude_e7 ?p)) (44 + 8 * n + 4) (longitude_e7 ?p) =
      write_at (44 + 8 * n) (vertex_bytes ?p) ?w"
    using Suc.prems write_at_append [of "44 + 8 * n" "be_bytes 4 (latitude_e7 ?p)" "be_bytes 4 (longitude_e7 ?p)" ?w]
    by (simp add: be_simps vertex_bytes_def)
  also have "\<dots> = write_at 44 (concat (map vertex_bytes (take n vs)) @ vertex_bytes ?p) b"
    using Suc.prems write_at_append [of 44 "concat (map vertex_bytes (take n vs))" "vertex_bytes ?p" b] by simp
  also have "concat (map vertex_bytes (take n vs)) @ vertex_bytes ?p = concat (map vertex_bytes (take (Suc n) vs))"
    using Suc.prems by (simp add: take_Suc_conv_app_nth)
  finally show ?case by simp
qed

lemma put_counts_eq:
  assumes "snapshot_shape s" "44 \<le> length b"
  shows "fold (\<lambda>area b. b[36 + area := sn_area_vertex_counts s ! area]) [0..<8] b =
    write_at 36 (sn_area_vertex_counts s) b"
proof -
  have "map ((!) (sn_area_vertex_counts s)) [0..<8] = sn_area_vertex_counts s"
    using assms(1) map_nth [of "sn_area_vertex_counts s"] by (simp add: snapshot_shape_def)
  then show ?thesis using assms fold_update_eq_write_at [of 36 8 b "\<lambda>i. sn_area_vertex_counts s ! i"]
    by simp
qed

text \<open>A buffer is determined by its consecutive segments.\<close>

lemma segments_564:
  "slice 0 556 b = slice 0 4 b @ slice 4 4 b @ slice 8 8 b @ slice 16 8 b @ slice 24 4 b @ slice 28 2 b @
     slice 30 2 b @ slice 32 2 b @ slice 34 2 b @ slice 36 8 b @ slice 44 512 b"
  "slice 0 564 b = slice 0 556 b @ slice 556 4 b @ slice 560 4 b"
  by (simp_all add: slice_join')

lemma encode_segments:
  assumes "recordValid r" "snapshot_shape (gr_snapshot r)" "564 \<le> length b"
  shows "\<exists>e. gf_encode r (Some b) = Some e \<and> length e = length b \<and> slice 0 564 e = record_bytes r \<and>
    drop 564 e = drop 564 b"
proof -
  let ?s = "gr_snapshot r"
  define b1 where "b1 = (let b = memset b 0 0 gf_kRecordSize;
              b = put32 b 0 gf_kMagic;
              b = b[4 := gf_kVersion];
              b = put64 b 8 (gr_generation r);
              b = put64 b 16 (incarnation (gr_token r));
              b = put32 b 24 (revision (gr_token r));
              b = b[kStateOffset := state_byte (sn_state ?s)];
              b = b[kAreaCountOffset := sn_area_count ?s];
              b = put16 b kTotalVertexCountOffset (sn_total_vertex_count ?s);
              b = put16 b kPayloadSizeOffset kPayloadSize in
              write_at 44 (concat (map vertex_bytes (sn_vertices ?s))) (write_at 36 (sn_area_vertex_counts ?s) b))"
  have len1: "length b1 = length b"
    using assms(3) by (simp add: b1_def Let_def be_simps gf_layout)
  have shape: "length (sn_area_vertex_counts ?s) = 8" "length (sn_vertices ?s) = 64"
    using assms(2) by (simp_all add: snapshot_shape_def)
  have seg: "slice 0 4 b1 = be_bytes 4 gf_kMagic" "slice 8 8 b1 = be_bytes 8 (gr_generation r)"
    "slice 16 8 b1 = be_bytes 8 (incarnation (gr_token r))" "slice 24 4 b1 = be_bytes 4 (revision (gr_token r))"
    "slice 30 2 b1 = be_bytes 2 (sn_total_vertex_count ?s)" "slice 32 2 b1 = be_bytes 2 kPayloadSize"
    "slice 36 8 b1 = sn_area_vertex_counts ?s" "slice 44 512 b1 = concat (map vertex_bytes (sn_vertices ?s))"
    using assms(3) shape by (simp_all add: b1_def Let_def be_simps buffer_simps gf_layout)
  have small: "slice 4 4 b1 = [gf_kVersion, 0, 0, 0]" "slice 28 2 b1 = [state_byte (sn_state ?s), sn_area_count ?s]"
    "slice 34 2 b1 = [0, 0]"
    using assms(3) shape len1
    by (simp_all add: slice_4 slice_2) (simp_all add: b1_def Let_def be_simps buffer_simps gf_layout)
  have body: "slice 0 556 b1 = body_bytes r"
    unfolding segments_564(1) seg small body_bytes_def by simp
  let ?e = "put32 (put32 b1 556 (journal_crc32 (body_bytes r))) 560 gf_kCommit"
  have "take 556 b1 = body_bytes r" using body by (simp add: take_slice)
  moreover have "gf_encode r (Some b) = Some (put32 (put32 b1 556 (journal_crc32 (take 556 b1))) 560 gf_kCommit)"
    using assms shape
    by (simp add: gf_encode_def Let_def b1_def put_counts_eq put_vertices_eq gf_layout be_simps)
  ultimately have "gf_encode r (Some b) = Some ?e" by simp
  moreover have "slice 0 564 ?e = record_bytes r"
    unfolding segments_564(2) using assms(3) len1 body
    by (simp add: be_simps buffer_simps record_bytes_def)
  moreover have "length ?e = length b" using assms(3) len1 by (simp add: be_simps)
  moreover have "drop 564 ?e = drop 564 b"
  proof (rule nth_equalityI)
    show "length (drop 564 ?e) = length (drop 564 b)" using assms(3) len1 by (simp add: be_simps)
    fix i assume "i < length (drop 564 ?e)"
    then have "564 + i < length b" using assms(3) len1 by (simp add: be_simps)
    then show "drop 564 ?e ! i = drop 564 b ! i"
      using assms(3) shape len1
      by (simp add: be_simps nth_write_at b1_def Let_def gf_layout memset_def)
  qed
  ultimately show ?thesis by blast
qed

section \<open>Decoding is the exact inverse\<close>

definition point_at :: "bytes \<Rightarrow> nat \<Rightarrow> GeoPointE7" where
  "point_at b off = \<lparr>latitude_e7 = get32 b off, longitude_e7 = get32 b (off + 4)\<rparr>"

lemma point_at_vertex:
  assumes "off + 8 \<le> length b"
  shows "slice off 8 b = vertex_bytes p \<longleftrightarrow> point_at b off = p"
proof -
  have "slice off 8 b = slice off 4 b @ slice (off + 4) 4 b" using assms by (simp add: slice_join)
  moreover have "slice off 4 b = be_bytes 4 (latitude_e7 p) \<longleftrightarrow> get32 b off = latitude_e7 p"
    using assms by (simp add: get32_eq be_eq_iff)
  moreover have "slice (off + 4) 4 b = be_bytes 4 (longitude_e7 p) \<longleftrightarrow> get32 b (off + 4) = longitude_e7 p"
    using assms by (simp add: get32_eq be_eq_iff)
  ultimately show ?thesis using assms
    by (cases p) (simp add: vertex_bytes_def point_at_def)
qed

lemma vertices_iff:
  "length vs = n \<Longrightarrow> off + 8 * n \<le> length b \<Longrightarrow>
   slice off (8 * n) b = concat (map vertex_bytes vs) \<longleftrightarrow> map (\<lambda>v. point_at b (off + 8 * v)) [0..<n] = vs"
proof (induction n arbitrary: vs)
  case (Suc n)
  obtain ws p where vs: "vs = ws @ [p]" "length ws = n" using Suc.prems(1) by (cases vs rule: rev_exhaust) auto
  have "slice off (8 * Suc n) b = slice off (8 * n) b @ slice (off + 8 * n) 8 b"
    by (simp add: slice_join add.commute)
  moreover have "slice off (8 * n) b @ slice (off + 8 * n) 8 b = concat (map vertex_bytes ws) @ vertex_bytes p \<longleftrightarrow>
      slice off (8 * n) b = concat (map vertex_bytes ws) \<and> slice (off + 8 * n) 8 b = vertex_bytes p"
    using Suc.prems vs by (intro append_eq_append_conv) simp
  ultimately show ?case
    using Suc.IH [OF vs(2)] Suc.prems(2) vs point_at_vertex [of "off + 8 * n" b p] by simp
qed (simp add: slice_def)

lemma state_byte_inverse [simp]: "(if state_byte s = 0 then kClear else kConfigured) = s" "\<not> state_byte s > 1"
  by (cases s; simp add: state_byte_def)+

lemma state_byte_of: "\<not> x > 1 \<Longrightarrow> state_byte (if x = 0 then kClear else kConfigured) = (x :: u8)"
proof -
  assume "\<not> x > 1"
  then have "unat x \<le> 1" by (simp add: word_less_nat_alt)
  then have "x = 0 \<or> x = 1" by (metis One_nat_def le_Suc_eq le_zero_eq unat_1 unat_eq_zero word_unat_eq_iff)
  then show ?thesis by (auto simp: state_byte_def)
qed

lemma body_segments:
  assumes "564 \<le> length b" "snapshot_shape (gr_snapshot r)"
  shows "slice 0 556 b = body_bytes r \<longleftrightarrow>
    slice 0 4 b = be_bytes 4 gf_kMagic \<and> slice 4 4 b = [gf_kVersion, 0, 0, 0] \<and>
    slice 8 8 b = be_bytes 8 (gr_generation r) \<and> slice 16 8 b = be_bytes 8 (incarnation (gr_token r)) \<and>
    slice 24 4 b = be_bytes 4 (revision (gr_token r)) \<and>
    slice 28 2 b = [state_byte (sn_state (gr_snapshot r)), sn_area_count (gr_snapshot r)] \<and>
    slice 30 2 b = be_bytes 2 (sn_total_vertex_count (gr_snapshot r)) \<and>
    slice 32 2 b = be_bytes 2 kPayloadSize \<and> slice 34 2 b = [0, 0] \<and>
    slice 36 8 b = sn_area_vertex_counts (gr_snapshot r) \<and>
    slice 44 512 b = concat (map vertex_bytes (sn_vertices (gr_snapshot r)))"
proof -
  have "length (sn_area_vertex_counts (gr_snapshot r)) = 8" "length (sn_vertices (gr_snapshot r)) = 64"
    using assms(2) by (simp_all add: snapshot_shape_def)
  then show ?thesis using assms(1)
    unfolding segments_564(1) body_bytes_def by (simp add: append_eq_append_conv del: append_Cons)
qed

lemma body_fields:
  assumes "564 \<le> length b" "snapshot_shape (gr_snapshot r)"
  shows "slice 0 556 b = body_bytes r \<longleftrightarrow>
    get32 b 0 = gf_kMagic \<and> b ! 4 = gf_kVersion \<and> b ! 5 = 0 \<and> b ! 6 = 0 \<and> b ! 7 = 0 \<and>
    get64 b 8 = gr_generation r \<and> get64 b 16 = incarnation (gr_token r) \<and>
    get32 b 24 = revision (gr_token r) \<and>
    b ! 28 = state_byte (sn_state (gr_snapshot r)) \<and> b ! 29 = sn_area_count (gr_snapshot r) \<and>
    get16 b 30 = sn_total_vertex_count (gr_snapshot r) \<and> get16 b 32 = kPayloadSize \<and>
    b ! 34 = 0 \<and> b ! 35 = 0 \<and>
    map (\<lambda>area. b ! (36 + area)) [0..<8] = sn_area_vertex_counts (gr_snapshot r) \<and>
    map (\<lambda>v. point_at b (44 + 8 * v)) [0..<64] = sn_vertices (gr_snapshot r)"
proof -
  have l: "length (sn_vertices (gr_snapshot r)) = 64" using assms(2) by (simp add: snapshot_shape_def)
  have v: "slice 44 512 b = concat (map vertex_bytes (sn_vertices (gr_snapshot r))) \<longleftrightarrow>
      map (\<lambda>v. point_at b (44 + 8 * v)) [0..<64] = sn_vertices (gr_snapshot r)"
    using vertices_iff [OF l, of 44 b] assms(1) by simp
  have c: "slice 36 8 b = map (\<lambda>area. b ! (36 + area)) [0..<8]"
    using assms(1) by (intro slice_eq_map) simp
  have s: "slice 4 4 b = [b ! 4, b ! 5, b ! 6, b ! 7]" "slice 28 2 b = [b ! 28, b ! 29]" "slice 34 2 b = [b ! 34, b ! 35]"
    using assms(1) by (simp_all add: slice_4 slice_2)
  have e: "slice 0 4 b = be_bytes 4 gf_kMagic \<longleftrightarrow> get32 b 0 = gf_kMagic"
    "slice 8 8 b = be_bytes 8 (gr_generation r) \<longleftrightarrow> get64 b 8 = gr_generation r"
    "slice 16 8 b = be_bytes 8 (incarnation (gr_token r)) \<longleftrightarrow> get64 b 16 = incarnation (gr_token r)"
    "slice 24 4 b = be_bytes 4 (revision (gr_token r)) \<longleftrightarrow> get32 b 24 = revision (gr_token r)"
    "slice 30 2 b = be_bytes 2 (sn_total_vertex_count (gr_snapshot r)) \<longleftrightarrow> get16 b 30 = sn_total_vertex_count (gr_snapshot r)"
    "slice 32 2 b = be_bytes 2 kPayloadSize \<longleftrightarrow> get16 b 32 = kPayloadSize"
    using assms(1) by (simp_all add: be_eq_iff get16_eq get32_eq get64_eq)
  show ?thesis unfolding body_segments [OF assms] v c s e by auto
qed

lemma decodeBody_iff:
  assumes "564 \<le> length b"
  shows "decodeBody (Some b) = Some r \<longleftrightarrow>
    recordValid r \<and> snapshot_shape (gr_snapshot r) \<and>
    slice 0 560 b = body_bytes r @ be_bytes 4 (journal_crc32 (body_bytes r))"
proof
  assume d: "decodeBody (Some b) = Some r"
  then have f: "get32 b 0 = gf_kMagic" "b ! 4 = gf_kVersion" "b ! 5 = 0" "b ! 6 = 0" "b ! 7 = 0"
    "b ! 34 = 0" "b ! 35 = 0" "get16 b 32 = kPayloadSize" "get32 b 556 = journal_crc32 (take 556 b)"
    "\<not> b ! 28 > 1" "recordValid r"
    and r: "r = \<lparr>gr_generation = get64 b 8, gr_token = \<lparr>incarnation = get64 b 16, revision = get32 b 24\<rparr>,
       gr_snapshot = \<lparr>sn_state = (if b ! 28 = 0 then kClear else kConfigured), sn_area_count = b ! 29,
          sn_total_vertex_count = get16 b 30, sn_area_vertex_counts = map (\<lambda>area. b ! (36 + area)) [0..<8],
          sn_vertices = map (\<lambda>v. point_at b (44 + 8 * v)) [0..<64]\<rparr>\<rparr>"
    by (simp_all add: decodeBody_def gf_layout Let_def point_at_def split: if_splits)
  have shape: "snapshot_shape (gr_snapshot r)" by (simp add: r snapshot_shape_def)
  have "slice 0 556 b = body_bytes r"
    unfolding body_fields [OF assms shape] using f by (simp add: r state_byte_of)
  moreover from this have "slice 556 4 b = be_bytes 4 (journal_crc32 (body_bytes r))"
    using f(9) assms by (simp add: take_slice get32_eq be_eq_iff)
  ultimately show "recordValid r \<and> snapshot_shape (gr_snapshot r) \<and>
      slice 0 560 b = body_bytes r @ be_bytes 4 (journal_crc32 (body_bytes r))"
    using f(11) shape slice_join' [of 0 556 556 b 4] by simp
next
  assume a: "recordValid r \<and> snapshot_shape (gr_snapshot r) \<and>
      slice 0 560 b = body_bytes r @ be_bytes 4 (journal_crc32 (body_bytes r))"
  then have shape: "snapshot_shape (gr_snapshot r)" and v: "recordValid r" by simp_all
  have "slice 0 556 b @ slice 556 4 b = body_bytes r @ be_bytes 4 (journal_crc32 (body_bytes r))"
    using a slice_join' [of 0 556 556 b 4] by simp
  then have body: "slice 0 556 b = body_bytes r" and crc: "slice 556 4 b = be_bytes 4 (journal_crc32 (body_bytes r))"
    using length_body_bytes [OF shape] assms by (auto simp: append_eq_append_conv)
  note f = body [unfolded body_fields [OF assms shape]]
  have c: "get32 b 556 = journal_crc32 (take 556 b)"
    using crc assms body by (simp add: take_slice get32_eq be_eq_iff)
  have g: "gr_generation r \<noteq> 0" "incarnation (gr_token r) \<noteq> 0" "revision (gr_token r) \<noteq> 0"
    using v by (simp_all add: recordValid_def)
  let ?C = "\<lparr>gr_generation = get64 b 8, gr_token = \<lparr>incarnation = get64 b 16, revision = get32 b 24\<rparr>,
       gr_snapshot = \<lparr>sn_state = (if b ! 28 = 0 then kClear else kConfigured), sn_area_count = b ! 29,
          sn_total_vertex_count = get16 b 30, sn_area_vertex_counts = map (\<lambda>area. b ! (36 + area)) [0..<8],
          sn_vertices = map (\<lambda>v. point_at b (44 + 8 * v)) [0..<64]\<rparr>\<rparr>"
  have r: "?C = r" using f by simp
  have h: "get32 b 0 = gf_kMagic" "b ! 4 = gf_kVersion" "b ! 5 = 0" "b ! 6 = 0" "b ! 7 = 0" "b ! 34 = 0"
    "b ! 35 = 0" "get16 b 32 = kPayloadSize" "get64 b 8 \<noteq> 0" "get64 b 16 \<noteq> 0" "get32 b 24 \<noteq> 0" "\<not> b ! 28 > 1"
    using f g by simp_all
  have "decodeBody (Some b) = (if recordValid ?C then Some ?C else None)"
    using h c assms by (simp add: decodeBody_def gf_layout Let_def point_at_def)
  then show "decodeBody (Some b) = Some r" using v unfolding r by simp
qed

lemma decode_iff:
  assumes "564 \<le> length b"
  shows "gf_decode (Some b) = Some r \<longleftrightarrow>
    recordValid r \<and> snapshot_shape (gr_snapshot r) \<and> slice 0 564 b = record_bytes r"
proof -
  have "slice 0 564 b = slice 0 560 b @ slice 560 4 b" by (simp add: slice_join')
  moreover have "get32 b 560 = gf_kCommit \<longleftrightarrow> slice 560 4 b = be_bytes 4 gf_kCommit"
    using assms by (simp add: get32_eq be_eq_iff)
  moreover have "slice 0 560 b @ slice 560 4 b = (body_bytes r @ be_bytes 4 (journal_crc32 (body_bytes r))) @ be_bytes 4 gf_kCommit \<longleftrightarrow>
      slice 0 560 b = body_bytes r @ be_bytes 4 (journal_crc32 (body_bytes r)) \<and> slice 560 4 b = be_bytes 4 gf_kCommit"
    if "snapshot_shape (gr_snapshot r)"
    using length_body_bytes [OF that] assms by (intro append_eq_append_conv) simp
  ultimately show ?thesis using decodeBody_iff [OF assms, of r] assms
    by (auto simp: gf_decode_def gf_layout record_bytes_def)
qed

text \<open>
  C27: A record has exactly one encoding.  A buffer of at least 564 bytes decodes to a record exactly
  when encoding that record into it changes nothing; in particular decoding is a left inverse of
  encoding, and two different byte images never decode to the same authority.
\<close>
theorem geofence_codec_exact:
  assumes "gf_kRecordSize \<le> length b" and "snapshot_shape (gr_snapshot r)"
  shows "(gf_decode (Some b) = Some r \<longleftrightarrow> gf_encode r (Some b) = Some b) \<and>
    (recordValid r \<longrightarrow> (\<exists>e. gf_encode r (Some b) = Some e \<and> gf_decode (Some e) = Some r))"
proof -
  have len: "564 \<le> length b" using assms(1) by (simp add: gf_kRecordSize_def)
  have inv: "\<not> recordValid r \<Longrightarrow> gf_encode r (Some b) = None" by (simp add: gf_encode_def)
  show ?thesis
  proof (cases "recordValid r")
    case False
    then show ?thesis using inv decode_iff [OF len, of r] by simp
  next
    case True
    obtain e where e: "gf_encode r (Some b) = Some e" "length e = length b" "slice 0 564 e = record_bytes r"
      "drop 564 e = drop 564 b"
      using encode_segments [OF True assms(2) len] by blast
    have "e = b \<longleftrightarrow> slice 0 564 b = record_bytes r"
      using e(3,4) by (metis append_take_drop_id take_slice)
    then show ?thesis using e decode_iff [of b r] decode_iff [of e r] len True assms(2) by simp
  qed
qed

definition geofence_sample :: GeofenceRecord where
  "geofence_sample = \<lparr>gr_generation = 5, gr_token = \<lparr>incarnation = 0xABCDEF, revision = 5\<rparr>,
     gr_snapshot = Snapshot_init\<lparr>sn_state := kConfigured, sn_area_count := 1, sn_total_vertex_count := 4,
       sn_area_vertex_counts := (replicate 8 0)[0 := 4],
       sn_vertices := sample_square @ replicate 60 zero_point\<rparr>\<rparr>"

lemma geofence_sample_valid: "recordValid geofence_sample"
  by code_simp

lemma geofence_sample_shape: "snapshot_shape (gr_snapshot geofence_sample)"
  by (simp add: geofence_sample_def snapshot_shape_def sample_square_def)

theorem geofence_codec_exact_witness:
  "\<exists>e. gf_encode geofence_sample (Some (replicate 600 0xFF)) = Some e \<and> gf_decode (Some e) = Some geofence_sample"
  using geofence_codec_exact [OF _ geofence_sample_shape, of "replicate 600 0xFF"] geofence_sample_valid
  by (simp add: gf_kRecordSize_def)

section \<open>What a page can be taken for\<close>

lemma record_bytes_words:
  assumes "snapshot_shape (gr_snapshot r)"
  shows "slice 0 4 (record_bytes r) = be_bytes 4 gf_kMagic" "record_bytes r ! 4 = gf_kVersion"
    "slice 560 4 (record_bytes r) = be_bytes 4 gf_kCommit"
    "slice 0 560 (record_bytes r) = body_bytes r @ be_bytes 4 (journal_crc32 (body_bytes r))"
  using assms length_body_bytes [OF assms]
  by (simp_all add: record_bytes_def slice_def) (simp_all add: body_bytes_def nth_append)

lemma magic_bytes: "be_bytes 4 gf_kMagic = [0x4F, 0x52, 0x47, 0x31]"
  by (simp add: be_bytes_4 gf_kMagic_def)

lemma decode_facts:
  assumes "564 \<le> length b" "gf_decode (Some b) = Some r"
  shows "get32 b 0 = gf_kMagic" "b ! 4 = gf_kVersion" "get32 b 560 = gf_kCommit" "decodeBody (Some b) = Some r"
  using assms by (auto simp: gf_decode_def decodeBody_def gf_layout split: if_splits)

lemma not_erased:
  assumes "564 \<le> length b" "get32 b 0 = gf_kMagic"
  shows "\<not> erased b 0 564"
proof
  assume e: "erased b 0 564"
  then have "slice 0 4 b = [0xFF, 0xFF, 0xFF, 0xFF]"
    using assms(1) by (simp add: slice_4 erased_iff)
  then have "get32 b 0 = UINT32_MAX" using assms(1) by (simp add: get32_eq be_val_erased4)
  then show False using assms(2) by (simp add: gf_kMagic_def)
qed

lemma inspect_committed:
  assumes "564 \<le> length b"
  shows "\<exists>i. inspectPage (Some b) = Some i \<and>
    (isAuthoritativeCommitted (evidence i) \<longleftrightarrow> gf_decode (Some b) \<noteq> None) \<and>
    (gf_decode (Some b) \<noteq> None \<longrightarrow> decoded i = gf_decode (Some b) \<and>
       (evidence i = kCommittedClear \<longleftrightarrow> sn_state (gr_snapshot (the (gf_decode (Some b)))) = kClear))"
proof (cases "gf_decode (Some b)")
  case (Some r)
  note f = decode_facts [OF assms Some]
  have "\<not> erased b 0 564" using not_erased assms f(1) by blast
  then show ?thesis using f assms Some
    by (simp add: inspectPage_def gf_layout Let_def isAuthoritativeCommitted_def gf_kCommit_def kErasedWord_def)
next
  case None
  then have "get32 b 560 = gf_kCommit \<Longrightarrow> decodeBody (Some b) = None"
    using assms by (simp add: gf_decode_def gf_layout)
  then show ?thesis using assms None
    by (auto simp: inspectPage_def gf_layout Let_def isAuthoritativeCommitted_def)
qed

text \<open>
  C36: Damage is never authority.  Changing any single byte of a committed record - header, counts,
  vertices, checksum or commit word - leaves a page that neither decodes nor classifies as
  committed.
\<close>
theorem geofence_corruption_detected:
  assumes "gf_kRecordSize \<le> length b" and "gf_decode (Some b) = Some r"
    and "i < gf_kRecordSize" and "v \<noteq> b ! i"
  shows "gf_decode (Some (b[i := v])) = None \<and>
    (\<exists>p. inspectPage (Some (b[i := v])) = Some p \<and> \<not> isAuthoritativeCommitted (evidence p))"
proof -
  have len: "564 \<le> length b" using assms(1) by (simp add: gf_kRecordSize_def)
  have sealed: "sealed b 556 560" and old: "564 \<le> length (b[i := v])"
    using assms(2) len
    by (auto simp: gf_decode_def decodeBody_def gf_layout sealed_def gf_kCommit_def kCommit_def split: if_splits)
  have "\<not> sealed (b[i := v]) 556 (556 + 4)"
    by (rule sealed_byte_change) (use sealed assms len in \<open>simp_all add: gf_kRecordSize_def\<close>)
  then have "gf_decode (Some (b[i := v])) = None"
    by (auto simp: gf_decode_def decodeBody_def gf_layout sealed_def gf_kCommit_def kCommit_def)
  then show ?thesis using inspect_committed [OF old] by auto
qed

theorem geofence_corruption_detected_witness:
  "\<exists>e. gf_decode (Some e) = Some geofence_sample \<and> gf_decode (Some (e[4 := 2])) = None"
proof -
  obtain e where e: "gf_encode geofence_sample (Some (replicate 564 0xFF)) = Some e" "length e = 564"
    "slice 0 564 e = record_bytes geofence_sample"
    using encode_segments [OF geofence_sample_valid geofence_sample_shape, of "replicate 564 0xFF"] by auto
  then have d: "gf_decode (Some e) = Some geofence_sample"
    using decode_iff [of e geofence_sample] geofence_sample_valid geofence_sample_shape by simp
  have "e ! 4 = gf_kVersion" using decode_facts(2) [OF _ d] e(2) by simp
  then have "2 \<noteq> e ! 4" by (simp add: gf_kVersion_def)
  then show ?thesis using geofence_corruption_detected [OF _ d _, of 4 2] d e(2)
    by (auto simp: gf_kRecordSize_def)
qed

text \<open>
  A program operation that loses power has written a prefix of its words; the rest of the erased
  page still reads as ones.
\<close>

definition torn_page :: "GeofenceRecord \<Rightarrow> nat \<Rightarrow> bytes" where
  "torn_page r k = take (4 * k) (record_bytes r) @ replicate (564 - 4 * k) 0xFF"

lemma length_torn: "snapshot_shape (gr_snapshot r) \<Longrightarrow> k \<le> 141 \<Longrightarrow> length (torn_page r k) = 564"
  by (simp add: torn_page_def length_record_bytes)

lemma torn_slice_written:
  "snapshot_shape (gr_snapshot r) \<Longrightarrow> off + n \<le> 4 * k \<Longrightarrow> k \<le> 141 \<Longrightarrow>
   slice off n (torn_page r k) = slice off n (record_bytes r)"
  by (simp add: torn_page_def slice_append_left length_record_bytes) (simp add: slice_def drop_take)

lemma torn_nth_erased:
  "snapshot_shape (gr_snapshot r) \<Longrightarrow> 4 * k \<le> i \<Longrightarrow> i < 564 \<Longrightarrow> torn_page r k ! i = 0xFF"
  by (simp add: torn_page_def nth_append length_record_bytes)

lemma prefix_scan_erased:
  "(\<And>off. off \<in> set offs \<Longrightarrow> wordErased b off) \<Longrightarrow> prefix_scan b offs True st = (st \<or> offs \<noteq> [])"
  by (induction offs arbitrary: st) auto

lemma torn_words:
  assumes "snapshot_shape (gr_snapshot r)" "k \<le> 141"
  shows "1 \<le> k \<Longrightarrow> get32 (torn_page r k) 0 = gf_kMagic"
    and "2 \<le> k \<Longrightarrow> torn_page r k ! 4 = gf_kVersion"
    and "k \<le> 140 \<Longrightarrow> get32 (torn_page r k) 560 = kErasedWord"
    and "k = 140 \<Longrightarrow> slice 0 560 (torn_page r k) = body_bytes r @ be_bytes 4 (journal_crc32 (body_bytes r))"
    and "k = 141 \<Longrightarrow> slice 0 564 (torn_page r k) = record_bytes r"
proof -
  note len = length_torn [OF assms] and rw = record_bytes_words [OF assms(1)]
  show "get32 (torn_page r k) 0 = gf_kMagic" if "1 \<le> k"
    using that assms len rw(1) torn_slice_written [OF assms(1) _ assms(2), of 0 4]
    by (simp add: get32_eq)
  show "torn_page r k ! 4 = gf_kVersion" if "2 \<le> k"
    using that assms rw(2) by (simp add: torn_page_def nth_append length_record_bytes)
  show "get32 (torn_page r k) 560 = kErasedWord" if "k \<le> 140"
  proof -
    have "slice 560 4 (torn_page r k) = [0xFF, 0xFF, 0xFF, 0xFF]"
      using that len torn_nth_erased [OF assms(1), of k] by (simp add: slice_4)
    then show ?thesis using len by (simp add: get32_eq be_val_erased4 kErasedWord_def)
  qed
  show "slice 0 560 (torn_page r k) = body_bytes r @ be_bytes 4 (journal_crc32 (body_bytes r))" if "k = 140"
    using that rw(4) torn_slice_written [OF assms(1) _ assms(2), of 0 560] by simp
  show "slice 0 564 (torn_page r k) = record_bytes r" if "k = 141"
    using that torn_slice_written [OF assms(1) _ assms(2), of 0 564] length_record_bytes [OF assms(1)]
    by (simp add: slice_full)
qed

lemma torn_page_evidence:
  assumes "recordValid r" and "snapshot_shape (gr_snapshot r)" and "k \<le> 141"
  shows "\<exists>p. inspectPage (Some (torn_page r k)) = Some p \<and>
    (isAuthoritativeCommitted (evidence p) \<longleftrightarrow> k = 141) \<and>
    (k = 0 \<longleftrightarrow> evidence p = kErased) \<and>
    (k = 1 \<longrightarrow> evidence p = kSupportedCorrupt) \<and>
    (2 \<le> k \<and> k \<le> 139 \<longrightarrow> evidence p = kStaged \<or> evidence p = kUncommittedOrTorn) \<and>
    (k = 140 \<longrightarrow> evidence p = kStaged) \<and> (140 \<le> k \<longrightarrow> decoded p = Some r)"
proof -
  note len = length_torn [OF assms(2,3)] and w = torn_words [OF assms(2,3)]
  let ?b = "torn_page r k"
  have ne: "1 \<le> k \<Longrightarrow> \<not> erased ?b 0 564" using not_erased w(1) len by simp
  have e0: "k = 0 \<Longrightarrow> erased ?b 0 564" by (simp add: erased_iff torn_page_def)
  have com: "gf_kCommit \<noteq> kErasedWord" by (simp add: gf_kCommit_def kErasedWord_def)
  consider "k = 0" | "k = 1" | "2 \<le> k" "k \<le> 140" | "k = 141" using assms(3) by linarith
  then show ?thesis
  proof cases
    case 1
    then show ?thesis using e0 len by (simp add: inspectPage_def gf_layout isAuthoritativeCommitted_def)
  next
    case 2
    have v: "?b ! 4 = 0xFF" using torn_nth_erased [OF assms(2), of k 4] 2 by simp
    have "programmedPrefixWithErasedTail ?b 564"
    proof -
      have all: "wordErased ?b (4 * j)" if "1 \<le> j" "j < 141" for j
        using that torn_nth_erased [OF assms(2), of k] 2 by (simp add: wordErased_def)
      have "slice 0 4 ?b = be_bytes 4 gf_kMagic"
        using 2 torn_slice_written [OF assms(2) _ assms(3), of 0 4] record_bytes_words(1) [OF assms(2)] by simp
      then have "?b ! 0 = 0x4F" using len magic_bytes by (simp add: slice_4)
      then have "\<not> wordErased ?b 0" by (simp add: wordErased_def)
      moreover have "map ((*) 4) [0..<141] = 0 # map ((*) 4) [1..<141]" by (simp add: upt_conv_Cons)
      moreover have "prefix_scan ?b (map ((*) 4) [1..<141]) True False"
        by (subst prefix_scan_erased) (use all in auto)
      ultimately show ?thesis by (simp add: programmedPrefixWithErasedTail_def)
    qed
    then show ?thesis using ne len v 2
      by (simp add: inspectPage_def gf_layout isAuthoritativeCommitted_def gf_kVersion_def)
  next
    case 3
    have "k = 140 \<Longrightarrow> decodeBody (Some ?b) = Some r"
      using decodeBody_iff [of ?b r] w(4) len assms(1,2) by simp
    then show ?thesis using ne len w(1-3) 3
      by (auto simp: inspectPage_def gf_layout isAuthoritativeCommitted_def Let_def)
  next
    case 4
    have d: "gf_decode (Some ?b) = Some r" using decode_iff [of ?b r] w(5) 4 len assms(1,2) by simp
    then obtain p where p: "inspectPage (Some ?b) = Some p" "isAuthoritativeCommitted (evidence p)" "decoded p = Some r"
      using inspect_committed [of ?b] len by auto
    then show ?thesis using 4 by (auto simp: isAuthoritativeCommitted_def)
  qed
qed

text \<open>
  Commit-last.  Whatever prefix of a record's 141 words a power cut leaves on an erased page, the
  page is authoritative only when every word including the commit word is there, and then it
  carries exactly that record; with the body and checksum complete it is a staged copy of it,
  and after the very first word alone it is classified as corrupt, not as torn.
\<close>
theorem geofence_torn_write:
  assumes "recordValid r" and "snapshot_shape (gr_snapshot r)" and "k \<le> 141"
  shows "\<exists>p. inspectPage (Some (torn_page r k)) = Some p \<and>
    (isAuthoritativeCommitted (evidence p) \<longleftrightarrow> k = 141) \<and>
    (k = 0 \<longleftrightarrow> evidence p = kErased) \<and>
    (k = 1 \<longrightarrow> evidence p = kSupportedCorrupt) \<and>
    (2 \<le> k \<and> k \<le> 139 \<longrightarrow> evidence p = kStaged \<or> evidence p = kUncommittedOrTorn) \<and>
    (k = 140 \<longrightarrow> evidence p = kStaged) \<and> (140 \<le> k \<longrightarrow> decoded p = Some r)"
  by (rule torn_page_evidence [OF assms])

theorem geofence_torn_write_witness:
  "\<exists>p. inspectPage (Some (torn_page geofence_sample 140)) = Some p \<and> evidence p = kStaged \<and>
     decoded p = Some geofence_sample"
  using geofence_torn_write [OF geofence_sample_valid geofence_sample_shape, of 140] by auto

section \<open>Canonical snapshots\<close>

text \<open>
  The canonical snapshot of an accepted candidate: the effective vertices of the areas one after the
  other, the counts beside them, zeros in the unused slots.
\<close>

definition flat_counts :: "GeofencePolygonView list \<Rightarrow> u8 list" where
  "flat_counts areas = map (\<lambda>a. of_nat (effectiveGeofenceVertexCount a)) areas"

definition flat_vertices :: "GeofencePolygonView list \<Rightarrow> GeoPointE7 list" where
  "flat_vertices areas = concat (map stored_area areas)"

definition canonical_snapshot :: "GeofencePolygonView list \<Rightarrow> Snapshot" where
  "canonical_snapshot areas =
     \<lparr>sn_state = kConfigured, sn_area_count = of_nat (length areas),
      sn_total_vertex_count = of_nat (total_effective areas),
      sn_area_vertex_counts = flat_counts areas @ replicate (8 - length areas) 0,
      sn_vertices = flat_vertices areas @ replicate (64 - total_effective areas) zero_point\<rparr>"

lemma length_flat [simp]:
  "length (flat_counts areas) = length areas" "length (flat_vertices areas) = total_effective areas"
  by (simp_all add: flat_counts_def flat_vertices_def length_concat total_effective_def comp_def)

lemma flat_Cons [simp]:
  "flat_counts (a # as) = of_nat (effectiveGeofenceVertexCount a) # flat_counts as"
  "flat_vertices (a # as) = stored_area a @ flat_vertices as"
  by (simp_all add: flat_counts_def flat_vertices_def)

lemma flat_Nil [simp]: "flat_counts [] = []" "flat_vertices [] = []"
  by (simp_all add: flat_counts_def flat_vertices_def)

lemma valid_effective:
  assumes "validateGeofencePolygon a = kOk"
  shows "3 \<le> effectiveGeofenceVertexCount a" "effectiveGeofenceVertexCount a \<le> 64"
    and "effectiveGeofenceVertexCount (Some (stored_area a)) = effectiveGeofenceVertexCount a"
    and "validateGeofencePolygon (Some (stored_area a)) = kOk"
proof -
  obtain vs where a: "a = Some vs" using assms by (cases a) (auto simp: validateGeofencePolygon_def)
  have "validate_vertices vs (effectiveGeofenceVertexCount (Some vs)) = kOk"
    using assms by (simp add: a validateGeofencePolygon_def)
  from validate_okD(1,2) [OF this]
  show "3 \<le> effectiveGeofenceVertexCount a" "effectiveGeofenceVertexCount a \<le> 64" by (simp_all add: a)
  show "effectiveGeofenceVertexCount (Some (stored_area a)) = effectiveGeofenceVertexCount a"
    using effective_idem [of vs] assms by (simp add: a stored_area_def)
  show "validateGeofencePolygon (Some (stored_area a)) = kOk"
    using effective_vertices_same(1) [of vs] assms by (simp add: a stored_area_def)
qed

lemma canonicalize_areas_ok:
  assumes "\<forall>a\<in>set areas. validateGeofencePolygon a = kOk" and "unat acc + total_effective areas \<le> 64"
    and "area + length areas \<le> length (sn_area_vertex_counts c)" and "length (sn_vertices c) = 64"
  shows "canonicalize_areas areas area acc c =
    Some (acc + of_nat (total_effective areas),
      c\<lparr>sn_area_vertex_counts := write_at area (flat_counts areas) (sn_area_vertex_counts c),
         sn_vertices := write_at (unat acc) (flat_vertices areas) (sn_vertices c)\<rparr>)"
  using assms
proof (induction areas arbitrary: area acc c)
  case (Cons a areas)
  let ?n = "effectiveGeofenceVertexCount a" and ?points = "case a of None \<Rightarrow> [] | Some vs \<Rightarrow> vs"
  have v: "validateGeofencePolygon a = kOk" using Cons.prems(1) by simp
  note e = valid_effective [OF v]
  have u: "unat (acc + of_nat ?n) = unat acc + ?n"
    using Cons.prems(2) by (simp add: unat_word_ariths unat_of_nat)
  have "\<not> int (unat acc) > 64 - int ?n"
  proof -
    have "unat acc + ?n \<le> 64" using Cons.prems(2) by simp
    then show ?thesis by linarith
  qed
  then have g: "\<not> (?n < 3 \<or> ?n > kMaximumPolygonVertices \<or> int (unat acc) > int gf_kMaximumTotalVertices - int ?n)"
    using e by (simp add: kMaximumPolygonVertices_def gf_kMaximumTotalVertices_def)
  have "?n \<le> length ?points" "take ?n ?points = stored_area a" using effective_le
    by (cases a; simp add: effectiveGeofenceVertexCount_def [of None] stored_area_def effective_vertices_def)+
  then have copy: "fold (\<lambda>v vs. vs[unat acc + v := ?points ! v]) [0..<?n] (sn_vertices c) =
      write_at (unat acc) (stored_area a) (sn_vertices c)"
    using copy_vertices_write_at [of ?n ?points "unat acc" "sn_vertices c"] Cons.prems(2,4)
    by (simp add: copy_vertices_def)
  let ?c = "c\<lparr>sn_area_vertex_counts := (sn_area_vertex_counts c)[area := of_nat ?n],
      sn_vertices := write_at (unat acc) (stored_area a) (sn_vertices c)\<rparr>"
  have "canonicalize_areas (a # areas) area acc c = canonicalize_areas areas (area + 1) (acc + of_nat ?n) ?c"
    using v g copy by (simp add: Let_def)
  also have "\<dots> = Some (acc + of_nat ?n + of_nat (total_effective areas),
      ?c\<lparr>sn_area_vertex_counts := write_at (area + 1) (flat_counts areas) (sn_area_vertex_counts ?c),
          sn_vertices := write_at (unat acc + ?n) (flat_vertices areas) (sn_vertices ?c)\<rparr>)"
    using Cons.IH [of "acc + of_nat ?n" "area + 1" ?c] Cons.prems by (simp add: u)
  also have "write_at (area + 1) (flat_counts areas) (sn_area_vertex_counts ?c) =
      write_at area (flat_counts (a # areas)) (sn_area_vertex_counts c)"
    using Cons.prems(3) write_at_append [of area "[of_nat ?n]" "flat_counts areas" "sn_area_vertex_counts c"]
    by (simp add: write_at_one)
  also have "write_at (unat acc + ?n) (flat_vertices areas) (sn_vertices ?c) =
      write_at (unat acc) (flat_vertices (a # areas)) (sn_vertices c)"
    using Cons.prems(2,4) write_at_append [of "unat acc" "stored_area a" "flat_vertices areas" "sn_vertices c"] by simp
  finally show ?case by (simp add: add.assoc)
qed simp

lemma canonicalize_areas_reject:
  assumes "\<not> (\<forall>a\<in>set areas. validateGeofencePolygon a = kOk) \<or> 64 < unat acc + total_effective areas"
    and "unat acc \<le> 64"
  shows "canonicalize_areas areas area acc c = None"
  using assms
proof (induction areas arbitrary: area acc c)
  case (Cons a areas)
  let ?n = "effectiveGeofenceVertexCount a"
  show ?case
  proof (cases "validateGeofencePolygon a = kOk \<and> unat acc + ?n \<le> 64")
    case True
    then have u: "unat (acc + of_nat ?n) = unat acc + ?n" by (simp add: unat_word_ariths unat_of_nat)
    have "canonicalize_areas areas (area + 1) (acc + of_nat ?n) c' = None" for c'
      using Cons.prems(1) True u by (intro Cons.IH) auto
    then show ?thesis by (simp add: Let_def)
  next
    case False
    then have "validateGeofencePolygon a = kOk \<Longrightarrow> int (unat acc) > int gf_kMaximumTotalVertices - int ?n"
      unfolding gf_kMaximumTotalVertices_def by linarith
    then show ?thesis by (auto simp: Let_def)
  qed
qed simp

lemma check_tail:
  "\<forall>i\<in>set is. unat (sn_area_count s) \<le> i \<and> sn_area_vertex_counts s ! i = 0 \<Longrightarrow>
   check_areas s is acc off = Some acc"
  by (induction "is") (auto simp: Let_def)

lemma check_areas_flat:
  assumes "\<forall>a\<in>set rest. validateGeofencePolygon a = kOk"
    and "sn_area_vertex_counts s = cs @ flat_counts rest @ replicate (8 - length cs - length rest) 0"
    and "sn_vertices s = vs @ flat_vertices rest @ zs" and "length vs + total_effective rest \<le> 64"
    and "length cs + length rest \<le> 8" and "unat (sn_area_count s) = length cs + length rest"
  shows "check_areas s [length cs..<8] (of_nat (length vs)) (of_nat (length vs)) =
    Some (of_nat (length vs + total_effective rest))"
  using assms
proof (induction rest arbitrary: cs vs)
  case Nil
  have "check_areas s [length cs..<8] acc off = Some acc" for acc off
    using Nil.prems by (intro check_tail) (auto simp: nth_append)
  then show ?case by simp
next
  case (Cons a rest)
  let ?n = "effectiveGeofenceVertexCount a"
  have v: "validateGeofencePolygon a = kOk" using Cons.prems(1) by simp
  note e = valid_effective [OF v]
  have n: "length vs + ?n \<le> 64" using Cons.prems(4) by simp
  have c: "sn_area_vertex_counts s ! length cs = of_nat ?n" using Cons.prems(2) by simp
  have un: "unat (of_nat ?n :: u8) = ?n" "unat (of_nat (length vs) :: u16) = length vs"
    using e n by (simp_all add: unat_of_nat)
  have uc: "(ucast (of_nat ?n :: u8) :: u16) = of_nat ?n"
    using un(1) e by (simp add: word_unat_eq_iff unsigned_ucast_eq unat_of_nat take_bit_nat_eq_self)
  have sl: "slice (length vs) ?n (sn_vertices s) = stored_area a"
    using Cons.prems(3) by (simp add: slice_def)
  have up: "[length cs..<8] = length cs # [Suc (length cs)..<8]" using Cons.prems(5) by (simp add: upt_conv_Cons)
  have "check_areas s [length cs..<8] (of_nat (length vs)) (of_nat (length vs)) =
      check_areas s [Suc (length cs)..<8] (of_nat (length vs + ?n)) (of_nat (length vs + ?n))"
    using Cons.prems(6) v e n
    by (simp add: up c un uc sl Let_def kMaximumPolygonVertices_def gf_kMaximumTotalVertices_def add.commute)
  also have "\<dots> = Some (of_nat (length vs + total_effective (a # rest)))"
    using Cons.IH [of "cs @ [of_nat ?n]" "vs @ stored_area a"] Cons.prems by (simp add: add.assoc)
  finally show ?case .
qed

lemma canonical_valid:
  assumes "acceptable areas"
  shows "snapshotValid (canonical_snapshot areas)" "snapshot_shape (canonical_snapshot areas)"
proof -
  have a: "areas \<noteq> []" "length areas \<le> 8" "\<forall>a\<in>set areas. validateGeofencePolygon a = kOk" "total_effective areas \<le> 64"
    using assms by (simp_all add: acceptable_def rt_kMaximumAreas_def rt_kMaximumTotalVertices_def)
  then have pos: "0 < total_effective areas" using valid_effective(1) by (cases areas) fastforce+
  have u: "unat (of_nat (length areas) :: u8) = length areas"
    "unat (of_nat (total_effective areas) :: u16) = total_effective areas"
    using a by (simp_all add: unat_of_nat)
  have z: "(of_nat (length areas) :: u8) \<noteq> 0" "(of_nat (total_effective areas) :: u16) \<noteq> 0"
    using u a(1) pos by (metis length_0_conv unat_0, metis less_irrefl unat_0)
  have ch: "check_areas (canonical_snapshot areas) [0..<8] 0 0 = Some (of_nat (total_effective areas))"
    using check_areas_flat [of areas "canonical_snapshot areas" "[]" "[]"] a u
    by (simp add: canonical_snapshot_def)
  show "snapshotValid (canonical_snapshot areas)"
    using ch a u z
    by (simp add: snapshotValid_def gf_layout list_all_iff)
      (auto simp: canonical_snapshot_def nth_append pointIsZero_def zero_point_def)
  show "snapshot_shape (canonical_snapshot areas)"
    using a by (simp add: snapshot_shape_def canonical_snapshot_def)
qed

lemma canonicalize_exact:
  "canonicalizeConfiguredAreaSet (Some areas) =
     (if acceptable areas then Some (canonical_snapshot areas) else None) \<and>
   (acceptable areas \<longrightarrow> snapshotValid (canonical_snapshot areas))"
proof (cases "acceptable areas")
  case True
  then have a: "areas \<noteq> []" "length areas \<le> 8" "\<forall>a\<in>set areas. validateGeofencePolygon a = kOk" "total_effective areas \<le> 64"
    by (simp_all add: acceptable_def rt_kMaximumAreas_def rt_kMaximumTotalVertices_def)
  have w: "write_at 0 xs (replicate n y) = xs @ replicate (n - length xs) y" if "length xs \<le> n" for xs n and y :: 'b
    using that by (simp add: write_at_def)
  have "canonicalize_areas areas 0 0 (Snapshot_init\<lparr>sn_state := kConfigured, sn_area_count := of_nat (length areas)\<rparr>) =
      Some (of_nat (total_effective areas), (canonical_snapshot areas)\<lparr>sn_total_vertex_count := 0\<rparr>)"
    using canonicalize_areas_ok [of areas 0 0] a
    by (simp add: Snapshot_init_def canonical_snapshot_def w)
  then show ?thesis using True a canonical_valid [OF True]
    by (simp add: canonicalizeConfiguredAreaSet_def gf_kMaximumAreas_def canonical_snapshot_def Let_def)
next
  case False
  then have "areas = [] \<or> length areas > 8 \<or> \<not> (\<forall>a\<in>set areas. validateGeofencePolygon a = kOk) \<or> 64 < total_effective areas"
    by (auto simp: acceptable_def rt_kMaximumAreas_def rt_kMaximumTotalVertices_def)
  then consider "areas = [] \<or> length areas > 8"
    | "\<And>c. canonicalize_areas areas 0 0 c = None"
    using canonicalize_areas_reject [of areas 0] by fastforce
  then show ?thesis
    using False by cases (auto simp: canonicalizeConfiguredAreaSet_def gf_kMaximumAreas_def)
qed

text \<open>
  The durable canonical form.  A candidate is made durable exactly when the runtime would accept it,
  the snapshot holds the effective vertices of its areas in order with explicit closing vertices
  dropped and unused slots zero, and that snapshot always passes the semantic check of the codec.
\<close>
theorem canonicalization_exact:
  "canonicalizeConfiguredAreaSet (Some areas) =
     (if acceptable areas then Some (canonical_snapshot areas) else None) \<and>
   (acceptable areas \<longrightarrow> snapshotValid (canonical_snapshot areas))"
  by (rule canonicalize_exact)

theorem canonicalization_exact_witness:
  "canonicalizeConfiguredAreaSet (Some [Some (sample_square @ [sample_square ! 0])]) =
     Some (canonical_snapshot [Some (sample_square @ [sample_square ! 0])])"
proof -
  have "acceptable [Some (sample_square @ [sample_square ! 0])]" by code_simp
  then show ?thesis using canonicalization_exact by simp
qed

end
