(* ===== verification/Flash_Backend.thy ===== *)
theory Flash_Backend
  imports Prelude
begin

text \<open>
  \<open>firmware/include/flash_backend.h\<close>: the flash interface the stores are written against.  The
  virtual class is a record of its operations over an arbitrary backend state \<open>'f\<close>; the locale
  \<open>flash_contract\<close> states what a store may rely on, over the cell contents an implementation
  exposes.  \<open>NrfGeofenceFlash\<close> (\<open>firmware/src/nrf_geofence_flash.cpp\<close>) is modelled with the
  two SoftDevice calls, which are not part of the repository, as parameters, and interprets the
  contract.
\<close>

datatype FlashOpResult = kDone | kPending | kFailed

record 'f FlashBackend =
  fb_begin :: "'f \<Rightarrow> 'f \<times> bool"
  fb_read :: "'f \<Rightarrow> nat \<Rightarrow> nat \<Rightarrow> bytes option"
  fb_program :: "'f \<Rightarrow> nat \<Rightarrow> bytes \<Rightarrow> 'f \<times> FlashOpResult"
  fb_erasePage :: "'f \<Rightarrow> nat \<Rightarrow> 'f \<times> FlashOpResult"
  fb_pollPending :: "'f \<Rightarrow> 'f \<times> FlashOpResult"
  fb_hasUnreconciledMutation :: "'f \<Rightarrow> bool"

definition kPageSize :: nat where "kPageSize = 4096"
definition kGeofenceRegionPages :: nat where "kGeofenceRegionPages = 2"

text \<open>The geofence region and the configuration region are two pages each.\<close>

definition kTwoPageRegion :: nat where "kTwoPageRegion = 2 * kPageSize"
abbreviation kGeofenceRegionSize :: nat where "kGeofenceRegionSize \<equiv> kTwoPageRegion"

section \<open>The contract\<close>

text \<open>
  \<open>cells\<close> is what the region physically holds, \<open>pending\<close> the segment an accepted but unfinished
  operation may still be changing, with the contents it leaves on success.  An operation touches
  nothing outside its own segment whatever its result; \<open>kDone\<close> means the segment holds the
  requested contents; a read that succeeds returns the cells.
\<close>

locale flash_contract =
  fixes ops :: "'f FlashBackend" and wf :: "'f \<Rightarrow> bool" and cells :: "'f \<Rightarrow> bytes"
    and pending :: "'f \<Rightarrow> (nat \<times> bytes) option" and region :: nat
  assumes cells_length: "wf f \<Longrightarrow> length (cells f) = region"
    and begin_wf: "wf f \<Longrightarrow> wf (fst (fb_begin ops f))"
    and begin_cells: "wf f \<Longrightarrow> cells (fst (fb_begin ops f)) = cells f"
    and read_cells: "wf f \<Longrightarrow> fb_read ops f off n = Some bs \<Longrightarrow> off + n \<le> region \<and> bs = slice off n (cells f)"
    and program_wf: "wf f \<Longrightarrow> wf (fst (fb_program ops f off data))"
    and program_done: "wf f \<Longrightarrow> fb_program ops f off data = (f', kDone) \<Longrightarrow>
      off + length data \<le> region \<and> cells f' = write_at off data (cells f)"
    and program_frame: "wf f \<Longrightarrow> fb_program ops f off data = (f', r) \<Longrightarrow> i < off \<or> off + length data \<le> i \<Longrightarrow>
      i < region \<Longrightarrow> cells f' ! i = cells f ! i"
    and program_pending: "wf f \<Longrightarrow> fb_program ops f off data = (f', kPending) \<Longrightarrow> pending f' = Some (off, data)"
    and erase_wf: "wf f \<Longrightarrow> wf (fst (fb_erasePage ops f p))"
    and erase_done: "wf f \<Longrightarrow> fb_erasePage ops f p = (f', kDone) \<Longrightarrow>
      p * kPageSize + kPageSize \<le> region \<and>
      cells f' = write_at (p * kPageSize) (replicate kPageSize 0xFF) (cells f)"
    and erase_frame: "wf f \<Longrightarrow> fb_erasePage ops f p = (f', r) \<Longrightarrow>
      i < p * kPageSize \<or> p * kPageSize + kPageSize \<le> i \<Longrightarrow> i < region \<Longrightarrow> cells f' ! i = cells f ! i"
    and erase_pending: "wf f \<Longrightarrow> fb_erasePage ops f p = (f', kPending) \<Longrightarrow>
      pending f' = Some (p * kPageSize, replicate kPageSize 0xFF)"
    and poll_wf: "wf f \<Longrightarrow> wf (fst (fb_pollPending ops f))"
    and poll_done: "wf f \<Longrightarrow> fb_pollPending ops f = (f', kDone) \<Longrightarrow> pending f = Some (off, data) \<Longrightarrow>
      off + length data \<le> region \<and> cells f' = write_at off data (cells f)"
    and poll_frame: "wf f \<Longrightarrow> fb_pollPending ops f = (f', r) \<Longrightarrow> pending f = Some (off, data) \<Longrightarrow>
      i < off \<or> off + length data \<le> i \<Longrightarrow> i < region \<Longrightarrow> cells f' ! i = cells f ! i"
    and poll_pending: "wf f \<Longrightarrow> fb_pollPending ops f = (f', kPending) \<Longrightarrow> pending f' = pending f"
begin

lemma program_slice_frame:
  assumes "wf f" "fb_program ops f off data = (f', r)" "a + n \<le> off \<or> off + length data \<le> a" "a + n \<le> region"
  shows "slice a n (cells f') = slice a n (cells f)"
proof (rule nth_equalityI)
  have "wf f'" using program_wf [OF assms(1)] assms(2) by (metis fst_conv)
  then have l: "length (cells f') = region" "length (cells f) = region" using assms(1) cells_length by auto
  then show "length (slice a n (cells f')) = length (slice a n (cells f))" by simp
  fix i assume "i < length (slice a n (cells f'))"
  then show "slice a n (cells f') ! i = slice a n (cells f) ! i"
    using l assms program_frame [OF assms(1,2), of "a + i"] by auto
qed

lemma erase_slice_frame:
  assumes "wf f" "fb_erasePage ops f p = (f', r)" "a + n \<le> p * kPageSize \<or> p * kPageSize + kPageSize \<le> a" "a + n \<le> region"
  shows "slice a n (cells f') = slice a n (cells f)"
proof (rule nth_equalityI)
  have "wf f'" using erase_wf [OF assms(1)] assms(2) by (metis fst_conv)
  then have l: "length (cells f') = region" "length (cells f) = region" using assms(1) cells_length by auto
  then show "length (slice a n (cells f')) = length (slice a n (cells f))" by simp
  fix i assume "i < length (slice a n (cells f'))"
  then show "slice a n (cells f') ! i = slice a n (cells f) ! i"
    using l assms erase_frame [OF assms(1,2), of "a + i"] by auto
qed

lemma poll_slice_frame:
  assumes "wf f" "fb_pollPending ops f = (f', r)" "pending f = Some (off, data)"
    "a + n \<le> off \<or> off + length data \<le> a" "a + n \<le> region"
  shows "slice a n (cells f') = slice a n (cells f)"
proof (rule nth_equalityI)
  have "wf f'" using poll_wf [OF assms(1)] assms(2) by (metis fst_conv)
  then have l: "length (cells f') = region" "length (cells f) = region" using assms(1) cells_length by auto
  then show "length (slice a n (cells f')) = length (slice a n (cells f))" by simp
  fix i assume "i < length (slice a n (cells f'))"
  then show "slice a n (cells f') ! i = slice a n (cells f) ! i"
    using l assms poll_frame [OF assms(1-3), of "a + i"] by auto
qed

end

section \<open>The nRF52 backend of the geofence region\<close>

text \<open>
  The two vendor calls: \<open>sd_flash_write\<close> programs words at an address and may have changed any part
  of that segment when it reports an error; \<open>sd_flash_page_erase\<close> likewise for a page.  The board
  facts read from the chip registers and the linker are the flag \<open>nf_layout_ok\<close>, the platform's
  two calls the field \<open>nf_sd\<close>.
\<close>

record softdevice =
  sd_flash_write :: "bytes \<Rightarrow> nat \<Rightarrow> bytes \<Rightarrow> bytes \<times> bool"
  sd_flash_page_erase :: "bytes \<Rightarrow> nat \<Rightarrow> bytes \<times> bool"

record NrfGeofenceFlash =
  nf_sd :: softdevice
  nf_cells :: bytes
  nf_ready :: bool
  nf_layout_ok :: bool
  nf_softdevice_enabled :: bool

definition kMaxProgramSize :: nat where "kMaxProgramSize = 560"

definition inBounds :: "nat \<Rightarrow> nat \<Rightarrow> bool" where
  "inBounds offset n \<longleftrightarrow> offset \<le> kGeofenceRegionSize \<and> n \<le> kGeofenceRegionSize - offset"

definition nrf_begin :: "NrfGeofenceFlash \<Rightarrow> NrfGeofenceFlash \<times> bool" where
  "nrf_begin f = (let ok = nf_layout_ok f \<and> \<not> nf_softdevice_enabled f in (f\<lparr>nf_ready := ok\<rparr>, ok))"

definition nrf_read :: "NrfGeofenceFlash \<Rightarrow> nat \<Rightarrow> nat \<Rightarrow> bytes option" where
  "nrf_read f offset n =
     (if \<not> nf_ready f \<or> \<not> inBounds offset n then None else Some (slice offset n (nf_cells f)))"

definition nrf_program ::
  "NrfGeofenceFlash \<Rightarrow> nat \<Rightarrow> bytes \<Rightarrow> NrfGeofenceFlash \<times> FlashOpResult" where
  "nrf_program f offset data =
     (let n = length data in
      if \<not> nf_ready f \<or> n = 0 \<or> \<not> inBounds offset n \<or> offset mod 4 \<noteq> 0 \<or> n mod 4 \<noteq> 0 \<or>
         n > kMaxProgramSize \<or> n > kPageSize - offset mod kPageSize then (f, kFailed)
      else if nf_softdevice_enabled f then (f, kFailed)
      else if list_ex (\<lambda>i. nf_cells f ! (offset + i) \<noteq> 0xFF) [0..<n] then (f, kFailed)
      else
        let (c, ok) = sd_flash_write (nf_sd f) (nf_cells f) offset data; f' = f\<lparr>nf_cells := c\<rparr> in
        if \<not> ok then (f', kFailed)
        else (f', if slice offset n c = data then kDone else kFailed))"

definition nrf_erasePage ::
  "NrfGeofenceFlash \<Rightarrow> nat \<Rightarrow> NrfGeofenceFlash \<times> FlashOpResult" where
  "nrf_erasePage f page =
     (if \<not> nf_ready f \<or> page \<ge> kGeofenceRegionPages \<or> nf_softdevice_enabled f then (f, kFailed)
      else
        let (c, ok) = sd_flash_page_erase (nf_sd f) (nf_cells f) page; f' = f\<lparr>nf_cells := c\<rparr> in
        if \<not> ok then (f', kFailed)
        else if list_ex (\<lambda>i. c ! (page * kPageSize + i) \<noteq> 0xFF) [0..<kPageSize] then (f', kFailed)
        else (f', kDone))"

text \<open>\<open>pollPending\<close> and \<open>hasUnreconciledMutation\<close> are the base-class defaults.\<close>

definition nrf_ops :: "NrfGeofenceFlash FlashBackend" where
  "nrf_ops = \<lparr>fb_begin = nrf_begin, fb_read = nrf_read, fb_program = nrf_program,
     fb_erasePage = nrf_erasePage, fb_pollPending = (\<lambda>f. (f, kFailed)),
     fb_hasUnreconciledMutation = (\<lambda>f. False)\<rparr>"

text \<open>
  What the vendor documents: a call changes only the words or the page it names.
\<close>

definition softdevice_confined :: "softdevice \<Rightarrow> bool" where
  "softdevice_confined sd \<longleftrightarrow>
     (\<forall>c off data. length (fst (sd_flash_write sd c off data)) = length c \<and>
        (\<forall>i<length c. i < off \<or> off + length data \<le> i \<longrightarrow> fst (sd_flash_write sd c off data) ! i = c ! i)) \<and>
     (\<forall>c p. length (fst (sd_flash_page_erase sd c p)) = length c \<and>
        (\<forall>i<length c. i < p * kPageSize \<or> p * kPageSize + kPageSize \<le> i \<longrightarrow>
           fst (sd_flash_page_erase sd c p) ! i = c ! i))"

definition nrf_wf :: "NrfGeofenceFlash \<Rightarrow> bool" where
  "nrf_wf f \<longleftrightarrow> softdevice_confined (nf_sd f) \<and> length (nf_cells f) = kGeofenceRegionSize"

lemma confined_write:
  assumes "softdevice_confined sd"
  shows "length (fst (sd_flash_write sd c off data)) = length c"
    and "i < length c \<Longrightarrow> i < off \<or> off + length data \<le> i \<Longrightarrow> fst (sd_flash_write sd c off data) ! i = c ! i"
    and "length (fst (sd_flash_page_erase sd c p)) = length c"
    and "i < length c \<Longrightarrow> i < p * kPageSize \<or> p * kPageSize + kPageSize \<le> i \<Longrightarrow>
      fst (sd_flash_page_erase sd c p) ! i = c ! i"
  using assms by (auto simp: softdevice_confined_def)

section \<open>A driver over any number of pages\<close>

text \<open>
  The drivers of the geofence, configuration and history regions are written alike: they differ in the
  number of pages and in the size of the staging buffer of \<open>program\<close>.  What is proved of all of them is
  proved once, of the driver with these two as arguments.
\<close>

definition in_region :: "nat \<Rightarrow> nat \<Rightarrow> nat \<Rightarrow> bool" where
  "in_region pages offset n \<longleftrightarrow> offset \<le> pages * kPageSize \<and> n \<le> pages * kPageSize - offset"

definition driver_program :: "nat \<Rightarrow> nat \<Rightarrow> NrfGeofenceFlash \<Rightarrow> nat \<Rightarrow> bytes \<Rightarrow> NrfGeofenceFlash \<times> FlashOpResult" where
  "driver_program pages cap f offset data =
     (let n = length data in
      if \<not> nf_ready f \<or> n = 0 \<or> \<not> in_region pages offset n \<or> offset mod 4 \<noteq> 0 \<or> n mod 4 \<noteq> 0 \<or>
         n > cap \<or> n > kPageSize - offset mod kPageSize \<or> nf_softdevice_enabled f \<or>
         list_ex (\<lambda>i. nf_cells f ! (offset + i) \<noteq> 0xFF) [0..<n] then (f, kFailed)
      else
        let (c, ok) = sd_flash_write (nf_sd f) (nf_cells f) offset data
        in (f\<lparr>nf_cells := c\<rparr>, if ok \<and> slice offset n c = data then kDone else kFailed))"

definition driver_erase :: "nat \<Rightarrow> NrfGeofenceFlash \<Rightarrow> nat \<Rightarrow> NrfGeofenceFlash \<times> FlashOpResult" where
  "driver_erase pages f page =
     (if \<not> nf_ready f \<or> page \<ge> pages \<or> nf_softdevice_enabled f then (f, kFailed)
      else
        let (c, ok) = sd_flash_page_erase (nf_sd f) (nf_cells f) page
        in (f\<lparr>nf_cells := c\<rparr>,
            if ok \<and> list_all (\<lambda>i. c ! (page * kPageSize + i) = 0xFF) [0..<kPageSize] then kDone else kFailed))"

definition driver :: "nat \<Rightarrow> nat \<Rightarrow> NrfGeofenceFlash FlashBackend" where
  "driver pages cap = \<lparr>fb_begin = nrf_begin,
     fb_read = (\<lambda>f offset n. if \<not> nf_ready f \<or> \<not> in_region pages offset n then None else Some (slice offset n (nf_cells f))),
     fb_program = driver_program pages cap, fb_erasePage = driver_erase pages,
     fb_pollPending = (\<lambda>f. (f, kFailed)), fb_hasUnreconciledMutation = (\<lambda>f. False)\<rparr>"

definition driver_wf :: "nat \<Rightarrow> NrfGeofenceFlash \<Rightarrow> bool" where
  "driver_wf pages f \<longleftrightarrow> softdevice_confined (nf_sd f) \<and> length (nf_cells f) = pages * kPageSize"

lemma driver_program_cases:
  obtains "driver_program pages cap f off data = (f, kFailed)"
  | r where "driver_program pages cap f off data =
        (f\<lparr>nf_cells := fst (sd_flash_write (nf_sd f) (nf_cells f) off data)\<rparr>, r)" "r \<noteq> kPending"
      "in_region pages off (length data)" "\<forall>i<length data. nf_cells f ! (off + i) = 0xFF"
      "r = kDone \<Longrightarrow> slice off (length data) (fst (sd_flash_write (nf_sd f) (nf_cells f) off data)) = data"
proof -
  have "driver_program pages cap f off data = (f, kFailed) \<or>
    (\<exists>r. driver_program pages cap f off data = (f\<lparr>nf_cells := fst (sd_flash_write (nf_sd f) (nf_cells f) off data)\<rparr>, r) \<and>
       r \<noteq> kPending \<and> in_region pages off (length data) \<and> (\<forall>i<length data. nf_cells f ! (off + i) = 0xFF) \<and>
       (r = kDone \<longrightarrow> slice off (length data) (fst (sd_flash_write (nf_sd f) (nf_cells f) off data)) = data))"
    by (simp add: driver_program_def Let_def list_ex_iff split: prod.split)
  then show thesis using that by blast
qed

lemma driver_erase_cases:
  obtains "driver_erase pages f p = (f, kFailed)"
  | r where "driver_erase pages f p =
        (f\<lparr>nf_cells := fst (sd_flash_page_erase (nf_sd f) (nf_cells f) p)\<rparr>, r)" "r \<noteq> kPending" "p < pages"
      "r = kDone \<Longrightarrow> \<forall>i<kPageSize. fst (sd_flash_page_erase (nf_sd f) (nf_cells f) p) ! (p * kPageSize + i) = 0xFF"
proof -
  have "driver_erase pages f p = (f, kFailed) \<or>
    (\<exists>r. driver_erase pages f p = (f\<lparr>nf_cells := fst (sd_flash_page_erase (nf_sd f) (nf_cells f) p)\<rparr>, r) \<and>
       r \<noteq> kPending \<and> p < pages \<and>
       (r = kDone \<longrightarrow> (\<forall>i<kPageSize. fst (sd_flash_page_erase (nf_sd f) (nf_cells f) p) ! (p * kPageSize + i) = 0xFF)))"
    by (simp add: driver_erase_def Let_def list_all_iff split: prod.split)
  then show thesis using that by blast
qed

lemma region_room: "p < pages \<Longrightarrow> p * kPageSize + kPageSize \<le> pages * kPageSize" for p pages :: nat
proof -
  assume "p < pages"
  then have "Suc p * kPageSize \<le> pages * kPageSize" by (intro mult_right_mono) auto
  then show ?thesis by simp
qed

lemma write_at_from_frame:
  assumes "length c' = length c" "off + length d \<le> length c" "slice off (length d) c' = d"
    and "\<And>i. i < length c \<Longrightarrow> i < off \<or> off + length d \<le> i \<Longrightarrow> c' ! i = c ! i"
  shows "c' = write_at off d c"
proof (rule nth_equalityI)
  fix i assume i: "i < length c'"
  show "c' ! i = write_at off d c ! i"
  proof (cases "off \<le> i \<and> i < off + length d")
    case True
    then have "i - off < length d" by linarith
    then have "c' ! (off + (i - off)) = d ! (i - off)"
      using arg_cong [OF assms(3), of "\<lambda>l. l ! (i - off)"] assms(1,2) nth_slice [of "i - off" "length d" off c']
      by simp
    moreover have "i < off + length d" "off \<le> i" "i < length c" using True i assms(1) by auto
    ultimately show ?thesis using True assms(2) by (simp add: nth_write_at)
  next
    case False
    then have "i < off \<or> off + length d \<le> i" by linarith
    then have "c' ! i = c ! i" using assms(1,4) i by simp
    then show ?thesis using False assms(1,2) i by (auto simp: nth_write_at)
  qed
qed (use assms in simp)

lemma driver_contract: "flash_contract (driver pages cap) (driver_wf pages) nf_cells (\<lambda>_. None) (pages * kPageSize)"
proof
  fix f :: NrfGeofenceFlash assume wf: "driver_wf pages f"
  have len: "length (nf_cells f) = pages * kPageSize" and sd: "softdevice_confined (nf_sd f)"
    using wf by (simp_all add: driver_wf_def)
  note cw = confined_write [OF sd]
  show "length (nf_cells f) = pages * kPageSize" by (rule len)
  show "driver_wf pages (fst (fb_begin (driver pages cap) f))" "nf_cells (fst (fb_begin (driver pages cap) f)) = nf_cells f"
    using wf by (simp_all add: driver_def nrf_begin_def driver_wf_def Let_def)
  show "off + n \<le> pages * kPageSize \<and> bs = slice off n (nf_cells f)" if "fb_read (driver pages cap) f off n = Some bs" for off n bs
    using that by (auto simp: driver_def in_region_def split: if_splits)
  show "driver_wf pages (fst (fb_program (driver pages cap) f off data))" for off data
    using wf by (cases rule: driver_program_cases [of pages cap f off data]) (simp_all add: driver_def driver_wf_def cw(1))
  show "off + length data \<le> pages * kPageSize \<and> nf_cells f' = write_at off data (nf_cells f)"
    if p: "fb_program (driver pages cap) f off data = (f', kDone)" for off data f'
  proof (cases rule: driver_program_cases [of pages cap f off data])
    case 1
    then show ?thesis using p by (simp add: driver_def)
  next
    case (2 r)
    have b: "off + length data \<le> pages * kPageSize" using 2(3) by (auto simp: in_region_def)
    moreover have "nf_cells f' = fst (sd_flash_write (nf_sd f) (nf_cells f) off data)"
      using p 2(1) by (auto simp: driver_def)
    moreover have "fst (sd_flash_write (nf_sd f) (nf_cells f) off data) = write_at off data (nf_cells f)"
      by (rule write_at_from_frame) (use cw b len 2 p in \<open>auto simp: driver_def\<close>)
    ultimately show ?thesis by simp
  qed
  show "nf_cells f' ! i = nf_cells f ! i"
    if "fb_program (driver pages cap) f off data = (f', r)" "i < off \<or> off + length data \<le> i" "i < pages * kPageSize"
    for off data f' r i
    using that cw(2) len by (cases rule: driver_program_cases [of pages cap f off data]) (auto simp: driver_def)
  show "None = Some (off, data)" if "fb_program (driver pages cap) f off data = (f', kPending)" for off data f'
    using that by (cases rule: driver_program_cases [of pages cap f off data]) (auto simp: driver_def)
  show "driver_wf pages (fst (fb_erasePage (driver pages cap) f p))" for p
    using wf by (cases rule: driver_erase_cases [of pages f p]) (simp_all add: driver_def driver_wf_def cw(3))
  show "p * kPageSize + kPageSize \<le> pages * kPageSize \<and>
      nf_cells f' = write_at (p * kPageSize) (replicate kPageSize 0xFF) (nf_cells f)"
    if e: "fb_erasePage (driver pages cap) f p = (f', kDone)" for p f'
  proof (cases rule: driver_erase_cases [of pages f p])
    case 1
    then show ?thesis using e by (simp add: driver_def)
  next
    case (2 r)
    let ?c = "fst (sd_flash_page_erase (nf_sd f) (nf_cells f) p)"
    have b: "p * kPageSize + kPageSize \<le> pages * kPageSize" by (rule region_room [OF 2(3)])
    have "r = kDone" "nf_cells f' = ?c" using e 2(1) by (auto simp: driver_def)
    moreover have "slice (p * kPageSize) kPageSize ?c = replicate kPageSize 0xFF"
      by (rule nth_equalityI) (use 2(4) \<open>r = kDone\<close> b len cw(3) in auto)
    then have "?c = write_at (p * kPageSize) (replicate kPageSize 0xFF) (nf_cells f)"
      by (intro write_at_from_frame) (use cw b len in auto)
    ultimately show ?thesis using b by simp
  qed
  show "nf_cells f' ! i = nf_cells f ! i"
    if "fb_erasePage (driver pages cap) f p = (f', r)" "i < p * kPageSize \<or> p * kPageSize + kPageSize \<le> i" "i < pages * kPageSize"
    for p f' r i
    using that cw(4) len by (cases rule: driver_erase_cases [of pages f p]) (auto simp: driver_def)
  show "None = Some (p * kPageSize, replicate kPageSize 0xFF)" if "fb_erasePage (driver pages cap) f p = (f', kPending)" for p f'
    using that by (cases rule: driver_erase_cases [of pages f p]) (auto simp: driver_def)
  show "driver_wf pages (fst (fb_pollPending (driver pages cap) f))" using wf by (simp add: driver_def)
qed (auto simp: driver_def)

text \<open>The geofence driver is one of them.\<close>

lemma nrf_driver: "nrf_ops = driver 2 560" "nrf_wf = driver_wf 2"
proof -
  have "nrf_program = driver_program 2 560"
    by (auto simp: fun_eq_iff nrf_program_def driver_program_def inBounds_def in_region_def kTwoPageRegion_def
        kMaxProgramSize_def Let_def split: prod.split)
  moreover have "nrf_erasePage = driver_erase 2"
    by (auto simp: fun_eq_iff nrf_erasePage_def driver_erase_def kGeofenceRegionPages_def Let_def list_ex_iff list_all_iff
        split: prod.split)
  ultimately show "nrf_ops = driver 2 560"
    by (auto simp: nrf_ops_def driver_def fun_eq_iff nrf_read_def inBounds_def in_region_def kTwoPageRegion_def)
  show "nrf_wf = driver_wf 2" by (simp add: fun_eq_iff nrf_wf_def driver_wf_def kTwoPageRegion_def)
qed

interpretation nrf: flash_contract nrf_ops nrf_wf nf_cells "\<lambda>_. None" kGeofenceRegionSize
  unfolding nrf_driver kTwoPageRegion_def by (rule driver_contract)

section \<open>A driver on a working flash\<close>

text \<open>The vendor calls when nothing fails: programming erased words stores them, erasing a page blanks it.\<close>

definition softdevice_works :: "softdevice \<Rightarrow> bool" where
  "softdevice_works sd \<longleftrightarrow>
     (\<forall>c off data. off + length data \<le> length c \<longrightarrow> (\<forall>i<length data. c ! (off + i) = 0xFF) \<longrightarrow>
        sd_flash_write sd c off data = (write_at off data c, True)) \<and>
     (\<forall>c p. p * kPageSize + kPageSize \<le> length c \<longrightarrow>
        sd_flash_page_erase sd c p = (write_at (p * kPageSize) (replicate kPageSize 0xFF) c, True))"

definition flash_operational :: "NrfGeofenceFlash \<Rightarrow> bool" where
  "flash_operational f \<longleftrightarrow> nf_ready f \<and> \<not> nf_softdevice_enabled f \<and> softdevice_works (nf_sd f)"

lemma driver_program_works:
  assumes op: "flash_operational f" and len: "length (nf_cells f) = pages * kPageSize"
    and al: "off mod 4 = 0" "length data mod 4 = 0" "0 < length data" "length data \<le> cap"
    and room: "off mod kPageSize + length data \<le> kPageSize" "off + length data \<le> pages * kPageSize"
    and ff: "\<And>i. i < length data \<Longrightarrow> nf_cells f ! (off + i) = 0xFF"
  shows "fb_program (driver pages cap) f off data = (f\<lparr>nf_cells := write_at off data (nf_cells f)\<rparr>, kDone)"
proof -
  have "sd_flash_write (nf_sd f) (nf_cells f) off data = (write_at off data (nf_cells f), True)"
    using op ff room(2) len by (simp add: flash_operational_def softdevice_works_def)
  moreover have "slice off (length data) (write_at off data (nf_cells f)) = data"
    using room(2) len by (simp add: slice_write_at_same)
  moreover have "length data \<le> pages * kPageSize - off" "\<not> kPageSize - off mod kPageSize < length data"
    using room by linarith+
  ultimately show ?thesis using op al room ff
    by (simp add: driver_def driver_program_def Let_def flash_operational_def in_region_def list_ex_iff)
qed

lemma driver_erase_works:
  assumes op: "flash_operational f" and len: "length (nf_cells f) = pages * kPageSize" and p: "p < pages"
  shows "fb_erasePage (driver pages cap) f p =
    (f\<lparr>nf_cells := write_at (p * kPageSize) (replicate kPageSize 0xFF) (nf_cells f)\<rparr>, kDone)"
proof -
  have r: "p * kPageSize + kPageSize \<le> length (nf_cells f)" using region_room [OF p] len by simp
  then have e: "sd_flash_page_erase (nf_sd f) (nf_cells f) p =
      (write_at (p * kPageSize) (replicate kPageSize 0xFF) (nf_cells f), True)"
    using op by (simp add: flash_operational_def softdevice_works_def)
  have "\<forall>i<kPageSize. write_at (p * kPageSize) (replicate kPageSize 0xFF) (nf_cells f) ! (p * kPageSize + i) = 0xFF"
    using r by (auto simp: nth_write_at)
  then show ?thesis using op e p by (simp add: driver_def driver_erase_def Let_def flash_operational_def list_all_iff)
qed

text \<open>Flash cells that can only be cleared bit by bit, and set by erasing a page.\<close>

definition nor_flash :: softdevice where
  "nor_flash = \<lparr>sd_flash_write = (\<lambda>c off data. (write_at off (map2 (\<lambda>a b. a AND b) (slice off (length data) c) data) c, True)),
     sd_flash_page_erase = (\<lambda>c p. (write_at (p * kPageSize) (replicate kPageSize 0xFF) c, True))\<rparr>"

lemma nor_works: "softdevice_works nor_flash"
  unfolding softdevice_works_def
proof (intro conjI allI impI)
  fix c :: bytes and off and data :: bytes
  assume len: "off + length data \<le> length c" and ff: "\<forall>i<length data. c ! (off + i) = 0xFF"
  have m1: "a AND b = b" if "a = (0xFF :: u8)" for a b :: u8
  proof -
    have e: "(0xFF :: u8) = - 1" by simp
    show ?thesis unfolding that e by (rule and.left_neutral)
  qed
  have "map2 (\<lambda>a b. a AND b) (slice off (length data) c) data = data"
    by (rule nth_equalityI) (use len ff m1 in auto)
  then show "sd_flash_write nor_flash c off data = (write_at off data c, True)" by (simp add: nor_flash_def)
qed (simp add: nor_flash_def)

lemma nor_confined: "softdevice_confined nor_flash"
  unfolding softdevice_confined_def
proof (intro conjI allI impI)
  fix c :: bytes and off and data :: bytes and i
  let ?w = "map2 (\<lambda>a b. a AND b) (slice off (length data) c) data"
  show "length (fst (sd_flash_write nor_flash c off data)) = length c" by (simp add: nor_flash_def)
  assume i: "i < length c" "i < off \<or> off + length data \<le> i"
  have "length ?w \<le> length data" by simp
  then have "write_at off ?w c ! i = c ! i" using i nth_write_at_before [of i off c ?w] nth_write_at_after [of off ?w i c] by auto
  then show "fst (sd_flash_write nor_flash c off data) ! i = c ! i" by (simp add: nor_flash_def)
next
  fix c :: bytes and p i
  show "length (fst (sd_flash_page_erase nor_flash c p)) = length c" by (simp add: nor_flash_def)
  assume "i < length c" "i < p * kPageSize \<or> p * kPageSize + kPageSize \<le> i"
  then show "fst (sd_flash_page_erase nor_flash c p) ! i = c ! i"
    using nth_write_at_before [of i "p * kPageSize" c] nth_write_at_after [of "p * kPageSize" "replicate kPageSize 0xFF" i c]
    by (auto simp: nor_flash_def)
qed

end
