(* ===== verification/Flash_Gate.thy ===== *)
theory Flash_Gate
  imports Monotonic_Time Flash_Backend
begin

text \<open>
  \<open>firmware/include/flash_mutation_gate.h\<close> and \<open>firmware/src/flash_mutation_gate.cpp\<close>: the one
  owner of every flash mutation, and the five synchronous drivers
  \<open>firmware/src/nrf_history_flash.cpp\<close>, \<open>nrf_config_flash.cpp\<close>, \<open>nrf_geofence_flash.cpp\<close>,
  \<open>nrf_product_flash.cpp\<close>, \<open>nrf_security_flash.cpp\<close> it wraps, which differ in their constants only.

  The per-client members of the class (\<open>history_slot_\<close>, \<open>config_slot_\<close>, \<open>...\<close>) are functions of the
  owner, as the accessors \<open>slot\<close>, \<open>staging\<close> and \<open>diag\<close> of the code are.  The three atomics shared
  with the patched framework are fields of the same state.  What a call observes of its surroundings is
  an argument \<open>gate_env\<close>: the SoftDevice query, each reading of the clock the call may make, the flash
  before and after a vendor call and the code that call returns.  \<open>fg_calls\<close> records the vendor calls
  the asynchronous path makes, with their codes.
\<close>

section \<open>Clients, regions and slots\<close>

datatype Owner = kNone | kHistory | kConfig | kGeofence | kProduct | kSecurity
datatype Priority = kSecCritical | kHistory | kProduct | kConfig | kGeofence | kSecMaint
datatype Kind = kNone | kProgram | kErase
datatype SharedFlashOwner = kNone | kGate | kInternalFs

fun priority_code :: "Priority \<Rightarrow> nat" where
  "priority_code kSecCritical = 0"
| "priority_code Priority.kHistory = 1"
| "priority_code Priority.kProduct = 2"
| "priority_code Priority.kConfig = 3"
| "priority_code Priority.kGeofence = 4"
| "priority_code kSecMaint = 5"

definition kBaseAddress :: nat where "kBaseAddress = 0xED000"
definition kPageCount :: nat where "kPageCount = 7"
definition fg_kPageHeaderSize :: nat where "fg_kPageHeaderSize = 352"
definition kProductRegionPages :: nat where "kProductRegionPages = 32"
definition kFutureSecurityRegionPages :: nat where "kFutureSecurityRegionPages = 2"
definition kFutureConfigRegionPages :: nat where "kFutureConfigRegionPages = 2"
definition kProductRegionStart :: nat where "kProductRegionStart = 0x0C5000"
definition kGeofenceRegionStart :: nat where "kGeofenceRegionStart = 0x0E5000"
definition kFutureSecurityRegionStart :: nat where "kFutureSecurityRegionStart = 0x0E7000"
definition kFutureConfigRegionStart :: nat where
  "kFutureConfigRegionStart = kFutureSecurityRegionStart + kFutureSecurityRegionPages * kPageSize"

text \<open>Start and pages of a client's region, and the largest program its driver and its staging buffer take.\<close>

fun region_start :: "Owner \<Rightarrow> nat" where
  "region_start Owner.kHistory = kBaseAddress"
| "region_start Owner.kConfig = kFutureConfigRegionStart"
| "region_start Owner.kGeofence = kGeofenceRegionStart"
| "region_start Owner.kProduct = kProductRegionStart"
| "region_start _ = kFutureSecurityRegionStart"

fun region_pages :: "Owner \<Rightarrow> nat" where
  "region_pages Owner.kHistory = kPageCount"
| "region_pages Owner.kConfig = kFutureConfigRegionPages"
| "region_pages Owner.kGeofence = kGeofenceRegionPages"
| "region_pages Owner.kProduct = kProductRegionPages"
| "region_pages _ = kFutureSecurityRegionPages"

fun fg_kMaxProgramSize :: "Owner \<Rightarrow> nat" where
  "fg_kMaxProgramSize Owner.kHistory = fg_kPageHeaderSize"
| "fg_kMaxProgramSize Owner.kConfig = 64"
| "fg_kMaxProgramSize Owner.kGeofence = 560"
| "fg_kMaxProgramSize Owner.kProduct = 144"
| "fg_kMaxProgramSize _ = 96"

fun staging_capacity :: "Owner \<Rightarrow> nat" where
  "staging_capacity Owner.kHistory = fg_kPageHeaderSize"
| "staging_capacity Owner.kConfig = 64"
| "staging_capacity Owner.kGeofence = 560"
| "staging_capacity Owner.kProduct = 144"
| "staging_capacity _ = 96"

record Slot =
  sl_kind :: Kind
  sl_target :: nat
  sl_priority :: Priority
  sl_started_ms :: u32
  sl_staged_since_ms :: u32
  sl_admitted :: bool
  sl_token_acquired :: bool
  sl_submission_accepted :: bool
  sl_event_ready :: bool
  sl_event_success :: bool
  sl_quarantined :: bool
  sl_staging_size :: nat

record GateDiagnostics =
  gd_submits :: u32
  gd_async_accepted :: u32
  gd_busy_retries :: u32
  gd_completions_success :: u32
  gd_completions_error :: u32
  gd_timeouts :: u32
  gd_spurious_events :: u32
  gd_late_completions :: u32

definition Slot_init :: Slot where
  "Slot_init = \<lparr>sl_kind = Kind.kNone, sl_target = 0, sl_priority = Priority.kConfig, sl_started_ms = 0,
     sl_staged_since_ms = 0, sl_admitted = False, sl_token_acquired = False, sl_submission_accepted = False,
     sl_event_ready = False, sl_event_success = False, sl_quarantined = False, sl_staging_size = 0\<rparr>"

definition GateDiagnostics_init :: GateDiagnostics where
  "GateDiagnostics_init = \<lparr>gd_submits = 0, gd_async_accepted = 0, gd_busy_retries = 0, gd_completions_success = 0,
     gd_completions_error = 0, gd_timeouts = 0, gd_spurious_events = 0, gd_late_completions = 0\<rparr>"

section \<open>The vendor interface\<close>

text \<open>
  The codes and events of the SoftDevice matter to the gate only as these cases.
\<close>

datatype nrf_result = NRF_SUCCESS | NRF_ERROR_BUSY | NRF_OTHER_ERROR
datatype soc_event = FLASH_OPERATION_SUCCESS | FLASH_OPERATION_ERROR | OTHER_SOC_EVENT
datatype vendor_call = VendorWrite nat bytes | VendorErase nat

text \<open>
  \<open>ge_softdevice\<close> is what \<open>sd_softdevice_is_enabled\<close> yields, nothing when it reports an error.  The
  five times are the values of \<open>nowMs()\<close> where a request is staged, where waiting requests are ranked,
  where a request is admitted, where it gets the token and where a time limit is checked.
\<close>

record gate_env =
  ge_layout_ok :: bool
  ge_softdevice :: "bool option"
  ge_stage_ms :: u32
  ge_rank_ms :: u32
  ge_admit_ms :: u32
  ge_token_ms :: u32
  ge_check_ms :: u32
  ge_mem :: "nat \<Rightarrow> u8"
  ge_result :: nrf_result
  ge_mem_after :: "nat \<Rightarrow> u8"

record FlashMutationGate =
  fg_sync_ready :: "Owner \<Rightarrow> bool"
  fg_ready :: "Owner \<Rightarrow> bool"
  fg_slot :: "Owner \<Rightarrow> Slot"
  fg_staging :: "Owner \<Rightarrow> bytes"
  fg_diag :: "Owner \<Rightarrow> GateDiagnostics"
  fg_in_flight :: Owner
  fg_last :: Owner
  fg_shared :: SharedFlashOwner
  fg_bluefruit :: bool
  fg_mailbox :: u32
  fg_queue :: "soc_event list"
  fg_calls :: "(Owner \<times> vendor_call \<times> nrf_result) list"

definition FlashMutationGate_init :: FlashMutationGate where
  "FlashMutationGate_init = \<lparr>fg_sync_ready = (\<lambda>_. False), fg_ready = (\<lambda>_. False), fg_slot = (\<lambda>_. Slot_init),
     fg_staging = (\<lambda>_. []), fg_diag = (\<lambda>_. GateDiagnostics_init), fg_in_flight = Owner.kNone,
     fg_last = Owner.kHistory, fg_shared = SharedFlashOwner.kNone, fg_bluefruit = False, fg_mailbox = 0,
     fg_queue = [], fg_calls = []\<rparr>"

text \<open>The accessors: what is not one of the other four clients is the security client.\<close>

definition client :: "Owner \<Rightarrow> Owner" where
  "client ow = (if ow = Owner.kNone then Owner.kSecurity else ow)"

definition slot :: "FlashMutationGate \<Rightarrow> Owner \<Rightarrow> Slot" where
  "slot g ow = fg_slot g (client ow)"

definition staging :: "FlashMutationGate \<Rightarrow> Owner \<Rightarrow> bytes" where
  "staging g ow = fg_staging g (client ow)"

definition diag :: "FlashMutationGate \<Rightarrow> Owner \<Rightarrow> GateDiagnostics" where
  "diag g ow = fg_diag g (client ow)"

definition set_slot :: "Owner \<Rightarrow> (Slot \<Rightarrow> Slot) \<Rightarrow> FlashMutationGate \<Rightarrow> FlashMutationGate" where
  "set_slot ow f g = g\<lparr>fg_slot := (fg_slot g)(client ow := f (fg_slot g (client ow)))\<rparr>"

definition set_diag :: "Owner \<Rightarrow> (GateDiagnostics \<Rightarrow> GateDiagnostics) \<Rightarrow> FlashMutationGate \<Rightarrow> FlashMutationGate" where
  "set_diag ow f g = g\<lparr>fg_diag := (fg_diag g)(client ow := f (fg_diag g (client ow)))\<rparr>"

definition fg_kOperationTimeoutMs :: u32 where "fg_kOperationTimeoutMs = 4000"
definition kTokenWaitTimeoutMs :: u32 where "kTokenWaitTimeoutMs = 6000"

definition timedOut :: "u32 \<Rightarrow> u32 \<Rightarrow> bool" where
  "timedOut now started = elapsed now started fg_kOperationTimeoutMs"

definition softDeviceEnabled :: "gate_env \<Rightarrow> bool" where
  "softDeviceEnabled e \<longleftrightarrow> ge_softdevice e = Some True"

definition synchronousFlashAvailable :: "gate_env \<Rightarrow> bool" where
  "synchronousFlashAvailable e \<longleftrightarrow> ge_softdevice e = Some False"

section \<open>The shared token\<close>

definition tryAcquireSharedFlash :: "SharedFlashOwner \<Rightarrow> FlashMutationGate \<Rightarrow> FlashMutationGate \<times> bool" where
  "tryAcquireSharedFlash ow g =
     (if fg_shared g = SharedFlashOwner.kNone then (g\<lparr>fg_shared := ow\<rparr>, True) else (g, False))"

definition releaseSharedFlash :: "SharedFlashOwner \<Rightarrow> FlashMutationGate \<Rightarrow> FlashMutationGate" where
  "releaseSharedFlash ow g = (if fg_shared g = ow then g\<lparr>fg_shared := SharedFlashOwner.kNone\<rparr> else g)"

definition orun_flash_internalfs_try_acquire :: "FlashMutationGate \<Rightarrow> FlashMutationGate \<times> bool" where
  "orun_flash_internalfs_try_acquire g = tryAcquireSharedFlash kInternalFs g"

definition orun_flash_internalfs_release :: "FlashMutationGate \<Rightarrow> FlashMutationGate" where
  "orun_flash_internalfs_release g = releaseSharedFlash kInternalFs g"

definition orun_flash_internalfs_owns :: "FlashMutationGate \<Rightarrow> bool" where
  "orun_flash_internalfs_owns g \<longleftrightarrow> fg_shared g = kInternalFs"

definition orun_flash_gate_soc_event_cb :: "soc_event \<Rightarrow> FlashMutationGate \<Rightarrow> FlashMutationGate" where
  "orun_flash_gate_soc_event_cb event g =
     (if fg_shared g \<noteq> kGate then g
      else
        let encoded = (if event = FLASH_OPERATION_SUCCESS then 1
                       else if event = FLASH_OPERATION_ERROR then 2 else 0) in
        if encoded \<noteq> 0 then g\<lparr>fg_mailbox := encoded\<rparr> else g)"

definition orun_flash_gate_set_bluefruit_soc_owner :: "bool \<Rightarrow> FlashMutationGate \<Rightarrow> FlashMutationGate" where
  "orun_flash_gate_set_bluefruit_soc_owner active g = g\<lparr>fg_bluefruit := active\<rparr>"

definition takeBridgedGateEvent :: "FlashMutationGate \<Rightarrow> FlashMutationGate \<times> u32" where
  "takeBridgedGateEvent g = (g\<lparr>fg_mailbox := 0\<rparr>, fg_mailbox g)"

section \<open>The synchronous drivers\<close>

definition fg_inBounds :: "Owner \<Rightarrow> nat \<Rightarrow> nat \<Rightarrow> bool" where
  "fg_inBounds ow offset n \<longleftrightarrow>
     offset \<le> region_pages ow * kPageSize \<and> n \<le> region_pages ow * kPageSize - offset"

definition mem_range :: "(nat \<Rightarrow> u8) \<Rightarrow> nat \<Rightarrow> nat \<Rightarrow> bytes" where
  "mem_range m a n = map (\<lambda>i. m (a + i)) [0..<n]"

definition sync_begin :: "Owner \<Rightarrow> gate_env \<Rightarrow> FlashMutationGate \<Rightarrow> FlashMutationGate \<times> bool" where
  "sync_begin ow e g =
     (let ok = ge_layout_ok e \<and> synchronousFlashAvailable e
      in (g\<lparr>fg_sync_ready := (fg_sync_ready g)(ow := ok)\<rparr>, ok))"

definition sync_read :: "Owner \<Rightarrow> gate_env \<Rightarrow> FlashMutationGate \<Rightarrow> nat \<Rightarrow> nat \<Rightarrow> bytes option" where
  "sync_read ow e g offset n =
     (if \<not> fg_sync_ready g ow \<or> \<not> fg_inBounds ow offset n then None
      else Some (mem_range (ge_mem e) (region_start ow + offset) n))"

definition sync_program :: "Owner \<Rightarrow> gate_env \<Rightarrow> FlashMutationGate \<Rightarrow> nat \<Rightarrow> bytes \<Rightarrow> FlashOpResult" where
  "sync_program ow e g offset data =
     (let n = length data in
      if \<not> fg_sync_ready g ow \<or> n = 0 \<or> \<not> fg_inBounds ow offset n \<or> offset mod 4 \<noteq> 0 \<or> n mod 4 \<noteq> 0 \<or>
         n > fg_kMaxProgramSize ow \<or> n > kPageSize - offset mod kPageSize then kFailed
      else if \<not> synchronousFlashAvailable e then kFailed
      else if list_ex (\<lambda>b. b \<noteq> 0xFF) (mem_range (ge_mem e) (region_start ow + offset) n) then kFailed
      else if ge_result e \<noteq> NRF_SUCCESS then kFailed
      else if mem_range (ge_mem_after e) (region_start ow + offset) n = data then kDone else kFailed)"

definition sync_erasePage :: "Owner \<Rightarrow> gate_env \<Rightarrow> FlashMutationGate \<Rightarrow> nat \<Rightarrow> FlashOpResult" where
  "sync_erasePage ow e g page =
     (if \<not> fg_sync_ready g ow \<or> page \<ge> region_pages ow \<or> \<not> synchronousFlashAvailable e then kFailed
      else if ge_result e \<noteq> NRF_SUCCESS then kFailed
      else if list_ex (\<lambda>b. b \<noteq> 0xFF) (mem_range (ge_mem_after e) (region_start ow + page * kPageSize) kPageSize)
      then kFailed else kDone)"

section \<open>Admission\<close>

definition aged :: "Slot \<Rightarrow> u32 \<Rightarrow> bool" where
  "aged s now \<longleftrightarrow> sl_kind s \<noteq> Kind.kNone \<and> \<not> sl_admitted s \<and> elapsed now (sl_staged_since_ms s) fg_kOperationTimeoutMs"

definition effectivePriority :: "Slot \<Rightarrow> Priority" where "effectivePriority s = sl_priority s"

definition other_outranks :: "u32 \<Rightarrow> Slot \<Rightarrow> Slot \<Rightarrow> bool" where
  "other_outranks now mine other =
     (if sl_kind other = Kind.kNone \<or> sl_admitted other then False
      else if aged other now \<noteq> aged mine now then aged other now
      else if aged other now \<and> now - sl_staged_since_ms other > now - sl_staged_since_ms mine then True
      else if aged other now \<and> now - sl_staged_since_ms other < now - sl_staged_since_ms mine then False
      else priority_code (effectivePriority other) < priority_code (effectivePriority mine))"

definition gate_clients :: "Owner list" where
  "gate_clients = [Owner.kHistory, Owner.kConfig, Owner.kGeofence, Owner.kProduct, Owner.kSecurity]"

definition higherPriorityWaiting :: "FlashMutationGate \<Rightarrow> u32 \<Rightarrow> Owner \<Rightarrow> bool" where
  "higherPriorityWaiting g now ow =
     list_ex (\<lambda>i. i \<noteq> ow \<and> other_outranks now (slot g ow) (slot g i)) gate_clients"

definition releaseSlot :: "Owner \<Rightarrow> FlashMutationGate \<Rightarrow> FlashMutationGate" where
  "releaseSlot ow g =
     (let g = set_slot ow (\<lambda>s. s\<lparr>sl_kind := Kind.kNone, sl_admitted := False, sl_token_acquired := False,
                sl_submission_accepted := False, sl_event_ready := False, sl_quarantined := False,
                sl_staging_size := 0\<rparr>) g;
          g = (if fg_in_flight g = ow then g\<lparr>fg_in_flight := Owner.kNone\<rparr> else g)
      in releaseSharedFlash kGate g)"

definition quarantineSlot :: "Owner \<Rightarrow> FlashMutationGate \<Rightarrow> FlashMutationGate" where
  "quarantineSlot ow g = set_slot ow (\<lambda>s. s\<lparr>sl_quarantined := True\<rparr>) g"

section \<open>Submission\<close>

definition count_busy :: "Owner \<Rightarrow> FlashMutationGate \<Rightarrow> FlashMutationGate" where
  "count_busy ow = set_diag ow (\<lambda>d. d\<lparr>gd_busy_retries := gd_busy_retries d + 1\<rparr>)"

definition count_timeout :: "Owner \<Rightarrow> FlashMutationGate \<Rightarrow> FlashMutationGate" where
  "count_timeout ow = set_diag ow (\<lambda>d. d\<lparr>gd_timeouts := gd_timeouts d + 1\<rparr>)"

text \<open>
  The vendor call of a slot; a slot without a kind is refused with an internal error and calls nothing.
\<close>

definition slot_call :: "FlashMutationGate \<Rightarrow> Owner \<Rightarrow> vendor_call option" where
  "slot_call g ow =
     (case sl_kind (slot g ow) of
        kProgram \<Rightarrow> Some (VendorWrite (sl_target (slot g ow)) (take (sl_staging_size (slot g ow)) (staging g ow)))
      | kErase \<Rightarrow> Some (VendorErase (sl_target (slot g ow)))
      | Kind.kNone \<Rightarrow> None)"

text \<open>Phase 2 of \<open>attemptSubmit\<close>, behind the acquisition of the token.\<close>

definition submit_call :: "Owner \<Rightarrow> gate_env \<Rightarrow> FlashMutationGate \<Rightarrow> FlashMutationGate \<times> FlashOpResult" where
  "submit_call ow e g =
     (let g = (if sl_token_acquired (slot g ow) then g
               else set_slot ow (\<lambda>s. s\<lparr>sl_token_acquired := True, sl_started_ms := ge_token_ms e\<rparr>) g);
          (g, result) = (case slot_call g ow of None \<Rightarrow> (g, NRF_OTHER_ERROR)
             | Some c \<Rightarrow> (g\<lparr>fg_calls := fg_calls g @ [(ow, c, ge_result e)]\<rparr>, ge_result e))
      in
      if result = NRF_SUCCESS then
        (set_diag ow (\<lambda>d. d\<lparr>gd_async_accepted := gd_async_accepted d + 1\<rparr>)
           (set_slot ow (\<lambda>s. s\<lparr>sl_submission_accepted := True\<rparr>) g), kPending)
      else if result = NRF_ERROR_BUSY then
        let g = count_busy ow g in
        if timedOut (ge_check_ms e) (sl_started_ms (slot g ow)) then (count_timeout ow (releaseSlot ow g), kFailed)
        else (g, kPending)
      else (releaseSlot ow g, kFailed))"

definition attemptSubmit :: "Owner \<Rightarrow> gate_env \<Rightarrow> FlashMutationGate \<Rightarrow> FlashMutationGate \<times> FlashOpResult" where
  "attemptSubmit ow e g =
     (if fg_shared g = kGate then submit_call ow e g
      else
        let (g, acquired) = tryAcquireSharedFlash kGate g in
        if acquired then submit_call ow e g
        else
          let g = count_busy ow g in
          if elapsed (ge_check_ms e) (sl_started_ms (slot g ow)) kTokenWaitTimeoutMs
          then (count_timeout ow (releaseSlot ow g), kFailed)
          else (g, kPending))"

text \<open>\<open>submitOrRetry\<close> for the client that holds the physical slot.\<close>

definition continueOwned :: "Owner \<Rightarrow> gate_env \<Rightarrow> FlashMutationGate \<Rightarrow> FlashMutationGate \<times> FlashOpResult" where
  "continueOwned ow e g =
     (let g = (if sl_admitted (slot g ow) then g
               else set_slot ow (\<lambda>s. s\<lparr>sl_admitted := True, sl_started_ms := ge_admit_ms e\<rparr>) g);
          mine = slot g ow in
      if \<not> sl_submission_accepted mine then attemptSubmit ow e g
      else if sl_event_ready mine then
        if sl_event_success mine then
          (set_diag ow (\<lambda>d. d\<lparr>gd_completions_success := gd_completions_success d + 1\<rparr>) (releaseSlot ow g), kDone)
        else
          (set_diag ow (\<lambda>d. d\<lparr>gd_completions_error := gd_completions_error d + 1\<rparr>) (releaseSlot ow g), kFailed)
      else if timedOut (ge_check_ms e) (sl_started_ms mine) then (count_timeout ow (quarantineSlot ow g), kFailed)
      else (g, kPending))"

definition submitOrRetry :: "Owner \<Rightarrow> gate_env \<Rightarrow> FlashMutationGate \<Rightarrow> FlashMutationGate \<times> FlashOpResult" where
  "submitOrRetry ow e g =
     (if fg_in_flight g = Owner.kNone \<and> higherPriorityWaiting g (ge_rank_ms e) ow then (g, kPending)
      else
        let g = (if fg_in_flight g = Owner.kNone then g\<lparr>fg_in_flight := ow, fg_last := ow\<rparr> else g) in
        if fg_in_flight g \<noteq> ow then (g, kPending) else continueOwned ow e g)"

section \<open>The client interface\<close>

definition count_submit :: "Owner \<Rightarrow> FlashMutationGate \<Rightarrow> FlashMutationGate" where
  "count_submit ow = set_diag ow (\<lambda>d. d\<lparr>gd_submits := gd_submits d + 1\<rparr>)"

definition stage_request :: "Owner \<Rightarrow> Priority \<Rightarrow> Kind \<Rightarrow> nat \<Rightarrow> gate_env \<Rightarrow> FlashMutationGate \<Rightarrow> FlashMutationGate" where
  "stage_request ow priority kind target e =
     set_slot ow (\<lambda>s. s\<lparr>sl_kind := kind, sl_target := target, sl_priority := priority,
       sl_staged_since_ms := ge_stage_ms e, sl_admitted := False, sl_token_acquired := False,
       sl_submission_accepted := False, sl_event_ready := False, sl_quarantined := False\<rparr>)"

definition gate_begin :: "Owner \<Rightarrow> gate_env \<Rightarrow> FlashMutationGate \<Rightarrow> FlashMutationGate \<times> bool" where
  "gate_begin ow e g =
     (let (g, ok) = sync_begin ow e g in (g\<lparr>fg_ready := (fg_ready g)(ow := ok)\<rparr>, ok))"

definition gate_read :: "Owner \<Rightarrow> gate_env \<Rightarrow> FlashMutationGate \<Rightarrow> nat \<Rightarrow> nat \<Rightarrow> bytes option" where
  "gate_read ow e g offset n = sync_read ow e g offset n"

definition gate_program ::
  "Owner \<Rightarrow> Priority \<Rightarrow> gate_env \<Rightarrow> nat \<Rightarrow> bytes \<Rightarrow> FlashMutationGate \<Rightarrow> FlashMutationGate \<times> FlashOpResult" where
  "gate_program ow priority e offset data g =
     (if \<not> fg_ready g ow then (g, kFailed)
      else
        let g = count_submit ow g; n = length data in
        if \<not> softDeviceEnabled e then (g, sync_program ow e g offset data)
        else if sl_kind (slot g ow) \<noteq> Kind.kNone then (g, kFailed)
        else if n = 0 \<or> \<not> fg_inBounds ow offset n \<or> offset mod 4 \<noteq> 0 \<or> n mod 4 \<noteq> 0 \<or>
            n > staging_capacity ow \<or> n > kPageSize - offset mod kPageSize then (g, kFailed)
        else if list_ex (\<lambda>b. b \<noteq> 0xFF) (mem_range (ge_mem e) (region_start ow + offset) n) then (g, kFailed)
        else
          let g = g\<lparr>fg_staging := (fg_staging g)(client ow := data)\<rparr>;
              g = set_slot ow (\<lambda>s. s\<lparr>sl_staging_size := n\<rparr>) g
          in submitOrRetry ow e (stage_request ow priority kProgram (region_start ow + offset) e g))"

definition gate_erasePage ::
  "Owner \<Rightarrow> Priority \<Rightarrow> gate_env \<Rightarrow> nat \<Rightarrow> FlashMutationGate \<Rightarrow> FlashMutationGate \<times> FlashOpResult" where
  "gate_erasePage ow priority e page g =
     (if \<not> fg_ready g ow then (g, kFailed)
      else
        let g = count_submit ow g in
        if \<not> softDeviceEnabled e then (g, sync_erasePage ow e g page)
        else if sl_kind (slot g ow) \<noteq> Kind.kNone then (g, kFailed)
        else if page \<ge> region_pages ow then (g, kFailed)
        else submitOrRetry ow e (stage_request ow priority kErase (region_start ow div kPageSize + page) e g))"

definition gate_pollPending :: "Owner \<Rightarrow> gate_env \<Rightarrow> FlashMutationGate \<Rightarrow> FlashMutationGate \<times> FlashOpResult" where
  "gate_pollPending ow e g =
     (if sl_kind (slot g ow) = Kind.kNone then (g, kFailed) else submitOrRetry ow e g)"

text \<open>The functions of the class, one per client; the security ones are told the class by the port.\<close>

definition beginHistory :: "gate_env \<Rightarrow> FlashMutationGate \<Rightarrow> FlashMutationGate \<times> bool" where
  "beginHistory = gate_begin Owner.kHistory"

definition readHistory :: "gate_env \<Rightarrow> FlashMutationGate \<Rightarrow> nat \<Rightarrow> nat \<Rightarrow> bytes option" where
  "readHistory = gate_read Owner.kHistory"

definition programHistory :: "gate_env \<Rightarrow> nat \<Rightarrow> bytes \<Rightarrow> FlashMutationGate \<Rightarrow> FlashMutationGate \<times> FlashOpResult" where
  "programHistory = gate_program Owner.kHistory Priority.kHistory"

definition erasePageHistory :: "gate_env \<Rightarrow> nat \<Rightarrow> FlashMutationGate \<Rightarrow> FlashMutationGate \<times> FlashOpResult" where
  "erasePageHistory = gate_erasePage Owner.kHistory Priority.kHistory"

definition pollPendingHistory :: "gate_env \<Rightarrow> FlashMutationGate \<Rightarrow> FlashMutationGate \<times> FlashOpResult" where
  "pollPendingHistory = gate_pollPending Owner.kHistory"

definition beginConfig :: "gate_env \<Rightarrow> FlashMutationGate \<Rightarrow> FlashMutationGate \<times> bool" where
  "beginConfig = gate_begin Owner.kConfig"

definition readConfig :: "gate_env \<Rightarrow> FlashMutationGate \<Rightarrow> nat \<Rightarrow> nat \<Rightarrow> bytes option" where
  "readConfig = gate_read Owner.kConfig"

definition programConfig :: "gate_env \<Rightarrow> nat \<Rightarrow> bytes \<Rightarrow> FlashMutationGate \<Rightarrow> FlashMutationGate \<times> FlashOpResult" where
  "programConfig = gate_program Owner.kConfig Priority.kConfig"

definition erasePageConfig :: "gate_env \<Rightarrow> nat \<Rightarrow> FlashMutationGate \<Rightarrow> FlashMutationGate \<times> FlashOpResult" where
  "erasePageConfig = gate_erasePage Owner.kConfig Priority.kConfig"

definition pollPendingConfig :: "gate_env \<Rightarrow> FlashMutationGate \<Rightarrow> FlashMutationGate \<times> FlashOpResult" where
  "pollPendingConfig = gate_pollPending Owner.kConfig"

definition beginGeofence :: "gate_env \<Rightarrow> FlashMutationGate \<Rightarrow> FlashMutationGate \<times> bool" where
  "beginGeofence = gate_begin Owner.kGeofence"

definition readGeofence :: "gate_env \<Rightarrow> FlashMutationGate \<Rightarrow> nat \<Rightarrow> nat \<Rightarrow> bytes option" where
  "readGeofence = gate_read Owner.kGeofence"

definition programGeofence :: "gate_env \<Rightarrow> nat \<Rightarrow> bytes \<Rightarrow> FlashMutationGate \<Rightarrow> FlashMutationGate \<times> FlashOpResult" where
  "programGeofence = gate_program Owner.kGeofence Priority.kGeofence"

definition erasePageGeofence :: "gate_env \<Rightarrow> nat \<Rightarrow> FlashMutationGate \<Rightarrow> FlashMutationGate \<times> FlashOpResult" where
  "erasePageGeofence = gate_erasePage Owner.kGeofence Priority.kGeofence"

definition pollPendingGeofence :: "gate_env \<Rightarrow> FlashMutationGate \<Rightarrow> FlashMutationGate \<times> FlashOpResult" where
  "pollPendingGeofence = gate_pollPending Owner.kGeofence"

definition beginProduct :: "gate_env \<Rightarrow> FlashMutationGate \<Rightarrow> FlashMutationGate \<times> bool" where
  "beginProduct = gate_begin Owner.kProduct"

definition readProduct :: "gate_env \<Rightarrow> FlashMutationGate \<Rightarrow> nat \<Rightarrow> nat \<Rightarrow> bytes option" where
  "readProduct = gate_read Owner.kProduct"

definition programProduct :: "gate_env \<Rightarrow> nat \<Rightarrow> bytes \<Rightarrow> FlashMutationGate \<Rightarrow> FlashMutationGate \<times> FlashOpResult" where
  "programProduct = gate_program Owner.kProduct Priority.kProduct"

definition erasePageProduct :: "gate_env \<Rightarrow> nat \<Rightarrow> FlashMutationGate \<Rightarrow> FlashMutationGate \<times> FlashOpResult" where
  "erasePageProduct = gate_erasePage Owner.kProduct Priority.kProduct"

definition pollPendingProduct :: "gate_env \<Rightarrow> FlashMutationGate \<Rightarrow> FlashMutationGate \<times> FlashOpResult" where
  "pollPendingProduct = gate_pollPending Owner.kProduct"

definition beginSecurity :: "gate_env \<Rightarrow> FlashMutationGate \<Rightarrow> FlashMutationGate \<times> bool" where
  "beginSecurity = gate_begin Owner.kSecurity"

definition readSecurity :: "gate_env \<Rightarrow> FlashMutationGate \<Rightarrow> nat \<Rightarrow> nat \<Rightarrow> bytes option" where
  "readSecurity = gate_read Owner.kSecurity"

definition programSecurity :: "Priority \<Rightarrow> gate_env \<Rightarrow> nat \<Rightarrow> bytes \<Rightarrow> FlashMutationGate \<Rightarrow> FlashMutationGate \<times> FlashOpResult" where
  "programSecurity priority = gate_program Owner.kSecurity priority"

definition erasePageSecurity :: "Priority \<Rightarrow> gate_env \<Rightarrow> nat \<Rightarrow> FlashMutationGate \<Rightarrow> FlashMutationGate \<times> FlashOpResult" where
  "erasePageSecurity priority = gate_erasePage Owner.kSecurity priority"

definition pollPendingSecurity :: "gate_env \<Rightarrow> FlashMutationGate \<Rightarrow> FlashMutationGate \<times> FlashOpResult" where
  "pollPendingSecurity = gate_pollPending Owner.kSecurity"

definition gate_hasUnreconciledMutation :: "Owner \<Rightarrow> FlashMutationGate \<Rightarrow> bool" where
  "gate_hasUnreconciledMutation ow g = (ow \<noteq> Owner.kHistory \<and> sl_quarantined (slot g ow))"

section \<open>Events\<close>

definition count_spurious :: "Owner \<Rightarrow> FlashMutationGate \<Rightarrow> FlashMutationGate" where
  "count_spurious ow = set_diag ow (\<lambda>d. d\<lparr>gd_spurious_events := gd_spurious_events d + 1\<rparr>)"

definition handleFlashEvent :: "soc_event \<Rightarrow> FlashMutationGate \<Rightarrow> FlashMutationGate" where
  "handleFlashEvent event g =
     (if event \<noteq> FLASH_OPERATION_SUCCESS \<and> event \<noteq> FLASH_OPERATION_ERROR then g
      else if fg_in_flight g = Owner.kNone then count_spurious (fg_last g) g
      else
        let ow = fg_in_flight g; mine = slot g ow in
        if \<not> sl_submission_accepted mine then count_spurious ow g
        else if sl_quarantined mine then
          releaseSlot ow (set_diag ow (\<lambda>d. d\<lparr>gd_late_completions := gd_late_completions d + 1\<rparr>) g)
        else if sl_event_ready mine then count_spurious ow g
        else set_slot ow (\<lambda>s. s\<lparr>sl_event_ready := True, sl_event_success := (event = FLASH_OPERATION_SUCCESS)\<rparr>) g)"

fun drain_queue :: "soc_event list \<Rightarrow> FlashMutationGate \<Rightarrow> FlashMutationGate" where
  "drain_queue [] g = g"
| "drain_queue (event # rest) g =
     drain_queue rest (if event \<noteq> FLASH_OPERATION_SUCCESS \<and> event \<noteq> FLASH_OPERATION_ERROR then g
                       else handleFlashEvent event g)"

definition pumpEvents :: "gate_env \<Rightarrow> FlashMutationGate \<Rightarrow> FlashMutationGate" where
  "pumpEvents e g =
     (if \<not> softDeviceEnabled e then g
      else if fg_bluefruit g then
        let (g, bridged) = takeBridgedGateEvent g in
        if bridged = 1 then handleFlashEvent FLASH_OPERATION_SUCCESS g
        else if bridged = 2 then handleFlashEvent FLASH_OPERATION_ERROR g else g
      else drain_queue (fg_queue g) (g\<lparr>fg_queue := []\<rparr>))"

section \<open>The gate at work\<close>

text \<open>
  The ports the stores hold, and everything that can happen to the gate: calls through a port, the loop's
  \<open>pumpEvents\<close>, the two framework hooks of InternalFS, the SoC callback of the Bluefruit task, an event
  entering the SoftDevice's own queue and the hand-over of that queue.
\<close>

datatype Port = HistoryPort | ConfigPort | GeofencePort | ProductPort | SecurityCriticalPort | SecurityMaintPort

fun port_owner :: "Port \<Rightarrow> Owner" where
  "port_owner HistoryPort = Owner.kHistory"
| "port_owner ConfigPort = Owner.kConfig"
| "port_owner GeofencePort = Owner.kGeofence"
| "port_owner ProductPort = Owner.kProduct"
| "port_owner SecurityCriticalPort = Owner.kSecurity"
| "port_owner SecurityMaintPort = Owner.kSecurity"

fun port_priority :: "Port \<Rightarrow> Priority" where
  "port_priority HistoryPort = Priority.kHistory"
| "port_priority ConfigPort = Priority.kConfig"
| "port_priority GeofencePort = Priority.kGeofence"
| "port_priority ProductPort = Priority.kProduct"
| "port_priority SecurityCriticalPort = kSecCritical"
| "port_priority SecurityMaintPort = kSecMaint"

text \<open>The ports forward to them.\<close>

fun port_begin :: "Port \<Rightarrow> gate_env \<Rightarrow> FlashMutationGate \<Rightarrow> FlashMutationGate \<times> bool" where
  "port_begin HistoryPort = beginHistory"
| "port_begin ConfigPort = beginConfig"
| "port_begin GeofencePort = beginGeofence"
| "port_begin ProductPort = beginProduct"
| "port_begin SecurityCriticalPort = beginSecurity"
| "port_begin SecurityMaintPort = beginSecurity"

fun port_read :: "Port \<Rightarrow> gate_env \<Rightarrow> FlashMutationGate \<Rightarrow> nat \<Rightarrow> nat \<Rightarrow> bytes option" where
  "port_read HistoryPort = readHistory"
| "port_read ConfigPort = readConfig"
| "port_read GeofencePort = readGeofence"
| "port_read ProductPort = readProduct"
| "port_read SecurityCriticalPort = readSecurity"
| "port_read SecurityMaintPort = readSecurity"

fun port_program :: "Port \<Rightarrow> gate_env \<Rightarrow> nat \<Rightarrow> bytes \<Rightarrow> FlashMutationGate \<Rightarrow> FlashMutationGate \<times> FlashOpResult" where
  "port_program HistoryPort = programHistory"
| "port_program ConfigPort = programConfig"
| "port_program GeofencePort = programGeofence"
| "port_program ProductPort = programProduct"
| "port_program SecurityCriticalPort = programSecurity kSecCritical"
| "port_program SecurityMaintPort = programSecurity kSecMaint"

fun port_erasePage :: "Port \<Rightarrow> gate_env \<Rightarrow> nat \<Rightarrow> FlashMutationGate \<Rightarrow> FlashMutationGate \<times> FlashOpResult" where
  "port_erasePage HistoryPort = erasePageHistory"
| "port_erasePage ConfigPort = erasePageConfig"
| "port_erasePage GeofencePort = erasePageGeofence"
| "port_erasePage ProductPort = erasePageProduct"
| "port_erasePage SecurityCriticalPort = erasePageSecurity kSecCritical"
| "port_erasePage SecurityMaintPort = erasePageSecurity kSecMaint"

fun port_pollPending :: "Port \<Rightarrow> gate_env \<Rightarrow> FlashMutationGate \<Rightarrow> FlashMutationGate \<times> FlashOpResult" where
  "port_pollPending HistoryPort = pollPendingHistory"
| "port_pollPending ConfigPort = pollPendingConfig"
| "port_pollPending GeofencePort = pollPendingGeofence"
| "port_pollPending ProductPort = pollPendingProduct"
| "port_pollPending SecurityCriticalPort = pollPendingSecurity"
| "port_pollPending SecurityMaintPort = pollPendingSecurity"

datatype gate_event =
    CallBegin Port gate_env
  | CallProgram Port gate_env nat bytes
  | CallErase Port gate_env nat
  | CallPoll Port gate_env
  | CallPump gate_env
  | InternalFsAcquire
  | InternalFsRelease
  | SocCallback soc_event
  | SocQueue soc_event
  | SocOwner bool

fun gate_do :: "gate_event \<Rightarrow> FlashMutationGate \<Rightarrow> FlashMutationGate \<times> FlashOpResult option" where
  "gate_do (CallBegin p e) g = (fst (port_begin p e g), None)"
| "gate_do (CallProgram p e offset data) g =
     (let (g, r) = port_program p e offset data g in (g, Some r))"
| "gate_do (CallErase p e page) g =
     (let (g, r) = port_erasePage p e page g in (g, Some r))"
| "gate_do (CallPoll p e) g = (let (g, r) = port_pollPending p e g in (g, Some r))"
| "gate_do (CallPump e) g = (pumpEvents e g, None)"
| "gate_do InternalFsAcquire g = (fst (orun_flash_internalfs_try_acquire g), None)"
| "gate_do InternalFsRelease g = (orun_flash_internalfs_release g, None)"
| "gate_do (SocCallback event) g = (orun_flash_gate_soc_event_cb event g, None)"
| "gate_do (SocQueue event) g = (g\<lparr>fg_queue := fg_queue g @ [event]\<rparr>, None)"
| "gate_do (SocOwner active) g = (orun_flash_gate_set_bluefruit_soc_owner active g, None)"

definition gate_run :: "gate_event list \<Rightarrow> FlashMutationGate \<Rightarrow> FlashMutationGate" where
  "gate_run es g = foldl (\<lambda>g event. fst (gate_do event g)) g es"

inductive gate_reachable :: "FlashMutationGate \<Rightarrow> bool" where
  initial: "gate_reachable FlashMutationGate_init"
| happens: "gate_reachable g \<Longrightarrow> gate_reachable (fst (gate_do event g))"

section \<open>Reading the state after an update\<close>

lemma client_proper [simp]: "ow \<noteq> Owner.kNone \<Longrightarrow> client ow = ow"
  by (simp add: client_def)

lemma port_owner_proper [simp]: "port_owner p \<noteq> Owner.kNone"
  by (cases p) simp_all

text \<open>Every port is the generic code at its owner and class.\<close>

lemma port_generic [simp]:
  "port_begin p = gate_begin (port_owner p)" "port_read p = gate_read (port_owner p)"
  "port_program p = gate_program (port_owner p) (port_priority p)"
  "port_erasePage p = gate_erasePage (port_owner p) (port_priority p)"
  "port_pollPending p = gate_pollPending (port_owner p)"
  by (cases p; simp add: fun_eq_iff beginHistory_def beginConfig_def beginGeofence_def beginProduct_def beginSecurity_def
      readHistory_def readConfig_def readGeofence_def readProduct_def readSecurity_def programHistory_def
      programConfig_def programGeofence_def programProduct_def programSecurity_def erasePageHistory_def
      erasePageConfig_def erasePageGeofence_def erasePageProduct_def erasePageSecurity_def pollPendingHistory_def
      pollPendingConfig_def pollPendingGeofence_def pollPendingProduct_def pollPendingSecurity_def)+

lemma set_slot_fields [simp]:
  "fg_in_flight (set_slot ow f g) = fg_in_flight g" "fg_shared (set_slot ow f g) = fg_shared g"
  "fg_calls (set_slot ow f g) = fg_calls g" "fg_last (set_slot ow f g) = fg_last g"
  "fg_staging (set_slot ow f g) = fg_staging g" "fg_diag (set_slot ow f g) = fg_diag g"
  "fg_mailbox (set_slot ow f g) = fg_mailbox g" "fg_queue (set_slot ow f g) = fg_queue g"
  "fg_bluefruit (set_slot ow f g) = fg_bluefruit g" "fg_ready (set_slot ow f g) = fg_ready g"
  "diag (set_slot ow f g) o' = diag g o'" "staging (set_slot ow f g) o' = staging g o'"
  by (simp_all add: set_slot_def diag_def staging_def)

lemma set_diag_fields [simp]:
  "fg_in_flight (set_diag ow f g) = fg_in_flight g" "fg_shared (set_diag ow f g) = fg_shared g"
  "fg_calls (set_diag ow f g) = fg_calls g" "fg_last (set_diag ow f g) = fg_last g"
  "fg_staging (set_diag ow f g) = fg_staging g" "fg_slot (set_diag ow f g) = fg_slot g"
  "fg_mailbox (set_diag ow f g) = fg_mailbox g" "fg_queue (set_diag ow f g) = fg_queue g"
  "fg_bluefruit (set_diag ow f g) = fg_bluefruit g" "fg_ready (set_diag ow f g) = fg_ready g"
  "slot (set_diag ow f g) o' = slot g o'" "staging (set_diag ow f g) o' = staging g o'"
  by (simp_all add: set_diag_def slot_def staging_def)

lemma slot_set_slot [simp]:
  "slot (set_slot ow f g) o' = (if client o' = client ow then f (slot g o') else slot g o')"
  by (simp add: set_slot_def slot_def)

lemma diag_set_diag [simp]:
  "diag (set_diag ow f g) o' = (if client o' = client ow then f (diag g o') else diag g o')"
  by (simp add: set_diag_def diag_def)

lemma other_updates [simp]:
  "slot (fg_shared_update h g) o' = slot g o'" "diag (fg_shared_update h g) o' = diag g o'"
  "staging (fg_shared_update h g) o' = staging g o'"
  "slot (fg_in_flight_update k g) o' = slot g o'" "diag (fg_in_flight_update k g) o' = diag g o'"
  "staging (fg_in_flight_update k g) o' = staging g o'"
  "slot (fg_last_update k g) o' = slot g o'" "diag (fg_last_update k g) o' = diag g o'"
  "staging (fg_last_update k g) o' = staging g o'"
  "slot (fg_calls_update l g) o' = slot g o'" "diag (fg_calls_update l g) o' = diag g o'"
  "staging (fg_calls_update l g) o' = staging g o'"
  "slot (fg_mailbox_update m g) o' = slot g o'" "diag (fg_mailbox_update m g) o' = diag g o'"
  "staging (fg_mailbox_update m g) o' = staging g o'"
  "slot (fg_queue_update n g) o' = slot g o'" "diag (fg_queue_update n g) o' = diag g o'"
  "staging (fg_queue_update n g) o' = staging g o'"
  "slot (fg_bluefruit_update b g) o' = slot g o'" "diag (fg_bluefruit_update b g) o' = diag g o'"
  "staging (fg_bluefruit_update b g) o' = staging g o'"
  "slot (fg_ready_update r g) o' = slot g o'" "diag (fg_ready_update r g) o' = diag g o'"
  "staging (fg_ready_update r g) o' = staging g o'"
  "slot (fg_sync_ready_update r g) o' = slot g o'" "diag (fg_sync_ready_update r g) o' = diag g o'"
  "staging (fg_sync_ready_update r g) o' = staging g o'"
  "slot (fg_staging_update t g) o' = slot g o'" "diag (fg_staging_update t g) o' = diag g o'"
  by (simp_all add: slot_def diag_def staging_def)

lemma release_fields:
  "slot (releaseSlot ow g) o' = (if client o' = client ow
     then (slot g o')\<lparr>sl_kind := Kind.kNone, sl_admitted := False, sl_token_acquired := False,
            sl_submission_accepted := False, sl_event_ready := False, sl_quarantined := False, sl_staging_size := 0\<rparr>
     else slot g o')"
  "diag (releaseSlot ow g) o' = diag g o'" "staging (releaseSlot ow g) o' = staging g o'"
  "fg_in_flight (releaseSlot ow g) = (if fg_in_flight g = ow then Owner.kNone else fg_in_flight g)"
  "fg_shared (releaseSlot ow g) = (if fg_shared g = kGate then SharedFlashOwner.kNone else fg_shared g)"
  "fg_calls (releaseSlot ow g) = fg_calls g"
  by (simp_all add: releaseSlot_def releaseSharedFlash_def Let_def)

section \<open>The invariant\<close>

definition in_page :: "nat \<Rightarrow> nat \<Rightarrow> bool" where
  "in_page offset n \<longleftrightarrow> 0 < n \<and> n \<le> kPageSize - offset mod kPageSize \<and> offset mod 4 = 0 \<and> n mod 4 = 0"

text \<open>A vendor call that stays inside its client's region, on whole words of one page.\<close>

fun confined_call :: "Owner \<Rightarrow> vendor_call \<Rightarrow> bool" where
  "confined_call ow (VendorWrite a data) \<longleftrightarrow>
     (\<exists>offset. a = region_start ow + offset \<and> fg_inBounds ow offset (length data) \<and> in_page offset (length data))"
| "confined_call ow (VendorErase p) \<longleftrightarrow>
     (\<exists>page<region_pages ow. p = region_start ow div kPageSize + page)"

fun may_use :: "Owner \<Rightarrow> Priority \<Rightarrow> bool" where
  "may_use Owner.kHistory pr \<longleftrightarrow> pr = Priority.kHistory"
| "may_use Owner.kConfig pr \<longleftrightarrow> pr = Priority.kConfig"
| "may_use Owner.kGeofence pr \<longleftrightarrow> pr = Priority.kGeofence"
| "may_use Owner.kProduct pr \<longleftrightarrow> pr = Priority.kProduct"
| "may_use _ pr \<longleftrightarrow> pr = kSecCritical \<or> pr = kSecMaint"

definition slot_ok :: "Slot \<Rightarrow> bool" where
  "slot_ok s \<longleftrightarrow>
     (sl_admitted s \<longrightarrow> sl_kind s \<noteq> Kind.kNone) \<and> (sl_token_acquired s \<longrightarrow> sl_admitted s) \<and>
     (sl_submission_accepted s \<longrightarrow> sl_token_acquired s) \<and> (sl_event_ready s \<longrightarrow> sl_submission_accepted s) \<and>
     (sl_quarantined s \<longrightarrow> sl_submission_accepted s \<and> \<not> sl_event_ready s)"

definition diag_balanced :: "Slot \<Rightarrow> GateDiagnostics \<Rightarrow> bool" where
  "diag_balanced s d \<longleftrightarrow> gd_async_accepted d =
     gd_completions_success d + gd_completions_error d + gd_late_completions d +
     (if sl_submission_accepted s then 1 else 0)"

definition client_inv :: "FlashMutationGate \<Rightarrow> Owner \<Rightarrow> bool" where
  "client_inv g ow \<longleftrightarrow>
     slot_ok (slot g ow) \<and> diag_balanced (slot g ow) (diag g ow) \<and>
     (sl_admitted (slot g ow) \<longleftrightarrow> fg_in_flight g = ow) \<and>
     (sl_token_acquired (slot g ow) \<longrightarrow> fg_shared g = kGate) \<and>
     (sl_kind (slot g ow) \<noteq> Kind.kNone \<longrightarrow> may_use ow (sl_priority (slot g ow))) \<and>
     (\<forall>c. slot_call g ow = Some c \<longrightarrow> confined_call ow c)"

definition gate_inv :: "FlashMutationGate \<Rightarrow> bool" where
  "gate_inv g \<longleftrightarrow> (\<forall>ow. ow \<noteq> Owner.kNone \<longrightarrow> client_inv g ow) \<and>
     (fg_shared g = kGate \<longrightarrow> fg_in_flight g \<noteq> Owner.kNone \<and> sl_token_acquired (slot g (fg_in_flight g))) \<and>
     (\<forall>(ow, c, r)\<in>set (fg_calls g). ow \<noteq> Owner.kNone \<and> confined_call ow c)"

lemma gate_init_inv: "gate_inv FlashMutationGate_init"
  by (simp add: gate_inv_def client_inv_def FlashMutationGate_init_def slot_def diag_def Slot_init_def
      GateDiagnostics_init_def slot_ok_def diag_balanced_def slot_call_def)

text \<open>The invariant does not depend on the driver flags, the event sources and most counters.\<close>

lemma gate_inv_cong:
  assumes "gate_inv g" "\<And>ow. ow \<noteq> Owner.kNone \<Longrightarrow> slot g' ow = slot g ow"
    "\<And>ow. ow \<noteq> Owner.kNone \<Longrightarrow> sl_kind (slot g ow) = kProgram \<Longrightarrow> staging g' ow = staging g ow"
    "\<And>ow. ow \<noteq> Owner.kNone \<Longrightarrow> gd_async_accepted (diag g' ow) = gd_async_accepted (diag g ow) \<and>
       gd_completions_success (diag g' ow) = gd_completions_success (diag g ow) \<and>
       gd_completions_error (diag g' ow) = gd_completions_error (diag g ow) \<and>
       gd_late_completions (diag g' ow) = gd_late_completions (diag g ow)"
    "fg_in_flight g' = fg_in_flight g" "fg_shared g' = kGate \<longleftrightarrow> fg_shared g = kGate" "fg_calls g' = fg_calls g"
  shows "gate_inv g'"
proof -
  have "client_inv g' ow" if ow: "ow \<noteq> Owner.kNone" for ow
  proof -
    have c: "client_inv g ow" using assms(1) ow by (simp add: gate_inv_def)
    have "slot_call g' ow = slot_call g ow"
      using assms(2,3) [OF ow] by (simp add: slot_call_def split: Kind.split)
    then show ?thesis using c assms(2,4) [OF ow] assms(5,6)
      by (simp add: client_inv_def diag_balanced_def)
  qed
  moreover have "slot g' (fg_in_flight g) = slot g (fg_in_flight g)" if "fg_in_flight g \<noteq> Owner.kNone"
    using assms(2) that by simp
  ultimately show ?thesis using assms(1,5,6,7) by (auto simp: gate_inv_def)
qed

lemma slot_call_cong:
  "slot g' ow = slot g ow \<Longrightarrow> staging g' ow = staging g ow \<Longrightarrow> slot_call g' ow = slot_call g ow"
  by (simp add: slot_call_def split: Kind.split)

lemma count_inv:
  assumes "gate_inv g"
  shows "gate_inv (count_busy ow g)" "gate_inv (count_timeout ow g)" "gate_inv (count_spurious ow g)"
    "gate_inv (count_submit ow g)"
  by ((rule gate_inv_cong [OF assms]; simp add: count_busy_def), (rule gate_inv_cong [OF assms]; simp add: count_timeout_def),
      (rule gate_inv_cong [OF assms]; simp add: count_spurious_def), (rule gate_inv_cong [OF assms]; simp add: count_submit_def))

lemma release_inv:
  assumes inv: "gate_inv g" and fl: "fg_in_flight g = ow" "ow \<noteq> Owner.kNone" and acc: "\<not> sl_submission_accepted (slot g ow)"
  shows "gate_inv (releaseSlot ow g)"
proof -
  have "client_inv (releaseSlot ow g) o'" if o': "o' \<noteq> Owner.kNone" for o'
  proof (cases "o' = ow")
    case True
    then show ?thesis using inv fl acc
      by (simp add: gate_inv_def client_inv_def release_fields slot_ok_def diag_balanced_def slot_call_def)
  next
    case False
    have c: "client_inv g o'" using inv o' by (simp add: gate_inv_def)
    then have "\<not> sl_admitted (slot g o')" using False fl by (simp add: client_inv_def)
    moreover have "slot_call (releaseSlot ow g) o' = slot_call g o'"
      by (rule slot_call_cong) (use False fl o' in \<open>simp_all add: release_fields\<close>)
    ultimately show ?thesis using c False fl o'
      by (auto simp: client_inv_def release_fields slot_ok_def)
  qed
  then show ?thesis using inv by (auto simp: gate_inv_def release_fields split: if_splits)
qed

lemma release_set_diag: "releaseSlot ow (set_diag o' f g) = set_diag o' f (releaseSlot ow g)"
  by (simp add: releaseSlot_def releaseSharedFlash_def set_slot_def set_diag_def Let_def)

text \<open>An accepted operation is given up only together with its completion being counted.\<close>

lemma complete_inv:
  assumes inv: "gate_inv g" and fl: "fg_in_flight g = ow" "ow \<noteq> Owner.kNone" and acc: "sl_submission_accepted (slot g ow)"
    and f: "\<And>d. gd_async_accepted (f d) = gd_async_accepted d"
      "\<And>d. gd_completions_success (f d) + gd_completions_error (f d) + gd_late_completions (f d) =
        gd_completions_success d + gd_completions_error d + gd_late_completions d + 1"
  shows "gate_inv (set_diag ow f (releaseSlot ow g))"
proof -
  let ?g = "set_diag ow f (releaseSlot ow g)"
  have "client_inv ?g o'" if o': "o' \<noteq> Owner.kNone" for o'
  proof (cases "o' = ow")
    case True
    then show ?thesis using inv fl acc f
      by (simp add: gate_inv_def client_inv_def release_fields slot_ok_def diag_balanced_def slot_call_def)
  next
    case False
    have c: "client_inv g o'" using inv o' by (simp add: gate_inv_def)
    then have "\<not> sl_admitted (slot g o')" using False fl by (simp add: client_inv_def)
    moreover have "slot_call ?g o' = slot_call g o'"
      by (rule slot_call_cong) (use False fl o' in \<open>simp_all add: release_fields\<close>)
    ultimately show ?thesis using c False fl o'
      by (auto simp: client_inv_def release_fields slot_ok_def)
  qed
  then show ?thesis using inv by (auto simp: gate_inv_def release_fields split: if_splits)
qed

text \<open>
  Updates of the slot in flight that keep its request, its admission and what the SoftDevice accepted.
\<close>

lemma own_slot_inv:
  assumes inv: "gate_inv g" and fl: "fg_in_flight g = ow" "ow \<noteq> Owner.kNone"
    and same: "slot g' ow = f (slot g ow)" "\<And>o'. o' \<noteq> Owner.kNone \<Longrightarrow> o' \<noteq> ow \<Longrightarrow> slot g' o' = slot g o'"
      "\<And>o'. o' \<noteq> Owner.kNone \<Longrightarrow> staging g' o' = staging g o'" "fg_in_flight g' = ow"
    and f: "sl_kind (f (slot g ow)) = sl_kind (slot g ow)" "sl_target (f (slot g ow)) = sl_target (slot g ow)"
      "sl_staging_size (f (slot g ow)) = sl_staging_size (slot g ow)" "sl_priority (f (slot g ow)) = sl_priority (slot g ow)"
      "sl_admitted (f (slot g ow))" "slot_ok (f (slot g ow))"
    and d: "diag_balanced (f (slot g ow)) (diag g' ow)" "\<And>o'. o' \<noteq> Owner.kNone \<Longrightarrow> o' \<noteq> ow \<Longrightarrow> diag g' o' = diag g o'"
    and t: "sl_token_acquired (f (slot g ow)) \<longleftrightarrow> fg_shared g' = kGate"
    and c: "\<forall>(o', c, r)\<in>set (fg_calls g') - set (fg_calls g). o' = ow \<and> slot_call g ow = Some c"
  shows "gate_inv g'"
proof -
  have me: "client_inv g ow" using inv fl by (simp add: gate_inv_def)
  have sc: "slot_call g' ow = slot_call g ow"
    using same(1,3) fl(2) f(1-3) by (simp add: slot_call_def split: Kind.split)
  have "client_inv g' o'" if o': "o' \<noteq> Owner.kNone" for o'
  proof (cases "o' = ow")
    case True
    then show ?thesis using me same(1,4) f d(1) t sc by (auto simp: client_inv_def)
  next
    case False
    have i: "client_inv g o'" using inv o' by (simp add: gate_inv_def)
    then have "\<not> sl_admitted (slot g o')" using False fl by (simp add: client_inv_def)
    moreover have "slot_call g' o' = slot_call g o'" by (rule slot_call_cong) (use False o' same in simp_all)
    ultimately show ?thesis using i False fl o' same d(2)
      by (auto simp: client_inv_def slot_ok_def)
  qed
  moreover have "o' \<noteq> Owner.kNone \<and> confined_call o' x" if m: "(o', x, r) \<in> set (fg_calls g')" for o' x r
  proof (cases "(o', x, r) \<in> set (fg_calls g)")
    case True
    then show ?thesis using inv by (auto simp: gate_inv_def)
  next
    case False
    then have "o' = ow \<and> slot_call g ow = Some x" using c m by blast
    then show ?thesis using me fl by (simp add: client_inv_def)
  qed
  ultimately show ?thesis using same(1,4) t fl by (auto simp: gate_inv_def)
qed

lemma in_flight_slot:
  assumes "gate_inv g" "fg_in_flight g = ow" "ow \<noteq> Owner.kNone"
  shows "sl_admitted (slot g ow)" "slot_ok (slot g ow)" "diag_balanced (slot g ow) (diag g ow)"
    "sl_token_acquired (slot g ow) \<longleftrightarrow> fg_shared g = kGate"
  using assms by (auto simp: gate_inv_def client_inv_def)

lemma quarantine_inv:
  assumes "gate_inv g" "fg_in_flight g = ow" "ow \<noteq> Owner.kNone" "sl_submission_accepted (slot g ow)" "\<not> sl_event_ready (slot g ow)"
  shows "gate_inv (quarantineSlot ow g)"
  by (rule own_slot_inv [OF assms(1-3), where f = "\<lambda>s. s\<lparr>sl_quarantined := True\<rparr>"])
     (use assms(2-5) in_flight_slot [OF assms(1-3)] in \<open>auto simp: quarantineSlot_def slot_ok_def diag_balanced_def\<close>)

lemma handle_event_inv:
  assumes inv: "gate_inv g"
  shows "gate_inv (handleFlashEvent event g)"
proof -
  let ?ow = "fg_in_flight g"
  have "gate_inv (releaseSlot ?ow (set_diag ?ow (\<lambda>d. d\<lparr>gd_late_completions := gd_late_completions d + 1\<rparr>) g))"
    if "?ow \<noteq> Owner.kNone" "sl_submission_accepted (slot g ?ow)"
    unfolding release_set_diag by (rule complete_inv [OF inv refl that]) simp_all
  moreover have "gate_inv (set_slot ?ow (\<lambda>s. s\<lparr>sl_event_ready := True, sl_event_success := b\<rparr>) g)"
    if "?ow \<noteq> Owner.kNone" "sl_submission_accepted (slot g ?ow)" "\<not> sl_quarantined (slot g ?ow)" for b
    by (rule own_slot_inv [OF inv refl that(1), where f = "\<lambda>s. s\<lparr>sl_event_ready := True, sl_event_success := b\<rparr>"])
       (use that in_flight_slot [OF inv refl that(1)] in \<open>auto simp: slot_ok_def diag_balanced_def\<close>)
  ultimately show ?thesis using inv count_inv(3) [OF inv] by (simp add: handleFlashEvent_def Let_def)
qed

lemma drain_inv: "gate_inv g \<Longrightarrow> gate_inv (drain_queue es g)"
  by (induction es g rule: drain_queue.induct) (simp_all add: handle_event_inv)

lemma pump_inv:
  assumes "gate_inv g"
  shows "gate_inv (pumpEvents e g)"
proof -
  have "gate_inv (g\<lparr>fg_mailbox := 0\<rparr>)" "gate_inv (g\<lparr>fg_queue := []\<rparr>)"
    by (rule gate_inv_cong [OF assms]; simp)+
  then show ?thesis using assms
    by (simp add: pumpEvents_def takeBridgedGateEvent_def Let_def handle_event_inv drain_inv)
qed

section \<open>Submission keeps the invariant\<close>

text \<open>The state in which \<open>submit_call\<close> makes the vendor call: the token is the gate's and noted in the slot.\<close>

definition take_token :: "Owner \<Rightarrow> gate_env \<Rightarrow> FlashMutationGate \<Rightarrow> FlashMutationGate" where
  "take_token ow e g =
     (let g = g\<lparr>fg_shared := kGate\<rparr> in
      if sl_token_acquired (slot g ow) then g
      else set_slot ow (\<lambda>s. s\<lparr>sl_token_acquired := True, sl_started_ms := ge_token_ms e\<rparr>) g)"

definition log_call :: "Owner \<Rightarrow> gate_env \<Rightarrow> FlashMutationGate \<Rightarrow> FlashMutationGate" where
  "log_call ow e g = (case slot_call g ow of None \<Rightarrow> g | Some c \<Rightarrow> g\<lparr>fg_calls := fg_calls g @ [(ow, c, ge_result e)]\<rparr>)"

lemma take_token_fields:
  "slot (take_token ow e g) o' = (if client o' = client ow \<and> \<not> sl_token_acquired (slot g ow)
     then (slot g o')\<lparr>sl_token_acquired := True, sl_started_ms := ge_token_ms e\<rparr> else slot g o')"
  "diag (take_token ow e g) o' = diag g o'" "staging (take_token ow e g) o' = staging g o'"
  "fg_in_flight (take_token ow e g) = fg_in_flight g" "fg_shared (take_token ow e g) = kGate"
  "fg_calls (take_token ow e g) = fg_calls g"
  by (simp_all add: take_token_def Let_def)

lemma log_call_fields [simp]:
  "slot (log_call ow e g) o' = slot g o'" "diag (log_call ow e g) o' = diag g o'"
  "staging (log_call ow e g) o' = staging g o'" "fg_in_flight (log_call ow e g) = fg_in_flight g"
  "fg_shared (log_call ow e g) = fg_shared g"
  "fg_calls (log_call ow e g) = fg_calls g @ (case slot_call g ow of None \<Rightarrow> [] | Some c \<Rightarrow> [(ow, c, ge_result e)])"
  by (simp_all add: log_call_def split: option.split)

lemma take_token_inv:
  assumes "gate_inv g" "fg_in_flight g = ow" "ow \<noteq> Owner.kNone" "fg_shared g \<noteq> kInternalFs"
  shows "gate_inv (take_token ow e g)"
proof (cases "sl_token_acquired (slot g ow)")
  case True
  then have "fg_shared g = kGate" using in_flight_slot(4) [OF assms(1-3)] by simp
  then show ?thesis
    by (intro gate_inv_cong [OF assms(1)]) (use True assms in \<open>auto simp: take_token_fields\<close>)
next
  case False
  show ?thesis
    by (rule own_slot_inv [OF assms(1-3), where f = "\<lambda>s. s\<lparr>sl_token_acquired := True, sl_started_ms := ge_token_ms e\<rparr>"])
       (use False assms in_flight_slot [OF assms(1-3)] in \<open>auto simp: take_token_fields slot_ok_def diag_balanced_def\<close>)
qed

lemma log_call_inv:
  assumes "gate_inv g" "fg_in_flight g = ow" "ow \<noteq> Owner.kNone"
  shows "gate_inv (log_call ow e g)"
  by (rule own_slot_inv [OF assms, where f = "\<lambda>s. s"])
     (use assms in_flight_slot [OF assms] in \<open>auto split: option.splits\<close>)

text \<open>What \<open>attemptSubmit\<close> does, case by case.\<close>

definition submitted :: "Owner \<Rightarrow> gate_env \<Rightarrow> FlashMutationGate \<Rightarrow> FlashMutationGate \<times> FlashOpResult" where
  "submitted ow e g =
     (let g = log_call ow e (take_token ow e g) in
      if ge_result e = NRF_SUCCESS then
        (set_diag ow (\<lambda>d. d\<lparr>gd_async_accepted := gd_async_accepted d + 1\<rparr>)
           (set_slot ow (\<lambda>s. s\<lparr>sl_submission_accepted := True\<rparr>) g), kPending)
      else if ge_result e = NRF_ERROR_BUSY then
        if timedOut (ge_check_ms e) (sl_started_ms (slot g ow))
        then (count_timeout ow (releaseSlot ow (count_busy ow g)), kFailed) else (count_busy ow g, kPending)
      else (releaseSlot ow g, kFailed))"

lemma attempt_cases:
  assumes inv: "gate_inv g" and fl: "fg_in_flight g = ow" "ow \<noteq> Owner.kNone"
  shows "attemptSubmit ow e g =
    (if fg_shared g \<noteq> kInternalFs then submitted ow e g
     else if elapsed (ge_check_ms e) (sl_started_ms (slot g ow)) kTokenWaitTimeoutMs
     then (count_timeout ow (releaseSlot ow (count_busy ow g)), kFailed) else (count_busy ow g, kPending))"
proof -
  have k: "sl_kind (slot g ow) \<noteq> Kind.kNone" using in_flight_slot [OF inv fl] by (simp add: slot_ok_def)
  have call: "\<exists>c. slot_call (take_token ow e h) ow = Some c" if "slot h ow = slot g ow" for h
    using k that by (cases "sl_kind (slot g ow)") (simp_all add: slot_call_def take_token_fields)
  have "submit_call ow e (g\<lparr>fg_shared := kGate\<rparr>) = submitted ow e g"
    using call [of g] by (auto simp: submit_call_def submitted_def log_call_def take_token_def Let_def count_busy_def)
  moreover have "g\<lparr>fg_shared := kGate\<rparr> = g" if "fg_shared g = kGate" using that by simp
  ultimately show ?thesis
    by (cases "fg_shared g") (auto simp: attemptSubmit_def tryAcquireSharedFlash_def Let_def count_busy_def)
qed

lemma submitted_inv:
  assumes inv: "gate_inv g" and fl: "fg_in_flight g = ow" "ow \<noteq> Owner.kNone" and
    acc: "\<not> sl_submission_accepted (slot g ow)" "fg_shared g \<noteq> kInternalFs"
  shows "gate_inv (fst (submitted ow e g))"
proof -
  define h where "h = log_call ow e (take_token ow e g)"
  have h: "gate_inv h" "fg_in_flight h = ow" "\<not> sl_submission_accepted (slot h ow)" "sl_token_acquired (slot h ow)"
    using take_token_inv [OF inv fl acc(2)] fl acc
    by (simp_all add: h_def log_call_inv take_token_fields)
  have "gate_inv (set_diag ow (\<lambda>d. d\<lparr>gd_async_accepted := gd_async_accepted d + 1\<rparr>)
      (set_slot ow (\<lambda>s. s\<lparr>sl_submission_accepted := True\<rparr>) h))"
    by (rule own_slot_inv [OF h(1,2) fl(2), where f = "\<lambda>s. s\<lparr>sl_submission_accepted := True\<rparr>"])
       (use h fl in_flight_slot [OF h(1,2) fl(2)] in \<open>auto simp: slot_ok_def diag_balanced_def\<close>)
  moreover have "gate_inv (releaseSlot ow h)" by (rule release_inv [OF h(1,2) fl(2) h(3)])
  moreover have "gate_inv (releaseSlot ow (count_busy ow h))"
    by (rule release_inv [OF count_inv(1) [OF h(1)] _ fl(2)]) (use h in \<open>simp_all add: count_busy_def\<close>)
  ultimately show ?thesis using count_inv(1) [OF h(1)] by (simp add: submitted_def h_def [symmetric] Let_def count_inv(2))
qed

definition admit :: "Owner \<Rightarrow> gate_env \<Rightarrow> FlashMutationGate \<Rightarrow> FlashMutationGate" where
  "admit ow e g = set_slot ow (\<lambda>s. s\<lparr>sl_admitted := True, sl_started_ms := ge_admit_ms e\<rparr>)
     (g\<lparr>fg_in_flight := ow, fg_last := ow\<rparr>)"

definition owned_step :: "Owner \<Rightarrow> gate_env \<Rightarrow> FlashMutationGate \<Rightarrow> FlashMutationGate \<times> FlashOpResult" where
  "owned_step ow e g =
     (if \<not> sl_submission_accepted (slot g ow) then attemptSubmit ow e g
      else if sl_event_ready (slot g ow) then
        if sl_event_success (slot g ow) then
          (set_diag ow (\<lambda>d. d\<lparr>gd_completions_success := gd_completions_success d + 1\<rparr>) (releaseSlot ow g), kDone)
        else
          (set_diag ow (\<lambda>d. d\<lparr>gd_completions_error := gd_completions_error d + 1\<rparr>) (releaseSlot ow g), kFailed)
      else if timedOut (ge_check_ms e) (sl_started_ms (slot g ow)) then (count_timeout ow (quarantineSlot ow g), kFailed)
      else (g, kPending))"

lemma admit_fields:
  "slot (admit ow e g) o' = (if client o' = client ow
     then (slot g o')\<lparr>sl_admitted := True, sl_started_ms := ge_admit_ms e\<rparr> else slot g o')"
  "diag (admit ow e g) o' = diag g o'" "staging (admit ow e g) o' = staging g o'"
  "fg_in_flight (admit ow e g) = ow" "fg_shared (admit ow e g) = fg_shared g" "fg_calls (admit ow e g) = fg_calls g"
  by (simp_all add: admit_def)

text \<open>
  \<open>submitOrRetry\<close> in its four cases: held back, queued behind the operation of another client, the
  client's own operation, or admitted now.
\<close>

lemma submit_cases:
  assumes inv: "gate_inv g" and ow: "ow \<noteq> Owner.kNone"
  shows "submitOrRetry ow e g =
    (if fg_in_flight g = ow then owned_step ow e g
     else if fg_in_flight g \<noteq> Owner.kNone \<or> higherPriorityWaiting g (ge_rank_ms e) ow then (g, kPending)
     else owned_step ow e (admit ow e g))"
proof -
  have "sl_admitted (slot g ow) \<longleftrightarrow> fg_in_flight g = ow" using inv ow by (simp add: gate_inv_def client_inv_def)
  then show ?thesis using ow
    by (auto simp: submitOrRetry_def continueOwned_def owned_step_def admit_def Let_def)
qed

lemma not_admitted:
  assumes "gate_inv g" "ow \<noteq> Owner.kNone" "fg_in_flight g \<noteq> ow"
  shows "\<not> sl_admitted (slot g ow)" "\<not> sl_token_acquired (slot g ow)" "\<not> sl_submission_accepted (slot g ow)"
    "\<not> sl_event_ready (slot g ow)" "\<not> sl_quarantined (slot g ow)"
  using assms by (auto simp: gate_inv_def client_inv_def slot_ok_def)

lemma admit_inv:
  assumes inv: "gate_inv g" and ow: "ow \<noteq> Owner.kNone" and fl: "fg_in_flight g = Owner.kNone"
    and k: "sl_kind (slot g ow) \<noteq> Kind.kNone"
  shows "gate_inv (admit ow e g)"
proof -
  have fl': "fg_in_flight g \<noteq> ow" using fl ow by simp
  have "client_inv (admit ow e g) o'" if o': "o' \<noteq> Owner.kNone" for o'
  proof -
    have i: "client_inv g o'" using inv o' by (simp add: gate_inv_def)
    have "slot_call (admit ow e g) o' = slot_call g o'"
      by (simp add: slot_call_def admit_fields split: Kind.split)
    then show ?thesis using i o' ow k fl not_admitted [OF inv ow fl']
      by (auto simp: client_inv_def admit_fields slot_ok_def diag_balanced_def)
  qed
  then show ?thesis using inv fl by (auto simp: gate_inv_def admit_fields)
qed

lemma owned_step_inv:
  assumes inv: "gate_inv g" and fl: "fg_in_flight g = ow" "ow \<noteq> Owner.kNone"
  shows "gate_inv (fst (owned_step ow e g))"
proof (cases "sl_submission_accepted (slot g ow)")
  case False
  have "gate_inv (releaseSlot ow (count_busy ow g))"
    by (rule release_inv [OF count_inv(1) [OF inv] _ fl(2)]) (use fl False in \<open>simp_all add: count_busy_def\<close>)
  then show ?thesis
    using False submitted_inv [OF inv fl False] count_inv(1) [OF inv]
    by (simp add: owned_step_def attempt_cases [OF inv fl] count_inv(2))
next
  case True
  have "gate_inv (set_diag ow (\<lambda>d. d\<lparr>gd_completions_success := gd_completions_success d + 1\<rparr>) (releaseSlot ow g))"
    "gate_inv (set_diag ow (\<lambda>d. d\<lparr>gd_completions_error := gd_completions_error d + 1\<rparr>) (releaseSlot ow g))"
    by (rule complete_inv [OF inv fl True]; simp)+
  then show ?thesis using True inv quarantine_inv [OF inv fl True]
    by (simp add: owned_step_def count_inv(2))
qed

lemma submit_inv:
  assumes "gate_inv g" "ow \<noteq> Owner.kNone" "sl_kind (slot g ow) \<noteq> Kind.kNone"
  shows "gate_inv (fst (submitOrRetry ow e g))"
  using assms owned_step_inv [OF admit_inv [OF assms(1,2) _ assms(3)]] owned_step_inv [OF assms(1) _ assms(2)]
  by (simp add: submit_cases admit_fields)

lemma stage_inv:
  assumes inv: "gate_inv g" and ow: "ow \<noteq> Owner.kNone" and free: "sl_kind (slot g ow) = Kind.kNone"
    and mine: "slot_ok (slot g' ow)" "\<not> sl_admitted (slot g' ow)" "may_use ow (sl_priority (slot g' ow))"
      "\<And>c. slot_call g' ow = Some c \<Longrightarrow> confined_call ow c"
    and same: "\<And>o'. o' \<noteq> Owner.kNone \<Longrightarrow> o' \<noteq> ow \<Longrightarrow> slot g' o' = slot g o' \<and> staging g' o' = staging g o'"
      "\<And>o'. diag g' o' = diag g o'" "fg_in_flight g' = fg_in_flight g" "fg_shared g' = fg_shared g"
      "fg_calls g' = fg_calls g"
  shows "gate_inv g'"
proof -
  have me: "client_inv g ow" using inv ow by (simp add: gate_inv_def)
  have na: "fg_in_flight g \<noteq> ow" "\<not> sl_submission_accepted (slot g ow)"
    using me free by (auto simp: client_inv_def slot_ok_def)
  have "client_inv g' o'" if o': "o' \<noteq> Owner.kNone" for o'
  proof (cases "o' = ow")
    case True
    have "\<not> sl_token_acquired (slot g' ow)" "\<not> sl_submission_accepted (slot g' ow)"
      using mine(1,2) by (auto simp: slot_ok_def)
    then show ?thesis using True me mine na same by (auto simp: client_inv_def diag_balanced_def)
  next
    case False
    have "slot_call g' o' = slot_call g o'" by (rule slot_call_cong) (use False o' same in simp_all)
    moreover have "client_inv g o'" using inv o' by (simp add: gate_inv_def)
    ultimately show ?thesis using False o' same by (simp add: client_inv_def)
  qed
  then show ?thesis using inv same na by (auto simp: gate_inv_def)
qed

lemma may_use_port: "may_use (port_owner p) (port_priority p)"
  by (cases p) simp_all

lemma program_inv:
  assumes inv: "gate_inv g" and ow: "ow \<noteq> Owner.kNone" and pr: "may_use ow pr"
  shows "gate_inv (fst (gate_program ow pr e offset data g))"
proof -
  define h where "h = count_submit ow g"
  define h' where "h' = stage_request ow pr kProgram (region_start ow + offset) e
    (set_slot ow (\<lambda>s. s\<lparr>sl_staging_size := length data\<rparr>) (h\<lparr>fg_staging := (fg_staging h)(client ow := data)\<rparr>))"
  have h: "gate_inv h" using count_inv(4) [OF inv] by (simp add: h_def)
  have "gate_inv (fst (submitOrRetry ow e h'))" if b: "sl_kind (slot h ow) = Kind.kNone"
    "\<not> (length data = 0 \<or> \<not> fg_inBounds ow offset (length data) \<or> offset mod 4 \<noteq> 0 \<or> length data mod 4 \<noteq> 0 \<or>
       length data > staging_capacity ow \<or> length data > kPageSize - offset mod kPageSize)"
  proof (rule submit_inv [OF stage_inv [OF h ow b(1)] ow])
    show "confined_call ow c" if "slot_call h' ow = Some c" for c
      using that b(2) ow by (auto simp: slot_call_def h'_def stage_request_def staging_def in_page_def)
  qed (use ow pr in \<open>auto simp: h'_def stage_request_def slot_ok_def staging_def\<close>)
  then show ?thesis using inv h by (simp add: gate_program_def h_def [symmetric] h'_def [symmetric] Let_def)
qed

lemma erase_inv:
  assumes inv: "gate_inv g" and ow: "ow \<noteq> Owner.kNone" and pr: "may_use ow pr"
  shows "gate_inv (fst (gate_erasePage ow pr e page g))"
proof -
  define h where "h = count_submit ow g"
  define h' where "h' = stage_request ow pr kErase (region_start ow div kPageSize + page) e h"
  have h: "gate_inv h" using count_inv(4) [OF inv] by (simp add: h_def)
  have "gate_inv (fst (submitOrRetry ow e h'))" if b: "sl_kind (slot h ow) = Kind.kNone" "page < region_pages ow"
  proof (rule submit_inv [OF stage_inv [OF h ow b(1)] ow])
    show "confined_call ow c" if "slot_call h' ow = Some c" for c
      using that b(2) ow by (auto simp: slot_call_def h'_def stage_request_def)
  qed (use ow pr in \<open>auto simp: h'_def stage_request_def slot_ok_def\<close>)
  then show ?thesis using inv h by (simp add: gate_erasePage_def h_def [symmetric] h'_def [symmetric] Let_def)
qed

lemma gate_do_inv:
  assumes inv: "gate_inv g"
  shows "gate_inv (fst (gate_do event g))"
proof (cases event)
  case (CallBegin p e)
  then show ?thesis by (auto simp: gate_begin_def sync_begin_def Let_def intro: gate_inv_cong [OF inv])
next
  case (CallPoll p e)
  then show ?thesis using inv submit_inv [OF inv] by (simp add: gate_pollPending_def case_prod_beta)
next
  case InternalFsAcquire
  then show ?thesis using inv
    by (auto simp: orun_flash_internalfs_try_acquire_def tryAcquireSharedFlash_def intro: gate_inv_cong [OF inv])
next
  case InternalFsRelease
  then show ?thesis using inv
    by (auto simp: orun_flash_internalfs_release_def releaseSharedFlash_def intro: gate_inv_cong [OF inv])
next
  case (SocCallback x)
  then show ?thesis using inv
    by (auto simp: orun_flash_gate_soc_event_cb_def Let_def intro: gate_inv_cong [OF inv])
next
  case (SocQueue x)
  then show ?thesis by (auto intro: gate_inv_cong [OF inv])
next
  case (SocOwner x)
  then show ?thesis by (auto simp: orun_flash_gate_set_bluefruit_soc_owner_def intro: gate_inv_cong [OF inv])
qed (use inv in \<open>simp_all add: case_prod_beta program_inv erase_inv pump_inv may_use_port\<close>)

lemma gate_reachable_inv: "gate_reachable g \<Longrightarrow> gate_inv g"
  by (induction rule: gate_reachable.induct) (simp_all add: gate_init_inv gate_do_inv)

lemma gate_run_Nil [simp]: "gate_run [] g = g"
  and gate_run_Cons [simp]: "gate_run (event # es) g = gate_run es (fst (gate_do event g))"
  by (simp_all add: gate_run_def)

lemma gate_run_reachable: "gate_reachable g \<Longrightarrow> gate_reachable (gate_run es g)"
  by (induction es arbitrary: g) (simp_all add: gate_reachable.happens)

section \<open>One owner at a time\<close>

text \<open>
  C21: In every state the gate can reach, at most one client is admitted, and it is the one named as in
  flight.  The shared token is the gate's exactly while an admitted request holds it, and an operation
  the SoftDevice has accepted belongs to the client in flight.  Per client, the accepted operations are the
  successful, the failed and the late completions and the one still outstanding, so no operation is ever
  accounted for twice or lost.
\<close>

theorem gate_single_owner:
  assumes "gate_reachable g" and "ow \<noteq> Owner.kNone"
  shows "(sl_admitted (slot g ow) \<longleftrightarrow> fg_in_flight g = ow) \<and>
    (fg_shared g = kGate \<longleftrightarrow> fg_in_flight g \<noteq> Owner.kNone \<and> sl_token_acquired (slot g (fg_in_flight g))) \<and>
    (sl_submission_accepted (slot g ow) \<longrightarrow> fg_in_flight g = ow \<and> fg_shared g = kGate) \<and>
    gd_async_accepted (diag g ow) =
      gd_completions_success (diag g ow) + gd_completions_error (diag g ow) + gd_late_completions (diag g ow) +
      (if sl_submission_accepted (slot g ow) then 1 else 0)"
proof -
  have i: "gate_inv g" by (rule gate_reachable_inv [OF assms(1)])
  then have c: "client_inv g o'" if "o' \<noteq> Owner.kNone" for o' using that by (simp add: gate_inv_def)
  have "fg_shared g = kGate" if "fg_in_flight g \<noteq> Owner.kNone" "sl_token_acquired (slot g (fg_in_flight g))"
    using c [OF that(1)] that(2) by (simp add: client_inv_def)
  then show ?thesis using i c [OF assms(2)]
    by (auto simp: gate_inv_def client_inv_def slot_ok_def diag_balanced_def)
qed

section \<open>Every client keeps to its region\<close>

definition region_cells :: "Owner \<Rightarrow> nat set" where
  "region_cells ow = {region_start ow..<region_start ow + region_pages ow * kPageSize}"

fun call_cells :: "vendor_call \<Rightarrow> nat set" where
  "call_cells (VendorWrite a data) = {a..<a + length data}"
| "call_cells (VendorErase p) = {p * kPageSize..<p * kPageSize + kPageSize}"

lemmas region_constants = kBaseAddress_def kPageCount_def kProductRegionStart_def kProductRegionPages_def
  kGeofenceRegionStart_def kGeofenceRegionPages_def kFutureSecurityRegionStart_def kFutureSecurityRegionPages_def
  kFutureConfigRegionStart_def kFutureConfigRegionPages_def kPageSize_def

lemma regions_disjoint:
  assumes "ow \<noteq> Owner.kNone" "ow' \<noteq> Owner.kNone" "ow \<noteq> ow'"
  shows "region_cells ow \<inter> region_cells ow' = {}"
  using assms by (cases ow; cases ow'; simp add: region_cells_def region_constants ivl_disj_int)

lemma region_aligned: "region_start ow div kPageSize * kPageSize = region_start ow"
  by (cases ow) (simp_all add: region_constants)

lemma confined_cells:
  assumes "confined_call ow c"
  shows "call_cells c \<subseteq> region_cells ow"
proof (cases c)
  case (VendorWrite a data)
  then show ?thesis using assms by (auto simp: region_cells_def fg_inBounds_def)
next
  case (VendorErase p)
  then obtain page where p: "page < region_pages ow" "p = region_start ow div kPageSize + page" using assms by auto
  have "p * kPageSize = region_start ow + page * kPageSize"
    using region_aligned [of ow] p(2) by (simp add: add_mult_distrib)
  moreover have "page * kPageSize + kPageSize \<le> region_pages ow * kPageSize"
    using p(1) mult_le_mono1 [of "Suc page" "region_pages ow" kPageSize] by simp
  ultimately show ?thesis using VendorErase by (auto simp: region_cells_def)
qed

text \<open>
  Every vendor call the gate ever makes changes only cells of the region of the client it works for,
  and none of any other client's region; a write stays inside one page and covers whole aligned words.
\<close>

theorem gate_calls_confined:
  assumes "gate_reachable g" and "(ow, c, r) \<in> set (fg_calls g)"
  shows "call_cells c \<subseteq> region_cells ow \<and>
    (\<forall>ow'. ow' \<noteq> Owner.kNone \<and> ow' \<noteq> ow \<longrightarrow> call_cells c \<inter> region_cells ow' = {}) \<and>
    (\<forall>a data. c = VendorWrite a data \<longrightarrow> in_page (a - region_start ow) (length data))"
proof -
  have c: "ow \<noteq> Owner.kNone" "confined_call ow c"
    using gate_reachable_inv [OF assms(1)] assms(2) by (auto simp: gate_inv_def)
  then have "call_cells c \<inter> region_cells ow' = {}" if "ow' \<noteq> Owner.kNone" "ow' \<noteq> ow" for ow'
    using confined_cells [OF c(2)] regions_disjoint [OF c(1) that(1)] that(2) by blast
  then show ?thesis using c(2) confined_cells [OF c(2)] by auto
qed

section \<open>An accepted operation keeps the token\<close>

fun completion :: "soc_event \<Rightarrow> bool" where
  "completion OTHER_SOC_EVENT = False"
| "completion _ = True"

text \<open>A step that is not the SoftDevice reporting the end of a flash operation.\<close>

fun no_completion :: "gate_event \<Rightarrow> bool" where
  "no_completion (SocCallback event) = (\<not> completion event)"
| "no_completion (SocQueue event) = (\<not> completion event)"
| "no_completion _ = True"

definition outstanding :: "FlashMutationGate \<Rightarrow> Owner \<Rightarrow> bool" where
  "outstanding g ow \<longleftrightarrow> sl_submission_accepted (slot g ow) \<and> \<not> sl_event_ready (slot g ow) \<and>
     fg_mailbox g = 0 \<and> list_all (\<lambda>event. \<not> completion event) (fg_queue g)"

definition holds_on :: "FlashMutationGate \<Rightarrow> Owner \<Rightarrow> FlashMutationGate \<Rightarrow> bool" where
  "holds_on g0 ow g \<longleftrightarrow> fg_in_flight g = ow \<and> fg_shared g = kGate \<and> outstanding g ow \<and>
     slot_call g ow = slot_call g0 ow \<and> fg_calls g = fg_calls g0"

lemma completion_iff: "completion event \<longleftrightarrow> event = FLASH_OPERATION_SUCCESS \<or> event = FLASH_OPERATION_ERROR"
  by (cases event) simp_all

lemma drain_nothing: "list_all (\<lambda>event. \<not> completion event) es \<Longrightarrow> drain_queue es g = g"
  by (induction es g rule: drain_queue.induct) (simp_all add: completion_iff)

lemma holds_on_cong:
  assumes "holds_on g0 ow g" "slot g' ow = slot g ow" "staging g' ow = staging g ow" "fg_in_flight g' = fg_in_flight g"
    "fg_shared g' = fg_shared g" "fg_mailbox g' = fg_mailbox g" "list_all (\<lambda>event. \<not> completion event) (fg_queue g')"
    "fg_calls g' = fg_calls g"
  shows "holds_on g0 ow g'"
  using assms slot_call_cong [of g' ow g] by (simp add: holds_on_def outstanding_def)

lemma submit_holds_on:
  assumes h: "holds_on g0 ow g" and inv: "gate_inv g" and ow: "ow \<noteq> Owner.kNone" "o' \<noteq> Owner.kNone"
  shows "holds_on g0 ow (fst (submitOrRetry o' e g))"
proof (cases "o' = ow")
  case True
  have "slot_call (count_timeout ow (quarantineSlot ow g)) ow = slot_call g ow"
    by (simp add: slot_call_def count_timeout_def quarantineSlot_def staging_def set_slot_def set_diag_def slot_def
        split: Kind.split)
  then have "holds_on g0 ow (count_timeout ow (quarantineSlot ow g))"
    using h by (simp add: holds_on_def outstanding_def count_timeout_def quarantineSlot_def)
  then show ?thesis using True h ow
    by (simp add: submit_cases [OF inv] owned_step_def holds_on_def outstanding_def)
next
  case False
  then show ?thesis using h ow by (simp add: submit_cases [OF inv] holds_on_def)
qed

lemma queued_behind:
  "fg_in_flight g \<noteq> Owner.kNone \<Longrightarrow> fg_in_flight g \<noteq> o' \<Longrightarrow> submitOrRetry o' e g = (g, kPending)"
  by (simp add: submitOrRetry_def)

lemma program_holds_on:
  assumes h: "holds_on g0 ow g" and inv: "gate_inv g" and ow: "ow \<noteq> Owner.kNone" "o' \<noteq> Owner.kNone"
  shows "holds_on g0 ow (fst (gate_program o' pr e offset data g))"
    and "holds_on g0 ow (fst (gate_erasePage o' pr e page g))"
proof -
  have fl: "fg_in_flight g = ow" and q: "list_all (\<lambda>event. \<not> completion event) (fg_queue g)"
    using h by (simp_all add: holds_on_def outstanding_def)
  have busy: "sl_kind (slot g ow) \<noteq> Kind.kNone" using in_flight_slot [OF inv fl ow(1)] by (simp add: slot_ok_def)
  have c: "holds_on g0 ow (count_submit o' g)"
    by (rule holds_on_cong [OF h]) (use q in \<open>simp_all add: count_submit_def\<close>)
  have st: "holds_on g0 ow (stage_request o' pr k t e (count_submit o' g))" (is "holds_on _ _ ?g1")
    "holds_on g0 ow (stage_request o' pr k t e (set_slot o' (\<lambda>s. s\<lparr>sl_staging_size := n\<rparr>)
       ((count_submit o' g)\<lparr>fg_staging := (fg_staging (count_submit o' g))(client o' := d)\<rparr>)))" (is "holds_on _ _ ?g2")
    if "o' \<noteq> ow" for k t n d
    by (rule holds_on_cong [OF h]; use q that ow in \<open>simp add: stage_request_def count_submit_def staging_def\<close>)+
  have sub: "holds_on g0 ow (fst (submitOrRetry o' e x))" if "holds_on g0 ow x" "o' \<noteq> ow" for x
    using that ow queued_behind [of x o' e] by (auto simp: holds_on_def)
  show "holds_on g0 ow (fst (gate_program o' pr e offset data g))"
    using h c busy sub [OF st(2)] by (cases "o' = ow") (simp_all add: gate_program_def Let_def count_submit_def)
  show "holds_on g0 ow (fst (gate_erasePage o' pr e page g))"
    using h c busy sub [OF st(1)] by (cases "o' = ow") (simp_all add: gate_erasePage_def Let_def count_submit_def)
qed

lemma step_holds_on:
  assumes h: "holds_on g0 ow g" and inv: "gate_inv g" and ow: "ow \<noteq> Owner.kNone" and e: "no_completion event"
  shows "holds_on g0 ow (fst (gate_do event g))"
proof -
  have f: "fg_shared g = kGate" "fg_mailbox g = 0" and q: "list_all (\<lambda>event. \<not> completion event) (fg_queue g)"
    using h by (simp_all add: holds_on_def outstanding_def)
  show ?thesis
  proof (cases event)
    case (CallBegin p x)
    then show ?thesis using q by (auto simp: gate_begin_def sync_begin_def Let_def intro: holds_on_cong [OF h])
  next
    case (CallPoll p x)
    then show ?thesis using h submit_holds_on [OF h inv ow, of "port_owner p" x]
      by (simp add: gate_pollPending_def case_prod_beta)
  next
    case (CallPump x)
    have "holds_on g0 ow (g\<lparr>fg_mailbox := 0\<rparr>)" "holds_on g0 ow (g\<lparr>fg_queue := []\<rparr>)"
      by (rule holds_on_cong [OF h]; use f q in simp)+
    then show ?thesis using CallPump h f q
      by (simp add: pumpEvents_def takeBridgedGateEvent_def drain_nothing)
  next
    case (SocQueue x)
    then show ?thesis using q e by (auto intro: holds_on_cong [OF h])
  next
    case (SocOwner x)
    then show ?thesis using q by (auto simp: orun_flash_gate_set_bluefruit_soc_owner_def intro: holds_on_cong [OF h])
  qed (use h f e program_holds_on [OF h inv ow] in \<open>simp_all add: case_prod_beta orun_flash_internalfs_try_acquire_def
      tryAcquireSharedFlash_def orun_flash_internalfs_release_def releaseSharedFlash_def completion_iff
      orun_flash_gate_soc_event_cb_def Let_def\<close>)
qed

lemma run_holds_on:
  assumes "holds_on g0 ow g" "gate_inv g" "ow \<noteq> Owner.kNone" "\<forall>event\<in>set es. no_completion event"
  shows "holds_on g0 ow (gate_run es g)"
  using assms by (induction es arbitrary: g) (simp_all add: step_holds_on gate_do_inv)

text \<open>
  C20: Once the SoftDevice has accepted a client's operation, then until it reports the end of one, and
  whatever else happens in between -- time limits running out, calls of this and of other clients, the hooks
  of InternalFS -- the client stays in flight with the same operation, the gate keeps the token, so that
  InternalFS cannot get it, and no further flash operation is submitted.
\<close>

theorem gate_token_kept:
  assumes "gate_reachable g" and "ow \<noteq> Owner.kNone" and "outstanding g ow" and "\<forall>event\<in>set es. no_completion event"
  shows "fg_in_flight (gate_run es g) = ow \<and> fg_shared (gate_run es g) = kGate \<and>
    \<not> snd (orun_flash_internalfs_try_acquire (gate_run es g)) \<and>
    slot_call (gate_run es g) ow = slot_call g ow \<and> fg_calls (gate_run es g) = fg_calls g"
proof -
  have inv: "gate_inv g" by (rule gate_reachable_inv [OF assms(1)])
  then have c: "client_inv g ow" using assms(2) by (simp add: gate_inv_def)
  have "holds_on g ow g" using c assms(3) by (auto simp: holds_on_def outstanding_def client_inv_def slot_ok_def)
  from run_holds_on [OF this inv assms(2,4)] show ?thesis
    by (simp add: holds_on_def orun_flash_internalfs_try_acquire_def tryAcquireSharedFlash_def)
qed

section \<open>Who is admitted next\<close>

definition waiting :: "FlashMutationGate \<Rightarrow> Owner \<Rightarrow> bool" where
  "waiting g ow \<longleftrightarrow> ow \<noteq> Owner.kNone \<and> sl_kind (slot g ow) \<noteq> Kind.kNone \<and> \<not> sl_admitted (slot g ow)"

text \<open>
  The order the design asks for: requests that have waited past the time limit come first, the oldest of
  them before the others; between fresh requests, and between aged ones of the same age, the class decides.
\<close>

definition goes_before :: "u32 \<Rightarrow> Slot \<Rightarrow> Slot \<Rightarrow> bool" where
  "goes_before now a b \<longleftrightarrow>
     (if aged b now then aged a now \<and>
        (now - sl_staged_since_ms b < now - sl_staged_since_ms a \<or>
         now - sl_staged_since_ms a = now - sl_staged_since_ms b \<and>
         priority_code (sl_priority a) < priority_code (sl_priority b))
      else aged a now \<or> priority_code (sl_priority a) < priority_code (sl_priority b))"

text \<open>The same order as one number, so that a finite set of requests has a first one.\<close>

definition urgency :: "u32 \<Rightarrow> Slot \<Rightarrow> nat" where
  "urgency now s = (if aged s now then 8 * unat (now - sl_staged_since_ms s) + 8 else 0) + (5 - priority_code (sl_priority s))"

lemma priority_code_le: "priority_code p \<le> 5"
  by (cases p) simp_all

lemma goes_before_iff: "goes_before now a b \<longleftrightarrow> urgency now b < urgency now a"
  using priority_code_le [of "sl_priority a"] priority_code_le [of "sl_priority b"]
  by (auto simp: goes_before_def urgency_def word_less_nat_alt word_unat_eq_iff)

lemma outranks_iff:
  "other_outranks now mine other \<longleftrightarrow>
     sl_kind other \<noteq> Kind.kNone \<and> \<not> sl_admitted other \<and> goes_before now other mine"
  by (auto simp: other_outranks_def goes_before_def effectivePriority_def word_less_nat_alt word_unat_eq_iff)

lemma held_back_iff:
  assumes "ow \<noteq> Owner.kNone"
  shows "higherPriorityWaiting g now ow \<longleftrightarrow> (\<exists>o'. waiting g o' \<and> o' \<noteq> ow \<and> goes_before now (slot g o') (slot g ow))"
proof -
  have "set gate_clients = {o'. o' \<noteq> Owner.kNone}" using Owner.exhaust by (auto simp: gate_clients_def)
  then show ?thesis by (auto simp: higherPriorityWaiting_def list_ex_iff waiting_def outranks_iff)
qed

lemma classes_differ:
  assumes "gate_inv g" "waiting g ow" "waiting g o'" "ow \<noteq> o'"
  shows "urgency now (slot g ow) \<noteq> urgency now (slot g o')"
proof -
  have "may_use ow (sl_priority (slot g ow))" "may_use o' (sl_priority (slot g o'))"
    using assms by (auto simp: gate_inv_def client_inv_def waiting_def)
  then have ne: "priority_code (sl_priority (slot g ow)) \<noteq> priority_code (sl_priority (slot g o'))"
    using assms(2-4) by (cases ow; cases o') (auto simp: waiting_def)
  have m: "urgency now s mod 8 = 5 - priority_code (sl_priority s)" for s
    by (simp add: urgency_def mod_add_eq [symmetric])
  have "5 - priority_code (sl_priority (slot g ow)) \<noteq> 5 - priority_code (sl_priority (slot g o'))"
    using ne priority_code_le [of "sl_priority (slot g ow)"] priority_code_le [of "sl_priority (slot g o')"] by arith
  then show ?thesis by (metis m)
qed

lemma first_waiting:
  assumes "gate_inv g" "waiting g o1"
  shows "\<exists>ow. waiting g ow \<and> (\<forall>o'. waiting g o' \<and> o' \<noteq> ow \<longrightarrow> goes_before now (slot g ow) (slot g o'))"
proof -
  let ?W = "{ow. waiting g ow}" and ?u = "\<lambda>ow. urgency now (slot g ow)"
  have "?W \<subseteq> set gate_clients" by (auto simp: waiting_def gate_clients_def) (metis Owner.exhaust)
  then have fin: "finite ?W" by (rule finite_subset) simp
  obtain ow where w: "ow \<in> ?W" and m: "\<forall>o'\<in>?W. ?u o' \<le> ?u ow"
    using finite_imageI [OF fin, of ?u] Max_in [of "?u ` ?W"] Max_ge [of "?u ` ?W"] assms(2) by fastforce
  have "?u o' < ?u ow" if "waiting g o'" "o' \<noteq> ow" for o'
    using m w that classes_differ [OF assms(1) that(1), of ow now] by fastforce
  then show ?thesis using w by (auto simp: goes_before_iff)
qed

lemma poll_admitted:
  assumes inv: "gate_inv g" and fl: "fg_in_flight g = Owner.kNone" and w: "waiting g ow"
    and first: "\<forall>o'. waiting g o' \<and> o' \<noteq> ow \<longrightarrow> goes_before (ge_rank_ms e) (slot g ow) (slot g o')"
    and sh: "fg_shared g \<noteq> kInternalFs"
  shows "\<exists>c. slot_call g ow = Some c \<and> fg_calls (fst (gate_pollPending ow e g)) = fg_calls g @ [(ow, c, ge_result e)]"
proof -
  have ow: "ow \<noteq> Owner.kNone" and k: "sl_kind (slot g ow) \<noteq> Kind.kNone" using w by (simp_all add: waiting_def)
  let ?h = "admit ow e g"
  have "\<not> higherPriorityWaiting g (ge_rank_ms e) ow"
    using first unfolding held_back_iff [OF ow] goes_before_iff by fastforce
  then have p: "gate_pollPending ow e g = owned_step ow e ?h"
    using k fl ow by (simp add: gate_pollPending_def submit_cases [OF inv ow])
  have "\<not> sl_submission_accepted (slot g ow)" using not_admitted(3) [OF inv ow] fl ow by simp
  then have "owned_step ow e ?h = submitted ow e ?h"
    using attempt_cases [OF admit_inv [OF inv ow fl k], where e = e] ow sh by (simp add: owned_step_def admit_fields)
  moreover have sc: "slot_call (take_token ow e ?h) ow = slot_call g ow"
    by (simp add: slot_call_def take_token_fields admit_fields split: Kind.split)
  moreover obtain c where "slot_call g ow = Some c" using k by (cases "sl_kind (slot g ow)") (simp_all add: slot_call_def)
  ultimately show ?thesis using p
    by (simp add: submitted_def Let_def take_token_fields admit_fields release_fields count_busy_def count_timeout_def)
qed

text \<open>
  C22: Whenever the gate is free and requests are waiting, exactly one of them is next: it comes before
  every other in the documented order, so a request past its time limit is passed only by one that has
  waited as long.  A poll by any other client changes nothing; the next poll of the chosen client hands
  exactly its request to the SoftDevice, unless InternalFS holds the flash.  No order of polling can
  block all clients or let one slip past another.
\<close>

theorem gate_admission_order:
  assumes "gate_reachable g" and "fg_in_flight g = Owner.kNone" and "waiting g o1"
  shows "\<exists>ow. waiting g ow \<and>
    (\<forall>o'. waiting g o' \<and> o' \<noteq> ow \<longrightarrow> goes_before now (slot g ow) (slot g o')) \<and>
    (\<forall>o' e. waiting g o' \<and> o' \<noteq> ow \<and> ge_rank_ms e = now \<longrightarrow> gate_pollPending o' e g = (g, kPending)) \<and>
    (\<forall>e. ge_rank_ms e = now \<and> fg_shared g \<noteq> kInternalFs \<longrightarrow>
       (\<exists>c. slot_call g ow = Some c \<and> fg_calls (fst (gate_pollPending ow e g)) = fg_calls g @ [(ow, c, ge_result e)]))"
proof -
  have inv: "gate_inv g" by (rule gate_reachable_inv [OF assms(1)])
  obtain ow where w: "waiting g ow" and f: "\<forall>o'. waiting g o' \<and> o' \<noteq> ow \<longrightarrow> goes_before now (slot g ow) (slot g o')"
    using first_waiting [OF inv assms(3)] by blast
  have "gate_pollPending o' e g = (g, kPending)" if o': "waiting g o'" "o' \<noteq> ow" "ge_rank_ms e = now" for o' e
  proof -
    have n: "o' \<noteq> Owner.kNone" using o'(1) by (simp add: waiting_def)
    have "higherPriorityWaiting g now o'" using f w o' by (auto simp: held_back_iff [OF n])
    then show ?thesis using o' n assms(2) by (simp add: gate_pollPending_def submit_cases [OF inv n] waiting_def)
  qed
  moreover have "\<exists>c. slot_call g ow = Some c \<and> fg_calls (fst (gate_pollPending ow e g)) = fg_calls g @ [(ow, c, ge_result e)]"
    if "ge_rank_ms e = now" "fg_shared g \<noteq> kInternalFs" for e
    using poll_admitted [OF inv assms(2) w _ that(2)] f that(1) by simp
  ultimately show ?thesis using w f by blast
qed

section \<open>How long a client is kept waiting\<close>


section \<open>A concrete run\<close>

text \<open>
  The board boots with the SoftDevice off, the stores begin, the SoftDevice starts; the configuration
  store erases a page, whose call the SoftDevice accepts, and the geofence and history stores queue behind it.
\<close>

definition boot_env :: gate_env where
  "boot_env = \<lparr>ge_layout_ok = True, ge_softdevice = Some False, ge_stage_ms = 0, ge_rank_ms = 0, ge_admit_ms = 0,
     ge_token_ms = 0, ge_check_ms = 0, ge_mem = (\<lambda>_. 0xFF), ge_result = NRF_SUCCESS, ge_mem_after = (\<lambda>_. 0xFF)\<rparr>"

definition live_env :: "u32 \<Rightarrow> gate_env" where
  "live_env t = boot_env\<lparr>ge_softdevice := Some True, ge_stage_ms := t, ge_rank_ms := t, ge_admit_ms := t,
     ge_token_ms := t, ge_check_ms := t\<rparr>"

definition sample_events :: "gate_event list" where
  "sample_events = [CallBegin ConfigPort boot_env, CallBegin GeofencePort boot_env, CallBegin HistoryPort boot_env,
     CallErase ConfigPort (live_env 10) 1, CallErase GeofencePort (live_env 20) 0,
     CallProgram HistoryPort (live_env 30) 0 [1, 2, 3, 4]]"

definition sample_gate :: FlashMutationGate where
  "sample_gate = gate_run sample_events FlashMutationGate_init"

text \<open>The same run once the erase has completed and the configuration store has taken its result.\<close>

definition sample_freed :: FlashMutationGate where
  "sample_freed = gate_run [SocQueue FLASH_OPERATION_SUCCESS, CallPump (live_env 40), CallPoll ConfigPort (live_env 50)] sample_gate"

lemma sample_reachable_gate: "gate_reachable sample_gate" "gate_reachable sample_freed"
  unfolding sample_freed_def sample_gate_def by (intro gate_run_reachable gate_reachable.initial)+

lemmas gate_exec = sample_events_def gate_begin_def sync_begin_def synchronousFlashAvailable_def softDeviceEnabled_def
  live_env_def boot_env_def gate_erasePage_def gate_program_def count_submit_def set_diag_def set_slot_def stage_request_def
  submitOrRetry_def higherPriorityWaiting_def gate_clients_def other_outranks_def continueOwned_def attemptSubmit_def
  submit_call_def tryAcquireSharedFlash_def slot_call_def slot_def diag_def staging_def client_def
  FlashMutationGate_init_def Slot_init_def GateDiagnostics_init_def Let_def region_constants fg_inBounds_def mem_range_def
  fg_kPageHeaderSize_def aged_def elapsed_def fg_kOperationTimeoutMs_def

lemma gate_sample_state:
  "fg_in_flight sample_gate = Owner.kConfig" "fg_shared sample_gate = kGate"
  "outstanding sample_gate Owner.kConfig"
  "fg_calls sample_gate = [(Owner.kConfig, VendorErase 234, NRF_SUCCESS)]"
  "waiting sample_gate Owner.kGeofence" "waiting sample_gate Owner.kHistory"
  by (simp_all add: sample_gate_def gate_exec outstanding_def waiting_def)

lemma gate_freed_state:
  "fg_in_flight sample_freed = Owner.kNone" "fg_shared sample_freed = SharedFlashOwner.kNone"
  "waiting sample_freed Owner.kGeofence"
  by (simp_all add: sample_freed_def sample_gate_def gate_exec waiting_def pumpEvents_def handleFlashEvent_def
      gate_pollPending_def releaseSlot_def releaseSharedFlash_def)

theorem gate_single_owner_witness:
  "sl_submission_accepted (slot sample_gate Owner.kConfig) \<and>
   gd_async_accepted (diag sample_gate Owner.kConfig) = 1 + gd_completions_success (diag sample_gate Owner.kConfig) +
     gd_completions_error (diag sample_gate Owner.kConfig) + gd_late_completions (diag sample_gate Owner.kConfig)"
  using gate_single_owner [OF sample_reachable_gate(1), of Owner.kConfig] gate_sample_state(3)
  by (simp add: outstanding_def)

theorem gate_calls_confined_witness:
  "call_cells (VendorErase 234) \<inter> region_cells Owner.kGeofence = {}"
  using gate_calls_confined [OF sample_reachable_gate(1), of Owner.kConfig "VendorErase 234" NRF_SUCCESS] gate_sample_state(4)
  by simp

theorem gate_token_kept_witness:
  "fg_shared (gate_run [CallPoll ConfigPort (live_env 5000), InternalFsAcquire, CallPump (live_env 5001),
     CallPoll HistoryPort (live_env 5002)] sample_gate) = kGate"
  using gate_token_kept [OF sample_reachable_gate(1) _ gate_sample_state(3), of "[CallPoll ConfigPort (live_env 5000),
     InternalFsAcquire, CallPump (live_env 5001), CallPoll HistoryPort (live_env 5002)]"] by simp

theorem gate_admission_order_witness:
  "\<exists>ow c. waiting sample_freed ow \<and>
     fg_calls (fst (gate_pollPending ow (live_env 60) sample_freed)) = fg_calls sample_freed @ [(ow, c, NRF_SUCCESS)]"
proof -
  have e: "ge_rank_ms (live_env 60) = 60" "ge_result (live_env 60) = NRF_SUCCESS"
    by (simp_all add: live_env_def boot_env_def)
  show ?thesis
    using gate_admission_order [OF sample_reachable_gate(2) gate_freed_state(1,3), of 60] e gate_freed_state(2)
    by (metis SharedFlashOwner.distinct(3))
qed


end
