(* ===== verification/Two_Page_Flash.thy ===== *)
theory Two_Page_Flash
  imports Journal_Format Flash_Backend
begin

text \<open>
  What the two stores that keep two pages each (\<open>firmware/src/geofence_store.cpp\<close> and
  \<open>firmware/src/config_store.cpp\<close>) share: the scan of a page tail, which both files write alike, the
  extent of a page, changes confined to a segment, and what a flash that keeps the contract makes of them;
  and the two-page driver of the board on a flash that does what its vendor documents.
\<close>

section \<open>Pages and segments\<close>

definition blank :: "bytes \<Rightarrow> nat \<Rightarrow> bool" where
  "blank c p \<longleftrightarrow> (\<forall>i<kPageSize. c ! (p * kPageSize + i) = 0xFF)"

lemma page_room: "p < 2 \<Longrightarrow> p * kPageSize + kPageSize \<le> kTwoPageRegion"
  by (simp add: kTwoPageRegion_def kPageSize_def)

lemma other_page_apart: "p < 2 \<Longrightarrow> q < 2 \<Longrightarrow> p \<noteq> q \<Longrightarrow>
  p * kPageSize + kPageSize \<le> q * kPageSize \<or> q * kPageSize + kPageSize \<le> p * kPageSize"
  by (auto simp: kPageSize_def less_2_cases_iff)

lemma page_cases: "p < 2 \<Longrightarrow> p = 0 \<or> p = (1 :: nat)"
  by auto

definition confined :: "bytes \<Rightarrow> bytes \<Rightarrow> nat \<Rightarrow> nat \<Rightarrow> bool" where
  "confined c d lo n \<longleftrightarrow> length d = length c \<and> (\<forall>i<length c. i < lo \<or> lo + n \<le> i \<longrightarrow> d ! i = c ! i)"

lemma confined_trans:
  "confined c d lo n \<Longrightarrow> confined d e lo' n' \<Longrightarrow> lo \<le> lo' \<Longrightarrow> lo' + n' \<le> lo + m \<Longrightarrow> n \<le> m \<Longrightarrow> confined c e lo m"
  by (auto simp: confined_def)

lemma erased_blank:
  assumes "t < 2" "length c = kTwoPageRegion"
  shows "blank (write_at (t * kPageSize) (replicate kPageSize 0xFF) c) t"
  using page_room [OF assms(1)] assms(2) by (auto simp: blank_def nth_write_at)

definition erased_from :: "bytes \<Rightarrow> nat \<Rightarrow> nat \<Rightarrow> bool" where
  "erased_from c p w \<longleftrightarrow> (\<forall>i. w \<le> i \<and> i < kPageSize \<longrightarrow> c ! (p * kPageSize + i) = 0xFF)"

lemma write_at_confined:
  "off + length d \<le> length c \<Longrightarrow> confined c (write_at off d c) off (length d)"
  by (auto simp: confined_def nth_write_at)

lemma confined_same:
  assumes "confined c d lo n" "t * kPageSize \<le> lo" "lo + n \<le> t * kPageSize + kPageSize"
    and "length c = kTwoPageRegion" "t < 2" "p < 2" "p \<noteq> t" "i < kPageSize"
  shows "d ! (p * kPageSize + i) = c ! (p * kPageSize + i)"
proof -
  have "p * kPageSize + i < length c" using page_room [OF assms(6)] assms(4,8) by simp
  moreover have "p * kPageSize + i < lo \<or> lo + n \<le> p * kPageSize + i"
    using other_page_apart [OF assms(5,6)] assms(2,3,7,8) by linarith
  ultimately show ?thesis using assms(1) by (auto simp: confined_def)
qed

lemma erased_confined:
  assumes "confined c d lo n" "lo + n \<le> t * kPageSize + w" "length c = kTwoPageRegion" "t < 2" "erased_from c t w"
  shows "erased_from d t w"
  unfolding erased_from_def
proof (intro allI impI)
  fix i assume i: "w \<le> i \<and> i < kPageSize"
  have "t * kPageSize + i < length c" using page_room [OF assms(4)] i assms(3) by simp
  moreover have "lo + n \<le> t * kPageSize + i" using assms(2) i by simp
  ultimately have "d ! (t * kPageSize + i) = c ! (t * kPageSize + i)" using assms(1) by (simp add: confined_def)
  then show "d ! (t * kPageSize + i) = 0xFF" using assms(5) i by (simp add: erased_from_def)
qed

lemma blank_erased_from: "blank c t \<Longrightarrow> erased_from c t w"
  by (simp add: blank_def erased_from_def)

section \<open>The page tail\<close>

text \<open>The page tail in chunks of at most 64 bytes; \<open>None\<close> is a failed read.\<close>

function tail_scan :: "'f FlashBackend \<Rightarrow> 'f \<Rightarrow> nat \<Rightarrow> nat \<Rightarrow> bool option" where
  "tail_scan ops flash page within_page =
     (if within_page < kPageSize then
        (case fb_read ops flash (page * kPageSize + within_page) (min (kPageSize - within_page) 64) of
           None \<Rightarrow> None
         | Some chunk \<Rightarrow>
             if \<not> erased chunk 0 (min (kPageSize - within_page) 64) then Some False
             else tail_scan ops flash page (within_page + min (kPageSize - within_page) 64))
      else Some True)"
  by pat_completeness auto
termination
  by (relation "measure (\<lambda>(_, _, _, w). kPageSize - w)") auto

declare tail_scan.simps [simp del]

lemma all_shift: "(\<forall>j<n. P (w + j)) \<longleftrightarrow> (\<forall>i. w \<le> i \<and> i < w + n \<longrightarrow> P i)" for w n :: nat
proof
  assume a: "\<forall>j<n. P (w + j)"
  show "\<forall>i. w \<le> i \<and> i < w + n \<longrightarrow> P i"
  proof (intro allI impI)
    fix i assume i: "w \<le> i \<and> i < w + n"
    then have "i - w < n" "w + (i - w) = i" by auto
    then show "P i" using a by metis
  qed
qed auto

lemma all_split:
  "w + n \<le> m \<Longrightarrow> (\<forall>i. w \<le> i \<and> i < w + n \<longrightarrow> P i) \<Longrightarrow>
   (\<forall>i. w + n \<le> i \<and> i < m \<longrightarrow> P i) \<longleftrightarrow> (\<forall>i. w \<le> i \<and> i < m \<longrightarrow> P i)" for w n m :: nat
  by (metis add_leD1 not_le)

locale two_page_flash = flash_contract ops wf cells pending kTwoPageRegion
  for ops :: "'f FlashBackend" and wf cells pending
begin

lemma program_confined:
  assumes "wf f" "fb_program ops f off data = (f', r)"
  shows "wf f'" "confined (cells f) (cells f') off (length data)"
proof -
  show w: "wf f'" using program_wf [OF assms(1)] assms(2) by (metis fst_conv)
  show "confined (cells f) (cells f') off (length data)"
    using program_frame [OF assms] cells_length [OF assms(1)] cells_length [OF w] by (simp add: confined_def)
qed

lemma erase_confined:
  assumes "wf f" "fb_erasePage ops f p = (f', r)"
  shows "wf f'" "confined (cells f) (cells f') (p * kPageSize) kPageSize"
proof -
  show w: "wf f'" using erase_wf [OF assms(1)] assms(2) by (metis fst_conv)
  show "confined (cells f) (cells f') (p * kPageSize) kPageSize"
    using erase_frame [OF assms] cells_length [OF assms(1)] cells_length [OF w] by (simp add: confined_def)
qed

lemma poll_confined:
  assumes "wf f" "fb_pollPending ops f = (f', r)" "pending f = Some (off, data)"
  shows "wf f'" "confined (cells f) (cells f') off (length data)"
proof -
  show w: "wf f'" using poll_wf [OF assms(1)] assms(2) by (metis fst_conv)
  show "confined (cells f) (cells f') off (length data)"
    using poll_frame [OF assms] cells_length [OF assms(1)] cells_length [OF w] by (simp add: confined_def)
qed

text \<open>One flash operation: started, or polled while it is pending.\<close>

lemma operation_step:
  assumes wf: "wf f" and op: "(if aw then fb_pollPending ops f else start) = (f', r)"
    and aw: "aw \<longrightarrow> pending f = Some (off, data)"
    and start: "\<not> aw \<Longrightarrow> start = fb_program ops f off data \<or>
      start = fb_erasePage ops f p \<and> off = p * kPageSize \<and> data = replicate kPageSize 0xFF"
  shows "wf f'" "confined (cells f) (cells f') off (length data)"
    "r = kPending \<Longrightarrow> pending f' = Some (off, data)" "r = kDone \<Longrightarrow> cells f' = write_at off data (cells f)"
proof -
  consider "fb_pollPending ops f = (f', r)" "pending f = Some (off, data)" | "fb_program ops f off data = (f', r)"
    | "fb_erasePage ops f p = (f', r)" "off = p * kPageSize" "data = replicate kPageSize 0xFF"
    using assms by (cases aw) auto
  note c = this
  show "wf f'" "confined (cells f) (cells f') off (length data)"
    using c poll_confined [OF wf] program_confined [OF wf] erase_confined [OF wf] by (cases, fastforce+)+
  show "r = kPending \<Longrightarrow> pending f' = Some (off, data)"
    using c poll_pending [OF wf] program_pending [OF wf] erase_pending [OF wf] by (cases) fastforce+
  show "r = kDone \<Longrightarrow> cells f' = write_at off data (cells f)"
    using c poll_done [OF wf] program_done [OF wf] erase_done [OF wf] by (cases) fastforce+
qed

lemma tail_scan_cells:
  assumes "wf f" "tail_scan ops f p w = Some t" "p < 2"
  shows "t \<longleftrightarrow> (\<forall>i. w \<le> i \<and> i < kPageSize \<longrightarrow> cells f ! (p * kPageSize + i) = 0xFF)"
  using assms(2)
proof (induction "kPageSize - w" arbitrary: w rule: less_induct)
  case less
  show ?case
  proof (cases "w < kPageSize")
    case False
    then show ?thesis using less.prems by (auto simp: tail_scan.simps)
  next
    case True
    let ?n = "min (kPageSize - w) 64"
    obtain chunk where ch: "fb_read ops f (p * kPageSize + w) ?n = Some chunk"
      and t: "Some t = (if \<not> erased chunk 0 ?n then Some False else tail_scan ops f p (w + ?n))"
      using less.prems True by (subst (asm) tail_scan.simps) (auto split: option.splits)
    have c: "p * kPageSize + w + ?n \<le> length (cells f)" "chunk = slice (p * kPageSize + w) ?n (cells f)"
      using read_cells [OF assms(1) ch] cells_length [OF assms(1)] by auto
    have e: "erased chunk 0 ?n \<longleftrightarrow> (\<forall>i. w \<le> i \<and> i < w + ?n \<longrightarrow> cells f ! (p * kPageSize + i) = 0xFF)"
    proof -
      have "erased chunk 0 ?n \<longleftrightarrow> (\<forall>j<?n. cells f ! (p * kPageSize + w + j) = 0xFF)"
        using c by (simp add: erased_iff)
      also have "\<dots> \<longleftrightarrow> (\<forall>i. w \<le> i \<and> i < w + ?n \<longrightarrow> cells f ! (p * kPageSize + i) = 0xFF)"
        using all_shift [of ?n "\<lambda>i. cells f ! (p * kPageSize + i) = 0xFF" w] by (simp add: add.assoc)
      finally show ?thesis .
    qed
    have n: "0 < ?n" "w + ?n \<le> kPageSize" using True by auto
    show ?thesis
    proof (cases "erased chunk 0 ?n")
      case False
      then show ?thesis using t e n by auto
    next
      case er: True
      then have "tail_scan ops f p (w + ?n) = Some t" using t by simp
      then have "t \<longleftrightarrow> (\<forall>i. w + ?n \<le> i \<and> i < kPageSize \<longrightarrow> cells f ! (p * kPageSize + i) = 0xFF)"
        using less.hyps [of "w + ?n"] n True by simp
      then show ?thesis using all_split [OF n(2), of "\<lambda>i. cells f ! (p * kPageSize + i) = 0xFF"] er e by blast
    qed
  qed
qed

end

text \<open>A backend whose region can be read.\<close>

locale readable_two_page = two_page_flash ops wf cells pending
  for ops :: "'f FlashBackend" and wf cells pending +
  fixes readable :: "'f \<Rightarrow> bool"
  assumes read_ok: "wf f \<Longrightarrow> readable f \<Longrightarrow> off + n \<le> kTwoPageRegion \<Longrightarrow>
    fb_read ops f off n = Some (slice off n (cells f))"
begin

lemma tail_scan_total:
  assumes "wf f" "readable f" "p < 2"
  shows "\<exists>t. tail_scan ops f p w = Some t"
proof (induction "kPageSize - w" arbitrary: w rule: less_induct)
  case less
  show ?case
  proof (cases "w < kPageSize")
    case True
    let ?n = "min (kPageSize - w) 64"
    have n: "0 < ?n" "p * kPageSize + w + ?n \<le> kTwoPageRegion" using True page_room [OF assms(3)] by auto
    then have "fb_read ops f (p * kPageSize + w) ?n = Some (slice (p * kPageSize + w) ?n (cells f))"
      by (intro read_ok [OF assms(1,2)])
    moreover have "\<exists>t. tail_scan ops f p (w + ?n) = Some t" using less [of "w + ?n"] n(1) True by simp
    ultimately show ?thesis using True by (subst tail_scan.simps) auto
  qed (subst tail_scan.simps, auto)
qed

end

section \<open>The geofence driver on a working flash\<close>

lemma nrf_program_works:
  assumes "flash_operational f" "length (nf_cells f) = kTwoPageRegion"
    and "off mod 4 = 0" "length data mod 4 = 0" "0 < length data" "length data \<le> 560"
    and "off mod kPageSize + length data \<le> kPageSize" "off + length data \<le> kGeofenceRegionSize"
    and "\<And>i. i < length data \<Longrightarrow> nf_cells f ! (off + i) = 0xFF"
  shows "fb_program nrf_ops f off data = (f\<lparr>nf_cells := write_at off data (nf_cells f)\<rparr>, kDone)"
  unfolding nrf_driver by (rule driver_program_works) (use assms in \<open>simp_all add: kTwoPageRegion_def\<close>)

lemma nrf_erase_works:
  assumes "flash_operational f" "length (nf_cells f) = kGeofenceRegionSize" "p < 2"
  shows "fb_erasePage nrf_ops f p =
    (f\<lparr>nf_cells := write_at (p * kPageSize) (replicate kPageSize 0xFF) (nf_cells f)\<rparr>, kDone)"
  unfolding nrf_driver by (rule driver_erase_works) (use assms in \<open>simp_all add: kTwoPageRegion_def\<close>)

end
