(* ===== verification/Geofence_Store.thy ===== *)
theory Geofence_Store
  imports Geofence_Format Two_Page_Flash
begin

text \<open>
  \<open>firmware/include/geofence_store.h\<close> and \<open>firmware/src/geofence_store.cpp\<close>: the two-page
  commit-last owner of the durable permitted-area resource, written against the flash interface
  \<open>ops\<close>.  The object holds its backend, so the state record holds the backend's state
  \<open>gs_flash\<close>; the scratch buffers, which no operation reads before filling them, are values.
  \<open>incarnation\<close> stands for the optional entropy source: no source, or what \<open>generate\<close> yields.
\<close>

datatype GeofenceTokenState = kUnavailable | kValid | kUncertain
datatype GeofenceResourceState = kUnavailable | kClear | kConfigured
datatype Job = kNone | kErase | kWrite
datatype BlobStep = kBody | kCommit | kVerify

record GeofenceDiagnostics =
  dg_mutations :: u32
  dg_mutation_failures :: u32
  dg_rejected_candidates :: u32
  dg_skipped_unchanged :: u32
  dg_blocked_pending_result :: u32
  dg_baseline_commits :: u32
  dg_baseline_failures :: u32
  dg_recovery_corruptions :: u32
  dg_maintenance_lockouts :: u32
  dg_unreconciled_mutation_faults :: u32
  dg_recovery_reconciliations :: u32

definition GeofenceDiagnostics_init :: GeofenceDiagnostics where
  "GeofenceDiagnostics_init =
     \<lparr>dg_mutations = 0, dg_mutation_failures = 0, dg_rejected_candidates = 0, dg_skipped_unchanged = 0,
      dg_blocked_pending_result = 0, dg_baseline_commits = 0, dg_baseline_failures = 0,
      dg_recovery_corruptions = 0, dg_maintenance_lockouts = 0, dg_unreconciled_mutation_faults = 0,
      dg_recovery_reconciliations = 0\<rparr>"

record 'f GeofenceStore =
  gs_flash :: 'f
  gs_snapshot :: Snapshot
  gs_token :: StateToken
  gs_resource_state :: GeofenceResourceState
  gs_token_state :: GeofenceTokenState
  gs_semantic_unambiguous :: bool
  gs_maintenance_reset_required :: bool
  gs_generation :: u64
  gs_active_page :: int
  gs_diagnostics :: GeofenceDiagnostics
  gs_job :: Job
  gs_blob_step :: BlobStep
  gs_awaiting_completion :: bool
  gs_ready :: bool
  gs_mutation_result_ready :: bool
  gs_mutation_success :: bool
  gs_mutation_unreconciled :: bool
  gs_recovery_pending :: bool
  gs_target_page :: nat
  gs_pending_snapshot :: Snapshot
  gs_pending_token :: StateToken
  gs_pending_generation :: u64
  gs_blob :: bytes

definition zero_token :: StateToken where "zero_token = \<lparr>incarnation = 0, revision = 0\<rparr>"

definition GeofenceStore_init :: "'f \<Rightarrow> 'f GeofenceStore" where
  "GeofenceStore_init flash =
     \<lparr>gs_flash = flash, gs_snapshot = Snapshot_init, gs_token = zero_token,
      gs_resource_state = GeofenceResourceState.kUnavailable, gs_token_state = GeofenceTokenState.kUnavailable,
      gs_semantic_unambiguous = False, gs_maintenance_reset_required = False, gs_generation = 0,
      gs_active_page = -1, gs_diagnostics = GeofenceDiagnostics_init, gs_job = kNone, gs_blob_step = kBody,
      gs_awaiting_completion = False, gs_ready = False, gs_mutation_result_ready = False,
      gs_mutation_success = False, gs_mutation_unreconciled = False, gs_recovery_pending = False,
      gs_target_page = 0, gs_pending_snapshot = Snapshot_init, gs_pending_token = zero_token,
      gs_pending_generation = 0, gs_blob = replicate 564 0\<rparr>"

section \<open>Helpers\<close>

definition evidenceCommitted :: "PageEvidence \<Rightarrow> bool" where
  "evidenceCommitted e \<longleftrightarrow> e = kCommittedClear \<or> e = kCommittedConfigured"

definition evidenceSafeUncommitted :: "PageEvidence \<Rightarrow> bool" where
  "evidenceSafeUncommitted e \<longleftrightarrow> e = kErased \<or> e = kUncommittedOrTorn"

definition resourceStateOf :: "Snapshot \<Rightarrow> GeofenceResourceState" where
  "resourceStateOf s = (if sn_state s = ResourceState.kClear then GeofenceResourceState.kClear
                        else GeofenceResourceState.kConfigured)"

definition exactSuccessor :: "GeofenceRecord \<Rightarrow> GeofenceRecord \<Rightarrow> bool" where
  "exactSuccessor committed staged \<longleftrightarrow>
     gr_generation committed \<noteq> UINT64_MAX \<and> revision (gr_token committed) \<noteq> UINT32_MAX \<and>
     gr_generation staged = gr_generation committed + 1 \<and>
     incarnation (gr_token staged) = incarnation (gr_token committed) \<and>
     revision (gr_token staged) = revision (gr_token committed) + 1"

definition readPageTailErased :: "'f FlashBackend \<Rightarrow> 'f \<Rightarrow> nat \<Rightarrow> bool option" where
  "readPageTailErased ops flash page = tail_scan ops flash page gf_kRecordSize"

definition sameSnapshot :: "Snapshot \<Rightarrow> Snapshot \<Rightarrow> bool" where
  "sameSnapshot a b \<longleftrightarrow>
     sn_state a = sn_state b \<and> sn_area_count a = sn_area_count b \<and>
     sn_total_vertex_count a = sn_total_vertex_count b \<and>
     list_all (\<lambda>i. sn_area_vertex_counts a ! i = sn_area_vertex_counts b ! i) [0..<gf_kMaximumAreas] \<and>
     list_all (\<lambda>i. latitude_e7 (sn_vertices a ! i) = latitude_e7 (sn_vertices b ! i) \<and>
                   longitude_e7 (sn_vertices a ! i) = longitude_e7 (sn_vertices b ! i))
       [0..<gf_kMaximumTotalVertices]"

definition clearRecoveredRuntimeState :: "'f GeofenceStore \<Rightarrow> 'f GeofenceStore" where
  "clearRecoveredRuntimeState s = s\<lparr>gs_snapshot := Snapshot_init, gs_token := zero_token,
     gs_resource_state := GeofenceResourceState.kUnavailable,
     gs_token_state := GeofenceTokenState.kUnavailable, gs_semantic_unambiguous := False,
     gs_maintenance_reset_required := False, gs_generation := 0, gs_active_page := -1\<rparr>"

definition setUnavailableMaintenance :: "'f GeofenceStore \<Rightarrow> GeofenceTokenState \<Rightarrow> 'f GeofenceStore" where
  "setUnavailableMaintenance s ts = s\<lparr>gs_snapshot := Snapshot_init, gs_token := zero_token,
     gs_resource_state := GeofenceResourceState.kUnavailable, gs_token_state := ts,
     gs_semantic_unambiguous := False, gs_maintenance_reset_required := True, gs_generation := 0,
     gs_active_page := -1,
     gs_diagnostics := (gs_diagnostics s)\<lparr>dg_maintenance_lockouts := dg_maintenance_lockouts (gs_diagnostics s) + 1\<rparr>\<rparr>"

definition setSemanticFallback ::
  "'f GeofenceStore \<Rightarrow> GeofenceRecord \<Rightarrow> GeofenceTokenState \<Rightarrow> 'f GeofenceStore" where
  "setSemanticFallback s r ts = s\<lparr>gs_snapshot := gr_snapshot r, gs_token := gr_token r,
     gs_resource_state := resourceStateOf (gr_snapshot r), gs_token_state := ts,
     gs_semantic_unambiguous := True, gs_maintenance_reset_required := True,
     gs_generation := gr_generation r, gs_active_page := -1,
     gs_diagnostics := (gs_diagnostics s)\<lparr>dg_maintenance_lockouts := dg_maintenance_lockouts (gs_diagnostics s) + 1\<rparr>\<rparr>"

text \<open>The assignments that make a committed record the current one, repeated in \<open>recover\<close>.\<close>

definition setAuthority :: "'f GeofenceStore \<Rightarrow> nat \<Rightarrow> GeofenceRecord \<Rightarrow> 'f GeofenceStore" where
  "setAuthority s page r = s\<lparr>gs_active_page := int page, gs_generation := gr_generation r,
     gs_snapshot := gr_snapshot r, gs_token := gr_token r,
     gs_resource_state := resourceStateOf (gr_snapshot r), gs_token_state := kValid,
     gs_semantic_unambiguous := True\<rparr>"

section \<open>Recovery\<close>

record RecoveredPage =
  rp_inspection :: PageInspection
  rp_tail_dirty :: bool

record recover_scan =
  rs_pages :: "RecoveredPage list"
  rs_all_erased :: bool
  rs_any_unsupported :: bool
  rs_any_corrupt :: bool
  rs_committed :: "nat list"
  rs_corruptions :: u32

text \<open>The bookkeeping of one page, and one turn of the page loop; \<open>None\<close> is the early return on a failed read.\<close>

definition note_page :: "PageInspection \<Rightarrow> bool \<Rightarrow> nat \<Rightarrow> recover_scan \<Rightarrow> recover_scan" where
  "note_page insp dirty page sc =
     (let ev = evidence insp;
          sc = sc\<lparr>rs_pages := rs_pages sc @ [\<lparr>rp_inspection = insp, rp_tail_dirty = dirty\<rparr>]\<rparr>;
          sc = (if ev \<noteq> kErased \<or> dirty then sc\<lparr>rs_all_erased := False\<rparr> else sc)
      in
      if ev = kUnsupportedNewer then sc\<lparr>rs_any_unsupported := True\<rparr>
      else if evidenceCommitted ev then
        sc\<lparr>rs_committed := rs_committed sc @ [page], rs_any_corrupt := (rs_any_corrupt sc \<or> dirty)\<rparr>
      else if dirty \<or> ev = kPartialCommit \<or> ev = kCommittedCorrupt \<or> ev = kSupportedCorrupt then
        sc\<lparr>rs_any_corrupt := True, rs_corruptions := rs_corruptions sc + 1\<rparr>
      else sc)"

definition recover_page :: "'f FlashBackend \<Rightarrow> 'f \<Rightarrow> nat \<Rightarrow> recover_scan \<Rightarrow> recover_scan option" where
  "recover_page ops flash page sc =
     (case fb_read ops flash (page * kPageSize) gf_kRecordSize of
        None \<Rightarrow> None
      | Some bytes \<Rightarrow>
        (case inspectPage (Some bytes) of
           None \<Rightarrow> None
         | Some insp \<Rightarrow>
             if evidence insp = kUnsupportedNewer then Some (note_page insp False page sc)
             else case readPageTailErased ops flash page of
               None \<Rightarrow> None
             | Some tail_erased \<Rightarrow> Some (note_page insp (\<not> tail_erased) page sc)))"

definition scan_init :: recover_scan where
  "scan_init = \<lparr>rs_pages = [], rs_all_erased = True, rs_any_unsupported = False, rs_any_corrupt = False,
     rs_committed = [], rs_corruptions = 0\<rparr>"

text \<open>The scan so far and whether every read succeeded.\<close>

fun recover_pages :: "'f FlashBackend \<Rightarrow> 'f \<Rightarrow> nat list \<Rightarrow> recover_scan \<Rightarrow> recover_scan \<times> bool" where
  "recover_pages ops flash [] sc = (sc, True)"
| "recover_pages ops flash (page # rest) sc =
     (case recover_page ops flash page sc of
        None \<Rightarrow> (sc, False)
      | Some sc' \<Rightarrow> recover_pages ops flash rest sc')"

definition page_record :: "recover_scan \<Rightarrow> nat \<Rightarrow> GeofenceRecord" where
  "page_record sc page = the (decoded (rp_inspection (rs_pages sc ! page)))"

definition exact_lineage :: "GeofenceRecord \<Rightarrow> GeofenceRecord \<Rightarrow> bool" where
  "exact_lineage low high \<longleftrightarrow>
     gr_generation low \<noteq> UINT64_MAX \<and> gr_generation high = gr_generation low + 1 \<and>
     revision (gr_token low) \<noteq> UINT32_MAX \<and> revision (gr_token high) = revision (gr_token low) + 1"

definition recover_two :: "'f GeofenceStore \<Rightarrow> recover_scan \<Rightarrow> 'f GeofenceStore" where
  "recover_two s sc =
     (let pa = rs_committed sc ! 0; pb = rs_committed sc ! 1;
          a = page_record sc pa; b = page_record sc pb in
      if incarnation (gr_token a) \<noteq> incarnation (gr_token b) then setUnavailableMaintenance s kUncertain
      else
        let (high, low) = (if gr_generation b > gr_generation a then (b, a) else (a, b)) in
        if \<not> exact_lineage low high \<or> rs_any_corrupt sc then
          (if exact_lineage low high \<or> sameSnapshot (gr_snapshot high) (gr_snapshot low)
           then setSemanticFallback s high kUncertain
           else setUnavailableMaintenance s kUncertain)
        else
          let active = (if gr_generation (page_record sc pb) > gr_generation (page_record sc pa) then pb else pa)
          in setAuthority s active (page_record sc active))"

definition recover_one :: "'f GeofenceStore \<Rightarrow> recover_scan \<Rightarrow> 'f GeofenceStore" where
  "recover_one s sc =
     (let page = rs_committed sc ! 0; other_page = 1 - page;
          committed = page_record sc page; other = rp_inspection (rs_pages sc ! other_page) in
      if rp_tail_dirty (rs_pages sc ! page) \<or> rs_any_corrupt sc then setSemanticFallback s committed kUncertain
      else if evidence other = kStaged then
        (if decoded other = None \<or> \<not> exactSuccessor committed (the (decoded other))
         then setSemanticFallback s committed kUncertain
         else setAuthority s page committed)
      else if \<not> evidenceSafeUncommitted (evidence other) then setSemanticFallback s committed kUncertain
      else setAuthority s page committed)"

text \<open>What follows the page loop.\<close>

definition recover_decide :: "'f GeofenceStore \<Rightarrow> recover_scan \<Rightarrow> 'f GeofenceStore" where
  "recover_decide s sc =
     (let s = clearRecoveredRuntimeState s in
      if rs_all_erased sc then s
      else if rs_any_unsupported sc then setUnavailableMaintenance s kUncertain
      else if rs_committed sc = [] then
        setUnavailableMaintenance s
          (if rs_any_corrupt sc then kUncertain else GeofenceTokenState.kUnavailable)
      else if length (rs_committed sc) = 2 then recover_two s sc
      else recover_one s sc)"

definition count_corruptions :: "'f GeofenceStore \<Rightarrow> recover_scan \<Rightarrow> 'f GeofenceStore" where
  "count_corruptions s sc = s\<lparr>gs_diagnostics := (gs_diagnostics s)
     \<lparr>dg_recovery_corruptions := dg_recovery_corruptions (gs_diagnostics s) + rs_corruptions sc\<rparr>\<rparr>"

definition gs_recover :: "'f FlashBackend \<Rightarrow> 'f GeofenceStore \<Rightarrow> 'f GeofenceStore \<times> bool" where
  "gs_recover ops s =
     (let (sc, ok) = recover_pages ops (gs_flash s) [0..<kGeofenceRegionPages] scan_init;
          s = count_corruptions s sc
      in if \<not> ok then (s, False) else (recover_decide s sc, True))"

section \<open>The fresh baseline and begin\<close>

definition kBodyAndCrcSize :: nat where "kBodyAndCrcSize = kCrcOffset + 4"

definition writeFreshBaseline ::
  "'f FlashBackend \<Rightarrow> 'f GeofenceStore \<Rightarrow> GeofenceRecord \<Rightarrow> 'f GeofenceStore \<times> bool" where
  "writeFreshBaseline ops s r =
     (case gf_encode r (Some (gs_blob s)) of
        None \<Rightarrow> (s, False)
      | Some blob \<Rightarrow>
          let s = s\<lparr>gs_blob := blob\<rparr>;
              (fl, body) = fb_program ops (gs_flash s) 0 (take kBodyAndCrcSize blob);
              s = s\<lparr>gs_flash := fl\<rparr> in
          if body \<noteq> kDone then (s, False)
          else if fb_read ops (gs_flash s) 0 kBodyAndCrcSize \<noteq> Some (take kBodyAndCrcSize blob) then (s, False)
          else
            let (fl, commit) = fb_program ops (gs_flash s) kCommitOffset (slice kCommitOffset 4 blob);
                s = s\<lparr>gs_flash := fl\<rparr> in
            if commit \<noteq> kDone then (s, False)
            else (s, fb_read ops (gs_flash s) 0 gf_kRecordSize = Some blob))"

definition establishFreshBaseline ::
  "'f FlashBackend \<Rightarrow> u64 option option \<Rightarrow> 'f GeofenceStore \<Rightarrow> 'f GeofenceStore \<times> bool" where
  "establishFreshBaseline ops source s =
     (case source of None \<Rightarrow> (s, True) | Some None \<Rightarrow> (s, True)
      | Some (Some inc) \<Rightarrow>
        if inc = 0 then (s, True)
        else
          let r = \<lparr>gr_generation = 1, gr_token = \<lparr>incarnation = inc, revision = 1\<rparr>, gr_snapshot = makeClearSnapshot\<rparr>;
              (s, written) = writeFreshBaseline ops s r in
          if \<not> written then
            let d = gs_diagnostics s; s = s\<lparr>gs_diagnostics := d\<lparr>dg_baseline_failures := dg_baseline_failures d + 1\<rparr>\<rparr> in
            if fb_hasUnreconciledMutation ops (gs_flash s) then
              let d = gs_diagnostics s in
              (s\<lparr>gs_mutation_unreconciled := True, gs_token_state := kUncertain,
                 gs_diagnostics := d\<lparr>dg_unreconciled_mutation_faults := dg_unreconciled_mutation_faults d + 1\<rparr>\<rparr>, True)
            else gs_recover ops s
          else
            let d = gs_diagnostics s in
            (s\<lparr>gs_active_page := 0, gs_generation := 1, gs_snapshot := gr_snapshot r, gs_token := gr_token r,
               gs_resource_state := GeofenceResourceState.kClear, gs_token_state := kValid,
               gs_semantic_unambiguous := True, gs_maintenance_reset_required := False,
               gs_diagnostics := d\<lparr>dg_baseline_commits := dg_baseline_commits d + 1\<rparr>\<rparr>, True))"

definition gs_begin ::
  "'f FlashBackend \<Rightarrow> u64 option option \<Rightarrow> 'f GeofenceStore \<Rightarrow> 'f GeofenceStore \<times> bool" where
  "gs_begin ops source s =
     (let s = s\<lparr>gs_ready := False, gs_job := kNone, gs_blob_step := kBody, gs_awaiting_completion := False,
              gs_diagnostics := GeofenceDiagnostics_init, gs_mutation_result_ready := False,
              gs_mutation_success := False, gs_mutation_unreconciled := False, gs_recovery_pending := False\<rparr>;
          s = clearRecoveredRuntimeState s;
          (fl, ok) = fb_begin ops (gs_flash s); s = s\<lparr>gs_flash := fl\<rparr> in
      if \<not> ok then (s, False)
      else
        let (s, recovered) = gs_recover ops s in
        if \<not> recovered then (s, False)
        else if \<not> gs_maintenance_reset_required s \<and> gs_active_page s < 0 \<and>
                gs_resource_state s = GeofenceResourceState.kUnavailable \<and>
                gs_token_state s = GeofenceTokenState.kUnavailable \<and> source \<noteq> None then
          let (s, established) = establishFreshBaseline ops source s in
          if \<not> established then (s, False) else (s\<lparr>gs_ready := True\<rparr>, True)
        else (s\<lparr>gs_ready := True\<rparr>, True))"

section \<open>Mutations\<close>

definition failMutation :: "'f FlashBackend \<Rightarrow> 'f GeofenceStore \<Rightarrow> 'f GeofenceStore" where
  "failMutation ops s =
     (let d = gs_diagnostics s;
          s = s\<lparr>gs_diagnostics := d\<lparr>dg_mutation_failures := dg_mutation_failures d + 1\<rparr>,
                gs_mutation_result_ready := True, gs_mutation_success := False, gs_job := kNone,
                gs_blob_step := kBody, gs_awaiting_completion := False, gs_token_state := kUncertain,
                gs_recovery_pending := True\<rparr>
      in
      if fb_hasUnreconciledMutation ops (gs_flash s) then
        let d = gs_diagnostics s in
        s\<lparr>gs_mutation_unreconciled := True,
          gs_diagnostics := d\<lparr>dg_unreconciled_mutation_faults := dg_unreconciled_mutation_faults d + 1\<rparr>\<rparr>
      else s)"

definition finishMutation :: "'f GeofenceStore \<Rightarrow> 'f GeofenceStore" where
  "finishMutation s =
     s\<lparr>gs_active_page := int (gs_target_page s), gs_generation := gs_pending_generation s,
       gs_snapshot := gs_pending_snapshot s, gs_token := gs_pending_token s,
       gs_resource_state := resourceStateOf (gs_pending_snapshot s), gs_token_state := kValid,
       gs_semantic_unambiguous := True, gs_maintenance_reset_required := False, gs_job := kNone,
       gs_diagnostics := (gs_diagnostics s)\<lparr>dg_mutations := dg_mutations (gs_diagnostics s) + 1\<rparr>,
       gs_mutation_result_ready := True, gs_mutation_success := True\<rparr>"

definition startMutation :: "'f GeofenceStore \<Rightarrow> Snapshot \<Rightarrow> 'f GeofenceStore \<times> bool" where
  "startMutation s candidate =
     (if gs_generation s = UINT64_MAX \<or> revision (gs_token s) = UINT32_MAX then (s, False)
      else
        let s = s\<lparr>gs_target_page := nat (1 - gs_active_page s), gs_pending_generation := gs_generation s + 1,
                  gs_pending_snapshot := candidate,
                  gs_pending_token := \<lparr>incarnation = incarnation (gs_token s), revision = revision (gs_token s) + 1\<rparr>\<rparr>;
            r = \<lparr>gr_generation = gs_pending_generation s, gr_token = gs_pending_token s,
                 gr_snapshot = gs_pending_snapshot s\<rparr>
        in
        case gf_encode r (Some (gs_blob s)) of
          None \<Rightarrow> (s, False)
        | Some blob \<Rightarrow> (s\<lparr>gs_blob := blob, gs_job := kErase, gs_blob_step := kBody,
                            gs_awaiting_completion := False\<rparr>, True))"

definition gs_busy :: "'f GeofenceStore \<Rightarrow> bool" where "gs_busy s \<longleftrightarrow> gs_job s \<noteq> kNone"

definition bump_lockouts :: "'f GeofenceStore \<Rightarrow> 'f GeofenceStore" where
  "bump_lockouts s = s\<lparr>gs_diagnostics := (gs_diagnostics s)
     \<lparr>dg_maintenance_lockouts := dg_maintenance_lockouts (gs_diagnostics s) + 1\<rparr>\<rparr>"

definition requestSnapshot :: "'f GeofenceStore \<Rightarrow> Snapshot \<Rightarrow> 'f GeofenceStore \<times> bool" where
  "requestSnapshot s candidate =
     (if \<not> gs_ready s \<or> gs_busy s \<or> gs_mutation_unreconciled s \<or> gs_recovery_pending s then (s, False)
      else if gs_mutation_result_ready s then
        (s\<lparr>gs_diagnostics := (gs_diagnostics s)
            \<lparr>dg_blocked_pending_result := dg_blocked_pending_result (gs_diagnostics s) + 1\<rparr>\<rparr>, False)
      else if gs_maintenance_reset_required s \<or> gs_token_state s \<noteq> kValid \<or> gs_active_page s < 0 \<or>
              gs_resource_state s = GeofenceResourceState.kUnavailable then (bump_lockouts s, False)
      else if sameSnapshot candidate (gs_snapshot s) then
        (if \<not> gs_semantic_unambiguous s then (s, False)
         else (s\<lparr>gs_diagnostics := (gs_diagnostics s)
                  \<lparr>dg_skipped_unchanged := dg_skipped_unchanged (gs_diagnostics s) + 1\<rparr>\<rparr>, True))
      else startMutation s candidate)"

definition requestReplace :: "'f GeofenceStore \<Rightarrow> GeofenceAreaSetView \<Rightarrow> 'f GeofenceStore \<times> bool" where
  "requestReplace s area_set =
     (case canonicalizeConfiguredAreaSet area_set of
        None \<Rightarrow> (s\<lparr>gs_diagnostics := (gs_diagnostics s)
                    \<lparr>dg_rejected_candidates := dg_rejected_candidates (gs_diagnostics s) + 1\<rparr>\<rparr>, False)
      | Some candidate \<Rightarrow> requestSnapshot s candidate)"

definition requestClear :: "'f GeofenceStore \<Rightarrow> 'f GeofenceStore \<times> bool" where
  "requestClear s = requestSnapshot s makeClearSnapshot"

text \<open>
  \<open>writeBlob\<close> is three steps that fall through into one another.  Each step returns its result, or
  nothing when control falls through to the next.
\<close>

definition write_body ::
  "'f FlashBackend \<Rightarrow> 'f GeofenceStore \<Rightarrow> 'f GeofenceStore \<times> FlashOpResult option" where
  "write_body ops s =
     (if gs_blob_step s \<noteq> kBody then (s, None)
      else
        let offset = gs_target_page s * kPageSize;
            (fl, result) = (if gs_awaiting_completion s then fb_pollPending ops (gs_flash s)
                            else fb_program ops (gs_flash s) offset (take kBodyAndCrcSize (gs_blob s)));
            s = s\<lparr>gs_flash := fl\<rparr> in
        if result = kPending then (s\<lparr>gs_awaiting_completion := True\<rparr>, Some kPending)
        else
          let s = s\<lparr>gs_awaiting_completion := False\<rparr> in
          if result = kFailed then (failMutation ops s, Some kFailed)
          else if fb_read ops (gs_flash s) offset kBodyAndCrcSize \<noteq> Some (take kBodyAndCrcSize (gs_blob s))
          then (failMutation ops s, Some kFailed)
          else (s\<lparr>gs_blob_step := BlobStep.kCommit\<rparr>, None))"

definition write_commit ::
  "'f FlashBackend \<Rightarrow> 'f GeofenceStore \<Rightarrow> 'f GeofenceStore \<times> FlashOpResult option" where
  "write_commit ops s =
     (if gs_blob_step s \<noteq> BlobStep.kCommit then (s, None)
      else
        let offset = gs_target_page s * kPageSize;
            (fl, result) = (if gs_awaiting_completion s then fb_pollPending ops (gs_flash s)
                            else fb_program ops (gs_flash s) (offset + kCommitOffset)
                                   (slice kCommitOffset 4 (gs_blob s)));
            s = s\<lparr>gs_flash := fl\<rparr> in
        if result = kPending then (s\<lparr>gs_awaiting_completion := True\<rparr>, Some kPending)
        else
          let s = s\<lparr>gs_awaiting_completion := False\<rparr> in
          if result = kFailed then (failMutation ops s, Some kFailed)
          else (s\<lparr>gs_blob_step := kVerify\<rparr>, None))"

definition verified :: "'f FlashBackend \<Rightarrow> 'f GeofenceStore \<Rightarrow> bool" where
  "verified ops s \<longleftrightarrow>
     fb_read ops (gs_flash s) (gs_target_page s * kPageSize) gf_kRecordSize = Some (gs_blob s) \<and>
     (case inspectPage (Some (gs_blob s)) of None \<Rightarrow> False
      | Some i \<Rightarrow> isAuthoritativeCommitted (evidence i) \<and>
          (case decoded i of None \<Rightarrow> False
           | Some r \<Rightarrow> gr_generation r = gs_pending_generation s \<and>
               incarnation (gr_token r) = incarnation (gs_pending_token s) \<and>
               revision (gr_token r) = revision (gs_pending_token s) \<and>
               sameSnapshot (gr_snapshot r) (gs_pending_snapshot s)))"

definition writeBlob :: "'f FlashBackend \<Rightarrow> 'f GeofenceStore \<Rightarrow> 'f GeofenceStore \<times> FlashOpResult" where
  "writeBlob ops s =
     (case write_body ops s of
        (s, Some r) \<Rightarrow> (s, r)
      | (s, None) \<Rightarrow>
        (case write_commit ops s of
           (s, Some r) \<Rightarrow> (s, r)
         | (s, None) \<Rightarrow>
             if \<not> verified ops s then (failMutation ops s, kFailed)
             else (s\<lparr>gs_blob_step := kBody\<rparr>, kDone)))"

definition poll_idle :: "'f FlashBackend \<Rightarrow> 'f GeofenceStore \<Rightarrow> 'f GeofenceStore" where
  "poll_idle ops s =
     (if \<not> gs_recovery_pending s then s
      else
        let (s, ok) = gs_recover ops (s\<lparr>gs_recovery_pending := False\<rparr>) in
        if \<not> ok then s\<lparr>gs_token_state := kUncertain, gs_maintenance_reset_required := True, gs_ready := False\<rparr>
        else s\<lparr>gs_diagnostics := (gs_diagnostics s)
                \<lparr>dg_recovery_reconciliations := dg_recovery_reconciliations (gs_diagnostics s) + 1\<rparr>\<rparr>)"

definition poll_erase :: "'f FlashBackend \<Rightarrow> 'f GeofenceStore \<Rightarrow> 'f GeofenceStore" where
  "poll_erase ops s =
     (let (fl, result) = (if gs_awaiting_completion s then fb_pollPending ops (gs_flash s)
                          else fb_erasePage ops (gs_flash s) (gs_target_page s));
          s = s\<lparr>gs_flash := fl\<rparr> in
      if result = kPending then s\<lparr>gs_awaiting_completion := True\<rparr>
      else
        let s = s\<lparr>gs_awaiting_completion := False\<rparr> in
        if result = kFailed then failMutation ops s else s\<lparr>gs_job := kWrite\<rparr>)"

definition poll_write :: "'f FlashBackend \<Rightarrow> 'f GeofenceStore \<Rightarrow> 'f GeofenceStore" where
  "poll_write ops s = (let (s, r) = writeBlob ops s in if r \<noteq> kDone then s else finishMutation s)"

definition gs_poll :: "'f FlashBackend \<Rightarrow> 'f GeofenceStore \<Rightarrow> 'f GeofenceStore" where
  "gs_poll ops s =
     (if \<not> gs_ready s then s
      else if gs_mutation_unreconciled s \<and> fb_hasUnreconciledMutation ops (gs_flash s) then s
      else
        let s = (if gs_mutation_unreconciled s
                 then s\<lparr>gs_mutation_unreconciled := False, gs_recovery_pending := True\<rparr> else s) in
        case gs_job s of
          kNone \<Rightarrow> poll_idle ops s
        | kErase \<Rightarrow> poll_erase ops s
        | kWrite \<Rightarrow> poll_write ops s)"

definition takeMutationResult :: "'f GeofenceStore \<Rightarrow> 'f GeofenceStore \<times> bool option" where
  "takeMutationResult s =
     (if \<not> gs_mutation_result_ready s then (s, None)
      else (s\<lparr>gs_mutation_result_ready := False\<rparr>, Some (gs_mutation_success s)))"

definition stateToken :: "'f GeofenceStore \<Rightarrow> StateToken option" where
  "stateToken s = (if gs_token_state s \<noteq> kValid then None else Some (gs_token s))"

definition currentSnapshot :: "'f GeofenceStore \<Rightarrow> Snapshot option" where
  "currentSnapshot s =
     (if gs_resource_state s = GeofenceResourceState.kUnavailable then None else Some (gs_snapshot s))"

definition areaCount :: "'f GeofenceStore \<Rightarrow> u8" where
  "areaCount s = (if gs_resource_state s = GeofenceResourceState.kConfigured
                  then sn_area_count (gs_snapshot s) else 0)"

definition totalVertexCount :: "'f GeofenceStore \<Rightarrow> u16" where
  "totalVertexCount s = (if gs_resource_state s = GeofenceResourceState.kConfigured
                         then sn_total_vertex_count (gs_snapshot s) else 0)"

section \<open>What recovery concludes from the cells\<close>

definition page_bytes :: "bytes \<Rightarrow> nat \<Rightarrow> bytes" where
  "page_bytes c p = slice (p * kPageSize) gf_kRecordSize c"

definition tail_clean :: "bytes \<Rightarrow> nat \<Rightarrow> bool" where
  "tail_clean c p \<longleftrightarrow> (\<forall>i. gf_kRecordSize \<le> i \<and> i < kPageSize \<longrightarrow> c ! (p * kPageSize + i) = 0xFF)"

definition page_insp :: "bytes \<Rightarrow> nat \<Rightarrow> PageInspection" where
  "page_insp c p = the (inspectPage (Some (page_bytes c p)))"

definition page_dirty :: "bytes \<Rightarrow> nat \<Rightarrow> bool" where
  "page_dirty c p \<longleftrightarrow> evidence (page_insp c p) \<noteq> kUnsupportedNewer \<and> \<not> tail_clean c p"

definition scan_cells :: "bytes \<Rightarrow> recover_scan" where
  "scan_cells c = note_page (page_insp c 1) (page_dirty c 1) 1
     (note_page (page_insp c 0) (page_dirty c 0) 0 scan_init)"

locale geofence_flash = two_page_flash ops wf cells pending
  for ops :: "'f FlashBackend" and wf cells pending
begin

lemma recover_page_cells:
  assumes "wf f" "recover_page ops f p sc = Some sc'" "p < 2"
  shows "sc' = note_page (page_insp (cells f) p) (page_dirty (cells f) p) p sc"
proof -
  obtain bs insp where bs: "fb_read ops f (p * kPageSize) gf_kRecordSize = Some bs"
    "inspectPage (Some bs) = Some insp"
    using assms(2) by (auto simp: recover_page_def split: option.splits)
  have i: "page_insp (cells f) p = insp"
    using read_cells [OF assms(1) bs(1)] bs(2) by (simp add: page_insp_def page_bytes_def)
  show ?thesis
  proof (cases "evidence insp = kUnsupportedNewer")
    case True
    then show ?thesis using assms(2) bs i by (simp add: recover_page_def page_dirty_def)
  next
    case False
    then obtain t where t: "readPageTailErased ops f p = Some t" "sc' = note_page insp (\<not> t) p sc"
      using assms(2) bs by (auto simp: recover_page_def split: option.splits)
    have "t \<longleftrightarrow> tail_clean (cells f) p"
      using tail_scan_cells [OF assms(1) _ assms(3)] t(1) by (simp add: readPageTailErased_def tail_clean_def)
    then show ?thesis using t(2) i False by (simp add: page_dirty_def)
  qed
qed

lemma recover_cells:
  assumes "wf (gs_flash s)" "gs_recover ops s = (s', True)"
  shows "s' = recover_decide (count_corruptions s (scan_cells (cells (gs_flash s)))) (scan_cells (cells (gs_flash s)))"
proof -
  have two: "[0..<kGeofenceRegionPages] = [0, 1]" by (simp add: kGeofenceRegionPages_def upt_rec)
  obtain sc ok where sc: "recover_pages ops (gs_flash s) [0, 1] scan_init = (sc, ok)" by fastforce
  have ok: "ok" "s' = recover_decide (count_corruptions s sc) sc"
    using assms(2) sc
    by (simp_all add: gs_recover_def two Let_def del: recover_pages.simps split: if_splits)
  obtain sc0 where "recover_page ops (gs_flash s) 0 scan_init = Some sc0" "recover_page ops (gs_flash s) 1 sc0 = Some sc"
    using sc ok(1) by (auto split: option.splits)
  then have "sc = scan_cells (cells (gs_flash s))"
    using recover_page_cells [OF assms(1)] by (simp add: scan_cells_def)
  then show ?thesis using ok(2) by simp
qed

end

end
