(* ===== verification/Geofence_Durability.thy ===== *)
theory Geofence_Durability
  imports Geofence_Store
begin

text \<open>
  What the two-page store of \<open>firmware/src/geofence_store.cpp\<close> guarantees across reboots and power
  cuts: the conclusions of \<open>recover\<close> from the cells, the invariant that every operation keeps, and
  the state a reboot finds after any prefix of an interrupted write.
\<close>

section \<open>Conclusions of recovery, page by page\<close>

definition committed_at :: "bytes \<Rightarrow> nat \<Rightarrow> GeofenceRecord option" where
  "committed_at c p = gf_decode (Some (page_bytes c p))"

lemma length_page_bytes: "length c = kGeofenceRegionSize \<Longrightarrow> p < 2 \<Longrightarrow> length (page_bytes c p) = 564"
  by (simp add: page_bytes_def kTwoPageRegion_def kPageSize_def gf_kRecordSize_def)

lemma page_insp_committed:
  assumes "length c = kGeofenceRegionSize" "p < 2"
  shows "evidenceCommitted (evidence (page_insp c p)) \<longleftrightarrow> committed_at c p \<noteq> None"
    and "committed_at c p = Some r \<Longrightarrow> decoded (page_insp c p) = Some r"
  using inspect_committed [of "page_bytes c p"] length_page_bytes [OF assms]
  by (auto simp: page_insp_def committed_at_def evidenceCommitted_def isAuthoritativeCommitted_def)

lemma committed_facts:
  assumes "length c = kGeofenceRegionSize" "p < 2" "committed_at c p = Some r"
  shows "evidenceCommitted (evidence (page_insp c p))" "decoded (page_insp c p) = Some r"
    "evidence (page_insp c p) \<noteq> kErased" "evidence (page_insp c p) \<noteq> kUnsupportedNewer"
    "page_dirty c p = (\<not> tail_clean c p)"
  using page_insp_committed [OF assms(1,2)] assms(3)
  by (auto simp: evidenceCommitted_def page_dirty_def)

lemma uncommitted_facts:
  assumes "length c = kGeofenceRegionSize" "p < 2" "committed_at c p = None"
  shows "\<not> evidenceCommitted (evidence (page_insp c p))"
  using page_insp_committed(1) [OF assms(1,2)] assms(3) by simp

text \<open>The other page is harmless: it does not cast doubt on the token of the committed one.\<close>

definition harmless :: "bytes \<Rightarrow> nat \<Rightarrow> GeofenceRecord \<Rightarrow> bool" where
  "harmless c p r \<longleftrightarrow> tail_clean c p \<and>
     (evidenceSafeUncommitted (evidence (page_insp c p)) \<or>
      evidence (page_insp c p) = kStaged \<and>
        (\<exists>x. decoded (page_insp c p) = Some x \<and> exactSuccessor r x))"

lemma recover_single:
  assumes len: "length c = kGeofenceRegionSize" and a: "a < 2"
    and r: "committed_at c a = Some r" "tail_clean c a"
    and o: "committed_at c (1 - a) = None" "evidence (page_insp c (1 - a)) \<noteq> kUnsupportedNewer"
  shows "recover_decide s (scan_cells c) =
    (if harmless c (1 - a) r then setAuthority (clearRecoveredRuntimeState s) a r
     else setSemanticFallback (clearRecoveredRuntimeState s) r kUncertain)"
proof -
  note f = committed_facts [OF len a r(1)]
  have nb: "\<not> evidenceCommitted (evidence (page_insp c (1 - a)))"
    using uncommitted_facts [OF len _ o(1)] a by simp
  have dirty: "page_dirty c (1 - a) = (\<not> tail_clean c (1 - a))" using o(2) by (simp add: page_dirty_def)
  have not_dirty: "\<not> page_dirty c a" using f(5) r(2) by simp
  have ev: "evidence (page_insp c (1 - a)) \<in> {kErased, kStaged, kUncommittedOrTorn, kPartialCommit, kCommittedCorrupt, kSupportedCorrupt}"
    using nb o(2) by (cases "evidence (page_insp c (1 - a))") (auto simp: evidenceCommitted_def)
  from page_cases [OF a] show ?thesis
  proof
    assume "a = 0"
    then show ?thesis
      using f nb o(2) dirty not_dirty ev
      by (auto simp: scan_cells_def scan_init_def note_page_def Let_def recover_decide_def recover_one_def
          page_record_def harmless_def evidenceSafeUncommitted_def)
  next
    assume "a = 1"
    then show ?thesis
      using f nb o(2) dirty not_dirty ev
      by (auto simp: scan_cells_def scan_init_def note_page_def Let_def recover_decide_def recover_one_def
          page_record_def harmless_def evidenceSafeUncommitted_def)
  qed
qed

lemma recover_pair:
  assumes len: "length c = kGeofenceRegionSize" and a: "a < 2"
    and r: "committed_at c a = Some r" "tail_clean c a"
    and q: "committed_at c (1 - a) = Some q" "tail_clean c (1 - a)"
    and s: "exactSuccessor r q"
  shows "recover_decide s (scan_cells c) = setAuthority (clearRecoveredRuntimeState s) (1 - a) q"
proof -
  have b: "1 - a < 2" by simp
  note f = committed_facts [OF len a r(1)] and g = committed_facts [OF len b q(1)]
  have lt: "gr_generation r < gr_generation q" using s succ_greater by (simp add: exactSuccessor_def)
  then have nlt: "\<not> gr_generation q < gr_generation r" by simp
  have lin: "exact_lineage r q" "incarnation (gr_token q) = incarnation (gr_token r)"
    using s by (simp_all add: exactSuccessor_def exact_lineage_def)
  from page_cases [OF a] show ?thesis
  proof
    assume "a = 0"
    then show ?thesis using f g lt nlt lin r(2) q(2)
      by (simp add: scan_cells_def scan_init_def note_page_def Let_def recover_decide_def recover_two_def page_record_def)
  next
    assume "a = 1"
    then show ?thesis using f g lt nlt lin r(2) q(2)
      by (simp add: scan_cells_def scan_init_def note_page_def Let_def recover_decide_def recover_two_def page_record_def)
  qed
qed

lemma set_authority_valid [simp]: "gs_token_state (setAuthority s p r) = kValid"
  by (simp add: setAuthority_def)

lemma fallback_not_valid [simp]:
  "gs_token_state (setSemanticFallback s r kUncertain) = kUncertain"
  "gs_token_state (setUnavailableMaintenance s t) = t"
  "gs_token_state (clearRecoveredRuntimeState s) = GeofenceTokenState.kUnavailable"
  by (simp_all add: setSemanticFallback_def setUnavailableMaintenance_def clearRecoveredRuntimeState_def)
lemma recover_valid:
  assumes len: "length c = kGeofenceRegionSize"
    and v: "gs_token_state (recover_decide s (scan_cells c)) = kValid"
  obtains a r where "a < 2" "committed_at c a = Some r" "tail_clean c a"
    "recover_decide s (scan_cells c) = setAuthority (clearRecoveredRuntimeState s) a r"
proof -
  have single: "\<exists>a r. a < 2 \<and> committed_at c a = Some r \<and> tail_clean c a \<and>
      recover_decide s (scan_cells c) = setAuthority (clearRecoveredRuntimeState s) a r"
    if a: "a < 2" and r: "committed_at c a = Some r" and o: "committed_at c (1 - a) = None" for a r
  proof -
    note f = committed_facts [OF len a r]
    have nb: "\<not> evidenceCommitted (evidence (page_insp c (1 - a)))"
      using uncommitted_facts [OF len _ o] a by simp
    have "evidence (page_insp c (1 - a)) \<noteq> kUnsupportedNewer \<and> tail_clean c a"
      using page_cases [OF a] v f nb
      by (auto simp: scan_cells_def scan_init_def note_page_def Let_def recover_decide_def recover_one_def
          page_record_def split: if_splits)
    then have "recover_decide s (scan_cells c) =
        (if harmless c (1 - a) r then setAuthority (clearRecoveredRuntimeState s) a r
         else setSemanticFallback (clearRecoveredRuntimeState s) r kUncertain)" "tail_clean c a"
      using recover_single [OF len a r _ o] by auto
    then show ?thesis using v a r by (cases "harmless c (1 - a) r") auto
  qed
  have pair: "\<exists>a r. a < 2 \<and> committed_at c a = Some r \<and> tail_clean c a \<and>
      recover_decide s (scan_cells c) = setAuthority (clearRecoveredRuntimeState s) a r"
    if r: "committed_at c 0 = Some r" and q: "committed_at c 1 = Some q" for r q
  proof -
    note f = committed_facts [OF len _ r] and g = committed_facts [OF len _ q]
    have "tail_clean c 0 \<and> tail_clean c 1"
      using v f g
      by (auto simp: scan_cells_def scan_init_def note_page_def Let_def recover_decide_def recover_two_def
          split: if_splits)
    moreover have "recover_decide s (scan_cells c) = setAuthority (clearRecoveredRuntimeState s) 1 q \<or>
        recover_decide s (scan_cells c) = setAuthority (clearRecoveredRuntimeState s) 0 r"
      using v f g
      by (auto simp: scan_cells_def scan_init_def note_page_def Let_def recover_decide_def recover_two_def
          page_record_def split: if_splits)
    ultimately have "(1 :: nat) < 2 \<and> committed_at c 1 = Some q \<and> tail_clean c 1 \<and>
          recover_decide s (scan_cells c) = setAuthority (clearRecoveredRuntimeState s) 1 q \<or>
        (0 :: nat) < 2 \<and> committed_at c 0 = Some r \<and> tail_clean c 0 \<and>
          recover_decide s (scan_cells c) = setAuthority (clearRecoveredRuntimeState s) 0 r"
      using r q by simp
    then show ?thesis by blast
  qed
  have none: False if "committed_at c 0 = None" "committed_at c 1 = None"
    using v uncommitted_facts [OF len _ that(1)] uncommitted_facts [OF len _ that(2)]
    by (auto simp: scan_cells_def scan_init_def note_page_def Let_def recover_decide_def split: if_splits)
  show thesis
    using that single [of 0] single [of 1] pair none
    by (cases "committed_at c 0"; cases "committed_at c 1") auto
qed

lemma recover_blank:
  assumes len: "length c = kGeofenceRegionSize"
    and b: "gs_resource_state (recover_decide s (scan_cells c)) = GeofenceResourceState.kUnavailable"
      "\<not> gs_maintenance_reset_required (recover_decide s (scan_cells c))"
  shows "p < 2 \<Longrightarrow> evidence (page_insp c p) = kErased" "p < 2 \<Longrightarrow> tail_clean c p"
proof -
  have rs: "resourceStateOf x \<noteq> GeofenceResourceState.kUnavailable" for x by (simp add: resourceStateOf_def)
  have all: "rs_all_erased (scan_cells c)"
  proof (rule ccontr)
    assume "\<not> rs_all_erased (scan_cells c)"
    then show False using b rs
      by (auto simp: recover_decide_def recover_one_def recover_two_def Let_def setAuthority_def
          setSemanticFallback_def setUnavailableMaintenance_def clearRecoveredRuntimeState_def
          split: if_splits prod.splits)
  qed
  then have e: "evidence (page_insp c 0) = kErased \<and> \<not> page_dirty c 0 \<and> evidence (page_insp c 1) = kErased \<and> \<not> page_dirty c 1"
    by (auto simp: scan_cells_def scan_init_def note_page_def Let_def evidenceCommitted_def split: if_splits)
  show "p < 2 \<Longrightarrow> evidence (page_insp c p) = kErased" "p < 2 \<Longrightarrow> tail_clean c p"
    using e page_cases by (auto simp: page_dirty_def)
qed

section \<open>The authority a store holds and the one a reboot would find\<close>

type_synonym authority_view =
  "Snapshot \<times> StateToken \<times> GeofenceResourceState \<times> GeofenceTokenState \<times> bool \<times> bool \<times> u64 \<times> int"

definition authority_of :: "'f GeofenceStore \<Rightarrow> authority_view" where
  "authority_of s = (gs_snapshot s, gs_token s, gs_resource_state s, gs_token_state s,
     gs_semantic_unambiguous s, gs_maintenance_reset_required s, gs_generation s, gs_active_page s)"

definition reboot_authority :: "bytes \<Rightarrow> authority_view" where
  "reboot_authority c = authority_of (recover_decide (GeofenceStore_init ()) (scan_cells c))"

lemmas authority_setters = setAuthority_def setSemanticFallback_def setUnavailableMaintenance_def
  clearRecoveredRuntimeState_def

lemma setter_authority:
  "authority_of (clearRecoveredRuntimeState s) = (Snapshot_init, zero_token, GeofenceResourceState.kUnavailable,
     GeofenceTokenState.kUnavailable, False, False, 0, -1)"
  "authority_of (setUnavailableMaintenance s t) = (Snapshot_init, zero_token, GeofenceResourceState.kUnavailable,
     t, False, True, 0, -1)"
  "authority_of (setSemanticFallback s r t) = (gr_snapshot r, gr_token r, resourceStateOf (gr_snapshot r), t,
     True, True, gr_generation r, -1)"
  "authority_of (setAuthority (clearRecoveredRuntimeState s) p r) = (gr_snapshot r, gr_token r,
     resourceStateOf (gr_snapshot r), kValid, True, False, gr_generation r, int p)"
  by (simp_all add: authority_of_def authority_setters)

lemma recover_one_authority:
  "authority_of (recover_one (clearRecoveredRuntimeState s) sc) =
   authority_of (recover_one (clearRecoveredRuntimeState s') sc)"
  by (simp add: recover_one_def Let_def setter_authority)

lemma recover_two_authority:
  "authority_of (recover_two (clearRecoveredRuntimeState s) sc) =
   authority_of (recover_two (clearRecoveredRuntimeState s') sc)"
  by (simp add: recover_two_def Let_def setter_authority split: prod.split)

lemma authority_recover:
  "authority_of (recover_decide s (scan_cells c)) = reboot_authority c"
proof -
  have "authority_of (recover_decide s sc) = authority_of (recover_decide s' sc)" for s' :: "unit GeofenceStore" and sc
    using recover_one_authority [of s sc s'] recover_two_authority [of s sc s']
    by (simp add: recover_decide_def Let_def setter_authority)
  then show ?thesis by (simp add: reboot_authority_def)
qed

text \<open>Recovery writes nothing but the authority and the diagnostics.\<close>

definition same_frame :: "'f GeofenceStore \<Rightarrow> 'f GeofenceStore \<Rightarrow> bool" where
  "same_frame s s' \<longleftrightarrow> gs_flash s' = gs_flash s \<and> gs_job s' = gs_job s \<and> gs_blob s' = gs_blob s \<and>
     gs_blob_step s' = gs_blob_step s \<and> gs_awaiting_completion s' = gs_awaiting_completion s \<and>
     gs_ready s' = gs_ready s \<and> gs_recovery_pending s' = gs_recovery_pending s \<and>
     gs_mutation_unreconciled s' = gs_mutation_unreconciled s \<and>
     gs_mutation_result_ready s' = gs_mutation_result_ready s \<and>
     gs_mutation_success s' = gs_mutation_success s"

lemma setter_frame:
  "same_frame s (clearRecoveredRuntimeState s)"
  "same_frame s (setUnavailableMaintenance (clearRecoveredRuntimeState s) t)"
  "same_frame s (setSemanticFallback (clearRecoveredRuntimeState s) r t)"
  "same_frame s (setAuthority (clearRecoveredRuntimeState s) p r)"
  by (simp_all add: same_frame_def authority_setters)

lemma recover_frame: "same_frame s (recover_decide s sc)"
proof -
  have "same_frame s (recover_one (clearRecoveredRuntimeState s) sc)"
    by (simp add: recover_one_def Let_def setter_frame)
  moreover have "same_frame s (recover_two (clearRecoveredRuntimeState s) sc)"
    by (simp add: recover_two_def Let_def setter_frame split: prod.split)
  ultimately show ?thesis by (simp add: recover_decide_def Let_def setter_frame)
qed

lemmas recover_frame_simps [simp] = recover_frame [unfolded same_frame_def, THEN conjunct1]
  recover_frame [unfolded same_frame_def, THEN conjunct2, THEN conjunct1]

lemma count_frame [simp]:
  "gs_flash (count_corruptions s sc) = gs_flash s" "gs_job (count_corruptions s sc) = gs_job s"
  "gs_blob (count_corruptions s sc) = gs_blob s" "gs_ready (count_corruptions s sc) = gs_ready s"
  "gs_recovery_pending (count_corruptions s sc) = gs_recovery_pending s"
  "gs_mutation_unreconciled (count_corruptions s sc) = gs_mutation_unreconciled s"
  "gs_mutation_result_ready (count_corruptions s sc) = gs_mutation_result_ready s"
  "gs_mutation_success (count_corruptions s sc) = gs_mutation_success s"
  "gs_token_state (count_corruptions s sc) = gs_token_state s"
  by (simp_all add: count_corruptions_def)

definition current_record :: "'f GeofenceStore \<Rightarrow> GeofenceRecord" where
  "current_record s = \<lparr>gr_generation = gs_generation s, gr_token = gs_token s, gr_snapshot = gs_snapshot s\<rparr>"

definition pending_record :: "'f GeofenceStore \<Rightarrow> GeofenceRecord" where
  "pending_record s = \<lparr>gr_generation = gs_pending_generation s, gr_token = gs_pending_token s,
     gr_snapshot = gs_pending_snapshot s\<rparr>"

lemma valid_authority:
  assumes "length c = kGeofenceRegionSize" "authority_of s = reboot_authority c" "gs_token_state s = kValid"
  obtains p where "p < 2" "committed_at c p = Some (current_record s)" "tail_clean c p"
    "gs_active_page s = int p" "gs_resource_state s = resourceStateOf (gs_snapshot s)"
    "gs_semantic_unambiguous s" "\<not> gs_maintenance_reset_required s"
proof -
  let ?d = "recover_decide (GeofenceStore_init ()) (scan_cells c)"
  have eq: "authority_of s = authority_of ?d" using assms(2) by (simp add: reboot_authority_def)
  then have "gs_token_state ?d = kValid" using assms(3) by (simp add: authority_of_def)
  then obtain p r where "p < 2" "committed_at c p = Some r" "tail_clean c p"
    "?d = setAuthority (clearRecoveredRuntimeState (GeofenceStore_init ())) p r"
    using recover_valid [OF assms(1)] by metis
  then show thesis using eq that [of p]
    by (auto simp: authority_of_def authority_setters current_record_def)
qed

lemma committed_shape:
  assumes "length c = kGeofenceRegionSize" "p < 2" "committed_at c p = Some r"
  shows "snapshot_shape (gr_snapshot r)" "recordValid r"
  using decode_iff [of "page_bytes c p" r] length_page_bytes [OF assms(1,2)] assms(3)
  by (simp_all add: committed_at_def)

section \<open>A power cut during a mutation\<close>

text \<open>The cells when the first \<open>k\<close> words of a record have reached the page \<open>t\<close>.\<close>

definition interrupted :: "bytes \<Rightarrow> nat \<Rightarrow> GeofenceRecord \<Rightarrow> nat \<Rightarrow> bytes" where
  "interrupted c t r k = write_at (t * kPageSize) (take (4 * k) (record_bytes r)) c"

lemma length_interrupted [simp]: "length (interrupted c t r k) = length c"
  by (simp add: interrupted_def)

lemma interrupted_nth:
  assumes "length c = kGeofenceRegionSize" "t < 2" "snapshot_shape (gr_snapshot r)" "k \<le> 141" "i < length c"
  shows "interrupted c t r k ! i =
    (if t * kPageSize \<le> i \<and> i < t * kPageSize + 4 * k then record_bytes r ! (i - t * kPageSize) else c ! i)"
proof -
  have l: "length (take (4 * k) (record_bytes r)) = 4 * k" using assms(3,4) by (simp add: length_record_bytes)
  have r: "t * kPageSize + 4 * k \<le> length c"
    using page_room [OF assms(2)] assms(1,4) by (simp add: kPageSize_def)
  have w: "interrupted c t r k ! i = (if t * kPageSize \<le> i \<and> i < t * kPageSize + 4 * k
      then take (4 * k) (record_bytes r) ! (i - t * kPageSize) else c ! i)"
    using nth_write_at [of "t * kPageSize" "take (4 * k) (record_bytes r)" c i] r assms(5)
    unfolding interrupted_def l by simp
  show ?thesis
  proof (cases "t * kPageSize \<le> i \<and> i < t * kPageSize + 4 * k")
    case True
    then have "i - t * kPageSize < 4 * k" by linarith
    then show ?thesis using w True by simp
  qed (simp only: w if_False)
qed

lemma interrupted_target:
  assumes "length c = kGeofenceRegionSize" "t < 2" "snapshot_shape (gr_snapshot r)" "k \<le> 141" "blank c t"
  shows "page_bytes (interrupted c t r k) t = torn_page r k" "tail_clean (interrupted c t r k) t"
proof -
  note n = interrupted_nth [OF assms(1-4)]
  have room: "t * kPageSize + kPageSize \<le> length c" using page_room [OF assms(2)] assms(1) by simp
  have l: "length (torn_page r k) = 564" by (rule length_torn [OF assms(3,4)])
  show "page_bytes (interrupted c t r k) t = torn_page r k"
  proof (rule nth_equalityI)
    show "length (page_bytes (interrupted c t r k) t) = length (torn_page r k)"
      using l length_page_bytes [of "interrupted c t r k" t] assms(1,2) by simp
    fix i assume "i < length (page_bytes (interrupted c t r k) t)"
    then have i: "i < 564" using length_page_bytes [of "interrupted c t r k" t] assms(1,2) by simp
    then have pos: "t * kPageSize + i < length c" "i < kPageSize" using room by (simp_all add: kPageSize_def)
    have "page_bytes (interrupted c t r k) t ! i = interrupted c t r k ! (t * kPageSize + i)"
      using i room by (simp add: page_bytes_def gf_kRecordSize_def kPageSize_def)
    also have "\<dots> = (if i < 4 * k then record_bytes r ! i else 0xFF)"
      using n [OF pos(1)] assms(5) pos(2) by (simp add: blank_def)
    also have "\<dots> = torn_page r k ! i"
      using i assms(3,4) by (simp add: torn_page_def nth_append length_record_bytes min_def)
    finally show "page_bytes (interrupted c t r k) t ! i = torn_page r k ! i" .
  qed
  show "tail_clean (interrupted c t r k) t"
    using n room assms(4,5) by (auto simp: tail_clean_def blank_def gf_kRecordSize_def)
qed

lemma page_congs:
  assumes "\<And>i. i < kPageSize \<Longrightarrow> d ! (p * kPageSize + i) = c ! (p * kPageSize + i)"
    and "length d = kGeofenceRegionSize" "length c = kGeofenceRegionSize" "p < 2"
  shows "page_bytes d p = page_bytes c p" "tail_clean d p = tail_clean c p" "committed_at d p = committed_at c p"
    "blank d p = blank c p"
proof -
  show b: "page_bytes d p = page_bytes c p"
  proof (rule nth_equalityI)
    show "length (page_bytes d p) = length (page_bytes c p)"
      using length_page_bytes assms by simp
    fix i assume "i < length (page_bytes d p)"
    then have "i < 564" using length_page_bytes assms by simp
    then show "page_bytes d p ! i = page_bytes c p ! i"
      using assms(1) [of i] page_room [OF assms(4)] assms(2,3)
      by (simp add: page_bytes_def gf_kRecordSize_def kPageSize_def)
  qed
  then show "committed_at d p = committed_at c p" by (simp add: committed_at_def)
  show "tail_clean d p = tail_clean c p" "blank d p = blank c p"
    using assms(1) by (simp_all add: tail_clean_def blank_def)
qed

lemma interrupted_other:
  assumes "length c = kGeofenceRegionSize" "t < 2" "p < 2" "p \<noteq> t" "snapshot_shape (gr_snapshot r)" "k \<le> 141"
  shows "committed_at (interrupted c t r k) p = committed_at c p"
    "tail_clean (interrupted c t r k) p = tail_clean c p"
proof -
  have same: "interrupted c t r k ! (p * kPageSize + i) = c ! (p * kPageSize + i)" if "i < kPageSize" for i
  proof -
    have pos: "p * kPageSize + i < length c" using page_room [OF assms(3)] that assms(1) by simp
    have out: "\<not> (t * kPageSize \<le> p * kPageSize + i \<and> p * kPageSize + i < t * kPageSize + 4 * k)"
      using other_page_apart [OF assms(2,3)] assms(4,6) that by (auto simp: kPageSize_def)
    show ?thesis using interrupted_nth [OF assms(1,2,5,6) pos] by (simp only: out if_False)
  qed
  show "committed_at (interrupted c t r k) p = committed_at c p"
    "tail_clean (interrupted c t r k) p = tail_clean c p"
    using page_congs [OF same] assms(1,3) by simp_all
qed

text \<open>A torn body that happens to decode names the same generation and token as the record being written.\<close>

lemma torn_staged_same:
  assumes "recordValid r" "snapshot_shape (gr_snapshot r)" "k \<le> 140" "decodeBody (Some (torn_page r k)) = Some x"
  shows "gr_generation x = gr_generation r" "gr_token x = gr_token r"
proof -
  have k: "k \<le> 141" using assms(3) by simp
  have len: "564 \<le> length (torn_page r k)" using length_torn [OF assms(2) k] by simp
  have x: "snapshot_shape (gr_snapshot x)"
    "slice 0 560 (torn_page r k) = body_bytes x @ be_bytes 4 (journal_crc32 (body_bytes x))"
    using assms(4) decodeBody_iff [OF len] by simp_all
  have "slice 0 556 (slice 0 560 (torn_page r k)) = body_bytes x"
    unfolding x(2) using length_body_bytes [OF x(1)] by (simp add: slice_def)
  then have f: "slice 0 556 (torn_page r k) = body_bytes x" by (simp add: slice_slice)
  note fx = f [unfolded body_fields [OF len x(1)]] and sx = f [unfolded body_segments [OF len x(1)]]
  have "torn_page r k ! 28 \<noteq> 0xFF" using fx by (cases "sn_state (gr_snapshot x)") (auto simp: state_byte_def)
  then have k8: "8 \<le> k" using torn_nth_erased [OF assms(2), of k 28] by (cases "8 \<le> k") auto
  have "slice 0 556 (record_bytes r) = body_bytes r"
    using length_body_bytes [OF assms(2)] by (simp add: record_bytes_def slice_def)
  then have sr: "slice 8 8 (record_bytes r) = be_bytes 8 (gr_generation r) \<and>
      slice 16 8 (record_bytes r) = be_bytes 8 (incarnation (gr_token r)) \<and>
      slice 24 4 (record_bytes r) = be_bytes 4 (revision (gr_token r))"
    using body_segments [of "record_bytes r" r] length_record_bytes [OF assms(2)] assms(2) by simp
  have "slice 8 8 (torn_page r k) = slice 8 8 (record_bytes r)" "slice 16 8 (torn_page r k) = slice 16 8 (record_bytes r)"
    "slice 24 4 (torn_page r k) = slice 24 4 (record_bytes r)"
    using torn_slice_written [OF assms(2) _ k] k8 by simp_all
  then have e: "be_bytes 8 (gr_generation x) = be_bytes 8 (gr_generation r)"
    "be_bytes 8 (incarnation (gr_token x)) = be_bytes 8 (incarnation (gr_token r))"
    "be_bytes 4 (revision (gr_token x)) = be_bytes 4 (revision (gr_token r))"
    using sx sr by simp_all
  show "gr_generation x = gr_generation r" "gr_token x = gr_token r"
    using e by (simp_all add: be_bytes_inj)
qed

lemma torn_harmless:
  assumes len: "length d = kGeofenceRegionSize" and t: "t < 2"
    and new: "recordValid new" "snapshot_shape (gr_snapshot new)" and succ: "exactSuccessor old new"
    and page: "page_bytes d t = torn_page new k" "tail_clean d t" and k: "k \<le> 140"
  shows "committed_at d t = None" "evidence (page_insp d t) \<noteq> kUnsupportedNewer" "harmless d t old \<longleftrightarrow> k \<noteq> 1"
proof -
  have k': "k \<le> 141" using k by simp
  obtain i where i: "inspectPage (Some (torn_page new k)) = Some i"
    "isAuthoritativeCommitted (evidence i) \<longleftrightarrow> k = 141" "k = 0 \<longleftrightarrow> evidence i = kErased"
    "k = 1 \<longrightarrow> evidence i = kSupportedCorrupt"
    "2 \<le> k \<and> k \<le> 139 \<longrightarrow> evidence i = kStaged \<or> evidence i = kUncommittedOrTorn"
    "k = 140 \<longrightarrow> evidence i = kStaged"
    using torn_page_evidence [OF new k'] by (elim exE conjE) (rule that; assumption)
  have p: "page_insp d t = i" using i(1) page(1) by (simp add: page_insp_def)
  have l: "564 \<le> length (torn_page new k)" using length_torn [OF new(2) k'] by simp
  have ev: "evidence i \<in> {kErased, kSupportedCorrupt, kStaged, kUncommittedOrTorn}"
  proof -
    consider "k = 0" | "k = 1" | "2 \<le> k" "k \<le> 139" | "k = 140" using k by linarith
    then show ?thesis using i(3-6) by cases auto
  qed
  show nu: "evidence (page_insp d t) \<noteq> kUnsupportedNewer" using ev p by auto
  have "gf_decode (Some (torn_page new k)) = None" using inspect_committed [OF l] i(1,2) k by auto
  then show "committed_at d t = None" by (simp add: committed_at_def page(1))
  have staged: "\<exists>x. decoded i = Some x \<and> exactSuccessor old x" if e: "evidence i = kStaged"
  proof -
    have "decodeBody (Some (torn_page new k)) = decoded i \<and> decoded i \<noteq> None"
      using i(1) e l by (auto simp: inspectPage_def gf_layout Let_def split: if_splits option.splits)
    then obtain x where x: "decoded i = Some x" "decodeBody (Some (torn_page new k)) = Some x" by auto
    then show ?thesis using torn_staged_same [OF new k x(2)] succ by (simp add: exactSuccessor_def)
  qed
  have "evidence i = kSupportedCorrupt \<longleftrightarrow> k = 1"
    using i(3-6) k by (cases "k = 0"; cases "k = 1"; cases "k = 140") auto
  then show "harmless d t old \<longleftrightarrow> k \<noteq> 1"
    using p page(2) staged ev by (auto simp: harmless_def evidenceSafeUncommitted_def)
qed

lemma cut_recovers:
  assumes len: "length c = kGeofenceRegionSize" and p: "p < 2"
    and old: "committed_at c p = Some old" "tail_clean c p"
    and new: "recordValid new" "snapshot_shape (gr_snapshot new)" and succ: "exactSuccessor old new"
    and b: "blank c (1 - p)" and k: "k \<le> 141"
  shows "recover_decide s (scan_cells (interrupted c (1 - p) new k)) =
    (if k = 141 then setAuthority (clearRecoveredRuntimeState s) (1 - p) new
     else if k = 1 then setSemanticFallback (clearRecoveredRuntimeState s) old kUncertain
     else setAuthority (clearRecoveredRuntimeState s) p old)"
proof -
  let ?d = "interrupted c (1 - p) new k"
  have t: "1 - p < 2" and ne: "p \<noteq> 1 - p" using p by arith+
  have ld: "length ?d = kGeofenceRegionSize" using len by simp
  note tgt = interrupted_target [OF len t new(2) k b] and oth = interrupted_other [OF len t p ne new(2) k]
  have o: "committed_at ?d p = Some old" "tail_clean ?d p" using oth old by simp_all
  show ?thesis
  proof (cases "k = 141")
    case True
    have "slice 0 564 (torn_page new k) = record_bytes new" using torn_words(5) [OF new(2) k] True by simp
    then have "committed_at ?d (1 - p) = Some new"
      using decode_iff [of "torn_page new k" new] length_torn [OF new(2) k] new tgt(1) by (simp add: committed_at_def)
    from recover_pair [OF ld p o this tgt(2) succ] show ?thesis using True by simp
  next
    case False
    then have k1: "k \<le> 140" using k by simp
    note h = torn_harmless [OF ld t new succ tgt k1]
    show ?thesis unfolding recover_single [OF ld p o h(1,2)] h(3) using False by simp
  qed
qed

end
