(* ===== verification/Geofence_Store_Invariant.thy ===== *)
theory Geofence_Store_Invariant
  imports Geofence_Durability
begin

text \<open>
  The invariant of the geofence store and its preservation by every operation, proved once for any
  backend that keeps the flash contract: at rest the authority in RAM is the one a reboot would find,
  and while a mutation runs the old record stays committed on the active page.
\<close>

section \<open>The invariant of the store\<close>

text \<open>
  While a mutation runs, the active page still holds the current record, the other page is the target,
  the blob is the encoding of its exact successor, and the page under construction is blank before the
  body is programmed and clean behind the record afterwards; \<open>pd\<close> is the accepted but unfinished
  flash operation.
\<close>

definition phase_ok :: "bytes \<Rightarrow> (nat \<times> bytes) option \<Rightarrow> 'f GeofenceStore \<Rightarrow> bool" where
  "phase_ok c pd s \<longleftrightarrow> (let off = gs_target_page s * kPageSize in
     case gs_job s of
       kNone \<Rightarrow> False
     | kErase \<Rightarrow> gs_blob_step s = kBody \<and> (gs_awaiting_completion s \<longrightarrow> pd = Some (off, replicate kPageSize 0xFF))
     | kWrite \<Rightarrow>
         (case gs_blob_step s of
            kBody \<Rightarrow> if gs_awaiting_completion s
                    then pd = Some (off, take kBodyAndCrcSize (gs_blob s)) \<and> tail_clean c (gs_target_page s)
                    else blank c (gs_target_page s)
          | BlobStep.kCommit \<Rightarrow> gs_awaiting_completion s \<and> tail_clean c (gs_target_page s) \<and>
              pd = Some (off + kCommitOffset, slice kCommitOffset 4 (gs_blob s))
          | kVerify \<Rightarrow> False))"

definition mutation_base :: "bytes \<Rightarrow> 'f GeofenceStore \<Rightarrow> bool" where
  "mutation_base c s \<longleftrightarrow> length c = kGeofenceRegionSize \<and>
     gs_target_page s < 2 \<and> gs_active_page s = int (1 - gs_target_page s) \<and>
     committed_at c (1 - gs_target_page s) = Some (current_record s) \<and> tail_clean c (1 - gs_target_page s) \<and>
     exactSuccessor (current_record s) (pending_record s) \<and> recordValid (pending_record s) \<and>
     snapshot_shape (gs_pending_snapshot s) \<and> gs_blob s = record_bytes (pending_record s) \<and>
     gs_token_state s = kValid \<and> gs_resource_state s = resourceStateOf (gs_snapshot s) \<and>
     gs_semantic_unambiguous s \<and> \<not> gs_maintenance_reset_required s"

definition mutating :: "bytes \<Rightarrow> (nat \<times> bytes) option \<Rightarrow> 'f GeofenceStore \<Rightarrow> bool" where
  "mutating c pd s \<longleftrightarrow> mutation_base c s \<and> phase_ok c pd s \<and> gs_ready s \<and>
     \<not> gs_recovery_pending s \<and> \<not> gs_mutation_unreconciled s"

definition at_rest :: "bytes \<Rightarrow> 'f GeofenceStore \<Rightarrow> bool" where
  "at_rest c s \<longleftrightarrow> gs_job s = kNone \<and>
     (gs_ready s \<and> \<not> gs_recovery_pending s \<and> \<not> gs_mutation_unreconciled s \<longrightarrow> authority_of s = reboot_authority c) \<and>
     (gs_token_state s = kValid \<longrightarrow> gs_ready s \<and> \<not> gs_recovery_pending s \<and> \<not> gs_mutation_unreconciled s)"

definition store_inv :: "bytes \<Rightarrow> (nat \<times> bytes) option \<Rightarrow> 'f GeofenceStore \<Rightarrow> bool" where
  "store_inv c pd s \<longleftrightarrow> length (gs_blob s) = 564 \<and> (at_rest c s \<or> mutating c pd s)"

lemma confined_other_page:
  assumes "confined c d lo n" "t * kPageSize \<le> lo" "lo + n \<le> t * kPageSize + kPageSize"
    and "length c = kGeofenceRegionSize" "t < 2" "p < 2" "p \<noteq> t"
  shows "committed_at d p = committed_at c p" "tail_clean d p = tail_clean c p"
  using page_congs [OF confined_same [OF assms]] assms(1,4,6) by (simp_all add: confined_def)

lemma confined_tail:
  assumes "confined c d lo n" "lo + n \<le> t * kPageSize + gf_kRecordSize" "length c = kGeofenceRegionSize" "t < 2"
    and "tail_clean c t"
  shows "tail_clean d t"
  unfolding tail_clean_def
proof (intro allI impI)
  fix i assume i: "gf_kRecordSize \<le> i \<and> i < kPageSize"
  have "t * kPageSize + i < length c" using page_room [OF assms(4)] i assms(3) by simp
  moreover have "lo + n \<le> t * kPageSize + i" using assms(2) i by simp
  ultimately have "d ! (t * kPageSize + i) = c ! (t * kPageSize + i)" using assms(1) by (simp add: confined_def)
  then show "d ! (t * kPageSize + i) = 0xFF" using assms(5) i by (simp add: tail_clean_def)
qed

lemma blank_tail: "blank c t \<Longrightarrow> tail_clean c t"
  by (simp add: blank_def tail_clean_def)

lemma mutation_base_confined:
  assumes "mutation_base c s" "confined c d lo n" "gs_target_page s * kPageSize \<le> lo"
    "lo + n \<le> gs_target_page s * kPageSize + kPageSize"
  shows "mutation_base d s"
proof -
  let ?t = "gs_target_page s"
  have t: "?t < 2" "length c = kGeofenceRegionSize" using assms(1) by (simp_all add: mutation_base_def)
  have p: "1 - ?t < 2" "1 - ?t \<noteq> ?t" using t by (arith, arith)
  show ?thesis
    using assms(1) confined_other_page [OF assms(2-4) t(2,1) p] assms(2)
    by (simp add: mutation_base_def confined_def)
qed

lemma reboot_after_commit:
  assumes b: "mutation_base c s" and p: "page_bytes c (gs_target_page s) = gs_blob s" "tail_clean c (gs_target_page s)"
  shows "reboot_authority c = authority_of (finishMutation s)"
proof -
  let ?t = "gs_target_page s"
  have f: "length c = kGeofenceRegionSize" "?t < 2" "committed_at c (1 - ?t) = Some (current_record s)"
    "tail_clean c (1 - ?t)" "exactSuccessor (current_record s) (pending_record s)" "recordValid (pending_record s)"
    "snapshot_shape (gs_pending_snapshot s)" "gs_blob s = record_bytes (pending_record s)"
    using b by (simp_all add: mutation_base_def)
  have l: "length (page_bytes c ?t) = 564" by (rule length_page_bytes [OF f(1,2)])
  have new: "committed_at c ?t = Some (pending_record s)"
    using decode_iff [of "page_bytes c ?t" "pending_record s"] l f(6-8) p(1)
    by (simp add: committed_at_def slice_full pending_record_def)
  have tt: "1 - (1 - ?t) = ?t" using f(2) by arith
  have "1 - ?t < 2" by simp
  then have "recover_decide (GeofenceStore_init ()) (scan_cells c) =
      setAuthority (clearRecoveredRuntimeState (GeofenceStore_init ())) ?t (pending_record s)"
    using recover_pair [OF f(1) _ f(3,4) _ _ f(5), unfolded tt, OF _ new p(2)] by blast
  then have "reboot_authority c = authority_of (setAuthority (clearRecoveredRuntimeState (GeofenceStore_init ())) ?t (pending_record s))"
    by (simp add: reboot_authority_def)
  then show ?thesis
    by (simp add: authority_of_def finishMutation_def pending_record_def authority_setters)
qed

lemma fail_at_rest [simp]:
  "at_rest c (failMutation ops s)" "gs_blob (failMutation ops s) = gs_blob s" "gs_flash (failMutation ops s) = gs_flash s"
  by (simp_all add: at_rest_def failMutation_def Let_def)

lemma base_cong:
  assumes "mutation_base c s" "gs_target_page s' = gs_target_page s" "gs_active_page s' = gs_active_page s"
    "current_record s' = current_record s" "pending_record s' = pending_record s" "gs_blob s' = gs_blob s"
    "gs_token_state s' = gs_token_state s" "gs_resource_state s' = gs_resource_state s"
    "gs_semantic_unambiguous s' = gs_semantic_unambiguous s"
    "gs_maintenance_reset_required s' = gs_maintenance_reset_required s"
  shows "mutation_base c s'"
proof -
  have "gs_snapshot s' = gs_snapshot s" "gs_pending_snapshot s' = gs_pending_snapshot s"
    using assms(4,5) by (auto simp: current_record_def pending_record_def)
  then show ?thesis using assms by (simp add: mutation_base_def)
qed

text \<open>What one poll of a running mutation may do to it: keep it running, fail it, or finish it.\<close>

definition kept :: "'f GeofenceStore \<Rightarrow> 'f GeofenceStore \<Rightarrow> bool" where
  "kept s s' \<longleftrightarrow> pending_record s' = pending_record s \<and> current_record s' = current_record s \<and>
     gs_target_page s' = gs_target_page s \<and> gs_mutation_result_ready s' = gs_mutation_result_ready s"

definition outcome :: "bytes \<Rightarrow> 'f GeofenceStore \<Rightarrow> 'f GeofenceStore \<Rightarrow> bool" where
  "outcome c s s' \<longleftrightarrow>
     (if gs_busy s' then kept s s'
      else gs_mutation_result_ready s' \<and> gs_target_page s' = gs_target_page s \<and>
        committed_at c (1 - gs_target_page s) = Some (current_record s) \<and> tail_clean c (1 - gs_target_page s) \<and>
        (if gs_mutation_success s' then current_record s' = pending_record s \<and> gs_token_state s' = kValid
         else gs_token_state s' = kUncertain))"

lemma kept_outcome: "kept s s1 \<Longrightarrow> outcome c s1 s2 \<Longrightarrow> outcome c s s2"
  by (auto simp: kept_def outcome_def)

lemma fail_outcome:
  assumes "mutation_base c s" "kept s0 s"
  shows "outcome c s0 (failMutation ops s)"
  using assms by (simp add: outcome_def failMutation_def Let_def gs_busy_def mutation_base_def kept_def)

lemma finish_outcome:
  assumes "mutation_base c s" "kept s0 s"
  shows "outcome c s0 (finishMutation (s\<lparr>gs_blob_step := st\<rparr>))"
  using assms by (simp add: outcome_def finishMutation_def gs_busy_def mutation_base_def kept_def
      current_record_def pending_record_def)

lemma authority_count [simp]: "authority_of (count_corruptions s sc) = authority_of s"
  by (simp add: authority_of_def count_corruptions_def)

lemma authority_valid: "authority_of s = authority_of s' \<Longrightarrow> gs_token_state s = gs_token_state s'"
  by (simp add: authority_of_def)

lemma same_frame_trans: "same_frame s t \<Longrightarrow> same_frame t u \<Longrightarrow> same_frame s u"
  by (simp add: same_frame_def)

lemma count_same_frame: "same_frame s (count_corruptions s sc)"
  by (simp add: same_frame_def count_corruptions_def)

context geofence_flash
begin

lemma recover_frames:
  assumes "gs_recover ops s = (s', ok)"
  shows "same_frame s s'"
proof -
  obtain sc k where sc: "recover_pages ops (gs_flash s) [0..<kGeofenceRegionPages] scan_init = (sc, k)" by fastforce
  have "s' = count_corruptions s sc \<or> s' = recover_decide (count_corruptions s sc) sc"
    using assms sc by (auto simp: gs_recover_def Let_def split: if_splits)
  then show ?thesis using count_same_frame recover_frame same_frame_trans by metis
qed

lemma recover_authority:
  assumes "wf (gs_flash s)" "gs_recover ops s = (s', True)"
  shows "authority_of s' = reboot_authority (cells (gs_flash s'))"
proof -
  have "gs_flash s' = gs_flash s" using recover_frames [OF assms(2)] by (simp add: same_frame_def)
  then show ?thesis using recover_cells [OF assms] authority_recover by metis
qed

lemma recover_failed:
  assumes "gs_recover ops s = (s', False)"
  shows "authority_of s' = authority_of s"
proof -
  obtain sc k where sc: "recover_pages ops (gs_flash s) [0..<kGeofenceRegionPages] scan_init = (sc, k)" by fastforce
  have "s' = count_corruptions s sc" using assms sc by (auto simp: gs_recover_def Let_def split: if_splits)
  then show ?thesis by simp
qed

lemma poll_idle_rest:
  assumes "wf (gs_flash s)" "gs_job s = kNone" "gs_ready s" "\<not> gs_mutation_unreconciled s"
    and "gs_recovery_pending s \<or> at_rest (cells (gs_flash s)) s"
  shows "at_rest (cells (gs_flash (poll_idle ops s))) (poll_idle ops s) \<and>
    gs_flash (poll_idle ops s) = gs_flash s \<and> gs_blob (poll_idle ops s) = gs_blob s"
proof (cases "gs_recovery_pending s")
  case False
  then show ?thesis using assms(5) by (simp add: poll_idle_def)
next
  case True
  obtain s' ok where r: "gs_recover ops (s\<lparr>gs_recovery_pending := False\<rparr>) = (s', ok)" by fastforce
  note fr = recover_frames [OF r, unfolded same_frame_def, simplified]
  show ?thesis
  proof (cases ok)
    case False
    then show ?thesis using True r fr assms by (simp add: poll_idle_def at_rest_def)
  next
    case ok: True
    have "authority_of s' = reboot_authority (cells (gs_flash s))"
      using recover_authority [of "s\<lparr>gs_recovery_pending := False\<rparr>" s'] r ok fr assms(1) by simp
    then show ?thesis using True r ok fr assms
      by (simp add: poll_idle_def at_rest_def authority_of_def)
  qed
qed

lemma poll_erase_inv:
  assumes wf: "wf (gs_flash s)" and m: "mutating (cells (gs_flash s)) (pending (gs_flash s)) s"
    and job: "gs_job s = kErase" and s': "s' = poll_erase ops s"
  shows "wf (gs_flash s') \<and> gs_blob s' = gs_blob s \<and>
    (at_rest (cells (gs_flash s')) s' \<or> mutating (cells (gs_flash s')) (pending (gs_flash s')) s') \<and>
    outcome (cells (gs_flash s')) s s'"
proof -
  let ?t = "gs_target_page s" and ?c = "cells (gs_flash s)"
  obtain f' r where op: "(if gs_awaiting_completion s then fb_pollPending ops (gs_flash s)
      else fb_erasePage ops (gs_flash s) ?t) = (f', r)" by fastforce
  have b: "mutation_base ?c s" "gs_blob_step s = kBody" and t: "?t < 2" and len: "length ?c = kGeofenceRegionSize"
    and aw: "gs_awaiting_completion s \<Longrightarrow> pending (gs_flash s) = Some (?t * kPageSize, replicate kPageSize 0xFF)"
    using m job by (auto simp: mutating_def phase_ok_def mutation_base_def Let_def)
  have conf: "wf f' \<and> confined ?c (cells f') (?t * kPageSize) kPageSize"
    using op aw erase_confined [OF wf] poll_confined [OF wf]
    by (cases "gs_awaiting_completion s") fastforce+
  have dn: "r = kDone \<Longrightarrow> cells f' = write_at (?t * kPageSize) (replicate kPageSize 0xFF) ?c"
    using op aw erase_done [OF wf] poll_done [OF wf] by (cases "gs_awaiting_completion s") fastforce+
  have pend: "r = kPending \<Longrightarrow> pending f' = Some (?t * kPageSize, replicate kPageSize 0xFF)"
    using op aw erase_pending [OF wf] poll_pending [OF wf] by (cases "gs_awaiting_completion s") fastforce+
  have b': "mutation_base (cells f') s"
    by (rule mutation_base_confined [OF b(1) conjunct2 [OF conf]]) simp_all
  have s'_eq: "s' = (let s = s\<lparr>gs_flash := f'\<rparr> in
      if r = kPending then s\<lparr>gs_awaiting_completion := True\<rparr>
      else let s = s\<lparr>gs_awaiting_completion := False\<rparr> in
           if r = kFailed then failMutation ops s else s\<lparr>gs_job := kWrite\<rparr>)"
    using s' op by (simp add: poll_erase_def)
  have flags: "gs_ready s" "\<not> gs_recovery_pending s" "\<not> gs_mutation_unreconciled s"
    using m by (simp_all add: mutating_def)
  have kept: "kept s (s\<lparr>gs_flash := f', gs_awaiting_completion := a, gs_job := j\<rparr>)"
    "kept s (s\<lparr>gs_flash := f', gs_awaiting_completion := a\<rparr>)" for a j
    by (simp_all add: kept_def current_record_def pending_record_def)
  show ?thesis
  proof (cases r)
    case kPending
    have "mutation_base (cells f') s'" by (rule base_cong [OF b'])
        (simp_all add: s'_eq kPending current_record_def pending_record_def)
    then show ?thesis using s'_eq kPending conf pend b(2) job flags
      by (simp add: mutating_def phase_ok_def outcome_def gs_busy_def kept)
  next
    case kFailed
    have "mutation_base (cells f') (s\<lparr>gs_flash := f', gs_awaiting_completion := False\<rparr>)"
      by (rule base_cong [OF b']) (simp_all add: current_record_def pending_record_def)
    from fail_outcome [OF this kept(2)] show ?thesis using s'_eq conf kFailed by simp
  next
    case kDone
    have "mutation_base (cells f') s'" by (rule base_cong [OF b'])
        (simp_all add: s'_eq kDone current_record_def pending_record_def)
    moreover have "blank (cells f') ?t" using dn [OF kDone] erased_blank [OF t len] by simp
    ultimately show ?thesis using s'_eq kDone conf b(2) job flags
      by (simp add: mutating_def phase_ok_def outcome_def gs_busy_def kept)
  qed
qed

end

text \<open>The body is on the page; the commit word is not yet requested, or it is pending.\<close>

definition commit_ready :: "bytes \<Rightarrow> (nat \<times> bytes) option \<Rightarrow> 'f GeofenceStore \<Rightarrow> bool" where
  "commit_ready c pd s \<longleftrightarrow> mutation_base c s \<and> tail_clean c (gs_target_page s) \<and> gs_job s = kWrite \<and>
     gs_blob_step s = BlobStep.kCommit \<and> gs_ready s \<and> \<not> gs_recovery_pending s \<and> \<not> gs_mutation_unreconciled s \<and>
     (gs_awaiting_completion s \<longrightarrow>
        pd = Some (gs_target_page s * kPageSize + kCommitOffset, slice kCommitOffset 4 (gs_blob s)))"

definition written :: "bytes \<Rightarrow> 'f GeofenceStore \<Rightarrow> bool" where
  "written c s \<longleftrightarrow> mutation_base c s \<and> tail_clean c (gs_target_page s) \<and>
     gs_ready s \<and> \<not> gs_recovery_pending s \<and> \<not> gs_mutation_unreconciled s"

lemma length_blob: "mutation_base c s \<Longrightarrow> length (gs_blob s) = 564"
  by (simp add: mutation_base_def length_record_bytes pending_record_def)

lemma store_sizes: "kBodyAndCrcSize = 560" "kCommitOffset = 560" "gf_kRecordSize = 564"
  by (simp_all add: kBodyAndCrcSize_def kCrcOffset_def kCommitOffset_def gf_kRecordSize_def gf_layout)

context geofence_flash
begin

lemma write_body_inv:
  assumes wf: "wf (gs_flash s)" and m: "mutating (cells (gs_flash s)) (pending (gs_flash s)) s"
    and job: "gs_job s = kWrite" and e: "write_body ops s = (s', res)"
  shows "wf (gs_flash s') \<and> gs_blob s' = gs_blob s \<and>
    (case res of
       None \<Rightarrow> commit_ready (cells (gs_flash s')) (pending (gs_flash s')) s' \<and> kept s s'
     | Some r \<Rightarrow> r \<noteq> kDone \<and> outcome (cells (gs_flash s')) s s' \<and> (at_rest (cells (gs_flash s')) s' \<or> mutating (cells (gs_flash s')) (pending (gs_flash s')) s'))"
proof (cases "gs_blob_step s = kBody")
  case False
  then show ?thesis
    using wf m job e by (auto simp: write_body_def mutating_def phase_ok_def commit_ready_def kept_def Let_def split: BlobStep.splits)
next
  case True
  let ?t = "gs_target_page s" and ?c = "cells (gs_flash s)" and ?d = "take kBodyAndCrcSize (gs_blob s)"
  obtain f' r where op: "(if gs_awaiting_completion s then fb_pollPending ops (gs_flash s)
      else fb_program ops (gs_flash s) (?t * kPageSize) ?d) = (f', r)" by fastforce
  have b: "mutation_base ?c s" and t: "?t < 2" and len: "length ?c = kGeofenceRegionSize"
    and aw: "gs_awaiting_completion s \<Longrightarrow> pending (gs_flash s) = Some (?t * kPageSize, ?d)"
    and tail: "tail_clean ?c ?t"
    using m job True blank_tail by (auto simp: mutating_def phase_ok_def mutation_base_def Let_def split: if_splits)
  have ld: "length ?d = 560" using length_blob [OF b] by (simp add: store_sizes)
  have conf: "wf f' \<and> confined ?c (cells f') (?t * kPageSize) 560"
    using op aw program_confined [OF wf, of "?t * kPageSize" ?d] poll_confined [OF wf, of f' r "?t * kPageSize" ?d] ld
    by (cases "gs_awaiting_completion s") fastforce+
  have pend: "r = kPending \<Longrightarrow> pending f' = Some (?t * kPageSize, ?d)"
    using op aw program_pending [OF wf] poll_pending [OF wf] by (cases "gs_awaiting_completion s") fastforce+
  have b': "mutation_base (cells f') s"
    by (rule mutation_base_confined [OF b conjunct2 [OF conf]]) (simp_all add: kPageSize_def)
  have tail': "tail_clean (cells f') ?t"
    by (rule confined_tail [OF conjunct2 [OF conf] _ len t tail]) (simp add: store_sizes)
  have flags: "gs_ready s" "\<not> gs_recovery_pending s" "\<not> gs_mutation_unreconciled s"
    using m by (simp_all add: mutating_def)
  have base: "mutation_base (cells f') (s\<lparr>gs_flash := f', gs_awaiting_completion := a, gs_blob_step := st\<rparr>)" for a st
    by (rule base_cong [OF b']) (simp_all add: current_record_def pending_record_def)
  have base1: "mutation_base (cells f') (s\<lparr>gs_flash := f', gs_awaiting_completion := a\<rparr>)" for a
    by (rule base_cong [OF b']) (simp_all add: current_record_def pending_record_def)
  have kept: "kept s (s\<lparr>gs_flash := f', gs_awaiting_completion := a, gs_blob_step := st\<rparr>)"
    "kept s (s\<lparr>gs_flash := f', gs_awaiting_completion := a\<rparr>)" for a st
    by (simp_all add: kept_def current_record_def pending_record_def)
  note failed = fail_outcome [OF base1 kept(2)]
  show ?thesis
  proof (cases r)
    case kPending
    then have "s' = s\<lparr>gs_flash := f', gs_awaiting_completion := True\<rparr>" "res = Some kPending"
      using e op True by (simp_all add: write_body_def Let_def)
    then show ?thesis using conf pend kPending base1 tail' True job flags
      by (simp add: mutating_def phase_ok_def outcome_def gs_busy_def kept)
  next
    case kFailed
    then show ?thesis using e op True conf failed by (auto simp: write_body_def Let_def)
  next
    case kDone
    show ?thesis
    proof (cases "fb_read ops f' (?t * kPageSize) kBodyAndCrcSize = Some ?d")
      case False
      then show ?thesis using e op True conf kDone failed by (auto simp: write_body_def Let_def)
    next
      case rd: True
      then have "s' = s\<lparr>gs_flash := f', gs_awaiting_completion := False, gs_blob_step := BlobStep.kCommit\<rparr>" "res = None"
        using e op True kDone by (simp_all add: write_body_def Let_def)
      then show ?thesis using conf base tail' job flags by (simp add: commit_ready_def kept)
    qed
  qed
qed

lemma write_commit_inv:
  assumes wf: "wf (gs_flash s)" and m: "commit_ready (cells (gs_flash s)) (pending (gs_flash s)) s"
    and e: "write_commit ops s = (s', res)"
  shows "wf (gs_flash s') \<and> gs_blob s' = gs_blob s \<and>
    (case res of
       None \<Rightarrow> written (cells (gs_flash s')) s' \<and> kept s s'
     | Some r \<Rightarrow> r \<noteq> kDone \<and> outcome (cells (gs_flash s')) s s' \<and> (at_rest (cells (gs_flash s')) s' \<or> mutating (cells (gs_flash s')) (pending (gs_flash s')) s'))"
proof -
  let ?t = "gs_target_page s" and ?c = "cells (gs_flash s)" and ?d = "slice kCommitOffset 4 (gs_blob s)"
  let ?o = "gs_target_page s * kPageSize + kCommitOffset"
  obtain f' r where op: "(if gs_awaiting_completion s then fb_pollPending ops (gs_flash s)
      else fb_program ops (gs_flash s) ?o ?d) = (f', r)" by fastforce
  have b: "mutation_base ?c s" and t: "?t < 2" and len: "length ?c = kGeofenceRegionSize"
    and aw: "gs_awaiting_completion s \<Longrightarrow> pending (gs_flash s) = Some (?o, ?d)"
    and tail: "tail_clean ?c ?t" and st: "gs_blob_step s = BlobStep.kCommit" and job: "gs_job s = kWrite"
    and flags: "gs_ready s" "\<not> gs_recovery_pending s" "\<not> gs_mutation_unreconciled s"
    using m by (auto simp: commit_ready_def mutation_base_def)
  have ld: "length ?d = 4" using length_blob [OF b] by (simp add: store_sizes)
  have conf: "wf f' \<and> confined ?c (cells f') ?o 4"
    using op aw program_confined [OF wf, of ?o ?d] poll_confined [OF wf, of f' r ?o ?d] ld
    by (cases "gs_awaiting_completion s") fastforce+
  have pend: "r = kPending \<Longrightarrow> pending f' = Some (?o, ?d)"
    using op aw program_pending [OF wf] poll_pending [OF wf] by (cases "gs_awaiting_completion s") fastforce+
  have b': "mutation_base (cells f') s"
    by (rule mutation_base_confined [OF b conjunct2 [OF conf]]) (simp_all add: kPageSize_def store_sizes)
  have tail': "tail_clean (cells f') ?t"
    by (rule confined_tail [OF conjunct2 [OF conf] _ len t tail]) (simp add: store_sizes)
  have base: "mutation_base (cells f') (s\<lparr>gs_flash := f', gs_awaiting_completion := a, gs_blob_step := st\<rparr>)" for a st
    by (rule base_cong [OF b']) (simp_all add: current_record_def pending_record_def)
  have base1: "mutation_base (cells f') (s\<lparr>gs_flash := f', gs_awaiting_completion := a\<rparr>)" for a
    by (rule base_cong [OF b']) (simp_all add: current_record_def pending_record_def)
  have kept: "kept s (s\<lparr>gs_flash := f', gs_awaiting_completion := a, gs_blob_step := st\<rparr>)"
    "kept s (s\<lparr>gs_flash := f', gs_awaiting_completion := a\<rparr>)" for a st
    by (simp_all add: kept_def current_record_def pending_record_def)
  note failed = fail_outcome [OF base1 kept(2)]
  show ?thesis
  proof (cases r)
    case kPending
    then have "s' = s\<lparr>gs_flash := f', gs_awaiting_completion := True\<rparr>" "res = Some kPending"
      using e op st by (simp_all add: write_commit_def Let_def)
    then show ?thesis using conf pend kPending base1 tail' st job flags
      by (simp add: mutating_def phase_ok_def outcome_def gs_busy_def kept)
  next
    case kFailed
    then show ?thesis using e op st conf failed by (auto simp: write_commit_def Let_def)
  next
    case kDone
    then have "s' = s\<lparr>gs_flash := f', gs_awaiting_completion := False, gs_blob_step := kVerify\<rparr>" "res = None"
      using e op st by (simp_all add: write_commit_def Let_def)
    then show ?thesis using conf base tail' flags by (simp add: written_def kept)
  qed
qed

lemma finish_rest:
  assumes "wf (gs_flash s)" "written (cells (gs_flash s)) s" "verified ops s"
  shows "at_rest (cells (gs_flash s)) (finishMutation (s\<lparr>gs_blob_step := kBody\<rparr>))"
proof -
  have b: "mutation_base (cells (gs_flash s)) s" "tail_clean (cells (gs_flash s)) (gs_target_page s)"
    using assms(2) by (simp_all add: written_def)
  have "fb_read ops (gs_flash s) (gs_target_page s * kPageSize) gf_kRecordSize = Some (gs_blob s)"
    using assms(3) by (simp add: verified_def)
  then have "page_bytes (cells (gs_flash s)) (gs_target_page s) = gs_blob s"
    using read_cells [OF assms(1)] by (simp add: page_bytes_def)
  from reboot_after_commit [OF b(1) this b(2)] show ?thesis
    using assms(2) by (simp add: at_rest_def written_def finishMutation_def authority_of_def)
qed

lemma poll_write_inv:
  assumes wf: "wf (gs_flash s)" and m: "mutating (cells (gs_flash s)) (pending (gs_flash s)) s"
    and job: "gs_job s = kWrite" and s': "s' = poll_write ops s"
  shows "wf (gs_flash s') \<and> gs_blob s' = gs_blob s \<and>
    (at_rest (cells (gs_flash s')) s' \<or> mutating (cells (gs_flash s')) (pending (gs_flash s')) s') \<and>
    outcome (cells (gs_flash s')) s s'"
proof -
  obtain s1 r1 where e1: "write_body ops s = (s1, r1)" by fastforce
  note i1 = write_body_inv [OF wf m job e1]
  show ?thesis
  proof (cases r1)
    case (Some r)
    then have "s' = s1" using s' e1 i1 by (simp add: poll_write_def writeBlob_def)
    then show ?thesis using i1 Some by simp
  next
    case None
    then have c: "wf (gs_flash s1)" "commit_ready (cells (gs_flash s1)) (pending (gs_flash s1)) s1"
      and k1: "kept s s1" using i1 by simp_all
    obtain s2 r2 where e2: "write_commit ops s1 = (s2, r2)" by fastforce
    note i2 = write_commit_inv [OF c e2]
    show ?thesis
    proof (cases r2)
      case (Some r)
      then have "s' = s2" using s' e1 e2 i2 None by (simp add: poll_write_def writeBlob_def)
      then show ?thesis using i1 i2 Some kept_outcome [OF k1] by simp
    next
      case none: None
      then have w: "wf (gs_flash s2)" "written (cells (gs_flash s2)) s2" and k2: "kept s1 s2" using i2 by simp_all
      then have base: "mutation_base (cells (gs_flash s2)) s2" by (simp add: written_def)
      note fin = kept_outcome [OF k1 finish_outcome [OF base k2]] and fl = kept_outcome [OF k1 fail_outcome [OF base k2]]
      show ?thesis
      proof (cases "verified ops s2")
        case True
        then have "s' = finishMutation (s2\<lparr>gs_blob_step := kBody\<rparr>)"
          using s' e1 e2 None none by (simp add: poll_write_def writeBlob_def)
        then show ?thesis using finish_rest [OF w True] fin i1 i2 w(1) by (simp add: finishMutation_def)
      next
        case False
        then have "s' = failMutation ops s2"
          using s' e1 e2 None none by (simp add: poll_write_def writeBlob_def)
        then show ?thesis using fl i1 i2 w(1) by simp
      qed
    qed
  qed
qed

end

section \<open>Requests\<close>

lemma rest_fields:
  assumes "at_rest c s" "gs_job s' = gs_job s" "authority_of s' = authority_of s" "gs_ready s' = gs_ready s"
    "gs_recovery_pending s' = gs_recovery_pending s" "gs_mutation_unreconciled s' = gs_mutation_unreconciled s"
  shows "at_rest c s'"
  using assms authority_valid [OF assms(3)] by (simp add: at_rest_def)

lemma start_mutation_inv:
  assumes rest: "at_rest c s" and len: "length c = kGeofenceRegionSize" and blob: "length (gs_blob s) = 564"
    and v: "gs_token_state s = kValid" and shape: "snapshot_shape cand" and e: "startMutation s cand = (s', ok)"
  shows "length (gs_blob s') = 564 \<and> gs_flash s' = gs_flash s \<and> (if ok then mutating c pd s' \<and> gs_job s' = kErase
      else at_rest c s')"
proof (cases "gs_generation s = UINT64_MAX \<or> revision (gs_token s) = UINT32_MAX")
  case True
  then show ?thesis using assms by (simp add: startMutation_def)
next
  case False
  have flags: "gs_ready s" "\<not> gs_recovery_pending s" "\<not> gs_mutation_unreconciled s" "authority_of s = reboot_authority c"
    using rest v by (simp_all add: at_rest_def)
  obtain p where p: "p < 2" "committed_at c p = Some (current_record s)" "tail_clean c p" "gs_active_page s = int p"
    "gs_resource_state s = resourceStateOf (gs_snapshot s)" "gs_semantic_unambiguous s" "\<not> gs_maintenance_reset_required s"
    using valid_authority [OF len flags(4) v] by metis
  define s1 where "s1 = s\<lparr>gs_target_page := nat (1 - gs_active_page s), gs_pending_generation := gs_generation s + 1,
      gs_pending_snapshot := cand,
      gs_pending_token := \<lparr>incarnation = incarnation (gs_token s), revision = revision (gs_token s) + 1\<rparr>\<rparr>"
  have start: "(s', ok) = (case gf_encode (pending_record s1) (Some (gs_blob s1)) of None \<Rightarrow> (s1, False)
      | Some b \<Rightarrow> (s1\<lparr>gs_blob := b, gs_job := kErase, gs_blob_step := kBody, gs_awaiting_completion := False\<rparr>, True))"
    using e False by (auto simp: startMutation_def s1_def pending_record_def Let_def split: option.splits)
  have blob1: "564 \<le> length (gs_blob s1)" using blob by (simp add: s1_def)
  have shape1: "snapshot_shape (gr_snapshot (pending_record s1))" using shape by (simp add: s1_def pending_record_def)
  show ?thesis
  proof (cases "gf_encode (pending_record s1) (Some (gs_blob s1))")
    case None
    then have "s' = s1" "\<not> ok" using start by simp_all
    moreover have "at_rest c s1" by (rule rest_fields [OF rest]) (simp_all add: s1_def authority_of_def)
    ultimately show ?thesis using blob by (simp add: s1_def)
  next
    case (Some b)
    then have valid: "recordValid (pending_record s1)" by (auto simp: gf_encode_def split: if_splits)
    obtain b' where "gf_encode (pending_record s1) (Some (gs_blob s1)) = Some b'" "length b' = length (gs_blob s1)"
      "slice 0 564 b' = record_bytes (pending_record s1)"
      using encode_segments [OF valid shape1 blob1] by blast
    then have b: "length b = 564" "b = record_bytes (pending_record s1)"
      using Some blob by (simp_all add: s1_def slice_full)
    have s': "s' = s1\<lparr>gs_blob := b, gs_job := kErase, gs_blob_step := kBody, gs_awaiting_completion := False\<rparr>" "ok"
      using start Some by simp_all
    have t: "gs_target_page s' = 1 - p" "1 - (1 - p) = p" using p(1,4) by (simp_all add: s' s1_def nat_diff_distrib)
    have "exactSuccessor (current_record s) (pending_record s1)"
      using False by (simp add: exactSuccessor_def current_record_def pending_record_def s1_def)
    moreover have "current_record s' = current_record s" "pending_record s' = pending_record s1"
      by (simp_all add: current_record_def pending_record_def s' s1_def)
    ultimately have "mutation_base c s'"
      using len p t v valid b(2) shape by (simp add: mutation_base_def s' s1_def)
    then show ?thesis using s' b(1) flags by (simp add: mutating_def phase_ok_def s1_def)
  qed
qed

lemma request_inv:
  assumes inv: "store_inv c pd s" and len: "length c = kGeofenceRegionSize"
    and shape: "snapshot_shape cand" and e: "requestSnapshot s cand = (s', ok)"
  shows "store_inv c pd s' \<and> gs_flash s' = gs_flash s"
proof (cases "gs_busy s")
  case True
  then show ?thesis using inv e by (simp add: requestSnapshot_def)
next
  case idle: False
  then have rest: "at_rest c s" and blob: "length (gs_blob s) = 564"
    using inv by (auto simp: store_inv_def gs_busy_def mutating_def phase_ok_def Let_def)
  have keep: "store_inv c pd t \<and> gs_flash t = gs_flash s"
    if "t = s\<lparr>gs_diagnostics := d\<rparr>" for t d
    using that rest_fields [OF rest, of t] blob by (simp add: store_inv_def authority_of_def)
  have same: "store_inv c pd s" by (rule inv)
  consider d where "s' = s\<lparr>gs_diagnostics := d\<rparr>" | "s' = s"
    | "startMutation s cand = (s', ok)" "gs_token_state s = kValid"
    using e by (auto simp: requestSnapshot_def bump_lockouts_def split: if_splits)
  then show ?thesis
  proof cases
    case 3
    from start_mutation_inv [OF rest len blob 3(2) shape 3(1), of pd]
    show ?thesis by (cases ok) (simp_all add: store_inv_def)
  qed (use keep same in blast)+
qed

lemma clear_shape: "snapshot_shape makeClearSnapshot"
  by (simp add: snapshot_shape_def makeClearSnapshot_def Snapshot_init_def gf_kMaximumAreas_def gf_kMaximumTotalVertices_def)

lemma canonical_shape: "canonicalizeConfiguredAreaSet as = Some cand \<Longrightarrow> snapshot_shape cand"
proof -
  assume a: "canonicalizeConfiguredAreaSet as = Some cand"
  then obtain areas where "as = Some areas" by (cases as) (auto simp: canonicalizeConfiguredAreaSet_def)
  then show ?thesis using a canonicalize_exact [of areas] canonical_valid(2) [of areas] by (auto split: if_splits)
qed

lemma diagnostics_inv [simp]: "store_inv c pd (s\<lparr>gs_diagnostics := d\<rparr>) = store_inv c pd s"
proof -
  have "phase_ok c pd (s\<lparr>gs_diagnostics := d\<rparr>) = phase_ok c pd s"
    by (cases "gs_job s"; cases "gs_blob_step s") (simp_all add: phase_ok_def)
  then show ?thesis
    by (simp add: store_inv_def at_rest_def mutating_def mutation_base_def authority_of_def
        current_record_def pending_record_def)
qed

lemma replace_inv:
  assumes inv: "store_inv c pd s" and len: "length c = kGeofenceRegionSize" and e: "requestReplace s areas = (s', ok)"
  shows "store_inv c pd s' \<and> gs_flash s' = gs_flash s"
proof (cases "canonicalizeConfiguredAreaSet areas")
  case (Some cand)
  then show ?thesis using request_inv [OF inv len canonical_shape [OF Some]] e by (simp add: requestReplace_def)
next
  case None
  then have "s' = s\<lparr>gs_diagnostics := (gs_diagnostics s)
      \<lparr>dg_rejected_candidates := dg_rejected_candidates (gs_diagnostics s) + 1\<rparr>\<rparr>"
    using e by (simp add: requestReplace_def)
  then show ?thesis using inv by simp
qed

lemma take_inv: "store_inv c pd s \<Longrightarrow> store_inv c pd (fst (takeMutationResult s))"
proof -
  have "phase_ok c pd (s\<lparr>gs_mutation_result_ready := d\<rparr>) = phase_ok c pd s" for d
    by (cases "gs_job s"; cases "gs_blob_step s") (simp_all add: phase_ok_def)
  then show "store_inv c pd s \<Longrightarrow> store_inv c pd (fst (takeMutationResult s))"
    by (simp add: takeMutationResult_def store_inv_def at_rest_def mutating_def mutation_base_def authority_of_def
        current_record_def pending_record_def)
qed

context geofence_flash
begin

lemma poll_inv:
  assumes wf: "wf (gs_flash s)" and inv: "store_inv (cells (gs_flash s)) (pending (gs_flash s)) s"
    and s': "s' = gs_poll ops s"
  shows "wf (gs_flash s') \<and> store_inv (cells (gs_flash s')) (pending (gs_flash s')) s'"
proof -
  let ?c = "cells (gs_flash s)" and ?pd = "pending (gs_flash s)"
  have blob: "length (gs_blob s) = 564" using inv by (simp add: store_inv_def)
  consider "s' = s" | "gs_ready s" "gs_job s = kNone"
       "\<not> (gs_mutation_unreconciled s \<and> fb_hasUnreconciledMutation ops (gs_flash s))"
    | "gs_ready s" "gs_job s \<noteq> kNone" "mutating ?c ?pd s" "\<not> gs_mutation_unreconciled s"
    using s' inv by (auto simp: gs_poll_def store_inv_def at_rest_def mutating_def split: if_splits)
  then show ?thesis
  proof cases
    case 1
    then show ?thesis using wf inv by simp
  next
    case 2
    define s1 where "s1 = (if gs_mutation_unreconciled s
        then s\<lparr>gs_mutation_unreconciled := False, gs_recovery_pending := True\<rparr> else s)"
    have s1: "gs_flash s1 = gs_flash s" "gs_job s1 = kNone" "gs_ready s1" "\<not> gs_mutation_unreconciled s1"
      "gs_blob s1 = gs_blob s" using 2 by (simp_all add: s1_def)
    have "at_rest ?c s" using inv 2 by (auto simp: store_inv_def mutating_def phase_ok_def Let_def)
    then have "gs_recovery_pending s1 \<or> at_rest (cells (gs_flash s1)) s1" by (simp add: s1_def)
    moreover have "s' = poll_idle ops s1" using s' 2 by (simp add: gs_poll_def s1_def)
    ultimately show ?thesis using poll_idle_rest [of s1] s1 wf blob by (auto simp: store_inv_def)
  next
    case 3
    have "s' = poll_erase ops s \<and> gs_job s = kErase \<or> s' = poll_write ops s \<and> gs_job s = kWrite"
      using s' 3 by (cases "gs_job s") (simp_all add: gs_poll_def)
    then show ?thesis
      using poll_erase_inv [OF wf 3(3), of s'] poll_write_inv [OF wf 3(3), of s'] blob
      by (auto simp: store_inv_def)
  qed
qed

end

definition baseline_record :: "u64 \<Rightarrow> GeofenceRecord" where
  "baseline_record inc = \<lparr>gr_generation = 1, gr_token = \<lparr>incarnation = inc, revision = 1\<rparr>, gr_snapshot = makeClearSnapshot\<rparr>"

lemma baseline_shape: "snapshot_shape (gr_snapshot (baseline_record inc))"
  by (simp add: baseline_record_def clear_shape)

lemma baseline_authority:
  assumes len: "length c = kGeofenceRegionSize" and conf: "confined c d 0 gf_kRecordSize"
    and ev: "evidence (page_insp c 1) = kErased" and tail: "tail_clean c 0" "tail_clean c 1"
    and page: "page_bytes d 0 = record_bytes r" and valid: "recordValid r" "snapshot_shape (gr_snapshot r)"
  shows "recover_decide s (scan_cells d) = setAuthority (clearRecoveredRuntimeState s) 0 r"
proof -
  have ld: "length d = kGeofenceRegionSize" using conf len by (simp add: confined_def)
  have r: "committed_at d 0 = Some r"
    using decode_iff [of "page_bytes d 0" r] length_page_bytes [OF ld, of 0] valid page
    by (simp add: committed_at_def slice_full length_record_bytes)
  have t0: "tail_clean d 0" by (rule confined_tail [OF conf _ len _ tail(1)]) simp_all
  have one: "page_bytes d 1 = page_bytes c 1" "tail_clean d 1 = tail_clean c 1"
  proof -
    have same: "d ! (1 * kPageSize + i) = c ! (1 * kPageSize + i)" if "i < kPageSize" for i
      using conf that len
      by (auto simp: confined_def store_sizes kPageSize_def kTwoPageRegion_def)
    show "page_bytes d 1 = page_bytes c 1" "tail_clean d 1 = tail_clean c 1"
      using page_congs [OF same ld len] by simp_all
  qed
  have e: "evidence (page_insp d 1) = kErased" using ev one(1) by (simp add: page_insp_def)
  have "committed_at d 1 = None"
    using page_insp_committed(1) [OF ld, of 1] e by (simp add: evidenceCommitted_def)
  then have "recover_decide s (scan_cells d) =
    (if harmless d 1 r then setAuthority (clearRecoveredRuntimeState s) 0 r
     else setSemanticFallback (clearRecoveredRuntimeState s) r kUncertain)"
    using recover_single [OF ld _ r t0, of s] e by simp
  moreover have "harmless d 1 r" using e one(2) tail(2) by (simp add: harmless_def evidenceSafeUncommitted_def)
  ultimately show ?thesis by simp
qed

context geofence_flash
begin

lemma write_baseline:
  assumes wf: "wf (gs_flash s)" and blob: "length (gs_blob s) = 564"
    and e: "writeFreshBaseline ops s r = (s', ok)" and shape: "snapshot_shape (gr_snapshot r)"
  shows "wf (gs_flash s') \<and> length (gs_blob s') = 564 \<and> authority_of s' = authority_of s \<and>
    gs_job s' = gs_job s \<and> gs_ready s' = gs_ready s \<and> gs_recovery_pending s' = gs_recovery_pending s \<and>
    gs_mutation_unreconciled s' = gs_mutation_unreconciled s \<and>
    (ok \<longrightarrow> recordValid r \<and> page_bytes (cells (gs_flash s')) 0 = record_bytes r \<and>
       confined (cells (gs_flash s)) (cells (gs_flash s')) 0 gf_kRecordSize)"
proof (cases "gf_encode r (Some (gs_blob s))")
  case None
  then show ?thesis using assms by (simp add: writeFreshBaseline_def)
next
  case (Some b)
  then have valid: "recordValid r" by (auto simp: gf_encode_def split: if_splits)
  obtain b' where "gf_encode r (Some (gs_blob s)) = Some b'" "length b' = length (gs_blob s)" "slice 0 564 b' = record_bytes r"
    using encode_segments [OF valid shape, of "gs_blob s"] blob by auto
  then have b: "length b = 564" "b = record_bytes r" using Some blob by (simp_all add: slice_full)
  obtain f1 r1 where p1: "fb_program ops (gs_flash s) 0 (take kBodyAndCrcSize b) = (f1, r1)" by fastforce
  note c1 = program_confined [OF wf p1]
  obtain f2 r2 where p2: "fb_program ops f1 kCommitOffset (slice kCommitOffset 4 b) = (f2, r2)" by fastforce
  note c2 = program_confined [OF c1(1) p2]
  have conf: "confined (cells (gs_flash s)) (cells f2) 0 gf_kRecordSize"
    by (rule confined_trans [OF c1(2) c2(2)]) (use b(1) in \<open>simp_all add: store_sizes\<close>)
  have rd: "page_bytes (cells f2) 0 = b" if "fb_read ops f2 0 gf_kRecordSize = Some b"
    using read_cells [OF c2(1) that] by (simp add: page_bytes_def)
  consider "s' = s\<lparr>gs_blob := b, gs_flash := f1\<rparr>" "\<not> ok"
    | "s' = s\<lparr>gs_blob := b, gs_flash := f2\<rparr>" "ok \<longrightarrow> fb_read ops f2 0 gf_kRecordSize = Some b"
    using e Some p1 p2 by (auto simp: writeFreshBaseline_def Let_def split: if_splits)
  then show ?thesis
    using b c1(1) c2(1) conf rd valid by cases (simp_all add: authority_of_def)
qed

lemma begin_inv:
  assumes wf: "wf (gs_flash s)" and blob: "length (gs_blob s) = 564" and e: "gs_begin ops source s = (s', ok)"
  shows "wf (gs_flash s') \<and> length (gs_blob s') = 564 \<and> at_rest (cells (gs_flash s')) s' \<and> gs_ready s' = ok"
proof -
  obtain f1 b where fb: "fb_begin ops (gs_flash s) = (f1, b)" by fastforce
  have wf1: "wf f1" using begin_wf [OF wf] fb by (metis fst_conv)
  define s0 where "s0 = (clearRecoveredRuntimeState (s\<lparr>gs_ready := False, gs_job := kNone, gs_blob_step := kBody,
      gs_awaiting_completion := False,
      gs_diagnostics := GeofenceDiagnostics_init, gs_mutation_result_ready := False,
      gs_mutation_success := False, gs_mutation_unreconciled := False, gs_recovery_pending := False\<rparr>))\<lparr>gs_flash := f1\<rparr>"
  have s0: "gs_flash s0 = f1" "length (gs_blob s0) = 564" "gs_job s0 = kNone" "\<not> gs_ready s0"
    "\<not> gs_recovery_pending s0" "\<not> gs_mutation_unreconciled s0" "gs_token_state s0 = GeofenceTokenState.kUnavailable"
    using blob by (simp_all add: s0_def clearRecoveredRuntimeState_def)
  obtain s1 r1 where rec: "gs_recover ops s0 = (s1, r1)" by fastforce
  note fr = recover_frames [OF rec, unfolded same_frame_def]
  have wf_s1: "wf (gs_flash s1)" using fr s0 wf1 by simp
  define blk where "blk \<longleftrightarrow> \<not> gs_maintenance_reset_required s1 \<and> gs_active_page s1 < 0 \<and>
    gs_resource_state s1 = GeofenceResourceState.kUnavailable \<and>
    gs_token_state s1 = GeofenceTokenState.kUnavailable \<and> source \<noteq> None"
  have "gs_begin ops source s = (if \<not> b then (s0, False) else
      case gs_recover ops s0 of (s1, r1) \<Rightarrow> if \<not> r1 then (s1, False)
      else if \<not> gs_maintenance_reset_required s1 \<and> gs_active_page s1 < 0 \<and>
          gs_resource_state s1 = GeofenceResourceState.kUnavailable \<and>
          gs_token_state s1 = GeofenceTokenState.kUnavailable \<and> source \<noteq> None
      then (case establishFreshBaseline ops source s1 of (s, established) \<Rightarrow>
         if \<not> established then (s, False) else (s\<lparr>gs_ready := True\<rparr>, True))
      else (s1\<lparr>gs_ready := True\<rparr>, True))"
    unfolding gs_begin_def Let_def s0_def clearRecoveredRuntimeState_def using fb by simp
  then have beg: "(s', ok) = (if \<not> b then (s0, False) else if \<not> r1 then (s1, False)
      else if blk then (case establishFreshBaseline ops source s1 of (s, established) \<Rightarrow>
         if \<not> established then (s, False) else (s\<lparr>gs_ready := True\<rparr>, True))
      else (s1\<lparr>gs_ready := True\<rparr>, True))"
    unfolding e rec blk_def by simp
  have rest1: "at_rest (cells (gs_flash s1)) (s1\<lparr>gs_ready := True\<rparr>)" if "r1"
    using recover_authority [of s0 s1] rec s0 fr wf1 that by (simp add: at_rest_def authority_of_def)
  consider "\<not> b" | "b" "\<not> r1" | "b" "r1" "\<not> blk" | "b" "r1" "blk" by blast
  then show ?thesis
  proof cases
    case 1
    then show ?thesis using beg s0 wf1 by (simp add: at_rest_def)
  next
    case 2
    have "gs_recover ops s0 = (s1, False)" using rec 2(2) by simp
    from authority_valid [OF recover_failed [OF this]]
    have "gs_token_state s1 = GeofenceTokenState.kUnavailable" using s0(7) by simp
    then show ?thesis using beg 2 s0 fr wf_s1 by (simp add: at_rest_def)
  next
    case 3
    then show ?thesis using beg rest1 s0 fr wf_s1 by simp
  next
    case 4
    note bl = 4(3) [unfolded blk_def]
    obtain s2 est where es: "establishFreshBaseline ops source s1 = (s2, est)" by fastforce
    have out: "s' = (if est then s2\<lparr>gs_ready := True\<rparr> else s2)" "ok = est"
      using beg 4 es by (auto split: if_splits)
    consider "s2 = s1" "est" | inc where "source = Some (Some inc)" "inc \<noteq> 0"
      using es bl by (auto simp: establishFreshBaseline_def split: option.splits if_splits)
    then show ?thesis
    proof cases
      case 1
      then show ?thesis using out rest1 4 s0 fr wf_s1 by simp
    next
      case (2 inc)
      let ?r = "baseline_record inc"
      obtain s3 w where wr: "writeFreshBaseline ops s1 ?r = (s3, w)" by fastforce
      have blob1: "length (gs_blob s1) = 564" using fr s0 by simp
      note wb = write_baseline [OF wf_s1 blob1 wr baseline_shape]
      have flags: "gs_job s3 = kNone" "\<not> gs_ready s3" "\<not> gs_recovery_pending s3" "\<not> gs_mutation_unreconciled s3"
        "gs_token_state s3 = GeofenceTokenState.kUnavailable"
        using wb fr s0 bl authority_valid [of s3 s1] by simp_all
      show ?thesis
      proof (cases w)
        case False
        show ?thesis
        proof (cases "fb_hasUnreconciledMutation ops (gs_flash s3)")
          case True
          then have "gs_token_state s2 = kUncertain \<and> est \<and> gs_flash s2 = gs_flash s3 \<and> gs_blob s2 = gs_blob s3 \<and>
              gs_job s2 = gs_job s3 \<and> gs_mutation_unreconciled s2"
            using es 2 wr False by (auto simp: establishFreshBaseline_def baseline_record_def Let_def)
          then show ?thesis using out wb flags by (simp add: at_rest_def)
        next
          case nu: False
          define s4 where "s4 = s3\<lparr>gs_diagnostics := (gs_diagnostics s3)
              \<lparr>dg_baseline_failures := dg_baseline_failures (gs_diagnostics s3) + 1\<rparr>\<rparr>"
          have rc: "gs_recover ops s4 = (s2, est)"
            using es 2 wr False nu by (simp add: establishFreshBaseline_def baseline_record_def Let_def s4_def)
          have a4: "authority_of s4 = authority_of s3" "wf (gs_flash s4)" using wb by (simp_all add: s4_def authority_of_def)
          note fr2 = recover_frames [OF rc, unfolded same_frame_def]
          show ?thesis
          proof (cases est)
            case True
            then show ?thesis using out rc recover_authority [of s4 s2] a4 fr2 wb flags
              by (simp add: s4_def at_rest_def authority_of_def)
          next
            case f: False
            have "gs_recover ops s4 = (s2, False)" using rc f by simp
            from authority_valid [OF recover_failed [OF this]] authority_valid [OF a4(1)]
            have "gs_token_state s2 = GeofenceTokenState.kUnavailable" using flags(5) by simp
            then show ?thesis using out f fr2 wb flags by (simp add: s4_def at_rest_def)
          qed
        qed
      next
        case True
        have "s2 = s3\<lparr>gs_active_page := 0, gs_generation := 1, gs_snapshot := gr_snapshot ?r, gs_token := gr_token ?r,
               gs_resource_state := GeofenceResourceState.kClear, gs_token_state := kValid,
               gs_semantic_unambiguous := True, gs_maintenance_reset_required := False,
               gs_diagnostics := (gs_diagnostics s3)\<lparr>dg_baseline_commits := dg_baseline_commits (gs_diagnostics s3) + 1\<rparr>\<rparr>"
          "est"
          using es 2 wr True by (auto simp: establishFreshBaseline_def baseline_record_def Let_def)
        moreover have "reboot_authority (cells (gs_flash s3)) =
            authority_of (setAuthority (clearRecoveredRuntimeState (GeofenceStore_init ())) 0 ?r)"
        proof -
          have len1: "length (cells (gs_flash s1)) = kGeofenceRegionSize" using cells_length [OF wf_s1] .
          have dec: "s1 = recover_decide (count_corruptions s0 (scan_cells (cells (gs_flash s0)))) (scan_cells (cells (gs_flash s0)))"
            using recover_cells [of s0 s1] rec 4(2) s0 wf1 by simp
          then have same: "s1 = recover_decide (count_corruptions s0 (scan_cells (cells (gs_flash s1)))) (scan_cells (cells (gs_flash s1)))"
            using fr by simp
          have "gs_resource_state (recover_decide (count_corruptions s0 (scan_cells (cells (gs_flash s1)))) (scan_cells (cells (gs_flash s1)))) = GeofenceResourceState.kUnavailable"
            "\<not> gs_maintenance_reset_required (recover_decide (count_corruptions s0 (scan_cells (cells (gs_flash s1)))) (scan_cells (cells (gs_flash s1))))"
            using bl same by simp_all
          note blank = recover_blank [OF len1 this]
          have "recover_decide (GeofenceStore_init ()) (scan_cells (cells (gs_flash s3))) =
              setAuthority (clearRecoveredRuntimeState (GeofenceStore_init ())) 0 ?r"
            by (rule baseline_authority [OF len1 _ blank(1) blank(2) blank(2) _ _ baseline_shape])
               (use wb True in simp_all)
          then show ?thesis by (simp add: reboot_authority_def)
        qed
        ultimately show ?thesis using out wb flags
          by (simp add: at_rest_def authority_of_def authority_setters resourceStateOf_def baseline_record_def
              makeClearSnapshot_def Snapshot_init_def)
      qed
    qed
  qed
qed

end

end
