(* ===== verification/Geofence_Store_Run.thy ===== *)
theory Geofence_Store_Run
  imports Geofence_Store_Invariant
begin

text \<open>
  The geofence store on the flash driver of the board: recovery always succeeds on a readable region,
  the events the firmware and its surroundings may raise, and the invariant on every reachable state.
\<close>

section \<open>Recovery with a readable backend\<close>

locale readable_flash = geofence_flash ops wf cells pending + readable_two_page ops wf cells pending readable
  for ops :: "'f FlashBackend" and wf cells pending readable
begin

lemma recover_page_total:
  assumes "wf f" "readable f" "p < 2"
  shows "\<exists>sc'. recover_page ops f p sc = Some sc'"
proof -
  have "p * kPageSize + gf_kRecordSize \<le> kGeofenceRegionSize"
    using page_room [OF assms(3)] by (simp add: store_sizes kPageSize_def)
  then have r: "fb_read ops f (p * kPageSize) gf_kRecordSize = Some (page_bytes (cells f) p)"
    using read_ok [OF assms(1,2)] by (simp add: page_bytes_def)
  have l: "564 \<le> length (page_bytes (cells f) p)" using length_page_bytes cells_length [OF assms(1)] assms(3) by simp
  then obtain i where "inspectPage (Some (page_bytes (cells f) p)) = Some i" using inspect_committed by blast
  moreover obtain t where "readPageTailErased ops f p = Some t"
    using tail_scan_total [OF assms] by (auto simp: readPageTailErased_def)
  ultimately show ?thesis using r by (simp add: recover_page_def)
qed

lemma recover_total:
  assumes "wf (gs_flash s)" "readable (gs_flash s)"
  shows "\<exists>s'. gs_recover ops s = (s', True) \<and> authority_of s' = reboot_authority (cells (gs_flash s))"
proof -
  have two: "[0..<kGeofenceRegionPages] = [0, 1]" by (simp add: kGeofenceRegionPages_def upt_rec)
  obtain a where a: "recover_page ops (gs_flash s) 0 scan_init = Some a"
    using recover_page_total [OF assms, of 0] by auto
  obtain b where b: "recover_page ops (gs_flash s) 1 a = Some b"
    using recover_page_total [OF assms, of 1] by auto
  have "recover_pages ops (gs_flash s) [0, 1] scan_init = (b, True)" using a b by simp
  then have "gs_recover ops s = (recover_decide (count_corruptions s b) b, True)"
    by (simp add: gs_recover_def two del: recover_pages.simps)
  then obtain s' where s': "gs_recover ops s = (s', True)" by blast
  have "gs_flash s' = gs_flash s" using recover_frames [OF s'] by (simp add: same_frame_def)
  then show ?thesis using recover_authority [OF assms(1) s'] s' by simp
qed

end

interpretation nrf_store: readable_flash nrf_ops nrf_wf nf_cells "\<lambda>_. None" nf_ready
proof unfold_locales
  fix f :: NrfGeofenceFlash and off n
  assume "nf_ready f" "off + n \<le> kGeofenceRegionSize"
  then show "fb_read nrf_ops f off n = Some (slice off n (nf_cells f))"
    by (simp add: nrf_ops_def nrf_read_def inBounds_def)
qed

section \<open>The store on its driver\<close>

text \<open>
  Everything the firmware may do with the store object, and what may happen around it: a reset, a
  change of the platform (SoftDevice enabled or not, flash calls that fail from now on).
\<close>

datatype store_event =
  EvBegin "u64 option option"
| EvPoll
| EvReplace GeofenceAreaSetView
| EvClear
| EvTake
| EvPlatform softdevice bool
| EvReboot

fun store_step :: "store_event \<Rightarrow> NrfGeofenceFlash GeofenceStore \<Rightarrow> NrfGeofenceFlash GeofenceStore" where
  "store_step (EvBegin src) s = fst (gs_begin nrf_ops src s)"
| "store_step EvPoll s = gs_poll nrf_ops s"
| "store_step (EvReplace areas) s = fst (requestReplace s areas)"
| "store_step EvClear s = fst (requestClear s)"
| "store_step EvTake s = fst (takeMutationResult s)"
| "store_step (EvPlatform sd en) s = s\<lparr>gs_flash := (gs_flash s)\<lparr>nf_sd := sd, nf_softdevice_enabled := en\<rparr>\<rparr>"
| "store_step EvReboot s = GeofenceStore_init ((gs_flash s)\<lparr>nf_ready := False\<rparr>)"

fun event_ok :: "store_event \<Rightarrow> bool" where
  "event_ok (EvPlatform sd en) = softdevice_confined sd"
| "event_ok e = True"

inductive store_reachable :: "NrfGeofenceFlash GeofenceStore \<Rightarrow> bool" where
  power_on: "nrf_wf f \<Longrightarrow> store_reachable (GeofenceStore_init f)"
| event: "store_reachable s \<Longrightarrow> event_ok e \<Longrightarrow> store_reachable (store_step e s)"

definition nrf_inv :: "NrfGeofenceFlash GeofenceStore \<Rightarrow> bool" where
  "nrf_inv s \<longleftrightarrow> nrf_wf (gs_flash s) \<and> store_inv (nf_cells (gs_flash s)) None s"

lemma nrf_inv_init: "nrf_wf f \<Longrightarrow> nrf_inv (GeofenceStore_init f)"
  by (simp add: nrf_inv_def store_inv_def at_rest_def GeofenceStore_init_def)

lemma flash_inv_cong:
  "store_inv c pd (s\<lparr>gs_flash := f\<rparr>) = store_inv c pd s"
proof -
  have "phase_ok c pd (s\<lparr>gs_flash := f\<rparr>) = phase_ok c pd s"
    by (cases "gs_job s"; cases "gs_blob_step s") (simp_all add: phase_ok_def)
  then show ?thesis
    by (simp add: store_inv_def at_rest_def mutating_def mutation_base_def authority_of_def
        current_record_def pending_record_def)
qed

lemma nrf_step_inv:
  assumes "nrf_inv s" "event_ok e"
  shows "nrf_inv (store_step e s)"
proof -
  have wf: "nrf_wf (gs_flash s)" and inv: "store_inv (nf_cells (gs_flash s)) None s" and blob: "length (gs_blob s) = 564"
    using assms(1) by (simp_all add: nrf_inv_def store_inv_def)
  note len = nrf.cells_length [OF wf]
  show ?thesis
  proof (cases e)
    case (EvBegin src)
    obtain s' ok where b: "gs_begin nrf_ops src s = (s', ok)" by fastforce
    show ?thesis using nrf_store.begin_inv [OF wf blob b] EvBegin b by (simp add: nrf_inv_def store_inv_def)
  next
    case EvPoll
    then show ?thesis using nrf_store.poll_inv [OF wf inv] by (simp add: nrf_inv_def)
  next
    case (EvReplace areas)
    obtain s' ok where b: "requestReplace s areas = (s', ok)" by fastforce
    show ?thesis using replace_inv [OF inv len b] EvReplace b wf by (simp add: nrf_inv_def)
  next
    case EvClear
    obtain s' ok where b: "requestSnapshot s makeClearSnapshot = (s', ok)" by fastforce
    show ?thesis using request_inv [OF inv len clear_shape b] EvClear b wf by (simp add: nrf_inv_def requestClear_def)
  next
    case EvTake
    have "gs_flash (fst (takeMutationResult s)) = gs_flash s" by (simp add: takeMutationResult_def)
    then show ?thesis using take_inv [OF inv] EvTake wf by (simp add: nrf_inv_def)
  next
    case (EvPlatform sd en)
    have "nrf_wf ((gs_flash s)\<lparr>nf_sd := sd, nf_softdevice_enabled := en\<rparr>)"
      using wf assms(2) EvPlatform by (simp add: nrf_wf_def)
    then show ?thesis using inv EvPlatform by (simp add: nrf_inv_def flash_inv_cong)
  next
    case EvReboot
    have "nrf_wf ((gs_flash s)\<lparr>nf_ready := False\<rparr>)" using wf by (simp add: nrf_wf_def)
    then show ?thesis using EvReboot nrf_inv_init by simp
  qed
qed

lemma reachable_inv: "store_reachable s \<Longrightarrow> nrf_inv s"
  by (induction rule: store_reachable.induct) (simp_all add: nrf_inv_init nrf_step_inv)

lemma nrf_never_awaits:
  assumes "nrf_inv s" "gs_busy s"
  shows "mutating (nf_cells (gs_flash s)) None s" "\<not> gs_awaiting_completion s"
    "gs_job s = kWrite \<Longrightarrow> blank (nf_cells (gs_flash s)) (gs_target_page s)"
proof -
  show m: "mutating (nf_cells (gs_flash s)) None s"
    using assms by (auto simp: nrf_inv_def store_inv_def at_rest_def gs_busy_def)
  then show "\<not> gs_awaiting_completion s"
    by (cases "gs_job s"; cases "gs_blob_step s") (auto simp: mutating_def phase_ok_def Let_def)
  then show "gs_job s = kWrite \<Longrightarrow> blank (nf_cells (gs_flash s)) (gs_target_page s)"
    using m by (cases "gs_blob_step s") (auto simp: mutating_def phase_ok_def Let_def)
qed

text \<open>A reset: the cells survive, the objects are constructed anew, SoftDevice is not yet enabled.\<close>

definition after_reset :: "NrfGeofenceFlash \<Rightarrow> bytes \<Rightarrow> NrfGeofenceFlash GeofenceStore" where
  "after_reset f c = GeofenceStore_init (f\<lparr>nf_cells := c, nf_ready := False, nf_softdevice_enabled := False\<rparr>)"

lemma boot_authority:
  assumes "softdevice_confined (nf_sd f)" "length c = kGeofenceRegionSize" "nf_layout_ok f"
    and tok: "reboot_authority c = a" "fst (snd (snd (snd a))) \<noteq> GeofenceTokenState.kUnavailable"
    and b: "gs_begin nrf_ops src (after_reset f c) = (s', ok)"
  shows "ok \<and> authority_of s' = a \<and>
    gs_flash s' = f\<lparr>nf_cells := c, nf_ready := True, nf_softdevice_enabled := False\<rparr> \<and> gs_job s' = kNone \<and> gs_ready s' \<and>
    \<not> gs_recovery_pending s' \<and> \<not> gs_mutation_unreconciled s' \<and> \<not> gs_mutation_result_ready s'"
proof -
  let ?f = "f\<lparr>nf_cells := c, nf_ready := True, nf_softdevice_enabled := False\<rparr>"
  define s0 where "s0 = (clearRecoveredRuntimeState ((after_reset f c)\<lparr>gs_ready := False, gs_job := kNone, gs_blob_step := kBody,
      gs_awaiting_completion := False,
      gs_diagnostics := GeofenceDiagnostics_init, gs_mutation_result_ready := False,
      gs_mutation_success := False, gs_mutation_unreconciled := False, gs_recovery_pending := False\<rparr>))\<lparr>gs_flash := ?f\<rparr>"
  have fl: "gs_flash s0 = ?f" by (simp add: s0_def)
  have "nrf_wf (gs_flash s0)" "nf_ready (gs_flash s0)" using assms(1,2) by (simp_all add: fl nrf_wf_def)
  from nrf_store.recover_total [OF this] obtain s1 where s1: "gs_recover nrf_ops s0 = (s1, True)"
    "authority_of s1 = reboot_authority c" by (auto simp: fl)
  have fb: "fb_begin nrf_ops (gs_flash (after_reset f c)) = (?f, True)"
    using assms(3) by (simp add: nrf_ops_def nrf_begin_def after_reset_def GeofenceStore_init_def)
  have t: "gs_token_state s1 \<noteq> GeofenceTokenState.kUnavailable"
  proof -
    have "fst (snd (snd (snd (authority_of s1)))) = gs_token_state s1" by (simp add: authority_of_def)
    then show ?thesis using s1(2) tok by simp
  qed
  have "gs_begin nrf_ops src (after_reset f c) =
      (case gs_recover nrf_ops s0 of (s1, r1) \<Rightarrow> if \<not> r1 then (s1, False)
      else if \<not> gs_maintenance_reset_required s1 \<and> gs_active_page s1 < 0 \<and>
          gs_resource_state s1 = GeofenceResourceState.kUnavailable \<and>
          gs_token_state s1 = GeofenceTokenState.kUnavailable \<and> src \<noteq> None
      then (case establishFreshBaseline nrf_ops src s1 of (s, established) \<Rightarrow>
         if \<not> established then (s, False) else (s\<lparr>gs_ready := True\<rparr>, True))
      else (s1\<lparr>gs_ready := True\<rparr>, True))"
    unfolding gs_begin_def Let_def s0_def clearRecoveredRuntimeState_def using fb by simp
  then have "(s', ok) = (s1\<lparr>gs_ready := True\<rparr>, True)" using s1(1) t b by simp
  moreover have "gs_flash s1 = ?f" "gs_job s1 = kNone" "\<not> gs_recovery_pending s1" "\<not> gs_mutation_unreconciled s1"
    "\<not> gs_mutation_result_ready s1"
    using nrf_store.recover_frames [OF s1(1)] fl by (simp_all add: same_frame_def s0_def clearRecoveredRuntimeState_def)
  ultimately show ?thesis using s1(2) tok(1) by (simp add: authority_of_def)
qed

end
