(* ===== verification/Geofence_Store_Guarantees.thy ===== *)
theory Geofence_Store_Guarantees
  imports Geofence_Store_Run
begin

text \<open>
  What the store guarantees to the rest of the firmware: durable authority, old-or-new after a power
  cut, the meaning of a mutation result, and progress; with a concrete store to witness them.
\<close>

lemma view_of_authority:
  assumes "authority_of s' = authority_of s"
  shows "stateToken s' = stateToken s" "currentSnapshot s' = currentSnapshot s"
    "gs_generation s' = gs_generation s" "gs_active_page s' = gs_active_page s"
    "gs_maintenance_reset_required s' = gs_maintenance_reset_required s"
  using assms by (simp_all add: authority_of_def stateToken_def currentSnapshot_def)

text \<open>
  C2: Durable authority.  Whenever a store that is not mutating vouches for its token, a reset at that
  moment brings back exactly that token, that snapshot, that generation and that active page: nothing
  the store reports as valid lives in RAM only.
\<close>
theorem reboot_keeps_authority:
  assumes "store_reachable s" and "gs_token_state s = kValid" and "\<not> gs_busy s" and "nf_layout_ok (gs_flash s)"
    and "gs_begin nrf_ops src (after_reset (gs_flash s) (nf_cells (gs_flash s))) = (s', ok)"
  shows "ok \<and> stateToken s' = stateToken s \<and> currentSnapshot s' = currentSnapshot s \<and>
    gs_generation s' = gs_generation s \<and> gs_active_page s' = gs_active_page s"
proof -
  have inv: "nrf_wf (gs_flash s)" "store_inv (nf_cells (gs_flash s)) None s"
    using reachable_inv [OF assms(1)] by (simp_all add: nrf_inv_def)
  then have "at_rest (nf_cells (gs_flash s)) s"
    using assms(3) by (auto simp: store_inv_def mutating_def phase_ok_def gs_busy_def Let_def)
  then have a: "reboot_authority (nf_cells (gs_flash s)) = authority_of s" using assms(2) by (simp add: at_rest_def)
  have "fst (snd (snd (snd (authority_of s)))) \<noteq> GeofenceTokenState.kUnavailable"
    using assms(2) by (simp add: authority_of_def)
  from boot_authority [OF _ _ assms(4) a this assms(5)] inv(1)
  have "ok \<and> authority_of s' = authority_of s" by (simp add: nrf_wf_def)
  then show ?thesis using view_of_authority by blast
qed

text \<open>
  C1: Power cut while a record is being written.  Whatever prefix of the 141 words of body, checksum and
  commit has reached the page when power fails, the next boot comes up with either the old or the new
  snapshot, and with the new one only when the commit word is there.  The token is valid, except
  after a cut behind exactly the first word: then the old snapshot is still served, but the token is
  withheld and the resource is locked for maintenance.
\<close>
theorem power_cut_old_or_new:
  assumes "store_reachable s" and "gs_job s = kWrite" and "k \<le> 141" and "nf_layout_ok (gs_flash s)"
    and "gs_begin nrf_ops src (after_reset (gs_flash s)
           (interrupted (nf_cells (gs_flash s)) (gs_target_page s) (pending_record s) k)) = (s', ok)"
  shows "ok \<and>
    currentSnapshot s' = Some (if k = 141 then gs_pending_snapshot s else gs_snapshot s) \<and>
    stateToken s' = (if k = 141 then Some (gs_pending_token s) else if k = 1 then None else Some (gs_token s)) \<and>
    (gs_maintenance_reset_required s' \<longleftrightarrow> k = 1)"
proof -
  let ?c = "nf_cells (gs_flash s)" and ?t = "gs_target_page s"
  let ?s = "GeofenceStore_init () :: unit GeofenceStore"
  let ?d = "interrupted ?c ?t (pending_record s) k"
  have inv: "nrf_inv s" by (rule reachable_inv [OF assms(1)])
  have busy: "gs_busy s" using assms(2) by (simp add: gs_busy_def)
  have wf: "softdevice_confined (nf_sd (gs_flash s))" "length ?c = kGeofenceRegionSize"
    using inv by (simp_all add: nrf_inv_def nrf_wf_def)
  have b: "mutation_base ?c s" and blank: "blank ?c ?t"
    using nrf_never_awaits [OF inv busy] assms(2) by (simp_all add: mutating_def)
  have f: "?t < 2" "committed_at ?c (1 - ?t) = Some (current_record s)" "tail_clean ?c (1 - ?t)"
    "exactSuccessor (current_record s) (pending_record s)" "recordValid (pending_record s)"
    "snapshot_shape (gr_snapshot (pending_record s))"
    using b by (simp_all add: mutation_base_def pending_record_def)
  have tt: "1 - (1 - ?t) = ?t" "1 - ?t < 2" using f(1) by (arith, simp)
  have r: "recover_decide ?s (scan_cells ?d) =
    (if k = 141 then setAuthority (clearRecoveredRuntimeState ?s) ?t (pending_record s)
     else if k = 1 then setSemanticFallback (clearRecoveredRuntimeState ?s) (current_record s) kUncertain
     else setAuthority (clearRecoveredRuntimeState ?s) (1 - ?t) (current_record s))"
    by (rule cut_recovers [OF wf(2) tt(2) f(2) f(3) f(5) f(6) f(4), unfolded tt(1), OF blank assms(3)])
  define a where "a = reboot_authority ?d"
  have a: "a = (if k = 141 then (gs_pending_snapshot s, gs_pending_token s, resourceStateOf (gs_pending_snapshot s),
        kValid, True, False, gs_pending_generation s, int ?t)
     else if k = 1 then (gs_snapshot s, gs_token s, resourceStateOf (gs_snapshot s), kUncertain, True, True,
        gs_generation s, -1)
     else (gs_snapshot s, gs_token s, resourceStateOf (gs_snapshot s), kValid, True, False,
        gs_generation s, int (1 - ?t)))"
    unfolding a_def reboot_authority_def r by (simp add: setter_authority pending_record_def current_record_def)
  have "fst (snd (snd (snd a))) \<noteq> GeofenceTokenState.kUnavailable" unfolding a by simp
  from boot_authority [OF wf(1) _ assms(4) a_def [symmetric] this assms(5)] wf(2)
  have "ok \<and> authority_of s' = a" by simp
  moreover have "resourceStateOf x \<noteq> GeofenceResourceState.kUnavailable" for x by (simp add: resourceStateOf_def)
  ultimately show ?thesis unfolding a
    by (simp add: authority_of_def stateToken_def currentSnapshot_def split: if_splits)
qed

section \<open>The course of a mutation\<close>

lemma poll_idle_keeps:
  assumes "nrf_inv s" "\<not> gs_busy s" "s' = gs_poll nrf_ops s"
  shows "\<not> gs_busy s' \<and> gs_flash s' = gs_flash s \<and> gs_mutation_result_ready s' = gs_mutation_result_ready s \<and>
    gs_mutation_success s' = gs_mutation_success s \<and>
    (gs_token_state s = kValid \<longrightarrow> s' = s)"
proof -
  have "at_rest (nf_cells (gs_flash s)) s"
    using assms(1,2) by (auto simp: nrf_inv_def store_inv_def mutating_def phase_ok_def gs_busy_def Let_def)
  then have v: "gs_token_state s = kValid \<longrightarrow> \<not> gs_recovery_pending s \<and> \<not> gs_mutation_unreconciled s"
    by (simp add: at_rest_def)
  define s1 where "s1 = (if gs_mutation_unreconciled s
      then s\<lparr>gs_mutation_unreconciled := False, gs_recovery_pending := True\<rparr> else s)"
  obtain s2 ok where r: "gs_recover nrf_ops (s1\<lparr>gs_recovery_pending := False\<rparr>) = (s2, ok)" by fastforce
  note fr = nrf_store.recover_frames [OF r, unfolded same_frame_def, simplified]
  have "s' = s \<or> s' = poll_idle nrf_ops s1"
    using assms(2,3) by (simp add: gs_poll_def s1_def gs_busy_def)
  moreover have "\<not> gs_busy (poll_idle nrf_ops s1) \<and> gs_flash (poll_idle nrf_ops s1) = gs_flash s \<and>
      gs_mutation_result_ready (poll_idle nrf_ops s1) = gs_mutation_result_ready s \<and>
      gs_mutation_success (poll_idle nrf_ops s1) = gs_mutation_success s \<and>
      (gs_token_state s = kValid \<longrightarrow> poll_idle nrf_ops s1 = s)"
  proof (cases "gs_recovery_pending s1")
    case False
    then have "s1 = s" by (cases "gs_mutation_unreconciled s") (simp_all add: s1_def)
    then show ?thesis using False assms(2) by (simp add: poll_idle_def)
  next
    case True
    have s1: "gs_job s1 = gs_job s" "gs_flash s1 = gs_flash s" "gs_mutation_result_ready s1 = gs_mutation_result_ready s"
      "gs_mutation_success s1 = gs_mutation_success s" by (simp_all add: s1_def)
    have "gs_token_state s \<noteq> kValid" using True v by (cases "gs_mutation_unreconciled s") (simp_all add: s1_def)
    then show ?thesis using True r fr s1 assms(2) by (cases ok) (simp_all add: poll_idle_def gs_busy_def)
  qed
  ultimately show ?thesis using assms(2) by (elim disjE) simp_all
qed

lemma poll_busy_outcome:
  assumes "nrf_inv s" "gs_busy s" "s' = gs_poll nrf_ops s"
  shows "outcome (nf_cells (gs_flash s')) s s'"
proof -
  have wf: "nrf_wf (gs_flash s)" using assms(1) by (simp add: nrf_inv_def)
  note m = nrf_never_awaits(1) [OF assms(1,2)]
  have "s' = poll_erase nrf_ops s \<and> gs_job s = kErase \<or> s' = poll_write nrf_ops s \<and> gs_job s = kWrite"
    using assms(2,3) m by (cases "gs_job s") (simp_all add: gs_poll_def mutating_def gs_busy_def)
  then show ?thesis
    using nrf_store.poll_erase_inv [OF wf m, of s'] nrf_store.poll_write_inv [OF wf m, of s'] by blast
qed

lemma polls_outcome:
  assumes "nrf_inv s" "gs_busy s" "\<not> gs_mutation_result_ready s"
  shows "nrf_inv ((gs_poll nrf_ops ^^ n) s) \<and>
    (let s' = (gs_poll nrf_ops ^^ n) s in
     if gs_busy s' then kept s s'
     else gs_mutation_result_ready s' \<and>
       (if gs_mutation_success s' then current_record s' = pending_record s \<and> gs_token_state s' = kValid
        else committed_at (nf_cells (gs_flash s')) (1 - gs_target_page s) = Some (current_record s) \<and>
             tail_clean (nf_cells (gs_flash s')) (1 - gs_target_page s)))"
proof (induction n)
  case 0
  then show ?case using assms by (simp add: kept_def)
next
  case (Suc n)
  let ?s = "(gs_poll nrf_ops ^^ n) s"
  have inv: "nrf_inv ?s" using Suc.IH by simp
  have inv': "nrf_inv (gs_poll nrf_ops ?s)" using nrf_step_inv [OF inv, of EvPoll] by simp
  show ?case
  proof (cases "gs_busy ?s")
    case True
    then have "kept s ?s" using Suc.IH by (simp add: Let_def)
    from kept_outcome [OF this poll_busy_outcome [OF inv True refl]]
    have o: "outcome (nf_cells (gs_flash (gs_poll nrf_ops ?s))) s (gs_poll nrf_ops ?s)" .
    show ?thesis using inv' o by (cases "gs_busy (gs_poll nrf_ops ?s)") (auto simp: outcome_def Let_def)
  next
    case False
    note k = poll_idle_keeps [OF inv False refl]
    have "gs_mutation_success ?s \<Longrightarrow> gs_poll nrf_ops ?s = ?s" using k Suc.IH False by (simp add: Let_def)
    then show ?thesis using inv' k Suc.IH False by (auto simp: Let_def)
  qed
qed

lemma accepted_request:
  assumes inv: "nrf_inv s" and e: "requestReplace s (Some areas) = (s1, True)" and busy: "gs_busy s1" "\<not> gs_busy s"
  shows "nrf_inv s1 \<and> \<not> gs_mutation_result_ready s1 \<and> gs_job s1 = kErase \<and> gs_flash s1 = gs_flash s \<and>
    current_record s1 = current_record s \<and> gs_active_page s1 = gs_active_page s \<and> acceptable areas \<and>
    gs_pending_snapshot s1 = canonical_snapshot areas \<and>
    gs_pending_token s1 = \<lparr>incarnation = incarnation (gs_token s), revision = revision (gs_token s) + 1\<rparr>"
proof -
  have inv1: "nrf_inv s1" using nrf_step_inv [OF inv, of "EvReplace (Some areas)"] e by simp
  obtain cand where cand: "canonicalizeConfiguredAreaSet (Some areas) = Some cand" "requestSnapshot s cand = (s1, True)"
    using e by (auto simp: requestReplace_def split: option.splits)
  have c: "acceptable areas" "cand = canonical_snapshot areas"
    using cand(1) canonicalize_exact [of areas] by (simp_all split: if_splits)
  have "startMutation s cand = (s1, True) \<and> \<not> gs_mutation_result_ready s"
    using cand(2) busy by (auto simp: requestSnapshot_def gs_busy_def split: if_splits)
  then show ?thesis using inv1 c
    by (auto simp: startMutation_def Let_def current_record_def split: if_splits option.splits)
qed

lemma result_meaning:
  assumes "store_reachable s" and "requestReplace s (Some areas) = (s1, True)" and "\<not> gs_busy s" and "gs_busy s1"
    and "s2 = (gs_poll nrf_ops ^^ n) s1" and "takeMutationResult s2 = (s3, Some success)"
  shows "if success
    then currentSnapshot s2 = Some (canonical_snapshot areas) \<and>
      stateToken s2 = Some \<lparr>incarnation = incarnation (gs_token s), revision = revision (gs_token s) + 1\<rparr>
    else committed_at (nf_cells (gs_flash s2)) (nat (gs_active_page s)) = Some (current_record s) \<and>
      tail_clean (nf_cells (gs_flash s2)) (nat (gs_active_page s))"
proof -
  have inv: "nrf_inv s" by (rule reachable_inv [OF assms(1)])
  note acc = accepted_request [OF inv assms(2,4,3)]
  have m: "mutating (nf_cells (gs_flash s1)) None s1" using nrf_never_awaits(1) acc assms(4) by blast
  then have t: "gs_target_page s1 < 2" "gs_active_page s = int (1 - gs_target_page s1)"
    using acc by (simp_all add: mutating_def mutation_base_def)
  have p: "nrf_inv s2" and o: "if gs_busy s2 then kept s1 s2
     else gs_mutation_result_ready s2 \<and>
       (if gs_mutation_success s2 then current_record s2 = pending_record s1 \<and> gs_token_state s2 = kValid
        else committed_at (nf_cells (gs_flash s2)) (1 - gs_target_page s1) = Some (current_record s1) \<and>
             tail_clean (nf_cells (gs_flash s2)) (1 - gs_target_page s1))"
    using polls_outcome [of s1 n, unfolded Let_def, folded assms(5)] acc assms(4) by blast+
  have res: "gs_mutation_result_ready s2" "success = gs_mutation_success s2"
    using assms(6) by (simp_all add: takeMutationResult_def split: if_splits)
  then have nb: "\<not> gs_busy s2" using o acc by (auto simp: kept_def)
  show ?thesis
  proof (cases success)
    case True
    then have c: "current_record s2 = pending_record s1" "gs_token_state s2 = kValid" using o nb res by simp_all
    have "at_rest (nf_cells (gs_flash s2)) s2"
      using p nb by (auto simp: nrf_inv_def store_inv_def mutating_def phase_ok_def gs_busy_def Let_def)
    then have "authority_of s2 = reboot_authority (nf_cells (gs_flash s2))" using c(2) by (simp add: at_rest_def)
    moreover have "length (nf_cells (gs_flash s2)) = kGeofenceRegionSize" using p by (simp add: nrf_inv_def nrf_wf_def)
    ultimately have "gs_resource_state s2 = resourceStateOf (gs_snapshot s2)"
      using valid_authority [OF _ _ c(2)] by metis
    then show ?thesis using True c acc
      by (simp add: currentSnapshot_def stateToken_def current_record_def pending_record_def resourceStateOf_def)
  next
    case False
    have np: "nat (gs_active_page s) = 1 - gs_target_page s1" unfolding t(2) by (rule nat_int)
    show ?thesis unfolding np using False o nb res acc by simp
  qed
qed

text \<open>
  C3: What a mutation result means.  After an accepted replacement and any number of polls, a reported
  success says that the store now serves exactly the canonical form of the requested areas under the
  next revision of the same incarnation; a reported failure says that the record the store served
  before is still committed, untouched, on its page.
\<close>
theorem mutation_result_meaning:
  assumes "store_reachable s" and "requestReplace s (Some areas) = (s1, True)" and "\<not> gs_busy s" and "gs_busy s1"
    and "s2 = (gs_poll nrf_ops ^^ n) s1" and "takeMutationResult s2 = (s3, Some success)"
  shows "if success
    then currentSnapshot s2 = Some (canonical_snapshot areas) \<and>
      stateToken s2 = Some \<lparr>incarnation = incarnation (gs_token s), revision = revision (gs_token s) + 1\<rparr>
    else committed_at (nf_cells (gs_flash s2)) (nat (gs_active_page s)) = Some (current_record s) \<and>
      tail_clean (nf_cells (gs_flash s2)) (nat (gs_active_page s))"
  by (rule result_meaning [OF assms])

section \<open>Progress on a working flash\<close>

lemma sameSnapshot_refl [simp]: "sameSnapshot s s"
  by (simp add: sameSnapshot_def list_all_iff)

lemma verified_written:
  assumes "nf_ready (gs_flash s)" "length (nf_cells (gs_flash s)) = kGeofenceRegionSize" "gs_target_page s < 2"
    and "page_bytes (nf_cells (gs_flash s)) (gs_target_page s) = gs_blob s"
    and "gs_blob s = record_bytes (pending_record s)" "recordValid (pending_record s)" "snapshot_shape (gs_pending_snapshot s)"
  shows "verified nrf_ops s"
proof -
  have rd: "fb_read nrf_ops (gs_flash s) (gs_target_page s * kPageSize) gf_kRecordSize = Some (gs_blob s)"
    using nrf_store.read_ok [of "gs_flash s" "gs_target_page s * kPageSize" gf_kRecordSize] assms(1-4) page_room [OF assms(3)]
    by (simp add: page_bytes_def nrf_ops_def nrf_read_def inBounds_def store_sizes kPageSize_def)
  have shape: "snapshot_shape (gr_snapshot (pending_record s))" using assms(7) by (simp add: pending_record_def)
  have l: "length (gs_blob s) = 564" using length_record_bytes [OF shape] assms(5) by simp
  have d: "gf_decode (Some (gs_blob s)) = Some (pending_record s)"
    using decode_iff [of "gs_blob s" "pending_record s"] l assms(5,6) shape by (simp add: slice_full)
  obtain i where "inspectPage (Some (gs_blob s)) = Some i" "isAuthoritativeCommitted (evidence i)"
    "decoded i = Some (pending_record s)"
    using inspect_committed [of "gs_blob s"] l d by auto
  then show ?thesis using rd by (simp add: verified_def pending_record_def)
qed

text \<open>The two program calls of one record, on a blank page.\<close>

lemma record_programs:
  assumes op: "flash_operational f" and len: "length (nf_cells f) = kGeofenceRegionSize" and t: "t < 2"
    and bl: "blank (nf_cells f) t" and b: "length b = 564"
  defines "c1 \<equiv> write_at (t * kPageSize) (take kBodyAndCrcSize b) (nf_cells f)"
  defines "c2 \<equiv> write_at (t * kPageSize + kCommitOffset) (slice kCommitOffset 4 b) c1"
  shows "fb_program nrf_ops f (t * kPageSize) (take kBodyAndCrcSize b) = (f\<lparr>nf_cells := c1\<rparr>, kDone)"
    and "fb_read nrf_ops (f\<lparr>nf_cells := c1\<rparr>) (t * kPageSize) kBodyAndCrcSize = Some (take kBodyAndCrcSize b)"
    and "fb_program nrf_ops (f\<lparr>nf_cells := c1\<rparr>) (t * kPageSize + kCommitOffset) (slice kCommitOffset 4 b) =
      (f\<lparr>nf_cells := c2\<rparr>, kDone)"
    and "page_bytes c2 t = b" and "length c2 = kGeofenceRegionSize"
proof -
  have room: "t * kPageSize + kPageSize \<le> kGeofenceRegionSize" by (rule page_room [OF t])
  have mod4: "t * kPageSize mod 4 = 0" "(t * kPageSize + 560) mod 4 = 0" by (simp_all add: kPageSize_def mod_mult_left_eq)
  have modp: "t * kPageSize mod kPageSize = 0" "(t * kPageSize + 560) mod kPageSize = 560"
    by (simp_all add: kPageSize_def)
  have l1: "length (take kBodyAndCrcSize b) = 560" and l2: "length (slice kCommitOffset 4 b) = 4"
    using b by (simp_all add: store_sizes)
  show "fb_program nrf_ops f (t * kPageSize) (take kBodyAndCrcSize b) = (f\<lparr>nf_cells := c1\<rparr>, kDone)"
    unfolding c1_def
    by (rule nrf_program_works [OF op len]) (use mod4 modp l1 room bl in \<open>auto simp: blank_def kPageSize_def store_sizes\<close>)
  have c1: "length c1 = kGeofenceRegionSize" using len by (simp add: c1_def)
  have op1: "flash_operational (f\<lparr>nf_cells := c1\<rparr>)" using op by (simp add: flash_operational_def)
  have s1: "slice (t * kPageSize) 560 c1 = take 560 b"
    using l1 room len by (simp add: c1_def store_sizes slice_write_at_same kPageSize_def)
  then show "fb_read nrf_ops (f\<lparr>nf_cells := c1\<rparr>) (t * kPageSize) kBodyAndCrcSize = Some (take kBodyAndCrcSize b)"
    using op room by (simp add: nrf_ops_def nrf_read_def inBounds_def flash_operational_def store_sizes kPageSize_def)
  have ff: "c1 ! (t * kPageSize + 560 + i) = 0xFF" if "i < 4" for i
  proof -
    have "t * kPageSize + 560 + i < length (nf_cells f)" using room len that by (simp add: kPageSize_def)
    then have "c1 ! (t * kPageSize + 560 + i) = nf_cells f ! (t * kPageSize + (560 + i))"
      using l1 by (simp add: c1_def nth_write_at_after add.assoc)
    then show ?thesis using bl that by (simp add: blank_def kPageSize_def)
  qed
  have "fb_program nrf_ops (f\<lparr>nf_cells := c1\<rparr>) (t * kPageSize + kCommitOffset) (slice kCommitOffset 4 b) =
      ((f\<lparr>nf_cells := c1\<rparr>)\<lparr>nf_cells := write_at (t * kPageSize + kCommitOffset) (slice kCommitOffset 4 b) (nf_cells (f\<lparr>nf_cells := c1\<rparr>))\<rparr>, kDone)"
    by (rule nrf_program_works [OF op1]) (use c1 mod4 modp l2 room ff in \<open>simp_all add: store_sizes kPageSize_def\<close>)
  then show "fb_program nrf_ops (f\<lparr>nf_cells := c1\<rparr>) (t * kPageSize + kCommitOffset) (slice kCommitOffset 4 b) =
      (f\<lparr>nf_cells := c2\<rparr>, kDone)" by (simp add: c2_def)
  show "length c2 = kGeofenceRegionSize" using c1 by (simp add: c2_def)
  have "c2 = write_at (t * kPageSize) (take 560 b @ slice 560 4 b) (nf_cells f)"
    using write_at_append [of "t * kPageSize" "take 560 b" "slice 560 4 b" "nf_cells f"] l1 l2 room len
    by (simp add: c2_def c1_def store_sizes kPageSize_def)
  moreover have "take 560 b @ slice 560 4 b = b" using b by (simp add: slice_def take_add [symmetric])
  ultimately show "page_bytes c2 t = b"
    using b room len by (simp add: page_bytes_def store_sizes slice_write_at_same kPageSize_def)
qed

lemma erase_progress:
  assumes inv: "nrf_inv s" and job: "gs_job s = kErase" and op: "flash_operational (gs_flash s)" and s': "s' = gs_poll nrf_ops s"
  shows "gs_job s' = kWrite \<and> flash_operational (gs_flash s') \<and> kept s s'"
proof -
  have busy: "gs_busy s" using job by (simp add: gs_busy_def)
  note m = nrf_never_awaits [OF inv busy]
  have t: "gs_target_page s < 2" and len: "length (nf_cells (gs_flash s)) = kGeofenceRegionSize"
    using m(1) by (simp_all add: mutating_def mutation_base_def)
  have "s' = poll_erase nrf_ops s" using m(1) job s' by (simp add: gs_poll_def mutating_def)
  then have "s' = s\<lparr>gs_flash := (gs_flash s)\<lparr>nf_cells := write_at (gs_target_page s * kPageSize) (replicate kPageSize 0xFF)
      (nf_cells (gs_flash s))\<rparr>, gs_awaiting_completion := False, gs_job := kWrite\<rparr>"
    using m(2) nrf_erase_works [OF op len t] by (simp add: poll_erase_def Let_def)
  then show ?thesis using op by (simp add: flash_operational_def kept_def current_record_def pending_record_def)
qed

lemma write_progress:
  assumes inv: "nrf_inv s" and job: "gs_job s = kWrite" and op: "flash_operational (gs_flash s)" and s': "s' = gs_poll nrf_ops s"
  shows "\<not> gs_busy s' \<and> gs_mutation_result_ready s' \<and> gs_mutation_success s'"
proof -
  have busy: "gs_busy s" using job by (simp add: gs_busy_def)
  note m = nrf_never_awaits [OF inv busy]
  let ?f = "gs_flash s" and ?t = "gs_target_page s" and ?b = "gs_blob s"
  have t: "?t < 2" and len: "length (nf_cells ?f) = kGeofenceRegionSize" and bl: "blank (nf_cells ?f) ?t"
    and f: "?b = record_bytes (pending_record s)" "recordValid (pending_record s)" "snapshot_shape (gs_pending_snapshot s)"
    and lb: "length ?b = 564" and st: "gs_blob_step s = kBody"
    using m job length_blob [of "nf_cells ?f" s]
    by (simp_all add: mutating_def mutation_base_def phase_ok_def Let_def split: BlobStep.splits)
  note pr = record_programs [OF op len t bl lb]
  let ?c1 = "write_at (?t * kPageSize) (take kBodyAndCrcSize ?b) (nf_cells ?f)"
  let ?c2 = "write_at (?t * kPageSize + kCommitOffset) (slice kCommitOffset 4 ?b) ?c1"
  define s1 where "s1 = s\<lparr>gs_flash := ?f\<lparr>nf_cells := ?c1\<rparr>, gs_awaiting_completion := False, gs_blob_step := BlobStep.kCommit\<rparr>"
  define s2 where "s2 = s\<lparr>gs_flash := ?f\<lparr>nf_cells := ?c2\<rparr>, gs_awaiting_completion := False, gs_blob_step := kVerify\<rparr>"
  have w1: "write_body nrf_ops s = (s1, None)"
    using m(2) st pr(1,2) by (simp add: write_body_def Let_def s1_def)
  have w2: "write_commit nrf_ops s1 = (s2, None)"
    using pr(3) by (simp add: write_commit_def Let_def s1_def s2_def)
  have "verified nrf_ops s2"
    by (rule verified_written) (use op pr(4,5) t f in \<open>simp_all add: s2_def flash_operational_def pending_record_def\<close>)
  then have "writeBlob nrf_ops s = (s2\<lparr>gs_blob_step := kBody\<rparr>, kDone)" using w1 w2 by (simp add: writeBlob_def)
  moreover have "s' = poll_write nrf_ops s" using m(1) job s' by (simp add: gs_poll_def mutating_def)
  ultimately show ?thesis by (simp add: poll_write_def finishMutation_def gs_busy_def)
qed

lemma request_completes:
  assumes "store_reachable s" and "requestReplace s (Some areas) = (s1, True)" and "\<not> gs_busy s" and "gs_busy s1"
    and "flash_operational (gs_flash s)"
  shows "let s2 = gs_poll nrf_ops (gs_poll nrf_ops s1) in
    gs_busy (gs_poll nrf_ops s1) \<and> \<not> gs_busy s2 \<and> snd (takeMutationResult s2) = Some True \<and>
    currentSnapshot s2 = Some (canonical_snapshot areas) \<and> gs_token_state s2 = kValid"
proof -
  have inv: "nrf_inv s" by (rule reachable_inv [OF assms(1)])
  note acc = accepted_request [OF inv assms(2,4,3)]
  define a where "a = gs_poll nrf_ops s1"
  define b where "b = gs_poll nrf_ops a"
  have ia: "nrf_inv a" using nrf_step_inv [of s1 EvPoll] acc by (simp add: a_def)
  have ib: "nrf_inv b" using nrf_step_inv [OF ia, of EvPoll] by (simp add: b_def)
  have pa: "gs_job a = kWrite" "flash_operational (gs_flash a)" "kept s1 a"
    using erase_progress [of s1 a] acc assms(5) by (simp_all add: a_def)
  note pb = write_progress [OF ia pa(1,2) b_def]
  have "outcome (nf_cells (gs_flash b)) a b"
    using poll_busy_outcome [OF ia _ b_def] pa(1) by (simp add: gs_busy_def)
  from kept_outcome [OF pa(3) this]
  have c: "current_record b = pending_record s1" "gs_token_state b = kValid" using pb by (simp_all add: outcome_def)
  have "at_rest (nf_cells (gs_flash b)) b"
    using ib pb by (auto simp: nrf_inv_def store_inv_def mutating_def phase_ok_def gs_busy_def Let_def)
  then have "authority_of b = reboot_authority (nf_cells (gs_flash b))" using c(2) by (simp add: at_rest_def)
  moreover have "length (nf_cells (gs_flash b)) = kGeofenceRegionSize" using ib by (simp add: nrf_inv_def nrf_wf_def)
  ultimately have "gs_resource_state b = resourceStateOf (gs_snapshot b)"
    using valid_authority [OF _ _ c(2)] by metis
  then show ?thesis using pb c acc pa(1)
    by (simp add: a_def [symmetric] b_def [symmetric] currentSnapshot_def current_record_def pending_record_def
        resourceStateOf_def takeMutationResult_def gs_busy_def)
qed

text \<open>
  C4: Progress.  On a flash whose calls do what they are documented to do, every accepted replacement
  finishes with success after exactly two polls - one for the erase, one for body, commit and
  verification - and the store then serves the requested areas.
\<close>
theorem mutation_completes:
  assumes "store_reachable s" and "requestReplace s (Some areas) = (s1, True)" and "\<not> gs_busy s" and "gs_busy s1"
    and "flash_operational (gs_flash s)"
  shows "let s2 = gs_poll nrf_ops (gs_poll nrf_ops s1) in
    gs_busy (gs_poll nrf_ops s1) \<and> \<not> gs_busy s2 \<and> snd (takeMutationResult s2) = Some True \<and>
    currentSnapshot s2 = Some (canonical_snapshot areas) \<and> gs_token_state s2 = kValid"
  by (rule request_completes [OF assms])

section \<open>A concrete store\<close>

text \<open>Page 0 holds the sample record, page 1 is blank; the store has just begun.\<close>

definition sample_flash :: NrfGeofenceFlash where
  "sample_flash = \<lparr>nf_sd = nor_flash, nf_cells = record_bytes geofence_sample @ replicate (8192 - 564) 0xFF,
     nf_ready = False, nf_layout_ok = True, nf_softdevice_enabled = False\<rparr>"

definition sample_store :: "NrfGeofenceFlash GeofenceStore" where
  "sample_store = fst (gs_begin nrf_ops None (GeofenceStore_init sample_flash))"

lemma sample_cells: "length (nf_cells sample_flash) = kGeofenceRegionSize"
  using length_record_bytes [OF geofence_sample_shape]
  by (simp add: sample_flash_def kTwoPageRegion_def kPageSize_def)

lemma sample_pages:
  "page_bytes (nf_cells sample_flash) 0 = record_bytes geofence_sample" "tail_clean (nf_cells sample_flash) 0"
  "tail_clean (nf_cells sample_flash) 1" "blank (nf_cells sample_flash) 1"
  using length_record_bytes [OF geofence_sample_shape]
  by (auto simp: page_bytes_def tail_clean_def blank_def sample_flash_def slice_def store_sizes kPageSize_def nth_append)

lemma sample_authority:
  "reboot_authority (nf_cells sample_flash) = (gr_snapshot geofence_sample, gr_token geofence_sample,
     GeofenceResourceState.kConfigured, kValid, True, False, gr_generation geofence_sample, 0)"
proof -
  let ?c = "nf_cells sample_flash"
  have "gf_decode (Some (record_bytes geofence_sample)) = Some geofence_sample"
    using decode_iff [of "record_bytes geofence_sample" geofence_sample] length_record_bytes [OF geofence_sample_shape]
      geofence_sample_valid geofence_sample_shape by (simp add: slice_full)
  then have r: "committed_at ?c 0 = Some geofence_sample" by (simp add: committed_at_def sample_pages)
  have "page_bytes ?c 1 = replicate 564 0xFF"
    using length_page_bytes [OF sample_cells, of 1] sample_pages(4)
    by (intro nth_equalityI) (auto simp: page_bytes_def blank_def store_sizes kPageSize_def)
  then have e: "evidence (page_insp ?c 1) = kErased"
    by (simp add: page_insp_def inspectPage_def erased_iff store_sizes)
  then have o: "committed_at ?c 1 = None"
    using page_insp_committed(1) [OF sample_cells, of 1] by (simp add: evidenceCommitted_def)
  have "recover_decide (GeofenceStore_init () :: unit GeofenceStore) (scan_cells ?c) =
    (if harmless ?c (1 - 0) geofence_sample
     then setAuthority (clearRecoveredRuntimeState (GeofenceStore_init ())) 0 geofence_sample
     else setSemanticFallback (clearRecoveredRuntimeState (GeofenceStore_init ())) geofence_sample kUncertain)"
    by (rule recover_single [OF sample_cells _ r sample_pages(2)]) (use o e in simp_all)
  moreover have "harmless ?c (1 - 0) geofence_sample" using e sample_pages(3) by (simp add: harmless_def evidenceSafeUncommitted_def)
  moreover have "resourceStateOf (gr_snapshot geofence_sample) = GeofenceResourceState.kConfigured"
    by (simp add: resourceStateOf_def geofence_sample_def)
  ultimately show ?thesis by (simp add: reboot_authority_def setter_authority)
qed

lemma sample_wf: "nrf_wf sample_flash"
  using nor_confined sample_cells by (simp add: nrf_wf_def sample_flash_def)

lemma sample_reachable: "store_reachable sample_store"
  using store_reachable.event [OF store_reachable.power_on [OF sample_wf], of "EvBegin None"]
  by (simp add: sample_store_def)

lemma sample_begin:
  "authority_of sample_store = reboot_authority (nf_cells sample_flash)"
  "gs_flash sample_store = sample_flash\<lparr>nf_ready := True\<rparr>" "gs_job sample_store = kNone" "gs_ready sample_store"
  "\<not> gs_recovery_pending sample_store" "\<not> gs_mutation_unreconciled sample_store"
  "\<not> gs_mutation_result_ready sample_store"
proof -
  have r: "after_reset sample_flash (nf_cells sample_flash) = GeofenceStore_init sample_flash"
    by (simp add: after_reset_def sample_flash_def)
  obtain s' ok where b: "gs_begin nrf_ops None (after_reset sample_flash (nf_cells sample_flash)) = (s', ok)" by fastforce
  have s: "s' = sample_store" using b by (simp add: sample_store_def r)
  have e: "sample_flash\<lparr>nf_cells := nf_cells sample_flash, nf_ready := True, nf_softdevice_enabled := False\<rparr> =
      sample_flash\<lparr>nf_ready := True\<rparr>" by (simp add: sample_flash_def)
  have "softdevice_confined (nf_sd sample_flash)" "nf_layout_ok sample_flash"
    using nor_confined by (simp_all add: sample_flash_def)
  from boot_authority [OF this(1) sample_cells this(2) refl _ b]
  show "authority_of sample_store = reboot_authority (nf_cells sample_flash)"
    "gs_flash sample_store = sample_flash\<lparr>nf_ready := True\<rparr>" "gs_job sample_store = kNone" "gs_ready sample_store"
    "\<not> gs_recovery_pending sample_store" "\<not> gs_mutation_unreconciled sample_store"
    "\<not> gs_mutation_result_ready sample_store"
    unfolding sample_authority e s by simp_all
qed

definition sample_areas :: "GeofencePolygonView list" where
  "sample_areas = [Some (take 3 sample_square)]"

definition sample_requested :: "NrfGeofenceFlash GeofenceStore" where
  "sample_requested = fst (requestReplace sample_store (Some sample_areas))"

definition sample_writing :: "NrfGeofenceFlash GeofenceStore" where
  "sample_writing = gs_poll nrf_ops sample_requested"

lemma sample_state:
  "gs_token_state sample_store = kValid" "\<not> gs_busy sample_store"
  "gs_snapshot sample_store = gr_snapshot geofence_sample" "gs_token sample_store = gr_token geofence_sample"
  "gs_generation sample_store = 5" "gs_active_page sample_store = 0" "\<not> gs_maintenance_reset_required sample_store"
  "gs_resource_state sample_store = GeofenceResourceState.kConfigured"
  using sample_begin(1,3) unfolding sample_authority
  by (simp_all add: authority_of_def gs_busy_def) (simp add: geofence_sample_def)

lemma sample_acceptable: "acceptable sample_areas"
  by code_simp

lemma sample_request:
  "requestReplace sample_store (Some sample_areas) = (sample_requested, True)" "gs_busy sample_requested"
proof -
  let ?cand = "canonical_snapshot sample_areas"
  have blob: "length (gs_blob sample_store) = 564"
    using reachable_inv [OF sample_reachable] by (simp add: nrf_inv_def store_inv_def)
  have ne: "\<not> sameSnapshot ?cand (gs_snapshot sample_store)"
  proof -
    have "total_effective sample_areas = 3" by code_simp
    then show ?thesis
      by (simp add: sameSnapshot_def sample_state canonical_snapshot_def geofence_sample_def)
  qed
  let ?r = "\<lparr>gr_generation = 6, gr_token = \<lparr>incarnation = 0xABCDEF, revision = 6\<rparr>, gr_snapshot = ?cand\<rparr>"
  have valid: "recordValid ?r" using canonical_valid(1) [OF sample_acceptable] by (simp add: recordValid_def)
  have shape: "snapshot_shape (gr_snapshot ?r)" using canonical_valid(2) [OF sample_acceptable] by simp
  obtain b where b: "gf_encode ?r (Some (gs_blob sample_store)) = Some b"
    using encode_segments [OF valid shape, of "gs_blob sample_store"] blob by auto
  have tok: "gs_token sample_store = \<lparr>incarnation = 0xABCDEF, revision = 5\<rparr>"
    by (simp add: sample_state geofence_sample_def)
  obtain s1 where s1: "startMutation sample_store ?cand = (s1, True)" "gs_job s1 = kErase"
    using b by (simp add: startMutation_def Let_def sample_state(5) tok)
  have "requestReplace sample_store (Some sample_areas) = (s1, True)"
    using s1(1) ne sample_state sample_begin canonicalize_exact [of sample_areas] sample_acceptable
    by (simp add: requestReplace_def requestSnapshot_def)
  then show "requestReplace sample_store (Some sample_areas) = (sample_requested, True)" "gs_busy sample_requested"
    using s1(2) by (simp_all add: sample_requested_def gs_busy_def)
qed

lemma sample_operational: "flash_operational (gs_flash sample_store)"
  using nor_works by (simp add: flash_operational_def sample_begin) (simp add: sample_flash_def)

lemma sample_accepted:
  "nrf_inv sample_requested" "gs_job sample_requested = kErase" "gs_flash sample_requested = gs_flash sample_store"
  "current_record sample_requested = geofence_sample" "\<not> gs_mutation_result_ready sample_requested"
  "gs_pending_snapshot sample_requested = canonical_snapshot sample_areas"
  using accepted_request [OF reachable_inv [OF sample_reachable] sample_request sample_state(2)]
  by (simp_all add: current_record_def sample_state) (simp add: geofence_sample_def)

lemma sample_write_state:
  "gs_job sample_writing = kWrite" "store_reachable sample_writing" "kept sample_requested sample_writing"
  "flash_operational (gs_flash sample_writing)" "nf_layout_ok (gs_flash sample_writing)"
proof -
  have "flash_operational (gs_flash sample_requested)" using sample_operational sample_accepted(3) by simp
  from erase_progress [OF sample_accepted(1,2) this sample_writing_def]
  show "gs_job sample_writing = kWrite" "kept sample_requested sample_writing" "flash_operational (gs_flash sample_writing)"
    by simp_all
  have "store_reachable sample_requested"
    using store_reachable.event [OF sample_reachable, of "EvReplace (Some sample_areas)"]
    by (simp add: sample_requested_def)
  from store_reachable.event [OF this, of EvPoll] show "store_reachable sample_writing" by (simp add: sample_writing_def)
  have "nf_layout_ok (fst (fb_erasePage nrf_ops f p)) = nf_layout_ok f" for f p
    by (simp add: nrf_ops_def nrf_erasePage_def Let_def split: prod.split)
  then have "nf_layout_ok (gs_flash (poll_erase nrf_ops sample_requested)) = nf_layout_ok (gs_flash sample_requested)"
    by (simp add: poll_erase_def Let_def failMutation_def nrf_ops_def split: prod.split) (metis fst_conv)
  then show "nf_layout_ok (gs_flash sample_writing)"
    using sample_accepted(2,3) sample_begin(2) nrf_never_awaits(1) [OF sample_accepted(1) sample_request(2)]
    by (simp add: sample_writing_def gs_poll_def mutating_def sample_flash_def)
qed

theorem reboot_keeps_authority_witness:
  "\<exists>s'. gs_begin nrf_ops None (after_reset (gs_flash sample_store) (nf_cells (gs_flash sample_store))) = (s', True) \<and>
     stateToken s' = Some (gr_token geofence_sample) \<and> gs_active_page s' = 0"
proof -
  obtain s' ok where b: "gs_begin nrf_ops None (after_reset (gs_flash sample_store) (nf_cells (gs_flash sample_store))) = (s', ok)"
    by fastforce
  have "nf_layout_ok (gs_flash sample_store)" by (simp add: sample_begin sample_flash_def)
  from reboot_keeps_authority [OF sample_reachable sample_state(1,2) this b] b show ?thesis
    by (simp add: stateToken_def sample_state)
qed

theorem power_cut_old_or_new_witness:
  "\<exists>s'. gs_begin nrf_ops None (after_reset (gs_flash sample_writing)
      (interrupted (nf_cells (gs_flash sample_writing)) (gs_target_page sample_writing) (pending_record sample_writing) 1)) = (s', True) \<and>
     currentSnapshot s' = Some (gr_snapshot geofence_sample) \<and> stateToken s' = None"
proof -
  obtain s' ok where b: "gs_begin nrf_ops None (after_reset (gs_flash sample_writing)
      (interrupted (nf_cells (gs_flash sample_writing)) (gs_target_page sample_writing) (pending_record sample_writing) 1)) = (s', ok)"
    by fastforce
  have "current_record sample_writing = geofence_sample" using sample_write_state(3) sample_accepted(4) by (simp add: kept_def)
  then have "gr_snapshot (current_record sample_writing) = gr_snapshot geofence_sample" by simp
  then have "gs_snapshot sample_writing = gr_snapshot geofence_sample" by (simp add: current_record_def)
  then show ?thesis
    using power_cut_old_or_new [OF sample_write_state(2,1) _ sample_write_state(5) b] b by simp
qed

theorem mutation_result_meaning_witness:
  "currentSnapshot (gs_poll nrf_ops sample_writing) = Some (canonical_snapshot sample_areas)"
proof -
  let ?s = "gs_poll nrf_ops sample_writing"
  have "nrf_inv sample_writing" by (rule reachable_inv [OF sample_write_state(2)])
  from write_progress [OF this sample_write_state(1,4) refl]
  have t: "takeMutationResult ?s = (?s\<lparr>gs_mutation_result_ready := False\<rparr>, Some True)"
    by (simp add: takeMutationResult_def)
  have p: "?s = (gs_poll nrf_ops ^^ 2) sample_requested" by (simp add: sample_writing_def numeral_2_eq_2)
  show ?thesis
    using mutation_result_meaning [OF sample_reachable sample_request(1) sample_state(2) sample_request(2) p t] by simp
qed

theorem mutation_completes_witness:
  "snd (takeMutationResult (gs_poll nrf_ops (gs_poll nrf_ops sample_requested))) = Some True"
  using mutation_completes [OF sample_reachable sample_request(1) sample_state(2) sample_request(2) sample_operational]
  by (simp add: Let_def)

end
