(* ===== verification/Geofence_Staging.thy ===== *)
theory Geofence_Staging
  imports Geofence_Format
begin

text \<open>
  \<open>firmware/include/geofence_staging.h\<close> and \<open>firmware/src/geofence_staging.cpp\<close>: the candidate
  area set a user builds vertex by vertex before it is handed to the mutation owner, and the parser
  of decimal degrees.  A text with its length is a list of characters; the result of the parser is the
  value it stores, or nothing when it refuses.
\<close>

datatype StagingResult = kOk | kNotStaging | kFull | kEmptyArea | kTooManyAreas

record GeofenceStaging =
  sg_active :: bool
  sg_areas :: u8
  sg_total :: u16
  sg_counts :: "u8 list"
  sg_vertices :: "GeoPointE7 list"

definition GeofenceStaging_init :: GeofenceStaging where
  "GeofenceStaging_init = \<lparr>sg_active = False, sg_areas = 0, sg_total = 0,
     sg_counts = replicate gf_kMaximumAreas 0, sg_vertices = replicate gf_kMaximumTotalVertices zero_point\<rparr>"

definition sg_begin :: "GeofenceStaging \<Rightarrow> GeofenceStaging" where
  "sg_begin s = s\<lparr>sg_active := True, sg_areas := 1, sg_total := 0, sg_counts := map (\<lambda>_. 0) (sg_counts s)\<rparr>"

definition sg_abort :: "GeofenceStaging \<Rightarrow> GeofenceStaging" where
  "sg_abort s = s\<lparr>sg_active := False, sg_areas := 0, sg_total := 0, sg_counts := map (\<lambda>_. 0) (sg_counts s)\<rparr>"

definition addVertex :: "GeoPointE7 \<Rightarrow> GeofenceStaging \<Rightarrow> GeofenceStaging \<times> StagingResult" where
  "addVertex point s =
     (if \<not> sg_active s then (s, kNotStaging)
      else if unat (sg_total s) \<ge> gf_kMaximumTotalVertices then (s, kFull)
      else
        let s = s\<lparr>sg_vertices := (sg_vertices s)[unat (sg_total s) := point], sg_total := sg_total s + 1\<rparr>;
            k = unat (sg_areas s - 1)
        in (s\<lparr>sg_counts := (sg_counts s)[k := sg_counts s ! k + 1]\<rparr>, kOk))"

definition nextArea :: "GeofenceStaging \<Rightarrow> GeofenceStaging \<times> StagingResult" where
  "nextArea s =
     (if \<not> sg_active s then (s, kNotStaging)
      else if sg_counts s ! unat (sg_areas s - 1) = 0 then (s, kEmptyArea)
      else if unat (sg_areas s) \<ge> gf_kMaximumAreas then (s, kTooManyAreas)
      else (s\<lparr>sg_areas := sg_areas s + 1\<rparr>, kOk))"

definition sg_areaCount :: "GeofenceStaging \<Rightarrow> nat" where
  "sg_areaCount s = fold (\<lambda>i count. if sg_counts s ! i \<noteq> 0 then count + 1 else count) [0..<unat (sg_areas s)] 0"

text \<open>
  The views over the staged vertices; a view into the vertex buffer is the vertices it spans.
\<close>

definition sg_view :: "GeofenceStaging \<Rightarrow> GeofenceAreaSetView" where
  "sg_view s = Some (fst (fold (\<lambda>i (polygons, offset).
       if sg_counts s ! i = 0 then (polygons, offset)
       else (polygons @ [Some (slice (unat offset) (unat (sg_counts s ! i)) (sg_vertices s))],
             offset + ucast (sg_counts s ! i)))
     [0..<unat (sg_areas s)] ([], 0 :: u16)))"

section \<open>Decimal degrees\<close>

definition is_digit :: "char \<Rightarrow> bool" where
  "is_digit c \<longleftrightarrow> of_char CHR ''0'' \<le> (of_char c :: nat) \<and> (of_char c :: nat) \<le> of_char CHR ''9''"

definition digit_value :: "char \<Rightarrow> int" where
  "digit_value c = of_char c - of_char CHR ''0''"

text \<open>One digit loop: the value, the number of digits and the rest, or nothing behind too many digits.\<close>

fun scan_digits :: "nat \<Rightarrow> int \<Rightarrow> nat \<Rightarrow> string \<Rightarrow> (int \<times> nat \<times> string) option" where
  "scan_digits limit v n [] = Some (v, n, [])"
| "scan_digits limit v n (c # cs) =
     (if is_digit c then
        (if n + 1 > limit then None else scan_digits limit (v * 10 + digit_value c) (n + 1) cs)
      else Some (v, n, c # cs))"

definition scan_fraction :: "string \<Rightarrow> (int \<times> nat \<times> string) option" where
  "scan_fraction rest =
     (case rest of [] \<Rightarrow> Some (0, 0, [])
      | c # cs \<Rightarrow>
        if c = CHR ''.'' then
          (case scan_digits 7 0 0 cs of None \<Rightarrow> None
           | Some (fraction, n, rest) \<Rightarrow> if n = 0 then None else Some (fraction, n, rest))
        else Some (0, 0, rest))"

definition parseDegreesE7 :: "string option \<Rightarrow> i32 \<Rightarrow> i32 option" where
  "parseDegreesE7 text max_abs_degrees =
     (case text of None \<Rightarrow> None
      | Some cs \<Rightarrow>
        if cs = [] then None
        else
          let negative = (hd cs = CHR ''-''); cs = (if negative then tl cs else cs) in
          (case scan_digits 3 0 0 cs of None \<Rightarrow> None
           | Some (whole, whole_digits, rest) \<Rightarrow>
             if whole_digits = 0 then None
             else
               (case scan_fraction rest of None \<Rightarrow> None
                | Some (fraction, fraction_digits, rest) \<Rightarrow>
                  if rest \<noteq> [] then None
                  else
                    let fraction = fold (\<lambda>_ f. f * 10) [fraction_digits..<7] fraction;
                        magnitude = whole * 10000000 + fraction in
                    if magnitude > sint max_abs_degrees * 10000000 then None
                    else Some (word_of_int (if negative then - magnitude else magnitude)))))"

section \<open>The parser against the grammar\<close>

definition digits_value :: "string \<Rightarrow> int" where
  "digits_value ds = foldl (\<lambda>v c. v * 10 + digit_value c) 0 ds"

text \<open>A decimal of at most three whole and seven fractional digits and its exact value times ten million.\<close>

definition degrees_text :: "bool \<Rightarrow> string \<Rightarrow> string \<Rightarrow> string" where
  "degrees_text negative w f =
     (if negative then ''-'' else []) @ w @ (if f = [] then [] else CHR ''.'' # f)"

definition degrees_e7 :: "string \<Rightarrow> string \<Rightarrow> int" where
  "degrees_e7 w f = digits_value w * 10 ^ 7 + digits_value f * 10 ^ (7 - length f)"

definition degrees_grammar :: "string \<Rightarrow> string \<Rightarrow> bool" where
  "degrees_grammar w f \<longleftrightarrow> list_all is_digit w \<and> list_all is_digit f \<and> 1 \<le> length w \<and> length w \<le> 3 \<and> length f \<le> 7"

lemma scan_digits_exact:
  "scan_digits limit v n cs =
     (let ds = takeWhile is_digit cs in
      if n + length ds \<le> limit \<or> ds = [] then Some (foldl (\<lambda>v c. v * 10 + digit_value c) v ds, n + length ds, dropWhile is_digit cs)
      else None)"
  by (induction limit v n cs rule: scan_digits.induct) (auto simp: Let_def)

lemma pad_fraction: "fold (\<lambda>_ f. f * 10) [n..<m] (x :: int) = x * 10 ^ (m - n)"
proof (induction m)
  case (Suc m)
  then show ?case by (cases "n \<le> m") (simp_all add: Suc_diff_le)
qed simp

lemma not_digits [simp]: "\<not> is_digit CHR ''.''" "\<not> is_digit CHR ''-''"
  by (simp_all add: is_digit_def)

lemma scan_fraction_exact:
  "scan_fraction cs = Some (v, n, []) \<longleftrightarrow>
     (\<exists>f. cs = (if f = [] then [] else CHR ''.'' # f) \<and> list_all is_digit f \<and> length f \<le> 7 \<and>
       v = digits_value f \<and> n = length f)"
proof -
  have all: "list_all is_digit f \<longleftrightarrow> takeWhile is_digit f = f" for f
    by (auto simp: takeWhile_eq_all_conv list_all_iff)
  have drop: "dropWhile is_digit f = [] \<longleftrightarrow> list_all is_digit f" for f
    by (auto simp: dropWhile_eq_Nil_conv list_all_iff)
  show ?thesis
  proof (cases cs)
    case Nil
    then show ?thesis by (auto simp: scan_fraction_def digits_value_def)
  next
    case (Cons c f)
    show ?thesis
    proof (cases "c = CHR ''.''")
      case True
      have "scan_fraction cs = Some (v, n, []) \<longleftrightarrow>
          f \<noteq> [] \<and> list_all is_digit f \<and> length f \<le> 7 \<and> v = digits_value f \<and> n = length f"
      proof (cases "list_all is_digit f")
        case True
        then have t: "takeWhile is_digit f = f" "dropWhile is_digit f = []" using all drop by blast+
        have "scan_digits 7 0 0 f = (if length f \<le> 7 \<or> f = [] then Some (digits_value f, length f, []) else None)"
          unfolding scan_digits_exact Let_def t digits_value_def by simp
        then show ?thesis using Cons \<open>c = CHR ''.''\<close> True by (auto simp: scan_fraction_def)
      next
        case False
        then have "dropWhile is_digit f \<noteq> []" using drop by blast
        then show ?thesis using Cons \<open>c = CHR ''.''\<close> False
          by (auto simp: scan_fraction_def scan_digits_exact Let_def split: if_splits)
      qed
      then show ?thesis using Cons True by auto
    next
      case False
      then show ?thesis using Cons by (auto simp: scan_fraction_def)
    qed
  qed
qed

text \<open>The magnitude behind the optional sign.\<close>

definition parse_magnitude :: "string \<Rightarrow> int option" where
  "parse_magnitude cs =
     (case scan_digits 3 0 0 cs of None \<Rightarrow> None
      | Some (whole, whole_digits, rest) \<Rightarrow>
        if whole_digits = 0 then None
        else
          (case scan_fraction rest of None \<Rightarrow> None
           | Some (fraction, n, rest) \<Rightarrow>
             if rest \<noteq> [] then None else Some (whole * 10000000 + fold (\<lambda>_ f. f * 10) [n..<7] fraction)))"

lemma parse_by_magnitude:
  "parseDegreesE7 (Some cs) m =
     (if cs = [] then None
      else case parse_magnitude (if hd cs = CHR ''-'' then tl cs else cs) of None \<Rightarrow> None
      | Some g \<Rightarrow> if g > sint m * 10000000 then None
                   else Some (word_of_int (if hd cs = CHR ''-'' then - g else g)))"
  by (auto simp: parseDegreesE7_def parse_magnitude_def Let_def split: option.splits prod.splits)

lemma magnitude_exact:
  "parse_magnitude cs = Some g \<longleftrightarrow>
     (\<exists>w f. cs = w @ (if f = [] then [] else CHR ''.'' # f) \<and> degrees_grammar w f \<and> g = degrees_e7 w f)"
proof
  assume p: "parse_magnitude cs = Some g"
  let ?w = "takeWhile is_digit cs"
  obtain fr n where w: "length ?w \<le> 3 \<or> ?w = []" "length ?w \<noteq> 0"
    and f: "scan_fraction (dropWhile is_digit cs) = Some (fr, n, [])"
    and g: "g = digits_value ?w * 10000000 + fold (\<lambda>_ f. f * 10) [n..<7] fr"
    using p by (auto simp: parse_magnitude_def scan_digits_exact Let_def digits_value_def split: if_splits option.splits prod.splits)
  from f obtain f' where f': "dropWhile is_digit cs = (if f' = [] then [] else CHR ''.'' # f')" "list_all is_digit f'"
    "length f' \<le> 7" "fr = digits_value f'" "n = length f'"
    by (auto simp: scan_fraction_exact)
  have "cs = ?w @ (if f' = [] then [] else CHR ''.'' # f')"
    unfolding f'(1) [symmetric] by simp
  moreover have "list_all is_digit ?w" by (auto simp: list_all_iff dest: set_takeWhileD)
  then have "degrees_grammar ?w f'"
    using w f' by (cases ?w) (auto simp: degrees_grammar_def)
  moreover have "g = degrees_e7 ?w f'" using g f' by (simp add: degrees_e7_def pad_fraction)
  ultimately show "\<exists>w f. cs = w @ (if f = [] then [] else CHR ''.'' # f) \<and> degrees_grammar w f \<and> g = degrees_e7 w f"
    by blast
next
  assume "\<exists>w f. cs = w @ (if f = [] then [] else CHR ''.'' # f) \<and> degrees_grammar w f \<and> g = degrees_e7 w f"
  then obtain w f where cs: "cs = w @ (if f = [] then [] else CHR ''.'' # f)"
    and gr: "degrees_grammar w f" and g: "g = degrees_e7 w f" by blast
  have dw: "\<forall>c\<in>set w. is_digit c" using gr by (simp add: degrees_grammar_def list_all_iff)
  have tw: "takeWhile is_digit cs = w" "dropWhile is_digit cs = (if f = [] then [] else CHR ''.'' # f)"
    using dw by (simp_all add: cs takeWhile_append2 dropWhile_append2)
  have "scan_fraction (if f = [] then [] else CHR ''.'' # f) = Some (digits_value f, length f, [])"
    using gr scan_fraction_exact by (auto simp: degrees_grammar_def)
  then show "parse_magnitude cs = Some g"
    using gr by (auto simp: parse_magnitude_def scan_digits_exact Let_def tw g degrees_e7_def pad_fraction
        digits_value_def degrees_grammar_def)
qed

lemma parse_grammar:
  "parseDegreesE7 (Some cs) m = Some v \<longleftrightarrow>
     (\<exists>negative w f. cs = degrees_text negative w f \<and> degrees_grammar w f \<and>
       degrees_e7 w f \<le> sint m * 10000000 \<and>
       v = word_of_int (if negative then - degrees_e7 w f else degrees_e7 w f))"
proof (cases "cs \<noteq> [] \<and> hd cs = CHR ''-''")
  case True
  have neg: "\<not> (cs = degrees_text False w f \<and> degrees_grammar w f)" for w f
  proof
    assume c: "cs = degrees_text False w f \<and> degrees_grammar w f"
    then obtain d w' where w: "w = d # w'" by (cases w) (auto simp: degrees_grammar_def)
    then have "is_digit d" "d = CHR ''-''" using c True by (auto simp: degrees_grammar_def degrees_text_def)
    then show False by simp
  qed
  have tx: "cs = degrees_text True w f \<longleftrightarrow> tl cs = w @ (if f = [] then [] else CHR ''.'' # f)" for w f
    using True by (cases cs) (auto simp: degrees_text_def)
  have mag: "parse_magnitude (tl cs) = Some g \<longleftrightarrow>
      (\<exists>w f. cs = degrees_text True w f \<and> degrees_grammar w f \<and> g = degrees_e7 w f)" for g
    unfolding magnitude_exact tx ..
  have "parseDegreesE7 (Some cs) m = Some v \<longleftrightarrow>
      (\<exists>g. parse_magnitude (tl cs) = Some g \<and> g \<le> sint m * 10000000 \<and> v = word_of_int (- g))"
    unfolding parse_by_magnitude using True by (cases "parse_magnitude (tl cs)") auto
  then show ?thesis using neg unfolding mag ex_bool_eq by auto
next
  case False
  have pos: "cs \<noteq> degrees_text True w f" for w f
    using False by (cases cs) (auto simp: degrees_text_def)
  have ne: "cs = degrees_text False w f \<and> degrees_grammar w f \<Longrightarrow> cs \<noteq> []" for w f
    by (auto simp: degrees_text_def degrees_grammar_def)
  have mag: "parse_magnitude cs = Some g \<longleftrightarrow> (\<exists>w f. cs = degrees_text False w f \<and> degrees_grammar w f \<and> g = degrees_e7 w f)" for g
    by (simp add: magnitude_exact degrees_text_def)
  show ?thesis
  proof (cases "cs = []")
    case True
    then show ?thesis using ne pos by (auto simp: parse_by_magnitude ex_bool_eq)
  next
    case nonempty: False
    then have "parseDegreesE7 (Some cs) m = Some v \<longleftrightarrow>
        (\<exists>g. parse_magnitude cs = Some g \<and> g \<le> sint m * 10000000 \<and> v = word_of_int g)"
      unfolding parse_by_magnitude using False by (cases "parse_magnitude cs") auto
    then show ?thesis using pos unfolding mag ex_bool_eq by auto
  qed
qed

lemma digits_nonneg: "list_all is_digit ds \<Longrightarrow> 0 \<le> v \<Longrightarrow> 0 \<le> foldl (\<lambda>v c. v * 10 + digit_value c) v ds"
proof (induction ds arbitrary: v)
  case (Cons d ds)
  have "(48 :: nat) \<le> of_char d" using Cons.prems(1) by (simp add: is_digit_def)
  then have "int 48 \<le> of_char d" unfolding of_nat_of_char [where 'a = int, symmetric] of_nat_le_iff .
  then have "0 \<le> digit_value d" by (simp add: digit_value_def)
  then show ?case using Cons by simp
qed simp

lemma degrees_nonneg: "degrees_grammar w f \<Longrightarrow> 0 \<le> degrees_e7 w f"
  using digits_nonneg [of w 0] digits_nonneg [of f 0]
  by (simp add: degrees_grammar_def degrees_e7_def digits_value_def)

text \<open>
  The parser of decimal degrees is exact.  A text is accepted exactly when it is an optional minus
  sign, one to three digits and, optionally, a point with one to seven digits, with a magnitude within
  the limit; for the limits of latitude and longitude the 32-bit value is that decimal times ten
  million, with its sign, with no rounding and no wrap-around.
\<close>
theorem degrees_parser_exact:
  "(parseDegreesE7 (Some cs) m = Some v \<longleftrightarrow>
     (\<exists>negative w f. cs = degrees_text negative w f \<and> degrees_grammar w f \<and>
       degrees_e7 w f \<le> sint m * 10000000 \<and>
       v = word_of_int (if negative then - degrees_e7 w f else degrees_e7 w f))) \<and>
   (parseDegreesE7 (Some cs) m = Some v \<and> sint m \<le> 180 \<longrightarrow>
     (\<exists>negative w f. cs = degrees_text negative w f \<and> degrees_grammar w f \<and>
       sint v = (if negative then - degrees_e7 w f else degrees_e7 w f) \<and> \<bar>sint v\<bar> \<le> sint m * 10000000))"
proof (intro conjI impI)
  show "parseDegreesE7 (Some cs) m = Some v \<longleftrightarrow>
     (\<exists>negative w f. cs = degrees_text negative w f \<and> degrees_grammar w f \<and>
       degrees_e7 w f \<le> sint m * 10000000 \<and>
       v = word_of_int (if negative then - degrees_e7 w f else degrees_e7 w f))"
    by (rule parse_grammar)
next
  assume p: "parseDegreesE7 (Some cs) m = Some v \<and> sint m \<le> 180"
  then obtain negative w f where t: "cs = degrees_text negative w f" "degrees_grammar w f"
    and l: "degrees_e7 w f \<le> sint m * 10000000"
    and v: "v = word_of_int (if negative then - degrees_e7 w f else degrees_e7 w f)"
    unfolding parse_grammar by blast
  have nn: "0 \<le> degrees_e7 w f" by (rule degrees_nonneg [OF t(2)])
  have small: "sint (word_of_int h :: i32) = h" if "- 1800000000 \<le> h" "h \<le> 1800000000" for h
    using that by (simp add: int_word_sint mod_pos_pos_trivial)
  have "sint v = (if negative then - degrees_e7 w f else degrees_e7 w f)"
    unfolding v using p l nn by (intro small) (cases negative; simp; linarith)+
  then show "\<exists>negative w f. cs = degrees_text negative w f \<and> degrees_grammar w f \<and>
       sint v = (if negative then - degrees_e7 w f else degrees_e7 w f) \<and> \<bar>sint v\<bar> \<le> sint m * 10000000"
    using t l nn by (intro exI [of _ negative] exI [of _ w] exI [of _ f]) (simp add: abs_if)
qed

theorem degrees_parser_exact_witness: "parseDegreesE7 (Some ''-8.5'') 90 = Some (word_of_int (- 85000000))"
proof -
  have t: "''-8.5'' = degrees_text True ''8'' ''5''" "degrees_grammar ''8'' ''5''" "degrees_e7 ''8'' ''5'' = 85000000"
    by (simp_all add: degrees_text_def degrees_grammar_def degrees_e7_def digits_value_def digit_value_def is_digit_def)
  have "degrees_e7 ''8'' ''5'' \<le> sint (90 :: i32) * 10000000"
    "word_of_int (- 85000000) = (word_of_int (if True then - degrees_e7 ''8'' ''5'' else degrees_e7 ''8'' ''5'') :: i32)"
    unfolding t(3) by simp_all
  with t(1,2) show ?thesis
    using degrees_parser_exact [of "''-8.5''" 90 "word_of_int (- 85000000)"] by blast
qed

section \<open>The staged set as a list of areas\<close>

type_synonym area_lists = "GeoPointE7 list list"

definition staged_total :: "area_lists \<Rightarrow> nat" where
  "staged_total as = length (concat as)"

definition spec_add :: "GeoPointE7 \<Rightarrow> area_lists \<Rightarrow> area_lists \<times> StagingResult" where
  "spec_add p as = (if staged_total as \<ge> 64 then (as, kFull) else (butlast as @ [last as @ [p]], kOk))"

definition spec_next :: "area_lists \<Rightarrow> area_lists \<times> StagingResult" where
  "spec_next as = (if last as = [] then (as, kEmptyArea)
     else if length as \<ge> 8 then (as, kTooManyAreas) else (as @ [[]], kOk))"

text \<open>The buffers of an active staging hold exactly these areas.\<close>

definition stages :: "GeofenceStaging \<Rightarrow> area_lists \<Rightarrow> bool" where
  "stages s as \<longleftrightarrow> sg_active s \<and> as \<noteq> [] \<and> length as \<le> 8 \<and> sg_areas s = of_nat (length as) \<and>
     staged_total as \<le> 64 \<and> sg_total s = of_nat (staged_total as) \<and>
     sg_counts s = map (\<lambda>a. of_nat (length a)) as @ replicate (8 - length as) 0 \<and>
     length (sg_vertices s) = 64 \<and> take (staged_total as) (sg_vertices s) = concat as"

definition staging_shape :: "GeofenceStaging \<Rightarrow> bool" where
  "staging_shape s \<longleftrightarrow> length (sg_counts s) = 8 \<and> length (sg_vertices s) = 64"

lemma stages_begin: "staging_shape s \<Longrightarrow> stages (sg_begin s) [[]]"
  by (simp add: stages_def staging_shape_def sg_begin_def staged_total_def map_replicate_const numeral_eq_Suc)

lemma stages_numbers:
  assumes "stages s as"
  shows "unat (sg_areas s) = length as" "unat (sg_areas s - 1) = length as - 1" "unat (sg_total s) = staged_total as"
proof -
  have l: "1 \<le> length as" "length as \<le> 8" using assms by (auto simp: stages_def Suc_le_eq)
  show "unat (sg_areas s) = length as" "unat (sg_total s) = staged_total as"
    using assms by (auto simp: stages_def unat_of_nat)
  have "(of_nat (length as - 1) :: u8) = of_nat (length as) - 1" using l(1) by (metis of_nat_1 of_nat_diff)
  then have "sg_areas s - 1 = of_nat (length as - 1)" using assms by (simp add: stages_def)
  moreover have "unat (of_nat (length as - 1) :: u8) = length as - 1"
  proof -
    have "(length as - 1) mod 2 ^ LENGTH(8) = length as - 1" using l(2) by simp
    then show ?thesis unfolding unat_of_nat .
  qed
  ultimately show "unat (sg_areas s - 1) = length as - 1" by (rule ssubst)
qed

lemma split_last: "as \<noteq> [] \<Longrightarrow> as = butlast as @ [last as]"
  by simp

lemma area_fits: "a \<in> set as \<Longrightarrow> length a \<le> staged_total as"
  by (induction as) (auto simp: staged_total_def)

lemma stages_add:
  assumes "stages s as"
  shows "snd (addVertex p s) = snd (spec_add p as)" "stages (fst (addVertex p s)) (fst (spec_add p as))"
proof -
  note n = stages_numbers [OF assms]
  have ne: "as \<noteq> []" and act: "sg_active s" using assms by (simp_all add: stages_def)
  have k: "gf_kMaximumTotalVertices = 64" by (simp add: gf_kMaximumTotalVertices_def)
  show "snd (addVertex p s) = snd (spec_add p as)" using act by (simp add: addVertex_def spec_add_def n k Let_def)
  show "stages (fst (addVertex p s)) (fst (spec_add p as))"
  proof (cases "staged_total as \<ge> 64")
    case True
    then show ?thesis using assms act by (simp add: addVertex_def spec_add_def n k)
  next
    case False
    obtain bs b where as: "as = bs @ [b]" using ne by (metis split_last)
    have t: "staged_total (bs @ [b @ [p]]) = Suc (staged_total as)" by (simp add: as staged_total_def)
    have lb: "length b \<le> 64" using area_fits [of b as] False as by simp
    have cnt: "(sg_counts s)[length as - 1 := sg_counts s ! (length as - 1) + 1] =
        map (\<lambda>a. of_nat (length a)) (bs @ [b @ [p]]) @ replicate (8 - length as) 0"
      using assms by (simp add: stages_def as list_update_append nth_append)
    have "take (Suc (staged_total as)) ((sg_vertices s)[staged_total as := p]) = take (staged_total as) (sg_vertices s) @ [p]"
      using assms False by (simp add: stages_def take_Suc_conv_app_nth)
    then have v: "take (Suc (staged_total as)) ((sg_vertices s)[staged_total as := p]) = concat (bs @ [b @ [p]])"
      using assms by (simp add: stages_def as)
    have f: "fst (spec_add p as) = bs @ [b @ [p]]" using False by (simp add: spec_add_def as)
    have e: "fst (addVertex p s) = s\<lparr>sg_vertices := (sg_vertices s)[staged_total as := p], sg_total := sg_total s + 1,
        sg_counts := (sg_counts s)[length as - 1 := sg_counts s ! (length as - 1) + 1]\<rparr>"
      using act False by (simp add: addVertex_def n k Let_def)
    have l: "length (bs @ [b @ [p]]) = length as" by (simp add: as)
    show ?thesis
      using assms False unfolding e f stages_def t cnt l by (simp add: v)
  qed
qed

lemma stages_next:
  assumes "stages s as"
  shows "snd (nextArea s) = snd (spec_next as)" "stages (fst (nextArea s)) (fst (spec_next as))"
proof -
  note n = stages_numbers [OF assms]
  obtain bs b where as: "as = bs @ [b]" using assms unfolding stages_def by (metis split_last)
  have lb: "length b \<le> 64" using area_fits [of b as] assms as by (simp add: stages_def)
  have c: "sg_counts s ! (length as - 1) = of_nat (length b)" using assms by (simp add: stages_def as nth_append)
  have c': "sg_counts s ! length bs = of_nat (length b)" using c by (simp add: as)
  have z: "(of_nat (length b) :: u8) = 0 \<longleftrightarrow> b = []"
  proof
    assume "(of_nat (length b) :: u8) = 0"
    then have "unat (of_nat (length b) :: u8) = 0" by simp
    then show "b = []" using lb by (simp add: unat_of_nat)
  qed simp
  have act: "sg_active s" using assms by (simp add: stages_def)
  show "snd (nextArea s) = snd (spec_next as)"
    using act by (simp add: nextArea_def spec_next_def n c c' z gf_kMaximumAreas_def as)
  show "stages (fst (nextArea s)) (fst (spec_next as))"
  proof (cases "b = [] \<or> length as \<ge> 8")
    case True
    then show ?thesis using assms act by (auto simp: nextArea_def spec_next_def n c c' z gf_kMaximumAreas_def as)
  next
    case False
    then have f: "fst (nextArea s) = s\<lparr>sg_areas := sg_areas s + 1\<rparr>" "fst (spec_next as) = as @ [[]]"
      using act by (simp_all add: nextArea_def spec_next_def n c c' z gf_kMaximumAreas_def as)
    have r: "replicate (8 - length as) (0 :: u8) = 0 # replicate (8 - Suc (length as)) 0"
      using False by (metis Suc_diff_Suc not_le replicate_Suc)
    show ?thesis using assms False unfolding f by (simp add: stages_def staged_total_def r)
  qed
qed

lemma view_fold:
  fixes s as
  assumes "stages s as" "k \<le> length as"
  shows "fold (\<lambda>i (polygons, offset).
       if sg_counts s ! i = 0 then (polygons, offset)
       else (polygons @ [Some (slice (unat offset) (unat (sg_counts s ! i)) (sg_vertices s))],
             offset + ucast (sg_counts s ! i)))
     [0..<k] ([], 0 :: u16) =
    (map Some (filter (\<lambda>a. a \<noteq> []) (take k as)), of_nat (staged_total (take k as)))"
  using assms(2)
proof (induction k)
  case 0
  show ?case by (simp add: staged_total_def)
next
  case (Suc k)
  let ?a = "as ! k"
  have k: "k < length as" using Suc.prems by simp
  have tk: "take (Suc k) as = take k as @ [?a]" using k by (rule take_Suc_conv_app_nth)
  have tot: "staged_total as \<le> 64" "length as \<le> 8" using assms(1) by (simp_all add: stages_def)
  have la: "length ?a \<le> 64" using area_fits [of ?a as] k tot by simp
  have c: "sg_counts s ! k = of_nat (length ?a)" using assms(1) k by (simp add: stages_def nth_append)
  have u: "unat (of_nat (length ?a) :: u8) = length ?a" using la by (simp add: unat_of_nat)
  have z: "(of_nat (length ?a) :: u8) = 0 \<longleftrightarrow> ?a = []" using u by (cases "?a = []") auto
  have uc: "ucast (of_nat (length ?a) :: u8) = (of_nat (length ?a) :: u16)"
    using la by (simp add: unsigned_of_nat take_bit_nat_eq_self)
  have sum: "staged_total (take (Suc k) as) = staged_total (take k as) + length ?a" by (simp add: tk staged_total_def)
  have le: "staged_total (take k as) + length ?a \<le> staged_total as"
  proof -
    have "staged_total as = staged_total (take (Suc k) as) + staged_total (drop (Suc k) as)"
      by (metis append_take_drop_id concat_append length_append staged_total_def)
    then show ?thesis by (simp add: sum)
  qed
  then have uo: "unat (of_nat (staged_total (take k as)) :: u16) = staged_total (take k as)"
    using tot by (simp add: unat_of_nat)
  have conc: "concat as = concat (take k as) @ ?a @ concat (drop (Suc k) as)"
    by (metis concat.simps(2) concat_append id_take_nth_drop k)
  have "slice (staged_total (take k as)) (length ?a) (sg_vertices s) =
      slice (staged_total (take k as)) (length ?a) (take (staged_total as) (sg_vertices s))"
    using le by (simp add: slice_def drop_take min_def)
  also have "\<dots> = ?a"
    using assms(1) by (simp add: stages_def conc) (simp add: slice_def staged_total_def)
  finally have sl: "slice (staged_total (take k as)) (length ?a) (sg_vertices s) = ?a" .
  show ?case
    using Suc.IH k by (simp add: c z u uc uo sl sum [unfolded tk] tk)
qed

lemma stages_view: "stages s as \<Longrightarrow> sg_view s = Some (map Some (filter (\<lambda>a. a \<noteq> []) as))"
  using view_fold [of s as "length as"] stages_numbers(1) [of s as] by (simp add: sg_view_def)

datatype staging_op = AddVertex GeoPointE7 | NextArea

fun staging_run :: "staging_op list \<Rightarrow> GeofenceStaging \<Rightarrow> GeofenceStaging \<times> StagingResult list" where
  "staging_run [] s = (s, [])"
| "staging_run (x # xs) s =
     (let (s', r) = (case x of AddVertex p \<Rightarrow> addVertex p s | NextArea \<Rightarrow> nextArea s);
          (s'', rs) = staging_run xs s'
      in (s'', r # rs))"

fun spec_run :: "staging_op list \<Rightarrow> area_lists \<Rightarrow> area_lists \<times> StagingResult list" where
  "spec_run [] as = (as, [])"
| "spec_run (x # xs) as =
     (let (as', r) = (case x of AddVertex p \<Rightarrow> spec_add p as | NextArea \<Rightarrow> spec_next as);
          (as'', rs) = spec_run xs as'
      in (as'', r # rs))"

lemma staging_run_refines:
  "stages s as \<Longrightarrow> stages (fst (staging_run xs s)) (fst (spec_run xs as)) \<and> snd (staging_run xs s) = snd (spec_run xs as)"
proof (induction xs arbitrary: s as)
  case (Cons x xs)
  let ?c = "case x of AddVertex p \<Rightarrow> addVertex p s | NextArea \<Rightarrow> nextArea s"
  let ?a = "case x of AddVertex p \<Rightarrow> spec_add p as | NextArea \<Rightarrow> spec_next as"
  have "stages (fst ?c) (fst ?a)" "snd ?c = snd ?a"
    using stages_add [OF Cons.prems] stages_next [OF Cons.prems] by (cases x; simp)+
  then show ?case using Cons.IH [of "fst ?c" "fst ?a"] by (simp add: Let_def split_beta)
qed simp

text \<open>
  C33: Staging is a list of vertex lists.  Whatever sequence of vertices and area marks follows a begin,
  every answer -- accepted, full, empty area, too many areas -- is that of the plain list of areas, and
  the view the store is given is exactly its non-empty areas in order, for at most 64 vertices in at
  most 8 areas, with no counter of the fixed buffers ever wrapping.
\<close>
theorem staging_refines_area_lists:
  assumes "staging_shape s"
  shows "let (as, rs) = spec_run xs [[]]; (s', rs') = staging_run xs (sg_begin s) in
    rs' = rs \<and> sg_view s' = Some (map Some (filter (\<lambda>a. a \<noteq> []) as)) \<and>
    unat (sg_total s') = length (concat as) \<and> length (concat as) \<le> 64 \<and> length as \<le> 8"
proof -
  have "stages (fst (staging_run xs (sg_begin s))) (fst (spec_run xs [[]])) \<and>
      snd (staging_run xs (sg_begin s)) = snd (spec_run xs [[]])"
    by (rule staging_run_refines [OF stages_begin [OF assms]])
  then show ?thesis
    using stages_view stages_numbers(3) by (auto simp: stages_def staged_total_def split: prod.splits)
qed

theorem staging_refines_area_lists_witness:
  "sg_view (fst (staging_run [AddVertex zero_point, NextArea, NextArea] (sg_begin GeofenceStaging_init))) =
     Some [Some [zero_point]]"
  using staging_refines_area_lists [of GeofenceStaging_init "[AddVertex zero_point, NextArea, NextArea]"]
  by (simp add: staging_shape_def GeofenceStaging_init_def gf_kMaximumAreas_def gf_kMaximumTotalVertices_def
      spec_add_def spec_next_def staged_total_def split: prod.splits)

end
