(* ===== verification/Application_Request.thy ===== *)
theory Application_Request
  imports Prelude
begin

text \<open>
  The types the two mutation owners share: who asks and over which channel
  (\<open>firmware/include/application_request.h\<close>), and how a submission and a change end
  (\<open>firmware/include/config_mutation.h\<close>).
\<close>

datatype ApplicationRequester = kUsb | kBle
datatype ApplicationAccessChannel = kInvalidChannel | kUsbLocal | kBleOpen | kBleEncrypted | kBleAuthenticated
datatype ConfigMutationSubmitResult = kAccepted | kBusy | kRejected
datatype ConfigMutationOutcome = kApplied | kUnchanged | kInvalid | kAccessDenied | kMaintenance
  | kOutcomeUnavailable | kOutcomeUnknown
datatype OwnerState = kIdle | kSaving | kResultReady

fun defaultApplicationAccess :: "ApplicationRequester \<Rightarrow> ApplicationAccessChannel" where
  "defaultApplicationAccess kUsb = kUsbLocal"
| "defaultApplicationAccess kBle = kBleOpen"

end
