(* ===== verification/Geofence_Mutation.thy ===== *)
theory Geofence_Mutation
  imports Geofence_Store_Guarantees Application_Request
begin

text \<open>
  \<open>firmware/include/geofence_mutation.h\<close> and \<open>firmware/src/geofence_mutation.cpp\<close>: the one owner of
  geofence changes.  It admits a change from an authorised channel into its single slot, drives the
  geofence store and reports a typed outcome.  The owner refers to the store, so every operation takes
  the store beside the owner and returns both.
\<close>

datatype GeofenceMutationKind = kReplace | kClearAll

record GeofenceMutationResult =
  mr_requester :: ApplicationRequester
  mr_request_id :: u32
  mr_kind :: GeofenceMutationKind
  mr_outcome :: ConfigMutationOutcome
  mr_state :: GeofenceResourceState
  mr_area_count :: u8
  mr_total_vertex_count :: u16
  mr_token_valid :: bool
  mr_token :: StateToken

definition GeofenceMutationResult_init :: GeofenceMutationResult where
  "GeofenceMutationResult_init = \<lparr>mr_requester = kUsb, mr_request_id = 0, mr_kind = kClearAll,
     mr_outcome = kOutcomeUnavailable, mr_state = GeofenceResourceState.kUnavailable, mr_area_count = 0,
     mr_total_vertex_count = 0, mr_token_valid = False, mr_token = zero_token\<rparr>"

record GeofenceMutationOwner =
  mo_state :: OwnerState
  mo_result :: GeofenceMutationResult

definition GeofenceMutationOwner_init :: GeofenceMutationOwner where
  "GeofenceMutationOwner_init = \<lparr>mo_state = kIdle, mo_result = GeofenceMutationResult_init\<rparr>"

fun accessBelongsToRequester :: "ApplicationRequester \<Rightarrow> ApplicationAccessChannel \<Rightarrow> bool" where
  "accessBelongsToRequester kUsb channel = (channel = kUsbLocal)"
| "accessBelongsToRequester kBle channel =
     (channel = kBleOpen \<or> channel = kBleEncrypted \<or> channel = kBleAuthenticated)"

definition mayChangeGeofence :: "ApplicationAccessChannel \<Rightarrow> bool" where
  "mayChangeGeofence channel \<longleftrightarrow> channel = kUsbLocal \<or> channel = kBleAuthenticated"

definition mo_complete :: "ConfigMutationOutcome \<Rightarrow> GeofenceMutationOwner \<Rightarrow> 'f GeofenceStore \<Rightarrow> GeofenceMutationOwner" where
  "mo_complete oc o' s =
     o'\<lparr>mo_result := (mo_result o')\<lparr>mr_outcome := oc, mr_state := gs_resource_state s,
           mr_area_count := areaCount s, mr_total_vertex_count := totalVertexCount s,
           mr_token_valid := (stateToken s \<noteq> None),
           mr_token := (case stateToken s of None \<Rightarrow> zero_token | Some t \<Rightarrow> t)\<rparr>,
        mo_state := kResultReady\<rparr>"

definition mo_submit :: "ApplicationRequester \<Rightarrow> u32 \<Rightarrow> ApplicationAccessChannel \<Rightarrow> GeofenceMutationKind \<Rightarrow>
    GeofenceAreaSetView \<Rightarrow> GeofenceMutationOwner \<Rightarrow> 'f GeofenceStore \<Rightarrow>
    GeofenceMutationOwner \<times> 'f GeofenceStore \<times> ConfigMutationSubmitResult" where
  "mo_submit requester request_id channel kind area_set o' s =
     (if \<not> accessBelongsToRequester requester channel then (o', s, kRejected)
      else if mo_state o' \<noteq> kIdle then (o', s, kBusy)
      else if gs_busy s then (o', s, kBusy)
      else
        let o' = o'\<lparr>mo_result := GeofenceMutationResult_init
              \<lparr>mr_requester := requester, mr_request_id := request_id, mr_kind := kind\<rparr>\<rparr> in
        if \<not> mayChangeGeofence channel then (mo_complete kAccessDenied o' s, s, kAccepted)
        else if \<not> gs_ready s then (mo_complete kOutcomeUnavailable o' s, s, kAccepted)
        else if gs_maintenance_reset_required s \<or> gs_token_state s \<noteq> kValid \<or>
            gs_resource_state s = GeofenceResourceState.kUnavailable
        then (mo_complete kMaintenance o' s, s, kAccepted)
        else
          let rejected_before = dg_rejected_candidates (gs_diagnostics s);
              (s, admitted) = (if kind = kReplace then requestReplace s area_set else requestClear s) in
          if \<not> admitted then
            (mo_complete (if dg_rejected_candidates (gs_diagnostics s) \<noteq> rejected_before
                          then kInvalid else kOutcomeUnavailable) o' s, s, kAccepted)
          else if \<not> gs_busy s then (mo_complete kUnchanged o' s, s, kAccepted)
          else (o'\<lparr>mo_state := kSaving\<rparr>, s, kAccepted))"

definition submitReplace :: "ApplicationRequester \<Rightarrow> u32 \<Rightarrow> ApplicationAccessChannel \<Rightarrow>
    GeofenceAreaSetView \<Rightarrow> GeofenceMutationOwner \<Rightarrow> 'f GeofenceStore \<Rightarrow>
    GeofenceMutationOwner \<times> 'f GeofenceStore \<times> ConfigMutationSubmitResult" where
  "submitReplace requester request_id channel area_set o' s =
     mo_submit requester request_id channel kReplace area_set o' s"

definition submitClear :: "ApplicationRequester \<Rightarrow> u32 \<Rightarrow> ApplicationAccessChannel \<Rightarrow>
    GeofenceMutationOwner \<Rightarrow> 'f GeofenceStore \<Rightarrow>
    GeofenceMutationOwner \<times> 'f GeofenceStore \<times> ConfigMutationSubmitResult" where
  "submitClear requester request_id channel o' s =
     mo_submit requester request_id channel kClearAll None o' s"

definition mo_poll :: "GeofenceMutationOwner \<Rightarrow> 'f GeofenceStore \<Rightarrow> GeofenceMutationOwner \<times> 'f GeofenceStore \<times> bool" where
  "mo_poll o' s =
     (if mo_state o' \<noteq> kSaving then (o', s, False)
      else
        case takeMutationResult s of
          (s, None) \<Rightarrow> if gs_busy s then (o', s, False) else (mo_complete kOutcomeUnknown o' s, s, False)
        | (s, Some success) \<Rightarrow> (mo_complete (if success then kApplied else kOutcomeUnknown) o' s, s, success))"

definition takeResult :: "ApplicationRequester \<Rightarrow> GeofenceMutationOwner \<Rightarrow> GeofenceMutationOwner \<times> GeofenceMutationResult option" where
  "takeResult requester o' =
     (if mo_state o' \<noteq> kResultReady \<or> mr_requester (mo_result o') \<noteq> requester then (o', None)
      else (\<lparr>mo_state = kIdle, mo_result = GeofenceMutationResult_init\<rparr>, Some (mo_result o')))"

text \<open>One loop pass: the store is polled, then the owner.\<close>

definition mo_pass :: "GeofenceMutationOwner \<times> NrfGeofenceFlash GeofenceStore \<Rightarrow>
    GeofenceMutationOwner \<times> NrfGeofenceFlash GeofenceStore \<times> bool" where
  "mo_pass os = mo_poll (fst os) (gs_poll nrf_ops (snd os))"

definition mo_passes :: "nat \<Rightarrow> GeofenceMutationOwner \<times> NrfGeofenceFlash GeofenceStore \<Rightarrow>
    GeofenceMutationOwner \<times> NrfGeofenceFlash GeofenceStore" where
  "mo_passes n os = ((\<lambda>os. (fst (mo_pass os), fst (snd (mo_pass os)))) ^^ n) os"

section \<open>Who may change the areas\<close>

lemma submit_refused:
  assumes "\<not> accessBelongsToRequester requester channel \<or> mo_state o' \<noteq> kIdle \<or> gs_busy s"
  shows "\<exists>r. mo_submit requester i channel kind areas o' s = (o', s, r) \<and> r \<noteq> kAccepted"
  using assms by (auto simp: mo_submit_def)

lemma submit_admitted:
  assumes "accessBelongsToRequester requester channel" "mo_state o' = kIdle" "\<not> gs_busy s"
    and "mo_submit requester i channel kind areas o' s = (o1, s1, r)"
  shows "r = kAccepted" "mr_requester (mo_result o1) = requester" "mr_request_id (mo_result o1) = i"
    "mr_kind (mo_result o1) = kind"
    "mo_state o1 = kSaving \<longrightarrow> (if kind = kReplace then requestReplace s areas else requestClear s) = (s1, True) \<and> gs_busy s1"
    "mo_state o1 \<noteq> kSaving \<longrightarrow> mo_state o1 = kResultReady"
    "\<not> mayChangeGeofence channel \<longrightarrow> s1 = s \<and> mo_state o1 = kResultReady \<and> mr_outcome (mo_result o1) = kAccessDenied"
    "mo_state o1 \<noteq> kSaving \<longrightarrow> s1 = s \<or> (\<exists>ok. (if kind = kReplace then requestReplace s areas else requestClear s) = (s1, ok) \<and> (ok \<longrightarrow> \<not> gs_busy s1))"
  using assms
  by (auto simp: mo_submit_def mo_complete_def Let_def split: if_splits prod.splits)

text \<open>
  Who may change the permitted areas.  A submission holds the slot exactly when its channel belongs
  to the requester and the slot and the store are free; then its result carries the requester and the
  request identity.  Any other submission leaves owner and store as they were, and a submission over a
  channel that is neither local USB nor an authenticated Bluetooth write never touches the store.
\<close>
theorem geofence_change_admission:
  assumes "mo_submit requester i channel kind areas o' s = (o1, s1, r)"
  shows "(r = kAccepted \<longleftrightarrow> accessBelongsToRequester requester channel \<and> mo_state o' = kIdle \<and> \<not> gs_busy s) \<and>
    (r = kAccepted \<longrightarrow> mo_state o1 \<noteq> kIdle \<and>
       (mr_requester (mo_result o1), mr_request_id (mo_result o1), mr_kind (mo_result o1)) = (requester, i, kind)) \<and>
    (r \<noteq> kAccepted \<longrightarrow> o1 = o' \<and> s1 = s) \<and>
    (channel \<noteq> kUsbLocal \<and> channel \<noteq> kBleAuthenticated \<longrightarrow> s1 = s \<and> (mo_state o1 = kSaving \<longrightarrow> o1 = o'))"
proof (cases "accessBelongsToRequester requester channel \<and> mo_state o' = kIdle \<and> \<not> gs_busy s")
  case True
  note a = submit_admitted [OF _ _ _ assms]
  show ?thesis using True a by (auto simp: mayChangeGeofence_def)
next
  case False
  then obtain r' where "mo_submit requester i channel kind areas o' s = (o', s, r')" "r' \<noteq> kAccepted"
    using submit_refused [of requester channel o' s i kind areas] by blast
  then show ?thesis using assms False by auto
qed

section \<open>What an applied change means\<close>

lemma pass_saving:
  assumes "mo_pass (o', s) = (o1, s1, b)" "mo_state o' = kSaving"
  shows "(b \<longrightarrow> (\<exists>s2. takeMutationResult (gs_poll nrf_ops s) = (s2, Some True) \<and> s1 = s2) \<and>
      mo_state o1 = kResultReady \<and> mr_outcome (mo_result o1) = kApplied) \<and>
    (mo_state o1 = kSaving \<longrightarrow> o1 = o' \<and> s1 = gs_poll nrf_ops s \<and> \<not> b) \<and>
    (mo_state o1 = kSaving \<or> mo_state o1 = kResultReady)"
  using assms
  by (auto simp: mo_pass_def mo_poll_def mo_complete_def takeMutationResult_def split: if_splits)

lemma passes_saving:
  "mo_state o' = kSaving \<Longrightarrow> mo_state (fst (mo_passes n (o', s))) = kSaving \<Longrightarrow>
   mo_passes n (o', s) = (o', (gs_poll nrf_ops ^^ n) s)"
proof (induction n)
  case 0
  show ?case by (simp add: mo_passes_def)
next
  case (Suc n)
  let ?q = "mo_passes n (o', s)"
  have st: "mo_passes (Suc n) (o', s) = (fst (mo_pass ?q), fst (snd (mo_pass ?q)))" by (simp add: mo_passes_def)
  have "mo_state (fst ?q) = kSaving"
  proof (rule ccontr)
    assume "mo_state (fst ?q) \<noteq> kSaving"
    then have "fst (mo_pass ?q) = fst ?q" by (simp add: mo_pass_def mo_poll_def)
    then show False using Suc.prems(2) st \<open>mo_state (fst ?q) \<noteq> kSaving\<close> by simp
  qed
  from Suc.IH [OF Suc.prems(1) this] have q: "?q = (o', (gs_poll nrf_ops ^^ n) s)" .
  obtain o1 s1 b where p: "mo_pass (o', (gs_poll nrf_ops ^^ n) s) = (o1, s1, b)" by (cases "mo_pass (o', (gs_poll nrf_ops ^^ n) s)") auto
  then show ?case using pass_saving [OF p Suc.prems(1)] Suc.prems(2) unfolding st q p by simp
qed

text \<open>The announcing pass: the result is APPLIED, and the store serves the requested areas under the next token.\<close>

lemma announced_change:
  assumes "store_reachable s" and "mo_submit requester i channel kReplace (Some areas) o' s = (o1, s1, kAccepted)"
    and "mo_state o1 = kSaving" and "mo_state (fst (mo_passes n (o1, s1))) = kSaving"
    and "mo_pass (mo_passes n (o1, s1)) = (o2, s2, True)"
  shows "(mr_outcome (mo_result o2), mr_requester (mo_result o2), mr_request_id (mo_result o2)) = (kApplied, requester, i) \<and>
    currentSnapshot s2 = Some (canonical_snapshot areas) \<and>
    stateToken s2 = Some \<lparr>incarnation = incarnation (gs_token s), revision = revision (gs_token s) + 1\<rparr> \<and>
    mr_token_valid (mo_result o2) \<and> stateToken s2 = Some (mr_token (mo_result o2))"
proof -
  have adm: "accessBelongsToRequester requester channel" "mo_state o' = kIdle" "\<not> gs_busy s"
    using assms(2) submit_refused [of requester channel o' s i kReplace "Some areas"] by auto
  note a = submit_admitted [OF adm assms(2)]
  have req: "requestReplace s (Some areas) = (s1, True)" "gs_busy s1" using a(5) assms(3) by simp_all
  have p: "mo_passes n (o1, s1) = (o1, (gs_poll nrf_ops ^^ n) s1)" by (rule passes_saving [OF assms(3,4)])
  note ps = assms(5) [unfolded p]
  define w where "w = (gs_poll nrf_ops ^^ Suc n) s1"
  have w: "gs_poll nrf_ops ((gs_poll nrf_ops ^^ n) s1) = w" by (simp add: w_def)
  have t: "takeMutationResult w = (s2, Some True)"
    using pass_saving [OF ps assms(3)] w by auto
  have m: "currentSnapshot w = Some (canonical_snapshot areas) \<and>
      stateToken w = Some \<lparr>incarnation = incarnation (gs_token s), revision = revision (gs_token s) + 1\<rparr>"
    using result_meaning [OF assms(1) req(1) adm(3) req(2) w_def t] by simp
  have s2: "s2 = w\<lparr>gs_mutation_result_ready := False\<rparr>" using t by (auto simp: takeMutationResult_def split: if_splits)
  have same: "currentSnapshot s2 = currentSnapshot w" "stateToken s2 = stateToken w"
    by (simp_all add: s2 currentSnapshot_def stateToken_def)
  have "o2 = mo_complete kApplied o1 s2"
    using ps assms(3) t by (simp add: mo_pass_def w mo_poll_def)
  then show ?thesis using m same a(2,3) by (simp add: mo_complete_def)
qed

text \<open>
  C14: APPLIED means durable and served.  When an accepted replacement is reported by the pass in which
  the owner announces the change, the result says APPLIED for that very request, the store serves the
  canonical form of the requested areas under the next revision, and the token the client is given is
  the one the store then vouches for.
\<close>
theorem applied_change_is_served:
  assumes "store_reachable s" and "mo_submit requester i channel kReplace (Some areas) o' s = (o1, s1, kAccepted)"
    and "mo_state o1 = kSaving" and "mo_state (fst (mo_passes n (o1, s1))) = kSaving"
    and "mo_pass (mo_passes n (o1, s1)) = (o2, s2, True)"
  shows "(mr_outcome (mo_result o2), mr_requester (mo_result o2), mr_request_id (mo_result o2)) = (kApplied, requester, i) \<and>
    currentSnapshot s2 = Some (canonical_snapshot areas) \<and>
    stateToken s2 = Some \<lparr>incarnation = incarnation (gs_token s), revision = revision (gs_token s) + 1\<rparr> \<and>
    mr_token_valid (mo_result o2) \<and> stateToken s2 = Some (mr_token (mo_result o2))"
  by (rule announced_change [OF assms])

text \<open>On a flash whose calls work, the announcement comes in the second pass.\<close>

lemma applied_in_two_passes:
  assumes "store_reachable s" "requestReplace s (Some areas) = (s1, True)" "\<not> gs_busy s" "gs_busy s1"
    and "flash_operational (gs_flash s)" "mo_state o1 = kSaving"
  shows "mo_state (fst (mo_passes 1 (o1, s1))) = kSaving \<and> (\<exists>o2 s2. mo_pass (mo_passes 1 (o1, s1)) = (o2, s2, True))"
proof -
  define a1 where "a1 = gs_poll nrf_ops s1"
  define b1 where "b1 = gs_poll nrf_ops a1"
  have c: "gs_busy a1" "\<not> gs_busy b1" "snd (takeMutationResult b1) = Some True"
    using request_completes [OF assms(1-5)] by (simp_all add: Let_def a1_def b1_def)
  note acc = accepted_request [OF reachable_inv [OF assms(1)] assms(2,4,3)]
  have "kept s1 a1"
    using polls_outcome [of s1 1] acc assms(4) c(1) by (simp add: Let_def a1_def)
  then have "\<not> gs_mutation_result_ready a1" using acc by (simp add: kept_def)
  then have p: "mo_pass (o1, s1) = (o1, a1, False)"
    using c(1) assms(6) by (simp add: mo_pass_def mo_poll_def takeMutationResult_def a1_def [symmetric])
  obtain s2 where t: "takeMutationResult b1 = (s2, Some True)" using c(3) by (cases "takeMutationResult b1") simp
  have "mo_passes 1 (o1, s1) = (o1, a1)" by (simp add: mo_passes_def p)
  moreover have "mo_pass (o1, a1) = (mo_complete kApplied o1 s2, s2, True)"
    using assms(6) t by (simp add: mo_pass_def mo_poll_def b1_def [symmetric])
  ultimately show ?thesis using assms(6) by simp
qed

theorem applied_change_is_served_witness:
  "\<exists>o1 o2 s2. mo_submit kUsb 9 kUsbLocal kReplace (Some sample_areas) GeofenceMutationOwner_init sample_store =
      (o1, sample_requested, kAccepted) \<and>
    mo_pass (mo_passes 1 (o1, sample_requested)) = (o2, s2, True) \<and>
    currentSnapshot s2 = Some (canonical_snapshot sample_areas)"
proof -
  let ?i = "GeofenceMutationOwner_init"
  define o1 where "o1 = ?i\<lparr>mo_result := GeofenceMutationResult_init\<lparr>mr_requester := kUsb, mr_request_id := 9,
      mr_kind := kReplace\<rparr>, mo_state := kSaving\<rparr>"
  have sub: "mo_submit kUsb 9 kUsbLocal kReplace (Some sample_areas) ?i sample_store = (o1, sample_requested, kAccepted)"
    using sample_state sample_begin sample_request
    by (simp add: mo_submit_def GeofenceMutationOwner_init_def mayChangeGeofence_def o1_def)
  have st: "mo_state o1 = kSaving" by (simp add: o1_def)
  from applied_in_two_passes [OF sample_reachable sample_request(1) sample_state(2) sample_request(2) sample_operational st]
  obtain o2 s2 where p: "mo_state (fst (mo_passes 1 (o1, sample_requested))) = kSaving"
    "mo_pass (mo_passes 1 (o1, sample_requested)) = (o2, s2, True)" by blast
  show ?thesis using applied_change_is_served [OF sample_reachable sub st p] sub p(2) by blast
qed

theorem geofence_change_admission_witness:
  "mo_submit kBle 4 kBleOpen kClearAll None GeofenceMutationOwner_init sample_store =
     (fst (mo_submit kBle 4 kBleOpen kClearAll None GeofenceMutationOwner_init sample_store), sample_store, kAccepted)"
proof -
  obtain o1 s1 r where sub: "mo_submit kBle 4 kBleOpen kClearAll None GeofenceMutationOwner_init sample_store = (o1, s1, r)"
    by (cases "mo_submit kBle 4 kBleOpen kClearAll None GeofenceMutationOwner_init sample_store") auto
  show ?thesis
    using geofence_change_admission [OF sub] sub sample_state(2) by (simp add: GeofenceMutationOwner_init_def)
qed

end
