(* ===== verification/Geofence_Provider.thy ===== *)
theory Geofence_Provider
  imports Geofence_Mutation Geofence_Confirmation
begin

text \<open>
  \<open>firmware/include/geofence_runtime_provider.h\<close> and \<open>firmware/src/geofence_runtime_provider.cpp\<close>: the
  bridge from a recovered durable snapshot to the coordinator that judges positions, and its use in
  \<open>firmware/src/main.cpp\<close> after a change.  The temporary polygon views are segments of the snapshot's
  vertex array.
\<close>

datatype GeofenceRuntimeApplyResult = kCleared | kConfigured | kRejected

fun provider_areas :: "Snapshot \<Rightarrow> nat list \<Rightarrow> u16 \<Rightarrow> (GeofencePolygonView list \<times> u16) option" where
  "provider_areas s [] offset = Some ([], offset)"
| "provider_areas s (area # rest) offset =
     (let count = sn_area_vertex_counts s ! area in
      if count < 3 \<or> offset > sn_total_vertex_count s \<or>
         int (unat count) > int (unat (sn_total_vertex_count s)) - int (unat offset) then None
      else case provider_areas s rest (offset + ucast count) of
          None \<Rightarrow> None
        | Some (areas, tail_offset) \<Rightarrow> Some (Some (slice (unat offset) (unat count) (sn_vertices s)) # areas, tail_offset))"

definition applyGeofenceSnapshotToRuntime ::
  "Snapshot \<Rightarrow> GeofenceConfirmationCoordinator \<Rightarrow> GeofenceConfirmationCoordinator \<times> GeofenceRuntimeApplyResult" where
  "applyGeofenceSnapshotToRuntime s c =
     (if sn_state s = ResourceState.kClear then
        if sn_area_count s \<noteq> 0 \<or> sn_total_vertex_count s \<noteq> 0 then (c, kRejected)
        else if list_ex (\<lambda>area. sn_area_vertex_counts s ! area \<noteq> 0) [0..<gf_kMaximumAreas] then (c, kRejected)
        else (gc_clear c, kCleared)
      else if sn_area_count s = 0 \<or> unat (sn_area_count s) > gf_kMaximumAreas \<or>
          sn_total_vertex_count s = 0 \<or> unat (sn_total_vertex_count s) > gf_kMaximumTotalVertices then (c, kRejected)
      else case provider_areas s [0..<unat (sn_area_count s)] 0 of
          None \<Rightarrow> (c, kRejected)
        | Some (areas, offset) \<Rightarrow>
          if offset \<noteq> sn_total_vertex_count s then (c, kRejected)
          else if list_ex (\<lambda>area. sn_area_vertex_counts s ! area \<noteq> 0) [unat (sn_area_count s)..<gf_kMaximumAreas]
          then (c, kRejected)
          else
            let (c, result) = gc_configure c (Some areas)
            in (c, if result = GeofenceRuntimeConfigResult.kApplied then GeofenceRuntimeApplyResult.kConfigured else kRejected))"

text \<open>
  What the main loop does when the owner announces a change: an open confirmation episode is aborted, then
  the durable snapshot, if there is one, is applied and otherwise the runtime is cleared.  The GNSS request
  and the pending radio report it also drops belong to other owners.
\<close>

definition applyGeofenceMutationToRuntime ::
  "'f GeofenceStore \<Rightarrow> GeofenceConfirmationCoordinator \<Rightarrow> GeofenceConfirmationCoordinator" where
  "applyGeofenceMutationToRuntime store c =
     (let c = (if confirmation_active (gc_operational c) then fst (gc_abortConfirmation c) else c) in
      case currentSnapshot store of None \<Rightarrow> gc_clear c
      | Some s \<Rightarrow> fst (applyGeofenceSnapshotToRuntime s c))"

section \<open>Valid snapshots are canonical\<close>

lemma unat_u8_u16 [simp]: "unat (ucast (c :: u8) :: u16) = unat c"
proof -
  have "unat c < 256" using unsigned_less [of c] by simp
  then show ?thesis by (simp add: unsigned_ucast_eq take_bit_nat_eq_self)
qed

text \<open>The areas a snapshot holds from some vertex on, read back as polygon views.\<close>

fun snapshot_areas :: "GeoPointE7 list \<Rightarrow> u8 list \<Rightarrow> GeofencePolygonView list" where
  "snapshot_areas vs [] = []"
| "snapshot_areas vs (n # ns) = Some (take (unat n) vs) # snapshot_areas (drop (unat n) vs) ns"

lemma effective_full:
  assumes "effectiveGeofenceVertexCount (Some vs) = length vs"
  shows "stored_area (Some vs) = vs"
  using assms by (simp add: stored_area_def effective_vertices_def)

lemma length_snapshot_areas [simp]: "length (snapshot_areas vs ns) = length ns"
  by (induction vs ns rule: snapshot_areas.induct) simp_all

lemma check_areas_read:
  assumes "check_areas s [k..<8] acc acc = Some t" and "length (sn_vertices s) = 64"
    and "length (sn_area_vertex_counts s) = 8"
    and "k \<le> unat (sn_area_count s)" "unat (sn_area_count s) \<le> 8" and "unat acc \<le> 64"
  shows "(let ns = slice k (unat (sn_area_count s) - k) (sn_area_vertex_counts s);
              areas = snapshot_areas (drop (unat acc) (sn_vertices s)) ns in
     (\<forall>a\<in>set areas. validateGeofencePolygon a = kOk) \<and> flat_counts areas = ns \<and>
     unat t = unat acc + total_effective areas \<and> unat t \<le> 64 \<and>
     flat_vertices areas = slice (unat acc) (total_effective areas) (sn_vertices s) \<and>
     (\<forall>i. unat (sn_area_count s) \<le> i \<and> i < 8 \<longrightarrow> sn_area_vertex_counts s ! i = 0))"
  using assms
proof (induction "8 - k" arbitrary: k acc)
  case 0
  then have "unat (sn_area_count s) = 8" "k = 8" by auto
  then show ?case using 0 by (auto simp: Let_def slice_def)
next
  case (Suc m)
  have k: "k < 8" "[k..<8] = k # [Suc k..<8]" using Suc.hyps(2) by (simp_all add: upt_conv_Cons)
  define n where "n = unat (sn_area_count s)"
  define c where "c = sn_area_vertex_counts s ! k"
  show ?case
  proof (cases "k < n")
    case False
    then have kn: "k = n" using Suc.prems(4) by (simp add: n_def)
    have tail: "\<forall>i\<in>set is. n \<le> i \<Longrightarrow> check_areas s is acc acc = Some t \<Longrightarrow>
      t = acc \<and> (\<forall>i\<in>set is. sn_area_vertex_counts s ! i = 0)" for "is"
      by (induction "is") (auto simp: n_def Let_def split: if_splits)
    have "t = acc \<and> (\<forall>i\<in>set [k..<8]. sn_area_vertex_counts s ! i = 0)"
      by (rule tail [OF _ Suc.prems(1)]) (simp add: kn)
    then show ?thesis using kn Suc.prems(6) by (simp add: n_def Let_def slice_def)
  next
    case True
    define a where "a = Some (slice (unat acc) (unat c) (sn_vertices s))"
    have nk: "\<not> unat (sn_area_count s) \<le> k" using True by (simp add: n_def)
    have st: "check_areas s [Suc k..<8] (acc + ucast c) (acc + ucast c) = Some t"
      and c3: "3 \<le> unat c" "unat c \<le> 64" and le: "unat acc \<le> 64 - unat c"
      and eff: "effectiveGeofenceVertexCount a = unat c" and val: "validateGeofencePolygon a = kOk"
      using Suc.prems(1) nk unfolding k(2)
      by (simp_all add: Let_def c_def a_def kMaximumPolygonVertices_def gf_kMaximumTotalVertices_def split: if_splits)
    have ua: "unat (acc + ucast c) = unat acc + unat c"
      using le c3 by (simp add: unat_word_ariths unat_u8_u16)
    have la: "length (slice (unat acc) (unat c) (sn_vertices s)) = unat c" using le c3 Suc.prems(2) by simp
    have sa: "stored_area a = slice (unat acc) (unat c) (sn_vertices s)"
      unfolding a_def by (rule effective_full) (use eff la in \<open>simp add: a_def\<close>)
    have kn: "Suc k \<le> unat (sn_area_count s)" using True by (simp add: n_def)
    have h: "m = 8 - Suc k" using Suc.hyps(2) by simp
    have ub: "unat (acc + ucast c) \<le> 64" using ua le c3 by simp
    from Suc.hyps(1) [OF h st Suc.prems(2,3) kn Suc.prems(5) ub]
    have ih: "let ns = slice (Suc k) (n - Suc k) (sn_area_vertex_counts s);
              areas = snapshot_areas (drop (unat acc + unat c) (sn_vertices s)) ns in
       (\<forall>a\<in>set areas. validateGeofencePolygon a = kOk) \<and> flat_counts areas = ns \<and>
       unat t = unat acc + unat c + total_effective areas \<and> unat t \<le> 64 \<and>
       flat_vertices areas = slice (unat acc + unat c) (total_effective areas) (sn_vertices s) \<and>
       (\<forall>i. n \<le> i \<and> i < 8 \<longrightarrow> sn_area_vertex_counts s ! i = 0)"
      by (simp add: ua n_def)
    have ns: "slice k (n - k) (sn_area_vertex_counts s) = c # slice (Suc k) (n - Suc k) (sn_area_vertex_counts s)"
      using True k(1) Suc.prems(3)
      by (simp add: slice_def c_def Cons_nth_drop_Suc [symmetric] Suc_diff_Suc [symmetric] del: Suc_diff_Suc)
    have ar: "snapshot_areas (drop (unat acc) (sn_vertices s)) (c # ms) =
        a # snapshot_areas (drop (unat acc + unat c) (sn_vertices s)) ms" for ms
      by (simp add: a_def slice_def add.commute)
    have join: "slice (unat acc) (unat c) (sn_vertices s) @ slice (unat acc + unat c) j (sn_vertices s) =
        slice (unat acc) (unat c + j) (sn_vertices s)" for j
      by (rule slice_join') simp
    show ?thesis unfolding n_def [symmetric] ns using ih
      by (simp add: Let_def ar val eff sa join del: snapshot_areas.simps)
  qed
qed

lemma zero_points:
  assumes "list_all (\<lambda>i. pointIsZero (vs ! i)) [n..<64]" "length vs = 64" "n \<le> 64"
  shows "drop n vs = replicate (64 - n) zero_point"
proof (rule nth_equalityI)
  fix i assume i: "i < length (drop n vs)"
  then have "pointIsZero (vs ! (n + i))" using assms by (simp add: list_all_iff)
  then show "drop n vs ! i = replicate (64 - n) zero_point ! i"
    using i assms by (simp add: pointIsZero_def zero_point_def)
qed (use assms in simp)

definition areas_of :: "Snapshot \<Rightarrow> GeofencePolygonView list" where
  "areas_of s = snapshot_areas (sn_vertices s) (take (unat (sn_area_count s)) (sn_area_vertex_counts s))"

lemma valid_is_canonical:
  assumes "snapshotValid s" "snapshot_shape s" "sn_state s = ResourceState.kConfigured"
  shows "acceptable (areas_of s)" "s = canonical_snapshot (areas_of s)"
proof -
  define n where "n = unat (sn_area_count s)"
  define ns where "ns = take n (sn_area_vertex_counts s)"
  define areas where "areas = snapshot_areas (sn_vertices s) ns"
  obtain t where n0: "sn_area_count s \<noteq> 0" and n8: "n \<le> 8" and ch: "check_areas s [0..<8] 0 0 = Some t"
    and t: "t = sn_total_vertex_count s" and z: "list_all (\<lambda>i. pointIsZero (sn_vertices s ! i)) [unat t..<64]"
    using assms(1,3) by (auto simp: snapshotValid_def gf_layout n_def split: if_splits option.splits)
  have len: "length (sn_vertices s) = 64" "length (sn_area_vertex_counts s) = 8"
    using assms(2) by (simp_all add: snapshot_shape_def)
  have r: "(\<forall>a\<in>set areas. validateGeofencePolygon a = kOk) \<and> flat_counts areas = ns \<and>
     unat t = total_effective areas \<and> unat t \<le> 64 \<and>
     flat_vertices areas = take (total_effective areas) (sn_vertices s) \<and>
     (\<forall>i. n \<le> i \<and> i < 8 \<longrightarrow> sn_area_vertex_counts s ! i = 0)"
    using check_areas_read [OF ch len] n8 by (simp add: n_def ns_def areas_def slice_def Let_def)
  have la: "length areas = n" using len n8 by (simp add: areas_def ns_def)
  have n1: "n \<noteq> 0" using n0 by (simp add: n_def unat_eq_0)
  have ar: "areas = areas_of s" by (simp add: areas_def areas_of_def ns_def n_def)
  have "acceptable areas" using r la n8 n1 by (auto simp: acceptable_def rt_kMaximumAreas_def rt_kMaximumTotalVertices_def)
  then show "acceptable (areas_of s)" by (simp add: ar)
  have "s = canonical_snapshot areas"
  proof -
    have cs: "sn_area_vertex_counts s = flat_counts areas @ replicate (8 - n) 0"
      by (rule nth_equalityI) (use r len n8 la in \<open>auto simp: ns_def nth_append\<close>)
    have "sn_vertices s = take (unat t) (sn_vertices s) @ drop (unat t) (sn_vertices s)" by simp
    also have "drop (unat t) (sn_vertices s) = replicate (64 - unat t) zero_point"
      by (rule zero_points [OF z len(1)]) (use r in simp)
    finally have vs: "sn_vertices s = flat_vertices areas @ replicate (64 - total_effective areas) zero_point"
      using r by simp
    have "sn_area_count s = of_nat (length areas)" by (simp add: la n_def)
    moreover have "sn_total_vertex_count s = of_nat (total_effective areas)"
      using r by (simp flip: t) (metis of_nat_unat ucast_id)
    ultimately show ?thesis using cs vs la assms(3) by (simp add: canonical_snapshot_def)
  qed
  then show "s = canonical_snapshot (areas_of s)" by (simp add: ar)
qed

section \<open>The provider on a canonical snapshot\<close>

lemma provider_areas_layout:
  assumes "\<forall>i<length is. is ! i = j + i \<and> sn_area_vertex_counts s ! (j + i) = (flat_counts areas) ! i"
    and "length is = length areas" and "\<forall>a\<in>set areas. validateGeofencePolygon a = kOk"
    and "sn_vertices s = front @ flat_vertices areas @ back" and "unat off = length front"
    and "unat (sn_total_vertex_count s) = unat off + total_effective areas"
    and "unat off + total_effective areas \<le> 64"
  shows "provider_areas s is off = Some (map (Some \<circ> stored_area) areas, off + of_nat (total_effective areas))"
  using assms
proof (induction "is" arbitrary: j off areas front)
  case Nil
  then show ?case by simp
next
  case (Cons i "is")
  obtain a rest where areas: "areas = a # rest" using Cons.prems(2) by (cases areas) auto
  let ?m = "effectiveGeofenceVertexCount a"
  define c where "c = sn_area_vertex_counts s ! i"
  have i: "i = j" and c: "c = of_nat ?m"
    using Cons.prems(1) [rule_format, of 0] by (simp_all add: areas flat_counts_def c_def)
  have m: "3 \<le> ?m" using valid_effective(1) [of a] Cons.prems(3) by (simp add: areas)
  have u: "unat c = ?m" using Cons.prems(7) by (simp add: areas c unat_of_nat)
  have u': "unat (off + ucast c) = unat off + ?m"
    using Cons.prems(7) by (simp add: areas u unat_word_ariths unat_u8_u16)
  have sl: "slice (unat off) ?m (sn_vertices s) = stored_area a"
    using Cons.prems(4,5) by (simp add: areas flat_vertices_def slice_def)
  have tl: "\<forall>k<length is. is ! k = Suc j + k \<and> sn_area_vertex_counts s ! (Suc j + k) = flat_counts rest ! k"
  proof (intro allI impI)
    fix k assume "k < length is"
    then show "is ! k = Suc j + k \<and> sn_area_vertex_counts s ! (Suc j + k) = flat_counts rest ! k"
      using Cons.prems(1) [rule_format, of "Suc k"] by (simp add: areas flat_counts_def)
  qed
  have r: "provider_areas s is (off + ucast c) =
      Some (map (Some \<circ> stored_area) rest, off + ucast c + of_nat (total_effective rest))"
    by (rule Cons.IH [OF tl, of "front @ stored_area a"])
      (use Cons.prems u' in \<open>simp_all add: areas flat_vertices_def\<close>)
  have w: "(ucast c :: u16) = of_nat ?m"
    using Cons.prems(7) u by (simp add: areas word_unat_eq_iff unat_of_nat)
  have ui: "uint c = int ?m" by (simp flip: u)
  have "c \<ge> 3" using m u by (simp add: word_le_nat_alt)
  then show ?case
    using r sl ui Cons.prems(5,6) m by (simp add: c_def [symmetric] u areas w Let_def word_le_nat_alt not_less word_less_nat_alt)
qed

lemma provider_canonical:
  assumes "acceptable areas"
  shows "applyGeofenceSnapshotToRuntime (canonical_snapshot areas) c =
    (fst (gc_configure c (Some (map (Some \<circ> stored_area) areas))),
     if snd (gc_configure c (Some (map (Some \<circ> stored_area) areas))) = GeofenceRuntimeConfigResult.kApplied
     then GeofenceRuntimeApplyResult.kConfigured else kRejected)"
proof -
  let ?s = "canonical_snapshot areas"
  have a: "areas \<noteq> []" "length areas \<le> 8" "total_effective areas \<le> 64" "\<forall>a\<in>set areas. validateGeofencePolygon a = kOk"
    using assms by (simp_all add: acceptable_def rt_kMaximumAreas_def rt_kMaximumTotalVertices_def)
  have n: "unat (sn_area_count ?s) = length areas" using a by (simp add: canonical_snapshot_def unat_of_nat)
  have t: "unat (sn_total_vertex_count ?s) = total_effective areas" using a by (simp add: canonical_snapshot_def unat_of_nat)
  have "0 < total_effective areas" using a valid_effective(1) by (cases areas) (fastforce simp: total_effective_def)+
  then have nz: "sn_area_count ?s \<noteq> 0" "sn_total_vertex_count ?s \<noteq> 0" using n t a(1) by (auto simp: unat_eq_0 [symmetric])
  have p: "provider_areas ?s [0..<length areas] 0 = Some (map (Some \<circ> stored_area) areas, 0 + of_nat (total_effective areas))"
    by (rule provider_areas_layout [where front = "[]" and j = 0])
      (use a t in \<open>auto simp: canonical_snapshot_def nth_append flat_counts_def\<close>)
  have e: "of_nat (total_effective areas) = sn_total_vertex_count ?s" by (simp add: canonical_snapshot_def)
  have z: "\<not> list_ex (\<lambda>area. sn_area_vertex_counts ?s ! area \<noteq> 0) [length areas..<gf_kMaximumAreas]"
    using a by (auto simp: list_ex_iff canonical_snapshot_def nth_append gf_kMaximumAreas_def flat_counts_def)
  have st: "sn_state ?s = ResourceState.kConfigured" by (simp add: canonical_snapshot_def)
  obtain c' r where g: "gc_configure c (Some (map (Some \<circ> stored_area) areas)) = (c', r)" by fastforce
  have r: "applyGeofenceSnapshotToRuntime ?s c =
      (c', if r = GeofenceRuntimeConfigResult.kApplied then GeofenceRuntimeApplyResult.kConfigured else kRejected)"
    unfolding applyGeofenceSnapshotToRuntime_def n t st
    using nz a z p e g by (simp add: gf_layout)
  then show ?thesis by (simp add: g)
qed

lemma stored_acceptable:
  assumes "acceptable areas"
  shows "acceptable (map (Some \<circ> stored_area) areas)"
proof -
  have v: "\<forall>a\<in>set areas. validateGeofencePolygon a = kOk" using assms by (simp add: acceptable_def)
  have e: "effectiveGeofenceVertexCount (Some (stored_area a)) \<le> effectiveGeofenceVertexCount a" for a
    using effective_le [of "stored_area a"] by simp
  have "total_effective (map (Some \<circ> stored_area) areas) \<le> total_effective areas"
    unfolding total_effective_def by (simp add: comp_def e sum_list_mono)
  moreover have "validateGeofencePolygon (Some (stored_area a)) = kOk" if "a \<in> set areas" for a
    using v stored_area_same [of a] that by (simp add: same_area_def)
  ultimately show ?thesis using assms by (auto simp: acceptable_def)
qed

text \<open>What a configured runtime makes of a position.\<close>

definition judges :: "GeofenceRuntime \<Rightarrow> GeofencePolygonView list \<Rightarrow> bool" where
  "judges rt areas \<longleftrightarrow> rt_inv rt \<and> rt_configured rt \<and>
     (\<forall>p. assessPermittedGeofenceAreas (rt_area_set rt) p = assessPermittedGeofenceAreas (Some areas) p)"

lemma provider_judges:
  assumes "acceptable areas" "rt_inv (gc_runtime c)"
  shows "judges (gc_runtime (fst (applyGeofenceSnapshotToRuntime (canonical_snapshot areas) c))) areas"
    and "snd (applyGeofenceSnapshotToRuntime (canonical_snapshot areas) c) = GeofenceRuntimeApplyResult.kConfigured"
proof -
  let ?stored = "map (Some \<circ> stored_area) areas"
  note ok = stored_acceptable [OF assms(1)]
  note conf = configure_applied [OF assms(2) ok]
  have v: "\<forall>a\<in>set areas. validateGeofencePolygon a = kOk" "\<forall>a\<in>set ?stored. validateGeofencePolygon a = kOk"
    using assms(1) ok by (simp_all add: acceptable_def)
  obtain rt where rt: "rt_configure (gc_runtime c) (Some ?stored) = (rt, GeofenceRuntimeConfigResult.kApplied)"
    using conf(1) by (cases "rt_configure (gc_runtime c) (Some ?stored)") auto
  have run: "gc_runtime (fst (gc_configure c (Some ?stored))) = rt" "snd (gc_configure c (Some ?stored)) = GeofenceRuntimeConfigResult.kApplied"
    by (simp_all add: gc_configure_def rt clearEpisodeEvidence_def)
  have "assessPermittedGeofenceAreas (rt_area_set rt) p = assessPermittedGeofenceAreas (Some areas) p" for p
    using conf(2) assess_stored [OF v(2), of p] assess_stored [OF v(1), of p] by (simp add: rt)
  moreover have "rt_inv rt" using rt_configure_inv [OF assms(2), of "Some ?stored"] by (simp add: rt)
  ultimately show "judges (gc_runtime (fst (applyGeofenceSnapshotToRuntime (canonical_snapshot areas) c))) areas"
    "snd (applyGeofenceSnapshotToRuntime (canonical_snapshot areas) c) = GeofenceRuntimeApplyResult.kConfigured"
    using conf(3) rt run by (simp_all add: judges_def provider_canonical [OF assms(1)])
qed

lemma judges_observation:
  assumes "judges rt areas" "rt_observeAcceptedPosition rt p t = (rt', r)"
  shows "r = (if coordinateInRange p then GeofenceObservationResult.kAccepted else GeofenceObservationResult.kInvalidPoint) \<and>
    (if coordinateInRange p
     then rt_has_assessment rt' \<and> rt_assessment rt' = assessPermittedGeofenceAreas (Some areas) p \<and>
          rt_assessed_at_ms rt' = t
     else rt' = rt)"
proof -
  have j: "rt_inv rt" "rt_configured rt"
    "assessPermittedGeofenceAreas (rt_area_set rt) p = assessPermittedGeofenceAreas (Some areas) p"
    using assms(1) by (simp_all add: judges_def)
  show ?thesis using observe_configured [OF j(1,2), of p t] assms(2) j(2)
    by (auto simp: rt_observeAcceptedPosition_def Let_def j(3) split: if_splits)
qed

text \<open>
  The provider accepts every valid durable snapshot.  A CLEAR one leaves the runtime unconfigured;
  a configured one, read area by area out of its vertex array, configures the runtime, and every later
  position is then judged exactly as the areas of the snapshot judge it.
\<close>
theorem provider_accepts_valid_snapshot:
  assumes "snapshotValid s" and "snapshot_shape s" and "rt_inv (gc_runtime c)"
    and "applyGeofenceSnapshotToRuntime s c = (c', result)"
    and "rt_observeAcceptedPosition (gc_runtime c') p t = (rt, r)"
  shows "if sn_state s = ResourceState.kClear
     then result = kCleared \<and> r = GeofenceObservationResult.kNotConfigured \<and> rt = gc_runtime c'
     else result = GeofenceRuntimeApplyResult.kConfigured \<and>
       r = (if coordinateInRange p then GeofenceObservationResult.kAccepted else GeofenceObservationResult.kInvalidPoint) \<and>
       (coordinateInRange p \<longrightarrow> rt_assessment rt = assessPermittedGeofenceAreas (Some (areas_of s)) p)"
proof (cases "sn_state s")
  case kClear
  then have "c' = gc_clear c \<and> result = kCleared"
    using assms(1,4) by (auto simp: snapshotValid_def applyGeofenceSnapshotToRuntime_def gf_layout list_all_iff list_ex_iff)
  then show ?thesis using kClear assms(5)
    by (auto simp: gc_clear_def clearEpisodeEvidence_def rt_clear_def rt_observeAcceptedPosition_def)
next
  case kConfigured
  note c = valid_is_canonical [OF assms(1,2) kConfigured]
  note j = provider_judges [OF c(1) assms(3), folded c(2), unfolded assms(4) fst_conv snd_conv]
  show ?thesis using judges_observation [OF j(1) assms(5)] j(2) kConfigured by simp
qed

text \<open>
  C15: A change a client is told APPLIED reaches the judgement of positions.  When the owner announces an
  accepted replacement, the main loop's hand-over leaves a runtime that accepts every coordinate in
  range and judges it as the requested areas do, with no confirmation episode open and no earlier
  inside or outside state left, whatever was configured, confirmed or half confirmed before.
\<close>
theorem applied_change_is_judged:
  assumes "store_reachable s" and "mo_submit requester i channel kReplace (Some areas) o' s = (o1, s1, kAccepted)"
    and "mo_state o1 = kSaving" and "mo_state (fst (mo_passes n (o1, s1))) = kSaving"
    and "mo_pass (mo_passes n (o1, s1)) = (o2, s2, True)"
    and "c = applyGeofenceMutationToRuntime s2 (gc_run evs)"
    and "rt_observeAcceptedPosition (gc_runtime c) p t = (rt, r)"
  shows "r = (if coordinateInRange p then GeofenceObservationResult.kAccepted else GeofenceObservationResult.kInvalidPoint) \<and>
    (coordinateInRange p \<longrightarrow> rt_assessment rt = assessPermittedGeofenceAreas (Some areas) p) \<and>
    gc_evidence_count c = 0 \<and> \<not> gc_deadline_active c \<and>
    \<not> confirmation_active (gc_operational c) \<and> getConfirmedState (gc_operational c) = None"
proof -
  have snap: "currentSnapshot s2 = Some (canonical_snapshot areas)"
    using announced_change [OF assms(1-5)] by blast
  have adm: "accessBelongsToRequester requester channel" "mo_state o' = kIdle" "\<not> gs_busy s"
    using assms(2) submit_refused [of requester channel o' s i kReplace "Some areas"] by auto
  have req: "requestReplace s (Some areas) = (s1, True)" "gs_busy s1"
    using submit_admitted(5) [OF adm assms(2)] assms(3) by simp_all
  have ok: "acceptable areas"
    using accepted_request [OF reachable_inv [OF assms(1)] req adm(3)] by blast
  define g where "g = (if confirmation_active (gc_operational (gc_run evs)) then fst (gc_abortConfirmation (gc_run evs)) else gc_run evs)"
  have inv: "rt_inv (gc_runtime g)" using gc_run_inv abort_inv by (simp add: g_def gc_inv_def)
  have c: "c = fst (applyGeofenceSnapshotToRuntime (canonical_snapshot areas) g)"
    using assms(6) by (simp add: applyGeofenceMutationToRuntime_def g_def snap Let_def)
  note j = provider_judges [OF ok inv]
  have "gc_evidence_count c = 0 \<and> \<not> gc_deadline_active c \<and> gc_operational c = op_reset (gc_operational g)"
    using j(2) unfolding c provider_canonical [OF ok]
    by (auto simp: gc_configure_def clearEpisodeEvidence_def Let_def split: prod.splits if_splits)
  moreover have "\<not> confirmation_active (op_reset m) \<and> getConfirmedState (op_reset m) = None" for m
    by (simp add: op_reset_def clearConfirmation_def getConfirmedState_def)
  ultimately show ?thesis using judges_observation [OF j(1) [folded c] assms(7)] by simp
qed

theorem applied_change_is_judged_witness:
  "\<exists>o1 o2 s2 c rt. mo_submit kUsb 9 kUsbLocal kReplace (Some sample_areas) GeofenceMutationOwner_init sample_store =
      (o1, sample_requested, kAccepted) \<and>
    mo_pass (mo_passes 1 (o1, sample_requested)) = (o2, s2, True) \<and>
    c = applyGeofenceMutationToRuntime s2 (gc_run []) \<and>
    rt_observeAcceptedPosition (gc_runtime c) zero_point 7 = (rt, GeofenceObservationResult.kAccepted) \<and>
    rt_assessment rt = assessPermittedGeofenceAreas (Some sample_areas) zero_point"
proof -
  let ?i = "GeofenceMutationOwner_init"
  obtain o1 where sub: "mo_submit kUsb 9 kUsbLocal kReplace (Some sample_areas) ?i sample_store = (o1, sample_requested, kAccepted)"
    and st: "mo_state o1 = kSaving"
    using sample_state sample_begin sample_request
    by (simp add: mo_submit_def GeofenceMutationOwner_init_def mayChangeGeofence_def)
  from applied_in_two_passes [OF sample_reachable sample_request(1) sample_state(2) sample_request(2) sample_operational st]
  obtain o2 s2 where p: "mo_state (fst (mo_passes 1 (o1, sample_requested))) = kSaving"
    "mo_pass (mo_passes 1 (o1, sample_requested)) = (o2, s2, True)" by blast
  define c where "c = applyGeofenceMutationToRuntime s2 (gc_run [])"
  obtain rt r where o: "rt_observeAcceptedPosition (gc_runtime c) zero_point 7 = (rt, r)" by fastforce
  have z: "coordinateInRange zero_point" by code_simp
  have r: "r = GeofenceObservationResult.kAccepted" "rt_assessment rt = assessPermittedGeofenceAreas (Some sample_areas) zero_point"
    using applied_change_is_judged [OF sample_reachable sub st p c_def o] by (simp_all only: z if_True simp_thms)
  show ?thesis
    by (rule exI [of _ o1], rule exI [of _ o2], rule exI [of _ s2], rule exI [of _ c], rule exI [of _ rt])
      (intro conjI, rule sub, rule p(2), rule c_def, rule o [unfolded r(1)], rule r(2))
qed

theorem provider_accepts_valid_snapshot_witness:
  "snd (applyGeofenceSnapshotToRuntime (canonical_snapshot sample_areas) Coordinator_init) =
     GeofenceRuntimeApplyResult.kConfigured"
proof -
  obtain c' r where a: "applyGeofenceSnapshotToRuntime (canonical_snapshot sample_areas) Coordinator_init = (c', r)" by fastforce
  obtain rt q where o: "rt_observeAcceptedPosition (gc_runtime c') zero_point 0 = (rt, q)" by fastforce
  have "sn_state (canonical_snapshot sample_areas) = ResourceState.kConfigured" by (simp add: canonical_snapshot_def)
  moreover have "rt_inv (gc_runtime Coordinator_init)" using gc_inv_init by (simp add: gc_inv_def)
  ultimately show ?thesis
    using provider_accepts_valid_snapshot [OF canonical_valid [OF sample_acceptable] _ a o] a by simp
qed

end
