(* ===== verification/Config_Format.thy ===== *)
theory Config_Format
  imports Journal_Format
begin

text \<open>
  \<open>firmware/include/config_format.h\<close> and \<open>firmware/src/config_format.cpp\<close>: the durable
  configuration record in its four schemas (36-byte v1, 48-byte v2, 68-byte v4 and v8), and the
  classification of what the owned prefix of a configuration page holds.  Buffers are byte lists, a
  null pointer is \<open>None\<close>, the out-parameters of a decoder its result.
\<close>

section \<open>Layout\<close>

definition cf_kMagic :: u32 where "cf_kMagic = 0x4F524331"
definition cf_kVersion :: u8 where "cf_kVersion = 1"
definition cf_kCommit :: u32 where "cf_kCommit = 0"
definition cf_kPayloadSize :: u16 where "cf_kPayloadSize = 8"
definition cf_kRecordSize :: nat where "cf_kRecordSize = 36"
definition kV1CrcOffset :: nat where "kV1CrcOffset = 28"
definition kV1CommitOffset :: nat where "kV1CommitOffset = 32"
definition kV2Version :: u8 where "kV2Version = 2"
definition kV2PayloadSize :: u16 where "kV2PayloadSize = 20"
definition kV2RecordSize :: nat where "kV2RecordSize = 48"
definition kV2CrcOffset :: nat where "kV2CrcOffset = 40"
definition kV2CommitOffset :: nat where "kV2CommitOffset = 44"
definition kV2BodyAndCrcSize :: nat where "kV2BodyAndCrcSize = 44"
definition kV2RetireOffset :: nat where "kV2RetireOffset = 48"
definition kV2PagePrefixSize :: nat where "kV2PagePrefixSize = 52"
definition cf_kErasedWord :: u32 where "cf_kErasedWord = UINT32_MAX"
definition kV4Version :: u8 where "kV4Version = 4"
definition kV4PayloadSize :: u16 where "kV4PayloadSize = 40"
definition kV4RecordSize :: nat where "kV4RecordSize = 68"
definition kV4ReservedOffset :: nat where "kV4ReservedOffset = 44"
definition kV4ReservedSize :: nat where "kV4ReservedSize = 16"
definition kV4CrcOffset :: nat where "kV4CrcOffset = 60"
definition kV4CommitOffset :: nat where "kV4CommitOffset = 64"
definition kV4BodyAndCrcSize :: nat where "kV4BodyAndCrcSize = 64"
definition kV4RetireOffset :: nat where "kV4RetireOffset = 68"
definition kV4PagePrefixSize :: nat where "kV4PagePrefixSize = 72"
definition kV8Version :: u8 where "kV8Version = 8"
definition kV8BleWindowOffset :: nat where "kV8BleWindowOffset = 44"
definition kV8ReservedOffset :: nat where "kV8ReservedOffset = 46"
definition kV8ReservedSize :: nat where "kV8ReservedSize = 14"
definition kDefaultBleWindowSeconds :: u16 where "kDefaultBleWindowSeconds = 30"
definition kMaxBleWindowSeconds :: u16 where "kMaxBleWindowSeconds = 300"
definition kWriteVersion :: u8 where "kWriteVersion = kV8Version"
definition kWriteRecordSize :: nat where "kWriteRecordSize = kV4RecordSize"
definition kWriteBodyAndCrcSize :: nat where "kWriteBodyAndCrcSize = kV4BodyAndCrcSize"
definition kWriteCommitOffset :: nat where "kWriteCommitOffset = kV4CommitOffset"
definition kMaxPagePrefixSize :: nat where "kMaxPagePrefixSize = kV4PagePrefixSize"
definition kServiceModeAuto :: u8 where "kServiceModeAuto = 0"
definition kServiceModeExplicit :: u8 where "kServiceModeExplicit = 1"
definition kServiceTracking :: u8 where "kServiceTracking = 0x01"
definition kServiceRelayForwarding :: u8 where "kServiceRelayForwarding = 0x02"
definition kServiceApplicationReceive :: u8 where "kServiceApplicationReceive = 0x04"
definition kKnownServicesMask :: u8 where
  "kKnownServicesMask = (kServiceTracking OR kServiceRelayForwarding OR kServiceApplicationReceive)"

lemmas cf_layout = cf_kPayloadSize_def cf_kRecordSize_def kV1CrcOffset_def kV1CommitOffset_def kV2PayloadSize_def
  kV2RecordSize_def kV2CrcOffset_def kV2CommitOffset_def kV2BodyAndCrcSize_def kV2RetireOffset_def
  kV2PagePrefixSize_def kV4PayloadSize_def kV4RecordSize_def kV4ReservedOffset_def kV4ReservedSize_def
  kV4CrcOffset_def kV4CommitOffset_def kV4BodyAndCrcSize_def kV4RetireOffset_def kV4PagePrefixSize_def
  kV8BleWindowOffset_def kV8ReservedOffset_def kV8ReservedSize_def kWriteRecordSize_def
  kWriteBodyAndCrcSize_def kWriteCommitOffset_def kMaxPagePrefixSize_def

lemmas cf_versions = cf_kVersion_def kV2Version_def kV4Version_def kV8Version_def

record Config =
  tracking_interval_seconds :: u32
  battery_capacity_mah :: u32
  service_mode :: u8
  requested_services :: u8
  ble_window_seconds :: u16

definition Config_init :: Config where
  "Config_init = \<lparr>tracking_interval_seconds = 0, battery_capacity_mah = 0, service_mode = kServiceModeAuto,
     requested_services = 0, ble_window_seconds = kDefaultBleWindowSeconds\<rparr>"

record StateToken =
  tk_incarnation :: u64
  tk_revision :: u32

definition StateToken_init :: StateToken where
  "StateToken_init = \<lparr>tk_incarnation = 0, tk_revision = 0\<rparr>"

record TokenizedRecord =
  tr_generation :: u64
  tr_config :: Config
  tr_token :: StateToken

datatype PageEvidence =
  kErased | kLegacyV1Committed | kLegacyV1UncommittedOrTorn | kLegacyV1CommittedCorrupt
  | kV2Staged | kV2UncommittedOrTorn | kV2PartialCommit | kV2Committed | kV2CommittedRetired
  | kV2CommittedCorrupt | kSupportedCorrupt | kUnsupportedNewer
  | kV4Staged | kV4UncommittedOrTorn | kV4PartialCommit | kV4Committed | kV4CommittedRetired
  | kV4CommittedCorrupt

record PageInspection =
  pi_evidence :: PageEvidence
  has_decoded_record :: bool
  pi_generation :: u64
  pi_config :: Config
  pi_token :: StateToken

definition PageInspection_init :: PageInspection where
  "PageInspection_init = \<lparr>pi_evidence = kSupportedCorrupt, has_decoded_record = False, pi_generation = 0,
     pi_config = Config_init, pi_token = StateToken_init\<rparr>"

section \<open>Views of the evidence\<close>

definition evidenceIsCommitted :: "PageEvidence \<Rightarrow> bool" where
  "evidenceIsCommitted e \<longleftrightarrow> e = kV2Committed \<or> e = kV4Committed"

definition evidenceIsStaged :: "PageEvidence \<Rightarrow> bool" where
  "evidenceIsStaged e \<longleftrightarrow> e = kV2Staged \<or> e = kV4Staged"

definition evidenceIsUncommittedOrTorn :: "PageEvidence \<Rightarrow> bool" where
  "evidenceIsUncommittedOrTorn e \<longleftrightarrow> e = kV2UncommittedOrTorn \<or> e = kV4UncommittedOrTorn"

definition evidenceIsPartialCommit :: "PageEvidence \<Rightarrow> bool" where
  "evidenceIsPartialCommit e \<longleftrightarrow> e = kV2PartialCommit \<or> e = kV4PartialCommit"

definition evidenceIsCommittedRetired :: "PageEvidence \<Rightarrow> bool" where
  "evidenceIsCommittedRetired e \<longleftrightarrow> e = kV2CommittedRetired \<or> e = kV4CommittedRetired"

fun ownedPrefixSize :: "PageEvidence \<Rightarrow> nat" where
  "ownedPrefixSize kV4Staged = kV4PagePrefixSize"
| "ownedPrefixSize kV4UncommittedOrTorn = kV4PagePrefixSize"
| "ownedPrefixSize kV4PartialCommit = kV4PagePrefixSize"
| "ownedPrefixSize kV4Committed = kV4PagePrefixSize"
| "ownedPrefixSize kV4CommittedRetired = kV4PagePrefixSize"
| "ownedPrefixSize kV4CommittedCorrupt = kV4PagePrefixSize"
| "ownedPrefixSize _ = kV2PagePrefixSize"

section \<open>Codecs\<close>

definition sealV1 :: "bytes \<Rightarrow> bytes" where "sealV1 b = seal b kV1CrcOffset kV1CommitOffset"
definition sealedV1 :: "bytes \<Rightarrow> bool" where "sealedV1 b \<longleftrightarrow> sealed b kV1CrcOffset kV1CommitOffset"

definition cf_encode :: "Config \<Rightarrow> u64 \<Rightarrow> bytes \<Rightarrow> bytes" where
  "cf_encode c generation b =
     (let b = memset b 0 0 cf_kRecordSize; b = put32 b 0 cf_kMagic; b = b[4 := cf_kVersion];
          b = put64 b 8 generation; b = put16 b 16 cf_kPayloadSize;
          b = put32 b 20 (tracking_interval_seconds c); b = put32 b 24 (battery_capacity_mah c)
      in sealV1 b)"

text \<open>The v1 decoder writes the generation and two fields of the configuration it is given.\<close>

definition cf_decode :: "bytes \<Rightarrow> Config \<Rightarrow> (u64 \<times> Config) option" where
  "cf_decode b c =
     (if get32 b 0 \<noteq> cf_kMagic then None
      else if b ! 4 \<noteq> cf_kVersion \<or> b ! 5 \<noteq> 0 \<or> b ! 6 \<noteq> 0 \<or> b ! 7 \<noteq> 0 then None
      else if get64 b 8 = 0 then None
      else if get16 b 16 \<noteq> cf_kPayloadSize \<or> get16 b 18 \<noteq> 0 then None
      else if \<not> sealedV1 b then None
      else Some (get64 b 8, c\<lparr>tracking_interval_seconds := get32 b 20, battery_capacity_mah := get32 b 24\<rparr>))"

definition validV2Body :: "bytes \<Rightarrow> TokenizedRecord option" where
  "validV2Body b =
     (if get32 b 0 \<noteq> cf_kMagic then None
      else if b ! 4 \<noteq> kV2Version \<or> b ! 5 \<noteq> 0 \<or> b ! 6 \<noteq> 0 \<or> b ! 7 \<noteq> 0 then None
      else if get64 b 8 = 0 then None
      else if get16 b 16 \<noteq> kV2PayloadSize \<or> get16 b 18 \<noteq> 0 then None
      else if get32 b kV2CrcOffset \<noteq> journal_crc32 (take kV2CrcOffset b) then None
      else if get64 b 28 = 0 \<or> get32 b 36 = 0 then None
      else Some \<lparr>tr_generation = get64 b 8,
             tr_config = Config_init\<lparr>tracking_interval_seconds := get32 b 20, battery_capacity_mah := get32 b 24\<rparr>,
             tr_token = \<lparr>tk_incarnation = get64 b 28, tk_revision = get32 b 36\<rparr>\<rparr>)"

definition validV4Body :: "bytes \<Rightarrow> TokenizedRecord option" where
  "validV4Body b =
     (if get32 b 0 \<noteq> cf_kMagic then None
      else
        let v8 = (b ! 4 = kV8Version) in
        if (b ! 4 \<noteq> kV4Version \<and> \<not> v8) \<or> b ! 5 \<noteq> 0 \<or> b ! 6 \<noteq> 0 \<or> b ! 7 \<noteq> 0 then None
        else if get64 b 8 = 0 then None
        else if get16 b 16 \<noteq> kV4PayloadSize \<or> get16 b 18 \<noteq> 0 then None
        else if b ! 30 \<noteq> 0 \<or> b ! 31 \<noteq> 0 then None
        else
          let reserved = (if v8 then kV8ReservedOffset else kV4ReservedOffset);
              reserved_size = (if v8 then kV8ReservedSize else kV4ReservedSize) in
          if list_ex (\<lambda>i. b ! (reserved + i) \<noteq> 0) [0..<reserved_size] then None
          else if get32 b kV4CrcOffset \<noteq> journal_crc32 (take kV4CrcOffset b) then None
          else if get64 b 32 = 0 \<or> get32 b 40 = 0 then None
          else Some \<lparr>tr_generation = get64 b 8,
                 tr_config = \<lparr>tracking_interval_seconds = get32 b 20, battery_capacity_mah = get32 b 24,
                   service_mode = b ! 28, requested_services = b ! 29,
                   ble_window_seconds = (if v8 then get16 b kV8BleWindowOffset else kDefaultBleWindowSeconds)\<rparr>,
                 tr_token = \<lparr>tk_incarnation = get64 b 32, tk_revision = get32 b 40\<rparr>\<rparr>)"

definition encodeV2 :: "TokenizedRecord \<Rightarrow> bytes \<Rightarrow> bytes" where
  "encodeV2 r b =
     (let b = memset b 0 0 kV2RecordSize; b = put32 b 0 cf_kMagic; b = b[4 := kV2Version];
          b = put64 b 8 (tr_generation r); b = put16 b 16 kV2PayloadSize;
          b = put32 b 20 (tracking_interval_seconds (tr_config r));
          b = put32 b 24 (battery_capacity_mah (tr_config r));
          b = put64 b 28 (tk_incarnation (tr_token r)); b = put32 b 36 (tk_revision (tr_token r));
          b = put32 b kV2CrcOffset (journal_crc32 (take kV2CrcOffset b))
      in put32 b kV2CommitOffset cf_kCommit)"

definition decodeV2Body :: "bytes option \<Rightarrow> TokenizedRecord option" where
  "decodeV2Body bytes = (case bytes of None \<Rightarrow> None | Some b \<Rightarrow> validV2Body b)"

definition decodeV2 :: "bytes option \<Rightarrow> TokenizedRecord option" where
  "decodeV2 bytes =
     (case bytes of None \<Rightarrow> None
      | Some b \<Rightarrow> if get32 b kV2CommitOffset \<noteq> cf_kCommit then None else decodeV2Body bytes)"

definition encodeV4 :: "TokenizedRecord \<Rightarrow> bytes \<Rightarrow> bytes" where
  "encodeV4 r b =
     (let b = memset b 0 0 kV4RecordSize; b = put32 b 0 cf_kMagic; b = b[4 := kV4Version];
          b = put64 b 8 (tr_generation r); b = put16 b 16 kV4PayloadSize;
          b = put32 b 20 (tracking_interval_seconds (tr_config r));
          b = put32 b 24 (battery_capacity_mah (tr_config r));
          b = b[28 := service_mode (tr_config r)]; b = b[29 := requested_services (tr_config r)];
          b = put64 b 32 (tk_incarnation (tr_token r)); b = put32 b 40 (tk_revision (tr_token r));
          b = put32 b kV4CrcOffset (journal_crc32 (take kV4CrcOffset b))
      in put32 b kV4CommitOffset cf_kCommit)"

definition encodeV8 :: "TokenizedRecord \<Rightarrow> bytes \<Rightarrow> bytes" where
  "encodeV8 r b =
     (let b = encodeV4 r b; b = b[4 := kV8Version];
          b = put16 b kV8BleWindowOffset (ble_window_seconds (tr_config r));
          b = put32 b kV4CrcOffset (journal_crc32 (take kV4CrcOffset b))
      in put32 b kV4CommitOffset cf_kCommit)"

definition decodeV4Body :: "bytes option \<Rightarrow> TokenizedRecord option" where
  "decodeV4Body bytes = (case bytes of None \<Rightarrow> None | Some b \<Rightarrow> validV4Body b)"

definition decodeV4 :: "bytes option \<Rightarrow> TokenizedRecord option" where
  "decodeV4 bytes =
     (case bytes of None \<Rightarrow> None
      | Some b \<Rightarrow> if get32 b kV4CommitOffset \<noteq> cf_kCommit then None else decodeV4Body bytes)"

section \<open>The page classifier\<close>

definition cf_wordErased :: "bytes \<Rightarrow> nat \<Rightarrow> bool" where
  "cf_wordErased b off \<longleftrightarrow> b ! off = 0xFF \<and> b ! (off + 1) = 0xFF \<and> b ! (off + 2) = 0xFF \<and> b ! (off + 3) = 0xFF"

text \<open>The word loop, with its two flags.\<close>

fun cf_prefix_scan :: "bytes \<Rightarrow> nat list \<Rightarrow> bool \<Rightarrow> bool \<Rightarrow> bool" where
  "cf_prefix_scan b [] saw_programmed saw_erased_tail = (saw_programmed \<and> saw_erased_tail)"
| "cf_prefix_scan b (off # rest) saw_programmed saw_erased_tail =
     (if cf_wordErased b off then cf_prefix_scan b rest saw_programmed (saw_programmed \<or> saw_erased_tail)
      else if saw_erased_tail then False
      else cf_prefix_scan b rest True saw_erased_tail)"

definition cf_programmedPrefixWithErasedTail :: "bytes \<Rightarrow> nat \<Rightarrow> bool" where
  "cf_programmedPrefixWithErasedTail b n =
     (if n mod 4 \<noteq> 0 then False else cf_prefix_scan b (map ((*) 4) [0..<n div 4]) False False)"

definition cf_unsupportedNewerDiscriminator :: "bytes \<Rightarrow> bool" where
  "cf_unsupportedNewerDiscriminator b =
     (if get32 b 0 \<noteq> cf_kMagic then False
      else let version = b ! 4 in
        if version = cf_kVersion \<or> version = kV2Version \<or> version = kV4Version \<or> version = kV8Version \<or>
           version = 0xFF then False
        else b ! 5 = 0 \<and> b ! 6 = 0 \<and> b ! 7 = 0 \<and> version AND 0x03 = 0)"

definition setV1Inspection :: "bytes \<Rightarrow> PageInspection \<Rightarrow> PageInspection" where
  "setV1Inspection b i =
     (case cf_decode b Config_init of
        Some (generation, config) \<Rightarrow> i\<lparr>pi_evidence := kLegacyV1Committed, has_decoded_record := True,
          pi_generation := generation, pi_config := config\<rparr>
      | None \<Rightarrow> i\<lparr>pi_evidence := kLegacyV1CommittedCorrupt\<rparr>)"

definition setV2DecodedInspection :: "TokenizedRecord \<Rightarrow> PageInspection \<Rightarrow> PageInspection" where
  "setV2DecodedInspection r i = i\<lparr>has_decoded_record := True, pi_generation := tr_generation r,
     pi_config := tr_config r, pi_token := tr_token r\<rparr>"

definition inspectPagePrefix :: "bytes option \<Rightarrow> PageInspection option" where
  "inspectPagePrefix bytes =
     (case bytes of None \<Rightarrow> None
      | Some b \<Rightarrow>
        if length b < kV2PagePrefixSize then None
        else
          let i = PageInspection_init;
              owned = (if length b < kMaxPagePrefixSize then length b else kMaxPagePrefixSize) in
          if erased b 0 owned then Some (i\<lparr>pi_evidence := kErased\<rparr>)
          else
            let magic_matches = (get32 b 0 = cf_kMagic); version = b ! 4 in
            if magic_matches \<and> version = cf_kVersion then
              let commit = get32 b kV1CommitOffset in
              if commit = cf_kErasedWord then Some (i\<lparr>pi_evidence := kLegacyV1UncommittedOrTorn\<rparr>)
              else if commit = cf_kCommit then Some (setV1Inspection b i)
              else Some (i\<lparr>pi_evidence := kSupportedCorrupt\<rparr>)
            else if magic_matches \<and> version = kV2Version then
              let body = validV2Body b; commit = get32 b kV2CommitOffset in
              if commit = cf_kErasedWord then
                (case body of None \<Rightarrow> Some (i\<lparr>pi_evidence := kV2UncommittedOrTorn\<rparr>)
                 | Some r \<Rightarrow> Some (setV2DecodedInspection r (i\<lparr>pi_evidence := kV2Staged\<rparr>)))
              else if commit = cf_kCommit then
                (case body of None \<Rightarrow> Some (i\<lparr>pi_evidence := kV2CommittedCorrupt\<rparr>)
                 | Some r \<Rightarrow> Some ((setV2DecodedInspection r i)
                     \<lparr>pi_evidence := (if get32 b kV2RetireOffset = cf_kErasedWord then kV2Committed
                                      else kV2CommittedRetired)\<rparr>))
              else (case body of
                  Some r \<Rightarrow> Some ((setV2DecodedInspection r i)\<lparr>pi_evidence := kV2PartialCommit\<rparr>)
                | None \<Rightarrow> Some (i\<lparr>pi_evidence := kSupportedCorrupt\<rparr>))
            else if magic_matches \<and> (version = kV4Version \<or> version = kV8Version) then
              if length b < kV4PagePrefixSize then Some (i\<lparr>pi_evidence := kSupportedCorrupt\<rparr>)
              else
                let body = validV4Body b; commit = get32 b kV4CommitOffset in
                if commit = cf_kErasedWord then
                  (case body of None \<Rightarrow> Some (i\<lparr>pi_evidence := kV4UncommittedOrTorn\<rparr>)
                   | Some r \<Rightarrow> Some (setV2DecodedInspection r (i\<lparr>pi_evidence := kV4Staged\<rparr>)))
                else if commit = cf_kCommit then
                  (case body of None \<Rightarrow> Some (i\<lparr>pi_evidence := kV4CommittedCorrupt\<rparr>)
                   | Some r \<Rightarrow> Some ((setV2DecodedInspection r i)
                       \<lparr>pi_evidence := (if get32 b kV4RetireOffset = cf_kErasedWord then kV4Committed
                                        else kV4CommittedRetired)\<rparr>))
                else (case body of
                    Some r \<Rightarrow> Some ((setV2DecodedInspection r i)\<lparr>pi_evidence := kV4PartialCommit\<rparr>)
                  | None \<Rightarrow> Some (i\<lparr>pi_evidence := kSupportedCorrupt\<rparr>))
            else if cf_programmedPrefixWithErasedTail b kV2PagePrefixSize
            then Some (i\<lparr>pi_evidence := kSupportedCorrupt\<rparr>)
            else if cf_unsupportedNewerDiscriminator b then Some (i\<lparr>pi_evidence := kUnsupportedNewer\<rparr>)
            else Some (i\<lparr>pi_evidence := kSupportedCorrupt\<rparr>))"

section \<open>The image of a 68-byte record\<close>

text \<open>Body, record and the version and window field of the two schemas that share the layout.\<close>

definition v4_body :: "u8 \<Rightarrow> u16 \<Rightarrow> TokenizedRecord \<Rightarrow> bytes" where
  "v4_body version window r =
     be_bytes 4 cf_kMagic @ [version, 0, 0, 0] @ be_bytes 8 (tr_generation r) @ be_bytes 2 kV4PayloadSize @ [0, 0] @
     be_bytes 4 (tracking_interval_seconds (tr_config r)) @ be_bytes 4 (battery_capacity_mah (tr_config r)) @
     [service_mode (tr_config r), requested_services (tr_config r), 0, 0] @
     be_bytes 8 (tk_incarnation (tr_token r)) @ be_bytes 4 (tk_revision (tr_token r)) @
     be_bytes 2 window @ replicate 14 0"

definition v4_image :: "u8 \<Rightarrow> u16 \<Rightarrow> TokenizedRecord \<Rightarrow> bytes" where
  "v4_image version window r =
     v4_body version window r @ be_bytes 4 (journal_crc32 (v4_body version window r)) @ be_bytes 4 cf_kCommit"

definition v8_image :: "TokenizedRecord \<Rightarrow> bytes" where
  "v8_image r = v4_image kV8Version (ble_window_seconds (tr_config r)) r"

lemma length_v4_body [simp]: "length (v4_body version window r) = 60"
  by (simp add: v4_body_def)

lemma length_v4_image [simp]: "length (v4_image version window r) = 68"
  by (simp add: v4_image_def)

lemma length_v8_image [simp]: "length (v8_image r) = 68"
  by (simp add: v8_image_def)

text \<open>A buffer is determined by its consecutive segments.\<close>

lemma segments_68:
  "slice 0 60 b = slice 0 4 b @ slice 4 4 b @ slice 8 8 b @ slice 16 2 b @ slice 18 2 b @ slice 20 4 b @
     slice 24 4 b @ slice 28 4 b @ slice 32 8 b @ slice 40 4 b @ slice 44 2 b @ slice 46 14 b"
  "slice 0 68 b = slice 0 60 b @ slice 60 4 b @ slice 64 4 b"
  "slice 0 68 b = slice 0 64 b @ slice 64 4 b"
  "slice 0 64 b = slice 0 60 b @ slice 60 4 b"
  by (simp_all add: slice_join')

lemma slice_memset:
  "k \<le> off \<Longrightarrow> off + n \<le> k + m \<Longrightarrow> k + m \<le> length b \<Longrightarrow> slice off n (memset b k v m) = replicate n v"
  by (rule nth_equalityI) (simp_all add: memset_def nth_write_at)

lemma zero_pair: "replicate 2 0 = [0, 0 :: u8]" "be_bytes 2 (0 :: u16) = [0, 0]"
  by (simp add: numeral_2_eq_2) (simp add: be_bytes_2)

lemma encodeV4_image:
  assumes "68 \<le> length b"
  shows "encodeV4 r b = v4_image kV4Version 0 r @ drop 68 b"
proof -
  define m where "m = (let b = memset b 0 0 kV4RecordSize; b = put32 b 0 cf_kMagic; b = b[4 := kV4Version];
          b = put64 b 8 (tr_generation r); b = put16 b 16 kV4PayloadSize;
          b = put32 b 20 (tracking_interval_seconds (tr_config r));
          b = put32 b 24 (battery_capacity_mah (tr_config r));
          b = b[28 := service_mode (tr_config r)]; b = b[29 := requested_services (tr_config r)];
          b = put64 b 32 (tk_incarnation (tr_token r)) in put32 b 40 (tk_revision (tr_token r)))"
  have len: "length m = length b" using assms by (simp add: m_def Let_def be_simps cf_layout)
  have seg: "slice 0 4 m = be_bytes 4 cf_kMagic" "slice 8 8 m = be_bytes 8 (tr_generation r)"
    "slice 16 2 m = be_bytes 2 kV4PayloadSize" "slice 20 4 m = be_bytes 4 (tracking_interval_seconds (tr_config r))"
    "slice 24 4 m = be_bytes 4 (battery_capacity_mah (tr_config r))"
    "slice 32 8 m = be_bytes 8 (tk_incarnation (tr_token r))" "slice 40 4 m = be_bytes 4 (tk_revision (tr_token r))"
    "slice 46 14 m = replicate 14 0" "slice 18 2 m = [0, 0]" "slice 44 2 m = be_bytes 2 (0 :: u16)"
    using assms by (simp_all add: m_def Let_def be_simps buffer_simps cf_layout slice_memset zero_pair)
  have small: "slice 4 4 m = [kV4Version, 0, 0, 0]"
    "slice 28 4 m = [service_mode (tr_config r), requested_services (tr_config r), 0, 0]"
    using assms len by (simp_all add: slice_4) (simp_all add: m_def Let_def be_simps buffer_simps cf_layout)
  have body: "slice 0 60 m = v4_body kV4Version 0 r"
    unfolding segments_68(1) seg small v4_body_def by simp
  have e: "encodeV4 r b = put32 (put32 m 60 (journal_crc32 (take 60 m))) 64 cf_kCommit"
    unfolding encodeV4_def m_def Let_def kV4CrcOffset_def kV4CommitOffset_def ..
  have front: "slice 0 68 (encodeV4 r b) = v4_image kV4Version 0 r"
    unfolding segments_68(2) e using assms len body
    by (simp add: be_simps buffer_simps v4_image_def take_slice)
  have "drop 68 (encodeV4 r b) = drop 68 b"
    unfolding e using assms
    by (intro nth_equalityI) (simp_all add: len be_simps nth_write_at m_def Let_def cf_layout memset_def)
  then show ?thesis using front by (metis append_take_drop_id take_slice)
qed

lemma encodeV8_image:
  assumes "68 \<le> length b"
  shows "encodeV8 r b = v8_image r @ drop 68 b"
proof -
  let ?w = "ble_window_seconds (tr_config r)"
  define e where "e = encodeV4 r b"
  define m where "m = put16 (e[4 := kV8Version]) 44 ?w"
  have e: "e = v4_body kV4Version 0 r @ be_bytes 4 (journal_crc32 (v4_body kV4Version 0 r)) @ be_bytes 4 cf_kCommit @ drop 68 b"
    using encodeV4_image [OF assms] by (simp add: e_def v4_image_def)
  have len: "length e = length b" "length m = length b" using assms by (simp_all add: e m_def be_simps)
  have b0: "(v4_body kV4Version 0 r)[4 := kV8Version] =
      take 44 (v4_body kV8Version ?w r) @ [0, 0] @ replicate 14 0"
    by (simp add: v4_body_def list_update_append zero_pair)
  have m: "m = v4_body kV8Version ?w r @ drop 60 e"
  proof -
    have "e[4 := kV8Version] = take 44 (v4_body kV8Version ?w r) @ [0, 0] @ replicate 14 0 @ drop 60 e"
      using b0 by (simp add: e list_update_append)
    then have "m = write_at 44 (be_bytes 2 ?w) (take 44 (v4_body kV8Version ?w r) @ [0, 0] @ replicate 14 0 @ drop 60 e)"
      using assms len by (simp add: m_def be_simps)
    also have "\<dots> = take 44 (v4_body kV8Version ?w r) @ be_bytes 2 ?w @ replicate 14 0 @ drop 60 e"
      by (simp add: write_at_def)
    also have "\<dots> = v4_body kV8Version ?w r @ drop 60 e" by (simp add: v4_body_def)
    finally show ?thesis .
  qed
  have "encodeV8 r b = put32 (put32 m 60 (journal_crc32 (take 60 m))) 64 cf_kCommit"
    unfolding encodeV8_def m_def e_def Let_def cf_layout ..
  also have "\<dots> = v8_image r @ drop 68 b"
    using assms by (simp add: be_simps m e v8_image_def v4_image_def write_at_def)
  finally show ?thesis .
qed

section \<open>Decoding is the exact inverse\<close>

definition tokenized :: "TokenizedRecord \<Rightarrow> bool" where
  "tokenized r \<longleftrightarrow> tr_generation r \<noteq> 0 \<and> tk_incarnation (tr_token r) \<noteq> 0 \<and> tk_revision (tr_token r) \<noteq> 0"

lemma v4_body_fields:
  assumes "68 \<le> length b"
  shows "slice 0 60 b = v4_body version window r \<longleftrightarrow>
    get32 b 0 = cf_kMagic \<and> b ! 4 = version \<and> b ! 5 = 0 \<and> b ! 6 = 0 \<and> b ! 7 = 0 \<and>
    get64 b 8 = tr_generation r \<and> get16 b 16 = kV4PayloadSize \<and> get16 b 18 = 0 \<and>
    get32 b 20 = tracking_interval_seconds (tr_config r) \<and> get32 b 24 = battery_capacity_mah (tr_config r) \<and>
    b ! 28 = service_mode (tr_config r) \<and> b ! 29 = requested_services (tr_config r) \<and> b ! 30 = 0 \<and> b ! 31 = 0 \<and>
    get64 b 32 = tk_incarnation (tr_token r) \<and> get32 b 40 = tk_revision (tr_token r) \<and>
    get16 b 44 = window \<and> (\<forall>i<14. b ! (46 + i) = 0)"
proof -
  have e: "slice 0 4 b = be_bytes 4 cf_kMagic \<longleftrightarrow> get32 b 0 = cf_kMagic"
    "slice 8 8 b = be_bytes 8 (tr_generation r) \<longleftrightarrow> get64 b 8 = tr_generation r"
    "slice 16 2 b = be_bytes 2 kV4PayloadSize \<longleftrightarrow> get16 b 16 = kV4PayloadSize"
    "slice 18 2 b = [0, 0] \<longleftrightarrow> get16 b 18 = 0"
    "slice 20 4 b = be_bytes 4 (tracking_interval_seconds (tr_config r)) \<longleftrightarrow> get32 b 20 = tracking_interval_seconds (tr_config r)"
    "slice 24 4 b = be_bytes 4 (battery_capacity_mah (tr_config r)) \<longleftrightarrow> get32 b 24 = battery_capacity_mah (tr_config r)"
    "slice 32 8 b = be_bytes 8 (tk_incarnation (tr_token r)) \<longleftrightarrow> get64 b 32 = tk_incarnation (tr_token r)"
    "slice 40 4 b = be_bytes 4 (tk_revision (tr_token r)) \<longleftrightarrow> get32 b 40 = tk_revision (tr_token r)"
    "slice 44 2 b = be_bytes 2 window \<longleftrightarrow> get16 b 44 = window"
    using assms unfolding zero_pair(2) [symmetric]
    by (simp_all add: be_eq_iff get16_eq get32_eq get64_eq del: be_bytes_be_val)
  have s: "slice 4 4 b = [b ! 4, b ! 5, b ! 6, b ! 7]" "slice 28 4 b = [b ! 28, b ! 29, b ! 30, b ! 31]"
    using assms by (simp_all add: slice_4)
  have z: "slice 46 14 b = replicate 14 0 \<longleftrightarrow> (\<forall>i<14. b ! (46 + i) = 0)"
    using assms by (auto simp: list_eq_iff_nth_eq)
  have "slice 0 60 b = v4_body version window r \<longleftrightarrow>
    slice 0 4 b = be_bytes 4 cf_kMagic \<and> slice 4 4 b = [version, 0, 0, 0] \<and> slice 8 8 b = be_bytes 8 (tr_generation r) \<and>
    slice 16 2 b = be_bytes 2 kV4PayloadSize \<and> slice 18 2 b = [0, 0] \<and>
    slice 20 4 b = be_bytes 4 (tracking_interval_seconds (tr_config r)) \<and>
    slice 24 4 b = be_bytes 4 (battery_capacity_mah (tr_config r)) \<and>
    slice 28 4 b = [service_mode (tr_config r), requested_services (tr_config r), 0, 0] \<and>
    slice 32 8 b = be_bytes 8 (tk_incarnation (tr_token r)) \<and> slice 40 4 b = be_bytes 4 (tk_revision (tr_token r)) \<and>
    slice 44 2 b = be_bytes 2 window \<and> slice 46 14 b = replicate 14 0"
    unfolding segments_68(1) v4_body_def using assms
    by (simp add: append_eq_append_conv del: append_Cons replicate_Suc)
  then show ?thesis unfolding e s z by auto
qed

text \<open>What the two schemas make of the window field.\<close>

definition stored_window :: "u8 \<Rightarrow> u16 \<Rightarrow> TokenizedRecord \<Rightarrow> bool" where
  "stored_window version window r \<longleftrightarrow>
     (version = kV8Version \<and> window = ble_window_seconds (tr_config r)) \<or>
     (version = kV4Version \<and> window = 0 \<and> ble_window_seconds (tr_config r) = kDefaultBleWindowSeconds)"

lemma reserved_split: "(\<forall>i<16. P (44 + i)) \<longleftrightarrow> P (44 :: nat) \<and> P 45 \<and> (\<forall>i<14. P (46 + i))"
proof
  assume a: "\<forall>i<16. P (44 + i)"
  have "P (46 + i)" if "i < 14" for i using a [rule_format, of "2 + i"] that by simp
  then show "P 44 \<and> P 45 \<and> (\<forall>i<14. P (46 + i))" using a [rule_format, of 0] a [rule_format, of 1] by simp
next
  assume a: "P 44 \<and> P 45 \<and> (\<forall>i<14. P (46 + i))"
  show "\<forall>i<16. P (44 + i)"
  proof (intro allI impI)
    fix i :: nat assume "i < 16"
    then consider "i = 0" | "i = 1" | "i - 2 < 14" "44 + i = 46 + (i - 2)" by linarith
    then show "P (44 + i)" using a by cases (simp, simp, metis)
  qed
qed

lemma get16_zero: "off + 2 \<le> length b \<Longrightarrow> get16 b off = 0 \<longleftrightarrow> b ! off = 0 \<and> b ! (off + 1) = 0"
proof -
  assume l: "off + 2 \<le> length b"
  have "get16 b off = 0 \<longleftrightarrow> slice off 2 b = be_bytes 2 (0 :: u16)"
    using l by (simp add: be_eq_iff get16_eq)
  then show ?thesis using l by (simp add: zero_pair(2) slice_2)
qed

lemma validV4Body_iff:
  assumes "68 \<le> length b"
  shows "validV4Body b = Some r \<longleftrightarrow> tokenized r \<and>
    (\<exists>version window. stored_window version window r \<and>
       slice 0 64 b = v4_body version window r @ be_bytes 4 (journal_crc32 (v4_body version window r)))"
proof -
  have split: "slice 0 64 b = v4_body version window r @ be_bytes 4 (journal_crc32 (v4_body version window r)) \<longleftrightarrow>
      slice 0 60 b = v4_body version window r \<and> get32 b 60 = journal_crc32 (take 60 b)" for version window
  proof -
    have "slice 0 64 b = v4_body version window r @ be_bytes 4 (journal_crc32 (v4_body version window r)) \<longleftrightarrow>
        slice 0 60 b = v4_body version window r \<and> slice 60 4 b = be_bytes 4 (journal_crc32 (v4_body version window r))"
      unfolding segments_68(4) using assms by (intro append_eq_append_conv) simp
    then show ?thesis using assms by (auto simp: take_slice get32_eq be_eq_iff)
  qed
  have r4: "list_ex (\<lambda>i. b ! (44 + i) \<noteq> 0) [0..<16] \<longleftrightarrow> \<not> (get16 b 44 = 0 \<and> (\<forall>i<14. b ! (46 + i) = 0))"
    using reserved_split [of "\<lambda>i. b ! i = 0"] get16_zero [of 44 b] assms by (auto simp: list_ex_iff)
  have r8: "list_ex (\<lambda>i. b ! (46 + i) \<noteq> 0) [0..<14] \<longleftrightarrow> \<not> (\<forall>i<14. b ! (46 + i) = 0)"
    by (auto simp: list_ex_iff)
  show ?thesis (is "?l \<longleftrightarrow> ?r")
  proof
    assume ?l
    then have v: "b ! 4 = kV8Version \<or> b ! 4 = kV4Version" and t: "tokenized r"
      and f: "get32 b 60 = journal_crc32 (take 60 b)"
      and z: "\<forall>i<14. b ! (46 + i) = 0" "b ! 4 \<noteq> kV8Version \<Longrightarrow> get16 b 44 = 0"
      and g: "get32 b 0 = cf_kMagic" "b ! 5 = 0" "b ! 6 = 0" "b ! 7 = 0" "get16 b 16 = kV4PayloadSize" "get16 b 18 = 0"
        "b ! 30 = 0" "b ! 31 = 0"
      and r: "r = \<lparr>tr_generation = get64 b 8,
                 tr_config = \<lparr>tracking_interval_seconds = get32 b 20, battery_capacity_mah = get32 b 24,
                   service_mode = b ! 28, requested_services = b ! 29,
                   ble_window_seconds = (if b ! 4 = kV8Version then get16 b 44 else kDefaultBleWindowSeconds)\<rparr>,
                 tr_token = \<lparr>tk_incarnation = get64 b 32, tk_revision = get32 b 40\<rparr>\<rparr>"
      by (auto simp: validV4Body_def Let_def cf_layout r4 r8 tokenized_def split: if_splits)
    have "slice 0 60 b = v4_body (b ! 4) (get16 b 44) r"
      unfolding v4_body_fields [OF assms] using g z(1) by (simp add: r)
    moreover have "stored_window (b ! 4) (get16 b 44) r"
      using v z(2) by (auto simp: stored_window_def r)
    ultimately show ?r using t f split by blast
  next
    assume ?r
    then obtain version window where w: "stored_window version window r" "tokenized r"
      "slice 0 60 b = v4_body version window r" "get32 b 60 = journal_crc32 (take 60 b)"
      using split by blast
    show ?l
      using w(3) [unfolded v4_body_fields [OF assms]] w(1,2,4)
      by (auto simp: validV4Body_def Let_def cf_layout r4 r8 tokenized_def stored_window_def cf_versions)
  qed
qed

lemma decodeV4_iff:
  assumes "68 \<le> length b"
  shows "decodeV4 (Some b) = Some r \<longleftrightarrow> tokenized r \<and>
    (\<exists>version window. stored_window version window r \<and> slice 0 68 b = v4_image version window r)"
proof -
  have c: "get32 b 64 = cf_kCommit \<longleftrightarrow> slice 64 4 b = be_bytes 4 cf_kCommit"
    using assms by (simp add: get32_eq be_eq_iff)
  have "slice 0 68 b = v4_image version window r \<longleftrightarrow>
      slice 0 64 b = v4_body version window r @ be_bytes 4 (journal_crc32 (v4_body version window r)) \<and>
      slice 64 4 b = be_bytes 4 cf_kCommit" for version window
    unfolding segments_68(3) v4_image_def append_assoc [symmetric]
    using assms by (intro append_eq_append_conv) simp
  then show ?thesis using validV4Body_iff [OF assms, of r] c
    by (auto simp: decodeV4_def decodeV4Body_def kV4CommitOffset_def)
qed

text \<open>
  C31: A configuration record has one encoding per schema.  A buffer of at least 68 bytes decodes to a
  tokenized record exactly when writing that record in schema v8 changes nothing, or when it carries the
  default window and writing it in schema v4 changes nothing; and what the v8 encoder writes, which is
  what every save writes, always reads back.
\<close>
theorem config_codec_exact:
  assumes "kV4RecordSize \<le> length b"
  shows "(decodeV4 (Some b) = Some r \<longleftrightarrow> tokenized r \<and>
      (encodeV8 r b = b \<or> ble_window_seconds (tr_config r) = kDefaultBleWindowSeconds \<and> encodeV4 r b = b)) \<and>
    (tokenized r \<longrightarrow> decodeV4 (Some (encodeV8 r b)) = Some r)"
proof -
  have len: "68 \<le> length b" using assms by (simp add: kV4RecordSize_def)
  have same: "xs @ drop 68 b = b \<longleftrightarrow> slice 0 68 b = xs" if "length xs = 68" for xs
    using that len by (metis append_eq_append_conv append_take_drop_id length_take min.absorb2 take_slice)
  have "length (encodeV8 r b) = length b" "slice 0 68 (encodeV8 r b) = v8_image r"
    using encodeV8_image [OF len, of r] len by (simp_all add: slice_def)
  then have "tokenized r \<longrightarrow> decodeV4 (Some (encodeV8 r b)) = Some r"
    using decodeV4_iff [of "encodeV8 r b" r] len by (auto simp: stored_window_def v8_image_def)
  moreover have "encodeV8 r b = b \<longleftrightarrow> slice 0 68 b = v8_image r" "encodeV4 r b = b \<longleftrightarrow> slice 0 68 b = v4_image kV4Version 0 r"
    using encodeV8_image [OF len, of r] encodeV4_image [OF len, of r] by (simp_all add: same)
  ultimately show ?thesis unfolding decodeV4_iff [OF len]
    by (auto simp: stored_window_def v8_image_def)
qed

definition config_sample :: TokenizedRecord where
  "config_sample = \<lparr>tr_generation = 7,
     tr_config = \<lparr>tracking_interval_seconds = 600, battery_capacity_mah = 19000, service_mode = kServiceModeExplicit,
       requested_services = kServiceTracking, ble_window_seconds = 45\<rparr>,
     tr_token = \<lparr>tk_incarnation = 0xC0FFEE, tk_revision = 3\<rparr>\<rparr>"

lemma config_sample_tokenized: "tokenized config_sample"
  by (simp add: tokenized_def config_sample_def)

theorem config_codec_exact_witness:
  "decodeV4 (Some (encodeV8 config_sample (replicate 68 0xFF))) = Some config_sample"
  using config_codec_exact [of "replicate 68 0xFF" config_sample] config_sample_tokenized
  by (simp add: kV4RecordSize_def)

section \<open>What a page prefix is taken for\<close>

definition inspection_of :: "PageEvidence \<Rightarrow> TokenizedRecord \<Rightarrow> PageInspection" where
  "inspection_of e r = \<lparr>pi_evidence = e, has_decoded_record = True, pi_generation = tr_generation r,
     pi_config = tr_config r, pi_token = tr_token r\<rparr>"

definition bare :: "PageEvidence \<Rightarrow> PageInspection" where
  "bare e = PageInspection_init\<lparr>pi_evidence := e\<rparr>"

lemma set_inspection [simp]:
  "setV2DecodedInspection r (bare e) = inspection_of e r"
  "(setV2DecodedInspection r PageInspection_init)\<lparr>pi_evidence := e\<rparr> = inspection_of e r"
  "PageInspection_init\<lparr>pi_evidence := e\<rparr> = bare e"
  by (simp_all add: setV2DecodedInspection_def PageInspection_init_def inspection_of_def bare_def)

lemma bare_fields [simp]: "pi_evidence (bare e) = e" "\<not> has_decoded_record (bare e)"
  by (simp_all add: bare_def PageInspection_init_def)

lemma inspection_of_fields [simp]:
  "pi_evidence (inspection_of e r) = e" "has_decoded_record (inspection_of e r)"
  "pi_generation (inspection_of e r) = tr_generation r" "pi_config (inspection_of e r) = tr_config r"
  "pi_token (inspection_of e r) = tr_token r"
  by (simp_all add: inspection_of_def)

lemma cf_not_erased:
  assumes "4 \<le> n" "n \<le> length b" "get32 b 0 = cf_kMagic"
  shows "\<not> erased b 0 n"
proof
  assume e: "erased b 0 n"
  then have "slice 0 4 b = [0xFF, 0xFF, 0xFF, 0xFF]"
    using assms(1,2) by (simp add: slice_4 erased_iff)
  then have "get32 b 0 = UINT32_MAX" using assms(1,2) by (simp add: get32_eq be_val_erased4)
  then show False using assms(3) by (simp add: cf_kMagic_def)
qed

text \<open>A page in the 68-byte layout is told by its body, its commit word and its retire word.\<close>

lemma inspect_v4:
  assumes "72 \<le> length b" "get32 b 0 = cf_kMagic" "b ! 4 = kV4Version \<or> b ! 4 = kV8Version"
  shows "inspectPagePrefix (Some b) = Some
    (let commit = get32 b 64 in
     case validV4Body b of
       None \<Rightarrow> bare (if commit = cf_kErasedWord then kV4UncommittedOrTorn
                     else if commit = cf_kCommit then kV4CommittedCorrupt else kSupportedCorrupt)
     | Some r \<Rightarrow> inspection_of (if commit = cf_kErasedWord then kV4Staged
                     else if commit = cf_kCommit then (if get32 b 68 = cf_kErasedWord then kV4Committed else kV4CommittedRetired)
                     else kV4PartialCommit) r)"
proof -
  have "\<not> erased b 0 72" using cf_not_erased assms by simp
  moreover have "b ! 4 \<noteq> cf_kVersion" "b ! 4 \<noteq> kV2Version" using assms(3) by (auto simp: cf_versions)
  moreover have "cf_kCommit \<noteq> cf_kErasedWord" by (simp add: cf_kCommit_def cf_kErasedWord_def)
  ultimately show ?thesis using assms
    by (simp add: inspectPagePrefix_def cf_layout Let_def split: option.split)
qed

definition torn_prefix :: "TokenizedRecord \<Rightarrow> nat \<Rightarrow> bytes" where
  "torn_prefix r k = take (4 * k) (v8_image r) @ replicate (72 - 4 * k) 0xFF"

lemma length_torn_prefix: "k \<le> 17 \<Longrightarrow> length (torn_prefix r k) = 72"
  by (simp add: torn_prefix_def)

lemma torn_prefix_written: "off + n \<le> 4 * k \<Longrightarrow> k \<le> 17 \<Longrightarrow> slice off n (torn_prefix r k) = slice off n (v8_image r)"
  by (simp add: torn_prefix_def slice_append_left) (simp add: slice_def drop_take)

lemma torn_prefix_nth: "i < 4 * k \<Longrightarrow> k \<le> 17 \<Longrightarrow> torn_prefix r k ! i = v8_image r ! i"
  by (simp add: torn_prefix_def nth_append)

lemma torn_prefix_erased: "4 * k \<le> i \<Longrightarrow> i < 72 \<Longrightarrow> k \<le> 17 \<Longrightarrow> torn_prefix r k ! i = 0xFF"
  by (simp add: torn_prefix_def nth_append)

lemma torn_word_erased:
  assumes "k \<le> 17" "4 * k \<le> off" "off + 4 \<le> 72"
  shows "get32 (torn_prefix r k) off = cf_kErasedWord"
proof -
  have "slice off 4 (torn_prefix r k) = [0xFF, 0xFF, 0xFF, 0xFF]"
    using assms length_torn_prefix [OF assms(1), of r] torn_prefix_erased [of k _ r] by (simp add: slice_4)
  then show ?thesis using assms length_torn_prefix [OF assms(1), of r]
    by (simp add: get32_eq be_val_erased4 cf_kErasedWord_def)
qed

lemma v8_image_words:
  "slice 0 4 (v8_image r) = be_bytes 4 cf_kMagic" "v8_image r ! 4 = kV8Version"
  "v8_image r ! 30 = 0" "i < 14 \<Longrightarrow> v8_image r ! (46 + i) = 0"
  "slice 0 60 (v8_image r) = v4_body kV8Version (ble_window_seconds (tr_config r)) r"
  "slice 64 4 (v8_image r) = be_bytes 4 cf_kCommit"
  "slice 0 64 (v8_image r) = v4_body kV8Version (ble_window_seconds (tr_config r)) r @
     be_bytes 4 (journal_crc32 (v4_body kV8Version (ble_window_seconds (tr_config r)) r))"
  by (simp_all add: v8_image_def v4_image_def slice_def) (simp_all add: v4_body_def nth_append)

lemma torn_prefix_magic: "1 \<le> k \<Longrightarrow> k \<le> 17 \<Longrightarrow> get32 (torn_prefix r k) 0 = cf_kMagic"
  using torn_prefix_written [of 0 4 k r] v8_image_words(1) [of r] length_torn_prefix [of k r] by (simp add: get32_eq)

text \<open>A torn body decodes only when its sixty bytes are complete, and then it is the record being written.\<close>

lemma torn_prefix_body:
  assumes "k \<le> 17" "validV4Body (torn_prefix r k) = Some x" "tokenized r"
  shows "15 \<le> k" "x = r"
proof -
  let ?b = "torn_prefix r k"
  have len: "68 \<le> length ?b" using length_torn_prefix [OF assms(1)] by simp
  obtain version window where w: "stored_window version window x"
    "slice 0 64 ?b = v4_body version window x @ be_bytes 4 (journal_crc32 (v4_body version window x))"
    using assms(2) validV4Body_iff [OF len] by blast
  have "slice 0 60 (slice 0 64 ?b) = v4_body version window x"
    unfolding w(2) by (simp add: slice_def)
  then have b: "slice 0 60 ?b = v4_body version window x" by (simp add: slice_slice)
  note f = b [unfolded v4_body_fields [OF len]]
  have "\<forall>i<14. ?b ! (46 + i) = 0" using f by blast
  from this [rule_format, of 13] have "?b ! 59 = 0" by simp
  then show k: "15 \<le> k" using torn_prefix_erased [of k 59 r] assms(1) by (cases "15 \<le> k") auto
  have "slice 0 60 ?b = v4_body kV8Version (ble_window_seconds (tr_config r)) r"
    using torn_prefix_written [of 0 60 k r] v8_image_words(5) [of r] assms(1) k by simp
  note g = this [unfolded v4_body_fields [OF len]]
  have "version = kV8Version" "window = ble_window_seconds (tr_config r)" using f g by auto
  then have "ble_window_seconds (tr_config x) = ble_window_seconds (tr_config r)"
    using w(1) by (auto simp: stored_window_def cf_versions)
  then show "x = r" using f g
    by (intro TokenizedRecord.equality Config.equality StateToken.equality) auto
qed

lemma first_word_torn:
  assumes "k \<le> 17" "k = 1"
  shows "cf_programmedPrefixWithErasedTail (torn_prefix r k) 52"
proof -
  let ?b = "torn_prefix r k"
  have tail: "cf_prefix_scan ?b offs True st = (st \<or> offs \<noteq> [])" if "\<forall>off\<in>set offs. cf_wordErased ?b off" for offs st
    using that by (induction offs arbitrary: st) auto
  have "\<forall>off\<in>set (map ((*) 4) [1..<13]). cf_wordErased ?b off"
    using assms torn_prefix_erased [of k _ r] by (auto simp: cf_wordErased_def)
  from tail [OF this, of False] have "cf_prefix_scan ?b (map ((*) 4) [1..<13]) True False" by simp
  moreover have "slice 0 4 ?b = be_bytes 4 cf_kMagic"
    using torn_prefix_written [of 0 4 k r] v8_image_words(1) [of r] assms by simp
  then have "?b ! 0 = 0x4F" using length_torn_prefix [OF assms(1), of r]
    by (simp add: slice_4 be_bytes_4 cf_kMagic_def)
  then have "\<not> cf_wordErased ?b 0" by (simp add: cf_wordErased_def)
  moreover have "map ((*) 4) [0..<13] = 0 # map ((*) 4) [1..<13 :: nat]" by (simp add: upt_conv_Cons)
  ultimately show ?thesis by (simp add: cf_programmedPrefixWithErasedTail_def)
qed

lemma torn_prefix_inspection:
  assumes "tokenized r" "k \<le> 17"
  shows "\<exists>i. inspectPagePrefix (Some (torn_prefix r k)) = Some i \<and>
    (k = 0 \<longrightarrow> i = bare kErased) \<and> (k = 1 \<longrightarrow> i = bare kSupportedCorrupt) \<and>
    (2 \<le> k \<and> k \<le> 14 \<longrightarrow> i = bare kV4UncommittedOrTorn) \<and>
    (k = 15 \<longrightarrow> i = bare kV4UncommittedOrTorn \<or> i = inspection_of kV4Staged r) \<and>
    (k = 16 \<longrightarrow> i = inspection_of kV4Staged r) \<and> (k = 17 \<longrightarrow> i = inspection_of kV4Committed r)"
proof -
  let ?b = "torn_prefix r k"
  have len: "length ?b = 72" by (rule length_torn_prefix [OF assms(2)])
  consider "k = 0" | "k = 1" | "2 \<le> k" using assms(2) by linarith
  then show ?thesis
  proof cases
    case 1
    then have "erased ?b 0 72" by (simp add: erased_iff torn_prefix_def)
    then show ?thesis using 1 len by (simp add: inspectPagePrefix_def cf_layout Let_def)
  next
    case 2
    have "\<not> erased ?b 0 72" using cf_not_erased torn_prefix_magic [of k r] 2 len by simp
    moreover have "?b ! 4 = 0xFF" using torn_prefix_erased [of k 4 r] 2 by simp
    ultimately show ?thesis using 2 len first_word_torn [OF assms(2) 2, of r]
      by (simp add: inspectPagePrefix_def cf_layout Let_def cf_versions)
  next
    case 3
    have v: "?b ! 4 = kV8Version" using torn_prefix_nth [of 4 k r] v8_image_words(2) [of r] 3 assms(2) by simp
    have retire: "get32 ?b 68 = cf_kErasedWord" by (rule torn_word_erased) (use assms(2) in auto)
    have commit: "get32 ?b 64 = (if k = 17 then cf_kCommit else cf_kErasedWord)"
      using torn_word_erased [OF assms(2), of 64 r] torn_prefix_written [of 64 4 k r] v8_image_words(6) [of r] assms(2) len
      by (auto simp: get32_eq)
    have full: "validV4Body ?b = Some r" if "16 \<le> k"
      using validV4Body_iff [of ?b r] torn_prefix_written [of 0 64 k r] v8_image_words(7) [of r] that assms len
      by (auto simp: stored_window_def)
    have part: "validV4Body ?b = None \<or> k = 15 \<and> validV4Body ?b = Some r" if "k \<le> 15"
      using torn_prefix_body [OF assms(2) _ assms(1)] that by (cases "validV4Body ?b") auto
    have c: "cf_kCommit \<noteq> cf_kErasedWord" by (simp add: cf_kCommit_def cf_kErasedWord_def)
    have m: "get32 ?b 0 = cf_kMagic" using torn_prefix_magic 3 assms(2) by simp
    note ins = inspect_v4 [of ?b, OF _ m] 
    show ?thesis
    proof (cases "16 \<le> k")
      case True
      then show ?thesis using ins len v full commit retire c assms(2) by (auto simp: Let_def)
    next
      case False
      then show ?thesis using ins len v part commit 3 by (auto simp: Let_def)
    qed
  qed
qed

text \<open>
  Commit last, for the configuration.  Of the 17 words of a record, whatever prefix a power cut leaves
  on an erased page is classified without doubt: nothing as erased, two to fourteen words as torn, body
  and checksum as a staged copy of exactly the record being written, and only with the commit word as that
  record committed; a torn body never decodes to any other record.  The first word alone reads as
  corruption.
\<close>
theorem config_torn_write:
  assumes "tokenized r" and "k \<le> 17"
  shows "\<exists>i. inspectPagePrefix (Some (torn_prefix r k)) = Some i \<and>
    (evidenceIsCommitted (pi_evidence i) \<longleftrightarrow> k = 17) \<and>
    (has_decoded_record i \<longrightarrow> 15 \<le> k \<and>
       (pi_generation i, pi_config i, pi_token i) = (tr_generation r, tr_config r, tr_token r)) \<and>
    (pi_evidence i = kErased \<longleftrightarrow> k = 0) \<and> (pi_evidence i = kSupportedCorrupt \<longleftrightarrow> k = 1) \<and>
    (2 \<le> k \<and> k \<le> 14 \<longrightarrow> evidenceIsUncommittedOrTorn (pi_evidence i)) \<and>
    (k = 16 \<longrightarrow> evidenceIsStaged (pi_evidence i))"
proof -
  obtain i where i: "inspectPagePrefix (Some (torn_prefix r k)) = Some i"
    "k = 0 \<longrightarrow> i = bare kErased" "k = 1 \<longrightarrow> i = bare kSupportedCorrupt"
    "2 \<le> k \<and> k \<le> 14 \<longrightarrow> i = bare kV4UncommittedOrTorn"
    "k = 15 \<longrightarrow> i = bare kV4UncommittedOrTorn \<or> i = inspection_of kV4Staged r"
    "k = 16 \<longrightarrow> i = inspection_of kV4Staged r" "k = 17 \<longrightarrow> i = inspection_of kV4Committed r"
    using torn_prefix_inspection [OF assms] by (elim exE conjE) (rule that; assumption)
  consider "k = 0" | "k = 1" | "2 \<le> k" "k \<le> 14" | "k = 15" | "k = 16" | "k = 17" using assms(2) by linarith
  then show ?thesis
    using i by cases (auto simp: evidenceIsCommitted_def evidenceIsUncommittedOrTorn_def evidenceIsStaged_def)
qed

theorem config_torn_write_witness:
  "\<exists>i. inspectPagePrefix (Some (torn_prefix config_sample 16)) = Some i \<and> pi_config i = tr_config config_sample \<and>
     \<not> evidenceIsCommitted (pi_evidence i)"
  using config_torn_write [OF config_sample_tokenized, of 16] torn_prefix_inspection [OF config_sample_tokenized, of 16]
  by (auto simp: evidenceIsCommitted_def)

text \<open>
  A newer schema is never mistaken for damage.  Whatever future firmware stores under the magic with a
  version that is a multiple of four and unknown here, clear reserved bytes and a programmed fourteenth
  word is reported as unsupported and newer, and nothing of it is decoded.
\<close>
theorem newer_schema_recognized:
  assumes "kV2PagePrefixSize \<le> length b" and "get32 b 0 = cf_kMagic"
    and "b ! 4 AND 0x03 = 0" and "b ! 4 \<noteq> kV4Version" and "b ! 4 \<noteq> kV8Version"
    and "b ! 5 = 0" and "b ! 6 = 0" and "b ! 7 = 0" and "get32 b 48 \<noteq> cf_kErasedWord"
  shows "inspectPagePrefix (Some b) = Some (PageInspection_init\<lparr>pi_evidence := kUnsupportedNewer\<rparr>)"
proof -
  have len: "52 \<le> length b" using assms(1) by (simp add: kV2PagePrefixSize_def)
  have v: "b ! 4 \<noteq> cf_kVersion" "b ! 4 \<noteq> kV2Version" "b ! 4 \<noteq> 0xFF"
    using assms(3) by (auto simp: cf_versions)
  have ne: "\<not> erased b 0 n" if "52 \<le> n" "n \<le> length b" for n using cf_not_erased assms(2) that by simp
  have w: "\<not> cf_wordErased b 48"
  proof
    assume "cf_wordErased b 48"
    then have "slice 48 4 b = [0xFF, 0xFF, 0xFF, 0xFF]" using len by (simp add: slice_4 cf_wordErased_def)
    then show False using assms(9) len by (simp add: get32_eq be_val_erased4 cf_kErasedWord_def)
  qed
  have "\<not> cf_prefix_scan b (offs @ [48]) p t" for offs p t
    using w by (induction offs arbitrary: p t) auto
  moreover have "map ((*) 4) [0..<13] = map ((*) 4) [0..<12 :: nat] @ [48]" by code_simp
  ultimately have "\<not> cf_programmedPrefixWithErasedTail b 52" by (simp add: cf_programmedPrefixWithErasedTail_def)
  moreover have "length b < 72 \<Longrightarrow> \<not> erased b 0 (length b)" "\<not> length b < 72 \<Longrightarrow> \<not> erased b 0 72" using ne len by simp_all
  ultimately show ?thesis using assms v len
    by (simp add: inspectPagePrefix_def cf_layout Let_def cf_unsupportedNewerDiscriminator_def)
qed

theorem newer_schema_recognized_witness:
  "inspectPagePrefix (Some (be_bytes 4 cf_kMagic @ [12, 0, 0, 0] @ replicate 64 0)) =
     Some (PageInspection_init\<lparr>pi_evidence := kUnsupportedNewer\<rparr>)"
proof -
  let ?b = "be_bytes 4 cf_kMagic @ [12, 0, 0, 0] @ replicate 64 0"
  have "get32 ?b 0 = cf_kMagic" "get32 ?b 48 \<noteq> cf_kErasedWord" by code_simp+
  then show ?thesis
    by (intro newer_schema_recognized) (simp_all add: kV2PagePrefixSize_def cf_versions nth_append)
qed

section \<open>The older schemas\<close>

definition v2_body :: "TokenizedRecord \<Rightarrow> bytes" where
  "v2_body r =
     be_bytes 4 cf_kMagic @ [kV2Version, 0, 0, 0] @ be_bytes 8 (tr_generation r) @ be_bytes 2 kV2PayloadSize @ [0, 0] @
     be_bytes 4 (tracking_interval_seconds (tr_config r)) @ be_bytes 4 (battery_capacity_mah (tr_config r)) @
     be_bytes 8 (tk_incarnation (tr_token r)) @ be_bytes 4 (tk_revision (tr_token r))"

lemma length_v2_body [simp]: "length (v2_body r) = 40"
  by (simp add: v2_body_def)

lemma segments_48:
  "slice 0 40 b = slice 0 4 b @ slice 4 4 b @ slice 8 8 b @ slice 16 2 b @ slice 18 2 b @ slice 20 4 b @
     slice 24 4 b @ slice 28 8 b @ slice 36 4 b"
  "slice 0 48 b = slice 0 40 b @ slice 40 4 b @ slice 44 4 b"
  by (simp_all add: slice_join')

lemma encodeV2_image:
  assumes "48 \<le> length b"
  shows "slice 0 48 (encodeV2 r b) = v2_body r @ be_bytes 4 (journal_crc32 (v2_body r)) @ be_bytes 4 cf_kCommit"
    and "length (encodeV2 r b) = length b"
proof -
  define m where "m = (let b = memset b 0 0 kV2RecordSize; b = put32 b 0 cf_kMagic; b = b[4 := kV2Version];
          b = put64 b 8 (tr_generation r); b = put16 b 16 kV2PayloadSize;
          b = put32 b 20 (tracking_interval_seconds (tr_config r));
          b = put32 b 24 (battery_capacity_mah (tr_config r));
          b = put64 b 28 (tk_incarnation (tr_token r)) in put32 b 36 (tk_revision (tr_token r)))"
  have len: "length m = length b" using assms by (simp add: m_def Let_def be_simps cf_layout)
  have seg: "slice 0 4 m = be_bytes 4 cf_kMagic" "slice 8 8 m = be_bytes 8 (tr_generation r)"
    "slice 16 2 m = be_bytes 2 kV2PayloadSize" "slice 20 4 m = be_bytes 4 (tracking_interval_seconds (tr_config r))"
    "slice 24 4 m = be_bytes 4 (battery_capacity_mah (tr_config r))" "slice 18 2 m = [0, 0]"
    "slice 28 8 m = be_bytes 8 (tk_incarnation (tr_token r))" "slice 36 4 m = be_bytes 4 (tk_revision (tr_token r))"
    using assms by (simp_all add: m_def Let_def be_simps buffer_simps cf_layout slice_memset zero_pair)
  have small: "slice 4 4 m = [kV2Version, 0, 0, 0]"
    using assms len by (simp add: slice_4) (simp add: m_def Let_def be_simps buffer_simps cf_layout)
  have body: "slice 0 40 m = v2_body r" unfolding segments_48(1) seg small v2_body_def by simp
  have e: "encodeV2 r b = put32 (put32 m 40 (journal_crc32 (take 40 m))) 44 cf_kCommit"
    unfolding encodeV2_def m_def Let_def kV2CrcOffset_def kV2CommitOffset_def ..
  show "slice 0 48 (encodeV2 r b) = v2_body r @ be_bytes 4 (journal_crc32 (v2_body r)) @ be_bytes 4 cf_kCommit"
    unfolding segments_48(2) e using assms len body by (simp add: be_simps buffer_simps take_slice)
  show "length (encodeV2 r b) = length b" using assms len by (simp add: e be_simps)
qed

lemma v2_body_fields:
  assumes "48 \<le> length b"
  shows "slice 0 40 b = v2_body r \<longleftrightarrow>
    get32 b 0 = cf_kMagic \<and> b ! 4 = kV2Version \<and> b ! 5 = 0 \<and> b ! 6 = 0 \<and> b ! 7 = 0 \<and>
    get64 b 8 = tr_generation r \<and> get16 b 16 = kV2PayloadSize \<and> get16 b 18 = 0 \<and>
    get32 b 20 = tracking_interval_seconds (tr_config r) \<and> get32 b 24 = battery_capacity_mah (tr_config r) \<and>
    get64 b 28 = tk_incarnation (tr_token r) \<and> get32 b 36 = tk_revision (tr_token r)"
proof -
  have e: "slice 0 4 b = be_bytes 4 cf_kMagic \<longleftrightarrow> get32 b 0 = cf_kMagic"
    "slice 8 8 b = be_bytes 8 (tr_generation r) \<longleftrightarrow> get64 b 8 = tr_generation r"
    "slice 16 2 b = be_bytes 2 kV2PayloadSize \<longleftrightarrow> get16 b 16 = kV2PayloadSize"
    "slice 18 2 b = [0, 0] \<longleftrightarrow> get16 b 18 = 0"
    "slice 20 4 b = be_bytes 4 (tracking_interval_seconds (tr_config r)) \<longleftrightarrow> get32 b 20 = tracking_interval_seconds (tr_config r)"
    "slice 24 4 b = be_bytes 4 (battery_capacity_mah (tr_config r)) \<longleftrightarrow> get32 b 24 = battery_capacity_mah (tr_config r)"
    "slice 28 8 b = be_bytes 8 (tk_incarnation (tr_token r)) \<longleftrightarrow> get64 b 28 = tk_incarnation (tr_token r)"
    "slice 36 4 b = be_bytes 4 (tk_revision (tr_token r)) \<longleftrightarrow> get32 b 36 = tk_revision (tr_token r)"
    using assms unfolding zero_pair(2) [symmetric]
    by (simp_all add: be_eq_iff get16_eq get32_eq get64_eq del: be_bytes_be_val)
  have s: "slice 4 4 b = [b ! 4, b ! 5, b ! 6, b ! 7]" using assms by (simp add: slice_4)
  have "slice 0 40 b = v2_body r \<longleftrightarrow>
    slice 0 4 b = be_bytes 4 cf_kMagic \<and> slice 4 4 b = [kV2Version, 0, 0, 0] \<and> slice 8 8 b = be_bytes 8 (tr_generation r) \<and>
    slice 16 2 b = be_bytes 2 kV2PayloadSize \<and> slice 18 2 b = [0, 0] \<and>
    slice 20 4 b = be_bytes 4 (tracking_interval_seconds (tr_config r)) \<and>
    slice 24 4 b = be_bytes 4 (battery_capacity_mah (tr_config r)) \<and>
    slice 28 8 b = be_bytes 8 (tk_incarnation (tr_token r)) \<and> slice 36 4 b = be_bytes 4 (tk_revision (tr_token r))"
    unfolding segments_48(1) v2_body_def using assms by (simp add: append_eq_append_conv del: append_Cons)
  then show ?thesis unfolding e s by auto
qed

text \<open>What v2 firmware stored is read with the intent AUTO and the default window.\<close>

theorem v2_record_reads_back:
  assumes "kV2RecordSize \<le> length b" and "tokenized r"
  shows "decodeV2 (Some (encodeV2 r b)) = Some (r\<lparr>tr_config := Config_init
    \<lparr>tracking_interval_seconds := tracking_interval_seconds (tr_config r),
     battery_capacity_mah := battery_capacity_mah (tr_config r)\<rparr>\<rparr>)"
proof -
  let ?e = "encodeV2 r b"
  have len: "48 \<le> length b" "48 \<le> length ?e" using assms(1) encodeV2_image(2) [of b r] by (simp_all add: kV2RecordSize_def)
  have i: "slice 0 40 ?e @ slice 40 4 ?e @ slice 44 4 ?e =
      v2_body r @ be_bytes 4 (journal_crc32 (v2_body r)) @ be_bytes 4 cf_kCommit"
    using encodeV2_image(1) [OF len(1)] segments_48(2) [of ?e] by simp
  then have p: "slice 0 40 ?e = v2_body r" "slice 40 4 ?e = be_bytes 4 (journal_crc32 (v2_body r))"
    "slice 44 4 ?e = be_bytes 4 cf_kCommit" using len(2) by (simp_all add: append_eq_append_conv)
  note f = p(1) [unfolded v2_body_fields [OF len(2)]]
  have c: "get32 ?e 40 = journal_crc32 (take 40 ?e)" "get32 ?e 44 = cf_kCommit"
    using p len(2) by (simp_all add: get32_eq take_slice)
  show ?thesis using f c assms(2)
    by (simp add: decodeV2_def decodeV2Body_def validV2Body_def cf_layout tokenized_def)
qed

theorem v2_record_reads_back_witness:
  "decodeV2 (Some (encodeV2 config_sample (replicate 48 0))) \<noteq> None"
  using v2_record_reads_back [OF _ config_sample_tokenized, of "replicate 48 0"] by (simp add: kV2RecordSize_def)

end
