(* ===== verification/Config_Store.thy ===== *)
theory Config_Store
  imports Config_Format Two_Page_Flash
begin

text \<open>
  \<open>firmware/include/config_store.h\<close> and \<open>firmware/src/config_store.cpp\<close>: the owner of the durable
  desired configuration on its fixed two-page partition, written against the flash interface \<open>ops\<close>.
  The object holds its backend, so the state record holds the backend's state \<open>cs_flash\<close>; buffers no
  operation reads before filling them are values.  The incarnation source is an argument: none, or what
  its \<open>generate\<close> yields.
\<close>

datatype ConfigTokenState = kUnavailable | kValid | kUncertain
datatype ConfigSaveAdmission = kStarted | kUnchanged | kBusy | kInvalid | kMaintenance | kUnavailable
datatype Job = kNone | kErase | kWrite
datatype BlobStep = kBody | kCommit | kVerify

record Diagnostics =
  cd_saves :: u32
  cd_save_failures :: u32
  cd_recovery_corruptions :: u32
  cd_rejected_candidates :: u32
  cd_skipped_unchanged :: u32
  cd_blocked_pending_result :: u32
  cd_baseline_commits :: u32
  cd_baseline_failures :: u32
  cd_legacy_pages_seen :: u32
  cd_maintenance_lockouts :: u32
  cd_unreconciled_mutation_faults :: u32
  cd_recovery_reconciliations :: u32

definition Diagnostics_init :: Diagnostics where
  "Diagnostics_init = \<lparr>cd_saves = 0, cd_save_failures = 0, cd_recovery_corruptions = 0, cd_rejected_candidates = 0,
     cd_skipped_unchanged = 0, cd_blocked_pending_result = 0, cd_baseline_commits = 0, cd_baseline_failures = 0,
     cd_legacy_pages_seen = 0, cd_maintenance_lockouts = 0, cd_unreconciled_mutation_faults = 0,
     cd_recovery_reconciliations = 0\<rparr>"

record 'f ConfigStore =
  cs_flash :: 'f
  cs_config :: Config
  cs_token :: StateToken
  cs_token_state :: ConfigTokenState
  cs_semantic_unambiguous :: bool
  cs_maintenance_reset_required :: bool
  cs_application_config_committed :: bool
  cs_generation :: u64
  cs_active_page :: int
  cs_diagnostics :: Diagnostics
  cs_job :: Job
  cs_blob_step :: BlobStep
  cs_awaiting_completion :: bool
  cs_ready :: bool
  cs_save_result_ready :: bool
  cs_save_success :: bool
  cs_mutation_unreconciled :: bool
  cs_recovery_pending :: bool
  cs_target_page :: nat
  cs_pending_config :: Config
  cs_pending_token :: StateToken
  cs_pending_generation :: u64
  cs_blob :: bytes

definition ConfigStore_init :: "'f \<Rightarrow> 'f ConfigStore" where
  "ConfigStore_init flash =
     \<lparr>cs_flash = flash, cs_config = Config_init, cs_token = StateToken_init, cs_token_state = ConfigTokenState.kUnavailable,
      cs_semantic_unambiguous = False, cs_maintenance_reset_required = False,
      cs_application_config_committed = False, cs_generation = 0, cs_active_page = -1,
      cs_diagnostics = Diagnostics_init, cs_job = kNone, cs_blob_step = kBody, cs_awaiting_completion = False,
      cs_ready = False, cs_save_result_ready = False, cs_save_success = False, cs_mutation_unreconciled = False,
      cs_recovery_pending = False, cs_target_page = 0, cs_pending_config = Config_init,
      cs_pending_token = StateToken_init, cs_pending_generation = 0, cs_blob = replicate kWriteRecordSize 0\<rparr>"

section \<open>Helpers\<close>

definition kConfigPageCount :: nat where "kConfigPageCount = 2"
definition kTrackingIntervalSeconds :: u32 where "kTrackingIntervalSeconds = 3 * 60"
definition kMaxTrackingIntervalSeconds :: u32 where "kMaxTrackingIntervalSeconds = 12 * 24 * 60 * 60"

definition defaultConfig :: Config where
  "defaultConfig = Config_init\<lparr>tracking_interval_seconds := kTrackingIntervalSeconds, battery_capacity_mah := 0\<rparr>"

definition sameConfig :: "Config \<Rightarrow> Config \<Rightarrow> bool" where
  "sameConfig a b \<longleftrightarrow>
     tracking_interval_seconds a = tracking_interval_seconds b \<and> battery_capacity_mah a = battery_capacity_mah b \<and>
     service_mode a = service_mode b \<and> requested_services a = requested_services b \<and>
     ble_window_seconds a = ble_window_seconds b"

definition validServiceIntent :: "Config \<Rightarrow> bool" where
  "validServiceIntent c =
     (if service_mode c = kServiceModeAuto then requested_services c = 0
      else if service_mode c = kServiceModeExplicit then requested_services c AND NOT kKnownServicesMask = 0
      else False)"

definition validCandidate :: "Config \<Rightarrow> bool" where
  "validCandidate c \<longleftrightarrow> tracking_interval_seconds c > 0 \<and> tracking_interval_seconds c \<le> kMaxTrackingIntervalSeconds \<and>
     ble_window_seconds c \<le> kMaxBleWindowSeconds \<and> validServiceIntent c"

definition evidenceIsLegacy :: "PageEvidence \<Rightarrow> bool" where
  "evidenceIsLegacy e \<longleftrightarrow> e = kLegacyV1Committed \<or> e = kLegacyV1UncommittedOrTorn \<or> e = kLegacyV1CommittedCorrupt"

definition evidenceIsSafeUncommitted :: "PageEvidence \<Rightarrow> bool" where
  "evidenceIsSafeUncommitted e \<longleftrightarrow> e = kErased \<or> evidenceIsUncommittedOrTorn e"

definition exactSuccessor :: "PageInspection \<Rightarrow> PageInspection \<Rightarrow> bool" where
  "exactSuccessor committed staged \<longleftrightarrow>
     pi_generation committed \<noteq> UINT64_MAX \<and> tk_revision (pi_token committed) \<noteq> UINT32_MAX \<and>
     pi_generation staged = pi_generation committed + 1 \<and>
     tk_incarnation (pi_token staged) = tk_incarnation (pi_token committed) \<and>
     tk_revision (pi_token staged) = tk_revision (pi_token committed) + 1"

definition cs_readPageTailErased :: "'f FlashBackend \<Rightarrow> 'f \<Rightarrow> nat \<Rightarrow> nat \<Rightarrow> bool option" where
  "cs_readPageTailErased ops flash page owned_prefix = tail_scan ops flash page owned_prefix"

definition bump :: "(Diagnostics \<Rightarrow> Diagnostics) \<Rightarrow> 'f ConfigStore \<Rightarrow> 'f ConfigStore" where
  "bump f s = s\<lparr>cs_diagnostics := f (cs_diagnostics s)\<rparr>"

definition count_lockout :: "Diagnostics \<Rightarrow> Diagnostics" where
  "count_lockout d = d\<lparr>cd_maintenance_lockouts := cd_maintenance_lockouts d + 1\<rparr>"

definition clearRecoveredRuntimeState :: "'f ConfigStore \<Rightarrow> 'f ConfigStore" where
  "clearRecoveredRuntimeState s = s\<lparr>cs_config := defaultConfig, cs_token := StateToken_init,
     cs_token_state := ConfigTokenState.kUnavailable, cs_semantic_unambiguous := False,
     cs_maintenance_reset_required := False, cs_application_config_committed := False,
     cs_generation := 0, cs_active_page := -1\<rparr>"

definition setMaintenance :: "'f ConfigStore \<Rightarrow> ConfigTokenState \<Rightarrow> 'f ConfigStore" where
  "setMaintenance s ts = bump count_lockout (s\<lparr>cs_config := defaultConfig, cs_token := StateToken_init,
     cs_token_state := ts, cs_semantic_unambiguous := False, cs_maintenance_reset_required := True,
     cs_application_config_committed := False, cs_generation := 0, cs_active_page := -1\<rparr>)"

definition setMaintenanceFallback ::
  "'f ConfigStore \<Rightarrow> PageInspection \<Rightarrow> ConfigTokenState \<Rightarrow> bool \<Rightarrow> 'f ConfigStore" where
  "setMaintenanceFallback s fallback ts application_committed = bump count_lockout
     (s\<lparr>cs_config := pi_config fallback, cs_token := pi_token fallback, cs_token_state := ts,
        cs_semantic_unambiguous := True, cs_maintenance_reset_required := True,
        cs_application_config_committed := application_committed, cs_generation := pi_generation fallback,
        cs_active_page := -1\<rparr>)"

text \<open>Whether an application ever configured the record, computed alike in every branch of \<open>recover\<close>.\<close>

definition application_committed :: "PageInspection \<Rightarrow> bool" where
  "application_committed i \<longleftrightarrow> tk_revision (pi_token i) > 1 \<or> \<not> sameConfig (pi_config i) defaultConfig"

text \<open>The assignments that make a committed record the current one, repeated in \<open>recover\<close>.\<close>

definition setAuthority :: "'f ConfigStore \<Rightarrow> nat \<Rightarrow> PageInspection \<Rightarrow> 'f ConfigStore" where
  "setAuthority s page i = s\<lparr>cs_active_page := int page, cs_generation := pi_generation i, cs_config := pi_config i,
     cs_token := pi_token i, cs_application_config_committed := application_committed i, cs_token_state := kValid,
     cs_semantic_unambiguous := True\<rparr>"

section \<open>Recovery\<close>

record RecoveredPage =
  rp_inspection :: PageInspection
  rp_semantic_valid :: bool
  rp_tail_dirty :: bool

record recover_scan =
  rs_pages :: "RecoveredPage list"
  rs_all_erased :: bool
  rs_any_legacy :: bool
  rs_any_unsupported :: bool
  rs_any_supported_corrupt :: bool
  rs_committed_pages :: "nat list"
  rs_fallback_pages :: "nat list"
  rs_corruptions :: u32
  rs_legacy_seen :: u32

definition scan_init :: recover_scan where
  "scan_init = \<lparr>rs_pages = [], rs_all_erased = True, rs_any_legacy = False, rs_any_unsupported = False,
     rs_any_supported_corrupt = False, rs_committed_pages = [], rs_fallback_pages = [], rs_corruptions = 0,
     rs_legacy_seen = 0\<rparr>"

definition scan_corrupt :: "recover_scan \<Rightarrow> recover_scan" where
  "scan_corrupt sc = sc\<lparr>rs_any_supported_corrupt := True, rs_corruptions := rs_corruptions sc + 1\<rparr>"

definition scan_committed :: "nat \<Rightarrow> recover_scan \<Rightarrow> recover_scan" where
  "scan_committed page sc = sc\<lparr>rs_committed_pages := rs_committed_pages sc @ [page]\<rparr>"

definition scan_fallback :: "nat \<Rightarrow> recover_scan \<Rightarrow> recover_scan" where
  "scan_fallback page sc = sc\<lparr>rs_fallback_pages := rs_fallback_pages sc @ [page]\<rparr>"

text \<open>The bookkeeping of one page: what follows its two reads in the page loop.\<close>

definition note_page :: "PageInspection \<Rightarrow> bool \<Rightarrow> nat \<Rightarrow> recover_scan \<Rightarrow> recover_scan" where
  "note_page insp dirty page sc =
     (let ev = pi_evidence insp;
          sc = (if ev \<noteq> kErased \<or> dirty then sc\<lparr>rs_all_erased := False\<rparr> else sc);
          note = (\<lambda>valid sc. sc\<lparr>rs_pages := rs_pages sc @
                    [\<lparr>rp_inspection = insp, rp_semantic_valid = valid, rp_tail_dirty = dirty\<rparr>]\<rparr>)
      in
      if evidenceIsLegacy ev then note False (sc\<lparr>rs_any_legacy := True, rs_legacy_seen := rs_legacy_seen sc + 1\<rparr>)
      else if ev = kUnsupportedNewer then note False (sc\<lparr>rs_any_unsupported := True\<rparr>)
      else
        let valid = has_decoded_record insp \<and> validCandidate (pi_config insp); sc = note valid sc in
        if dirty then
          let sc = scan_corrupt sc in
          if evidenceIsCommitted ev \<and> valid then scan_committed page sc
          else if has_decoded_record insp \<and> valid \<and>
              (evidenceIsStaged ev \<or> evidenceIsPartialCommit ev \<or> evidenceIsCommittedRetired ev)
          then scan_fallback page sc
          else sc
        else if evidenceIsCommitted ev then
          (if \<not> valid then scan_corrupt sc else scan_committed page sc)
        else if evidenceIsStaged ev then
          (if valid then scan_fallback page sc else sc\<lparr>rs_corruptions := rs_corruptions sc + 1\<rparr>)
        else if evidenceIsSafeUncommitted ev then sc
        else scan_corrupt
          (if (evidenceIsPartialCommit ev \<or> evidenceIsCommittedRetired ev) \<and> valid
           then scan_fallback page sc else sc))"

definition recover_page :: "'f FlashBackend \<Rightarrow> 'f \<Rightarrow> nat \<Rightarrow> recover_scan \<Rightarrow> recover_scan option" where
  "recover_page ops flash page sc =
     (case fb_read ops flash (page * kPageSize) kMaxPagePrefixSize of
        None \<Rightarrow> None
      | Some bytes \<Rightarrow>
        (case inspectPagePrefix (Some bytes) of
           None \<Rightarrow> None
         | Some insp \<Rightarrow>
             if pi_evidence insp = kUnsupportedNewer then Some (note_page insp False page sc)
             else case cs_readPageTailErased ops flash page (ownedPrefixSize (pi_evidence insp)) of
               None \<Rightarrow> None
             | Some tail_erased \<Rightarrow> Some (note_page insp (\<not> tail_erased) page sc)))"

text \<open>The scan so far and whether every read succeeded.\<close>

fun recover_pages :: "'f FlashBackend \<Rightarrow> 'f \<Rightarrow> nat list \<Rightarrow> recover_scan \<Rightarrow> recover_scan \<times> bool" where
  "recover_pages ops flash [] sc = (sc, True)"
| "recover_pages ops flash (page # rest) sc =
     (case recover_page ops flash page sc of
        None \<Rightarrow> (sc, False)
      | Some sc' \<Rightarrow> recover_pages ops flash rest sc')"

definition scanned :: "recover_scan \<Rightarrow> nat \<Rightarrow> PageInspection" where
  "scanned sc page = rp_inspection (rs_pages sc ! page)"

definition exact_lineage :: "PageInspection \<Rightarrow> PageInspection \<Rightarrow> bool" where
  "exact_lineage lo hi \<longleftrightarrow>
     pi_generation lo \<noteq> UINT64_MAX \<and> pi_generation hi = pi_generation lo + 1 \<and>
     tk_incarnation (pi_token hi) = tk_incarnation (pi_token lo) \<and>
     tk_revision (pi_token lo) \<noteq> UINT32_MAX \<and> tk_revision (pi_token hi) = tk_revision (pi_token lo) + 1"

text \<open>Two committed pages, one of them contradicted by a dirty tail.\<close>

definition recover_two_corrupt :: "'f ConfigStore \<Rightarrow> recover_scan \<Rightarrow> 'f ConfigStore" where
  "recover_two_corrupt s sc =
     (let pa = scanned sc (rs_committed_pages sc ! 0); pb = scanned sc (rs_committed_pages sc ! 1);
          hi = (if pi_generation pb > pi_generation pa then pb else pa);
          lo = (if pi_generation pb > pi_generation pa then pa else pb) in
      if exact_lineage lo hi \<or> sameConfig (pi_config pa) (pi_config pb)
      then setMaintenanceFallback s hi kUncertain (application_committed hi)
      else setMaintenance s kUncertain)"

text \<open>The loop over the fallback copies: whether they agree, and the page of the newest.\<close>

fun scan_fallbacks :: "recover_scan \<Rightarrow> PageInspection \<Rightarrow> nat \<Rightarrow> nat list \<Rightarrow> bool \<times> nat" where
  "scan_fallbacks sc first best [] = (True, best)"
| "scan_fallbacks sc first best (page # rest) =
     (if \<not> sameConfig (pi_config first) (pi_config (scanned sc page)) then (False, best)
      else scan_fallbacks sc first
        (if pi_generation (scanned sc page) > pi_generation (scanned sc best) then page else best) rest)"

definition recover_none :: "'f ConfigStore \<Rightarrow> recover_scan \<Rightarrow> 'f ConfigStore" where
  "recover_none s sc =
     (let fallbacks = rs_fallback_pages sc;
          lock = setMaintenance s (if rs_any_supported_corrupt sc \<or> fallbacks \<noteq> [] then kUncertain
                                   else ConfigTokenState.kUnavailable) in
      if fallbacks = [] then lock
      else
        let (same_semantics, best) = scan_fallbacks sc (scanned sc (fallbacks ! 0)) (fallbacks ! 0) (drop 1 fallbacks) in
        if same_semantics then
          let has_committed_provenance =
                list_ex (\<lambda>page. evidenceIsCommittedRetired (pi_evidence (scanned sc page))) fallbacks;
              fallback = scanned sc best
          in setMaintenanceFallback s fallback kUncertain (has_committed_provenance \<and> application_committed fallback)
        else lock)"

definition recover_two :: "'f ConfigStore \<Rightarrow> recover_scan \<Rightarrow> 'f ConfigStore" where
  "recover_two s sc =
     (let a = rs_committed_pages sc ! 0; b = rs_committed_pages sc ! 1;
          (high, low) = (if pi_generation (scanned sc b) > pi_generation (scanned sc a) then (b, a) else (a, b));
          hi = scanned sc high; lo = scanned sc low in
      if pi_generation lo = UINT64_MAX \<or> pi_generation hi \<noteq> pi_generation lo + 1 \<or>
         tk_incarnation (pi_token hi) \<noteq> tk_incarnation (pi_token lo) \<or> tk_revision (pi_token lo) = UINT32_MAX \<or>
         tk_revision (pi_token hi) \<noteq> tk_revision (pi_token lo) + 1 then
        (if sameConfig (pi_config hi) (pi_config lo)
         then setMaintenanceFallback s hi kUncertain (application_committed hi)
         else setMaintenance s kUncertain)
      else setAuthority s high hi)"

definition recover_one :: "'f ConfigStore \<Rightarrow> recover_scan \<Rightarrow> 'f ConfigStore" where
  "recover_one s sc =
     (let committed_page = rs_committed_pages sc ! 0; other_page = 1 - committed_page;
          committed = scanned sc committed_page; other = scanned sc other_page;
          fallback = setMaintenanceFallback s committed kUncertain (application_committed committed);
          adopt = setAuthority s committed_page committed in
      if rs_any_supported_corrupt sc then fallback
      else if evidenceIsStaged (pi_evidence other) then
        (if \<not> rp_semantic_valid (rs_pages sc ! other_page) then adopt
         else if \<not> exactSuccessor committed other then fallback
         else adopt)
      else if \<not> evidenceIsSafeUncommitted (pi_evidence other) then setMaintenance s kUncertain
      else adopt)"

text \<open>What follows the page loop.\<close>

definition recover_decide :: "'f ConfigStore \<Rightarrow> recover_scan \<Rightarrow> 'f ConfigStore" where
  "recover_decide s sc =
     (let s = clearRecoveredRuntimeState s; committed_count = length (rs_committed_pages sc) in
      if rs_all_erased sc then s
      else if rs_any_legacy sc then
        setMaintenance s (if rs_any_unsupported sc \<or> rs_any_supported_corrupt sc \<or> committed_count > 0
                          then kUncertain else ConfigTokenState.kUnavailable)
      else if rs_any_unsupported sc then setMaintenance s kUncertain
      else if rs_any_supported_corrupt sc \<and> committed_count = 2 then recover_two_corrupt s sc
      else if committed_count = 0 then recover_none s sc
      else if committed_count = 2 then recover_two s sc
      else recover_one s sc)"

definition count_scan :: "recover_scan \<Rightarrow> 'f ConfigStore \<Rightarrow> 'f ConfigStore" where
  "count_scan sc = bump (\<lambda>d. d\<lparr>cd_recovery_corruptions := cd_recovery_corruptions d + rs_corruptions sc,
     cd_legacy_pages_seen := cd_legacy_pages_seen d + rs_legacy_seen sc\<rparr>)"

definition cs_recover :: "'f FlashBackend \<Rightarrow> 'f ConfigStore \<Rightarrow> 'f ConfigStore \<times> bool" where
  "cs_recover ops s =
     (let (sc, ok) = recover_pages ops (cs_flash s) [0..<kConfigPageCount] scan_init; s = count_scan sc s
      in if \<not> ok then (s, False) else (recover_decide s sc, True))"

section \<open>The fresh baseline and begin\<close>

definition cs_writeFreshBaseline ::
  "'f FlashBackend \<Rightarrow> 'f ConfigStore \<Rightarrow> TokenizedRecord \<Rightarrow> 'f ConfigStore \<times> bool" where
  "cs_writeFreshBaseline ops s r =
     (let bytes = encodeV8 r (replicate kWriteRecordSize 0); offset = 0;
          (fl, body) = fb_program ops (cs_flash s) offset (take kWriteBodyAndCrcSize bytes);
          s = s\<lparr>cs_flash := fl\<rparr> in
      if body \<noteq> kDone then (s, False)
      else if fb_read ops (cs_flash s) offset kWriteBodyAndCrcSize \<noteq> Some (take kWriteBodyAndCrcSize bytes)
      then (s, False)
      else
        let (fl, commit) = fb_program ops (cs_flash s) (offset + kWriteCommitOffset) (slice kWriteCommitOffset 4 bytes);
            s = s\<lparr>cs_flash := fl\<rparr> in
        if commit \<noteq> kDone then (s, False)
        else (s, fb_read ops (cs_flash s) offset kWriteRecordSize = Some bytes))"

definition cs_establishFreshBaseline ::
  "'f FlashBackend \<Rightarrow> u64 option option \<Rightarrow> 'f ConfigStore \<Rightarrow> 'f ConfigStore \<times> bool" where
  "cs_establishFreshBaseline ops source s =
     (case source of None \<Rightarrow> (s, True) | Some None \<Rightarrow> (s, True)
      | Some (Some inc) \<Rightarrow>
        if inc = 0 then (s, True)
        else
          let r = \<lparr>tr_generation = 1, tr_config = defaultConfig, tr_token = \<lparr>tk_incarnation = inc, tk_revision = 1\<rparr>\<rparr>;
              (s, written) = cs_writeFreshBaseline ops s r in
          if \<not> written then
            let s = bump (\<lambda>d. d\<lparr>cd_baseline_failures := cd_baseline_failures d + 1\<rparr>) s in
            if fb_hasUnreconciledMutation ops (cs_flash s) then
              (bump (\<lambda>d. d\<lparr>cd_unreconciled_mutation_faults := cd_unreconciled_mutation_faults d + 1\<rparr>)
                 (s\<lparr>cs_mutation_unreconciled := True, cs_token_state := kUncertain\<rparr>), True)
            else cs_recover ops s
          else
            (bump (\<lambda>d. d\<lparr>cd_baseline_commits := cd_baseline_commits d + 1\<rparr>)
               (s\<lparr>cs_active_page := 0, cs_generation := 1, cs_config := tr_config r, cs_token := tr_token r,
                  cs_token_state := kValid, cs_semantic_unambiguous := True,
                  cs_maintenance_reset_required := False, cs_application_config_committed := False\<rparr>), True))"

definition cs_begin ::
  "'f FlashBackend \<Rightarrow> u64 option option \<Rightarrow> 'f ConfigStore \<Rightarrow> 'f ConfigStore \<times> bool" where
  "cs_begin ops source s =
     (let s = s\<lparr>cs_ready := False, cs_job := kNone, cs_diagnostics := Diagnostics_init, cs_blob_step := kBody,
              cs_awaiting_completion := False, cs_save_result_ready := False, cs_save_success := False,
              cs_mutation_unreconciled := False, cs_recovery_pending := False\<rparr>;
          s = clearRecoveredRuntimeState s;
          (fl, ok) = fb_begin ops (cs_flash s); s = s\<lparr>cs_flash := fl\<rparr> in
      if \<not> ok then (s, False)
      else
        let (s, recovered) = cs_recover ops s in
        if \<not> recovered then (s, False)
        else if \<not> cs_maintenance_reset_required s \<and> cs_active_page s < 0 \<and>
                cs_token_state s = ConfigTokenState.kUnavailable \<and> source \<noteq> None then
          let (s, established) = cs_establishFreshBaseline ops source s in
          if \<not> established then (s, False) else (s\<lparr>cs_ready := True\<rparr>, True)
        else (s\<lparr>cs_ready := True\<rparr>, True))"

section \<open>Saves\<close>

definition cs_busy :: "'f ConfigStore \<Rightarrow> bool" where "cs_busy s \<longleftrightarrow> cs_job s \<noteq> kNone"

definition cs_startSave :: "'f ConfigStore \<Rightarrow> Config \<Rightarrow> 'f ConfigStore \<times> bool" where
  "cs_startSave s candidate =
     (if cs_generation s = UINT64_MAX \<or> tk_revision (cs_token s) = UINT32_MAX then (s, False)
      else
        let s = s\<lparr>cs_target_page := nat (1 - cs_active_page s), cs_pending_generation := cs_generation s + 1,
                  cs_pending_config := candidate,
                  cs_pending_token := \<lparr>tk_incarnation = tk_incarnation (cs_token s),
                                       tk_revision = tk_revision (cs_token s) + 1\<rparr>\<rparr>;
            r = \<lparr>tr_generation = cs_pending_generation s, tr_config = cs_pending_config s,
                 tr_token = cs_pending_token s\<rparr>
        in (s\<lparr>cs_blob := encodeV8 r (cs_blob s), cs_job := kErase, cs_blob_step := kBody,
              cs_awaiting_completion := False\<rparr>, True))"

definition cs_admitSave :: "'f ConfigStore \<Rightarrow> Config \<Rightarrow> 'f ConfigStore \<times> ConfigSaveAdmission" where
  "cs_admitSave s candidate =
     (if \<not> cs_ready s then (s, kUnavailable)
      else if cs_busy s then (s, kBusy)
      else if cs_mutation_unreconciled s \<or> cs_recovery_pending s then (s, kUnavailable)
      else if \<not> validCandidate candidate then
        (bump (\<lambda>d. d\<lparr>cd_rejected_candidates := cd_rejected_candidates d + 1\<rparr>) s, kInvalid)
      else if sameConfig candidate (cs_config s) then
        (if \<not> cs_semantic_unambiguous s then (s, kMaintenance)
         else (bump (\<lambda>d. d\<lparr>cd_skipped_unchanged := cd_skipped_unchanged d + 1\<rparr>) s, kUnchanged))
      else if cs_maintenance_reset_required s \<or> cs_token_state s \<noteq> kValid \<or> cs_active_page s < 0 then
        (bump count_lockout s, kMaintenance)
      else if cs_save_result_ready s then
        (bump (\<lambda>d. d\<lparr>cd_blocked_pending_result := cd_blocked_pending_result d + 1\<rparr>) s, kBusy)
      else
        let (s, started) = cs_startSave s candidate in (s, if started then kStarted else kUnavailable))"

definition cs_requestSave :: "'f ConfigStore \<Rightarrow> Config \<Rightarrow> 'f ConfigStore \<times> bool" where
  "cs_requestSave s candidate =
     (let (s, admission) = cs_admitSave s candidate in (s, admission = kStarted \<or> admission = kUnchanged))"

definition cs_requestReset :: "'f ConfigStore \<Rightarrow> 'f ConfigStore \<times> bool" where
  "cs_requestReset s =
     (if cs_maintenance_reset_required s \<or> cs_token_state s \<noteq> kValid \<or> cs_active_page s < 0 then (s, False)
      else cs_requestSave s defaultConfig)"

definition cs_fail :: "'f FlashBackend \<Rightarrow> 'f ConfigStore \<Rightarrow> 'f ConfigStore" where
  "cs_fail ops s =
     (let s = bump (\<lambda>d. d\<lparr>cd_save_failures := cd_save_failures d + 1\<rparr>)
                (s\<lparr>cs_save_result_ready := True, cs_save_success := False, cs_job := kNone, cs_blob_step := kBody,
                   cs_awaiting_completion := False, cs_token_state := kUncertain, cs_semantic_unambiguous := True,
                   cs_recovery_pending := True\<rparr>)
      in
      if fb_hasUnreconciledMutation ops (cs_flash s) then
        bump (\<lambda>d. d\<lparr>cd_unreconciled_mutation_faults := cd_unreconciled_mutation_faults d + 1\<rparr>)
          (s\<lparr>cs_mutation_unreconciled := True\<rparr>)
      else s)"

definition cs_finishSave :: "'f ConfigStore \<Rightarrow> 'f ConfigStore" where
  "cs_finishSave s = bump (\<lambda>d. d\<lparr>cd_saves := cd_saves d + 1\<rparr>)
     (s\<lparr>cs_active_page := int (cs_target_page s), cs_generation := cs_pending_generation s,
        cs_config := cs_pending_config s, cs_token := cs_pending_token s, cs_token_state := kValid,
        cs_semantic_unambiguous := True, cs_maintenance_reset_required := False,
        cs_application_config_committed := True, cs_job := kNone, cs_save_result_ready := True,
        cs_save_success := True\<rparr>)"

text \<open>
  \<open>writeBlob\<close> is three steps that fall through into one another.  Each step returns its result, or
  nothing when control falls through to the next.
\<close>

definition cs_write_body ::
  "'f FlashBackend \<Rightarrow> 'f ConfigStore \<Rightarrow> 'f ConfigStore \<times> FlashOpResult option" where
  "cs_write_body ops s =
     (if cs_blob_step s \<noteq> kBody then (s, None)
      else
        let offset = cs_target_page s * kPageSize;
            (fl, result) = (if cs_awaiting_completion s then fb_pollPending ops (cs_flash s)
                            else fb_program ops (cs_flash s) offset (take kWriteBodyAndCrcSize (cs_blob s)));
            s = s\<lparr>cs_flash := fl\<rparr> in
        if result = kPending then (s\<lparr>cs_awaiting_completion := True\<rparr>, Some kPending)
        else
          let s = s\<lparr>cs_awaiting_completion := False\<rparr> in
          if result = kFailed then (cs_fail ops s, Some kFailed)
          else if fb_read ops (cs_flash s) offset kWriteBodyAndCrcSize \<noteq> Some (take kWriteBodyAndCrcSize (cs_blob s))
          then (cs_fail ops s, Some kFailed)
          else (s\<lparr>cs_blob_step := BlobStep.kCommit\<rparr>, None))"

definition cs_write_commit ::
  "'f FlashBackend \<Rightarrow> 'f ConfigStore \<Rightarrow> 'f ConfigStore \<times> FlashOpResult option" where
  "cs_write_commit ops s =
     (if cs_blob_step s \<noteq> BlobStep.kCommit then (s, None)
      else
        let offset = cs_target_page s * kPageSize;
            (fl, result) = (if cs_awaiting_completion s then fb_pollPending ops (cs_flash s)
                            else fb_program ops (cs_flash s) (offset + kWriteCommitOffset)
                                   (slice kWriteCommitOffset 4 (cs_blob s)));
            s = s\<lparr>cs_flash := fl\<rparr> in
        if result = kPending then (s\<lparr>cs_awaiting_completion := True\<rparr>, Some kPending)
        else
          let s = s\<lparr>cs_awaiting_completion := False\<rparr> in
          if result = kFailed then (cs_fail ops s, Some kFailed)
          else (s\<lparr>cs_blob_step := kVerify\<rparr>, None))"

definition cs_writeBlob :: "'f FlashBackend \<Rightarrow> 'f ConfigStore \<Rightarrow> 'f ConfigStore \<times> FlashOpResult" where
  "cs_writeBlob ops s =
     (case cs_write_body ops s of
        (s, Some r) \<Rightarrow> (s, r)
      | (s, None) \<Rightarrow>
        (case cs_write_commit ops s of
           (s, Some r) \<Rightarrow> (s, r)
         | (s, None) \<Rightarrow>
             if fb_read ops (cs_flash s) (cs_target_page s * kPageSize) kWriteRecordSize \<noteq> Some (cs_blob s)
             then (cs_fail ops s, kFailed)
             else (s\<lparr>cs_blob_step := kBody\<rparr>, kDone)))"

definition cs_poll_idle :: "'f FlashBackend \<Rightarrow> 'f ConfigStore \<Rightarrow> 'f ConfigStore" where
  "cs_poll_idle ops s =
     (if \<not> cs_recovery_pending s then s
      else
        let (s, ok) = cs_recover ops (s\<lparr>cs_recovery_pending := False\<rparr>) in
        if \<not> ok then s\<lparr>cs_token_state := kUncertain, cs_maintenance_reset_required := True, cs_ready := False\<rparr>
        else bump (\<lambda>d. d\<lparr>cd_recovery_reconciliations := cd_recovery_reconciliations d + 1\<rparr>) s)"

definition cs_poll_erase :: "'f FlashBackend \<Rightarrow> 'f ConfigStore \<Rightarrow> 'f ConfigStore" where
  "cs_poll_erase ops s =
     (let (fl, result) = (if cs_awaiting_completion s then fb_pollPending ops (cs_flash s)
                          else fb_erasePage ops (cs_flash s) (cs_target_page s));
          s = s\<lparr>cs_flash := fl\<rparr> in
      if result = kPending then s\<lparr>cs_awaiting_completion := True\<rparr>
      else
        let s = s\<lparr>cs_awaiting_completion := False\<rparr> in
        if result = kFailed then cs_fail ops s else s\<lparr>cs_job := kWrite\<rparr>)"

definition cs_poll_write :: "'f FlashBackend \<Rightarrow> 'f ConfigStore \<Rightarrow> 'f ConfigStore" where
  "cs_poll_write ops s = (let (s, r) = cs_writeBlob ops s in if r \<noteq> kDone then s else cs_finishSave s)"

definition cs_poll :: "'f FlashBackend \<Rightarrow> 'f ConfigStore \<Rightarrow> 'f ConfigStore" where
  "cs_poll ops s =
     (if \<not> cs_ready s then s
      else if cs_mutation_unreconciled s \<and> fb_hasUnreconciledMutation ops (cs_flash s) then s
      else
        let s = (if cs_mutation_unreconciled s
                 then s\<lparr>cs_mutation_unreconciled := False, cs_recovery_pending := True\<rparr> else s) in
        case cs_job s of
          kNone \<Rightarrow> cs_poll_idle ops s
        | kErase \<Rightarrow> cs_poll_erase ops s
        | kWrite \<Rightarrow> cs_poll_write ops s)"

definition cs_takeSaveResult :: "'f ConfigStore \<Rightarrow> 'f ConfigStore \<times> bool option" where
  "cs_takeSaveResult s =
     (if \<not> cs_save_result_ready s then (s, None)
      else (s\<lparr>cs_save_result_ready := False\<rparr>, Some (cs_save_success s)))"

definition cs_stateToken :: "'f ConfigStore \<Rightarrow> StateToken option" where
  "cs_stateToken s = (if cs_token_state s \<noteq> kValid then None else Some (cs_token s))"

definition cs_hasCommittedRecord :: "'f ConfigStore \<Rightarrow> bool" where
  "cs_hasCommittedRecord s = cs_application_config_committed s"

section \<open>What recovery concludes from the cells\<close>

definition page_prefix :: "bytes \<Rightarrow> nat \<Rightarrow> bytes" where
  "page_prefix c p = slice (p * kPageSize) kMaxPagePrefixSize c"

definition page_insp :: "bytes \<Rightarrow> nat \<Rightarrow> PageInspection" where
  "page_insp c p = the (inspectPagePrefix (Some (page_prefix c p)))"

definition tail_clean :: "bytes \<Rightarrow> nat \<Rightarrow> bool" where
  "tail_clean c p = erased_from c p (ownedPrefixSize (pi_evidence (page_insp c p)))"

definition page_dirty :: "bytes \<Rightarrow> nat \<Rightarrow> bool" where
  "page_dirty c p \<longleftrightarrow> pi_evidence (page_insp c p) \<noteq> kUnsupportedNewer \<and> \<not> tail_clean c p"

definition scan_cells :: "bytes \<Rightarrow> recover_scan" where
  "scan_cells c = note_page (page_insp c 1) (page_dirty c 1) 1
     (note_page (page_insp c 0) (page_dirty c 0) 0 scan_init)"

locale config_flash = two_page_flash ops wf cells pending
  for ops :: "'f FlashBackend" and wf cells pending
begin

lemma cfg_recover_page_cells:
  assumes "wf f" "recover_page ops f p sc = Some sc'" "p < 2"
  shows "sc' = note_page (page_insp (cells f) p) (page_dirty (cells f) p) p sc"
proof -
  obtain bs insp where bs: "fb_read ops f (p * kPageSize) kMaxPagePrefixSize = Some bs"
    "inspectPagePrefix (Some bs) = Some insp"
    using assms(2) by (auto simp: recover_page_def split: option.splits)
  have i: "page_insp (cells f) p = insp"
    using read_cells [OF assms(1) bs(1)] bs(2) by (simp add: page_insp_def page_prefix_def)
  show ?thesis
  proof (cases "pi_evidence insp = kUnsupportedNewer")
    case True
    then show ?thesis using assms(2) bs i by (simp add: recover_page_def page_dirty_def)
  next
    case False
    then obtain t where t: "cs_readPageTailErased ops f p (ownedPrefixSize (pi_evidence insp)) = Some t"
      "sc' = note_page insp (\<not> t) p sc"
      using assms(2) bs by (auto simp: recover_page_def split: option.splits)
    have "t \<longleftrightarrow> tail_clean (cells f) p"
      using tail_scan_cells [OF assms(1) _ assms(3)] t(1)
      by (simp add: cs_readPageTailErased_def tail_clean_def erased_from_def i)
    then show ?thesis using t(2) i False by (simp add: page_dirty_def)
  qed
qed

lemma cfg_recover_cells:
  assumes "wf (cs_flash s)" "cs_recover ops s = (s', True)"
  shows "s' = recover_decide (count_scan (scan_cells (cells (cs_flash s))) s) (scan_cells (cells (cs_flash s)))"
proof -
  have two: "[0..<kConfigPageCount] = [0, 1]" by (simp add: kConfigPageCount_def upt_rec)
  obtain sc ok where sc: "recover_pages ops (cs_flash s) [0, 1] scan_init = (sc, ok)" by fastforce
  have ok: "ok" "s' = recover_decide (count_scan sc s) sc"
    using assms(2) sc
    by (simp_all add: cs_recover_def two Let_def del: recover_pages.simps split: if_splits)
  obtain sc0 where "recover_page ops (cs_flash s) 0 scan_init = Some sc0" "recover_page ops (cs_flash s) 1 sc0 = Some sc"
    using sc ok(1) by (auto split: option.splits)
  then have "sc = scan_cells (cells (cs_flash s))"
    using cfg_recover_page_cells [OF assms(1)] by (simp add: scan_cells_def)
  then show ?thesis using ok(2) by simp
qed

end

end
