(* ===== verification/Config_Durability.thy ===== *)
theory Config_Durability
  imports Config_Store
begin

text \<open>
  What the configuration store of \<open>firmware/src/config_store.cpp\<close> concludes from the cells of its two
  pages: the page a reboot adopts, the authority it takes from it, and what it finds after any prefix of
  an interrupted write.
\<close>

section \<open>The bookkeeping of one page\<close>

lemmas scan_updates = scan_corrupt_def scan_committed_def scan_fallback_def

lemma note_pages: "rs_pages (note_page i dirty p sc) = rs_pages sc @ [\<lparr>rp_inspection = i,
    rp_semantic_valid = (\<not> evidenceIsLegacy (pi_evidence i) \<and> pi_evidence i \<noteq> kUnsupportedNewer \<and>
       has_decoded_record i \<and> validCandidate (pi_config i)), rp_tail_dirty = dirty\<rparr>]"
  by (simp add: note_page_def Let_def scan_updates)

lemma note_erased: "rs_all_erased (note_page i dirty p sc) \<longleftrightarrow> rs_all_erased sc \<and> pi_evidence i = kErased \<and> \<not> dirty"
  by (simp add: note_page_def Let_def scan_updates)

lemma note_legacy: "rs_any_legacy (note_page i dirty p sc) \<longleftrightarrow> rs_any_legacy sc \<or> evidenceIsLegacy (pi_evidence i)"
  by (simp add: note_page_def Let_def scan_updates)

lemma note_unsupported: "rs_any_unsupported (note_page i dirty p sc) \<longleftrightarrow>
    rs_any_unsupported sc \<or> pi_evidence i = kUnsupportedNewer"
  by (simp add: note_page_def Let_def scan_updates evidenceIsLegacy_def)

lemma committed_only:
  assumes "evidenceIsCommitted e"
  shows "\<not> evidenceIsLegacy e" "e \<noteq> kUnsupportedNewer" "e \<noteq> kErased" "\<not> evidenceIsStaged e" "\<not> evidenceIsSafeUncommitted e"
  using assms by (auto simp: evidenceIsCommitted_def evidenceIsLegacy_def evidenceIsStaged_def
      evidenceIsSafeUncommitted_def evidenceIsUncommittedOrTorn_def)

lemma note_committed_pages: "rs_committed_pages (note_page i dirty p sc) = rs_committed_pages sc @
    (if evidenceIsCommitted (pi_evidence i) \<and> has_decoded_record i \<and> validCandidate (pi_config i) then [p] else [])"
  using committed_only [of "pi_evidence i"]
  by (cases "evidenceIsCommitted (pi_evidence i)") (simp_all add: note_page_def Let_def scan_updates)

lemma note_corrupt: "\<not> evidenceIsLegacy (pi_evidence i) \<Longrightarrow> pi_evidence i \<noteq> kUnsupportedNewer \<Longrightarrow>
  rs_any_supported_corrupt (note_page i dirty p sc) \<longleftrightarrow> rs_any_supported_corrupt sc \<or> dirty \<or>
    (if evidenceIsCommitted (pi_evidence i) then \<not> (has_decoded_record i \<and> validCandidate (pi_config i))
     else \<not> (evidenceIsStaged (pi_evidence i) \<or> evidenceIsSafeUncommitted (pi_evidence i)))"
  using committed_only [of "pi_evidence i"]
  by (cases "evidenceIsCommitted (pi_evidence i)") (simp_all add: note_page_def Let_def scan_updates)

lemmas note_simps = note_pages note_erased note_legacy note_unsupported note_committed_pages note_corrupt

section \<open>What the pages hold\<close>

text \<open>What a decoded prefix always carries.\<close>

lemma inspected_record:
  assumes "inspectPagePrefix (Some b) = Some i"
    and "evidenceIsCommitted (pi_evidence i) \<or> evidenceIsStaged (pi_evidence i)"
  shows "has_decoded_record i" "pi_generation i \<noteq> 0" "tk_incarnation (pi_token i) \<noteq> 0" "tk_revision (pi_token i) \<noteq> 0"
proof -
  have v2: "validV2Body b = Some r \<Longrightarrow> tr_generation r \<noteq> 0 \<and> tk_incarnation (tr_token r) \<noteq> 0 \<and> tk_revision (tr_token r) \<noteq> 0" for r
    by (auto simp: validV2Body_def split: if_splits)
  have v4: "validV4Body b = Some r \<Longrightarrow> tr_generation r \<noteq> 0 \<and> tk_incarnation (tr_token r) \<noteq> 0 \<and> tk_revision (tr_token r) \<noteq> 0" for r
    by (auto simp: validV4Body_def Let_def split: if_splits)
  have v1: "pi_evidence (setV1Inspection b j) = kLegacyV1Committed \<or> pi_evidence (setV1Inspection b j) = kLegacyV1CommittedCorrupt" for j
    by (auto simp: setV1Inspection_def split: option.split)
  have v1': "\<not> evidenceIsCommitted (pi_evidence (setV1Inspection b j)) \<and> \<not> evidenceIsStaged (pi_evidence (setV1Inspection b j))" for j
    using v1 [of j] by (auto simp: evidenceIsCommitted_def evidenceIsStaged_def)
  have "\<exists>e r. i = inspection_of e r \<and> (validV2Body b = Some r \<or> validV4Body b = Some r)"
    using assms v1' by (auto simp: inspectPagePrefix_def Let_def evidenceIsCommitted_def evidenceIsStaged_def
        split: if_splits option.splits)
  then show "has_decoded_record i" "pi_generation i \<noteq> 0" "tk_incarnation (pi_token i) \<noteq> 0" "tk_revision (pi_token i) \<noteq> 0"
    using v2 v4 by auto
qed

lemma length_page_prefix: "length c = kTwoPageRegion \<Longrightarrow> p < 2 \<Longrightarrow> length (page_prefix c p) = 72"
  by (simp add: page_prefix_def kTwoPageRegion_def kPageSize_def cf_layout)

lemma inspect_total: "52 \<le> length b \<Longrightarrow> \<exists>i. inspectPagePrefix (Some b) = Some i"
  by (simp add: inspectPagePrefix_def cf_layout Let_def split: option.split)

lemma page_insp_some:
  assumes "length c = kTwoPageRegion" "p < 2"
  shows "inspectPagePrefix (Some (page_prefix c p)) = Some (page_insp c p)"
  using inspect_total [of "page_prefix c p"] length_page_prefix [OF assms] by (auto simp: page_insp_def)

text \<open>The record a page holds committed, with a configuration the store accepts.\<close>

definition record_of :: "PageInspection \<Rightarrow> TokenizedRecord" where
  "record_of i = \<lparr>tr_generation = pi_generation i, tr_config = pi_config i, tr_token = pi_token i\<rparr>"

lemma record_of_inspection [simp]: "record_of (inspection_of e r) = r"
  by (simp add: record_of_def inspection_of_def)

lemma record_of_fields [simp]:
  "tr_generation (record_of i) = pi_generation i" "tr_config (record_of i) = pi_config i" "tr_token (record_of i) = pi_token i"
  by (simp_all add: record_of_def)

definition committed_at :: "bytes \<Rightarrow> nat \<Rightarrow> TokenizedRecord option" where
  "committed_at c p = (let i = page_insp c p in
     if evidenceIsCommitted (pi_evidence i) \<and> validCandidate (pi_config i) then Some (record_of i) else None)"

lemma cfg_committed_iff:
  assumes "length c = kTwoPageRegion" "p < 2"
  shows "evidenceIsCommitted (pi_evidence (page_insp c p)) \<and> has_decoded_record (page_insp c p) \<and>
      validCandidate (pi_config (page_insp c p)) \<longleftrightarrow> committed_at c p \<noteq> None"
  using inspected_record(1) [OF page_insp_some [OF assms]] by (auto simp: committed_at_def Let_def)

lemma cfg_committed_facts:
  assumes "length c = kTwoPageRegion" "p < 2" "committed_at c p = Some r"
  shows "record_of (page_insp c p) = r" "evidenceIsCommitted (pi_evidence (page_insp c p))"
    "validCandidate (tr_config r)" "has_decoded_record (page_insp c p)" "tokenized r"
    "page_dirty c p = (\<not> tail_clean c p)"
proof -
  show r: "record_of (page_insp c p) = r" "evidenceIsCommitted (pi_evidence (page_insp c p))" "validCandidate (tr_config r)"
    using assms(3) by (auto simp: committed_at_def Let_def split: if_splits)
  then show "has_decoded_record (page_insp c p)" "tokenized r"
    using inspected_record [OF page_insp_some [OF assms(1,2)]] by (auto simp: tokenized_def)
  show "page_dirty c p = (\<not> tail_clean c p)" using committed_only(2) [OF r(2)] by (simp add: page_dirty_def)
qed

text \<open>The scan of both pages.\<close>

lemma all_pages: "(\<forall>p<2. P p) \<longleftrightarrow> P (0 :: nat) \<and> P 1"
  by (auto simp: less_2_cases_iff)

lemma ex_page: "(\<exists>p<2. P p) \<longleftrightarrow> P (0 :: nat) \<or> P 1"
  by (auto simp: less_2_cases_iff)

lemma scan_facts:
  assumes "length c = kTwoPageRegion"
  shows "rs_committed_pages (scan_cells c) =
      (if committed_at c 0 \<noteq> None then [0] else []) @ (if committed_at c 1 \<noteq> None then [1] else [])"
    "scanned (scan_cells c) 0 = page_insp c 0" "scanned (scan_cells c) 1 = page_insp c 1"
    "rs_all_erased (scan_cells c) \<longleftrightarrow> (\<forall>p<2. pi_evidence (page_insp c p) = kErased \<and> \<not> page_dirty c p)"
    "rs_any_legacy (scan_cells c) \<longleftrightarrow> (\<exists>p<2. evidenceIsLegacy (pi_evidence (page_insp c p)))"
    "rs_any_unsupported (scan_cells c) \<longleftrightarrow> (\<exists>p<2. pi_evidence (page_insp c p) = kUnsupportedNewer)"
  using cfg_committed_iff [OF assms, of 0] cfg_committed_iff [OF assms, of 1]
  by (simp_all add: scan_cells_def note_simps scan_init_def scanned_def all_pages ex_page)

definition doubtful :: "bytes \<Rightarrow> nat \<Rightarrow> bool" where
  "doubtful c p \<longleftrightarrow> page_dirty c p \<or>
     (let e = pi_evidence (page_insp c p) in
      if evidenceIsCommitted e then committed_at c p = None
      else \<not> (evidenceIsStaged e \<or> evidenceIsSafeUncommitted e))"

lemma scan_doubt:
  assumes "length c = kTwoPageRegion" "\<not> rs_any_legacy (scan_cells c)" "\<not> rs_any_unsupported (scan_cells c)"
  shows "rs_any_supported_corrupt (scan_cells c) \<longleftrightarrow> doubtful c 0 \<or> doubtful c 1"
proof -
  have n: "\<not> evidenceIsLegacy (pi_evidence (page_insp c p)) \<and> pi_evidence (page_insp c p) \<noteq> kUnsupportedNewer" if "p < 2" for p
    using assms(2,3) that unfolding scan_facts(5,6) [OF assms(1)] by blast
  have d: "doubtful c p \<longleftrightarrow> page_dirty c p \<or>
      (if evidenceIsCommitted (pi_evidence (page_insp c p))
       then \<not> (has_decoded_record (page_insp c p) \<and> validCandidate (pi_config (page_insp c p)))
       else \<not> (evidenceIsStaged (pi_evidence (page_insp c p)) \<or> evidenceIsSafeUncommitted (pi_evidence (page_insp c p))))"
    if "p < 2" for p
    using cfg_committed_iff [OF assms(1) that] by (auto simp: doubtful_def Let_def)
  show ?thesis using n [of 0] n [of 1] d [of 0] d [of 1]
    by (simp add: scan_cells_def note_corrupt scan_init_def)
qed

section \<open>Lineage\<close>

definition successor :: "TokenizedRecord \<Rightarrow> TokenizedRecord \<Rightarrow> bool" where
  "successor r q \<longleftrightarrow> tr_generation r \<noteq> UINT64_MAX \<and> tk_revision (tr_token r) \<noteq> UINT32_MAX \<and>
     tr_generation q = tr_generation r + 1 \<and> tk_incarnation (tr_token q) = tk_incarnation (tr_token r) \<and>
     tk_revision (tr_token q) = tk_revision (tr_token r) + 1"

lemma successor_iff: "exactSuccessor i j \<longleftrightarrow> successor (record_of i) (record_of j)"
  by (simp add: exactSuccessor_def successor_def)

lemma lineage_iff: "exact_lineage i j \<longleftrightarrow> successor (record_of i) (record_of j)"
  by (auto simp: exact_lineage_def successor_def)

lemma successor_greater: "successor r q \<Longrightarrow> tr_generation r < tr_generation q"
  by (simp add: successor_def succ_greater)

definition applied_record :: "TokenizedRecord \<Rightarrow> bool" where
  "applied_record r \<longleftrightarrow> tk_revision (tr_token r) > 1 \<or> \<not> sameConfig (tr_config r) defaultConfig"

lemma application_committed_iff: "application_committed i = applied_record (record_of i)"
  by (simp add: application_committed_def applied_record_def)

section \<open>The authority a store holds and the one a reboot would find\<close>

type_synonym authority_view =
  "Config \<times> StateToken \<times> ConfigTokenState \<times> bool \<times> bool \<times> bool \<times> u64 \<times> int"

definition authority_of :: "'f ConfigStore \<Rightarrow> authority_view" where
  "authority_of s = (cs_config s, cs_token s, cs_token_state s, cs_semantic_unambiguous s,
     cs_maintenance_reset_required s, cs_application_config_committed s, cs_generation s, cs_active_page s)"

definition adopted :: "TokenizedRecord \<Rightarrow> nat \<Rightarrow> authority_view" where
  "adopted r p = (tr_config r, tr_token r, kValid, True, False, applied_record r, tr_generation r, int p)"

definition fallen_back :: "TokenizedRecord \<Rightarrow> bool \<Rightarrow> authority_view" where
  "fallen_back r app = (tr_config r, tr_token r, kUncertain, True, True, app, tr_generation r, -1)"

definition unconfigured :: authority_view where
  "unconfigured = (defaultConfig, StateToken_init, ConfigTokenState.kUnavailable, False, False, False, 0, -1)"

definition locked_out :: "ConfigTokenState \<Rightarrow> authority_view" where
  "locked_out t = (defaultConfig, StateToken_init, t, False, True, False, 0, -1)"

lemmas cfg_authority_setters = setAuthority_def setMaintenanceFallback_def setMaintenance_def
  clearRecoveredRuntimeState_def bump_def

lemma cfg_setter_authority [simp]:
  "authority_of (clearRecoveredRuntimeState s) = unconfigured"
  "authority_of (setMaintenance s t) = locked_out t"
  "authority_of (setMaintenanceFallback s i kUncertain app) = fallen_back (record_of i) app"
  "authority_of (setAuthority (clearRecoveredRuntimeState s) p i) = adopted (record_of i) p"
  by (simp_all add: authority_of_def cfg_authority_setters unconfigured_def locked_out_def fallen_back_def adopted_def
      application_committed_iff)

lemma recover_branch_authority:
  "authority_of (recover_one (clearRecoveredRuntimeState s) sc) =
   authority_of (recover_one (clearRecoveredRuntimeState s') sc)"
  "authority_of (recover_two (clearRecoveredRuntimeState s) sc) =
   authority_of (recover_two (clearRecoveredRuntimeState s') sc)"
  "authority_of (recover_two_corrupt (clearRecoveredRuntimeState s) sc) =
   authority_of (recover_two_corrupt (clearRecoveredRuntimeState s') sc)"
  "authority_of (recover_none (clearRecoveredRuntimeState s) sc) =
   authority_of (recover_none (clearRecoveredRuntimeState s') sc)"
  by (simp_all add: recover_one_def recover_two_def recover_two_corrupt_def recover_none_def Let_def split: prod.split)

definition reboot_authority :: "bytes \<Rightarrow> authority_view" where
  "reboot_authority c = authority_of (recover_decide (ConfigStore_init ()) (scan_cells c))"

lemma cfg_authority_recover: "authority_of (recover_decide s (scan_cells c)) = reboot_authority c"
proof -
  have "authority_of (recover_decide s sc) = authority_of (recover_decide s' sc)" for s' :: "unit ConfigStore" and sc
    using recover_branch_authority [of s sc s'] by (simp add: recover_decide_def Let_def)
  then show ?thesis by (simp add: reboot_authority_def)
qed

text \<open>Recovery writes nothing but the authority and the diagnostics.\<close>

definition same_frame :: "'f ConfigStore \<Rightarrow> 'f ConfigStore \<Rightarrow> bool" where
  "same_frame s s' \<longleftrightarrow> cs_flash s' = cs_flash s \<and> cs_job s' = cs_job s \<and> cs_blob s' = cs_blob s \<and>
     cs_blob_step s' = cs_blob_step s \<and> cs_awaiting_completion s' = cs_awaiting_completion s \<and>
     cs_ready s' = cs_ready s \<and> cs_recovery_pending s' = cs_recovery_pending s \<and>
     cs_mutation_unreconciled s' = cs_mutation_unreconciled s \<and>
     cs_save_result_ready s' = cs_save_result_ready s \<and> cs_save_success s' = cs_save_success s"

lemma cfg_setter_frame [simp]:
  "same_frame s (clearRecoveredRuntimeState s)"
  "same_frame s (setMaintenance (clearRecoveredRuntimeState s) t)"
  "same_frame s (setMaintenanceFallback (clearRecoveredRuntimeState s) i t app)"
  "same_frame s (setAuthority (clearRecoveredRuntimeState s) p i)"
  by (simp_all add: same_frame_def cfg_authority_setters)

lemma cfg_recover_frame: "same_frame s (recover_decide s sc)"
proof -
  have "same_frame s (recover_one (clearRecoveredRuntimeState s) sc)"
    "same_frame s (recover_two (clearRecoveredRuntimeState s) sc)"
    "same_frame s (recover_two_corrupt (clearRecoveredRuntimeState s) sc)"
    "same_frame s (recover_none (clearRecoveredRuntimeState s) sc)"
    by (simp_all add: recover_one_def recover_two_def recover_two_corrupt_def recover_none_def Let_def split: prod.split)
  then show ?thesis by (simp add: recover_decide_def Let_def)
qed

section \<open>Conclusions of recovery\<close>

lemma pages_from:
  fixes a :: nat
  assumes "a < 2"
  shows "(\<exists>p<2. P p) \<longleftrightarrow> P a \<or> P (1 - a)" "(\<forall>p<2. P p) \<longleftrightarrow> P a \<and> P (1 - a)"
    "P 0 \<or> P 1 \<longleftrightarrow> P a \<or> P (1 - a)"
  using page_cases [OF assms] by (auto simp: all_pages ex_page)

text \<open>A page that holds a committed record with nothing behind it.\<close>

definition holds :: "bytes \<Rightarrow> nat \<Rightarrow> TokenizedRecord \<Rightarrow> bool" where
  "holds c p r \<longleftrightarrow> committed_at c p = Some r \<and> tail_clean c p"

definition plain_page :: "bytes \<Rightarrow> nat \<Rightarrow> bool" where
  "plain_page c p \<longleftrightarrow> committed_at c p = None \<and> pi_evidence (page_insp c p) \<noteq> kUnsupportedNewer \<and>
     \<not> evidenceIsLegacy (pi_evidence (page_insp c p))"

text \<open>The other page is harmless: it does not cast doubt on the token of the committed one.\<close>

definition harmless :: "bytes \<Rightarrow> nat \<Rightarrow> TokenizedRecord \<Rightarrow> bool" where
  "harmless c p r \<longleftrightarrow> \<not> doubtful c p \<and>
     (evidenceIsStaged (pi_evidence (page_insp c p)) \<and> validCandidate (pi_config (page_insp c p)) \<longrightarrow>
        successor r (record_of (page_insp c p)))"

lemma holds_facts:
  assumes "length c = kTwoPageRegion" "p < 2" "holds c p r"
  shows "committed_at c p = Some r" "record_of (page_insp c p) = r" "evidenceIsCommitted (pi_evidence (page_insp c p))"
    "\<not> page_dirty c p" "\<not> doubtful c p" "tokenized r" "validCandidate (tr_config r)"
  using assms(3) cfg_committed_facts [OF assms(1,2)] by (auto simp: holds_def doubtful_def)

lemma cfg_recover_single:
  assumes len: "length c = kTwoPageRegion" and a: "a < 2" and r: "holds c a r" and o: "plain_page c (1 - a)"
  shows "reboot_authority c = (if harmless c (1 - a) r then adopted r a else fallen_back r (applied_record r))"
proof -
  define b where "b = 1 - a"
  have b: "Suc 0 - a = b" "b < 2" by (simp_all add: b_def)
  note o = o [folded b_def]
  note f = holds_facts [OF len a r] and co = committed_only [OF holds_facts(3) [OF len a r]]
  note sf = scan_facts [OF len]
  have leg: "\<not> rs_any_legacy (scan_cells c)" "\<not> rs_any_unsupported (scan_cells c)" "\<not> rs_all_erased (scan_cells c)"
    using o co by (simp_all add: sf(4-6) pages_from [OF a, folded b_def] plain_page_def)
  have doubt: "rs_any_supported_corrupt (scan_cells c) \<longleftrightarrow> doubtful c b"
    using scan_doubt [OF len leg(1,2)] pages_from(3) [OF a, folded b_def, of "doubtful c"] f(5) by simp
  have pages: "rs_committed_pages (scan_cells c) = [a]"
    using page_cases [OF a] f(1) o b by (auto simp: sf(1) plain_page_def)
  have ins: "scanned (scan_cells c) a = page_insp c a" "scanned (scan_cells c) b = page_insp c b"
    using page_cases [OF a] page_cases [OF b(2)] sf(2,3) by auto
  have valid: "rp_semantic_valid (rs_pages (scan_cells c) ! b) \<longleftrightarrow>
      has_decoded_record (page_insp c b) \<and> validCandidate (pi_config (page_insp c b))"
    using page_cases [OF b(2)] o by (auto simp: scan_cells_def note_pages scan_init_def plain_page_def)
  have dec: "evidenceIsStaged (pi_evidence (page_insp c b)) \<Longrightarrow> has_decoded_record (page_insp c b)"
    using inspected_record(1) [OF page_insp_some [OF len b(2)]] by simp
  have safe: "evidenceIsStaged (pi_evidence (page_insp c b)) \<or> evidenceIsSafeUncommitted (pi_evidence (page_insp c b))"
    if "\<not> doubtful c b"
    using that o by (auto simp: doubtful_def plain_page_def Let_def split: if_splits)
  show ?thesis unfolding b_def [symmetric]
    using safe dec f(2)
    by (auto simp add: b(1) reboot_authority_def recover_decide_def recover_one_def Let_def leg doubt pages ins valid harmless_def
        successor_iff application_committed_iff)
qed

lemma recover_two_successor:
  assumes "a < 2" "rs_committed_pages sc = [0, 1]" "successor (record_of (scanned sc a)) (record_of (scanned sc (1 - a)))"
  shows "recover_two s sc = setAuthority s (1 - a) (scanned sc (1 - a))"
proof -
  have lt: "pi_generation (scanned sc a) < pi_generation (scanned sc (1 - a))"
    "\<not> pi_generation (scanned sc (1 - a)) < pi_generation (scanned sc a)"
    using successor_greater [OF assms(3)] by simp_all
  note s = assms(3) [unfolded successor_def record_of_fields]
  from page_cases [OF assms(1)] show ?thesis
  proof
    assume a: "a = 0"
    show ?thesis using lt s assms(2) unfolding a by (simp add: recover_two_def Let_def)
  next
    assume a: "a = 1"
    show ?thesis using lt s assms(2) unfolding a by (simp add: recover_two_def Let_def)
  qed
qed

lemma cfg_recover_pair:
  assumes len: "length c = kTwoPageRegion" and a: "a < 2" and r: "holds c a r" and q: "holds c (1 - a) q"
    and s: "successor r q"
  shows "reboot_authority c = adopted q (1 - a)"
proof -
  have b: "1 - a < 2" by simp
  note f = holds_facts [OF len a r] and g = holds_facts [OF len b q] and sf = scan_facts [OF len]
  note cf = committed_only [OF f(3)] and cg = committed_only [OF g(3)]
  have leg: "\<not> rs_any_legacy (scan_cells c)" "\<not> rs_any_unsupported (scan_cells c)" "\<not> rs_all_erased (scan_cells c)"
    using cf cg by (simp_all add: sf(4-6) pages_from [OF a])
  have doubt: "\<not> rs_any_supported_corrupt (scan_cells c)"
    using scan_doubt [OF len leg(1,2)] pages_from(3) [OF a, of "doubtful c"] f(5) g(5) by simp
  have pages: "rs_committed_pages (scan_cells c) = [0, 1]"
    using page_cases [OF a] f(1) g(1) by (auto simp: sf(1))
  have ins: "scanned (scan_cells c) a = page_insp c a" "scanned (scan_cells c) (1 - a) = page_insp c (1 - a)"
    using page_cases [OF a] sf(2,3) by auto
  have "recover_two z (scan_cells c) = setAuthority z (1 - a) (page_insp c (1 - a))" for z :: "unit ConfigStore"
    using recover_two_successor [OF a pages, of z] s f(2) g(2) unfolding ins by simp
  then show ?thesis
    using g(2) by (simp add: reboot_authority_def recover_decide_def Let_def leg doubt pages)
qed

lemma branch_tokens [simp]:
  "cs_token_state (recover_none s sc) \<noteq> kValid" "cs_token_state (recover_two_corrupt s sc) \<noteq> kValid"
  by (simp_all add: recover_none_def recover_two_corrupt_def Let_def setMaintenance_def setMaintenanceFallback_def bump_def
      split: prod.split)

text \<open>A valid token always stands for a record a page holds.\<close>

lemma cfg_recover_valid:
  assumes len: "length c = kTwoPageRegion" and v: "reboot_authority c = (cf, tk, kValid, rest)"
  shows "\<exists>a r. a < 2 \<and> holds c a r \<and> reboot_authority c = adopted r a"
proof -
  let ?s = "ConfigStore_init () :: unit ConfigStore" and ?sc = "scan_cells c"
  let ?d = "recover_decide ?s ?sc" and ?z = "clearRecoveredRuntimeState (ConfigStore_init () :: unit ConfigStore)"
  note sf = scan_facts [OF len]
  have val: "cs_token_state ?d = kValid" using v by (simp add: reboot_authority_def authority_of_def)
  have leg: "\<not> rs_any_legacy ?sc" "\<not> rs_any_unsupported ?sc"
    using val by (auto simp: recover_decide_def Let_def cfg_authority_setters split: if_splits)
  note doubt = scan_doubt [OF len leg]
  have pick: ?thesis if "a < 2" "committed_at c a \<noteq> None" "\<not> doubtful c a" "?d = setAuthority ?z a (page_insp c a)" for a
  proof -
    note h = that
    obtain r where r: "committed_at c a = Some r" using h(2) by blast
    note f = cfg_committed_facts [OF len h(1) r]
    have "tail_clean c a" using h(3) f(6) by (simp add: doubtful_def)
    then show ?thesis using h(1,4) r f(1) by (intro exI [of _ a] exI [of _ r]) (simp add: holds_def reboot_authority_def)
  qed
  have one: "cs_token_state (recover_one ?z ?sc) = kValid \<Longrightarrow>
      \<not> rs_any_supported_corrupt ?sc \<and> recover_one ?z ?sc = setAuthority ?z (rs_committed_pages ?sc ! 0) (scanned ?sc (rs_committed_pages ?sc ! 0))"
    by (auto simp: recover_one_def Let_def setMaintenance_def setMaintenanceFallback_def bump_def split: if_splits)
  have two: "cs_token_state (recover_two ?z ?sc) = kValid \<Longrightarrow>
      recover_two ?z ?sc = setAuthority ?z (rs_committed_pages ?sc ! 0) (scanned ?sc (rs_committed_pages ?sc ! 0)) \<or>
      recover_two ?z ?sc = setAuthority ?z (rs_committed_pages ?sc ! 1) (scanned ?sc (rs_committed_pages ?sc ! 1))"
    by (auto simp: recover_two_def Let_def setMaintenance_def setMaintenanceFallback_def bump_def split: if_splits)
  consider "length (rs_committed_pages ?sc) = 2" "\<not> rs_any_supported_corrupt ?sc" "?d = recover_two ?z ?sc"
    | "length (rs_committed_pages ?sc) = 1" "?d = recover_one ?z ?sc"
    using val leg sf(1)
    by (auto simp: recover_decide_def Let_def clearRecoveredRuntimeState_def split: if_splits)
  then show ?thesis
  proof cases
    case 1
    then have "committed_at c 0 \<noteq> None" "committed_at c 1 \<noteq> None" "rs_committed_pages ?sc = [0, 1]"
      by (auto simp: sf(1) split: if_splits)
    then show ?thesis using two val 1 pick [of 0] pick [of 1] doubt sf(2,3) by auto
  next
    case 2
    have "\<not> doubtful c 0 \<and> \<not> doubtful c 1" using one val 2 doubt by simp
    moreover have "rs_committed_pages ?sc = [0] \<and> committed_at c 0 \<noteq> None \<or> rs_committed_pages ?sc = [1] \<and> committed_at c 1 \<noteq> None"
      using 2(1) by (auto simp: sf(1) split: if_splits)
    ultimately show ?thesis using one val 2 pick [of 0] pick [of 1] sf(2,3) by auto
  qed
qed

text \<open>The fresh baseline is written only on a region that is blank.\<close>

lemma cfg_recover_blank:
  assumes len: "length c = kTwoPageRegion"
    and b: "reboot_authority c = (cf, tk, ConfigTokenState.kUnavailable, u, False, rest)"
  shows "p < 2 \<Longrightarrow> pi_evidence (page_insp c p) = kErased" "p < 2 \<Longrightarrow> \<not> page_dirty c p"
proof -
  have v: "authority_of s = (cf, tk, ConfigTokenState.kUnavailable, u, False, rest) \<Longrightarrow>
      cs_token_state s = ConfigTokenState.kUnavailable \<and> \<not> cs_maintenance_reset_required s" for s :: "unit ConfigStore"
    by (simp add: authority_of_def)
  have all: "rs_all_erased (scan_cells c)"
  proof (rule ccontr)
    assume "\<not> rs_all_erased (scan_cells c)"
    then show False using v [OF b [unfolded reboot_authority_def]]
      by (auto simp: recover_decide_def recover_one_def recover_two_def recover_two_corrupt_def recover_none_def Let_def
          setAuthority_def setMaintenanceFallback_def setMaintenance_def bump_def split: if_splits prod.splits)
  qed
  then show "p < 2 \<Longrightarrow> pi_evidence (page_insp c p) = kErased" "p < 2 \<Longrightarrow> \<not> page_dirty c p"
    unfolding scan_facts(4) [OF len] by blast+
qed

end
