(* ===== verification/Config_Power_Cut.thy ===== *)
theory Config_Power_Cut
  imports Config_Durability
begin

text \<open>
  The cells of the configuration region when power fails during a save, and what
  \<open>firmware/src/config_store.cpp\<close> concludes from them on the next boot.
\<close>

lemma cfg_page_congs:
  assumes "\<And>i. i < kPageSize \<Longrightarrow> d ! (p * kPageSize + i) = c ! (p * kPageSize + i)"
    and "length d = kTwoPageRegion" "length c = kTwoPageRegion" "p < 2"
  shows "page_insp d p = page_insp c p" "tail_clean d p = tail_clean c p" "holds d p r = holds c p r"
proof -
  have "page_prefix d p = page_prefix c p"
  proof (rule nth_equalityI)
    show "length (page_prefix d p) = length (page_prefix c p)" using length_page_prefix assms by simp
    fix i assume "i < length (page_prefix d p)"
    then have "i < 72" using length_page_prefix assms by simp
    then show "page_prefix d p ! i = page_prefix c p ! i"
      using assms(1) [of i] page_room [OF assms(4)] assms(2,3) by (simp add: page_prefix_def cf_layout kPageSize_def)
  qed
  then show i: "page_insp d p = page_insp c p" by (simp add: page_insp_def)
  show t: "tail_clean d p = tail_clean c p"
    using assms(1) by (simp add: tail_clean_def i erased_from_def)
  show "holds d p r = holds c p r" by (simp add: holds_def committed_at_def i t)
qed

text \<open>A change inside one page leaves what the other page holds.\<close>

lemma cfg_confined_other_page:
  assumes "confined c d lo n" "t * kPageSize \<le> lo" "lo + n \<le> t * kPageSize + kPageSize"
    and "length c = kTwoPageRegion" "t < 2" "p < 2" "p \<noteq> t"
  shows "page_insp d p = page_insp c p" "tail_clean d p = tail_clean c p" "holds d p r = holds c p r"
  using cfg_page_congs [OF confined_same [OF assms] _ assms(4,6)] assms(1,4) by (simp_all add: confined_def)

section \<open>A torn record\<close>

text \<open>The cells when the first \<open>k\<close> words of a record have reached the page \<open>t\<close>.\<close>

definition interrupted :: "bytes \<Rightarrow> nat \<Rightarrow> TokenizedRecord \<Rightarrow> nat \<Rightarrow> bytes" where
  "interrupted c t r k = write_at (t * kPageSize) (take (4 * k) (v8_image r)) c"

lemma cfg_length_interrupted [simp]: "length (interrupted c t r k) = length c"
  by (simp add: interrupted_def)

lemma interrupted_confined:
  assumes "length c = kTwoPageRegion" "t < 2" "k \<le> 17"
  shows "confined c (interrupted c t r k) (t * kPageSize) (4 * k)"
proof -
  have "length (take (4 * k) (v8_image r)) = 4 * k" using assms(3) by simp
  moreover have "t * kPageSize + 4 * k \<le> length c" using page_room [OF assms(2)] assms(1,3) by (simp add: kPageSize_def)
  ultimately show ?thesis
    using write_at_confined [of "t * kPageSize" "take (4 * k) (v8_image r)" c] by (simp add: interrupted_def)
qed

text \<open>A page with the first words of a record on it and nothing behind them.\<close>

definition torn_at :: "bytes \<Rightarrow> nat \<Rightarrow> TokenizedRecord \<Rightarrow> nat \<Rightarrow> bool" where
  "torn_at c t r k \<longleftrightarrow> slice (t * kPageSize) (4 * k) c = take (4 * k) (v8_image r) \<and> erased_from c t (4 * k)"

lemma torn_at_prefix:
  assumes "torn_at c t r k" "length c = kTwoPageRegion" "t < 2" "k \<le> 17"
  shows "page_prefix c t = torn_prefix r k"
proof (rule nth_equalityI)
  show "length (page_prefix c t) = length (torn_prefix r k)"
    using length_page_prefix [OF assms(2,3)] length_torn_prefix [OF assms(4)] by simp
  fix i assume "i < length (page_prefix c t)"
  then have i: "i < 72" using length_page_prefix [OF assms(2,3)] by simp
  have room: "t * kPageSize + kPageSize \<le> length c" using page_room [OF assms(3)] assms(2) by simp
  have "page_prefix c t ! i = c ! (t * kPageSize + i)"
    using i room by (simp add: page_prefix_def cf_layout kPageSize_def)
  also have "\<dots> = torn_prefix r k ! i"
  proof (cases "i < 4 * k")
    case True
    have "slice (t * kPageSize) (4 * k) c ! i = take (4 * k) (v8_image r) ! i"
      using assms(1) by (simp add: torn_at_def)
    then show ?thesis using True i room assms(4) by (simp add: kPageSize_def torn_prefix_nth)
  next
    case False
    then show ?thesis using i assms(1,4) by (simp add: torn_at_def erased_from_def kPageSize_def torn_prefix_erased)
  qed
  finally show "page_prefix c t ! i = torn_prefix r k ! i" .
qed

lemma cfg_interrupted_target:
  assumes "length c = kTwoPageRegion" "t < 2" "k \<le> 17" "blank c t"
  shows "torn_at (interrupted c t r k) t r k"
proof -
  have room: "t * kPageSize + 4 * k \<le> length c" "t * kPageSize + kPageSize \<le> length c"
    using page_room [OF assms(2)] assms(1,3) by (simp_all add: kPageSize_def)
  have "slice (t * kPageSize) (4 * k) (interrupted c t r k) = take (4 * k) (v8_image r)"
    using room assms(3) by (intro nth_equalityI) (simp_all add: interrupted_def nth_write_at)
  moreover have "erased_from (interrupted c t r k) t (4 * k)"
    using interrupted_confined [OF assms(1-3)] assms(4) room by (auto simp: confined_def erased_from_def blank_def)
  ultimately show ?thesis by (simp add: torn_at_def)
qed

lemma torn_at_evidence:
  assumes "torn_at c t r k" "length c = kTwoPageRegion" "t < 2" "k \<le> 17" "tokenized r"
  shows "k = 0 \<longrightarrow> page_insp c t = bare kErased" "k = 1 \<longrightarrow> page_insp c t = bare kSupportedCorrupt"
    "2 \<le> k \<and> k \<le> 15 \<longrightarrow> page_insp c t = bare kV4UncommittedOrTorn \<or> page_insp c t = inspection_of kV4Staged r"
    "k = 16 \<longrightarrow> page_insp c t = inspection_of kV4Staged r" "k = 17 \<longrightarrow> page_insp c t = inspection_of kV4Committed r"
    "tail_clean c t"
proof -
  obtain i where i: "inspectPagePrefix (Some (torn_prefix r k)) = Some i"
    "k = 0 \<longrightarrow> i = bare kErased" "k = 1 \<longrightarrow> i = bare kSupportedCorrupt"
    "2 \<le> k \<and> k \<le> 14 \<longrightarrow> i = bare kV4UncommittedOrTorn"
    "k = 15 \<longrightarrow> i = bare kV4UncommittedOrTorn \<or> i = inspection_of kV4Staged r"
    "k = 16 \<longrightarrow> i = inspection_of kV4Staged r" "k = 17 \<longrightarrow> i = inspection_of kV4Committed r"
    using torn_prefix_inspection [OF assms(5,4)] by (elim exE conjE) (rule that; assumption)
  have p: "page_insp c t = i" using i(1) torn_at_prefix [OF assms(1-4)] by (simp add: page_insp_def)
  show e: "k = 0 \<longrightarrow> page_insp c t = bare kErased" "k = 1 \<longrightarrow> page_insp c t = bare kSupportedCorrupt"
    "2 \<le> k \<and> k \<le> 15 \<longrightarrow> page_insp c t = bare kV4UncommittedOrTorn \<or> page_insp c t = inspection_of kV4Staged r"
    "k = 16 \<longrightarrow> page_insp c t = inspection_of kV4Staged r" "k = 17 \<longrightarrow> page_insp c t = inspection_of kV4Committed r"
    using i p by (cases "k = 15"; auto)+
  have "4 * k \<le> ownedPrefixSize (pi_evidence (page_insp c t))"
  proof -
    consider "k = 0" | "k = 1" | "2 \<le> k" "k \<le> 15" | "k = 16" | "k = 17" using assms(4) by linarith
    then show ?thesis using e by cases (auto simp: cf_layout)
  qed
  then show "tail_clean c t" using assms(1) by (auto simp: tail_clean_def torn_at_def erased_from_def)
qed

lemma cfg_torn_harmless:
  assumes "torn_at c t new k" "length c = kTwoPageRegion" "t < 2" "k \<le> 16" "tokenized new" "successor old new"
  shows "plain_page c t" "harmless c t old \<longleftrightarrow> k \<noteq> 1"
proof -
  have k: "k \<le> 17" using assms(4) by simp
  note e = torn_at_evidence [OF assms(1-3) k assms(5)]
  have "page_insp c t = bare kErased \<and> k \<noteq> 1 \<or> page_insp c t = bare kSupportedCorrupt \<and> k = 1 \<or>
      page_insp c t = bare kV4UncommittedOrTorn \<and> k \<noteq> 1 \<or> page_insp c t = inspection_of kV4Staged new \<and> k \<noteq> 1"
  proof -
    consider "k = 0" | "k = 1" | "2 \<le> k" "k \<le> 15" | "k = 16" using assms(4) by linarith
    then show ?thesis using e(1-4) by cases auto
  qed
  then show "plain_page c t" "harmless c t old \<longleftrightarrow> k \<noteq> 1"
    using assms(6) e(6)
    by (auto simp: plain_page_def harmless_def doubtful_def page_dirty_def committed_at_def Let_def evidenceIsLegacy_def
        evidenceIsCommitted_def evidenceIsStaged_def evidenceIsSafeUncommitted_def evidenceIsUncommittedOrTorn_def)
qed

lemma torn_whole:
  assumes "torn_at c t r 17" "length c = kTwoPageRegion" "t < 2" "tokenized r" "validCandidate (tr_config r)"
  shows "holds c t r"
  using torn_at_evidence(5,6) [OF assms(1-3) _ assms(4)] assms(5)
  by (simp add: holds_def committed_at_def evidenceIsCommitted_def)

text \<open>What a reboot concludes after any prefix of a save.\<close>

lemma cfg_cut_recovers:
  assumes len: "length c = kTwoPageRegion" and p: "p < 2" and old: "holds c p old"
    and new: "tokenized new" "validCandidate (tr_config new)" "successor old new"
    and torn: "torn_at c (1 - p) new k" and k: "k \<le> 17"
  shows "reboot_authority c =
    (if k = 17 then adopted new (1 - p) else if k = 1 then fallen_back old (applied_record old) else adopted old p)"
proof -
  have t: "1 - p < 2" by simp
  show ?thesis
  proof (cases "k = 17")
    case True
    then show ?thesis using cfg_recover_pair [OF len p old torn_whole [OF _ len t new(1,2)] new(3)] torn by simp
  next
    case False
    then have "k \<le> 16" using k by simp
    note h = cfg_torn_harmless [OF torn len t this new(1,3)]
    show ?thesis unfolding cfg_recover_single [OF len p old h(1)] h(2) using False by simp
  qed
qed

lemma cut_interrupted:
  assumes len: "length c = kTwoPageRegion" and p: "p < 2" and old: "holds c p old"
    and new: "tokenized new" "validCandidate (tr_config new)" "successor old new"
    and b: "blank c (1 - p)" and k: "k \<le> 17"
  shows "reboot_authority (interrupted c (1 - p) new k) =
    (if k = 17 then adopted new (1 - p) else if k = 1 then fallen_back old (applied_record old) else adopted old p)"
proof -
  have t: "1 - p < 2" "p \<noteq> 1 - p" using p by (simp, arith)
  have "4 * k \<le> kPageSize" using k by (simp add: kPageSize_def)
  then have "holds (interrupted c (1 - p) new k) p old"
    using cfg_confined_other_page(3) [OF interrupted_confined [OF len t(1) k] _ _ len t(1) p t(2)] old by simp
  from cfg_cut_recovers [OF _ p this new cfg_interrupted_target [OF len t(1) k b] k] len show ?thesis by simp
qed

end
