(* ===== verification/Config_Store_Invariant.thy ===== *)
theory Config_Store_Invariant
  imports Config_Power_Cut
begin

text \<open>
  The invariant of the configuration store of \<open>firmware/src/config_store.cpp\<close> and its preservation by
  every operation, proved once for any backend that keeps the flash contract: at rest the authority in
  RAM is the one a reboot would find, and while a save runs the old record stays committed on the active
  page.
\<close>

section \<open>The invariant of the store\<close>

definition current_record :: "'f ConfigStore \<Rightarrow> TokenizedRecord" where
  "current_record s = \<lparr>tr_generation = cs_generation s, tr_config = cs_config s, tr_token = cs_token s\<rparr>"

definition pending_record :: "'f ConfigStore \<Rightarrow> TokenizedRecord" where
  "pending_record s = \<lparr>tr_generation = cs_pending_generation s, tr_config = cs_pending_config s, tr_token = cs_pending_token s\<rparr>"

text \<open>
  While a save runs, the active page still holds the current record, the other page is the target, the
  blob is the image of its exact successor, and the page under construction is blank before the body is
  programmed and clean behind the record afterwards; \<open>pd\<close> is the accepted but unfinished flash operation.
\<close>

definition phase_ok :: "bytes \<Rightarrow> (nat \<times> bytes) option \<Rightarrow> 'f ConfigStore \<Rightarrow> bool" where
  "phase_ok c pd s \<longleftrightarrow> (let off = cs_target_page s * kPageSize in
     case cs_job s of
       kNone \<Rightarrow> False
     | kErase \<Rightarrow> cs_blob_step s = kBody \<and> (cs_awaiting_completion s \<longrightarrow> pd = Some (off, replicate kPageSize 0xFF))
     | kWrite \<Rightarrow>
         (case cs_blob_step s of
            kBody \<Rightarrow> if cs_awaiting_completion s
                    then pd = Some (off, take kWriteBodyAndCrcSize (cs_blob s)) \<and> erased_from c (cs_target_page s) 68
                    else blank c (cs_target_page s)
          | BlobStep.kCommit \<Rightarrow> cs_awaiting_completion s \<and> erased_from c (cs_target_page s) 68 \<and>
              pd = Some (off + kWriteCommitOffset, slice kWriteCommitOffset 4 (cs_blob s))
          | kVerify \<Rightarrow> False))"

definition save_base :: "bytes \<Rightarrow> 'f ConfigStore \<Rightarrow> bool" where
  "save_base c s \<longleftrightarrow> length c = kTwoPageRegion \<and>
     cs_target_page s < 2 \<and> cs_active_page s = int (1 - cs_target_page s) \<and>
     holds c (1 - cs_target_page s) (current_record s) \<and>
     successor (current_record s) (pending_record s) \<and> validCandidate (cs_pending_config s) \<and>
     cs_blob s = v8_image (pending_record s) \<and>
     authority_of s = adopted (current_record s) (1 - cs_target_page s)"

definition saving :: "bytes \<Rightarrow> (nat \<times> bytes) option \<Rightarrow> 'f ConfigStore \<Rightarrow> bool" where
  "saving c pd s \<longleftrightarrow> save_base c s \<and> phase_ok c pd s \<and> cs_ready s \<and>
     \<not> cs_recovery_pending s \<and> \<not> cs_mutation_unreconciled s"

definition at_rest :: "bytes \<Rightarrow> 'f ConfigStore \<Rightarrow> bool" where
  "at_rest c s \<longleftrightarrow> cs_job s = kNone \<and>
     (cs_ready s \<and> \<not> cs_recovery_pending s \<and> \<not> cs_mutation_unreconciled s \<longrightarrow> authority_of s = reboot_authority c) \<and>
     (cs_token_state s = kValid \<longrightarrow> cs_ready s \<and> \<not> cs_recovery_pending s \<and> \<not> cs_mutation_unreconciled s)"

definition config_inv :: "bytes \<Rightarrow> (nat \<times> bytes) option \<Rightarrow> 'f ConfigStore \<Rightarrow> bool" where
  "config_inv c pd s \<longleftrightarrow> length (cs_blob s) = 68 \<and> (at_rest c s \<or> saving c pd s)"

lemma record_sizes: "kWriteBodyAndCrcSize = 64" "kWriteCommitOffset = 64" "kWriteRecordSize = 68"
  by (simp_all add: kWriteBodyAndCrcSize_def kWriteCommitOffset_def kWriteRecordSize_def cf_layout)

lemma word_succ_nonzero: "x \<noteq> UINT64_MAX \<Longrightarrow> x + 1 \<noteq> (0 :: u64)" "y \<noteq> UINT32_MAX \<Longrightarrow> y + 1 \<noteq> (0 :: u32)"
  by (auto simp: add_eq_0_iff2)

lemma revision_grows:
  assumes "y \<noteq> UINT32_MAX" "y \<noteq> 0"
  shows "1 < y + (1 :: u32)"
proof -
  have "1 + y \<noteq> 0" using word_succ_nonzero(2) [OF assms(1)] by (simp add: add.commute)
  then have "unat (y + 1) = Suc (unat y)" by (simp add: unatSuc add.commute)
  moreover have "unat y \<noteq> 0" using assms(2) by (simp add: unat_eq_0)
  ultimately show ?thesis by (simp add: word_less_nat_alt)
qed

lemma successor_tokenized:
  assumes "tokenized r" "successor r q"
  shows "tokenized q" "applied_record q"
  using assms word_succ_nonzero revision_grows by (simp_all add: tokenized_def successor_def applied_record_def)

lemma base_facts:
  assumes "save_base c s"
  shows "length c = kTwoPageRegion" "cs_target_page s < 2" "holds c (1 - cs_target_page s) (current_record s)"
    "successor (current_record s) (pending_record s)" "tokenized (pending_record s)" "applied_record (pending_record s)"
    "validCandidate (tr_config (pending_record s))" "cs_blob s = v8_image (pending_record s)" "length (cs_blob s) = 68"
proof -
  show f: "length c = kTwoPageRegion" "cs_target_page s < 2" "holds c (1 - cs_target_page s) (current_record s)"
    "successor (current_record s) (pending_record s)" "cs_blob s = v8_image (pending_record s)"
    "validCandidate (tr_config (pending_record s))"
    using assms by (simp_all add: save_base_def pending_record_def)
  then show "length (cs_blob s) = 68" by simp
  have "tokenized (current_record s)" using holds_facts(6) [OF f(1) _ f(3)] by simp
  then show "tokenized (pending_record s)" "applied_record (pending_record s)"
    using successor_tokenized f(4) by blast+
qed

lemma save_base_confined:
  assumes "save_base c s" "confined c d lo n" "cs_target_page s * kPageSize \<le> lo"
    "lo + n \<le> cs_target_page s * kPageSize + kPageSize"
  shows "save_base d s"
proof -
  note f = base_facts [OF assms(1)]
  have "1 - cs_target_page s < 2" "1 - cs_target_page s \<noteq> cs_target_page s" using f(2) by (arith, arith)
  from cfg_confined_other_page(3) [OF assms(2-4) f(1,2) this] show ?thesis
    using assms(1,2) by (simp add: save_base_def confined_def)
qed

lemma cfg_reboot_after_commit:
  assumes b: "save_base c s" and w: "slice (cs_target_page s * kPageSize) 68 c = cs_blob s"
    and e: "erased_from c (cs_target_page s) 68"
  shows "reboot_authority c = authority_of (cs_finishSave s)"
proof -
  let ?t = "cs_target_page s"
  note f = base_facts [OF b]
  have t: "1 - ?t < 2" "1 - (1 - ?t) = ?t" using f(2) by (simp, arith)
  have "torn_at c ?t (pending_record s) 17" using w e f(8) by (simp add: torn_at_def)
  then have "reboot_authority c = adopted (pending_record s) ?t"
    using cfg_cut_recovers [OF f(1) t(1) f(3) f(5,7,4), of 17] t(2) by simp
  then show ?thesis using f(6)
    by (simp add: adopted_def authority_of_def cs_finishSave_def bump_def pending_record_def)
qed

lemma cfg_fail_at_rest [simp]:
  "at_rest c (cs_fail ops s)" "cs_blob (cs_fail ops s) = cs_blob s" "cs_flash (cs_fail ops s) = cs_flash s"
  by (simp_all add: at_rest_def cs_fail_def Let_def bump_def)

lemma cfg_base_cong:
  assumes "save_base c s" "cs_target_page s' = cs_target_page s" "authority_of s' = authority_of s"
    "pending_record s' = pending_record s" "cs_blob s' = cs_blob s"
  shows "save_base c s'"
proof -
  have "current_record s' = current_record s" "cs_active_page s' = cs_active_page s"
    using assms(3) by (simp_all add: authority_of_def current_record_def)
  moreover have "cs_pending_config s' = cs_pending_config s" using assms(4) by (simp add: pending_record_def)
  ultimately show ?thesis using assms by (simp add: save_base_def)
qed

text \<open>What one poll of a running save may do to it: keep it running, fail it, or finish it.\<close>

definition kept :: "'f ConfigStore \<Rightarrow> 'f ConfigStore \<Rightarrow> bool" where
  "kept s s' \<longleftrightarrow> pending_record s' = pending_record s \<and> current_record s' = current_record s \<and>
     cs_target_page s' = cs_target_page s \<and> cs_save_result_ready s' = cs_save_result_ready s"

definition outcome :: "bytes \<Rightarrow> 'f ConfigStore \<Rightarrow> 'f ConfigStore \<Rightarrow> bool" where
  "outcome c s s' \<longleftrightarrow>
     (if cs_busy s' then kept s s'
      else cs_save_result_ready s' \<and> cs_target_page s' = cs_target_page s \<and>
        holds c (1 - cs_target_page s) (current_record s) \<and>
        (if cs_save_success s' then current_record s' = pending_record s \<and> cs_token_state s' = kValid
         else cs_token_state s' = kUncertain))"

lemma cfg_kept_outcome: "kept s s1 \<Longrightarrow> outcome c s1 s2 \<Longrightarrow> outcome c s s2"
  by (auto simp: kept_def outcome_def)

lemma cfg_fail_outcome:
  assumes "save_base c s" "kept s0 s"
  shows "outcome c s0 (cs_fail ops s)"
  using assms by (simp add: outcome_def cs_fail_def Let_def cs_busy_def save_base_def kept_def bump_def)

lemma cfg_finish_outcome:
  assumes "save_base c s" "kept s0 s"
  shows "outcome c s0 (cs_finishSave (s\<lparr>cs_blob_step := st\<rparr>))"
  using assms by (simp add: outcome_def cs_finishSave_def cs_busy_def save_base_def kept_def bump_def
      current_record_def pending_record_def)

lemma cfg_authority_valid: "authority_of s = authority_of s' \<Longrightarrow> cs_token_state s = cs_token_state s'"
  by (simp add: authority_of_def)

lemma cfg_same_frame_trans: "same_frame s t \<Longrightarrow> same_frame t u \<Longrightarrow> same_frame s u"
  by (simp add: same_frame_def)

lemma cfg_count_same_frame: "same_frame s (count_scan sc s)" "authority_of (count_scan sc s) = authority_of s"
  by (simp_all add: same_frame_def count_scan_def bump_def authority_of_def)

section \<open>Recovery and the idle poll\<close>

lemma recover_shape:
  obtains sc where "cs_recover ops s = (count_scan sc s, False)"
  | sc where "cs_recover ops s = (recover_decide (count_scan sc s) sc, True)"
proof -
  obtain sc k where "recover_pages ops (cs_flash s) [0..<kConfigPageCount] scan_init = (sc, k)" by fastforce
  then show thesis using that by (cases k) (simp_all add: cs_recover_def Let_def)
qed

lemma cfg_recover_frames: "cs_recover ops s = (s', ok) \<Longrightarrow> same_frame s s'"
  using recover_shape [of ops s "same_frame s s'"] cfg_count_same_frame(1) [of s] cfg_recover_frame cfg_same_frame_trans
  by (metis (no_types, lifting) prod.inject)

lemma cfg_recover_failed: "cs_recover ops s = (s', False) \<Longrightarrow> authority_of s' = authority_of s"
  by (rule recover_shape [of ops s]) (auto simp: cfg_count_same_frame)

context config_flash
begin

lemma cfg_recover_authority:
  assumes "wf (cs_flash s)" "cs_recover ops s = (s', True)"
  shows "authority_of s' = reboot_authority (cells (cs_flash s'))"
proof -
  have "cs_flash s' = cs_flash s" using cfg_recover_frames [OF assms(2)] by (simp add: same_frame_def)
  then show ?thesis using cfg_recover_cells [OF assms] cfg_authority_recover by metis
qed

lemma cfg_poll_idle_rest:
  assumes "wf (cs_flash s)" "cs_job s = kNone" "cs_ready s" "\<not> cs_mutation_unreconciled s"
    and "cs_recovery_pending s \<or> at_rest (cells (cs_flash s)) s"
  shows "at_rest (cells (cs_flash (cs_poll_idle ops s))) (cs_poll_idle ops s) \<and>
    cs_flash (cs_poll_idle ops s) = cs_flash s \<and> cs_blob (cs_poll_idle ops s) = cs_blob s"
proof (cases "cs_recovery_pending s")
  case False
  then show ?thesis using assms(5) by (simp add: cs_poll_idle_def)
next
  case True
  obtain s' ok where r: "cs_recover ops (s\<lparr>cs_recovery_pending := False\<rparr>) = (s', ok)" by fastforce
  note fr = cfg_recover_frames [OF r, unfolded same_frame_def, simplified]
  show ?thesis
  proof (cases ok)
    case False
    then show ?thesis using True r fr assms by (simp add: cs_poll_idle_def at_rest_def)
  next
    case ok: True
    have "authority_of s' = reboot_authority (cells (cs_flash s))"
      using cfg_recover_authority [of "s\<lparr>cs_recovery_pending := False\<rparr>" s'] r ok fr assms(1) by simp
    then show ?thesis using True r ok fr assms
      by (simp add: cs_poll_idle_def at_rest_def authority_of_def bump_def)
  qed
qed

section \<open>The steps of a running save\<close>

lemma cfg_poll_erase_inv:
  assumes wf: "wf (cs_flash s)" and m: "saving (cells (cs_flash s)) (pending (cs_flash s)) s"
    and job: "cs_job s = kErase" and s': "s' = cs_poll_erase ops s"
  shows "wf (cs_flash s') \<and> cs_blob s' = cs_blob s \<and>
    (at_rest (cells (cs_flash s')) s' \<or> saving (cells (cs_flash s')) (pending (cs_flash s')) s') \<and>
    outcome (cells (cs_flash s')) s s'"
proof -
  let ?t = "cs_target_page s" and ?c = "cells (cs_flash s)" and ?e = "replicate kPageSize (0xFF :: u8)"
  obtain f' r where op: "(if cs_awaiting_completion s then fb_pollPending ops (cs_flash s)
      else fb_erasePage ops (cs_flash s) ?t) = (f', r)" by fastforce
  have b: "save_base ?c s" "cs_blob_step s = kBody"
    and aw: "cs_awaiting_completion s \<longrightarrow> pending (cs_flash s) = Some (?t * kPageSize, ?e)"
    and flags: "cs_ready s" "\<not> cs_recovery_pending s" "\<not> cs_mutation_unreconciled s"
    using m job by (auto simp: saving_def phase_ok_def Let_def)
  note f = base_facts [OF b(1)]
  note st = operation_step [OF wf op aw, of ?t, simplified]
  have base: "save_base (cells f') (s\<lparr>cs_flash := f', cs_awaiting_completion := a, cs_job := j\<rparr>)"
    "save_base (cells f') (s\<lparr>cs_flash := f', cs_awaiting_completion := a\<rparr>)" for a j
    by (rule cfg_base_cong [OF save_base_confined [OF b(1) st(2)]]; simp add: authority_of_def pending_record_def)+
  have kept: "kept s (s\<lparr>cs_flash := f', cs_awaiting_completion := a, cs_job := j\<rparr>)"
    "kept s (s\<lparr>cs_flash := f', cs_awaiting_completion := a\<rparr>)" for a j
    by (simp_all add: kept_def current_record_def pending_record_def)
  have s'_eq: "s' = (let s = s\<lparr>cs_flash := f'\<rparr> in
      if r = kPending then s\<lparr>cs_awaiting_completion := True\<rparr>
      else let s = s\<lparr>cs_awaiting_completion := False\<rparr> in
           if r = kFailed then cs_fail ops s else s\<lparr>cs_job := kWrite\<rparr>)"
    using s' op by (simp add: cs_poll_erase_def)
  show ?thesis
  proof (cases r)
    case kPending
    then show ?thesis using s'_eq st(1,3) b(2) job flags base(2)
      by (simp add: saving_def phase_ok_def outcome_def cs_busy_def kept)
  next
    case kFailed
    then show ?thesis using s'_eq st(1) cfg_fail_outcome [OF base(2) kept(2)] by simp
  next
    case kDone
    have "blank (cells f') ?t" using st(4) [OF kDone] erased_blank [OF f(2,1)] by simp
    then show ?thesis using s'_eq kDone st(1) b(2) job flags base(1)
      by (simp add: saving_def phase_ok_def outcome_def cs_busy_def kept)
  qed
qed

end

text \<open>The body is on the page; the commit word is not yet requested, or it is pending.\<close>

definition commit_ready :: "bytes \<Rightarrow> (nat \<times> bytes) option \<Rightarrow> 'f ConfigStore \<Rightarrow> bool" where
  "commit_ready c pd s \<longleftrightarrow> save_base c s \<and> erased_from c (cs_target_page s) 68 \<and> cs_job s = kWrite \<and>
     cs_blob_step s = BlobStep.kCommit \<and> cs_ready s \<and> \<not> cs_recovery_pending s \<and> \<not> cs_mutation_unreconciled s \<and>
     (cs_awaiting_completion s \<longrightarrow>
        pd = Some (cs_target_page s * kPageSize + kWriteCommitOffset, slice kWriteCommitOffset 4 (cs_blob s)))"

definition written :: "bytes \<Rightarrow> 'f ConfigStore \<Rightarrow> bool" where
  "written c s \<longleftrightarrow> save_base c s \<and> erased_from c (cs_target_page s) 68 \<and>
     cs_ready s \<and> \<not> cs_recovery_pending s \<and> \<not> cs_mutation_unreconciled s"

context config_flash
begin

lemma cfg_write_body_inv:
  assumes wf: "wf (cs_flash s)" and m: "saving (cells (cs_flash s)) (pending (cs_flash s)) s"
    and job: "cs_job s = kWrite" and e: "cs_write_body ops s = (s', res)"
  shows "wf (cs_flash s') \<and> cs_blob s' = cs_blob s \<and>
    (case res of
       None \<Rightarrow> commit_ready (cells (cs_flash s')) (pending (cs_flash s')) s' \<and> kept s s'
     | Some r \<Rightarrow> r \<noteq> kDone \<and> outcome (cells (cs_flash s')) s s' \<and>
         (at_rest (cells (cs_flash s')) s' \<or> saving (cells (cs_flash s')) (pending (cs_flash s')) s'))"
proof (cases "cs_blob_step s = kBody")
  case False
  then show ?thesis
    using wf m job e by (auto simp: cs_write_body_def saving_def phase_ok_def commit_ready_def kept_def Let_def split: BlobStep.splits)
next
  case True
  let ?t = "cs_target_page s" and ?c = "cells (cs_flash s)" and ?d = "take kWriteBodyAndCrcSize (cs_blob s)"
  obtain f' r where op: "(if cs_awaiting_completion s then fb_pollPending ops (cs_flash s)
      else fb_program ops (cs_flash s) (?t * kPageSize) ?d) = (f', r)" by fastforce
  have b: "save_base ?c s" and aw: "cs_awaiting_completion s \<longrightarrow> pending (cs_flash s) = Some (?t * kPageSize, ?d)"
    and tail: "erased_from ?c ?t 68" and flags: "cs_ready s" "\<not> cs_recovery_pending s" "\<not> cs_mutation_unreconciled s"
    using m job True blank_erased_from by (auto simp: saving_def phase_ok_def Let_def split: if_splits)
  note f = base_facts [OF b]
  have ld: "length ?d = 64" using f(9) by (simp add: record_sizes)
  note st = operation_step [where p = 0, OF wf op aw disjI1 [OF refl], unfolded ld]
  have tail': "erased_from (cells f') ?t 68" by (rule erased_confined [OF st(2) _ f(1,2) tail]) simp
  have base: "save_base (cells f') (s\<lparr>cs_flash := f', cs_awaiting_completion := a, cs_blob_step := st\<rparr>)"
    "save_base (cells f') (s\<lparr>cs_flash := f', cs_awaiting_completion := a\<rparr>)" for a st
    by (rule cfg_base_cong [OF save_base_confined [OF b st(2)]]; simp add: authority_of_def pending_record_def kPageSize_def)+
  have kept: "kept s (s\<lparr>cs_flash := f', cs_awaiting_completion := a, cs_blob_step := st\<rparr>)"
    "kept s (s\<lparr>cs_flash := f', cs_awaiting_completion := a\<rparr>)" for a st
    by (simp_all add: kept_def current_record_def pending_record_def)
  note failed = cfg_fail_outcome [OF base(2) kept(2)]
  show ?thesis
  proof (cases r)
    case kPending
    then have "s' = s\<lparr>cs_flash := f', cs_awaiting_completion := True\<rparr>" "res = Some kPending"
      using e op True by (simp_all add: cs_write_body_def Let_def)
    then show ?thesis using st(1,3) kPending base(2) tail' True job flags
      by (simp add: saving_def phase_ok_def outcome_def cs_busy_def kept)
  next
    case kFailed
    then show ?thesis using e op True st(1) failed by (auto simp: cs_write_body_def Let_def)
  next
    case kDone
    show ?thesis
    proof (cases "fb_read ops f' (?t * kPageSize) kWriteBodyAndCrcSize = Some ?d")
      case False
      then show ?thesis using e op True st(1) kDone failed by (auto simp: cs_write_body_def Let_def)
    next
      case rd: True
      then have "s' = s\<lparr>cs_flash := f', cs_awaiting_completion := False, cs_blob_step := BlobStep.kCommit\<rparr>" "res = None"
        using e op True kDone by (simp_all add: cs_write_body_def Let_def)
      then show ?thesis using st(1) base(1) tail' job flags by (simp add: commit_ready_def kept)
    qed
  qed
qed

lemma cfg_write_commit_inv:
  assumes wf: "wf (cs_flash s)" and m: "commit_ready (cells (cs_flash s)) (pending (cs_flash s)) s"
    and e: "cs_write_commit ops s = (s', res)"
  shows "wf (cs_flash s') \<and> cs_blob s' = cs_blob s \<and>
    (case res of
       None \<Rightarrow> written (cells (cs_flash s')) s' \<and> kept s s'
     | Some r \<Rightarrow> r \<noteq> kDone \<and> outcome (cells (cs_flash s')) s s' \<and>
         (at_rest (cells (cs_flash s')) s' \<or> saving (cells (cs_flash s')) (pending (cs_flash s')) s'))"
proof -
  let ?t = "cs_target_page s" and ?c = "cells (cs_flash s)" and ?d = "slice kWriteCommitOffset 4 (cs_blob s)"
  let ?o = "cs_target_page s * kPageSize + kWriteCommitOffset"
  obtain f' r where op: "(if cs_awaiting_completion s then fb_pollPending ops (cs_flash s)
      else fb_program ops (cs_flash s) ?o ?d) = (f', r)" by fastforce
  have b: "save_base ?c s" and aw: "cs_awaiting_completion s \<longrightarrow> pending (cs_flash s) = Some (?o, ?d)"
    and tail: "erased_from ?c ?t 68" and bs: "cs_blob_step s = BlobStep.kCommit" and job: "cs_job s = kWrite"
    and flags: "cs_ready s" "\<not> cs_recovery_pending s" "\<not> cs_mutation_unreconciled s"
    using m by (auto simp: commit_ready_def)
  note f = base_facts [OF b]
  have ld: "length ?d = 4" using f(9) by (simp add: record_sizes)
  note st = operation_step [where p = 0, OF wf op aw disjI1 [OF refl], unfolded ld]
  have tail': "erased_from (cells f') ?t 68" by (rule erased_confined [OF st(2) _ f(1,2) tail]) (simp add: record_sizes)
  have base: "save_base (cells f') (s\<lparr>cs_flash := f', cs_awaiting_completion := a, cs_blob_step := st\<rparr>)"
    "save_base (cells f') (s\<lparr>cs_flash := f', cs_awaiting_completion := a\<rparr>)" for a st
    by (rule cfg_base_cong [OF save_base_confined [OF b st(2)]]; simp add: authority_of_def pending_record_def kPageSize_def record_sizes)+
  have kept: "kept s (s\<lparr>cs_flash := f', cs_awaiting_completion := a, cs_blob_step := st\<rparr>)"
    "kept s (s\<lparr>cs_flash := f', cs_awaiting_completion := a\<rparr>)" for a st
    by (simp_all add: kept_def current_record_def pending_record_def)
  show ?thesis
  proof (cases r)
    case kPending
    then have "s' = s\<lparr>cs_flash := f', cs_awaiting_completion := True\<rparr>" "res = Some kPending"
      using e op bs by (simp_all add: cs_write_commit_def Let_def)
    then show ?thesis using st(1,3) kPending base(2) tail' bs job flags
      by (simp add: saving_def phase_ok_def outcome_def cs_busy_def kept)
  next
    case kFailed
    then show ?thesis using e op bs st(1) cfg_fail_outcome [OF base(2) kept(2)] by (auto simp: cs_write_commit_def Let_def)
  next
    case kDone
    then have "s' = s\<lparr>cs_flash := f', cs_awaiting_completion := False, cs_blob_step := kVerify\<rparr>" "res = None"
      using e op bs by (simp_all add: cs_write_commit_def Let_def)
    then show ?thesis using st(1) base(1) tail' flags by (simp add: written_def kept)
  qed
qed

lemma cfg_finish_rest:
  assumes "wf (cs_flash s)" "written (cells (cs_flash s)) s"
    "fb_read ops (cs_flash s) (cs_target_page s * kPageSize) kWriteRecordSize = Some (cs_blob s)"
  shows "at_rest (cells (cs_flash s)) (cs_finishSave (s\<lparr>cs_blob_step := kBody\<rparr>))"
proof -
  have b: "save_base (cells (cs_flash s)) s" "erased_from (cells (cs_flash s)) (cs_target_page s) 68"
    using assms(2) by (simp_all add: written_def)
  have "slice (cs_target_page s * kPageSize) 68 (cells (cs_flash s)) = cs_blob s"
    using read_cells [OF assms(1,3)] by (simp add: record_sizes)
  from cfg_reboot_after_commit [OF b(1) this b(2)] show ?thesis
    using assms(2) by (simp add: at_rest_def written_def cs_finishSave_def authority_of_def bump_def)
qed

lemma cfg_poll_write_inv:
  assumes wf: "wf (cs_flash s)" and m: "saving (cells (cs_flash s)) (pending (cs_flash s)) s"
    and job: "cs_job s = kWrite" and s': "s' = cs_poll_write ops s"
  shows "wf (cs_flash s') \<and> cs_blob s' = cs_blob s \<and>
    (at_rest (cells (cs_flash s')) s' \<or> saving (cells (cs_flash s')) (pending (cs_flash s')) s') \<and>
    outcome (cells (cs_flash s')) s s'"
proof -
  obtain s1 r1 where e1: "cs_write_body ops s = (s1, r1)" by fastforce
  note i1 = cfg_write_body_inv [OF wf m job e1]
  show ?thesis
  proof (cases r1)
    case (Some r)
    then have "s' = s1" using s' e1 i1 by (simp add: cs_poll_write_def cs_writeBlob_def)
    then show ?thesis using i1 Some by simp
  next
    case None
    then have c: "wf (cs_flash s1)" "commit_ready (cells (cs_flash s1)) (pending (cs_flash s1)) s1"
      and k1: "kept s s1" using i1 by simp_all
    obtain s2 r2 where e2: "cs_write_commit ops s1 = (s2, r2)" by fastforce
    note i2 = cfg_write_commit_inv [OF c e2]
    show ?thesis
    proof (cases r2)
      case (Some r)
      then have "s' = s2" using s' e1 e2 i2 None by (simp add: cs_poll_write_def cs_writeBlob_def)
      then show ?thesis using i1 i2 Some cfg_kept_outcome [OF k1] by simp
    next
      case none: None
      then have w: "wf (cs_flash s2)" "written (cells (cs_flash s2)) s2" and k2: "kept s1 s2" using i2 by simp_all
      then have base: "save_base (cells (cs_flash s2)) s2" by (simp add: written_def)
      note fin = cfg_kept_outcome [OF k1 cfg_finish_outcome [OF base k2]] and fl = cfg_kept_outcome [OF k1 cfg_fail_outcome [OF base k2]]
      show ?thesis
      proof (cases "fb_read ops (cs_flash s2) (cs_target_page s2 * kPageSize) kWriteRecordSize = Some (cs_blob s2)")
        case True
        then have "s' = cs_finishSave (s2\<lparr>cs_blob_step := kBody\<rparr>)"
          using s' e1 e2 None none by (simp add: cs_poll_write_def cs_writeBlob_def)
        then show ?thesis using cfg_finish_rest [OF w True] fin i1 i2 w(1) by (simp add: cs_finishSave_def bump_def)
      next
        case False
        then have "s' = cs_fail ops s2"
          using s' e1 e2 None none by (simp add: cs_poll_write_def cs_writeBlob_def)
        then show ?thesis using fl i1 i2 w(1) by simp
      qed
    qed
  qed
qed

end

section \<open>Requests\<close>

lemma cfg_valid_authority:
  assumes "length c = kTwoPageRegion" "authority_of s = reboot_authority c" "cs_token_state s = kValid"
  shows "\<exists>p<2. holds c p (current_record s) \<and> authority_of s = adopted (current_record s) p"
proof -
  obtain cf tk rest where "reboot_authority c = (cf, tk, kValid, rest)"
    using assms(2,3) by (cases "reboot_authority c") (auto simp: authority_of_def)
  from cfg_recover_valid [OF assms(1) this] obtain a r
    where a: "a < 2" "holds c a r" "reboot_authority c = adopted r a" by blast
  have e: "authority_of s = adopted r a" using assms(2) a(3) by simp
  then have "r = current_record s"
    by (cases r) (auto simp: authority_of_def adopted_def current_record_def)
  then show ?thesis using a(1,2) e by blast
qed

lemma cfg_rest_fields:
  assumes "at_rest c s" "cs_job s' = cs_job s" "authority_of s' = authority_of s" "cs_ready s' = cs_ready s"
    "cs_recovery_pending s' = cs_recovery_pending s" "cs_mutation_unreconciled s' = cs_mutation_unreconciled s"
  shows "at_rest c s'"
  using assms cfg_authority_valid [OF assms(3)] by (simp add: at_rest_def)

lemma start_save_inv:
  assumes rest: "at_rest c s" and len: "length c = kTwoPageRegion" and blob: "length (cs_blob s) = 68"
    and v: "cs_token_state s = kValid" and cand: "validCandidate cand" and e: "cs_startSave s cand = (s', ok)"
  shows "length (cs_blob s') = 68 \<and> cs_flash s' = cs_flash s \<and>
    (if ok then saving c pd s' \<and> cs_job s' = kErase \<and> current_record s' = current_record s \<and>
       pending_record s' = \<lparr>tr_generation = cs_generation s + 1, tr_config = cand,
         tr_token = \<lparr>tk_incarnation = tk_incarnation (cs_token s), tk_revision = tk_revision (cs_token s) + 1\<rparr>\<rparr>
     else s' = s)"
proof (cases "cs_generation s = UINT64_MAX \<or> tk_revision (cs_token s) = UINT32_MAX")
  case True
  then show ?thesis using e blob by (simp add: cs_startSave_def)
next
  case False
  have flags: "cs_ready s" "\<not> cs_recovery_pending s" "\<not> cs_mutation_unreconciled s" "authority_of s = reboot_authority c"
    using rest v by (simp_all add: at_rest_def)
  obtain p where p: "p < 2" "holds c p (current_record s)" "authority_of s = adopted (current_record s) p"
    using cfg_valid_authority [OF len flags(4) v] by blast
  define s1 where "s1 = s\<lparr>cs_target_page := nat (1 - cs_active_page s), cs_pending_generation := cs_generation s + 1,
      cs_pending_config := cand,
      cs_pending_token := \<lparr>tk_incarnation = tk_incarnation (cs_token s), tk_revision = tk_revision (cs_token s) + 1\<rparr>\<rparr>"
  have s': "s' = s1\<lparr>cs_blob := encodeV8 (pending_record s1) (cs_blob s1), cs_job := kErase, cs_blob_step := kBody,
      cs_awaiting_completion := False\<rparr>" "ok"
    using e False by (auto simp: cs_startSave_def s1_def pending_record_def Let_def)
  have ap: "cs_active_page s = int p" using p(3) by (simp add: authority_of_def adopted_def)
  have b: "encodeV8 (pending_record s1) (cs_blob s1) = v8_image (pending_record s1)"
    using encodeV8_image [of "cs_blob s1" "pending_record s1"] blob by (simp add: s1_def)
  have t: "cs_target_page s' = 1 - p" "1 - (1 - p) = p" using p(1) by (simp_all add: s' s1_def ap nat_diff_distrib)
  have recs: "current_record s' = current_record s" "pending_record s' = pending_record s1"
    "authority_of s' = authority_of s"
    by (simp_all add: current_record_def pending_record_def authority_of_def s' s1_def)
  have bl: "cs_blob s' = v8_image (pending_record s1)" by (simp add: s' b)
  have "successor (current_record s) (pending_record s1)"
    using False by (simp add: successor_def current_record_def pending_record_def s1_def)
  then have "save_base c s'"
    using len p ap t cand by (simp add: save_base_def recs bl) (simp add: s' s1_def)
  then show ?thesis using s' flags recs bl by (simp add: saving_def phase_ok_def s1_def pending_record_def)
qed

lemma diagnostics_fields [simp]:
  "cs_flash (bump f s) = cs_flash s" "cs_blob (bump f s) = cs_blob s" "authority_of (bump f s) = authority_of s"
  "cs_job (bump f s) = cs_job s" "cs_ready (bump f s) = cs_ready s" "cs_recovery_pending (bump f s) = cs_recovery_pending s"
  "cs_mutation_unreconciled (bump f s) = cs_mutation_unreconciled s" "current_record (bump f s) = current_record s"
  "pending_record (bump f s) = pending_record s" "cs_save_result_ready (bump f s) = cs_save_result_ready s"
  by (simp_all add: bump_def authority_of_def current_record_def pending_record_def)

lemma cfg_diagnostics_inv [simp]: "config_inv c pd (bump f s) = config_inv c pd s"
proof -
  have "phase_ok c pd (bump f s) = phase_ok c pd s"
    by (cases "cs_job s"; cases "cs_blob_step s") (simp_all add: phase_ok_def bump_def)
  moreover have "save_base c (bump f s) = save_base c s" by (simp add: save_base_def) (simp add: bump_def)
  moreover have "cs_token_state (bump f s) = cs_token_state s" by (simp add: bump_def)
  ultimately show ?thesis by (simp add: config_inv_def at_rest_def saving_def)
qed

lemma admit_cases:
  assumes "cs_admitSave s cand = (s', a)"
  obtains "s' = s" "a \<noteq> kStarted" | f where "s' = bump f s" "a \<noteq> kStarted"
  | ok where "cs_startSave s cand = (s', ok)" "a = (if ok then kStarted else kUnavailable)"
      "cs_token_state s = kValid" "validCandidate cand" "\<not> cs_busy s" "\<not> cs_save_result_ready s"
  using assms by (auto simp: cs_admitSave_def split: if_splits prod.splits)

lemma cfg_admit_inv:
  assumes inv: "config_inv c pd s" and len: "length c = kTwoPageRegion" and e: "cs_admitSave s cand = (s', a)"
  shows "config_inv c pd s' \<and> cs_flash s' = cs_flash s"
proof (cases rule: admit_cases [OF e])
  case (3 ok)
  have rest: "at_rest c s" and blob: "length (cs_blob s) = 68"
    using inv 3(5) by (auto simp: config_inv_def cs_busy_def saving_def phase_ok_def Let_def)
  show ?thesis
    using start_save_inv [OF rest len blob 3(3,4,1), of pd] rest blob by (cases ok) (simp_all add: config_inv_def)
qed (use inv in simp_all)

lemma cfg_request_inv:
  assumes "config_inv c pd s" "length c = kTwoPageRegion"
  shows "config_inv c pd (fst (cs_requestSave s cand)) \<and> cs_flash (fst (cs_requestSave s cand)) = cs_flash s"
    "config_inv c pd (fst (cs_requestReset s)) \<and> cs_flash (fst (cs_requestReset s)) = cs_flash s"
proof -
  show r: "config_inv c pd (fst (cs_requestSave s cand)) \<and> cs_flash (fst (cs_requestSave s cand)) = cs_flash s" for cand
    using cfg_admit_inv [OF assms] by (cases "cs_admitSave s cand") (auto simp: cs_requestSave_def)
  show "config_inv c pd (fst (cs_requestReset s)) \<and> cs_flash (fst (cs_requestReset s)) = cs_flash s"
    using r [of defaultConfig] assms(1) by (simp add: cs_requestReset_def)
qed

lemma cfg_take_inv: "config_inv c pd s \<Longrightarrow> config_inv c pd (fst (cs_takeSaveResult s))"
proof -
  have "phase_ok c pd (s\<lparr>cs_save_result_ready := d\<rparr>) = phase_ok c pd s" for d
    by (cases "cs_job s"; cases "cs_blob_step s") (simp_all add: phase_ok_def)
  then show "config_inv c pd s \<Longrightarrow> config_inv c pd (fst (cs_takeSaveResult s))"
    by (simp add: cs_takeSaveResult_def config_inv_def at_rest_def saving_def save_base_def authority_of_def
        current_record_def pending_record_def)
qed

context config_flash
begin

lemma cfg_poll_inv:
  assumes wf: "wf (cs_flash s)" and inv: "config_inv (cells (cs_flash s)) (pending (cs_flash s)) s"
    and s': "s' = cs_poll ops s"
  shows "wf (cs_flash s') \<and> config_inv (cells (cs_flash s')) (pending (cs_flash s')) s'"
proof -
  let ?c = "cells (cs_flash s)" and ?pd = "pending (cs_flash s)"
  have blob: "length (cs_blob s) = 68" using inv by (simp add: config_inv_def)
  consider "s' = s" | "cs_ready s" "cs_job s = kNone"
       "\<not> (cs_mutation_unreconciled s \<and> fb_hasUnreconciledMutation ops (cs_flash s))"
    | "cs_ready s" "cs_job s \<noteq> kNone" "saving ?c ?pd s" "\<not> cs_mutation_unreconciled s"
    using s' inv by (auto simp: cs_poll_def config_inv_def at_rest_def saving_def split: if_splits)
  then show ?thesis
  proof cases
    case 1
    then show ?thesis using wf inv by simp
  next
    case 2
    define s1 where "s1 = (if cs_mutation_unreconciled s
        then s\<lparr>cs_mutation_unreconciled := False, cs_recovery_pending := True\<rparr> else s)"
    have s1: "cs_flash s1 = cs_flash s" "cs_job s1 = kNone" "cs_ready s1" "\<not> cs_mutation_unreconciled s1"
      "cs_blob s1 = cs_blob s" using 2 by (simp_all add: s1_def)
    have "at_rest ?c s" using inv 2 by (auto simp: config_inv_def saving_def phase_ok_def Let_def)
    then have "cs_recovery_pending s1 \<or> at_rest (cells (cs_flash s1)) s1" by (simp add: s1_def)
    moreover have "s' = cs_poll_idle ops s1" using s' 2 by (simp add: cs_poll_def s1_def)
    ultimately show ?thesis using cfg_poll_idle_rest [of s1] s1 wf blob by (auto simp: config_inv_def)
  next
    case 3
    have "s' = cs_poll_erase ops s \<and> cs_job s = kErase \<or> s' = cs_poll_write ops s \<and> cs_job s = kWrite"
      using s' 3 by (cases "cs_job s") (simp_all add: cs_poll_def)
    then show ?thesis
      using cfg_poll_erase_inv [OF wf 3(3), of s'] cfg_poll_write_inv [OF wf 3(3), of s'] blob
      by (auto simp: config_inv_def)
  qed
qed

end

section \<open>Boot\<close>

definition baseline_record :: "u64 \<Rightarrow> TokenizedRecord" where
  "baseline_record inc = \<lparr>tr_generation = 1, tr_config = defaultConfig, tr_token = \<lparr>tk_incarnation = inc, tk_revision = 1\<rparr>\<rparr>"

lemma default_valid: "validCandidate defaultConfig"
  by code_simp

lemma baseline_facts:
  "inc \<noteq> 0 \<Longrightarrow> tokenized (baseline_record inc)" "validCandidate (tr_config (baseline_record inc))"
  "\<not> applied_record (baseline_record inc)"
  by (simp_all add: tokenized_def baseline_record_def default_valid applied_record_def sameConfig_def)

lemma erased_prefix:
  assumes "inspectPagePrefix (Some b) = Some i" "pi_evidence i = kErased"
  shows "erased b 0 52"
proof -
  have "pi_evidence (setV1Inspection b j) \<noteq> kErased" for j by (auto simp: setV1Inspection_def split: option.split)
  moreover have "erased b 0 n \<Longrightarrow> 52 \<le> n \<Longrightarrow> n \<le> length b \<Longrightarrow> erased b 0 52" for n
    by (auto simp: erased_iff)
  ultimately show ?thesis using assms
    by (auto simp: inspectPagePrefix_def Let_def cf_layout split: if_splits option.splits)
qed

lemma erased_page:
  assumes "length c = kTwoPageRegion" "p < 2" "pi_evidence (page_insp c p) = kErased" "\<not> page_dirty c p"
  shows "blank c p"
proof -
  have "erased (page_prefix c p) 0 52" by (rule erased_prefix [OF page_insp_some [OF assms(1,2)] assms(3)])
  then have "\<forall>i<52. page_prefix c p ! i = 0xFF" using length_page_prefix [OF assms(1,2)] by (simp add: erased_iff)
  then have "\<forall>i<52. c ! (p * kPageSize + i) = 0xFF"
    using page_room [OF assms(2)] assms(1) by (simp add: page_prefix_def cf_layout kPageSize_def)
  moreover have "erased_from c p 52" using assms(3,4) by (simp add: page_dirty_def tail_clean_def cf_layout)
  ultimately show ?thesis unfolding blank_def erased_from_def by (metis not_le)
qed

lemma cfg_baseline_authority:
  assumes len: "length c = kTwoPageRegion" and conf: "confined c d 0 68"
    and blank: "\<And>p. p < 2 \<Longrightarrow> pi_evidence (page_insp c p) = kErased" "\<And>p. p < 2 \<Longrightarrow> \<not> page_dirty c p"
    and page: "slice 0 68 d = v8_image r" and valid: "tokenized r" "validCandidate (tr_config r)"
  shows "reboot_authority d = adopted r 0"
proof -
  have ld: "length d = kTwoPageRegion" using conf len by (simp add: confined_def)
  have c0: "confined c d (0 * kPageSize) 68" using conf by simp
  have "erased_from d 0 68"
    by (rule erased_confined [OF conf _ len _ blank_erased_from [OF erased_page [OF len _ blank(1) blank(2)]]]) simp_all
  then have "torn_at d 0 r 17" using page by (simp add: torn_at_def)
  then have r: "holds d 0 r" using torn_whole [OF _ ld] valid by simp
  have one: "page_insp d 1 = page_insp c 1" "tail_clean d 1 = tail_clean c 1"
    using cfg_confined_other_page [where t = 0 and p = 1, OF c0 _ _ len] by (simp_all add: kPageSize_def)
  have "pi_evidence (page_insp d 1) = kErased" "\<not> page_dirty d 1"
    using blank [of 1] one by (simp_all add: page_dirty_def)
  then have "plain_page d (1 - 0)" "harmless d (1 - 0) r"
    by (simp_all add: plain_page_def harmless_def doubtful_def committed_at_def evidenceIsCommitted_def evidenceIsLegacy_def
        evidenceIsStaged_def evidenceIsSafeUncommitted_def Let_def)
  then show ?thesis using cfg_recover_single [OF ld _ r] by simp
qed

text \<open>The object at the end of the initialisation in \<open>begin\<close>.\<close>

definition boot_state :: "'f ConfigStore \<Rightarrow> 'f \<Rightarrow> 'f ConfigStore" where
  "boot_state s fl = (clearRecoveredRuntimeState (s\<lparr>cs_ready := False, cs_job := kNone, cs_diagnostics := Diagnostics_init,
     cs_blob_step := kBody, cs_awaiting_completion := False, cs_save_result_ready := False, cs_save_success := False,
     cs_mutation_unreconciled := False, cs_recovery_pending := False\<rparr>))\<lparr>cs_flash := fl\<rparr>"

lemma begin_shape:
  "cs_begin ops source s = (case fb_begin ops (cs_flash s) of (fl, ok) \<Rightarrow>
     if \<not> ok then (boot_state s fl, False)
     else case cs_recover ops (boot_state s fl) of (s1, recovered) \<Rightarrow>
       if \<not> recovered then (s1, False)
       else if \<not> cs_maintenance_reset_required s1 \<and> cs_active_page s1 < 0 \<and>
               cs_token_state s1 = ConfigTokenState.kUnavailable \<and> source \<noteq> None
       then (case cs_establishFreshBaseline ops source s1 of (s, established) \<Rightarrow>
          if \<not> established then (s, False) else (s\<lparr>cs_ready := True\<rparr>, True))
       else (s1\<lparr>cs_ready := True\<rparr>, True))"
  unfolding cs_begin_def Let_def boot_state_def clearRecoveredRuntimeState_def by (simp split: prod.split)

context config_flash
begin

lemma cfg_write_baseline:
  assumes wf: "wf (cs_flash s)" and e: "cs_writeFreshBaseline ops s r = (s', ok)"
  shows "wf (cs_flash s') \<and> (\<exists>f. s' = s\<lparr>cs_flash := f\<rparr>) \<and>
    (ok \<longrightarrow> slice 0 68 (cells (cs_flash s')) = v8_image r \<and> confined (cells (cs_flash s)) (cells (cs_flash s')) 0 68)"
proof -
  let ?b = "encodeV8 r (replicate kWriteRecordSize 0)"
  have b: "?b = v8_image r" using encodeV8_image [of "replicate kWriteRecordSize 0" r] by (simp add: record_sizes)
  obtain f1 r1 where p1: "fb_program ops (cs_flash s) 0 (take kWriteBodyAndCrcSize ?b) = (f1, r1)" by fastforce
  note c1 = program_confined [OF wf p1]
  obtain f2 r2 where p2: "fb_program ops f1 kWriteCommitOffset (slice kWriteCommitOffset 4 ?b) = (f2, r2)" by fastforce
  note c2 = program_confined [OF c1(1) p2]
  have conf: "confined (cells (cs_flash s)) (cells f2) 0 68"
    by (rule confined_trans [OF c1(2) c2(2)]) (use b in \<open>simp_all add: record_sizes\<close>)
  have rd: "slice 0 68 (cells f2) = v8_image r" if "fb_read ops f2 0 kWriteRecordSize = Some ?b"
    using read_cells [OF c2(1) that] b by (simp add: record_sizes)
  consider "s' = s\<lparr>cs_flash := f1\<rparr>" "\<not> ok" | "s' = s\<lparr>cs_flash := f2\<rparr>" "ok \<longrightarrow> fb_read ops f2 0 kWriteRecordSize = Some ?b"
    using e p1 p2 by (auto simp: cs_writeFreshBaseline_def Let_def split: if_splits)
  then show ?thesis using c1(1) c2(1) conf rd by cases auto
qed

text \<open>What \<open>begin\<close> does once the backend is up and both pages are scanned.\<close>

lemma establish_inv:
  assumes wf: "wf (cs_flash s)" and a: "authority_of s = reboot_authority (cells (cs_flash s))"
    and z: "\<not> cs_maintenance_reset_required s" "cs_token_state s = ConfigTokenState.kUnavailable"
    and fl: "cs_job s = kNone" "\<not> cs_ready s" "\<not> cs_recovery_pending s" "\<not> cs_mutation_unreconciled s"
    and e: "cs_establishFreshBaseline ops source s = (s', ok)"
  shows "wf (cs_flash s') \<and> cs_blob s' = cs_blob s \<and> \<not> cs_ready s' \<and>
    at_rest (cells (cs_flash s')) (if ok then s'\<lparr>cs_ready := True\<rparr> else s')"
proof -
  let ?c = "cells (cs_flash s)"
  have len: "length ?c = kTwoPageRegion" by (rule cells_length [OF wf])
  consider "s' = s" "ok" | inc where "source = Some (Some inc)" "inc \<noteq> 0"
    using e by (auto simp: cs_establishFreshBaseline_def split: option.splits if_splits)
  then show ?thesis
  proof cases
    case 1
    then show ?thesis using wf a fl z by (simp add: at_rest_def authority_of_def)
  next
    case (2 inc)
    let ?r = "baseline_record inc"
    obtain s3 w where wr: "cs_writeFreshBaseline ops s ?r = (s3, w)" by fastforce
    note wb = cfg_write_baseline [OF wf wr]
    obtain f3 where s3: "s3 = s\<lparr>cs_flash := f3\<rparr>" "wf f3" using wb by auto
    show ?thesis
    proof (cases w)
      case True
      have un: "reboot_authority ?c = (cs_config s, cs_token s, ConfigTokenState.kUnavailable, cs_semantic_unambiguous s, False,
          cs_application_config_committed s, cs_generation s, cs_active_page s)"
        using z unfolding a [symmetric] by (simp add: authority_of_def)
      from cfg_recover_blank [OF len un] have "\<And>p. p < 2 \<Longrightarrow> pi_evidence (page_insp ?c p) = kErased" "\<And>p. p < 2 \<Longrightarrow> \<not> page_dirty ?c p"
        by blast+
      from cfg_baseline_authority [OF len _ this, of "cells f3" ?r] wb True s3 2(2)
      have "reboot_authority (cells f3) = adopted ?r 0" by (simp add: baseline_facts)
      moreover have "s' = bump (\<lambda>d. d\<lparr>cd_baseline_commits := cd_baseline_commits d + 1\<rparr>)
               (s3\<lparr>cs_active_page := 0, cs_generation := 1, cs_config := tr_config ?r, cs_token := tr_token ?r,
                  cs_token_state := kValid, cs_semantic_unambiguous := True,
                  cs_maintenance_reset_required := False, cs_application_config_committed := False\<rparr>)" "ok"
        using e 2 wr True by (auto simp: cs_establishFreshBaseline_def baseline_record_def Let_def)
      ultimately show ?thesis using s3 fl baseline_facts(3) [of inc]
        by (simp add: at_rest_def bump_def authority_of_def adopted_def) (simp add: baseline_record_def)
    next
      case False
      define s4 where "s4 = bump (\<lambda>d. d\<lparr>cd_baseline_failures := cd_baseline_failures d + 1\<rparr>) s3"
      have s4: "cs_flash s4 = f3" "cs_job s4 = kNone" "\<not> cs_ready s4" "\<not> cs_recovery_pending s4"
        "\<not> cs_mutation_unreconciled s4" "cs_blob s4 = cs_blob s" "cs_token_state s4 = ConfigTokenState.kUnavailable"
        using fl z s3 by (simp_all add: s4_def) (simp add: bump_def)
      show ?thesis
      proof (cases "fb_hasUnreconciledMutation ops f3")
        case True
        then have "s' = bump (\<lambda>d. d\<lparr>cd_unreconciled_mutation_faults := cd_unreconciled_mutation_faults d + 1\<rparr>)
                 (s4\<lparr>cs_mutation_unreconciled := True, cs_token_state := kUncertain\<rparr>)" "ok"
          using e 2 wr False s4(1) by (auto simp: cs_establishFreshBaseline_def baseline_record_def Let_def s4_def)
        then show ?thesis using s4 s3(2) by (simp add: at_rest_def bump_def)
      next
        case nu: False
        then have rc: "cs_recover ops s4 = (s', ok)"
          using e 2 wr False s4(1) by (simp add: cs_establishFreshBaseline_def baseline_record_def Let_def s4_def)
        note fr = cfg_recover_frames [OF rc, unfolded same_frame_def]
        show ?thesis
        proof (cases ok)
          case True
          then show ?thesis using cfg_recover_authority [of s4 s'] rc fr s4 s3(2) by (simp add: at_rest_def authority_of_def)
        next
          case f: False
          have "cs_recover ops s4 = (s', False)" using rc f by simp
          from cfg_authority_valid [OF cfg_recover_failed [OF this]] have "cs_token_state s' = ConfigTokenState.kUnavailable"
            using s4(7) by simp
          then show ?thesis using f fr s4 s3(2) by (simp add: at_rest_def)
        qed
      qed
    qed
  qed
qed

lemma cfg_begin_inv:
  assumes wf: "wf (cs_flash s)" and blob: "length (cs_blob s) = 68" and e: "cs_begin ops source s = (s', ok)"
  shows "wf (cs_flash s') \<and> length (cs_blob s') = 68 \<and> at_rest (cells (cs_flash s')) s' \<and> cs_ready s' = ok"
proof -
  obtain f1 b where fb: "fb_begin ops (cs_flash s) = (f1, b)" by fastforce
  have wf1: "wf f1" using begin_wf [OF wf] fb by (metis fst_conv)
  define s0 where "s0 = boot_state s f1"
  have s0: "cs_flash s0 = f1" "length (cs_blob s0) = 68" "cs_job s0 = kNone" "\<not> cs_ready s0"
    "\<not> cs_recovery_pending s0" "\<not> cs_mutation_unreconciled s0" "cs_token_state s0 = ConfigTokenState.kUnavailable"
    using blob by (simp_all add: s0_def boot_state_def clearRecoveredRuntimeState_def)
  obtain s1 r1 where rec: "cs_recover ops s0 = (s1, r1)" by fastforce
  note fr = cfg_recover_frames [OF rec, unfolded same_frame_def]
  have wf_s1: "wf (cs_flash s1)" using fr s0 wf1 by simp
  define blk where "blk \<longleftrightarrow> \<not> cs_maintenance_reset_required s1 \<and> cs_active_page s1 < 0 \<and>
    cs_token_state s1 = ConfigTokenState.kUnavailable \<and> source \<noteq> None"
  have beg: "(s', ok) = (if \<not> b then (s0, False) else if \<not> r1 then (s1, False)
      else if blk then (case cs_establishFreshBaseline ops source s1 of (s, established) \<Rightarrow>
         if \<not> established then (s, False) else (s\<lparr>cs_ready := True\<rparr>, True))
      else (s1\<lparr>cs_ready := True\<rparr>, True))"
    unfolding e [symmetric] begin_shape fb prod.case s0_def [symmetric] rec blk_def by (rule refl)
  have a1: "authority_of s1 = reboot_authority (cells (cs_flash s1))" if "r1"
    using cfg_recover_authority [of s0 s1] rec s0 wf1 that by simp
  consider "\<not> b" | "b" "\<not> r1" | "b" "r1" "\<not> blk" | "b" "r1" "blk" by blast
  then show ?thesis
  proof cases
    case 1
    then show ?thesis using beg s0 wf1 by (simp add: at_rest_def)
  next
    case 2
    have "cs_recover ops s0 = (s1, False)" using rec 2(2) by simp
    from cfg_authority_valid [OF cfg_recover_failed [OF this]]
    have "cs_token_state s1 = ConfigTokenState.kUnavailable" using s0(7) by simp
    then show ?thesis using beg 2 s0 fr wf_s1 by (simp add: at_rest_def)
  next
    case 3
    then show ?thesis using beg a1 s0 fr wf_s1 by (simp add: at_rest_def authority_of_def)
  next
    case 4
    obtain s2 est where es: "cs_establishFreshBaseline ops source s1 = (s2, est)" by fastforce
    note inv = establish_inv [OF wf_s1 a1 [OF 4(2)] _ _ _ _ _ _ es]
    have out: "s' = (if est then s2\<lparr>cs_ready := True\<rparr> else s2)" "ok = est"
      using beg 4 es by (auto split: if_splits)
    show ?thesis using inv 4(3) fr s0 out unfolding blk_def by (cases est) auto
  qed
qed

end

end
