(* ===== verification/Nrf_Config_Flash.thy ===== *)
theory Nrf_Config_Flash
  imports Config_Store_Invariant
begin

text \<open>
  \<open>firmware/src/nrf_config_flash.cpp\<close>: the board's synchronous driver of the configuration region, its
  flash contract, and the configuration store on it.  The driver object, the vendor calls and the board
  facts are those of the geofence driver: the two classes differ in their region and in the size of the
  staging buffer of \<open>program\<close>.
\<close>

section \<open>The driver\<close>

type_synonym NrfConfigFlash = NrfGeofenceFlash

abbreviation kConfigRegionSize :: nat where "kConfigRegionSize \<equiv> kTwoPageRegion"

definition ncf_kMaxProgramSize :: nat where "ncf_kMaxProgramSize = 64"

definition ncf_inBounds :: "nat \<Rightarrow> nat \<Rightarrow> bool" where
  "ncf_inBounds offset n \<longleftrightarrow> offset \<le> kConfigRegionSize \<and> n \<le> kConfigRegionSize - offset"

definition ncf_begin :: "NrfConfigFlash \<Rightarrow> NrfConfigFlash \<times> bool" where
  "ncf_begin f = (let ok = nf_layout_ok f \<and> \<not> nf_softdevice_enabled f in (f\<lparr>nf_ready := ok\<rparr>, ok))"

definition ncf_read :: "NrfConfigFlash \<Rightarrow> nat \<Rightarrow> nat \<Rightarrow> bytes option" where
  "ncf_read f offset n =
     (if \<not> nf_ready f \<or> \<not> ncf_inBounds offset n then None else Some (slice offset n (nf_cells f)))"

definition ncf_program :: "NrfConfigFlash \<Rightarrow> nat \<Rightarrow> bytes \<Rightarrow> NrfConfigFlash \<times> FlashOpResult" where
  "ncf_program f offset data =
     (let n = length data in
      if \<not> nf_ready f \<or> n = 0 \<or> \<not> ncf_inBounds offset n \<or> offset mod 4 \<noteq> 0 \<or> n mod 4 \<noteq> 0 \<or>
         n > ncf_kMaxProgramSize \<or> n > kPageSize - offset mod kPageSize then (f, kFailed)
      else if nf_softdevice_enabled f then (f, kFailed)
      else if list_ex (\<lambda>i. nf_cells f ! (offset + i) \<noteq> 0xFF) [0..<n] then (f, kFailed)
      else
        let (c, ok) = sd_flash_write (nf_sd f) (nf_cells f) offset data; f' = f\<lparr>nf_cells := c\<rparr> in
        if \<not> ok then (f', kFailed)
        else (f', if slice offset n c = data then kDone else kFailed))"

definition ncf_erasePage :: "NrfConfigFlash \<Rightarrow> nat \<Rightarrow> NrfConfigFlash \<times> FlashOpResult" where
  "ncf_erasePage f page =
     (if \<not> nf_ready f \<or> page \<ge> kConfigPageCount \<or> nf_softdevice_enabled f then (f, kFailed)
      else
        let (c, ok) = sd_flash_page_erase (nf_sd f) (nf_cells f) page; f' = f\<lparr>nf_cells := c\<rparr> in
        if \<not> ok then (f', kFailed)
        else if list_ex (\<lambda>i. c ! (page * kPageSize + i) \<noteq> 0xFF) [0..<kPageSize] then (f', kFailed)
        else (f', kDone))"

text \<open>\<open>pollPending\<close> and \<open>hasUnreconciledMutation\<close> are the base-class defaults.\<close>

definition ncf_ops :: "NrfConfigFlash FlashBackend" where
  "ncf_ops = \<lparr>fb_begin = ncf_begin, fb_read = ncf_read, fb_program = ncf_program, fb_erasePage = ncf_erasePage,
     fb_pollPending = (\<lambda>f. (f, kFailed)), fb_hasUnreconciledMutation = (\<lambda>f. False)\<rparr>"

text \<open>The geofence driver but for the size of its buffer.\<close>

lemma ncf_driver: "ncf_ops = driver 2 64"
proof -
  have "ncf_program = driver_program 2 64"
    by (auto simp: fun_eq_iff ncf_program_def driver_program_def ncf_inBounds_def in_region_def kTwoPageRegion_def
        ncf_kMaxProgramSize_def Let_def split: prod.split)
  moreover have "ncf_erasePage = driver_erase 2"
    by (auto simp: fun_eq_iff ncf_erasePage_def driver_erase_def kConfigPageCount_def Let_def list_ex_iff list_all_iff
        split: prod.split)
  ultimately show ?thesis
    by (auto simp: ncf_ops_def driver_def fun_eq_iff ncf_begin_def nrf_begin_def ncf_read_def ncf_inBounds_def in_region_def
        kTwoPageRegion_def)
qed

lemma ncf_same [simp]:
  "fb_begin ncf_ops = fb_begin nrf_ops" "fb_read ncf_ops = fb_read nrf_ops" "fb_erasePage ncf_ops = fb_erasePage nrf_ops"
  "fb_pollPending ncf_ops = fb_pollPending nrf_ops" "fb_hasUnreconciledMutation ncf_ops = fb_hasUnreconciledMutation nrf_ops"
  unfolding ncf_driver nrf_driver by (simp_all add: driver_def)

lemma ncf_program_eq:
  "fb_program ncf_ops f off data = (if 64 < length data then (f, kFailed) else fb_program nrf_ops f off data)"
  unfolding ncf_driver nrf_driver by (simp add: driver_def driver_program_def Let_def)

interpretation ncf: two_page_flash ncf_ops nrf_wf nf_cells "\<lambda>_. None"
  unfolding two_page_flash_def ncf_driver nrf_driver kTwoPageRegion_def by (rule driver_contract)

end
