(* ===== verification/Config_Store_Run.thy ===== *)
theory Config_Store_Run
  imports Nrf_Config_Flash
begin

text \<open>
  The configuration store on the board's driver: recovery always succeeds on a readable region, the
  events the firmware and its surroundings may raise, and the invariant on every reachable state.
\<close>

section \<open>Recovery with a readable backend\<close>

locale readable_config = config_flash ops wf cells pending + readable_two_page ops wf cells pending readable
  for ops :: "'f FlashBackend" and wf cells pending readable
begin

lemma cfg_recover_page_total:
  assumes "wf f" "readable f" "p < 2"
  shows "\<exists>sc'. recover_page ops f p sc = Some sc'"
proof -
  have len: "length (cells f) = kTwoPageRegion" by (rule cells_length [OF assms(1)])
  have "p * kPageSize + kMaxPagePrefixSize \<le> kTwoPageRegion"
    using page_room [OF assms(3)] by (simp add: cf_layout kPageSize_def)
  then have r: "fb_read ops f (p * kPageSize) kMaxPagePrefixSize = Some (page_prefix (cells f) p)"
    using read_ok [OF assms(1,2)] by (simp add: page_prefix_def)
  obtain t where "cs_readPageTailErased ops f p (ownedPrefixSize (pi_evidence (page_insp (cells f) p))) = Some t"
    using tail_scan_total [OF assms] by (auto simp: cs_readPageTailErased_def)
  then show ?thesis using r page_insp_some [OF len assms(3)] by (simp add: recover_page_def)
qed

lemma cfg_recover_total:
  assumes "wf (cs_flash s)" "readable (cs_flash s)"
  shows "\<exists>s'. cs_recover ops s = (s', True) \<and> authority_of s' = reboot_authority (cells (cs_flash s)) \<and> same_frame s s'"
proof -
  have two: "[0..<kConfigPageCount] = [0, 1]" by (simp add: kConfigPageCount_def upt_rec)
  obtain a where a: "recover_page ops (cs_flash s) 0 scan_init = Some a"
    using cfg_recover_page_total [OF assms, of 0] by auto
  obtain b where b: "recover_page ops (cs_flash s) 1 a = Some b"
    using cfg_recover_page_total [OF assms, of 1] by auto
  have "recover_pages ops (cs_flash s) [0, 1] scan_init = (b, True)" using a b by simp
  then obtain s' where s': "cs_recover ops s = (s', True)"
    by (simp add: cs_recover_def two Let_def del: recover_pages.simps)
  have "cs_flash s' = cs_flash s" using cfg_recover_frames [OF s'] by (simp add: same_frame_def)
  then show ?thesis using cfg_recover_authority [OF assms(1) s'] cfg_recover_frames [OF s'] s' by auto
qed

end

interpretation ncf_store: readable_config ncf_ops nrf_wf nf_cells "\<lambda>_. None" nf_ready
proof unfold_locales
  fix f :: NrfConfigFlash and off n
  assume "nf_ready f" "off + n \<le> kTwoPageRegion"
  then show "fb_read ncf_ops f off n = Some (slice off n (nf_cells f))"
    by (simp add: nrf_ops_def nrf_read_def inBounds_def)
qed

section \<open>The store on its driver\<close>

text \<open>
  Everything the firmware may do with the store object, and what may happen around it: a reset, a
  change of the platform (SoftDevice enabled or not, flash calls that fail from now on).
\<close>

datatype config_event =
  EvBegin "u64 option option"
| EvPoll
| EvSave Config
| EvRequest Config
| EvReset
| EvTake
| EvPlatform softdevice bool
| EvReboot

fun config_step :: "config_event \<Rightarrow> NrfConfigFlash ConfigStore \<Rightarrow> NrfConfigFlash ConfigStore" where
  "config_step (EvBegin src) s = fst (cs_begin ncf_ops src s)"
| "config_step EvPoll s = cs_poll ncf_ops s"
| "config_step (EvSave cand) s = fst (cs_admitSave s cand)"
| "config_step (EvRequest cand) s = fst (cs_requestSave s cand)"
| "config_step EvReset s = fst (cs_requestReset s)"
| "config_step EvTake s = fst (cs_takeSaveResult s)"
| "config_step (EvPlatform sd en) s = s\<lparr>cs_flash := (cs_flash s)\<lparr>nf_sd := sd, nf_softdevice_enabled := en\<rparr>\<rparr>"
| "config_step EvReboot s = ConfigStore_init ((cs_flash s)\<lparr>nf_ready := False\<rparr>)"

fun config_event_ok :: "config_event \<Rightarrow> bool" where
  "config_event_ok (EvPlatform sd en) = softdevice_confined sd"
| "config_event_ok e = True"

inductive config_reachable :: "NrfConfigFlash ConfigStore \<Rightarrow> bool" where
  config_power_on: "nrf_wf f \<Longrightarrow> config_reachable (ConfigStore_init f)"
| config_event: "config_reachable s \<Longrightarrow> config_event_ok e \<Longrightarrow> config_reachable (config_step e s)"

definition ncf_inv :: "NrfConfigFlash ConfigStore \<Rightarrow> bool" where
  "ncf_inv s \<longleftrightarrow> nrf_wf (cs_flash s) \<and> config_inv (nf_cells (cs_flash s)) None s"

lemma ncf_inv_init: "nrf_wf f \<Longrightarrow> ncf_inv (ConfigStore_init f)"
  by (simp add: ncf_inv_def config_inv_def at_rest_def ConfigStore_init_def record_sizes)

lemma cfg_flash_inv_cong: "config_inv c pd (s\<lparr>cs_flash := f\<rparr>) = config_inv c pd s"
proof -
  have "phase_ok c pd (s\<lparr>cs_flash := f\<rparr>) = phase_ok c pd s"
    by (cases "cs_job s"; cases "cs_blob_step s") (simp_all add: phase_ok_def)
  then show ?thesis
    by (simp add: config_inv_def at_rest_def saving_def save_base_def authority_of_def
        current_record_def pending_record_def)
qed

lemma ncf_step_inv:
  assumes "ncf_inv s" "config_event_ok e"
  shows "ncf_inv (config_step e s)"
proof -
  have wf: "nrf_wf (cs_flash s)" and inv: "config_inv (nf_cells (cs_flash s)) None s" and blob: "length (cs_blob s) = 68"
    using assms(1) by (simp_all add: ncf_inv_def config_inv_def)
  note len = ncf.cells_length [OF wf]
  show ?thesis
  proof (cases e)
    case (EvBegin src)
    obtain s' ok where b: "cs_begin ncf_ops src s = (s', ok)" by fastforce
    show ?thesis using ncf_store.cfg_begin_inv [OF wf blob b] EvBegin b by (simp add: ncf_inv_def config_inv_def)
  next
    case EvPoll
    then show ?thesis using ncf_store.cfg_poll_inv [OF wf inv] by (simp add: ncf_inv_def)
  next
    case (EvSave cand)
    obtain s' a where b: "cs_admitSave s cand = (s', a)" by fastforce
    show ?thesis using cfg_admit_inv [OF inv len b] EvSave b wf by (simp add: ncf_inv_def)
  next
    case (EvRequest cand)
    then show ?thesis using cfg_request_inv(1) [OF inv len] wf by (simp add: ncf_inv_def)
  next
    case EvReset
    then show ?thesis using cfg_request_inv(2) [OF inv len] wf by (simp add: ncf_inv_def)
  next
    case EvTake
    have "cs_flash (fst (cs_takeSaveResult s)) = cs_flash s" by (simp add: cs_takeSaveResult_def)
    then show ?thesis using cfg_take_inv [OF inv] EvTake wf by (simp add: ncf_inv_def)
  next
    case (EvPlatform sd en)
    have "nrf_wf ((cs_flash s)\<lparr>nf_sd := sd, nf_softdevice_enabled := en\<rparr>)"
      using wf assms(2) EvPlatform by (simp add: nrf_wf_def)
    then show ?thesis using inv EvPlatform by (simp add: ncf_inv_def cfg_flash_inv_cong)
  next
    case EvReboot
    have "nrf_wf ((cs_flash s)\<lparr>nf_ready := False\<rparr>)" using wf by (simp add: nrf_wf_def)
    then show ?thesis using EvReboot ncf_inv_init by simp
  qed
qed

lemma cfg_reachable_inv: "config_reachable s \<Longrightarrow> ncf_inv s"
  by (induction rule: config_reachable.induct) (simp_all add: ncf_inv_init ncf_step_inv)

lemma ncf_never_awaits:
  assumes "ncf_inv s" "cs_busy s"
  shows "saving (nf_cells (cs_flash s)) None s" "\<not> cs_awaiting_completion s" "cs_blob_step s = kBody"
    "cs_job s = kWrite \<Longrightarrow> blank (nf_cells (cs_flash s)) (cs_target_page s)"
proof -
  show m: "saving (nf_cells (cs_flash s)) None s"
    using assms by (auto simp: ncf_inv_def config_inv_def at_rest_def cs_busy_def)
  then show "\<not> cs_awaiting_completion s" "cs_blob_step s = kBody"
    by (cases "cs_job s"; cases "cs_blob_step s"; auto simp: saving_def phase_ok_def Let_def)+
  then show "cs_job s = kWrite \<Longrightarrow> blank (nf_cells (cs_flash s)) (cs_target_page s)"
    using m by (auto simp: saving_def phase_ok_def Let_def)
qed

text \<open>A reset: the cells survive, the objects are constructed anew, SoftDevice is not yet enabled.\<close>

definition after_reset :: "NrfConfigFlash \<Rightarrow> bytes \<Rightarrow> NrfConfigFlash ConfigStore" where
  "after_reset f c = ConfigStore_init (f\<lparr>nf_cells := c, nf_ready := False, nf_softdevice_enabled := False\<rparr>)"

lemma cfg_boot_authority:
  assumes "softdevice_confined (nf_sd f)" "length c = kTwoPageRegion" "nf_layout_ok f"
    and tok: "fst (snd (snd (reboot_authority c))) \<noteq> ConfigTokenState.kUnavailable"
    and b: "cs_begin ncf_ops src (after_reset f c) = (s', ok)"
  shows "ok \<and> authority_of s' = reboot_authority c \<and>
    cs_flash s' = f\<lparr>nf_cells := c, nf_ready := True, nf_softdevice_enabled := False\<rparr> \<and> cs_job s' = kNone \<and> cs_ready s' \<and>
    \<not> cs_recovery_pending s' \<and> \<not> cs_mutation_unreconciled s' \<and> \<not> cs_save_result_ready s'"
proof -
  let ?f = "f\<lparr>nf_cells := c, nf_ready := True, nf_softdevice_enabled := False\<rparr>"
  let ?s0 = "boot_state (after_reset f c) ?f"
  have fl: "cs_flash ?s0 = ?f" by (simp add: boot_state_def)
  have "nrf_wf (cs_flash ?s0)" "nf_ready (cs_flash ?s0)" using assms(1,2) by (simp_all add: fl nrf_wf_def)
  from ncf_store.cfg_recover_total [OF this] obtain s1 where s1: "cs_recover ncf_ops ?s0 = (s1, True)"
    "authority_of s1 = reboot_authority c" "same_frame ?s0 s1" by (auto simp: fl)
  have fb: "fb_begin ncf_ops (cs_flash (after_reset f c)) = (?f, True)"
    using assms(3) by (simp add: nrf_ops_def nrf_begin_def after_reset_def ConfigStore_init_def)
  have "cs_token_state s1 \<noteq> ConfigTokenState.kUnavailable"
    using tok s1(2) [symmetric] by (simp add: authority_of_def)
  then have "(s', ok) = (s1\<lparr>cs_ready := True\<rparr>, True)"
    unfolding b [symmetric] begin_shape fb prod.case s1(1) by simp
  then show ?thesis using s1(2,3) fl
    by (simp add: authority_of_def same_frame_def boot_state_def clearRecoveredRuntimeState_def)
qed

lemma at_rest_idle: "ncf_inv s \<Longrightarrow> \<not> cs_busy s \<Longrightarrow> at_rest (nf_cells (cs_flash s)) s"
  by (auto simp: ncf_inv_def config_inv_def saving_def phase_ok_def cs_busy_def Let_def)

end
