(* ===== verification/Config_Guarantees.thy ===== *)
theory Config_Guarantees
  imports Config_Store_Run
begin

text \<open>
  What the configuration store guarantees to the rest of the firmware: durable authority, old-or-new after
  a power cut, the meaning of a save result, progress, and a configuration within its bounds whatever the
  flash returns; with a concrete store to witness them.
\<close>

section \<open>Durable authority\<close>

lemma cfg_view_of_authority:
  assumes "authority_of s' = authority_of s"
  shows "cs_stateToken s' = cs_stateToken s" "cs_config s' = cs_config s" "cs_generation s' = cs_generation s"
    "cs_active_page s' = cs_active_page s" "cs_maintenance_reset_required s' = cs_maintenance_reset_required s"
    "cs_hasCommittedRecord s' = cs_hasCommittedRecord s"
  using assms by (simp_all add: authority_of_def cs_stateToken_def cs_hasCommittedRecord_def)

lemma valid_at_rest:
  assumes "ncf_inv s" "\<not> cs_busy s" "cs_token_state s = kValid"
  shows "reboot_authority (nf_cells (cs_flash s)) = authority_of s" "cs_ready s"
    "\<exists>p<2. holds (nf_cells (cs_flash s)) p (current_record s) \<and> authority_of s = adopted (current_record s) p"
proof -
  have r: "at_rest (nf_cells (cs_flash s)) s" by (rule at_rest_idle [OF assms(1,2)])
  then show a: "reboot_authority (nf_cells (cs_flash s)) = authority_of s" "cs_ready s"
    using assms(3) by (simp_all add: at_rest_def)
  have "length (nf_cells (cs_flash s)) = kTwoPageRegion" using assms(1) by (simp add: ncf_inv_def nrf_wf_def)
  from cfg_valid_authority [OF this a(1) [symmetric] assms(3)]
  show "\<exists>p<2. holds (nf_cells (cs_flash s)) p (current_record s) \<and> authority_of s = adopted (current_record s) p" .
qed

text \<open>
  C17: Durable configuration.  Whenever a store that is not saving vouches for its token, a reset at that
  moment brings back exactly that configuration, token, generation and active page, and the same answer
  to whether an application ever configured the node: nothing the store vouches for lives in RAM only.
\<close>
theorem config_reboot_keeps_authority:
  assumes "config_reachable s" and "cs_token_state s = kValid" and "\<not> cs_busy s" and "nf_layout_ok (cs_flash s)"
    and "cs_begin ncf_ops src (after_reset (cs_flash s) (nf_cells (cs_flash s))) = (s', ok)"
  shows "ok \<and> cs_stateToken s' = cs_stateToken s \<and> cs_config s' = cs_config s \<and>
    cs_generation s' = cs_generation s \<and> cs_active_page s' = cs_active_page s \<and>
    cs_hasCommittedRecord s' = cs_hasCommittedRecord s"
proof -
  have inv: "ncf_inv s" by (rule cfg_reachable_inv [OF assms(1)])
  note a = valid_at_rest(1) [OF inv assms(3,2)]
  have "fst (snd (snd (reboot_authority (nf_cells (cs_flash s))))) \<noteq> ConfigTokenState.kUnavailable"
    using assms(2) by (simp add: a authority_of_def)
  from cfg_boot_authority [OF _ _ assms(4) this assms(5)] inv a
  have "ok \<and> authority_of s' = authority_of s" by (simp add: ncf_inv_def nrf_wf_def)
  then show ?thesis using cfg_view_of_authority by blast
qed

text \<open>
  C16: Power cut during a save.  Whatever prefix of the 17 words of body, checksum and commit has reached the
  page when power fails, the next boot comes up with either the old or the new configuration, and with
  the new one only when the commit word is there.  The token is valid, except after a cut behind
  exactly the first word: then the old configuration is still used, but the token is withheld and
  the store is locked until a maintenance reset.
\<close>
theorem config_power_cut_old_or_new:
  assumes "config_reachable s" and "cs_job s = kWrite" and "k \<le> 17" and "nf_layout_ok (cs_flash s)"
    and "cs_begin ncf_ops src (after_reset (cs_flash s)
           (interrupted (nf_cells (cs_flash s)) (cs_target_page s) (pending_record s) k)) = (s', ok)"
  shows "ok \<and>
    cs_config s' = (if k = 17 then cs_pending_config s else cs_config s) \<and>
    cs_stateToken s' = (if k = 17 then Some (cs_pending_token s) else if k = 1 then None else Some (cs_token s)) \<and>
    (cs_maintenance_reset_required s' \<longleftrightarrow> k = 1)"
proof -
  let ?c = "nf_cells (cs_flash s)" and ?t = "cs_target_page s"
  let ?d = "interrupted ?c ?t (pending_record s) k"
  have inv: "ncf_inv s" by (rule cfg_reachable_inv [OF assms(1)])
  have busy: "cs_busy s" using assms(2) by (simp add: cs_busy_def)
  note m = ncf_never_awaits [OF inv busy]
  have b: "save_base ?c s" using m(1) by (simp add: saving_def)
  note f = base_facts [OF b]
  have tt: "1 - (1 - ?t) = ?t" "1 - ?t < 2" using f(2) by (arith, simp)
  have a: "reboot_authority ?d = (if k = 17 then adopted (pending_record s) ?t
      else if k = 1 then fallen_back (current_record s) (applied_record (current_record s))
      else adopted (current_record s) (1 - ?t))"
    by (rule cut_interrupted [OF f(1) tt(2) f(3) f(5) f(7) f(4), unfolded tt(1), OF m(4) [OF assms(2)] assms(3)])
  then have "fst (snd (snd (reboot_authority ?d))) \<noteq> ConfigTokenState.kUnavailable"
    by (simp add: adopted_def fallen_back_def)
  from cfg_boot_authority [OF _ _ assms(4) this assms(5)] inv f(1)
  have "ok \<and> authority_of s' = reboot_authority ?d" by (simp add: ncf_inv_def nrf_wf_def)
  then show ?thesis unfolding a
    by (auto simp: authority_of_def adopted_def fallen_back_def cs_stateToken_def current_record_def pending_record_def
        split: if_splits)
qed

section \<open>The course of a save\<close>

lemma cfg_poll_idle_keeps:
  assumes "ncf_inv s" "\<not> cs_busy s" "s' = cs_poll ncf_ops s"
  shows "\<not> cs_busy s' \<and> cs_flash s' = cs_flash s \<and> cs_save_result_ready s' = cs_save_result_ready s \<and>
    cs_save_success s' = cs_save_success s \<and> (cs_token_state s = kValid \<longrightarrow> s' = s)"
proof -
  have "at_rest (nf_cells (cs_flash s)) s" by (rule at_rest_idle [OF assms(1,2)])
  then have v: "cs_token_state s = kValid \<longrightarrow> \<not> cs_recovery_pending s \<and> \<not> cs_mutation_unreconciled s"
    by (simp add: at_rest_def)
  define s1 where "s1 = (if cs_mutation_unreconciled s
      then s\<lparr>cs_mutation_unreconciled := False, cs_recovery_pending := True\<rparr> else s)"
  obtain s2 ok where r: "cs_recover ncf_ops (s1\<lparr>cs_recovery_pending := False\<rparr>) = (s2, ok)" by fastforce
  note fr = cfg_recover_frames [OF r, unfolded same_frame_def, simplified]
  have "s' = s \<or> s' = cs_poll_idle ncf_ops s1"
    using assms(2,3) by (simp add: cs_poll_def s1_def cs_busy_def)
  moreover have "\<not> cs_busy (cs_poll_idle ncf_ops s1) \<and> cs_flash (cs_poll_idle ncf_ops s1) = cs_flash s \<and>
      cs_save_result_ready (cs_poll_idle ncf_ops s1) = cs_save_result_ready s \<and>
      cs_save_success (cs_poll_idle ncf_ops s1) = cs_save_success s \<and>
      (cs_token_state s = kValid \<longrightarrow> cs_poll_idle ncf_ops s1 = s)"
  proof (cases "cs_recovery_pending s1")
    case False
    then have "s1 = s" by (cases "cs_mutation_unreconciled s") (simp_all add: s1_def)
    then show ?thesis using False assms(2) by (simp add: cs_poll_idle_def)
  next
    case True
    have s1: "cs_job s1 = cs_job s" "cs_flash s1 = cs_flash s" "cs_save_result_ready s1 = cs_save_result_ready s"
      "cs_save_success s1 = cs_save_success s" by (simp_all add: s1_def)
    have "cs_token_state s \<noteq> kValid" using True v by (cases "cs_mutation_unreconciled s") (simp_all add: s1_def)
    then show ?thesis using True r fr s1 assms(2) by (cases ok) (simp_all add: cs_poll_idle_def cs_busy_def bump_def)
  qed
  ultimately show ?thesis using assms(2) by (elim disjE) simp_all
qed

lemma cfg_poll_busy_outcome:
  assumes "ncf_inv s" "cs_busy s" "s' = cs_poll ncf_ops s"
  shows "outcome (nf_cells (cs_flash s')) s s'"
proof -
  have wf: "nrf_wf (cs_flash s)" using assms(1) by (simp add: ncf_inv_def)
  note m = ncf_never_awaits(1) [OF assms(1,2)]
  have "s' = cs_poll_erase ncf_ops s \<and> cs_job s = kErase \<or> s' = cs_poll_write ncf_ops s \<and> cs_job s = kWrite"
    using assms(2,3) m by (cases "cs_job s") (simp_all add: cs_poll_def saving_def cs_busy_def)
  then show ?thesis
    using ncf_store.cfg_poll_erase_inv [OF wf m, of s'] ncf_store.cfg_poll_write_inv [OF wf m, of s'] by blast
qed

lemma cfg_polls_outcome:
  assumes "ncf_inv s" "cs_busy s" "\<not> cs_save_result_ready s"
  shows "ncf_inv ((cs_poll ncf_ops ^^ n) s) \<and>
    (let s' = (cs_poll ncf_ops ^^ n) s in
     if cs_busy s' then kept s s'
     else cs_save_result_ready s' \<and>
       (if cs_save_success s' then current_record s' = pending_record s \<and> cs_token_state s' = kValid
        else holds (nf_cells (cs_flash s')) (1 - cs_target_page s) (current_record s)))"
proof (induction n)
  case 0
  then show ?case using assms by (simp add: kept_def)
next
  case (Suc n)
  let ?s = "(cs_poll ncf_ops ^^ n) s"
  have inv: "ncf_inv ?s" using Suc.IH by simp
  have inv': "ncf_inv (cs_poll ncf_ops ?s)" using ncf_step_inv [OF inv, of EvPoll] by simp
  show ?case
  proof (cases "cs_busy ?s")
    case True
    then have "kept s ?s" using Suc.IH by (simp add: Let_def)
    from cfg_kept_outcome [OF this cfg_poll_busy_outcome [OF inv True refl]]
    have o: "outcome (nf_cells (cs_flash (cs_poll ncf_ops ?s))) s (cs_poll ncf_ops ?s)" .
    show ?thesis using inv' o by (cases "cs_busy (cs_poll ncf_ops ?s)") (auto simp: outcome_def Let_def)
  next
    case False
    note k = cfg_poll_idle_keeps [OF inv False refl]
    have "cs_save_success ?s \<Longrightarrow> cs_poll ncf_ops ?s = ?s" using k Suc.IH False by (simp add: Let_def)
    then show ?thesis using inv' k Suc.IH False by (auto simp: Let_def)
  qed
qed

definition next_record :: "'f ConfigStore \<Rightarrow> Config \<Rightarrow> TokenizedRecord" where
  "next_record s cand = \<lparr>tr_generation = cs_generation s + 1, tr_config = cand,
     tr_token = \<lparr>tk_incarnation = tk_incarnation (cs_token s), tk_revision = tk_revision (cs_token s) + 1\<rparr>\<rparr>"

lemma admitted_save:
  assumes inv: "ncf_inv s" and e: "cs_admitSave s cand = (s1, kStarted)"
  shows "ncf_inv s1 \<and> \<not> cs_save_result_ready s1 \<and> cs_job s1 = kErase \<and> cs_busy s1 \<and> cs_flash s1 = cs_flash s \<and>
    \<not> cs_busy s \<and> cs_token_state s = kValid \<and> validCandidate cand \<and>
    current_record s1 = current_record s \<and> pending_record s1 = next_record s cand \<and>
    (\<exists>p<2. cs_active_page s = int p \<and> cs_target_page s1 = 1 - p \<and> holds (nf_cells (cs_flash s)) p (current_record s))"
proof (cases rule: admit_cases [OF e])
  case (3 ok)
  have wf: "nrf_wf (cs_flash s)" "length (cs_blob s) = 68" using inv by (simp_all add: ncf_inv_def config_inv_def)
  have len: "length (nf_cells (cs_flash s)) = kTwoPageRegion" using wf by (simp add: nrf_wf_def)
  have ok: "ok" using 3(2) by (cases ok) simp_all
  note st = start_save_inv [OF at_rest_idle [OF inv 3(5)] len wf(2) 3(3,4,1), of None]
  obtain p where p: "p < 2" "holds (nf_cells (cs_flash s)) p (current_record s)" "authority_of s = adopted (current_record s) p"
    using valid_at_rest(3) [OF inv 3(5,3)] by blast
  have ap: "cs_active_page s = int p" using p(3) by (simp add: authority_of_def adopted_def)
  have "cs_target_page s1 = nat (1 - cs_active_page s) \<and> \<not> cs_save_result_ready s1"
    using 3(1,6) ok by (auto simp: cs_startSave_def Let_def split: if_splits)
  then have t: "cs_target_page s1 = 1 - p" "\<not> cs_save_result_ready s1" using p(1) ap by (simp_all add: nat_diff_distrib)
  have "ncf_inv s1" using st ok wf(1) by (simp add: ncf_inv_def config_inv_def)
  then show ?thesis using st ok t p ap 3 by (simp add: next_record_def cs_busy_def)
qed simp_all

lemma save_result:
  assumes "config_reachable s" and "cs_admitSave s cand = (s1, kStarted)"
    and "s2 = (cs_poll ncf_ops ^^ n) s1" and "cs_takeSaveResult s2 = (s3, Some success)"
  shows "if success
    then cs_config s2 = cand \<and> cs_stateToken s2 = Some (tr_token (next_record s cand)) \<and>
      cs_generation s2 = cs_generation s + 1
    else holds (nf_cells (cs_flash s2)) (nat (cs_active_page s)) (current_record s)"
proof -
  note acc = admitted_save [OF cfg_reachable_inv [OF assms(1)] assms(2)]
  obtain p where p: "p < 2" "cs_active_page s = int p" "cs_target_page s1 = 1 - p" using acc by blast
  have t: "1 - cs_target_page s1 = nat (cs_active_page s)" using p by auto
  have o: "if cs_busy s2 then kept s1 s2
     else cs_save_result_ready s2 \<and>
       (if cs_save_success s2 then current_record s2 = pending_record s1 \<and> cs_token_state s2 = kValid
        else holds (nf_cells (cs_flash s2)) (1 - cs_target_page s1) (current_record s1))"
    using cfg_polls_outcome [of s1 n, unfolded Let_def, folded assms(3)] acc by blast
  have res: "cs_save_result_ready s2" "success = cs_save_success s2"
    using assms(4) by (simp_all add: cs_takeSaveResult_def split: if_splits)
  then have nb: "\<not> cs_busy s2" using o acc by (auto simp: kept_def)
  show ?thesis
  proof (cases success)
    case True
    then have "current_record s2 = next_record s cand" "cs_token_state s2 = kValid" using o nb res acc by simp_all
    then show ?thesis using True by (simp add: cs_stateToken_def current_record_def next_record_def)
  next
    case False
    then show ?thesis using o nb res acc t by simp
  qed
qed

text \<open>
  What a save result means.  After an admitted save and any number of polls, a reported success says
  that the store now vouches for exactly the candidate under the next revision of the same incarnation
  and the next generation; a reported failure says that the record the store used before is still
  committed, untouched, on its page.
\<close>
theorem config_save_result_meaning:
  assumes "config_reachable s" and "cs_admitSave s cand = (s1, kStarted)"
    and "s2 = (cs_poll ncf_ops ^^ n) s1" and "cs_takeSaveResult s2 = (s3, Some success)"
  shows "if success
    then cs_config s2 = cand \<and> cs_stateToken s2 = Some (tr_token (next_record s cand)) \<and>
      cs_generation s2 = cs_generation s + 1
    else holds (nf_cells (cs_flash s2)) (nat (cs_active_page s)) (current_record s)"
  by (rule save_result [OF assms])

section \<open>Progress on a working flash\<close>

lemma ncf_program_works:
  assumes "flash_operational f" "length (nf_cells f) = kTwoPageRegion" "t < 2" "off mod 4 = 0" "length data mod 4 = 0"
    "0 < length data" "length data \<le> 64" "off + length data \<le> kPageSize"
    "\<And>i. i < length data \<Longrightarrow> nf_cells f ! (t * kPageSize + off + i) = 0xFF"
  shows "fb_program ncf_ops f (t * kPageSize + off) data = (f\<lparr>nf_cells := write_at (t * kPageSize + off) data (nf_cells f)\<rparr>, kDone)"
proof -
  have room: "t * kPageSize + off + length data \<le> kTwoPageRegion" using page_room [OF assms(3)] assms(8) by linarith
  have al: "(t * kPageSize + off) mod 4 = 0" using assms(4) by (simp add: kPageSize_def mod_add_eq [symmetric] mod_mult_left_eq)
  have "off < kPageSize" using assms(6,8) by linarith
  then have "(t * kPageSize + off) mod kPageSize = off" by simp
  then have within: "(t * kPageSize + off) mod kPageSize + length data \<le> kPageSize" using assms(8) by simp
  have "length data \<le> 560" using assms(7) by simp
  from nrf_program_works [OF assms(1,2) al assms(5,6) this within room assms(9)]
  have "fb_program nrf_ops f (t * kPageSize + off) data =
      (f\<lparr>nf_cells := write_at (t * kPageSize + off) data (nf_cells f)\<rparr>, kDone)" .
  then show ?thesis using assms(7) by (simp add: ncf_program_eq)
qed

text \<open>The two program calls of one record, on a blank page.\<close>

lemma cfg_record_programs:
  assumes op: "flash_operational f" and len: "length (nf_cells f) = kTwoPageRegion" and t: "t < 2"
    and bl: "blank (nf_cells f) t" and b: "length b = 68"
  defines "c1 \<equiv> write_at (t * kPageSize) (take 64 b) (nf_cells f)"
  defines "c2 \<equiv> write_at (t * kPageSize + 64) (slice 64 4 b) c1"
  shows "fb_program ncf_ops f (t * kPageSize) (take 64 b) = (f\<lparr>nf_cells := c1\<rparr>, kDone)"
    and "fb_read ncf_ops (f\<lparr>nf_cells := c1\<rparr>) (t * kPageSize) 64 = Some (take 64 b)"
    and "fb_program ncf_ops (f\<lparr>nf_cells := c1\<rparr>) (t * kPageSize + 64) (slice 64 4 b) = (f\<lparr>nf_cells := c2\<rparr>, kDone)"
    and "fb_read ncf_ops (f\<lparr>nf_cells := c2\<rparr>) (t * kPageSize) 68 = Some b"
proof -
  have room: "t * kPageSize + kPageSize \<le> kTwoPageRegion" by (rule page_room [OF t])
  have l: "length (take 64 b) = 64" "length (slice 64 4 b) = 4" using b by simp_all
  have rd: "fb_read ncf_ops (f\<lparr>nf_cells := c\<rparr>) (t * kPageSize) n = Some (slice (t * kPageSize) n c)" if "n \<le> 68" for c n
    using op room that by (simp add: nrf_ops_def nrf_read_def inBounds_def flash_operational_def kPageSize_def)
  show "fb_program ncf_ops f (t * kPageSize) (take 64 b) = (f\<lparr>nf_cells := c1\<rparr>, kDone)"
    using ncf_program_works [OF op len t, of 0 "take 64 b"] bl l b by (cases b) (simp_all add: c1_def blank_def kPageSize_def)
  have c1: "length c1 = kTwoPageRegion" using len by (simp add: c1_def)
  have s1: "slice (t * kPageSize) 64 c1 = take 64 b"
    using l room len by (simp add: c1_def slice_write_at_same kPageSize_def)
  then show "fb_read ncf_ops (f\<lparr>nf_cells := c1\<rparr>) (t * kPageSize) 64 = Some (take 64 b)" using rd by simp
  have ff: "c1 ! (t * kPageSize + 64 + i) = 0xFF" if "i < 4" for i
  proof -
    have "t * kPageSize + 64 + i < length (nf_cells f)" using room len that by (simp add: kPageSize_def)
    then have "c1 ! (t * kPageSize + 64 + i) = nf_cells f ! (t * kPageSize + (64 + i))"
      using l by (simp add: c1_def nth_write_at_after add.assoc)
    then show ?thesis using bl that by (simp add: blank_def kPageSize_def)
  qed
  have op1: "flash_operational (f\<lparr>nf_cells := c1\<rparr>)" using op by (simp add: flash_operational_def)
  show "fb_program ncf_ops (f\<lparr>nf_cells := c1\<rparr>) (t * kPageSize + 64) (slice 64 4 b) = (f\<lparr>nf_cells := c2\<rparr>, kDone)"
    using ncf_program_works [OF op1 _ t, of 64 "slice 64 4 b"] c1 l ff by (simp add: c2_def kPageSize_def)
  have "c2 = write_at (t * kPageSize) (take 64 b @ slice 64 4 b) (nf_cells f)"
    using write_at_append [of "t * kPageSize" "take 64 b" "slice 64 4 b" "nf_cells f"] l room len
    by (simp add: c2_def c1_def kPageSize_def)
  moreover have "take 64 b @ slice 64 4 b = b" using b by (simp add: slice_def take_add [symmetric])
  ultimately have "slice (t * kPageSize) 68 c2 = b"
    using b room len by (simp add: slice_write_at_same kPageSize_def)
  then show "fb_read ncf_ops (f\<lparr>nf_cells := c2\<rparr>) (t * kPageSize) 68 = Some b" using rd by simp
qed

lemma cfg_erase_progress:
  assumes inv: "ncf_inv s" and job: "cs_job s = kErase" and op: "flash_operational (cs_flash s)" and s': "s' = cs_poll ncf_ops s"
  shows "cs_job s' = kWrite \<and> flash_operational (cs_flash s') \<and> kept s s' \<and> nf_layout_ok (cs_flash s') = nf_layout_ok (cs_flash s)"
proof -
  have busy: "cs_busy s" using job by (simp add: cs_busy_def)
  note m = ncf_never_awaits [OF inv busy]
  note f = base_facts [OF conjunct1 [OF m(1) [unfolded saving_def]]]
  have "s' = cs_poll_erase ncf_ops s" using m(1) job s' by (simp add: cs_poll_def saving_def)
  then have "s' = s\<lparr>cs_flash := (cs_flash s)\<lparr>nf_cells := write_at (cs_target_page s * kPageSize) (replicate kPageSize 0xFF)
      (nf_cells (cs_flash s))\<rparr>, cs_awaiting_completion := False, cs_job := kWrite\<rparr>"
    using m(2) nrf_erase_works [OF op f(1,2)] by (simp add: cs_poll_erase_def Let_def)
  then show ?thesis using op by (simp add: flash_operational_def kept_def current_record_def pending_record_def)
qed

lemma cfg_write_progress:
  assumes inv: "ncf_inv s" and job: "cs_job s = kWrite" and op: "flash_operational (cs_flash s)" and s': "s' = cs_poll ncf_ops s"
  shows "\<not> cs_busy s' \<and> cs_save_result_ready s' \<and> cs_save_success s'"
proof -
  have busy: "cs_busy s" using job by (simp add: cs_busy_def)
  note m = ncf_never_awaits [OF inv busy]
  let ?f = "cs_flash s" and ?t = "cs_target_page s" and ?b = "cs_blob s"
  note f = base_facts [OF conjunct1 [OF m(1) [unfolded saving_def]]]
  note pr = cfg_record_programs [OF op f(1,2) m(4) [OF job] f(9)]
  let ?c1 = "write_at (?t * kPageSize) (take 64 ?b) (nf_cells ?f)"
  let ?c2 = "write_at (?t * kPageSize + 64) (slice 64 4 ?b) ?c1"
  define s1 where "s1 = s\<lparr>cs_flash := ?f\<lparr>nf_cells := ?c1\<rparr>, cs_awaiting_completion := False, cs_blob_step := BlobStep.kCommit\<rparr>"
  define s2 where "s2 = s\<lparr>cs_flash := ?f\<lparr>nf_cells := ?c2\<rparr>, cs_awaiting_completion := False, cs_blob_step := kVerify\<rparr>"
  have w1: "cs_write_body ncf_ops s = (s1, None)"
    using m(2,3) pr(1,2) by (simp add: cs_write_body_def Let_def s1_def record_sizes del: ncf_same)
  have w2: "cs_write_commit ncf_ops s1 = (s2, None)"
    using pr(3) by (simp add: cs_write_commit_def Let_def s1_def s2_def record_sizes del: ncf_same)
  have "cs_writeBlob ncf_ops s = (s2\<lparr>cs_blob_step := kBody\<rparr>, kDone)"
    using w1 w2 pr(4) by (simp add: cs_writeBlob_def s2_def record_sizes del: ncf_same)
  moreover have "s' = cs_poll_write ncf_ops s" using m(1) job s' by (simp add: cs_poll_def saving_def)
  ultimately show ?thesis by (simp add: cs_poll_write_def cs_finishSave_def cs_busy_def bump_def)
qed

lemma save_completes:
  assumes "config_reachable s" and "cs_admitSave s cand = (s1, kStarted)" and "flash_operational (cs_flash s)"
  shows "let s2 = cs_poll ncf_ops (cs_poll ncf_ops s1) in
    cs_busy (cs_poll ncf_ops s1) \<and> \<not> cs_busy s2 \<and> snd (cs_takeSaveResult s2) = Some True \<and>
    cs_config s2 = cand \<and> cs_token_state s2 = kValid"
proof -
  note acc = admitted_save [OF cfg_reachable_inv [OF assms(1)] assms(2)]
  define a where "a = cs_poll ncf_ops s1"
  define b where "b = cs_poll ncf_ops a"
  have ia: "ncf_inv a" using ncf_step_inv [of s1 EvPoll] acc by (simp add: a_def)
  have pa: "cs_job a = kWrite" "flash_operational (cs_flash a)" "kept s1 a"
    using cfg_erase_progress [of s1 a] acc assms(3) by (simp_all add: a_def)
  note pb = cfg_write_progress [OF ia pa(1,2) b_def]
  have "outcome (nf_cells (cs_flash b)) a b"
    using cfg_poll_busy_outcome [OF ia _ b_def] pa(1) by (simp add: cs_busy_def)
  from cfg_kept_outcome [OF pa(3) this]
  have "current_record b = next_record s cand" "cs_token_state b = kValid" using pb acc by (simp_all add: outcome_def)
  then show ?thesis using pb pa(1)
    by (simp add: a_def [symmetric] b_def [symmetric] current_record_def next_record_def cs_takeSaveResult_def cs_busy_def)
qed

text \<open>
  Progress.  On a flash whose calls do what they are documented to do, every admitted save finishes
  with success after exactly two polls - one for the erase, one for body, commit and verification - and
  the store then vouches for the candidate.
\<close>
theorem config_save_completes:
  assumes "config_reachable s" and "cs_admitSave s cand = (s1, kStarted)" and "flash_operational (cs_flash s)"
  shows "let s2 = cs_poll ncf_ops (cs_poll ncf_ops s1) in
    cs_busy (cs_poll ncf_ops s1) \<and> \<not> cs_busy s2 \<and> snd (cs_takeSaveResult s2) = Some True \<and>
    cs_config s2 = cand \<and> cs_token_state s2 = kValid"
  by (rule save_completes [OF assms])

section \<open>A configuration within its bounds, whatever the flash returns\<close>

definition scan_ok :: "recover_scan \<Rightarrow> bool" where
  "scan_ok sc \<longleftrightarrow> (\<forall>p \<in> set (rs_committed_pages sc) \<union> set (rs_fallback_pages sc).
     p < length (rs_pages sc) \<and> validCandidate (pi_config (scanned sc p)))"

lemma note_fallback:
  "rs_fallback_pages (note_page i dirty p sc) = rs_fallback_pages sc \<or>
   rs_fallback_pages (note_page i dirty p sc) = rs_fallback_pages sc @ [p] \<and> validCandidate (pi_config i)"
  by (simp add: note_page_def Let_def scan_updates)

lemma note_ok:
  assumes "scan_ok sc"
  shows "scan_ok (note_page i dirty (length (rs_pages sc)) sc)"
proof -
  let ?sc = "note_page i dirty (length (rs_pages sc)) sc"
  have old: "scanned ?sc p = scanned sc p" if "p < length (rs_pages sc)" for p
    using that by (simp add: scanned_def note_pages nth_append)
  have new: "scanned ?sc (length (rs_pages sc)) = i" by (simp add: scanned_def note_pages nth_append)
  have mem: "p \<in> set (rs_committed_pages sc) \<union> set (rs_fallback_pages sc) \<or> p = length (rs_pages sc) \<and> validCandidate (pi_config i)"
    if "p \<in> set (rs_committed_pages ?sc) \<union> set (rs_fallback_pages ?sc)" for p
    using that note_fallback [of i dirty "length (rs_pages sc)" sc] by (auto simp: note_committed_pages split: if_splits)
  show ?thesis unfolding scan_ok_def
  proof
    fix p assume "p \<in> set (rs_committed_pages ?sc) \<union> set (rs_fallback_pages ?sc)"
    from mem [OF this] show "p < length (rs_pages ?sc) \<and> validCandidate (pi_config (scanned ?sc p))"
      using assms old new by (auto simp: scan_ok_def note_pages less_SucI)
  qed
qed

lemma pages_ok:
  assumes "recover_pages ops f [0..<kConfigPageCount] scan_init = (sc, True)"
  shows "scan_ok sc"
proof -
  have two: "[0..<kConfigPageCount] = [0, 1]" by (simp add: kConfigPageCount_def upt_rec)
  have step: "\<exists>i d. sc' = note_page i d p sc" if "recover_page ops f p sc = Some sc'" for p sc sc'
    using that by (auto simp: recover_page_def split: option.splits if_splits)
  obtain a where a: "recover_page ops f 0 scan_init = Some a" "recover_page ops f 1 a = Some sc"
    using assms by (auto simp: two split: option.splits)
  have init: "scan_ok scan_init" "length (rs_pages scan_init) = 0" by (simp_all add: scan_ok_def scan_init_def)
  have "scan_ok a \<and> length (rs_pages a) = 1"
    using step [OF a(1)] note_ok [OF init(1)] by (auto simp: init(2) note_pages)
  then show ?thesis using step [OF a(2)] note_ok [of a] by auto
qed

lemma fallbacks_member: "snd (scan_fallbacks sc f b ps) \<in> insert b (set ps)"
  by (induction ps arbitrary: b) auto

lemma decide_valid:
  assumes "scan_ok sc"
  shows "validCandidate (cs_config (recover_decide s sc))"
proof -
  have c: "validCandidate (pi_config (scanned sc (rs_committed_pages sc ! i)))" if "i < length (rs_committed_pages sc)" for i
    using assms that by (simp add: scan_ok_def)
  have f: "validCandidate (pi_config (scanned sc p))" if "p \<in> set (rs_fallback_pages sc)" for p
    using assms that by (simp add: scan_ok_def)
  have set: "cs_config (setMaintenance z t) = defaultConfig" "cs_config (setMaintenanceFallback z i t b) = pi_config i"
    "cs_config (setAuthority z p i) = pi_config i" for z :: "'a ConfigStore" and t i b p
    by (simp_all add: cfg_authority_setters)
  have none: "validCandidate (cs_config (recover_none z sc))" for z :: "'a ConfigStore"
  proof (cases "rs_fallback_pages sc")
    case Nil
    then show ?thesis by (simp add: recover_none_def set default_valid)
  next
    case (Cons p ps)
    obtain same best where b: "scan_fallbacks sc (scanned sc p) p ps = (same, best)" by fastforce
    then have "best \<in> set (rs_fallback_pages sc)" using fallbacks_member [of sc "scanned sc p" p ps] Cons by simp
    then show ?thesis using b f Cons by (simp add: recover_none_def Let_def set default_valid)
  qed
  show ?thesis
    using c none
    by (auto simp: recover_decide_def recover_one_def recover_two_def recover_two_corrupt_def Let_def set default_valid
        clearRecoveredRuntimeState_def)
qed

lemma recover_valid_config:
  assumes "cs_recover ops s = (s', ok)" "validCandidate (cs_config s)"
  shows "validCandidate (cs_config s')"
proof -
  obtain sc k where sc: "recover_pages ops (cs_flash s) [0..<kConfigPageCount] scan_init = (sc, k)" by fastforce
  have count: "cs_config (count_scan sc s) = cs_config s" by (simp add: count_scan_def bump_def)
  show ?thesis
  proof (cases k)
    case True
    then show ?thesis using assms(1) sc decide_valid [OF pages_ok] by (auto simp: cs_recover_def Let_def)
  next
    case False
    then show ?thesis using assms sc count by (auto simp: cs_recover_def Let_def)
  qed
qed

section \<open>A concrete store\<close>

text \<open>Page 0 holds the sample record, page 1 is blank; the store has just begun.\<close>

definition config_flash_sample :: NrfConfigFlash where
  "config_flash_sample = \<lparr>nf_sd = nor_flash, nf_cells = v8_image config_sample @ replicate (8192 - 68) 0xFF,
     nf_ready = False, nf_layout_ok = True, nf_softdevice_enabled = False\<rparr>"

definition config_store_sample :: "NrfConfigFlash ConfigStore" where
  "config_store_sample = fst (cs_begin ncf_ops None (ConfigStore_init config_flash_sample))"

definition config_candidate :: Config where
  "config_candidate = (tr_config config_sample)\<lparr>tracking_interval_seconds := 900\<rparr>"

lemma config_sample_cells: "length (nf_cells config_flash_sample) = kTwoPageRegion"
  by (simp add: config_flash_sample_def kTwoPageRegion_def kPageSize_def)

lemma config_sample_valid: "validCandidate (tr_config config_sample)"
  by code_simp

lemma blank_page_insp:
  assumes "length c = kTwoPageRegion" "p < 2" "blank c p"
  shows "page_insp c p = bare kErased" "tail_clean c p"
proof -
  have "page_prefix c p = replicate 72 0xFF"
    using length_page_prefix [OF assms(1,2)] page_room [OF assms(2)] assms
    by (intro nth_equalityI) (simp_all add: page_prefix_def cf_layout blank_def kPageSize_def)
  then show "page_insp c p = bare kErased"
    by (simp add: page_insp_def inspectPagePrefix_def cf_layout Let_def erased_iff)
  show "tail_clean c p" using assms(3) by (simp add: tail_clean_def blank_erased_from)
qed

lemma config_sample_authority: "reboot_authority (nf_cells config_flash_sample) = adopted config_sample 0"
proof -
  let ?c = "nf_cells config_flash_sample"
  have "torn_at ?c 0 config_sample 17" "blank ?c 1"
    by (auto simp: torn_at_def erased_from_def blank_def config_flash_sample_def slice_def kPageSize_def nth_append)
  then have h: "holds ?c 0 config_sample" and b: "page_insp ?c 1 = bare kErased" "tail_clean ?c 1"
    using torn_whole [OF _ config_sample_cells _ config_sample_tokenized config_sample_valid]
      blank_page_insp [OF config_sample_cells, of 1] by simp_all
  have "plain_page ?c (1 - 0)" "harmless ?c (1 - 0) config_sample"
    using b by (simp_all add: plain_page_def harmless_def doubtful_def page_dirty_def committed_at_def evidenceIsCommitted_def
        evidenceIsLegacy_def evidenceIsStaged_def evidenceIsSafeUncommitted_def Let_def)
  then show ?thesis using cfg_recover_single [OF config_sample_cells _ h] by simp
qed

lemma config_sample_wf: "nrf_wf config_flash_sample"
  using nor_confined config_sample_cells by (simp add: nrf_wf_def config_flash_sample_def)

lemma config_sample_reachable: "config_reachable config_store_sample"
  using config_reachable.config_event [OF config_reachable.config_power_on [OF config_sample_wf], of "EvBegin None"]
  by (simp add: config_store_sample_def)

lemma config_sample_begin:
  "authority_of config_store_sample = adopted config_sample 0" "cs_job config_store_sample = kNone"
  "cs_ready config_store_sample" "\<not> cs_recovery_pending config_store_sample"
  "\<not> cs_mutation_unreconciled config_store_sample" "\<not> cs_save_result_ready config_store_sample"
  "cs_flash config_store_sample = config_flash_sample\<lparr>nf_ready := True\<rparr>"
proof -
  have r: "after_reset config_flash_sample (nf_cells config_flash_sample) = ConfigStore_init config_flash_sample"
    by (simp add: after_reset_def config_flash_sample_def)
  obtain s' ok where b: "cs_begin ncf_ops None (after_reset config_flash_sample (nf_cells config_flash_sample)) = (s', ok)"
    by fastforce
  have s: "s' = config_store_sample" using b by (simp add: config_store_sample_def r)
  have e: "config_flash_sample\<lparr>nf_ready := True, nf_softdevice_enabled := False\<rparr> =
      config_flash_sample\<lparr>nf_ready := True\<rparr>" by (simp add: config_flash_sample_def)
  have f: "softdevice_confined (nf_sd config_flash_sample)" "nf_layout_ok config_flash_sample"
    using nor_confined by (simp_all add: config_flash_sample_def)
  have u: "fst (snd (snd (reboot_authority (nf_cells config_flash_sample)))) \<noteq> ConfigTokenState.kUnavailable"
    by (simp add: config_sample_authority adopted_def)
  from cfg_boot_authority [OF f(1) config_sample_cells f(2) u b]
  show "authority_of config_store_sample = adopted config_sample 0" "cs_job config_store_sample = kNone"
    "cs_ready config_store_sample" "\<not> cs_recovery_pending config_store_sample"
    "\<not> cs_mutation_unreconciled config_store_sample" "\<not> cs_save_result_ready config_store_sample"
    "cs_flash config_store_sample = config_flash_sample\<lparr>nf_ready := True\<rparr>"
    by (simp_all add: s config_sample_authority e)
qed

lemma config_sample_state:
  "cs_token_state config_store_sample = kValid" "\<not> cs_busy config_store_sample"
  "nf_layout_ok (cs_flash config_store_sample)" "flash_operational (cs_flash config_store_sample)"
  "current_record config_store_sample = config_sample" "cs_active_page config_store_sample = 0"
  using config_sample_begin nor_works
  by (simp_all add: authority_of_def adopted_def cs_busy_def config_flash_sample_def flash_operational_def current_record_def)

definition config_admitted :: "NrfConfigFlash ConfigStore" where
  "config_admitted = fst (cs_admitSave config_store_sample config_candidate)"

lemma config_sample_admit: "cs_admitSave config_store_sample config_candidate = (config_admitted, kStarted)"
proof -
  have a: "cs_config config_store_sample = tr_config config_sample" "cs_token config_store_sample = tr_token config_sample"
    "cs_generation config_store_sample = 7" "\<not> cs_maintenance_reset_required config_store_sample"
    using config_sample_begin(1) by (simp_all add: authority_of_def adopted_def config_sample_def)
  have "validCandidate config_candidate" "\<not> sameConfig config_candidate (tr_config config_sample)"
    "tk_revision (tr_token config_sample) = 3" by code_simp+
  then have "snd (cs_admitSave config_store_sample config_candidate) = kStarted"
    using a config_sample_begin config_sample_state by (simp add: cs_admitSave_def cs_startSave_def Let_def)
  then show ?thesis by (simp add: config_admitted_def prod_eq_iff)
qed

definition config_writing :: "NrfConfigFlash ConfigStore" where
  "config_writing = cs_poll ncf_ops config_admitted"

lemma config_write_state:
  "cs_job config_writing = kWrite" "config_reachable config_writing" "flash_operational (cs_flash config_writing)"
  "nf_layout_ok (cs_flash config_writing)" "cs_config config_writing = tr_config config_sample"
proof -
  note acc = admitted_save [OF cfg_reachable_inv [OF config_sample_reachable] config_sample_admit]
  have "config_reachable config_admitted"
    using config_reachable.config_event [OF config_sample_reachable, of "EvSave config_candidate"] by (simp add: config_admitted_def)
  then show "config_reachable config_writing"
    using config_reachable.config_event [of config_admitted EvPoll] by (simp add: config_writing_def)
  have p: "cs_job config_writing = kWrite" "flash_operational (cs_flash config_writing)" "kept config_admitted config_writing"
    "nf_layout_ok (cs_flash config_writing)"
    using cfg_erase_progress [of config_admitted config_writing] acc config_sample_state(3,4) by (simp_all add: config_writing_def)
  then show "cs_job config_writing = kWrite" "flash_operational (cs_flash config_writing)" "nf_layout_ok (cs_flash config_writing)"
    by simp_all
  have "current_record config_writing = config_sample" using p(3) acc config_sample_state(5) by (simp add: kept_def)
  then have "tr_config (current_record config_writing) = tr_config config_sample" by simp
  then show "cs_config config_writing = tr_config config_sample" by (simp add: current_record_def)
qed

theorem config_reboot_keeps_authority_witness:
  "\<exists>s'. cs_begin ncf_ops None (after_reset (cs_flash config_store_sample) (nf_cells (cs_flash config_store_sample))) = (s', True) \<and>
     cs_stateToken s' = cs_stateToken config_store_sample \<and> cs_active_page s' = 0"
proof -
  obtain s' ok where b: "cs_begin ncf_ops None (after_reset (cs_flash config_store_sample) (nf_cells (cs_flash config_store_sample))) = (s', ok)"
    by fastforce
  from config_reboot_keeps_authority [OF config_sample_reachable config_sample_state(1-3) this] b show ?thesis
    by (simp add: config_sample_state)
qed

theorem config_power_cut_old_or_new_witness:
  "\<exists>s'. cs_begin ncf_ops None (after_reset (cs_flash config_writing)
      (interrupted (nf_cells (cs_flash config_writing)) (cs_target_page config_writing) (pending_record config_writing) 1)) = (s', True) \<and>
     cs_config s' = tr_config config_sample \<and> cs_stateToken s' = None \<and> cs_maintenance_reset_required s'"
proof -
  obtain s' ok where b: "cs_begin ncf_ops None (after_reset (cs_flash config_writing)
      (interrupted (nf_cells (cs_flash config_writing)) (cs_target_page config_writing) (pending_record config_writing) 1)) = (s', ok)"
    by fastforce
  from config_power_cut_old_or_new [OF config_write_state(2,1) _ config_write_state(4) b] b show ?thesis
    by (simp add: config_write_state)
qed

theorem config_save_result_meaning_witness:
  "cs_config (cs_poll ncf_ops config_writing) = config_candidate"
proof -
  let ?s = "cs_poll ncf_ops config_writing"
  have "ncf_inv config_writing" by (rule cfg_reachable_inv [OF config_write_state(2)])
  from cfg_write_progress [OF this config_write_state(1,3) refl]
  have t: "cs_takeSaveResult ?s = (?s\<lparr>cs_save_result_ready := False\<rparr>, Some True)" by (simp add: cs_takeSaveResult_def)
  have p: "?s = (cs_poll ncf_ops ^^ 2) config_admitted" by (simp add: config_writing_def numeral_2_eq_2)
  show ?thesis using config_save_result_meaning [OF config_sample_reachable config_sample_admit p t] by simp
qed

theorem config_save_completes_witness:
  "snd (cs_takeSaveResult (cs_poll ncf_ops (cs_poll ncf_ops config_admitted))) = Some True"
  using config_save_completes [OF config_sample_reachable config_sample_admit config_sample_state(4)]
  by (simp add: Let_def)

end
