(* ===== verification/Config_Bounds.thy ===== *)
theory Config_Bounds
  imports Config_Guarantees
begin

text \<open>
  The configuration the store serves stays within its bounds whatever the flash returns; whatever sequence of operations ran.
\<close>

section \<open>Any backend\<close>

text \<open>
  Every sequence of operations on a store over any backend, honest or not; between two operations the
  state of the backend may change in any way.
\<close>

inductive config_runs :: "'f FlashBackend \<Rightarrow> 'f ConfigStore \<Rightarrow> bool" for ops where
  runs_start: "config_runs ops (ConfigStore_init f)"
| runs_begin: "config_runs ops s \<Longrightarrow> config_runs ops (fst (cs_begin ops source s))"
| runs_poll: "config_runs ops s \<Longrightarrow> config_runs ops (cs_poll ops s)"
| runs_admit: "config_runs ops s \<Longrightarrow> config_runs ops (fst (cs_admitSave s cand))"
| runs_request: "config_runs ops s \<Longrightarrow> config_runs ops (fst (cs_requestSave s cand))"
| runs_reset: "config_runs ops s \<Longrightarrow> config_runs ops (fst (cs_requestReset s))"
| runs_take: "config_runs ops s \<Longrightarrow> config_runs ops (fst (cs_takeSaveResult s))"
| runs_flash: "config_runs ops s \<Longrightarrow> config_runs ops (s\<lparr>cs_flash := f\<rparr>)"

definition in_bounds :: "'f ConfigStore \<Rightarrow> bool" where
  "in_bounds s \<longleftrightarrow> (cs_ready s \<longrightarrow> validCandidate (cs_config s)) \<and> (cs_busy s \<longrightarrow> validCandidate (cs_pending_config s))"

lemma establish_valid:
  assumes e: "cs_establishFreshBaseline ops source s = (s', ok)" and v: "validCandidate (cs_config s)"
  shows "validCandidate (cs_config s') \<and> cs_job s' = cs_job s"
proof (cases "\<exists>inc. source = Some (Some inc) \<and> inc \<noteq> 0")
  case False
  then have "s' = s" using e
    by (cases source; cases "the source") (auto simp: cs_establishFreshBaseline_def split: if_splits)
  then show ?thesis using v by simp
next
  case True
  then obtain inc where inc: "source = Some (Some inc)" "inc \<noteq> 0" by blast
  define r where "r = \<lparr>tr_generation = 1, tr_config = defaultConfig, tr_token = \<lparr>tk_incarnation = inc, tk_revision = 1\<rparr>\<rparr>"
  have "\<exists>f. fst (cs_writeFreshBaseline ops s r) = s\<lparr>cs_flash := f\<rparr>"
    by (auto simp: cs_writeFreshBaseline_def Let_def split: prod.split)
  then obtain f w where f: "cs_writeFreshBaseline ops s r = (s\<lparr>cs_flash := f\<rparr>, w)"
    by (cases "cs_writeFreshBaseline ops s r") auto
  define s4 where "s4 = bump (\<lambda>d. d\<lparr>cd_baseline_failures := cd_baseline_failures d + 1\<rparr>) (s\<lparr>cs_flash := f\<rparr>)"
  have s4: "cs_config s4 = cs_config s" "cs_job s4 = cs_job s" "cs_flash s4 = f" by (simp_all add: s4_def bump_def)
  show ?thesis
  proof (cases w)
    case True
    then have "cs_config s' = tr_config r" "cs_job s' = cs_job s"
      using e inc f by (auto simp: cs_establishFreshBaseline_def r_def [symmetric] Let_def bump_def)
    then show ?thesis by (simp add: r_def default_valid)
  next
    case False
    then have x: "(s', ok) = (if fb_hasUnreconciledMutation ops f then
        (bump (\<lambda>d. d\<lparr>cd_unreconciled_mutation_faults := cd_unreconciled_mutation_faults d + 1\<rparr>)
           (s4\<lparr>cs_mutation_unreconciled := True, cs_token_state := kUncertain\<rparr>), True) else cs_recover ops s4)"
      using e inc f by (simp add: cs_establishFreshBaseline_def r_def [symmetric] Let_def s4_def [symmetric] s4(3))
    show ?thesis
    proof (cases "fb_hasUnreconciledMutation ops f")
      case True
      then show ?thesis using x v s4 by (simp add: bump_def)
    next
      case False
      then have "cs_recover ops s4 = (s', ok)" using x by simp
      from recover_valid_config [OF this] cfg_recover_frames [OF this] show ?thesis using v s4 by (simp add: same_frame_def)
    qed
  qed
qed

lemma begin_valid: "in_bounds (fst (cs_begin ops source s))"
proof -
  obtain fl ok where fb: "fb_begin ops (cs_flash s) = (fl, ok)" by fastforce
  obtain s1 rec where r: "cs_recover ops (boot_state s fl) = (s1, rec)" by fastforce
  obtain s2 est where es: "cs_establishFreshBaseline ops source s1 = (s2, est)" by fastforce
  have boot: "cs_config (boot_state s fl) = defaultConfig" "cs_job (boot_state s fl) = kNone"
    by (simp_all add: boot_state_def clearRecoveredRuntimeState_def)
  have s1: "validCandidate (cs_config s1)" "cs_job s1 = kNone"
    using recover_valid_config [OF r] cfg_recover_frames [OF r] boot default_valid by (simp_all add: same_frame_def)
  note s2 = establish_valid [OF es s1(1)]
  show ?thesis
    using s1 s2 boot default_valid by (simp add: begin_shape fb r es in_bounds_def cs_busy_def)
qed

lemma fail_valid: "cs_config (cs_fail ops s) = cs_config s" "cs_job (cs_fail ops s) = kNone"
  by (simp_all add: cs_fail_def Let_def bump_def)

lemma write_valid:
  assumes "in_bounds s" "cs_ready s" "cs_busy s"
  shows "in_bounds (cs_poll_write ops s)"
proof -
  have v: "validCandidate (cs_config s)" "validCandidate (cs_pending_config s)" using assms by (simp_all add: in_bounds_def)
  have f: "in_bounds (cs_fail ops t)" if "cs_config t = cs_config s" for t
    using that v(1) by (simp add: in_bounds_def fail_valid cs_busy_def)
  have frame: "cs_config (s\<lparr>cs_flash := g, cs_awaiting_completion := a, cs_blob_step := st\<rparr>) = cs_config s" for g a st by simp
  obtain s1 r1 where w1: "cs_write_body ops s = (s1, r1)" by fastforce
  have b: "in_bounds s1 \<and> cs_config s1 = cs_config s \<and> (r1 = None \<longrightarrow> cs_pending_config s1 = cs_pending_config s) \<and> r1 \<noteq> Some kDone"
    using w1 v f
    by (auto simp: cs_write_body_def Let_def fail_valid in_bounds_def cs_busy_def split: if_splits prod.splits)
  obtain s2 r2 where w2: "cs_write_commit ops s1 = (s2, r2)" by fastforce
  have c: "in_bounds s2 \<and> (r2 = None \<longrightarrow> cs_config s2 = cs_config s \<and> cs_pending_config s2 = cs_pending_config s) \<and> r2 \<noteq> Some kDone"
    if "r1 = None"
    using w2 b that v f
    by (auto simp: cs_write_commit_def Let_def fail_valid in_bounds_def cs_busy_def split: if_splits prod.splits)
  show ?thesis
  proof (cases r1)
    case (Some r)
    then show ?thesis using w1 b by (simp add: cs_poll_write_def cs_writeBlob_def)
  next
    case none: None
    note c = c [OF none]
    show ?thesis
    proof (cases r2)
      case (Some r)
      then show ?thesis using w1 w2 none c by (simp add: cs_poll_write_def cs_writeBlob_def)
    next
      case None
      then show ?thesis using w1 w2 none c f [of s2] v(2)
        by (simp add: cs_poll_write_def cs_writeBlob_def cs_finishSave_def bump_def in_bounds_def cs_busy_def)
    qed
  qed
qed

lemma poll_valid:
  assumes "in_bounds s"
  shows "in_bounds (cs_poll ops s)"
proof (cases "\<not> cs_ready s \<or> cs_mutation_unreconciled s \<and> fb_hasUnreconciledMutation ops (cs_flash s)")
  case True
  then show ?thesis using assms by (auto simp: cs_poll_def)
next
  case False
  define t where "t = (if cs_mutation_unreconciled s then s\<lparr>cs_mutation_unreconciled := False, cs_recovery_pending := True\<rparr> else s)"
  have t: "in_bounds t" "cs_ready t" "validCandidate (cs_config t)" using assms False by (simp_all add: t_def in_bounds_def cs_busy_def)
  have poll: "cs_poll ops s = (case cs_job t of kNone \<Rightarrow> cs_poll_idle ops t | kErase \<Rightarrow> cs_poll_erase ops t | kWrite \<Rightarrow> cs_poll_write ops t)"
    using False by (cases "cs_mutation_unreconciled s") (simp_all add: cs_poll_def t_def split: Job.split)
  show ?thesis
  proof (cases "cs_job t")
    case kNone
    obtain u ok where r: "cs_recover ops (t\<lparr>cs_recovery_pending := False\<rparr>) = (u, ok)" by fastforce
    have "validCandidate (cs_config u)" "cs_job u = kNone"
      using recover_valid_config [OF r] cfg_recover_frames [OF r] t(3) kNone by (simp_all add: same_frame_def)
    then show ?thesis using t(1) kNone r by (simp add: poll cs_poll_idle_def in_bounds_def cs_busy_def bump_def)
  next
    case kErase
    then show ?thesis using t
      by (simp add: poll cs_poll_erase_def Let_def in_bounds_def cs_busy_def fail_valid split: prod.split)
  next
    case kWrite
    then show ?thesis using write_valid [OF t(1,2)] by (simp add: poll cs_busy_def)
  qed
qed

lemma admit_valid:
  assumes "in_bounds s"
  shows "in_bounds (fst (cs_admitSave s cand))"
proof -
  obtain s' a where e: "cs_admitSave s cand = (s', a)" by fastforce
  have "in_bounds s'"
  proof (cases rule: admit_cases [OF e])
    case (3 ok)
    then show ?thesis using assms by (auto simp: cs_startSave_def Let_def in_bounds_def cs_busy_def split: if_splits)
  qed (use assms in \<open>simp_all add: in_bounds_def cs_busy_def bump_def\<close>)
  then show ?thesis by (simp add: e)
qed

text \<open>
  C30: Bounds.  Over any flash - one that fails, lies about its cells or changes them between two calls - and
  after any sequence of operations, the configuration a ready store serves is one the node can run: a
  positive tracking interval of at most twelve days, a window of at most 300 seconds, and a service
  request its mode allows.
\<close>
theorem config_always_in_bounds:
  assumes "config_runs ops s" and "cs_ready s"
  shows "validCandidate (cs_config s)"
proof -
  from assms(1) have "in_bounds s"
  proof induction
    case (runs_start f)
    show ?case by (simp add: in_bounds_def ConfigStore_init_def cs_busy_def)
  next
    case (runs_request s cand)
    then show ?case using admit_valid [of s cand] by (cases "cs_admitSave s cand") (simp add: cs_requestSave_def)
  next
    case (runs_reset s)
    then show ?case using admit_valid [of s defaultConfig]
      by (cases "cs_admitSave s defaultConfig") (simp add: cs_requestReset_def cs_requestSave_def)
  qed (simp_all add: begin_valid poll_valid admit_valid, simp_all add: cs_takeSaveResult_def in_bounds_def cs_busy_def)
  then show ?thesis using assms(2) by (simp add: in_bounds_def)
qed

theorem config_always_in_bounds_witness: "tracking_interval_seconds (cs_config config_store_sample) > 0"
proof -
  have "config_runs ncf_ops config_store_sample"
    unfolding config_store_sample_def by (rule runs_begin [OF runs_start])
  from config_always_in_bounds [OF this config_sample_begin(3)] show ?thesis by (simp add: validCandidate_def)
qed

end
