(* ===== verification/Runtime_Config.thy ===== *)
theory Runtime_Config
  imports Node_Role Config_Format
begin

text \<open>
  \<open>firmware/include/runtime_config.h\<close>, \<open>firmware/src/runtime_config.cpp\<close>, \<open>firmware/include/service_intent.h\<close>
  and \<open>firmware/src/service_intent.cpp\<close>: from the stored service intent to what the node runs.  The
  enumerations the resolver switches over are kept as their bytes, so that its defensive branches for
  values outside the enumeration are branches here.
\<close>

section \<open>Capabilities and requested configuration\<close>

definition CapabilityPresence_kUnknown :: u8 where "CapabilityPresence_kUnknown = 0"
definition CapabilityPresence_kPresent :: u8 where "CapabilityPresence_kPresent = 1"
definition CapabilityPresence_kAbsent :: u8 where "CapabilityPresence_kAbsent = 2"

definition CapabilityHealth_kOk :: u8 where "CapabilityHealth_kOk = 0"
definition CapabilityHealth_kDegraded :: u8 where "CapabilityHealth_kDegraded = 1"
definition CapabilityHealth_kFault :: u8 where "CapabilityHealth_kFault = 2"
definition CapabilityHealth_kUnavailable :: u8 where "CapabilityHealth_kUnavailable = 3"

definition RequestedLocationSource_kNone :: u8 where "RequestedLocationSource_kNone = 0"
definition RequestedLocationSource_kGnss :: u8 where "RequestedLocationSource_kGnss = 1"

record CapabilityState =
  supported :: bool
  presence :: u8
  health :: u8

definition CapabilityState_init :: CapabilityState where
  "CapabilityState_init = \<lparr>supported = False, presence = CapabilityPresence_kUnknown,
     health = CapabilityHealth_kUnavailable\<rparr>"

record CapabilitySnapshot =
  gnss :: CapabilityState
  accelerometer :: CapabilityState

record RequestedConfig =
  tracking_enabled :: bool
  relay_forwarding_enabled :: bool
  location_source :: u8

datatype ConfigValidation = kOk | kTrackingRequiresLocationSource | kInvalidLocationSource
datatype ServiceState = kDisabled | kEnabled | kBlocked | kDegraded
datatype ServiceReason = kNone | kNotRequested | kInvalidConfiguration | kCapabilityUnsupported
  | kCapabilityUnknown | kCapabilityAbsent | kCapabilityDegraded | kCapabilityFault | kCapabilityUnavailable

record ServiceStatus =
  st_state :: ServiceState
  st_reason :: ServiceReason

record EffectiveConfig =
  tracking :: ServiceStatus
  relay_forwarding :: ServiceStatus

section \<open>The resolver\<close>

definition disabledStatus :: ServiceStatus where
  "disabledStatus = \<lparr>st_state = kDisabled, st_reason = kNotRequested\<rparr>"

definition enabledStatus :: ServiceStatus where
  "enabledStatus = \<lparr>st_state = kEnabled, st_reason = ServiceReason.kNone\<rparr>"

definition blockedStatus :: "ServiceReason \<Rightarrow> ServiceStatus" where
  "blockedStatus reason = \<lparr>st_state = kBlocked, st_reason = reason\<rparr>"

definition degradedStatus :: "ServiceReason \<Rightarrow> ServiceStatus" where
  "degradedStatus reason = \<lparr>st_state = kDegraded, st_reason = reason\<rparr>"

definition resolveGnssTracking :: "RequestedConfig \<Rightarrow> CapabilityState \<Rightarrow> ServiceStatus" where
  "resolveGnssTracking requested g =
     (if \<not> tracking_enabled requested then disabledStatus
      else if location_source requested \<noteq> RequestedLocationSource_kGnss then blockedStatus kInvalidConfiguration
      else if \<not> supported g then blockedStatus kCapabilityUnsupported
      else if presence g = CapabilityPresence_kUnknown then blockedStatus kCapabilityUnknown
      else if presence g = CapabilityPresence_kAbsent then blockedStatus kCapabilityAbsent
      else if health g = CapabilityHealth_kOk then enabledStatus
      else if health g = CapabilityHealth_kDegraded then degradedStatus kCapabilityDegraded
      else if health g = CapabilityHealth_kFault then blockedStatus kCapabilityFault
      else if health g = CapabilityHealth_kUnavailable then blockedStatus kCapabilityUnavailable
      else blockedStatus kCapabilityUnavailable)"

definition validateRequestedConfig :: "RequestedConfig \<Rightarrow> ConfigValidation" where
  "validateRequestedConfig c =
     (if location_source c \<noteq> RequestedLocationSource_kNone \<and> location_source c \<noteq> RequestedLocationSource_kGnss
      then kInvalidLocationSource
      else if tracking_enabled c \<and> location_source c = RequestedLocationSource_kNone
      then kTrackingRequiresLocationSource
      else kOk)"

definition requestedConfigFromLegacyBehavior :: "LegacyRoleBehavior \<Rightarrow> RequestedConfig" where
  "requestedConfigFromLegacyBehavior b =
     \<lparr>tracking_enabled = publish_gnss_position_value b, relay_forwarding_enabled = relay_forwarding_enabled_value b,
      location_source = (if publish_gnss_position_value b then RequestedLocationSource_kGnss
                         else RequestedLocationSource_kNone)\<rparr>"

definition resolveRequestedConfig :: "RequestedConfig \<Rightarrow> CapabilitySnapshot \<Rightarrow> EffectiveConfig" where
  "resolveRequestedConfig requested capabilities =
     (if validateRequestedConfig requested \<noteq> kOk
      then let invalid = blockedStatus kInvalidConfiguration in \<lparr>tracking = invalid, relay_forwarding = invalid\<rparr>
      else \<lparr>tracking = resolveGnssTracking requested (gnss capabilities),
            relay_forwarding = (if relay_forwarding_enabled requested then enabledStatus else disabledStatus)\<rparr>)"

section \<open>Service intent\<close>

datatype ServiceIntentAdmission = kSupported | kInvalid | kUnsupportedCombination

definition admitServiceIntent :: "u8 \<Rightarrow> u8 \<Rightarrow> ServiceIntentAdmission" where
  "admitServiceIntent mode services =
     (if mode = kServiceModeAuto then (if services = 0 then kSupported else ServiceIntentAdmission.kInvalid)
      else if mode \<noteq> kServiceModeExplicit \<or> services AND NOT kKnownServicesMask \<noteq> 0 then ServiceIntentAdmission.kInvalid
      else
        let receive = services AND kServiceApplicationReceive \<noteq> 0;
            other = services AND (kServiceTracking OR kServiceRelayForwarding) \<noteq> 0
        in if receive \<and> other then kUnsupportedCombination else kSupported)"

definition legacyRoleForServices :: "u8 \<Rightarrow> NodeRole" where
  "legacyRoleForServices services =
     (if services AND kServiceApplicationReceive \<noteq> 0 then NodeRole.kBase
      else if services = kServiceRelayForwarding then NodeRole.kRelay
      else NodeRole.kTracker)"

definition requestedConfigForServices :: "u8 \<Rightarrow> RequestedConfig" where
  "requestedConfigForServices services =
     (let track = services AND kServiceTracking \<noteq> 0; relay = services AND kServiceRelayForwarding \<noteq> 0 in
      \<lparr>tracking_enabled = track, relay_forwarding_enabled = relay,
       location_source = (if track then RequestedLocationSource_kGnss else RequestedLocationSource_kNone)\<rparr>)"

fun service_letter :: "char \<Rightarrow> u8 option" where
  "service_letter c =
     (if c = CHR ''T'' then Some kServiceTracking
      else if c = CHR ''R'' then Some kServiceRelayForwarding
      else if c = CHR ''A'' then Some kServiceApplicationReceive
      else None)"

fun scan_services :: "u8 \<Rightarrow> string \<Rightarrow> u8 option" where
  "scan_services services [] = Some services"
| "scan_services services (c # cs) =
     (case service_letter c of
        None \<Rightarrow> None
      | Some b \<Rightarrow> if services AND b \<noteq> 0 then None else scan_services (services OR b) cs)"

text \<open>The mode and the services, or nothing; a null pointer is \<open>None\<close>.\<close>

definition parseServiceIntent :: "string option \<Rightarrow> (u8 \<times> u8) option" where
  "parseServiceIntent text =
     (case text of
        None \<Rightarrow> None
      | Some t \<Rightarrow>
          if t = [] then None
          else if t = ''AUTO'' then Some (kServiceModeAuto, 0)
          else if t = ''NONE'' then Some (kServiceModeExplicit, 0)
          else case scan_services 0 t of None \<Rightarrow> None | Some services \<Rightarrow> Some (kServiceModeExplicit, services))"

text \<open>What the buffer of the given size holds as a C string, or the empty literal.\<close>

definition formatServices :: "u8 \<Rightarrow> nat option \<Rightarrow> string" where
  "formatServices services out =
     (case out of
        None \<Rightarrow> ''''
      | Some n \<Rightarrow>
          if n < 5 then ''''
          else if services AND kKnownServicesMask = 0 then ''NONE''
          else (if services AND kServiceTracking \<noteq> 0 then ''T'' else '''') @
               (if services AND kServiceRelayForwarding \<noteq> 0 then ''R'' else '''') @
               (if services AND kServiceApplicationReceive \<noteq> 0 then ''A'' else ''''))"

section \<open>What may run\<close>

lemmas service_codes = kServiceModeAuto_def kServiceModeExplicit_def kServiceTracking_def kServiceRelayForwarding_def
  kServiceApplicationReceive_def kKnownServicesMask_def

lemmas capability_codes = CapabilityPresence_kUnknown_def CapabilityPresence_kPresent_def
  CapabilityPresence_kAbsent_def CapabilityHealth_kOk_def CapabilityHealth_kDegraded_def CapabilityHealth_kFault_def
  CapabilityHealth_kUnavailable_def RequestedLocationSource_kNone_def RequestedLocationSource_kGnss_def

lemmas statuses = disabledStatus_def enabledStatus_def blockedStatus_def degradedStatus_def

text \<open>The words an intent is made of: the eight combinations of the three services.\<close>

lemma below_eight: "unat (x :: u8) < 8 \<Longrightarrow> x \<in> {0, 1, 2, 3, 4, 5, 6, 7}"
proof -
  assume l: "unat x < 8"
  define n where "n = unat x"
  have "x = of_nat n" "n < 8" using l by (simp_all add: n_def)
  moreover from this have "n \<in> {0, 1, 2, 3, 4, 5, 6, 7}" by auto
  ultimately show ?thesis by (elim insertE) simp_all
qed

lemma mask_services: "services AND kKnownServicesMask \<in> {0, 1, 2, 3, 4, 5, 6, 7 :: u8}"
proof (rule below_eight)
  have "services AND kKnownServicesMask = take_bit 3 services"
    by (simp add: kKnownServicesMask_def service_codes take_bit_eq_mask mask_eq_exp_minus_1)
  then have "unat (services AND kKnownServicesMask) = take_bit 3 (unat services)"
    by (simp add: unsigned_take_bit_eq)
  then show "unat (services AND kKnownServicesMask) < 8" using take_bit_nat_less_exp [of 3 "unat services"] by simp
qed

lemma service_bits:
  "services AND kServiceTracking = (services AND kKnownServicesMask) AND kServiceTracking"
  "services AND kServiceRelayForwarding = (services AND kKnownServicesMask) AND kServiceRelayForwarding"
  "services AND kServiceApplicationReceive = (services AND kKnownServicesMask) AND kServiceApplicationReceive"
  by (simp_all add: kKnownServicesMask_def service_codes and.assoc)

lemma known_services:
  assumes "services AND NOT kKnownServicesMask = 0"
  shows "services \<in> {0, 1, 2, 3, 4, 5, 6, 7 :: u8}"
proof -
  have "services = (services AND kKnownServicesMask) OR (services AND NOT kKnownServicesMask)"
    by (simp add: bit.conj_disj_distrib [symmetric])
  then have "services = services AND kKnownServicesMask" using assms by simp
  then show ?thesis using mask_services [of services] by simp
qed

lemma admitted_services:
  assumes "admitServiceIntent kServiceModeExplicit services = kSupported"
  shows "services \<in> {0, 1, 2, 3, 4 :: u8}"
proof -
  have k: "services AND NOT kKnownServicesMask = 0"
    using assms by (auto simp: admitServiceIntent_def kServiceModeExplicit_def kServiceModeAuto_def split: if_splits)
  show ?thesis using known_services [OF k] assms
    by (auto simp: admitServiceIntent_def Let_def service_codes split: if_splits)
qed

section \<open>The spelling of an intent\<close>

definition services_of :: "string \<Rightarrow> u8" where
  "services_of t = (if CHR ''T'' \<in> set t then kServiceTracking else 0) OR
     (if CHR ''R'' \<in> set t then kServiceRelayForwarding else 0) OR
     (if CHR ''A'' \<in> set t then kServiceApplicationReceive else 0)"

lemma service_letter_bits:
  "service_letter c = Some b \<longleftrightarrow> c \<in> set ''TRA'' \<and> b = services_of [c]"
  by (auto simp: services_of_def)

lemma services_of_Cons: "services_of (c # t) = services_of [c] OR services_of t"
  by (simp add: services_of_def or.assoc or.commute or.left_commute)

lemma letter_clash:
  assumes "c \<in> set ''TRA''" "set t \<subseteq> set ''TRA''"
  shows "services_of t AND services_of [c] \<noteq> 0 \<longleftrightarrow> c \<in> set t"
  using assms by (auto simp: services_of_def service_codes)

lemma scan_services_exact:
  assumes "set p \<subseteq> set ''TRA''"
  shows "scan_services (services_of p) t =
    (if distinct t \<and> set t \<subseteq> set ''TRA'' \<and> set t \<inter> set p = {} then Some (services_of (t @ p)) else None)"
  using assms
proof (induction t arbitrary: p)
  case (Cons c t)
  show ?case
  proof (cases "c \<in> set ''TRA''")
    case False
    then have "service_letter c = None" by simp
    then show ?thesis using False by simp
  next
    case True
    then have l: "service_letter c = Some (services_of [c])" using service_letter_bits [of c] by blast
    show ?thesis
    proof (cases "c \<in> set p")
      case True
      then show ?thesis using l letter_clash [OF \<open>c \<in> set ''TRA''\<close> Cons.prems] by simp
    next
      case False
      have p: "set (c # p) \<subseteq> set ''TRA''" using Cons.prems True by simp
      have a: "services_of p OR services_of [c] = services_of (c # p)"
        using services_of_Cons [of c p] by (simp add: or.commute)
      have same: "services_of (t @ c # p) = services_of (c # t @ p)" by (simp add: services_of_def)
      have "services_of p AND services_of [c] = 0" using letter_clash [OF True Cons.prems] False by simp
      then have "scan_services (services_of p) (c # t) = scan_services (services_of (c # p)) t"
        using l a by (simp del: service_letter.simps)
      then show ?thesis using Cons.IH [OF p] same True False by auto
    qed
  qed
qed (simp add: services_of_def)

text \<open>
  The spelling of an intent.  Exactly three forms are read: AUTO, NONE, and the letters T, R and A in any
  order, each at most once; the letters mean their services, everything else is refused; and what is
  printed for a set of services is read back as that set.
\<close>
theorem service_spelling_exact:
  "(parseServiceIntent (Some t) = Some (mode, services) \<longleftrightarrow>
     t = ''AUTO'' \<and> mode = kServiceModeAuto \<and> services = 0 \<or>
     t = ''NONE'' \<and> mode = kServiceModeExplicit \<and> services = 0 \<or>
     t \<noteq> [] \<and> distinct t \<and> set t \<subseteq> set ''TRA'' \<and> mode = kServiceModeExplicit \<and> services = services_of t) \<and>
   parseServiceIntent (Some (formatServices s (Some (5 + n)))) = Some (kServiceModeExplicit, s AND kKnownServicesMask)"
proof (rule conjI)
  have z: "services_of [] = 0" by (simp add: services_of_def)
  have scan: "scan_services 0 u = (if distinct u \<and> set u \<subseteq> set ''TRA'' then Some (services_of u) else None)" for u
    using scan_services_exact [of "[]" u] by (simp add: z)
  have auto: "\<not> set ''AUTO'' \<subseteq> set ''TRA''" "\<not> set ''NONE'' \<subseteq> set ''TRA''" by simp_all
  show "parseServiceIntent (Some t) = Some (mode, services) \<longleftrightarrow>
     t = ''AUTO'' \<and> mode = kServiceModeAuto \<and> services = 0 \<or>
     t = ''NONE'' \<and> mode = kServiceModeExplicit \<and> services = 0 \<or>
     t \<noteq> [] \<and> distinct t \<and> set t \<subseteq> set ''TRA'' \<and> mode = kServiceModeExplicit \<and> services = services_of t"
    using auto by (auto simp: parseServiceIntent_def scan)
  define k where "k = s AND kKnownServicesMask"
  have "k \<in> {0, 1, 2, 3, 4, 5, 6, 7}" unfolding k_def by (rule mask_services)
  moreover have f: "formatServices s (Some (5 + n)) = (if k = 0 then ''NONE'' else
      (if k AND kServiceTracking \<noteq> 0 then ''T'' else '''') @ (if k AND kServiceRelayForwarding \<noteq> 0 then ''R'' else '''') @
      (if k AND kServiceApplicationReceive \<noteq> 0 then ''A'' else ''''))"
    unfolding k_def service_bits(1-3) [of s, symmetric] by (simp add: formatServices_def)
  ultimately show "parseServiceIntent (Some (formatServices s (Some (5 + n)))) = Some (kServiceModeExplicit, s AND kKnownServicesMask)"
    unfolding f k_def [symmetric] by (auto simp: parseServiceIntent_def scan services_of_def service_codes)
qed

end
