(* ===== verification/Service_Runtime.thy ===== *)
theory Service_Runtime
  imports Runtime_Config
begin

text \<open>
  The service intent at work in \<open>firmware/src/main.cpp\<close>: \<open>applyServiceIntent\<close>, \<open>applyRole\<close>,
  \<open>requestedRuntimeConfig\<close>, \<open>serviceRuns\<close>, the intent half of \<open>applyCommittedConfigToRuntime\<close>, the
  role line of \<open>handleRoleCommand\<close> and the automatic role of \<open>loop\<close>.  The globals these functions
  share are the fields of one record; the role last handed to the radio manager and the interval last
  handed to the GNSS manager stand for the calls into those owners.  A build with
  \<open>ORUN_SF5L0_TRACKER\<close> passes its storage role, a build without passes nothing.  The serial output
  is left out.
\<close>

section \<open>State and operations\<close>

datatype StorageRole = StUnassigned | StTracker | StGateway | StConflict

definition trackerStorage :: "StorageRole \<Rightarrow> bool" where
  "trackerStorage r \<longleftrightarrow> r = StTracker"

definition gatewayStorage :: "StorageRole \<Rightarrow> bool" where
  "gatewayStorage r \<longleftrightarrow> r = StGateway"

record ServiceRuntime =
  applied_service_mode :: u8
  applied_requested_services :: u8
  explicit_services_active :: bool
  role_controller :: RoleController
  automatic_role_resolved :: bool
  radio_role :: NodeRole
  redetect_interval_ms :: u32

definition kGnssRedetectIntervalMs :: u32 where "kGnssRedetectIntervalMs = 10 * 60 * 1000"

text \<open>
  Before the configuration is applied: the initial values of the globals, and the role that
  \<open>setup\<close> hands to the radio manager first.
\<close>

definition ServiceRuntime_init :: ServiceRuntime where
  "ServiceRuntime_init = \<lparr>applied_service_mode = kServiceModeAuto, applied_requested_services = 0,
     explicit_services_active = False, role_controller = RoleController_init,
     automatic_role_resolved = False, radio_role = rc_role RoleController_init, redetect_interval_ms = 0\<rparr>"

definition applyRole :: "NodeRole \<Rightarrow> ServiceRuntime \<Rightarrow> ServiceRuntime" where
  "applyRole role s = s\<lparr>radio_role := role\<rparr>"

definition requestedRuntimeConfig :: "ServiceRuntime \<Rightarrow> RequestedConfig" where
  "requestedRuntimeConfig s =
     (if explicit_services_active s then requestedConfigForServices (applied_requested_services s)
      else requestedConfigFromLegacyBehavior (legacyRoleBehavior (rc_role (role_controller s))))"

definition applyServiceIntent :: "StorageRole option \<Rightarrow> Config \<Rightarrow> ServiceRuntime \<Rightarrow> ServiceRuntime" where
  "applyServiceIntent storage config s =
     (let s = s\<lparr>applied_service_mode := service_mode config, applied_requested_services := requested_services config\<rparr>;
          s = (case storage of None \<Rightarrow> s
               | Some r \<Rightarrow>
                   if \<not> trackerStorage r
                   then s\<lparr>applied_service_mode := kServiceModeExplicit,
                          applied_requested_services := (if gatewayStorage r then kServiceApplicationReceive else 0)\<rparr>
                   else s);
          services = applied_requested_services s;
          explicit_mode = (applied_service_mode s = kServiceModeExplicit);
          admitted = (admitServiceIntent (applied_service_mode s) services = kSupported);
          admitted = (case storage of None \<Rightarrow> admitted
                      | Some r \<Rightarrow> if trackerStorage r \<and> services AND kServiceApplicationReceive \<noteq> 0 then False
                                  else admitted);
          was_explicit = explicit_services_active s;
          s = s\<lparr>explicit_services_active := explicit_mode \<and> admitted\<rparr>;
          s = (if explicit_services_active s then
                 let role = legacyRoleForServices services
                 in applyRole role (s\<lparr>role_controller := snd (applyOverride (role_controller s) role),
                                      automatic_role_resolved := True\<rparr>)
               else if was_explicit then
                 s\<lparr>role_controller := restoreAutomatic (role_controller s), automatic_role_resolved := False\<rparr>
               else s);
          tracking_requested = (explicit_services_active s \<and> services AND kServiceTracking \<noteq> 0)
      in s\<lparr>redetect_interval_ms := (if tracking_requested then kGnssRedetectIntervalMs else 0)\<rparr>)"

text \<open>A committed configuration change applies the intent when it is not the one applied.\<close>

definition applyCommittedIntent :: "StorageRole option \<Rightarrow> Config \<Rightarrow> ServiceRuntime \<Rightarrow> ServiceRuntime" where
  "applyCommittedIntent storage config s =
     (if service_mode config \<noteq> applied_service_mode s \<or> requested_services config \<noteq> applied_requested_services s
      then applyServiceIntent storage config s else s)"

text \<open>A role line from USB, once no other command has claimed it.\<close>

definition handleRoleLine :: "string option \<Rightarrow> ServiceRuntime \<Rightarrow> ServiceRuntime" where
  "handleRoleLine line s =
     (case (case parseRoleCommand line of
              CmdTracker \<Rightarrow> Some NodeRole.kTracker
            | CmdRelay \<Rightarrow> Some NodeRole.kRelay
            | CmdBase \<Rightarrow> Some NodeRole.kBase
            | _ \<Rightarrow> None) of
        None \<Rightarrow> s
      | Some role \<Rightarrow>
          if explicit_services_active s then s
          else applyRole role (s\<lparr>role_controller := snd (applyOverride (role_controller s) role),
                                 automatic_role_resolved := True\<rparr>))"

text \<open>The automatic role, in every pass of the loop, from what the GNSS owner has detected.\<close>

definition resolveAutomaticRole :: "bool \<Rightarrow> bool \<Rightarrow> ServiceRuntime \<Rightarrow> ServiceRuntime" where
  "resolveAutomaticRole detection_complete detected s =
     (if \<not> automatic_role_resolved s \<and> rc_automatic (role_controller s) \<and> detection_complete then
        let s = s\<lparr>role_controller := snd (updateAutomatic (role_controller s) True detected),
                  automatic_role_resolved := True\<rparr>
        in applyRole (rc_role (role_controller s)) s
      else s)"

definition serviceRuns :: "ServiceStatus \<Rightarrow> bool" where
  "serviceRuns status \<longleftrightarrow> st_state status = kEnabled \<or> st_state status = kDegraded"

section \<open>Reachable states\<close>

text \<open>
  The configuration last applied and the state: \<open>setup\<close> applies the stored configuration, then
  committed changes, role lines and passes of the loop follow in any order.
\<close>

inductive sr_reachable :: "StorageRole option \<Rightarrow> Config \<Rightarrow> ServiceRuntime \<Rightarrow> bool" for storage where
  booted: "sr_reachable storage c (applyServiceIntent storage c ServiceRuntime_init)"
| committed: "sr_reachable storage c s \<Longrightarrow> sr_reachable storage c' (applyCommittedIntent storage c' s)"
| role_line: "sr_reachable storage c s \<Longrightarrow> sr_reachable storage c (handleRoleLine line s)"
| loop_pass: "sr_reachable storage c s \<Longrightarrow> sr_reachable storage c (resolveAutomaticRole complete detected s)"

text \<open>What the storage role lets the saved intent be, and when it decides what runs.\<close>

definition intent_in_force :: "StorageRole option \<Rightarrow> Config \<Rightarrow> u8 \<times> u8" where
  "intent_in_force storage c =
     (if storage = None \<or> storage = Some StTracker then (service_mode c, requested_services c)
      else (kServiceModeExplicit, if storage = Some StGateway then kServiceApplicationReceive else 0))"

definition intent_runs :: "StorageRole option \<Rightarrow> u8 \<times> u8 \<Rightarrow> bool" where
  "intent_runs storage i \<longleftrightarrow> fst i = kServiceModeExplicit \<and> admitServiceIntent (fst i) (snd i) = kSupported \<and>
     \<not> (storage = Some StTracker \<and> snd i AND kServiceApplicationReceive \<noteq> 0)"

definition sr_inv :: "StorageRole option \<Rightarrow> Config \<Rightarrow> ServiceRuntime \<Rightarrow> bool" where
  "sr_inv storage c s \<longleftrightarrow>
     (applied_service_mode s, applied_requested_services s) = intent_in_force storage c \<and>
     explicit_services_active s = intent_runs storage (intent_in_force storage c) \<and>
     radio_role s = rc_role (role_controller s) \<and>
     (explicit_services_active s \<longrightarrow> \<not> rc_automatic (role_controller s) \<and>
        rc_role (role_controller s) = legacyRoleForServices (applied_requested_services s)) \<and>
     redetect_interval_ms s = (if explicit_services_active s \<and> applied_requested_services s AND kServiceTracking \<noteq> 0
                               then 600000 else 0)"

lemmas sr_ops = applyServiceIntent_def applyRole_def applyOverride_def restoreAutomatic_def updateAutomatic_def
  trackerStorage_def gatewayStorage_def kGnssRedetectIntervalMs_def Let_def

lemma apply_intent_inv:
  assumes "radio_role s = rc_role (role_controller s)"
  shows "sr_inv storage c (applyServiceIntent storage c s)"
proof -
  have "storage = None \<or> (\<exists>r. storage = Some r)" by (cases storage) auto
  then show ?thesis
  proof (elim disjE exE)
    assume "storage = None"
    then show ?thesis using assms by (auto simp: sr_inv_def intent_in_force_def intent_runs_def sr_ops)
  next
    fix r assume "storage = Some r"
    then show ?thesis using assms by (cases r) (auto simp: sr_inv_def intent_in_force_def intent_runs_def sr_ops)
  qed
qed

lemma committed_inv:
  assumes "sr_inv storage c s"
  shows "sr_inv storage c' (applyCommittedIntent storage c' s)"
proof (cases "service_mode c' \<noteq> applied_service_mode s \<or> requested_services c' \<noteq> applied_requested_services s")
  case True
  then show ?thesis using assms apply_intent_inv [of s storage c'] by (simp add: applyCommittedIntent_def sr_inv_def)
next
  case False
  then have "intent_in_force storage c' = intent_in_force storage c"
    using assms by (auto simp: sr_inv_def intent_in_force_def split: if_splits)
  then show ?thesis using False assms by (simp add: applyCommittedIntent_def sr_inv_def)
qed

lemma role_line_inv: "sr_inv storage c s \<Longrightarrow> sr_inv storage c (handleRoleLine line s)"
  by (cases "parseRoleCommand line") (simp_all add: handleRoleLine_def sr_inv_def applyRole_def applyOverride_def)

lemma loop_pass_inv: "sr_inv storage c s \<Longrightarrow> sr_inv storage c (resolveAutomaticRole complete detected s)"
  by (auto simp: resolveAutomaticRole_def sr_inv_def applyRole_def updateAutomatic_def Let_def)

lemma sr_reachable_inv: "sr_reachable storage c s \<Longrightarrow> sr_inv storage c s"
proof (induction rule: sr_reachable.induct)
  case (booted c)
  then show ?case by (intro apply_intent_inv) (simp add: ServiceRuntime_init_def)
qed (auto intro: committed_inv role_line_inv loop_pass_inv)

text \<open>What is asked for in a state, and what the resolver makes of it.\<close>

lemma requested_resolves:
  fixes track relay caps
  defines "r \<equiv> \<lparr>tracking_enabled = track, relay_forwarding_enabled = relay,
     location_source = (if track then RequestedLocationSource_kGnss else RequestedLocationSource_kNone)\<rparr>"
  shows "resolveRequestedConfig r caps =
    \<lparr>tracking = resolveGnssTracking r (gnss caps), relay_forwarding = (if relay then enabledStatus else disabledStatus)\<rparr>"
    "resolveGnssTracking r g =
     (if \<not> track then disabledStatus else if \<not> supported g then blockedStatus kCapabilityUnsupported
      else if presence g = CapabilityPresence_kUnknown then blockedStatus kCapabilityUnknown
      else if presence g = CapabilityPresence_kAbsent then blockedStatus kCapabilityAbsent
      else if health g = CapabilityHealth_kOk then enabledStatus
      else if health g = CapabilityHealth_kDegraded then degradedStatus kCapabilityDegraded
      else if health g = CapabilityHealth_kFault then blockedStatus kCapabilityFault
      else blockedStatus kCapabilityUnavailable)"
  by (simp_all add: r_def resolveRequestedConfig_def validateRequestedConfig_def resolveGnssTracking_def capability_codes)

lemma requested_of_state:
  "requestedRuntimeConfig s =
     (let t = (if explicit_services_active s then applied_requested_services s AND kServiceTracking \<noteq> 0
               else rc_role (role_controller s) = NodeRole.kTracker);
          r = (if explicit_services_active s then applied_requested_services s AND kServiceRelayForwarding \<noteq> 0
               else rc_role (role_controller s) = NodeRole.kRelay)
      in \<lparr>tracking_enabled = t, relay_forwarding_enabled = r,
          location_source = (if t then RequestedLocationSource_kGnss else RequestedLocationSource_kNone)\<rparr>)"
  by (cases "rc_role (role_controller s)")
     (simp_all add: requestedRuntimeConfig_def requestedConfigForServices_def requestedConfigFromLegacyBehavior_def Let_def)

lemma receiving_role:
  assumes "sr_inv storage c s" "explicit_services_active s"
  shows "rc_role (role_controller s) = NodeRole.kBase \<longleftrightarrow> applied_requested_services s AND kServiceApplicationReceive \<noteq> 0"
    "rc_role (role_controller s) = NodeRole.kBase \<Longrightarrow>
       applied_requested_services s AND kServiceTracking = 0 \<and> applied_requested_services s AND kServiceRelayForwarding = 0"
proof -
  let ?v = "applied_requested_services s"
  have "admitServiceIntent kServiceModeExplicit ?v = kSupported"
    using assms by (auto simp: sr_inv_def intent_runs_def dest!: sym [of "(_, _)"])
  then have "?v \<in> {0, 1, 2, 3, 4 :: u8}" by (rule admitted_services)
  moreover have "rc_role (role_controller s) = legacyRoleForServices ?v" using assms by (simp add: sr_inv_def)
  ultimately show "rc_role (role_controller s) = NodeRole.kBase \<longleftrightarrow> ?v AND kServiceApplicationReceive \<noteq> 0"
    "rc_role (role_controller s) = NodeRole.kBase \<Longrightarrow> ?v AND kServiceTracking = 0 \<and> ?v AND kServiceRelayForwarding = 0"
    by (auto simp: legacyRoleForServices_def service_codes)
qed

section \<open>Properties\<close>

text \<open>
  C32: The device runs what its saved intent asks for, and says why when it does not.  In every state
  reached from boot by committed configuration changes, role lines and GNSS detection results, the
  applied intent is the saved one unless the storage role prescribes it, and it decides what runs exactly
  when it is EXPLICIT and runnable; otherwise, for AUTO and for a saved intent that cannot run, the
  legacy role decides.  Tracking is then in exactly one of eight states: off because not asked for;
  blocked because the receiver is unsupported, not yet known, absent, faulty or unavailable; degraded;
  or on - each with its own reason and exactly under its own condition.  Forwarding follows the request
  alone, the radio has the role of the controller, a receiving device neither tracks nor forwards, an
  explicit intent receives exactly when it asks to, and a missing receiver is looked for again every ten
  minutes exactly while tracking is explicitly asked for.
\<close>
theorem service_intent_runs_as_asked:
  assumes "sr_reachable storage c s"
  shows "let e = resolveRequestedConfig (requestedRuntimeConfig s) caps; g = gnss caps; h = health (gnss caps);
      intent = intent_in_force storage c; services = snd (intent_in_force storage c);
      active = intent_runs storage (intent_in_force storage c);
      role = rc_role (role_controller s);
      track = (if active then services AND kServiceTracking \<noteq> 0 else role = NodeRole.kTracker);
      relay = (if active then services AND kServiceRelayForwarding \<noteq> 0 else role = NodeRole.kRelay);
      receive = receive_application_position_value (legacyRoleBehavior role);
      there = (supported g \<and> presence g \<noteq> CapabilityPresence_kUnknown \<and> presence g \<noteq> CapabilityPresence_kAbsent) in
    (applied_service_mode s, applied_requested_services s) = intent \<and> explicit_services_active s = active \<and>
    (tracking e = \<lparr>st_state = kDisabled, st_reason = kNotRequested\<rparr> \<longleftrightarrow> \<not> track) \<and>
    (tracking e = \<lparr>st_state = kBlocked, st_reason = kCapabilityUnsupported\<rparr> \<longleftrightarrow> track \<and> \<not> supported g) \<and>
    (tracking e = \<lparr>st_state = kBlocked, st_reason = kCapabilityUnknown\<rparr> \<longleftrightarrow>
       track \<and> supported g \<and> presence g = CapabilityPresence_kUnknown) \<and>
    (tracking e = \<lparr>st_state = kBlocked, st_reason = kCapabilityAbsent\<rparr> \<longleftrightarrow>
       track \<and> supported g \<and> presence g = CapabilityPresence_kAbsent) \<and>
    (tracking e = \<lparr>st_state = kBlocked, st_reason = kCapabilityFault\<rparr> \<longleftrightarrow>
       track \<and> there \<and> h = CapabilityHealth_kFault) \<and>
    (tracking e = \<lparr>st_state = kBlocked, st_reason = kCapabilityUnavailable\<rparr> \<longleftrightarrow>
       track \<and> there \<and> h \<noteq> CapabilityHealth_kOk \<and> h \<noteq> CapabilityHealth_kDegraded \<and> h \<noteq> CapabilityHealth_kFault) \<and>
    (tracking e = \<lparr>st_state = kDegraded, st_reason = kCapabilityDegraded\<rparr> \<longleftrightarrow>
       track \<and> there \<and> h = CapabilityHealth_kDegraded) \<and>
    (tracking e = \<lparr>st_state = kEnabled, st_reason = ServiceReason.kNone\<rparr> \<longleftrightarrow>
       track \<and> there \<and> h = CapabilityHealth_kOk) \<and>
    (serviceRuns (tracking e) \<longleftrightarrow> track \<and> there \<and> (h = CapabilityHealth_kOk \<or> h = CapabilityHealth_kDegraded)) \<and>
    relay_forwarding e = (if relay then \<lparr>st_state = kEnabled, st_reason = ServiceReason.kNone\<rparr>
                          else \<lparr>st_state = kDisabled, st_reason = kNotRequested\<rparr>) \<and>
    radio_role s = role \<and> (receive \<longrightarrow> \<not> track \<and> \<not> relay) \<and>
    (active \<longrightarrow> (receive \<longleftrightarrow> services AND kServiceApplicationReceive \<noteq> 0)) \<and>
    redetect_interval_ms s = (if active \<and> services AND kServiceTracking \<noteq> 0 then 10 * 60 * 1000 else 0)"
proof -
  have inv: "sr_inv storage c s" using assms by (rule sr_reachable_inv)
  define i where "i = intent_in_force storage c"
  define active where "active = intent_runs storage i"
  define role where "role = rc_role (role_controller s)"
  define track where "track = (if active then snd i AND kServiceTracking \<noteq> 0 else role = NodeRole.kTracker)"
  define relay where "relay = (if active then snd i AND kServiceRelayForwarding \<noteq> 0 else role = NodeRole.kRelay)"
  define receive where "receive = receive_application_position_value (legacyRoleBehavior role)"
  have applied: "(applied_service_mode s, applied_requested_services s) = i" "applied_requested_services s = snd i"
      "explicit_services_active s = active" "radio_role s = role"
      "redetect_interval_ms s = (if active \<and> snd i AND kServiceTracking \<noteq> 0 then 10 * 60 * 1000 else 0)"
    using inv by (auto simp: sr_inv_def i_def active_def role_def dest: arg_cong [of _ _ snd])
  have base: "receive \<longleftrightarrow> role = NodeRole.kBase" by (cases role) (simp_all add: receive_def)
  have excl: "receive \<longrightarrow> \<not> track \<and> \<not> relay" "active \<longrightarrow> (receive \<longleftrightarrow> snd i AND kServiceApplicationReceive \<noteq> 0)"
    using receiving_role [OF inv] unfolding base track_def relay_def applied(2,3) role_def [symmetric] by auto
  have req: "requestedRuntimeConfig s = \<lparr>tracking_enabled = track, relay_forwarding_enabled = relay,
     location_source = (if track then RequestedLocationSource_kGnss else RequestedLocationSource_kNone)\<rparr>"
    unfolding requested_of_state applied(2,3) role_def [symmetric] track_def relay_def Let_def ..
  show ?thesis
    using applied excl unfolding Let_def i_def [symmetric] active_def [symmetric] role_def [symmetric]
      track_def [symmetric] relay_def [symmetric] receive_def [symmetric] req requested_resolves
    by (auto simp: serviceRuns_def statuses capability_codes)
qed

definition sample_intent :: Config where
  "sample_intent = Config_init\<lparr>service_mode := kServiceModeExplicit, requested_services := kServiceTracking OR kServiceRelayForwarding\<rparr>"

theorem service_intent_runs_as_asked_witness:
  "let s = resolveAutomaticRole True False (applyServiceIntent None sample_intent ServiceRuntime_init);
       e = resolveRequestedConfig (requestedRuntimeConfig s)
             \<lparr>gnss = \<lparr>supported = True, presence = CapabilityPresence_kAbsent, health = CapabilityHealth_kUnavailable\<rparr>,
              accelerometer = CapabilityState_init\<rparr>
   in tracking e = \<lparr>st_state = kBlocked, st_reason = kCapabilityAbsent\<rparr> \<and> st_state (relay_forwarding e) = kEnabled"
proof -
  have r: "sr_reachable None sample_intent
      (resolveAutomaticRole True False (applyServiceIntent None sample_intent ServiceRuntime_init))"
    by (intro sr_reachable.intros)
  have i: "intent_in_force None sample_intent = (1, 3)" "intent_runs None (1, 3)" by code_simp+
  show ?thesis
    using service_intent_runs_as_asked [OF r, of "\<lparr>gnss = \<lparr>supported = True, presence = CapabilityPresence_kAbsent,
      health = CapabilityHealth_kUnavailable\<rparr>, accelerometer = CapabilityState_init\<rparr>"]
    by (simp add: Let_def i service_codes capability_codes)
qed

end
