(* ===== verification/Config_Mutation.thy ===== *)
theory Config_Mutation
  imports Config_Guarantees Application_Request Runtime_Config
begin

text \<open>
  \<open>firmware/include/config_mutation.h\<close> and \<open>firmware/src/config_mutation.cpp\<close>: the one owner of
  configuration changes.  It admits a change from an authorised channel into its single slot, derives the
  candidate from the configuration in force, drives the configuration store and reports a typed outcome.
  The owner refers to the store, so every operation takes the store beside the owner and returns both.
\<close>

section \<open>The owner\<close>

definition kMinTrackingIntervalSeconds :: u32 where "kMinTrackingIntervalSeconds = 60"

datatype ConfigMutationKind = kSetTrackingInterval | kSetServiceIntent | kSetBleWindow

record ConfigMutationRequest =
  cq_requester :: ApplicationRequester
  cq_request_id :: u32
  cq_access :: ApplicationAccessChannel
  cq_kind :: ConfigMutationKind
  cq_tracking_interval_seconds :: u32
  cq_service_mode :: u8
  cq_requested_services :: u8
  cq_ble_window_seconds :: u32

record ConfigMutationResult =
  cr_requester :: ApplicationRequester
  cr_request_id :: u32
  cr_kind :: ConfigMutationKind
  cr_outcome :: ConfigMutationOutcome
  cr_token_valid :: bool
  cr_token :: StateToken
  cr_config :: Config

definition ConfigMutationResult_init :: ConfigMutationResult where
  "ConfigMutationResult_init = \<lparr>cr_requester = kUsb, cr_request_id = 0, cr_kind = kSetTrackingInterval,
     cr_outcome = kOutcomeUnavailable, cr_token_valid = False, cr_token = StateToken_init, cr_config = Config_init\<rparr>"

record ConfigMutationOwner =
  co_state :: OwnerState
  co_result :: ConfigMutationResult

definition ConfigMutationOwner_init :: ConfigMutationOwner where
  "ConfigMutationOwner_init = \<lparr>co_state = kIdle, co_result = ConfigMutationResult_init\<rparr>"

fun cm_accessBelongsToRequester :: "ApplicationRequester \<Rightarrow> ApplicationAccessChannel \<Rightarrow> bool" where
  "cm_accessBelongsToRequester kUsb channel = (channel = kUsbLocal)"
| "cm_accessBelongsToRequester kBle channel =
     (channel = kBleOpen \<or> channel = kBleEncrypted \<or> channel = kBleAuthenticated)"

definition mayChangeConfiguration :: "ApplicationAccessChannel \<Rightarrow> bool" where
  "mayChangeConfiguration channel \<longleftrightarrow> channel = kUsbLocal \<or> channel = kBleAuthenticated"

definition cm_complete :: "ConfigMutationOutcome \<Rightarrow> ConfigMutationOwner \<Rightarrow> 'f ConfigStore \<Rightarrow> ConfigMutationOwner" where
  "cm_complete oc o' s =
     o'\<lparr>co_result := (co_result o')\<lparr>cr_outcome := oc, cr_config := cs_config s,
           cr_token_valid := (cs_stateToken s \<noteq> None),
           cr_token := (case cs_stateToken s of None \<Rightarrow> StateToken_init | Some t \<Rightarrow> t)\<rparr>,
        co_state := kResultReady\<rparr>"

text \<open>The switch over the kind: the candidate, or nothing when the requested value is not admitted.\<close>

fun candidate_for :: "ConfigMutationRequest \<Rightarrow> Config \<Rightarrow> Config option" where
  "candidate_for req c =
     (case cq_kind req of
        kSetTrackingInterval \<Rightarrow>
          if cq_tracking_interval_seconds req < kMinTrackingIntervalSeconds then None
          else Some (c\<lparr>tracking_interval_seconds := cq_tracking_interval_seconds req\<rparr>)
      | kSetBleWindow \<Rightarrow>
          if cq_ble_window_seconds req > ucast kMaxBleWindowSeconds then None
          else Some (c\<lparr>ble_window_seconds := ucast (cq_ble_window_seconds req)\<rparr>)
      | kSetServiceIntent \<Rightarrow>
          if admitServiceIntent (cq_service_mode req) (cq_requested_services req) \<noteq> kSupported then None
          else Some (c\<lparr>service_mode := cq_service_mode req, requested_services := cq_requested_services req\<rparr>))"

definition cm_submit :: "ConfigMutationRequest \<Rightarrow> ConfigMutationOwner \<Rightarrow> 'f ConfigStore \<Rightarrow>
    ConfigMutationOwner \<times> 'f ConfigStore \<times> ConfigMutationSubmitResult" where
  "cm_submit req o' s =
     (if \<not> cm_accessBelongsToRequester (cq_requester req) (cq_access req) then (o', s, kRejected)
      else if co_state o' \<noteq> kIdle then (o', s, ConfigMutationSubmitResult.kBusy)
      else
        let o' = o'\<lparr>co_result := ConfigMutationResult_init
              \<lparr>cr_requester := cq_requester req, cr_request_id := cq_request_id req, cr_kind := cq_kind req\<rparr>\<rparr> in
        if \<not> mayChangeConfiguration (cq_access req) then (cm_complete kAccessDenied o' s, s, kAccepted)
        else
          case candidate_for req (cs_config s) of
            None \<Rightarrow> (cm_complete ConfigMutationOutcome.kInvalid o' s, s, kAccepted)
          | Some candidate \<Rightarrow>
              let (s, admission) = cs_admitSave s candidate in
              case admission of
                ConfigSaveAdmission.kStarted \<Rightarrow> (o'\<lparr>co_state := kSaving\<rparr>, s, kAccepted)
              | ConfigSaveAdmission.kUnchanged \<Rightarrow> (cm_complete ConfigMutationOutcome.kUnchanged o' s, s, kAccepted)
              | ConfigSaveAdmission.kBusy \<Rightarrow>
                  (o'\<lparr>co_result := ConfigMutationResult_init\<rparr>, s, ConfigMutationSubmitResult.kBusy)
              | ConfigSaveAdmission.kInvalid \<Rightarrow> (cm_complete ConfigMutationOutcome.kInvalid o' s, s, kAccepted)
              | ConfigSaveAdmission.kMaintenance \<Rightarrow> (cm_complete ConfigMutationOutcome.kMaintenance o' s, s, kAccepted)
              | ConfigSaveAdmission.kUnavailable \<Rightarrow> (cm_complete kOutcomeUnavailable o' s, s, kAccepted))"

definition cm_poll :: "ConfigMutationOwner \<Rightarrow> 'f ConfigStore \<Rightarrow> ConfigMutationOwner \<times> 'f ConfigStore \<times> bool" where
  "cm_poll o' s =
     (if co_state o' \<noteq> kSaving then (o', s, False)
      else
        case cs_takeSaveResult s of
          (s, None) \<Rightarrow> if cs_busy s then (o', s, False) else (cm_complete kOutcomeUnknown o' s, s, False)
        | (s, Some success) \<Rightarrow> (cm_complete (if success then kApplied else kOutcomeUnknown) o' s, s, success))"

definition cm_takeResult :: "ApplicationRequester \<Rightarrow> ConfigMutationOwner \<Rightarrow> ConfigMutationOwner \<times> ConfigMutationResult option" where
  "cm_takeResult requester o' =
     (if co_state o' \<noteq> kResultReady \<or> cr_requester (co_result o') \<noteq> requester then (o', None)
      else (\<lparr>co_state = kIdle, co_result = ConfigMutationResult_init\<rparr>, Some (co_result o')))"

text \<open>One loop pass: the store is polled, then the owner.\<close>

definition cm_pass :: "ConfigMutationOwner \<times> NrfConfigFlash ConfigStore \<Rightarrow>
    ConfigMutationOwner \<times> NrfConfigFlash ConfigStore \<times> bool" where
  "cm_pass os = cm_poll (fst os) (cs_poll ncf_ops (snd os))"

definition cm_passes :: "nat \<Rightarrow> ConfigMutationOwner \<times> NrfConfigFlash ConfigStore \<Rightarrow>
    ConfigMutationOwner \<times> NrfConfigFlash ConfigStore" where
  "cm_passes n os = ((\<lambda>os. (fst (cm_pass os), fst (snd (cm_pass os)))) ^^ n) os"

section \<open>What a candidate is\<close>

lemma admitted_intent_valid: "admitServiceIntent m v = kSupported \<Longrightarrow>
    validServiceIntent (c\<lparr>service_mode := m, requested_services := v\<rparr>)"
  by (auto simp: admitServiceIntent_def validServiceIntent_def split: if_splits)

lemma window_fits: "x \<le> (ucast kMaxBleWindowSeconds :: u32) \<Longrightarrow> ucast x \<le> kMaxBleWindowSeconds"
proof -
  assume "x \<le> ucast kMaxBleWindowSeconds"
  then have "unat x \<le> 300" by (simp add: kMaxBleWindowSeconds_def word_le_nat_alt)
  then have "unat (ucast x :: u16) = unat x" by (simp add: unsigned_ucast_eq take_bit_nat_eq_self)
  then show ?thesis using \<open>unat x \<le> 300\<close> by (simp add: kMaxBleWindowSeconds_def word_le_nat_alt)
qed

text \<open>An admitted value keeps a valid configuration valid, but for the upper bound of the interval.\<close>

lemma candidate_valid:
  assumes "candidate_for req c = Some c'" "validCandidate c"
    and "cq_kind req = kSetTrackingInterval \<longrightarrow> cq_tracking_interval_seconds req \<le> kMaxTrackingIntervalSeconds"
  shows "validCandidate c'"
proof (cases "cq_kind req")
  case kSetTrackingInterval
  then have i: "kMinTrackingIntervalSeconds \<le> cq_tracking_interval_seconds req"
    "c' = c\<lparr>tracking_interval_seconds := cq_tracking_interval_seconds req\<rparr>" using assms(1) by (auto split: if_splits)
  then have "0 < cq_tracking_interval_seconds req"
    by (simp add: kMinTrackingIntervalSeconds_def word_le_nat_alt word_less_nat_alt)
  then show ?thesis using assms(2,3) i kSetTrackingInterval by (simp add: validCandidate_def validServiceIntent_def split: if_splits)
next
  case kSetServiceIntent
  then show ?thesis using assms(1,2) admitted_intent_valid [of "cq_service_mode req" "cq_requested_services req" c]
    by (auto simp: validCandidate_def split: if_splits)
next
  case kSetBleWindow
  then show ?thesis using assms(1,2) window_fits [of "cq_ble_window_seconds req"]
    by (auto simp: validCandidate_def validServiceIntent_def simp del: not_less split: if_splits)
qed

text \<open>A candidate differs from the configuration in force in the requested field alone.\<close>

definition changed_as_asked :: "ConfigMutationRequest \<Rightarrow> Config \<Rightarrow> Config \<Rightarrow> bool" where
  "changed_as_asked req c c' \<longleftrightarrow>
     (battery_capacity_mah c' = battery_capacity_mah c) \<and>
     (if cq_kind req = kSetTrackingInterval
      then tracking_interval_seconds c' = cq_tracking_interval_seconds req \<and> 60 \<le> unat (cq_tracking_interval_seconds req)
      else tracking_interval_seconds c' = tracking_interval_seconds c) \<and>
     (if cq_kind req = kSetServiceIntent
      then service_mode c' = cq_service_mode req \<and> requested_services c' = cq_requested_services req \<and>
           admitServiceIntent (cq_service_mode req) (cq_requested_services req) = kSupported
      else service_mode c' = service_mode c \<and> requested_services c' = requested_services c) \<and>
     (if cq_kind req = kSetBleWindow
      then unat (ble_window_seconds c') = unat (cq_ble_window_seconds req) \<and> unat (cq_ble_window_seconds req) \<le> 300
      else ble_window_seconds c' = ble_window_seconds c)"

lemma candidate_changed:
  assumes "candidate_for req c = Some c'"
  shows "changed_as_asked req c c'"
proof (cases "cq_kind req")
  case kSetTrackingInterval
  then show ?thesis using assms
    by (auto simp: changed_as_asked_def kMinTrackingIntervalSeconds_def not_less word_le_nat_alt split: if_splits)
next
  case kSetServiceIntent
  then show ?thesis using assms by (auto simp: changed_as_asked_def split: if_splits)
next
  case kSetBleWindow
  then have w: "\<not> cq_ble_window_seconds req > ucast kMaxBleWindowSeconds" "c' = c\<lparr>ble_window_seconds := ucast (cq_ble_window_seconds req)\<rparr>"
    using assms by (auto split: if_splits)
  have "unat (cq_ble_window_seconds req) \<le> 300"
    using w(1) by (simp add: kMaxBleWindowSeconds_def not_less word_le_nat_alt)
  moreover from this have "unat (ucast (cq_ble_window_seconds req) :: u16) = unat (cq_ble_window_seconds req)"
    by (simp add: unsigned_ucast_eq take_bit_nat_eq_self)
  ultimately show ?thesis using kSetBleWindow w(2) by (simp add: changed_as_asked_def)
qed

section \<open>Who may change the configuration\<close>

definition slot_for :: "ConfigMutationRequest \<Rightarrow> ConfigMutationOwner \<Rightarrow> ConfigMutationOwner" where
  "slot_for req o' = o'\<lparr>co_result := ConfigMutationResult_init
     \<lparr>cr_requester := cq_requester req, cr_request_id := cq_request_id req, cr_kind := cq_kind req\<rparr>\<rparr>"

text \<open>The ways a submission can go.\<close>

lemma cfg_submit_cases:
  assumes "cm_submit req o' s = (o1, s1, r)"
  obtains (refused) "o1 = o'" "s1 = s" "r \<noteq> kAccepted"
      "\<not> cm_accessBelongsToRequester (cq_requester req) (cq_access req) \<or> co_state o' \<noteq> kIdle"
  | (denied) "o1 = cm_complete kAccessDenied (slot_for req o') s" "s1 = s" "r = kAccepted"
      "co_state o' = kIdle" "cm_accessBelongsToRequester (cq_requester req) (cq_access req)"
      "\<not> mayChangeConfiguration (cq_access req)"
  | (settled) oc where "o1 = cm_complete oc (slot_for req o') s1" "s1 = s \<or> (\<exists>f. s1 = bump f s)" "r = kAccepted"
      "co_state o' = kIdle" "cm_accessBelongsToRequester (cq_requester req) (cq_access req)"
      "mayChangeConfiguration (cq_access req)"
  | (busy) "co_state o1 = kIdle" "s1 = s \<or> (\<exists>f. s1 = bump f s)" "r = ConfigMutationSubmitResult.kBusy"
      "co_state o' = kIdle" "cm_accessBelongsToRequester (cq_requester req) (cq_access req)"
      "mayChangeConfiguration (cq_access req)"
  | (saving) c where "candidate_for req (cs_config s) = Some c" "cs_admitSave s c = (s1, ConfigSaveAdmission.kStarted)"
      "o1 = (slot_for req o')\<lparr>co_state := kSaving\<rparr>" "r = kAccepted"
      "co_state o' = kIdle" "cm_accessBelongsToRequester (cq_requester req) (cq_access req)"
      "mayChangeConfiguration (cq_access req)"
proof (cases "cm_accessBelongsToRequester (cq_requester req) (cq_access req) \<and> co_state o' = kIdle")
  case False
  then show thesis using assms by (intro refused) (auto simp: cm_submit_def split: if_splits)
next
  case True
  note idle = this
  show thesis
  proof (cases "mayChangeConfiguration (cq_access req)")
    case False
    then show thesis using assms idle by (intro denied) (auto simp: cm_submit_def slot_for_def Let_def)
  next
    case may: True
    show thesis
    proof (cases "candidate_for req (cs_config s)")
      case None
      then have "o1 = cm_complete ConfigMutationOutcome.kInvalid (slot_for req o') s1" "s1 = s" "r = kAccepted"
        using assms idle may by (auto simp: cm_submit_def slot_for_def Let_def simp del: candidate_for.simps)
      then show thesis using idle may by (intro settled) auto
    next
      case (Some c)
      obtain s2 a where a: "cs_admitSave s c = (s2, a)" by fastforce
      have sub: "(o1, s1, r) = (case a of
          ConfigSaveAdmission.kStarted \<Rightarrow> ((slot_for req o')\<lparr>co_state := kSaving\<rparr>, s2, kAccepted)
        | ConfigSaveAdmission.kUnchanged \<Rightarrow> (cm_complete ConfigMutationOutcome.kUnchanged (slot_for req o') s2, s2, kAccepted)
        | ConfigSaveAdmission.kBusy \<Rightarrow> ((slot_for req o')\<lparr>co_result := ConfigMutationResult_init\<rparr>, s2, ConfigMutationSubmitResult.kBusy)
        | ConfigSaveAdmission.kInvalid \<Rightarrow> (cm_complete ConfigMutationOutcome.kInvalid (slot_for req o') s2, s2, kAccepted)
        | ConfigSaveAdmission.kMaintenance \<Rightarrow> (cm_complete ConfigMutationOutcome.kMaintenance (slot_for req o') s2, s2, kAccepted)
        | ConfigSaveAdmission.kUnavailable \<Rightarrow> (cm_complete kOutcomeUnavailable (slot_for req o') s2, s2, kAccepted))"
        using idle may Some a unfolding assms [symmetric] by (cases a) (simp_all add: cm_submit_def slot_for_def Let_def del: candidate_for.simps)
      have "a \<noteq> ConfigSaveAdmission.kStarted \<Longrightarrow> s2 = s \<or> (\<exists>f. s2 = bump f s)"
        by (cases rule: admit_cases [OF a]) (auto simp: cs_startSave_def Let_def split: if_splits)
      then show thesis using sub a Some idle may saving [of c] settled busy
        by (cases a) (auto simp: slot_for_def simp del: candidate_for.simps)
    qed
  qed
qed

text \<open>
  C19: Who may change the configuration.  A submission whose channel does not belong to its requester, or that
  finds the slot taken, changes neither owner nor store.  Over a channel that is neither local USB nor
  an authenticated Bluetooth write the store is never touched and no save is started.  An accepted
  submission holds the slot under the requester and the identity it came with; a save is started only
  for a candidate that differs from the configuration in force in the requested field alone and is
  within the bounds of the store; in every other case the store is as before but for a counter.
\<close>
theorem config_change_admission:
  assumes "cm_submit req o' s = (o1, s1, r)"
  shows "(r = kRejected \<or> co_state o' \<noteq> kIdle \<longrightarrow> o1 = o' \<and> s1 = s \<and> r \<noteq> kAccepted) \<and>
    (\<not> mayChangeConfiguration (cq_access req) \<longrightarrow> s1 = s \<and> (co_state o1 = kSaving \<longrightarrow> o1 = o')) \<and>
    (r = kAccepted \<longrightarrow> co_state o1 \<noteq> kIdle \<and>
       (cr_requester (co_result o1), cr_request_id (co_result o1), cr_kind (co_result o1)) =
         (cq_requester req, cq_request_id req, cq_kind req)) \<and>
    (if co_state o' = kIdle \<and> co_state o1 = kSaving
     then \<exists>c. changed_as_asked req (cs_config s) c \<and> validCandidate c \<and>
            cs_admitSave s c = (s1, ConfigSaveAdmission.kStarted)
     else s1 = s \<or> (\<exists>f. s1 = bump f s))"
using assms
proof (cases rule: cfg_submit_cases)
  case (saving c)
  have "validCandidate c"
    by (cases rule: admit_cases [OF saving(2)]) simp_all
  then show ?thesis using saving candidate_changed [OF saving(1)] by (auto simp: slot_for_def simp del: candidate_for.simps)
qed (auto simp: cm_complete_def slot_for_def simp del: candidate_for.simps)

section \<open>What an applied change means\<close>

lemma cfg_pass_saving:
  assumes "cm_pass (o', s) = (o1, s1, b)" "co_state o' = kSaving"
  shows "(b \<longrightarrow> (\<exists>s2. cs_takeSaveResult (cs_poll ncf_ops s) = (s2, Some True) \<and> s1 = s2) \<and>
      co_state o1 = kResultReady \<and> cr_outcome (co_result o1) = kApplied) \<and>
    (co_state o1 = kSaving \<longrightarrow> o1 = o' \<and> s1 = cs_poll ncf_ops s \<and> \<not> b) \<and>
    (co_state o1 = kSaving \<or> co_state o1 = kResultReady)"
  using assms
  by (auto simp: cm_pass_def cm_poll_def cm_complete_def cs_takeSaveResult_def split: if_splits)

lemma cfg_passes_saving:
  "co_state o' = kSaving \<Longrightarrow> co_state (fst (cm_passes n (o', s))) = kSaving \<Longrightarrow>
   cm_passes n (o', s) = (o', (cs_poll ncf_ops ^^ n) s)"
proof (induction n)
  case 0
  show ?case by (simp add: cm_passes_def)
next
  case (Suc n)
  let ?q = "cm_passes n (o', s)"
  have st: "cm_passes (Suc n) (o', s) = (fst (cm_pass ?q), fst (snd (cm_pass ?q)))" by (simp add: cm_passes_def)
  have "co_state (fst ?q) = kSaving"
  proof (rule ccontr)
    assume n: "co_state (fst ?q) \<noteq> kSaving"
    then have "fst (cm_pass ?q) = fst ?q" by (simp add: cm_pass_def cm_poll_def)
    then show False using Suc.prems(2) st n by simp
  qed
  from Suc.IH [OF Suc.prems(1) this] have q: "?q = (o', (cs_poll ncf_ops ^^ n) s)" .
  obtain o1 s1 b where p: "cm_pass (o', (cs_poll ncf_ops ^^ n) s) = (o1, s1, b)"
    by (cases "cm_pass (o', (cs_poll ncf_ops ^^ n) s)") auto
  then show ?case using cfg_pass_saving [OF p Suc.prems(1)] Suc.prems(2) unfolding st q p by simp
qed

lemma announced_config:
  assumes "config_reachable s" and "cm_submit req o' s = (o1, s1, kAccepted)" and "co_state o' = kIdle"
    and "co_state o1 = kSaving" and "co_state (fst (cm_passes n (o1, s1))) = kSaving"
    and "cm_pass (cm_passes n (o1, s1)) = (o2, s2, True)"
  shows "(cr_outcome (co_result o2), cr_requester (co_result o2), cr_request_id (co_result o2)) =
      (kApplied, cq_requester req, cq_request_id req) \<and>
    changed_as_asked req (cs_config s) (cs_config s2) \<and> cr_config (co_result o2) = cs_config s2 \<and>
    cs_stateToken s2 = Some \<lparr>tk_incarnation = tk_incarnation (cs_token s), tk_revision = tk_revision (cs_token s) + 1\<rparr> \<and>
    cr_token_valid (co_result o2) \<and> cs_stateToken s2 = Some (cr_token (co_result o2))"
using assms(2)
proof (cases rule: cfg_submit_cases)
  case (saving c)
  have p: "cm_passes n (o1, s1) = (o1, (cs_poll ncf_ops ^^ n) s1)" by (rule cfg_passes_saving [OF assms(4,5)])
  note ps = assms(6) [unfolded p]
  define w where "w = (cs_poll ncf_ops ^^ Suc n) s1"
  have w: "cs_poll ncf_ops ((cs_poll ncf_ops ^^ n) s1) = w" by (simp add: w_def)
  have t: "cs_takeSaveResult w = (s2, Some True)" using cfg_pass_saving [OF ps assms(4)] w by auto
  have m: "cs_config w = c \<and> cs_stateToken w = Some (tr_token (next_record s c))"
    using save_result [OF assms(1) saving(2) w_def t] by simp
  have s2: "s2 = w\<lparr>cs_save_result_ready := False\<rparr>" using t by (auto simp: cs_takeSaveResult_def split: if_splits)
  have same: "cs_config s2 = cs_config w" "cs_stateToken s2 = cs_stateToken w" by (simp_all add: s2 cs_stateToken_def)
  have "o2 = cm_complete kApplied o1 s2" using ps assms(4) t by (simp add: cm_pass_def w cm_poll_def)
  then show ?thesis using m same saving(3) candidate_changed [OF saving(1)]
    by (simp add: cm_complete_def slot_for_def next_record_def del: candidate_for.simps)
qed (use assms(3,4) in \<open>simp_all add: cm_complete_def\<close>)

text \<open>
  C18: APPLIED means durable and in force.  When an accepted change is reported by the pass in which the owner
  announces it, the result says APPLIED for that very request; the store then serves the configuration
  it had with the requested field alone replaced, under the next revision of the same incarnation; and the
  configuration and the token the client is given are those the store vouches for.
\<close>
theorem applied_config_is_in_force:
  assumes "config_reachable s" and "cm_submit req o' s = (o1, s1, kAccepted)" and "co_state o' = kIdle"
    and "co_state o1 = kSaving" and "co_state (fst (cm_passes n (o1, s1))) = kSaving"
    and "cm_pass (cm_passes n (o1, s1)) = (o2, s2, True)"
  shows "(cr_outcome (co_result o2), cr_requester (co_result o2), cr_request_id (co_result o2)) =
      (kApplied, cq_requester req, cq_request_id req) \<and>
    changed_as_asked req (cs_config s) (cs_config s2) \<and> cr_config (co_result o2) = cs_config s2 \<and>
    cs_stateToken s2 = Some \<lparr>tk_incarnation = tk_incarnation (cs_token s), tk_revision = tk_revision (cs_token s) + 1\<rparr> \<and>
    cr_token_valid (co_result o2) \<and> cs_stateToken s2 = Some (cr_token (co_result o2))"
  by (rule announced_config [OF assms])

text \<open>On a flash whose calls work, the announcement comes in the second pass.\<close>

lemma applied_in_two:
  assumes "config_reachable s" "cs_admitSave s c = (s1, ConfigSaveAdmission.kStarted)"
    and "flash_operational (cs_flash s)" "co_state o1 = kSaving"
  shows "co_state (fst (cm_passes 1 (o1, s1))) = kSaving \<and> (\<exists>o2 s2. cm_pass (cm_passes 1 (o1, s1)) = (o2, s2, True))"
proof -
  define a1 where "a1 = cs_poll ncf_ops s1"
  define b1 where "b1 = cs_poll ncf_ops a1"
  have c: "cs_busy a1" "\<not> cs_busy b1" "snd (cs_takeSaveResult b1) = Some True"
    using save_completes [OF assms(1-3)] by (simp_all add: Let_def a1_def b1_def)
  note acc = admitted_save [OF cfg_reachable_inv [OF assms(1)] assms(2)]
  have "kept s1 a1" using cfg_polls_outcome [of s1 1] acc c(1) by (simp add: Let_def a1_def)
  then have "\<not> cs_save_result_ready a1" using acc by (simp add: kept_def)
  then have p: "cm_pass (o1, s1) = (o1, a1, False)"
    using c(1) assms(4) by (simp add: cm_pass_def cm_poll_def cs_takeSaveResult_def a1_def [symmetric])
  obtain s2 where t: "cs_takeSaveResult b1 = (s2, Some True)" using c(3) by (cases "cs_takeSaveResult b1") simp
  have "cm_passes 1 (o1, s1) = (o1, a1)" by (simp add: cm_passes_def p)
  moreover have "cm_pass (o1, a1) = (cm_complete kApplied o1 s2, s2, True)"
    using assms(4) t by (simp add: cm_pass_def cm_poll_def b1_def [symmetric])
  ultimately show ?thesis using assms(4) by simp
qed

definition request_sample :: ConfigMutationRequest where
  "request_sample = \<lparr>cq_requester = kUsb, cq_request_id = 9, cq_access = kUsbLocal, cq_kind = kSetTrackingInterval,
     cq_tracking_interval_seconds = 900, cq_service_mode = 0, cq_requested_services = 0, cq_ble_window_seconds = 0\<rparr>"

lemma request_sample_candidate:
  "candidate_for request_sample (cs_config config_store_sample) = Some config_candidate"
proof -
  have "cs_config config_store_sample = tr_config config_sample"
    using config_sample_begin(1) by (simp add: authority_of_def adopted_def)
  then show ?thesis by (simp add: request_sample_def kMinTrackingIntervalSeconds_def config_candidate_def)
qed

lemma request_sample_submit:
  "cm_submit request_sample ConfigMutationOwner_init config_store_sample =
     ((slot_for request_sample ConfigMutationOwner_init)\<lparr>co_state := kSaving\<rparr>, config_admitted, kAccepted)"
proof -
  have "cm_accessBelongsToRequester (cq_requester request_sample) (cq_access request_sample)"
    "mayChangeConfiguration (cq_access request_sample)" by code_simp+
  then show ?thesis using request_sample_candidate config_sample_admit
    by (simp add: cm_submit_def ConfigMutationOwner_init_def slot_for_def Let_def del: candidate_for.simps)
qed

theorem config_change_admission_witness:
  "\<exists>o1. cm_submit (request_sample\<lparr>cq_requester := kBle, cq_access := kBleEncrypted\<rparr>) ConfigMutationOwner_init
     config_store_sample = (o1, config_store_sample, kAccepted) \<and> co_state o1 \<noteq> kSaving"
proof -
  let ?r = "request_sample\<lparr>cq_requester := kBle, cq_access := kBleEncrypted\<rparr>"
  obtain o1 s1 r where sub: "cm_submit ?r ConfigMutationOwner_init config_store_sample = (o1, s1, r)"
    by (cases "cm_submit ?r ConfigMutationOwner_init config_store_sample") auto
  have m: "\<not> mayChangeConfiguration (cq_access ?r)" "co_state ConfigMutationOwner_init = kIdle"
    by (simp_all add: mayChangeConfiguration_def ConfigMutationOwner_init_def)
  have "r = kAccepted" using sub m
    by (auto simp: cm_submit_def Let_def simp del: candidate_for.simps split: if_splits)
  then show ?thesis using config_change_admission [OF sub] sub m by auto
qed

theorem applied_config_is_in_force_witness:
  "\<exists>o1 o2 s2. cm_submit request_sample ConfigMutationOwner_init config_store_sample = (o1, config_admitted, kAccepted) \<and>
    cm_pass (cm_passes 1 (o1, config_admitted)) = (o2, s2, True) \<and> tracking_interval_seconds (cs_config s2) = 900"
proof -
  define o1 where "o1 = (slot_for request_sample ConfigMutationOwner_init)\<lparr>co_state := kSaving\<rparr>"
  note sub = request_sample_submit [folded o1_def]
  have st: "co_state o1 = kSaving" "co_state ConfigMutationOwner_init = kIdle"
    by (simp_all add: o1_def ConfigMutationOwner_init_def)
  from applied_in_two [OF config_sample_reachable config_sample_admit config_sample_state(4) st(1)]
  obtain o2 s2 where p: "co_state (fst (cm_passes 1 (o1, config_admitted))) = kSaving"
    "cm_pass (cm_passes 1 (o1, config_admitted)) = (o2, s2, True)" by blast
  from applied_config_is_in_force [OF config_sample_reachable sub st(2,1) p]
  have "tracking_interval_seconds (cs_config s2) = 900" by (simp add: changed_as_asked_def request_sample_def)
  then show ?thesis using sub p(2) by auto
qed

end
