(* ===== verification/History_Store.thy ===== *)
theory History_Store
  imports Journal_Format Flash_Backend
begin

text \<open>
  \<open>firmware/include/history_store.h\<close> and \<open>firmware/src/history_store.cpp\<close>: the position journal, a ring
  of seven flash pages.  A page has a sealed header, eight slots that reserve blocks of sequence tickets,
  four slots for the delivery state and 104 record slots.  Pages are written in turn; a full page makes the
  store erase the next one, write its header and reserve a block of tickets before the record goes there.
  The backend is the interface \<open>ops\<close> and the state \<open>hs_flash\<close>; the incarnation source is an argument of
  \<open>hs_begin\<close> (\<open>None\<close> a null pointer, \<open>Some None\<close> a failing generator).  The 8-bit page counters, which never
  pass 104, are naturals.
\<close>

section \<open>Layout\<close>

definition kPageCount :: nat where "kPageCount = 7"
definition kPageHeaderSize :: nat where "kPageHeaderSize = 352"
definition kRecordsPerPage :: nat where "kRecordsPerPage = (kPageSize - kPageHeaderSize) div kRecordSize"
definition kSequenceSlotsPerPage :: nat where "kSequenceSlotsPerPage = 8"
definition kStateSlotsPerPage :: nat where "kStateSlotsPerPage = 4"

definition pageOffset :: "nat \<Rightarrow> nat" where "pageOffset p = p * kPageSize"

definition recordOffset :: "nat \<Rightarrow> nat \<Rightarrow> nat" where
  "recordOffset p s = pageOffset p + kPageHeaderSize + s * kRecordSize"

definition sequenceOffset :: "nat \<Rightarrow> nat \<Rightarrow> nat" where
  "sequenceOffset p s = pageOffset p + kStaticHeaderSize + s * kSequenceSlotSize"

definition stateOffset :: "nat \<Rightarrow> nat \<Rightarrow> nat" where
  "stateOffset p s = pageOffset p + kStaticHeaderSize + kSequenceSlotsPerPage * kSequenceSlotSize + s * kStateSlotSize"

definition bitSet :: "bytes \<Rightarrow> nat \<Rightarrow> bool" where
  "bitSet p n \<longleftrightarrow> p ! (n div 8) AND push_bit (n mod 8) 1 \<noteq> 0"

definition set_bit_at :: "bytes \<Rightarrow> nat \<Rightarrow> bytes" where
  "set_bit_at p n = p[n div 8 := p ! (n div 8) OR push_bit (n mod 8) 1]"

definition committedPageHeaderEnvelope :: "bytes \<Rightarrow> bool" where
  "committedPageHeaderEnvelope header \<longleftrightarrow>
     get32 header 0 = kPageMagic \<and> get32 header 60 = kCommit \<and> get32 header 56 = journal_crc32 (take 56 header)"

section \<open>The store\<close>

datatype HistoryJob = kNone | kNewPage | kReserve | kState | kAppend
datatype HistoryPhase = kErase | kHeader | kBlob
datatype HistoryBlobStep = kBody | kCommit | kVerify
datatype DeliveryCheckpointResult = kStarted | kNoChange | kDeferredNoStateSlot | kBusy | kRejected

record HistoryDiagnostics =
  hd_appended :: u32
  hd_append_failures :: u32
  hd_recovery_corruptions :: u32
  hd_overwritten :: u32
  hd_metadata_failures :: u32
  hd_delivery_checkpoint_deferrals :: u32
  hd_capacity_lost_undelivered :: u32

definition HistoryDiagnostics_init :: HistoryDiagnostics where
  "HistoryDiagnostics_init = \<lparr>hd_appended = 0, hd_append_failures = 0, hd_recovery_corruptions = 0,
     hd_overwritten = 0, hd_metadata_failures = 0, hd_delivery_checkpoint_deferrals = 0,
     hd_capacity_lost_undelivered = 0\<rparr>"

record HistoryPage =
  hp_generation :: u64
  hp_valid :: bytes
  hp_records_used :: nat
  hp_records_valid :: nat
  hp_sequence_used :: nat
  hp_state_used :: nat

definition HistoryPage_init :: HistoryPage where
  "HistoryPage_init = \<lparr>hp_generation = 0, hp_valid = replicate 13 0, hp_records_used = 0, hp_records_valid = 0,
     hp_sequence_used = 0, hp_state_used = 0\<rparr>"

definition JournalState_init :: JournalState where
  "JournalState_init = \<lparr>st_generation = 0, delivered_through = 0, replay_cursor = 0\<rparr>"

definition JournalRecord_init :: JournalRecord where
  "JournalRecord_init = \<lparr>identity = 0, packet = replicate kPositionPacketSize 0\<rparr>"

record 'f HistoryStore =
  hs_flash :: 'f
  hs_device_id :: u64
  hs_sequence_end :: u64
  hs_next_ticket :: u64
  hs_newest_generation :: u64
  hs_incarnation :: u64
  hs_acknowledged_through :: u64
  hs_state :: JournalState
  hs_diagnostics :: HistoryDiagnostics
  hs_pages :: "HistoryPage list"
  hs_active_page :: int
  hs_target_page :: nat
  hs_target_slot :: nat
  hs_target_sequence_slot :: nat
  hs_target_state_slot :: nat
  hs_target_generation :: u64
  hs_pending_sequence_end :: u64
  hs_pending_capacity_lost :: u32
  hs_append_after_new_page :: bool
  hs_append_result_ready :: bool
  hs_append_success :: bool
  hs_ready :: bool
  hs_format_reset_required :: bool
  hs_job :: HistoryJob
  hs_phase :: HistoryPhase
  hs_pending_record :: JournalRecord
  hs_pending_state :: JournalState
  hs_blob :: bytes
  hs_blob_offset :: nat
  hs_blob_size :: nat
  hs_blob_step :: HistoryBlobStep
  hs_awaiting_completion :: bool

definition HistoryStore_init :: "'f \<Rightarrow> 'f HistoryStore" where
  "HistoryStore_init f = \<lparr>hs_flash = f, hs_device_id = 0, hs_sequence_end = 0, hs_next_ticket = 0,
     hs_newest_generation = 0, hs_incarnation = 0, hs_acknowledged_through = 0, hs_state = JournalState_init,
     hs_diagnostics = HistoryDiagnostics_init, hs_pages = replicate kPageCount HistoryPage_init,
     hs_active_page = -1, hs_target_page = 0, hs_target_slot = 0, hs_target_sequence_slot = 0,
     hs_target_state_slot = 0, hs_target_generation = 0, hs_pending_sequence_end = 0,
     hs_pending_capacity_lost = 0, hs_append_after_new_page = False, hs_append_result_ready = False,
     hs_append_success = False, hs_ready = False, hs_format_reset_required = False, hs_job = kNone,
     hs_phase = kBlob, hs_pending_record = JournalRecord_init, hs_pending_state = JournalState_init,
     hs_blob = replicate kPageHeaderSize 0, hs_blob_offset = 0, hs_blob_size = 0, hs_blob_step = kBody,
     hs_awaiting_completion = False\<rparr>"

definition hs_count :: "(HistoryDiagnostics \<Rightarrow> HistoryDiagnostics) \<Rightarrow> 'f HistoryStore \<Rightarrow> 'f HistoryStore" where
  "hs_count f s = s\<lparr>hs_diagnostics := f (hs_diagnostics s)\<rparr>"

definition count_corruption :: "'f HistoryStore \<Rightarrow> 'f HistoryStore" where
  "count_corruption = hs_count (\<lambda>d. d\<lparr>hd_recovery_corruptions := hd_recovery_corruptions d + 1\<rparr>)"

definition on_page :: "nat \<Rightarrow> (HistoryPage \<Rightarrow> HistoryPage) \<Rightarrow> 'f HistoryStore \<Rightarrow> 'f HistoryStore" where
  "on_page p f s = s\<lparr>hs_pages := (hs_pages s)[p := f (hs_pages s ! p)]\<rparr>"

definition hs_busy :: "'f HistoryStore \<Rightarrow> bool" where "hs_busy s \<longleftrightarrow> hs_job s \<noteq> HistoryJob.kNone"

definition appendIdle :: "'f HistoryStore \<Rightarrow> bool" where
  "appendIdle s \<longleftrightarrow> hs_ready s \<and> \<not> hs_busy s \<and> \<not> hs_append_result_ready s"

definition canAppend :: "'f HistoryStore \<Rightarrow> bool" where
  "canAppend s \<longleftrightarrow> appendIdle s \<and> hs_next_ticket s < hs_sequence_end s"

definition erasePending :: "'f HistoryStore \<Rightarrow> bool" where
  "erasePending s \<longleftrightarrow> hs_job s = kNewPage \<and> hs_phase s = kErase"

definition deliveryCheckpointPending :: "'f HistoryStore \<Rightarrow> bool" where
  "deliveryCheckpointPending s \<longleftrightarrow> hs_acknowledged_through s > delivered_through (hs_state s)"

section \<open>Recovery\<close>

fun scan_sequences :: "'f FlashBackend \<Rightarrow> nat \<Rightarrow> nat list \<Rightarrow> 'f HistoryStore \<Rightarrow> 'f HistoryStore \<times> bool" where
  "scan_sequences ops p [] s = (s, True)"
| "scan_sequences ops p (k # ks) s =
     (case fb_read ops (hs_flash s) (sequenceOffset p k) kSequenceSlotSize of
        None \<Rightarrow> (s, False)
      | Some bytes \<Rightarrow>
          if erased bytes 0 kSequenceSlotSize then (s, True)
          else
            let s = on_page p (\<lambda>g. g\<lparr>hp_sequence_used := k + 1\<rparr>) s in
            case decodeSequenceEnd bytes of
              None \<Rightarrow> scan_sequences ops p ks (count_corruption s)
            | Some e \<Rightarrow> scan_sequences ops p ks (if e > hs_sequence_end s then s\<lparr>hs_sequence_end := e\<rparr> else s))"

fun scan_states :: "'f FlashBackend \<Rightarrow> nat \<Rightarrow> nat list \<Rightarrow> 'f HistoryStore \<Rightarrow> 'f HistoryStore \<times> bool" where
  "scan_states ops p [] s = (s, True)"
| "scan_states ops p (k # ks) s =
     (case fb_read ops (hs_flash s) (stateOffset p k) kStateSlotSize of
        None \<Rightarrow> (s, False)
      | Some bytes \<Rightarrow>
          if erased bytes 0 kStateSlotSize then (s, True)
          else
            let s = on_page p (\<lambda>g. g\<lparr>hp_state_used := k + 1\<rparr>) s in
            case decodeState bytes of
              None \<Rightarrow> scan_states ops p ks (count_corruption s)
            | Some candidate \<Rightarrow>
                scan_states ops p ks
                  (if st_generation candidate > st_generation (hs_state s) then s\<lparr>hs_state := candidate\<rparr> else s))"

fun scan_records :: "'f FlashBackend \<Rightarrow> nat \<Rightarrow> nat list \<Rightarrow> u64 \<Rightarrow> 'f HistoryStore \<Rightarrow> 'f HistoryStore \<times> bool" where
  "scan_records ops p [] previous s = (s, True)"
| "scan_records ops p (k # ks) previous s =
     (case fb_read ops (hs_flash s) (recordOffset p k) kRecordSize of
        None \<Rightarrow> (s, False)
      | Some bytes \<Rightarrow>
          if erased bytes 0 kRecordSize then scan_records ops p ks previous s
          else
            let s = on_page p (\<lambda>g. g\<lparr>hp_records_used := k + 1\<rparr>) s in
            case decodeRecord bytes (hs_device_id s) of
              None \<Rightarrow> scan_records ops p ks previous (count_corruption s)
            | Some r \<Rightarrow>
                if previous \<noteq> 0 \<and> identity r \<le> previous then scan_records ops p ks previous (count_corruption s)
                else scan_records ops p ks (identity r)
                  (on_page p (\<lambda>g. g\<lparr>hp_valid := set_bit_at (hp_valid g) k, hp_records_valid := hp_records_valid g + 1\<rparr>) s))"

text \<open>The local variables of the page loop.\<close>

record recovery =
  hr_legacy_format :: bool
  hr_unsupported_newer :: bool
  hr_incarnation :: u64

definition note_envelope :: "bytes \<Rightarrow> recovery \<Rightarrow> recovery" where
  "note_envelope header r =
     (if committedPageHeaderEnvelope header
      then r\<lparr>hr_legacy_format := hr_legacy_format r \<or> header ! 4 = 2 \<or> header ! 4 = 3,
             hr_unsupported_newer := hr_unsupported_newer r \<or> header ! 4 > kVersion\<rparr>
      else r)"

text \<open>One page; the last component is false when the page makes \<open>recover\<close> return false.\<close>

definition hs_recover_page ::
  "'f FlashBackend \<Rightarrow> nat \<Rightarrow> 'f HistoryStore \<Rightarrow> recovery \<Rightarrow> 'f HistoryStore \<times> recovery \<times> bool" where
  "hs_recover_page ops p s r =
     (let s = on_page p (\<lambda>_. HistoryPage_init) s in
      case fb_read ops (hs_flash s) (pageOffset p) kStaticHeaderSize of
        None \<Rightarrow> (s, r, False)
      | Some header \<Rightarrow>
          let r = note_envelope header r in
          case decodePage header (hs_device_id s) of
            None \<Rightarrow>
              (if \<not> erased header 0 kStaticHeaderSize \<and> looksLikeJournalHeader header then count_corruption s else s,
               r, True)
          | Some (gen, page_incarnation) \<Rightarrow>
              if hr_incarnation r \<noteq> 0 \<and> page_incarnation \<noteq> hr_incarnation r then (count_corruption s, r, False)
              else
                let r = r\<lparr>hr_incarnation := page_incarnation\<rparr>;
                    s = on_page p (\<lambda>g. g\<lparr>hp_generation := gen\<rparr>) s;
                    s = (if gen > hs_newest_generation s
                         then s\<lparr>hs_newest_generation := gen, hs_active_page := int p\<rparr> else s);
                    (s, ok) = scan_sequences ops p [0..<kSequenceSlotsPerPage] s
                in if \<not> ok then (s, r, False)
                   else
                     let (s, ok) = scan_states ops p [0..<kStateSlotsPerPage] s in
                     if \<not> ok then (s, r, False)
                     else let (s, ok) = scan_records ops p [0..<kRecordsPerPage] 0 s in (s, r, ok))"

fun hs_recover_pages ::
  "'f FlashBackend \<Rightarrow> nat list \<Rightarrow> 'f HistoryStore \<Rightarrow> recovery \<Rightarrow> 'f HistoryStore \<times> recovery \<times> bool" where
  "hs_recover_pages ops [] s r = (s, r, True)"
| "hs_recover_pages ops (p # ps) s r =
     (let (s, r, ok) = hs_recover_page ops p s r in
      if ok then hs_recover_pages ops ps s r else (s, r, False))"

definition hs_recover :: "'f FlashBackend \<Rightarrow> 'f HistoryStore \<Rightarrow> 'f HistoryStore \<times> bool" where
  "hs_recover ops s =
     (let (s, r, ok) = hs_recover_pages ops [0..<kPageCount] s
            \<lparr>hr_legacy_format = False, hr_unsupported_newer = False, hr_incarnation = 0\<rparr> in
      if \<not> ok then (s, False)
      else if hr_legacy_format r then (s\<lparr>hs_format_reset_required := True\<rparr>, False)
      else if hr_unsupported_newer r then (s, False)
      else (if hs_active_page s \<ge> 0 then s\<lparr>hs_incarnation := hr_incarnation r\<rparr> else s, True))"

section \<open>Reading\<close>

definition record_count :: "'f HistoryStore \<Rightarrow> u32" where
  "record_count s = of_nat (sum_list (map hp_records_valid (hs_pages s)))"

definition readSlot :: "'f FlashBackend \<Rightarrow> 'f HistoryStore \<Rightarrow> nat \<Rightarrow> nat \<Rightarrow> JournalRecord option" where
  "readSlot ops s p k =
     (case fb_read ops (hs_flash s) (recordOffset p k) kRecordSize of
        None \<Rightarrow> None
      | Some b \<Rightarrow> decodeRecord b (hs_device_id s))"

text \<open>The valid slots in the order of the two nested loops.\<close>

definition valid_slots :: "'f HistoryStore \<Rightarrow> (nat \<times> nat) list" where
  "valid_slots s = filter (\<lambda>(p, k). bitSet (hp_valid (hs_pages s ! p)) k)
     (List.product [0..<kPageCount] [0..<kRecordsPerPage])"

fun strict_scan :: "'f FlashBackend \<Rightarrow> 'f HistoryStore \<Rightarrow> u64 \<Rightarrow> (nat \<times> nat) list \<Rightarrow> JournalRecord option \<Rightarrow>
    JournalRecord option" where
  "strict_scan ops s ident [] out = out"
| "strict_scan ops s ident ((p, k) # rest) out =
     (case readSlot ops s p k of
        None \<Rightarrow> None
      | Some r \<Rightarrow>
          strict_scan ops s ident rest
            (if identity r > ident \<and> (case out of None \<Rightarrow> True | Some o' \<Rightarrow> identity r < identity o') then Some r else out))"

definition readNextRetainedStrict :: "'f FlashBackend \<Rightarrow> 'f HistoryStore \<Rightarrow> u64 \<Rightarrow> JournalRecord option" where
  "readNextRetainedStrict ops s ident = strict_scan ops s ident (valid_slots s) None"

definition readAfter :: "'f FlashBackend \<Rightarrow> 'f HistoryStore \<Rightarrow> u64 \<Rightarrow> JournalRecord option" where
  "readAfter ops s ident =
     fold (\<lambda>(p, k) out. case readSlot ops s p k of
         None \<Rightarrow> out
       | Some r \<Rightarrow> if identity r > ident \<and> (case out of None \<Rightarrow> True | Some o' \<Rightarrow> identity r < identity o') then Some r else out)
       (valid_slots s) None"

definition newest :: "'f FlashBackend \<Rightarrow> 'f HistoryStore \<Rightarrow> JournalRecord option" where
  "newest ops s =
     fold (\<lambda>(p, k) out. case readSlot ops s p k of
         None \<Rightarrow> out
       | Some r \<Rightarrow> if (case out of None \<Rightarrow> True | Some o' \<Rightarrow> identity r > identity o') then Some r else out)
       (valid_slots s) None"

definition hs_lookup :: "'f FlashBackend \<Rightarrow> 'f HistoryStore \<Rightarrow> u64 \<Rightarrow> JournalRecord option" where
  "hs_lookup ops s ident =
     (if ident = 0 then None
      else case readAfter ops s (ident - 1) of
        None \<Rightarrow> None
      | Some r \<Rightarrow> if identity r = ident then Some r else None)"

definition getOldestUndelivered :: "'f FlashBackend \<Rightarrow> 'f HistoryStore \<Rightarrow> JournalRecord option" where
  "getOldestUndelivered ops s = readAfter ops s (delivered_through (hs_state s))"

definition backlogCount :: "'f FlashBackend \<Rightarrow> 'f HistoryStore \<Rightarrow> u32" where
  "backlogCount ops s = of_nat (length (filter
     (\<lambda>(p, k). case readSlot ops s p k of None \<Rightarrow> False | Some r \<Rightarrow> identity r > delivered_through (hs_state s))
     (valid_slots s)))"

definition countCapacityLostUndelivered :: "'f FlashBackend \<Rightarrow> 'f HistoryStore \<Rightarrow> nat \<Rightarrow> u32" where
  "countCapacityLostUndelivered ops s page =
     (if page \<ge> kPageCount then 0
      else
        let confirmed_through = (if hs_acknowledged_through s > delivered_through (hs_state s)
                                 then hs_acknowledged_through s else delivered_through (hs_state s))
        in of_nat (length (filter
          (\<lambda>k. bitSet (hp_valid (hs_pages s ! page)) k \<and>
               (case readSlot ops s page k of None \<Rightarrow> True | Some r \<Rightarrow> identity r > confirmed_through))
          [0..<kRecordsPerPage])))"

section \<open>Starting a job\<close>

definition startBlob :: "nat \<Rightarrow> bytes \<Rightarrow> 'f HistoryStore \<Rightarrow> 'f HistoryStore" where
  "startBlob off b s = s\<lparr>hs_blob := write_at 0 b (hs_blob s), hs_blob_offset := off, hs_blob_size := length b,
     hs_blob_step := kBody, hs_awaiting_completion := False\<rparr>"

definition startNewPage :: "'f FlashBackend \<Rightarrow> bool \<Rightarrow> 'f HistoryStore \<Rightarrow> 'f HistoryStore \<times> bool" where
  "startNewPage ops append_after s =
     (if \<not> hs_ready s \<or> hs_busy s \<or> hs_incarnation s = 0 then (s, False)
      else
        let s = s\<lparr>hs_target_page := (if hs_active_page s < 0 then 0 else (nat (hs_active_page s) + 1) mod kPageCount),
                  hs_target_generation := hs_newest_generation s + 1\<rparr> in
        if hs_target_generation s = 0 then (s, False)
        else (s\<lparr>hs_pending_capacity_lost := countCapacityLostUndelivered ops s (hs_target_page s),
                hs_append_after_new_page := append_after, hs_job := kNewPage, hs_phase := kErase\<rparr>, True))"

definition startReservation :: "'f FlashBackend \<Rightarrow> 'f HistoryStore \<Rightarrow> 'f HistoryStore \<times> bool" where
  "startReservation ops s =
     (if \<not> hs_ready s \<or> hs_busy s \<or> hs_active_page s < 0 \<or> hs_sequence_end s > UINT64_MAX - kSequenceBlockSize
      then (s, False)
      else if hp_sequence_used (hs_pages s ! nat (hs_active_page s)) \<ge> kSequenceSlotsPerPage
      then startNewPage ops False s
      else
        let s = s\<lparr>hs_target_page := nat (hs_active_page s),
                  hs_target_sequence_slot := hp_sequence_used (hs_pages s ! nat (hs_active_page s)),
                  hs_pending_sequence_end := hs_sequence_end s + kSequenceBlockSize\<rparr>;
            b = encodeSequenceEnd (hs_pending_sequence_end s) (replicate kSequenceSlotSize 0);
            s = startBlob (sequenceOffset (hs_target_page s) (hs_target_sequence_slot s)) b s
        in (s\<lparr>hs_job := kReserve, hs_phase := kBlob\<rparr>, True))"

definition startState :: "JournalState \<Rightarrow> 'f HistoryStore \<Rightarrow> 'f HistoryStore \<times> bool" where
  "startState next_state s =
     (if \<not> hs_ready s \<or> hs_busy s \<or> hs_active_page s < 0 \<or> st_generation (hs_state s) = UINT64_MAX then (s, False)
      else if hp_state_used (hs_pages s ! nat (hs_active_page s)) \<ge> kStateSlotsPerPage then (s, False)
      else
        let n = next_state\<lparr>st_generation := st_generation (hs_state s) + 1\<rparr>;
            s = s\<lparr>hs_pending_state := n, hs_target_page := nat (hs_active_page s),
                  hs_target_state_slot := hp_state_used (hs_pages s ! nat (hs_active_page s))\<rparr>;
            b = encodeState n (replicate kStateSlotSize 0);
            s = startBlob (stateOffset (hs_target_page s) (hs_target_state_slot s)) b s
        in (s\<lparr>hs_job := kState, hs_phase := kBlob\<rparr>, True))"

definition hs_fail :: "bool \<Rightarrow> 'f HistoryStore \<Rightarrow> 'f HistoryStore" where
  "hs_fail append_failure s =
     (let s = (if append_failure
               then hs_count (\<lambda>d. d\<lparr>hd_append_failures := hd_append_failures d + 1\<rparr>)
                 (s\<lparr>hs_append_result_ready := True, hs_append_success := False\<rparr>)
               else hs_count (\<lambda>d. d\<lparr>hd_metadata_failures := hd_metadata_failures d + 1\<rparr>) s)
      in s\<lparr>hs_append_after_new_page := False, hs_pending_capacity_lost := 0, hs_blob_step := kBody,
           hs_awaiting_completion := False, hs_job := HistoryJob.kNone, hs_ready := False\<rparr>)"

definition prepareAppend :: "'f FlashBackend \<Rightarrow> 'f HistoryStore \<Rightarrow> 'f HistoryStore \<times> bool" where
  "prepareAppend ops s =
     (if canAppend s then (s, True)
      else if \<not> appendIdle s \<or> hs_next_ticket s \<noteq> hs_sequence_end s then (s, False)
      else let (s, started) = startReservation ops s in (if started then s else hs_fail False s, False))"

definition hs_nextSequence :: "'f FlashBackend \<Rightarrow> 'f HistoryStore \<Rightarrow> 'f HistoryStore \<times> (u32 \<times> u64) option" where
  "hs_nextSequence ops s =
     (if \<not> canAppend s then
        (if appendIdle s \<and> hs_next_ticket s = hs_sequence_end s
         then let (s, started) = startReservation ops s in (if started then s else hs_fail False s)
         else s, None)
      else
        let s' = s\<lparr>hs_next_ticket := hs_next_ticket s + 1\<rparr>
        in (s', Some (ucast (hs_next_ticket s), hs_next_ticket s')))"

definition hs_append :: "'f FlashBackend \<Rightarrow> bytes option \<Rightarrow> u64 \<Rightarrow> 'f HistoryStore \<Rightarrow> 'f HistoryStore \<times> bool" where
  "hs_append ops pk ident s =
     (if \<not> appendIdle s \<or> pk = None \<or> ident > hs_next_ticket s \<or> \<not> validPacket (the pk) ident (hs_device_id s) \<or>
         (case newest ops s of None \<Rightarrow> False | Some latest \<Rightarrow> ident \<le> identity latest)
      then (hs_count (\<lambda>d. d\<lparr>hd_append_failures := hd_append_failures d + 1\<rparr>) s, False)
      else
        let s = s\<lparr>hs_pending_record := \<lparr>identity = ident, packet = the pk\<rparr>\<rparr>;
            active = nat (hs_active_page s);
            used = hp_records_used (hs_pages s ! active)
        in if used \<ge> kRecordsPerPage then
             let (s, started) = startNewPage ops True (s\<lparr>hs_append_after_new_page := True\<rparr>) in
             if started then (s, True)
             else (hs_count (\<lambda>d. d\<lparr>hd_append_failures := hd_append_failures d + 1\<rparr>)
                     (s\<lparr>hs_append_after_new_page := False\<rparr>), False)
           else
             let s = s\<lparr>hs_target_page := active, hs_target_slot := used\<rparr>;
                 b = encodeRecord (hs_pending_record s) (replicate kRecordSize 0);
                 s = startBlob (recordOffset active used) b s
             in (s\<lparr>hs_job := kAppend, hs_phase := kBlob\<rparr>, True))"

definition takeAppendResult :: "'f HistoryStore \<Rightarrow> 'f HistoryStore \<times> bool option" where
  "takeAppendResult s =
     (if \<not> hs_append_result_ready s then (s, None)
      else (s\<lparr>hs_append_result_ready := False\<rparr>, Some (hs_append_success s)))"

section \<open>Delivery\<close>

definition acknowledgeDeliveredRecord :: "'f FlashBackend \<Rightarrow> u64 \<Rightarrow> 'f HistoryStore \<Rightarrow> 'f HistoryStore \<times> bool" where
  "acknowledgeDeliveredRecord ops ident s =
     (if \<not> hs_ready s \<or> hs_busy s \<or> ident = 0 then (s, False)
      else if ident \<le> hs_acknowledged_through s then (s, True)
      else case readNextRetainedStrict ops s (hs_acknowledged_through s) of
        None \<Rightarrow> (s, False)
      | Some expected \<Rightarrow>
          if identity expected \<noteq> ident then (s, False) else (s\<lparr>hs_acknowledged_through := ident\<rparr>, True))"

definition checkpointAcknowledgedDelivery :: "'f HistoryStore \<Rightarrow> 'f HistoryStore \<times> DeliveryCheckpointResult" where
  "checkpointAcknowledgedDelivery s =
     (if \<not> hs_ready s then (s, kRejected)
      else if hs_busy s then (s, kBusy)
      else if hs_acknowledged_through s \<le> delivered_through (hs_state s) then (s, kNoChange)
      else if hs_active_page s < 0 then (s, kRejected)
      else if hp_state_used (hs_pages s ! nat (hs_active_page s)) \<ge> kStateSlotsPerPage then
        (hs_count (\<lambda>d. d\<lparr>hd_delivery_checkpoint_deferrals := hd_delivery_checkpoint_deferrals d + 1\<rparr>) s,
         kDeferredNoStateSlot)
      else
        let n = (hs_state s)\<lparr>delivered_through := hs_acknowledged_through s, replay_cursor := 0\<rparr>;
            (s, ok) = startState n s
        in (s, if ok then kStarted else kRejected))"

definition markDeliveredThrough :: "'f FlashBackend \<Rightarrow> u64 \<Rightarrow> 'f HistoryStore \<Rightarrow> 'f HistoryStore \<times> bool" where
  "markDeliveredThrough ops ident s =
     (if \<not> hs_ready s \<or> hs_busy s \<or> hs_active_page s < 0 \<or> st_generation (hs_state s) = UINT64_MAX \<or>
         ident < delivered_through (hs_state s) then (s, False)
      else if ident = delivered_through (hs_state s) then (s, True)
      else if hp_state_used (hs_pages s ! nat (hs_active_page s)) \<ge> kStateSlotsPerPage then (s, False)
      else
        let (s, ok) = (if hs_acknowledged_through s = delivered_through (hs_state s)
                       then acknowledgeDeliveredRecord ops ident s
                       else (s, ident = hs_acknowledged_through s))
        in if \<not> ok then (s, False)
           else let (s, r) = checkpointAcknowledgedDelivery s in (s, r = kStarted \<or> r = kNoChange))"

definition saveReplayCursor :: "'f FlashBackend \<Rightarrow> u64 \<Rightarrow> 'f HistoryStore \<Rightarrow> 'f HistoryStore \<times> bool" where
  "saveReplayCursor ops ident s =
     (if \<not> hs_ready s \<or> hs_busy s \<or> (ident \<noteq> 0 \<and> hs_lookup ops s ident = None) then (s, False)
      else if ident = replay_cursor (hs_state s) then (s, True)
      else if hs_active_page s < 0 \<or> hp_state_used (hs_pages s ! nat (hs_active_page s)) \<ge> kStateSlotsPerPage
      then (s, False)
      else startState ((hs_state s)\<lparr>replay_cursor := ident\<rparr>) s)"

section \<open>begin\<close>

definition hs_begin :: "'f FlashBackend \<Rightarrow> u64 \<Rightarrow> u64 option option \<Rightarrow> 'f HistoryStore \<Rightarrow> 'f HistoryStore \<times> bool" where
  "hs_begin ops device source s =
     (let s = s\<lparr>hs_ready := False, hs_job := HistoryJob.kNone, hs_diagnostics := HistoryDiagnostics_init,
               hs_device_id := device, hs_sequence_end := 0, hs_next_ticket := 0, hs_newest_generation := 0,
               hs_incarnation := 0, hs_acknowledged_through := 0, hs_active_page := -1,
               hs_state := JournalState_init, hs_format_reset_required := False,
               hs_append_after_new_page := False, hs_pending_capacity_lost := 0,
               hs_append_result_ready := False, hs_append_success := False, hs_blob_step := kBody,
               hs_awaiting_completion := False\<rparr>;
          (fl, ok) = fb_begin ops (hs_flash s); s = s\<lparr>hs_flash := fl\<rparr>
      in if \<not> ok then (s, False)
         else
           let (s, ok) = hs_recover ops s in
           if \<not> ok then (s, False)
           else
             let s = s\<lparr>hs_acknowledged_through := delivered_through (hs_state s)\<rparr> in
             if hs_active_page s < 0 then
               (case source of
                  Some (Some fresh) \<Rightarrow>
                    if fresh = 0 then (s, False)
                    else startNewPage ops False (s\<lparr>hs_incarnation := fresh, hs_ready := True\<rparr>)
                | _ \<Rightarrow> (s, False))
             else (s\<lparr>hs_ready := True, hs_next_ticket := hs_sequence_end s\<rparr>, True))"

section \<open>poll\<close>

text \<open>
  \<open>writeBlob\<close> is three steps that fall through into one another.  Each step returns its result, or
  nothing when control falls through to the next.
\<close>

definition hs_write_body :: "'f FlashBackend \<Rightarrow> bool \<Rightarrow> 'f HistoryStore \<Rightarrow> 'f HistoryStore \<times> FlashOpResult option" where
  "hs_write_body ops append_failure s =
     (if hs_blob_step s \<noteq> kBody then (s, None)
      else
        let (fl, r) = (if hs_awaiting_completion s then fb_pollPending ops (hs_flash s)
                       else fb_program ops (hs_flash s) (hs_blob_offset s) (take (hs_blob_size s - 4) (hs_blob s)));
            s = s\<lparr>hs_flash := fl\<rparr> in
        if r = kPending then (s\<lparr>hs_awaiting_completion := True\<rparr>, Some kPending)
        else
          let s = s\<lparr>hs_awaiting_completion := False\<rparr> in
          if r = kFailed then (hs_fail append_failure s, Some kFailed)
          else (s\<lparr>hs_blob_step := HistoryBlobStep.kCommit\<rparr>, None))"

definition hs_write_commit :: "'f FlashBackend \<Rightarrow> bool \<Rightarrow> 'f HistoryStore \<Rightarrow> 'f HistoryStore \<times> FlashOpResult option" where
  "hs_write_commit ops append_failure s =
     (if hs_blob_step s \<noteq> HistoryBlobStep.kCommit then (s, None)
      else
        let (fl, r) = (if hs_awaiting_completion s then fb_pollPending ops (hs_flash s)
                       else fb_program ops (hs_flash s) (hs_blob_offset s + hs_blob_size s - 4)
                              (slice (hs_blob_size s - 4) 4 (hs_blob s)));
            s = s\<lparr>hs_flash := fl\<rparr> in
        if r = kPending then (s\<lparr>hs_awaiting_completion := True\<rparr>, Some kPending)
        else
          let s = s\<lparr>hs_awaiting_completion := False\<rparr> in
          if r = kFailed then (hs_fail append_failure s, Some kFailed)
          else (s\<lparr>hs_blob_step := kVerify\<rparr>, None))"

definition hs_writeBlob :: "'f FlashBackend \<Rightarrow> 'f HistoryStore \<Rightarrow> 'f HistoryStore \<times> FlashOpResult" where
  "hs_writeBlob ops s =
     (let append_failure = (hs_job s = kAppend \<or> hs_append_after_new_page s) in
      case hs_write_body ops append_failure s of
        (s, Some r) \<Rightarrow> (s, r)
      | (s, None) \<Rightarrow>
        (case hs_write_commit ops append_failure s of
           (s, Some r) \<Rightarrow> (s, r)
         | (s, None) \<Rightarrow>
             if fb_read ops (hs_flash s) (hs_blob_offset s) (hs_blob_size s) \<noteq> Some (take (hs_blob_size s) (hs_blob s))
             then (hs_fail append_failure (s\<lparr>hs_blob_step := kBody\<rparr>), kFailed)
             else (s\<lparr>hs_blob_step := kBody\<rparr>, kDone)))"

definition hs_finishBlob :: "'f FlashBackend \<Rightarrow> 'f HistoryStore \<Rightarrow> 'f HistoryStore" where
  "hs_finishBlob ops s =
     (let t = hs_target_page s in
      if hs_job s = kNewPage then
        let s = on_page t (\<lambda>_. HistoryPage_init\<lparr>hp_generation := hs_target_generation s\<rparr>) s;
            s = s\<lparr>hs_newest_generation := hs_target_generation s, hs_active_page := int t, hs_job := HistoryJob.kNone\<rparr>;
            (s, started) = startReservation ops s
        in if started then s else hs_fail (hs_append_after_new_page s) s
      else if hs_job s = kReserve then
        let s = on_page t (\<lambda>g. g\<lparr>hp_sequence_used := hp_sequence_used g + 1\<rparr>) s;
            s = s\<lparr>hs_sequence_end := hs_pending_sequence_end s, hs_job := HistoryJob.kNone\<rparr>
        in if hs_append_after_new_page s then
             let (s, ok) = hs_append ops (Some (packet (hs_pending_record s))) (identity (hs_pending_record s))
                   (s\<lparr>hs_append_after_new_page := False\<rparr>)
             in if ok then s else s\<lparr>hs_append_result_ready := True, hs_append_success := False, hs_ready := False\<rparr>
           else s
      else if hs_job s = kState then
        let s = on_page t (\<lambda>g. g\<lparr>hp_state_used := hp_state_used g + 1\<rparr>) s
        in s\<lparr>hs_state := hs_pending_state s, hs_job := HistoryJob.kNone\<rparr>
      else
        let k = hs_target_slot s;
            s = on_page t (\<lambda>g. g\<lparr>hp_records_used := k + 1, hp_valid := set_bit_at (hp_valid g) k,
                  hp_records_valid := hp_records_valid g + 1\<rparr>) s;
            s = hs_count (\<lambda>d. d\<lparr>hd_appended := hd_appended d + 1\<rparr>) s
        in s\<lparr>hs_job := HistoryJob.kNone, hs_append_result_ready := True, hs_append_success := True\<rparr>)"

definition hs_poll_erase :: "'f FlashBackend \<Rightarrow> 'f HistoryStore \<Rightarrow> 'f HistoryStore" where
  "hs_poll_erase ops s =
     (let (fl, r) = (if hs_awaiting_completion s then fb_pollPending ops (hs_flash s)
                     else fb_erasePage ops (hs_flash s) (hs_target_page s));
          s = s\<lparr>hs_flash := fl\<rparr> in
      if r = kPending then s\<lparr>hs_awaiting_completion := True\<rparr>
      else
        let s = s\<lparr>hs_awaiting_completion := False\<rparr> in
        if r = kFailed then hs_fail (hs_append_after_new_page s) s
        else
          let old = hp_records_valid (hs_pages s ! hs_target_page s);
              s = hs_count (\<lambda>d. d\<lparr>hd_overwritten := hd_overwritten d + of_nat old,
                    hd_capacity_lost_undelivered := hd_capacity_lost_undelivered d + hs_pending_capacity_lost s\<rparr>) s;
              s = s\<lparr>hs_pending_capacity_lost := 0, hs_phase := kHeader\<rparr>;
              b = encodePage (hs_target_generation s) (hs_device_id s) (hs_incarnation s) (replicate kStaticHeaderSize 0)
          in startBlob (pageOffset (hs_target_page s)) b s)"

definition hs_poll :: "'f FlashBackend \<Rightarrow> 'f HistoryStore \<Rightarrow> 'f HistoryStore" where
  "hs_poll ops s =
     (if \<not> hs_ready s then s
      else if hs_job s = HistoryJob.kNone then s
      else if hs_phase s = kErase then hs_poll_erase ops s
      else let (s, r) = hs_writeBlob ops s in if r \<noteq> kDone then s else hs_finishBlob ops s)"

end
