(* ===== verification/History_Index.thy ===== *)
theory History_Index
  imports History_Store
begin

text \<open>
  What recovery in \<open>firmware/src/history_store.cpp\<close> makes of the cells of the region: the index of the
  pages, the end of the reserved tickets, the delivery state and the active page as functions of the cells,
  and the proof that \<open>hs_recover\<close> computes them.
\<close>

section \<open>Slots in the cells\<close>

definition kHistoryRegion :: nat where "kHistoryRegion = kPageCount * kPageSize"

definition header_at :: "bytes \<Rightarrow> nat \<Rightarrow> bytes" where "header_at c p = slice (pageOffset p) kStaticHeaderSize c"
definition sequence_at :: "bytes \<Rightarrow> nat \<Rightarrow> nat \<Rightarrow> bytes" where "sequence_at c p k = slice (sequenceOffset p k) kSequenceSlotSize c"
definition state_at :: "bytes \<Rightarrow> nat \<Rightarrow> nat \<Rightarrow> bytes" where "state_at c p k = slice (stateOffset p k) kStateSlotSize c"
definition record_at :: "bytes \<Rightarrow> nat \<Rightarrow> nat \<Rightarrow> bytes" where "record_at c p k = slice (recordOffset p k) kRecordSize c"

lemmas history_layout = kHistoryRegion_def kPageCount_def kPageSize_def kPageHeaderSize_def kRecordsPerPage_def
  kSequenceSlotsPerPage_def kStateSlotsPerPage_def pageOffset_def recordOffset_def sequenceOffset_def stateOffset_def
  kRecordSize_def kStaticHeaderSize_def kSequenceSlotSize_def kStateSlotSize_def

lemma slot_lengths:
  assumes "length c = kHistoryRegion" "p < kPageCount"
  shows "length (header_at c p) = 64" "k < kSequenceSlotsPerPage \<Longrightarrow> length (sequence_at c p k) = 16"
    "k < kStateSlotsPerPage \<Longrightarrow> length (state_at c p k) = 32" "k < kRecordsPerPage \<Longrightarrow> length (record_at c p k) = 36"
  using assms by (simp_all add: header_at_def sequence_at_def state_at_def record_at_def history_layout)

definition blank_slot :: "bytes \<Rightarrow> bool" where "blank_slot x \<longleftrightarrow> list_all (\<lambda>y. y = 0xFF) x"

lemma erased_slot: "length x = n \<Longrightarrow> erased x 0 n \<longleftrightarrow> blank_slot x"
  by (auto simp: erased_iff blank_slot_def list_all_length)

definition reads_as :: "'f FlashBackend \<Rightarrow> 'f \<Rightarrow> bytes \<Rightarrow> bool" where
  "reads_as ops f c \<longleftrightarrow> length c = kHistoryRegion \<and>
     (\<forall>off n. off + n \<le> kHistoryRegion \<longrightarrow> fb_read ops f off n = Some (slice off n c))"

lemma reads_slots:
  assumes "reads_as ops f c" "p < kPageCount"
  shows "fb_read ops f (pageOffset p) kStaticHeaderSize = Some (header_at c p)"
    "k < kSequenceSlotsPerPage \<Longrightarrow> fb_read ops f (sequenceOffset p k) kSequenceSlotSize = Some (sequence_at c p k)"
    "k < kStateSlotsPerPage \<Longrightarrow> fb_read ops f (stateOffset p k) kStateSlotSize = Some (state_at c p k)"
    "k < kRecordsPerPage \<Longrightarrow> fb_read ops f (recordOffset p k) kRecordSize = Some (record_at c p k)"
  using assms by (simp_all add: reads_as_def header_at_def sequence_at_def state_at_def record_at_def history_layout)

section \<open>The three scans of a page\<close>

text \<open>
  The sequence and the state slots are scanned alike: up to the first blank slot, folding over what the
  others hold.
\<close>

fun slot_index :: "(bytes \<Rightarrow> 'v \<Rightarrow> 'v) \<Rightarrow> (nat \<times> bytes) list \<Rightarrow> nat \<times> 'v \<Rightarrow> nat \<times> 'v" where
  "slot_index f [] uv = uv"
| "slot_index f ((k, x) # xs) (u, v) = (if blank_slot x then (u, v) else slot_index f xs (k + 1, f x v))"

definition end_of :: "bytes \<Rightarrow> u64 \<Rightarrow> u64" where
  "end_of x e = (case decodeSequenceEnd x of None \<Rightarrow> e | Some e' \<Rightarrow> if e' > e then e' else e)"

definition later_state :: "bytes \<Rightarrow> JournalState \<Rightarrow> JournalState" where
  "later_state x st = (case decodeState x of None \<Rightarrow> st
     | Some st' \<Rightarrow> if st_generation st' > st_generation st then st' else st)"

fun rec_index :: "u64 \<Rightarrow> (nat \<times> bytes) list \<Rightarrow> u64 \<times> HistoryPage \<Rightarrow> u64 \<times> HistoryPage" where
  "rec_index dev [] pg = pg"
| "rec_index dev ((k, x) # xs) (prev, g) =
     (if blank_slot x then rec_index dev xs (prev, g)
      else case decodeRecord x dev of
        None \<Rightarrow> rec_index dev xs (prev, g\<lparr>hp_records_used := k + 1\<rparr>)
      | Some r \<Rightarrow>
          if prev \<noteq> 0 \<and> identity r \<le> prev then rec_index dev xs (prev, g\<lparr>hp_records_used := k + 1\<rparr>)
          else rec_index dev xs (identity r, g\<lparr>hp_records_used := k + 1, hp_valid := set_bit_at (hp_valid g) k,
            hp_records_valid := hp_records_valid g + 1\<rparr>))"

lemma on_page_simps [simp]:
  "hs_flash (on_page p h s) = hs_flash s" "hs_device_id (on_page p h s) = hs_device_id s"
  "hs_sequence_end (on_page p h s) = hs_sequence_end s" "hs_state (on_page p h s) = hs_state s"
  "hs_pages (on_page p h s) = (hs_pages s)[p := h (hs_pages s ! p)]"
  "hs_diagnostics (on_page p h s) = hs_diagnostics s"
  by (simp_all add: on_page_def)

lemma on_page_twice: "p < length (hs_pages s) \<Longrightarrow> on_page p h (on_page p g s) = on_page p (\<lambda>x. h (g x)) s"
  by (simp add: on_page_def)

lemma on_page_updates:
  "on_page p h (s\<lparr>hs_sequence_end := e\<rparr>) = (on_page p h s)\<lparr>hs_sequence_end := e\<rparr>"
  "on_page p h (s\<lparr>hs_state := st\<rparr>) = (on_page p h s)\<lparr>hs_state := st\<rparr>"
  "on_page p h (s\<lparr>hs_diagnostics := d\<rparr>) = (on_page p h s)\<lparr>hs_diagnostics := d\<rparr>"
  by (simp_all add: on_page_def)

lemma count_corruption_eq: "\<exists>d. count_corruption s = s\<lparr>hs_diagnostics := d\<rparr>"
  by (auto simp: count_corruption_def hs_count_def)

lemma scan_sequences_index:
  assumes "reads_as ops (hs_flash s) c" "p < kPageCount" "\<forall>k\<in>set ks. k < kSequenceSlotsPerPage" "p < length (hs_pages s)"
  shows "\<exists>d. scan_sequences ops p ks s =
    (let (u, e) = slot_index end_of (map (\<lambda>k. (k, sequence_at c p k)) ks) (hp_sequence_used (hs_pages s ! p), hs_sequence_end s)
     in ((on_page p (\<lambda>g. g\<lparr>hp_sequence_used := u\<rparr>) s)\<lparr>hs_sequence_end := e, hs_diagnostics := d\<rparr>, True))"
  using assms
proof (induction ks arbitrary: s)
  case Nil
  show ?case by (intro exI [of _ "hs_diagnostics s"]) (simp add: on_page_def)
next
  case (Cons k ks)
  have k: "k < kSequenceSlotsPerPage" using Cons.prems(3) by simp
  note r = reads_slots(2) [OF Cons.prems(1,2) k]
  have len: "length (sequence_at c p k) = kSequenceSlotSize"
    using slot_lengths(2) [OF _ Cons.prems(2) k, of c] Cons.prems(1) by (simp add: reads_as_def kSequenceSlotSize_def)
  show ?case
  proof (cases "blank_slot (sequence_at c p k)")
    case True
    then show ?thesis using r erased_slot [OF len]
      by (intro exI [of _ "hs_diagnostics s"]) (simp add: on_page_def)
  next
    case False
    let ?x = "sequence_at c p k"
    let ?e = "end_of ?x (hs_sequence_end s)"
    obtain d1 where d1: "count_corruption (on_page p (\<lambda>g. g\<lparr>hp_sequence_used := k + 1\<rparr>) s) =
        (on_page p (\<lambda>g. g\<lparr>hp_sequence_used := k + 1\<rparr>) s)\<lparr>hs_diagnostics := d1\<rparr>" using count_corruption_eq by blast
    define d2 where "d2 = (if decodeSequenceEnd ?x = None then d1 else hs_diagnostics s)"
    define s1 where "s1 = (on_page p (\<lambda>g. g\<lparr>hp_sequence_used := k + 1\<rparr>) s)\<lparr>hs_sequence_end := ?e, hs_diagnostics := d2\<rparr>"
    have step: "scan_sequences ops p (k # ks) s = scan_sequences ops p ks s1"
      using r erased_slot [OF len] False d1
      by (simp add: s1_def d2_def Let_def on_page_def end_of_def later_state_def split: option.split)
    have "reads_as ops (hs_flash s1) c" "p < length (hs_pages s1)" using Cons.prems by (simp_all add: s1_def)
    with Cons.IH [of s1] Cons.prems(2,3) obtain d where d: "scan_sequences ops p ks s1 =
      (let (u, e) = slot_index end_of (map (\<lambda>k. (k, sequence_at c p k)) ks) (hp_sequence_used (hs_pages s1 ! p), hs_sequence_end s1)
       in ((on_page p (\<lambda>g. g\<lparr>hp_sequence_used := u\<rparr>) s1)\<lparr>hs_sequence_end := e, hs_diagnostics := d\<rparr>, True))"
      by auto
    have f: "hp_sequence_used (hs_pages s1 ! p) = k + 1" "hs_sequence_end s1 = ?e" using Cons.prems(4) by (simp_all add: s1_def)
    show ?thesis unfolding step d f using False Cons.prems(4)
      by (intro exI [of _ d]) (simp add: s1_def on_page_def split: prod.split)
  qed
qed

lemma scan_states_index:
  assumes "reads_as ops (hs_flash s) c" "p < kPageCount" "\<forall>k\<in>set ks. k < kStateSlotsPerPage" "p < length (hs_pages s)"
  shows "\<exists>d. scan_states ops p ks s =
    (let (u, st) = slot_index later_state (map (\<lambda>k. (k, state_at c p k)) ks) (hp_state_used (hs_pages s ! p), hs_state s)
     in ((on_page p (\<lambda>g. g\<lparr>hp_state_used := u\<rparr>) s)\<lparr>hs_state := st, hs_diagnostics := d\<rparr>, True))"
  using assms
proof (induction ks arbitrary: s)
  case Nil
  show ?case by (intro exI [of _ "hs_diagnostics s"]) (simp add: on_page_def)
next
  case (Cons k ks)
  have k: "k < kStateSlotsPerPage" using Cons.prems(3) by simp
  note r = reads_slots(3) [OF Cons.prems(1,2) k]
  have len: "length (state_at c p k) = kStateSlotSize"
    using slot_lengths(3) [OF _ Cons.prems(2) k, of c] Cons.prems(1) by (simp add: reads_as_def kStateSlotSize_def)
  show ?case
  proof (cases "blank_slot (state_at c p k)")
    case True
    then show ?thesis using r erased_slot [OF len]
      by (intro exI [of _ "hs_diagnostics s"]) (simp add: on_page_def)
  next
    case False
    let ?x = "state_at c p k"
    let ?st = "later_state ?x (hs_state s)"
    obtain d1 where d1: "count_corruption (on_page p (\<lambda>g. g\<lparr>hp_state_used := k + 1\<rparr>) s) =
        (on_page p (\<lambda>g. g\<lparr>hp_state_used := k + 1\<rparr>) s)\<lparr>hs_diagnostics := d1\<rparr>" using count_corruption_eq by blast
    define d2 where "d2 = (if decodeState ?x = None then d1 else hs_diagnostics s)"
    define s1 where "s1 = (on_page p (\<lambda>g. g\<lparr>hp_state_used := k + 1\<rparr>) s)\<lparr>hs_state := ?st, hs_diagnostics := d2\<rparr>"
    have step: "scan_states ops p (k # ks) s = scan_states ops p ks s1"
      using r erased_slot [OF len] False d1
      by (simp add: s1_def d2_def Let_def on_page_def end_of_def later_state_def split: option.split)
    have "reads_as ops (hs_flash s1) c" "p < length (hs_pages s1)" using Cons.prems by (simp_all add: s1_def)
    with Cons.IH [of s1] Cons.prems(2,3) obtain d where d: "scan_states ops p ks s1 =
      (let (u, st) = slot_index later_state (map (\<lambda>k. (k, state_at c p k)) ks) (hp_state_used (hs_pages s1 ! p), hs_state s1)
       in ((on_page p (\<lambda>g. g\<lparr>hp_state_used := u\<rparr>) s1)\<lparr>hs_state := st, hs_diagnostics := d\<rparr>, True))"
      by auto
    have f: "hp_state_used (hs_pages s1 ! p) = k + 1" "hs_state s1 = ?st" using Cons.prems(4) by (simp_all add: s1_def)
    show ?thesis unfolding step d f using False Cons.prems(4)
      by (intro exI [of _ d]) (simp add: s1_def on_page_def split: prod.split)
  qed
qed

lemma scan_records_index:
  assumes "reads_as ops (hs_flash s) c" "p < kPageCount" "\<forall>k\<in>set ks. k < kRecordsPerPage" "p < length (hs_pages s)"
  shows "\<exists>d. scan_records ops p ks prev s =
    ((on_page p (\<lambda>g. snd (rec_index (hs_device_id s) (map (\<lambda>k. (k, record_at c p k)) ks) (prev, g))) s)\<lparr>hs_diagnostics := d\<rparr>, True)"
  using assms
proof (induction ks arbitrary: s prev)
  case Nil
  show ?case by (intro exI [of _ "hs_diagnostics s"]) (simp add: on_page_def)
next
  case (Cons k ks)
  have k: "k < kRecordsPerPage" using Cons.prems(3) by simp
  note r = reads_slots(4) [OF Cons.prems(1,2) k]
  have len: "length (record_at c p k) = kRecordSize"
    using slot_lengths(4) [OF _ Cons.prems(2) k, of c] Cons.prems(1) by (simp add: reads_as_def kRecordSize_def)
  let ?x = "record_at c p k"
  let ?dev = "hs_device_id s"
  obtain d1 where d1: "count_corruption (on_page p (\<lambda>g. g\<lparr>hp_records_used := k + 1\<rparr>) s) =
      (on_page p (\<lambda>g. g\<lparr>hp_records_used := k + 1\<rparr>) s)\<lparr>hs_diagnostics := d1\<rparr>" using count_corruption_eq by blast
  define acc where "acc \<longleftrightarrow> (\<exists>r. decodeRecord ?x ?dev = Some r \<and> \<not> (prev \<noteq> 0 \<and> identity r \<le> prev))"
  define prev1 where "prev1 = (if blank_slot ?x \<or> \<not> acc then prev else identity (the (decodeRecord ?x ?dev)))"
  define h :: "HistoryPage \<Rightarrow> HistoryPage" where "h = (\<lambda>g. if blank_slot ?x then g else if \<not> acc then g\<lparr>hp_records_used := k + 1\<rparr>
    else g\<lparr>hp_records_used := k + 1, hp_valid := set_bit_at (hp_valid g) k, hp_records_valid := hp_records_valid g + 1\<rparr>)"
  define d2 where "d2 = (if blank_slot ?x \<or> acc then hs_diagnostics s else d1)"
  define s1 where "s1 = (on_page p h s)\<lparr>hs_diagnostics := d2\<rparr>"
  have step: "scan_records ops p (k # ks) prev s = scan_records ops p ks prev1 s1"
    using r erased_slot [OF len] d1 Cons.prems(4)
    by (auto simp: s1_def d2_def h_def prev1_def acc_def Let_def on_page_def split: option.split)
  have pure: "rec_index ?dev ((k, ?x) # xs) (prev, g) = rec_index ?dev xs (prev1, h g)" for xs g
    by (auto simp: h_def prev1_def acc_def split: option.split)
  have "reads_as ops (hs_flash s1) c" "p < length (hs_pages s1)" using Cons.prems by (simp_all add: s1_def)
  with Cons.IH [of s1 prev1] Cons.prems(2,3) obtain d where d: "scan_records ops p ks prev1 s1 =
    ((on_page p (\<lambda>g. snd (rec_index (hs_device_id s1) (map (\<lambda>k. (k, record_at c p k)) ks) (prev1, g))) s1)\<lparr>hs_diagnostics := d\<rparr>, True)"
    by auto
  have f: "hs_device_id s1 = ?dev" by (simp add: s1_def)
  show ?case unfolding step d f list.map pure using Cons.prems(4)
    by (intro exI [of _ d]) (simp add: s1_def on_page_def)
qed

section \<open>One page\<close>

definition sequence_slots :: "bytes \<Rightarrow> nat \<Rightarrow> (nat \<times> bytes) list" where
  "sequence_slots c p = map (\<lambda>k. (k, sequence_at c p k)) [0..<kSequenceSlotsPerPage]"

definition state_slots :: "bytes \<Rightarrow> nat \<Rightarrow> (nat \<times> bytes) list" where
  "state_slots c p = map (\<lambda>k. (k, state_at c p k)) [0..<kStateSlotsPerPage]"

definition record_slots :: "bytes \<Rightarrow> nat \<Rightarrow> (nat \<times> bytes) list" where
  "record_slots c p = map (\<lambda>k. (k, record_at c p k)) [0..<kRecordsPerPage]"

definition page_index :: "u64 \<Rightarrow> bytes \<Rightarrow> nat \<Rightarrow> HistoryPage" where
  "page_index dev c p = (case decodePage (header_at c p) dev of
      None \<Rightarrow> HistoryPage_init
    | Some (gen, inc) \<Rightarrow> snd (rec_index dev (record_slots c p) (0, HistoryPage_init\<lparr>hp_generation := gen,
        hp_sequence_used := fst (slot_index end_of (sequence_slots c p) (0, 0)),
        hp_state_used := fst (slot_index later_state (state_slots c p) (0, JournalState_init))\<rparr>)))"

definition end_step :: "u64 \<Rightarrow> bytes \<Rightarrow> nat \<Rightarrow> u64 \<Rightarrow> u64" where
  "end_step dev c p e = (if decodePage (header_at c p) dev = None then e else snd (slot_index end_of (sequence_slots c p) (0, e)))"

definition state_step :: "u64 \<Rightarrow> bytes \<Rightarrow> nat \<Rightarrow> JournalState \<Rightarrow> JournalState" where
  "state_step dev c p st = (if decodePage (header_at c p) dev = None then st else snd (slot_index later_state (state_slots c p) (0, st)))"

definition newest_step :: "u64 \<Rightarrow> bytes \<Rightarrow> nat \<Rightarrow> u64 \<times> int \<Rightarrow> u64 \<times> int" where
  "newest_step dev c p ga = (case decodePage (header_at c p) dev of
      None \<Rightarrow> ga | Some (gen, inc) \<Rightarrow> if gen > fst ga then (gen, int p) else ga)"

definition index_store :: "u64 \<Rightarrow> bytes \<Rightarrow> nat \<Rightarrow> 'f HistoryStore \<Rightarrow> 'f HistoryStore" where
  "index_store dev c p s = s\<lparr>hs_pages := (hs_pages s)[p := page_index dev c p],
     hs_sequence_end := end_step dev c p (hs_sequence_end s), hs_state := state_step dev c p (hs_state s),
     hs_newest_generation := fst (newest_step dev c p (hs_newest_generation s, hs_active_page s)),
     hs_active_page := snd (newest_step dev c p (hs_newest_generation s, hs_active_page s))\<rparr>"

lemma slots_used_any: "fst (slot_index f xs (u, v)) = fst (slot_index g xs (u, w))"
  by (induction xs arbitrary: u v w) auto

text \<open>The page headers that make recovery stop: another incarnation, an older or a newer format.\<close>

definition old_header :: "bytes \<Rightarrow> bool" where
  "old_header h \<longleftrightarrow> committedPageHeaderEnvelope h \<and> (h ! 4 = 2 \<or> h ! 4 = 3)"

definition newer_header :: "bytes \<Rightarrow> bool" where
  "newer_header h \<longleftrightarrow> committedPageHeaderEnvelope h \<and> h ! 4 > kVersion"

lemma note_envelope_flags:
  "hr_legacy_format (note_envelope h r) \<longleftrightarrow> hr_legacy_format r \<or> old_header h"
  "hr_unsupported_newer (note_envelope h r) \<longleftrightarrow> hr_unsupported_newer r \<or> newer_header h"
  "hr_incarnation (note_envelope h r) = hr_incarnation r"
  by (auto simp: note_envelope_def old_header_def newer_header_def)

lemma recover_page_index:
  assumes rd: "reads_as ops (hs_flash s) c" and p: "p < kPageCount" and len: "length (hs_pages s) = kPageCount"
    and dev: "hs_device_id s = dev"
    and inc: "\<And>gen inc. decodePage (header_at c p) dev = Some (gen, inc) \<Longrightarrow> hr_incarnation r = 0 \<or> inc = hr_incarnation r"
  shows "\<exists>d. hs_recover_page ops p s r = ((index_store dev c p s)\<lparr>hs_diagnostics := d\<rparr>,
     (note_envelope (header_at c p) r)\<lparr>hr_incarnation := (case decodePage (header_at c p) dev of
        None \<Rightarrow> hr_incarnation r | Some (gen, inc) \<Rightarrow> inc)\<rparr>, True)"
proof (cases "decodePage (header_at c p) dev")
  case None
  define s0 where "s0 = on_page p (\<lambda>_. HistoryPage_init) s"
  obtain d1 where d1: "count_corruption s0 = s0\<lparr>hs_diagnostics := d1\<rparr>" using count_corruption_eq by blast
  have i: "index_store dev c p s = s0"
    by (simp add: index_store_def page_index_def end_step_def state_step_def newest_step_def None s0_def on_page_def)
  have r: "fb_read ops (hs_flash s0) (pageOffset p) kStaticHeaderSize = Some (header_at c p)" "hs_device_id s0 = dev"
    using reads_slots(1) [OF rd p] dev by (simp_all add: s0_def)
  have nr: "(note_envelope (header_at c p) r)\<lparr>hr_incarnation := hr_incarnation r\<rparr> = note_envelope (header_at c p) r"
    by (simp add: note_envelope_def)
  show ?thesis
    unfolding hs_recover_page_def s0_def [symmetric] Let_def i r(1) option.case r(2) None d1 nr
    by (intro exI [of _ "if \<not> erased (header_at c p) 0 kStaticHeaderSize \<and> looksLikeJournalHeader (header_at c p) then d1
      else hs_diagnostics s0"]) simp
next
  case (Some gi)
  obtain gen inc where gi: "decodePage (header_at c p) dev = Some (gen, inc)" using Some by (cases gi) auto
  define s0 where "s0 = on_page p (\<lambda>_. HistoryPage_init) s"
  define s1 where "s1 = on_page p (\<lambda>g. g\<lparr>hp_generation := gen\<rparr>) s0"
  define s2 where "s2 = (if gen > hs_newest_generation s1 then s1\<lparr>hs_newest_generation := gen, hs_active_page := int p\<rparr> else s1)"
  have r: "fb_read ops (hs_flash s0) (pageOffset p) kStaticHeaderSize = Some (header_at c p)" "hs_device_id s0 = dev"
    using reads_slots(1) [OF rd p] dev by (simp_all add: s0_def)
  have pl: "p < length (hs_pages s)" using len p by simp
  have f2: "hs_flash s2 = hs_flash s" "p < length (hs_pages s2)" "hs_pages s2 ! p = HistoryPage_init\<lparr>hp_generation := gen\<rparr>"
    "hs_sequence_end s2 = hs_sequence_end s" "hs_state s2 = hs_state s" "hs_device_id s2 = dev"
    using pl dev by (simp_all add: s2_def s1_def s0_def)
  define ue where "ue = slot_index end_of (sequence_slots c p) (0, hs_sequence_end s)"
  have "hp_sequence_used (hs_pages s2 ! p) = 0" by (simp add: f2 HistoryPage_init_def)
  then obtain d3 where d3: "scan_sequences ops p [0..<kSequenceSlotsPerPage] s2 =
      ((on_page p (\<lambda>g. g\<lparr>hp_sequence_used := fst ue\<rparr>) s2)\<lparr>hs_sequence_end := snd ue, hs_diagnostics := d3\<rparr>, True)"
    using scan_sequences_index [of ops s2 c p "[0..<kSequenceSlotsPerPage]"] rd p f2
    by (auto simp: ue_def sequence_slots_def split_beta Let_def)
  define s3 where "s3 = (on_page p (\<lambda>g. g\<lparr>hp_sequence_used := fst ue\<rparr>) s2)\<lparr>hs_sequence_end := snd ue, hs_diagnostics := d3\<rparr>"
  have f3: "hs_flash s3 = hs_flash s" "p < length (hs_pages s3)"
    "hs_pages s3 ! p = HistoryPage_init\<lparr>hp_generation := gen, hp_sequence_used := fst ue\<rparr>"
    "hs_state s3 = hs_state s" "hs_device_id s3 = dev"
    using f2 by (simp_all add: s3_def)
  define us where "us = slot_index later_state (state_slots c p) (0, hs_state s)"
  have "hp_state_used (hs_pages s3 ! p) = 0" by (simp add: f3 HistoryPage_init_def)
  then obtain d4 where d4: "scan_states ops p [0..<kStateSlotsPerPage] s3 =
      ((on_page p (\<lambda>g. g\<lparr>hp_state_used := fst us\<rparr>) s3)\<lparr>hs_state := snd us, hs_diagnostics := d4\<rparr>, True)"
    using scan_states_index [of ops s3 c p "[0..<kStateSlotsPerPage]"] rd p f3
    by (auto simp: us_def state_slots_def split_beta Let_def)
  define s4 where "s4 = (on_page p (\<lambda>g. g\<lparr>hp_state_used := fst us\<rparr>) s3)\<lparr>hs_state := snd us, hs_diagnostics := d4\<rparr>"
  have f4: "hs_flash s4 = hs_flash s" "p < length (hs_pages s4)"
    "hs_pages s4 ! p = HistoryPage_init\<lparr>hp_generation := gen, hp_sequence_used := fst ue, hp_state_used := fst us\<rparr>"
    "hs_device_id s4 = dev"
    using f3 by (simp_all add: s4_def)
  define g5 where "g5 = snd (rec_index dev (record_slots c p) (0, hs_pages s4 ! p))"
  obtain d5 where d5: "scan_records ops p [0..<kRecordsPerPage] 0 s4 = ((on_page p (\<lambda>_. g5) s4)\<lparr>hs_diagnostics := d5\<rparr>, True)"
    using scan_records_index [of ops s4 c p "[0..<kRecordsPerPage]" 0] rd p f4
    by (auto simp: g5_def record_slots_def on_page_def)
  have u: "fst ue = fst (slot_index end_of (sequence_slots c p) (0, 0))" "fst us = fst (slot_index later_state (state_slots c p) (0, JournalState_init))"
    unfolding ue_def us_def by (rule slots_used_any, rule slots_used_any)
  have fin: "(on_page p (\<lambda>_. g5) s4)\<lparr>hs_diagnostics := d5\<rparr> = (index_store dev c p s)\<lparr>hs_diagnostics := d5\<rparr>"
    unfolding g5_def f4(3) u index_store_def page_index_def end_step_def state_step_def newest_step_def gi
    by (simp add: s4_def s3_def s2_def s1_def s0_def on_page_def ue_def us_def)
  have ni: "\<not> (hr_incarnation (note_envelope (header_at c p) r) \<noteq> 0 \<and> inc \<noteq> hr_incarnation (note_envelope (header_at c p) r))"
    using inc [OF gi] by (auto simp: note_envelope_flags)
  have "hs_recover_page ops p s r = ((on_page p (\<lambda>_. g5) s4)\<lparr>hs_diagnostics := d5\<rparr>, (note_envelope (header_at c p) r)\<lparr>hr_incarnation := inc\<rparr>, True)"
    unfolding hs_recover_page_def s0_def [symmetric] Let_def r(1) option.case r(2) gi prod.case if_not_P [OF ni]
      s1_def [symmetric] s2_def [symmetric] d3 s3_def [symmetric] d4 s4_def [symmetric] d5 by simp
  then show ?thesis unfolding fin by (auto simp: gi)
qed

lemma recover_page_refuses:
  assumes rd: "reads_as ops (hs_flash s) c" and p: "p < kPageCount" and dev: "hs_device_id s = dev"
    and gi: "decodePage (header_at c p) dev = Some (gen, inc)" "hr_incarnation r \<noteq> 0" "inc \<noteq> hr_incarnation r"
  shows "snd (snd (hs_recover_page ops p s r)) = False"
  using reads_slots(1) [OF rd p] dev gi by (simp add: hs_recover_page_def Let_def note_envelope_flags)

section \<open>The whole region\<close>

lemma index_store_fields [simp]:
  "hs_flash (index_store dev c p s) = hs_flash s" "hs_device_id (index_store dev c p s) = hs_device_id s"
  "hs_pages (index_store dev c p s) = (hs_pages s)[p := page_index dev c p]"
  "index_store dev c p (s\<lparr>hs_diagnostics := d\<rparr>) = (index_store dev c p s)\<lparr>hs_diagnostics := d\<rparr>"
  by (simp_all add: index_store_def)

definition same_incarnation :: "u64 \<Rightarrow> u64 \<Rightarrow> bytes \<Rightarrow> nat \<Rightarrow> bool" where
  "same_incarnation dev inc c p \<longleftrightarrow> (\<forall>gen i. decodePage (header_at c p) dev = Some (gen, i) \<longrightarrow> i = inc)"

lemma decoded_incarnation: "decodePage h dev = Some (gen, inc) \<Longrightarrow> gen \<noteq> 0 \<and> inc \<noteq> 0"
  by (auto simp: decodePage_def split: if_splits)

lemma fold_index_diag: "fold (index_store dev c) ps (s\<lparr>hs_diagnostics := d\<rparr>) = (fold (index_store dev c) ps s)\<lparr>hs_diagnostics := d\<rparr>"
  by (induction ps arbitrary: s) simp_all

lemma recover_pages_index:
  assumes "reads_as ops (hs_flash s) c" "\<forall>p\<in>set ps. p < kPageCount" "length (hs_pages s) = kPageCount" "hs_device_id s = dev"
    and "hs_recover_pages ops ps s r = (s', r', True)"
  shows "(\<exists>d. s' = (fold (index_store dev c) ps s)\<lparr>hs_diagnostics := d\<rparr>) \<and>
    (\<forall>p\<in>set ps. same_incarnation dev (hr_incarnation r') c p) \<and>
    (hr_incarnation r \<noteq> 0 \<longrightarrow> hr_incarnation r' = hr_incarnation r) \<and>
    (hr_legacy_format r' \<longleftrightarrow> hr_legacy_format r \<or> (\<exists>p\<in>set ps. old_header (header_at c p))) \<and>
    (hr_unsupported_newer r' \<longleftrightarrow> hr_unsupported_newer r \<or> (\<exists>p\<in>set ps. newer_header (header_at c p)))"
  using assms
proof (induction ps arbitrary: s r)
  case Nil
  then show ?case by (auto intro: exI [of _ "hs_diagnostics s"])
next
  case (Cons p ps)
  have p: "p < kPageCount" using Cons.prems(2) by simp
  have ok: "snd (snd (hs_recover_page ops p s r))"
    using Cons.prems(5) by (cases "snd (snd (hs_recover_page ops p s r))") (auto split: prod.splits)
  have compat: "hr_incarnation r = 0 \<or> inc = hr_incarnation r" if "decodePage (header_at c p) dev = Some (gen, inc)" for gen inc
    using recover_page_refuses [OF Cons.prems(1) p Cons.prems(4) that] ok by auto
  define r1 where "r1 = (note_envelope (header_at c p) r)\<lparr>hr_incarnation := (case decodePage (header_at c p) dev of
        None \<Rightarrow> hr_incarnation r | Some (gen, inc) \<Rightarrow> inc)\<rparr>"
  have "\<exists>d. hs_recover_page ops p s r = ((index_store dev c p s)\<lparr>hs_diagnostics := d\<rparr>, r1, True)"
    unfolding r1_def by (rule recover_page_index [OF Cons.prems(1) p Cons.prems(3,4)]) (rule compat)
  then obtain d1 where d1: "hs_recover_page ops p s r = ((index_store dev c p s)\<lparr>hs_diagnostics := d1\<rparr>, r1, True)"
    by blast
  define s1 where "s1 = (index_store dev c p s)\<lparr>hs_diagnostics := d1\<rparr>"
  have f1: "reads_as ops (hs_flash s1) c" "length (hs_pages s1) = kPageCount" "hs_device_id s1 = dev"
    using Cons.prems by (simp_all add: s1_def)
  have rest: "hs_recover_pages ops ps s1 r1 = (s', r', True)" using Cons.prems(5) d1 by (simp add: s1_def)
  note ih = Cons.IH [OF f1(1) _ f1(2,3) rest]
  have ih: "(\<exists>d. s' = (fold (index_store dev c) ps s1)\<lparr>hs_diagnostics := d\<rparr>) \<and>
    (\<forall>p\<in>set ps. same_incarnation dev (hr_incarnation r') c p) \<and>
    (hr_incarnation r1 \<noteq> 0 \<longrightarrow> hr_incarnation r' = hr_incarnation r1) \<and>
    (hr_legacy_format r' \<longleftrightarrow> hr_legacy_format r1 \<or> (\<exists>p\<in>set ps. old_header (header_at c p))) \<and>
    (hr_unsupported_newer r' \<longleftrightarrow> hr_unsupported_newer r1 \<or> (\<exists>p\<in>set ps. newer_header (header_at c p)))"
    using ih Cons.prems(2) by simp
  have "hr_incarnation r \<noteq> 0 \<longrightarrow> hr_incarnation r1 = hr_incarnation r"
    using compat by (auto simp: r1_def split: option.split)
  moreover have "same_incarnation dev (hr_incarnation r') c p"
    using ih decoded_incarnation by (fastforce simp: same_incarnation_def r1_def)
  ultimately show ?case using ih
    by (auto simp: s1_def fold_index_diag r1_def note_envelope_flags)
qed

lemma recover_pages_ok:
  assumes "reads_as ops (hs_flash s) c" "\<forall>p\<in>set ps. p < kPageCount" "length (hs_pages s) = kPageCount" "hs_device_id s = dev"
    and "\<forall>p\<in>set ps. same_incarnation dev inc c p" "hr_incarnation r = 0 \<or> hr_incarnation r = inc"
  shows "\<exists>s' r'. hs_recover_pages ops ps s r = (s', r', True)"
  using assms
proof (induction ps arbitrary: s r)
  case (Cons p ps)
  define r1 where "r1 = (note_envelope (header_at c p) r)\<lparr>hr_incarnation := (case decodePage (header_at c p) dev of
        None \<Rightarrow> hr_incarnation r | Some (gen, inc) \<Rightarrow> inc)\<rparr>"
  obtain d1 where d1: "hs_recover_page ops p s r = ((index_store dev c p s)\<lparr>hs_diagnostics := d1\<rparr>, r1, True)"
    using recover_page_index [OF Cons.prems(1) _ Cons.prems(3,4), of p r] Cons.prems(2,5,6)
    unfolding r1_def by (auto simp: same_incarnation_def)
  have "hr_incarnation r1 = 0 \<or> hr_incarnation r1 = inc"
    using Cons.prems(5,6) by (auto simp: r1_def same_incarnation_def split: option.split)
  then have "\<exists>s' r'. hs_recover_pages ops ps ((index_store dev c p s)\<lparr>hs_diagnostics := d1\<rparr>) r1 = (s', r', True)"
    using Cons.prems by (intro Cons.IH) simp_all
  then show ?case using d1 by simp
qed simp

text \<open>
  The index of the region: what recovery leaves in the store when it succeeds.
\<close>

definition region_pages :: "u64 \<Rightarrow> bytes \<Rightarrow> HistoryPage list" where
  "region_pages dev c = map (page_index dev c) [0..<kPageCount]"

definition region_end :: "u64 \<Rightarrow> bytes \<Rightarrow> u64" where
  "region_end dev c = fold (end_step dev c) [0..<kPageCount] 0"

definition region_state :: "u64 \<Rightarrow> bytes \<Rightarrow> JournalState" where
  "region_state dev c = fold (state_step dev c) [0..<kPageCount] JournalState_init"

definition region_newest :: "u64 \<Rightarrow> bytes \<Rightarrow> u64 \<times> int" where
  "region_newest dev c = fold (newest_step dev c) [0..<kPageCount] (0, -1)"

definition recoverable :: "u64 \<Rightarrow> u64 \<Rightarrow> bytes \<Rightarrow> bool" where
  "recoverable dev inc c \<longleftrightarrow> (\<forall>p<kPageCount. same_incarnation dev inc c p \<and>
     \<not> old_header (header_at c p) \<and> \<not> newer_header (header_at c p))"

lemma fold_index_fields:
  "hs_sequence_end (fold (index_store dev c) ps s) = fold (end_step dev c) ps (hs_sequence_end s)"
  "hs_state (fold (index_store dev c) ps s) = fold (state_step dev c) ps (hs_state s)"
  "(hs_newest_generation (fold (index_store dev c) ps s), hs_active_page (fold (index_store dev c) ps s)) =
     fold (newest_step dev c) ps (hs_newest_generation s, hs_active_page s)"
  "length (hs_pages (fold (index_store dev c) ps s)) = length (hs_pages s)"
  by (induction ps arbitrary: s) (simp_all add: index_store_def)

lemma fold_index_pages:
  "q < length (hs_pages s) \<Longrightarrow> hs_pages (fold (index_store dev c) ps s) ! q = (if q \<in> set ps then page_index dev c q else hs_pages s ! q)"
  by (induction ps arbitrary: s) (auto simp: nth_list_update)

lemma fold_index_rest:
  "\<exists>pg e st n a. fold (index_store dev c) ps s =
     s\<lparr>hs_pages := pg, hs_sequence_end := e, hs_state := st, hs_newest_generation := n, hs_active_page := a\<rparr>"
proof (induction ps arbitrary: s)
  case Nil
  show ?case
    by (intro exI [of _ "hs_pages s"] exI [of _ "hs_sequence_end s"] exI [of _ "hs_state s"]
        exI [of _ "hs_newest_generation s"] exI [of _ "hs_active_page s"]) simp
next
  case (Cons p ps)
  obtain pg e st n a where "fold (index_store dev c) ps (index_store dev c p s) =
     (index_store dev c p s)\<lparr>hs_pages := pg, hs_sequence_end := e, hs_state := st, hs_newest_generation := n, hs_active_page := a\<rparr>"
    using Cons [of "index_store dev c p s"] by blast
  then have "fold (index_store dev c) (p # ps) s =
     (index_store dev c p s)\<lparr>hs_pages := pg, hs_sequence_end := e, hs_state := st, hs_newest_generation := n, hs_active_page := a\<rparr>"
    by simp
  also have "\<dots> = s\<lparr>hs_pages := pg, hs_sequence_end := e, hs_state := st, hs_newest_generation := n, hs_active_page := a\<rparr>"
    by (simp add: index_store_def)
  finally show ?case by blast
qed

lemma region_newest_none: "snd (region_newest dev c) = -1 \<longleftrightarrow> (\<forall>p<kPageCount. decodePage (header_at c p) dev = None)"
proof -
  have "snd (fold (newest_step dev c) ps ga) \<ge> 0 \<or> (\<forall>p\<in>set ps. decodePage (header_at c p) dev = None) \<and> fold (newest_step dev c) ps ga = ga"
    if "snd ga \<ge> 0 \<or> fst ga = 0" for ps ga
    using that
  proof (induction ps arbitrary: ga)
    case (Cons p ps)
    show ?case
    proof (cases "decodePage (header_at c p) dev")
      case None
      then show ?thesis using Cons by (simp add: newest_step_def)
    next
      case (Some gi)
      obtain g i where gi: "decodePage (header_at c p) dev = Some (g, i)" using Some by (cases gi) auto
      have "snd (newest_step dev c p ga) \<ge> 0"
        using Cons.prems gi decoded_incarnation [OF gi] by (auto simp: newest_step_def word_gt_0)
      then have "snd (fold (newest_step dev c) (p # ps) ga) \<ge> 0"
        using Cons.IH [of "newest_step dev c p ga"] by auto
      then show ?thesis by simp
    qed
  qed simp
  note f = this
  have n: "fold (newest_step dev c) ps ga = ga" if "\<forall>p\<in>set ps. decodePage (header_at c p) dev = None" for ps ga
    using that by (induction ps) (simp_all add: newest_step_def)
  show ?thesis
    using f [of "(0, -1)" "[0..<kPageCount]"] n [of "[0..<kPageCount]" "(0, -1)"] by (auto simp: region_newest_def)
qed

definition same_region :: "u64 \<Rightarrow> bytes \<Rightarrow> 'f HistoryStore \<Rightarrow> bool" where
  "same_region dev c s \<longleftrightarrow> hs_pages s = region_pages dev c \<and>
     (hs_newest_generation s, hs_active_page s) = region_newest dev c"

text \<open>Recovery of a freshly reset store.\<close>

lemma recover_index:
  assumes rd: "reads_as ops (hs_flash s) c" and len: "length (hs_pages s) = kPageCount" and dev: "hs_device_id s = dev"
    and z: "hs_sequence_end s = 0" "hs_state s = JournalState_init" "hs_newest_generation s = 0" "hs_active_page s = -1"
      "hs_incarnation s = 0"
  shows "(\<exists>inc. inc \<noteq> 0 \<and> recoverable dev inc c) \<Longrightarrow> \<exists>s'. hs_recover ops s = (s', True)"
    and "hs_recover ops s = (s', True) \<Longrightarrow> \<exists>inc d. recoverable dev inc c \<and>
      s' = s\<lparr>hs_pages := region_pages dev c, hs_sequence_end := region_end dev c, hs_state := region_state dev c,
        hs_newest_generation := fst (region_newest dev c), hs_active_page := snd (region_newest dev c),
        hs_incarnation := (if snd (region_newest dev c) \<ge> 0 then inc else 0), hs_diagnostics := d\<rparr>"
proof -
  let ?r0 = "\<lparr>hr_legacy_format = False, hr_unsupported_newer = False, hr_incarnation = 0\<rparr>"
  have ps: "\<forall>p\<in>set [0..<kPageCount]. p < kPageCount" by simp
  note fields = recover_pages_index [OF rd ps len dev]
  show "\<exists>s'. hs_recover ops s = (s', True)" if r: "\<exists>inc. inc \<noteq> 0 \<and> recoverable dev inc c"
  proof -
    obtain inc where inc: "recoverable dev inc c" using r by blast
    then have "\<forall>p\<in>set [0..<kPageCount]. same_incarnation dev inc c p" by (simp add: recoverable_def)
    then obtain s1 r1 where 1: "hs_recover_pages ops [0..<kPageCount] s ?r0 = (s1, r1, True)"
      using recover_pages_ok [OF rd ps len dev, of inc ?r0] by auto
    have "\<not> hr_legacy_format r1" "\<not> hr_unsupported_newer r1"
      using fields [OF 1] inc by (auto simp: recoverable_def)
    then show ?thesis by (simp add: hs_recover_def 1)
  qed
  assume ok: "hs_recover ops s = (s', True)"
  obtain s1 r1 where 1: "hs_recover_pages ops [0..<kPageCount] s ?r0 = (s1, r1, True)"
    and fl: "\<not> hr_legacy_format r1" "\<not> hr_unsupported_newer r1"
    and s': "s' = (if hs_active_page s1 \<ge> 0 then s1\<lparr>hs_incarnation := hr_incarnation r1\<rparr> else s1)"
    using ok by (auto simp: hs_recover_def Let_def split: prod.splits if_splits)
  obtain d where d: "s1 = (fold (index_store dev c) [0..<kPageCount] s)\<lparr>hs_diagnostics := d\<rparr>"
    and inc: "\<forall>p\<in>set [0..<kPageCount]. same_incarnation dev (hr_incarnation r1) c p"
    using fields [OF 1] by blast
  have rec: "recoverable dev (hr_incarnation r1) c" using fields [OF 1] fl inc by (auto simp: recoverable_def)
  let ?f = "fold (index_store dev c) [0..<kPageCount] s"
  obtain pg e st n a where f: "?f = s\<lparr>hs_pages := pg, hs_sequence_end := e, hs_state := st, hs_newest_generation := n, hs_active_page := a\<rparr>"
    using fold_index_rest by blast
  have "pg = region_pages dev c"
  proof (rule nth_equalityI)
    show l: "length pg = length (region_pages dev c)"
      using fold_index_fields(4) [of dev c "[0..<kPageCount]" s] len by (simp add: f region_pages_def)
    fix q assume "q < length pg"
    then have "q < kPageCount" using l by (simp add: region_pages_def)
    then show "pg ! q = region_pages dev c ! q"
      using fold_index_pages [of q s dev c "[0..<kPageCount]"] len by (simp add: f region_pages_def)
  qed
  moreover have "e = region_end dev c" "st = region_state dev c" "(n, a) = region_newest dev c"
    using fold_index_fields(1-3) [of dev c "[0..<kPageCount]" s] z
    by (simp_all add: f region_end_def region_state_def region_newest_def)
  moreover from this have "n = fst (region_newest dev c)" "a = snd (region_newest dev c)" by (metis fst_conv, metis snd_conv)
  ultimately show "\<exists>inc d. recoverable dev inc c \<and>
      s' = s\<lparr>hs_pages := region_pages dev c, hs_sequence_end := region_end dev c, hs_state := region_state dev c,
        hs_newest_generation := fst (region_newest dev c), hs_active_page := snd (region_newest dev c),
        hs_incarnation := (if snd (region_newest dev c) \<ge> 0 then inc else 0), hs_diagnostics := d\<rparr>"
    using rec z(5) by (intro exI [of _ "hr_incarnation r1"] exI [of _ d]) (simp add: s' d f)
qed

end
