(* ===== verification/History_Cells.thy ===== *)
theory History_Cells
  imports History_Index
begin

text \<open>
  How the index of the region changes when one slot, one header or one page of it changes: the facts about
  the cells that the invariant of the store in \<open>firmware/src/history_store.cpp\<close> rests on.
\<close>

section \<open>What a write leaves alone\<close>

lemma slice_write_apart: "a + n \<le> off \<or> off + length d \<le> a \<Longrightarrow> slice a n (write_at off d c) = slice a n c"
  using slice_write_at_before slice_write_at_after by blast

lemma page_order: "p \<noteq> q \<Longrightarrow> p * 4096 + 4096 \<le> q * 4096 \<or> q * 4096 + 4096 \<le> p * (4096 :: nat)"
  by linarith

lemma slot_order: "k \<noteq> t \<Longrightarrow> k * n + n \<le> t * n \<or> t * n + n \<le> k * (n :: nat)"
proof -
  assume "k \<noteq> t"
  then have "Suc k \<le> t \<or> Suc t \<le> k" by linarith
  then have "Suc k * n \<le> t * n \<or> Suc t * n \<le> k * n" using mult_le_mono1 by blast
  then show ?thesis by (simp add: add.commute)
qed

text \<open>A write inside one page.\<close>

lemma write_page:
  assumes "pageOffset p \<le> off" "off + length d \<le> pageOffset p + kPageSize" "q \<noteq> p"
  shows "header_at (write_at off d c) q = header_at c q"
    "k < kSequenceSlotsPerPage \<Longrightarrow> sequence_at (write_at off d c) q k = sequence_at c q k"
    "k < kStateSlotsPerPage \<Longrightarrow> state_at (write_at off d c) q k = state_at c q k"
    "k < kRecordsPerPage \<Longrightarrow> record_at (write_at off d c) q k = record_at c q k"
  unfolding header_at_def sequence_at_def state_at_def record_at_def
  using assms page_order [OF assms(3)] by (auto intro!: slice_write_apart simp: history_layout)

lemma write_sequence:
  assumes "length d \<le> kSequenceSlotSize" "t < kSequenceSlotsPerPage"
  shows "header_at (write_at (sequenceOffset p t) d c) q = header_at c q"
    "k < kSequenceSlotsPerPage \<Longrightarrow> (q, k) \<noteq> (p, t) \<Longrightarrow> sequence_at (write_at (sequenceOffset p t) d c) q k = sequence_at c q k"
    "k < kStateSlotsPerPage \<Longrightarrow> state_at (write_at (sequenceOffset p t) d c) q k = state_at c q k"
    "k < kRecordsPerPage \<Longrightarrow> record_at (write_at (sequenceOffset p t) d c) q k = record_at c q k"
  unfolding header_at_def sequence_at_def state_at_def record_at_def
  using assms page_order [of p q] slot_order [of k t 16]
  by (cases "p = q"; auto intro!: slice_write_apart simp: history_layout)+

lemma write_state:
  assumes "length d \<le> kStateSlotSize" "t < kStateSlotsPerPage"
  shows "header_at (write_at (stateOffset p t) d c) q = header_at c q"
    "k < kSequenceSlotsPerPage \<Longrightarrow> sequence_at (write_at (stateOffset p t) d c) q k = sequence_at c q k"
    "k < kStateSlotsPerPage \<Longrightarrow> (q, k) \<noteq> (p, t) \<Longrightarrow> state_at (write_at (stateOffset p t) d c) q k = state_at c q k"
    "k < kRecordsPerPage \<Longrightarrow> record_at (write_at (stateOffset p t) d c) q k = record_at c q k"
  unfolding header_at_def sequence_at_def state_at_def record_at_def
  using assms page_order [of p q] slot_order [of k t 32]
  by (cases "p = q"; auto intro!: slice_write_apart simp: history_layout)+

lemma write_record:
  assumes "length d \<le> kRecordSize" "t < kRecordsPerPage"
  shows "header_at (write_at (recordOffset p t) d c) q = header_at c q"
    "k < kSequenceSlotsPerPage \<Longrightarrow> sequence_at (write_at (recordOffset p t) d c) q k = sequence_at c q k"
    "k < kStateSlotsPerPage \<Longrightarrow> state_at (write_at (recordOffset p t) d c) q k = state_at c q k"
    "k < kRecordsPerPage \<Longrightarrow> (q, k) \<noteq> (p, t) \<Longrightarrow> record_at (write_at (recordOffset p t) d c) q k = record_at c q k"
  unfolding header_at_def sequence_at_def state_at_def record_at_def
  using assms page_order [of p q] slot_order [of k t 36]
  by (cases "p = q"; auto intro!: slice_write_apart simp: history_layout)+

section \<open>Slots that fill from the front\<close>

text \<open>The number of slots in front of the first blank one.\<close>

definition filled :: "(nat \<Rightarrow> bytes) \<Rightarrow> nat \<Rightarrow> nat \<Rightarrow> bool" where
  "filled f n t \<longleftrightarrow> t \<le> n \<and> (\<forall>k<t. \<not> blank_slot (f k)) \<and> (t < n \<longrightarrow> blank_slot (f t))"

lemma filled_ex: "\<exists>t. filled f n t"
proof (cases "\<exists>k<n. blank_slot (f k)")
  case True
  define t where "t = (LEAST k. blank_slot (f k))"
  obtain k where "k < n" "blank_slot (f k)" using True by blast
  then have "blank_slot (f t)" "t \<le> k" unfolding t_def by (auto intro: LeastI Least_le)
  moreover have "\<forall>j<t. \<not> blank_slot (f j)" using not_less_Least unfolding t_def by blast
  ultimately show ?thesis using \<open>k < n\<close> by (intro exI [of _ t]) (simp add: filled_def)
next
  case False
  then show ?thesis by (intro exI [of _ n]) (auto simp: filled_def)
qed

lemma filled_unique: "filled f n t \<Longrightarrow> filled f n t' \<Longrightarrow> t = t'"
  unfolding filled_def by (metis linorder_neqE_nat order.strict_trans2)

lemma filled_cong: "(\<And>k. k < n \<Longrightarrow> f k = g k) \<Longrightarrow> filled f n t = filled g n t"
  by (auto simp: filled_def)

lemma slot_index_from:
  assumes "\<forall>k. j \<le> k \<and> k < t \<longrightarrow> \<not> blank_slot (f k)" "t < n \<longrightarrow> blank_slot (f t)" "j \<le> t" "t \<le> n"
  shows "slot_index h (map (\<lambda>k. (k, f k)) [j..<n]) (j, v) = (t, fold h (map f [j..<t]) v)"
  using assms
proof (induction "t - j" arbitrary: j v)
  case 0
  then have "j = t" by simp
  then show ?case using 0 by (cases "t < n") (simp_all add: upt_conv_Cons)
next
  case (Suc m)
  then have j: "j < t" "j < n" by auto
  have "slot_index h (map (\<lambda>k. (k, f k)) [Suc j..<n]) (Suc j, h (f j) v) = (t, fold h (map f [Suc j..<t]) (h (f j) v))"
    by (rule Suc.hyps(1)) (use Suc in auto)
  then show ?case using Suc.prems j by (simp add: upt_conv_Cons)
qed

lemma slot_index_filled:
  assumes "filled f n t"
  shows "slot_index h (map (\<lambda>k. (k, f k)) [0..<n]) (0, v) = (t, fold h (map f [0..<t]) v)"
  by (rule slot_index_from) (use assms in \<open>auto simp: filled_def\<close>)

text \<open>Behind the first blank slot every slot is blank.\<close>

definition packed :: "(nat \<Rightarrow> bytes) \<Rightarrow> nat \<Rightarrow> bool" where
  "packed f n \<longleftrightarrow> (\<forall>k k'. k < k' \<and> k' < n \<and> \<not> blank_slot (f k') \<longrightarrow> \<not> blank_slot (f k))"

lemma packed_blank: "packed f n \<Longrightarrow> filled f n t \<Longrightarrow> t \<le> k \<Longrightarrow> k < n \<Longrightarrow> blank_slot (f k)"
  unfolding packed_def filled_def by (metis order.strict_trans1 order_le_imp_less_or_eq)

lemma packed_update:
  assumes "packed f n" "filled f n t" "\<And>k. k < n \<Longrightarrow> k \<noteq> t \<Longrightarrow> g k = f k"
  shows "packed g n" "t < n \<Longrightarrow> \<not> blank_slot (g t) \<Longrightarrow> filled g n (t + 1)" "t < n \<Longrightarrow> blank_slot (g t) \<Longrightarrow> filled g n t"
proof -
  have b: "k < n \<Longrightarrow> t < k \<Longrightarrow> blank_slot (g k)" for k
    using packed_blank [OF assms(1,2), of k] assms(3) [of k] by simp
  have f: "k < t \<Longrightarrow> \<not> blank_slot (g k)" for k
    using assms(2) assms(3) [of k] by (simp add: filled_def)
  show "packed g n" unfolding packed_def
  proof (intro allI impI)
    fix k k' assume k: "k < k' \<and> k' < n \<and> \<not> blank_slot (g k')"
    then have "k' \<le> t" using b by (meson not_le_imp_less)
    then show "\<not> blank_slot (g k)" using f k by simp
  qed
  show "filled g n (t + 1)" if "t < n" "\<not> blank_slot (g t)"
    using that f b by (auto simp: filled_def less_Suc_eq)
  show "filled g n t" if "t < n" "blank_slot (g t)" using that f by (auto simp: filled_def)
qed

lemma packed_cong: "(\<And>k. k < n \<Longrightarrow> f k = g k) \<Longrightarrow> packed f n = packed g n"
  unfolding packed_def by (metis order.strict_trans)

section \<open>The record slots\<close>

lemma rec_index_append: "rec_index dev (xs @ ys) pg = rec_index dev ys (rec_index dev xs pg)"
  by (induction dev xs pg rule: rec_index.induct) (simp_all split: option.split)

lemma rec_index_blank: "(\<forall>(k, x)\<in>set xs. blank_slot x) \<Longrightarrow> rec_index dev xs pg = pg"
  by (induction dev xs pg rule: rec_index.induct) auto

lemma rec_index_used:
  assumes "hp_records_used g = 0"
  shows "hp_records_used (snd (rec_index dev (map (\<lambda>k. (k, f k)) [0..<n]) (prev, g))) \<le> n \<and>
    (\<forall>k. hp_records_used (snd (rec_index dev (map (\<lambda>k. (k, f k)) [0..<n]) (prev, g))) \<le> k \<and> k < n \<longrightarrow> blank_slot (f k))"
proof (induction n)
  case 0
  show ?case using assms by simp
next
  case (Suc n)
  obtain pv pg where r: "rec_index dev (map (\<lambda>k. (k, f k)) [0..<n]) (prev, g) = (pv, pg)" by fastforce
  have s: "rec_index dev (map (\<lambda>k. (k, f k)) [0..<Suc n]) (prev, g) = rec_index dev [(n, f n)] (pv, pg)"
    by (simp only: upt_Suc_append map_append rec_index_append r) simp
  show ?case
  proof (cases "blank_slot (f n)")
    case True
    then show ?thesis using Suc unfolding s r by (auto simp: less_Suc_eq)
  next
    case False
    then have "hp_records_used (snd (rec_index dev [(n, f n)] (pv, pg))) = n + 1"
      by (simp split: option.split)
    then show ?thesis unfolding s by (metis Suc_eq_plus1 not_less order_refl)
  qed
qed

lemma bit_set_at:
  assumes "length v = 13" "n < 104" "k < 104"
  shows "bitSet (set_bit_at v n) k \<longleftrightarrow> k = n \<or> bitSet v k"
proof -
  have lt: "n mod 8 < 8" "k mod 8 < 8" "n div 8 < length v" using assms by auto
  have x: "bit (w OR 2 ^ (n mod 8) :: u8) (k mod 8) \<longleftrightarrow> n mod 8 = k mod 8 \<or> bit w (k mod 8)" for w
    using lt by (auto simp: bit_simps)
  show ?thesis
  proof (cases "k div 8 = n div 8")
    case True
    have "k = n \<longleftrightarrow> k mod 8 = n mod 8" using True by (metis div_mult_mod_eq)
    then show ?thesis using True lt by (auto simp: bitSet_def set_bit_at_def and_exp_eq_0_iff_not_bit x)
  next
    case False
    then show ?thesis using lt by (auto simp: bitSet_def set_bit_at_def nth_list_update)
  qed
qed

lemma length_set_bit [simp]: "length (set_bit_at v n) = length v"
  by (simp add: set_bit_at_def)

text \<open>Every marked slot decodes, and the identity scanning carries along is that of a marked slot.\<close>

lemma rec_index_marked:
  assumes "length (hp_valid g) = 13" "\<forall>k<104. \<not> bitSet (hp_valid g) k" "n \<le> 104"
  shows "case rec_index dev (map (\<lambda>k. (k, f k)) [0..<n]) (0, g) of (prev, g') \<Rightarrow>
    length (hp_valid g') = 13 \<and> (\<forall>k<104. bitSet (hp_valid g') k \<longrightarrow> k < n \<and> decodeRecord (f k) dev \<noteq> None \<and> \<not> blank_slot (f k)) \<and>
    (prev \<noteq> 0 \<longrightarrow> (\<exists>k<n. bitSet (hp_valid g') k \<and> map_option identity (decodeRecord (f k) dev) = Some prev))"
  using assms(3)
proof (induction n)
  case 0
  show ?case using assms by simp
next
  case (Suc n)
  obtain pv pg where r: "rec_index dev (map (\<lambda>k. (k, f k)) [0..<n]) (0, g) = (pv, pg)" by fastforce
  have s: "rec_index dev (map (\<lambda>k. (k, f k)) [0..<Suc n]) (0, g) = rec_index dev [(n, f n)] (pv, pg)"
    by (simp only: upt_Suc_append map_append rec_index_append r) simp
  have ih: "length (hp_valid pg) = 13" "k < 104 \<Longrightarrow> bitSet (hp_valid pg) k \<Longrightarrow> k < n \<and> decodeRecord (f k) dev \<noteq> None \<and> \<not> blank_slot (f k)"
    "pv \<noteq> 0 \<Longrightarrow> \<exists>k<n. bitSet (hp_valid pg) k \<and> map_option identity (decodeRecord (f k) dev) = Some pv" for k
    using Suc by (auto simp: r)
  have n: "n < 104" using Suc.prems by simp
  show ?case unfolding s using ih bit_set_at [OF ih(1) n] n
    by (auto split: option.split simp: less_Suc_eq)
qed

section \<open>The index of a page\<close>

definition decodable :: "u64 \<Rightarrow> bytes \<Rightarrow> nat \<Rightarrow> bool" where
  "decodable dev c p \<longleftrightarrow> decodePage (header_at c p) dev \<noteq> None"

definition same_page :: "bytes \<Rightarrow> bytes \<Rightarrow> nat \<Rightarrow> bool" where
  "same_page c d p \<longleftrightarrow> header_at d p = header_at c p \<and> (\<forall>k<kSequenceSlotsPerPage. sequence_at d p k = sequence_at c p k) \<and>
     (\<forall>k<kStateSlotsPerPage. state_at d p k = state_at c p k) \<and> (\<forall>k<kRecordsPerPage. record_at d p k = record_at c p k)"

text \<open>Only what recovery counts on a page: every undecodable page counts as empty.\<close>

lemma page_steps_cong:
  assumes "same_page c d p \<or> \<not> decodable dev c p \<and> \<not> decodable dev d p"
  shows "page_index dev d p = page_index dev c p" "end_step dev d p = end_step dev c p" "state_step dev d p = state_step dev c p"
    "newest_step dev d p = newest_step dev c p" "decodable dev d p = decodable dev c p"
proof -
  have "map (\<lambda>k. (k, f k)) [0..<n] = map (\<lambda>k. (k, g k)) [0..<n]" if "\<forall>k<n. f k = g k" for f g :: "nat \<Rightarrow> bytes" and n
    using that by simp
  note m = this
  have s: "same_page c d p \<Longrightarrow> header_at d p = header_at c p \<and> sequence_slots d p = sequence_slots c p \<and>
      state_slots d p = state_slots c p \<and> record_slots d p = record_slots c p"
    unfolding same_page_def sequence_slots_def state_slots_def record_slots_def by (auto intro!: m)
  consider "header_at d p = header_at c p" "sequence_slots d p = sequence_slots c p" "state_slots d p = state_slots c p"
      "record_slots d p = record_slots c p"
    | "decodePage (header_at c p) dev = None" "decodePage (header_at d p) dev = None"
    using assms s by (auto simp: decodable_def simp del: split_paired_All not_None_eq)
  then have "page_index dev d p = page_index dev c p \<and> end_step dev d p = end_step dev c p \<and>
      state_step dev d p = state_step dev c p \<and> newest_step dev d p = newest_step dev c p \<and>
      decodable dev d p = decodable dev c p"
  proof cases
    case 1
    show ?thesis by (simp only: page_index_def decodable_def fun_eq_iff end_step_def state_step_def newest_step_def 1 simp_thms)
  next
    case 2
    then show ?thesis
      by (simp add: page_index_def end_step_def state_step_def newest_step_def decodable_def fun_eq_iff)
  qed
  then show "page_index dev d p = page_index dev c p" "end_step dev d p = end_step dev c p" "state_step dev d p = state_step dev c p"
    "newest_step dev d p = newest_step dev c p" "decodable dev d p = decodable dev c p" by simp_all
qed

lemma rec_index_commutes_with:
  assumes "\<And>g k. (h g)\<lparr>hp_records_used := k + 1\<rparr> = h (g\<lparr>hp_records_used := k + 1\<rparr>)"
    and "\<And>g k. (h g)\<lparr>hp_records_used := k + 1, hp_valid := set_bit_at (hp_valid (h g)) k,
        hp_records_valid := hp_records_valid (h g) + 1\<rparr> =
      h (g\<lparr>hp_records_used := k + 1, hp_valid := set_bit_at (hp_valid g) k, hp_records_valid := hp_records_valid g + 1\<rparr>)"
  shows "rec_index dev xs (prev, h g) = (fst (rec_index dev xs (prev, g)), h (snd (rec_index dev xs (prev, g))))"
proof (induction xs arbitrary: prev g)
  case (Cons kx xs)
  obtain k x where kx: "kx = (k, x)" by (cases kx) auto
  show ?case unfolding kx rec_index.simps assms(1) assms(2) [unfolded assms(1)] Cons
    by (cases "blank_slot x"; cases "decodeRecord x dev"; cases "prev \<noteq> 0 \<and> identity (the (decodeRecord x dev)) \<le> prev")
      (auto simp del: One_nat_def)
qed simp

lemma rec_index_commutes:
  "rec_index dev xs (prev, g\<lparr>hp_sequence_used := u\<rparr>) =
     (fst (rec_index dev xs (prev, g)), (snd (rec_index dev xs (prev, g)))\<lparr>hp_sequence_used := u\<rparr>)"
  "rec_index dev xs (prev, g\<lparr>hp_state_used := u\<rparr>) =
     (fst (rec_index dev xs (prev, g)), (snd (rec_index dev xs (prev, g)))\<lparr>hp_state_used := u\<rparr>)"
  by (rule rec_index_commutes_with [of "\<lambda>g. g\<lparr>hp_sequence_used := u\<rparr>"]; simp)
    (rule rec_index_commutes_with [of "\<lambda>g. g\<lparr>hp_state_used := u\<rparr>"]; simp)

lemma rec_index_keeps:
  "hp_generation (snd (rec_index dev xs (prev, g))) = hp_generation g"
  "hp_sequence_used (snd (rec_index dev xs (prev, g))) = hp_sequence_used g"
  "hp_state_used (snd (rec_index dev xs (prev, g))) = hp_state_used g"
  by (induction dev xs "(prev, g)" arbitrary: prev g rule: rec_index.induct) (simp_all split: option.split)

lemma init_page [simp]:
  "hp_records_used HistoryPage_init = 0" "hp_generation HistoryPage_init = 0" "length (hp_valid HistoryPage_init) = 13"
  "k < 104 \<Longrightarrow> \<not> bitSet (hp_valid HistoryPage_init) k"
  by (simp_all add: HistoryPage_init_def bitSet_def)

lemma page_index_decoded:
  assumes "decodePage (header_at c p) dev = Some (gen, inc)"
  shows "hp_generation (page_index dev c p) = gen"
    "filled (sequence_at c p) kSequenceSlotsPerPage (hp_sequence_used (page_index dev c p))"
    "filled (state_at c p) kStateSlotsPerPage (hp_state_used (page_index dev c p))"
    "hp_records_used (page_index dev c p) \<le> kRecordsPerPage"
    "hp_records_used (page_index dev c p) \<le> k \<Longrightarrow> k < kRecordsPerPage \<Longrightarrow> blank_slot (record_at c p k)"
proof -
  obtain t where t: "filled (sequence_at c p) kSequenceSlotsPerPage t" using filled_ex by blast
  obtain u where u: "filled (state_at c p) kStateSlotsPerPage u" using filled_ex by blast
  show "hp_generation (page_index dev c p) = gen" by (simp add: page_index_def assms rec_index_keeps)
  show "filled (sequence_at c p) kSequenceSlotsPerPage (hp_sequence_used (page_index dev c p))"
    using t slot_index_filled [OF t, of end_of 0] by (simp add: page_index_def assms rec_index_keeps sequence_slots_def)
  show "filled (state_at c p) kStateSlotsPerPage (hp_state_used (page_index dev c p))"
    using u slot_index_filled [OF u, of later_state JournalState_init]
    by (simp add: page_index_def assms rec_index_keeps state_slots_def)
  show "hp_records_used (page_index dev c p) \<le> kRecordsPerPage"
    "hp_records_used (page_index dev c p) \<le> k \<Longrightarrow> k < kRecordsPerPage \<Longrightarrow> blank_slot (record_at c p k)"
    unfolding page_index_def assms option.case prod.case record_slots_def
    using rec_index_used [of "HistoryPage_init\<lparr>hp_generation := gen,
        hp_sequence_used := fst (slot_index end_of (sequence_slots c p) (0, 0)),
        hp_state_used := fst (slot_index later_state (state_slots c p) (0, JournalState_init))\<rparr>"
      dev "record_at c p" kRecordsPerPage 0] by auto
qed

lemma end_step_filled:
  assumes "decodable dev c p" "filled (sequence_at c p) kSequenceSlotsPerPage t"
  shows "end_step dev c p e = fold end_of (map (sequence_at c p) [0..<t]) e"
  using assms slot_index_filled [OF assms(2), of end_of e] by (auto simp: end_step_def decodable_def sequence_slots_def)

lemma state_step_filled:
  assumes "decodable dev c p" "filled (state_at c p) kStateSlotsPerPage t"
  shows "state_step dev c p st = fold later_state (map (state_at c p) [0..<t]) st"
  using assms slot_index_filled [OF assms(2), of later_state st] by (auto simp: state_step_def decodable_def state_slots_def)

section \<open>The end of the reserved tickets and the delivery state\<close>

lemma fold_end_facts:
  "e \<le> fold end_of xs e" "x \<in> set xs \<Longrightarrow> decodeSequenceEnd x = Some e' \<Longrightarrow> e' \<le> fold end_of xs e"
  "fold end_of xs e = e \<or> (\<exists>x\<in>set xs. decodeSequenceEnd x = Some (fold end_of xs e))"
proof -
  have a: "e \<le> fold end_of xs e" for xs e
  proof (induction xs arbitrary: e)
    case (Cons y ys)
    have "e \<le> end_of y e" by (auto simp: end_of_def split: option.split)
    then show ?case using Cons [of "end_of y e"] by simp
  qed simp
  show "e \<le> fold end_of xs e" by (rule a)
  show "x \<in> set xs \<Longrightarrow> decodeSequenceEnd x = Some e' \<Longrightarrow> e' \<le> fold end_of xs e"
  proof (induction xs arbitrary: e)
    case (Cons y ys)
    show ?case
    proof (cases "x = y")
      case True
      then have "e' \<le> end_of y e" using Cons.prems by (auto simp: end_of_def not_less)
      then show ?thesis using a [of "end_of y e" ys] by simp
    qed (use Cons in simp)
  qed simp
  show "fold end_of xs e = e \<or> (\<exists>x\<in>set xs. decodeSequenceEnd x = Some (fold end_of xs e))"
  proof (induction xs arbitrary: e)
    case (Cons y ys)
    have "end_of y e = e \<or> decodeSequenceEnd y = Some (end_of y e)" by (simp add: end_of_def split: option.split)
    then show ?case using Cons [of "end_of y e"] by auto
  qed simp
qed

lemma fold_state_facts:
  "st_generation st \<le> st_generation (fold later_state xs st)"
  "x \<in> set xs \<Longrightarrow> decodeState x = Some st' \<Longrightarrow> st_generation st' \<le> st_generation (fold later_state xs st)"
  "fold later_state xs st = st \<or> (\<exists>x\<in>set xs. decodeState x = Some (fold later_state xs st))"
proof -
  have a: "st_generation st \<le> st_generation (fold later_state xs st)" for xs st
  proof (induction xs arbitrary: st)
    case (Cons y ys)
    have "st_generation st \<le> st_generation (later_state y st)" by (auto simp: later_state_def split: option.split)
    then show ?case using Cons [of "later_state y st"] by simp
  qed simp
  show "st_generation st \<le> st_generation (fold later_state xs st)" by (rule a)
  show "x \<in> set xs \<Longrightarrow> decodeState x = Some st' \<Longrightarrow> st_generation st' \<le> st_generation (fold later_state xs st)"
  proof (induction xs arbitrary: st)
    case (Cons y ys)
    show ?case
    proof (cases "x = y")
      case True
      then have "st_generation st' \<le> st_generation (later_state y st)" using Cons.prems by (auto simp: later_state_def not_less)
      then show ?thesis using a [of "later_state y st" ys] by simp
    qed (use Cons in simp)
  qed simp
  show "fold later_state xs st = st \<or> (\<exists>x\<in>set xs. decodeState x = Some (fold later_state xs st))"
  proof (induction xs arbitrary: st)
    case (Cons y ys)
    have "later_state y st = st \<or> decodeState y = Some (later_state y st)" by (simp add: later_state_def split: option.split)
    then show ?case using Cons [of "later_state y st"] by auto
  qed simp
qed

text \<open>The slots recovery looks at.\<close>

definition live_sequences :: "u64 \<Rightarrow> bytes \<Rightarrow> bytes list" where
  "live_sequences dev c = concat (map (\<lambda>p. if decodable dev c p
     then map (sequence_at c p) [0..<hp_sequence_used (page_index dev c p)] else []) [0..<kPageCount])"

definition live_states :: "u64 \<Rightarrow> bytes \<Rightarrow> bytes list" where
  "live_states dev c = concat (map (\<lambda>p. if decodable dev c p
     then map (state_at c p) [0..<hp_state_used (page_index dev c p)] else []) [0..<kPageCount])"

lemma fold_concat_map: "fold f (concat (map g ps)) v = fold (\<lambda>p. fold f (g p)) ps v"
  by (induction ps arbitrary: v) simp_all

lemma region_folds:
  "region_end dev c = fold end_of (live_sequences dev c) 0"
  "region_state dev c = fold later_state (live_states dev c) JournalState_init"
proof -
  have "end_step dev c p = fold end_of (if decodable dev c p then map (sequence_at c p) [0..<hp_sequence_used (page_index dev c p)] else [])"
    for p
    using end_step_filled [of dev c p] page_index_decoded(2) [of c p dev]
    by (auto simp: fun_eq_iff decodable_def end_step_def)
  then show "region_end dev c = fold end_of (live_sequences dev c) 0"
    unfolding region_end_def live_sequences_def fold_concat_map by presburger
  have "state_step dev c p = fold later_state (if decodable dev c p then map (state_at c p) [0..<hp_state_used (page_index dev c p)] else [])"
    for p
    using state_step_filled [of dev c p] page_index_decoded(3) [of c p dev]
    by (auto simp: fun_eq_iff decodable_def state_step_def)
  then show "region_state dev c = fold later_state (live_states dev c) JournalState_init"
    unfolding region_state_def live_states_def fold_concat_map by presburger
qed

lemma set_concat_upt: "x \<in> set (concat (map (\<lambda>p. if P p then map (f p) [0..<n p] else []) [0..<m])) \<longleftrightarrow>
  (\<exists>p<m. P p \<and> (\<exists>k<n p. x = f p k))"
proof -
  let ?l = "\<lambda>p. if P p then map (f p) [0..<n p] else []"
  have "x \<in> set (concat (map ?l [0..<m])) \<longleftrightarrow> (\<exists>p\<in>set [0..<m]. x \<in> set (?l p))"
    unfolding set_concat set_map by blast
  also have "\<dots> \<longleftrightarrow> (\<exists>p<m. P p \<and> (\<exists>k<n p. x = f p k))"
  proof -
    have "x \<in> set (?l p) \<longleftrightarrow> P p \<and> (\<exists>k<n p. x = f p k)" for p by auto
    then show ?thesis by (simp only: set_upt atLeastLessThan_iff Bex_def) simp
  qed
  finally show ?thesis .
qed

lemma live_sequences_iff: "x \<in> set (live_sequences dev c) \<longleftrightarrow>
  (\<exists>p<kPageCount. decodable dev c p \<and> (\<exists>k<hp_sequence_used (page_index dev c p). x = sequence_at c p k))"
  unfolding live_sequences_def by (rule set_concat_upt)

lemma live_states_iff: "x \<in> set (live_states dev c) \<longleftrightarrow>
  (\<exists>p<kPageCount. decodable dev c p \<and> (\<exists>k<hp_state_used (page_index dev c p). x = state_at c p k))"
  unfolding live_states_def by (rule set_concat_upt)

lemma region_end_grows:
  assumes "\<And>x. x \<in> set (live_sequences dev d) \<Longrightarrow> x \<in> set (live_sequences dev c) \<or> decodeSequenceEnd x \<in> {None, Some e}"
    and "\<exists>x\<in>set (live_sequences dev d). decodeSequenceEnd x = Some e" "region_end dev c \<le> e"
  shows "region_end dev d = e"
proof (rule antisym)
  show "e \<le> region_end dev d"
    unfolding region_folds using assms(2) fold_end_facts(2) by blast
  have "region_end dev d = 0 \<or> (\<exists>x\<in>set (live_sequences dev d). decodeSequenceEnd x = Some (region_end dev d))"
    unfolding region_folds by (rule fold_end_facts(3))
  then consider "region_end dev d = 0" | x where "x \<in> set (live_sequences dev c)" "decodeSequenceEnd x = Some (region_end dev d)"
    | "region_end dev d = e" using assms(1) by fastforce
  then show "region_end dev d \<le> e"
  proof cases
    case 2
    then have "region_end dev d \<le> region_end dev c"
      unfolding region_folds(1) [of dev c] using fold_end_facts(2) by blast
    then show ?thesis using assms(3) by simp
  qed simp_all
qed

lemma region_end_mono:
  assumes "\<And>x e. x \<in> set (live_sequences dev d) \<Longrightarrow> decodeSequenceEnd x = Some e \<Longrightarrow> \<exists>y\<in>set (live_sequences dev c). decodeSequenceEnd y = Some e"
  shows "region_end dev d \<le> region_end dev c"
proof -
  have "region_end dev d = 0 \<or> (\<exists>x\<in>set (live_sequences dev d). decodeSequenceEnd x = Some (region_end dev d))"
    unfolding region_folds by (rule fold_end_facts(3))
  then consider "region_end dev d = 0" | y where "y \<in> set (live_sequences dev c)" "decodeSequenceEnd y = Some (region_end dev d)"
    using assms by blast
  then show ?thesis
  proof cases
    case 2
    then show ?thesis unfolding region_folds(1) [of dev c] using fold_end_facts(2) by blast
  qed simp
qed

lemma region_state_newest:
  assumes "\<And>x. x \<in> set (live_states dev d) \<Longrightarrow> x \<in> set (live_states dev c) \<or> decodeState x \<in> {None, Some st}"
    and "\<exists>x\<in>set (live_states dev d). decodeState x = Some st"
    and "\<And>x st'. x \<in> set (live_states dev c) \<Longrightarrow> decodeState x = Some st' \<Longrightarrow> st_generation st' < st_generation st"
  shows "region_state dev d = st"
proof -
  let ?m = "region_state dev d"
  have le: "st_generation st \<le> st_generation ?m"
    unfolding region_folds using assms(2) fold_state_facts(2) by blast
  obtain x where x: "x \<in> set (live_states dev d)" "decodeState x = Some st" using assms(2) by blast
  have "?m = JournalState_init \<or> (\<exists>x\<in>set (live_states dev d). decodeState x = Some ?m)"
    unfolding region_folds by (rule fold_state_facts(3))
  moreover have "?m \<noteq> JournalState_init"
  proof
    assume "?m = JournalState_init"
    then have "st_generation st = 0" using le by (simp add: JournalState_init_def)
    then show False using x(2) by (auto simp: decodeState_def split: if_splits)
  qed
  ultimately obtain y where y: "y \<in> set (live_states dev d)" "decodeState y = Some ?m" by blast
  then show ?thesis using assms(1) [OF y(1)] assms(3) [of y ?m] le by auto
qed

end
