(* ===== verification/History_Writes.thy ===== *)
theory History_Writes
  imports History_Cells
begin

text \<open>
  The index of the region of \<open>firmware/src/history_store.cpp\<close> after one write of the store: a reservation,
  a delivery state or a record in its slot, a page erased, a page header written.
\<close>

definition others_same :: "bytes \<Rightarrow> bytes \<Rightarrow> nat \<Rightarrow> bool" where
  "others_same c d p \<longleftrightarrow> (\<forall>q<kPageCount. q \<noteq> p \<longrightarrow> same_page c d q)"

text \<open>A page whose metadata slots fill from the front.\<close>

definition front_filled :: "bytes \<Rightarrow> nat \<Rightarrow> bool" where
  "front_filled c p \<longleftrightarrow> packed (sequence_at c p) kSequenceSlotsPerPage \<and> packed (state_at c p) kStateSlotsPerPage"

lemma front_filled_same: "same_page c d q \<Longrightarrow> front_filled d q = front_filled c q"
  using packed_cong [of kSequenceSlotsPerPage "sequence_at d q" "sequence_at c q"]
    packed_cong [of kStateSlotsPerPage "state_at d q" "state_at c q"] by (simp add: same_page_def front_filled_def)

lemma region_pages_update:
  assumes "others_same c d p" "p < kPageCount"
  shows "region_pages dev d = (region_pages dev c)[p := page_index dev d p]"
proof (rule nth_equalityI)
  fix q assume "q < length (region_pages dev d)"
  then have "q < kPageCount" by (simp add: region_pages_def)
  then show "region_pages dev d ! q = (region_pages dev c)[p := page_index dev d p] ! q"
    using assms page_steps_cong(1) [of c d q dev] by (simp add: region_pages_def nth_list_update others_same_def)
qed (simp add: region_pages_def)

lemma nth_region_pages [simp]: "p < kPageCount \<Longrightarrow> region_pages dev c ! p = page_index dev c p"
  "length (region_pages dev c) = kPageCount"
  by (simp_all add: region_pages_def)

lemma region_newest_cong:
  assumes "\<And>p. p < kPageCount \<Longrightarrow> newest_step dev d p = newest_step dev c p"
  shows "region_newest dev d = region_newest dev c"
  unfolding region_newest_def by (rule fold_cong [OF refl refl]) (simp add: assms)

lemma newest_step_header: "header_at d p = header_at c p \<Longrightarrow> newest_step dev d p = newest_step dev c p"
  by (simp add: newest_step_def fun_eq_iff)

lemma newest_others:
  assumes "others_same c d p" "header_at d p = header_at c p"
  shows "region_newest dev d = region_newest dev c"
proof (rule region_newest_cong)
  fix q assume q: "q < kPageCount"
  show "newest_step dev d q = newest_step dev c q"
  proof (cases "q = p")
    case True
    then show ?thesis using newest_step_header [OF assms(2)] by simp
  next
    case False
    then show ?thesis using assms(1) q page_steps_cong(4) [of c d q dev] by (simp add: others_same_def)
  qed
qed

text \<open>What recovery sees of the other pages.\<close>

lemma live_sequences_others:
  assumes "others_same c d p" "x \<in> set (live_sequences dev d)"
  shows "x \<in> set (live_sequences dev c) \<or>
    decodable dev d p \<and> (\<exists>k<hp_sequence_used (page_index dev d p). x = sequence_at d p k)"
proof -
  obtain q k where q: "q < kPageCount" "decodable dev d q" "k < hp_sequence_used (page_index dev d q)" "x = sequence_at d q k"
    using assms(2) by (auto simp: live_sequences_iff)
  show ?thesis
  proof (cases "q = p")
    case True
    then show ?thesis using q by blast
  next
    case False
    then have s: "same_page c d q" using assms(1) q by (simp add: others_same_def)
    obtain gen inc where "decodePage (header_at d q) dev = Some (gen, inc)" using q(2) by (auto simp: decodable_def)
    then have "k < kSequenceSlotsPerPage" using page_index_decoded(2) q(3) by (fastforce simp: filled_def)
    then have "x = sequence_at c q k" using s q(4) by (simp add: same_page_def)
    then show ?thesis using q page_steps_cong(1,5) [of c d q dev] s by (auto simp: live_sequences_iff)
  qed
qed

lemma live_states_others:
  assumes "others_same c d p" "x \<in> set (live_states dev d)"
  shows "x \<in> set (live_states dev c) \<or>
    decodable dev d p \<and> (\<exists>k<hp_state_used (page_index dev d p). x = state_at d p k)"
proof -
  obtain q k where q: "q < kPageCount" "decodable dev d q" "k < hp_state_used (page_index dev d q)" "x = state_at d q k"
    using assms(2) by (auto simp: live_states_iff)
  show ?thesis
  proof (cases "q = p")
    case True
    then show ?thesis using q by blast
  next
    case False
    then have s: "same_page c d q" using assms(1) q by (simp add: others_same_def)
    obtain gen inc where "decodePage (header_at d q) dev = Some (gen, inc)" using q(2) by (auto simp: decodable_def)
    then have "k < kStateSlotsPerPage" using page_index_decoded(3) q(3) by (fastforce simp: filled_def)
    then have "x = state_at c q k" using s q(4) by (simp add: same_page_def)
    then show ?thesis using q page_steps_cong(1,5) [of c d q dev] s by (auto simp: live_states_iff)
  qed
qed

lemma region_end_cong:
  assumes "others_same c d p" "end_step dev d p = end_step dev c p"
  shows "region_end dev d = region_end dev c"
  unfolding region_end_def
proof (rule fold_cong)
  fix q assume "q \<in> set [0..<kPageCount]"
  then show "end_step dev d q = end_step dev c q"
    using assms page_steps_cong(2) [of c d q dev] by (cases "q = p") (simp_all add: others_same_def)
qed simp_all

lemma region_state_cong:
  assumes "others_same c d p" "state_step dev d p = state_step dev c p"
  shows "region_state dev d = region_state dev c"
  unfolding region_state_def
proof (rule fold_cong)
  fix q assume "q \<in> set [0..<kPageCount]"
  then show "state_step dev d q = state_step dev c q"
    using assms page_steps_cong(3) [of c d q dev] by (cases "q = p") (simp_all add: others_same_def)
qed simp_all

section \<open>A sequence slot\<close>

definition only_sequence :: "bytes \<Rightarrow> bytes \<Rightarrow> nat \<Rightarrow> nat \<Rightarrow> bool" where
  "only_sequence c d p t \<longleftrightarrow> others_same c d p \<and> header_at d p = header_at c p \<and>
     (\<forall>k<kSequenceSlotsPerPage. k \<noteq> t \<longrightarrow> sequence_at d p k = sequence_at c p k) \<and>
     (\<forall>k<kStateSlotsPerPage. state_at d p k = state_at c p k) \<and> (\<forall>k<kRecordsPerPage. record_at d p k = record_at c p k)"

lemma write_only_sequence:
  assumes "length x \<le> kSequenceSlotSize" "t < kSequenceSlotsPerPage"
  shows "only_sequence c (write_at (sequenceOffset p t) x c) p t"
  using write_sequence [OF assms] by (auto simp: only_sequence_def others_same_def same_page_def)

lemma slots_eq:
  "\<forall>k<kSequenceSlotsPerPage. sequence_at d p k = sequence_at c p k \<Longrightarrow> sequence_slots d p = sequence_slots c p"
  "\<forall>k<kStateSlotsPerPage. state_at d p k = state_at c p k \<Longrightarrow> state_slots d p = state_slots c p"
  "\<forall>k<kRecordsPerPage. record_at d p k = record_at c p k \<Longrightarrow> record_slots d p = record_slots c p"
  by (auto simp: sequence_slots_def state_slots_def record_slots_def)

lemma page_index_shape:
  assumes "decodePage (header_at c p) dev = Some (gen, inc)"
  shows "page_index dev c p = (snd (rec_index dev (record_slots c p) (0, HistoryPage_init\<lparr>hp_generation := gen\<rparr>)))
    \<lparr>hp_sequence_used := fst (slot_index end_of (sequence_slots c p) (0, 0)),
     hp_state_used := fst (slot_index later_state (state_slots c p) (0, JournalState_init))\<rparr>"
  by (simp add: page_index_def assms rec_index_commutes)

lemma page_index_sequence:
  assumes "only_sequence c d p t"
  shows "page_index dev d p = (page_index dev c p)\<lparr>hp_sequence_used := hp_sequence_used (page_index dev d p)\<rparr>"
proof (cases "decodePage (header_at c p) dev")
  case None
  then show ?thesis using assms by (simp add: page_index_def only_sequence_def)
next
  case (Some gi)
  obtain gen inc where gi: "decodePage (header_at c p) dev = Some (gen, inc)" using Some by (cases gi) auto
  have "decodePage (header_at d p) dev = Some (gen, inc)" "state_slots d p = state_slots c p" "record_slots d p = record_slots c p"
    using assms slots_eq gi by (auto simp: only_sequence_def)
  then show ?thesis by (intro HistoryPage.equality) (simp_all add: page_index_shape gi)
qed

lemma sequence_written:
  assumes "front_filled c p" "p < kPageCount" "decodable dev c p" "hp_sequence_used (page_index dev c p) = t" "t < kSequenceSlotsPerPage"
    and o: "only_sequence c d p t"
  shows "front_filled d p" "region_newest dev d = region_newest dev c" "region_state dev d = region_state dev c" "decodable dev d p"
    "\<not> blank_slot (sequence_at d p t) \<Longrightarrow> region_pages dev d = (region_pages dev c)[p := (page_index dev c p)\<lparr>hp_sequence_used := t + 1\<rparr>]"
    "x \<in> set (live_sequences dev d) \<Longrightarrow> x \<in> set (live_sequences dev c) \<or> x = sequence_at d p t"
    "\<not> blank_slot (sequence_at d p t) \<Longrightarrow> sequence_at d p t \<in> set (live_sequences dev d)"
proof -
  have os: "others_same c d p" and h: "header_at d p = header_at c p" using o by (simp_all add: only_sequence_def)
  show dd: "decodable dev d p" using assms(3) h by (simp add: decodable_def)
  obtain gen inc where gc: "decodePage (header_at c p) dev = Some (gen, inc)" using assms(3) by (auto simp: decodable_def)
  have gd: "decodePage (header_at d p) dev = Some (gen, inc)" using gc h by simp
  have pk: "packed (sequence_at c p) kSequenceSlotsPerPage" "packed (state_at c p) kStateSlotsPerPage"
    using assms(1) by (simp_all add: front_filled_def)
  have fc: "filled (sequence_at c p) kSequenceSlotsPerPage t" using page_index_decoded(2) [OF gc] assms(4) by simp
  note pu = packed_update [OF pk(1) fc, of "sequence_at d p"]
  have eq: "k < kSequenceSlotsPerPage \<Longrightarrow> k \<noteq> t \<Longrightarrow> sequence_at d p k = sequence_at c p k" for k
    using o by (simp add: only_sequence_def)
  have ps: "packed (state_at d p) kStateSlotsPerPage"
    using pk(2) packed_cong [of kStateSlotsPerPage "state_at d p" "state_at c p"] o by (simp add: only_sequence_def)
  show "front_filled d p" using pu(1) [OF eq] ps by (simp add: front_filled_def)
  show "region_newest dev d = region_newest dev c" by (rule newest_others [OF os h])
  have "state_slots d p = state_slots c p" using slots_eq(2) o by (simp add: only_sequence_def)
  then show "region_state dev d = region_state dev c"
    by (intro region_state_cong [OF os]) (simp add: state_step_def fun_eq_iff h)
  have fd: "filled (sequence_at d p) kSequenceSlotsPerPage (hp_sequence_used (page_index dev d p))"
    by (rule page_index_decoded(2) [OF gd])
  have u: "hp_sequence_used (page_index dev d p) = (if blank_slot (sequence_at d p t) then t else t + 1)"
    using pu(2,3) [OF eq] assms(5) filled_unique [OF fd] by auto
  show "\<not> blank_slot (sequence_at d p t) \<Longrightarrow> region_pages dev d = (region_pages dev c)[p := (page_index dev c p)\<lparr>hp_sequence_used := t + 1\<rparr>]"
    using region_pages_update [OF os assms(2)] page_index_sequence [OF o, of dev] u by simp
  show "x \<in> set (live_sequences dev c) \<or> x = sequence_at d p t" if x: "x \<in> set (live_sequences dev d)" for x
  proof -
    consider "x \<in> set (live_sequences dev c)" | k where "k < hp_sequence_used (page_index dev d p)" "x = sequence_at d p k"
      using live_sequences_others [OF os x] by blast
    then show ?thesis
    proof cases
      case 2
      then have "k \<le> t" using u by (auto split: if_splits)
      then show ?thesis
      proof (cases "k = t")
        case False
        then have "k < hp_sequence_used (page_index dev c p)" "x = sequence_at c p k"
          using 2 eq [of k] \<open>k \<le> t\<close> assms(4,5) by simp_all
        then show ?thesis using assms(2,3) unfolding live_sequences_iff by blast
      qed (use 2 in simp)
    qed simp
  qed
  show "sequence_at d p t \<in> set (live_sequences dev d)" if "\<not> blank_slot (sequence_at d p t)"
  proof -
    have "t < hp_sequence_used (page_index dev d p)" using u that by simp
    then show ?thesis using assms(2) dd unfolding live_sequences_iff by blast
  qed
qed

section \<open>A state slot\<close>

definition only_state :: "bytes \<Rightarrow> bytes \<Rightarrow> nat \<Rightarrow> nat \<Rightarrow> bool" where
  "only_state c d p t \<longleftrightarrow> others_same c d p \<and> header_at d p = header_at c p \<and>
     (\<forall>k<kSequenceSlotsPerPage. sequence_at d p k = sequence_at c p k) \<and>
     (\<forall>k<kStateSlotsPerPage. k \<noteq> t \<longrightarrow> state_at d p k = state_at c p k) \<and> (\<forall>k<kRecordsPerPage. record_at d p k = record_at c p k)"

lemma write_only_state:
  assumes "length x \<le> kStateSlotSize" "t < kStateSlotsPerPage"
  shows "only_state c (write_at (stateOffset p t) x c) p t"
  using write_state [OF assms] by (auto simp: only_state_def others_same_def same_page_def)

lemma page_index_state:
  assumes "only_state c d p t"
  shows "page_index dev d p = (page_index dev c p)\<lparr>hp_state_used := hp_state_used (page_index dev d p)\<rparr>"
proof (cases "decodePage (header_at c p) dev")
  case None
  then show ?thesis using assms by (simp add: page_index_def only_state_def)
next
  case (Some gi)
  obtain gen inc where gi: "decodePage (header_at c p) dev = Some (gen, inc)" using Some by (cases gi) auto
  have "decodePage (header_at d p) dev = Some (gen, inc)" "sequence_slots d p = sequence_slots c p" "record_slots d p = record_slots c p"
    using assms slots_eq gi by (auto simp: only_state_def)
  then show ?thesis by (intro HistoryPage.equality) (simp_all add: page_index_shape gi)
qed

lemma state_written:
  assumes "front_filled c p" "p < kPageCount" "decodable dev c p" "hp_state_used (page_index dev c p) = t" "t < kStateSlotsPerPage"
    and o: "only_state c d p t"
  shows "front_filled d p" "region_newest dev d = region_newest dev c" "region_end dev d = region_end dev c" "decodable dev d p"
    "\<not> blank_slot (state_at d p t) \<Longrightarrow> region_pages dev d = (region_pages dev c)[p := (page_index dev c p)\<lparr>hp_state_used := t + 1\<rparr>]"
    "x \<in> set (live_states dev d) \<Longrightarrow> x \<in> set (live_states dev c) \<or> x = state_at d p t"
    "\<not> blank_slot (state_at d p t) \<Longrightarrow> state_at d p t \<in> set (live_states dev d)"
proof -
  have os: "others_same c d p" and h: "header_at d p = header_at c p" using o by (simp_all add: only_state_def)
  show dd: "decodable dev d p" using assms(3) h by (simp add: decodable_def)
  obtain gen inc where gc: "decodePage (header_at c p) dev = Some (gen, inc)" using assms(3) by (auto simp: decodable_def)
  have gd: "decodePage (header_at d p) dev = Some (gen, inc)" using gc h by simp
  have pk: "packed (sequence_at c p) kSequenceSlotsPerPage" "packed (state_at c p) kStateSlotsPerPage"
    using assms(1) by (simp_all add: front_filled_def)
  have fc: "filled (state_at c p) kStateSlotsPerPage t" using page_index_decoded(3) [OF gc] assms(4) by simp
  note pu = packed_update [OF pk(2) fc, of "state_at d p"]
  have eq: "k < kStateSlotsPerPage \<Longrightarrow> k \<noteq> t \<Longrightarrow> state_at d p k = state_at c p k" for k
    using o by (simp add: only_state_def)
  have ps: "packed (sequence_at d p) kSequenceSlotsPerPage"
    using pk(1) packed_cong [of kSequenceSlotsPerPage "sequence_at d p" "sequence_at c p"] o by (simp add: only_state_def)
  show "front_filled d p" using pu(1) [OF eq] ps by (simp add: front_filled_def)
  show "region_newest dev d = region_newest dev c" by (rule newest_others [OF os h])
  have "sequence_slots d p = sequence_slots c p" using slots_eq(1) o by (simp add: only_state_def)
  then have "end_step dev d p = end_step dev c p" by (intro ext) (simp only: end_step_def h)
  then show "region_end dev d = region_end dev c" by (rule region_end_cong [OF os])
  have fd: "filled (state_at d p) kStateSlotsPerPage (hp_state_used (page_index dev d p))"
    by (rule page_index_decoded(3) [OF gd])
  have u: "hp_state_used (page_index dev d p) = (if blank_slot (state_at d p t) then t else t + 1)"
    using pu(2,3) [OF eq] assms(5) filled_unique [OF fd] by auto
  show "\<not> blank_slot (state_at d p t) \<Longrightarrow> region_pages dev d = (region_pages dev c)[p := (page_index dev c p)\<lparr>hp_state_used := t + 1\<rparr>]"
    using region_pages_update [OF os assms(2)] page_index_state [OF o, of dev] u by simp
  show "x \<in> set (live_states dev c) \<or> x = state_at d p t" if x: "x \<in> set (live_states dev d)" for x
  proof -
    consider "x \<in> set (live_states dev c)" | k where "k < hp_state_used (page_index dev d p)" "x = state_at d p k"
      using live_states_others [OF os x] by blast
    then show ?thesis
    proof cases
      case 2
      then have "k \<le> t" using u by (auto split: if_splits)
      then show ?thesis
      proof (cases "k = t")
        case False
        then have "k < hp_state_used (page_index dev c p)" "x = state_at c p k"
          using 2 eq [of k] \<open>k \<le> t\<close> assms(4,5) by simp_all
        then show ?thesis using assms(2,3) unfolding live_states_iff by blast
      qed (use 2 in simp)
    qed simp
  qed
  show "state_at d p t \<in> set (live_states dev d)" if "\<not> blank_slot (state_at d p t)"
  proof -
    have "t < hp_state_used (page_index dev d p)" using u that by simp
    then show ?thesis using assms(2) dd unfolding live_states_iff by blast
  qed
qed

end
