(* ===== verification/History_Map.thy ===== *)
theory History_Map
  imports History_Writes
begin

text \<open>
  The records in the cells of the history region (\<open>firmware/src/history_store.cpp\<close>) as a set, the order of
  the pages in the ring, and what the index makes of them when both are in order.
\<close>

section \<open>The newest page\<close>

definition page_gen :: "u64 \<Rightarrow> bytes \<Rightarrow> nat \<Rightarrow> u64" where
  "page_gen dev c p = (case decodePage (header_at c p) dev of None \<Rightarrow> 0 | Some (gen, inc) \<Rightarrow> gen)"

lemma page_gen_header: "header_at d p = header_at c p \<Longrightarrow> page_gen dev d p = page_gen dev c p"
  by (simp add: page_gen_def)

lemma page_gen_pos: "decodable dev c p \<Longrightarrow> page_gen dev c p \<noteq> 0"
  using decoded_incarnation by (force simp: decodable_def page_gen_def)

lemma fold_newest:
  "\<forall>p\<in>set ps. decodable dev c p \<longrightarrow> page_gen dev c p \<le> fst (fold (newest_step dev c) ps ga)"
  "fst ga \<le> fst (fold (newest_step dev c) ps ga)"
  "fold (newest_step dev c) ps ga = ga \<or> (\<exists>p\<in>set ps. decodable dev c p \<and> fold (newest_step dev c) ps ga = (page_gen dev c p, int p))"
proof -
  have step: "fst ga \<le> fst (newest_step dev c p ga)" "decodable dev c p \<Longrightarrow> page_gen dev c p \<le> fst (newest_step dev c p ga)"
    "newest_step dev c p ga = ga \<or> decodable dev c p \<and> newest_step dev c p ga = (page_gen dev c p, int p)" for p ga
    by (auto simp: newest_step_def page_gen_def decodable_def split: option.splits)
  have a: "fst ga \<le> fst (fold (newest_step dev c) ps ga)" for ps ga
  proof (induction ps arbitrary: ga)
    case (Cons p ps)
    show ?case using Cons [of "newest_step dev c p ga"] step(1) [of ga p] by simp
  qed simp
  show "fst ga \<le> fst (fold (newest_step dev c) ps ga)" by (rule a)
  show "\<forall>p\<in>set ps. decodable dev c p \<longrightarrow> page_gen dev c p \<le> fst (fold (newest_step dev c) ps ga)"
  proof (induction ps arbitrary: ga)
    case (Cons p ps)
    have "decodable dev c p \<longrightarrow> page_gen dev c p \<le> fst (fold (newest_step dev c) ps (newest_step dev c p ga))"
      using step(2) [of p ga] a [of "newest_step dev c p ga" ps] by auto
    then show ?case using Cons [of "newest_step dev c p ga"] by simp
  qed simp
  show "fold (newest_step dev c) ps ga = ga \<or> (\<exists>p\<in>set ps. decodable dev c p \<and> fold (newest_step dev c) ps ga = (page_gen dev c p, int p))"
  proof (induction ps arbitrary: ga)
    case (Cons p ps)
    show ?case using Cons [of "newest_step dev c p ga"] step(3) [of p ga] by auto
  qed simp
qed

lemma newest_spec:
  "p < kPageCount \<Longrightarrow> decodable dev c p \<Longrightarrow> page_gen dev c p \<le> fst (region_newest dev c)"
  "region_newest dev c = (0, -1) \<or> (\<exists>p<kPageCount. decodable dev c p \<and> region_newest dev c = (page_gen dev c p, int p))"
  using fold_newest(1,3) [where ps = "[0..<kPageCount]" and dev = dev and c = c and ga = "(0, -1)"]
  by (auto simp: region_newest_def)

lemma newest_unique:
  assumes "p < kPageCount" "decodable dev c p" "\<And>q. q < kPageCount \<Longrightarrow> q \<noteq> p \<Longrightarrow> decodable dev c q \<Longrightarrow> page_gen dev c q < page_gen dev c p"
  shows "region_newest dev c = (page_gen dev c p, int p)"
proof -
  have le: "page_gen dev c p \<le> fst (region_newest dev c)" by (rule newest_spec(1) [OF assms(1,2)])
  have "page_gen dev c p \<noteq> 0" by (rule page_gen_pos [OF assms(2)])
  then obtain q where q: "q < kPageCount" "decodable dev c q" "region_newest dev c = (page_gen dev c q, int q)"
    using newest_spec(2) [of dev c] le by fastforce
  then show ?thesis using le assms(3) [of q] by (cases "q = p") auto
qed

section \<open>The ring\<close>

text \<open>Generation \<open>g\<close> is written to page \<open>g - 1\<close> modulo the number of pages, over generation \<open>g - 7\<close>.\<close>

definition ring_place :: "u64 \<Rightarrow> nat" where "ring_place g = (unat g - 1) mod kPageCount"

definition in_ring :: "u64 \<Rightarrow> bytes \<Rightarrow> bool" where
  "in_ring dev c \<longleftrightarrow> (\<forall>p<kPageCount. decodable dev c p \<longrightarrow> ring_place (page_gen dev c p) = p \<and>
     unat (fst (region_newest dev c)) < unat (page_gen dev c p) + kPageCount)"

lemma ring_gens_apart:
  assumes "in_ring dev c" "p < kPageCount" "q < kPageCount" "decodable dev c p" "decodable dev c q" "p \<noteq> q"
  shows "page_gen dev c p \<noteq> page_gen dev c q"
  using assms unfolding in_ring_def by metis

lemma ring_active_newest:
  assumes "in_ring dev c" "region_newest dev c = (g, a)" "0 \<le> a" "q < kPageCount" "decodable dev c q" "int q \<noteq> a"
  shows "page_gen dev c q < g"
proof -
  obtain p where p: "p < kPageCount" "decodable dev c p" "g = page_gen dev c p" "a = int p"
    using newest_spec(2) [of dev c] assms(2,3) by auto
  have "page_gen dev c q \<le> g" using newest_spec(1) [OF assms(4,5)] assms(2) by simp
  moreover have "page_gen dev c q \<noteq> g" using ring_gens_apart [OF assms(1) assms(4) p(1) assms(5) p(2)] p(3,4) assms(6) by auto
  ultimately show ?thesis by simp
qed

text \<open>The page behind the active one holds the oldest generation, if it holds any.\<close>

lemma ring_target_oldest:
  assumes "in_ring dev c" "region_newest dev c = (g, a)" "0 \<le> a" "t = (nat a + 1) mod kPageCount"
    and "decodable dev c t" "q < kPageCount" "decodable dev c q" "q \<noteq> t"
  shows "page_gen dev c t < page_gen dev c q"
proof -
  obtain p where p: "p < kPageCount" "decodable dev c p" "g = page_gen dev c p" "a = int p"
    using newest_spec(2) [of dev c] assms(2,3) by auto
  have t: "t < kPageCount" using assms(4) by (simp add: kPageCount_def)
  have f: "ring_place (page_gen dev c x) = x \<and> unat g < unat (page_gen dev c x) + 7 \<and> unat (page_gen dev c x) \<le> unat g \<and>
      0 < unat (page_gen dev c x)"
    if "x < kPageCount" "decodable dev c x" for x
    using assms(1,2) that newest_spec(1) [OF that] page_gen_pos [OF that(2)]
    by (auto simp: in_ring_def word_le_nat_alt kPageCount_def unat_gt_0)
  have ft: "(unat (page_gen dev c t) - 1) mod 7 = t" "(unat g - 1) mod 7 = p" "(unat (page_gen dev c q) - 1) mod 7 = q"
    using f [OF t assms(5)] f [OF p(1,2)] f [OF assms(6,7)] p(3) by (simp_all add: ring_place_def kPageCount_def)
  have bt: "unat g < unat (page_gen dev c t) + 7" "unat (page_gen dev c t) \<le> unat g" "0 < unat (page_gen dev c t)"
    "unat g < unat (page_gen dev c q) + 7" "0 < unat (page_gen dev c q)"
    using f [OF t assms(5)] f [OF assms(6,7)] by simp_all
  have tm: "t = (p + 1) mod 7" using assms(4) p(4) by (simp add: kPageCount_def)
  have "unat (page_gen dev c t) = unat g - 6"
  proof -
    define d where "d = unat g - unat (page_gen dev c t)"
    define x where "x = unat (page_gen dev c t) - 1"
    have d: "d < 7" "unat g - 1 = x + d" using bt by (auto simp: d_def x_def)
    have "x mod 7 = ((x + d) mod 7 + 1) mod 7" using ft(1,2) tm d(2) by (simp add: x_def)
    then have "d = 6" using d(1) by presburger
    then show ?thesis using d_def bt by linarith
  qed
  moreover have "unat (page_gen dev c t) \<noteq> unat (page_gen dev c q)" using ft(1,3) assms(8) by metis
  ultimately show ?thesis using bt by (simp add: word_less_nat_alt)
qed

section \<open>The records\<close>

definition record_in :: "u64 \<Rightarrow> bytes \<Rightarrow> nat \<Rightarrow> nat \<Rightarrow> JournalRecord \<Rightarrow> bool" where
  "record_in dev c p k r \<longleftrightarrow> p < kPageCount \<and> k < kRecordsPerPage \<and> decodable dev c p \<and> decodeRecord (record_at c p k) dev = Some r"

definition retained :: "u64 \<Rightarrow> bytes \<Rightarrow> JournalRecord list" where
  "retained dev c = concat (map (\<lambda>p. if decodable dev c p
     then List.map_filter (\<lambda>k. decodeRecord (record_at c p k) dev) [0..<kRecordsPerPage] else []) [0..<kPageCount])"

lemma set_map_filter_upt: "r \<in> set (List.map_filter h [0..<n]) \<longleftrightarrow> (\<exists>k<n. h k = Some r)"
  by (force simp: map_filter_def)

lemma retained_iff: "r \<in> set (retained dev c) \<longleftrightarrow> (\<exists>p k. record_in dev c p k r)"
  by (auto simp: retained_def record_in_def set_map_filter_upt split: if_splits)

text \<open>In the order of the pages, and in a page of the slots, identities grow.\<close>

definition orderly :: "u64 \<Rightarrow> bytes \<Rightarrow> bool" where
  "orderly dev c \<longleftrightarrow> (\<forall>p k r p' k' r'. record_in dev c p k r \<and> record_in dev c p' k' r' \<and>
     (page_gen dev c p < page_gen dev c p' \<or> p = p' \<and> k < k') \<longrightarrow> identity r < identity r')"

lemma record_unique:
  assumes "in_ring dev c" "orderly dev c" "record_in dev c p k r" "record_in dev c p' k' r'" "identity r = identity r'"
  shows "p = p'" "k = k'" "r = r'"
proof -
  have o: "record_in dev c x j s \<Longrightarrow> record_in dev c x' j' s' \<Longrightarrow> page_gen dev c x < page_gen dev c x' \<or> x = x' \<and> j < j' \<Longrightarrow>
      identity s < identity s'" for x j s x' j' s'
    using assms(2) unfolding orderly_def by blast
  show p: "p = p'"
  proof (rule ccontr)
    assume "p \<noteq> p'"
    then have "page_gen dev c p \<noteq> page_gen dev c p'"
      using ring_gens_apart [OF assms(1)] assms(3,4) by (auto simp: record_in_def)
    then consider "page_gen dev c p < page_gen dev c p'" | "page_gen dev c p' < page_gen dev c p" by fastforce
    then show False using o [OF assms(3,4)] o [OF assms(4,3)] assms(5) by cases auto
  qed
  show k: "k = k'"
    using o [OF assms(3,4)] o [OF assms(4,3)] assms(5) p by (cases k k' rule: linorder_cases) auto
  show "r = r'" using assms(3,4) p k by (simp add: record_in_def)
qed

lemma blank_no_record: "length x = 36 \<Longrightarrow> blank_slot x \<Longrightarrow> decodeRecord x dev = None"
proof -
  assume l: "length x = 36" and b: "blank_slot x"
  have x: "x = replicate 36 0xFF"
  proof (rule nth_equalityI)
    fix i assume "i < length x"
    then show "x ! i = replicate 36 0xFF ! i" using b l by (simp add: blank_slot_def list_all_length)
  qed (simp add: l)
  have "get32 (replicate 36 0xFF) 32 \<noteq> (0 :: u32)" by code_simp
  then show ?thesis by (simp add: decodeRecord_def sealed_def kCommit_def x)
qed

lemma decoded_identity: "decodeRecord x dev = Some r \<Longrightarrow> identity r \<noteq> 0 \<and> validPacket (packet r) (identity r) dev"
  by (auto simp: decodeRecord_def validPacket_def Let_def split: if_splits option.splits)

text \<open>On an orderly page the index marks exactly the slots that decode.\<close>

lemma rec_index_complete:
  assumes "length (hp_valid g) = 13" "\<forall>k<104. \<not> bitSet (hp_valid g) k" "n \<le> 104"
    and "\<And>k. k < n \<Longrightarrow> blank_slot (f k) \<Longrightarrow> decodeRecord (f k) dev = None"
    and "\<And>k k' r r'. k < k' \<Longrightarrow> k' < n \<Longrightarrow> decodeRecord (f k) dev = Some r \<Longrightarrow> decodeRecord (f k') dev = Some r' \<Longrightarrow> identity r < identity r'"
  shows "k < n \<Longrightarrow> decodeRecord (f k) dev \<noteq> None \<Longrightarrow> bitSet (hp_valid (snd (rec_index dev (map (\<lambda>k. (k, f k)) [0..<n]) (0, g)))) k"
  using assms(3,4,5)
proof (induction n)
  case (Suc n)
  obtain pv pg where r: "rec_index dev (map (\<lambda>k. (k, f k)) [0..<n]) (0, g) = (pv, pg)" by fastforce
  have s: "rec_index dev (map (\<lambda>k. (k, f k)) [0..<Suc n]) (0, g) = rec_index dev [(n, f n)] (pv, pg)"
    by (simp only: upt_Suc_append map_append rec_index_append r) simp
  have n: "n < 104" "n \<le> 104" using Suc.prems by simp_all
  have m: "length (hp_valid pg) = 13" "pv \<noteq> 0 \<Longrightarrow> \<exists>k<n. map_option identity (decodeRecord (f k) dev) = Some pv"
    using rec_index_marked [OF assms(1,2) n(2), where dev = dev and f = f] by (auto simp: r)
  have ih: "k < n \<Longrightarrow> bitSet (hp_valid pg) k"
    using Suc.IH [OF _ Suc.prems(2)] n Suc.prems(4,5) by (auto simp: r)
  show ?case
  proof (cases "decodeRecord (f n) dev")
    case None
    then have "k \<noteq> n" using Suc.prems(2) by auto
    then show ?thesis using ih Suc.prems(1) None unfolding s by simp
  next
    case (Some rec)
    then have nb: "\<not> blank_slot (f n)" using Suc.prems(4) [of n] by auto
    have "\<not> (pv \<noteq> 0 \<and> identity rec \<le> pv)"
    proof
      assume a: "pv \<noteq> 0 \<and> identity rec \<le> pv"
      then obtain j r' where j: "j < n" "decodeRecord (f j) dev = Some r'" "identity r' = pv" using m(2) by auto
      have "identity r' < identity rec" by (intro Suc.prems(5) [OF j(1) _ j(2) Some]) simp
      then show False using a j(3) by (meson leD)
    qed
    then have "hp_valid (snd (rec_index dev [(n, f n)] (pv, pg))) = set_bit_at (hp_valid pg) n" using nb Some by auto
    then show ?thesis unfolding s using bit_set_at [OF m(1) n(1), of k] ih Suc.prems(1) n by (cases "k = n") auto
  qed
qed simp

lemma marked_iff:
  assumes "length c = kHistoryRegion" "orderly dev c" "p < kPageCount" "k < kRecordsPerPage"
  shows "bitSet (hp_valid (page_index dev c p)) k \<longleftrightarrow> (\<exists>r. record_in dev c p k r)"
proof (cases "decodePage (header_at c p) dev")
  case None
  then show ?thesis using assms(4) by (simp add: page_index_def record_in_def decodable_def kRecordsPerPage_def kPageSize_def kPageHeaderSize_def kRecordSize_def)
next
  case (Some gi)
  obtain gen inc where gi: "decodePage (header_at c p) dev = Some (gen, inc)" using Some by (cases gi) auto
  have d: "decodable dev c p" by (simp add: decodable_def gi)
  have n: "kRecordsPerPage = 104" by (simp add: history_layout)
  define g where "g = HistoryPage_init\<lparr>hp_generation := gen,
      hp_sequence_used := fst (slot_index end_of (sequence_slots c p) (0, 0)),
      hp_state_used := fst (slot_index later_state (state_slots c p) (0, JournalState_init))\<rparr>"
  have pi: "page_index dev c p = snd (rec_index dev (map (\<lambda>k. (k, record_at c p k)) [0..<104]) (0, g))"
    by (simp add: page_index_def gi g_def record_slots_def n)
  have g: "length (hp_valid g) = 13" "\<forall>k<104. \<not> bitSet (hp_valid g) k" by (simp_all add: g_def)
  have bl: "blank_slot (record_at c p k) \<Longrightarrow> decodeRecord (record_at c p k) dev = None" if "k < 104" for k
    using blank_no_record slot_lengths(4) [OF assms(1,3)] that by (simp add: n)
  have inc: "k < k' \<Longrightarrow> k' < 104 \<Longrightarrow> decodeRecord (record_at c p k) dev = Some r \<Longrightarrow> decodeRecord (record_at c p k') dev = Some r' \<Longrightarrow>
      identity r < identity r'" for k k' r r'
    using assms(2) [unfolded orderly_def, rule_format, of p k r p k' r'] assms(3) d by (simp add: record_in_def n)
  have "bitSet (hp_valid (page_index dev c p)) k \<longleftrightarrow> decodeRecord (record_at c p k) dev \<noteq> None"
  proof
    show "decodeRecord (record_at c p k) dev \<noteq> None \<Longrightarrow> bitSet (hp_valid (page_index dev c p)) k"
      unfolding pi by (rule rec_index_complete [OF g order_refl bl inc]) (use assms(4) n in auto)
    show "bitSet (hp_valid (page_index dev c p)) k \<Longrightarrow> decodeRecord (record_at c p k) dev \<noteq> None"
      using rec_index_marked [OF g order_refl, where dev = dev and f = "record_at c p"] assms(4) n
      by (auto simp: pi split: prod.splits)
  qed
  then show ?thesis using assms(3,4) d by (auto simp: record_in_def)
qed

end
