(* ===== verification/History_Sound.thy ===== *)
theory History_Sound
  imports History_Map
begin

text \<open>
  What every reset finds in the history region (\<open>firmware/src/history_store.cpp\<close>): cells that recovery
  accepts, whose pages are in the order of the ring, whose records are in order, and whose active page can be
  written on.  Every write of the store, finished or torn, and every erase, finished or torn, keeps them so.
\<close>

definition sound :: "u64 \<Rightarrow> bytes \<Rightarrow> bool" where
  "sound dev c \<longleftrightarrow> length c = kHistoryRegion \<and> (\<exists>inc. inc \<noteq> 0 \<and> recoverable dev inc c) \<and> in_ring dev c \<and> orderly dev c \<and>
     (0 \<le> snd (region_newest dev c) \<longrightarrow> front_filled c (nat (snd (region_newest dev c))))"

lemma sound_length: "sound dev c \<Longrightarrow> length c = kHistoryRegion" by (simp add: sound_def)

section \<open>Uncommitted units\<close>

text \<open>The last word of every unit is its commit word: a unit without it holds nothing.\<close>

definition committed :: "bytes \<Rightarrow> bool" where "committed x \<longleftrightarrow> get32 x (length x - 4) = Journal_Format.kCommit"

lemma uncommitted:
  "length x = 16 \<Longrightarrow> \<not> committed x \<Longrightarrow> decodeSequenceEnd x = None"
  "length x = 32 \<Longrightarrow> \<not> committed x \<Longrightarrow> decodeState x = None"
  "length x = 36 \<Longrightarrow> \<not> committed x \<Longrightarrow> decodeRecord x dev = None"
  "length x = 64 \<Longrightarrow> \<not> committed x \<Longrightarrow> decodePage x dev = None \<and> \<not> old_header x \<and> \<not> newer_header x"
  by (simp_all add: committed_def sealed_def decodeSequenceEnd_def decodeState_def decodeRecord_def decodePage_def
      old_header_def newer_header_def committedPageHeaderEnvelope_def)

section \<open>Metadata\<close>

lemma map_filter_eq: "(\<And>x. x \<in> set xs \<Longrightarrow> f x = g x) \<Longrightarrow> List.map_filter f xs = List.map_filter g xs"
  by (induction xs) (auto simp: map_filter_simps split: option.split)

definition same_records :: "bytes \<Rightarrow> bytes \<Rightarrow> bool" where
  "same_records c d \<longleftrightarrow> (\<forall>p<kPageCount. header_at d p = header_at c p \<and> (\<forall>k<kRecordsPerPage. record_at d p k = record_at c p k))"

lemma same_headers_recoverable:
  "(\<And>p. p < kPageCount \<Longrightarrow> header_at d p = header_at c p) \<Longrightarrow> recoverable dev inc d = recoverable dev inc c"
  by (simp add: recoverable_def same_incarnation_def)

lemma meta_written:
  assumes s: "sound dev c" and len: "length d = length c" and same: "same_records c d"
    and front: "0 \<le> snd (region_newest dev c) \<Longrightarrow> front_filled d (nat (snd (region_newest dev c)))"
  shows "sound dev d" "record_in dev d = record_in dev c" "retained dev d = retained dev c" "region_newest dev d = region_newest dev c"
proof -
  have h: "p < kPageCount \<Longrightarrow> header_at d p = header_at c p" for p using same by (simp add: same_records_def)
  have dec: "p < kPageCount \<Longrightarrow> decodable dev d p = decodable dev c p \<and> page_gen dev d p = page_gen dev c p" for p
    using h by (simp add: decodable_def page_gen_def)
  show n: "region_newest dev d = region_newest dev c" by (rule region_newest_cong) (rule newest_step_header [OF h])
  show r: "record_in dev d = record_in dev c"
    using dec same by (auto simp: fun_eq_iff record_in_def same_records_def)
  have "in_ring dev d" using s dec n by (simp add: sound_def in_ring_def)
  moreover have "orderly dev d"
  proof -
    have "record_in dev c p k r \<Longrightarrow> page_gen dev d p = page_gen dev c p" for p k r using dec by (simp add: record_in_def)
    then show ?thesis using s unfolding orderly_def r sound_def by metis
  qed
  ultimately show "sound dev d"
    using s front same_headers_recoverable [OF h] by (simp add: sound_def len n)
  have "(if decodable dev d p then List.map_filter (\<lambda>k. decodeRecord (record_at d p k) dev) [0..<kRecordsPerPage] else []) =
      (if decodable dev c p then List.map_filter (\<lambda>k. decodeRecord (record_at c p k) dev) [0..<kRecordsPerPage] else [])"
    if "p < kPageCount" for p
    using that dec [OF that] same by (auto simp: same_records_def intro!: map_filter_eq)
  then show "retained dev d = retained dev c"
    unfolding retained_def by (intro arg_cong [where f = concat] map_cong refl) simp
qed

section \<open>A record\<close>

definition only_record :: "bytes \<Rightarrow> bytes \<Rightarrow> nat \<Rightarrow> nat \<Rightarrow> bool" where
  "only_record c d p t \<longleftrightarrow> others_same c d p \<and> header_at d p = header_at c p \<and>
     (\<forall>k<kSequenceSlotsPerPage. sequence_at d p k = sequence_at c p k) \<and>
     (\<forall>k<kStateSlotsPerPage. state_at d p k = state_at c p k) \<and> (\<forall>k<kRecordsPerPage. k \<noteq> t \<longrightarrow> record_at d p k = record_at c p k)"

lemma write_only_record:
  assumes "length x \<le> kRecordSize" "t < kRecordsPerPage"
  shows "only_record c (write_at (recordOffset p t) x c) p t"
  using write_record [OF assms] by (auto simp: only_record_def others_same_def same_page_def)

lemma only_record_front: "only_record c d p t \<Longrightarrow> front_filled d p = front_filled c p"
  using packed_cong [of kSequenceSlotsPerPage "sequence_at d p" "sequence_at c p"]
    packed_cong [of kStateSlotsPerPage "state_at d p" "state_at c p"] by (simp add: only_record_def front_filled_def)

lemma record_written:
  assumes s: "sound dev c" and len: "length d = length c" and p: "p < kPageCount" "region_newest dev c = (g, int p)" "decodable dev c p"
    and t: "hp_records_used (page_index dev c p) = t" "t < kRecordsPerPage" and o: "only_record c d p t"
    and new: "\<forall>r r'. decodeRecord (record_at d p t) dev = Some r \<longrightarrow> r' \<in> set (retained dev c) \<longrightarrow> identity r' < identity r"
  shows "sound dev d" "region_newest dev d = region_newest dev c" "region_end dev d = region_end dev c"
    "region_state dev d = region_state dev c" "live_states dev d = live_states dev c"
    "record_in dev d q k r \<longleftrightarrow> record_in dev c q k r \<or> q = p \<and> k = t \<and> decodeRecord (record_at d p t) dev = Some r"
proof -
  have os: "others_same c d p" and h: "header_at d p = header_at c p" using o by (simp_all add: only_record_def)
  have hq: "header_at d q = header_at c q" if "q < kPageCount" for q
    using os h that by (cases "q = p") (auto simp: others_same_def same_page_def)
  have dec: "q < kPageCount \<Longrightarrow> decodable dev d q = decodable dev c q \<and> page_gen dev d q = page_gen dev c q" for q
    using hq by (simp add: decodable_def page_gen_def)
  obtain gen inc where gi: "decodePage (header_at c p) dev = Some (gen, inc)" using p(3) by (auto simp: decodable_def)
  have b: "k < kRecordsPerPage \<Longrightarrow> t \<le> k \<Longrightarrow> blank_slot (record_at c p k)" for k
    using page_index_decoded(5) [OF gi] t(1) by simp
  have sl: "length c = kHistoryRegion" using s by (simp add: sound_def)
  have n36: "kRecordSize = 36" by (simp add: kRecordSize_def)
  have nb: "decodeRecord (record_at c p k) dev = None" if "k < kRecordsPerPage" "t \<le> k" for k
    using blank_no_record [OF _ b] slot_lengths(4) [OF sl p(1)] that by simp
  show n: "region_newest dev d = region_newest dev c" by (rule newest_others [OF os h])
  have ss: "sequence_slots d p = sequence_slots c p" "state_slots d p = state_slots c p"
    using o slots_eq by (simp_all add: only_record_def)
  have es: "end_step dev d p = end_step dev c p" by (intro ext) (simp only: end_step_def h ss)
  have st: "state_step dev d p = state_step dev c p" by (intro ext) (simp only: state_step_def h ss)
  show "region_end dev d = region_end dev c" by (rule region_end_cong [OF os es])
  show "region_state dev d = region_state dev c" by (rule region_state_cong [OF os st])
  have used: "hp_state_used (page_index dev d q) = hp_state_used (page_index dev c q)" if "q < kPageCount" for q
  proof (cases "q = p")
    case True
    have "decodePage (header_at d p) dev = Some (gen, inc)" by (simp add: h gi)
    then show ?thesis using True by (simp add: page_index_shape gi ss)
  next
    case False
    then show ?thesis using os that page_steps_cong(1) [of c d q dev] by (simp add: others_same_def)
  qed
  have at: "state_at d q k = state_at c q k" if "q < kPageCount" "k < kStateSlotsPerPage" for q k
    using o that by (cases "q = p") (auto simp: only_record_def others_same_def same_page_def)
  have su: "hp_state_used (page_index dev c q) \<le> kStateSlotsPerPage" if "decodable dev c q" for q
    using that page_index_decoded(3) [of c q dev] by (auto simp: decodable_def filled_def)
  have "(if decodable dev d q then map (state_at d q) [0..<hp_state_used (page_index dev d q)] else []) =
      (if decodable dev c q then map (state_at c q) [0..<hp_state_used (page_index dev c q)] else [])" if "q < kPageCount" for q
    using that used [OF that] dec [OF that] at [OF that] su [of q] by auto
  then show "live_states dev d = live_states dev c"
    unfolding live_states_def by (intro arg_cong [where f = concat] map_cong refl) simp
  show ri: "record_in dev d q k r \<longleftrightarrow> record_in dev c q k r \<or> q = p \<and> k = t \<and> decodeRecord (record_at d p t) dev = Some r" for q k r
  proof (cases "q < kPageCount \<and> k < kRecordsPerPage")
    case True
    show ?thesis
    proof (cases "q = p \<and> k = t")
      case True
      then show ?thesis using p t(2) nb [of t] dec by (auto simp: record_in_def)
    next
      case False
      then have "record_at d q k = record_at c q k"
        using o True by (cases "q = p") (auto simp: only_record_def others_same_def same_page_def)
      then show ?thesis using True False dec by (auto simp: record_in_def)
    qed
  qed (use p t in \<open>auto simp: record_in_def\<close>)
  have "in_ring dev d" using s dec n by (simp add: sound_def in_ring_def)
  moreover have "orderly dev d"
    unfolding orderly_def
  proof (intro allI impI, elim conjE)
    fix q k r q' k' r'
    assume a: "record_in dev d q k r" "record_in dev d q' k' r'" and b: "page_gen dev d q < page_gen dev d q' \<or> q = q' \<and> k < k'"
    have lt: "q < kPageCount" "q' < kPageCount" using a by (simp_all add: record_in_def)
    have b: "page_gen dev c q < page_gen dev c q' \<or> q = q' \<and> k < k'" using b dec [OF lt(1)] dec [OF lt(2)] by simp
    have oc: "record_in dev c q k r \<Longrightarrow> record_in dev c q' k' r' \<Longrightarrow> identity r < identity r'"
      using s b unfolding sound_def orderly_def by blast
    consider "record_in dev c q k r" "record_in dev c q' k' r'"
      | "record_in dev c q k r" "q' = p" "k' = t" "decodeRecord (record_at d p t) dev = Some r'"
      | "q = p" "k = t"
      using a ri by blast
    then show "identity r < identity r'"
    proof cases
      case 1
      then show ?thesis by (rule oc)
    next
      case 2
      then show ?thesis using new retained_iff by blast
    next
      case 3
      have "record_in dev c q' k' r' \<or> q' = p \<and> k' = t" using a(2) ri by blast
      moreover have "page_gen dev c q' \<le> page_gen dev c p"
        using newest_spec(1) [OF lt(2), of dev c] newest_spec(2) [of dev c] p a(2) dec [OF lt(2)] by (auto simp: record_in_def)
      ultimately have "record_in dev c p k' r' \<and> t < k'" using b 3 by (auto simp: not_less [symmetric])
      then have False using nb [of k'] by (auto simp: record_in_def)
      then show ?thesis ..
    qed
  qed
  ultimately show "sound dev d"
    using s same_headers_recoverable [OF hq] only_record_front [OF o] p(2) by (simp add: sound_def len n)
qed

text \<open>The index of the page after a record that decodes, newer than all.\<close>

lemma record_indexed:
  assumes s: "sound dev c" and p: "p < kPageCount" "decodable dev c p"
    and t: "hp_records_used (page_index dev c p) = t" "t < kRecordsPerPage" and o: "only_record c d p t"
    and r: "decodeRecord (record_at d p t) dev = Some r" "\<not> blank_slot (record_at d p t)"
    and new: "\<And>r'. r' \<in> set (retained dev c) \<Longrightarrow> identity r' < identity r"
  shows "page_index dev d p = (page_index dev c p)\<lparr>hp_records_used := t + 1,
    hp_valid := set_bit_at (hp_valid (page_index dev c p)) t, hp_records_valid := hp_records_valid (page_index dev c p) + 1\<rparr>"
proof -
  obtain gen inc where gi: "decodePage (header_at c p) dev = Some (gen, inc)" using p(2) by (auto simp: decodable_def)
  have h: "header_at d p = header_at c p" using o by (simp add: only_record_def)
  have ss: "sequence_slots d p = sequence_slots c p" "state_slots d p = state_slots c p"
    using o slots_eq by (simp_all add: only_record_def)
  define g where "g = HistoryPage_init\<lparr>hp_generation := gen,
        hp_sequence_used := fst (slot_index end_of (sequence_slots c p) (0, 0)),
        hp_state_used := fst (slot_index later_state (state_slots c p) (0, JournalState_init))\<rparr>"
  have pi: "page_index dev b p = snd (rec_index dev (record_slots b p) (0, g))" if "b \<in> {c, d}" for b
    using that by (auto simp: page_index_def gi h ss g_def)
  have n: "kRecordsPerPage = 104" by (simp add: history_layout)
  have split: "[0..<kRecordsPerPage] = [0..<t] @ t # [Suc t..<kRecordsPerPage]"
    using t(2) by (metis less_imp_le_nat upt_conv_Cons upt_add_eq_append le_add_diff_inverse le0 add_0)
  have blank: "k < kRecordsPerPage \<Longrightarrow> t \<le> k \<Longrightarrow> blank_slot (record_at c p k)" for k
    using page_index_decoded(5) [OF gi] t(1) by simp
  have eq: "k < kRecordsPerPage \<Longrightarrow> k \<noteq> t \<Longrightarrow> record_at d p k = record_at c p k" for k using o by (simp add: only_record_def)
  obtain pv pg where pre: "rec_index dev (map (\<lambda>k. (k, record_at c p k)) [0..<t]) (0, g) = (pv, pg)" by fastforce
  have rest: "rec_index dev (map (\<lambda>k. (k, record_at b p k)) [Suc t..<kRecordsPerPage]) x = x" if "b \<in> {c, d}" for b x
    using that blank eq by (intro rec_index_blank) auto
  have rs: "record_slots b p = map (\<lambda>k. (k, record_at b p k)) [0..<t] @ [(t, record_at b p t)] @
      map (\<lambda>k. (k, record_at b p k)) [Suc t..<kRecordsPerPage]" for b
    by (simp add: record_slots_def split)
  have "page_index dev c p = snd (rec_index dev [(t, record_at c p t)] (pv, pg))"
    using rest [of c] pi [of c] by (simp only: rs rec_index_append pre) simp
  then have pc: "page_index dev c p = pg" using blank [OF t(2)] by simp
  have "map (\<lambda>k. (k, record_at d p k)) [0..<t] = map (\<lambda>k. (k, record_at c p k)) [0..<t]" using eq t(2) by simp
  then have "rec_index dev (map (\<lambda>k. (k, record_at d p k)) [0..<t]) (0, g) = (pv, pg)" by (simp only: pre)
  then have pd: "page_index dev d p = snd (rec_index dev [(t, record_at d p t)] (pv, pg))"
    using rest [of d] pi [of d] by (simp only: rs rec_index_append) simp
  have gl: "length (hp_valid g) = 13" "\<forall>k<104. \<not> bitSet (hp_valid g) k" by (simp_all add: g_def)
  have "t \<le> 104" using t(2) n by simp
  note m = rec_index_marked [OF gl this, where dev = dev and f = "record_at c p", unfolded pre prod.case]
  have "\<not> (pv \<noteq> 0 \<and> identity r \<le> pv)"
  proof
    assume a: "pv \<noteq> 0 \<and> identity r \<le> pv"
    then obtain k where k: "k < t" "map_option identity (decodeRecord (record_at c p k) dev) = Some pv" using m by blast
    then obtain r' where r': "decodeRecord (record_at c p k) dev = Some r'" "identity r' = pv" by blast
    then have "record_in dev c p k r'" using k(1) p t(2) by (simp add: record_in_def)
    then have "identity r' < identity r" using new retained_iff by blast
    then show False using a r'(2) by (meson leD)
  qed
  then show ?thesis using r by (auto simp: pd pc)
qed

section \<open>A page that is erased\<close>

definition page_fades :: "u64 \<Rightarrow> bytes \<Rightarrow> bytes \<Rightarrow> nat \<Rightarrow> bool" where
  "page_fades dev c d p \<longleftrightarrow> others_same c d p \<and>
     (header_at d p = header_at c p \<or> decodePage (header_at d p) dev = None \<and> \<not> old_header (header_at d p) \<and> \<not> newer_header (header_at d p)) \<and>
     (\<forall>k<kRecordsPerPage. record_at d p k = record_at c p k \<or> decodeRecord (record_at d p k) dev = None)"

lemma page_faded:
  assumes s: "sound dev c" and len: "length d = length c" and p: "p < kPageCount" "int p \<noteq> snd (region_newest dev c)"
    and f: "page_fades dev c d p"
  shows "sound dev d" "region_newest dev d = region_newest dev c" "record_in dev d q k r \<Longrightarrow> record_in dev c q k r"
    "q \<noteq> p \<Longrightarrow> record_in dev d q k r = record_in dev c q k r" "recoverable dev inc c \<Longrightarrow> recoverable dev inc d"
proof -
  have os: "others_same c d p" using f by (simp add: page_fades_def)
  have hq: "header_at d q = header_at c q" if "q < kPageCount" "q \<noteq> p" for q
    using os that by (auto simp: others_same_def same_page_def)
  have dec: "decodable dev d q \<Longrightarrow> header_at d q = header_at c q" if "q < kPageCount" for q
    using f hq [OF that] by (cases "q = p") (auto simp: page_fades_def decodable_def)
  have dec': "decodable dev c q \<and> page_gen dev d q = page_gen dev c q" if "q < kPageCount" "decodable dev d q" for q
    using dec [OF that] that(2) by (simp add: decodable_def page_gen_def)
  show rin: "record_in dev d q k r \<Longrightarrow> record_in dev c q k r" for q k r
    using f dec' [of q] os by (cases "q = p") (auto simp: record_in_def page_fades_def others_same_def same_page_def)
  have same: "q \<noteq> p \<Longrightarrow> q < kPageCount \<Longrightarrow> decodable dev d q = decodable dev c q" for q using hq [of q] by (simp add: decodable_def)
  show "record_in dev d q k r = record_in dev c q k r" if "q \<noteq> p"
    using that os same [OF that] by (auto simp: record_in_def others_same_def same_page_def)
  show rec: "recoverable dev inc d" if "recoverable dev inc c" for inc
    unfolding recoverable_def
  proof (intro allI impI)
    fix q assume q: "q < kPageCount"
    have c: "same_incarnation dev inc c q \<and> \<not> old_header (header_at c q) \<and> \<not> newer_header (header_at c q)"
      using that q by (simp add: recoverable_def)
    have "header_at d q = header_at c q \<or> decodePage (header_at d q) dev = None \<and> \<not> old_header (header_at d q) \<and> \<not> newer_header (header_at d q)"
      using f hq [OF q] by (cases "q = p") (auto simp: page_fades_def)
    then show "same_incarnation dev inc d q \<and> \<not> old_header (header_at d q) \<and> \<not> newer_header (header_at d q)"
      using c by (auto simp: same_incarnation_def)
  qed
  have ring: "in_ring dev c" and ord: "orderly dev c" using s by (simp_all add: sound_def)
  obtain g a where ga: "region_newest dev c = (g, a)" by fastforce
  show n: "region_newest dev d = region_newest dev c"
  proof (cases "\<exists>b<kPageCount. decodable dev c b \<and> region_newest dev c = (page_gen dev c b, int b)")
    case True
    then obtain b where b: "b < kPageCount" "decodable dev c b" "region_newest dev c = (page_gen dev c b, int b)" by blast
    have bp: "b \<noteq> p" using p(2) b(3) by auto
    then have db: "decodable dev d b" "page_gen dev d b = page_gen dev c b"
      using same [OF bp b(1)] b dec' [OF b(1)] by simp_all
    have "region_newest dev d = (page_gen dev d b, int b)"
    proof (rule newest_unique [OF b(1) db(1)])
      fix q assume q: "q < kPageCount" "q \<noteq> b" "decodable dev d q"
      show "page_gen dev d q < page_gen dev d b"
        using ring_active_newest [OF ring b(3), of q] dec' [OF q(1,3)] q(1,2) db(2) by simp
    qed
    then show ?thesis using b(3) db(2) by simp
  next
    case False
    then have z: "region_newest dev c = (0, -1)" using newest_spec(2) by blast
    then have "\<forall>q<kPageCount. decodePage (header_at c q) dev = None" using region_newest_none [of dev c] by simp
    then have "\<not> decodable dev d q" if "q < kPageCount" for q using dec' [OF that] that by (auto simp: decodable_def)
    then show ?thesis using newest_spec(2) [of dev d] z by auto
  qed
  have "in_ring dev d"
    unfolding in_ring_def n
  proof (intro allI impI)
    fix q assume q: "q < kPageCount" "decodable dev d q"
    show "ring_place (page_gen dev d q) = q \<and> unat (fst (region_newest dev c)) < unat (page_gen dev d q) + kPageCount"
      using ring q(1) dec' [OF q] by (simp add: in_ring_def)
  qed
  moreover have "orderly dev d"
    unfolding orderly_def
  proof (intro allI impI, elim conjE)
    fix q k r q' k' r'
    assume a: "record_in dev d q k r" "record_in dev d q' k' r'" and b: "page_gen dev d q < page_gen dev d q' \<or> q = q' \<and> k < k'"
    have "page_gen dev d q = page_gen dev c q" "page_gen dev d q' = page_gen dev c q'" using a dec' by (auto simp: record_in_def)
    then show "identity r < identity r'" using ord rin [OF a(1)] rin [OF a(2)] b unfolding orderly_def by metis
  qed
  moreover have "0 \<le> snd (region_newest dev c) \<longrightarrow> front_filled d (nat (snd (region_newest dev c)))"
  proof
    assume a: "0 \<le> snd (region_newest dev c)"
    then obtain b where b: "b < kPageCount" "region_newest dev c = (page_gen dev c b, int b)" using newest_spec(2) [of dev c] by auto
    then have "same_page c d b" using os p(2) by (auto simp: others_same_def)
    then show "front_filled d (nat (snd (region_newest dev c)))" using front_filled_same [of c d b] s b a by (simp add: sound_def)
  qed
  ultimately show "sound dev d" using s rec by (auto simp: sound_def len n)
qed

section \<open>A page header\<close>

lemma decoded_current: "decodePage x dev \<noteq> None \<Longrightarrow> \<not> old_header x \<and> \<not> newer_header x"
  by (auto simp: decodePage_def old_header_def newer_header_def kVersion_def split: if_splits)

text \<open>An erased page has blank slots only.\<close>

definition blank_page :: "bytes \<Rightarrow> nat \<Rightarrow> bool" where
  "blank_page c p \<longleftrightarrow> (\<forall>k<kSequenceSlotsPerPage. blank_slot (sequence_at c p k)) \<and>
     (\<forall>k<kStateSlotsPerPage. blank_slot (state_at c p k)) \<and> (\<forall>k<kRecordsPerPage. blank_slot (record_at c p k))"

definition only_header :: "bytes \<Rightarrow> bytes \<Rightarrow> nat \<Rightarrow> bool" where
  "only_header c d p \<longleftrightarrow> others_same c d p \<and> (\<forall>k<kSequenceSlotsPerPage. sequence_at d p k = sequence_at c p k) \<and>
     (\<forall>k<kStateSlotsPerPage. state_at d p k = state_at c p k) \<and> (\<forall>k<kRecordsPerPage. record_at d p k = record_at c p k)"

lemma filled_blank: "\<forall>k<n. blank_slot (f k) \<Longrightarrow> filled f n 0" by (auto simp: filled_def)

lemma blank_page_index:
  assumes "blank_page c p" "decodePage (header_at c p) dev = Some (gen, inc)"
  shows "page_index dev c p = HistoryPage_init\<lparr>hp_generation := gen\<rparr>"
proof -
  have "snd (rec_index dev (record_slots c p) (0, g)) = g" for g
    using assms(1) by (subst rec_index_blank) (auto simp: record_slots_def blank_page_def)
  moreover have "fst (slot_index end_of (sequence_slots c p) (0, 0)) = 0"
    unfolding sequence_slots_def using assms(1) by (subst slot_index_filled [OF filled_blank]) (auto simp: blank_page_def)
  moreover have "fst (slot_index later_state (state_slots c p) (0, JournalState_init)) = 0"
    unfolding state_slots_def using assms(1) by (subst slot_index_filled [OF filled_blank]) (auto simp: blank_page_def)
  ultimately show ?thesis by (simp add: page_index_def assms(2) HistoryPage_init_def)
qed

lemma header_written:
  assumes s: "sound dev c" and len: "length d = length c" and p: "p < kPageCount" "int p \<noteq> snd (region_newest dev c)"
    and bl: "blank_page c p" "\<not> decodable dev c p" and o: "only_header c d p"
    and out: "\<not> committed (header_at d p) \<or> header_at d p = encodePage n dev inc (replicate 64 0)"
    and n: "n = fst (region_newest dev c) + 1" "n \<noteq> 0" "ring_place n = p" and inc: "inc \<noteq> 0" "recoverable dev inc c"
  shows "sound dev d" "record_in dev d = record_in dev c" "recoverable dev inc d"
    "decodable dev d p \<Longrightarrow> region_newest dev d = (n, int p) \<and> page_index dev d p = HistoryPage_init\<lparr>hp_generation := n\<rparr>"
    "header_at d p = encodePage n dev inc (replicate 64 0) \<Longrightarrow> decodable dev d p"
    "\<not> decodable dev d p \<Longrightarrow> region_newest dev d = region_newest dev c"
proof -
  have os: "others_same c d p" using o by (simp add: only_header_def)
  have sc: "length c = kHistoryRegion" "in_ring dev c" "orderly dev c" using s by (simp_all add: sound_def)
  have hl: "length (header_at d p) = 64" by (rule slot_lengths(1)) (use len sc p in simp_all)
  have rt: "decodePage (encodePage n dev inc (replicate 64 0)) dev = Some (n, inc)" by (rule page_roundtrip) (use n inc in simp_all)
  then show dd: "header_at d p = encodePage n dev inc (replicate 64 0) \<Longrightarrow> decodable dev d p" by (simp add: decodable_def)
  have xd: "decodable dev d p \<Longrightarrow> decodePage (header_at d p) dev = Some (n, inc)"
    using out uncommitted(4) [OF hl] rt by (auto simp: decodable_def)
  have clean: "\<not> old_header (header_at d p) \<and> \<not> newer_header (header_at d p)"
    using out uncommitted(4) [OF hl] decoded_current [of "header_at d p" dev] rt by auto
  have hq: "header_at d q = header_at c q" if "q < kPageCount" "q \<noteq> p" for q
    using os that by (auto simp: others_same_def same_page_def)
  have dq: "decodable dev d q = decodable dev c q \<and> page_gen dev d q = page_gen dev c q" if "q < kPageCount" "q \<noteq> p" for q
    using hq [OF that] by (simp add: decodable_def page_gen_def)
  have bd: "blank_page d p" using bl(1) o by (simp add: blank_page_def only_header_def)
  have dl: "length d = kHistoryRegion" using len sc by simp
  have norec: "\<not> record_in dev d p k r" "\<not> record_in dev c p k r" for k r
    using blank_no_record slot_lengths(4) [OF dl p(1)] bd bl(2)
    by (auto simp: record_in_def blank_page_def)
  show ri: "record_in dev d = record_in dev c"
  proof (intro ext)
    fix q k r
    show "record_in dev d q k r = record_in dev c q k r"
      using norec dq [of q] os by (cases "q = p") (auto simp: record_in_def others_same_def same_page_def)
  qed
  show rec: "recoverable dev inc d"
    unfolding recoverable_def
  proof (intro allI impI)
    fix q assume q: "q < kPageCount"
    show "same_incarnation dev inc d q \<and> \<not> old_header (header_at d q) \<and> \<not> newer_header (header_at d q)"
    proof (cases "q = p")
      case True
      then show ?thesis using clean xd by (auto simp: same_incarnation_def decodable_def)
    next
      case False
      then show ?thesis using inc(2) q hq [OF q False] by (simp add: recoverable_def same_incarnation_def)
    qed
  qed
  have ord: "orderly dev d" unfolding orderly_def
  proof (intro allI impI, elim conjE)
    fix q k r q' k' r'
    assume a: "record_in dev d q k r" "record_in dev d q' k' r'" and b: "page_gen dev d q < page_gen dev d q' \<or> q = q' \<and> k < k'"
    have "q \<noteq> p" "q' \<noteq> p" using a norec by auto
    then have "page_gen dev d q = page_gen dev c q" "page_gen dev d q' = page_gen dev c q'"
      using a dq by (auto simp: record_in_def)
    then show "identity r < identity r'" using sc(3) a b unfolding ri orderly_def by metis
  qed
  have old: "ring_place (page_gen dev c q) = q" "unat (fst (region_newest dev c)) < unat (page_gen dev c q) + 7"
    "unat (page_gen dev c q) \<le> unat (fst (region_newest dev c))" "0 < unat (page_gen dev c q)"
    if "q < kPageCount" "decodable dev c q" for q
    using sc(2) that newest_spec(1) [OF that] page_gen_pos [OF that(2)]
    by (auto simp: in_ring_def kPageCount_def word_le_nat_alt unat_gt_0)
  have un: "unat n = Suc (unat (fst (region_newest dev c)))" using n(1,2) unatSuc [of "fst (region_newest dev c)"] by (simp add: add.commute)
  show nw: "region_newest dev d = (n, int p) \<and> page_index dev d p = HistoryPage_init\<lparr>hp_generation := n\<rparr>" if "decodable dev d p"
  proof
    have g: "page_gen dev d p = n" using xd [OF that] by (simp add: page_gen_def)
    have "region_newest dev d = (page_gen dev d p, int p)"
    proof (rule newest_unique [OF p(1) that])
      fix q assume q: "q < kPageCount" "q \<noteq> p" "decodable dev d q"
      then show "page_gen dev d q < page_gen dev d p"
        using old(3) [of q] dq [OF q(1,2)] un g by (simp add: word_less_nat_alt)
    qed
    then show "region_newest dev d = (n, int p)" by (simp add: g)
    show "page_index dev d p = HistoryPage_init\<lparr>hp_generation := n\<rparr>" by (rule blank_page_index [OF bd xd [OF that]])
  qed
  show same: "region_newest dev d = region_newest dev c" if "\<not> decodable dev d p"
  proof (rule region_newest_cong)
    fix q assume q: "q < kPageCount"
    show "newest_step dev d q = newest_step dev c q"
    proof (cases "q = p")
      case True
      have "decodePage (header_at d p) dev = None" "decodePage (header_at c p) dev = None"
        using that bl(2) by (simp_all only: decodable_def not_not)
      then show ?thesis using True by (simp add: fun_eq_iff newest_step_def)
    next
      case False
      then show ?thesis using newest_step_header [OF hq [OF q False]] by simp
    qed
  qed
  show "sound dev d"
  proof (cases "decodable dev d p")
    case True
    have "in_ring dev d" unfolding in_ring_def
    proof (intro allI impI)
      fix q assume q: "q < kPageCount" "decodable dev d q"
      show "ring_place (page_gen dev d q) = q \<and> unat (fst (region_newest dev d)) < unat (page_gen dev d q) + kPageCount"
      proof (cases "q = p")
        case True
        then show ?thesis using xd q(2) n(3) nw by (simp add: page_gen_def kPageCount_def)
      next
        case False
        then have q': "decodable dev c q" "page_gen dev d q = page_gen dev c q" using q dq by auto
        have "unat (page_gen dev c q) \<noteq> unat (fst (region_newest dev c)) - 6"
        proof
          assume e: "unat (page_gen dev c q) = unat (fst (region_newest dev c)) - 6"
          have "(unat n - 1) mod 7 = p" "(unat (page_gen dev c q) - 1) mod 7 = q"
            using n(3) old(1) [OF q(1) q'(1)] by (simp_all add: ring_place_def kPageCount_def)
          moreover have "unat n - 1 = (unat (page_gen dev c q) - 1) + 7" using e un old(4) [OF q(1) q'(1)] by linarith
          ultimately show False using False by (metis mod_add_self2)
        qed
        then show ?thesis using old [OF q(1) q'(1)] q'(2) nw [OF True] un by (simp add: kPageCount_def)
      qed
    qed
    moreover have "front_filled d p"
      using bd by (auto simp: front_filled_def packed_def blank_page_def)
    ultimately show ?thesis using rec inc(1) ord nw [OF True] dl by (auto simp: sound_def)
  next
    case False
    have "in_ring dev d" unfolding in_ring_def same [OF False]
    proof (intro allI impI)
      fix q assume q: "q < kPageCount" "decodable dev d q"
      then have "q \<noteq> p" using False by auto
      then show "ring_place (page_gen dev d q) = q \<and> unat (fst (region_newest dev c)) < unat (page_gen dev d q) + kPageCount"
        using q dq [of q] sc(2) by (simp add: in_ring_def)
    qed
    moreover have "0 \<le> snd (region_newest dev c) \<longrightarrow> front_filled d (nat (snd (region_newest dev c)))"
    proof
      assume a: "0 \<le> snd (region_newest dev c)"
      then obtain b where b: "b < kPageCount" "region_newest dev c = (page_gen dev c b, int b)" using newest_spec(2) [of dev c] by auto
      then have "same_page c d b" using os p(2) by (auto simp: others_same_def)
      then show "front_filled d (nat (snd (region_newest dev c)))" using front_filled_same [of c d b] s b a by (simp add: sound_def)
    qed
    ultimately show ?thesis using rec inc(1) ord same [OF False] dl by (auto simp: sound_def)
  qed
qed

end
