(* ===== verification/History_Flash.thy ===== *)
theory History_Flash
  imports History_Sound
begin

text \<open>
  \<open>firmware/src/nrf_history_flash.cpp\<close>: the board's synchronous driver of the history region, the contract
  the history store relies on, and one sealed unit written to it.  The driver object, the vendor calls and
  the board facts are those of the geofence driver.
\<close>

section \<open>The driver\<close>

type_synonym NrfHistoryFlash = NrfGeofenceFlash

definition kRegionSize :: nat where "kRegionSize = kPageSize * kPageCount"

definition nhf_inBounds :: "nat \<Rightarrow> nat \<Rightarrow> bool" where
  "nhf_inBounds offset n \<longleftrightarrow> offset \<le> kRegionSize \<and> n \<le> kRegionSize - offset"

definition nhf_begin :: "NrfHistoryFlash \<Rightarrow> NrfHistoryFlash \<times> bool" where
  "nhf_begin f = (let ok = nf_layout_ok f \<and> \<not> nf_softdevice_enabled f in (f\<lparr>nf_ready := ok\<rparr>, ok))"

definition nhf_read :: "NrfHistoryFlash \<Rightarrow> nat \<Rightarrow> nat \<Rightarrow> bytes option" where
  "nhf_read f offset n =
     (if \<not> nf_ready f \<or> \<not> nhf_inBounds offset n then None else Some (slice offset n (nf_cells f)))"

definition nhf_program :: "NrfHistoryFlash \<Rightarrow> nat \<Rightarrow> bytes \<Rightarrow> NrfHistoryFlash \<times> FlashOpResult" where
  "nhf_program f offset data =
     (let n = length data in
      if \<not> nf_ready f \<or> n = 0 \<or> \<not> nhf_inBounds offset n \<or> offset mod 4 \<noteq> 0 \<or> n mod 4 \<noteq> 0 \<or>
         n > kPageHeaderSize \<or> n > kPageSize - offset mod kPageSize then (f, kFailed)
      else if nf_softdevice_enabled f then (f, kFailed)
      else if list_ex (\<lambda>i. nf_cells f ! (offset + i) \<noteq> 0xFF) [0..<n] then (f, kFailed)
      else
        let (c, ok) = sd_flash_write (nf_sd f) (nf_cells f) offset data; f' = f\<lparr>nf_cells := c\<rparr> in
        if \<not> ok then (f', kFailed)
        else (f', if slice offset n c = data then kDone else kFailed))"

definition nhf_erasePage :: "NrfHistoryFlash \<Rightarrow> nat \<Rightarrow> NrfHistoryFlash \<times> FlashOpResult" where
  "nhf_erasePage f page =
     (if \<not> nf_ready f \<or> page \<ge> kPageCount \<or> nf_softdevice_enabled f then (f, kFailed)
      else
        let (c, ok) = sd_flash_page_erase (nf_sd f) (nf_cells f) page; f' = f\<lparr>nf_cells := c\<rparr> in
        if \<not> ok then (f', kFailed)
        else if list_ex (\<lambda>i. c ! (page * kPageSize + i) \<noteq> 0xFF) [0..<kPageSize] then (f', kFailed)
        else (f', kDone))"

text \<open>\<open>pollPending\<close> and \<open>hasUnreconciledMutation\<close> are the base-class defaults.\<close>

definition nhf_ops :: "NrfHistoryFlash FlashBackend" where
  "nhf_ops = \<lparr>fb_begin = nhf_begin, fb_read = nhf_read, fb_program = nhf_program, fb_erasePage = nhf_erasePage,
     fb_pollPending = (\<lambda>f. (f, kFailed)), fb_hasUnreconciledMutation = (\<lambda>f. False)\<rparr>"

lemma nhf_driver: "nhf_ops = driver 7 352"
proof -
  have "nhf_program = driver_program 7 352"
    by (auto simp: fun_eq_iff nhf_program_def driver_program_def nhf_inBounds_def in_region_def kRegionSize_def
        kPageCount_def kPageHeaderSize_def Let_def mult.commute split: prod.split)
  moreover have "nhf_erasePage = driver_erase 7"
    by (auto simp: fun_eq_iff nhf_erasePage_def driver_erase_def kPageCount_def Let_def list_ex_iff list_all_iff
        split: prod.split)
  ultimately show ?thesis
    by (auto simp: nhf_ops_def driver_def fun_eq_iff nhf_begin_def nrf_begin_def nhf_read_def nhf_inBounds_def
        in_region_def kRegionSize_def kPageCount_def mult.commute)
qed

section \<open>Erasing forges nothing\<close>

text \<open>The sealed units of a page: header, reservations, delivery states and records, with their sizes.\<close>

definition page_units :: "nat \<Rightarrow> (nat \<times> nat) list" where
  "page_units p = (pageOffset p, kStaticHeaderSize) #
     map (\<lambda>k. (sequenceOffset p k, kSequenceSlotSize)) [0..<kSequenceSlotsPerPage] @
     map (\<lambda>k. (stateOffset p k, kStateSlotSize)) [0..<kStateSlotsPerPage] @
     map (\<lambda>k. (recordOffset p k, kRecordSize)) [0..<kRecordsPerPage]"

text \<open>
  What the checksums are there for: an erase of a page, however it ends, leaves each unit of it as it was or
  no longer sealed.
\<close>

definition fades :: "bytes \<Rightarrow> bytes \<Rightarrow> nat \<Rightarrow> bool" where
  "fades c d p \<longleftrightarrow> list_all (\<lambda>(off, n). slice off n d = slice off n c \<or> \<not> sealed (slice off n d) (n - 8) (n - 4)) (page_units p)"

definition erase_forges_nothing :: "softdevice \<Rightarrow> bool" where
  "erase_forges_nothing sd \<longleftrightarrow> (\<forall>c p. length c = kHistoryRegion \<and> p < kPageCount \<longrightarrow> fades c (fst (sd_flash_page_erase sd c p)) p)"

lemma fades_refl: "fades c c p" by (simp add: fades_def list_all_iff)

lemma unsealed:
  "\<not> sealed x 56 60 \<Longrightarrow> decodePage x dev = None \<and> \<not> old_header x \<and> \<not> newer_header x"
  "\<not> sealed x 28 32 \<Longrightarrow> decodeRecord x dev = None"
  by (auto simp: decodePage_def decodeRecord_def old_header_def newer_header_def committedPageHeaderEnvelope_def sealed_def)

lemma fades_page:
  assumes "fades c d p" "others_same c d p"
  shows "page_fades dev c d p"
proof -
  have "(off, n) \<in> set (page_units p) \<Longrightarrow> slice off n d = slice off n c \<or> \<not> sealed (slice off n d) (n - 8) (n - 4)" for off n
    using assms(1) unfolding fades_def list_all_iff by fastforce
  note u = this
  have "(pageOffset p, kStaticHeaderSize) \<in> set (page_units p)" by (simp add: page_units_def)
  from u [OF this] have h: "header_at d p = header_at c p \<or> \<not> sealed (header_at d p) 56 60"
    by (simp add: header_at_def kStaticHeaderSize_def)
  have r: "record_at d p k = record_at c p k \<or> \<not> sealed (record_at d p k) 28 32" if "k < kRecordsPerPage" for k
  proof -
    have "(recordOffset p k, kRecordSize) \<in> set (page_units p)" using that by (simp add: page_units_def)
    from u [OF this] show ?thesis by (simp add: record_at_def kRecordSize_def)
  qed
  show ?thesis unfolding page_fades_def
  proof (intro conjI allI impI)
    show "others_same c d p" by (rule assms(2))
    show "header_at d p = header_at c p \<or> decodePage (header_at d p) dev = None \<and> \<not> old_header (header_at d p) \<and> \<not> newer_header (header_at d p)"
      using h unsealed(1) [of "header_at d p" dev] by (elim disjE) simp_all
    show "record_at d p k = record_at c p k \<or> decodeRecord (record_at d p k) dev = None" if "k < kRecordsPerPage" for k
      using r [OF that] unsealed(2) [of "record_at d p k" dev] by (elim disjE) simp_all
  qed
qed

section \<open>The contract\<close>

locale journal_flash = flash_contract ops wf cells "\<lambda>_. None" kHistoryRegion
  for ops :: "'f FlashBackend" and wf cells +
  fixes readable :: "'f \<Rightarrow> bool"
  assumes read_ok: "wf f \<Longrightarrow> readable f \<Longrightarrow> off + n \<le> kHistoryRegion \<Longrightarrow> fb_read ops f off n = Some (slice off n (cells f))"
    and begin_readable: "fb_begin ops f = (f', True) \<Longrightarrow> readable f'"
    and program_readable: "readable f \<Longrightarrow> readable (fst (fb_program ops f off data))"
    and erase_readable: "readable f \<Longrightarrow> readable (fst (fb_erasePage ops f p))"
    and program_sync: "snd (fb_program ops f off data) \<noteq> kPending"
    and erase_sync: "snd (fb_erasePage ops f p) \<noteq> kPending"
    and erase_fades: "wf f \<Longrightarrow> p < kPageCount \<Longrightarrow> fades (cells f) (cells (fst (fb_erasePage ops f p))) p"

definition nhf_wf :: "NrfHistoryFlash \<Rightarrow> bool" where
  "nhf_wf f \<longleftrightarrow> driver_wf 7 f \<and> erase_forges_nothing (nf_sd f)"

lemma contract_strengthen:
  assumes c: "flash_contract ops w cells pd n"
    and q: "\<And>f. Q f \<Longrightarrow> Q (fst (fb_begin ops f))" "\<And>f off data. Q f \<Longrightarrow> Q (fst (fb_program ops f off data))"
    "\<And>f p. Q f \<Longrightarrow> Q (fst (fb_erasePage ops f p))" "\<And>f. Q f \<Longrightarrow> Q (fst (fb_pollPending ops f))"
  shows "flash_contract ops (\<lambda>f. w f \<and> Q f) cells pd n"
proof (rule flash_contract.intro; elim conjE)
  fix f f' off data r i p bs k
  assume w: "w f" and qf: "Q f"
  note k = flash_contract.begin_wf [OF c w] flash_contract.program_wf [OF c w] flash_contract.erase_wf [OF c w] flash_contract.poll_wf [OF c w]
  show "w (fst (fb_begin ops f)) \<and> Q (fst (fb_begin ops f))" "w (fst (fb_program ops f off data)) \<and> Q (fst (fb_program ops f off data))"
    "w (fst (fb_erasePage ops f p)) \<and> Q (fst (fb_erasePage ops f p))" "w (fst (fb_pollPending ops f)) \<and> Q (fst (fb_pollPending ops f))"
    using k q qf by simp_all
  show "length (cells f) = n" "cells (fst (fb_begin ops f)) = cells f"
    by (rule flash_contract.cells_length [OF c w], rule flash_contract.begin_cells [OF c w])
  show "fb_read ops f off k = Some bs \<Longrightarrow> off + k \<le> n \<and> bs = slice off k (cells f)"
    by (rule flash_contract.read_cells [OF c w])
  show "fb_program ops f off data = (f', kDone) \<Longrightarrow> off + length data \<le> n \<and> cells f' = write_at off data (cells f)"
    by (rule flash_contract.program_done [OF c w])
  show "fb_program ops f off data = (f', r) \<Longrightarrow> i < off \<or> off + length data \<le> i \<Longrightarrow> i < n \<Longrightarrow> cells f' ! i = cells f ! i"
    by (rule flash_contract.program_frame [OF c w])
  show "fb_program ops f off data = (f', kPending) \<Longrightarrow> pd f' = Some (off, data)" by (rule flash_contract.program_pending [OF c w])
  show "fb_erasePage ops f p = (f', kDone) \<Longrightarrow> p * kPageSize + kPageSize \<le> n \<and>
      cells f' = write_at (p * kPageSize) (replicate kPageSize 0xFF) (cells f)" by (rule flash_contract.erase_done [OF c w])
  show "fb_erasePage ops f p = (f', r) \<Longrightarrow> i < p * kPageSize \<or> p * kPageSize + kPageSize \<le> i \<Longrightarrow> i < n \<Longrightarrow>
      cells f' ! i = cells f ! i" by (rule flash_contract.erase_frame [OF c w])
  show "fb_erasePage ops f p = (f', kPending) \<Longrightarrow> pd f' = Some (p * kPageSize, replicate kPageSize 0xFF)"
    by (rule flash_contract.erase_pending [OF c w])
  show "fb_pollPending ops f = (f', kDone) \<Longrightarrow> pd f = Some (off, data) \<Longrightarrow>
      off + length data \<le> n \<and> cells f' = write_at off data (cells f)" by (rule flash_contract.poll_done [OF c w])
  show "fb_pollPending ops f = (f', r) \<Longrightarrow> pd f = Some (off, data) \<Longrightarrow> i < off \<or> off + length data \<le> i \<Longrightarrow> i < n \<Longrightarrow>
      cells f' ! i = cells f ! i" by (rule flash_contract.poll_frame [OF c w])
  show "fb_pollPending ops f = (f', kPending) \<Longrightarrow> pd f' = pd f" by (rule flash_contract.poll_pending [OF c w])
qed

lemma driver_keeps_sd:
  "nf_sd (fst (fb_begin (driver m cap) f)) = nf_sd f" "nf_sd (fst (fb_program (driver m cap) f off data)) = nf_sd f"
  "nf_sd (fst (fb_erasePage (driver m cap) f p)) = nf_sd f" "nf_sd (fst (fb_pollPending (driver m cap) f)) = nf_sd f"
  "nf_ready (fst (fb_program (driver m cap) f off data)) = nf_ready f" "nf_ready (fst (fb_erasePage (driver m cap) f p)) = nf_ready f"
  by (simp_all add: driver_def nrf_begin_def driver_program_def driver_erase_def Let_def split: prod.split)

lemma history_region: "7 * kPageSize = kHistoryRegion" by (simp add: history_layout)

interpretation nhf_base: flash_contract nhf_ops nhf_wf nf_cells "\<lambda>_. None" kHistoryRegion
  unfolding nhf_driver nhf_wf_def [abs_def] history_region [symmetric]
  by (rule contract_strengthen [OF driver_contract]) (simp_all add: driver_keeps_sd)

interpretation nhf: journal_flash nhf_ops nhf_wf nf_cells nf_ready
proof unfold_locales
  show "nf_ready f \<Longrightarrow> off + n \<le> kHistoryRegion \<Longrightarrow> fb_read nhf_ops f off n = Some (slice off n (nf_cells f))" for f off n
    by (simp add: nhf_driver driver_def in_region_def history_region)
  show "fb_begin nhf_ops f = (f', True) \<Longrightarrow> nf_ready f'" for f f'
    by (auto simp: nhf_driver driver_def nrf_begin_def Let_def)
  show "nf_ready f \<Longrightarrow> nf_ready (fst (fb_program nhf_ops f off data))" "nf_ready f \<Longrightarrow> nf_ready (fst (fb_erasePage nhf_ops f p))"
    for f off data p by (simp_all add: nhf_driver driver_keeps_sd)
  show "snd (fb_program nhf_ops f off data) \<noteq> kPending" for f off data
    by (cases rule: driver_program_cases [of 7 352 f off data]) (simp_all add: nhf_driver driver_def)
  show "snd (fb_erasePage nhf_ops f p) \<noteq> kPending" for f p
    by (cases rule: driver_erase_cases [of 7 f p]) (simp_all add: nhf_driver driver_def)
  show "fades (nf_cells f) (nf_cells (fst (fb_erasePage nhf_ops f p))) p" if "nhf_wf f" "p < kPageCount" for f p
  proof (cases rule: driver_erase_cases [of 7 f p])
    case 1
    then show ?thesis by (simp add: nhf_driver driver_def fades_refl)
  next
    case (2 r)
    then show ?thesis using that
      by (simp add: nhf_driver driver_def nhf_wf_def erase_forges_nothing_def driver_wf_def history_region)
  qed
qed

end
