(* ===== verification/History_Blob.thy ===== *)
theory History_Blob
  imports History_Flash
begin

text \<open>
  One sealed unit written by \<open>writeBlob\<close> of \<open>firmware/src/history_store.cpp\<close>: body, then commit word.  However
  it ends, the unit holds the whole blob or is not committed.
\<close>

lemma get32_commit:
  assumes "length x = n" "4 \<le> n"
  shows "committed x \<longleftrightarrow> slice (n - 4) 4 x = replicate 4 0"
proof -
  have "get32 x (n - 4) = be_val (slice (n - 4) 4 x)" using assms by (simp add: get32_eq)
  moreover have "be_val (slice (n - 4) 4 x) = (0 :: u32) \<longleftrightarrow> slice (n - 4) 4 x = replicate 4 0"
    using be_val_inj [where 'a = 32, of "slice (n - 4) 4 x" 4 "replicate 4 0"] assms be_val_zero [where 'a = 32, of 4] by simp
  ultimately show ?thesis using assms by (simp add: committed_def Journal_Format.kCommit_def)
qed

context journal_flash begin

lemma unit_write:
  assumes wf: "wf f" "readable f" and b: "length b = n" "4 \<le> n" "committed b" and off: "off + n \<le> kHistoryRegion"
    and old: "\<not> committed (slice off n (cells f))"
    and p1: "fb_program ops f off (take (n - 4) b) = (f1, r1)"
  shows "wf f1" "readable f1" "r1 \<noteq> kPending"
    "r1 \<noteq> kDone \<Longrightarrow> \<exists>x. length x = n \<and> \<not> committed x \<and> cells f1 = write_at off x (cells f)"
    "r1 = kDone \<Longrightarrow> fb_program ops f1 (off + n - 4) (slice (n - 4) 4 b) = (f2, r2) \<Longrightarrow>
      wf f2 \<and> readable f2 \<and> r2 \<noteq> kPending \<and>
      (\<exists>x. length x = n \<and> (x = b \<or> \<not> committed x \<and> r2 \<noteq> kDone) \<and> cells f2 = write_at off x (cells f))"
proof -
  have len: "length (cells f) = kHistoryRegion" by (rule cells_length [OF wf(1)])
  show w1: "wf f1" "readable f1" "r1 \<noteq> kPending"
    using program_wf [OF wf(1)] program_readable [OF wf(2)] program_sync p1 by (metis fst_conv, metis fst_conv, metis snd_conv)
  have l1: "length (cells f1) = kHistoryRegion" by (rule cells_length [OF w1(1)])
  have frame1: "i < off \<or> off + (n - 4) \<le> i \<Longrightarrow> i < kHistoryRegion \<Longrightarrow> cells f1 ! i = cells f ! i" for i
    using program_frame [OF wf(1) p1, of i] b by simp
  have whole: "d = write_at off (slice off n d) (cells f)"
    if "length d = kHistoryRegion" "\<And>i. i < off \<or> off + n \<le> i \<Longrightarrow> i < kHistoryRegion \<Longrightarrow> d ! i = cells f ! i" for d
    by (rule write_at_from_frame) (use that off len in auto)
  show "\<exists>x. length x = n \<and> \<not> committed x \<and> cells f1 = write_at off x (cells f)" if "r1 \<noteq> kDone"
  proof -
    let ?x = "slice off n (cells f1)"
    have "slice (n - 4) 4 ?x = slice (n - 4) 4 (slice off n (cells f))"
    proof (rule nth_equalityI)
      fix i assume "i < length (slice (n - 4) 4 ?x)"
      then have i: "i < 4" using off b l1 by simp
      have "cells f1 ! (off + (n - 4 + i)) = cells f ! (off + (n - 4 + i))" by (rule frame1) (use i off b in linarith)+
      then show "slice (n - 4) 4 ?x ! i = slice (n - 4) 4 (slice off n (cells f)) ! i" using i off b l1 len by simp
    qed (use off b l1 len in simp)
    then have "\<not> committed ?x" using old get32_commit off b len l1 by simp
    moreover have "cells f1 = write_at off ?x (cells f)" by (rule whole) (use l1 frame1 in auto)
    moreover have "length ?x = n" using off l1 by simp
    ultimately show ?thesis by blast
  qed
  assume d1: "r1 = kDone" and p2: "fb_program ops f1 (off + n - 4) (slice (n - 4) 4 b) = (f2, r2)"
  have c1: "cells f1 = write_at off (take (n - 4) b) (cells f)" using program_done [OF wf(1)] p1 d1 by simp
  have w2: "wf f2" "readable f2" "r2 \<noteq> kPending"
    using program_wf [OF w1(1)] program_readable [OF w1(2)] program_sync p2 by (metis fst_conv, metis fst_conv, metis snd_conv)
  have l2: "length (cells f2) = kHistoryRegion" by (rule cells_length [OF w2(1)])
  have frame2: "i < off + n - 4 \<or> off + n \<le> i \<Longrightarrow> i < kHistoryRegion \<Longrightarrow> cells f2 ! i = cells f1 ! i" for i
    using program_frame [OF w1(1) p2, of i] b by simp
  let ?x = "slice off n (cells f2)"
  have x: "length ?x = n" "cells f2 = write_at off ?x (cells f)"
  proof -
    show "length ?x = n" using off l2 by simp
    show "cells f2 = write_at off ?x (cells f)"
    proof (rule whole [OF l2])
      fix i assume i: "i < off \<or> off + n \<le> i" "i < kHistoryRegion"
      then have "i < off \<or> off + (n - 4) \<le> i" "i < off + n - 4 \<or> off + n \<le> i" using b(2) by linarith+
      then show "cells f2 ! i = cells f ! i" using frame1 [OF _ i(2)] frame2 [OF _ i(2)] by simp
    qed
  qed
  have body: "take (n - 4) ?x = take (n - 4) b"
  proof (rule nth_equalityI)
    fix i assume "i < length (take (n - 4) ?x)"
    then have i: "i < n - 4" by simp
    have "cells f2 ! (off + i) = cells f1 ! (off + i)" by (rule frame2) (use i off in linarith)+
    moreover have "off + i < off + n - 4" using i by linarith
    ultimately show "take (n - 4) ?x ! i = take (n - 4) b ! i" using i off b l2 len by (simp add: c1 nth_write_at)
  qed (use x b in simp)
  have join: "y = b" if "length y = n" "take (n - 4) y = take (n - 4) b" "slice (n - 4) 4 y = slice (n - 4) 4 b" for y
  proof -
    have "y = take (n - 4) y @ slice (n - 4) 4 y" "b = take (n - 4) b @ slice (n - 4) 4 b"
      using that(1) b by (simp_all add: slice_def)
    then show ?thesis using that by metis
  qed
  have comm: "?x = b" if "committed ?x"
    by (rule join [OF x(1) body]) (use that get32_commit [OF x(1) b(2)] get32_commit [OF b(1,2)] b(3) in simp)
  moreover have "committed ?x" if "r2 = kDone"
  proof -
    have "cells f2 = write_at (off + n - 4) (slice (n - 4) 4 b) (cells f1)" using program_done [OF w1(1)] p2 that by simp
    then have "slice (n - 4) 4 ?x = slice (n - 4) 4 b"
      by (intro nth_equalityI) (use off b l1 in \<open>auto simp: nth_write_at\<close>)
    then show ?thesis using get32_commit [OF x(1) b(2)] get32_commit [OF b(1,2)] b(3) by simp
  qed
  ultimately show "wf f2 \<and> readable f2 \<and> r2 \<noteq> kPending \<and>
      (\<exists>x. length x = n \<and> (x = b \<or> \<not> committed x \<and> r2 \<noteq> kDone) \<and> cells f2 = write_at off x (cells f))"
    using w2 x by blast
qed

text \<open>What \<open>writeBlob\<close> leaves.\<close>

definition blob_written :: "'f HistoryStore \<Rightarrow> 'f HistoryStore \<Rightarrow> FlashOpResult \<Rightarrow> bytes \<Rightarrow> bool" where
  "blob_written s s' r x \<longleftrightarrow> wf (hs_flash s') \<and> length x = hs_blob_size s \<and>
     cells (hs_flash s') = write_at (hs_blob_offset s) x (cells (hs_flash s)) \<and>
     (r = kDone \<and> x = take (hs_blob_size s) (hs_blob s) \<and> readable (hs_flash s') \<and> s' = s\<lparr>hs_flash := hs_flash s'\<rparr> \<or>
      r = kFailed \<and> (x = take (hs_blob_size s) (hs_blob s) \<or> \<not> committed x) \<and>
        (\<exists>st aw. s' = hs_fail (hs_job s = kAppend \<or> hs_append_after_new_page s)
           (s\<lparr>hs_flash := hs_flash s', hs_blob_step := st, hs_awaiting_completion := aw\<rparr>)))"

lemma hs_fail_flash [simp]: "hs_flash (hs_fail af s) = hs_flash s" "\<not> hs_ready (hs_fail af s)"
  by (simp_all add: hs_fail_def hs_count_def Let_def)

lemma write_blob:
  assumes wf: "wf (hs_flash s)" "readable (hs_flash s)" and at: "hs_blob_step s = kBody" "\<not> hs_awaiting_completion s"
    and n: "4 \<le> hs_blob_size s" "hs_blob_size s \<le> length (hs_blob s)" "committed (take (hs_blob_size s) (hs_blob s))"
      "hs_blob_offset s + hs_blob_size s \<le> kHistoryRegion"
    and old: "\<not> committed (slice (hs_blob_offset s) (hs_blob_size s) (cells (hs_flash s)))"
    and w: "hs_writeBlob ops s = (s', r)"
  shows "\<exists>x. blob_written s s' r x"
proof -
  let ?n = "hs_blob_size s" and ?off = "hs_blob_offset s"
  define b where "b = take ?n (hs_blob s)"
  have lb: "length b = ?n" using n by (simp add: b_def)
  have parts: "take (?n - 4) (hs_blob s) = take (?n - 4) b" "slice (?n - 4) 4 (hs_blob s) = slice (?n - 4) 4 b"
    using n by (simp_all add: b_def slice_def take_drop min_def)
  obtain f1 r1 where p1: "fb_program ops (hs_flash s) ?off (take (?n - 4) b) = (f1, r1)" by fastforce
  obtain f2 r2 where p2: "fb_program ops f1 (?off + ?n - 4) (slice (?n - 4) 4 b) = (f2, r2)" by fastforce
  have cb: "committed b" using n(3) by (simp add: b_def)
  note u = unit_write [OF wf lb n(1) cb n(4) old p1]
  define af where "af \<longleftrightarrow> hs_job s = kAppend \<or> hs_append_after_new_page s"
  show ?thesis
  proof (cases "r1 = kDone")
    case False
    then have r1: "r1 = kFailed" using u(3) by (cases r1) auto
    then have e: "s' = hs_fail af (s\<lparr>hs_flash := f1, hs_awaiting_completion := False\<rparr>)" "r = kFailed"
      using w at p1 by (simp_all add: hs_writeBlob_def hs_write_body_def parts af_def Let_def)
    obtain x where x: "length x = ?n" "\<not> committed x" "cells f1 = write_at ?off x (cells (hs_flash s))" using u(4) False by blast
    have "\<exists>st aw. s' = hs_fail af (s\<lparr>hs_flash := f1, hs_blob_step := st, hs_awaiting_completion := aw\<rparr>)"
      by (intro exI [of _ kBody] exI [of _ False]) (use e at in \<open>simp add: hs_fail_def hs_count_def Let_def\<close>)
    then show ?thesis using x u(1) e by (intro exI [of _ x]) (simp add: blob_written_def af_def)
  next
    case True
    note v = u(5) [OF True p2]
    then obtain x where x: "length x = ?n" "x = b \<or> \<not> committed x \<and> r2 \<noteq> kDone" "cells f2 = write_at ?off x (cells (hs_flash s))"
      by blast
    have body: "hs_write_body ops af s = (s\<lparr>hs_flash := f1, hs_awaiting_completion := False, hs_blob_step := HistoryBlobStep.kCommit\<rparr>, None)"
      using at p1 True by (simp add: hs_write_body_def parts Let_def)
    show ?thesis
    proof (cases "r2 = kDone")
      case False
      then have r2: "r2 = kFailed" using v by (cases r2) auto
      have e: "s' = hs_fail af (s\<lparr>hs_flash := f2, hs_awaiting_completion := False, hs_blob_step := HistoryBlobStep.kCommit\<rparr>)" "r = kFailed"
        using w p2 r2 unfolding hs_writeBlob_def af_def [symmetric] Let_def body
        by (auto simp: hs_write_commit_def parts Let_def hs_fail_def hs_count_def)
      have "\<exists>st aw. s' = hs_fail af (s\<lparr>hs_flash := f2, hs_blob_step := st, hs_awaiting_completion := aw\<rparr>)"
        by (intro exI [of _ HistoryBlobStep.kCommit] exI [of _ False]) (use e in \<open>simp add: hs_fail_def hs_count_def Let_def\<close>)
      then show ?thesis using x v e by (intro exI [of _ x]) (auto simp: blob_written_def af_def b_def)
    next
      case True
      have xb: "x = b" using x True by simp
      have "fb_read ops f2 ?off ?n = Some b"
        using read_ok [of f2 ?off ?n] v n(4) x(3) lb cells_length [OF wf(1)] by (simp add: xb slice_write_at_same)
      then have e: "s' = s\<lparr>hs_flash := f2, hs_awaiting_completion := False, hs_blob_step := kBody\<rparr>" "r = kDone"
        using w p2 True unfolding hs_writeBlob_def af_def [symmetric] Let_def body
        by (simp_all add: hs_write_commit_def parts Let_def b_def)
      have "s' = s\<lparr>hs_flash := f2\<rparr>" using e(1) at by simp
      then show ?thesis using x v e(2) xb by (intro exI [of _ x]) (simp add: blob_written_def b_def)
    qed
  qed
qed

end

end
