(* ===== verification/History_Invariant.thy ===== *)
theory History_Invariant
  imports History_Blob
begin

text \<open>
  The invariant of the history store (\<open>firmware/src/history_store.cpp\<close>) over the cells of its region, and
  how the operations that start a job and the four writes keep it.
\<close>

section \<open>The invariant\<close>

definition hole :: "'f HistoryStore \<Rightarrow> nat option" where
  "hole s = (if hs_job s = kNewPage \<and> hs_phase s = kHeader then Some (hs_target_page s) else None)"

text \<open>The index in memory is that of the cells, but for a page that is being rewritten.\<close>

definition indexed :: "u64 \<Rightarrow> bytes \<Rightarrow> 'f HistoryStore \<Rightarrow> bool" where
  "indexed dev c s \<longleftrightarrow> hs_device_id s = dev \<and> (\<forall>p<kPageCount. hole s \<noteq> Some p \<longrightarrow> hs_pages s ! p = page_index dev c p) \<and>
     (hs_newest_generation s, hs_active_page s) = region_newest dev c \<and> hs_incarnation s \<noteq> 0 \<and>
     recoverable dev (hs_incarnation s) c"

text \<open>Tickets and delivery generations in memory are not behind those in the cells.\<close>

definition metered :: "u64 \<Rightarrow> bytes \<Rightarrow> 'f HistoryStore \<Rightarrow> bool" where
  "metered dev c s \<longleftrightarrow> region_end dev c \<le> hs_sequence_end s \<and> hs_sequence_end s mod 256 = 0 \<and>
     hs_next_ticket s \<le> hs_sequence_end s \<and>
     (\<forall>x\<in>set (live_states dev c). \<forall>st. decodeState x = Some st \<longrightarrow> st_generation st \<le> st_generation (hs_state s))"

definition next_page :: "'f HistoryStore \<Rightarrow> nat" where
  "next_page s = (if hs_active_page s < 0 then 0 else (nat (hs_active_page s) + 1) mod kPageCount)"

definition blob_is :: "nat \<Rightarrow> bytes \<Rightarrow> 'f HistoryStore \<Rightarrow> bool" where
  "blob_is off b s \<longleftrightarrow> hs_blob_offset s = off \<and> hs_blob_size s = length b \<and> take (length b) (hs_blob s) = b"

definition at_work :: "u64 \<Rightarrow> bytes \<Rightarrow> 'f HistoryStore \<Rightarrow> bool" where
  "at_work dev c s \<longleftrightarrow>
     (let a = nat (hs_active_page s) in
      case hs_job s of
        HistoryJob.kNone \<Rightarrow> 0 \<le> hs_active_page s \<and> \<not> hs_append_after_new_page s
      | kNewPage \<Rightarrow> hs_target_page s = next_page s \<and> hs_target_generation s = hs_newest_generation s + 1 \<and>
          hs_target_generation s \<noteq> 0 \<and>
          (hs_phase s = kErase \<or> hs_phase s = kHeader \<and> blank_page c (hs_target_page s) \<and>
             blank_slot (header_at c (hs_target_page s)) \<and>
             blob_is (pageOffset (hs_target_page s))
               (encodePage (hs_target_generation s) dev (hs_incarnation s) (replicate 64 0)) s)
      | kReserve \<Rightarrow> 0 \<le> hs_active_page s \<and> hs_phase s = HistoryPhase.kBlob \<and> hs_target_page s = a \<and>
          hs_target_sequence_slot s = hp_sequence_used (page_index dev c a) \<and>
          hs_target_sequence_slot s < kSequenceSlotsPerPage \<and> hs_sequence_end s \<le> UINT64_MAX - 256 \<and>
          hs_pending_sequence_end s = hs_sequence_end s + 256 \<and>
          blob_is (sequenceOffset a (hs_target_sequence_slot s)) (encodeSequenceEnd (hs_pending_sequence_end s) (replicate 16 0)) s
      | kState \<Rightarrow> 0 \<le> hs_active_page s \<and> \<not> hs_append_after_new_page s \<and> hs_phase s = HistoryPhase.kBlob \<and> hs_target_page s = a \<and>
          hs_target_state_slot s = hp_state_used (page_index dev c a) \<and> hs_target_state_slot s < kStateSlotsPerPage \<and>
          st_generation (hs_state s) \<noteq> UINT64_MAX \<and>
          st_generation (hs_pending_state s) = st_generation (hs_state s) + 1 \<and>
          blob_is (stateOffset a (hs_target_state_slot s)) (encodeState (hs_pending_state s) (replicate 32 0)) s
      | kAppend \<Rightarrow> 0 \<le> hs_active_page s \<and> \<not> hs_append_after_new_page s \<and> hs_phase s = HistoryPhase.kBlob \<and> hs_target_page s = a \<and>
          hs_target_slot s = hp_records_used (page_index dev c a) \<and> hs_target_slot s < kRecordsPerPage \<and>
          validPacket (packet (hs_pending_record s)) (identity (hs_pending_record s)) dev \<and>
          (\<forall>r\<in>set (retained dev c). identity r < identity (hs_pending_record s)) \<and>
          blob_is (recordOffset a (hs_target_slot s)) (encodeRecord (hs_pending_record s) (replicate 36 0)) s)"

definition shaped :: "'f HistoryStore \<Rightarrow> bool" where
  "shaped s \<longleftrightarrow> length (hs_pages s) = kPageCount \<and> length (hs_blob s) = kPageHeaderSize"

definition history_inv :: "u64 \<Rightarrow> bytes \<Rightarrow> 'f HistoryStore \<Rightarrow> bool" where
  "history_inv dev c s \<longleftrightarrow> sound dev c \<and> shaped s \<and>
     (hs_ready s \<longrightarrow> indexed dev c s \<and> metered dev c s \<and> at_work dev c s \<and> hs_blob_step s = kBody \<and> \<not> hs_awaiting_completion s)"

text \<open>Between jobs.\<close>

definition calm :: "u64 \<Rightarrow> bytes \<Rightarrow> 'f HistoryStore \<Rightarrow> bool" where
  "calm dev c s \<longleftrightarrow> sound dev c \<and> shaped s \<and> hs_ready s \<and> hs_job s = HistoryJob.kNone \<and> indexed dev c s \<and> metered dev c s \<and>
     0 \<le> hs_active_page s \<and> hs_blob_step s = kBody \<and> \<not> hs_awaiting_completion s"

text \<open>The same of a store that has not written its first page yet.\<close>

definition rested :: "u64 \<Rightarrow> bytes \<Rightarrow> 'f HistoryStore \<Rightarrow> bool" where
  "rested dev c s \<longleftrightarrow> sound dev c \<and> shaped s \<and> hs_ready s \<and> hs_job s = HistoryJob.kNone \<and> indexed dev c s \<and> metered dev c s \<and>
     hs_blob_step s = kBody \<and> \<not> hs_awaiting_completion s"

lemma calm_rested: "calm dev c s \<Longrightarrow> rested dev c s" by (simp add: calm_def rested_def)

lemma calm_inv: "calm dev c s \<Longrightarrow> \<not> hs_append_after_new_page s \<Longrightarrow> history_inv dev c s"
  by (simp add: calm_def history_inv_def at_work_def)

lemma inv_calm: "history_inv dev c s \<Longrightarrow> hs_ready s \<Longrightarrow> hs_job s = HistoryJob.kNone \<Longrightarrow> calm dev c s \<and> \<not> hs_append_after_new_page s"
  by (simp add: calm_def history_inv_def at_work_def)

lemma not_ready_inv: "sound dev c \<Longrightarrow> shaped s \<Longrightarrow> \<not> hs_ready s \<Longrightarrow> history_inv dev c s"
  by (simp add: history_inv_def)

lemma shaped_updates [simp]:
  "shaped (s\<lparr>hs_flash := f\<rparr>) = shaped s" "shaped (on_page p h s) = shaped s" "shaped (hs_fail af s) = shaped s"
  by (simp_all add: shaped_def on_page_def hs_fail_def hs_count_def Let_def)

lemma active_page:
  assumes "indexed dev c s" "0 \<le> hs_active_page s"
  shows "nat (hs_active_page s) < kPageCount" "decodable dev c (nat (hs_active_page s))"
    "region_newest dev c = (hs_newest_generation s, int (nat (hs_active_page s)))"
proof -
  have n: "region_newest dev c = (hs_newest_generation s, hs_active_page s)" using assms(1) by (simp add: indexed_def)
  then obtain p where "p < kPageCount" "decodable dev c p" "hs_active_page s = int p"
    using newest_spec(2) [of dev c] assms(2) by auto
  then show "nat (hs_active_page s) < kPageCount" "decodable dev c (nat (hs_active_page s))" by simp_all
  show "region_newest dev c = (hs_newest_generation s, int (nat (hs_active_page s)))" using n assms(2) by simp
qed

lemma next_page_apart:
  assumes "indexed dev c s"
  shows "next_page s < kPageCount" "int (next_page s) \<noteq> snd (region_newest dev c)"
proof -
  show "next_page s < kPageCount" by (simp add: next_page_def kPageCount_def)
  have n: "snd (region_newest dev c) = hs_active_page s" using assms by (metis indexed_def snd_conv)
  show "int (next_page s) \<noteq> snd (region_newest dev c)"
  proof (cases "0 \<le> hs_active_page s")
    case True
    then have "nat (hs_active_page s) < 7" using active_page(1) [OF assms] by (simp add: kPageCount_def)
    moreover obtain m where "hs_active_page s = int m" using True nonneg_int_cases by blast
    moreover have "Suc m mod 7 \<noteq> m" if "m < 7" using that by presburger
    ultimately show ?thesis unfolding n by (simp add: next_page_def kPageCount_def)
  qed (simp add: n)
qed

section \<open>Starting jobs\<close>

lemma start_blob:
  assumes "length b \<le> kPageHeaderSize" "shaped s"
  shows "blob_is off b (startBlob off b s)" "shaped (startBlob off b s)"
  using assms by (simp_all add: blob_is_def startBlob_def shaped_def write_at_def)

lemma startBlob_fields [simp]:
  "hs_flash (startBlob off b s) = hs_flash s" "hs_pages (startBlob off b s) = hs_pages s" "hs_job (startBlob off b s) = hs_job s"
  "hs_device_id (startBlob off b s) = hs_device_id s" "hs_sequence_end (startBlob off b s) = hs_sequence_end s"
  "hs_next_ticket (startBlob off b s) = hs_next_ticket s" "hs_newest_generation (startBlob off b s) = hs_newest_generation s"
  "hs_incarnation (startBlob off b s) = hs_incarnation s" "hs_state (startBlob off b s) = hs_state s"
  "hs_active_page (startBlob off b s) = hs_active_page s" "hs_target_page (startBlob off b s) = hs_target_page s"
  "hs_target_slot (startBlob off b s) = hs_target_slot s" "hs_target_sequence_slot (startBlob off b s) = hs_target_sequence_slot s"
  "hs_target_state_slot (startBlob off b s) = hs_target_state_slot s" "hs_target_generation (startBlob off b s) = hs_target_generation s"
  "hs_pending_sequence_end (startBlob off b s) = hs_pending_sequence_end s" "hs_phase (startBlob off b s) = hs_phase s"
  "hs_append_after_new_page (startBlob off b s) = hs_append_after_new_page s" "hs_ready (startBlob off b s) = hs_ready s"
  "hs_pending_record (startBlob off b s) = hs_pending_record s" "hs_pending_state (startBlob off b s) = hs_pending_state s"
  "hs_blob_step (startBlob off b s) = kBody" "\<not> hs_awaiting_completion (startBlob off b s)"
  "hs_acknowledged_through (startBlob off b s) = hs_acknowledged_through s"
  "hs_append_result_ready (startBlob off b s) = hs_append_result_ready s" "hs_append_success (startBlob off b s) = hs_append_success s"
  by (simp_all add: startBlob_def)

text \<open>What a job start leaves alone.\<close>

definition store_base :: "'f HistoryStore \<Rightarrow> 'f HistoryStore \<Rightarrow> bool" where
  "store_base s s' \<longleftrightarrow> hs_flash s' = hs_flash s \<and> hs_pages s' = hs_pages s \<and> hs_sequence_end s' = hs_sequence_end s \<and>
     hs_next_ticket s' = hs_next_ticket s \<and> hs_state s' = hs_state s \<and> hs_acknowledged_through s' = hs_acknowledged_through s \<and>
     hs_append_result_ready s' = hs_append_result_ready s \<and> hs_append_success s' = hs_append_success s \<and>
     hs_pending_record s' = hs_pending_record s"

lemma base_indexed:
  assumes "indexed dev c s" "hole s = None" "hs_pages s' = hs_pages s" "hs_device_id s' = hs_device_id s"
    "hs_newest_generation s' = hs_newest_generation s" "hs_active_page s' = hs_active_page s" "hs_incarnation s' = hs_incarnation s"
  shows "indexed dev c s'"
  using assms by (simp add: indexed_def)

lemma start_new_page:
  assumes c: "rested dev c s" and st: "startNewPage ops af s = (s', ok)"
  shows "ok \<Longrightarrow> history_inv dev c s' \<and> hs_job s' = kNewPage \<and> hs_phase s' = kErase \<and> hs_append_after_new_page s' = af"
    "store_base s s'" "shaped s'" "ok \<or> hs_job s' = HistoryJob.kNone"
proof -
  have b: "hole s = None" "hs_job s = HistoryJob.kNone" "hs_ready s" "hs_incarnation s \<noteq> 0" "shaped s"
    using c by (simp_all add: rested_def hole_def indexed_def)
  let ?s1 = "s\<lparr>hs_target_page := next_page s, hs_target_generation := hs_newest_generation s + 1\<rparr>"
  have shape: "(s', ok) = (if hs_newest_generation s + 1 = 0 then (?s1, False)
      else (?s1\<lparr>hs_pending_capacity_lost := countCapacityLostUndelivered ops ?s1 (next_page s), hs_append_after_new_page := af,
        hs_job := kNewPage, hs_phase := kErase\<rparr>, True))"
    unfolding st [symmetric] using b by (simp add: startNewPage_def hs_busy_def Let_def next_page_def)
  show "store_base s s'" using shape by (auto simp: store_base_def split: if_splits)
  show "shaped s'" using shape b by (auto simp: shaped_def split: if_splits)
  show "ok \<or> hs_job s' = HistoryJob.kNone" using shape b by (auto split: if_splits)
  assume ok: ok
  then have s': "s' = ?s1\<lparr>hs_pending_capacity_lost := countCapacityLostUndelivered ops ?s1 (next_page s), hs_append_after_new_page := af,
        hs_job := kNewPage, hs_phase := kErase\<rparr>" and n: "hs_newest_generation s + 1 \<noteq> 0"
    using shape by (auto split: if_splits)
  have "indexed dev c s'" by (rule base_indexed [of dev c s]) (use c b in \<open>simp_all add: s' rested_def\<close>)
  then show "history_inv dev c s' \<and> hs_job s' = kNewPage \<and> hs_phase s' = kErase \<and> hs_append_after_new_page s' = af"
    using c n by (simp add: s' history_inv_def rested_def metered_def at_work_def shaped_def next_page_def Let_def)
qed

lemma encode_lengths [simp]:
  "length (encodeSequenceEnd e (replicate 16 0)) = 16" "length (encodeState st (replicate 32 0)) = 32"
  "length (encodePage g d i (replicate 64 0)) = 64" "length (encodeRecord r (replicate 36 0)) = 36"
  by (simp_all add: encodeSequenceEnd_def encodeState_def encodePage_def Let_def be_simps journal_sizes length_encodeRecord)

lemma start_reservation:
  assumes c: "calm dev c s" and st: "startReservation ops s = (s', ok)"
  shows "ok \<Longrightarrow> history_inv dev c s' \<and> (hs_job s' = kReserve \<and> hs_append_after_new_page s' = hs_append_after_new_page s \<or>
      hs_job s' = kNewPage \<and> hs_phase s' = kErase \<and> \<not> hs_append_after_new_page s')"
    "store_base s s'" "shaped s'" "ok \<or> hs_job s' = HistoryJob.kNone"
proof -
  let ?a = "nat (hs_active_page s)"
  have b: "hole s = None" "hs_job s = HistoryJob.kNone" "hs_ready s" "0 \<le> hs_active_page s" "shaped s" "indexed dev c s"
    using c by (simp_all add: calm_def hole_def)
  note act = active_page [OF b(6,4)]
  have pg: "hs_pages s ! ?a = page_index dev c ?a" using b act by (simp add: indexed_def)
  consider "hs_sequence_end s > UINT64_MAX - 256" "(s', ok) = (s, False)"
    | "hs_sequence_end s \<le> UINT64_MAX - 256" "hp_sequence_used (page_index dev c ?a) \<ge> kSequenceSlotsPerPage"
      "startNewPage ops False s = (s', ok)"
    | "hs_sequence_end s \<le> UINT64_MAX - 256" "hp_sequence_used (page_index dev c ?a) < kSequenceSlotsPerPage"
      "(s', ok) = ((startBlob (sequenceOffset ?a (hp_sequence_used (page_index dev c ?a)))
          (encodeSequenceEnd (hs_sequence_end s + 256) (replicate 16 0))
          (s\<lparr>hs_target_page := ?a, hs_target_sequence_slot := hp_sequence_used (page_index dev c ?a),
             hs_pending_sequence_end := hs_sequence_end s + 256\<rparr>))\<lparr>hs_job := kReserve, hs_phase := HistoryPhase.kBlob\<rparr>, True)"
    using st b pg by (fastforce simp: startReservation_def hs_busy_def Let_def kSequenceBlockSize_def kSequenceSlotSize_def not_less not_le split: if_splits)
  note cs = this
  show "store_base s s'"
    using cs start_new_page(2) [OF calm_rested [OF c]] by cases (auto simp: store_base_def)
  show "shaped s'" using cs start_new_page(3) [OF calm_rested [OF c]] start_blob(2) b(5)
    by cases (auto simp: shaped_def startBlob_def)
  show "ok \<or> hs_job s' = HistoryJob.kNone" using cs start_new_page(4) [OF calm_rested [OF c]] b(2) by cases auto
  show "history_inv dev c s' \<and> (hs_job s' = kReserve \<and> hs_append_after_new_page s' = hs_append_after_new_page s \<or>
      hs_job s' = kNewPage \<and> hs_phase s' = kErase \<and> \<not> hs_append_after_new_page s')" if ok: ok
    using cs
  proof cases
    case 1
    then show ?thesis using ok by simp
  next
    case 2
    then show ?thesis using start_new_page(1) [OF calm_rested [OF c] 2(3) ok] by simp
  next
    case 3
    define b' where "b' = encodeSequenceEnd (hs_sequence_end s + 256) (replicate 16 0)"
    have s': "s' = (startBlob (sequenceOffset ?a (hp_sequence_used (page_index dev c ?a))) b'
          (s\<lparr>hs_target_page := ?a, hs_target_sequence_slot := hp_sequence_used (page_index dev c ?a),
             hs_pending_sequence_end := hs_sequence_end s + 256\<rparr>))\<lparr>hs_job := kReserve, hs_phase := HistoryPhase.kBlob\<rparr>"
      using 3(3) by (simp add: b'_def)
    have i: "indexed dev c s'" by (rule base_indexed [of dev c s]) (use b in \<open>simp_all add: s'\<close>)
    have "blob_is (sequenceOffset ?a (hp_sequence_used (page_index dev c ?a))) b' s'"
      using b(5) by (simp add: s' blob_is_def startBlob_def shaped_def write_at_def b'_def kPageHeaderSize_def)
    then have "at_work dev c s'" using 3 b by (simp add: at_work_def Let_def s' b'_def)
    moreover have "shaped s'" using b(5) by (simp add: s' shaped_def startBlob_def)
    ultimately show ?thesis using c i by (simp add: history_inv_def calm_def metered_def s')
  qed
qed

lemma start_state:
  assumes c: "calm dev c s" and na: "\<not> hs_append_after_new_page s" and st: "startState n s = (s', ok)"
  shows "ok \<Longrightarrow> history_inv dev c s' \<and> hs_job s' = kState \<and> hs_pending_state s' = n\<lparr>st_generation := st_generation (hs_state s) + 1\<rparr>"
    "store_base s s'" "\<not> ok \<Longrightarrow> s' = s"
proof -
  let ?a = "nat (hs_active_page s)" and ?n = "n\<lparr>st_generation := st_generation (hs_state s) + 1\<rparr>"
  have b: "hole s = None" "hs_job s = HistoryJob.kNone" "hs_ready s" "0 \<le> hs_active_page s" "shaped s" "indexed dev c s"
    using c by (simp_all add: calm_def hole_def)
  note act = active_page [OF b(6,4)]
  have pg: "hs_pages s ! ?a = page_index dev c ?a" using b act by (simp add: indexed_def)
  consider "(s', ok) = (s, False)"
    | "st_generation (hs_state s) \<noteq> UINT64_MAX" "hp_state_used (page_index dev c ?a) < kStateSlotsPerPage"
      "(s', ok) = ((startBlob (stateOffset ?a (hp_state_used (page_index dev c ?a))) (encodeState ?n (replicate 32 0))
          (s\<lparr>hs_pending_state := ?n, hs_target_page := ?a, hs_target_state_slot := hp_state_used (page_index dev c ?a)\<rparr>))
          \<lparr>hs_job := kState, hs_phase := HistoryPhase.kBlob\<rparr>, True)"
    using st b pg by (fastforce simp: startState_def hs_busy_def Let_def kStateSlotSize_def not_less not_le split: if_splits)
  note cs = this
  show "store_base s s'" "\<not> ok \<Longrightarrow> s' = s" using cs by (cases; auto simp: store_base_def)+
  show "history_inv dev c s' \<and> hs_job s' = kState \<and> hs_pending_state s' = ?n" if ok: ok
    using cs
  proof cases
    case 1
    then show ?thesis using ok by simp
  next
    case 2
    define b' where "b' = encodeState ?n (replicate 32 0)"
    have s': "s' = (startBlob (stateOffset ?a (hp_state_used (page_index dev c ?a))) b'
          (s\<lparr>hs_pending_state := ?n, hs_target_page := ?a, hs_target_state_slot := hp_state_used (page_index dev c ?a)\<rparr>))
          \<lparr>hs_job := kState, hs_phase := HistoryPhase.kBlob\<rparr>"
      using 2(3) by (simp add: b'_def)
    have i: "indexed dev c s'" by (rule base_indexed [of dev c s]) (use b in \<open>simp_all add: s'\<close>)
    have "blob_is (stateOffset ?a (hp_state_used (page_index dev c ?a))) b' s'"
      using b(5) by (simp add: s' blob_is_def startBlob_def shaped_def write_at_def b'_def kPageHeaderSize_def)
    then have "at_work dev c s'" using 2 b na by (simp add: at_work_def Let_def s' b'_def)
    moreover have "shaped s'" using b(5) by (simp add: s' shaped_def startBlob_def)
    ultimately show ?thesis using c i by (simp add: history_inv_def calm_def metered_def s')
  qed
qed

end
