(* ===== verification/History_Reads.thy ===== *)
theory History_Reads
  imports History_Invariant
begin

text \<open>
  The readers of the history store (\<open>firmware/src/history_store.cpp\<close>) return what the cells retain: they are
  the lookups of a finite map, whatever the order of the slots in flash.
\<close>

section \<open>Searching a list of slots\<close>

lemma fold_least:
  fixes f :: "'a \<Rightarrow> JournalRecord option" and i :: u64
  defines "step \<equiv> \<lambda>x out. case f x of None \<Rightarrow> out
    | Some r \<Rightarrow> if identity r > i \<and> (case out of None \<Rightarrow> True | Some o' \<Rightarrow> identity r < identity o') then Some r else out"
  assumes "\<forall>r. out = Some r \<longrightarrow> i < identity r"
  shows "case fold step xs out of
      None \<Rightarrow> out = None \<and> (\<forall>x\<in>set xs. \<forall>r. f x = Some r \<longrightarrow> identity r \<le> i)
    | Some r \<Rightarrow> i < identity r \<and> (out = Some r \<or> (\<exists>x\<in>set xs. f x = Some r)) \<and>
        (\<forall>o'. out = Some o' \<longrightarrow> identity r \<le> identity o') \<and>
        (\<forall>x\<in>set xs. \<forall>r'. f x = Some r' \<longrightarrow> i < identity r' \<longrightarrow> identity r \<le> identity r')"
  using assms(2)
proof (induction xs arbitrary: out)
  case Nil
  then show ?case by (auto split: option.split)
next
  case (Cons x xs)
  have p: "\<forall>r. step x out = Some r \<longrightarrow> i < identity r"
    using Cons.prems by (auto simp: step_def split: option.splits if_splits)
  have s: "step x out = out \<and> (\<forall>r. f x = Some r \<longrightarrow> identity r \<le> i \<or> (\<exists>o'. out = Some o' \<and> identity o' \<le> identity r)) \<or>
      (\<exists>r. f x = Some r \<and> step x out = Some r \<and> i < identity r \<and> (\<forall>o'. out = Some o' \<longrightarrow> identity r < identity o'))"
    by (auto simp: step_def not_less split: option.splits)
  note ih = Cons.IH [OF p]
  show ?case
  proof (cases "fold step xs (step x out)")
    case None
    then show ?thesis using ih s by auto
  next
    case (Some a)
    from s show ?thesis
    proof (elim disjE exE conjE)
      assume "step x out = out" "\<forall>r. f x = Some r \<longrightarrow> identity r \<le> i \<or> (\<exists>o'. out = Some o' \<and> identity o' \<le> identity r)"
      then show ?thesis using ih Some by (auto dest: order_trans simp: not_less [symmetric])
    next
      fix r assume "f x = Some r" "step x out = Some r" "i < identity r" "\<forall>o'. out = Some o' \<longrightarrow> identity r < identity o'"
      then show ?thesis using ih Some by (auto intro: order_trans less_imp_le)
    qed
  qed
qed

lemma fold_greatest:
  fixes f :: "'a \<Rightarrow> JournalRecord option"
  defines "step \<equiv> \<lambda>x out. case f x of None \<Rightarrow> out
    | Some r \<Rightarrow> if (case out of None \<Rightarrow> True | Some o' \<Rightarrow> identity r > identity o') then Some r else out"
  shows "case fold step xs out of
      None \<Rightarrow> out = None \<and> (\<forall>x\<in>set xs. f x = None)
    | Some r \<Rightarrow> (out = Some r \<or> (\<exists>x\<in>set xs. f x = Some r)) \<and> (\<forall>o'. out = Some o' \<longrightarrow> identity o' \<le> identity r) \<and>
        (\<forall>x\<in>set xs. \<forall>r'. f x = Some r' \<longrightarrow> identity r' \<le> identity r)"
proof (induction xs arbitrary: out)
  case Nil
  then show ?case by (auto split: option.split)
next
  case (Cons x xs)
  have s: "step x out = out \<and> (\<forall>r. f x = Some r \<longrightarrow> (\<exists>o'. out = Some o' \<and> identity r \<le> identity o')) \<or>
      (\<exists>r. f x = Some r \<and> step x out = Some r \<and> (\<forall>o'. out = Some o' \<longrightarrow> identity o' < identity r))"
    by (auto simp: step_def not_less split: option.splits)
  note ih = Cons.IH [of "step x out"]
  show ?case
  proof (cases "fold step xs (step x out)")
    case None
    then show ?thesis using ih s by auto
  next
    case (Some a)
    from s show ?thesis
    proof (elim disjE exE conjE)
      assume "step x out = out" "\<forall>r. f x = Some r \<longrightarrow> (\<exists>o'. out = Some o' \<and> identity r \<le> identity o')"
      then show ?thesis using ih Some by (auto dest: order_trans)
    next
      fix r assume "f x = Some r" "step x out = Some r" "\<forall>o'. out = Some o' \<longrightarrow> identity o' < identity r"
      then show ?thesis using ih Some by (auto intro: order_trans less_imp_le)
    qed
  qed
qed

lemma strict_scan_total:
  assumes "\<forall>(p, k)\<in>set xs. readSlot ops s p k \<noteq> None"
  shows "strict_scan ops s i xs out = fold (\<lambda>(p, k) out. case readSlot ops s p k of None \<Rightarrow> out
    | Some r \<Rightarrow> if identity r > i \<and> (case out of None \<Rightarrow> True | Some o' \<Rightarrow> identity r < identity o') then Some r else out) xs out"
  using assms by (induction ops s i xs out rule: strict_scan.induct) auto

section \<open>The readers\<close>

context journal_flash begin

lemma reads_cells: "wf f \<Longrightarrow> readable f \<Longrightarrow> reads_as ops f (cells f)"
  using cells_length read_ok by (simp add: reads_as_def)

lemma read_slot:
  assumes "wf (hs_flash s)" "readable (hs_flash s)" "p < kPageCount" "k < kRecordsPerPage"
  shows "readSlot ops s p k = decodeRecord (record_at (cells (hs_flash s)) p k) (hs_device_id s)"
  using reads_slots(4) [OF reads_cells [OF assms(1,2)] assms(3,4)] by (simp add: readSlot_def)

lemma slots_read:
  assumes wf: "wf (hs_flash s)" "readable (hs_flash s)" and inv: "history_inv dev (cells (hs_flash s)) s" "hs_ready s"
  shows "(\<exists>x\<in>set (valid_slots s). (case x of (p, k) \<Rightarrow> readSlot ops s p k) = Some r) \<longleftrightarrow> r \<in> set (retained dev (cells (hs_flash s)))"
    "hole s = None \<Longrightarrow> \<forall>(p, k)\<in>set (valid_slots s). readSlot ops s p k \<noteq> None"
proof -
  let ?c = "cells (hs_flash s)"
  have i: "sound dev ?c" "indexed dev ?c s" "at_work dev ?c s" using inv by (simp_all add: history_inv_def)
  have o: "orderly dev ?c" "length ?c = kHistoryRegion" using i(1) by (simp_all add: sound_def)
  have dev: "hs_device_id s = dev" using i(2) by (simp add: indexed_def)
  have sl: "(p, k) \<in> set (valid_slots s) \<longleftrightarrow> p < kPageCount \<and> k < kRecordsPerPage \<and> bitSet (hp_valid (hs_pages s ! p)) k" for p k
    by (auto simp: valid_slots_def)
  have rs: "p < kPageCount \<Longrightarrow> k < kRecordsPerPage \<Longrightarrow> readSlot ops s p k = decodeRecord (record_at ?c p k) dev" for p k
    using read_slot [OF wf] dev by simp
  have mk: "bitSet (hp_valid (hs_pages s ! p)) k \<longleftrightarrow> (\<exists>r. record_in dev ?c p k r)"
    if "p < kPageCount" "k < kRecordsPerPage" "hole s \<noteq> Some p" for p k
    using marked_iff [OF o(2,1) that(1,2)] i(2) that by (simp add: indexed_def)
  have hole: "decodeRecord (record_at ?c p k) dev = None" if "hole s = Some p" "p < kPageCount" "k < kRecordsPerPage" for p k
  proof -
    have "blank_page ?c p" using that(1) i(3) by (auto simp: hole_def at_work_def Let_def split: if_splits)
    then show ?thesis using that blank_no_record slot_lengths(4) [OF o(2) that(2,3)] by (simp add: blank_page_def)
  qed
  show "(\<exists>x\<in>set (valid_slots s). (case x of (p, k) \<Rightarrow> readSlot ops s p k) = Some r) \<longleftrightarrow> r \<in> set (retained dev ?c)"
  proof
    assume "\<exists>x\<in>set (valid_slots s). (case x of (p, k) \<Rightarrow> readSlot ops s p k) = Some r"
    then obtain p k where a: "(p, k) \<in> set (valid_slots s)" "readSlot ops s p k = Some r" by auto
    then have b: "p < kPageCount" "k < kRecordsPerPage" "decodeRecord (record_at ?c p k) dev = Some r"
      using sl rs by simp_all
    then have "hole s \<noteq> Some p" using hole by auto
    then obtain r' where "record_in dev ?c p k r'" using mk [OF b(1,2)] a(1) sl by blast
    then have "record_in dev ?c p k r" using b(3) by (simp add: record_in_def)
    then show "r \<in> set (retained dev ?c)" using retained_iff by blast
  next
    assume "r \<in> set (retained dev ?c)"
    then obtain p k where a: "record_in dev ?c p k r" using retained_iff by blast
    then have b: "p < kPageCount" "k < kRecordsPerPage" "decodeRecord (record_at ?c p k) dev = Some r" by (simp_all add: record_in_def)
    then have "hole s \<noteq> Some p" using hole by auto
    then have "(p, k) \<in> set (valid_slots s)" using mk [OF b(1,2)] a sl b by blast
    then show "\<exists>x\<in>set (valid_slots s). (case x of (p, k) \<Rightarrow> readSlot ops s p k) = Some r" using rs b by force
  qed
  assume h: "hole s = None"
  show "\<forall>(p, k)\<in>set (valid_slots s). readSlot ops s p k \<noteq> None"
    using sl mk rs h by (force simp: record_in_def)
qed

lemma read_after:
  assumes wf: "wf (hs_flash s)" "readable (hs_flash s)" and inv: "history_inv dev (cells (hs_flash s)) s" "hs_ready s"
  shows "case readAfter ops s i of
      None \<Rightarrow> \<forall>r\<in>set (retained dev (cells (hs_flash s))). identity r \<le> i
    | Some r \<Rightarrow> r \<in> set (retained dev (cells (hs_flash s))) \<and> i < identity r \<and>
        (\<forall>r'\<in>set (retained dev (cells (hs_flash s))). i < identity r' \<longrightarrow> identity r \<le> identity r')"
  using fold_least [where f = "\<lambda>(p, k). readSlot ops s p k" and i = i and out = None and xs = "valid_slots s"]
    slots_read(1) [OF wf inv]
  by (fastforce simp: readAfter_def case_prod_unfold split: option.split option.split_asm)

lemma read_strict:
  assumes wf: "wf (hs_flash s)" "readable (hs_flash s)" and inv: "history_inv dev (cells (hs_flash s)) s" "hs_ready s" and h: "hole s = None"
  shows "readNextRetainedStrict ops s i = readAfter ops s i"
  using strict_scan_total [OF slots_read(2) [OF wf inv h]] by (simp add: readNextRetainedStrict_def readAfter_def)

lemma read_newest:
  assumes wf: "wf (hs_flash s)" "readable (hs_flash s)" and inv: "history_inv dev (cells (hs_flash s)) s" "hs_ready s"
  shows "case newest ops s of
      None \<Rightarrow> retained dev (cells (hs_flash s)) = []
    | Some r \<Rightarrow> r \<in> set (retained dev (cells (hs_flash s))) \<and> (\<forall>r'\<in>set (retained dev (cells (hs_flash s))). identity r' \<le> identity r)"
proof -
  have e: "retained dev (cells (hs_flash s)) = [] \<longleftrightarrow> (\<forall>r. r \<notin> set (retained dev (cells (hs_flash s))))" by auto
  show ?thesis unfolding e
    using fold_greatest [where f = "\<lambda>(p, k). readSlot ops s p k" and out = None and xs = "valid_slots s"]
      slots_read(1) [OF wf inv]
    by (fastforce simp: newest_def case_prod_unfold split: option.split option.split_asm)
qed

lemma lookup_retained:
  assumes wf: "wf (hs_flash s)" "readable (hs_flash s)" and inv: "history_inv dev (cells (hs_flash s)) s" "hs_ready s"
  shows "hs_lookup ops s i = Some r \<longleftrightarrow> r \<in> set (retained dev (cells (hs_flash s))) \<and> identity r = i"
proof -
  let ?R = "set (retained dev (cells (hs_flash s)))"
  have s: "in_ring dev (cells (hs_flash s))" "orderly dev (cells (hs_flash s))" using inv by (simp_all add: history_inv_def sound_def)
  have u: "x \<in> ?R \<Longrightarrow> y \<in> ?R \<Longrightarrow> identity x = identity y \<Longrightarrow> x = y" for x y
    by (auto simp: retained_iff intro: record_unique(3) [OF s])
  have nz: "x \<in> ?R \<Longrightarrow> identity x \<noteq> 0" for x using retained_iff decoded_identity by (auto simp: record_in_def)
  note ra = read_after [OF wf inv, of "i - 1"]
  have ge: "i \<noteq> 0 \<Longrightarrow> i - 1 < x \<longleftrightarrow> i \<le> x" for x :: u64
  proof -
    assume "i \<noteq> 0"
    then have "unat (i - 1) = unat i - 1" "0 < unat i" by (simp_all add: unat_minus_one unat_gt_0)
    then show "i - 1 < x \<longleftrightarrow> i \<le> x" by (auto simp: word_less_nat_alt word_le_nat_alt)
  qed
  show ?thesis
  proof
    assume "hs_lookup ops s i = Some r"
    then have "readAfter ops s (i - 1) = Some r" "identity r = i"
      by (auto simp: hs_lookup_def split: if_splits option.splits)
    then show "r \<in> ?R \<and> identity r = i" using ra by simp
  next
    assume a: "r \<in> ?R \<and> identity r = i"
    then have i: "i \<noteq> 0" using nz by auto
    obtain r' where r': "readAfter ops s (i - 1) = Some r'"
      using ra a ge [OF i] by (cases "readAfter ops s (i - 1)") (auto simp: linorder_not_le [symmetric])
    then have "r' \<in> ?R" "i - 1 < identity r'" "identity r' \<le> i" using ra a ge [OF i] by auto
    then have "identity r' = i" using ge [OF i] by (simp add: order_antisym)
    then have "r' = r" using u [OF \<open>r' \<in> ?R\<close>] a by simp
    then show "hs_lookup ops s i = Some r" using r' i a by (simp add: hs_lookup_def)
  qed
qed

end

end
