(* ===== verification/History_Steps.thy ===== *)
theory History_Steps
  imports History_Reads
begin

text \<open>
  What each of the four writes of the history store (\<open>firmware/src/history_store.cpp\<close>) makes of the cells,
  finished or torn, and what the store makes of a finished one.
\<close>

lemma committed_not_blank: "length x = n \<Longrightarrow> 4 \<le> n \<Longrightarrow> committed x \<Longrightarrow> \<not> blank_slot x"
proof
  assume x: "length x = n" "4 \<le> n" "committed x" "blank_slot x"
  then have "slice (n - 4) 4 x ! 0 = (0 :: u8)" using get32_commit [OF x(1,2)] by simp
  moreover have "slice (n - 4) 4 x ! 0 = x ! (n - 4)" using x(1,2) by simp
  moreover have "x ! (n - 4) = 0xFF" using x by (simp add: blank_slot_def list_all_length)
  ultimately show False by simp
qed

lemma encoded_committed:
  "committed (encodeSequenceEnd e (replicate 16 0))" "committed (encodeState st (replicate 32 0))"
  "committed (encodePage g d i (replicate 64 0))" "committed (encodeRecord r (replicate 36 0))"
proof -
  have "sealed (encodeSequenceEnd e (replicate 16 0)) 8 12"
    using sealed_seal [of 8] by (simp add: encodeSequenceEnd_def Let_def be_simps kSequenceSlotSize_def)
  then show "committed (encodeSequenceEnd e (replicate 16 0))" by (simp add: committed_def sealed_def)
  have "sealed (encodeState st (replicate 32 0)) 24 28"
    using sealed_seal [of 24] by (simp add: encodeState_def Let_def be_simps kStateSlotSize_def)
  then show "committed (encodeState st (replicate 32 0))" by (simp add: committed_def sealed_def)
  have "sealed (encodePage g d i (replicate 64 0)) 56 60"
    using sealed_seal [of 56] by (simp add: encodePage_def Let_def be_simps kStaticHeaderSize_def)
  then show "committed (encodePage g d i (replicate 64 0))" by (simp add: committed_def sealed_def)
  show "committed (encodeRecord r (replicate 36 0))"
    using encodeRecord_sealed [of "replicate 36 0" r] by (simp add: committed_def sealed_def)
qed

lemma hist_rooms:
  assumes "p < kPageCount"
  shows "pageOffset p + 64 \<le> kHistoryRegion" "k < kSequenceSlotsPerPage \<Longrightarrow> sequenceOffset p k + 16 \<le> kHistoryRegion"
    "k < kStateSlotsPerPage \<Longrightarrow> stateOffset p k + 32 \<le> kHistoryRegion" "k < kRecordsPerPage \<Longrightarrow> recordOffset p k + 36 \<le> kHistoryRegion"
  using assms by (simp_all add: history_layout)

lemma unit_read:
  assumes "length c = kHistoryRegion" "p < kPageCount"
  shows "length x = 64 \<Longrightarrow> header_at (write_at (pageOffset p) x c) p = x"
    "length x = 16 \<Longrightarrow> k < kSequenceSlotsPerPage \<Longrightarrow> sequence_at (write_at (sequenceOffset p k) x c) p k = x"
    "length x = 32 \<Longrightarrow> k < kStateSlotsPerPage \<Longrightarrow> state_at (write_at (stateOffset p k) x c) p k = x"
    "length x = 36 \<Longrightarrow> k < kRecordsPerPage \<Longrightarrow> record_at (write_at (recordOffset p k) x c) p k = x"
  using hist_rooms [OF assms(2)]
  by (simp_all add: header_at_def sequence_at_def state_at_def record_at_def assms kStaticHeaderSize_def
      kSequenceSlotSize_def kStateSlotSize_def kRecordSize_def slice_write_at_same)

lemma inv_parts:
  assumes "history_inv dev c s" "hs_ready s"
  shows "sound dev c" "length c = kHistoryRegion" "shaped s" "indexed dev c s" "metered dev c s" "at_work dev c s"
    "hs_blob_step s = kBody" "\<not> hs_awaiting_completion s"
  using assms sound_length by (auto simp: history_inv_def)

lemma page_updated:
  assumes "shaped s" "region_pages dev d = (region_pages dev c)[a := g]" "a < kPageCount"
    and "\<And>p. p < kPageCount \<Longrightarrow> hs_pages s ! p = page_index dev c p" "q < kPageCount"
  shows "(hs_pages s)[a := g] ! q = page_index dev d q"
proof -
  have "page_index dev d q = region_pages dev d ! q" using assms(5) by simp
  also have "\<dots> = (if q = a then g else page_index dev c q)" using assms(2,3,5) by (simp add: nth_list_update)
  finally show ?thesis using assms(1,3-5) by (simp add: nth_list_update shaped_def)
qed

section \<open>Reservations that stay\<close>

text \<open>A page keeps its reservations when its header and its used sequence slots stay as they are.\<close>

definition keeps :: "bytes \<Rightarrow> bytes \<Rightarrow> nat \<Rightarrow> bool" where
  "keeps c d p \<longleftrightarrow> header_at d p = header_at c p \<and>
     (\<forall>k<kSequenceSlotsPerPage. \<not> blank_slot (sequence_at c p k) \<longrightarrow> sequence_at d p k = sequence_at c p k)"

definition held :: "u64 \<Rightarrow> bytes \<Rightarrow> nat \<Rightarrow> u64 \<Rightarrow> bool" where
  "held dev c p n \<longleftrightarrow> p < kPageCount \<and> decodable dev c p \<and>
     (\<exists>k<hp_sequence_used (page_index dev c p). \<exists>e. decodeSequenceEnd (sequence_at c p k) = Some e \<and> n \<le> e)"

lemma held_end: "held dev c p n \<Longrightarrow> n \<le> region_end dev c"
proof -
  assume "held dev c p n"
  then obtain k e where a: "p < kPageCount" "decodable dev c p" "k < hp_sequence_used (page_index dev c p)"
    "decodeSequenceEnd (sequence_at c p k) = Some e" "n \<le> e" by (auto simp: held_def)
  then have "sequence_at c p k \<in> set (live_sequences dev c)" unfolding live_sequences_iff by blast
  then have "e \<le> region_end dev c" unfolding region_folds using fold_end_facts(2) a(4) by blast
  then show ?thesis using a(5) by simp
qed

lemma keeps_held:
  assumes "keeps c d p" "held dev c p n"
  shows "held dev d p n"
proof -
  obtain gen inc where gi: "decodePage (header_at c p) dev = Some (gen, inc)" using assms(2) by (auto simp: held_def decodable_def)
  then have gd: "decodePage (header_at d p) dev = Some (gen, inc)" using assms(1) by (simp add: keeps_def)
  let ?u = "hp_sequence_used (page_index dev c p)" and ?v = "hp_sequence_used (page_index dev d p)"
  have fc: "filled (sequence_at c p) kSequenceSlotsPerPage ?u" by (rule page_index_decoded(2) [OF gi])
  have fd: "filled (sequence_at d p) kSequenceSlotsPerPage ?v" by (rule page_index_decoded(2) [OF gd])
  have same: "sequence_at d p k = sequence_at c p k \<and> \<not> blank_slot (sequence_at c p k)" if "k < ?u" for k
    using that fc assms(1) by (auto simp: filled_def keeps_def)
  have "?u \<le> ?v"
  proof (rule ccontr)
    assume "\<not> ?u \<le> ?v"
    then have v: "?v < ?u" by simp
    then have "blank_slot (sequence_at d p ?v)" using fd fc by (auto simp: filled_def)
    then show False using same [OF v] by simp
  qed
  moreover obtain k e where "p < kPageCount" "k < ?u" "decodeSequenceEnd (sequence_at c p k) = Some e" "n \<le> e"
    using assms(2) by (auto simp: held_def)
  moreover have "decodable dev d p" using gd by (simp add: decodable_def)
  ultimately show ?thesis unfolding held_def using same [of k] by (intro conjI exI [of _ k] exI [of _ e]) simp_all
qed

lemma keeps_same: "same_page c d p \<Longrightarrow> keeps c d p" by (simp add: keeps_def same_page_def)

lemma keeps_others: "others_same c d t \<Longrightarrow> p < kPageCount \<Longrightarrow> p \<noteq> t \<Longrightarrow> keeps c d p"
  by (simp add: others_same_def keeps_same)

lemma keeps_end:
  assumes "\<And>p. p < kPageCount \<Longrightarrow> keeps c d p"
  shows "region_end dev c \<le> region_end dev d"
proof -
  have "region_end dev c = 0 \<or> (\<exists>x\<in>set (live_sequences dev c). decodeSequenceEnd x = Some (region_end dev c))"
    unfolding region_folds by (rule fold_end_facts(3))
  then show ?thesis
  proof
    assume "\<exists>x\<in>set (live_sequences dev c). decodeSequenceEnd x = Some (region_end dev c)"
    then obtain x where x: "x \<in> set (live_sequences dev c)" "decodeSequenceEnd x = Some (region_end dev c)" by blast
    obtain p k where pk: "p < kPageCount" "decodable dev c p" "k < hp_sequence_used (page_index dev c p)" "x = sequence_at c p k"
      using x(1) unfolding live_sequences_iff by blast
    have p: "p < kPageCount" "held dev c p (region_end dev c)"
      using pk x(2) unfolding held_def by (simp, intro conjI exI [of _ k] exI [of _ "region_end dev c"]) simp_all
    show ?thesis by (rule held_end [OF keeps_held [OF assms [OF p(1)] p(2)]])
  qed simp
qed

section \<open>A reservation\<close>

lemma reserve_written:
  assumes inv: "history_inv dev c s" "hs_ready s" and job: "hs_job s = kReserve"
    and x: "length x = 16" "x = encodeSequenceEnd (hs_pending_sequence_end s) (replicate 16 0) \<or> \<not> committed x"
    and d: "d = write_at (sequenceOffset (hs_target_page s) (hs_target_sequence_slot s)) x c"
  shows "sound dev d" "record_in dev d = record_in dev c" "p < kPageCount \<Longrightarrow> keeps c d p" "region_state dev d = region_state dev c"
    "x = encodeSequenceEnd (hs_pending_sequence_end s) (replicate 16 0) \<Longrightarrow>
      held dev d (nat (hs_active_page s)) (hs_pending_sequence_end s) \<and>
      calm dev d ((on_page (hs_target_page s) (\<lambda>g. g\<lparr>hp_sequence_used := hp_sequence_used g + 1\<rparr>) (s\<lparr>hs_flash := f\<rparr>))
        \<lparr>hs_sequence_end := hs_pending_sequence_end s, hs_job := HistoryJob.kNone\<rparr>)"
proof -
  note i = inv_parts [OF inv]
  let ?a = "nat (hs_active_page s)" and ?t = "hs_target_sequence_slot s" and ?e = "hs_pending_sequence_end s"
  have w: "0 \<le> hs_active_page s" "hs_target_page s = ?a" "?t = hp_sequence_used (page_index dev c ?a)" "?t < kSequenceSlotsPerPage"
    "hs_sequence_end s \<le> UINT64_MAX - 256" "?e = hs_sequence_end s + 256"
    using i(6) job by (simp_all add: at_work_def Let_def)
  note act = active_page [OF i(4) w(1)]
  have dd: "d = write_at (sequenceOffset ?a ?t) x c" using d w(2) by simp
  have o: "only_sequence c d ?a ?t" unfolding dd by (rule write_only_sequence) (use x w(4) in \<open>simp_all add: kSequenceSlotSize_def\<close>)
  have xs: "sequence_at d ?a ?t = x" unfolding dd by (rule unit_read(2) [OF i(2) act(1) x(1) w(4)])
  have front: "front_filled c ?a" using i(1) act(3) w(1) by (simp add: sound_def)
  note sw = sequence_written [OF front act(1,2) w(3) [symmetric] w(4) o]
  have same: "same_records c d"
    using o by (auto simp: only_sequence_def same_records_def others_same_def same_page_def)
  have len: "length d = length c" by (simp add: dd)
  have fd: "front_filled d (nat (snd (region_newest dev c)))" using sw(1) act(3) w(1) by simp
  note mw = meta_written [OF i(1) len same fd]
  show "sound dev d" "record_in dev d = record_in dev c" by (rule mw(1), rule mw(2))
  show "region_state dev d = region_state dev c" by (rule sw(3))
  have ne: "hs_sequence_end s < ?e"
  proof -
    have "unat (hs_sequence_end s) + 256 < 2 ^ 64" using w(5) by (simp add: word_le_nat_alt)
    then have "unat ?e = unat (hs_sequence_end s) + 256" by (simp add: w(6) unat_add_lem [THEN iffD1])
    then show ?thesis by (simp add: word_less_nat_alt)
  qed
  have em: "?e mod 256 = 0"
  proof -
    have "unat (hs_sequence_end s) + 256 < 2 ^ 64" using w(5) by (simp add: word_le_nat_alt)
    then have "unat ?e = unat (hs_sequence_end s) + 256" by (simp add: w(6) unat_add_lem [THEN iffD1])
    moreover have "unat (hs_sequence_end s) mod 256 = 0"
      using i(5) unat_mod [of "hs_sequence_end s" 256] by (simp add: metered_def)
    ultimately have "unat (?e mod 256) = 0" by (simp add: unat_mod)
    then show ?thesis by (simp add: unat_eq_0)
  qed
  have rt: "decodeSequenceEnd (encodeSequenceEnd ?e (replicate 16 0)) = Some ?e"
    by (rule sequence_end_roundtrip) (use ne em in auto)
  have end_le: "region_end dev c \<le> hs_sequence_end s" using i(5) by (simp add: metered_def)
  obtain gen inc where gi: "decodePage (header_at c ?a) dev = Some (gen, inc)" using act(2) by (auto simp: decodable_def)
  have "blank_slot (sequence_at c ?a ?t)" using page_index_decoded(2) [OF gi] w(3,4) by (simp add: filled_def)
  then have "keeps c d ?a" using o by (auto simp: keeps_def only_sequence_def)
  then show "p < kPageCount \<Longrightarrow> keeps c d p"
    using o keeps_others [of c d ?a p] by (cases "p = ?a") (simp_all add: only_sequence_def)
  assume xb: "x = encodeSequenceEnd ?e (replicate 16 0)"
  then have "committed x" using encoded_committed(1) by simp
  then have nb: "\<not> blank_slot (sequence_at d ?a ?t)" using committed_not_blank [OF x(1)] xs by simp
  have re: "region_end dev d = ?e"
  proof (rule region_end_grows)
    show "y \<in> set (live_sequences dev d) \<Longrightarrow> y \<in> set (live_sequences dev c) \<or> decodeSequenceEnd y \<in> {None, Some ?e}" for y
      using sw(6) [of y] rt xs xb by auto
    show "\<exists>y\<in>set (live_sequences dev d). decodeSequenceEnd y = Some ?e"
      using sw(7) [OF nb] rt xs xb by (intro bexI [of _ "sequence_at d ?a ?t"]) simp_all
    show "region_end dev c \<le> ?e" using end_le ne by simp
  qed
  let ?s = "(on_page (hs_target_page s) (\<lambda>g. g\<lparr>hp_sequence_used := hp_sequence_used g + 1\<rparr>) (s\<lparr>hs_flash := f\<rparr>))
        \<lparr>hs_sequence_end := ?e, hs_job := HistoryJob.kNone\<rparr>"
  have pgs: "p < kPageCount \<Longrightarrow> hs_pages s ! p = page_index dev c p" for p
    using i(4) job by (simp add: indexed_def hole_def)
  have pu: "region_pages dev d = (region_pages dev c)[?a := (page_index dev c ?a)\<lparr>hp_sequence_used := ?t + 1\<rparr>]" by (rule sw(5) [OF nb])
  have "indexed dev d ?s"
  proof -
    have "hs_pages ?s ! q = page_index dev d q" if "q < kPageCount" for q
      using page_updated [OF i(3) pu act(1) pgs that] w(2,3) pgs [OF act(1)] act(1) i(3) by (simp add: on_page_def)
    moreover have "recoverable dev (hs_incarnation s) d"
      using i(4) same_headers_recoverable [of d c dev] same by (simp add: indexed_def same_records_def)
    ultimately show ?thesis using i(4) sw(2) by (simp add: indexed_def hole_def on_page_def)
  qed
  moreover have "metered dev d ?s"
  proof -
    have "live_states dev d = live_states dev c"
    proof -
      have su: "hp_state_used (page_index dev d ?a) = hp_state_used (page_index dev c ?a)"
        by (subst page_index_sequence [OF o, of dev]) simp
      have "hp_state_used (page_index dev d q) = hp_state_used (page_index dev c q)" if "q < kPageCount" for q
        using su o that page_steps_cong(1) [of c d q dev] by (cases "q = ?a") (auto simp: only_sequence_def others_same_def)
      moreover have "decodable dev d q = decodable dev c q" if "q < kPageCount" for q
        using same that by (simp add: same_records_def decodable_def)
      moreover have "state_at d q k = state_at c q k"
        if "q < kPageCount" "decodable dev c q" "k < hp_state_used (page_index dev c q)" for q k
      proof -
        have "k < kStateSlotsPerPage" using that page_index_decoded(3) [of c q dev] by (auto simp: decodable_def filled_def)
        then show ?thesis using o that by (cases "q = ?a") (auto simp: only_sequence_def others_same_def same_page_def)
      qed
      ultimately show ?thesis
        unfolding live_states_def by (intro arg_cong [where f = concat] map_cong refl) auto
    qed
    then show ?thesis using i(5) re em ne by (auto simp: metered_def on_page_def)
  qed
  moreover have "held dev d ?a ?e"
  proof -
    have "hp_sequence_used (page_index dev d ?a) = ?t + 1"
      using arg_cong [OF pu, of "\<lambda>l. hp_sequence_used (l ! ?a)"] act(1) by simp
    then show ?thesis unfolding held_def using act(1) sw(4) rt xs xb by (intro conjI exI [of _ ?t] exI [of _ ?e]) simp_all
  qed
  ultimately show "held dev d ?a ?e \<and> calm dev d ?s"
    using mw(1) i(3,7,8) inv(2) w(1) by (simp add: calm_def on_page_def shaped_def)
qed


section \<open>A delivery state\<close>

lemma state_slot_written:
  assumes inv: "history_inv dev c s" "hs_ready s" and job: "hs_job s = kState"
    and x: "length x = 32" "x = encodeState (hs_pending_state s) (replicate 32 0) \<or> \<not> committed x"
    and d: "d = write_at (stateOffset (hs_target_page s) (hs_target_state_slot s)) x c"
  shows "sound dev d" "record_in dev d = record_in dev c" "p < kPageCount \<Longrightarrow> keeps c d p"
    "x = encodeState (hs_pending_state s) (replicate 32 0) \<Longrightarrow>
      region_state dev d = hs_pending_state s \<and>
      calm dev d ((on_page (hs_target_page s) (\<lambda>g. g\<lparr>hp_state_used := hp_state_used g + 1\<rparr>) (s\<lparr>hs_flash := f\<rparr>))
        \<lparr>hs_state := hs_pending_state s, hs_job := HistoryJob.kNone\<rparr>)"
proof -
  note i = inv_parts [OF inv]
  let ?a = "nat (hs_active_page s)" and ?t = "hs_target_state_slot s" and ?n = "hs_pending_state s"
  have w: "0 \<le> hs_active_page s" "hs_target_page s = ?a" "?t = hp_state_used (page_index dev c ?a)" "?t < kStateSlotsPerPage"
    "st_generation (hs_state s) \<noteq> UINT64_MAX" "st_generation ?n = st_generation (hs_state s) + 1"
    using i(6) job by (simp_all add: at_work_def Let_def)
  note act = active_page [OF i(4) w(1)]
  have dd: "d = write_at (stateOffset ?a ?t) x c" using d w(2) by simp
  have o: "only_state c d ?a ?t" unfolding dd by (rule write_only_state) (use x w(4) in \<open>simp_all add: kStateSlotSize_def\<close>)
  have xs: "state_at d ?a ?t = x" unfolding dd by (rule unit_read(3) [OF i(2) act(1) x(1) w(4)])
  have front: "front_filled c ?a" using i(1) act(3) w(1) by (simp add: sound_def)
  note sw = state_written [OF front act(1,2) w(3) [symmetric] w(4) o]
  have same: "same_records c d"
    using o by (auto simp: only_state_def same_records_def others_same_def same_page_def)
  have len: "length d = length c" by (simp add: dd)
  have fd: "front_filled d (nat (snd (region_newest dev c)))" using sw(1) act(3) w(1) by simp
  note mw = meta_written [OF i(1) len same fd]
  show "sound dev d" "record_in dev d = record_in dev c" by (rule mw(1), rule mw(2))
  show "p < kPageCount \<Longrightarrow> keeps c d p"
    using o keeps_others [of c d ?a p] by (cases "p = ?a") (auto simp: only_state_def keeps_def)
  assume xb: "x = encodeState ?n (replicate 32 0)"
  then have "committed x" using encoded_committed(2) by simp
  then have nb: "\<not> blank_slot (state_at d ?a ?t)" using committed_not_blank [OF x(1)] xs by simp
  have gen: "st_generation (hs_state s) < st_generation ?n" unfolding w(6) by (rule succ_greater [OF w(5)])
  have rt: "decodeState (encodeState ?n (replicate 32 0)) = Some ?n"
    by (rule state_roundtrip) (use gen in auto)
  have old: "y \<in> set (live_states dev c) \<Longrightarrow> decodeState y = Some st \<Longrightarrow> st_generation st < st_generation ?n" for y st
    using i(5) gen unfolding metered_def by (metis order.strict_trans1)
  have new: "y \<in> set (live_states dev d) \<Longrightarrow> y \<in> set (live_states dev c) \<or> decodeState y \<in> {None, Some ?n}" for y
    using sw(6) [of y] rt xs xb by auto
  have rs: "region_state dev d = ?n"
  proof (rule region_state_newest [OF new _ old])
    show "\<exists>y\<in>set (live_states dev d). decodeState y = Some ?n"
      using sw(7) [OF nb] rt xs xb by (intro bexI [of _ "state_at d ?a ?t"]) simp_all
  qed
  let ?s = "(on_page (hs_target_page s) (\<lambda>g. g\<lparr>hp_state_used := hp_state_used g + 1\<rparr>) (s\<lparr>hs_flash := f\<rparr>))
        \<lparr>hs_state := ?n, hs_job := HistoryJob.kNone\<rparr>"
  have pgs: "p < kPageCount \<Longrightarrow> hs_pages s ! p = page_index dev c p" for p
    using i(4) job by (simp add: indexed_def hole_def)
  have pu: "region_pages dev d = (region_pages dev c)[?a := (page_index dev c ?a)\<lparr>hp_state_used := ?t + 1\<rparr>]" by (rule sw(5) [OF nb])
  have "indexed dev d ?s"
  proof -
    have "hs_pages ?s ! q = page_index dev d q" if "q < kPageCount" for q
      using page_updated [OF i(3) pu act(1) pgs that] w(2,3) pgs [OF act(1)] act(1) i(3) by (simp add: on_page_def)
    moreover have "recoverable dev (hs_incarnation s) d"
      using i(4) same_headers_recoverable [of d c dev] same by (simp add: indexed_def same_records_def)
    ultimately show ?thesis using i(4) sw(2) by (simp add: indexed_def hole_def on_page_def)
  qed
  moreover have "metered dev d ?s"
  proof -
    have "st_generation st \<le> st_generation ?n" if "y \<in> set (live_states dev d)" "decodeState y = Some st" for y st
      using new [OF that(1)] that(2) old [of y st] by auto
    then show ?thesis using i(5) sw(3) by (auto simp: metered_def on_page_def)
  qed
  ultimately show "region_state dev d = ?n \<and> calm dev d ?s"
    using mw(1) i(3,7,8) inv(2) w(1) rs by (simp add: calm_def on_page_def shaped_def)
qed

section \<open>A record\<close>

lemma append_written:
  assumes inv: "history_inv dev c s" "hs_ready s" and job: "hs_job s = kAppend"
    and x: "length x = 36" "x = encodeRecord (hs_pending_record s) (replicate 36 0) \<or> \<not> committed x"
    and d: "d = write_at (recordOffset (hs_target_page s) (hs_target_slot s)) x c"
  shows "sound dev d" "p < kPageCount \<Longrightarrow> keeps c d p" "region_state dev d = region_state dev c"
    "x \<noteq> encodeRecord (hs_pending_record s) (replicate 36 0) \<Longrightarrow> record_in dev d = record_in dev c"
    "x = encodeRecord (hs_pending_record s) (replicate 36 0) \<Longrightarrow>
      (record_in dev d q k r \<longleftrightarrow> record_in dev c q k r \<or> q = hs_target_page s \<and> k = hs_target_slot s \<and> r = hs_pending_record s) \<and>
      calm dev d ((hs_count h (on_page (hs_target_page s) (\<lambda>g. g\<lparr>hp_records_used := hs_target_slot s + 1,
          hp_valid := set_bit_at (hp_valid g) (hs_target_slot s), hp_records_valid := hp_records_valid g + 1\<rparr>) (s\<lparr>hs_flash := f\<rparr>)))
        \<lparr>hs_job := HistoryJob.kNone, hs_append_result_ready := True, hs_append_success := True\<rparr>)"
proof -
  note i = inv_parts [OF inv]
  let ?a = "nat (hs_active_page s)" and ?t = "hs_target_slot s" and ?r = "hs_pending_record s"
  have w: "0 \<le> hs_active_page s" "hs_target_page s = ?a" "?t = hp_records_used (page_index dev c ?a)" "?t < kRecordsPerPage"
    "validPacket (packet ?r) (identity ?r) dev" "\<forall>r\<in>set (retained dev c). identity r < identity ?r"
    using i(6) job by (simp_all add: at_work_def Let_def)
  note act = active_page [OF i(4) w(1)]
  have dd: "d = write_at (recordOffset ?a ?t) x c" using d w(2) by simp
  have o: "only_record c d ?a ?t" unfolding dd by (rule write_only_record) (use x w(4) in \<open>simp_all add: kRecordSize_def\<close>)
  have xs: "record_at d ?a ?t = x" unfolding dd by (rule unit_read(4) [OF i(2) act(1) x(1) w(4)])
  have len: "length d = length c" by (simp add: dd)
  have rt: "decodeRecord (encodeRecord ?r (replicate 36 0)) dev = Some ?r"
    by (rule record_slot_roundtrip) (use w(5) in \<open>simp_all add: kRecordSize_def\<close>)
  have dec: "decodeRecord x dev = (if x = encodeRecord ?r (replicate 36 0) then Some ?r else None)"
    using x(2) uncommitted(3) [OF x(1)] rt by auto
  have new: "\<forall>r r'. decodeRecord (record_at d ?a ?t) dev = Some r \<longrightarrow> r' \<in> set (retained dev c) \<longrightarrow> identity r' < identity r"
    using dec xs w(6) by (auto split: if_splits)
  note rw = record_written [OF i(1) len act(1) act(3) act(2) w(3) [symmetric] w(4) o new]
  show "sound dev d" "region_state dev d = region_state dev c" by (rule rw(1), rule rw(4))
  show "p < kPageCount \<Longrightarrow> keeps c d p"
    using o keeps_others [of c d ?a p] by (cases "p = ?a") (auto simp: only_record_def keeps_def)
  show "record_in dev d = record_in dev c" if "x \<noteq> encodeRecord ?r (replicate 36 0)"
    using rw(6) dec xs that by (auto simp: fun_eq_iff)
  assume xb: "x = encodeRecord ?r (replicate 36 0)"
  then have "committed x" using encoded_committed(4) by simp
  then have nb: "\<not> blank_slot (record_at d ?a ?t)" using committed_not_blank [OF x(1)] xs by simp
  have dr: "decodeRecord (record_at d ?a ?t) dev = Some ?r" using dec xs xb by simp
  let ?g = "(page_index dev c ?a)\<lparr>hp_records_used := ?t + 1, hp_valid := set_bit_at (hp_valid (page_index dev c ?a)) ?t,
    hp_records_valid := hp_records_valid (page_index dev c ?a) + 1\<rparr>"
  have ix: "page_index dev d ?a = ?g"
    by (rule record_indexed [OF i(1) act(1,2) w(3) [symmetric] w(4) o dr nb]) (use w(6) in simp)
  have os: "others_same c d ?a" using o by (simp add: only_record_def)
  have pu: "region_pages dev d = (region_pages dev c)[?a := ?g]" using region_pages_update [OF os act(1)] ix by simp
  let ?s = "(hs_count h (on_page (hs_target_page s) (\<lambda>g. g\<lparr>hp_records_used := hs_target_slot s + 1,
          hp_valid := set_bit_at (hp_valid g) (hs_target_slot s), hp_records_valid := hp_records_valid g + 1\<rparr>) (s\<lparr>hs_flash := f\<rparr>)))
        \<lparr>hs_job := HistoryJob.kNone, hs_append_result_ready := True, hs_append_success := True\<rparr>"
  have pgs: "p < kPageCount \<Longrightarrow> hs_pages s ! p = page_index dev c p" for p
    using i(4) job by (simp add: indexed_def hole_def)
  have "indexed dev d ?s"
  proof -
    have "hs_pages ?s ! q = page_index dev d q" if "q < kPageCount" for q
      using page_updated [OF i(3) pu act(1) pgs that] w(2,3) pgs [OF act(1)] act(1) i(3) by (simp add: on_page_def hs_count_def)
    moreover have "recoverable dev (hs_incarnation s) d"
    proof -
      have "header_at d q = header_at c q" if "q < kPageCount" for q
        using o that by (cases "q = ?a") (auto simp: only_record_def others_same_def same_page_def)
      then show ?thesis using i(4) same_headers_recoverable [of d c dev] by (simp add: indexed_def)
    qed
    ultimately show ?thesis using i(4) rw(2) by (simp add: indexed_def hole_def on_page_def hs_count_def)
  qed
  moreover have "metered dev d ?s" using i(5) rw(3,5) by (simp add: metered_def on_page_def hs_count_def)
  ultimately show "(record_in dev d q k r \<longleftrightarrow> record_in dev c q k r \<or> q = hs_target_page s \<and> k = ?t \<and> r = ?r) \<and> calm dev d ?s"
    using rw(1,6) dr i(3,7,8) inv(2) w(1,2) by (auto simp: calm_def on_page_def shaped_def hs_count_def)
qed


section \<open>A new page\<close>

lemma live_undecodable:
  assumes "others_same c d p" "\<not> decodable dev d p \<or> hp_sequence_used (page_index dev d p) = 0 \<and> hp_state_used (page_index dev d p) = 0"
  shows "set (live_sequences dev d) \<subseteq> set (live_sequences dev c)" "set (live_states dev d) \<subseteq> set (live_states dev c)"
  using live_sequences_others [OF assms(1), of _ dev] live_states_others [OF assms(1), of _ dev] assms(2) by auto

lemma metered_shrinks:
  assumes "metered dev c s" "set (live_sequences dev d) \<subseteq> set (live_sequences dev c)" "set (live_states dev d) \<subseteq> set (live_states dev c)"
    and "hs_sequence_end s' = hs_sequence_end s" "hs_next_ticket s' = hs_next_ticket s" "hs_state s' = hs_state s"
  shows "metered dev d s'"
proof -
  have "region_end dev d \<le> region_end dev c" by (rule region_end_mono) (use assms(2) in blast)
  then show ?thesis using assms by (auto simp: metered_def)
qed

lemma slice_in_page:
  assumes "pageOffset p \<le> a" "a + n \<le> pageOffset p + kPageSize" "pageOffset p + kPageSize \<le> length c"
  shows "slice a n (write_at (pageOffset p) (replicate kPageSize 0xFF) c) = replicate n 0xFF"
  by (rule nth_equalityI) (use assms in \<open>auto simp: nth_write_at\<close>)

lemma page_erasing:
  assumes "length c = kHistoryRegion" "p < kPageCount" "d = write_at (p * kPageSize) (replicate kPageSize 0xFF) c"
  shows "blank_page d p" "blank_slot (header_at d p)" "others_same c d p" "length d = length c"
proof -
  have r: "pageOffset p + kPageSize \<le> length c" using assms(1,2) by (simp add: history_layout)
  have e: "d = write_at (pageOffset p) (replicate kPageSize 0xFF) c" using assms(3) by (simp add: pageOffset_def)
  have b: "blank_slot (replicate n 0xFF)" for n by (simp add: blank_slot_def list_all_iff)
  have "header_at d p = replicate 64 0xFF"
    unfolding header_at_def e kStaticHeaderSize_def by (rule slice_in_page [OF _ _ r]) (simp_all add: kPageSize_def)
  then show "blank_slot (header_at d p)" using b by simp
  have "k < kSequenceSlotsPerPage \<Longrightarrow> sequence_at d p k = replicate 16 0xFF" for k
    unfolding sequence_at_def e kSequenceSlotSize_def by (rule slice_in_page [OF _ _ r]) (simp_all add: history_layout)
  moreover have "k < kStateSlotsPerPage \<Longrightarrow> state_at d p k = replicate 32 0xFF" for k
    unfolding state_at_def e kStateSlotSize_def by (rule slice_in_page [OF _ _ r]) (simp_all add: history_layout)
  moreover have "k < kRecordsPerPage \<Longrightarrow> record_at d p k = replicate 36 0xFF" for k
    unfolding record_at_def e kRecordSize_def by (rule slice_in_page [OF _ _ r]) (simp_all add: history_layout)
  ultimately show "blank_page d p" using b by (simp add: blank_page_def)
  show "others_same c d p" unfolding others_same_def same_page_def e
    using write_page [where p = p and off = "pageOffset p" and d = "replicate kPageSize 0xFF" and c = c] by simp
  show "length d = length c" by (simp add: e)
qed

lemma blank_not_committed: "length x = n \<Longrightarrow> 4 \<le> n \<Longrightarrow> blank_slot x \<Longrightarrow> \<not> committed x"
  using committed_not_blank by blast

lemma next_in_ring: "(m - 1) mod 7 = p \<Longrightarrow> 0 < m \<Longrightarrow> m mod 7 = (p + 1) mod 7" for m p :: nat
  by (cases m) (auto simp: mod_Suc_eq)

lemma new_page_facts:
  assumes inv: "history_inv dev c s" "hs_ready s" and job: "hs_job s = kNewPage"
  shows "hs_target_page s < kPageCount" "int (hs_target_page s) \<noteq> snd (region_newest dev c)"
    "hs_target_generation s = fst (region_newest dev c) + 1" "hs_target_generation s \<noteq> 0"
    "ring_place (hs_target_generation s) = hs_target_page s"
proof -
  note i = inv_parts [OF inv]
  have w: "hs_target_page s = next_page s" "hs_target_generation s = hs_newest_generation s + 1" "hs_target_generation s \<noteq> 0"
    using i(6) job by (auto simp: at_work_def Let_def)
  have n: "region_newest dev c = (hs_newest_generation s, hs_active_page s)" using i(4) by (simp add: indexed_def)
  show "hs_target_page s < kPageCount" "int (hs_target_page s) \<noteq> snd (region_newest dev c)"
    using next_page_apart [OF i(4)] w(1) by simp_all
  show "hs_target_generation s = fst (region_newest dev c) + 1" "hs_target_generation s \<noteq> 0" using w n by simp_all
  show "ring_place (hs_target_generation s) = hs_target_page s"
  proof (cases "0 \<le> hs_active_page s")
    case True
    then obtain p where p: "p < kPageCount" "decodable dev c p" "hs_newest_generation s = page_gen dev c p" "hs_active_page s = int p"
      using newest_spec(2) [of dev c] n by auto
    have "ring_place (hs_newest_generation s) = p" using i(1) p by (simp add: sound_def in_ring_def)
    moreover have "unat (hs_target_generation s) = Suc (unat (hs_newest_generation s))"
      using w(2,3) unatSuc [of "hs_newest_generation s"] by (simp add: add.commute)
    moreover have "0 < unat (hs_newest_generation s)" using page_gen_pos [OF p(2)] p(3) by (simp add: unat_gt_0)
    ultimately have r: "(unat (hs_newest_generation s) - 1) mod 7 = p" "0 < unat (hs_newest_generation s)"
      "unat (hs_target_generation s) - 1 = unat (hs_newest_generation s)"
      by (simp_all add: ring_place_def kPageCount_def)
    have "unat (hs_newest_generation s) mod 7 = (p + 1) mod 7" by (rule next_in_ring [OF r(1,2)])
    then show ?thesis using w(1) p(4) r(3) by (simp add: ring_place_def next_page_def kPageCount_def)
  next
    case False
    then have "hs_newest_generation s = 0" using newest_spec(2) [of dev c] n by auto
    then show ?thesis using w False by (simp add: ring_place_def next_page_def kPageCount_def)
  qed
qed

lemma erase_faded:
  assumes inv: "history_inv dev c s" "hs_ready s" and job: "hs_job s = kNewPage"
    and d: "length d = length c" "others_same c d (hs_target_page s)" "fades c d (hs_target_page s)"
  shows "sound dev d" "record_in dev d q k r \<Longrightarrow> record_in dev c q k r"
    "q \<noteq> hs_target_page s \<Longrightarrow> record_in dev d q k r = record_in dev c q k r"
  using page_faded [OF inv_parts(1) [OF inv] d(1) new_page_facts(1,2) [OF inv job] fades_page [OF d(3,2)]] by simp_all

lemma erase_done_inv:
  assumes inv: "history_inv dev c s" "hs_ready s" and job: "hs_job s = kNewPage" "hs_phase s = kErase"
    and d: "d = write_at (hs_target_page s * kPageSize) (replicate kPageSize 0xFF) c" "fades c d (hs_target_page s)"
  shows "history_inv dev d (startBlob (pageOffset (hs_target_page s))
      (encodePage (hs_target_generation s) dev (hs_incarnation s) (replicate 64 0))
      ((hs_count h (s\<lparr>hs_flash := f, hs_awaiting_completion := False\<rparr>))\<lparr>hs_pending_capacity_lost := 0, hs_phase := kHeader\<rparr>))"
    (is "history_inv dev d ?s")
proof -
  note i = inv_parts [OF inv] and n = new_page_facts [OF inv job(1)]
  note e = page_erasing [OF i(2) n(1) d(1)]
  note pf = page_faded [OF i(1) e(4) n(1,2) fades_page [OF d(2) e(3)]]
  have dl: "length d = kHistoryRegion" using e(4) i(2) by simp
  have hl: "length (header_at d (hs_target_page s)) = 64" by (rule slot_lengths(1) [OF dl n(1)])
  have und: "\<not> decodable dev d (hs_target_page s)"
    using uncommitted(4) [OF hl, of dev] blank_not_committed [OF hl _ e(2)] by (simp add: decodable_def)
  have h: "hole ?s = Some (hs_target_page s)" using job by (simp add: hole_def hs_count_def)
  have h0: "hole s = None" using job by (simp add: hole_def)
  have "indexed dev d ?s"
  proof -
    have "hs_pages s ! q = page_index dev d q" if "q < kPageCount" "q \<noteq> hs_target_page s" for q
      using i(4) h0 that e(3) page_steps_cong(1) [of c d q dev] by (simp add: indexed_def others_same_def)
    then show ?thesis using i(4) pf(2) pf(5) h by (simp add: indexed_def hs_count_def)
  qed
  moreover have "metered dev d ?s"
    by (rule metered_shrinks [OF i(5) live_undecodable [OF e(3)]]) (use und in \<open>simp_all add: hs_count_def\<close>)
  moreover have "at_work dev d ?s"
  proof -
    have "blob_is (pageOffset (hs_target_page s)) (encodePage (hs_target_generation s) dev (hs_incarnation s) (replicate 64 0)) ?s"
      using i(3) by (simp add: blob_is_def startBlob_def shaped_def write_at_def kPageHeaderSize_def hs_count_def)
    moreover have "hs_target_page s = next_page s" "hs_target_generation s = hs_newest_generation s + 1"
      using i(6) job by (simp_all add: at_work_def Let_def)
    moreover have "next_page ?s = next_page s" by (simp add: next_page_def hs_count_def)
    ultimately show ?thesis using job e(1,2) n(4) by (simp add: at_work_def Let_def hs_count_def)
  qed
  moreover have "shaped ?s" using i(3) by (simp add: shaped_def startBlob_def hs_count_def)
  ultimately show ?thesis using pf(1) by (simp add: history_inv_def)
qed

lemma write_only_header:
  assumes "length x \<le> kStaticHeaderSize"
  shows "only_header c (write_at (pageOffset p) x c) p"
proof -
  have "others_same c (write_at (pageOffset p) x c) p"
    unfolding others_same_def same_page_def using assms write_page [where p = p and off = "pageOffset p" and d = x and c = c]
    by (simp add: kStaticHeaderSize_def kPageSize_def)
  then show ?thesis unfolding only_header_def sequence_at_def state_at_def record_at_def
    using assms by (auto intro!: slice_write_apart simp: history_layout)
qed

lemma page_header_written:
  assumes inv: "history_inv dev c s" "hs_ready s" and job: "hs_job s = kNewPage" "hs_phase s = kHeader"
    and x: "length x = 64" "x = encodePage (hs_target_generation s) dev (hs_incarnation s) (replicate 64 0) \<or> \<not> committed x"
    and d: "d = write_at (pageOffset (hs_target_page s)) x c"
  shows "sound dev d" "record_in dev d = record_in dev c" "p < kPageCount \<Longrightarrow> p \<noteq> hs_target_page s \<Longrightarrow> keeps c d p"
    "x = encodePage (hs_target_generation s) dev (hs_incarnation s) (replicate 64 0) \<Longrightarrow>
      calm dev d ((on_page (hs_target_page s) (\<lambda>_. HistoryPage_init\<lparr>hp_generation := hs_target_generation s\<rparr>) (s\<lparr>hs_flash := f\<rparr>))
        \<lparr>hs_newest_generation := hs_target_generation s, hs_active_page := int (hs_target_page s), hs_job := HistoryJob.kNone\<rparr>)"
proof -
  note i = inv_parts [OF inv] and n = new_page_facts [OF inv job(1)]
  let ?t = "hs_target_page s" and ?h = "encodePage (hs_target_generation s) dev (hs_incarnation s) (replicate 64 0)"
  have w: "blank_page c ?t" "blank_slot (header_at c ?t)" using i(6) job by (auto simp: at_work_def Let_def)
  have hl: "length (header_at c ?t) = 64" by (rule slot_lengths(1) [OF i(2) n(1)])
  have und: "\<not> decodable dev c ?t"
    using uncommitted(4) [OF hl, of dev] blank_not_committed [OF hl _ w(2)] by (simp add: decodable_def)
  have o: "only_header c d ?t" unfolding d by (rule write_only_header) (simp add: x kStaticHeaderSize_def)
  have xs: "header_at d ?t = x" unfolding d by (rule unit_read(1) [OF i(2) n(1) x(1)])
  have out: "\<not> committed (header_at d ?t) \<or> header_at d ?t = ?h" using x(2) xs by auto
  have inc: "hs_incarnation s \<noteq> 0" "recoverable dev (hs_incarnation s) c" using i(4) by (simp_all add: indexed_def)
  have len: "length d = length c" by (simp add: d)
  note hw = header_written [OF i(1) len n(1,2) w(1) und o out n(3-5) inc]
  show "sound dev d" "record_in dev d = record_in dev c" by (rule hw(1), rule hw(2))
  show "p < kPageCount \<Longrightarrow> p \<noteq> ?t \<Longrightarrow> keeps c d p" using o keeps_others [where t = ?t and c = c and d = d] by (simp add: only_header_def)
  assume xb: "x = ?h"
  have dec: "decodable dev d ?t" by (rule hw(5)) (simp add: xs xb)
  note nw = hw(4) [OF dec]
  have os: "others_same c d ?t" using o by (simp add: only_header_def)
  let ?s = "(on_page ?t (\<lambda>_. HistoryPage_init\<lparr>hp_generation := hs_target_generation s\<rparr>) (s\<lparr>hs_flash := f\<rparr>))
        \<lparr>hs_newest_generation := hs_target_generation s, hs_active_page := int ?t, hs_job := HistoryJob.kNone\<rparr>"
  have "indexed dev d ?s"
  proof -
    have "hs_pages ?s ! q = page_index dev d q" if "q < kPageCount" for q
      using i(3,4) that nw os n(1) job page_steps_cong(1) [of c d q dev]
      by (cases "q = ?t") (auto simp: on_page_def shaped_def indexed_def hole_def others_same_def)
    then show ?thesis using i(4) hw(3) nw by (simp add: indexed_def hole_def on_page_def)
  qed
  moreover have "metered dev d ?s"
    by (rule metered_shrinks [OF i(5) live_undecodable [OF os]]) (use nw in \<open>simp_all add: on_page_def HistoryPage_init_def\<close>)
  ultimately show "calm dev d ?s"
    using hw(1) i(3,7,8) inv(2) by (simp add: calm_def on_page_def shaped_def)
qed

end
