(* ===== verification/History_Run.thy ===== *)
theory History_Run
  imports History_Steps
begin

text \<open>
  The history store (\<open>firmware/src/history_store.cpp\<close>) on a flash that keeps the contract: every operation and
  every poll keeps the invariant, whatever the flash answers, and what a poll does to the records.
\<close>

definition stored :: "u64 \<Rightarrow> bytes \<Rightarrow> bytes \<Rightarrow> 'f HistoryStore \<Rightarrow> bool" where
  "stored dev c d s \<longleftrightarrow> (\<forall>q k r. record_in dev d q k r \<longleftrightarrow> record_in dev c q k r \<or>
     q = hs_target_page s \<and> k = hs_target_slot s \<and> r = hs_pending_record s)"

definition records_step :: "u64 \<Rightarrow> bytes \<Rightarrow> bytes \<Rightarrow> 'f HistoryStore \<Rightarrow> 'f HistoryStore \<Rightarrow> bool" where
  "records_step dev c d s s' \<longleftrightarrow>
     (if hs_ready s \<and> hs_job s = kAppend then
        hs_append_result_ready s' \<and> (record_in dev d = record_in dev c \<or> stored dev c d s) \<and>
        (hs_append_success s' \<longrightarrow> stored dev c d s) \<and> (hs_ready s' \<longleftrightarrow> hs_append_success s')
      else if hs_ready s \<and> hs_job s = kNewPage \<and> hs_phase s = kErase then
        (\<forall>q k r. record_in dev d q k r \<longrightarrow> record_in dev c q k r) \<and>
        (\<forall>q k r. q \<noteq> hs_target_page s \<longrightarrow> record_in dev d q k r = record_in dev c q k r)
      else record_in dev d = record_in dev c)"

text \<open>
  What a poll does to the other registers: a finished append leaves the store idle; reservations stay where they are, but for a
  page being rewritten; a finished reservation is held by the active page, a finished state is the newest.
\<close>

definition meters_step :: "u64 \<Rightarrow> bytes \<Rightarrow> bytes \<Rightarrow> 'f HistoryStore \<Rightarrow> 'f HistoryStore \<Rightarrow> bool" where
  "meters_step dev c d s s' \<longleftrightarrow> hs_next_ticket s' = hs_next_ticket s \<and> hs_pending_record s' = hs_pending_record s \<and>
     (hs_ready s \<and> hs_ready s' \<and> hs_job s = kAppend \<longrightarrow> hs_job s' = HistoryJob.kNone) \<and>
     (\<forall>p<kPageCount. \<not> (hs_ready s \<and> hs_job s = kNewPage \<and> p = hs_target_page s) \<longrightarrow> keeps c d p) \<and>
     (hs_ready s \<and> hs_ready s' \<and> hs_job s = kState \<longrightarrow> region_state dev d = hs_pending_state s) \<and>
     (hs_sequence_end s' = hs_sequence_end s \<and> \<not> (hs_ready s \<and> hs_ready s' \<and> hs_job s = kReserve) \<or>
      hs_ready s \<and> hs_job s = kReserve \<and> hs_sequence_end s' = hs_pending_sequence_end s \<and>
      held dev d (nat (hs_active_page s)) (hs_sequence_end s')) \<and>
     (hs_ready s \<and> hs_ready s' \<longrightarrow>
        (if hs_job s = kNewPage \<and> hs_phase s = kHeader then hs_job s' = kReserve else hs_active_page s' = hs_active_page s))"

lemma keeps_refl [simp]: "keeps c c p" by (simp add: keeps_def)

lemma meters_same: "hs_next_ticket s' = hs_next_ticket s \<Longrightarrow> hs_pending_record s' = hs_pending_record s \<Longrightarrow> hs_sequence_end s' = hs_sequence_end s \<Longrightarrow>
    hs_active_page s' = hs_active_page s \<Longrightarrow> \<not> hs_ready s \<or> hs_job s = HistoryJob.kNone \<Longrightarrow> meters_step dev c c s s'"
  by (auto simp: meters_step_def)

lemma meters_fail:
  assumes "hs_next_ticket s' = hs_next_ticket s" "hs_pending_record s' = hs_pending_record s" "hs_sequence_end s' = hs_sequence_end s"
    "\<not> hs_ready s'"
    and "\<forall>p<kPageCount. \<not> (hs_ready s \<and> hs_job s = kNewPage \<and> p = hs_target_page s) \<longrightarrow> keeps c d p"
  shows "meters_step dev c d s s'"
  using assms by (simp add: meters_step_def)

lemma append_fields:
  assumes "hs_append ops pk ident s = (s', ok)"
  shows "hs_sequence_end s' = hs_sequence_end s" "hs_active_page s' = hs_active_page s" "hs_next_ticket s' = hs_next_ticket s"
    "pk = Some (packet (hs_pending_record s)) \<Longrightarrow> ident = identity (hs_pending_record s) \<Longrightarrow> hs_pending_record s' = hs_pending_record s"
proof -
  have n: "hs_sequence_end (fst (startNewPage ops af s)) = hs_sequence_end s" "hs_active_page (fst (startNewPage ops af s)) = hs_active_page s"
    "hs_next_ticket (fst (startNewPage ops af s)) = hs_next_ticket s"
    "hs_pending_record (fst (startNewPage ops af s)) = hs_pending_record s" for af s by (simp_all add: startNewPage_def Let_def)
  have "hs_sequence_end (fst (hs_append ops pk ident s)) = hs_sequence_end s \<and> hs_active_page (fst (hs_append ops pk ident s)) = hs_active_page s \<and>
    hs_next_ticket (fst (hs_append ops pk ident s)) = hs_next_ticket s"
    by (auto simp: hs_append_def Let_def hs_count_def startBlob_def startNewPage_def split: prod.split)
  then show "hs_sequence_end s' = hs_sequence_end s" "hs_active_page s' = hs_active_page s" "hs_next_ticket s' = hs_next_ticket s"
    using assms by simp_all
  have "hs_pending_record (fst (hs_append ops (Some (packet (hs_pending_record s))) (identity (hs_pending_record s)) s)) = hs_pending_record s"
    by (auto simp: hs_append_def Let_def hs_count_def startBlob_def startNewPage_def split: prod.split)
  then show "pk = Some (packet (hs_pending_record s)) \<Longrightarrow> ident = identity (hs_pending_record s) \<Longrightarrow> hs_pending_record s' = hs_pending_record s"
    using assms by simp
qed

text \<open>The result flags of a poll that does not write a record: success is not announced.\<close>

definition flags_step :: "'f HistoryStore \<Rightarrow> 'f HistoryStore \<Rightarrow> bool" where
  "flags_step s s' \<longleftrightarrow> (hs_append_result_ready s' \<and> hs_append_success s' \<longrightarrow>
     hs_append_result_ready s \<and> hs_append_success s \<or> hs_ready s \<and> hs_job s = kAppend)"

lemma fail_flags: "flags_step s (hs_fail af (s\<lparr>hs_flash := f, hs_blob_step := st, hs_awaiting_completion := aw\<rparr>))"
  by (simp add: flags_step_def hs_fail_def hs_count_def Let_def)

lemma inv_cong:
  assumes "history_inv dev c s"
    and "hs_ready s' = hs_ready s" "hs_device_id s' = hs_device_id s" "hs_pages s' = hs_pages s" "hs_newest_generation s' = hs_newest_generation s"
      "hs_active_page s' = hs_active_page s" "hs_incarnation s' = hs_incarnation s" "hs_sequence_end s' = hs_sequence_end s"
      "hs_next_ticket s' \<le> hs_sequence_end s \<or> hs_next_ticket s' = hs_next_ticket s" "hs_state s' = hs_state s" "hs_job s' = hs_job s" "hs_phase s' = hs_phase s"
      "hs_target_page s' = hs_target_page s" "hs_target_slot s' = hs_target_slot s" "hs_target_generation s' = hs_target_generation s"
      "hs_target_sequence_slot s' = hs_target_sequence_slot s" "hs_target_state_slot s' = hs_target_state_slot s"
      "hs_pending_sequence_end s' = hs_pending_sequence_end s" "hs_pending_state s' = hs_pending_state s"
      "hs_pending_record s' = hs_pending_record s" "hs_append_after_new_page s' = hs_append_after_new_page s"
      "hs_blob s' = hs_blob s" "hs_blob_offset s' = hs_blob_offset s" "hs_blob_size s' = hs_blob_size s"
      "hs_blob_step s' = hs_blob_step s" "hs_awaiting_completion s' = hs_awaiting_completion s"
  shows "history_inv dev c s'"
proof -
  note eq = assms(2-8,10-26)
  have n: "next_page s' = next_page s" unfolding next_page_def eq by (rule refl)
  have b: "blob_is off b s' = blob_is off b s" for off b unfolding blob_is_def eq by (rule refl)
  have h: "hole s' = hole s" unfolding hole_def eq by (rule refl)
  have "at_work dev c s' = at_work dev c s" unfolding at_work_def n b eq by (rule refl)
  moreover have "indexed dev c s' = indexed dev c s" unfolding indexed_def h eq by (rule refl)
  moreover have "shaped s' = shaped s" unfolding shaped_def eq by (rule refl)
  moreover have "metered dev c s \<Longrightarrow> metered dev c s'" using assms(9) unfolding metered_def eq by auto
  ultimately have "at_work dev c s' = at_work dev c s" "indexed dev c s' = indexed dev c s" "shaped s' = shaped s"
    "metered dev c s \<Longrightarrow> metered dev c s'" by blast+
  then show ?thesis using assms(1,2,25,26) by (simp add: history_inv_def)
qed

lemma inv_count [simp]: "history_inv dev c s \<Longrightarrow> history_inv dev c (hs_count h s)"
  by (erule inv_cong) (simp_all add: hs_count_def)

lemma inv_flash: "history_inv dev c s \<Longrightarrow> history_inv dev c (s\<lparr>hs_flash := f\<rparr>)"
  by (erule inv_cong) simp_all

context journal_flash begin

section \<open>Appending\<close>

lemma append_step:
  assumes wf: "wf (hs_flash s)" "hs_ready s \<Longrightarrow> readable (hs_flash s)" and inv: "history_inv dev (cells (hs_flash s)) s"
    and a: "hs_append ops pk ident s = (s', ok)"
  shows "history_inv dev (cells (hs_flash s)) s'" "hs_flash s' = hs_flash s" "hs_ready s' = hs_ready s"
    "hs_append_result_ready s' = hs_append_result_ready s" "hs_append_success s' = hs_append_success s"
    "hs_next_ticket s' = hs_next_ticket s"
    "ok \<Longrightarrow> hs_ready s \<and> hs_job s = HistoryJob.kNone \<and> \<not> hs_append_result_ready s \<and> pk \<noteq> None \<and> ident \<le> hs_next_ticket s \<and>
      validPacket (the pk) ident dev \<and> (\<forall>r\<in>set (retained dev (cells (hs_flash s))). identity r < ident) \<and>
      hs_pending_record s' = \<lparr>identity = ident, packet = the pk\<rparr> \<and>
      (hs_job s' = kAppend \<or> hs_job s' = kNewPage \<and> hs_phase s' = kErase \<and> hs_append_after_new_page s')"
    "\<not> ok \<Longrightarrow> hs_job s' = hs_job s"
proof -
  let ?c = "cells (hs_flash s)" and ?fail = "\<lambda>d. d\<lparr>hd_append_failures := hd_append_failures d + 1\<rparr>"
  let ?refuse = "\<not> appendIdle s \<or> pk = None \<or> ident > hs_next_ticket s \<or> \<not> validPacket (the pk) ident (hs_device_id s) \<or>
         (case newest ops s of None \<Rightarrow> False | Some latest \<Rightarrow> ident \<le> identity latest)"
  have "history_inv dev ?c s' \<and> hs_flash s' = hs_flash s \<and> hs_ready s' = hs_ready s \<and>
    hs_append_result_ready s' = hs_append_result_ready s \<and> hs_append_success s' = hs_append_success s \<and>
    hs_next_ticket s' = hs_next_ticket s \<and>
    (ok \<longrightarrow> hs_ready s \<and> hs_job s = HistoryJob.kNone \<and> \<not> hs_append_result_ready s \<and> pk \<noteq> None \<and> ident \<le> hs_next_ticket s \<and>
      validPacket (the pk) ident dev \<and> (\<forall>r\<in>set (retained dev ?c). identity r < ident) \<and>
      hs_pending_record s' = \<lparr>identity = ident, packet = the pk\<rparr> \<and>
      (hs_job s' = kAppend \<or> hs_job s' = kNewPage \<and> hs_phase s' = kErase \<and> hs_append_after_new_page s')) \<and>
    (\<not> ok \<longrightarrow> hs_job s' = hs_job s)"
  proof (cases ?refuse)
    case True
    then have "(s', ok) = (hs_count ?fail s, False)" using a by (simp add: hs_append_def)
    then show ?thesis using inv by (simp add: hs_count_def [of _ s]) (metis hs_count_def inv_count)
  next
    case False
    then have r: "hs_ready s" "hs_job s = HistoryJob.kNone" "\<not> hs_append_result_ready s"
      by (simp_all add: appendIdle_def hs_busy_def)
    note i = inv_parts [OF inv r(1)]
    have cl: "calm dev ?c s" "\<not> hs_append_after_new_page s" using inv_calm [OF inv r(1,2)] by simp_all
    have dev: "hs_device_id s = dev" using i(4) by (simp add: indexed_def)
    obtain p where pk: "pk = Some p" using False by auto
    have lt: "\<forall>x\<in>set (retained dev ?c). identity x < ident"
      using read_newest [OF wf(1) wf(2) [OF r(1)] inv r(1)] False by (cases "newest ops s") (auto simp: not_le)
    let ?s1 = "s\<lparr>hs_pending_record := \<lparr>identity = ident, packet = p\<rparr>\<rparr>"
    let ?a = "nat (hs_active_page s)"
    have a0: "0 \<le> hs_active_page s" using cl(1) by (simp add: calm_def)
    note act = active_page [OF i(4) a0]
    have pg: "hs_pages s ! ?a = page_index dev ?c ?a" using i(4) r(2) act(1) by (simp add: indexed_def hole_def)
    have valid: "validPacket p ident dev" using False pk dev by simp
    show ?thesis
    proof (cases "kRecordsPerPage \<le> hp_records_used (page_index dev ?c ?a)")
      case True
      let ?s2 = "?s1\<lparr>hs_append_after_new_page := True\<rparr>"
      obtain s3 started where st: "startNewPage ops True ?s2 = (s3, started)" by fastforce
      have res: "(s', ok) = (if started then (s3, True) else (hs_count ?fail (s3\<lparr>hs_append_after_new_page := False\<rparr>), False))"
        unfolding a [symmetric] using False True pg pk st by (simp add: hs_append_def Let_def)
      have "calm dev ?c ?s2" using cl(1) by (simp add: calm_def indexed_def hole_def metered_def shaped_def)
      note sn = start_new_page [OF calm_rested [OF this] st]
      have b: "hs_flash s3 = hs_flash s" "hs_append_result_ready s3 = hs_append_result_ready s" "hs_append_success s3 = hs_append_success s"
        "hs_next_ticket s3 = hs_next_ticket s" "hs_pending_record s3 = \<lparr>identity = ident, packet = p\<rparr>"
        using sn(2) by (simp_all add: store_base_def)
      show ?thesis
      proof (cases started)
        case started: True
        then have "hs_ready s3" using st by (auto simp: startNewPage_def Let_def split: if_splits)
        then show ?thesis using res started sn(1) b r lt valid False pk by (simp add: not_less)
      next
        case ns: False
        then have n0: "hs_newest_generation s + 1 = 0"
          using st cl(1) by (auto simp: startNewPage_def Let_def hs_busy_def calm_def indexed_def split: if_splits)
        then have s3: "s3 = ?s2\<lparr>hs_target_page := next_page s, hs_target_generation := 0\<rparr>"
          using st cl(1) by (auto simp: startNewPage_def Let_def hs_busy_def calm_def indexed_def next_page_def split: if_splits)
        have "history_inv dev ?c (s3\<lparr>hs_append_after_new_page := False\<rparr>)"
          by (rule calm_inv) (use cl(1) in \<open>simp_all add: s3 calm_def indexed_def hole_def metered_def shaped_def\<close>)
        then show ?thesis using res ns r by (simp add: s3) (simp add: hs_count_def)
      qed
    next
      case room: False
      define b where "b = encodeRecord \<lparr>identity = ident, packet = p\<rparr> (replicate 36 0)"
      let ?u = "hp_records_used (page_index dev ?c ?a)"
      define s3 where "s3 = (startBlob (recordOffset ?a ?u) b (?s1\<lparr>hs_target_page := ?a, hs_target_slot := ?u\<rparr>))\<lparr>hs_job := kAppend, hs_phase := HistoryPhase.kBlob\<rparr>"
      have res: "(s', ok) = (s3, True)"
        unfolding a [symmetric] s3_def using False room pg pk by (simp add: hs_append_def Let_def b_def kRecordSize_def)
      have "blob_is (recordOffset ?a ?u) b s3"
        using i(3) by (simp add: s3_def blob_is_def startBlob_def shaped_def write_at_def b_def kPageHeaderSize_def)
      then have "at_work dev ?c s3" using cl a0 room valid lt by (simp add: at_work_def Let_def s3_def b_def)
      moreover have "indexed dev ?c s3" by (rule base_indexed [OF i(4)]) (simp_all add: hole_def r s3_def)
      moreover have "metered dev ?c s3" "shaped s3" using i(3,5) by (simp_all add: metered_def shaped_def s3_def startBlob_def)
      ultimately have "history_inv dev ?c s3" using i(1) by (simp add: history_inv_def s3_def)
      then show ?thesis using res r lt valid False pk by (simp add: not_less) (simp add: s3_def)
    qed
  qed
  then show "history_inv dev ?c s'" "hs_flash s' = hs_flash s" "hs_ready s' = hs_ready s"
    "hs_append_result_ready s' = hs_append_result_ready s" "hs_append_success s' = hs_append_success s"
    "hs_next_ticket s' = hs_next_ticket s"
    "ok \<Longrightarrow> hs_ready s \<and> hs_job s = HistoryJob.kNone \<and> \<not> hs_append_result_ready s \<and> pk \<noteq> None \<and> ident \<le> hs_next_ticket s \<and>
      validPacket (the pk) ident dev \<and> (\<forall>r\<in>set (retained dev ?c). identity r < ident) \<and>
      hs_pending_record s' = \<lparr>identity = ident, packet = the pk\<rparr> \<and>
      (hs_job s' = kAppend \<or> hs_job s' = kNewPage \<and> hs_phase s' = kErase \<and> hs_append_after_new_page s')"
    "\<not> ok \<Longrightarrow> hs_job s' = hs_job s" by blast+
qed

end

end
