(* ===== verification/History_Poll.thy ===== *)
theory History_Poll
  imports History_Run
begin

text \<open>
  \<open>poll\<close> of the history store (\<open>firmware/src/history_store.cpp\<close>): one erase or one write, and the job that
  follows it.
\<close>

lemma page_frame_others:
  assumes "length c = kHistoryRegion" "length d = length c" "p < kPageCount"
    and "\<And>i. i < kHistoryRegion \<Longrightarrow> i < p * kPageSize \<or> p * kPageSize + kPageSize \<le> i \<Longrightarrow> d ! i = c ! i"
  shows "others_same c d p"
proof -
  have r: "p * kPageSize + kPageSize \<le> length c" using assms(1,3) by (simp add: history_layout)
  let ?x = "slice (p * kPageSize) kPageSize d"
  have lx: "length ?x = kPageSize" using r assms(2) by simp
  have d: "d = write_at (pageOffset p) ?x c"
    unfolding pageOffset_def by (rule write_at_from_frame) (use assms r lx in auto)
  have "pageOffset p + length ?x \<le> pageOffset p + kPageSize" using lx by simp
  note wp = write_page [OF order_refl this, where c = c, folded d]
  show ?thesis unfolding others_same_def same_page_def using wp by simp
qed

text \<open>The unit a job is about to write is blank, the blob is committed.\<close>

lemma unit_places:
  "pageOffset p mod 4 = 0 \<and> pageOffset p mod kPageSize + 64 \<le> kPageSize"
  "k < kSequenceSlotsPerPage \<Longrightarrow> sequenceOffset p k mod 4 = 0 \<and> sequenceOffset p k mod kPageSize + 16 \<le> kPageSize"
  "k < kStateSlotsPerPage \<Longrightarrow> stateOffset p k mod 4 = 0 \<and> stateOffset p k mod kPageSize + 32 \<le> kPageSize"
  "k < kRecordsPerPage \<Longrightarrow> recordOffset p k mod 4 = 0 \<and> recordOffset p k mod kPageSize + 36 \<le> kPageSize"
proof -
  have m: "(p * kPageSize + x) mod 4 = x mod 4 \<and> (x < kPageSize \<longrightarrow> (p * kPageSize + x) mod kPageSize = x)" for x
  proof -
    have "p * kPageSize + x = 4 * (p * 1024) + x" by (simp add: kPageSize_def)
    then have "(p * kPageSize + x) mod 4 = x mod 4" by (simp only: mod_mult_self4)
    then show ?thesis by simp
  qed
  have o: "pageOffset p = p * kPageSize + 0" "sequenceOffset p k = p * kPageSize + (64 + k * 16)"
    "stateOffset p k = p * kPageSize + (192 + k * 32)" "recordOffset p k = p * kPageSize + (352 + k * 36)"
    by (simp_all add: pageOffset_def sequenceOffset_def stateOffset_def recordOffset_def kStaticHeaderSize_def kSequenceSlotSize_def
        kSequenceSlotsPerPage_def kStateSlotSize_def kPageHeaderSize_def kRecordSize_def)
  have f: "(64 + k * 16) mod 4 = 0" "(192 + k * 32) mod 4 = 0" "(352 + k * 36) mod 4 = 0" by presburger+
  show "pageOffset p mod 4 = 0 \<and> pageOffset p mod kPageSize + 64 \<le> kPageSize"
    using m [of 0] unfolding o by (simp add: kPageSize_def)
  show "k < kSequenceSlotsPerPage \<Longrightarrow> sequenceOffset p k mod 4 = 0 \<and> sequenceOffset p k mod kPageSize + 16 \<le> kPageSize"
    using m [of "64 + k * 16"] f unfolding o by (simp add: kPageSize_def kSequenceSlotsPerPage_def)
  show "k < kStateSlotsPerPage \<Longrightarrow> stateOffset p k mod 4 = 0 \<and> stateOffset p k mod kPageSize + 32 \<le> kPageSize"
    using m [of "192 + k * 32"] f unfolding o by (simp add: kPageSize_def kStateSlotsPerPage_def)
  show "k < kRecordsPerPage \<Longrightarrow> recordOffset p k mod 4 = 0 \<and> recordOffset p k mod kPageSize + 36 \<le> kPageSize"
    using m [of "352 + k * 36"] f unfolding o by (simp add: kPageSize_def kRecordsPerPage_def kPageHeaderSize_def kRecordSize_def)
qed

lemma job_unit:
  assumes inv: "history_inv dev c s" "hs_ready s" and job: "hs_job s \<noteq> HistoryJob.kNone" "hs_phase s \<noteq> kErase"
  obtains off b where "blob_is off b s" "8 \<le> length b" "committed b" "off + length b \<le> kHistoryRegion"
    "blank_slot (slice off (length b) c)" "off mod 4 = 0" "length b mod 4 = 0" "length b \<le> 64" "off mod kPageSize + length b \<le> kPageSize"
proof -
  note i = inv_parts [OF inv]
  let ?a = "nat (hs_active_page s)"
  show thesis
  proof (cases "hs_job s")
    case kNone
    then show ?thesis using job by simp
  next
    case kNewPage
    note n = new_page_facts [OF inv kNewPage]
    let ?t = "hs_target_page s" and ?b = "encodePage (hs_target_generation s) dev (hs_incarnation s) (replicate 64 0)"
    have w: "blob_is (pageOffset ?t) ?b s" "blank_slot (header_at c ?t)" using i(6) kNewPage job by (auto simp: at_work_def Let_def)
    show ?thesis using that [OF w(1)] w(2) encoded_committed(3) hist_rooms(1) [OF n(1)] unit_places(1) by (simp add: header_at_def kStaticHeaderSize_def)
  next
    case kReserve
    let ?t = "hs_target_sequence_slot s" and ?b = "encodeSequenceEnd (hs_pending_sequence_end s) (replicate 16 0)"
    have w: "0 \<le> hs_active_page s" "blob_is (sequenceOffset ?a ?t) ?b s" "?t = hp_sequence_used (page_index dev c ?a)" "?t < kSequenceSlotsPerPage"
      using i(6) kReserve by (auto simp: at_work_def Let_def)
    note act = active_page [OF i(4) w(1)]
    obtain gen inc where "decodePage (header_at c ?a) dev = Some (gen, inc)" using act(2) by (auto simp: decodable_def)
    then have "blank_slot (sequence_at c ?a ?t)" using page_index_decoded(2) w(3,4) by (metis filled_def)
    then show ?thesis using that [OF w(2)] encoded_committed(1) hist_rooms(2) [OF act(1) w(4)] unit_places(2) [OF w(4)] by (simp add: sequence_at_def kSequenceSlotSize_def)
  next
    case kState
    let ?t = "hs_target_state_slot s" and ?b = "encodeState (hs_pending_state s) (replicate 32 0)"
    have w: "0 \<le> hs_active_page s" "blob_is (stateOffset ?a ?t) ?b s" "?t = hp_state_used (page_index dev c ?a)" "?t < kStateSlotsPerPage"
      using i(6) kState by (auto simp: at_work_def Let_def)
    note act = active_page [OF i(4) w(1)]
    obtain gen inc where "decodePage (header_at c ?a) dev = Some (gen, inc)" using act(2) by (auto simp: decodable_def)
    then have "blank_slot (state_at c ?a ?t)" using page_index_decoded(3) w(3,4) by (metis filled_def)
    then show ?thesis using that [OF w(2)] encoded_committed(2) hist_rooms(3) [OF act(1) w(4)] unit_places(3) [OF w(4)] by (simp add: state_at_def kStateSlotSize_def)
  next
    case kAppend
    let ?t = "hs_target_slot s" and ?b = "encodeRecord (hs_pending_record s) (replicate 36 0)"
    have w: "0 \<le> hs_active_page s" "blob_is (recordOffset ?a ?t) ?b s" "?t = hp_records_used (page_index dev c ?a)" "?t < kRecordsPerPage"
      using i(6) kAppend by (auto simp: at_work_def Let_def)
    note act = active_page [OF i(4) w(1)]
    obtain gen inc where "decodePage (header_at c ?a) dev = Some (gen, inc)" using act(2) by (auto simp: decodable_def)
    then have "blank_slot (record_at c ?a ?t)" using page_index_decoded(5) w(3,4) by (metis order_refl)
    then show ?thesis using that [OF w(2)] encoded_committed(4) hist_rooms(4) [OF act(1) w(4)] unit_places(4) [OF w(4)] by (simp add: record_at_def kRecordSize_def)
  qed
qed

lemma job_blob:
  assumes inv: "history_inv dev c s" "hs_ready s" and job: "hs_job s \<noteq> HistoryJob.kNone" "hs_phase s \<noteq> kErase"
  obtains off b where "blob_is off b s" "4 \<le> length b" "committed b" "off + length b \<le> kHistoryRegion"
    "\<not> committed (slice off (length b) c)"
proof -
  obtain off b where b: "blob_is off b s" "8 \<le> length b" "committed b" "off + length b \<le> kHistoryRegion"
    "blank_slot (slice off (length b) c)" by (rule job_unit [OF inv job])
  have "length (slice off (length b) c) = length b" using b(4) inv_parts(2) [OF inv] by simp
  moreover have "4 \<le> length b" using b(2) by simp
  ultimately show thesis using that b blank_not_committed by blast
qed

lemma on_page_more [simp]:
  "hs_target_page (on_page p h s) = hs_target_page s" "hs_target_slot (on_page p h s) = hs_target_slot s"
  "hs_target_generation (on_page p h s) = hs_target_generation s" "hs_job (on_page p h s) = hs_job s"
  "hs_pending_sequence_end (on_page p h s) = hs_pending_sequence_end s" "hs_pending_state (on_page p h s) = hs_pending_state s"
  "hs_append_after_new_page (on_page p h s) = hs_append_after_new_page s" "hs_pending_record (on_page p h s) = hs_pending_record s"
  by (simp_all add: on_page_def)

lemma start_flash:
  "startNewPage ops af s = (s', ok) \<Longrightarrow> hs_flash s' = hs_flash s" "startReservation ops s = (s', ok) \<Longrightarrow> hs_flash s' = hs_flash s"
  "hs_append ops pk ident s = (s', ok) \<Longrightarrow> hs_flash s' = hs_flash s"
proof -
  have n: "hs_flash (fst (startNewPage ops af s)) = hs_flash s" for af s by (simp add: startNewPage_def Let_def)
  then show "startNewPage ops af s = (s', ok) \<Longrightarrow> hs_flash s' = hs_flash s" by (metis fst_conv)
  have r: "hs_flash (fst (startReservation ops s)) = hs_flash s" using n [of False s] by (simp add: startReservation_def Let_def)
  then show "startReservation ops s = (s', ok) \<Longrightarrow> hs_flash s' = hs_flash s" by (metis fst_conv)
  have "hs_flash (fst (hs_append ops pk ident s)) = hs_flash s"
    by (auto simp: hs_append_def Let_def hs_count_def startNewPage_def split: prod.split)
  then show "hs_append ops pk ident s = (s', ok) \<Longrightarrow> hs_flash s' = hs_flash s" by (metis fst_conv)
qed

lemma finish_flash: "hs_flash (hs_finishBlob ops s) = hs_flash s"
  by (cases "hs_job s") (auto simp: hs_finishBlob_def Let_def hs_count_def dest!: start_flash split: prod.split)

context journal_flash begin

section \<open>A finished write\<close>

lemma finish_new_page:
  assumes job: "hs_job s = kNewPage" and cl: "calm dev c ((on_page (hs_target_page s) (\<lambda>_. HistoryPage_init\<lparr>hp_generation := hs_target_generation s\<rparr>) s)
        \<lparr>hs_newest_generation := hs_target_generation s, hs_active_page := int (hs_target_page s), hs_job := HistoryJob.kNone\<rparr>)"
  shows "history_inv dev c (hs_finishBlob ops s)" "flags_step s (hs_finishBlob ops s)"
    "hs_next_ticket (hs_finishBlob ops s) = hs_next_ticket s" "hs_sequence_end (hs_finishBlob ops s) = hs_sequence_end s"
    "hs_ready (hs_finishBlob ops s) \<Longrightarrow> hs_job (hs_finishBlob ops s) = kReserve" "hs_pending_record (hs_finishBlob ops s) = hs_pending_record s"
proof -
  let ?s1 = "(on_page (hs_target_page s) (\<lambda>_. HistoryPage_init\<lparr>hp_generation := hs_target_generation s\<rparr>) s)
        \<lparr>hs_newest_generation := hs_target_generation s, hs_active_page := int (hs_target_page s), hs_job := HistoryJob.kNone\<rparr>"
  obtain s2 started where st: "startReservation ops ?s1 = (s2, started)" by fastforce
  note sr = start_reservation [OF cl st]
  have f: "hs_finishBlob ops s = (if started then s2 else hs_fail (hs_append_after_new_page s2) s2)"
    using job st by (simp add: hs_finishBlob_def Let_def)
  have fl: "hs_append_result_ready s2 = hs_append_result_ready s" "hs_append_success s2 = hs_append_success s"
    using sr(2) by (simp_all add: store_base_def on_page_def)
  show "history_inv dev c (hs_finishBlob ops s)"
    using f sr(1,3) cl not_ready_inv [of dev c "hs_fail (hs_append_after_new_page s2) s2"] by (simp add: calm_def)
  show "flags_step s (hs_finishBlob ops s)"
    using f fl by (auto simp: flags_step_def hs_fail_def hs_count_def Let_def)
  show "hs_next_ticket (hs_finishBlob ops s) = hs_next_ticket s" "hs_sequence_end (hs_finishBlob ops s) = hs_sequence_end s"
    "hs_pending_record (hs_finishBlob ops s) = hs_pending_record s"
    using f sr(2) by (simp_all add: store_base_def on_page_def hs_fail_def hs_count_def Let_def)
  have "hs_target_page s < length (hs_pages s)"
    using cl active_page(1) [of dev c ?s1] by (simp add: calm_def shaped_def on_page_def)
  then have "hp_sequence_used (hs_pages ?s1 ! nat (hs_active_page ?s1)) = 0" by (simp add: on_page_def HistoryPage_init_def)
  then have "started \<Longrightarrow> hs_job s2 = kReserve"
    using st by (auto simp: startReservation_def Let_def kSequenceSlotsPerPage_def split: if_splits)
  then show "hs_ready (hs_finishBlob ops s) \<Longrightarrow> hs_job (hs_finishBlob ops s) = kReserve"
    using f by (auto simp: hs_fail_def hs_count_def Let_def split: if_splits)
qed

lemma finish_reserve:
  assumes job: "hs_job s = kReserve" and wf: "wf (hs_flash s)" "readable (hs_flash s)"
    and cl: "calm dev (cells (hs_flash s)) ((on_page (hs_target_page s) (\<lambda>g. g\<lparr>hp_sequence_used := hp_sequence_used g + 1\<rparr>) s)
        \<lparr>hs_sequence_end := hs_pending_sequence_end s, hs_job := HistoryJob.kNone\<rparr>)"
  shows "history_inv dev (cells (hs_flash s)) (hs_finishBlob ops s)" "flags_step s (hs_finishBlob ops s)"
    "hs_next_ticket (hs_finishBlob ops s) = hs_next_ticket s" "hs_sequence_end (hs_finishBlob ops s) = hs_pending_sequence_end s"
    "hs_active_page (hs_finishBlob ops s) = hs_active_page s" "hs_pending_record (hs_finishBlob ops s) = hs_pending_record s"
proof -
  let ?s1 = "(on_page (hs_target_page s) (\<lambda>g. g\<lparr>hp_sequence_used := hp_sequence_used g + 1\<rparr>) s)
        \<lparr>hs_sequence_end := hs_pending_sequence_end s, hs_job := HistoryJob.kNone\<rparr>"
  let ?s2 = "?s1\<lparr>hs_append_after_new_page := False\<rparr>"
  have i2: "history_inv dev (cells (hs_flash s)) ?s2"
    by (rule calm_inv) (use cl in \<open>simp_all add: calm_def indexed_def hole_def metered_def shaped_def\<close>)
  have "history_inv dev (cells (hs_flash s)) (hs_finishBlob ops s) \<and> flags_step s (hs_finishBlob ops s)"
  proof (cases "hs_append_after_new_page s")
    case False
    then have e: "hs_finishBlob ops s = ?s1" using job by (simp add: hs_finishBlob_def Let_def on_page_def)
    have na: "\<not> hs_append_after_new_page ?s1" using False by (simp add: on_page_def)
    show ?thesis unfolding e using calm_inv [OF cl na] by (simp add: flags_step_def on_page_def)
  next
    case True
    obtain s3 ok where a: "hs_append ops (Some (packet (hs_pending_record s))) (identity (hs_pending_record s)) ?s2 = (s3, ok)" by fastforce
    have e: "hs_finishBlob ops s = (if ok then s3 else s3\<lparr>hs_append_result_ready := True, hs_append_success := False, hs_ready := False\<rparr>)"
      using job True a by (simp add: hs_finishBlob_def Let_def on_page_def)
    have f2: "hs_flash ?s2 = hs_flash s" by (simp add: on_page_def)
    have a1: "wf (hs_flash ?s2)" "hs_ready ?s2 \<Longrightarrow> readable (hs_flash ?s2)" "history_inv dev (cells (hs_flash ?s2)) ?s2"
      using wf i2 by (simp_all add: f2)
    note as = append_step [OF a1 a]
    have i3: "history_inv dev (cells (hs_flash s)) s3" using as(1) f2 by simp
    have "history_inv dev (cells (hs_flash s)) (s3\<lparr>hs_append_result_ready := True, hs_append_success := False, hs_ready := False\<rparr>)"
      using i3 by (simp add: history_inv_def shaped_def)
    then show ?thesis using e i3 as(4,5) by (simp add: flags_step_def on_page_def)
  qed
  then show "history_inv dev (cells (hs_flash s)) (hs_finishBlob ops s)" "flags_step s (hs_finishBlob ops s)" by simp_all
  obtain s3 ok where a: "hs_append ops (Some (packet (hs_pending_record s))) (identity (hs_pending_record s)) ?s2 = (s3, ok)" by fastforce
  have "hs_finishBlob ops s = (if hs_append_after_new_page s then
      if ok then s3 else s3\<lparr>hs_append_result_ready := True, hs_append_success := False, hs_ready := False\<rparr> else ?s1)"
    using job a by (simp add: hs_finishBlob_def Let_def on_page_def)
  then show "hs_next_ticket (hs_finishBlob ops s) = hs_next_ticket s" "hs_sequence_end (hs_finishBlob ops s) = hs_pending_sequence_end s"
    "hs_active_page (hs_finishBlob ops s) = hs_active_page s" "hs_pending_record (hs_finishBlob ops s) = hs_pending_record s"
    using append_fields [OF a] by (simp_all add: on_page_def)
qed

section \<open>One poll\<close>

definition poll_good :: "u64 \<Rightarrow> 'f HistoryStore \<Rightarrow> 'f HistoryStore \<Rightarrow> bool" where
  "poll_good dev s s' \<longleftrightarrow> wf (hs_flash s') \<and> (hs_ready s' \<longrightarrow> readable (hs_flash s')) \<and>
     history_inv dev (cells (hs_flash s')) s' \<and>
     records_step dev (cells (hs_flash s)) (cells (hs_flash s')) s s' \<and> flags_step s s' \<and>
     meters_step dev (cells (hs_flash s)) (cells (hs_flash s')) s s'"

lemma failed_good:
  assumes "wf f" "sound dev (cells f)" "shaped s" and s': "s' = hs_fail af (s\<lparr>hs_flash := f, hs_blob_step := st, hs_awaiting_completion := aw\<rparr>)"
    and rs: "records_step dev (cells (hs_flash s)) (cells f) s s'"
    and kp: "\<forall>p<kPageCount. \<not> (hs_ready s \<and> hs_job s = kNewPage \<and> p = hs_target_page s) \<longrightarrow> keeps (cells (hs_flash s)) (cells f) p"
  shows "poll_good dev s s'"
proof -
  have nr: "hs_flash s' = f" "\<not> hs_ready s'" "shaped s'" using assms(3) by (simp_all add: s') (simp add: shaped_def)
  have "hs_next_ticket s' = hs_next_ticket s" "hs_pending_record s' = hs_pending_record s" "hs_sequence_end s' = hs_sequence_end s"
    by (simp_all add: s' hs_fail_def hs_count_def Let_def)
  then have "meters_step dev (cells (hs_flash s)) (cells f) s s'" using meters_fail nr(2) kp by blast
  then show ?thesis
    using nr assms(1,2) rs fail_flags [where s = s and af = af and f = f and st = st and aw = aw] not_ready_inv [of dev "cells f" s'] by (simp add: poll_good_def s')
qed

lemma poll_erase_good:
  assumes wf: "wf (hs_flash s)" "readable (hs_flash s)" and inv: "history_inv dev (cells (hs_flash s)) s" "hs_ready s"
    and job: "hs_job s = kNewPage" "hs_phase s = kErase"
  shows "poll_good dev s (hs_poll_erase ops s)"
proof -
  let ?c = "cells (hs_flash s)" and ?t = "hs_target_page s"
  note i = inv_parts [OF inv] and n = new_page_facts [OF inv job(1)]
  obtain f r where e: "fb_erasePage ops (hs_flash s) ?t = (f, r)" by fastforce
  have f: "wf f" "readable f" "r \<noteq> kPending" "fades ?c (cells f) ?t"
    using erase_wf [OF wf(1), of ?t] erase_readable [OF wf(2), of ?t] erase_sync [of "hs_flash s" ?t] erase_fades [OF wf(1) n(1)] e by simp_all
  have len: "length (cells f) = length ?c" using cells_length f(1) wf(1) by simp
  have os: "others_same ?c (cells f) ?t"
    by (rule page_frame_others [OF i(2) len n(1)]) (use erase_frame [OF wf(1) e] in blast)
  note ef = erase_faded [OF inv job(1) len os f(4)]
  have rs: "records_step dev ?c (cells f) s s'" for s' using ef(2,3) inv(2) job by (simp add: records_step_def)
  have dev: "hs_device_id s = dev" using i(4) by (simp add: indexed_def)
  have kp: "\<forall>p<kPageCount. \<not> (hs_ready s \<and> hs_job s = kNewPage \<and> p = ?t) \<longrightarrow> keeps ?c (cells f) p"
    using keeps_others [OF os] inv(2) job by blast
  show ?thesis
  proof (cases "r = kDone")
    case False
    then have "r = kFailed" using f(3) by (cases r) auto
    then have "hs_poll_erase ops s = hs_fail (hs_append_after_new_page s) (s\<lparr>hs_flash := f, hs_blob_step := kBody, hs_awaiting_completion := False\<rparr>)"
      using e i(7,8) by (simp add: hs_poll_erase_def Let_def) (simp add: hs_fail_def hs_count_def Let_def)
    then show ?thesis using failed_good [OF f(1) ef(1) i(3) _ rs kp] by blast
  next
    case True
    have d: "cells f = write_at (?t * kPageSize) (replicate kPageSize 0xFF) ?c" using erase_done [OF wf(1)] e True by simp
    obtain h where s': "hs_poll_erase ops s = startBlob (pageOffset ?t) (encodePage (hs_target_generation s) dev (hs_incarnation s) (replicate 64 0))
      ((hs_count h (s\<lparr>hs_flash := f, hs_awaiting_completion := False\<rparr>))\<lparr>hs_pending_capacity_lost := 0, hs_phase := kHeader\<rparr>)"
      using e True i(8) dev by (simp add: hs_poll_erase_def Let_def hs_count_def kStaticHeaderSize_def)
    note ei = erase_done_inv [OF inv job d f(4), of h f]
    have fl: "hs_flash (hs_poll_erase ops s) = f" "flags_step s (hs_poll_erase ops s)" unfolding s'
      by (simp_all add: hs_count_def flags_step_def)
    have "hs_next_ticket (hs_poll_erase ops s) = hs_next_ticket s" "hs_sequence_end (hs_poll_erase ops s) = hs_sequence_end s"
      "hs_active_page (hs_poll_erase ops s) = hs_active_page s" "hs_pending_record (hs_poll_erase ops s) = hs_pending_record s" unfolding s' by (simp_all add: hs_count_def)
    then have ms: "meters_step dev ?c (cells f) s (hs_poll_erase ops s)" using kp job by (simp add: meters_step_def)
    show ?thesis using ei fl f(1,2) ms rs [of "hs_poll_erase ops s"] by (simp add: poll_good_def s' [symmetric])
  qed
qed

lemma poll_write_good:
  assumes wf: "wf (hs_flash s)" "readable (hs_flash s)" and inv: "history_inv dev (cells (hs_flash s)) s" "hs_ready s"
    and job: "hs_job s \<noteq> HistoryJob.kNone" "hs_phase s \<noteq> kErase"
  shows "poll_good dev s (let (s, r) = hs_writeBlob ops s in if r \<noteq> kDone then s else hs_finishBlob ops s)"
proof -
  let ?c = "cells (hs_flash s)"
  note i = inv_parts [OF inv]
  obtain off b where b: "blob_is off b s" "4 \<le> length b" "committed b" "off + length b \<le> kHistoryRegion"
    "\<not> committed (slice off (length b) ?c)" by (rule job_blob [OF inv job])
  have bf: "hs_blob_offset s = off" "hs_blob_size s = length b" "take (length b) (hs_blob s) = b" using b(1) by (simp_all add: blob_is_def)
  have bl: "length b \<le> length (hs_blob s)" using arg_cong [OF bf(3), of length] by simp
  obtain s1 r where w: "hs_writeBlob ops s = (s1, r)" by fastforce
  obtain x where x: "blob_written s s1 r x"
    using write_blob [OF wf i(7,8) _ _ _ _ _ w] b(2-5) bf bl by auto
  let ?f = "hs_flash s1"
  have wf1: "wf ?f" and lx: "length x = length b" and d: "cells ?f = write_at off x ?c"
    and out: "r = kDone \<and> x = b \<and> readable ?f \<and> s1 = s\<lparr>hs_flash := ?f\<rparr> \<or> r = kFailed \<and> (x = b \<or> \<not> committed x) \<and>
        (\<exists>st aw. s1 = hs_fail (hs_job s = kAppend \<or> hs_append_after_new_page s)
           (s\<lparr>hs_flash := ?f, hs_blob_step := st, hs_awaiting_completion := aw\<rparr>))"
    using x bf by (simp_all add: blob_written_def)
  have xo: "x = b \<or> \<not> committed x" using out by blast
  have failed: "poll_good dev s s1" if a: "r \<noteq> kDone" "sound dev (cells ?f)" "records_step dev ?c (cells ?f) s s1"
    and kp: "\<forall>p<kPageCount. \<not> (hs_ready s \<and> hs_job s = kNewPage \<and> p = hs_target_page s) \<longrightarrow> keeps ?c (cells ?f) p"
  proof -
    obtain st aw where s1: "s1 = hs_fail (hs_job s = kAppend \<or> hs_append_after_new_page s)
        (s\<lparr>hs_flash := ?f, hs_blob_step := st, hs_awaiting_completion := aw\<rparr>)" using out a(1) by blast
    show ?thesis by (rule failed_good [OF wf1 a(2) i(3) s1 a(3) kp])
  qed
  show ?thesis
  proof (cases "hs_job s")
    case kNone
    then show ?thesis using job by simp
  next
    case kNewPage
    then have ph: "hs_phase s = kHeader" using i(6) job by (auto simp: at_work_def Let_def)
    have be: "off = pageOffset (hs_target_page s)" "b = encodePage (hs_target_generation s) dev (hs_incarnation s) (replicate 64 0)"
      using i(6) kNewPage ph b(1) bf by (auto simp: at_work_def Let_def blob_is_def)
    note pw = page_header_written [OF inv kNewPage ph _ _ d [unfolded be(1)]]
    have rs: "records_step dev ?c (cells ?f) s s'" for s'
      using pw(2) lx xo be(2) inv(2) kNewPage ph by (simp add: records_step_def)
    have kp: "\<forall>p<kPageCount. \<not> (hs_ready s \<and> hs_job s = kNewPage \<and> p = hs_target_page s) \<longrightarrow> keeps ?c (cells ?f) p"
      using pw(3) lx xo be(2) inv(2) kNewPage by simp
    show ?thesis
    proof (cases "r = kDone")
      case False
      have "sound dev (cells ?f)" by (rule pw(1)) (use lx xo be(2) in auto)
      then show ?thesis using failed [OF False _ rs kp] w False by simp
    next
      case True
      then have e: "x = b" "readable ?f" "s1 = s\<lparr>hs_flash := ?f\<rparr>" using out by auto
      have cl: "calm dev (cells ?f) ((on_page (hs_target_page s1) (\<lambda>_. HistoryPage_init\<lparr>hp_generation := hs_target_generation s1\<rparr>) s1)
        \<lparr>hs_newest_generation := hs_target_generation s1, hs_active_page := int (hs_target_page s1), hs_job := HistoryJob.kNone\<rparr>)"
        using pw(4) lx be(2) e(1) by (subst (1 2 3 4 5) e(3)) simp
      have j1: "hs_job s1 = kNewPage" by (subst e(3)) (simp add: kNewPage)
      note fn = finish_new_page [OF j1 cl]
      have "hs_append_result_ready s1 = hs_append_result_ready s \<and> hs_append_success s1 = hs_append_success s"
        by (subst (1 2) e(3)) simp
      then have "flags_step s (hs_finishBlob ops s1)" using fn(2) j1 by (simp add: flags_step_def)
      moreover have "hs_next_ticket s1 = hs_next_ticket s \<and> hs_sequence_end s1 = hs_sequence_end s \<and>
          hs_pending_sequence_end s1 = hs_pending_sequence_end s \<and> hs_active_page s1 = hs_active_page s \<and>
          hs_pending_record s1 = hs_pending_record s"
        by (subst (1 2 3 4 5) e(3)) simp
      moreover from this have "meters_step dev ?c (cells ?f) s (hs_finishBlob ops s1)"
        using fn(3-) kp kNewPage ph by (simp add: meters_step_def)
      ultimately show ?thesis using w True fn(1) wf1 e(2) rs finish_flash [of ops s1] by (simp add: poll_good_def)
    qed
  next
    case kReserve
    have be: "off = sequenceOffset (hs_target_page s) (hs_target_sequence_slot s)" "b = encodeSequenceEnd (hs_pending_sequence_end s) (replicate 16 0)"
      using i(6) kReserve b(1) bf by (auto simp: at_work_def Let_def blob_is_def)
    note pw = reserve_written [OF inv kReserve _ _ d [unfolded be(1)]]
    have rs: "records_step dev ?c (cells ?f) s s'" for s'
      using pw(2) lx xo be(2) inv(2) kReserve by (simp add: records_step_def)
    have kp: "\<forall>p<kPageCount. \<not> (hs_ready s \<and> hs_job s = kNewPage \<and> p = hs_target_page s) \<longrightarrow> keeps ?c (cells ?f) p"
      using pw(3) lx xo be(2) by simp
    show ?thesis
    proof (cases "r = kDone")
      case False
      have "sound dev (cells ?f)" by (rule pw(1)) (use lx xo be(2) in auto)
      then show ?thesis using failed [OF False _ rs kp] w False by simp
    next
      case True
      then have e: "x = b" "readable ?f" "s1 = s\<lparr>hs_flash := ?f\<rparr>" using out by auto
      have cl: "calm dev (cells ?f) ((on_page (hs_target_page s1) (\<lambda>g. g\<lparr>hp_sequence_used := hp_sequence_used g + 1\<rparr>) s1)
        \<lparr>hs_sequence_end := hs_pending_sequence_end s1, hs_job := HistoryJob.kNone\<rparr>)"
        using pw(5) lx be(2) e(1) by (subst (1 2 3) e(3)) simp
      have hl: "held dev (cells ?f) (nat (hs_active_page s)) (hs_pending_sequence_end s)" using pw(5) lx be(2) e(1) by simp
      have j1: "hs_job s1 = kReserve" by (subst e(3)) (simp add: kReserve)
      note fn = finish_reserve [OF j1 wf1 e(2) cl]
      have "hs_append_result_ready s1 = hs_append_result_ready s \<and> hs_append_success s1 = hs_append_success s"
        by (subst (1 2) e(3)) simp
      then have "flags_step s (hs_finishBlob ops s1)" using fn(2) j1 by (simp add: flags_step_def)
      moreover have "hs_next_ticket s1 = hs_next_ticket s \<and> hs_sequence_end s1 = hs_sequence_end s \<and>
          hs_pending_sequence_end s1 = hs_pending_sequence_end s \<and> hs_active_page s1 = hs_active_page s \<and>
          hs_pending_record s1 = hs_pending_record s"
        by (subst (1 2 3 4 5) e(3)) simp
      moreover from this have "meters_step dev ?c (cells ?f) s (hs_finishBlob ops s1)"
        using fn(3-) kp kReserve hl inv(2) by (simp add: meters_step_def)
      ultimately show ?thesis using w True fn(1) wf1 e(2) rs finish_flash [of ops s1] by (simp add: poll_good_def)
    qed
  next
    case kState
    have be: "off = stateOffset (hs_target_page s) (hs_target_state_slot s)" "b = encodeState (hs_pending_state s) (replicate 32 0)"
      using i(6) kState b(1) bf by (auto simp: at_work_def Let_def blob_is_def)
    note pw = state_slot_written [OF inv kState _ _ d [unfolded be(1)]]
    have rs: "records_step dev ?c (cells ?f) s s'" for s'
      using pw(2) lx xo be(2) inv(2) kState by (simp add: records_step_def)
    have kp: "\<forall>p<kPageCount. \<not> (hs_ready s \<and> hs_job s = kNewPage \<and> p = hs_target_page s) \<longrightarrow> keeps ?c (cells ?f) p"
      using pw(3) lx xo be(2) by simp
    show ?thesis
    proof (cases "r = kDone")
      case False
      have "sound dev (cells ?f)" by (rule pw(1)) (use lx xo be(2) in auto)
      then show ?thesis using failed [OF False _ rs kp] w False by simp
    next
      case True
      then have e: "x = b" "readable ?f" "s1 = s\<lparr>hs_flash := ?f\<rparr>" using out by auto
      define s2 where "s2 = (on_page (hs_target_page s) (\<lambda>g. g\<lparr>hp_state_used := hp_state_used g + 1\<rparr>) (s\<lparr>hs_flash := ?f\<rparr>))
        \<lparr>hs_state := hs_pending_state s, hs_job := HistoryJob.kNone\<rparr>"
      have cl: "calm dev (cells ?f) s2" using pw(4) lx be(2) e(1) by (simp add: s2_def)
      have f2: "hs_finishBlob ops s1 = s2" by (subst e(3)) (simp add: hs_finishBlob_def Let_def kState s2_def)
      have "\<not> hs_append_after_new_page s2" using i(6) kState by (simp add: s2_def on_page_def at_work_def Let_def)
      then have "history_inv dev (cells ?f) s2" by (rule calm_inv [OF cl])
      moreover have "hs_next_ticket s2 = hs_next_ticket s" "hs_sequence_end s2 = hs_sequence_end s" "hs_active_page s2 = hs_active_page s"
        "hs_pending_record s2 = hs_pending_record s"
        by (simp_all add: s2_def on_page_def)
      moreover from this have "meters_step dev ?c (cells ?f) s s2"
        using pw(4) lx be(2) e(1) kp kState by (simp add: meters_step_def)
      moreover have "flags_step s s2" "hs_flash s2 = ?f" by (simp_all add: s2_def flags_step_def on_page_def)
      ultimately show ?thesis using w True wf1 e(2) rs f2 by (simp add: poll_good_def)
    qed
  next
    case kAppend
    have be: "off = recordOffset (hs_target_page s) (hs_target_slot s)" "b = encodeRecord (hs_pending_record s) (replicate 36 0)"
      using i(6) kAppend b(1) bf by (auto simp: at_work_def Let_def blob_is_def)
    note pw = append_written [OF inv kAppend _ _ d [unfolded be(1)]]
    have x36: "length x = 36" using lx be(2) by simp
    have kp: "\<forall>p<kPageCount. \<not> (hs_ready s \<and> hs_job s = kNewPage \<and> p = hs_target_page s) \<longrightarrow> keeps ?c (cells ?f) p"
      using pw(2) x36 xo be(2) by simp
    have xb: "x = b \<Longrightarrow> stored dev ?c (cells ?f) s" using pw(5) x36 be(2) by (simp add: stored_def)
    have xn: "x \<noteq> b \<Longrightarrow> record_in dev (cells ?f) = record_in dev ?c" using pw(4) x36 xo be(2) by simp
    show ?thesis
    proof (cases "r = kDone")
      case False
      then obtain st aw where s1: "s1 = hs_fail True (s\<lparr>hs_flash := ?f, hs_blob_step := st, hs_awaiting_completion := aw\<rparr>)"
        using out kAppend by auto
      have "hs_append_result_ready s1 \<and> \<not> hs_append_success s1 \<and> \<not> hs_ready s1"
        by (subst (1 2 3) s1) (simp add: hs_fail_def hs_count_def Let_def)
      then have "records_step dev ?c (cells ?f) s s1" using xb xn inv(2) kAppend by (auto simp: records_step_def)
      moreover have "sound dev (cells ?f)" by (rule pw(1)) (use x36 xo be(2) in auto)
      ultimately show ?thesis using failed [OF False _ _ kp] w False by simp
    next
      case True
      then have e: "x = b" "readable ?f" "s1 = s\<lparr>hs_flash := ?f\<rparr>" using out by auto
      let ?h = "\<lambda>d. d\<lparr>hd_appended := hd_appended d + 1\<rparr>"
      define s2 where "s2 = (hs_count ?h (on_page (hs_target_page s) (\<lambda>g. g\<lparr>hp_records_used := hs_target_slot s + 1,
          hp_valid := set_bit_at (hp_valid g) (hs_target_slot s), hp_records_valid := hp_records_valid g + 1\<rparr>) (s\<lparr>hs_flash := ?f\<rparr>)))
        \<lparr>hs_job := HistoryJob.kNone, hs_append_result_ready := True, hs_append_success := True\<rparr>"
      have cl: "calm dev (cells ?f) s2" using pw(5) x36 be(2) e(1) by (simp add: s2_def)
      have f2: "hs_finishBlob ops s1 = s2" by (subst e(3)) (simp add: hs_finishBlob_def Let_def kAppend s2_def)
      have "\<not> hs_append_after_new_page s2" using i(6) kAppend by (simp add: s2_def on_page_def hs_count_def at_work_def Let_def)
      then have "history_inv dev (cells ?f) s2" by (rule calm_inv [OF cl])
      moreover have "hs_next_ticket s2 = hs_next_ticket s" "hs_sequence_end s2 = hs_sequence_end s" "hs_active_page s2 = hs_active_page s"
        "hs_pending_record s2 = hs_pending_record s" "hs_job s2 = HistoryJob.kNone"
        by (simp_all add: s2_def on_page_def hs_count_def)
      moreover from this have "meters_step dev ?c (cells ?f) s s2" using kp kAppend by (simp add: meters_step_def)
      moreover have "flags_step s s2" "hs_flash s2 = ?f" "hs_append_result_ready s2" "hs_append_success s2" "hs_ready s2"
        using inv(2) kAppend by (simp_all add: s2_def flags_step_def on_page_def hs_count_def)
      moreover from this have "records_step dev ?c (cells ?f) s s2" using xb [OF e(1)] inv(2) kAppend by (simp add: records_step_def)
      ultimately show ?thesis using w True wf1 e(2) f2 by (simp add: poll_good_def)
    qed
  qed
qed

lemma poll_step:
  assumes wf: "wf (hs_flash s)" "hs_ready s \<Longrightarrow> readable (hs_flash s)" and inv: "history_inv dev (cells (hs_flash s)) s"
  shows "poll_good dev s (hs_poll ops s)"
proof (cases "hs_ready s \<and> hs_job s \<noteq> HistoryJob.kNone")
  case False
  then have "hs_poll ops s = s" by (auto simp: hs_poll_def)
  moreover have "records_step dev (cells (hs_flash s)) (cells (hs_flash s)) s s" using False by (auto simp: records_step_def)
  moreover have "meters_step dev (cells (hs_flash s)) (cells (hs_flash s)) s s" by (rule meters_same) (use False in auto)
  ultimately show ?thesis using wf inv by (simp add: poll_good_def flags_step_def)
next
  case True
  then have r: "hs_ready s" "hs_job s \<noteq> HistoryJob.kNone" by simp_all
  show ?thesis
  proof (cases "hs_phase s = kErase")
    case e: True
    have "hs_job s = kNewPage" using inv r e by (cases "hs_job s") (auto simp: history_inv_def at_work_def Let_def)
    then show ?thesis using poll_erase_good [OF wf(1) wf(2) [OF r(1)] inv r(1)] e r by (simp add: hs_poll_def)
  next
    case False
    then show ?thesis using poll_write_good [OF wf(1) wf(2) [OF r(1)] inv r] r by (simp add: hs_poll_def)
  qed
qed

end

end
