(* ===== verification/History_Events.thy ===== *)
theory History_Events
  imports History_Poll
begin

text \<open>
  The history store (\<open>firmware/src/history_store.cpp\<close>) on the board's driver: boot, the events the firmware
  and its surroundings may raise, and the invariant on every reachable state.
\<close>

section \<open>Boot\<close>

lemma region_end_block: "region_end dev c mod 256 = 0"
proof -
  have d: "decodeSequenceEnd x = Some e \<Longrightarrow> e mod 256 = 0" for x e
    unfolding decodeSequenceEnd_def kSequenceBlockSize_def by (metis option.distinct(1) option.inject)
  have "region_end dev c = 0 \<or> (\<exists>x\<in>set (live_sequences dev c). decodeSequenceEnd x = Some (region_end dev c))"
    unfolding region_folds by (rule fold_end_facts(3))
  then show ?thesis
  proof
    assume "region_end dev c = 0"
    then show ?thesis by simp
  qed (use d in blast)
qed

lemma no_page_recoverable:
  assumes "recoverable dev inc c" "snd (region_newest dev c) < 0"
  shows "recoverable dev inc' c"
proof -
  have "snd (region_newest dev c) = -1" using newest_spec(2) [of dev c] assms(2) by auto
  then show ?thesis using assms(1) region_newest_none [of dev c] by (simp add: recoverable_def same_incarnation_def)
qed

text \<open>The store after the resets of \<open>begin\<close>.\<close>

definition begin_state :: "u64 \<Rightarrow> 'f \<Rightarrow> 'f HistoryStore \<Rightarrow> 'f HistoryStore" where
  "begin_state dev f s = s\<lparr>hs_ready := False, hs_job := HistoryJob.kNone, hs_diagnostics := HistoryDiagnostics_init,
     hs_device_id := dev, hs_sequence_end := 0, hs_next_ticket := 0, hs_newest_generation := 0,
     hs_incarnation := 0, hs_acknowledged_through := 0, hs_active_page := -1,
     hs_state := JournalState_init, hs_format_reset_required := False,
     hs_append_after_new_page := False, hs_pending_capacity_lost := 0,
     hs_append_result_ready := False, hs_append_success := False, hs_blob_step := kBody,
     hs_awaiting_completion := False, hs_flash := f\<rparr>"

text \<open>The store recovery leaves, with the index of the cells.\<close>

definition recovered_state :: "u64 \<Rightarrow> bytes \<Rightarrow> u64 \<Rightarrow> HistoryDiagnostics \<Rightarrow> 'f HistoryStore \<Rightarrow> 'f HistoryStore" where
  "recovered_state dev c inc d s = s\<lparr>hs_pages := region_pages dev c, hs_sequence_end := region_end dev c, hs_state := region_state dev c,
        hs_newest_generation := fst (region_newest dev c), hs_active_page := snd (region_newest dev c),
        hs_incarnation := (if snd (region_newest dev c) \<ge> 0 then inc else 0), hs_diagnostics := d,
        hs_acknowledged_through := delivered_through (region_state dev c)\<rparr>"

definition source_incarnation :: "u64 option option \<Rightarrow> u64" where
  "source_incarnation source = (case source of Some (Some fresh) \<Rightarrow> fresh | _ \<Rightarrow> 0)"

lemma history_begin_shape:
  "hs_begin ops dev src s =
     (let (f, ok) = fb_begin ops (hs_flash s); s0 = begin_state dev f s in
      if \<not> ok then (s0, False)
      else let (s1, ok) = hs_recover ops s0 in
        if \<not> ok then (s1, False)
        else let s2 = s1\<lparr>hs_acknowledged_through := delivered_through (hs_state s1)\<rparr> in
          if hs_active_page s2 < 0 then
            (if source_incarnation src = 0 then (s2, False)
             else startNewPage ops False (s2\<lparr>hs_incarnation := source_incarnation src, hs_ready := True\<rparr>))
          else (s2\<lparr>hs_ready := True, hs_next_ticket := hs_sequence_end s2\<rparr>, True))"
  by (auto simp: hs_begin_def begin_state_def source_incarnation_def Let_def split: prod.split option.split)

context journal_flash begin

lemma begin_recovers:
  assumes wf: "wf (hs_flash s)" "readable (hs_flash s)" and snd: "sound dev (cells (hs_flash s))"
    and s: "s = begin_state dev (hs_flash s) s" "shaped s"
  obtains inc d s1 where "hs_recover ops s = (s1, True)" "recoverable dev inc (cells (hs_flash s))" "inc \<noteq> 0"
    "s1\<lparr>hs_acknowledged_through := delivered_through (hs_state s1)\<rparr> = recovered_state dev (cells (hs_flash s)) inc d s"
proof -
  let ?c = "cells (hs_flash s)"
  have z: "hs_sequence_end s = 0" "hs_state s = JournalState_init" "hs_newest_generation s = 0" "hs_active_page s = -1"
      "hs_incarnation s = 0" "hs_device_id s = dev"
    by (subst s(1), simp add: begin_state_def)+
  have len: "length (hs_pages s) = kPageCount" using s(2) by (simp add: shaped_def)
  note ri = recover_index [OF reads_cells [OF wf] len z(6,1-5)]
  obtain inc0 where inc0: "inc0 \<noteq> 0" "recoverable dev inc0 ?c" using snd by (auto simp: sound_def)
  obtain s1 where s1: "hs_recover ops s = (s1, True)" using ri(1) inc0 by blast
  obtain inc d where r: "recoverable dev inc ?c" "s1 = s\<lparr>hs_pages := region_pages dev ?c, hs_sequence_end := region_end dev ?c,
        hs_state := region_state dev ?c, hs_newest_generation := fst (region_newest dev ?c), hs_active_page := snd (region_newest dev ?c),
        hs_incarnation := (if snd (region_newest dev ?c) \<ge> 0 then inc else 0), hs_diagnostics := d\<rparr>"
    using ri(2) [OF s1] by blast
  show thesis
  proof (cases "0 \<le> snd (region_newest dev ?c)")
    case True
    then obtain p gen where "p < kPageCount" "decodable dev ?c p" using newest_spec(2) [of dev ?c] by auto
    then obtain gen i where "decodePage (header_at ?c p) dev = Some (gen, i)" by (auto simp: decodable_def)
    then have "inc \<noteq> 0" using r(1) decoded_incarnation \<open>p < kPageCount\<close> by (force simp: recoverable_def same_incarnation_def)
    then show ?thesis using that [OF s1 r(1)] r(2) by (simp add: recovered_state_def)
  next
    case False
    then show ?thesis using that [OF s1 inc0(2,1)] r(2) by (simp add: recovered_state_def)
  qed
qed

lemma begin_good:
  assumes wf: "wf (hs_flash s)" and snd: "sound dev (cells (hs_flash s))" and sh: "shaped s"
    and b: "hs_begin ops dev src s = (s', ok)"
  shows "wf (hs_flash s')" "cells (hs_flash s') = cells (hs_flash s)" "hs_ready s' \<Longrightarrow> readable (hs_flash s')"
    "history_inv dev (cells (hs_flash s)) s'" "\<not> hs_append_result_ready s'" "hs_ready s' = ok"
    "snd (fb_begin ops (hs_flash s)) \<Longrightarrow> 0 \<le> snd (region_newest dev (cells (hs_flash s))) \<or> source_incarnation src \<noteq> 0 \<Longrightarrow> ok"
    "ok \<Longrightarrow> \<not> hs_append_after_new_page s' \<and> hs_state s' = region_state dev (cells (hs_flash s)) \<and>
      hs_acknowledged_through s' = delivered_through (region_state dev (cells (hs_flash s))) \<and>
      hs_sequence_end s' = region_end dev (cells (hs_flash s)) \<and>
      (hs_job s' = HistoryJob.kNone \<and> hs_next_ticket s' = hs_sequence_end s' \<or>
       hs_job s' = kNewPage \<and> hs_phase s' = kErase \<and> snd (region_newest dev (cells (hs_flash s))) < 0)"
    "hs_flash s' = fst (fb_begin ops (hs_flash s))"
proof -
  let ?c = "cells (hs_flash s)"
  obtain f bo where fb: "fb_begin ops (hs_flash s) = (f, bo)" by fastforce
  have f: "wf f" "cells f = ?c" using begin_wf [OF wf] begin_cells [OF wf] fb by simp_all
  let ?s0 = "begin_state dev f s"
  have sh0: "shaped ?s0" "hs_flash ?s0 = f" "\<not> hs_ready ?s0" "\<not> hs_append_result_ready ?s0"
    using sh by (simp_all add: begin_state_def shaped_def)
  have "hs_flash s' = f \<and> wf (hs_flash s') \<and> cells (hs_flash s') = ?c \<and> (hs_ready s' \<longrightarrow> readable (hs_flash s')) \<and> history_inv dev ?c s' \<and>
    \<not> hs_append_result_ready s' \<and> hs_ready s' = ok \<and>
    (bo \<longrightarrow> 0 \<le> snd (region_newest dev ?c) \<or> source_incarnation src \<noteq> 0 \<longrightarrow> ok) \<and>
    (ok \<longrightarrow> \<not> hs_append_after_new_page s' \<and> hs_state s' = region_state dev ?c \<and> hs_acknowledged_through s' = delivered_through (region_state dev ?c) \<and>
      hs_sequence_end s' = region_end dev ?c \<and>
      (hs_job s' = HistoryJob.kNone \<and> hs_next_ticket s' = hs_sequence_end s' \<or> hs_job s' = kNewPage \<and> hs_phase s' = kErase \<and> snd (region_newest dev ?c) < 0))"
  proof (cases bo)
    case False
    then have "(s', ok) = (?s0, False)" unfolding b [symmetric] history_begin_shape by (simp add: fb)
    then show ?thesis using f snd sh0 False not_ready_inv [of dev ?c ?s0] by simp
  next
    case bo: True
    have rd: "readable f" using begin_readable fb bo by simp
    have a: "?s0 = begin_state dev (hs_flash ?s0) ?s0" by (simp add: begin_state_def)
    have a1: "wf (hs_flash ?s0)" "readable (hs_flash ?s0)" "sound dev (cells (hs_flash ?s0))" using f rd snd sh0 by simp_all
    have c0: "cells (hs_flash ?s0) = ?c" using f sh0 by simp
    from begin_recovers [OF a1 a sh0(1), unfolded c0] obtain inc d s1 where s1: "hs_recover ops ?s0 = (s1, True)" "recoverable dev inc ?c" "inc \<noteq> 0"
      "s1\<lparr>hs_acknowledged_through := delivered_through (hs_state s1)\<rparr> = recovered_state dev ?c inc d ?s0"
      by blast
    define s2 where "s2 = recovered_state dev ?c inc d ?s0"
    have res: "(s', ok) = (if hs_active_page s2 < 0 then
            (if source_incarnation src = 0 then (s2, False)
             else startNewPage ops False (s2\<lparr>hs_incarnation := source_incarnation src, hs_ready := True\<rparr>))
          else (s2\<lparr>hs_ready := True, hs_next_ticket := hs_sequence_end s2\<rparr>, True))"
      unfolding b [symmetric] history_begin_shape using fb bo s1(1,4) by (simp add: s2_def Let_def)
    have f2: "hs_flash s2 = f" "hs_active_page s2 = snd (region_newest dev ?c)" "shaped s2" "\<not> hs_ready s2" "\<not> hs_append_result_ready s2"
      "hs_job s2 = HistoryJob.kNone" "hs_state s2 = region_state dev ?c" "hs_acknowledged_through s2 = delivered_through (region_state dev ?c)"
      "hs_sequence_end s2 = region_end dev ?c" "hs_pages s2 = region_pages dev ?c" "hs_device_id s2 = dev" "hs_blob_step s2 = kBody"
      "\<not> hs_awaiting_completion s2" "\<not> hs_append_after_new_page s2" "hs_newest_generation s2 = fst (region_newest dev ?c)" "hs_next_ticket s2 = 0"
      using sh by (simp_all add: s2_def recovered_state_def begin_state_def shaped_def)
    have states: "st_generation st \<le> st_generation (region_state dev ?c)" if "x \<in> set (live_states dev ?c)" "decodeState x = Some st" for x st
      unfolding region_folds using fold_state_facts(2) [OF that] .
    show ?thesis
    proof (cases "hs_active_page s2 < 0")
      case False
      let ?s3 = "s2\<lparr>hs_ready := True, hs_next_ticket := hs_sequence_end s2\<rparr>"
      have e: "s' = ?s3" "ok" using res False by simp_all
      have "hs_incarnation s2 = inc" using False f2(2) by (simp add: s2_def recovered_state_def)
      then have "indexed dev ?c ?s3" using f2 s1(2,3) by (simp add: indexed_def hole_def)
      moreover have "metered dev ?c ?s3" using f2 states region_end_block by (auto simp: metered_def)
      ultimately have "calm dev ?c ?s3" using f2 snd False by (simp add: calm_def shaped_def)
      then have "history_inv dev ?c ?s3" by (rule calm_inv) (simp add: f2)
      then show ?thesis using e f rd f2 by simp
    next
      case True
      show ?thesis
      proof (cases "source_incarnation src = 0")
        case z: True
        then have "(s', ok) = (s2, False)" using res True by simp
        then show ?thesis using f f2 snd not_ready_inv [of dev ?c s2] True z by simp
      next
        case nz: False
        let ?s3 = "s2\<lparr>hs_incarnation := source_incarnation src, hs_ready := True\<rparr>"
        have st: "startNewPage ops False ?s3 = (s', ok)" using res True nz by simp
        have "recoverable dev (source_incarnation src) ?c" by (rule no_page_recoverable [OF s1(2)]) (use True f2(2) in simp)
        then have "indexed dev ?c ?s3" using f2 nz by (simp add: indexed_def hole_def)
        moreover have "metered dev ?c ?s3" using f2 states region_end_block by (auto simp: metered_def)
        ultimately have r: "rested dev ?c ?s3" using f2 snd by (simp add: rested_def shaped_def)
        note sn = start_new_page [OF r st]
        have "fst (region_newest dev ?c) = 0" using newest_spec(2) [of dev ?c] True f2(2) by auto
        then have o: ok using st f2 nz by (auto simp: startNewPage_def hs_busy_def Let_def split: if_splits)
        have "hs_ready s'" using st f2 o by (auto simp: startNewPage_def Let_def split: if_splits)
        then show ?thesis using sn(1) [OF o] sn(2) o f f2 rd True by (simp add: store_base_def)
      qed
    qed
  qed
  then show "wf (hs_flash s')" "cells (hs_flash s') = ?c" "hs_ready s' \<Longrightarrow> readable (hs_flash s')"
    "history_inv dev ?c s'" "\<not> hs_append_result_ready s'" "hs_ready s' = ok"
    "snd (fb_begin ops (hs_flash s)) \<Longrightarrow> 0 \<le> snd (region_newest dev ?c) \<or> source_incarnation src \<noteq> 0 \<Longrightarrow> ok"
    "ok \<Longrightarrow> \<not> hs_append_after_new_page s' \<and> hs_state s' = region_state dev ?c \<and>
      hs_acknowledged_through s' = delivered_through (region_state dev ?c) \<and>
      hs_sequence_end s' = region_end dev ?c \<and>
      (hs_job s' = HistoryJob.kNone \<and> hs_next_ticket s' = hs_sequence_end s' \<or> hs_job s' = kNewPage \<and> hs_phase s' = kErase \<and> snd (region_newest dev ?c) < 0)"
    "hs_flash s' = fst (fb_begin ops (hs_flash s))"
    unfolding fb snd_conv fst_conv by blast+
qed

end

end
