(* ===== verification/History_Session.thy ===== *)
theory History_Session
  imports History_Events
begin

text \<open>
  The history store (\<open>firmware/src/history_store.cpp\<close>) on the board's driver: the calls the firmware may make,
  what may happen around them, and the invariant on every state they lead to.
\<close>

section \<open>The calls of the firmware\<close>

text \<open>A call neither touches the flash nor moves the reservations, and does nothing to a running job.\<close>

definition quiet :: "'f HistoryStore \<Rightarrow> 'f HistoryStore \<Rightarrow> bool" where
  "quiet s s' \<longleftrightarrow> hs_flash s' = hs_flash s \<and> hs_sequence_end s' = hs_sequence_end s \<and> hs_active_page s' = hs_active_page s \<and>
     (hs_ready s' \<longrightarrow> hs_ready s) \<and> (hs_busy s \<longrightarrow> hs_job s' = hs_job s \<and> hs_ready s' = hs_ready s) \<and>
     (hs_next_ticket s' = hs_next_ticket s \<or> hs_next_ticket s < hs_sequence_end s \<and> hs_next_ticket s' = hs_next_ticket s + 1)"

lemma quiet_refl [simp]: "quiet s s" by (simp add: quiet_def)

lemma inv_calm':
  assumes "history_inv dev c s" "hs_ready s" "\<not> hs_busy s"
  shows "calm dev c s" "\<not> hs_append_after_new_page s"
  using inv_calm [OF assms(1,2)] assms(3) by (simp_all add: hs_busy_def)

lemma start_reservation_fields:
  assumes "startReservation ops s = (s', ok)"
  shows "hs_active_page s' = hs_active_page s" "hs_ready s' = hs_ready s" "ok \<Longrightarrow> hs_ready s \<and> \<not> hs_busy s"
proof -
  have n: "hs_active_page (fst (startNewPage ops af s)) = hs_active_page s \<and> hs_ready (fst (startNewPage ops af s)) = hs_ready s" for af s
    by (simp add: startNewPage_def Let_def)
  have "hs_active_page (fst (startReservation ops s)) = hs_active_page s \<and> hs_ready (fst (startReservation ops s)) = hs_ready s"
    using n by (simp add: startReservation_def Let_def startBlob_def)
  then show "hs_active_page s' = hs_active_page s" "hs_ready s' = hs_ready s" using assms by simp_all
  show "ok \<Longrightarrow> hs_ready s \<and> \<not> hs_busy s" using assms by (auto simp: startReservation_def split: if_splits)
qed

text \<open>A refused reservation makes the store fail.\<close>

lemma reservation_or_fail:
  assumes inv: "history_inv dev c s" and idle: "hs_ready s" "\<not> hs_busy s" and st: "startReservation ops s = (s1, started)"
    and s': "s' = (if started then s1 else hs_fail False s1)"
  shows "history_inv dev c s'" "quiet s s'"
proof -
  note cl = inv_calm' [OF inv idle]
  note sr = start_reservation [OF cl(1) st] and sf = start_reservation_fields [OF st]
  show "history_inv dev c s'" using sr(1,3) cl(1) not_ready_inv [of dev c s'] by (auto simp: s' calm_def)
  show "quiet s s'" using sr(2) sf idle by (auto simp: s' quiet_def store_base_def hs_fail_def hs_count_def Let_def)
qed

lemma prepare_call:
  assumes "history_inv dev c s"
  shows "history_inv dev c (fst (prepareAppend ops s))" "quiet s (fst (prepareAppend ops s))"
proof -
  have "history_inv dev c (fst (prepareAppend ops s)) \<and> quiet s (fst (prepareAppend ops s))"
  proof (cases "canAppend s \<or> \<not> appendIdle s \<or> hs_next_ticket s \<noteq> hs_sequence_end s")
    case True
    then show ?thesis using assms by (auto simp: prepareAppend_def)
  next
    case False
    then have idle: "hs_ready s" "\<not> hs_busy s" by (simp_all add: appendIdle_def)
    obtain s1 st where st: "startReservation ops s = (s1, st)" by fastforce
    show ?thesis using reservation_or_fail [OF assms idle st refl] False st by (simp add: prepareAppend_def)
  qed
  then show "history_inv dev c (fst (prepareAppend ops s))" "quiet s (fst (prepareAppend ops s))" by simp_all
qed

lemma next_call:
  assumes "history_inv dev c s"
  shows "history_inv dev c (fst (hs_nextSequence ops s))" "quiet s (fst (hs_nextSequence ops s))"
proof -
  have "history_inv dev c (fst (hs_nextSequence ops s)) \<and> quiet s (fst (hs_nextSequence ops s))"
  proof (cases "canAppend s")
    case True
    then have lt: "hs_next_ticket s < hs_sequence_end s" and e: "fst (hs_nextSequence ops s) = s\<lparr>hs_next_ticket := hs_next_ticket s + 1\<rparr>"
      by (simp_all add: canAppend_def hs_nextSequence_def Let_def)
    have "hs_next_ticket s + 1 \<le> hs_sequence_end s" using lt by (rule inc_le)
    then show ?thesis unfolding e using inv_cong [OF assms, of "s\<lparr>hs_next_ticket := hs_next_ticket s + 1\<rparr>"] lt by (simp add: quiet_def)
  next
    case False
    show ?thesis
    proof (cases "appendIdle s \<and> hs_next_ticket s = hs_sequence_end s")
      case a: True
      then have idle: "hs_ready s" "\<not> hs_busy s" by (simp_all add: appendIdle_def)
      obtain s1 st where st: "startReservation ops s = (s1, st)" by fastforce
      show ?thesis using reservation_or_fail [OF assms idle st refl] False a st by (simp add: hs_nextSequence_def)
    next
      case b: False
      then show ?thesis using assms False by (auto simp: hs_nextSequence_def)
    qed
  qed
  then show "history_inv dev c (fst (hs_nextSequence ops s))" "quiet s (fst (hs_nextSequence ops s))" by simp_all
qed

lemma take_call:
  assumes "history_inv dev c s"
  shows "history_inv dev c (fst (takeAppendResult s))" "quiet s (fst (takeAppendResult s))"
  using assms inv_cong [OF assms, of "s\<lparr>hs_append_result_ready := False\<rparr>"] by (simp_all add: takeAppendResult_def quiet_def)

lemma acknowledge_call:
  assumes "history_inv dev c s"
  shows "history_inv dev c (fst (acknowledgeDeliveredRecord ops i s))" "quiet s (fst (acknowledgeDeliveredRecord ops i s))"
    "hs_job (fst (acknowledgeDeliveredRecord ops i s)) = hs_job s" "hs_ready (fst (acknowledgeDeliveredRecord ops i s)) = hs_ready s"
proof -
  have "fst (acknowledgeDeliveredRecord ops i s) = s \<or> fst (acknowledgeDeliveredRecord ops i s) = s\<lparr>hs_acknowledged_through := i\<rparr>"
    by (auto simp: acknowledgeDeliveredRecord_def split: option.split)
  then show "history_inv dev c (fst (acknowledgeDeliveredRecord ops i s))" "quiet s (fst (acknowledgeDeliveredRecord ops i s))"
    "hs_job (fst (acknowledgeDeliveredRecord ops i s)) = hs_job s" "hs_ready (fst (acknowledgeDeliveredRecord ops i s)) = hs_ready s"
    using assms inv_cong [OF assms, of "s\<lparr>hs_acknowledged_through := i\<rparr>"] by (auto simp: quiet_def)
qed

lemma start_state_call:
  assumes "history_inv dev c s" "startState n s = (s', ok)"
  shows "history_inv dev c s'" "quiet s s'"
proof -
  have "history_inv dev c s' \<and> quiet s s'"
  proof (cases ok)
    case False
    then have "s' = s" using assms(2) by (auto simp: startState_def Let_def split: if_splits)
    then show ?thesis using assms(1) by simp
  next
    case True
    then have idle: "hs_ready s" "\<not> hs_busy s" using assms(2) by (auto simp: startState_def split: if_splits)
    note cl = inv_calm' [OF assms(1) idle]
    have "hs_active_page s' = hs_active_page s" using assms(2) by (auto simp: startState_def Let_def split: if_splits)
    then show ?thesis using start_state(1,2) [OF cl assms(2)] True idle by (simp add: quiet_def store_base_def)
  qed
  then show "history_inv dev c s'" "quiet s s'" by simp_all
qed

lemma checkpoint_call:
  assumes "history_inv dev c s"
  shows "history_inv dev c (fst (checkpointAcknowledgedDelivery s))" "quiet s (fst (checkpointAcknowledgedDelivery s))"
proof -
  let ?n = "(hs_state s)\<lparr>delivered_through := hs_acknowledged_through s, replay_cursor := 0\<rparr>"
  obtain s1 ok where st: "startState ?n s = (s1, ok)" by fastforce
  have "fst (checkpointAcknowledgedDelivery s) \<in> {s, s1,
      hs_count (\<lambda>d. d\<lparr>hd_delivery_checkpoint_deferrals := hd_delivery_checkpoint_deferrals d + 1\<rparr>) s}"
    using st by (auto simp: checkpointAcknowledgedDelivery_def Let_def)
  moreover have "quiet s (hs_count h s)" for h by (simp add: quiet_def hs_count_def)
  ultimately show "history_inv dev c (fst (checkpointAcknowledgedDelivery s))" "quiet s (fst (checkpointAcknowledgedDelivery s))"
    using assms start_state_call [OF assms st] by auto
qed

lemma quiet_trans:
  assumes "quiet s t" "quiet t u" "hs_next_ticket t = hs_next_ticket s"
  shows "quiet s u"
  using assms by (auto simp: quiet_def hs_busy_def)

lemma mark_call:
  assumes "history_inv dev c s"
  shows "history_inv dev c (fst (markDeliveredThrough ops i s))" "quiet s (fst (markDeliveredThrough ops i s))"
proof -
  obtain t ok where t: "(if hs_acknowledged_through s = delivered_through (hs_state s)
      then acknowledgeDeliveredRecord ops i s else (s, i = hs_acknowledged_through s)) = (t, ok)" by fastforce
  have it: "history_inv dev c t" "quiet s t" "hs_next_ticket t = hs_next_ticket s"
  proof -
    have "t = s \<or> t = fst (acknowledgeDeliveredRecord ops i s)" using t by (auto split: if_splits)
    then show "history_inv dev c t" "quiet s t" using assms acknowledge_call [OF assms] by auto
    have "hs_next_ticket (fst (acknowledgeDeliveredRecord ops i s)) = hs_next_ticket s"
      by (auto simp: acknowledgeDeliveredRecord_def split: option.split)
    then show "hs_next_ticket t = hs_next_ticket s" using \<open>t = s \<or> t = fst (acknowledgeDeliveredRecord ops i s)\<close> by auto
  qed
  have "fst (markDeliveredThrough ops i s) \<in> {s, t, fst (checkpointAcknowledgedDelivery t)}"
    using t by (auto simp: markDeliveredThrough_def split: prod.split)
  then show "history_inv dev c (fst (markDeliveredThrough ops i s))" "quiet s (fst (markDeliveredThrough ops i s))"
    using assms it checkpoint_call [OF it(1)] quiet_trans [OF it(2) _ it(3)] by auto
qed

lemma replay_call:
  assumes "history_inv dev c s"
  shows "history_inv dev c (fst (saveReplayCursor ops i s))" "quiet s (fst (saveReplayCursor ops i s))"
proof -
  obtain s1 ok where st: "startState ((hs_state s)\<lparr>replay_cursor := i\<rparr>) s = (s1, ok)" by fastforce
  have "fst (saveReplayCursor ops i s) = s \<or> fst (saveReplayCursor ops i s) = s1" using st by (auto simp: saveReplayCursor_def)
  then show "history_inv dev c (fst (saveReplayCursor ops i s))" "quiet s (fst (saveReplayCursor ops i s))"
    using assms start_state_call [OF assms st] by auto
qed

section \<open>Events\<close>

text \<open>
  A reset constructs the objects anew; the cells survive, and the SoftDevice is not enabled yet.  What the
  vendor's flash calls do from now on may change at any time: a call that fails half way, followed by a
  reset, is a power cut.
\<close>

datatype history_event =
  HvBegin "u64 option option"
| HvPoll
| HvPrepare
| HvNext
| HvAppend "bytes option" u64
| HvTake
| HvAcknowledge u64
| HvCheckpoint
| HvMark u64
| HvReplay u64
| HvPlatform softdevice bool
| HvReset

definition history_reset :: "NrfHistoryFlash \<Rightarrow> NrfHistoryFlash HistoryStore" where
  "history_reset f = HistoryStore_init (f\<lparr>nf_ready := False, nf_softdevice_enabled := False\<rparr>)"

fun history_step :: "u64 \<Rightarrow> history_event \<Rightarrow> NrfHistoryFlash HistoryStore \<Rightarrow> NrfHistoryFlash HistoryStore" where
  "history_step dev (HvBegin src) s = fst (hs_begin nhf_ops dev src s)"
| "history_step dev HvPoll s = hs_poll nhf_ops s"
| "history_step dev HvPrepare s = fst (prepareAppend nhf_ops s)"
| "history_step dev HvNext s = fst (hs_nextSequence nhf_ops s)"
| "history_step dev (HvAppend pk i) s = fst (hs_append nhf_ops pk i s)"
| "history_step dev HvTake s = fst (takeAppendResult s)"
| "history_step dev (HvAcknowledge i) s = fst (acknowledgeDeliveredRecord nhf_ops i s)"
| "history_step dev HvCheckpoint s = fst (checkpointAcknowledgedDelivery s)"
| "history_step dev (HvMark i) s = fst (markDeliveredThrough nhf_ops i s)"
| "history_step dev (HvReplay i) s = fst (saveReplayCursor nhf_ops i s)"
| "history_step dev (HvPlatform sd en) s = s\<lparr>hs_flash := (hs_flash s)\<lparr>nf_sd := sd, nf_softdevice_enabled := en\<rparr>\<rparr>"
| "history_step dev HvReset s = history_reset (hs_flash s)"

fun history_event_ok :: "history_event \<Rightarrow> bool" where
  "history_event_ok (HvPlatform sd en) = (softdevice_confined sd \<and> erase_forges_nothing sd)"
| "history_event_ok e = True"

text \<open>The journal starts on an erased region.\<close>

inductive history_reachable :: "u64 \<Rightarrow> NrfHistoryFlash HistoryStore \<Rightarrow> bool" for dev where
  history_power_on: "nhf_wf f \<Longrightarrow> nf_cells f = replicate kHistoryRegion 0xFF \<Longrightarrow> history_reachable dev (history_reset f)"
| history_event: "history_reachable dev s \<Longrightarrow> history_event_ok e \<Longrightarrow> history_reachable dev (history_step dev e s)"

definition nhf_inv :: "u64 \<Rightarrow> NrfHistoryFlash HistoryStore \<Rightarrow> bool" where
  "nhf_inv dev s \<longleftrightarrow> nhf_wf (hs_flash s) \<and> (hs_ready s \<longrightarrow> nf_ready (hs_flash s)) \<and> history_inv dev (nf_cells (hs_flash s)) s"

text \<open>An erased region is a sound journal without pages.\<close>

lemma erased_region:
  assumes c: "c = replicate kHistoryRegion 0xFF"
  shows "sound dev c" "p < kPageCount \<Longrightarrow> \<not> decodable dev c p" "snd (region_newest dev c) = -1"
proof -
  have len: "length c = kHistoryRegion" by (simp add: c)
  have h: "length (header_at c p) = 64" "\<not> committed (header_at c p)" if p: "p < kPageCount" for p
  proof -
    show l: "length (header_at c p) = 64" by (rule slot_lengths(1) [OF len p])
    have "set (header_at c p) \<subseteq> set c" unfolding header_at_def slice_def by (metis set_drop_subset set_take_subset subset_trans)
    then have "blank_slot (header_at c p)" by (auto simp: blank_slot_def list_all_iff c)
    then show "\<not> committed (header_at c p)" using blank_not_committed [OF l] by simp
  qed
  have d: "decodePage (header_at c p) dev = None \<and> \<not> old_header (header_at c p) \<and> \<not> newer_header (header_at c p)"
    if "p < kPageCount" for p using uncommitted(4) [OF h [OF that]] .
  show nd: "p < kPageCount \<Longrightarrow> \<not> decodable dev c p" for p using d by (simp add: decodable_def)
  show n: "snd (region_newest dev c) = -1" using d region_newest_none by blast
  have "recoverable dev 1 c" using d by (simp add: recoverable_def same_incarnation_def)
  then have "\<exists>inc. inc \<noteq> 0 \<and> recoverable dev inc c" by (intro exI [of _ 1]) simp
  moreover have "orderly dev c" unfolding orderly_def record_in_def using nd by blast
  ultimately show "sound dev c" using len n nd by (simp add: sound_def in_ring_def)
qed

lemma reset_inv:
  assumes "nhf_wf f" "sound dev (nf_cells f)"
  shows "nhf_inv dev (history_reset f)"
  using assms not_ready_inv [of dev "nf_cells f" "history_reset f"]
  by (simp add: nhf_inv_def history_reset_def HistoryStore_init_def nhf_wf_def driver_wf_def shaped_def)

text \<open>Every event but a poll, a boot and those around the store.\<close>

fun history_call :: "history_event \<Rightarrow> bool" where
  "history_call HvPoll = False"
| "history_call (HvBegin src) = False"
| "history_call (HvPlatform sd en) = False"
| "history_call HvReset = False"
| "history_call e = True"

lemma call_quiet:
  assumes "nhf_inv dev s" "history_call e"
  shows "history_inv dev (nf_cells (hs_flash s)) (history_step dev e s)" "quiet s (history_step dev e s)"
proof -
  let ?c = "nf_cells (hs_flash s)"
  have i: "nhf_wf (hs_flash s)" "hs_ready s \<Longrightarrow> nf_ready (hs_flash s)" "history_inv dev ?c s" using assms(1) by (simp_all add: nhf_inv_def)
  have ap: "history_inv dev ?c (fst (hs_append nhf_ops pk x s)) \<and> quiet s (fst (hs_append nhf_ops pk x s))" for pk x
  proof -
    obtain s' ok where a: "hs_append nhf_ops pk x s = (s', ok)" by fastforce
    have "hs_busy s \<Longrightarrow> hs_job s' = hs_job s" using a by (auto simp: hs_append_def hs_count_def appendIdle_def)
    then show ?thesis using nhf.append_step(1-3,6) [OF i a] append_fields [OF a] a by (simp add: quiet_def)
  qed
  show "history_inv dev ?c (history_step dev e s)" "quiet s (history_step dev e s)"
    using assms(2) ap prepare_call [OF i(3)] next_call [OF i(3)] take_call [OF i(3)] acknowledge_call(1,2) [OF i(3)]
      checkpoint_call [OF i(3)] mark_call [OF i(3)] replay_call [OF i(3)]
    by (cases e; simp)+
qed

lemma history_begin_inv:
  assumes "nhf_wf (hs_flash s)" "sound dev (nf_cells (hs_flash s))" "shaped s" and b: "hs_begin nhf_ops dev src s = (s', ok)"
  shows "nhf_inv dev s'" "nf_cells (hs_flash s') = nf_cells (hs_flash s)" "hs_ready s' = ok"
  using nhf.begin_good(1-4,6) [OF assms] by (simp_all add: nhf_inv_def)

lemma history_step_inv:
  assumes "nhf_inv dev s" "history_event_ok e"
  shows "nhf_inv dev (history_step dev e s)"
proof (cases "history_call e")
  case True
  note q = call_quiet [OF assms(1) True]
  show ?thesis using q assms(1) by (auto simp: nhf_inv_def quiet_def)
next
  case False
  have i: "nhf_wf (hs_flash s)" "hs_ready s \<Longrightarrow> nf_ready (hs_flash s)" "history_inv dev (nf_cells (hs_flash s)) s"
    "sound dev (nf_cells (hs_flash s))" "shaped s"
    using assms(1) by (simp_all add: nhf_inv_def history_inv_def)
  show ?thesis
  proof (cases e)
    case (HvBegin src)
    obtain s' ok where b: "hs_begin nhf_ops dev src s = (s', ok)" by fastforce
    then show ?thesis using history_begin_inv(1) [OF i(1,4,5) b] HvBegin by simp
  next
    case HvPoll
    then show ?thesis using nhf.poll_step [OF i(1-3)] by (simp add: nhf.poll_good_def nhf_inv_def)
  next
    case (HvPlatform sd en)
    have "nhf_wf ((hs_flash s)\<lparr>nf_sd := sd, nf_softdevice_enabled := en\<rparr>)"
      using i(1) assms(2) HvPlatform by (simp add: nhf_wf_def driver_wf_def)
    then show ?thesis using i(2,3) HvPlatform inv_flash by (simp add: nhf_inv_def)
  next
    case HvReset
    then show ?thesis using reset_inv [OF i(1,4)] by simp
  qed (use False in simp_all)
qed

lemma history_inv_reachable: "history_reachable dev s \<Longrightarrow> nhf_inv dev s"
proof (induction rule: history_reachable.induct)
  case (history_power_on f)
  then show ?case using reset_inv erased_region(1) by metis
qed (rule history_step_inv)

lemma reachable_parts:
  assumes "history_reachable dev s"
  shows "nhf_wf (hs_flash s)" "hs_ready s \<Longrightarrow> nf_ready (hs_flash s)" "history_inv dev (nf_cells (hs_flash s)) s"
    "sound dev (nf_cells (hs_flash s))" "shaped s"
  using history_inv_reachable [OF assms] by (simp_all add: nhf_inv_def history_inv_def)

end
