(* ===== verification/History_Guarantees.thy ===== *)
theory History_Guarantees
  imports History_Session
begin

text \<open>
  What the history store (\<open>firmware/src/history_store.cpp\<close>) promises its clients, on the board's driver and
  in every state the firmware can lead it to: lookups are exact, an append that reported success survives a
  reset, a power cut loses nothing but what an erase was evicting, the evicted are the oldest.
\<close>

section \<open>After a reset\<close>

lemma boot_parts:
  assumes r: "history_reachable dev s" and b: "hs_begin nhf_ops dev src (history_reset (hs_flash s)) = (b, True)"
  shows "nhf_wf (hs_flash b)" "nf_ready (hs_flash b)" "history_inv dev (nf_cells (hs_flash b)) b" "hs_ready b"
    "nf_cells (hs_flash b) = nf_cells (hs_flash s)"
    "hs_acknowledged_through b = delivered_through (region_state dev (nf_cells (hs_flash s)))"
    "hs_sequence_end b = region_end dev (nf_cells (hs_flash s))"
    "hs_job b = HistoryJob.kNone \<and> hs_next_ticket b = hs_sequence_end b \<or> hs_job b = kNewPage \<and> snd (region_newest dev (nf_cells (hs_flash s))) < 0"
    "hs_state b = region_state dev (nf_cells (hs_flash s))"
proof -
  note p = reachable_parts [OF r]
  let ?z = "history_reset (hs_flash s)"
  have z: "nhf_wf (hs_flash ?z)" "sound dev (nf_cells (hs_flash ?z))" "shaped ?z" "nf_cells (hs_flash ?z) = nf_cells (hs_flash s)"
    using p by (simp_all add: history_reset_def HistoryStore_init_def nhf_wf_def driver_wf_def shaped_def)
  note g = nhf.begin_good [OF z(1-3) b]
  show "nhf_wf (hs_flash b)" "nf_ready (hs_flash b)" "history_inv dev (nf_cells (hs_flash b)) b" "hs_ready b"
    "nf_cells (hs_flash b) = nf_cells (hs_flash s)"
    "hs_acknowledged_through b = delivered_through (region_state dev (nf_cells (hs_flash s)))"
    "hs_sequence_end b = region_end dev (nf_cells (hs_flash s))"
    "hs_job b = HistoryJob.kNone \<and> hs_next_ticket b = hs_sequence_end b \<or> hs_job b = kNewPage \<and> snd (region_newest dev (nf_cells (hs_flash s))) < 0"
    "hs_state b = region_state dev (nf_cells (hs_flash s))"
    using g(1-6) g(8) [OF TrueI] unfolding z(4) by auto
qed

text \<open>A reset can only come back to an unfinished first page when nothing is retained.\<close>

lemma boot_lookup:
  assumes r: "history_reachable dev s" and b: "hs_begin nhf_ops dev src (history_reset (hs_flash s)) = (b, True)"
  shows "hs_lookup nhf_ops b i = Some x \<longleftrightarrow> x \<in> set (retained dev (nf_cells (hs_flash s))) \<and> identity x = i"
  using nhf.lookup_retained [OF boot_parts(1-4) [OF r b]] boot_parts(5) [OF r b] by simp

lemma lookup_reachable:
  assumes "history_reachable dev s" "hs_ready s"
  shows "hs_lookup nhf_ops s i = Some x \<longleftrightarrow> x \<in> set (retained dev (nf_cells (hs_flash s))) \<and> identity x = i"
  using nhf.lookup_retained [OF reachable_parts(1) reachable_parts(2) reachable_parts(3)] assms by blast

lemma poll_reachable: "history_reachable dev s \<Longrightarrow> history_reachable dev (hs_poll nhf_ops s)"
  using history_event [of dev s HvPoll] by simp

lemma poll_facts:
  assumes "history_reachable dev s"
  shows "records_step dev (nf_cells (hs_flash s)) (nf_cells (hs_flash (hs_poll nhf_ops s))) s (hs_poll nhf_ops s)"
    "flags_step s (hs_poll nhf_ops s)"
    "meters_step dev (nf_cells (hs_flash s)) (nf_cells (hs_flash (hs_poll nhf_ops s))) s (hs_poll nhf_ops s)"
  using nhf.poll_step [OF reachable_parts(1) reachable_parts(2) reachable_parts(3)] assms by (simp_all add: nhf.poll_good_def)

section \<open>An append from its acceptance to its result\<close>

definition appending :: "u64 \<Rightarrow> JournalRecord \<Rightarrow> NrfHistoryFlash HistoryStore \<Rightarrow> bool" where
  "appending dev r s \<longleftrightarrow> hs_pending_record s = r \<and>
     (hs_append_result_ready s \<and> hs_append_success s \<longrightarrow>
        r \<in> set (retained dev (nf_cells (hs_flash s))) \<and> (\<not> hs_ready s \<or> hs_job s = HistoryJob.kNone))"

lemma appending_poll:
  assumes "history_reachable dev s" "appending dev r s"
  shows "appending dev r (hs_poll nhf_ops s)"
proof (cases "hs_ready s \<and> hs_job s \<noteq> HistoryJob.kNone")
  case False
  then have "hs_poll nhf_ops s = s" by (auto simp: hs_poll_def)
  then show ?thesis using assms(2) by simp
next
  case True
  note pf = poll_facts [OF assms(1)]
  have p: "hs_pending_record (hs_poll nhf_ops s) = r" "\<not> (hs_append_result_ready s \<and> hs_append_success s)"
    using pf(3) assms(2) True by (auto simp: meters_step_def appending_def)
  show ?thesis unfolding appending_def
  proof (intro conjI impI)
    show "hs_pending_record (hs_poll nhf_ops s) = r" by (rule p(1))
    assume ok: "hs_append_result_ready (hs_poll nhf_ops s) \<and> hs_append_success (hs_poll nhf_ops s)"
    then have a: "hs_job s = kAppend" using pf(2) p(2) by (simp add: flags_step_def)
    then have st: "stored dev (nf_cells (hs_flash s)) (nf_cells (hs_flash (hs_poll nhf_ops s))) s" "hs_ready (hs_poll nhf_ops s)"
      using pf(1) True ok by (simp_all add: records_step_def)
    then show "r \<in> set (retained dev (nf_cells (hs_flash (hs_poll nhf_ops s))))"
      using assms(2) unfolding retained_iff stored_def appending_def by blast
    show "\<not> hs_ready (hs_poll nhf_ops s) \<or> hs_job (hs_poll nhf_ops s) = HistoryJob.kNone"
      using pf(3) True a st(2) by (simp add: meters_step_def)
  qed
qed

fun surroundings :: "history_event \<Rightarrow> bool" where
  "surroundings HvPoll = True"
| "surroundings (HvPlatform sd en) = history_event_ok (HvPlatform sd en)"
| "surroundings e = False"

definition history_run :: "u64 \<Rightarrow> history_event list \<Rightarrow> NrfHistoryFlash HistoryStore \<Rightarrow> NrfHistoryFlash HistoryStore" where
  "history_run dev es s = fold (history_step dev) es s"

lemma appending_run:
  assumes "history_reachable dev s" "appending dev r s" "list_all surroundings es"
  shows "history_reachable dev (history_run dev es s) \<and> appending dev r (history_run dev es s)"
  using assms
proof (induction es arbitrary: s)
  case (Cons e es)
  have "history_reachable dev (history_step dev e s) \<and> appending dev r (history_step dev e s)"
  proof (cases e)
    case HvPoll
    then show ?thesis using Cons.prems appending_poll poll_reachable by simp
  next
    case (HvPlatform sd en)
    then show ?thesis using Cons.prems history_event [of dev s e] by (simp add: appending_def)
  qed (use Cons.prems in simp_all)
  then show ?case using Cons by (simp add: history_run_def)
qed (simp add: history_run_def)

lemma append_accepted:
  assumes "history_reachable dev s" "hs_append nhf_ops (Some pk) i s = (s', True)"
  shows "history_reachable dev s'" "appending dev \<lparr>identity = i, packet = pk\<rparr> s'"
proof -
  show "history_reachable dev s'" using history_event [OF assms(1), of "HvAppend (Some pk) i"] assms(2) by simp
  note as = nhf.append_step [OF reachable_parts(1) [OF assms(1)] reachable_parts(2) [OF assms(1)] reachable_parts(3) [OF assms(1)] assms(2)]
  show "appending dev \<lparr>identity = i, packet = pk\<rparr> s'" using as(4,7) by (simp add: appending_def)
qed

section \<open>The ticket floor\<close>

text \<open>Some page that stays holds a reservation of all tickets handed out.\<close>

definition floored :: "u64 \<Rightarrow> NrfHistoryFlash HistoryStore \<Rightarrow> bool" where
  "floored dev s \<longleftrightarrow> hs_next_ticket s \<le> hs_sequence_end s \<and>
     (\<exists>p. held dev (nf_cells (hs_flash s)) p (hs_sequence_end s) \<and> (hs_ready s \<longrightarrow> int p = hs_active_page s \<or> hs_job s = kReserve))"

lemma block_room: "(e :: u64) \<le> UINT64_MAX - 256 \<Longrightarrow> e \<le> e + 256"
proof -
  assume "e \<le> UINT64_MAX - 256"
  then have "unat e + 256 < 2 ^ 64" by (simp add: word_le_nat_alt)
  then have "unat (e + 256) = unat e + 256" by (simp add: unat_add_lem [THEN iffD1])
  then show ?thesis by (simp add: word_le_nat_alt)
qed

lemma below_next: "(a :: u64) < b \<Longrightarrow> a < a + 1"
proof -
  assume "a < b"
  then have "unat a + unat (1 :: u64) < 2 ^ 64" using unsigned_less [where w = b and 'a = nat] by (simp add: word_less_nat_alt)
  then have "unat (a + 1) = unat a + 1" by (simp add: unat_add_lem [THEN iffD1])
  then show ?thesis by (simp add: word_less_nat_alt)
qed

lemma below_grows: "(a :: u64) < b \<Longrightarrow> a \<le> a + 1"
  using below_next by (simp add: less_imp_le)

lemma held_page: "held dev c p n \<Longrightarrow> p < kPageCount" by (simp add: held_def)

lemma reserved_floor:
  assumes r: "history_reachable dev s" and s: "hs_ready s" "hs_job s = kReserve" "hs_ready (hs_poll nhf_ops s)"
  shows "floored dev (hs_poll nhf_ops s)"
proof -
  let ?s = "hs_poll nhf_ops s"
  have m: "held dev (nf_cells (hs_flash ?s)) (nat (hs_active_page s)) (hs_sequence_end ?s)" "hs_active_page ?s = hs_active_page s"
    using poll_facts(3) [OF r] s by (auto simp: meters_step_def)
  have "0 \<le> hs_active_page s" using reachable_parts(3) [OF r] s by (simp add: history_inv_def at_work_def Let_def)
  moreover have "hs_next_ticket ?s \<le> hs_sequence_end ?s"
    using reachable_parts(3) [OF poll_reachable [OF r]] s(3) by (simp add: history_inv_def metered_def)
  ultimately show ?thesis using m unfolding floored_def by (metis int_nat_eq)
qed

lemma floor_call:
  assumes "floored dev s" "quiet s s'"
  shows "floored dev s'"
proof -
  obtain p where p: "held dev (nf_cells (hs_flash s)) p (hs_sequence_end s)" "hs_ready s \<longrightarrow> int p = hs_active_page s \<or> hs_job s = kReserve"
    "hs_next_ticket s \<le> hs_sequence_end s" using assms(1) by (auto simp: floored_def)
  have "hs_next_ticket s' \<le> hs_sequence_end s"
    using assms(2) p(3) inc_le [of "hs_next_ticket s" "hs_sequence_end s"] by (auto simp: quiet_def)
  then show ?thesis using p assms(2) unfolding floored_def by (intro conjI exI [of _ p]) (auto simp: quiet_def hs_busy_def)
qed

lemma floor_poll:
  assumes r: "history_reachable dev s" and f: "floored dev s"
  shows "floored dev (hs_poll nhf_ops s)"
proof -
  let ?s = "hs_poll nhf_ops s"
  note m = poll_facts(3) [OF r, unfolded meters_step_def]
  obtain p where p: "held dev (nf_cells (hs_flash s)) p (hs_sequence_end s)" "hs_ready s \<longrightarrow> int p = hs_active_page s \<or> hs_job s = kReserve"
    "hs_next_ticket s \<le> hs_sequence_end s" using f by (auto simp: floored_def)
  show ?thesis
  proof (cases "hs_ready s \<and> hs_job s = kReserve \<and> hs_ready ?s")
    case True
    then show ?thesis using reserved_floor [OF r] by simp
  next
    case False
    have seq: "hs_sequence_end ?s = hs_sequence_end s \<or> hs_ready s \<and> hs_job s = kReserve \<and> \<not> hs_ready ?s \<and>
        hs_sequence_end ?s = hs_pending_sequence_end s \<and>
        held dev (nf_cells (hs_flash ?s)) (nat (hs_active_page s)) (hs_sequence_end ?s)" using m False by blast
    show ?thesis
    proof (cases "hs_sequence_end ?s = hs_sequence_end s")
      case same: True
      have "\<not> (hs_ready s \<and> hs_job s = kNewPage \<and> p = hs_target_page s)"
      proof
        assume a: "hs_ready s \<and> hs_job s = kNewPage \<and> p = hs_target_page s"
        have "snd (region_newest dev (nf_cells (hs_flash s))) = hs_active_page s"
          using reachable_parts(3) [OF r] a by (metis history_inv_def indexed_def snd_conv)
        then show False using new_page_facts(2) [OF reachable_parts(3) [OF r]] a p(2) by auto
      qed
      then have "held dev (nf_cells (hs_flash ?s)) p (hs_sequence_end s)"
        using m held_page [OF p(1)] keeps_held [OF _ p(1)] by blast
      moreover have "hs_ready ?s \<Longrightarrow> int p = hs_active_page ?s \<or> hs_job ?s = kReserve"
        using m p(2) False by (cases "hs_ready s") (auto simp: hs_poll_def split: if_splits)
      ultimately show ?thesis using m p(3) same unfolding floored_def by (intro conjI exI [of _ p]) simp_all
    next
      case other: False
      then have h: "held dev (nf_cells (hs_flash ?s)) (nat (hs_active_page s)) (hs_sequence_end ?s)" "\<not> hs_ready ?s"
        "hs_ready s" "hs_job s = kReserve" "hs_sequence_end ?s = hs_pending_sequence_end s" using seq by blast+
      have "hs_sequence_end s \<le> UINT64_MAX - 256" "hs_pending_sequence_end s = hs_sequence_end s + 256"
        using reachable_parts(3) [OF r] h(3,4) by (simp_all add: history_inv_def at_work_def Let_def)
      then have "hs_sequence_end s \<le> hs_sequence_end ?s" using block_room [of "hs_sequence_end s"] h(5) by simp
      then show ?thesis using h m p(3) unfolding floored_def by (intro conjI exI [of _ "nat (hs_active_page s)"]) auto
    qed
  qed
qed

lemma held_newest: "held dev c p n \<Longrightarrow> 0 \<le> snd (region_newest dev c)"
  using newest_spec(1) [of p dev c] newest_spec(2) [of dev c] page_gen_pos [of dev c p] by (auto simp: held_def)

text \<open>Anything but a boot or a reset.\<close>

fun one_boot :: "history_event \<Rightarrow> bool" where
  "one_boot (HvBegin src) = False"
| "one_boot HvReset = False"
| "one_boot e = history_event_ok e"

lemma one_boot_cases:
  assumes "one_boot e"
  shows "history_event_ok e" "history_call e \<or> e = HvPoll \<or> (\<exists>sd en. e = HvPlatform sd en)"
  using assms by (cases e; simp)+

lemma floored_run:
  assumes "history_reachable dev s" "floored dev s" "list_all one_boot es"
  shows "history_reachable dev (history_run dev es s) \<and> floored dev (history_run dev es s)"
  using assms
proof (induction es arbitrary: s)
  case (Cons e es)
  have o: "one_boot e" using Cons.prems by simp
  have "floored dev (history_step dev e s)"
    using one_boot_cases(2) [OF o]
  proof (elim disjE exE)
    assume "history_call e"
    then show ?thesis using floor_call [OF Cons.prems(2) call_quiet(2) [OF history_inv_reachable [OF Cons.prems(1)]]] by blast
  next
    assume "e = HvPoll"
    then show ?thesis using floor_poll [OF Cons.prems(1,2)] by simp
  next
    fix sd en assume "e = HvPlatform sd en"
    then show ?thesis using Cons.prems(2) by (simp add: floored_def)
  qed
  moreover have "history_reachable dev (history_step dev e s)" by (rule history_event [OF Cons.prems(1) one_boot_cases(1) [OF o]])
  ultimately show ?case using Cons by (simp add: history_run_def)
qed (simp add: history_run_def)

lemma tickets_grow_run:
  assumes "history_reachable dev s" "list_all one_boot es"
  shows "hs_next_ticket s \<le> hs_next_ticket (history_run dev es s)"
  using assms
proof (induction es arbitrary: s)
  case (Cons e es)
  have o: "one_boot e" using Cons.prems by simp
  have "hs_next_ticket s \<le> hs_next_ticket (history_step dev e s)"
    using one_boot_cases(2) [OF o]
  proof (elim disjE exE)
    assume "history_call e"
    then have "quiet s (history_step dev e s)" by (rule call_quiet(2) [OF history_inv_reachable [OF Cons.prems(1)]])
    then show ?thesis using below_grows [of "hs_next_ticket s" "hs_sequence_end s"] by (auto simp: quiet_def)
  next
    assume "e = HvPoll"
    then show ?thesis using poll_facts(3) [OF Cons.prems(1)] by (simp add: meters_step_def)
  next
    fix sd en assume "e = HvPlatform sd en"
    then show ?thesis by simp
  qed
  also have "\<dots> \<le> hs_next_ticket (history_run dev es (history_step dev e s))"
    by (rule Cons.IH [OF history_event [OF Cons.prems(1) one_boot_cases(1) [OF o]]]) (use Cons.prems in simp)
  finally show ?case by (simp add: history_run_def)
qed (simp add: history_run_def)

lemma next_handed:
  assumes "hs_nextSequence ops s = (s', Some (n, ticket))"
  shows "hs_next_ticket s < ticket"
proof -
  have "hs_next_ticket s < hs_sequence_end s" "ticket = hs_next_ticket s + 1"
    using assms by (auto simp: hs_nextSequence_def canAppend_def Let_def split: if_splits prod.splits)
  then show ?thesis using below_next by simp
qed

section \<open>The guarantees\<close>

text \<open>
  C10: The store's lookup is exact: in every reachable ready state the record found under an identity is the
  one the cells of the region retain under it, and nothing is found that they do not retain.
\<close>
theorem history_lookup_exact:
  assumes "history_reachable dev s" "hs_ready s"
  shows "hs_lookup nhf_ops s i = Some x \<longleftrightarrow> x \<in> set (retained dev (nf_cells (hs_flash s))) \<and> identity x = i"
  by (rule lookup_reachable [OF assms])

text \<open>
  C5: Once an accepted append reports success, whatever the flash answered meanwhile, its record survives a
  reset: the store that boots on the cells finds it under its identity.
\<close>
theorem history_append_durable:
  assumes "history_reachable dev s" "hs_append nhf_ops (Some pk) i s = (s1, True)"
    and "list_all surroundings es" "s2 = history_run dev es s1" "takeAppendResult s2 = (s3, Some True)"
    and "hs_begin nhf_ops dev src (history_reset (hs_flash s3)) = (b, True)"
  shows "hs_lookup nhf_ops b i = Some \<lparr>identity = i, packet = pk\<rparr>"
proof -
  note acc = append_accepted [OF assms(1,2)]
  have r2: "history_reachable dev s2" "appending dev \<lparr>identity = i, packet = pk\<rparr> s2"
    using appending_run [OF acc assms(3)] assms(4) by simp_all
  have "hs_append_result_ready s2" "hs_append_success s2" "hs_flash s3 = hs_flash s2"
    using assms(5) by (auto simp: takeAppendResult_def split: if_splits)
  then have "\<lparr>identity = i, packet = pk\<rparr> \<in> set (retained dev (nf_cells (hs_flash s2)))"
    "hs_begin nhf_ops dev src (history_reset (hs_flash s2)) = (b, True)"
    using r2(2) assms(6) by (simp_all add: appending_def)
  then show ?thesis using boot_lookup [OF r2(1)] by simp
qed

text \<open>
  C6: A poll that does not erase loses nothing, whatever the flash answers and wherever the power is cut in
  it: the store that boots afterwards finds every record that was found before, and no record more than the
  one being appended.
\<close>
theorem history_power_cut_keeps:
  assumes "history_reachable dev s" "hs_ready s" "\<not> erasePending s"
    and "hs_begin nhf_ops dev src (history_reset (hs_flash (hs_poll nhf_ops s))) = (b, True)"
  shows "(hs_lookup nhf_ops s i = Some r \<longrightarrow> hs_lookup nhf_ops b i = Some r) \<and>
    (hs_lookup nhf_ops b i = Some r \<longrightarrow> hs_lookup nhf_ops s i = Some r \<or> hs_job s = kAppend \<and> r = hs_pending_record s)"
proof -
  let ?d = "nf_cells (hs_flash (hs_poll nhf_ops s))" and ?c = "nf_cells (hs_flash s)"
  have st: "record_in dev ?d = record_in dev ?c \<or> hs_job s = kAppend \<and> stored dev ?c ?d s"
    using poll_facts(1) [OF assms(1)] assms(2,3) by (auto simp: records_step_def erasePending_def split: if_splits)
  have k: "x \<in> set (retained dev ?c) \<Longrightarrow> x \<in> set (retained dev ?d)" for x
    using st unfolding retained_iff stored_def by metis
  have n: "x \<in> set (retained dev ?d) \<Longrightarrow> x \<in> set (retained dev ?c) \<or> hs_job s = kAppend \<and> x = hs_pending_record s" for x
    using st unfolding retained_iff stored_def by metis
  show ?thesis
    unfolding boot_lookup [OF poll_reachable [OF assms(1)] assms(4)] lookup_reachable [OF assms(1,2)] using k n by blast
qed

text \<open>
  C7: A poll that erases evicts the oldest records only, even when the erase fails half way: under every
  identity the next boot finds what was found before, or nothing - then the record was on the page being
  erased, and every record outside that page has a greater identity and is still found.
\<close>
theorem history_evicts_oldest:
  assumes "history_reachable dev s" "hs_ready s" "erasePending s"
    and "hs_begin nhf_ops dev src (history_reset (hs_flash (hs_poll nhf_ops s))) = (b, True)"
  shows "hs_lookup nhf_ops b i = hs_lookup nhf_ops s i \<or>
    hs_lookup nhf_ops b i = None \<and>
    (\<exists>k r. record_in dev (nf_cells (hs_flash s)) (hs_target_page s) k r \<and> identity r = i) \<and>
    (\<forall>j r'. hs_lookup nhf_ops s j = Some r' \<longrightarrow>
       (\<exists>k. record_in dev (nf_cells (hs_flash s)) (hs_target_page s) k r') \<or> i < j \<and> hs_lookup nhf_ops b j = Some r')"
proof (cases "hs_lookup nhf_ops b i = hs_lookup nhf_ops s i")
  case False
  let ?d = "nf_cells (hs_flash (hs_poll nhf_ops s))" and ?c = "nf_cells (hs_flash s)" and ?t = "hs_target_page s"
  note inv = reachable_parts(3) [OF assms(1)]
  note before = lookup_reachable [OF assms(1,2)] and after = boot_lookup [OF poll_reachable [OF assms(1)] assms(4)]
  have job: "hs_job s = kNewPage" "hs_phase s = kErase" using assms(3) by (simp_all add: erasePending_def)
  have keep: "q \<noteq> ?t \<Longrightarrow> record_in dev ?d q k x = record_in dev ?c q k x" and less: "record_in dev ?d q k x \<Longrightarrow> record_in dev ?c q k x" for q k x
    using poll_facts(1) [OF assms(1)] assms(2) job by (simp_all add: records_step_def)
  have none: "hs_lookup nhf_ops b i = None"
  proof (rule ccontr)
    assume "hs_lookup nhf_ops b i \<noteq> None"
    then obtain x where x: "hs_lookup nhf_ops b i = Some x" by blast
    then have "x \<in> set (retained dev ?c)" "identity x = i" using after less unfolding retained_iff by blast+
    then have "hs_lookup nhf_ops s i = Some x" using before by blast
    then show False using False x by simp
  qed
  then obtain r where r: "r \<in> set (retained dev ?c)" "identity r = i" using False before by (metis option.exhaust)
  obtain q k where q: "record_in dev ?c q k r" using r(1) retained_iff by blast
  have qt: "q = ?t"
  proof (rule ccontr)
    assume "q \<noteq> ?t"
    then have "record_in dev ?d q k r" using keep q by simp
    then have "hs_lookup nhf_ops b i = Some r" using after r(2) retained_iff by blast
    then show False using none by simp
  qed
  have older: "i < j \<and> hs_lookup nhf_ops b j = Some r'"
    if r': "hs_lookup nhf_ops s j = Some r'" "\<not> (\<exists>k. record_in dev ?c ?t k r')" for j r'
  proof -
    obtain q' k' where q': "record_in dev ?c q' k' r'" "identity r' = j" using r'(1) before retained_iff by blast
    have q't: "q' \<noteq> ?t" using r'(2) q' by blast
    have "record_in dev ?d q' k' r'" using keep [OF q't] q' by simp
    then have found: "hs_lookup nhf_ops b j = Some r'" using after q'(2) retained_iff by blast
    note i = inv_parts [OF inv assms(2)]
    have n: "region_newest dev ?c = (hs_newest_generation s, hs_active_page s)" using i(4) by (simp add: indexed_def)
    have dq: "q < kPageCount" "decodable dev ?c q" "q' < kPageCount" "decodable dev ?c q'" using q q' by (simp_all add: record_in_def)
    have a: "0 \<le> hs_active_page s" using newest_spec(1) [OF dq(1,2)] page_gen_pos [OF dq(2)] newest_spec(2) [of dev ?c] n by auto
    have t: "?t = (nat (hs_active_page s) + 1) mod kPageCount" using i(6) job a by (simp add: at_work_def Let_def next_page_def)
    have sd: "in_ring dev ?c" "orderly dev ?c" using i(1) by (simp_all add: sound_def)
    have "page_gen dev ?c q < page_gen dev ?c q'"
      by (rule ring_target_oldest [OF sd(1) n a _ dq(2,3,4)]) (use t qt q't in simp_all)
    then have "identity r < identity r'" using sd(2) q q'(1) unfolding orderly_def by blast
    then show ?thesis using found r(2) q'(2) by simp
  qed
  show ?thesis using none q qt r(2) older by blast
qed simp

lemma boot_succeeds:
  assumes "history_reachable dev s" "nf_layout_ok (hs_flash s)" "inc \<noteq> 0"
  shows "\<exists>b. hs_begin nhf_ops dev (Some (Some inc)) (history_reset (hs_flash s)) = (b, True) \<and> hs_ready b"
proof -
  note p = reachable_parts [OF assms(1)]
  let ?z = "history_reset (hs_flash s)"
  have z: "nhf_wf (hs_flash ?z)" "sound dev (nf_cells (hs_flash ?z))" "shaped ?z" "snd (fb_begin nhf_ops (hs_flash ?z))"
    using p assms(2) by (simp_all add: history_reset_def HistoryStore_init_def nhf_wf_def driver_wf_def shaped_def
        nhf_ops_def nhf_begin_def Let_def)
  obtain b ok where b: "hs_begin nhf_ops dev (Some (Some inc)) ?z = (b, ok)" by fastforce
  have "ok" using nhf.begin_good(7) [OF z(1-3) b z(4)] assms(3) by (simp add: source_incarnation_def)
  then show ?thesis using nhf.begin_good(6) [OF z(1-3) b] b by auto
qed

text \<open>
  C13: A reset always leads back to a working store: whatever happened before, on a well laid out platform
  with a working incarnation source \<open>begin\<close> succeeds and the store is ready.
\<close>
theorem history_boot_total:
  assumes "history_reachable dev s" "nf_layout_ok (hs_flash s)" "inc \<noteq> 0"
  shows "\<exists>b. hs_begin nhf_ops dev (Some (Some inc)) (history_reset (hs_flash s)) = (b, True) \<and> hs_ready b"
  by (rule boot_succeeds [OF assms])

lemma acknowledge_next:
  assumes "history_reachable dev s" "hs_ready s" "\<not> hs_busy s" "hs_acknowledged_through s < i"
  shows "snd (acknowledgeDeliveredRecord nhf_ops i s) \<longleftrightarrow>
      hs_lookup nhf_ops s i \<noteq> None \<and> (\<forall>j. hs_acknowledged_through s < j \<and> hs_lookup nhf_ops s j \<noteq> None \<longrightarrow> i \<le> j)"
    (is "?acc \<longleftrightarrow> ?next")
proof -
  let ?R = "set (retained dev (nf_cells (hs_flash s)))" and ?a = "hs_acknowledged_through s"
  note p = reachable_parts [OF assms(1)]
  have found: "hs_lookup nhf_ops s j \<noteq> None \<longleftrightarrow> (\<exists>x\<in>?R. identity x = j)" for j
    using lookup_reachable [OF assms(1,2), of j] by (cases "hs_lookup nhf_ops s j") auto
  have h: "hole s = None" using assms(3) by (simp add: hole_def hs_busy_def)
  have strict: "readNextRetainedStrict nhf_ops s ?a = readAfter nhf_ops s ?a"
    by (rule nhf.read_strict [OF p(1) p(2) p(3) assms(2) h]) (rule assms(2))
  note ra = nhf.read_after [OF p(1) p(2) [OF assms(2)] p(3) assms(2), of ?a]
  have i: "i \<noteq> 0" "\<not> i \<le> ?a" using assms(4) by (auto simp: word_less_nat_alt word_le_nat_alt)
  show ?thesis
  proof (cases "readAfter nhf_ops s ?a")
    case None
    then have "\<not> ?acc" using assms(2,3) i strict by (simp add: acknowledgeDeliveredRecord_def)
    moreover have "\<not> ?next" using ra None found assms(4) by fastforce
    ultimately show ?thesis by simp
  next
    case (Some e)
    then have e: "e \<in> ?R" "?a < identity e" "\<forall>x\<in>?R. ?a < identity x \<longrightarrow> identity e \<le> identity x" using ra by simp_all
    have "?acc \<longleftrightarrow> identity e = i" using assms(2,3) i strict Some by (simp add: acknowledgeDeliveredRecord_def)
    also have "\<dots> \<longleftrightarrow> ?next"
    proof
      show "identity e = i \<Longrightarrow> ?next" using e found by auto
    next
      assume n: ?next
      then have "i \<le> identity e" using e(1,2) found by blast
      moreover obtain x where "x \<in> ?R" "identity x = i" using n found by blast
      then have "identity e \<le> i" using e(3) assms(4) by blast
      ultimately show "identity e = i" by simp
    qed
    finally show ?thesis .
  qed
qed

text \<open>
  C11: Acknowledgements are contiguous: an idle store accepts an identity beyond the acknowledged ones
  exactly when it is that of the next retained record, so no retained record is ever skipped.
\<close>
theorem history_acknowledge_contiguous:
  assumes "history_reachable dev s" "hs_ready s" "\<not> hs_busy s" "hs_acknowledged_through s < i"
  shows "snd (acknowledgeDeliveredRecord nhf_ops i s) \<longleftrightarrow>
      hs_lookup nhf_ops s i \<noteq> None \<and> (\<forall>j. hs_acknowledged_through s < j \<and> hs_lookup nhf_ops s j \<noteq> None \<longrightarrow> i \<le> j)"
  by (rule acknowledge_next [OF assms])

text \<open>
  C8: Tickets are never handed out twice: once a reservation has been written, whatever the firmware and the
  flash do until the next reset, and again after it, every ticket the rebooted store hands out is greater
  than every ticket handed out before the reset.
\<close>
theorem history_tickets_fresh:
  assumes "history_reachable dev s" "hs_ready s" "hs_job s = kReserve" "hs_ready (hs_poll nhf_ops s)"
    and "list_all one_boot es" "s2 = history_run dev es (hs_poll nhf_ops s)"
    and "hs_begin nhf_ops dev src (history_reset (hs_flash s2)) = (b, True)" "list_all one_boot es'"
    and "hs_nextSequence nhf_ops (history_run dev es' b) = (b', Some (n, ticket))"
  shows "hs_next_ticket s2 < ticket"
proof -
  have r0: "history_reachable dev (hs_poll nhf_ops s)" by (rule poll_reachable [OF assms(1)])
  have f0: "floored dev (hs_poll nhf_ops s)" by (rule reserved_floor [OF assms(1-4)])
  note run = floored_run [OF r0 f0 assms(5), folded assms(6)]
  then obtain p where p: "held dev (nf_cells (hs_flash s2)) p (hs_sequence_end s2)" "hs_next_ticket s2 \<le> hs_sequence_end s2"
    by (auto simp: floored_def)
  then have "0 \<le> snd (region_newest dev (nf_cells (hs_flash s2)))" using held_newest by blast
  then have "hs_next_ticket b = region_end dev (nf_cells (hs_flash s2))" using boot_parts(7,8) [OF _ assms(7)] run by simp
  then have "hs_next_ticket s2 \<le> hs_next_ticket b" using held_end [OF p(1)] p(2) by simp
  moreover have "history_reachable dev b"
    using history_event [OF history_event [OF conjunct1 [OF run], of HvReset], of "HvBegin src"] assms(7) by simp
  then have "hs_next_ticket b \<le> hs_next_ticket (history_run dev es' b)" by (rule tickets_grow_run [OF _ assms(8)])
  moreover have "hs_next_ticket (history_run dev es' b) < ticket" by (rule next_handed [OF assms(9)])
  ultimately show ?thesis by simp
qed

text \<open>
  C12: A finished delivery checkpoint is durable: the store that boots after it takes up the delivered
  identity the checkpoint wrote.
\<close>
theorem history_checkpoint_durable:
  assumes "history_reachable dev s" "hs_ready s" "hs_job s = kState" "hs_ready (hs_poll nhf_ops s)"
    and "hs_begin nhf_ops dev src (history_reset (hs_flash (hs_poll nhf_ops s))) = (b, True)"
  shows "hs_state b = hs_pending_state s \<and> hs_acknowledged_through b = delivered_through (hs_pending_state s)"
proof -
  have "region_state dev (nf_cells (hs_flash (hs_poll nhf_ops s))) = hs_pending_state s"
    using poll_facts(3) [OF assms(1)] assms(2-4) by (simp add: meters_step_def)
  then show ?thesis using boot_parts(6,9) [OF poll_reachable [OF assms(1)] assms(5)] by simp
qed

end
