(* ===== verification/History_Progress.thy ===== *)
theory History_Progress
  imports History_Guarantees
begin

text \<open>
  The history store (\<open>firmware/src/history_store.cpp\<close>) on a flash that works: every poll completes its step,
  and every job its work.
\<close>

section \<open>A working poll\<close>

lemma blank_replicate: "blank_slot x \<longleftrightarrow> x = replicate (length x) 0xFF"
proof
  show "blank_slot x \<Longrightarrow> x = replicate (length x) 0xFF"
    by (simp add: blank_slot_def list_all_iff replicate_length_same)
  show "x = replicate (length x) 0xFF \<Longrightarrow> blank_slot x"
    unfolding blank_slot_def list_all_iff by (metis in_set_replicate)
qed

lemma nhf_program_works:
  assumes op: "flash_operational f" and len: "length (nf_cells f) = kHistoryRegion"
    and al: "off mod 4 = 0" "length data mod 4 = 0" "0 < length data" "length data \<le> 352"
    and room: "off mod kPageSize + length data \<le> kPageSize" "off + length data \<le> kHistoryRegion"
    and ff: "\<And>i. i < length data \<Longrightarrow> nf_cells f ! (off + i) = 0xFF"
  shows "fb_program nhf_ops f off data = (f\<lparr>nf_cells := write_at off data (nf_cells f)\<rparr>, kDone)"
  unfolding nhf_driver by (rule driver_program_works) (use assms in \<open>simp_all add: history_region\<close>)

lemma write_works:
  assumes s: "history_reachable dev s" "hs_ready s" "hs_job s \<noteq> HistoryJob.kNone" "hs_phase s \<noteq> kErase" and op: "flash_operational (hs_flash s)"
  obtains c where "length c = kHistoryRegion"
    "hs_writeBlob nhf_ops s = (s\<lparr>hs_flash := (hs_flash s)\<lparr>nf_cells := c\<rparr>\<rparr>, kDone)"
proof -
  note p = reachable_parts [OF s(1)]
  let ?f = "hs_flash s" and ?c = "nf_cells (hs_flash s)"
  have len: "length ?c = kHistoryRegion" by (rule sound_length [OF p(4)])
  obtain off b where b: "blob_is off b s" "8 \<le> length b" "committed b" "off + length b \<le> kHistoryRegion"
    "blank_slot (slice off (length b) ?c)" "off mod 4 = 0" "length b mod 4 = 0" "length b \<le> 64" "off mod kPageSize + length b \<le> kPageSize"
    by (rule job_unit [OF p(3) s(2-4)])
  define n where "n = length b"
  have ff: "?c ! (off + i) = 0xFF" if "i < n" for i
  proof -
    have "slice off n ?c = replicate n 0xFF" using b(5) blank_replicate [of "slice off n ?c"] b(4) len by (simp add: n_def)
    then have "slice off n ?c ! i = 0xFF" using that by simp
    then show ?thesis using that b(4) len by (simp add: n_def)
  qed
  have n8: "8 \<le> n" and n: "4 \<le> n" "n mod 4 = 0" "n \<le> 64" "off + n \<le> kHistoryRegion" "off mod kPageSize + n \<le> kPageSize" using b by (simp_all add: n_def)
  have bf: "hs_blob_offset s = off" "hs_blob_size s = n" "take n (hs_blob s) = b" using b(1) by (simp_all add: blob_is_def n_def)
  have bl: "n \<le> length (hs_blob s)" using arg_cong [OF bf(3), of length] n_def by simp
  note at = inv_parts(7,8) [OF p(3) s(2)]
  define b1 where "b1 = take (n - 4) (hs_blob s)"
  define b2 where "b2 = slice (n - 4) 4 (hs_blob s)"
  have l: "length b1 = n - 4" "length b2 = 4" using bl n(1) by (simp_all add: b1_def b2_def)
  have join: "b = b1 @ b2" unfolding bf(3) [symmetric] b1_def b2_def slice_def using n(1)
    by (metis le_add_diff_inverse2 take_add)
  let ?c1 = "write_at off b1 ?c"
  let ?c2 = "write_at (off + n - 4) b2 ?c1"
  have m: "(n - 4) mod 4 = 0" "(off + n - 4) mod 4 = 0" using n(2) b(6) n8 by presburger+
  have pg: "(off + n - 4) mod kPageSize + 4 \<le> kPageSize"
  proof -
    have e: "off + n - 4 = off div kPageSize * kPageSize + (off mod kPageSize + (n - 4))" using n8 div_mult_mod_eq [of off kPageSize] by linarith
    have "off mod kPageSize + (n - 4) < kPageSize" using n(5) n8 by linarith
    then have "(off + n - 4) mod kPageSize = off mod kPageSize + (n - 4)" unfolding e by (simp only: mod_mult_self3 mod_less)
    then show ?thesis using n(5) n8 by linarith
  qed
  have p1: "fb_program nhf_ops ?f off b1 = (?f\<lparr>nf_cells := ?c1\<rparr>, kDone)"
    by (rule nhf_program_works [OF op len]) (use l n n8 m b(6) ff in auto)
  have op1: "flash_operational (?f\<lparr>nf_cells := ?c1\<rparr>)" using op by (simp add: flash_operational_def)
  have "fb_program nhf_ops (?f\<lparr>nf_cells := ?c1\<rparr>) (off + n - 4) b2 =
      (?f\<lparr>nf_cells := ?c1\<rparr>\<lparr>nf_cells := write_at (off + n - 4) b2 (nf_cells (?f\<lparr>nf_cells := ?c1\<rparr>))\<rparr>, kDone)"
  proof (rule nhf_program_works [OF op1])
    fix i assume "i < length b2"
    then have i: "off + n - 4 + i = off + (n - 4 + i)" "n - 4 + i < n" using l n8 by linarith+
    show "nf_cells (?f\<lparr>nf_cells := ?c1\<rparr>) ! (off + n - 4 + i) = 0xFF"
      unfolding i(1) using ff [OF i(2)] l i(2) n(4) len by (simp add: nth_write_at)
  qed (use len l n n8 m pg in auto)
  then have p2: "fb_program nhf_ops (?f\<lparr>nf_cells := ?c1\<rparr>) (off + n - 4) b2 = (?f\<lparr>nf_cells := ?c2\<rparr>, kDone)" by simp
  have rd: "fb_read nhf_ops (?f\<lparr>nf_cells := ?c2\<rparr>) off n = Some b"
  proof -
    have "slice off n ?c2 = b"
    proof (rule nth_equalityI)
      have lc: "length ?c2 = kHistoryRegion" using len by simp
      show "length (slice off n ?c2) = length b" using lc n(4) by (simp add: n_def)
      fix i assume "i < length (slice off n ?c2)"
      then have i: "i < n" using lc n(4) by simp
      have "slice off n ?c2 ! i = ?c2 ! (off + i)" using i lc n(4) by simp
      also have "\<dots> = b ! i"
      proof (cases "i < n - 4")
        case True
        then have "off + i < off + n - 4" "off + i < off + length b1" using l by linarith+
        then show ?thesis using True l len n(4) by (simp add: join nth_write_at nth_append)
      next
        case False
        then have e: "\<not> off + i < off + n - 4" "off + i - (off + n - 4) = i - (n - 4)" "off + i < off + n - 4 + length b2" using i l n8 by linarith+
        have r: "off + n - 4 \<le> off + i" "off + n - 4 + length b2 \<le> length ?c1" using e(1) l n8 n(4) len by simp_all
        have "?c2 ! (off + i) = b2 ! (i - (n - 4))" using nth_write_at_in [OF r(1) e(3) r(2)] e(2) by simp
        then show ?thesis using False l by (simp add: join nth_append)
      qed
      finally show "slice off n ?c2 ! i = b ! i" .
    qed
    then show ?thesis using op n(4) by (simp add: nhf_driver driver_def in_region_def history_region flash_operational_def)
  qed
  define af where "af \<longleftrightarrow> hs_job s = kAppend \<or> hs_append_after_new_page s"
  have body: "hs_write_body nhf_ops af s = (s\<lparr>hs_flash := ?f\<lparr>nf_cells := ?c1\<rparr>, hs_awaiting_completion := False,
      hs_blob_step := HistoryBlobStep.kCommit\<rparr>, None)"
    using at p1 bf by (simp add: hs_write_body_def b1_def Let_def)
  have "hs_writeBlob nhf_ops s = (s\<lparr>hs_flash := ?f\<lparr>nf_cells := ?c2\<rparr>, hs_awaiting_completion := False, hs_blob_step := kBody\<rparr>, kDone)"
    unfolding hs_writeBlob_def af_def [symmetric] Let_def body
    using p2 rd bf by (simp add: hs_write_commit_def b2_def [symmetric] Let_def)
  then have "hs_writeBlob nhf_ops s = (s\<lparr>hs_flash := ?f\<lparr>nf_cells := ?c2\<rparr>\<rparr>, kDone)" using at by simp
  then show thesis using that [of ?c2] len by simp
qed

section \<open>What a poll comes to\<close>

text \<open>A poll that leaves the store ready has erased the page or finished a write.\<close>

lemma poll_cases:
  assumes s: "history_reachable dev s" "hs_ready s" "hs_job s \<noteq> HistoryJob.kNone" and r: "hs_ready (hs_poll nhf_ops s)"
  obtains (erased) "hs_job s = kNewPage" "hs_phase s = kErase" "hs_phase (hs_poll nhf_ops s) = kHeader"
      "hs_job (hs_poll nhf_ops s) = kNewPage" "hs_append_after_new_page (hs_poll nhf_ops s) = hs_append_after_new_page s"
      "hs_append_result_ready (hs_poll nhf_ops s) = hs_append_result_ready s"
    | (written) f where "hs_phase s \<noteq> kErase" "hs_poll nhf_ops s = hs_finishBlob nhf_ops (s\<lparr>hs_flash := f\<rparr>)"
proof (cases "hs_phase s = kErase")
  case True
  note p = reachable_parts [OF s(1)]
  have job: "hs_job s = kNewPage" using p(3) s(2,3) True by (cases "hs_job s") (auto simp: history_inv_def at_work_def Let_def)
  have e: "hs_poll nhf_ops s = hs_poll_erase nhf_ops s" using s True by (simp add: hs_poll_def)
  obtain f x where f: "fb_erasePage nhf_ops (hs_flash s) (hs_target_page s) = (f, x)" by fastforce
  note at = inv_parts(7,8) [OF p(3) s(2)]
  have "x \<noteq> kPending" using nhf.erase_sync [of "hs_flash s" "hs_target_page s"] f by simp
  moreover have "x \<noteq> kFailed" using r f at by (auto simp: e hs_poll_erase_def Let_def)
  ultimately show thesis using erased [OF job True] f at job
    by (simp add: e hs_poll_erase_def Let_def hs_count_def)
next
  case False
  note p = reachable_parts [OF s(1)]
  obtain s1 x where w: "hs_writeBlob nhf_ops s = (s1, x)" by fastforce
  have e: "hs_poll nhf_ops s = (if x \<noteq> kDone then s1 else hs_finishBlob nhf_ops s1)" using s False w by (simp add: hs_poll_def)
  obtain off b where b: "blob_is off b s" "4 \<le> length b" "committed b" "off + length b \<le> kHistoryRegion"
    "\<not> committed (slice off (length b) (nf_cells (hs_flash s)))" by (rule job_blob [OF p(3) s(2,3) False])
  have bf: "hs_blob_offset s = off" "hs_blob_size s = length b" "take (length b) (hs_blob s) = b" using b(1) by (simp_all add: blob_is_def)
  have bl: "length b \<le> length (hs_blob s)" using arg_cong [OF bf(3), of length] by simp
  obtain y where "nhf.blob_written s s1 x y"
    using nhf.write_blob [OF p(1) p(2) [OF s(2)] inv_parts(7,8) [OF p(3) s(2)] _ _ _ _ _ w] b(2-5) bf bl by auto
  then have "x = kDone \<and> s1 = s\<lparr>hs_flash := hs_flash s1\<rparr> \<or> x = kFailed \<and> \<not> hs_ready s1"
    unfolding nhf.blob_written_def using nhf.hs_fail_flash(2) by metis
  then have "x = kDone" "s1 = s\<lparr>hs_flash := hs_flash s1\<rparr>" using e r by auto
  then show thesis using written [OF False, of "hs_flash s1"] e by simp
qed

lemma finish_other:
  "hs_job s = kState \<Longrightarrow> hs_job (hs_finishBlob ops s) = HistoryJob.kNone \<and> hs_ready (hs_finishBlob ops s) = hs_ready s \<and>
     hs_append_after_new_page (hs_finishBlob ops s) = hs_append_after_new_page s"
  "hs_job s = kAppend \<Longrightarrow> hs_job (hs_finishBlob ops s) = HistoryJob.kNone \<and> hs_ready (hs_finishBlob ops s) = hs_ready s \<and>
     hs_append_result_ready (hs_finishBlob ops s) \<and> hs_append_success (hs_finishBlob ops s) \<and>
     hs_append_after_new_page (hs_finishBlob ops s) = hs_append_after_new_page s"
  by (simp_all add: hs_finishBlob_def Let_def on_page_def hs_count_def)

lemma reservation_starts:
  assumes "hs_ready t" "\<not> hs_busy t" "0 \<le> hs_active_page t" "hp_sequence_used (hs_pages t ! nat (hs_active_page t)) = 0"
    and st: "startReservation ops t = (s, ok)"
  shows "ok \<longleftrightarrow> hs_sequence_end t \<le> UINT64_MAX - kSequenceBlockSize"
    "ok \<Longrightarrow> hs_ready s \<and> hs_job s = kReserve \<and> hs_append_after_new_page s = hs_append_after_new_page t \<and>
      hs_append_result_ready s = hs_append_result_ready t \<and> hs_pages s = hs_pages t \<and> hs_active_page s = hs_active_page t"
  using assms(1-4) st [symmetric] by (simp_all add: startReservation_def Let_def kSequenceSlotsPerPage_def not_less not_le split: if_splits)

lemma finish_header:
  assumes "hs_job s = kNewPage" "hs_ready s" "hs_target_page s < length (hs_pages s)"
  shows "hs_ready (hs_finishBlob ops s) \<longleftrightarrow> hs_sequence_end s \<le> UINT64_MAX - kSequenceBlockSize"
    "hs_ready (hs_finishBlob ops s) \<Longrightarrow> hs_job (hs_finishBlob ops s) = kReserve \<and>
      hs_append_after_new_page (hs_finishBlob ops s) = hs_append_after_new_page s \<and>
      hs_append_result_ready (hs_finishBlob ops s) = hs_append_result_ready s \<and>
      hs_pages (hs_finishBlob ops s) ! nat (hs_active_page (hs_finishBlob ops s)) = HistoryPage_init\<lparr>hp_generation := hs_target_generation s\<rparr>"
proof -
  let ?s1 = "(on_page (hs_target_page s) (\<lambda>_. HistoryPage_init\<lparr>hp_generation := hs_target_generation s\<rparr>) s)
        \<lparr>hs_newest_generation := hs_target_generation s, hs_active_page := int (hs_target_page s), hs_job := HistoryJob.kNone\<rparr>"
  obtain s2 started where st: "startReservation ops ?s1 = (s2, started)" by fastforce
  have f: "hs_finishBlob ops s = (if started then s2 else hs_fail (hs_append_after_new_page s2) s2)"
    using assms(1) st by (simp add: hs_finishBlob_def Let_def)
  have pg: "hs_pages ?s1 ! nat (hs_active_page ?s1) = HistoryPage_init\<lparr>hp_generation := hs_target_generation s\<rparr>"
    using assms(3) by (simp add: on_page_def)
  have r: "hs_ready ?s1" "\<not> hs_busy ?s1" "\<not> hs_active_page ?s1 < 0" "hs_sequence_end ?s1 = hs_sequence_end s"
    "hs_append_after_new_page ?s1 = hs_append_after_new_page s" "hs_append_result_ready ?s1 = hs_append_result_ready s"
    using assms(2) by (simp_all add: on_page_def hs_busy_def)
  define t where "t = ?s1"
  note r' = r [folded t_def] and pg' = pg [folded t_def] and st' = st [folded t_def]
  have u: "hp_sequence_used (hs_pages t ! nat (hs_active_page t)) = 0" "0 \<le> hs_active_page t"
    using r' pg' by (simp_all add: HistoryPage_init_def)
  note rs = reservation_starts [OF r'(1,2) u(2,1) st']
  show "hs_ready (hs_finishBlob ops s) \<longleftrightarrow> hs_sequence_end s \<le> UINT64_MAX - kSequenceBlockSize"
    using rs f r'(4) by auto
  assume rd: "hs_ready (hs_finishBlob ops s)"
  then have s2: started "hs_finishBlob ops s = s2" using f by (auto split: if_splits)
  note rs(2) [OF s2(1)]
  then show "hs_job (hs_finishBlob ops s) = kReserve \<and>
      hs_append_after_new_page (hs_finishBlob ops s) = hs_append_after_new_page s \<and>
      hs_append_result_ready (hs_finishBlob ops s) = hs_append_result_ready s \<and>
      hs_pages (hs_finishBlob ops s) ! nat (hs_active_page (hs_finishBlob ops s)) = HistoryPage_init\<lparr>hp_generation := hs_target_generation s\<rparr>"
    unfolding s2(2) using r' pg' by simp
qed

section \<open>The record that waits for a page\<close>

text \<open>
  While a new page is being made for a record, the record still fits: it will be accepted when the page is
  there.
\<close>

definition fits :: "u64 \<Rightarrow> NrfHistoryFlash HistoryStore \<Rightarrow> bool" where
  "fits dev s \<longleftrightarrow> (hs_ready s \<and> hs_append_after_new_page s \<longrightarrow>
     \<not> hs_append_result_ready s \<and> identity (hs_pending_record s) \<le> hs_next_ticket s \<and>
     validPacket (packet (hs_pending_record s)) (identity (hs_pending_record s)) dev \<and>
     (\<forall>r\<in>set (retained dev (nf_cells (hs_flash s))). identity r < identity (hs_pending_record s)) \<and>
     (hs_job s = kReserve \<longrightarrow> hp_records_used (hs_pages s ! nat (hs_active_page s)) = 0))"

text \<open>A call other than \<open>append\<close> leaves the waiting record alone.\<close>

definition carries :: "'f HistoryStore \<Rightarrow> 'f HistoryStore \<Rightarrow> bool" where
  "carries s s' \<longleftrightarrow> (hs_ready s' \<and> hs_append_after_new_page s' \<longrightarrow>
     hs_ready s \<and> hs_append_after_new_page s \<and> hs_flash s' = hs_flash s \<and> hs_pending_record s' = hs_pending_record s \<and>
     hs_pages s' = hs_pages s \<and> hs_active_page s' = hs_active_page s \<and> hs_job s' = hs_job s \<and>
     hs_next_ticket s' = hs_next_ticket s \<and> (hs_append_result_ready s' \<longrightarrow> hs_append_result_ready s))"

lemma carries_refl [simp]: "carries s s" by (simp add: carries_def)

lemma carries_fits: "fits dev s \<Longrightarrow> carries s s' \<Longrightarrow> fits dev s'"
  unfolding fits_def carries_def by (intro impI) (elim impE; simp)

lemma after_new_page_busy: "history_inv dev c s \<Longrightarrow> hs_ready s \<Longrightarrow> hs_append_after_new_page s \<Longrightarrow> hs_busy s"
  using inv_calm by (auto simp: hs_busy_def)

lemma reservation_carries:
  assumes inv: "history_inv dev c s" and idle: "hs_ready s" "\<not> hs_busy s" and st: "startReservation ops s = (s1, started)"
  shows "carries s (if started then s1 else hs_fail False s1)"
  using start_reservation(1) [OF inv_calm'(1) [OF inv idle] st] inv_calm'(2) [OF inv idle]
  by (auto simp: carries_def)

lemma state_carries:
  assumes inv: "history_inv dev c s" and st: "startState n s = (s1, ok)"
  shows "carries s s1"
proof (cases ok)
  case True
  then have idle: "hs_ready s" "\<not> hs_busy s" using st by (auto simp: startState_def split: if_splits)
  have "hs_append_after_new_page s1 = hs_append_after_new_page s" using st by (auto simp: startState_def Let_def split: if_splits)
  then show ?thesis using inv_calm'(2) [OF inv idle] by (simp add: carries_def)
next
  case False
  then have "s1 = s" using st by (auto simp: startState_def Let_def split: if_splits)
  then show ?thesis by simp
qed

lemma call_carries:
  assumes s: "history_inv dev c s" and e: "history_call e" "\<forall>pk i. e \<noteq> HvAppend pk i"
  shows "carries s (history_step dev e s)"
proof -
  have ack: "carries s (fst (acknowledgeDeliveredRecord nhf_ops i s))" for i
    by (auto simp: acknowledgeDeliveredRecord_def carries_def split: option.split)
  have chk: "carries t (fst (checkpointAcknowledgedDelivery t))" if "history_inv dev c t" for t :: "NrfHistoryFlash HistoryStore"
  proof -
    let ?n = "(hs_state t)\<lparr>delivered_through := hs_acknowledged_through t, replay_cursor := 0\<rparr>"
    obtain s1 ok where st: "startState ?n t = (s1, ok)" by fastforce
    have "fst (checkpointAcknowledgedDelivery t) \<in> {t, s1,
        hs_count (\<lambda>d. d\<lparr>hd_delivery_checkpoint_deferrals := hd_delivery_checkpoint_deferrals d + 1\<rparr>) t}"
      using st by (auto simp: checkpointAcknowledgedDelivery_def Let_def)
    moreover have "carries t (hs_count h t)" for h by (simp add: carries_def hs_count_def)
    ultimately show ?thesis using state_carries [OF that st] by auto
  qed
  have carries_trans: "carries t u \<Longrightarrow> carries u v \<Longrightarrow> carries t v" for t u v :: "NrfHistoryFlash HistoryStore"
    unfolding carries_def by (intro impI) (elim impE; simp)
  have mark: "carries s (fst (markDeliveredThrough nhf_ops i s))" for i
  proof -
    obtain t ok where t: "(if hs_acknowledged_through s = delivered_through (hs_state s)
        then acknowledgeDeliveredRecord nhf_ops i s else (s, i = hs_acknowledged_through s)) = (t, ok)" by fastforce
    have "t = s \<or> t = fst (acknowledgeDeliveredRecord nhf_ops i s)" using t by (auto split: if_splits)
    then have it: "history_inv dev c t" "carries s t" using s acknowledge_call(1) [OF s] ack by auto
    have "fst (markDeliveredThrough nhf_ops i s) \<in> {s, t, fst (checkpointAcknowledgedDelivery t)}"
      using t by (auto simp: markDeliveredThrough_def split: prod.split)
    then show ?thesis using it chk [OF it(1)] carries_trans by auto
  qed
  have rep: "carries s (fst (saveReplayCursor nhf_ops i s))" for i
  proof -
    obtain s1 ok where st: "startState ((hs_state s)\<lparr>replay_cursor := i\<rparr>) s = (s1, ok)" by fastforce
    have "fst (saveReplayCursor nhf_ops i s) = s \<or> fst (saveReplayCursor nhf_ops i s) = s1" using st by (auto simp: saveReplayCursor_def)
    then show ?thesis using state_carries [OF s st] by auto
  qed
  have tick: "carries s (s\<lparr>hs_next_ticket := t\<rparr>)" if "canAppend s" for t
    using inv_calm'(2) [OF s] that by (simp add: carries_def canAppend_def appendIdle_def)
  have res: "carries s (if started then s1 else hs_fail False s1)" if "appendIdle s" "startReservation nhf_ops s = (s1, started)" for s1 started
    by (rule reservation_carries [OF s _ _ that(2)]) (use that(1) in \<open>simp_all add: appendIdle_def\<close>)
  have prep: "carries s (fst (prepareAppend nhf_ops s))" using res by (auto simp: prepareAppend_def split: prod.split)
  have nxt: "carries s (fst (hs_nextSequence nhf_ops s))" using res tick by (auto simp: hs_nextSequence_def Let_def split: prod.split)
  have take: "carries s (fst (takeAppendResult s))" by (simp add: takeAppendResult_def carries_def)
  show ?thesis using e ack chk [OF s] mark rep prep nxt take by (cases e) simp_all
qed

lemma append_fits:
  assumes r: "history_reachable dev s" and f: "fits dev s" and a: "hs_append nhf_ops pk i s = (s', ok)"
  shows "fits dev s'"
proof (cases ok)
  case False
  then have "hs_append_after_new_page s' \<longrightarrow> hs_append_after_new_page s \<and> s' = hs_count (\<lambda>d. d\<lparr>hd_append_failures := hd_append_failures d + 1\<rparr>) s"
    using a by (auto simp: hs_append_def Let_def hs_count_def split: if_splits prod.splits)
  then show ?thesis using f by (auto simp: fits_def hs_count_def)
next
  case True
  note p = reachable_parts [OF r]
  note as = nhf.append_step [OF p(1) p(2) p(3) a]
  show ?thesis using as(2-7) True unfolding fits_def by auto
qed

lemma page_used: "hs_target_page s < length (hs_pages s) \<Longrightarrow>
    hp_records_used (hs_pages (on_page (hs_target_page s) (\<lambda>g. g\<lparr>hp_sequence_used := hp_sequence_used g + 1\<rparr>) s) ! q) =
    hp_records_used (hs_pages s ! q)"
  by (cases "q = hs_target_page s") (simp_all add: on_page_def)

text \<open>The append that follows a reservation on a fresh page goes there.\<close>

lemma append_fresh:
  assumes "hp_records_used (hs_pages s ! nat (hs_active_page s)) = 0" "hs_append ops (Some pk) i s = (s', True)"
  shows "hs_job s' = kAppend" "hs_append_after_new_page s' = hs_append_after_new_page s"
proof -
  have k: "kRecordsPerPage \<noteq> 0" by (simp add: history_layout)
  have "hs_job s' = kAppend \<and> hs_append_after_new_page s' = hs_append_after_new_page s"
    using assms(2) unfolding hs_append_def Let_def
    by (split if_split_asm) (simp, auto simp: assms(1) k)
  then show "hs_job s' = kAppend" "hs_append_after_new_page s' = hs_append_after_new_page s" by simp_all
qed

lemma finish_reserve_fits:
  assumes "hs_job s = kReserve" "hs_target_page s < length (hs_pages s)" "hs_ready (hs_finishBlob ops s)"
    and "hs_append_after_new_page s \<longrightarrow> hp_records_used (hs_pages s ! nat (hs_active_page s)) = 0"
  shows "\<not> hs_append_after_new_page (hs_finishBlob ops s)"
proof -
  let ?s1 = "(on_page (hs_target_page s) (\<lambda>g. g\<lparr>hp_sequence_used := hp_sequence_used g + 1\<rparr>) s)
        \<lparr>hs_sequence_end := hs_pending_sequence_end s, hs_job := HistoryJob.kNone\<rparr>"
  obtain s3 ok where a: "hs_append ops (Some (packet (hs_pending_record s))) (identity (hs_pending_record s))
      (?s1\<lparr>hs_append_after_new_page := False\<rparr>) = (s3, ok)" by fastforce
  have f: "hs_finishBlob ops s = (if hs_append_after_new_page s then
      if ok then s3 else s3\<lparr>hs_append_result_ready := True, hs_append_success := False, hs_ready := False\<rparr> else ?s1)"
    using assms(1) a by (simp add: hs_finishBlob_def Let_def on_page_def)
  show ?thesis
  proof (cases "hs_append_after_new_page s")
    case True
    have ok: ok by (rule ccontr) (use f assms(3) True in simp)
    then have s3: "hs_finishBlob ops s = s3" using f True by simp
    have "hp_records_used (hs_pages (?s1\<lparr>hs_append_after_new_page := False\<rparr>) ! nat (hs_active_page (?s1\<lparr>hs_append_after_new_page := False\<rparr>))) = 0"
      using assms(4) True page_used [OF assms(2), of "nat (hs_active_page s)"] by (simp add: on_page_def)
    then have "hs_append_after_new_page s3 = hs_append_after_new_page (?s1\<lparr>hs_append_after_new_page := False\<rparr>)"
      by (rule append_fresh(2) [where s' = s3]) (use a ok in simp)
    then show ?thesis using s3 by simp
  next
    case False
    then show ?thesis using f by (simp add: on_page_def)
  qed
qed

lemma retained_same: "record_in dev d = record_in dev c \<Longrightarrow> set (retained dev d) = set (retained dev c)"
  using retained_iff by (metis (no_types, lifting) Collect_cong Collect_mem_eq)

lemma poll_fits:
  assumes r: "history_reachable dev s" and f: "fits dev s"
  shows "fits dev (hs_poll nhf_ops s)"
proof (cases "hs_ready s \<and> hs_job s \<noteq> HistoryJob.kNone \<and> hs_ready (hs_poll nhf_ops s)")
  case False
  then have "hs_poll nhf_ops s = s \<or> \<not> hs_ready (hs_poll nhf_ops s)" by (auto simp: hs_poll_def)
  then show ?thesis using f by (auto simp: fits_def)
next
  case True
  note p = reachable_parts [OF r] and pf = poll_facts [OF r]
  have m: "hs_pending_record (hs_poll nhf_ops s) = hs_pending_record s" "hs_next_ticket (hs_poll nhf_ops s) = hs_next_ticket s"
    using pf(3) by (simp_all add: meters_step_def)
  have len: "length (hs_pages s) = kPageCount" using p(5) by (simp add: shaped_def)
  from True have t: "hs_ready s" "hs_job s \<noteq> HistoryJob.kNone" "hs_ready (hs_poll nhf_ops s)" by simp_all
  show ?thesis
  proof (cases rule: poll_cases [OF r t])
    case 1
    note erased = this
    have "record_in dev (nf_cells (hs_flash (hs_poll nhf_ops s))) q k x \<Longrightarrow> record_in dev (nf_cells (hs_flash s)) q k x" for q k x
      using pf(1) t(1) erased(1,2) by (simp add: records_step_def)
    then have "x \<in> set (retained dev (nf_cells (hs_flash (hs_poll nhf_ops s)))) \<Longrightarrow> x \<in> set (retained dev (nf_cells (hs_flash s)))" for x
      unfolding retained_iff by blast
    then show ?thesis using f m erased t(1) by (simp add: fits_def)
  next
    case (2 g)
    note written = this
    let ?s = "s\<lparr>hs_flash := g\<rparr>"
    have w: "at_work dev (nf_cells (hs_flash s)) s" using p(3) t(1) by (simp add: history_inv_def)
    have rin: "hs_job s \<noteq> kAppend \<Longrightarrow> set (retained dev (nf_cells (hs_flash (hs_poll nhf_ops s)))) = set (retained dev (nf_cells (hs_flash s)))"
      by (rule retained_same) (use pf(1) t(1) written(1) in \<open>simp add: records_step_def\<close>)
    show ?thesis
    proof (cases "hs_job s")
      case kNewPage
      have "hs_target_page ?s < length (hs_pages ?s)" using new_page_facts(1) [OF p(3) t(1) kNewPage] len by simp
      then have h: "hs_job (hs_poll nhf_ops s) = kReserve \<and> hs_append_after_new_page (hs_poll nhf_ops s) = hs_append_after_new_page s \<and>
          hs_append_result_ready (hs_poll nhf_ops s) = hs_append_result_ready s \<and>
          hs_pages (hs_poll nhf_ops s) ! nat (hs_active_page (hs_poll nhf_ops s)) = HistoryPage_init\<lparr>hp_generation := hs_target_generation s\<rparr>"
        using finish_header(2) [of ?s nhf_ops] kNewPage t(1,3) written(2) by simp
      then show ?thesis using f m rin kNewPage t(1) by (simp add: fits_def HistoryPage_init_def)
    next
      case kReserve
      have tg: "hs_target_page s = nat (hs_active_page s)" "0 \<le> hs_active_page s" using w kReserve by (simp_all add: at_work_def Let_def)
      have "indexed dev (nf_cells (hs_flash s)) s" using p(3) t(1) by (simp add: history_inv_def)
      then have "hs_target_page ?s < length (hs_pages ?s)" using active_page(1) tg len by simp
      then have "\<not> hs_append_after_new_page (hs_poll nhf_ops s)"
        using finish_reserve_fits [of ?s nhf_ops] kReserve t(1,3) written(2) f by (simp add: fits_def)
      then show ?thesis by (simp add: fits_def)
    next
      case kState
      then have "\<not> hs_append_after_new_page (hs_poll nhf_ops s)"
        using finish_other(1) [of ?s nhf_ops] w written(2) by (simp add: at_work_def Let_def)
      then show ?thesis by (simp add: fits_def)
    next
      case kAppend
      then have "\<not> hs_append_after_new_page (hs_poll nhf_ops s)"
        using finish_other(2) [of ?s nhf_ops] w written(2) by (simp add: at_work_def Let_def)
      then show ?thesis by (simp add: fits_def)
    qed (use t in simp)
  qed
qed

lemma reachable_fits: "history_reachable dev s \<Longrightarrow> fits dev s"
proof (induction rule: history_reachable.induct)
  case (history_power_on f)
  then show ?case by (simp add: fits_def history_reset_def HistoryStore_init_def)
next
  case (history_event s e)
  note p = reachable_parts [OF history_event(1)]
  show ?case
  proof (cases e)
    case (HvBegin src)
    obtain s' ok where b: "hs_begin nhf_ops dev src s = (s', ok)" by fastforce
    have "hs_ready s' \<Longrightarrow> \<not> hs_append_after_new_page s'" using nhf.begin_good(6,8) [OF p(1,4,5) b] by simp
    then show ?thesis using HvBegin b by (auto simp: fits_def)
  next
    case HvPoll
    then show ?thesis using poll_fits [OF history_event(1,3)] by simp
  next
    case (HvAppend pk i)
    obtain s' ok where "hs_append nhf_ops pk i s = (s', ok)" by fastforce
    then show ?thesis using append_fits [OF history_event(1,3)] HvAppend by simp
  next
    case (HvPlatform sd en)
    then show ?thesis using history_event(3) by (simp add: fits_def)
  next
    case HvReset
    then show ?thesis by (simp add: fits_def history_reset_def HistoryStore_init_def)
  qed (use carries_fits [OF history_event(3) call_carries [OF p(3), of e]] in simp_all)
qed

end
