(* ===== verification/History_Completion.thy ===== *)
theory History_Completion
  imports History_Progress
begin

text \<open>
  The history store (\<open>firmware/src/history_store.cpp\<close>) on a flash that works: every job is done after at most
  four polls, an accepted append with success.  A concrete store, from the first boot to its first record.
\<close>

section \<open>Polls on a working flash\<close>

definition at_large :: "u64 \<Rightarrow> NrfHistoryFlash HistoryStore \<Rightarrow> bool" where
  "at_large dev s \<longleftrightarrow> history_reachable dev s \<and> hs_ready s \<and> flash_operational (hs_flash s)"

lemma erase_done_works:
  assumes a: "at_large dev s" and e: "hs_job s = kNewPage" "hs_phase s = kErase"
  shows "at_large dev (hs_poll nhf_ops s)" "hs_job (hs_poll nhf_ops s) = kNewPage" "hs_phase (hs_poll nhf_ops s) = kHeader"
    "hs_append_after_new_page (hs_poll nhf_ops s) = hs_append_after_new_page s"
proof -
  have r: "history_reachable dev s" "hs_ready s" and op: "flash_operational (hs_flash s)" using a by (simp_all add: at_large_def)
  note p = reachable_parts [OF r(1)]
  have len: "length (nf_cells (hs_flash s)) = 7 * kPageSize" using sound_length [OF p(4)] history_region by simp
  have t: "hs_target_page s < 7" using new_page_facts(1) [OF p(3) r(2) e(1)] by (simp add: kPageCount_def)
  let ?f = "(hs_flash s)\<lparr>nf_cells := write_at (hs_target_page s * kPageSize) (replicate kPageSize 0xFF) (nf_cells (hs_flash s))\<rparr>"
  have er: "fb_erasePage nhf_ops (hs_flash s) (hs_target_page s) = (?f, kDone)"
    unfolding nhf_driver by (rule driver_erase_works [OF op len t])
  note at = inv_parts(7,8) [OF p(3) r(2)]
  have h: "hs_poll nhf_ops s = hs_poll_erase nhf_ops s" using r(2) e by (simp add: hs_poll_def)
  have op': "flash_operational ?f" using op by (simp add: flash_operational_def)
  have "hs_ready (hs_poll nhf_ops s) \<and> hs_flash (hs_poll nhf_ops s) = ?f \<and> hs_job (hs_poll nhf_ops s) = kNewPage \<and>
    hs_phase (hs_poll nhf_ops s) = kHeader \<and> hs_append_after_new_page (hs_poll nhf_ops s) = hs_append_after_new_page s"
    using er at e r(2) by (simp add: h hs_poll_erase_def Let_def hs_count_def)
  then show "at_large dev (hs_poll nhf_ops s)" "hs_job (hs_poll nhf_ops s) = kNewPage" "hs_phase (hs_poll nhf_ops s) = kHeader"
    "hs_append_after_new_page (hs_poll nhf_ops s) = hs_append_after_new_page s"
    using op' poll_reachable [OF r(1)] by (simp_all add: at_large_def)
qed

text \<open>A write goes through: the blob is in the cells, and the job is finished.\<close>

lemma write_done_works:
  assumes a: "at_large dev s" and j: "hs_job s \<noteq> HistoryJob.kNone" "hs_phase s \<noteq> kErase"
  obtains c where "hs_poll nhf_ops s = hs_finishBlob nhf_ops (s\<lparr>hs_flash := (hs_flash s)\<lparr>nf_cells := c\<rparr>\<rparr>)"
    "c = write_at (hs_blob_offset s) (take (hs_blob_size s) (hs_blob s)) (nf_cells (hs_flash s))"
    "flash_operational (hs_flash (hs_poll nhf_ops s))" "nf_cells (hs_flash (hs_poll nhf_ops s)) = c"
proof -
  have r: "history_reachable dev s" "hs_ready s" and op: "flash_operational (hs_flash s)" using a by (simp_all add: at_large_def)
  note p = reachable_parts [OF r(1)]
  obtain c where c: "hs_writeBlob nhf_ops s = (s\<lparr>hs_flash := (hs_flash s)\<lparr>nf_cells := c\<rparr>\<rparr>, kDone)"
    using write_works [OF r j op] by blast
  obtain off b where b: "blob_is off b s" "4 \<le> length b" "committed b" "off + length b \<le> kHistoryRegion"
    "\<not> committed (slice off (length b) (nf_cells (hs_flash s)))" by (rule job_blob [OF p(3) r(2) j])
  have bf: "hs_blob_offset s = off" "hs_blob_size s = length b" "take (length b) (hs_blob s) = b" using b(1) by (simp_all add: blob_is_def)
  have bl: "length b \<le> length (hs_blob s)" using arg_cong [OF bf(3), of length] by simp
  obtain y where "nhf.blob_written s (s\<lparr>hs_flash := (hs_flash s)\<lparr>nf_cells := c\<rparr>\<rparr>) kDone y"
    using nhf.write_blob [OF p(1) p(2) [OF r(2)] inv_parts(7,8) [OF p(3) r(2)] _ _ _ _ _ c] b(2-5) bf bl by auto
  then have w: "c = write_at (hs_blob_offset s) (take (hs_blob_size s) (hs_blob s)) (nf_cells (hs_flash s))"
    by (simp add: nhf.blob_written_def)
  have e: "hs_poll nhf_ops s = hs_finishBlob nhf_ops (s\<lparr>hs_flash := (hs_flash s)\<lparr>nf_cells := c\<rparr>\<rparr>)"
    using r(2) j c by (simp add: hs_poll_def)
  have fl: "hs_flash (hs_poll nhf_ops s) = (hs_flash s)\<lparr>nf_cells := c\<rparr>" unfolding e finish_flash by simp
  have "flash_operational (hs_flash (hs_poll nhf_ops s))" using op unfolding fl by (simp add: flash_operational_def)
  then show thesis using that [OF e w] fl by simp
qed

lemma at_large_poll:
  assumes "at_large dev s" "flash_operational (hs_flash (hs_poll nhf_ops s))" "hs_ready (hs_poll nhf_ops s)"
  shows "at_large dev (hs_poll nhf_ops s)"
  using assms poll_reachable by (simp add: at_large_def)

lemma header_done_works:
  assumes a: "at_large dev s" and e: "hs_job s = kNewPage" "hs_phase s = kHeader" and room: "hs_sequence_end s \<le> UINT64_MAX - 256"
  shows "at_large dev (hs_poll nhf_ops s)" "hs_job (hs_poll nhf_ops s) = kReserve"
    "hs_append_after_new_page (hs_poll nhf_ops s) = hs_append_after_new_page s"
    "hs_pages (hs_poll nhf_ops s) ! nat (hs_active_page (hs_poll nhf_ops s)) = HistoryPage_init\<lparr>hp_generation := hs_target_generation s\<rparr>"
proof -
  have r: "history_reachable dev s" "hs_ready s" using a by (simp_all add: at_large_def)
  note p = reachable_parts [OF r(1)]
  obtain c where w: "hs_poll nhf_ops s = hs_finishBlob nhf_ops (s\<lparr>hs_flash := (hs_flash s)\<lparr>nf_cells := c\<rparr>\<rparr>)"
    "flash_operational (hs_flash (hs_poll nhf_ops s))" by (rule write_done_works [OF a]) (use e in auto)
  let ?s = "s\<lparr>hs_flash := (hs_flash s)\<lparr>nf_cells := c\<rparr>\<rparr>"
  have t: "hs_target_page ?s < length (hs_pages ?s)" using new_page_facts(1) [OF p(3) r(2) e(1)] p(5) by (simp add: shaped_def)
  have s: "hs_job ?s = kNewPage" "hs_ready ?s" using e r by simp_all
  note fh = finish_header [OF s t, of nhf_ops, folded w(1)]
  have rd: "hs_ready (hs_poll nhf_ops s)" using fh(1) room by (simp add: kSequenceBlockSize_def)
  show "at_large dev (hs_poll nhf_ops s)" by (rule at_large_poll [OF a w(2) rd])
  show "hs_job (hs_poll nhf_ops s) = kReserve"
    "hs_append_after_new_page (hs_poll nhf_ops s) = hs_append_after_new_page s"
    "hs_pages (hs_poll nhf_ops s) ! nat (hs_active_page (hs_poll nhf_ops s)) = HistoryPage_init\<lparr>hp_generation := hs_target_generation s\<rparr>"
    using fh(2) [OF rd] by simp_all
qed

lemma other_done_works:
  assumes a: "at_large dev s"
  shows "hs_job s = kState \<Longrightarrow> at_large dev (hs_poll nhf_ops s) \<and> hs_job (hs_poll nhf_ops s) = HistoryJob.kNone"
    "hs_job s = kAppend \<Longrightarrow> at_large dev (hs_poll nhf_ops s) \<and> hs_job (hs_poll nhf_ops s) = HistoryJob.kNone \<and>
      hs_append_result_ready (hs_poll nhf_ops s) \<and> hs_append_success (hs_poll nhf_ops s)"
proof -
  have r: "history_reachable dev s" "hs_ready s" using a by (simp_all add: at_large_def)
  note p = reachable_parts [OF r(1)]
  have w: "at_work dev (nf_cells (hs_flash s)) s" using p(3) r(2) by (simp add: history_inv_def)
  show "at_large dev (hs_poll nhf_ops s) \<and> hs_job (hs_poll nhf_ops s) = HistoryJob.kNone" if j: "hs_job s = kState"
  proof -
    have ph: "hs_job s \<noteq> HistoryJob.kNone" "hs_phase s \<noteq> kErase" using w j by (simp_all add: at_work_def Let_def)
    obtain c where c: "hs_poll nhf_ops s = hs_finishBlob nhf_ops (s\<lparr>hs_flash := (hs_flash s)\<lparr>nf_cells := c\<rparr>\<rparr>)"
      "flash_operational (hs_flash (hs_poll nhf_ops s))" by (rule write_done_works [OF a ph])
    have "hs_job (hs_poll nhf_ops s) = HistoryJob.kNone \<and> hs_ready (hs_poll nhf_ops s)" unfolding c(1) by (simp add: finish_other(1) j r(2))
    then show ?thesis using at_large_poll [OF a c(2)] by simp
  qed
  show "at_large dev (hs_poll nhf_ops s) \<and> hs_job (hs_poll nhf_ops s) = HistoryJob.kNone \<and>
      hs_append_result_ready (hs_poll nhf_ops s) \<and> hs_append_success (hs_poll nhf_ops s)" if j: "hs_job s = kAppend"
  proof -
    have ph: "hs_job s \<noteq> HistoryJob.kNone" "hs_phase s \<noteq> kErase" using w j by (simp_all add: at_work_def Let_def)
    obtain c where c: "hs_poll nhf_ops s = hs_finishBlob nhf_ops (s\<lparr>hs_flash := (hs_flash s)\<lparr>nf_cells := c\<rparr>\<rparr>)"
      "flash_operational (hs_flash (hs_poll nhf_ops s))" by (rule write_done_works [OF a ph])
    have "hs_job (hs_poll nhf_ops s) = HistoryJob.kNone \<and> hs_ready (hs_poll nhf_ops s) \<and>
      hs_append_result_ready (hs_poll nhf_ops s) \<and> hs_append_success (hs_poll nhf_ops s)"
      unfolding c(1) by (simp add: finish_other(2) j r(2))
    then show ?thesis using at_large_poll [OF a c(2)] by simp
  qed
qed

lemma append_room:
  assumes "appendIdle s" "i \<le> hs_next_ticket s" "validPacket pk i (hs_device_id s)"
    and "case newest ops s of None \<Rightarrow> True | Some x \<Rightarrow> identity x < i"
    and "hp_records_used (hs_pages s ! nat (hs_active_page s)) = 0"
  shows "snd (hs_append ops (Some pk) i s)"
proof -
  have k: "kRecordsPerPage \<noteq> 0" by (simp add: history_layout)
  have n: "\<not> (case newest ops s of None \<Rightarrow> False | Some latest \<Rightarrow> i \<le> identity latest)"
    using assms(4) by (auto split: option.splits)
  show ?thesis unfolding hs_append_def Let_def using assms(1-3) n by (simp add: assms(5) k not_less [symmetric] linorder_not_le)
qed

text \<open>After a reservation the waiting record is accepted.\<close>

lemma reserve_done_works:
  assumes a: "at_large dev s" and j: "hs_job s = kReserve"
  shows "at_large dev (hs_poll nhf_ops s)"
    "hs_job (hs_poll nhf_ops s) = (if hs_append_after_new_page s then kAppend else HistoryJob.kNone)"
    "hs_sequence_end (hs_poll nhf_ops s) = hs_sequence_end s + 256"
    "\<not> hs_append_after_new_page s \<Longrightarrow> hs_pages (hs_poll nhf_ops s) ! nat (hs_active_page (hs_poll nhf_ops s)) =
      (hs_pages s ! nat (hs_active_page s))\<lparr>hp_sequence_used := hp_sequence_used (hs_pages s ! nat (hs_active_page s)) + 1\<rparr>"
proof -
  have r: "history_reachable dev s" "hs_ready s" using a by (simp_all add: at_large_def)
  note p = reachable_parts [OF r(1)]
  note i = inv_parts [OF p(3) r(2)]
  have w: "hs_phase s \<noteq> kErase" "hs_target_page s = nat (hs_active_page s)" "0 \<le> hs_active_page s"
    "hs_pending_sequence_end s = hs_sequence_end s + 256"
    "blob_is (sequenceOffset (hs_target_page s) (hs_target_sequence_slot s)) (encodeSequenceEnd (hs_pending_sequence_end s) (replicate 16 0)) s"
    using i(6) j by (auto simp: at_work_def Let_def)
  have jn: "hs_job s \<noteq> HistoryJob.kNone" using j by simp
  obtain c where c: "hs_poll nhf_ops s = hs_finishBlob nhf_ops (s\<lparr>hs_flash := (hs_flash s)\<lparr>nf_cells := c\<rparr>\<rparr>)"
    "c = write_at (hs_blob_offset s) (take (hs_blob_size s) (hs_blob s)) (nf_cells (hs_flash s))"
    "flash_operational (hs_flash (hs_poll nhf_ops s))" "nf_cells (hs_flash (hs_poll nhf_ops s)) = c" by (rule write_done_works [OF a jn w(1)])
  have cw: "c = write_at (sequenceOffset (hs_target_page s) (hs_target_sequence_slot s))
      (encodeSequenceEnd (hs_pending_sequence_end s) (replicate 16 0)) (nf_cells (hs_flash s))" using c(2) w(5) by (simp add: blob_is_def)
  define f where "f = (hs_flash s)\<lparr>nf_cells := c\<rparr>"
  let ?s = "s\<lparr>hs_flash := f\<rparr>"
  let ?s1 = "(on_page (hs_target_page s) (\<lambda>g. g\<lparr>hp_sequence_used := hp_sequence_used g + 1\<rparr>) ?s)
        \<lparr>hs_sequence_end := hs_pending_sequence_end s, hs_job := HistoryJob.kNone\<rparr>"
  let ?s2 = "?s1\<lparr>hs_append_after_new_page := False\<rparr>"
  note rw = reserve_written [OF p(3) r(2) j _ _ cw]
  have cl: "calm dev c ?s1" and same: "record_in dev c = record_in dev (nf_cells (hs_flash s))" using rw(2,5) by simp_all
  have flp: "hs_flash (hs_poll nhf_ops s) = f" unfolding c(1) finish_flash by (simp add: f_def)
  have wf: "nhf_wf f" "nf_ready f" "nf_cells f = c"
    using reachable_parts(1) [OF poll_reachable [OF r(1)]] c(3,4) flp by (simp_all add: flash_operational_def)
  have i2: "history_inv dev (nf_cells (hs_flash ?s2)) ?s2"
    by (rule calm_inv) (use cl wf(3) in \<open>simp_all add: calm_def indexed_def hole_def metered_def shaped_def on_page_def\<close>)
  obtain s3 ok where ap: "hs_append nhf_ops (Some (packet (hs_pending_record s))) (identity (hs_pending_record s)) ?s2 = (s3, ok)" by fastforce
  have fin: "hs_poll nhf_ops s = (if hs_append_after_new_page s then
      if ok then s3 else s3\<lparr>hs_append_result_ready := True, hs_append_success := False, hs_ready := False\<rparr> else ?s1)"
    unfolding c(1) f_def [symmetric] using j ap by (simp add: hs_finishBlob_def Let_def on_page_def)
  have seq: "hs_sequence_end (hs_poll nhf_ops s) = hs_sequence_end s + 256"
    using fin append_fields(1) [OF ap] w(4) by simp
  have "at_large dev (hs_poll nhf_ops s) \<and> hs_job (hs_poll nhf_ops s) = (if hs_append_after_new_page s then kAppend else HistoryJob.kNone)"
  proof (cases "hs_append_after_new_page s")
    case False
    then have "hs_ready (hs_poll nhf_ops s) \<and> hs_job (hs_poll nhf_ops s) = HistoryJob.kNone" using fin r(2) by (simp add: on_page_def)
    then show ?thesis using at_large_poll [OF a c(3)] False by simp
  next
    case True
    have ft: "\<not> hs_append_result_ready s" "identity (hs_pending_record s) \<le> hs_next_ticket s"
      "validPacket (packet (hs_pending_record s)) (identity (hs_pending_record s)) dev"
      "\<forall>x\<in>set (retained dev (nf_cells (hs_flash s))). identity x < identity (hs_pending_record s)"
      "hp_records_used (hs_pages s ! nat (hs_active_page s)) = 0"
      using reachable_fits [OF r(1)] True r(2) j by (simp_all add: fits_def)
    have f2: "hs_flash ?s2 = f" "hs_ready ?s2" "hs_device_id ?s2 = dev" using r(2) i(4) by (simp_all add: on_page_def indexed_def)
    have rn: "nhf_wf (hs_flash ?s2)" "nf_ready (hs_flash ?s2)" using wf by (simp_all add: f2)
    have ret: "set (retained dev (nf_cells (hs_flash ?s2))) = set (retained dev (nf_cells (hs_flash s)))"
      unfolding f2(1) wf(3) by (rule retained_same [OF same])
    have nw: "case newest nhf_ops ?s2 of None \<Rightarrow> True | Some x \<Rightarrow> identity x < identity (hs_pending_record s)"
      using nhf.read_newest [OF rn i2 f2(2)] ft(4) ret by (auto split: option.split)
    have tg: "hs_target_page ?s < length (hs_pages ?s)" using active_page(1) [OF i(4) w(3)] w(2) i(3) by (simp add: shaped_def)
    have u: "hp_records_used (hs_pages ?s2 ! nat (hs_active_page ?s2)) = 0"
      using page_used [OF tg, of "nat (hs_active_page s)"] ft(5) by (simp add: on_page_def)
    have "appendIdle ?s2" using ft(1) r(2) by (simp add: appendIdle_def hs_busy_def on_page_def)
    then have ok: ok using ap append_room [where s = ?s2 and pk = "packet (hs_pending_record s)" and i = "identity (hs_pending_record s)" and ops = nhf_ops] u ft(2,3) f2(3) nw
      by (simp add: on_page_def)
    have "hs_job s3 = kAppend" by (rule append_fresh(1) [OF u]) (use ap ok in simp)
    moreover have "hs_ready s3" using nhf.append_step(3) [OF rn(1) rn(2) i2 ap] f2(2) by simp
    ultimately show ?thesis using fin ok True at_large_poll [OF a c(3)] by simp
  qed
  then show "at_large dev (hs_poll nhf_ops s)"
    "hs_job (hs_poll nhf_ops s) = (if hs_append_after_new_page s then kAppend else HistoryJob.kNone)" by simp_all
  show "hs_sequence_end (hs_poll nhf_ops s) = hs_sequence_end s + 256" by (rule seq)
  have "nat (hs_active_page s) < length (hs_pages s)" using active_page(1) [OF i(4) w(3)] i(3) by (simp add: shaped_def)
  then show "\<not> hs_append_after_new_page s \<Longrightarrow> hs_pages (hs_poll nhf_ops s) ! nat (hs_active_page (hs_poll nhf_ops s)) =
      (hs_pages s ! nat (hs_active_page s))\<lparr>hp_sequence_used := hp_sequence_used (hs_pages s ! nat (hs_active_page s)) + 1\<rparr>"
    using fin w(2) by (simp add: on_page_def)
qed

section \<open>Completion\<close>

definition waiting :: "'f HistoryStore \<Rightarrow> bool" where
  "waiting s \<longleftrightarrow> hs_job s = kAppend \<or> hs_append_after_new_page s"

definition settled :: "NrfHistoryFlash HistoryStore \<Rightarrow> bool \<Rightarrow> bool" where
  "settled s w \<longleftrightarrow> hs_ready s \<and> \<not> hs_busy s \<and> (w \<longrightarrow> hs_append_result_ready s \<and> hs_append_success s)"

lemma settles_append:
  assumes "at_large dev s" "hs_job s = kAppend"
  shows "settled (hs_poll nhf_ops s) w"
  using other_done_works(2) [OF assms] by (simp add: settled_def at_large_def hs_busy_def)

lemma settles_reserve:
  assumes "at_large dev s" "hs_job s = kReserve"
  shows "\<exists>n\<le>2. settled ((hs_poll nhf_ops ^^ n) s) (hs_append_after_new_page s)"
proof (cases "hs_append_after_new_page s")
  case False
  then have "settled ((hs_poll nhf_ops ^^ 1) s) (hs_append_after_new_page s)"
    using reserve_done_works(1,2) [OF assms] by (simp add: settled_def at_large_def hs_busy_def)
  then show ?thesis by (intro exI [of _ 1]) simp
next
  case True
  then have "settled (hs_poll nhf_ops (hs_poll nhf_ops s)) (hs_append_after_new_page s)"
    using settles_append [OF reserve_done_works(1) [OF assms]] reserve_done_works(2) [OF assms] by simp
  then show ?thesis by (intro exI [of _ 2]) (simp add: numeral_2_eq_2)
qed

lemma settles_later:
  assumes "\<exists>n\<le>k. settled ((hs_poll nhf_ops ^^ n) (hs_poll nhf_ops s)) w"
  shows "\<exists>n\<le>Suc k. settled ((hs_poll nhf_ops ^^ n) s) w"
proof -
  obtain n where n: "n \<le> k" "settled ((hs_poll nhf_ops ^^ n) (hs_poll nhf_ops s)) w" using assms by blast
  then show ?thesis by (intro exI [of _ "Suc n"]) (simp del: funpow.simps add: funpow_Suc_right)
qed

lemma settles_header:
  assumes "at_large dev s" "hs_job s = kNewPage" "hs_phase s = kHeader" "hs_sequence_end s \<le> UINT64_MAX - 256"
  shows "\<exists>n\<le>3. settled ((hs_poll nhf_ops ^^ n) s) (hs_append_after_new_page s)"
  using settles_later [OF settles_reserve [OF header_done_works(1,2) [OF assms]]] header_done_works(3) [OF assms]
  by (simp add: numeral_3_eq_3 numeral_2_eq_2)

text \<open>
  C9: On a working flash no job hangs: whatever the store is busy with, after at most four polls it is idle
  and ready again, and an append that was on its way has succeeded, page change and reservation included.
\<close>
theorem history_work_completes:
  assumes "history_reachable dev s" "hs_ready s" "flash_operational (hs_flash s)" "hs_sequence_end s \<le> UINT64_MAX - 256"
  shows "\<exists>n\<le>4. let s' = (hs_poll nhf_ops ^^ n) s in hs_ready s' \<and> \<not> hs_busy s' \<and>
    (hs_job s = kAppend \<or> hs_append_after_new_page s \<longrightarrow> hs_append_result_ready s' \<and> hs_append_success s')"
proof -
  have a: "at_large dev s" using assms(1-3) by (simp add: at_large_def)
  have w: "at_work dev (nf_cells (hs_flash s)) s" using reachable_parts(3) [OF assms(1)] assms(2) by (simp add: history_inv_def)
  have "\<exists>n\<le>4. settled ((hs_poll nhf_ops ^^ n) s) (waiting s)"
  proof (cases "hs_job s")
    case kNone
    then have "settled ((hs_poll nhf_ops ^^ 0) s) (waiting s)"
      using w assms(2) by (simp add: settled_def hs_busy_def waiting_def at_work_def Let_def)
    then show ?thesis by (intro exI [of _ 0]) simp
  next
    case kNewPage
    then have wt: "waiting s = hs_append_after_new_page s" by (simp add: waiting_def)
    show ?thesis
    proof (cases "hs_phase s = kErase")
      case True
      note e = erase_done_works [OF a kNewPage True]
      have "hs_sequence_end (hs_poll nhf_ops s) = hs_sequence_end s"
        using poll_facts(3) [OF assms(1)] kNewPage by (auto simp: meters_step_def)
      then have "\<exists>n\<le>3. settled ((hs_poll nhf_ops ^^ n) (hs_poll nhf_ops s)) (waiting s)"
        using settles_header [OF e(1-3)] assms(4) wt e(4) by simp
      from settles_later [OF this] show ?thesis by simp
    next
      case False
      then have "hs_phase s = kHeader" using w kNewPage by (auto simp: at_work_def Let_def)
      then obtain n where n: "n \<le> 3" "settled ((hs_poll nhf_ops ^^ n) s) (waiting s)"
        using settles_header [OF a kNewPage _ assms(4)] wt by auto
      then show ?thesis by (intro exI [of _ n]) simp
    qed
  next
    case kReserve
    then obtain n where n: "n \<le> 2" "settled ((hs_poll nhf_ops ^^ n) s) (waiting s)"
      using settles_reserve [OF a kReserve] by (auto simp: waiting_def)
    then show ?thesis by (intro exI [of _ n]) simp
  next
    case kState
    then have "\<not> waiting s" using w by (simp add: waiting_def at_work_def Let_def)
    then have "settled ((hs_poll nhf_ops ^^ 1) s) (waiting s)"
      using other_done_works(1) [OF a kState] by (simp add: settled_def at_large_def hs_busy_def)
    then show ?thesis by (intro exI [of _ 1]) simp
  next
    case kAppend
    then have "settled ((hs_poll nhf_ops ^^ 1) s) (waiting s)" using settles_append [OF a kAppend] by simp
    then show ?thesis by (intro exI [of _ 1]) simp
  qed
  then show ?thesis by (simp add: settled_def waiting_def Let_def)
qed

end
