(* ===== verification/History_Sample.thy ===== *)
theory History_Sample
  imports History_Completion
begin

text \<open>
  A concrete run of the history store (\<open>firmware/src/history_store.cpp\<close>): first boot on an erased region, the
  first page, the first reservation, ticket 1 and its record.  The guarantees hold at its states.
\<close>

section \<open>Registers a poll leaves alone\<close>

lemma start_registers:
  "hs_state (fst (startNewPage ops af s)) = hs_state s" "hs_acknowledged_through (fst (startNewPage ops af s)) = hs_acknowledged_through s"
  "hs_state (fst (startReservation ops s)) = hs_state s" "hs_acknowledged_through (fst (startReservation ops s)) = hs_acknowledged_through s"
  "hs_state (fst (hs_append ops pk i s)) = hs_state s" "hs_acknowledged_through (fst (hs_append ops pk i s)) = hs_acknowledged_through s"
  "hs_pages (fst (hs_append ops pk i s)) = hs_pages s"
proof -
  have n: "hs_state (fst (startNewPage ops af s)) = hs_state s \<and> hs_acknowledged_through (fst (startNewPage ops af s)) = hs_acknowledged_through s"
    for af s by (simp add: startNewPage_def Let_def)
  then show "hs_state (fst (startNewPage ops af s)) = hs_state s" "hs_acknowledged_through (fst (startNewPage ops af s)) = hs_acknowledged_through s"
    by simp_all
  show "hs_state (fst (startReservation ops s)) = hs_state s" "hs_acknowledged_through (fst (startReservation ops s)) = hs_acknowledged_through s"
    using n by (simp_all add: startReservation_def Let_def)
  show "hs_state (fst (hs_append ops pk i s)) = hs_state s" "hs_acknowledged_through (fst (hs_append ops pk i s)) = hs_acknowledged_through s"
    "hs_pages (fst (hs_append ops pk i s)) = hs_pages s"
    by (auto simp: hs_append_def Let_def hs_count_def startNewPage_def split: prod.split)
qed

lemma fail_registers: "hs_state (hs_fail af s) = hs_state s" "hs_acknowledged_through (hs_fail af s) = hs_acknowledged_through s"
  by (simp_all add: hs_fail_def hs_count_def Let_def)

lemma finish_registers:
  assumes "hs_job s \<noteq> kState"
  shows "hs_state (hs_finishBlob ops s) = hs_state s \<and> hs_acknowledged_through (hs_finishBlob ops s) = hs_acknowledged_through s"
proof -
  have r: "hs_state s' = hs_state t \<and> hs_acknowledged_through s' = hs_acknowledged_through t" if "startReservation ops t = (s', ok)" for s' ok t
    using start_registers(3,4) [of ops t] that by simp
  have a: "hs_state s' = hs_state t \<and> hs_acknowledged_through s' = hs_acknowledged_through t" if "hs_append ops pk i t = (s', ok)" for s' ok t pk i
    using start_registers(5,6) [of ops pk i t] that by simp
  show ?thesis using assms
    by (cases "hs_job s") (auto simp: hs_finishBlob_def Let_def hs_count_def on_page_def fail_registers dest!: r a split: prod.split)
qed

lemma poll_registers:
  assumes "at_large dev s" "hs_job s \<noteq> HistoryJob.kNone" "hs_job s \<noteq> kState"
  shows "hs_state (hs_poll nhf_ops s) = hs_state s" "hs_acknowledged_through (hs_poll nhf_ops s) = hs_acknowledged_through s"
proof -
  have "hs_state (hs_poll nhf_ops s) = hs_state s \<and> hs_acknowledged_through (hs_poll nhf_ops s) = hs_acknowledged_through s"
  proof (cases "hs_phase s = kErase")
    case True
    then have "hs_poll nhf_ops s = hs_poll_erase nhf_ops s" using assms by (simp add: hs_poll_def at_large_def)
    moreover have "hs_state (hs_poll_erase nhf_ops s) = hs_state s \<and> hs_acknowledged_through (hs_poll_erase nhf_ops s) = hs_acknowledged_through s"
      by (simp add: hs_poll_erase_def Let_def hs_count_def fail_registers split: prod.split)
    ultimately show ?thesis by simp
  next
    case False
    obtain c where "hs_poll nhf_ops s = hs_finishBlob nhf_ops (s\<lparr>hs_flash := (hs_flash s)\<lparr>nf_cells := c\<rparr>\<rparr>)"
      by (rule write_done_works [OF assms(1,2) False])
    then show ?thesis using finish_registers [of "s\<lparr>hs_flash := (hs_flash s)\<lparr>nf_cells := c\<rparr>\<rparr>" nhf_ops] assms(3) by simp
  qed
  then show "hs_state (hs_poll nhf_ops s) = hs_state s" "hs_acknowledged_through (hs_poll nhf_ops s) = hs_acknowledged_through s" by simp_all
qed

section \<open>The flash\<close>

lemma nor_forges_nothing: "erase_forges_nothing nor_flash"
  unfolding erase_forges_nothing_def fades_def list_all_iff
proof (intro allI impI ballI)
  fix c :: bytes and p x
  assume cp: "length c = kHistoryRegion \<and> p < kPageCount" and x: "x \<in> set (page_units p)"
  then have c: "length c = kHistoryRegion" "p < kPageCount" by simp_all
  obtain off n where xn: "x = (off, n)" by (cases x)
  have u: "(off, n) \<in> set (page_units p)" using x xn by simp
  let ?d = "fst (sd_flash_page_erase nor_flash c p)"
  have d: "?d = write_at (p * kPageSize) (replicate kPageSize 0xFF) c" by (simp add: nor_flash_def)
  have r: "p * kPageSize \<le> off" "off + n \<le> p * kPageSize + kPageSize" "4 \<le> n"
    using u by (auto simp: page_units_def history_layout)
  have room: "p * kPageSize + kPageSize \<le> kHistoryRegion" using c(2) by (simp add: history_layout)
  have l: "length (slice off n ?d) = n" using r room c(1) by (simp add: d)
  have "?d ! i = 0xFF" if "p * kPageSize \<le> i" "i < p * kPageSize + kPageSize" for i
    unfolding d using that room c(1) by (simp add: nth_write_at)
  then have "blank_slot (slice off n ?d)" using r l by (auto simp: blank_slot_def list_all_length)
  then have "\<not> committed (slice off n ?d)" by (rule blank_not_committed [OF l r(3)])
  then have "\<not> sealed (slice off n ?d) (n - 8) (n - 4)" using l by (simp add: sealed_def committed_def)
  then show "case x of (off, n) \<Rightarrow> slice off n ?d = slice off n c \<or> \<not> sealed (slice off n ?d) (n - 8) (n - 4)" by (simp add: xn)
qed

definition history_flash_sample :: NrfHistoryFlash where
  "history_flash_sample = \<lparr>nf_sd = nor_flash, nf_cells = replicate kHistoryRegion 0xFF, nf_ready = False,
     nf_layout_ok = True, nf_softdevice_enabled = False\<rparr>"

definition history_device :: u64 where "history_device = 0x1122334455667788"

definition history_packet :: bytes where
  "history_packet = the (serializePositionPacket (journal_sample_position\<lparr>sequence_number := 0\<rparr>) (Some (replicate 34 0)))"

lemma history_packet_valid: "validPacket history_packet 1 history_device" by code_simp

lemma history_flash_wf: "nhf_wf history_flash_sample" "nf_cells history_flash_sample = replicate kHistoryRegion 0xFF"
proof -
  have "length (nf_cells history_flash_sample) = 7 * kPageSize" unfolding history_region by (simp add: history_flash_sample_def)
  then show "nhf_wf history_flash_sample" "nf_cells history_flash_sample = replicate kHistoryRegion 0xFF"
    using nor_confined nor_forges_nothing by (simp_all add: nhf_wf_def driver_wf_def history_flash_sample_def)
qed

section \<open>The run\<close>

definition hist_boot :: "NrfHistoryFlash HistoryStore" where
  "hist_boot = history_step history_device (HvBegin (Some (Some 7))) (history_reset history_flash_sample)"

definition hist_header :: "NrfHistoryFlash HistoryStore" where "hist_header = hs_poll nhf_ops hist_boot"
definition hist_reserve :: "NrfHistoryFlash HistoryStore" where "hist_reserve = hs_poll nhf_ops hist_header"
definition hist_reserved :: "NrfHistoryFlash HistoryStore" where "hist_reserved = hs_poll nhf_ops hist_reserve"
definition hist_ready :: "NrfHistoryFlash HistoryStore" where "hist_ready = fst (takeAppendResult hist_reserved)"
definition hist_ticket :: "NrfHistoryFlash HistoryStore" where "hist_ticket = fst (hs_nextSequence nhf_ops hist_ready)"
definition hist_append :: "NrfHistoryFlash HistoryStore" where
  "hist_append = fst (hs_append nhf_ops (Some history_packet) 1 hist_ticket)"
definition hist_stored :: "NrfHistoryFlash HistoryStore" where "hist_stored = hs_poll nhf_ops hist_append"

lemma hist_power_on: "history_reachable history_device (history_reset history_flash_sample)"
  by (rule history_power_on [OF history_flash_wf])

lemma hist_boot_facts:
  "at_large history_device hist_boot" "hs_job hist_boot = kNewPage" "hs_phase hist_boot = kErase" "\<not> hs_append_after_new_page hist_boot"
  "hs_state hist_boot = JournalState_init" "hs_acknowledged_through hist_boot = 0" "hs_sequence_end hist_boot = 0" "hs_next_ticket hist_boot = 0"
  "retained history_device (nf_cells (hs_flash hist_boot)) = []" "nf_layout_ok (hs_flash hist_boot)"
proof -
  let ?z = "history_reset history_flash_sample" and ?c = "replicate kHistoryRegion (0xFF :: u8)"
  note p = reachable_parts [OF hist_power_on]
  have c: "nf_cells (hs_flash ?z) = ?c" by (simp add: history_reset_def HistoryStore_init_def history_flash_sample_def)
  note e = erased_region [OF refl, where dev = history_device]
  obtain b ok where b: "hs_begin nhf_ops history_device (Some (Some 7)) ?z = (b, ok)" by fastforce
  have hb: "hist_boot = b" using b by (simp add: hist_boot_def)
  note g = nhf.begin_good [OF p(1,4,5) b, unfolded c]
  have fb: "snd (fb_begin nhf_ops (hs_flash ?z))"
    by (simp add: nhf_ops_def nhf_begin_def Let_def history_reset_def HistoryStore_init_def history_flash_sample_def)
  have ok: ok using g(7) [OF fb] by (simp add: source_incarnation_def)
  have "live_states history_device ?c = []" "live_sequences history_device ?c = []"
    using e(2) live_states_iff live_sequences_iff by (metis list.set_intros(1) neq_Nil_conv)+
  then have z: "region_state history_device ?c = JournalState_init" "region_end history_device ?c = 0" by (simp_all add: region_folds)
  have b8: "\<not> hs_append_after_new_page b" "hs_state b = JournalState_init" "hs_acknowledged_through b = 0" "hs_sequence_end b = 0"
    using g(8) [OF ok] z by (simp_all add: JournalState_init_def)
  then show "\<not> hs_append_after_new_page hist_boot" "hs_state hist_boot = JournalState_init"
    "hs_acknowledged_through hist_boot = 0" "hs_sequence_end hist_boot = 0" by (simp_all add: hb)
  have r: "history_reachable history_device hist_boot"
    using history_event [OF hist_power_on, of "HvBegin (Some (Some 7))"] by (simp add: hist_boot_def)
  have fl: "hs_flash b = (hs_flash ?z)\<lparr>nf_ready := True\<rparr>"
    using g(9) by (simp add: nhf_ops_def nhf_begin_def Let_def history_reset_def HistoryStore_init_def history_flash_sample_def)
  have op: "flash_operational (hs_flash b)" "nf_layout_ok (hs_flash b)"
    using nor_works by (simp_all add: fl flash_operational_def history_reset_def HistoryStore_init_def history_flash_sample_def)
  then show al: "at_large history_device hist_boot" "nf_layout_ok (hs_flash hist_boot)" using r g(6) ok by (simp_all add: at_large_def hb)
  have n: "region_newest history_device ?c = (hs_newest_generation b, hs_active_page b)"
    using g(4,6) ok by (simp add: history_inv_def indexed_def)
  then have a: "hs_active_page b < 0" using e(3) by simp
  have w: "at_work history_device ?c b" using g(4,6) ok by (simp add: history_inv_def)
  then have j: "hs_job b = kNewPage" using a by (cases "hs_job b") (simp_all add: at_work_def Let_def)
  then show "hs_job hist_boot = kNewPage" by (simp add: hb)
  show "hs_phase hist_boot = kErase" using g(8) [OF ok] j by (simp add: hb)
  have "hs_next_ticket b \<le> hs_sequence_end b" using g(4,6) ok by (simp add: history_inv_def metered_def)
  then show "hs_next_ticket hist_boot = 0" using b8 by (simp add: hb)
  have "set (retained history_device ?c) = {}"
  proof (rule equals0I)
    fix x assume "x \<in> set (retained history_device ?c)"
    then show False using e(2) unfolding retained_iff record_in_def by blast
  qed
  then show "retained history_device (nf_cells (hs_flash hist_boot)) = []" using g(2) by (simp add: hb)
qed

lemma hist_header_facts:
  "at_large history_device hist_header" "hs_job hist_header = kNewPage" "hs_phase hist_header = kHeader" "\<not> hs_append_after_new_page hist_header"
  using erase_done_works [OF hist_boot_facts(1-3)] hist_boot_facts(4) by (simp_all add: hist_header_def)

lemma hist_poll_registers:
  assumes "at_large dev s" "hs_job s \<noteq> HistoryJob.kNone" "hs_job s \<noteq> kState"
  shows "hs_next_ticket (hs_poll nhf_ops s) = hs_next_ticket s" "nf_layout_ok (hs_flash (hs_poll nhf_ops s)) = nf_layout_ok (hs_flash s)"
    "hs_job s \<noteq> kAppend \<Longrightarrow> retained dev (nf_cells (hs_flash s)) = [] \<Longrightarrow> retained dev (nf_cells (hs_flash (hs_poll nhf_ops s))) = []"
    "hs_job s \<noteq> kReserve \<Longrightarrow> hs_sequence_end (hs_poll nhf_ops s) = hs_sequence_end s"
proof -
  have r: "history_reachable dev s" "hs_ready s" using assms(1) by (simp_all add: at_large_def)
  note pf = poll_facts [OF r(1)]
  show "hs_next_ticket (hs_poll nhf_ops s) = hs_next_ticket s" using pf(3) by (simp add: meters_step_def)
  show "hs_job s \<noteq> kReserve \<Longrightarrow> hs_sequence_end (hs_poll nhf_ops s) = hs_sequence_end s" using pf(3) unfolding meters_step_def by blast
  show "retained dev (nf_cells (hs_flash (hs_poll nhf_ops s))) = []" if "hs_job s \<noteq> kAppend" "retained dev (nf_cells (hs_flash s)) = []"
  proof -
    have "record_in dev (nf_cells (hs_flash (hs_poll nhf_ops s))) q k x \<Longrightarrow> record_in dev (nf_cells (hs_flash s)) q k x" for q k x
      using pf(1) that(1) r(2) by (simp add: records_step_def split: if_splits)
    then have "set (retained dev (nf_cells (hs_flash (hs_poll nhf_ops s)))) \<subseteq> set (retained dev (nf_cells (hs_flash s)))"
      unfolding subset_iff retained_iff by blast
    then show ?thesis using that(2) by simp
  qed
  have "nf_layout_ok (fst (fb_program nhf_ops f o' x)) = nf_layout_ok f" for f o' x
    by (simp add: nhf_ops_def nhf_program_def Let_def split: prod.split)
  show "nf_layout_ok (hs_flash (hs_poll nhf_ops s)) = nf_layout_ok (hs_flash s)"
  proof (cases "hs_phase s = kErase")
    case True
    then have "hs_poll nhf_ops s = hs_poll_erase nhf_ops s" using assms r by (simp add: hs_poll_def)
    moreover have "hs_flash (hs_poll_erase nhf_ops s) = fst (if hs_awaiting_completion s then (hs_flash s, kFailed) else nhf_erasePage (hs_flash s) (hs_target_page s))"
      by (simp add: hs_poll_erase_def Let_def hs_count_def nhf_ops_def nhf.hs_fail_flash split: prod.split)
    moreover have "nf_layout_ok (fst (nhf_erasePage f q)) = nf_layout_ok f" for f q
      by (simp add: nhf_erasePage_def Let_def split: prod.split)
    ultimately show ?thesis by simp
  next
    case False
    obtain c where c: "hs_poll nhf_ops s = hs_finishBlob nhf_ops (s\<lparr>hs_flash := (hs_flash s)\<lparr>nf_cells := c\<rparr>\<rparr>)"
      by (rule write_done_works [OF assms(1,2) False])
    show ?thesis unfolding c finish_flash by simp
  qed
qed

lemma hist_header_registers:
  "hs_state hist_header = JournalState_init" "hs_acknowledged_through hist_header = 0" "hs_sequence_end hist_header = 0" "hs_next_ticket hist_header = 0"
  "retained history_device (nf_cells (hs_flash hist_header)) = []" "nf_layout_ok (hs_flash hist_header)"
  using hist_boot_facts poll_registers [OF hist_boot_facts(1)] hist_poll_registers [OF hist_boot_facts(1)] by (simp_all add: hist_header_def)

lemma hist_reserve_facts:
  "at_large history_device hist_reserve" "hs_job hist_reserve = kReserve" "\<not> hs_append_after_new_page hist_reserve"
  "\<exists>g. hs_pages hist_reserve ! nat (hs_active_page hist_reserve) = HistoryPage_init\<lparr>hp_generation := g\<rparr>"
  "hs_state hist_reserve = JournalState_init" "hs_acknowledged_through hist_reserve = 0" "hs_sequence_end hist_reserve = 0" "hs_next_ticket hist_reserve = 0"
  "retained history_device (nf_cells (hs_flash hist_reserve)) = []" "nf_layout_ok (hs_flash hist_reserve)"
proof -
  have room: "hs_sequence_end hist_header \<le> UINT64_MAX - 256" by (simp add: hist_header_registers)
  note h = header_done_works [OF hist_header_facts(1-3) room, folded hist_reserve_def]
  show "at_large history_device hist_reserve" "hs_job hist_reserve = kReserve" "\<not> hs_append_after_new_page hist_reserve"
    "\<exists>g. hs_pages hist_reserve ! nat (hs_active_page hist_reserve) = HistoryPage_init\<lparr>hp_generation := g\<rparr>"
    using h hist_header_facts(4) by auto
  show "hs_state hist_reserve = JournalState_init" "hs_acknowledged_through hist_reserve = 0" "hs_sequence_end hist_reserve = 0"
    "hs_next_ticket hist_reserve = 0" "retained history_device (nf_cells (hs_flash hist_reserve)) = []" "nf_layout_ok (hs_flash hist_reserve)"
    using hist_header_registers hist_header_facts(2) poll_registers [OF hist_header_facts(1)] hist_poll_registers [OF hist_header_facts(1)]
    by (simp_all add: hist_reserve_def)
qed

text \<open>The active page after the first reservation.\<close>

definition one_reserved :: "HistoryPage \<Rightarrow> bool" where
  "one_reserved g \<longleftrightarrow> hp_sequence_used g = 1 \<and> hp_state_used g = 0 \<and> hp_records_used g = 0"

lemma hist_reserved_facts:
  "at_large history_device hist_reserved" "hs_job hist_reserved = HistoryJob.kNone"
  "one_reserved (hs_pages hist_reserved ! nat (hs_active_page hist_reserved))"
  "hs_state hist_reserved = JournalState_init" "hs_acknowledged_through hist_reserved = 0" "hs_sequence_end hist_reserved = 256"
  "hs_next_ticket hist_reserved = 0" "retained history_device (nf_cells (hs_flash hist_reserved)) = []" "nf_layout_ok (hs_flash hist_reserved)"
proof -
  note h = reserve_done_works [OF hist_reserve_facts(1,2), folded hist_reserved_def]
  show "at_large history_device hist_reserved" "hs_job hist_reserved = HistoryJob.kNone" "hs_sequence_end hist_reserved = 256"
    using h hist_reserve_facts(3,7) by simp_all
  show "one_reserved (hs_pages hist_reserved ! nat (hs_active_page hist_reserved))"
    using h(4) hist_reserve_facts(3,4) by (auto simp: one_reserved_def HistoryPage_init_def)
  show "hs_state hist_reserved = JournalState_init" "hs_acknowledged_through hist_reserved = 0"
    "hs_next_ticket hist_reserved = 0" "retained history_device (nf_cells (hs_flash hist_reserved)) = []" "nf_layout_ok (hs_flash hist_reserved)"
    using hist_reserve_facts poll_registers [OF hist_reserve_facts(1)] hist_poll_registers [OF hist_reserve_facts(1)]
    by (simp_all add: hist_reserved_def)
qed

lemma take_fields:
  "hs_flash (fst (takeAppendResult s)) = hs_flash s" "hs_pages (fst (takeAppendResult s)) = hs_pages s" "hs_job (fst (takeAppendResult s)) = hs_job s"
  "hs_active_page (fst (takeAppendResult s)) = hs_active_page s" "hs_state (fst (takeAppendResult s)) = hs_state s"
  "hs_acknowledged_through (fst (takeAppendResult s)) = hs_acknowledged_through s" "hs_sequence_end (fst (takeAppendResult s)) = hs_sequence_end s"
  "hs_next_ticket (fst (takeAppendResult s)) = hs_next_ticket s" "hs_ready (fst (takeAppendResult s)) = hs_ready s"
  "\<not> hs_append_result_ready (fst (takeAppendResult s))" "hs_device_id (fst (takeAppendResult s)) = hs_device_id s"
  by (simp_all add: takeAppendResult_def)

lemma hist_ticket_facts:
  "at_large history_device hist_ticket" "appendIdle hist_ticket" "hs_next_ticket hist_ticket = 1"
  "one_reserved (hs_pages hist_ticket ! nat (hs_active_page hist_ticket))" "hs_state hist_ticket = JournalState_init" "hs_acknowledged_through hist_ticket = 0"
  "retained history_device (nf_cells (hs_flash hist_ticket)) = []" "nf_layout_ok (hs_flash hist_ticket)"
  "hs_nextSequence nhf_ops hist_ready = (hist_ticket, Some (0, 1))" "hs_sequence_end hist_ticket = 256"
proof -
  note f = hist_reserved_facts
  have rd: "hs_ready hist_reserved" "history_reachable history_device hist_reserved" using f(1) by (simp_all add: at_large_def)
  have r1: "history_reachable history_device hist_ready" using history_event [OF rd(2), of HvTake] by (simp add: hist_ready_def)
  have r2: "history_reachable history_device hist_ticket" using history_event [OF r1, of HvNext] by (simp add: hist_ticket_def)
  have can: "canAppend hist_ready"
    using f rd by (simp add: canAppend_def appendIdle_def hs_busy_def hist_ready_def take_fields)
  have e: "hist_ticket = hist_ready\<lparr>hs_next_ticket := 1\<rparr>"
    using can f by (simp add: hist_ticket_def hs_nextSequence_def Let_def hist_ready_def take_fields)
  show "hs_nextSequence nhf_ops hist_ready = (hist_ticket, Some (0, 1))"
    using can f by (simp add: e hs_nextSequence_def Let_def) (simp add: hist_ready_def take_fields)
  show "at_large history_device hist_ticket" using r2 f(1) by (simp add: at_large_def e hist_ready_def take_fields)
  show "appendIdle hist_ticket" using can by (simp add: e canAppend_def appendIdle_def hs_busy_def)
  show "hs_next_ticket hist_ticket = 1"
    "one_reserved (hs_pages hist_ticket ! nat (hs_active_page hist_ticket))" "hs_state hist_ticket = JournalState_init"
    "hs_acknowledged_through hist_ticket = 0" "retained history_device (nf_cells (hs_flash hist_ticket)) = []" "nf_layout_ok (hs_flash hist_ticket)" "hs_sequence_end hist_ticket = 256"
    using f by (simp_all add: e hist_ready_def take_fields)
qed

definition history_first :: JournalRecord where "history_first = \<lparr>identity = 1, packet = history_packet\<rparr>"

lemma hist_append_facts:
  "hs_append nhf_ops (Some history_packet) 1 hist_ticket = (hist_append, True)"
  "at_large history_device hist_append" "hs_job hist_append = kAppend" "appending history_device history_first hist_append"
  "one_reserved (hs_pages hist_append ! nat (hs_active_page hist_append))" "hs_state hist_append = JournalState_init"
  "hs_acknowledged_through hist_append = 0" "nf_layout_ok (hs_flash hist_append)"
proof -
  note f = hist_ticket_facts
  have r: "history_reachable history_device hist_ticket" "hs_ready hist_ticket" "flash_operational (hs_flash hist_ticket)" using f(1) by (simp_all add: at_large_def)
  note p = reachable_parts [OF r(1)]
  have dev: "hs_device_id hist_ticket = history_device" using p(3) r(2) by (simp add: history_inv_def indexed_def)
  have n: "newest nhf_ops hist_ticket = None"
    using nhf.read_newest [OF p(1) p(2) [OF r(2)] p(3) r(2)] f(7) by (cases "newest nhf_ops hist_ticket") auto
  have used: "hp_records_used (hs_pages hist_ticket ! nat (hs_active_page hist_ticket)) = 0" using f(4) by (simp add: one_reserved_def)
  have "snd (hs_append nhf_ops (Some history_packet) 1 hist_ticket)"
    by (rule append_room) (use f(2,3) history_packet_valid dev n used in simp_all)
  then show a: "hs_append nhf_ops (Some history_packet) 1 hist_ticket = (hist_append, True)" by (simp add: hist_append_def prod_eq_iff)
  note as = nhf.append_step [OF p(1) p(2) p(3) a]
  note ac = append_accepted [OF r(1) a]
  show "appending history_device history_first hist_append" using ac(2) by (simp add: history_first_def)
  show "hs_job hist_append = kAppend" by (rule append_fresh(1) [OF used a])
  show "at_large history_device hist_append" using ac(1) as(2,3) r by (simp add: at_large_def)
  have pg: "hs_pages hist_append = hs_pages hist_ticket"
    using start_registers(7) [of nhf_ops "Some history_packet" 1 hist_ticket] a by simp
  show "one_reserved (hs_pages hist_append ! nat (hs_active_page hist_append))" using f(4) append_fields(2) [OF a] pg by simp
  show "hs_state hist_append = JournalState_init" "hs_acknowledged_through hist_append = 0"
    using start_registers(5,6) [of nhf_ops "Some history_packet" 1 hist_ticket] a f by simp_all
  show "nf_layout_ok (hs_flash hist_append)" using as(2) f(8) by simp
qed

lemma hist_stored_facts:
  "at_large history_device hist_stored" "hs_job hist_stored = HistoryJob.kNone" "hs_append_result_ready hist_stored" "hs_append_success hist_stored"
  "history_first \<in> set (retained history_device (nf_cells (hs_flash hist_stored)))" "nf_layout_ok (hs_flash hist_stored)"
  "hs_state hist_stored = JournalState_init" "hs_acknowledged_through hist_stored = 0"
  "hp_state_used (hs_pages hist_stored ! nat (hs_active_page hist_stored)) = 0"
proof -
  note f = hist_append_facts
  note o = other_done_works(2) [OF f(2,3), folded hist_stored_def]
  show "at_large history_device hist_stored" "hs_job hist_stored = HistoryJob.kNone" "hs_append_result_ready hist_stored" "hs_append_success hist_stored"
    using o by simp_all
  have "history_reachable history_device hist_append" using f(2) by (simp add: at_large_def)
  from appending_poll [OF this f(4)] o show "history_first \<in> set (retained history_device (nf_cells (hs_flash hist_stored)))"
    by (simp add: appending_def hist_stored_def)
  show "nf_layout_ok (hs_flash hist_stored)" "hs_state hist_stored = JournalState_init" "hs_acknowledged_through hist_stored = 0"
    using f poll_registers [OF f(2)] hist_poll_registers [OF f(2)] by (simp_all add: hist_stored_def)
  have w: "at_work history_device (nf_cells (hs_flash hist_append)) hist_append"
    using reachable_parts(3) [of history_device hist_append] f(2) by (simp add: at_large_def history_inv_def)
  have ph: "hs_job hist_append \<noteq> HistoryJob.kNone" "hs_phase hist_append \<noteq> kErase" using w f(3) by (simp_all add: at_work_def Let_def)
  obtain c where c: "hist_stored = hs_finishBlob nhf_ops (hist_append\<lparr>hs_flash := (hs_flash hist_append)\<lparr>nf_cells := c\<rparr>\<rparr>)"
    unfolding hist_stored_def by (rule write_done_works [OF f(2) ph])
  have "hp_state_used (hs_pages hist_append ! nat (hs_active_page hist_append)) = 0" using f(5) by (simp add: one_reserved_def)
  then show "hp_state_used (hs_pages hist_stored ! nat (hs_active_page hist_stored)) = 0"
    unfolding c using f(3) w
    by (cases "nat (hs_active_page hist_append) < length (hs_pages hist_append)")
      (simp_all add: hs_finishBlob_def Let_def on_page_def hs_count_def at_work_def list_update_beyond)
qed

section \<open>A checkpoint\<close>

lemma hist_stored_reachable: "history_reachable history_device hist_stored" "hs_ready hist_stored"
  using hist_stored_facts(1) by (simp_all add: at_large_def)

lemma hist_stored_lookup: "hs_lookup nhf_ops hist_stored i = Some x \<longleftrightarrow>
    x \<in> set (retained history_device (nf_cells (hs_flash hist_stored))) \<and> identity x = i"
  by (rule lookup_reachable [OF hist_stored_reachable])

lemma hist_stored_next: "hs_lookup nhf_ops hist_stored 1 = Some history_first" "0 < j \<Longrightarrow> (1 :: u64) \<le> j"
  using hist_stored_lookup [of 1 history_first] hist_stored_facts(5) inc_le [of 0 j] by (simp_all add: history_first_def)

definition hist_acked :: "NrfHistoryFlash HistoryStore" where
  "hist_acked = fst (acknowledgeDeliveredRecord nhf_ops 1 hist_stored)"

definition hist_checkpoint :: "NrfHistoryFlash HistoryStore" where
  "hist_checkpoint = fst (checkpointAcknowledgedDelivery hist_acked)"

lemma hist_acked_facts:
  "hist_acked = hist_stored\<lparr>hs_acknowledged_through := 1\<rparr>" "history_reachable history_device hist_acked"
proof -
  have "snd (acknowledgeDeliveredRecord nhf_ops 1 hist_stored)"
    by (rule acknowledge_next [OF hist_stored_reachable, THEN iffD2])
      (use hist_stored_facts(2,8) hist_stored_next in \<open>auto simp: hs_busy_def\<close>)
  then show "hist_acked = hist_stored\<lparr>hs_acknowledged_through := 1\<rparr>"
    using hist_stored_facts(8) by (auto simp: hist_acked_def acknowledgeDeliveredRecord_def split: if_splits option.splits)
  show "history_reachable history_device hist_acked"
    using history_event [OF hist_stored_reachable(1), of "HvAcknowledge 1"] by (simp add: hist_acked_def)
qed

lemma hist_checkpoint_facts:
  "history_reachable history_device hist_checkpoint" "hs_ready hist_checkpoint" "hs_job hist_checkpoint = kState"
  "hs_ready (hs_poll nhf_ops hist_checkpoint)" "delivered_through (hs_pending_state hist_checkpoint) = 1" "nf_layout_ok (hs_flash (hs_poll nhf_ops hist_checkpoint))"
proof -
  note f = hist_stored_facts
  have rd: "hs_ready hist_acked" "\<not> hs_busy hist_acked" using f(1,2) by (simp_all add: hist_acked_facts(1) at_large_def hs_busy_def)
  have "calm history_device (nf_cells (hs_flash hist_acked)) hist_acked"
    using inv_calm' [OF reachable_parts(3) [OF hist_acked_facts(2)] rd] by simp
  then have a: "0 \<le> hs_active_page hist_acked" by (simp add: calm_def)
  have k: "kStateSlotsPerPage \<noteq> 0" "0 \<noteq> UINT64_MAX" by (simp_all add: kStateSlotsPerPage_def)
  have cp: "hs_job hist_checkpoint = kState \<and> hs_ready hist_checkpoint \<and> delivered_through (hs_pending_state hist_checkpoint) = 1 \<and>
      hs_flash hist_checkpoint = hs_flash hist_stored"
    using rd a f(7,9) k
    by (simp add: hist_checkpoint_def checkpointAcknowledgedDelivery_def startState_def Let_def hist_acked_facts(1) JournalState_init_def hs_busy_def not_le not_less)
  then show "hs_job hist_checkpoint = kState" "hs_ready hist_checkpoint" "delivered_through (hs_pending_state hist_checkpoint) = 1" by simp_all
  have fl: "hs_flash hist_checkpoint = hs_flash hist_stored" using cp by simp
  show r: "history_reachable history_device hist_checkpoint"
    using history_event [OF hist_acked_facts(2), of HvCheckpoint] by (simp add: hist_checkpoint_def)
  then have al: "at_large history_device hist_checkpoint" using f(1) \<open>hs_ready hist_checkpoint\<close> fl by (simp add: at_large_def)
  from other_done_works(1) [OF al \<open>hs_job hist_checkpoint = kState\<close>] show "hs_ready (hs_poll nhf_ops hist_checkpoint)"
    by (simp add: at_large_def)
  have w: "at_work history_device (nf_cells (hs_flash hist_checkpoint)) hist_checkpoint"
    using reachable_parts(3) [OF r] \<open>hs_ready hist_checkpoint\<close> by (simp add: history_inv_def)
  have ph: "hs_job hist_checkpoint \<noteq> HistoryJob.kNone" "hs_phase hist_checkpoint \<noteq> kErase"
    using w \<open>hs_job hist_checkpoint = kState\<close> by (simp_all add: at_work_def Let_def)
  obtain c where c: "hs_poll nhf_ops hist_checkpoint = hs_finishBlob nhf_ops (hist_checkpoint\<lparr>hs_flash := (hs_flash hist_checkpoint)\<lparr>nf_cells := c\<rparr>\<rparr>)"
    by (rule write_done_works [OF al ph])
  show "nf_layout_ok (hs_flash (hs_poll nhf_ops hist_checkpoint))" unfolding c finish_flash using fl f(6) by simp
qed

section \<open>The run after a reset\<close>

lemma hist_second_boot:
  obtains b where "hs_begin nhf_ops history_device (Some (Some 9)) (history_reset (hs_flash hist_ticket)) = (b, True)"
    "\<exists>b' n ticket. hs_nextSequence nhf_ops (history_run history_device [HvPrepare, HvPoll, HvTake] b) = (b', Some (n, ticket))"
proof -
  note f = hist_ticket_facts
  let ?z = "history_reset (hs_flash hist_ticket)" and ?c = "nf_cells (hs_flash hist_ticket)"
  have r: "history_reachable history_device hist_ticket" "hs_ready hist_ticket" "flash_operational (hs_flash hist_ticket)" using f(1) by (simp_all add: at_large_def)
  note p = reachable_parts [OF r(1)]
  note i = inv_parts [OF p(3) r(2)]
  have idle: "\<not> hs_busy hist_ticket" using f(2) by (simp add: appendIdle_def)
  obtain b where b: "hs_begin nhf_ops history_device (Some (Some 9)) ?z = (b, True)"
    using boot_succeeds [OF r(1) f(8), of 9] by auto
  have rz: "history_reachable history_device ?z" using history_event [OF r(1), of HvReset] by simp
  note pz = reachable_parts [OF rz]
  note g = nhf.begin_good [OF pz(1,4,5) b]
  note bp = boot_parts [OF r(1) b]
  have rb: "history_reachable history_device b" using history_event [OF rz, of "HvBegin (Some (Some 9))"] b by simp
  have n: "region_newest history_device ?c = (hs_newest_generation hist_ticket, hs_active_page hist_ticket)" using i(4) by (simp add: indexed_def)
  have ca: "calm history_device ?c hist_ticket" by (rule inv_calm'(1) [OF p(3) r(2) idle])
  have jb: "hs_job b = HistoryJob.kNone" "hs_next_ticket b = hs_sequence_end b" using bp(8) n ca by (auto simp: calm_def)
  have ib: "indexed history_device ?c b" using bp(3,4,5) by (simp add: history_inv_def)
  then have nb: "region_newest history_device ?c = (hs_newest_generation b, hs_active_page b)" by (simp add: indexed_def)
  then have ac: "hs_active_page b = hs_active_page hist_ticket" "0 \<le> hs_active_page b" using n ca by (simp_all add: calm_def)
  note act = active_page [OF ib ac(2)]
  have "hs_pages b ! nat (hs_active_page b) = page_index history_device ?c (nat (hs_active_page b))" "hole hist_ticket = None"
    using ib jb act(1) idle by (simp_all add: indexed_def hole_def hs_busy_def)
  then have pg: "hs_pages b ! nat (hs_active_page b) = hs_pages hist_ticket ! nat (hs_active_page hist_ticket)"
    using i(4) act(1) ac by (simp add: indexed_def)
  have used: "hp_sequence_used (hs_pages b ! nat (hs_active_page b)) = 1" using f(4) by (simp add: pg one_reserved_def)
  have "hs_sequence_end b \<le> hs_sequence_end hist_ticket" using bp(7) i(5) by (simp add: metered_def)
  moreover have "hs_sequence_end hist_ticket = 256"
    by (rule f(10))
  ultimately have e: "hs_sequence_end b \<le> 256" by simp
  have idb: "appendIdle b" using g(5) bp(4) jb(1) by (simp add: appendIdle_def hs_busy_def)
  have nc: "\<not> canAppend b" using jb(2) by (simp add: canAppend_def)
  have room: "\<not> hs_sequence_end b > UINT64_MAX - kSequenceBlockSize"
    using e by (simp add: kSequenceBlockSize_def word_less_nat_alt word_le_nat_alt)
  define s1 where "s1 = fst (prepareAppend nhf_ops b)"
  obtain s' where st: "startReservation nhf_ops b = (s', True)" "hs_job s' = kReserve" "hs_next_ticket s' = hs_next_ticket b"
      "hs_sequence_end s' = hs_sequence_end b" "\<not> hs_append_after_new_page s'" "hs_flash s' = hs_flash b" "hs_ready s'"
  proof -
    have "hs_append_after_new_page b = False" using g(8) by simp
    then show thesis using that used ac(2) room bp(4) jb(1)
      by (simp add: startReservation_def Let_def hs_busy_def kSequenceSlotsPerPage_def)
  qed
  have s1: "s1 = s'" using idb nc jb(2) st(1) by (simp add: s1_def prepareAppend_def)
  have r1: "history_reachable history_device s1" using history_event [OF rb, of HvPrepare] by (simp add: s1_def)
  have "hs_flash b = (hs_flash hist_ticket)\<lparr>nf_ready := True, nf_softdevice_enabled := False\<rparr>"
    using g(9) f(8) by (simp add: nhf_ops_def nhf_begin_def Let_def history_reset_def HistoryStore_init_def)
  then have al: "at_large history_device s1" using r1 st(6,7) r(3) s1 by (simp add: at_large_def flash_operational_def)
  define s2 where "s2 = hs_poll nhf_ops s1"
  note d = reserve_done_works [OF al, folded s2_def]
  have d2: "at_large history_device s2" "hs_job s2 = HistoryJob.kNone" "hs_sequence_end s2 = hs_sequence_end b + 256"
    using d st s1 by simp_all
  have t2: "hs_next_ticket s2 = hs_sequence_end b"
    using poll_facts(3) [OF r1] st(3) s1 jb(2) by (simp add: meters_step_def s2_def)
  have run: "history_run history_device [HvPrepare, HvPoll, HvTake] b = fst (takeAppendResult s2)"
    by (simp add: history_run_def s1_def s2_def)
  have "hs_sequence_end b < hs_sequence_end b + 256"
  proof -
    have "unat (hs_sequence_end b) \<le> 256" using e by (simp add: word_le_nat_alt)
    then have "unat (hs_sequence_end b) + unat (256 :: u64) < 2 ^ 64" by simp
    then have "unat (hs_sequence_end b + 256) = unat (hs_sequence_end b) + 256" by (simp add: unat_add_lem [THEN iffD1])
    then show ?thesis by (simp add: word_less_nat_alt)
  qed
  then have "canAppend (fst (takeAppendResult s2))"
    using d2 t2 by (simp add: canAppend_def appendIdle_def take_fields hs_busy_def at_large_def)
  then have "\<exists>b' n ticket. hs_nextSequence nhf_ops (fst (takeAppendResult s2)) = (b', Some (n, ticket))"
    by (simp add: hs_nextSequence_def Let_def)
  then show thesis using that [OF b] run by simp
qed

section \<open>The guarantees at these states\<close>

theorem history_lookup_exact_witness: "hs_lookup nhf_ops hist_stored 1 = Some history_first"
  using history_lookup_exact [OF hist_stored_reachable, of 1 history_first] hist_stored_facts(5) by (simp add: history_first_def)

theorem history_append_durable_witness:
  "\<exists>b. hs_begin nhf_ops history_device (Some (Some 9)) (history_reset (hs_flash hist_stored)) = (b, True) \<and>
     hs_lookup nhf_ops b 1 = Some history_first"
proof -
  obtain b where b: "hs_begin nhf_ops history_device (Some (Some 9)) (history_reset (hs_flash hist_stored)) = (b, True)"
    using boot_succeeds [OF hist_stored_reachable(1) hist_stored_facts(6), of 9] by auto
  have r: "history_reachable history_device hist_ticket" using hist_ticket_facts(1) by (simp add: at_large_def)
  have s: "hist_stored = history_run history_device [HvPoll] hist_append" by (simp add: history_run_def hist_stored_def)
  have t: "takeAppendResult hist_stored = (fst (takeAppendResult hist_stored), Some True)"
    using hist_stored_facts(3,4) by (simp add: takeAppendResult_def)
  have "hs_lookup nhf_ops b 1 = Some \<lparr>identity = 1, packet = history_packet\<rparr>"
    by (rule history_append_durable [OF r hist_append_facts(1) _ s t, where src = "Some (Some 9)"]) (simp_all add: take_fields b)
  then show ?thesis using b by (simp add: history_first_def)
qed

theorem history_power_cut_keeps_witness:
  "\<exists>b. hs_begin nhf_ops history_device (Some (Some 9)) (history_reset (hs_flash (hs_poll nhf_ops hist_stored))) = (b, True) \<and>
     hs_lookup nhf_ops b 1 = Some history_first"
proof -
  have e: "hs_poll nhf_ops hist_stored = hist_stored" using hist_stored_facts(2) by (simp add: hs_poll_def)
  obtain b where b: "hs_begin nhf_ops history_device (Some (Some 9)) (history_reset (hs_flash (hs_poll nhf_ops hist_stored))) = (b, True)"
    using boot_succeeds [OF hist_stored_reachable(1) hist_stored_facts(6), of 9] by (auto simp: e)
  have "\<not> erasePending hist_stored" using hist_stored_facts(2) by (simp add: erasePending_def)
  from history_power_cut_keeps [OF hist_stored_reachable this b, of 1 history_first] show ?thesis
    using b hist_stored_next(1) by blast
qed

theorem history_evicts_oldest_witness:
  "\<exists>b. hs_begin nhf_ops history_device (Some (Some 9)) (history_reset (hs_flash (hs_poll nhf_ops hist_boot))) = (b, True) \<and>
     hs_lookup nhf_ops b 1 = None"
proof -
  have r: "history_reachable history_device hist_boot" "hs_ready hist_boot" "history_reachable history_device hist_header"
    using hist_boot_facts(1) hist_header_facts(1) by (simp_all add: at_large_def)
  obtain b where b: "hs_begin nhf_ops history_device (Some (Some 9)) (history_reset (hs_flash (hs_poll nhf_ops hist_boot))) = (b, True)"
    using boot_succeeds [OF r(3) hist_header_registers(6), of 9] by (auto simp: hist_header_def)
  have ep: "erasePending hist_boot" using hist_boot_facts(2,3) by (simp add: erasePending_def)
  have "hs_lookup nhf_ops hist_boot 1 = None"
  proof (rule ccontr)
    assume "hs_lookup nhf_ops hist_boot 1 \<noteq> None"
    then obtain x where "hs_lookup nhf_ops hist_boot 1 = Some x" by blast
    then have "x \<in> set (retained history_device (nf_cells (hs_flash hist_boot)))" using lookup_reachable [OF r(1,2)] by blast
    then show False by (simp add: hist_boot_facts(9))
  qed
  then show ?thesis using history_evicts_oldest [OF r(1,2) ep b, of 1] b by auto
qed

theorem history_boot_total_witness:
  "\<exists>b. hs_begin nhf_ops history_device (Some (Some 9)) (history_reset (hs_flash hist_stored)) = (b, True) \<and> hs_ready b"
  using history_boot_total [OF hist_stored_reachable(1) hist_stored_facts(6), of 9] by simp

theorem history_acknowledge_contiguous_witness: "snd (acknowledgeDeliveredRecord nhf_ops 1 hist_stored)"
  by (rule history_acknowledge_contiguous [OF hist_stored_reachable, THEN iffD2])
    (use hist_stored_facts(2,8) hist_stored_next in \<open>auto simp: hs_busy_def\<close>)

theorem history_tickets_fresh_witness:
  "\<exists>b b' n ticket. hs_begin nhf_ops history_device (Some (Some 9)) (history_reset (hs_flash hist_ticket)) = (b, True) \<and>
     hs_nextSequence nhf_ops (history_run history_device [HvPrepare, HvPoll, HvTake] b) = (b', Some (n, ticket)) \<and> 1 < ticket"
proof -
  obtain b where b1: "hs_begin nhf_ops history_device (Some (Some 9)) (history_reset (hs_flash hist_ticket)) = (b, True)"
    and b2: "\<exists>b' n ticket. hs_nextSequence nhf_ops (history_run history_device [HvPrepare, HvPoll, HvTake] b) = (b', Some (n, ticket))"
    by (rule hist_second_boot)
  obtain b' n ticket where b3: "hs_nextSequence nhf_ops (history_run history_device [HvPrepare, HvPoll, HvTake] b) = (b', Some (n, ticket))"
    using b2 by (elim exE)
  have r: "history_reachable history_device hist_reserve" "hs_ready hist_reserve" "hs_ready (hs_poll nhf_ops hist_reserve)"
    using hist_reserve_facts(1) hist_reserved_facts(1) by (simp_all add: at_large_def hist_reserved_def)
  have s: "hist_ticket = history_run history_device [HvTake, HvNext] (hs_poll nhf_ops hist_reserve)"
    by (simp add: history_run_def hist_ticket_def hist_ready_def hist_reserved_def)
  have "hs_next_ticket hist_ticket < ticket"
    by (rule history_tickets_fresh [OF r(1,2) hist_reserve_facts(2) r(3) _ s b1 _ b3]) simp_all
  then have "1 < ticket" by (simp add: hist_ticket_facts(3))
  then show ?thesis using b1 b3 by (intro exI conjI)
qed

theorem history_checkpoint_durable_witness:
  "\<exists>b. hs_begin nhf_ops history_device (Some (Some 9)) (history_reset (hs_flash (hs_poll nhf_ops hist_checkpoint))) = (b, True) \<and>
     hs_acknowledged_through b = 1"
proof -
  note f = hist_checkpoint_facts
  obtain b where b: "hs_begin nhf_ops history_device (Some (Some 9)) (history_reset (hs_flash (hs_poll nhf_ops hist_checkpoint))) = (b, True)"
    using boot_succeeds [OF poll_reachable [OF f(1)] f(6), of 9] by auto
  then show ?thesis using history_checkpoint_durable [OF f(1-4) b] f(5) by simp
qed

theorem history_work_completes_witness:
  "\<exists>n\<le>4. hs_ready ((hs_poll nhf_ops ^^ n) hist_append) \<and> hs_append_success ((hs_poll nhf_ops ^^ n) hist_append)"
proof -
  have r: "history_reachable history_device hist_append" "hs_ready hist_append" "flash_operational (hs_flash hist_append)"
    using hist_append_facts(2) by (simp_all add: at_large_def)
  have "hs_sequence_end hist_append = 256"
    using append_fields(1) [OF hist_append_facts(1)] hist_ticket_facts(10) by simp
  then have "hs_sequence_end hist_append \<le> UINT64_MAX - 256" by simp
  from history_work_completes [OF r this] hist_append_facts(3) show ?thesis by (auto simp: Let_def)
qed

end
