(* ===== verification/History_Secure.thy ===== *)
theory History_Secure
  imports Tlp_Packets
begin

text \<open>
  The wire formats of the authenticated position history: \<open>tlp_v2_history_secure\<close> under
  \<open>firmware/include\<close> and \<open>firmware/src\<close>.  Three codecs: the secure packet (a 36 byte header, a
  ciphertext and an 8 byte tag), and the two plaintexts it may carry, an observation and a
  backend-durable receipt.  The byte-order helpers of the source file are those of
  \<open>Tlp_Packets\<close>, of which the file holds a private copy.  A serializer returns the filled
  buffer or \<open>None\<close> where the code returns false without writing; a deserializer returns the
  status and, on \<open>kOk\<close>, the decoded value.  The callers pass non-null result pointers.
  Sealing and opening the ciphertext is done elsewhere.
\<close>

section \<open>Constants and data\<close>

definition kHistorySecureProtocolVersion :: u8 where "kHistorySecureProtocolVersion = 2"
definition kPacketTypeHistorySecure :: u8 where "kPacketTypeHistorySecure = 3"
definition kHistorySecurityContextBackendA2d :: u8 where "kHistorySecurityContextBackendA2d = 1"
definition kHistorySecurityContextDeviceD2a :: u8 where "kHistorySecurityContextDeviceD2a = 2"
definition kHistoryTrafficDirectionD2a :: u8 where "kHistoryTrafficDirectionD2a = 1"
definition kHistoryTrafficDirectionA2d :: u8 where "kHistoryTrafficDirectionA2d = 2"
definition kHistoryAppFamilyObservation :: u8 where "kHistoryAppFamilyObservation = 1"
definition kHistoryAppFamilyBackendDurableReceipt :: u8 where "kHistoryAppFamilyBackendDurableReceipt = 2"
definition kHistoryPathFlagRelayAllowed :: u8 where "kHistoryPathFlagRelayAllowed = push_bit 0 1"
definition kHistoryPathFlagsAllowedMask :: u8 where "kHistoryPathFlagsAllowedMask = kHistoryPathFlagRelayAllowed"
definition kHistoryObservationSchema :: u8 where "kHistoryObservationSchema = 1"
definition kHistoryReceiptSchema :: u8 where "kHistoryReceiptSchema = 1"
definition kHistoryReceiptScopeBackendDurable :: u8 where "kHistoryReceiptScopeBackendDurable = 1"
definition kHistorySecureHeaderSize :: nat where "kHistorySecureHeaderSize = 36"
definition kHistorySecureTagSize :: nat where "kHistorySecureTagSize = 8"
definition kHistoryObservationPlaintextSize :: nat where "kHistoryObservationPlaintextSize = 29"
definition kHistoryReceiptFixedPlaintextSize :: nat where "kHistoryReceiptFixedPlaintextSize = 4"
definition kHistoryReceiptMaxIdentities :: nat where "kHistoryReceiptMaxIdentities = 6"
definition kHistoryReceiptMaxPlaintextSize :: nat where
  "kHistoryReceiptMaxPlaintextSize = kHistoryReceiptFixedPlaintextSize + kHistoryReceiptMaxIdentities * 8"
definition kHistorySecureMaxCiphertextSize :: nat where
  "kHistorySecureMaxCiphertextSize = kHistoryReceiptMaxPlaintextSize"
definition kHistoryReceiptMinPacketSize :: nat where
  "kHistoryReceiptMinPacketSize = kHistorySecureHeaderSize + kHistoryReceiptFixedPlaintextSize + 8 + kHistorySecureTagSize"
definition kHistorySecureMinPacketSize :: nat where "kHistorySecureMinPacketSize = kHistoryReceiptMinPacketSize"
definition kHistorySecureMaxPacketSize :: nat where
  "kHistorySecureMaxPacketSize = kHistorySecureHeaderSize + kHistorySecureMaxCiphertextSize + kHistorySecureTagSize"
definition kHistoryPositionFlagsAllowedMask :: u8 where "kHistoryPositionFlagsAllowedMask = 0x07"
definition kHistoryPositionFlagValidFix :: u8 where "kHistoryPositionFlagValidFix = push_bit 0 1"
definition kHistoryPositionFlagValidUtcTime :: u8 where "kHistoryPositionFlagValidUtcTime = push_bit 1 1"

record HistorySecurePacket =
  sp_security_context :: u8
  sp_app_family :: u8
  sp_path_flags :: u8
  sp_ciphertext_len :: u8
  sp_device_id :: u64
  sp_key_epoch :: u32
  sp_security_counter :: u64
  sp_history_incarnation :: u64
  sp_ciphertext :: bytes
  sp_tag :: bytes

record HistoryObservationPlaintext =
  op_history_record_identity :: u64
  op_gnss_utc_epoch_seconds :: u32
  op_latitude_e7 :: i32
  op_longitude_e7 :: i32
  op_altitude_mm :: i32
  op_hdop_x100 :: u16
  op_satellites :: u8
  op_position_flags :: u8

record BackendDurableReceiptPlaintext =
  rc_count :: u8
  rc_identities :: "u64 list"

datatype HistorySecureDecodeStatus =
  kOk | kLength | kVersion | kType | kSecurityContext | kAppFamily | kContextFamily | kPathFlags
  | kCiphertextLength | kReserved | kKeyEpoch | kSecurityCounter | kHistoryIncarnation

datatype HistoryPlaintextDecodeStatus =
  kPtOk | kPtLength | kPtSchema | kPtScope | kPtReserved | kPtIdentity | kPtIdentityOrder
  | kPtPositionFlags | kPtPositionCoordinates | kPtPositionFix | kPtPositionTime | kPtCount

section \<open>Checks\<close>

definition securityContextValid :: "u8 \<Rightarrow> bool" where
  "securityContextValid c \<longleftrightarrow> c = kHistorySecurityContextDeviceD2a \<or> c = kHistorySecurityContextBackendA2d"

definition appFamilyValid :: "u8 \<Rightarrow> bool" where
  "appFamilyValid f \<longleftrightarrow> f = kHistoryAppFamilyObservation \<or> f = kHistoryAppFamilyBackendDurableReceipt"

definition ciphertextLengthValid :: "u8 \<Rightarrow> u8 \<Rightarrow> bool" where
  "ciphertextLengthValid family len =
     (if family = kHistoryAppFamilyObservation then unat len = kHistoryObservationPlaintextSize
      else if family \<noteq> kHistoryAppFamilyBackendDurableReceipt \<or>
              unat len < kHistoryReceiptFixedPlaintextSize + 8 \<or>
              unat len > kHistoryReceiptMaxPlaintextSize then False
      else (unat len - kHistoryReceiptFixedPlaintextSize) mod 8 = 0)"

definition observationValid :: "HistoryObservationPlaintext \<Rightarrow> bool" where
  "observationValid ob =
     (if op_history_record_identity ob = 0 then False
      else if \<not> coordinatesAreInRange (op_latitude_e7 ob) (op_longitude_e7 ob) then False
      else if op_position_flags ob AND NOT kHistoryPositionFlagsAllowedMask \<noteq> 0 then False
      else if op_position_flags ob AND kHistoryPositionFlagValidFix = 0 then False
      else if op_position_flags ob AND kHistoryPositionFlagValidUtcTime = 0 \<and>
              op_gnss_utc_epoch_seconds ob \<noteq> 0 then False
      else True)"

text \<open>The loop over the identities, from index \<open>i\<close> with the previous identity at hand.\<close>

fun receipt_loop :: "u64 list \<Rightarrow> nat \<Rightarrow> u64 \<Rightarrow> bool" where
  "receipt_loop [] i previous = True"
| "receipt_loop (ident # rest) i previous =
     (if ident = 0 \<or> (i \<noteq> 0 \<and> ident \<le> previous) then False else receipt_loop rest (Suc i) ident)"

definition receiptValid :: "BackendDurableReceiptPlaintext \<Rightarrow> bool" where
  "receiptValid r =
     (if rc_count r = 0 \<or> unat (rc_count r) > kHistoryReceiptMaxIdentities then False
      else receipt_loop (take (unat (rc_count r)) (rc_identities r)) 0 0)"

definition historySecureContextFamilyAllowed :: "u8 \<Rightarrow> u8 \<Rightarrow> bool" where
  "historySecureContextFamilyAllowed c f \<longleftrightarrow>
     (c = kHistorySecurityContextDeviceD2a \<and> f = kHistoryAppFamilyObservation) \<or>
     (c = kHistorySecurityContextBackendA2d \<and> f = kHistoryAppFamilyBackendDurableReceipt)"

definition historyTrafficDirectionForSecurityContext :: "u8 \<Rightarrow> u8 option" where
  "historyTrafficDirectionForSecurityContext c =
     (if c = kHistorySecurityContextDeviceD2a then Some kHistoryTrafficDirectionD2a
      else if c = kHistorySecurityContextBackendA2d then Some kHistoryTrafficDirectionA2d
      else None)"

definition validateHistorySecurePacket :: "HistorySecurePacket \<Rightarrow> bool" where
  "validateHistorySecurePacket p \<longleftrightarrow>
     securityContextValid (sp_security_context p) \<and> appFamilyValid (sp_app_family p) \<and>
     historySecureContextFamilyAllowed (sp_security_context p) (sp_app_family p) \<and>
     sp_path_flags p AND NOT kHistoryPathFlagsAllowedMask = 0 \<and>
     ciphertextLengthValid (sp_app_family p) (sp_ciphertext_len p) \<and>
     sp_key_epoch p \<noteq> UINT32_MAX \<and> sp_security_counter p \<noteq> 0 \<and> sp_history_incarnation p \<noteq> 0"

section \<open>Secure packet\<close>

definition serializeHistorySecurePacket :: "HistorySecurePacket \<Rightarrow> bytes option \<Rightarrow> bytes option" where
  "serializeHistorySecurePacket p output =
     (let len = unat (sp_ciphertext_len p);
          expected_size = kHistorySecureHeaderSize + len + kHistorySecureTagSize
      in case output of None \<Rightarrow> None
       | Some out \<Rightarrow>
          if length out \<noteq> expected_size \<or> \<not> validateHistorySecurePacket p then None
          else let out = out[0 := kHistorySecureProtocolVersion, 1 := kPacketTypeHistorySecure,
                             2 := sp_security_context p, 3 := sp_app_family p, 4 := sp_path_flags p,
                             5 := sp_ciphertext_len p, 6 := 0, 7 := 0];
                   out = writeU64BigEndian out 8 (sp_device_id p);
                   out = writeU32BigEndian out 16 (sp_key_epoch p);
                   out = writeU64BigEndian out 20 (sp_security_counter p);
                   out = writeU64BigEndian out 28 (sp_history_incarnation p);
                   out = write_at kHistorySecureHeaderSize (slice 0 len (sp_ciphertext p)) out;
                   out = write_at (kHistorySecureHeaderSize + len) (slice 0 kHistorySecureTagSize (sp_tag p)) out
               in Some out)"

definition deserializeHistorySecurePacket ::
  "bytes option \<Rightarrow> HistorySecureDecodeStatus \<times> HistorySecurePacket option" where
  "deserializeHistorySecurePacket input =
     (case input of None \<Rightarrow> (kLength, None)
      | Some inp \<Rightarrow>
          if length inp < kHistorySecureMinPacketSize \<or> length inp > kHistorySecureMaxPacketSize
          then (kLength, None)
          else if inp ! 0 \<noteq> kHistorySecureProtocolVersion then (kVersion, None)
          else if inp ! 1 \<noteq> kPacketTypeHistorySecure then (kType, None)
          else if \<not> securityContextValid (inp ! 2) then (kSecurityContext, None)
          else if \<not> appFamilyValid (inp ! 3) then (kAppFamily, None)
          else if \<not> historySecureContextFamilyAllowed (inp ! 2) (inp ! 3) then (kContextFamily, None)
          else if (inp ! 4) AND NOT kHistoryPathFlagsAllowedMask \<noteq> 0 then (kPathFlags, None)
          else if \<not> ciphertextLengthValid (inp ! 3) (inp ! 5) then (kCiphertextLength, None)
          else if inp ! 6 \<noteq> 0 \<or> inp ! 7 \<noteq> 0 then (kReserved, None)
          else let expected_size = kHistorySecureHeaderSize + unat (inp ! 5) + kHistorySecureTagSize in
          if length inp \<noteq> expected_size then (kLength, None)
          else let key_epoch = readU32BigEndian inp 16;
                   security_counter = readU64BigEndian inp 20;
                   history_incarnation = readU64BigEndian inp 28 in
          if key_epoch = UINT32_MAX then (kKeyEpoch, None)
          else if security_counter = 0 then (kSecurityCounter, None)
          else if history_incarnation = 0 then (kHistoryIncarnation, None)
          else (kOk, Some
            \<lparr>sp_security_context = inp ! 2, sp_app_family = inp ! 3, sp_path_flags = inp ! 4,
             sp_ciphertext_len = inp ! 5, sp_device_id = readU64BigEndian inp 8,
             sp_key_epoch = key_epoch, sp_security_counter = security_counter,
             sp_history_incarnation = history_incarnation,
             sp_ciphertext = write_at 0 (slice kHistorySecureHeaderSize (unat (inp ! 5)) inp)
                               (replicate kHistorySecureMaxCiphertextSize 0),
             sp_tag = slice (kHistorySecureHeaderSize + unat (inp ! 5)) kHistorySecureTagSize inp\<rparr>))"

section \<open>Observation plaintext\<close>

definition serializeHistoryObservationPlaintext ::
  "HistoryObservationPlaintext \<Rightarrow> bytes option \<Rightarrow> bytes option" where
  "serializeHistoryObservationPlaintext ob output =
     (case output of None \<Rightarrow> None
      | Some out \<Rightarrow>
          if length out \<noteq> kHistoryObservationPlaintextSize \<or> \<not> observationValid ob then None
          else let out = out[0 := kHistoryObservationSchema];
                   out = writeU64BigEndian out 1 (op_history_record_identity ob);
                   out = writeU32BigEndian out 9 (op_gnss_utc_epoch_seconds ob);
                   out = writeU32BigEndian out 13 (op_latitude_e7 ob);
                   out = writeU32BigEndian out 17 (op_longitude_e7 ob);
                   out = writeU32BigEndian out 21 (op_altitude_mm ob);
                   out = writeU16BigEndian out 25 (op_hdop_x100 ob);
                   out = out[27 := op_satellites ob, 28 := op_position_flags ob]
               in Some out)"

definition deserializeHistoryObservationPlaintext ::
  "bytes option \<Rightarrow> HistoryPlaintextDecodeStatus \<times> HistoryObservationPlaintext option" where
  "deserializeHistoryObservationPlaintext input =
     (case input of None \<Rightarrow> (kPtLength, None)
      | Some inp \<Rightarrow>
          if length inp \<noteq> kHistoryObservationPlaintextSize then (kPtLength, None)
          else if inp ! 0 \<noteq> kHistoryObservationSchema then (kPtSchema, None)
          else let d = \<lparr>op_history_record_identity = readU64BigEndian inp 1,
                        op_gnss_utc_epoch_seconds = readU32BigEndian inp 9,
                        op_latitude_e7 = readU32BigEndian inp 13,
                        op_longitude_e7 = readU32BigEndian inp 17,
                        op_altitude_mm = readU32BigEndian inp 21,
                        op_hdop_x100 = readU16BigEndian inp 25,
                        op_satellites = inp ! 27,
                        op_position_flags = inp ! 28\<rparr> in
          if op_history_record_identity d = 0 then (kPtIdentity, None)
          else if \<not> coordinatesAreInRange (op_latitude_e7 d) (op_longitude_e7 d)
          then (kPtPositionCoordinates, None)
          else if op_position_flags d AND NOT kHistoryPositionFlagsAllowedMask \<noteq> 0
          then (kPtPositionFlags, None)
          else if op_position_flags d AND kHistoryPositionFlagValidFix = 0 then (kPtPositionFix, None)
          else if op_position_flags d AND kHistoryPositionFlagValidUtcTime = 0 \<and>
                  op_gnss_utc_epoch_seconds d \<noteq> 0 then (kPtPositionTime, None)
          else (kPtOk, Some d))"

section \<open>Receipt plaintext\<close>

definition backendDurableReceiptPlaintextSize :: "u8 \<Rightarrow> nat" where
  "backendDurableReceiptPlaintextSize count =
     (if count = 0 \<or> unat count > kHistoryReceiptMaxIdentities then 0
      else kHistoryReceiptFixedPlaintextSize + unat count * 8)"

definition serializeBackendDurableReceiptPlaintext ::
  "BackendDurableReceiptPlaintext \<Rightarrow> bytes option \<Rightarrow> bytes option" where
  "serializeBackendDurableReceiptPlaintext r output =
     (let expected_size = backendDurableReceiptPlaintextSize (rc_count r) in
      case output of None \<Rightarrow> None
      | Some out \<Rightarrow>
          if expected_size = 0 \<or> length out \<noteq> expected_size \<or> \<not> receiptValid r then None
          else let out = out[0 := kHistoryReceiptSchema, 1 := kHistoryReceiptScopeBackendDurable,
                             2 := rc_count r, 3 := 0]
               in Some (fold (\<lambda>index out. writeU64BigEndian out (4 + 8 * index) (rc_identities r ! index))
                          [0..<unat (rc_count r)] out))"

text \<open>
  The decoding loop: \<open>n\<close> identities are still to be read, from index \<open>i\<close>; \<open>acc\<close> are those
  stored in the result, whose other entries stay zero.
\<close>

fun receipt_read :: "bytes \<Rightarrow> nat \<Rightarrow> nat \<Rightarrow> u64 \<Rightarrow> u64 list \<Rightarrow> HistoryPlaintextDecodeStatus \<times> u64 list" where
  "receipt_read inp 0 i previous ids = (kPtOk, ids)"
| "receipt_read inp (Suc n) i previous ids =
     (let ident = readU64BigEndian inp (4 + 8 * i) in
      if ident = 0 then (kPtIdentity, ids)
      else if i \<noteq> 0 \<and> ident \<le> previous then (kPtIdentityOrder, ids)
      else receipt_read inp n (Suc i) ident (ids[i := ident]))"

definition deserializeBackendDurableReceiptPlaintext ::
  "bytes option \<Rightarrow> HistoryPlaintextDecodeStatus \<times> BackendDurableReceiptPlaintext option" where
  "deserializeBackendDurableReceiptPlaintext input =
     (case input of None \<Rightarrow> (kPtLength, None)
      | Some inp \<Rightarrow>
          if length inp < kHistoryReceiptFixedPlaintextSize + 8 \<or>
             length inp > kHistoryReceiptMaxPlaintextSize then (kPtLength, None)
          else if inp ! 0 \<noteq> kHistoryReceiptSchema then (kPtSchema, None)
          else if inp ! 1 \<noteq> kHistoryReceiptScopeBackendDurable then (kPtScope, None)
          else if inp ! 3 \<noteq> 0 then (kPtReserved, None)
          else let count = inp ! 2; expected_size = backendDurableReceiptPlaintextSize count in
          if expected_size = 0 then (kPtCount, None)
          else if length inp \<noteq> expected_size then (kPtLength, None)
          else case receipt_read inp (unat count) 0 0 (replicate kHistoryReceiptMaxIdentities 0) of
                 (kPtOk, ids) \<Rightarrow> (kPtOk, Some \<lparr>rc_count = count, rc_identities = ids\<rparr>)
               | (st, _) \<Rightarrow> (st, None))"

section \<open>Codec lemmas\<close>

lemmas hsec_sizes = kHistorySecureHeaderSize_def kHistorySecureTagSize_def
  kHistoryObservationPlaintextSize_def kHistoryReceiptFixedPlaintextSize_def
  kHistoryReceiptMaxIdentities_def kHistoryReceiptMaxPlaintextSize_def
  kHistorySecureMaxCiphertextSize_def kHistoryReceiptMinPacketSize_def
  kHistorySecureMinPacketSize_def kHistorySecureMaxPacketSize_def
lemmas hsec_tags = kHistorySecureProtocolVersion_def kPacketTypeHistorySecure_def
  kHistoryObservationSchema_def kHistoryReceiptSchema_def kHistoryReceiptScopeBackendDurable_def

text \<open>The values a decoder can return: arrays of the declared size, zero beyond what is used.\<close>

definition packet_canonical :: "HistorySecurePacket \<Rightarrow> bool" where
  "packet_canonical p \<longleftrightarrow>
     length (sp_tag p) = 8 \<and>
     sp_ciphertext p = slice 0 (unat (sp_ciphertext_len p)) (sp_ciphertext p) @
                       replicate (52 - unat (sp_ciphertext_len p)) 0 \<and>
     length (sp_ciphertext p) = 52"

definition receipt_canonical :: "BackendDurableReceiptPlaintext \<Rightarrow> bool" where
  "receipt_canonical r \<longleftrightarrow>
     rc_identities r = take (unat (rc_count r)) (rc_identities r) @ replicate (6 - unat (rc_count r)) 0 \<and>
     length (rc_identities r) = 6"

subsection \<open>Observation\<close>

lemma observation_roundtrip:
  assumes "serializeHistoryObservationPlaintext ob (Some o0) = Some out"
  shows "deserializeHistoryObservationPlaintext (Some out) = (kPtOk, Some ob) \<and> length out = length o0"
proof -
  from assms have l: "length o0 = 29" and ok: "observationValid ob"
    by (auto simp: serializeHistoryObservationPlaintext_def hsec_sizes split: if_splits)
  show ?thesis
    using assms ok l
    by (auto simp: serializeHistoryObservationPlaintext_def deserializeHistoryObservationPlaintext_def
        observationValid_def hsec_sizes hsec_tags be_simps buffer_simps split: if_splits)
qed

lemma observation_decoded:
  assumes "deserializeHistoryObservationPlaintext (Some inp) = (kPtOk, Some ob)"
  shows "length inp = 29 \<and> inp ! 0 = 1 \<and> observationValid ob \<and>
    ob = \<lparr>op_history_record_identity = be_val (slice 1 8 inp),
          op_gnss_utc_epoch_seconds = be_val (slice 9 4 inp), op_latitude_e7 = be_val (slice 13 4 inp),
          op_longitude_e7 = be_val (slice 17 4 inp), op_altitude_mm = be_val (slice 21 4 inp),
          op_hdop_x100 = be_val (slice 25 2 inp), op_satellites = inp ! 27, op_position_flags = inp ! 28\<rparr>"
proof -
  have l: "length inp = 29" "inp ! 0 = 1"
    using assms
    by (auto simp: deserializeHistoryObservationPlaintext_def hsec_sizes hsec_tags split: if_splits)
  show ?thesis
    using assms l
    by (auto simp: deserializeHistoryObservationPlaintext_def hsec_sizes hsec_tags Let_def be_simps
        observationValid_def split: if_splits)
qed

lemma observation_canonical:
  assumes dec: "deserializeHistoryObservationPlaintext (Some inp) = (kPtOk, Some ob)"
    and len: "length o0 = length inp"
  shows "serializeHistoryObservationPlaintext ob (Some o0) = Some inp"
proof -
  note d = observation_decoded [OF dec]
  obtain out where out: "serializeHistoryObservationPlaintext ob (Some o0) = Some out"
    using d len by (auto simp: serializeHistoryObservationPlaintext_def hsec_sizes Let_def)
  have "out = inp"
  proof (rule nth_equalityI)
    show "length out = length inp" using observation_roundtrip [OF out] len by simp
    fix i assume "i < length out"
    then have i: "i < 29" using observation_roundtrip [OF out] d len by simp
    show "out ! i = inp ! i"
    proof (cases "i = 0")
      case True
      then show ?thesis using out d len
        by (auto simp: serializeHistoryObservationPlaintext_def hsec_sizes hsec_tags be_simps
            buffer_simps Let_def split: if_splits)
    next
      case False
      show ?thesis
        using out d False i len
        by (auto simp: serializeHistoryObservationPlaintext_def hsec_sizes hsec_tags be_simps
            nth_list_update nth_write_at_slice split: if_splits)
    qed
  qed
  then show ?thesis using out by simp
qed

subsection \<open>Receipt\<close>

definition read_ids :: "bytes \<Rightarrow> nat \<Rightarrow> nat \<Rightarrow> u64 list" where
  "read_ids inp i n = map (\<lambda>j. be_val (slice (4 + 8 * j) 8 inp)) [i..<i + n]"

lemma length_read_ids [simp]: "length (read_ids inp i n) = n"
  by (simp add: read_ids_def)

lemma read_ids_Suc: "read_ids inp i (Suc n) = be_val (slice (4 + 8 * i) 8 inp) # read_ids inp (Suc i) n"
  by (simp add: read_ids_def upt_rec)

lemma receipt_read_eq:
  "4 + 8 * (i + n) \<le> length inp \<Longrightarrow> i + n \<le> length ids \<Longrightarrow>
   (receipt_loop (read_ids inp i n) i previous \<longrightarrow>
      receipt_read inp n i previous ids = (kPtOk, take i ids @ read_ids inp i n @ drop (i + n) ids)) \<and>
   (\<not> receipt_loop (read_ids inp i n) i previous \<longrightarrow> fst (receipt_read inp n i previous ids) \<noteq> kPtOk)"
proof (induction n arbitrary: i previous ids)
  case 0
  then show ?case by (simp add: read_ids_def)
next
  case (Suc n)
  let ?x = "be_val (slice (4 + 8 * i) 8 inp) :: u64"
  have rd: "readU64BigEndian inp (4 + 8 * i) = ?x" using Suc.prems by (simp add: readU64_eq)
  have ih: "(receipt_loop (read_ids inp (Suc i) n) (Suc i) ?x \<longrightarrow>
      receipt_read inp n (Suc i) ?x (ids[i := ?x]) =
        (kPtOk, take (Suc i) (ids[i := ?x]) @ read_ids inp (Suc i) n @ drop (Suc i + n) (ids[i := ?x]))) \<and>
   (\<not> receipt_loop (read_ids inp (Suc i) n) (Suc i) ?x \<longrightarrow>
      fst (receipt_read inp n (Suc i) ?x (ids[i := ?x])) \<noteq> kPtOk)"
    using Suc.prems by (intro Suc.IH) simp_all
  have "take (Suc i) (ids[i := ?x]) = take i ids @ [?x]"
    using Suc.prems by (simp add: take_Suc_conv_app_nth)
  with ih show ?case by (simp add: read_ids_Suc rd Let_def)
qed

lemma receipt_write:
  "4 + 8 * n \<le> length out \<Longrightarrow>
   (let w = fold (\<lambda>j out. writeU64BigEndian out (4 + 8 * j) (ids ! j)) [0..<n] out
    in length w = length out \<and> (\<forall>k < 4. w ! k = out ! k) \<and>
       (\<forall>j < n. slice (4 + 8 * j) 8 w = be_bytes 8 (ids ! j)))"
proof (induction n)
  case 0
  then show ?case by simp
next
  case (Suc n)
  then have ih: "let w = fold (\<lambda>j out. writeU64BigEndian out (4 + 8 * j) (ids ! j)) [0..<n] out
    in length w = length out \<and> (\<forall>k < 4. w ! k = out ! k) \<and>
       (\<forall>j < n. slice (4 + 8 * j) 8 w = be_bytes 8 (ids ! j))" by simp
  show ?case
    using ih Suc.prems
    by (auto simp: Let_def writeU64_eq buffer_simps less_Suc_eq)
qed

lemma read_ids_written:
  "4 + 8 * n \<le> length out \<Longrightarrow> n \<le> length ids \<Longrightarrow>
   read_ids (fold (\<lambda>j out. writeU64BigEndian out (4 + 8 * j) (ids ! j)) [0..<n] out) 0 n = take n ids"
  using receipt_write [of n out ids]
  by (intro nth_equalityI) (simp_all add: read_ids_def Let_def)

lemma receipt_size:
  "backendDurableReceiptPlaintextSize c \<noteq> 0 \<Longrightarrow>
   c \<noteq> 0 \<and> unat c \<le> 6 \<and> 1 \<le> unat c \<and> backendDurableReceiptPlaintextSize c = 4 + 8 * unat c"
  by (auto simp: backendDurableReceiptPlaintextSize_def hsec_sizes unat_eq_0 Suc_le_eq split: if_splits)
    (metis unat_eq_zero neq0_conv)

lemma receipt_roundtrip:
  assumes ser: "serializeBackendDurableReceiptPlaintext r (Some o0) = Some out"
    and can: "receipt_canonical r"
  shows "deserializeBackendDurableReceiptPlaintext (Some out) = (kPtOk, Some r) \<and> length out = length o0"
proof -
  let ?n = "unat (rc_count r)"
  from ser have "backendDurableReceiptPlaintextSize (rc_count r) \<noteq> 0"
    and l: "length o0 = backendDurableReceiptPlaintextSize (rc_count r)" and ok: "receiptValid r"
    by (auto simp: serializeBackendDurableReceiptPlaintext_def Let_def split: if_splits)
  note sz = receipt_size [OF this(1)]
  let ?o = "o0[0 := 1, 1 := 1, 2 := rc_count r, 3 := 0]"
  have out: "out = fold (\<lambda>j out. writeU64BigEndian out (4 + 8 * j) (rc_identities r ! j)) [0..<?n] ?o"
    using ser sz l ok by (simp add: serializeBackendDurableReceiptPlaintext_def hsec_tags Let_def)
  have l0: "length o0 = 4 + 8 * ?n" using l sz by simp
  have w: "length out = length o0" "\<forall>k < 4. out ! k = ?o ! k"
    using receipt_write [of ?n ?o "rc_identities r"] l0 unfolding out by (simp_all add: Let_def)
  have hdr: "out ! 0 = 1" "out ! 1 = 1" "out ! 2 = rc_count r" "out ! 3 = 0"
    using w(2) l0 sz by simp_all
  have rd: "read_ids out 0 ?n = take ?n (rc_identities r)"
    unfolding out using can sz l0 by (intro read_ids_written) (simp_all add: receipt_canonical_def)
  have loop: "receipt_loop (take ?n (rc_identities r)) 0 0"
    using ok by (simp add: receiptValid_def split: if_splits)
  have "receipt_read out ?n 0 0 (replicate 6 0) = (kPtOk, rc_identities r)"
    using receipt_read_eq [of 0 ?n out "replicate 6 0" 0] rd loop sz l0 w(1) can
    by (simp add: receipt_canonical_def)
  then show ?thesis
    using hdr w(1) l0 sz
    by (simp add: deserializeBackendDurableReceiptPlaintext_def hsec_sizes hsec_tags Let_def)
qed

lemma receipt_decoded:
  assumes "deserializeBackendDurableReceiptPlaintext (Some inp) = (kPtOk, Some r)"
  shows "inp ! 0 = 1 \<and> inp ! 1 = 1 \<and> inp ! 2 = rc_count r \<and> inp ! 3 = 0 \<and>
    length inp = 4 + 8 * unat (rc_count r) \<and> length inp = backendDurableReceiptPlaintextSize (rc_count r) \<and>
    receiptValid r \<and> receipt_canonical r \<and>
    take (unat (rc_count r)) (rc_identities r) = read_ids inp 0 (unat (rc_count r))"
proof -
  let ?n = "unat (inp ! 2)"
  let ?rd = "receipt_read inp ?n 0 0 (replicate 6 0)"
  from assms have hdr: "inp ! 0 = 1" "inp ! 1 = 1" "inp ! 3 = 0"
      "backendDurableReceiptPlaintextSize (inp ! 2) \<noteq> 0"
    and l: "length inp = backendDurableReceiptPlaintextSize (inp ! 2)"
    and rd: "?rd = (kPtOk, rc_identities r)" and c: "rc_count r = inp ! 2"
    by (auto simp: deserializeBackendDurableReceiptPlaintext_def hsec_sizes hsec_tags Let_def
        split: if_splits HistoryPlaintextDecodeStatus.splits prod.splits)
  note sz = receipt_size [OF hdr(4)]
  have l': "length inp = 4 + 8 * ?n" using l sz by simp
  have loop: "receipt_loop (read_ids inp 0 ?n) 0 0"
    by (rule ccontr) (use receipt_read_eq [of 0 ?n inp "replicate 6 0" 0] rd sz l' in simp)
  then have ids: "rc_identities r = read_ids inp 0 ?n @ replicate (6 - ?n) 0"
    using receipt_read_eq [of 0 ?n inp "replicate 6 0" 0] rd sz l' by simp
  have "receiptValid r" using loop sz c by (simp add: receiptValid_def ids hsec_sizes)
  moreover have "receipt_canonical r" using sz c by (simp add: receipt_canonical_def ids)
  ultimately show ?thesis using hdr l l' c ids by simp
qed

lemma receipt_bytes:
  fixes a b :: bytes
  assumes "length a = 4 + 8 * n" "length b = 4 + 8 * n"
    and hdr: "\<And>k. k < 4 \<Longrightarrow> a ! k = b ! k"
    and ids: "\<And>j. j < n \<Longrightarrow> slice (4 + 8 * j) 8 a = slice (4 + 8 * j) 8 b"
  shows "a = b"
proof (rule nth_equalityI)
  show "length a = length b" using assms by simp
  fix k assume k: "k < length a"
  show "a ! k = b ! k"
  proof (cases "k < 4")
    case False
    let ?j = "(k - 4) div 8" and ?m = "(k - 4) mod 8"
    have j: "?j < n" "4 + 8 * ?j + ?m = k" "?m < 8" using False k assms(1) by auto
    have eq: "slice (4 + 8 * ?j) 8 a ! ?m = slice (4 + 8 * ?j) 8 b ! ?m" by (simp only: ids [OF j(1)])
    have "slice (4 + 8 * ?j) 8 a ! ?m = a ! (4 + 8 * ?j + ?m)"
      "slice (4 + 8 * ?j) 8 b ! ?m = b ! (4 + 8 * ?j + ?m)"
      using j(1,3) assms(1,2) by (intro nth_slice; linarith)+
    with eq show ?thesis by (simp only: j(2))
  qed (rule hdr)
qed

lemma receipt_reencoded:
  assumes dec: "deserializeBackendDurableReceiptPlaintext (Some inp) = (kPtOk, Some r)"
    and len: "length o0 = length inp"
  shows "serializeBackendDurableReceiptPlaintext r (Some o0) = Some inp"
proof -
  note d = receipt_decoded [OF dec]
  let ?n = "unat (rc_count r)" and ?o = "o0[0 := 1, 1 := 1, 2 := rc_count r, 3 := 0]"
  let ?w = "fold (\<lambda>j out. writeU64BigEndian out (4 + 8 * j) (rc_identities r ! j)) [0..<?n] ?o"
  have sz: "backendDurableReceiptPlaintextSize (rc_count r) \<noteq> 0" using d by auto
  have w: "length ?w = length o0" "\<And>k. k < 4 \<Longrightarrow> ?w ! k = ?o ! k"
    "\<And>j. j < ?n \<Longrightarrow> slice (4 + 8 * j) 8 ?w = be_bytes 8 (rc_identities r ! j)"
    using receipt_write [of ?n ?o "rc_identities r"] d len by (simp_all add: Let_def)
  have "?w = inp"
  proof (rule receipt_bytes)
    show "length ?w = 4 + 8 * ?n" "length inp = 4 + 8 * ?n" using w(1) d len by simp_all
    show "?w ! k = inp ! k" if "k < 4" for k
    proof -
      have "k = 0 \<or> k = 1 \<or> k = 2 \<or> k = 3" using that by auto
      then show ?thesis using w(2) [OF that] d len by (auto simp: nth_list_update)
    qed
    show "slice (4 + 8 * j) 8 ?w = slice (4 + 8 * j) 8 inp" if j: "j < ?n" for j
    proof -
      have "rc_identities r ! j = take ?n (rc_identities r) ! j" using j by simp
      also have "\<dots> = be_val (slice (4 + 8 * j) 8 inp)" using d j by (simp add: read_ids_def)
      finally show ?thesis using w(3) [OF j] d j by simp
    qed
  qed
  then show ?thesis
    using d len sz by (simp add: serializeBackendDurableReceiptPlaintext_def hsec_tags Let_def)
qed

subsection \<open>Secure packet\<close>

lemma ciphertext_bounds:
  "ciphertextLengthValid f c \<Longrightarrow> 12 \<le> unat c \<and> unat c \<le> 52"
  by (auto simp: ciphertextLengthValid_def hsec_sizes split: if_splits)

definition packet_header :: "HistorySecurePacket \<Rightarrow> bytes \<Rightarrow> bytes" where
  "packet_header p o0 =
     write_at 28 (be_bytes 8 (sp_history_incarnation p)) (write_at 20 (be_bytes 8 (sp_security_counter p))
       (write_at 16 (be_bytes 4 (sp_key_epoch p)) (write_at 8 (be_bytes 8 (sp_device_id p))
         (o0[0 := 2, 1 := 3, 2 := sp_security_context p, 3 := sp_app_family p, 4 := sp_path_flags p,
             5 := sp_ciphertext_len p, 6 := 0, 7 := 0]))))"

lemma length_packet_header [simp]: "length (packet_header p o0) = length o0"
  by (simp add: packet_header_def)

lemma packet_serialized:
  assumes "serializeHistorySecurePacket p (Some o0) = Some out"
  shows "validateHistorySecurePacket p \<and> length o0 = 44 + unat (sp_ciphertext_len p) \<and>
    out = write_at (36 + unat (sp_ciphertext_len p)) (slice 0 8 (sp_tag p))
            (write_at 36 (slice 0 (unat (sp_ciphertext_len p)) (sp_ciphertext p)) (packet_header p o0))"
proof -
  have v: "validateHistorySecurePacket p \<and> length o0 = 44 + unat (sp_ciphertext_len p)"
    using assms by (auto simp: serializeHistorySecurePacket_def hsec_sizes Let_def split: if_splits)
  then show ?thesis
    using assms
    by (simp add: serializeHistorySecurePacket_def hsec_sizes hsec_tags packet_header_def be_simps Let_def)
qed

lemma packet_serializes:
  assumes "validateHistorySecurePacket p" "length o0 = 44 + unat (sp_ciphertext_len p)"
  shows "\<exists>out. serializeHistorySecurePacket p (Some o0) = Some out"
  using assms by (simp add: serializeHistorySecurePacket_def hsec_sizes Let_def)

lemma packet_roundtrip:
  assumes ser: "serializeHistorySecurePacket p (Some o0) = Some out" and can: "packet_canonical p"
  shows "deserializeHistorySecurePacket (Some out) = (kOk, Some p) \<and> length out = length o0"
proof -
  let ?n = "unat (sp_ciphertext_len p)"
  let ?c = "slice 0 ?n (sp_ciphertext p)" and ?t = "sp_tag p"
  note s = packet_serialized [OF ser]
  then have v: "validateHistorySecurePacket p" and l0: "length o0 = 44 + ?n" by auto
  have n: "12 \<le> ?n" "?n \<le> 52" using v ciphertext_bounds by (auto simp: validateHistorySecurePacket_def)
  have lc: "length ?c = ?n" and lt: "length ?t = 8" using can n by (simp_all add: packet_canonical_def)
  have out: "out = write_at (36 + ?n) ?t (write_at 36 ?c (packet_header p o0))"
    using s lt by (simp add: slice_full)
  have l: "length out = 44 + ?n" by (simp add: out l0)
  have hdr: "out ! 0 = 2" "out ! 1 = 3" "out ! 2 = sp_security_context p" "out ! 3 = sp_app_family p"
    "out ! 4 = sp_path_flags p" "out ! 5 = sp_ciphertext_len p" "out ! 6 = 0" "out ! 7 = 0"
    "slice 8 8 out = be_bytes 8 (sp_device_id p)" "slice 16 4 out = be_bytes 4 (sp_key_epoch p)"
    "slice 20 8 out = be_bytes 8 (sp_security_counter p)"
    "slice 28 8 out = be_bytes 8 (sp_history_incarnation p)"
    using l0 unfolding out packet_header_def by (simp_all add: buffer_simps)
  have ct: "slice 36 ?n out = ?c" "slice (36 + ?n) 8 out = ?t"
    using l0 lc lt unfolding out by (simp_all only: buffer_simps length_packet_header) 
  have "write_at 0 ?c (replicate 52 0) = sp_ciphertext p"
    using can lc n unfolding packet_canonical_def write_at_def by simp
  then show ?thesis
    using l n v l0 hdr ct
    by (simp add: deserializeHistorySecurePacket_def hsec_sizes hsec_tags Let_def readU32_eq readU64_eq
        validateHistorySecurePacket_def)
qed

lemma packet_decoded:
  assumes "deserializeHistorySecurePacket (Some inp) = (kOk, Some p)"
  shows "length inp = 44 + unat (sp_ciphertext_len p) \<and> inp ! 0 = 2 \<and> inp ! 1 = 3 \<and> inp ! 6 = 0 \<and> inp ! 7 = 0 \<and>
    validateHistorySecurePacket p \<and>
    p = \<lparr>sp_security_context = inp ! 2, sp_app_family = inp ! 3, sp_path_flags = inp ! 4,
         sp_ciphertext_len = inp ! 5, sp_device_id = be_val (slice 8 8 inp),
         sp_key_epoch = be_val (slice 16 4 inp), sp_security_counter = be_val (slice 20 8 inp),
         sp_history_incarnation = be_val (slice 28 8 inp),
         sp_ciphertext = write_at 0 (slice 36 (unat (inp ! 5)) inp) (replicate 52 0),
         sp_tag = slice (36 + unat (inp ! 5)) 8 inp\<rparr>"
proof -
  have l: "length inp = 44 + unat (inp ! 5)" "52 \<le> length inp"
    using assms by (auto simp: deserializeHistorySecurePacket_def hsec_sizes Let_def split: if_splits)
  then have rd: "readU32BigEndian inp 16 = be_val (slice 16 4 inp)"
    "readU64BigEndian inp 8 = be_val (slice 8 8 inp)" "readU64BigEndian inp 20 = be_val (slice 20 8 inp)"
    "readU64BigEndian inp 28 = be_val (slice 28 8 inp)"
    by (simp_all add: readU32_eq readU64_eq)
  show ?thesis
    using assms l
    by (auto simp: deserializeHistorySecurePacket_def hsec_sizes hsec_tags Let_def rd
        validateHistorySecurePacket_def split: if_splits)
qed

lemma packet_reencoded:
  assumes dec: "deserializeHistorySecurePacket (Some inp) = (kOk, Some p)" and len: "length o0 = length inp"
  shows "serializeHistorySecurePacket p (Some o0) = Some inp \<and> packet_canonical p"
proof -
  note d = packet_decoded [OF dec]
  let ?n = "unat (inp ! 5)"
  from d have l: "length inp = 44 + ?n" and v: "validateHistorySecurePacket p" and cl: "sp_ciphertext_len p = inp ! 5"
    and p: "p = \<lparr>sp_security_context = inp ! 2, sp_app_family = inp ! 3, sp_path_flags = inp ! 4,
         sp_ciphertext_len = inp ! 5, sp_device_id = be_val (slice 8 8 inp),
         sp_key_epoch = be_val (slice 16 4 inp), sp_security_counter = be_val (slice 20 8 inp),
         sp_history_incarnation = be_val (slice 28 8 inp),
         sp_ciphertext = write_at 0 (slice 36 ?n inp) (replicate 52 0),
         sp_tag = slice (36 + ?n) 8 inp\<rparr>" by auto
  have n: "12 \<le> ?n" "?n \<le> 52"
    using v ciphertext_bounds [of "sp_app_family p" "sp_ciphertext_len p"] cl
    by (auto simp: validateHistorySecurePacket_def)
  have ct: "sp_ciphertext p = slice 36 ?n inp @ replicate (52 - ?n) 0" "sp_tag p = slice (36 + ?n) 8 inp"
    using n l by (simp_all add: p write_at_def)
  have can: "packet_canonical p" using ct l n by (simp add: packet_canonical_def cl slice_append_left slice_full)
  obtain out where ser: "serializeHistorySecurePacket p (Some o0) = Some out"
    using packet_serializes [OF v] len l cl by auto
  have out: "out = write_at (36 + ?n) (slice (36 + ?n) 8 inp) (write_at 36 (slice 36 ?n inp) (packet_header p o0))"
    using packet_serialized [OF ser] ct l n by (simp add: cl slice_append_left slice_full)
  have "out = inp"
  proof (rule nth_equalityI)
    show "length out = length inp" using out len by simp
    fix i assume "i < length out"
    then have i: "i < 44 + ?n" using out len l by simp
    have o_i: "out ! i = (if i < 36 then packet_header p o0 ! i else inp ! i)"
      using i l len unfolding out by (auto simp: nth_write_at_slice)
    show "out ! i = inp ! i"
    proof (cases "i < 36")
      case True
      have "packet_header p o0 ! i = inp ! i"
      proof (cases "i < 8")
        case True
        then have "i = 0 \<or> i = 1 \<or> i = 2 \<or> i = 3 \<or> i = 4 \<or> i = 5 \<or> i = 6 \<or> i = 7" by linarith
        then show ?thesis
          using l len d n unfolding packet_header_def p
          by (elim disjE) (simp_all add: nth_write_at_before nth_list_update)
      next
        case False
        then show ?thesis
          using True l len d n unfolding packet_header_def p
          by (auto simp: be_simps nth_write_at_slice nth_list_update)
      qed
      then show ?thesis using o_i True by simp
    qed (use o_i in simp)
  qed
  then show ?thesis using ser can by simp
qed

section \<open>Exactness\<close>

text \<open>
  The three codecs of the authenticated history are exact.  A received buffer decodes to a
  value exactly when serializing that value into a buffer of the same length, whatever it held,
  reproduces the received bytes; the decoded arrays are zero beyond what is used.  So every
  accepted packet, observation and receipt has exactly one encoding, and no two byte strings
  stand for the same one.
\<close>

theorem history_codecs_exact:
  "(deserializeHistorySecurePacket (Some inp) = (kOk, Some p) \<and> length o0 = length inp \<longleftrightarrow>
      serializeHistorySecurePacket p (Some o0) = Some inp \<and> packet_canonical p) \<and>
   (deserializeHistoryObservationPlaintext (Some inp) = (kPtOk, Some ob) \<and> length o0 = length inp \<longleftrightarrow>
      serializeHistoryObservationPlaintext ob (Some o0) = Some inp) \<and>
   (deserializeBackendDurableReceiptPlaintext (Some inp) = (kPtOk, Some r) \<and> length o0 = length inp \<longleftrightarrow>
      serializeBackendDurableReceiptPlaintext r (Some o0) = Some inp \<and> receipt_canonical r)"
  using packet_roundtrip packet_reencoded observation_roundtrip observation_canonical
    receipt_roundtrip receipt_reencoded receipt_decoded by metis

end
