(* ===== verification/Observation_Format.thy ===== *)
theory Observation_Format
  imports Journal_Format
begin

text \<open>
  \<open>firmware/include/observation_store_format.h\<close> and \<open>firmware/src/observation_store_format.cpp\<close>:
  page headers, product records and control records of the observation store, and the classifier of
  what a power cut may have left of each.  An inspection of a null pointer or a wrong size returns the
  default inspection; the encoders return the buffer they filled, or nothing when they refuse.
\<close>

section \<open>Geometry\<close>

definition ob_kPageMagic :: u32 where "ob_kPageMagic = 0x4F425331"
definition ob_kVersion :: u16 where "ob_kVersion = 1"
definition kPageHeaderSize :: nat where "kPageHeaderSize = 64"
definition kDataRecordSize :: nat where "kDataRecordSize = 96"
definition kDataPayloadSize :: nat where "kDataPayloadSize = 64"
definition kProductSchemaV1 :: u8 where "kProductSchemaV1 = 1"
definition kControlRecordSize :: nat where "kControlRecordSize = 144"
definition kControlPayloadSize :: nat where "kControlPayloadSize = 116"
definition kDataRecordsPerPage :: nat where
  "kDataRecordsPerPage = (4096 - kPageHeaderSize) div kDataRecordSize"
definition kControlRecordsPerPage :: nat where
  "kControlRecordsPerPage = (4096 - kPageHeaderSize) div kControlRecordSize"

definition kPageStaticCrcOffset :: nat where "kPageStaticCrcOffset = 44"
definition kPageHeaderCommitOffset :: nat where "kPageHeaderCommitOffset = 48"
definition kPageHeaderActiveOffset :: nat where "kPageHeaderActiveOffset = 52"
definition kControlIntentOffset :: nat where "kControlIntentOffset = 56"
definition kControlIntentRetiredOffset :: nat where "kControlIntentRetiredOffset = 60"
definition kDataRecordCrcOffset :: nat where "kDataRecordCrcOffset = 80"
definition kDataRecordCommitOffset :: nat where "kDataRecordCommitOffset = 84"
definition kDataRecordRelease0Offset :: nat where "kDataRecordRelease0Offset = 88"
definition kDataRecordRelease1Offset :: nat where "kDataRecordRelease1Offset = 92"
definition kControlRecordCrcOffset :: nat where "kControlRecordCrcOffset = 128"
definition kControlRecordCommitOffset :: nat where "kControlRecordCommitOffset = 132"
definition kControlRecordClear0Offset :: nat where "kControlRecordClear0Offset = 136"
definition kControlRecordClear1Offset :: nat where "kControlRecordClear1Offset = 140"

definition ob_kCommit :: u32 where "ob_kCommit = 0"
definition kActive :: u32 where "kActive = 0"
definition kReleased :: u32 where "kReleased = 0"
definition kCleared :: u32 where "kCleared = 0"

lemmas ob_sizes = kPageHeaderSize_def kDataRecordSize_def kDataPayloadSize_def kControlRecordSize_def
  kControlPayloadSize_def kPageStaticCrcOffset_def kPageHeaderCommitOffset_def kPageHeaderActiveOffset_def
  kControlIntentOffset_def kControlIntentRetiredOffset_def kDataRecordCrcOffset_def kDataRecordCommitOffset_def
  kDataRecordRelease0Offset_def kDataRecordRelease1Offset_def kControlRecordCrcOffset_def
  kControlRecordCommitOffset_def kControlRecordClear0Offset_def kControlRecordClear1Offset_def
  ob_kCommit_def kActive_def kReleased_def kCleared_def

section \<open>Kinds and evidence\<close>

datatype PageKind = kData | kControl

datatype PageEvidence = kErased | kPrepared | kPageActive | kStaged | kPartialCommit | kPartialActivation
  | kCorrupt | kUnsupported

record PageInspection =
  pi_evidence :: PageEvidence
  pi_kind :: PageKind
  pi_generation :: u64
  pi_device_id :: u64
  pi_incarnation :: u64
  pi_control_intent_present :: bool
  pi_control_intent_retired :: bool

record RecordIdentity =
  ri_incarnation :: u64
  ri_sequence :: u32

definition ri_valid :: "RecordIdentity \<Rightarrow> bool" where
  "ri_valid r \<longleftrightarrow> ri_incarnation r \<noteq> 0 \<and> ri_sequence r \<noteq> 0"

datatype RecordKind = kPeriodic | kEvent | kResult

datatype RecordEvidence = kRecordErased | kRetained | kRecordReleased | kRecordStaged | kRecordPartialCommit
  | kRecordCorrupt

record RecordInspection =
  rin_evidence :: RecordEvidence
  rin_release_uncertain :: bool
  rin_next_release_slot :: u8
  rin_kind :: RecordKind
  rin_schema :: u8
  rin_payload_size :: u8
  rin_incarnation :: u64
  rin_sequence :: u32
  rin_payload :: bytes

datatype ControlKind = kExactObject | kOpenOccurrence | kResultGuard | kStoreState

datatype ControlEvidence = kControlErased | kControlActive | kControlCleared | kControlStaged
  | kControlPartialCommit | kControlCorrupt

record ControlInspection =
  ci_evidence :: ControlEvidence
  ci_clear_uncertain :: bool
  ci_next_clear_slot :: u8
  ci_kind :: ControlKind
  ci_schema :: u8
  ci_payload_size :: u16
  ci_serial :: u64
  ci_payload :: bytes

text \<open>The numbers of the enumerators, and the casts back that follow a successful check.\<close>

fun page_kind_code :: "PageKind \<Rightarrow> u8" where
  "page_kind_code kData = 1"
| "page_kind_code kControl = 2"

fun record_kind_code :: "RecordKind \<Rightarrow> u8" where
  "record_kind_code kPeriodic = 1"
| "record_kind_code kEvent = 2"
| "record_kind_code kResult = 3"

fun control_kind_code :: "ControlKind \<Rightarrow> u8" where
  "control_kind_code kExactObject = 1"
| "control_kind_code kOpenOccurrence = 2"
| "control_kind_code kResultGuard = 3"
| "control_kind_code kStoreState = 4"

definition page_kind_of :: "u8 \<Rightarrow> PageKind" where
  "page_kind_of v = (if v = 1 then kData else kControl)"
definition record_kind_of :: "u8 \<Rightarrow> RecordKind" where
  "record_kind_of v = (if v = 1 then kPeriodic else if v = 2 then kEvent else kResult)"
definition control_kind_of :: "u8 \<Rightarrow> ControlKind" where
  "control_kind_of v =
     (if v = 1 then kExactObject else if v = 2 then kOpenOccurrence else if v = 3 then kResultGuard else kStoreState)"

definition validPageKind :: "u8 \<Rightarrow> bool" where
  "validPageKind v \<longleftrightarrow> v = page_kind_code kData \<or> v = page_kind_code kControl"
definition validRecordKind :: "u8 \<Rightarrow> bool" where
  "validRecordKind v \<longleftrightarrow> v = record_kind_code kPeriodic \<or> v = record_kind_code kEvent \<or> v = record_kind_code kResult"
definition validControlKind :: "u8 \<Rightarrow> bool" where
  "validControlKind v \<longleftrightarrow> v = control_kind_code kExactObject \<or> v = control_kind_code kOpenOccurrence \<or>
     v = control_kind_code kResultGuard \<or> v = control_kind_code kStoreState"

fun expectedPayloadSizeV1 :: "RecordKind \<Rightarrow> nat" where
  "expectedPayloadSizeV1 kPeriodic = 64"
| "expectedPayloadSizeV1 kEvent = 48"
| "expectedPayloadSizeV1 kResult = 32"

definition slotSizeFor :: "PageKind \<Rightarrow> u16" where
  "slotSizeFor k = (if k = kData then of_nat kDataRecordSize else of_nat kControlRecordSize)"
definition slotCountFor :: "PageKind \<Rightarrow> u16" where
  "slotCountFor k = (if k = kData then of_nat kDataRecordsPerPage else of_nat kControlRecordsPerPage)"

section \<open>Byte order\<close>

definition ob_put16 :: "bytes \<Rightarrow> nat \<Rightarrow> u16 \<Rightarrow> bytes" where
  "ob_put16 p off v = p[off := ucast (drop_bit 8 v), off + 1 := ucast v]"
definition ob_put32 :: "bytes \<Rightarrow> nat \<Rightarrow> u32 \<Rightarrow> bytes" where
  "ob_put32 p off v = p[off := ucast (drop_bit 24 v), off + 1 := ucast (drop_bit 16 v),
     off + 2 := ucast (drop_bit 8 v), off + 3 := ucast v]"
definition ob_put64 :: "bytes \<Rightarrow> nat \<Rightarrow> u64 \<Rightarrow> bytes" where
  "ob_put64 p off v = fold (\<lambda>i p. p[off + i := ucast (drop_bit (56 - 8 * i) v)]) [0..<8] p"
definition ob_get16 :: "bytes \<Rightarrow> nat \<Rightarrow> u16" where
  "ob_get16 p off = push_bit 8 (ucast (p ! off)) OR ucast (p ! (off + 1))"
definition ob_get32 :: "bytes \<Rightarrow> nat \<Rightarrow> u32" where
  "ob_get32 p off = push_bit 24 (ucast (p ! off)) OR push_bit 16 (ucast (p ! (off + 1))) OR
     push_bit 8 (ucast (p ! (off + 2))) OR ucast (p ! (off + 3))"
definition ob_get64 :: "bytes \<Rightarrow> nat \<Rightarrow> u64" where
  "ob_get64 p off = fold (\<lambda>i v. push_bit 8 v OR ucast (p ! (off + i))) [0..<8] 0"
definition ob_crc32 :: "bytes \<Rightarrow> nat \<Rightarrow> u32" where
  "ob_crc32 data n = crc32Ieee (take n data)"
definition ob_erased :: "bytes \<Rightarrow> nat \<Rightarrow> bool" where
  "ob_erased data n \<longleftrightarrow> list_all (\<lambda>i. data ! i = 0xFF) [0..<n]"

lemma ob_put16_eq [be_simps]: "off + 2 \<le> length p \<Longrightarrow> ob_put16 p off v = write_at off (be_bytes 2 v) p"
  by (simp only: ob_put16_def be_bytes_2 update2_eq_write_at)

lemma ob_put32_eq [be_simps]: "off + 4 \<le> length p \<Longrightarrow> ob_put32 p off v = write_at off (be_bytes 4 v) p"
  by (simp only: ob_put32_def be_bytes_4 update4_eq_write_at)

lemma ob_put64_eq [be_simps]: "off + 8 \<le> length p \<Longrightarrow> ob_put64 p off v = write_at off (be_bytes 8 v) p"
  using fold_update_eq_write_at [of off 8 p "\<lambda>i. ucast (drop_bit (56 - 8 * i) v)"]
  by (simp add: ob_put64_def be_bytes_def diff_mult_distrib2 right_diff_distrib')

lemma ob_get16_eq [be_simps]: "off + 2 \<le> length p \<Longrightarrow> ob_get16 p off = be_val (slice off 2 p)"
  by (simp only: ob_get16_def slice_2 be_val_2)

lemma ob_get32_eq [be_simps]: "off + 4 \<le> length p \<Longrightarrow> ob_get32 p off = be_val (slice off 4 p)"
  by (simp only: ob_get32_def slice_4 be_val_4)

lemma ob_get64_eq [be_simps]: "off + 8 \<le> length p \<Longrightarrow> ob_get64 p off = be_val (slice off 8 p)"
  unfolding ob_get64_def be_val_def by (rule fold_slice)

section \<open>Page headers\<close>

definition encodePageHeader :: "PageKind \<Rightarrow> u64 \<Rightarrow> u64 \<Rightarrow> u64 \<Rightarrow> bytes \<Rightarrow> bytes" where
  "encodePageHeader kind generation device_id incarnation bytes =
     (let b = memset bytes 0 0xFF kPageHeaderSize;
          b = ob_put32 b 0 ob_kPageMagic;
          b = ob_put16 b 4 ob_kVersion;
          b = ob_put16 b 6 (NOT ob_kVersion);
          b = ob_put64 b 8 generation;
          b = ob_put64 b 16 device_id;
          b = ob_put64 b 24 incarnation;
          b = b[32 := page_kind_code kind];
          b = b[35 := 0, 34 := 0, 33 := 0];
          b = ob_put16 b 36 (of_nat kPageHeaderSize);
          b = ob_put16 b 38 (slotSizeFor kind);
          b = ob_put16 b 40 (slotCountFor kind);
          b = ob_put16 b 42 0;
          b = ob_put32 b kPageStaticCrcOffset (ob_crc32 b kPageStaticCrcOffset)
      in ob_put32 b kPageHeaderCommitOffset ob_kCommit)"

definition PageInspection_init :: PageInspection where
  "PageInspection_init = \<lparr>pi_evidence = kCorrupt, pi_kind = kData, pi_generation = 0, pi_device_id = 0,
     pi_incarnation = 0, pi_control_intent_present = False, pi_control_intent_retired = False\<rparr>"

text \<open>The identity fields and the activation word, read once the rest of the header was accepted.\<close>

definition page_identity :: "bytes \<Rightarrow> PageKind \<Rightarrow> PageInspection \<Rightarrow> PageInspection" where
  "page_identity b kind i =
     (let i = i\<lparr>pi_kind := kind, pi_generation := ob_get64 b 8, pi_device_id := ob_get64 b 16,
                pi_incarnation := ob_get64 b 24\<rparr> in
      if pi_generation i = 0 \<or> pi_device_id i = 0 \<or> pi_incarnation i = 0 then i\<lparr>pi_evidence := kCorrupt\<rparr>
      else
        let active = ob_get32 b kPageHeaderActiveOffset in
        if active = 0xFFFFFFFF then i\<lparr>pi_evidence := kPrepared\<rparr>
        else if active = kActive then i\<lparr>pi_evidence := kPageActive\<rparr>
        else i\<lparr>pi_evidence := kPartialActivation\<rparr>)"

definition page_intent :: "bytes \<Rightarrow> PageKind \<Rightarrow> PageInspection \<Rightarrow> PageInspection" where
  "page_intent b kind i =
     (if kind = kControl then
        let intent = ob_get32 b kControlIntentOffset; retired = ob_get32 b kControlIntentRetiredOffset in
        if intent = 0xFFFFFFFF \<and> retired = 0xFFFFFFFF then page_identity b kind i
        else if intent \<noteq> 0xFFFFFFFF then
          page_identity b kind
            (i\<lparr>pi_control_intent_present := True, pi_control_intent_retired := retired \<noteq> 0xFFFFFFFF\<rparr>)
        else i\<lparr>pi_evidence := kCorrupt\<rparr>
      else if list_all (\<lambda>k. b ! k = 0xFF) [kControlIntentOffset..<kPageHeaderSize]
      then page_identity b kind i
      else i\<lparr>pi_evidence := kCorrupt\<rparr>)"

definition inspectPageHeader :: "bytes option \<Rightarrow> bool \<times> PageInspection" where
  "inspectPageHeader bytes =
     (let i = PageInspection_init in
      case bytes of None \<Rightarrow> (False, i)
      | Some b \<Rightarrow>
        if length b \<noteq> kPageHeaderSize then (False, i)
        else if ob_erased b (length b) then (True, i\<lparr>pi_evidence := kErased\<rparr>)
        else
          let commit = ob_get32 b kPageHeaderCommitOffset in
          if commit = 0xFFFFFFFF then (True, i\<lparr>pi_evidence := kStaged\<rparr>)
          else if commit \<noteq> ob_kCommit then (True, i\<lparr>pi_evidence := kPartialCommit\<rparr>)
          else if ob_get32 b 0 \<noteq> ob_kPageMagic then (True, i\<lparr>pi_evidence := kCorrupt\<rparr>)
          else
            let version = ob_get16 b 4 in
            if ob_get16 b 6 \<noteq> NOT version then (True, i\<lparr>pi_evidence := kCorrupt\<rparr>)
            else if version \<noteq> ob_kVersion then (True, i\<lparr>pi_evidence := kUnsupported\<rparr>)
            else if \<not> validPageKind (b ! 32) then (True, i\<lparr>pi_evidence := kCorrupt\<rparr>)
            else
              let kind = page_kind_of (b ! 32) in
              if b ! 33 \<noteq> 0 \<or> b ! 34 \<noteq> 0 \<or> b ! 35 \<noteq> 0 \<or> ob_get16 b 36 \<noteq> of_nat kPageHeaderSize \<or>
                 ob_get16 b 38 \<noteq> slotSizeFor kind \<or> ob_get16 b 40 \<noteq> slotCountFor kind \<or> ob_get16 b 42 \<noteq> 0 \<or>
                 ob_get32 b kPageStaticCrcOffset \<noteq> ob_crc32 b kPageStaticCrcOffset
              then (True, i\<lparr>pi_evidence := kCorrupt\<rparr>)
              else (True, page_intent b kind i))"

section \<open>Product records\<close>

definition encodeRecord :: "RecordKind \<Rightarrow> u8 \<Rightarrow> u64 \<Rightarrow> u32 \<Rightarrow> bytes option \<Rightarrow> nat \<Rightarrow> bytes option \<Rightarrow> bytes option" where
  "encodeRecord kind schema incarnation sequence payload payload_size bytes =
     (case bytes of None \<Rightarrow> None
      | Some b \<Rightarrow>
        if \<not> validRecordKind (record_kind_code kind) \<or> schema = 0 \<or> incarnation = 0 \<or> sequence = 0 \<or>
           payload_size > kDataPayloadSize \<or> payload_size \<noteq> 0 \<and> payload = None then None
        else if schema = kProductSchemaV1 \<and> payload_size \<noteq> expectedPayloadSizeV1 kind then None
        else
          let b = memset b 0 0 kDataRecordSize;
              b = b[0 := record_kind_code kind];
              b = b[1 := schema];
              b = b[2 := of_nat payload_size];
              b = b[3 := 0];
              b = ob_put64 b 4 incarnation;
              b = ob_put32 b 12 sequence;
              b = (if payload_size \<noteq> 0 then write_at 16 (take payload_size (the payload)) b else b);
              b = ob_put32 b kDataRecordCrcOffset (ob_crc32 b kDataRecordCrcOffset);
              b = ob_put32 b kDataRecordCommitOffset ob_kCommit
          in Some (memset b kDataRecordRelease0Offset 0xFF 8))"

definition RecordInspection_init :: RecordInspection where
  "RecordInspection_init = \<lparr>rin_evidence = kRecordCorrupt, rin_release_uncertain = False,
     rin_next_release_slot = 0xFF, rin_kind = kPeriodic, rin_schema = 0, rin_payload_size = 0,
     rin_incarnation = 0, rin_sequence = 0, rin_payload = replicate kDataPayloadSize 0\<rparr>"

text \<open>The two release words, read once the record was accepted.\<close>

definition record_release :: "bytes \<Rightarrow> RecordInspection \<Rightarrow> RecordInspection" where
  "record_release b i =
     (let release0 = ob_get32 b kDataRecordRelease0Offset;
          release1 = ob_get32 b kDataRecordRelease1Offset in
      if release0 = kReleased \<or> release1 = kReleased then i\<lparr>rin_evidence := kRecordReleased\<rparr>
      else
        let i = i\<lparr>rin_evidence := kRetained,
                  rin_release_uncertain := release0 \<noteq> 0xFFFFFFFF \<or> release1 \<noteq> 0xFFFFFFFF\<rparr> in
        if release0 = 0xFFFFFFFF then i\<lparr>rin_next_release_slot := 0\<rparr>
        else if release1 = 0xFFFFFFFF then i\<lparr>rin_next_release_slot := 1\<rparr>
        else i)"

definition inspectRecord :: "bytes option \<Rightarrow> bool \<times> RecordInspection" where
  "inspectRecord bytes =
     (let i = RecordInspection_init in
      case bytes of None \<Rightarrow> (False, i)
      | Some b \<Rightarrow>
        if length b \<noteq> kDataRecordSize then (False, i)
        else if ob_erased b (length b) then (True, i\<lparr>rin_evidence := kRecordErased\<rparr>)
        else
          let commit = ob_get32 b kDataRecordCommitOffset in
          if commit = 0xFFFFFFFF then (True, i\<lparr>rin_evidence := kRecordStaged\<rparr>)
          else if commit \<noteq> ob_kCommit then (True, i\<lparr>rin_evidence := kRecordPartialCommit\<rparr>)
          else if \<not> validRecordKind (b ! 0) \<or> b ! 1 = 0 \<or> unat (b ! 2) > kDataPayloadSize \<or> b ! 3 \<noteq> 0 \<or>
              ob_get64 b 4 = 0 \<or> ob_get32 b 12 = 0 \<or>
              ob_get32 b kDataRecordCrcOffset \<noteq> ob_crc32 b kDataRecordCrcOffset
          then (True, i\<lparr>rin_evidence := kRecordCorrupt\<rparr>)
          else
            let kind = record_kind_of (b ! 0); schema = b ! 1; payload_size = b ! 2 in
            if schema = kProductSchemaV1 \<and> unat payload_size \<noteq> expectedPayloadSizeV1 kind
            then (True, i\<lparr>rin_evidence := kRecordCorrupt\<rparr>)
            else if \<not> list_all (\<lambda>k. b ! k = 0) [16 + unat payload_size..<kDataRecordCrcOffset]
            then (True, i\<lparr>rin_evidence := kRecordCorrupt\<rparr>)
            else (True, record_release b
                    (i\<lparr>rin_kind := kind, rin_schema := schema, rin_payload_size := payload_size,
                       rin_incarnation := ob_get64 b 4, rin_sequence := ob_get32 b 12,
                       rin_payload := slice 16 kDataPayloadSize b\<rparr>)))"

section \<open>Control records\<close>

definition encodeControl :: "ControlKind \<Rightarrow> u8 \<Rightarrow> u64 \<Rightarrow> bytes option \<Rightarrow> nat \<Rightarrow> bytes option \<Rightarrow> bytes option" where
  "encodeControl kind schema serial payload payload_size bytes =
     (case bytes of None \<Rightarrow> None
      | Some b \<Rightarrow>
        if \<not> validControlKind (control_kind_code kind) \<or> schema = 0 \<or> serial = 0 \<or>
           payload_size > kControlPayloadSize \<or> payload_size \<noteq> 0 \<and> payload = None then None
        else
          let b = memset b 0 0 kControlRecordSize;
              b = b[0 := control_kind_code kind];
              b = b[1 := schema];
              b = ob_put16 b 2 (of_nat payload_size);
              b = ob_put64 b 4 serial;
              b = (if payload_size \<noteq> 0 then write_at 12 (take payload_size (the payload)) b else b);
              b = ob_put32 b kControlRecordCrcOffset (ob_crc32 b kControlRecordCrcOffset);
              b = ob_put32 b kControlRecordCommitOffset ob_kCommit
          in Some (memset b kControlRecordClear0Offset 0xFF 8))"

definition ControlInspection_init :: ControlInspection where
  "ControlInspection_init = \<lparr>ci_evidence = kControlCorrupt, ci_clear_uncertain = False,
     ci_next_clear_slot = 0xFF, ci_kind = kExactObject, ci_schema = 0, ci_payload_size = 0,
     ci_serial = 0, ci_payload = replicate kControlPayloadSize 0\<rparr>"

definition control_clear :: "bytes \<Rightarrow> ControlInspection \<Rightarrow> ControlInspection" where
  "control_clear b i =
     (let clear0 = ob_get32 b kControlRecordClear0Offset;
          clear1 = ob_get32 b kControlRecordClear1Offset in
      if clear0 = kCleared \<or> clear1 = kCleared then i\<lparr>ci_evidence := kControlCleared\<rparr>
      else
        let i = i\<lparr>ci_evidence := kControlActive,
                  ci_clear_uncertain := clear0 \<noteq> 0xFFFFFFFF \<or> clear1 \<noteq> 0xFFFFFFFF\<rparr> in
        if clear0 = 0xFFFFFFFF then i\<lparr>ci_next_clear_slot := 0\<rparr>
        else if clear1 = 0xFFFFFFFF then i\<lparr>ci_next_clear_slot := 1\<rparr>
        else i)"

definition inspectControl :: "bytes option \<Rightarrow> bool \<times> ControlInspection" where
  "inspectControl bytes =
     (let i = ControlInspection_init in
      case bytes of None \<Rightarrow> (False, i)
      | Some b \<Rightarrow>
        if length b \<noteq> kControlRecordSize then (False, i)
        else if ob_erased b (length b) then (True, i\<lparr>ci_evidence := kControlErased\<rparr>)
        else
          let commit = ob_get32 b kControlRecordCommitOffset in
          if commit = 0xFFFFFFFF then (True, i\<lparr>ci_evidence := kControlStaged\<rparr>)
          else if commit \<noteq> ob_kCommit then (True, i\<lparr>ci_evidence := kControlPartialCommit\<rparr>)
          else
            let payload_size = ob_get16 b 2 in
            if \<not> validControlKind (b ! 0) \<or> b ! 1 = 0 \<or> unat payload_size > kControlPayloadSize \<or>
               ob_get64 b 4 = 0 \<or> ob_get32 b kControlRecordCrcOffset \<noteq> ob_crc32 b kControlRecordCrcOffset
            then (True, i\<lparr>ci_evidence := kControlCorrupt\<rparr>)
            else if \<not> list_all (\<lambda>k. b ! k = 0) [12 + unat payload_size..<kControlRecordCrcOffset]
            then (True, i\<lparr>ci_evidence := kControlCorrupt\<rparr>)
            else (True, control_clear b
                    (i\<lparr>ci_kind := control_kind_of (b ! 0), ci_schema := b ! 1, ci_payload_size := payload_size,
                       ci_serial := ob_get64 b 4, ci_payload := slice 12 kControlPayloadSize b\<rparr>)))"

section \<open>Accepted product records\<close>

lemma kind_codes [simp]:
  "page_kind_of (page_kind_code pk) = pk" "record_kind_of (record_kind_code rk) = rk"
  "control_kind_of (control_kind_code ck) = ck" "validPageKind (page_kind_code pk)"
  "validRecordKind (record_kind_code rk)" "validControlKind (control_kind_code ck)"
  by (cases pk; cases rk; cases ck;
      simp add: page_kind_of_def record_kind_of_def control_kind_of_def validPageKind_def validRecordKind_def
        validControlKind_def)+

lemma kind_code_of [simp]:
  "validRecordKind v \<Longrightarrow> record_kind_code (record_kind_of v) = v"
  "validControlKind v \<Longrightarrow> control_kind_code (control_kind_of v) = v"
  by (auto simp: record_kind_of_def control_kind_of_def validRecordKind_def validControlKind_def)

definition record_ok :: "bytes \<Rightarrow> bool" where
  "record_ok b \<longleftrightarrow> sealed b 80 84 \<and> validRecordKind (b ! 0) \<and> b ! 1 \<noteq> 0 \<and> unat (b ! 2) \<le> 64 \<and> b ! 3 = 0 \<and>
     ob_get64 b 4 \<noteq> 0 \<and> ob_get32 b 12 \<noteq> 0 \<and>
     (b ! 1 = 1 \<longrightarrow> unat (b ! 2) = expectedPayloadSizeV1 (record_kind_of (b ! 0))) \<and>
     list_all (\<lambda>k. b ! k = 0) [16 + unat (b ! 2)..<80]"

definition record_fields :: "bytes \<Rightarrow> RecordInspection" where
  "record_fields b = RecordInspection_init\<lparr>rin_kind := record_kind_of (b ! 0), rin_schema := b ! 1,
     rin_payload_size := b ! 2, rin_incarnation := ob_get64 b 4, rin_sequence := ob_get32 b 12,
     rin_payload := slice 16 64 b\<rparr>"

definition record_committed :: "RecordInspection \<Rightarrow> bool" where
  "record_committed i \<longleftrightarrow> rin_evidence i = kRetained \<or> rin_evidence i = kRecordReleased"

lemma erased_word: "ob_erased b n \<Longrightarrow> off + 4 \<le> n \<Longrightarrow> n \<le> length b \<Longrightarrow> ob_get32 b off = 0xFFFFFFFF"
  by (simp add: ob_erased_def list_all_iff ob_get32_def)

lemma sealed_words:
  "c + 8 \<le> length b \<Longrightarrow> sealed b c (c + 4) \<longleftrightarrow> ob_get32 b (c + 4) = 0 \<and> ob_get32 b c = crc32Ieee (take c b)"
  by (simp add: sealed_def be_simps kCommit_def crc32_tables_agree)

lemma inspect_ok:
  assumes "length b = 96" "record_ok b"
  shows "inspectRecord (Some b) = (True, record_release b (record_fields b))"
proof -
  have s: "ob_get32 b 84 = 0" "ob_get32 b 80 = crc32Ieee (take 80 b)"
    using assms sealed_words [of 80 b] by (simp_all add: record_ok_def)
  have "\<not> ob_erased b (length b)" using erased_word [of b 96 84] assms(1) s(1) by auto
  then show ?thesis
    using assms s
    by (auto simp: inspectRecord_def record_ok_def record_fields_def ob_sizes kProductSchemaV1_def ob_crc32_def Let_def not_less)
qed

lemma inspect_not_ok:
  assumes "length b = 96" "\<not> record_ok b"
  shows "fst (inspectRecord (Some b))" "\<not> record_committed (snd (inspectRecord (Some b)))"
proof -
  have s: "sealed b 80 84 \<longleftrightarrow> ob_get32 b 84 = 0 \<and> ob_get32 b 80 = crc32Ieee (take 80 b)"
    using assms sealed_words [of 80 b] by simp
  show "fst (inspectRecord (Some b))" using assms(1) by (simp add: inspectRecord_def ob_sizes Let_def)
  show "\<not> record_committed (snd (inspectRecord (Some b)))"
    using assms
    by (auto simp: inspectRecord_def record_ok_def s record_committed_def ob_sizes kProductSchemaV1_def ob_crc32_def
        Let_def RecordInspection_init_def not_less split: if_splits)
qed

lemma release_committed: "record_committed (record_release b i)"
  by (simp add: record_release_def record_committed_def Let_def)

lemma committed_iff:
  "length b = 96 \<Longrightarrow> record_committed (snd (inspectRecord (Some b))) \<longleftrightarrow> record_ok b"
  using inspect_ok inspect_not_ok release_committed by (cases "record_ok b") auto

section \<open>Written product records\<close>

lemma list_update_write: "i < length p \<Longrightarrow> p[i := v] = write_at i [v] p"
  by (rule nth_equalityI) (auto simp: nth_write_at nth_list_update)

definition record_bytes :: "RecordKind \<Rightarrow> u8 \<Rightarrow> u64 \<Rightarrow> u32 \<Rightarrow> bytes \<Rightarrow> bytes" where
  "record_bytes kind schema inc sq pl =
     (let body = [record_kind_code kind, schema, of_nat (length pl), 0] @ be_bytes 8 inc @ be_bytes 4 sq @ pl @
            replicate (64 - length pl) 0
      in body @ be_bytes 4 (crc32Ieee body) @ be_bytes 4 (0 :: u32))"

lemma write_next:
  "off = length xs \<Longrightarrow> length ys \<le> length zs \<Longrightarrow> write_at off ys (xs @ zs) = (xs @ ys) @ drop (length ys) zs"
  by (simp add: write_at_def)

lemma put_next:
  "off = length xs \<Longrightarrow> 4 \<le> length zs \<Longrightarrow> ob_put32 (xs @ zs) off v = (xs @ be_bytes 4 v) @ drop 4 zs"
  "off = length xs \<Longrightarrow> 8 \<le> length zs \<Longrightarrow> ob_put64 (xs @ zs) off w = (xs @ be_bytes 8 w) @ drop 8 zs"
  "off = length xs \<Longrightarrow> 2 \<le> length zs \<Longrightarrow> ob_put16 (xs @ zs) off u = (xs @ be_bytes 2 u) @ drop 2 zs"
  by (simp_all add: ob_put32_eq ob_put64_eq ob_put16_eq write_next)

lemma encode_record_bytes:
  assumes "length p = 96" "length pl \<le> 64" "length pl = n" "pl = take n (the q)"
  shows "(let b = memset p 0 0 96; b = b[0 := record_kind_code kind]; b = b[1 := schema]; b = b[2 := of_nat n];
      b = b[3 := 0]; b = ob_put64 b 4 inc; b = ob_put32 b 12 sq;
      b = (if n \<noteq> 0 then write_at 16 (take n (the q)) b else b);
      b = ob_put32 b 80 (ob_crc32 b 80); b = ob_put32 b 84 0 in memset b 88 0xFF 8) =
    record_bytes kind schema inc sq pl @ replicate 8 0xFF"
proof -
  have m: "memset p 0 0 96 = replicate 96 0" using assms(1) by (simp add: memset_def write_at_full)
  let ?h = "[record_kind_code kind, schema, of_nat n, 0]"
  have h: "(replicate 96 0)[0 := record_kind_code kind, 1 := schema, 2 := of_nat n, 3 := 0] = ?h @ replicate 92 0"
    by (simp add: numeral_eq_Suc)
  have b1: "ob_put64 (?h @ replicate 92 0) 4 inc = (?h @ be_bytes 8 inc) @ replicate 84 0"
    by (subst put_next) simp_all
  have b2: "ob_put32 ((?h @ be_bytes 8 inc) @ replicate 84 0) 12 sq = (?h @ be_bytes 8 inc @ be_bytes 4 sq) @ replicate 80 0"
    by (subst put_next) simp_all
  have b3: "(if n \<noteq> 0 then write_at 16 (take n (the q)) ((?h @ be_bytes 8 inc @ be_bytes 4 sq) @ replicate 80 0)
      else (?h @ be_bytes 8 inc @ be_bytes 4 sq) @ replicate 80 0) =
      (?h @ be_bytes 8 inc @ be_bytes 4 sq @ pl @ replicate (64 - n) 0) @ replicate 16 0"
  proof -
    have w: "write_at 16 pl ((?h @ be_bytes 8 inc @ be_bytes 4 sq) @ replicate 80 0) =
      (?h @ be_bytes 8 inc @ be_bytes 4 sq @ pl) @ replicate (80 - n) 0"
      using assms by (subst write_next) simp_all
    have r: "replicate (80 - n) (0 :: u8) = replicate (64 - n) 0 @ replicate 16 0"
      using assms(2,3) by (simp flip: replicate_add)
    have r0: "replicate 80 (0 :: u8) = replicate 64 0 @ replicate 16 0" by (simp flip: replicate_add)
    show ?thesis using w assms(3,4) r0 by (auto simp: r)
  qed
  define body where "body = ?h @ be_bytes 8 inc @ be_bytes 4 sq @ pl @ replicate (64 - n) 0"
  have lb: "length body = 80" using assms(2,3) by (simp add: body_def)
  have b4: "ob_put32 (body @ replicate 16 0) 80 (ob_crc32 (body @ replicate 16 0) 80) =
      (body @ be_bytes 4 (crc32Ieee body)) @ replicate 12 0"
    using lb by (subst put_next) (simp_all add: ob_crc32_def)
  have b5: "ob_put32 ((body @ be_bytes 4 (crc32Ieee body)) @ replicate 12 0) 84 0 =
      (body @ be_bytes 4 (crc32Ieee body) @ be_bytes 4 (0 :: u32)) @ replicate 8 0"
    using lb by (subst put_next) simp_all
  have b6: "memset ((body @ be_bytes 4 (crc32Ieee body) @ be_bytes 4 (0 :: u32)) @ replicate 8 0) 88 0xFF 8 =
      (body @ be_bytes 4 (crc32Ieee body) @ be_bytes 4 (0 :: u32)) @ replicate 8 0xFF"
    unfolding memset_def using lb by (subst write_next) simp_all
  have r: "record_bytes kind schema inc sq pl = body @ be_bytes 4 (crc32Ieee body) @ be_bytes 4 (0 :: u32)"
    by (simp only: record_bytes_def body_def Let_def assms(3))
  show ?thesis unfolding Let_def m h b1 b2 b3 body_def [symmetric] b4 b5 b6 r ..
qed

definition payload_fits :: "bytes option \<Rightarrow> nat \<Rightarrow> bool" where
  "payload_fits pl n \<longleftrightarrow> (\<forall>q. pl = Some q \<longrightarrow> n \<le> length q)"

lemma encodeRecord_eq:
  assumes "length p = 96" "payload_fits pl n"
  shows "encodeRecord kind schema inc sq pl n (Some p) =
    (if schema \<noteq> 0 \<and> inc \<noteq> 0 \<and> sq \<noteq> 0 \<and> n \<le> 64 \<and> (n = 0 \<or> pl \<noteq> None) \<and> (schema = 1 \<longrightarrow> n = expectedPayloadSizeV1 kind)
     then Some (record_bytes kind schema inc sq (take n (the pl)) @ replicate 8 0xFF) else None)"
    (is "_ = (if ?c then _ else _)")
proof (cases ?c)
  case True
  then have l: "length (take n (the pl)) = n" using assms(2) by (cases pl) (auto simp: payload_fits_def)
  have e: "encodeRecord kind schema inc sq pl n (Some p) =
    Some (let b = memset p 0 0 96; b = b[0 := record_kind_code kind]; b = b[1 := schema]; b = b[2 := of_nat n];
      b = b[3 := 0]; b = ob_put64 b 4 inc; b = ob_put32 b 12 sq;
      b = (if n \<noteq> 0 then write_at 16 (take n (the pl)) b else b);
      b = ob_put32 b 80 (ob_crc32 b 80); b = ob_put32 b 84 0 in memset b 88 0xFF 8)"
    using True unfolding encodeRecord_def ob_sizes kProductSchemaV1_def Let_def by simp
  show ?thesis unfolding e using True encode_record_bytes [OF assms(1) _ l refl] l by simp
next
  case False
  then show ?thesis by (auto simp: encodeRecord_def ob_sizes kProductSchemaV1_def)
qed

lemma length_product_bytes: "length pl \<le> 64 \<Longrightarrow> length (record_bytes kind schema inc sq pl) = 88"
  by (simp add: record_bytes_def Let_def)

lemma record_bytes_ok:
  assumes "schema \<noteq> 0" "inc \<noteq> 0" "sq \<noteq> 0" "length pl \<le> 64" "schema = 1 \<longrightarrow> length pl = expectedPayloadSizeV1 kind"
    and b: "b = record_bytes kind schema inc sq pl @ w" "length w = 8"
  shows "record_ok b"
    "record_fields b = RecordInspection_init\<lparr>rin_kind := kind, rin_schema := schema,
       rin_payload_size := of_nat (length pl), rin_incarnation := inc, rin_sequence := sq,
       rin_payload := pl @ replicate (64 - length pl) 0\<rparr>"
proof -
  define h where "h = [record_kind_code kind, schema, of_nat (length pl), 0]"
  define z where "z = (replicate (64 - length pl) 0 :: bytes)"
  define body where "body = h @ be_bytes 8 inc @ be_bytes 4 sq @ pl @ z"
  have lh: "length h = 4" "length (pl @ z) = 64" using assms(4) by (simp_all add: h_def z_def)
  have lb: "length body = 80" using lh by (simp add: body_def)
  have be: "b = body @ be_bytes 4 (crc32Ieee body) @ be_bytes 4 (0 :: u32) @ w"
    unfolding b record_bytes_def Let_def h_def [symmetric] z_def [symmetric] body_def by simp
  have len: "length b = 96" using lb b(2) by (simp add: be)
  have tb: "take 80 b = body" using lb by (simp add: be)
  have crc: "slice 80 4 b = be_bytes 4 (crc32Ieee body)" "slice 84 4 b = be_bytes 4 (0 :: u32)"
    using lb by (simp_all add: be slice_def)
  have s: "sealed b 80 84"
    using sealed_words [of 80 b] len by (simp add: ob_get32_eq crc tb)
  have f: "slice 4 8 b = be_bytes 8 inc" "slice 12 4 b = be_bytes 4 sq" "slice 16 64 b = pl @ z"
    using lh by (simp_all add: be slice_def body_def)
  have n: "b ! 0 = record_kind_code kind" "b ! 1 = schema" "b ! 2 = of_nat (length pl)" "b ! 3 = 0"
    by (simp_all add: be body_def h_def)
  have us: "unat (of_nat (expectedPayloadSizeV1 kind) :: u8) = expectedPayloadSizeV1 kind" by (cases kind) simp_all
  have u: "unat (of_nat (length pl) :: u8) = length pl" using assms(4) by (simp add: unat_of_nat)
  have zero: "b ! k = 0" if "16 + length pl \<le> k" "k < 80" for k
  proof -
    have "b ! k = slice 16 64 b ! (k - 16)" using that len by simp
    also have "\<dots> = z ! (k - 16 - length pl)" unfolding f using that by (simp add: nth_append leD)
    also have "\<dots> = 0" using that assms(4) by (simp add: z_def)
    finally show ?thesis .
  qed
  have g: "ob_get64 b 4 = inc" "ob_get32 b 12 = sq" using len by (simp_all add: ob_get64_eq ob_get32_eq f)
  show "record_ok b"
    using assms(1-5) zero us by (simp add: record_ok_def s n g u list_all_iff del: One_nat_def)
  show "record_fields b = RecordInspection_init\<lparr>rin_kind := kind, rin_schema := schema,
       rin_payload_size := of_nat (length pl), rin_incarnation := inc, rin_sequence := sq,
       rin_payload := pl @ replicate (64 - length pl) 0\<rparr>"
    by (simp add: record_fields_def n g f z_def del: One_nat_def)
qed

lemma zero_tail:
  "list_all (\<lambda>k. b ! k = 0) [o'..<e] \<Longrightarrow> e \<le> length b \<Longrightarrow> o' + m = e \<Longrightarrow> slice o' m b = replicate m 0"
  by (rule nth_equalityI) (auto simp: list_all_iff)

text \<open>An accepted record slot is the encoding of what it decodes to.\<close>

lemma record_ok_bytes:
  assumes "length b = 96" "record_ok b"
  shows "take 88 b = record_bytes (record_kind_of (b ! 0)) (b ! 1) (ob_get64 b 4) (ob_get32 b 12) (slice 16 (unat (b ! 2)) b)"
proof -
  let ?n = "unat (b ! 2)"
  have n: "?n \<le> 64" "validRecordKind (b ! 0)" "b ! 3 = 0" using assms(2) by (simp_all add: record_ok_def)
  have h: "slice 0 4 b = [record_kind_code (record_kind_of (b ! 0)), b ! 1, of_nat ?n, 0]"
    using n assms(1) by (simp add: slice_4 numeral_2_eq_2 numeral_3_eq_3)
  have z: "slice (16 + ?n) (64 - ?n) b = replicate (64 - ?n) 0"
    by (rule zero_tail [where e = 80]) (use assms n(1) in \<open>simp_all add: record_ok_def\<close>)
  have pl: "slice 16 ?n b @ slice (16 + ?n) (64 - ?n) b = slice 16 64 b"
    using n(1) slice_join [of 16 ?n b "64 - ?n"] by simp
  have "take 80 b = slice 0 4 b @ slice 4 8 b @ slice 12 4 b @ slice 16 64 b"
    using slice_join [of 0 4 b 8] slice_join [of 0 12 b 4] slice_join [of 0 16 b 64]
    by (simp add: take_slice flip: append_assoc)
  then have body: "take 80 b = slice 0 4 b @ slice 4 8 b @ slice 12 4 b @ slice 16 ?n b @ slice (16 + ?n) (64 - ?n) b"
    unfolding pl .
  have t: "take 88 b = take 80 b @ slice 80 4 b @ slice 84 4 b"
    using slice_join [of 0 80 b 4] slice_join [of 0 84 b 4] by (simp add: take_slice flip: append_assoc)
  have s: "ob_get32 b 84 = 0" "ob_get32 b 80 = crc32Ieee (take 80 b)"
    using assms sealed_words [of 80 b] by (simp_all add: record_ok_def)
  have w: "slice 80 4 b = be_bytes 4 (ob_get32 b 80)" "slice 84 4 b = be_bytes 4 (ob_get32 b 84)"
    "slice 4 8 b = be_bytes 8 (ob_get64 b 4)" "slice 12 4 b = be_bytes 4 (ob_get32 b 12)"
    using assms(1) by (simp_all add: ob_get32_eq ob_get64_eq)
  have l: "length (slice 16 ?n b) = ?n" using assms(1) n(1) by simp
  have "take 80 b = [record_kind_code (record_kind_of (b ! 0)), b ! 1, of_nat ?n, 0] @ be_bytes 8 (ob_get64 b 4) @
      be_bytes 4 (ob_get32 b 12) @ slice 16 ?n b @ replicate (64 - ?n) 0"
    unfolding body h z w(3,4) ..
  then show ?thesis unfolding record_bytes_def Let_def l t w(1,2) s by simp
qed

lemma encoded_record:
  assumes "length p = 96" "payload_fits pl n" "encodeRecord kind schema inc sq pl n (Some p) = Some b"
  shows "length b = 96" "record_ok b" "drop 88 b = replicate 8 0xFF"
    "record_fields b = RecordInspection_init\<lparr>rin_kind := kind, rin_schema := schema,
       rin_payload_size := of_nat n, rin_incarnation := inc, rin_sequence := sq,
       rin_payload := take n (the pl) @ replicate (64 - n) 0\<rparr>"
proof -
  let ?pl = "take n (the pl)"
  have c: "schema \<noteq> 0" "inc \<noteq> 0" "sq \<noteq> 0" "n \<le> 64" "n = 0 \<or> pl \<noteq> None" "schema = 1 \<longrightarrow> n = expectedPayloadSizeV1 kind"
    and b: "b = record_bytes kind schema inc sq ?pl @ replicate 8 0xFF"
    using assms(3) encodeRecord_eq [OF assms(1,2)] by (auto split: if_splits)
  have l: "length ?pl = n" using c(5) assms(2) by (cases pl) (auto simp: payload_fits_def)
  have lr: "length (record_bytes kind schema inc sq ?pl) = 88" using l c(4) length_product_bytes by metis
  show "length b = 96" "drop 88 b = replicate 8 0xFF" by (simp_all add: b lr)
  have c': "length ?pl \<le> 64" "schema = 1 \<longrightarrow> length ?pl = expectedPayloadSizeV1 kind"
    unfolding l using c by blast+
  show "record_ok b" by (rule record_bytes_ok(1) [OF c(1-3) c' b]) simp
  show "record_fields b = RecordInspection_init\<lparr>rin_kind := kind, rin_schema := schema,
       rin_payload_size := of_nat n, rin_incarnation := inc, rin_sequence := sq,
       rin_payload := ?pl @ replicate (64 - n) 0\<rparr>"
    using record_bytes_ok(2) [OF c(1-3) c' b] unfolding l by simp
qed

lemma free_word: "slice off 4 b = replicate 4 0xFF \<Longrightarrow> off + 4 \<le> length b \<Longrightarrow> ob_get32 b off = 0xFFFFFFFF"
  using be_val_erased4 by (simp add: ob_get32_eq numeral_eq_Suc)

lemma free_words:
  assumes "length b = n + 8" "drop n b = replicate 8 0xFF"
  shows "ob_get32 b n = 0xFFFFFFFF" "ob_get32 b (n + 4) = 0xFFFFFFFF"
proof -
  have "slice n 4 b = replicate 4 0xFF" by (simp add: slice_def assms)
  moreover have "drop (n + 4) b = drop 4 (drop n b)" by (simp add: add.commute)
  then have "slice (n + 4) 4 b = replicate 4 0xFF" by (simp add: slice_def assms)
  ultimately show "ob_get32 b n = 0xFFFFFFFF" "ob_get32 b (n + 4) = 0xFFFFFFFF"
    using assms(1) by (simp_all add: free_word)
qed

lemma reencoded_record:
  assumes "length p = 96" "length b = 96" "record_ok b"
  shows "\<exists>e. encodeRecord (record_kind_of (b ! 0)) (b ! 1) (ob_get64 b 4) (ob_get32 b 12) (Some (slice 16 64 b))
    (unat (b ! 2)) (Some p) = Some e \<and> take 88 e = take 88 b"
proof -
  let ?n = "unat (b ! 2)"
  have n: "?n \<le> 64" "b ! 1 \<noteq> 0" "ob_get64 b 4 \<noteq> 0" "ob_get32 b 12 \<noteq> 0"
    "b ! 1 = 1 \<longrightarrow> ?n = expectedPayloadSizeV1 (record_kind_of (b ! 0))"
    using assms(3) unfolding record_ok_def by blast+
  have fits: "payload_fits (Some (slice 16 64 b)) ?n" using n(1) assms(2) by (simp add: payload_fits_def)
  have t: "take ?n (slice 16 64 b) = slice 16 ?n b" using n(1) by (simp add: slice_def min_def)
  let ?r = "record_bytes (record_kind_of (b ! 0)) (b ! 1) (ob_get64 b 4) (ob_get32 b 12) (slice 16 ?n b)"
  have "length (slice 16 ?n b) \<le> 64" using n(1) by simp
  then have "take 88 (?r @ replicate 8 0xFF) = take 88 b"
    using record_ok_bytes [OF assms(2,3)] length_product_bytes by simp
  moreover have "encodeRecord (record_kind_of (b ! 0)) (b ! 1) (ob_get64 b 4) (ob_get32 b 12) (Some (slice 16 64 b)) ?n (Some p) =
      Some (?r @ replicate 8 0xFF)"
    unfolding encodeRecord_eq [OF assms(1) fits] option.sel t using n by auto
  ultimately show ?thesis by blast
qed

lemma record_release_fields:
  "rin_kind (record_release b i) = rin_kind i" "rin_schema (record_release b i) = rin_schema i"
  "rin_payload_size (record_release b i) = rin_payload_size i" "rin_incarnation (record_release b i) = rin_incarnation i"
  "rin_sequence (record_release b i) = rin_sequence i" "rin_payload (record_release b i) = rin_payload i"
  by (simp_all add: record_release_def Let_def)

text \<open>
  The product record codec is exact.  An encoded record is read back as retained with its fields,
  zero-padded payload and both release words free; conversely every slot that reads as retained or
  released holds, up to its release words, the encoding of the fields it reads as.
\<close>
theorem observation_record_exact:
  assumes "length p = kDataRecordSize" and "payload_fits pl n" and "length b = kDataRecordSize"
  shows "(encodeRecord kind schema inc sq pl n (Some p) = Some b \<longrightarrow>
      inspectRecord (Some b) = (True,
        \<lparr>rin_evidence = kRetained, rin_release_uncertain = False, rin_next_release_slot = 0, rin_kind = kind,
         rin_schema = schema, rin_payload_size = of_nat n, rin_incarnation = inc, rin_sequence = sq,
         rin_payload = take n (the pl) @ replicate (64 - n) 0\<rparr>)) \<and>
    (\<forall>i. inspectRecord (Some b) = (True, i) \<and> (rin_evidence i = kRetained \<or> rin_evidence i = kRecordReleased) \<longrightarrow>
      (\<exists>e. encodeRecord (rin_kind i) (rin_schema i) (rin_incarnation i) (rin_sequence i) (Some (rin_payload i))
             (unat (rin_payload_size i)) (Some p) = Some e \<and> take 88 e = take 88 b))"
proof (intro conjI impI allI)
  have lp: "length p = 96" and lb: "length b = 96" using assms by (simp_all add: ob_sizes)
  {
    assume "encodeRecord kind schema inc sq pl n (Some p) = Some b"
    note e = encoded_record [OF lp assms(2) this]
    show "inspectRecord (Some b) = (True,
        \<lparr>rin_evidence = kRetained, rin_release_uncertain = False, rin_next_release_slot = 0, rin_kind = kind,
         rin_schema = schema, rin_payload_size = of_nat n, rin_incarnation = inc, rin_sequence = sq,
         rin_payload = take n (the pl) @ replicate (64 - n) 0\<rparr>)"
      using inspect_ok [OF e(1,2)] free_words [of b 88] e(1,3)
      by (simp add: e(4) record_release_def ob_sizes RecordInspection_init_def)
  next
    fix i assume i: "inspectRecord (Some b) = (True, i) \<and> (rin_evidence i = kRetained \<or> rin_evidence i = kRecordReleased)"
    then have ok: "record_ok b" using committed_iff [OF lb] by (simp add: record_committed_def)
    then have "i = record_release b (record_fields b)" using i inspect_ok [OF lb] by simp
    then show "\<exists>e. encodeRecord (rin_kind i) (rin_schema i) (rin_incarnation i) (rin_sequence i) (Some (rin_payload i))
             (unat (rin_payload_size i)) (Some p) = Some e \<and> take 88 e = take 88 b"
      using reencoded_record [OF lp lb ok] by (simp add: record_release_fields record_fields_def)
  }
qed

theorem observation_record_exact_witness:
  "\<exists>b. encodeRecord kResult 2 5 7 (Some [1, 2, 3]) 3 (Some (replicate 96 0)) = Some b \<and>
     inspectRecord (Some b) = (True,
        \<lparr>rin_evidence = kRetained, rin_release_uncertain = False, rin_next_release_slot = 0, rin_kind = kResult,
         rin_schema = 2, rin_payload_size = 3, rin_incarnation = 5, rin_sequence = 7,
         rin_payload = [1, 2, 3] @ replicate 61 0\<rparr>)"
proof -
  have fits: "payload_fits (Some [1, 2, 3]) 3" by (simp add: payload_fits_def)
  have lp: "length (replicate 96 (0 :: u8)) = 96" by simp
  obtain b where b: "encodeRecord kResult 2 5 7 (Some [1, 2, 3]) 3 (Some (replicate 96 0)) = Some b"
    using encodeRecord_eq [OF lp fits, of kResult 2 5 7] by simp
  then have "length b = kDataRecordSize" using encoded_record(1) [OF lp fits] by (simp add: ob_sizes)
  then show ?thesis
    using observation_record_exact [OF _ fits, of "replicate 96 0" b kResult 2 5 7] b by (simp add: ob_sizes)
qed

section \<open>Power cuts and releases\<close>

text \<open>
  A record is programmed word by word, body first and commit word last.  The slot a power cut leaves
  holds the first \<open>k\<close> words, one word the cut may have torn, and erased words behind it.
\<close>

definition torn_slot :: "nat \<Rightarrow> bytes \<Rightarrow> nat \<Rightarrow> u32 \<Rightarrow> bytes" where
  "torn_slot m e k w = take (4 * k) e @ be_bytes 4 w @ replicate (m - 4 - 4 * k) 0xFF"

lemma be_bytes_erased: "be_bytes 4 w = replicate 4 0xFF \<longleftrightarrow> w = UINT32_MAX"
proof -
  have "replicate 4 0xFF = [0xFF, 0xFF, 0xFF, 0xFF :: u8]" by (simp add: numeral_eq_Suc)
  then have "be_bytes 4 UINT32_MAX = replicate 4 0xFF" by (simp add: be_bytes_4)
  then show ?thesis using be_bytes_inj [of 4 w UINT32_MAX] by simp
qed

lemma length_torn_slot: "4 * k + 4 \<le> m \<Longrightarrow> length e = m \<Longrightarrow> length (torn_slot m e k w) = m"
  by (simp add: torn_slot_def)

lemma torn_commit:
  assumes "length e = c + 12" "4 * k \<le> c" "4 dvd c"
  shows "ob_get32 (torn_slot (c + 12) e k w) c = (if 4 * k = c then w else UINT32_MAX)"
proof (cases "4 * k = c")
  case True
  then have "slice c 4 (torn_slot (c + 12) e k w) = be_bytes 4 w"
    using assms(1) by (simp add: torn_slot_def slice_def)
  then show ?thesis using True assms length_torn_slot [of k "c + 12" e w] by (simp add: ob_get32_eq)
next
  case False
  then have k: "4 * k + 4 \<le> c" using assms by presburger
  then have "slice c 4 (torn_slot (c + 12) e k w) = replicate 4 0xFF"
    using assms(1) by (simp add: torn_slot_def slice_def min_def)
  then show ?thesis using False k assms length_torn_slot [of k "c + 12" e w] by (simp add: free_word)
qed

lemma torn_erased:
  assumes "length e = m" "4 * k + 4 \<le> m" "e ! 0 \<noteq> 0xFF"
  shows "ob_erased (torn_slot m e k w) m \<longleftrightarrow> k = 0 \<and> w = UINT32_MAX"
proof
  assume er: "ob_erased (torn_slot m e k w) m"
  then have all: "torn_slot m e k w ! i = 0xFF" if "i < m" for i
    using that by (simp add: ob_erased_def list_all_iff)
  have "k = 0"
  proof (rule ccontr)
    assume "k \<noteq> 0"
    then have "torn_slot m e k w ! 0 = e ! 0" using assms by (simp add: torn_slot_def nth_append)
    then show False using all [of 0] assms by simp
  qed
  moreover have "be_bytes 4 w = replicate 4 0xFF"
  proof (rule nth_equalityI)
    fix i assume i: "i < length (be_bytes 4 w)"
    then have "torn_slot m e 0 w ! i = be_bytes 4 w ! i" by (simp add: torn_slot_def nth_append)
    then show "be_bytes 4 w ! i = replicate 4 0xFF ! i" using all [of i] i assms(2) \<open>k = 0\<close> by simp
  qed simp
  ultimately show "k = 0 \<and> w = UINT32_MAX" using be_bytes_erased by blast
next
  assume k: "k = 0 \<and> w = UINT32_MAX"
  then have "torn_slot m e k w = replicate 4 0xFF @ replicate (m - 4) 0xFF"
    using be_bytes_erased [of w] by (simp add: torn_slot_def)
  then have "torn_slot m e k w = replicate m 0xFF"
    using assms(2) by (simp flip: replicate_add)
  then show "ob_erased (torn_slot m e k w) m" by (simp add: ob_erased_def list_all_iff)
qed

lemma torn_complete:
  assumes "length e = c + 12" "slice c 4 e = be_bytes 4 (0 :: u32)" "drop (c + 4) e = replicate 8 0xFF" "4 * k = c"
  shows "torn_slot (c + 12) e k 0 = e"
proof -
  have "e = take c e @ slice c 4 e @ drop (c + 4) e"
    by (metis append_take_drop_id drop_drop slice_def add.commute)
  then show ?thesis using assms by (simp add: torn_slot_def)
qed

lemma encoded_kind: "record_ok b \<Longrightarrow> b ! 0 \<noteq> 0xFF"
  by (auto simp: record_ok_def validRecordKind_def)

text \<open>
  C28: Commit-last for product records.  Whatever a power cut leaves of an append -- any number of
  complete words and one word torn to any value -- the slot reads as erased when nothing was
  programmed, as staged while the commit word is untouched, as a partial commit when that word is
  torn, and as retained exactly when it is complete; it is then the whole record.
\<close>
theorem observation_torn_append:
  assumes "encodeRecord kind schema inc sq pl n (Some p) = Some e"
    and "length p = kDataRecordSize" and "payload_fits pl n" and "k \<le> 21"
  shows "rin_evidence (snd (inspectRecord (Some (torn_slot kDataRecordSize e k w)))) =
      (if k = 0 \<and> w = UINT32_MAX then kRecordErased
       else if k < 21 \<or> w = UINT32_MAX then kRecordStaged
       else if w = 0 then kRetained else kRecordPartialCommit) \<and>
    (k = 21 \<and> w = 0 \<longrightarrow> torn_slot kDataRecordSize e k w = e)"
proof -
  have lp: "length p = 96" using assms(2) by (simp add: ob_sizes)
  note e = encoded_record [OF lp assms(3,1)]
  let ?t = "torn_slot 96 e k w"
  have lt: "length ?t = 96" using e(1) assms(4) by (simp add: length_torn_slot)
  have commit: "ob_get32 ?t 84 = (if k = 21 then w else UINT32_MAX)"
    using torn_commit [of e 84 k w] e(1) assms(4) by auto
  have erased: "ob_erased ?t 96 \<longleftrightarrow> k = 0 \<and> w = UINT32_MAX"
    using torn_erased [of e 96 k w] e(1) assms(4) encoded_kind [OF e(2)] by simp
  have c0: "slice 84 4 e = be_bytes 4 (0 :: u32)"
    using e(1,2) sealed_words [of 80 e] by (auto simp: record_ok_def ob_get32_eq be_val_inj [symmetric] dest: arg_cong [of _ _ "be_bytes 4"])
  have whole: "k = 21 \<and> w = 0 \<Longrightarrow> ?t = e"
    using torn_complete [of e 84 21] e(1,3) c0 by simp
  have kept: "rin_evidence (snd (inspectRecord (Some e))) = kRetained"
    using inspect_ok [OF e(1,2)] free_words [of e 88] e(1,3) by (simp add: record_release_def ob_sizes)
  have "rin_evidence (snd (inspectRecord (Some ?t))) =
      (if k = 0 \<and> w = UINT32_MAX then kRecordErased
       else if k < 21 \<or> w = UINT32_MAX then kRecordStaged
       else if w = 0 then kRetained else kRecordPartialCommit)"
  proof (cases "k = 21 \<and> w = 0")
    case True
    then show ?thesis using whole kept by simp
  next
    case False
    then show ?thesis using lt commit erased assms(4)
      by (auto simp: inspectRecord_def ob_sizes RecordInspection_init_def Let_def)
  qed
  then show ?thesis using whole by (simp add: ob_sizes)
qed

theorem observation_torn_append_witness:
  "\<exists>e. encodeRecord kResult 2 5 7 (Some [1, 2, 3]) 3 (Some (replicate 96 0)) = Some e \<and>
     rin_evidence (snd (inspectRecord (Some (torn_slot kDataRecordSize e 21 0x00FFFFFF)))) = kRecordPartialCommit"
proof -
  have fits: "payload_fits (Some [1, 2, 3]) 3" by (simp add: payload_fits_def)
  have lp: "length (replicate 96 (0 :: u8)) = 96" by simp
  obtain e where e: "encodeRecord kResult 2 5 7 (Some [1, 2, 3]) 3 (Some (replicate 96 0)) = Some e"
    using encodeRecord_eq [OF lp fits, of kResult 2 5 7] by simp
  then show ?thesis
    using observation_torn_append [OF e _ fits, of 21 "0x00FFFFFF"] by (simp add: ob_sizes)
qed

text \<open>Programming a flash word can only clear bits of it.\<close>

definition clear_bits :: "bytes \<Rightarrow> nat \<Rightarrow> u32 \<Rightarrow> bytes" where
  "clear_bits b off x = ob_put32 b off (ob_get32 b off AND x)"

lemma clear_bits_facts:
  assumes "off + 4 \<le> length b"
  shows "length (clear_bits b off x) = length b" "take off (clear_bits b off x) = take off b"
    "ob_get32 (clear_bits b off x) off = ob_get32 b off AND x"
    "off + 4 \<le> o' \<Longrightarrow> o' + 4 \<le> length b \<Longrightarrow> ob_get32 (clear_bits b off x) o' = ob_get32 b o'"
    "o' + 4 \<le> off \<Longrightarrow> ob_get32 (clear_bits b off x) o' = ob_get32 b o'"
  using assms by (simp_all add: clear_bits_def ob_put32_eq ob_get32_eq take_slice buffer_simps)

lemma record_ok_prefix:
  assumes "take 88 b' = take 88 b" "length b = 96" "length b' = 96"
  shows "record_ok b' = record_ok b" "record_fields b' = record_fields b"
proof -
  have nth: "b' ! i = b ! i" if "i < 88" for i using that assms(1) by (metis nth_take)
  have sl: "slice off m b' = slice off m b" if "off + m \<le> 88" for off m
    using that nth assms(2,3) by (intro nth_equalityI) auto
  have "take 80 b' = take 80 b" using sl [of 0 80] by (simp add: take_slice)
  then have s: "sealed b' 80 84 = sealed b 80 84"
    using sl [of 80 4] sl [of 84 4] assms(2,3) sealed_words [of 80 b] sealed_words [of 80 b'] by (simp add: ob_get32_eq)
  have l: "list_all (\<lambda>k. b' ! k = 0) [n..<80] = list_all (\<lambda>k. b ! k = 0) [n..<80]" for n
    using nth by (auto simp: list_all_iff)
  have g: "ob_get64 b' 4 = ob_get64 b 4" "ob_get32 b' 12 = ob_get32 b 12"
    using sl [of 4 8] sl [of 12 4] assms(2,3) by (simp_all add: ob_get64_eq ob_get32_eq)
  show "record_ok b' = record_ok b" unfolding record_ok_def s l g by (simp add: nth)
  show "record_fields b' = record_fields b" unfolding record_fields_def g by (simp add: nth sl)
qed

text \<open>
  C29: Releases are one-way and survive torn writes.  Programming the release words of a retained or
  released record in any way, which can only clear bits, keeps it retained or released with its kind,
  schema, payload size, incarnation, sequence and payload unchanged, never brings a released record
  back, and completing the word the inspection offered releases it.  The record reads as released
  exactly when one of the two words then is; while it is retained the words that are still erased are
  offered in order, and any other word marks the release as uncertain.
\<close>
theorem observation_release_one_way:
  assumes "length b = kDataRecordSize" and "inspectRecord (Some b) = (True, i)"
    and "rin_evidence i = kRetained \<or> rin_evidence i = kRecordReleased"
  shows "\<exists>i'. inspectRecord (Some (clear_bits (clear_bits b kDataRecordRelease0Offset x) kDataRecordRelease1Offset y)) = (True, i') \<and>
    (rin_evidence i' = kRetained \<or> rin_evidence i' = kRecordReleased) \<and>
    (rin_kind i', rin_schema i', rin_payload_size i', rin_incarnation i', rin_sequence i', rin_payload i') =
      (rin_kind i, rin_schema i, rin_payload_size i, rin_incarnation i, rin_sequence i, rin_payload i) \<and>
    (rin_evidence i = kRecordReleased \<longrightarrow> rin_evidence i' = kRecordReleased) \<and>
    (rin_next_release_slot i = 0 \<and> x = 0 \<or> rin_next_release_slot i = 1 \<and> y = 0 \<longrightarrow> rin_evidence i' = kRecordReleased) \<and>
    (let release0 = ob_get32 b kDataRecordRelease0Offset AND x; release1 = ob_get32 b kDataRecordRelease1Offset AND y in
     (rin_evidence i' = kRecordReleased \<longleftrightarrow> release0 = kReleased \<or> release1 = kReleased) \<and>
     (rin_evidence i' = kRetained \<longrightarrow>
        rin_release_uncertain i' = (release0 \<noteq> 0xFFFFFFFF \<or> release1 \<noteq> 0xFFFFFFFF) \<and>
        rin_next_release_slot i' = (if release0 = 0xFFFFFFFF then 0 else if release1 = 0xFFFFFFFF then 1 else 0xFF)))"
proof -
  have lb: "length b = 96" using assms(1) by (simp add: ob_sizes)
  have ok: "record_ok b" using committed_iff [OF lb] assms(2,3) by (simp add: record_committed_def)
  have i: "i = record_release b (record_fields b)" using inspect_ok [OF lb ok] assms(2) by simp
  define b' where "b' = clear_bits (clear_bits b 88 x) 92 y"
  note c = clear_bits_facts [of 88 b] clear_bits_facts [of 92 "clear_bits b 88 x"]
  have lb': "length b' = 96" using c lb by (simp add: b'_def)
  have "take 88 b' = take 88 (take 92 b')" by simp
  also have "take 92 b' = take 92 (clear_bits b 88 x)" using c lb by (simp add: b'_def)
  finally have t: "take 88 b' = take 88 b" using c(2) lb by (simp add: min_def)
  have w: "ob_get32 b' 88 = ob_get32 b 88 AND x" "ob_get32 b' 92 = ob_get32 b 92 AND y"
    using c lb by (simp_all add: b'_def)
  note ok' = record_ok_prefix [OF t lb lb']
  have insp: "inspectRecord (Some b') = (True, record_release b' (record_fields b))"
    using inspect_ok [OF lb'] ok ok' by simp
  have slot: "rin_next_release_slot (record_fields b) = 0xFF" by (simp add: record_fields_def RecordInspection_init_def)
  have "rin_evidence i = kRecordReleased \<longrightarrow> rin_evidence (record_release b' (record_fields b)) = kRecordReleased"
    "rin_next_release_slot i = 0 \<and> x = 0 \<or> rin_next_release_slot i = 1 \<and> y = 0 \<longrightarrow>
       rin_evidence (record_release b' (record_fields b)) = kRecordReleased"
    using slot by (auto simp: i record_release_def ob_sizes w Let_def)
  moreover have "let release0 = ob_get32 b 88 AND x; release1 = ob_get32 b 92 AND y;
      i' = record_release b' (record_fields b) in
     (rin_evidence i' = kRecordReleased \<longleftrightarrow> release0 = kReleased \<or> release1 = kReleased) \<and>
     (rin_evidence i' = kRetained \<longrightarrow>
        rin_release_uncertain i' = (release0 \<noteq> 0xFFFFFFFF \<or> release1 \<noteq> 0xFFFFFFFF) \<and>
        rin_next_release_slot i' = (if release0 = 0xFFFFFFFF then 0 else if release1 = 0xFFFFFFFF then 1 else 0xFF))"
    using slot w by (simp add: record_release_def ob_sizes Let_def)
  ultimately show ?thesis
    using insp release_committed [of b' "record_fields b"]
    by (simp add: b'_def ob_sizes record_committed_def record_release_fields i Let_def)
qed

theorem observation_release_one_way_witness:
  "\<exists>b i'. encodeRecord kResult 2 5 7 (Some [1, 2, 3]) 3 (Some (replicate 96 0)) = Some b \<and>
     inspectRecord (Some (clear_bits (clear_bits b kDataRecordRelease0Offset 0) kDataRecordRelease1Offset UINT32_MAX)) = (True, i') \<and>
     rin_evidence i' = kRecordReleased"
proof -
  have fits: "payload_fits (Some [1, 2, 3]) 3" by (simp add: payload_fits_def)
  have lp: "length (replicate 96 (0 :: u8)) = 96" by simp
  obtain b where b: "encodeRecord kResult 2 5 7 (Some [1, 2, 3]) 3 (Some (replicate 96 0)) = Some b"
    using encodeRecord_eq [OF lp fits, of kResult 2 5 7] by simp
  note e = encoded_record [OF lp fits b]
  define i where "i = record_release b (record_fields b)"
  have i: "inspectRecord (Some b) = (True, i)" using inspect_ok [OF e(1,2)] by (simp add: i_def)
  have r: "rin_evidence i = kRetained" "rin_next_release_slot i = 0"
    using free_words [of b 88] e(1,3) by (simp_all add: i_def record_release_def ob_sizes)
  have "length b = kDataRecordSize" using e(1) by (simp add: ob_sizes)
  from observation_release_one_way [OF this i, of 0 UINT32_MAX] show ?thesis using b r by blast
qed

section \<open>Page headers in flash\<close>

definition header_bytes :: "PageKind \<Rightarrow> u64 \<Rightarrow> u64 \<Rightarrow> u64 \<Rightarrow> bytes" where
  "header_bytes kind g d i =
     (let body = be_bytes 4 ob_kPageMagic @ be_bytes 2 ob_kVersion @ be_bytes 2 (NOT ob_kVersion) @ be_bytes 8 g @
            be_bytes 8 d @ be_bytes 8 i @ [page_kind_code kind, 0, 0, 0] @ be_bytes 2 (64 :: u16) @
            be_bytes 2 (slotSizeFor kind) @ be_bytes 2 (slotCountFor kind) @ be_bytes 2 (0 :: u16)
      in body @ be_bytes 4 (crc32Ieee body) @ be_bytes 4 (0 :: u32))"

lemma encodePageHeader_eq:
  assumes "length p = 64"
  shows "encodePageHeader kind g d i p = header_bytes kind g d i @ replicate 12 0xFF"
proof -
  have m: "memset p 0 0xFF 64 = [] @ replicate 64 0xFF" using assms by (simp add: memset_def write_at_full)
  let ?c1 = "be_bytes 4 ob_kPageMagic"
  let ?c2 = "?c1 @ be_bytes 2 ob_kVersion"
  let ?c3 = "?c2 @ be_bytes 2 (NOT ob_kVersion)"
  let ?c4 = "?c3 @ be_bytes 8 g"
  let ?c5 = "?c4 @ be_bytes 8 d"
  let ?c6 = "?c5 @ be_bytes 8 i"
  have u: "((xs @ replicate 32 0xFF)[32 := k])[35 := 0, 34 := 0, 33 := 0] = (xs @ [k, 0, 0, 0]) @ replicate 28 (0xFF :: u8)"
    if "length xs = 32" for xs and k :: u8
    using that by (simp add: list_update_append numeral_eq_Suc)
  have s1: "ob_put32 ([] @ replicate 64 0xFF) 0 ob_kPageMagic = ?c1 @ replicate 60 0xFF" by (subst put_next) simp_all
  have s2: "ob_put16 (?c1 @ replicate 60 0xFF) 4 ob_kVersion = ?c2 @ replicate 58 0xFF" by (subst put_next) simp_all
  have s3: "ob_put16 (?c2 @ replicate 58 0xFF) 6 (NOT ob_kVersion) = ?c3 @ replicate 56 0xFF" by (subst put_next) simp_all
  have s4: "ob_put64 (?c3 @ replicate 56 0xFF) 8 g = ?c4 @ replicate 48 0xFF" by (subst put_next) simp_all
  have s5: "ob_put64 (?c4 @ replicate 48 0xFF) 16 d = ?c5 @ replicate 40 0xFF" by (subst put_next) simp_all
  have s6: "ob_put64 (?c5 @ replicate 40 0xFF) 24 i = ?c6 @ replicate 32 0xFF" by (subst put_next) simp_all
  let ?c7 = "?c6 @ [page_kind_code kind, 0, 0, 0]"
  have s7: "((?c6 @ replicate 32 0xFF)[32 := page_kind_code kind])[35 := 0, 34 := 0, 33 := 0] = ?c7 @ replicate 28 0xFF"
    by (rule u) simp
  let ?c8 = "?c7 @ be_bytes 2 (of_nat 64 :: u16)"
  let ?c9 = "?c8 @ be_bytes 2 (slotSizeFor kind)"
  let ?c10 = "?c9 @ be_bytes 2 (slotCountFor kind)"
  have s8: "ob_put16 (?c7 @ replicate 28 0xFF) 36 (of_nat 64) = ?c8 @ replicate 26 0xFF" by (subst put_next) simp_all
  have s9: "ob_put16 (?c8 @ replicate 26 0xFF) 38 (slotSizeFor kind) = ?c9 @ replicate 24 0xFF" by (subst put_next) simp_all
  have s10: "ob_put16 (?c9 @ replicate 24 0xFF) 40 (slotCountFor kind) = ?c10 @ replicate 22 0xFF" by (subst put_next) simp_all
  define body where "body = ?c10 @ be_bytes 2 (0 :: u16)"
  have s11: "ob_put16 (?c10 @ replicate 22 0xFF) 42 0 = body @ replicate 20 0xFF" unfolding body_def by (subst put_next) simp_all
  have lb: "length body = 44" by (simp add: body_def)
  have s12: "ob_put32 (body @ replicate 20 0xFF) 44 (ob_crc32 (body @ replicate 20 0xFF) 44) =
      (body @ be_bytes 4 (crc32Ieee body)) @ replicate 16 0xFF"
    using lb by (subst put_next) (simp_all add: ob_crc32_def)
  have s13: "ob_put32 ((body @ be_bytes 4 (crc32Ieee body)) @ replicate 16 0xFF) 48 0 =
      (body @ be_bytes 4 (crc32Ieee body) @ be_bytes 4 (0 :: u32)) @ replicate 12 0xFF"
    using lb by (subst put_next) simp_all
  have e: "encodePageHeader kind g d i p = (body @ be_bytes 4 (crc32Ieee body) @ be_bytes 4 (0 :: u32)) @ replicate 12 0xFF"
    unfolding encodePageHeader_def ob_sizes Let_def m s1 s2 s3 s4 s5 s6 s7 s8 s9 s10 s11 s12 s13 ..
  have h: "header_bytes kind g d i = body @ be_bytes 4 (crc32Ieee body) @ be_bytes 4 (0 :: u32)"
    unfolding header_bytes_def Let_def body_def by simp
  show ?thesis unfolding e h ..
qed

text \<open>The header followed by its three one-shot words: activation, intent and intent retired.\<close>

definition page_image :: "PageKind \<Rightarrow> u64 \<Rightarrow> u64 \<Rightarrow> u64 \<Rightarrow> u32 \<Rightarrow> u32 \<Rightarrow> u32 \<Rightarrow> bytes" where
  "page_image kind g d i a x y = header_bytes kind g d i @ be_bytes 4 a @ be_bytes 4 x @ be_bytes 4 y"

lemma page_image_encoded:
  "length p = 64 \<Longrightarrow> encodePageHeader kind g d i p = page_image kind g d i UINT32_MAX UINT32_MAX UINT32_MAX"
proof -
  have "be_bytes 4 UINT32_MAX = replicate 4 0xFF" using be_bytes_erased by blast
  then have "be_bytes 4 UINT32_MAX @ be_bytes 4 UINT32_MAX @ be_bytes 4 UINT32_MAX = replicate 12 0xFF"
    by (simp flip: replicate_add)
  then show "length p = 64 \<Longrightarrow> ?thesis" by (simp add: encodePageHeader_eq page_image_def)
qed

lemma page_image_reads:
  fixes kind g d i a x y
  defines "b \<equiv> page_image kind g d i a x y"
  shows "length b = 64" "ob_get32 b 0 = ob_kPageMagic" "ob_get16 b 4 = ob_kVersion" "ob_get16 b 6 = NOT ob_kVersion"
    "ob_get64 b 8 = g" "ob_get64 b 16 = d" "ob_get64 b 24 = i" "b ! 32 = page_kind_code kind"
    "b ! 33 = 0" "b ! 34 = 0" "b ! 35 = 0" "ob_get16 b 36 = 64" "ob_get16 b 38 = slotSizeFor kind"
    "ob_get16 b 40 = slotCountFor kind" "ob_get16 b 42 = 0" "ob_get32 b 44 = ob_crc32 b 44" "ob_get32 b 48 = 0"
    "ob_get32 b 52 = a" "ob_get32 b 56 = x" "ob_get32 b 60 = y"
proof -
  define body where "body = be_bytes 4 ob_kPageMagic @ be_bytes 2 ob_kVersion @ be_bytes 2 (NOT ob_kVersion) @ be_bytes 8 g @
            be_bytes 8 d @ be_bytes 8 i @ [page_kind_code kind, 0, 0, 0] @ be_bytes 2 (64 :: u16) @
            be_bytes 2 (slotSizeFor kind) @ be_bytes 2 (slotCountFor kind) @ be_bytes 2 (0 :: u16)"
  have lb: "length body = 44" by (simp add: body_def)
  have be: "b = body @ be_bytes 4 (crc32Ieee body) @ be_bytes 4 (0 :: u32) @ be_bytes 4 a @ be_bytes 4 x @ be_bytes 4 y"
    by (simp add: b_def page_image_def header_bytes_def body_def Let_def)
  show len: "length b = 64" by (simp add: be lb)
  have f: "slice 0 4 b = be_bytes 4 ob_kPageMagic" "slice 4 2 b = be_bytes 2 ob_kVersion" "slice 6 2 b = be_bytes 2 (NOT ob_kVersion)"
    "slice 8 8 b = be_bytes 8 g" "slice 16 8 b = be_bytes 8 d" "slice 24 8 b = be_bytes 8 i"
    "slice 36 2 b = be_bytes 2 (64 :: u16)" "slice 38 2 b = be_bytes 2 (slotSizeFor kind)"
    "slice 40 2 b = be_bytes 2 (slotCountFor kind)" "slice 42 2 b = be_bytes 2 (0 :: u16)"
    by (simp_all add: be body_def slice_def)
  have w: "slice 44 4 b = be_bytes 4 (crc32Ieee body)" "slice 48 4 b = be_bytes 4 (0 :: u32)" "slice 52 4 b = be_bytes 4 a"
    "slice 56 4 b = be_bytes 4 x" "slice 60 4 b = be_bytes 4 y"
    by (simp_all add: be lb slice_def)
  show "ob_get32 b 0 = ob_kPageMagic" "ob_get16 b 4 = ob_kVersion" "ob_get16 b 6 = NOT ob_kVersion"
    "ob_get64 b 8 = g" "ob_get64 b 16 = d" "ob_get64 b 24 = i" "ob_get16 b 36 = 64" "ob_get16 b 38 = slotSizeFor kind"
    "ob_get16 b 40 = slotCountFor kind" "ob_get16 b 42 = 0" "ob_get32 b 48 = 0"
    "ob_get32 b 52 = a" "ob_get32 b 56 = x" "ob_get32 b 60 = y"
    using len by (simp_all add: ob_get32_eq ob_get16_eq ob_get64_eq f w)
  have tb: "take 44 b = body" by (simp add: be lb)
  show "ob_get32 b 44 = ob_crc32 b 44" using len by (simp add: ob_get32_eq w ob_crc32_def tb)
  have s: "slice 32 4 b = [page_kind_code kind, 0, 0, 0]" by (simp add: be body_def slice_def)
  show "b ! 32 = page_kind_code kind" "b ! 33 = 0" "b ! 34 = 0" "b ! 35 = 0"
    using s len by (simp_all add: slice_4)
qed

definition free_tail :: "u32 \<Rightarrow> u32 \<Rightarrow> bool" where
  "free_tail x y \<longleftrightarrow> x = UINT32_MAX \<and> y = UINT32_MAX"

lemma page_tail:
  fixes kind g d i a x y
  defines "b \<equiv> page_image kind g d i a x y"
  shows "list_all (\<lambda>k. b ! k = 0xFF) [56..<64] \<longleftrightarrow> free_tail x y"
proof -
  have len: "length b = 64" by (simp add: b_def page_image_reads)
  have t: "drop 56 b = be_bytes 4 x @ be_bytes 4 y"
    by (simp add: b_def page_image_def header_bytes_def Let_def)
  have "list_all (\<lambda>k. b ! k = 0xFF) [56..<64] \<longleftrightarrow> drop 56 b = replicate 8 0xFF"
  proof
    assume a: "list_all (\<lambda>k. b ! k = 0xFF) [56..<64]"
    have "b ! (56 + k) = 0xFF" if "k < 8" for k
    proof -
      have "56 + k \<in> {56..<64}" using that by simp
      then show ?thesis using a unfolding list_all_iff set_upt by blast
    qed
    then show "drop 56 b = replicate 8 0xFF"
      using len by (intro nth_equalityI) simp_all
  next
    assume d: "drop 56 b = replicate 8 0xFF"
    show "list_all (\<lambda>k. b ! k = 0xFF) [56..<64]"
      unfolding list_all_iff
    proof
      fix k assume "k \<in> set [56..<64 :: nat]"
      then have k: "56 \<le> k" "k - 56 < 8" by auto
      then have "b ! k = drop 56 b ! (k - 56)" using len by simp
      then show "b ! k = 0xFF" using k(2) by (simp add: d)
    qed
  qed
  also have "replicate 8 (0xFF :: u8) = replicate 4 0xFF @ replicate 4 0xFF" by (simp flip: replicate_add)
  then have "drop 56 b = replicate 8 0xFF \<longleftrightarrow> be_bytes 4 x = replicate 4 0xFF \<and> be_bytes 4 y = replicate 4 0xFF"
    by (simp add: t append_eq_append_conv)
  finally show ?thesis by (simp add: be_bytes_erased free_tail_def)
qed

text \<open>
  The life of a page header.  A freshly written header is prepared; whatever its one-shot words
  hold afterwards, the classifier reports activation exactly as the activation word says, a control
  page's compaction intent as soon as any bit of the intent word is programmed and its retirement as
  soon as any bit of the retirement word is, and never accepts a retirement without an intent or an
  intent on a data page.
\<close>
theorem observation_page_lifecycle:
  assumes "g \<noteq> 0" and "d \<noteq> 0" and "inc \<noteq> 0" and "length p = kPageHeaderSize"
  shows "encodePageHeader kind g d inc p = page_image kind g d inc UINT32_MAX UINT32_MAX UINT32_MAX \<and>
    fst (inspectPageHeader (Some (page_image kind g d inc a x y))) \<and>
    (let i = snd (inspectPageHeader (Some (page_image kind g d inc a x y))) in
     (pi_evidence i = kCorrupt \<longleftrightarrow> (if kind = kData then \<not> free_tail x y else x = UINT32_MAX \<and> y \<noteq> UINT32_MAX)) \<and>
     (pi_evidence i \<noteq> kCorrupt \<longrightarrow>
        pi_evidence i = (if a = UINT32_MAX then kPrepared else if a = 0 then kPageActive else kPartialActivation) \<and>
        (pi_kind i, pi_generation i, pi_device_id i, pi_incarnation i) = (kind, g, d, inc) \<and>
        pi_control_intent_present i = (x \<noteq> UINT32_MAX) \<and> pi_control_intent_retired i = (y \<noteq> UINT32_MAX)))"
proof -
  let ?b = "page_image kind g d inc a x y"
  note r = page_image_reads [of kind g d inc a x y]
  have ne: "\<not> ob_erased ?b 64" using erased_word [of ?b 64 48] r(1,17) by auto
  have i: "inspectPageHeader (Some ?b) = (True, page_intent ?b kind PageInspection_init)"
    using r ne by (simp add: inspectPageHeader_def ob_sizes)
  have e: "encodePageHeader kind g d inc p = page_image kind g d inc UINT32_MAX UINT32_MAX UINT32_MAX"
    using assms(4) by (simp add: page_image_encoded ob_sizes)
  have id: "page_identity ?b kind j = j\<lparr>pi_kind := kind, pi_generation := g, pi_device_id := d, pi_incarnation := inc,
      pi_evidence := if a = UINT32_MAX then kPrepared else if a = 0 then kPageActive else kPartialActivation\<rparr>" for j
    using assms(1-3) r(5-7,18) by (simp add: page_identity_def ob_sizes)
  show ?thesis
    unfolding i page_intent_def id ob_sizes r(19,20) page_tail
    using e by (cases kind) (auto simp: PageInspection_init_def free_tail_def Let_def)
qed

theorem observation_page_lifecycle_witness:
  "pi_evidence (snd (inspectPageHeader (Some (page_image kControl 3 4 5 0 0x7FFFFFFF UINT32_MAX)))) = kPageActive"
  using observation_page_lifecycle [of 3 4 5 "replicate 64 0" kControl 0 "0x7FFFFFFF" UINT32_MAX]
  by (simp add: ob_sizes Let_def)

end
