(* ===== verification/Observation_Control.thy ===== *)
theory Observation_Control
  imports Observation_Format
begin

text \<open>
  \<open>firmware/include/observation_store_control.h\<close> and \<open>firmware/src/observation_store_control.cpp\<close>:
  the four payloads a control record can carry -- an object under custody, an open occurrence, the
  guard of a command result, the state of the store -- and the keys by which the store replaces them.
  A decoder returns an option; the value the code leaves behind a failed decode is not modelled.
\<close>

definition kExactObjectPayloadSize :: nat where "kExactObjectPayloadSize = 116"
definition kMaxProtectedObjectSize :: nat where "kMaxProtectedObjectSize = 100"
definition kOpenOccurrencePayloadSize :: nat where "kOpenOccurrencePayloadSize = 16"
definition kResultGuardPayloadSize :: nat where "kResultGuardPayloadSize = 60"
definition kStoreStatePayloadSize :: nat where "kStoreStatePayloadSize = 48"

lemmas oc_sizes = kExactObjectPayloadSize_def kMaxProtectedObjectSize_def kOpenOccurrencePayloadSize_def
  kResultGuardPayloadSize_def kStoreStatePayloadSize_def

record ExactObject =
  eo_identity :: RecordIdentity
  eo_record_kind :: RecordKind
  eo_object_size :: u8
  eo_object :: bytes

record OpenOccurrence =
  oo_event_type :: u8
  oo_reason_code :: u8
  oo_context_kind :: u8
  oo_context_value :: u32
  oo_occurrence_id :: u64

record ResultGuard =
  rg_gateway_device_id :: u64
  rg_gateway_policy_floor :: u32
  rg_gateway_grant_generation :: u32
  rg_command_id :: u64
  rg_opcode :: u8
  rg_expected_state_token :: bytes
  rg_tracking_interval_seconds :: u32
  rg_battery_capacity_mah :: u32
  rg_result_identity :: RecordIdentity

record StoreState =
  ss_capacity_lost_total :: u32
  ss_capacity_lost_periodic :: u32
  ss_capacity_lost_event :: u32
  ss_capacity_lost_result :: u32
  ss_rotation_pending :: bool
  ss_target_page :: u16
  ss_target_old_generation :: u64
  ss_target_new_generation :: u64
  ss_first_retired_sequence :: u32
  ss_last_retired_sequence :: u32

definition zeroPadding :: "bytes \<Rightarrow> nat \<Rightarrow> nat \<Rightarrow> bool" where
  "zeroPadding bytes b e \<longleftrightarrow> list_all (\<lambda>i. bytes ! i = 0) [b..<e]"

definition encodeExactObject :: "ExactObject \<Rightarrow> bytes option \<Rightarrow> bytes option" where
  "encodeExactObject v out =
     (case out of None \<Rightarrow> None
      | Some o' \<Rightarrow>
        if \<not> ri_valid (eo_identity v) \<or> \<not> validRecordKind (record_kind_code (eo_record_kind v)) \<or>
           eo_object_size v = 0 \<or> unat (eo_object_size v) > kMaxProtectedObjectSize then None
        else
          let o' = memset o' 0 0 kExactObjectPayloadSize;
              o' = ob_put64 o' 0 (ri_incarnation (eo_identity v));
              o' = ob_put32 o' 8 (ri_sequence (eo_identity v));
              o' = o'[12 := record_kind_code (eo_record_kind v)];
              o' = o'[13 := eo_object_size v]
          in Some (write_at 16 (take (unat (eo_object_size v)) (eo_object v)) o'))"

definition decodeExactObject :: "bytes option \<Rightarrow> ExactObject option" where
  "decodeExactObject bytes =
     (case bytes of None \<Rightarrow> None
      | Some b \<Rightarrow>
        if length b \<noteq> kExactObjectPayloadSize then None
        else
          let ident = \<lparr>ri_incarnation = ob_get64 b 0, ri_sequence = ob_get32 b 8\<rparr>; object_size = b ! 13 in
          if \<not> ri_valid ident \<or> \<not> validRecordKind (b ! 12) \<or> object_size = 0 \<or>
             unat object_size > kMaxProtectedObjectSize \<or> b ! 14 \<noteq> 0 \<or> b ! 15 \<noteq> 0 \<or>
             \<not> zeroPadding b (16 + unat object_size) kExactObjectPayloadSize then None
          else Some \<lparr>eo_identity = ident, eo_record_kind = record_kind_of (b ! 12), eo_object_size = object_size,
                 eo_object = write_at 0 (slice 16 (unat object_size) b) (replicate kMaxProtectedObjectSize 0)\<rparr>)"

definition encodeOpenOccurrence :: "OpenOccurrence \<Rightarrow> bytes option \<Rightarrow> bytes option" where
  "encodeOpenOccurrence v out =
     (case out of None \<Rightarrow> None
      | Some o' \<Rightarrow>
        if oo_event_type v = 0 \<or> oo_occurrence_id v = 0 then None
        else
          let o' = memset o' 0 0 kOpenOccurrencePayloadSize;
              o' = o'[0 := oo_event_type v];
              o' = o'[1 := oo_reason_code v];
              o' = o'[2 := oo_context_kind v];
              o' = ob_put32 o' 4 (oo_context_value v)
          in Some (ob_put64 o' 8 (oo_occurrence_id v)))"

definition decodeOpenOccurrence :: "bytes option \<Rightarrow> OpenOccurrence option" where
  "decodeOpenOccurrence bytes =
     (case bytes of None \<Rightarrow> None
      | Some b \<Rightarrow>
        if length b \<noteq> kOpenOccurrencePayloadSize then None
        else
          let v = \<lparr>oo_event_type = b ! 0, oo_reason_code = b ! 1, oo_context_kind = b ! 2,
                   oo_context_value = ob_get32 b 4, oo_occurrence_id = ob_get64 b 8\<rparr> in
          if oo_event_type v \<noteq> 0 \<and> b ! 3 = 0 \<and> oo_occurrence_id v \<noteq> 0 then Some v else None)"

definition encodeResultGuard :: "ResultGuard \<Rightarrow> bytes option \<Rightarrow> bytes option" where
  "encodeResultGuard v out =
     (case out of None \<Rightarrow> None
      | Some o' \<Rightarrow>
        if rg_gateway_device_id v = 0 \<or> rg_gateway_policy_floor v = UINT32_MAX \<or>
           rg_gateway_grant_generation v = 0 \<or> rg_gateway_grant_generation v = UINT32_MAX \<or>
           rg_command_id v = 0 \<or> rg_opcode v = 0 \<or> \<not> ri_valid (rg_result_identity v) then None
        else
          let o' = memset o' 0 0 kResultGuardPayloadSize;
              o' = ob_put64 o' 0 (rg_gateway_device_id v);
              o' = ob_put32 o' 8 (rg_gateway_policy_floor v);
              o' = ob_put32 o' 12 (rg_gateway_grant_generation v);
              o' = ob_put64 o' 16 (rg_command_id v);
              o' = o'[24 := rg_opcode v];
              o' = write_at 28 (take 12 (rg_expected_state_token v)) o';
              o' = ob_put32 o' 40 (rg_tracking_interval_seconds v);
              o' = ob_put32 o' 44 (rg_battery_capacity_mah v);
              o' = ob_put64 o' 48 (ri_incarnation (rg_result_identity v))
          in Some (ob_put32 o' 56 (ri_sequence (rg_result_identity v))))"

definition decodeResultGuard :: "bytes option \<Rightarrow> ResultGuard option" where
  "decodeResultGuard bytes =
     (case bytes of None \<Rightarrow> None
      | Some b \<Rightarrow>
        if length b \<noteq> kResultGuardPayloadSize then None
        else
          let v = \<lparr>rg_gateway_device_id = ob_get64 b 0, rg_gateway_policy_floor = ob_get32 b 8,
                   rg_gateway_grant_generation = ob_get32 b 12, rg_command_id = ob_get64 b 16, rg_opcode = b ! 24,
                   rg_expected_state_token = slice 28 12 b, rg_tracking_interval_seconds = ob_get32 b 40,
                   rg_battery_capacity_mah = ob_get32 b 44,
                   rg_result_identity = \<lparr>ri_incarnation = ob_get64 b 48, ri_sequence = ob_get32 b 56\<rparr>\<rparr> in
          if rg_gateway_device_id v \<noteq> 0 \<and> rg_gateway_policy_floor v \<noteq> UINT32_MAX \<and>
             rg_gateway_grant_generation v \<noteq> 0 \<and> rg_gateway_grant_generation v \<noteq> UINT32_MAX \<and>
             rg_command_id v \<noteq> 0 \<and> rg_opcode v \<noteq> 0 \<and> b ! 25 = 0 \<and> b ! 26 = 0 \<and> b ! 27 = 0 \<and>
             ri_valid (rg_result_identity v) then Some v else None)"

text \<open>The checks of \<open>encodeStoreState\<close>, which \<open>decodeStoreState\<close> repeats word for word.\<close>

definition store_state_ok :: "StoreState \<Rightarrow> bool" where
  "store_state_ok v \<longleftrightarrow>
     (let lost_sum = ucast (ss_capacity_lost_periodic v) + ucast (ss_capacity_lost_event v) +
            ucast (ss_capacity_lost_result v) :: u64 in
      if lost_sum > ucast UINT32_MAX \<or> ucast (ss_capacity_lost_total v) \<noteq> lost_sum then False
      else if ss_rotation_pending v \<and>
          (ss_target_page v = UINT16_MAX \<or> ss_target_old_generation v = 0 \<or> ss_target_new_generation v = 0 \<or>
           ss_target_new_generation v \<le> ss_target_old_generation v) then False
      else if \<not> ss_rotation_pending v \<and>
          (ss_target_page v \<noteq> UINT16_MAX \<or> ss_target_old_generation v \<noteq> 0 \<or> ss_target_new_generation v \<noteq> 0) then False
      else if (ss_first_retired_sequence v = 0) \<noteq> (ss_last_retired_sequence v = 0) then False
      else ss_first_retired_sequence v = 0 \<or> ss_first_retired_sequence v \<le> ss_last_retired_sequence v)"

definition encodeStoreState :: "StoreState \<Rightarrow> bytes option \<Rightarrow> bytes option" where
  "encodeStoreState v out =
     (case out of None \<Rightarrow> None
      | Some o' \<Rightarrow>
        if \<not> store_state_ok v then None
        else
          let o' = memset o' 0 0 kStoreStatePayloadSize;
              o' = ob_put32 o' 0 (ss_capacity_lost_total v);
              o' = ob_put32 o' 4 (ss_capacity_lost_periodic v);
              o' = ob_put32 o' 8 (ss_capacity_lost_event v);
              o' = ob_put32 o' 12 (ss_capacity_lost_result v);
              o' = o'[16 := if ss_rotation_pending v then 1 else 0];
              o' = ob_put16 o' 20 (ss_target_page v);
              o' = ob_put64 o' 24 (ss_target_old_generation v);
              o' = ob_put64 o' 32 (ss_target_new_generation v);
              o' = ob_put32 o' 40 (ss_first_retired_sequence v)
          in Some (ob_put32 o' 44 (ss_last_retired_sequence v)))"

definition decodeStoreState :: "bytes option \<Rightarrow> StoreState option" where
  "decodeStoreState bytes =
     (case bytes of None \<Rightarrow> None
      | Some b \<Rightarrow>
        if length b \<noteq> kStoreStatePayloadSize then None
        else if b ! 16 > 1 \<or> b ! 17 \<noteq> 0 \<or> b ! 18 \<noteq> 0 \<or> b ! 19 \<noteq> 0 \<or> b ! 22 \<noteq> 0 \<or> b ! 23 \<noteq> 0 then None
        else
          let v = \<lparr>ss_capacity_lost_total = ob_get32 b 0, ss_capacity_lost_periodic = ob_get32 b 4,
                   ss_capacity_lost_event = ob_get32 b 8, ss_capacity_lost_result = ob_get32 b 12,
                   ss_rotation_pending = (b ! 16 = 1), ss_target_page = ob_get16 b 20,
                   ss_target_old_generation = ob_get64 b 24, ss_target_new_generation = ob_get64 b 32,
                   ss_first_retired_sequence = ob_get32 b 40, ss_last_retired_sequence = ob_get32 b 44\<rparr> in
          if store_state_ok v then Some v else None)"

definition sameExactObjectKey :: "ExactObject \<Rightarrow> ExactObject \<Rightarrow> bool" where
  "sameExactObjectKey a b \<longleftrightarrow>
     ri_incarnation (eo_identity a) = ri_incarnation (eo_identity b) \<and>
     ri_sequence (eo_identity a) = ri_sequence (eo_identity b)"

definition sameOpenOccurrenceKey :: "OpenOccurrence \<Rightarrow> OpenOccurrence \<Rightarrow> bool" where
  "sameOpenOccurrenceKey a b \<longleftrightarrow>
     (if oo_event_type a \<noteq> oo_event_type b \<or> oo_reason_code a \<noteq> oo_reason_code b \<or>
         oo_context_kind a \<noteq> oo_context_kind b then False
      else if oo_context_kind a = 2 then oo_context_value a = oo_context_value b
      else True)"

definition sameResultGuardKey :: "ResultGuard \<Rightarrow> ResultGuard \<Rightarrow> bool" where
  "sameResultGuardKey a b \<longleftrightarrow>
     rg_gateway_device_id a = rg_gateway_device_id b \<and> rg_gateway_policy_floor a = rg_gateway_policy_floor b \<and>
     rg_gateway_grant_generation a = rg_gateway_grant_generation b \<and> rg_command_id a = rg_command_id b"

section \<open>Exactness of the codecs\<close>

text \<open>A list is the concatenation of its consecutive pieces.\<close>

fun pieces :: "nat \<Rightarrow> nat list \<Rightarrow> 'a list \<Rightarrow> 'a list list" where
  "pieces off [] xs = []"
| "pieces off (n # ns) xs = slice off n xs # pieces (off + n) ns xs"

lemma concat_pieces: "concat (pieces off ns xs) = slice off (sum_list ns) xs"
proof (induction ns arbitrary: off)
  case Nil
  show ?case by (simp add: slice_def)
next
  case (Cons n ns)
  then show ?case using slice_join [of off n xs "sum_list ns"] by simp
qed

lemma pieces_eqI:
  "pieces 0 ns xs = pieces 0 ns ys \<Longrightarrow> length xs = sum_list ns \<Longrightarrow> length ys = sum_list ns \<Longrightarrow> xs = ys"
  by (metis concat_pieces slice_full)

lemmas codec_simps = oc_sizes ri_valid_def Let_def be_simps buffer_simps nth_list_update

lemma open_occurrence_exact:
  assumes "length p = 16" "length b = 16"
  shows "decodeOpenOccurrence (Some b) = Some v \<longleftrightarrow> encodeOpenOccurrence v (Some p) = Some b"
proof
  assume e: "encodeOpenOccurrence v (Some p) = Some b"
  show "decodeOpenOccurrence (Some b) = Some v"
    using e assms by (auto simp: encodeOpenOccurrence_def decodeOpenOccurrence_def codec_simps split: if_splits)
next
  assume d: "decodeOpenOccurrence (Some b) = Some v"
  let ?e = "the (encodeOpenOccurrence v (Some p))"
  have s: "encodeOpenOccurrence v (Some p) = Some ?e"
    using d by (auto simp: encodeOpenOccurrence_def decodeOpenOccurrence_def Let_def split: if_splits)
  have "?e = b"
    by (rule pieces_eqI [of "[4, 4, 8]"])
      (use d assms in \<open>auto simp: encodeOpenOccurrence_def decodeOpenOccurrence_def slice_4 [of 0] codec_simps numeral_2_eq_2 numeral_3_eq_3 split: if_splits\<close>)
  then show "encodeOpenOccurrence v (Some p) = Some b" using s by simp
qed

lemma result_guard_exact:
  assumes "length p = 60" "length b = 60" "length (rg_expected_state_token v) = 12"
  shows "decodeResultGuard (Some b) = Some v \<longleftrightarrow> encodeResultGuard v (Some p) = Some b"
proof
  assume e: "encodeResultGuard v (Some p) = Some b"
  show "decodeResultGuard (Some b) = Some v"
    using e assms by (auto simp: encodeResultGuard_def decodeResultGuard_def codec_simps split: if_splits)
next
  assume d: "decodeResultGuard (Some b) = Some v"
  let ?e = "the (encodeResultGuard v (Some p))"
  have s: "encodeResultGuard v (Some p) = Some ?e"
    using d by (auto simp: encodeResultGuard_def decodeResultGuard_def Let_def split: if_splits)
  have "?e = b"
    by (rule pieces_eqI [of "[8, 4, 4, 8, 4, 12, 4, 4, 8, 4]"])
      (use d assms in \<open>auto simp: encodeResultGuard_def decodeResultGuard_def slice_4 [of 24] codec_simps split: if_splits\<close>)
  then show "encodeResultGuard v (Some p) = Some b" using s by simp
qed

lemma flag_byte: "v \<le> 1 \<Longrightarrow> v \<noteq> 1 \<Longrightarrow> v = (0 :: u8)"
  by (metis nle_le word_le_sub1 word_less_1 order_le_less)

lemma store_state_exact:
  assumes "length p = 48" "length b = 48"
  shows "decodeStoreState (Some b) = Some v \<longleftrightarrow> encodeStoreState v (Some p) = Some b"
proof
  assume e: "encodeStoreState v (Some p) = Some b"
  show "decodeStoreState (Some b) = Some v"
    using e assms by (cases v) (auto simp: encodeStoreState_def decodeStoreState_def codec_simps split: if_splits)
next
  assume d: "decodeStoreState (Some b) = Some v"
  let ?e = "the (encodeStoreState v (Some p))"
  have s: "encodeStoreState v (Some p) = Some ?e"
    using d by (auto simp: encodeStoreState_def decodeStoreState_def Let_def split: if_splits)
  have "?e = b"
    by (rule pieces_eqI [of "[4, 4, 4, 4, 4, 2, 2, 8, 8, 4, 4]"])
      (use d assms in \<open>auto simp: encodeStoreState_def decodeStoreState_def slice_4 [of 16] slice_2 [of 22] codec_simps
        not_less dest: flag_byte split: if_splits\<close>)
  then show "encodeStoreState v (Some p) = Some b" using s by simp
qed

text \<open>The object of an exact-object control as the code keeps it: zeros behind its declared size.\<close>

definition object_padded :: "ExactObject \<Rightarrow> bool" where
  "object_padded v \<longleftrightarrow> (\<exists>o'. eo_object v = o' @ replicate (100 - length o') 0 \<and>
     length o' = unat (eo_object_size v) \<and> length o' \<le> 100)"

lemma exact_object_bytes:
  assumes "length p = 116" "length o' = n" "n \<le> 100"
  shows "write_at 16 o' (((ob_put32 (ob_put64 (memset p 0 0 116) 0 a) 8 c)[12 := k])[13 := s]) =
    (be_bytes 8 a @ be_bytes 4 c @ [k, s, 0, 0] @ o') @ replicate (100 - n) 0"
proof -
  have m: "memset p 0 0 116 = [] @ replicate 116 0" using assms(1) by (simp add: memset_def write_at_full)
  have s1: "ob_put64 ([] @ replicate 116 0) 0 a = be_bytes 8 a @ replicate 108 0" by (subst put_next) simp_all
  have s2: "ob_put32 (be_bytes 8 a @ replicate 108 0) 8 c = (be_bytes 8 a @ be_bytes 4 c) @ replicate 104 0"
    by (subst put_next) simp_all
  have u: "((xs @ replicate 104 0)[12 := k])[13 := s] = (xs @ [k, s, 0, 0]) @ replicate 100 (0 :: u8)"
    if "length xs = 12" for xs
    using that by (simp add: list_update_append numeral_eq_Suc)
  have s3: "(((be_bytes 8 a @ be_bytes 4 c) @ replicate 104 0)[12 := k])[13 := s] =
      (be_bytes 8 a @ be_bytes 4 c @ [k, s, 0, 0]) @ replicate 100 0"
    using u [of "be_bytes 8 a @ be_bytes 4 c"] by simp
  show ?thesis unfolding m s1 s2 s3 using assms by (subst write_next) simp_all
qed

lemma exact_object_encoded:
  assumes "length p = 116" "object_padded v"
  shows "encodeExactObject v (Some p) =
    (if ri_valid (eo_identity v) \<and> eo_object_size v \<noteq> 0 \<and> unat (eo_object_size v) \<le> 100
     then Some (be_bytes 8 (ri_incarnation (eo_identity v)) @ be_bytes 4 (ri_sequence (eo_identity v)) @
       [record_kind_code (eo_record_kind v), eo_object_size v, 0, 0] @ eo_object v)
     else None)"
proof -
  obtain o' where o': "eo_object v = o' @ replicate (100 - length o') 0" "length o' = unat (eo_object_size v)" "length o' \<le> 100"
    using assms(2) by (auto simp: object_padded_def)
  have t: "take (unat (eo_object_size v)) (eo_object v) = o'" using o' by simp
  show ?thesis
    using exact_object_bytes [OF assms(1) refl o'(3)] o'(1,3) t
    by (auto simp: encodeExactObject_def oc_sizes Let_def not_less)
qed

lemma exact_object_exact:
  assumes "length p = 116" "length b = 116" "object_padded v"
  shows "decodeExactObject (Some b) = Some v \<longleftrightarrow> encodeExactObject v (Some p) = Some b"
proof
  assume e: "encodeExactObject v (Some p) = Some b"
  obtain o' where o': "eo_object v = o' @ replicate (100 - length o') 0" "length o' = unat (eo_object_size v)" "length o' \<le> 100"
    using assms(3) by (auto simp: object_padded_def)
  have ok: "ri_valid (eo_identity v)" "eo_object_size v \<noteq> 0"
    and b: "b = (be_bytes 8 (ri_incarnation (eo_identity v)) @ be_bytes 4 (ri_sequence (eo_identity v)) @
      [record_kind_code (eo_record_kind v), eo_object_size v, 0, 0]) @ o' @ replicate (100 - length o') 0"
    using e exact_object_encoded [OF assms(1,3)] o'(1) by (auto split: if_splits)
  let ?h = "be_bytes 8 (ri_incarnation (eo_identity v)) @ be_bytes 4 (ri_sequence (eo_identity v)) @
      [record_kind_code (eo_record_kind v), eo_object_size v, 0, 0]"
  have s: "slice 0 8 b = be_bytes 8 (ri_incarnation (eo_identity v))" "slice 8 4 b = be_bytes 4 (ri_sequence (eo_identity v))"
    "slice 12 4 b = [record_kind_code (eo_record_kind v), eo_object_size v, 0, 0]"
    by (simp_all add: b slice_def)
  have g: "ob_get64 b 0 = ri_incarnation (eo_identity v)" "ob_get32 b 8 = ri_sequence (eo_identity v)"
    using assms(2) by (simp_all add: ob_get64_eq ob_get32_eq s)
  have n: "b ! 12 = record_kind_code (eo_record_kind v)" "b ! 13 = eo_object_size v" "b ! 14 = 0" "b ! 15 = 0"
    using s(3) assms(2) by (simp_all add: slice_4)
  have z: "zeroPadding b (16 + length o') 116"
    by (auto simp: zeroPadding_def list_all_iff b nth_append)
  have o: "write_at 0 (slice 16 (length o') b) (replicate 100 0) = eo_object v"
    using o'(3) unfolding b o'(1) by (simp add: slice_def write_at_def)
  show "decodeExactObject (Some b) = Some v"
    using ok assms(2) z o o'(2,3) by (cases v) (auto simp: decodeExactObject_def oc_sizes Let_def g n ri_valid_def)
next
  assume d: "decodeExactObject (Some b) = Some v"
  let ?n = "unat (b ! 13)"
  have ok: "ri_valid (eo_identity v)" "eo_object_size v \<noteq> 0" "?n \<le> 100"
    and z: "zeroPadding b (16 + ?n) 116" "b ! 14 = 0" "b ! 15 = 0"
    and f: "ri_incarnation (eo_identity v) = ob_get64 b 0" "ri_sequence (eo_identity v) = ob_get32 b 8"
      "record_kind_code (eo_record_kind v) = b ! 12" "eo_object_size v = b ! 13"
      "eo_object v = write_at 0 (slice 16 ?n b) (replicate 100 0)"
    using d by (auto simp: decodeExactObject_def oc_sizes Let_def not_less split: if_splits)
  have o: "eo_object v = slice 16 ?n b @ slice (16 + ?n) (100 - ?n) b"
    using zero_tail [of b "16 + ?n" 116 "100 - ?n"] z(1) ok(3) assms(2)
    by (simp add: f(5) zeroPadding_def write_at_def)
  have o16: "eo_object v = slice 16 100 b"
    unfolding o using slice_join [of 16 ?n b "100 - ?n"] ok(3) by simp
  have "b = slice 0 8 b @ slice 8 4 b @ slice 12 4 b @ slice 16 100 b"
    using slice_join [of 0 8 b 4] slice_join [of 0 12 b 4] slice_join [of 0 16 b 100] slice_full [OF assms(2)]
    by (simp flip: append_assoc)
  also have "slice 0 8 b = be_bytes 8 (ri_incarnation (eo_identity v))"
    using assms(2) by (simp add: f ob_get64_eq)
  also have "slice 8 4 b = be_bytes 4 (ri_sequence (eo_identity v))"
    using assms(2) by (simp add: f ob_get32_eq)
  also have "slice 12 4 b = [record_kind_code (eo_record_kind v), eo_object_size v, 0, 0]"
    using assms(2) z by (simp add: slice_4 f)
  finally show "encodeExactObject v (Some p) = Some b"
    using exact_object_encoded [OF assms(1,3)] ok o16 f(4) by simp
qed

text \<open>
  The four control payload codecs are exact.  A payload decodes to a value exactly when encoding
  that value gives the payload back byte for byte: no value that the encoders refuse is ever read, and
  every accepted payload has one encoding.
\<close>
theorem control_payload_codecs_exact:
  assumes "object_padded eo" and "length (rg_expected_state_token rg) = 12"
  shows "(length p = kExactObjectPayloadSize \<and> length b = kExactObjectPayloadSize \<longrightarrow>
      (decodeExactObject (Some b) = Some eo \<longleftrightarrow> encodeExactObject eo (Some p) = Some b)) \<and>
    (length p = kOpenOccurrencePayloadSize \<and> length b = kOpenOccurrencePayloadSize \<longrightarrow>
      (decodeOpenOccurrence (Some b) = Some oo \<longleftrightarrow> encodeOpenOccurrence oo (Some p) = Some b)) \<and>
    (length p = kResultGuardPayloadSize \<and> length b = kResultGuardPayloadSize \<longrightarrow>
      (decodeResultGuard (Some b) = Some rg \<longleftrightarrow> encodeResultGuard rg (Some p) = Some b)) \<and>
    (length p = kStoreStatePayloadSize \<and> length b = kStoreStatePayloadSize \<longrightarrow>
      (decodeStoreState (Some b) = Some ss \<longleftrightarrow> encodeStoreState ss (Some p) = Some b))"
  using exact_object_exact [of p b eo] open_occurrence_exact [of p b oo] result_guard_exact [of p b rg]
    store_state_exact [of p b ss] assms
  by (simp add: oc_sizes)

definition sample_object :: ExactObject where
  "sample_object = \<lparr>eo_identity = \<lparr>ri_incarnation = 3, ri_sequence = 9\<rparr>, eo_record_kind = kEvent,
     eo_object_size = 2, eo_object = [7, 8] @ replicate 98 0\<rparr>"

definition sample_guard :: ResultGuard where
  "sample_guard = \<lparr>rg_gateway_device_id = 1, rg_gateway_policy_floor = 2, rg_gateway_grant_generation = 3,
     rg_command_id = 4, rg_opcode = 5, rg_expected_state_token = replicate 12 6, rg_tracking_interval_seconds = 7,
     rg_battery_capacity_mah = 8, rg_result_identity = \<lparr>ri_incarnation = 9, ri_sequence = 10\<rparr>\<rparr>"

lemma sample_shapes: "object_padded sample_object" "length (rg_expected_state_token sample_guard) = 12"
  by (auto simp: object_padded_def sample_object_def sample_guard_def intro!: exI [of _ "[7, 8]"])

theorem control_payload_codecs_exact_witness:
  "\<exists>b. encodeResultGuard sample_guard (Some (replicate 60 0)) = Some b \<and> length b = 60 \<and>
     decodeResultGuard (Some b) = Some sample_guard"
proof -
  obtain b where b: "encodeResultGuard sample_guard (Some (replicate 60 0)) = Some b"
    by (simp add: encodeResultGuard_def sample_guard_def ri_valid_def)
  then have "length b = 60" by (auto simp: encodeResultGuard_def codec_simps split: if_splits)
  then show ?thesis
    using b control_payload_codecs_exact [OF sample_shapes, of "replicate 60 0" b] by (simp add: oc_sizes)
qed

section \<open>Control slots\<close>

definition control_bytes :: "ControlKind \<Rightarrow> u8 \<Rightarrow> u64 \<Rightarrow> bytes \<Rightarrow> bytes" where
  "control_bytes kind schema serial pl =
     (let body = [control_kind_code kind, schema] @ be_bytes 2 (of_nat (length pl) :: u16) @ be_bytes 8 serial @ pl @
            replicate (116 - length pl) 0
      in body @ be_bytes 4 (crc32Ieee body) @ be_bytes 4 (0 :: u32))"

lemma encode_control_bytes:
  assumes "length p = 144" "length pl = n" "n \<le> 116"
  shows "(let b = memset p 0 0 144; b = b[0 := control_kind_code kind]; b = b[1 := schema]; b = ob_put16 b 2 (of_nat n);
      b = ob_put64 b 4 serial; b = (if n \<noteq> 0 then write_at 12 pl b else b);
      b = ob_put32 b 128 (ob_crc32 b 128); b = ob_put32 b 132 0 in memset b 136 0xFF 8) =
    control_bytes kind schema serial pl @ replicate 8 0xFF"
proof -
  have m: "memset p 0 0 144 = replicate 144 0" using assms(1) by (simp add: memset_def write_at_full)
  let ?h = "[control_kind_code kind, schema]"
  have r2: "replicate 144 (0 :: u8) = 0 # 0 # replicate 142 0" by (simp flip: replicate_Suc)
  have h: "(replicate 144 0)[0 := control_kind_code kind, 1 := schema] = ?h @ replicate 142 0"
    by (simp add: r2)
  have b1: "ob_put16 (?h @ replicate 142 0) 2 (of_nat n) = (?h @ be_bytes 2 (of_nat n :: u16)) @ replicate 140 0"
    by (subst put_next) simp_all
  have b2: "ob_put64 ((?h @ be_bytes 2 (of_nat n :: u16)) @ replicate 140 0) 4 serial =
      (?h @ be_bytes 2 (of_nat n :: u16) @ be_bytes 8 serial) @ replicate 132 0"
    by (subst put_next) simp_all
  have w: "write_at 12 pl ((?h @ be_bytes 2 (of_nat n :: u16) @ be_bytes 8 serial) @ replicate 132 0) =
      (?h @ be_bytes 2 (of_nat n :: u16) @ be_bytes 8 serial @ pl) @ replicate (132 - n) 0"
    using assms by (subst write_next) simp_all
  have r: "replicate (132 - n) (0 :: u8) = replicate (116 - n) 0 @ replicate 16 0"
    using assms(3) by (simp flip: replicate_add)
  have r0: "replicate 132 (0 :: u8) = replicate 116 0 @ replicate 16 0" by (simp flip: replicate_add)
  have b3: "(if n \<noteq> 0 then write_at 12 pl ((?h @ be_bytes 2 (of_nat n :: u16) @ be_bytes 8 serial) @ replicate 132 0)
      else (?h @ be_bytes 2 (of_nat n :: u16) @ be_bytes 8 serial) @ replicate 132 0) =
      (?h @ be_bytes 2 (of_nat n :: u16) @ be_bytes 8 serial @ pl @ replicate (116 - n) 0) @ replicate 16 0"
    using w assms(2) r0 by (auto simp: r)
  define body where "body = ?h @ be_bytes 2 (of_nat n :: u16) @ be_bytes 8 serial @ pl @ replicate (116 - n) 0"
  have lb: "length body = 128" using assms(2,3) by (simp add: body_def)
  have b4: "ob_put32 (body @ replicate 16 0) 128 (ob_crc32 (body @ replicate 16 0) 128) =
      (body @ be_bytes 4 (crc32Ieee body)) @ replicate 12 0"
    using lb by (subst put_next) (simp_all add: ob_crc32_def)
  have b5: "ob_put32 ((body @ be_bytes 4 (crc32Ieee body)) @ replicate 12 0) 132 0 =
      (body @ be_bytes 4 (crc32Ieee body) @ be_bytes 4 (0 :: u32)) @ replicate 8 0"
    using lb by (subst put_next) simp_all
  have b6: "memset ((body @ be_bytes 4 (crc32Ieee body) @ be_bytes 4 (0 :: u32)) @ replicate 8 0) 136 0xFF 8 =
      (body @ be_bytes 4 (crc32Ieee body) @ be_bytes 4 (0 :: u32)) @ replicate 8 0xFF"
    unfolding memset_def using lb by (subst write_next) simp_all
  have rb: "control_bytes kind schema serial pl = body @ be_bytes 4 (crc32Ieee body) @ be_bytes 4 (0 :: u32)"
    by (simp only: control_bytes_def body_def Let_def assms(2))
  show ?thesis unfolding Let_def m h b1 b2 b3 body_def [symmetric] b4 b5 b6 rb ..
qed

lemma encodeControl_eq:
  assumes "length p = 144" "length pl = n" "schema \<noteq> 0" "serial \<noteq> 0" "n \<le> 116"
  shows "encodeControl kind schema serial (Some pl) n (Some p) = Some (control_bytes kind schema serial pl @ replicate 8 0xFF)"
proof -
  have "encodeControl kind schema serial (Some pl) n (Some p) =
    Some (let b = memset p 0 0 144; b = b[0 := control_kind_code kind]; b = b[1 := schema]; b = ob_put16 b 2 (of_nat n);
      b = ob_put64 b 4 serial; b = (if n \<noteq> 0 then write_at 12 pl b else b);
      b = ob_put32 b 128 (ob_crc32 b 128); b = ob_put32 b 132 0 in memset b 136 0xFF 8)"
    using assms(2-5) unfolding encodeControl_def ob_sizes Let_def by simp
  then show ?thesis unfolding encode_control_bytes [OF assms(1,2,5)] .
qed

lemma control_bytes_reads:
  assumes "length pl \<le> 116" and b: "b = control_bytes kind schema serial pl @ w" "length w = 8"
  shows "length b = 144" "b ! 0 = control_kind_code kind" "b ! 1 = schema" "ob_get16 b 2 = of_nat (length pl)"
    "ob_get64 b 4 = serial" "slice 12 116 b = pl @ replicate (116 - length pl) 0"
    "ob_get32 b 128 = ob_crc32 b 128" "ob_get32 b 132 = 0" "drop 136 b = w"
    "list_all (\<lambda>k. b ! k = 0) [12 + length pl..<128]"
proof -
  define h where "h = [control_kind_code kind, schema]"
  define z where "z = (replicate (116 - length pl) 0 :: bytes)"
  define body where "body = h @ be_bytes 2 (of_nat (length pl) :: u16) @ be_bytes 8 serial @ pl @ z"
  have lh: "length h = 2" "length (pl @ z) = 116" using assms(1) by (simp_all add: h_def z_def)
  have lb: "length body = 128" using lh by (simp add: body_def)
  have be: "b = body @ be_bytes 4 (crc32Ieee body) @ be_bytes 4 (0 :: u32) @ w"
    unfolding b control_bytes_def Let_def h_def [symmetric] z_def [symmetric] body_def by simp
  show len: "length b = 144" using lb b(2) by (simp add: be)
  have f: "slice 2 2 b = be_bytes 2 (of_nat (length pl) :: u16)" "slice 4 8 b = be_bytes 8 serial"
    "slice 12 116 b = pl @ z" "slice 128 4 b = be_bytes 4 (crc32Ieee body)" "slice 132 4 b = be_bytes 4 (0 :: u32)"
    "drop 136 b = w" "take 128 b = body"
    using lh lb by (simp_all add: be slice_def, simp_all add: body_def)
  show "slice 12 116 b = pl @ replicate (116 - length pl) 0" "drop 136 b = w" using f by (simp_all add: z_def)
  show "ob_get16 b 2 = of_nat (length pl)" "ob_get64 b 4 = serial" "ob_get32 b 132 = 0"
    using len f by (simp_all add: ob_get16_eq ob_get64_eq ob_get32_eq)
  show "ob_get32 b 128 = ob_crc32 b 128" using len f by (simp add: ob_get32_eq ob_crc32_def)
  show "b ! 0 = control_kind_code kind" "b ! 1 = schema" by (simp_all add: be body_def h_def)
  show "list_all (\<lambda>k. b ! k = 0) [12 + length pl..<128]"
    unfolding list_all_iff set_upt
  proof
    fix k assume "k \<in> {12 + length pl..<128}"
    then have k: "12 + length pl \<le> k" "k < 128" by auto
    then have "b ! k = slice 12 116 b ! (k - 12)" using len by simp
    also have "\<dots> = z ! (k - 12 - length pl)" unfolding f using k by (simp add: nth_append leD)
    also have "\<dots> = 0" using k assms(1) by (simp add: z_def)
    finally show "b ! k = 0" .
  qed
qed

text \<open>
  A control survives a power cut or is not there.  When a control payload is appended, a cut that
  leaves any number of complete words and one torn word gives an erased, staged or partially committed
  slot, and an active one exactly when the commit word is complete; the store then reads back the kind,
  the serial and the very payload it appended.
\<close>
theorem control_append_commit_last:
  assumes "length p = kControlRecordSize" and "length pl \<le> kControlPayloadSize"
    and "encodeControl kind schema serial (Some pl) (length pl) (Some p) = Some e" and "k \<le> 33"
  shows "let i = snd (inspectControl (Some (torn_slot kControlRecordSize e k w))) in
    ci_evidence i =
      (if k = 0 \<and> w = UINT32_MAX then kControlErased
       else if k < 33 \<or> w = UINT32_MAX then kControlStaged
       else if w = 0 then kControlActive else kControlPartialCommit) \<and>
    (ci_evidence i = kControlActive \<longrightarrow>
       ci_kind i = kind \<and> ci_schema i = schema \<and> ci_serial i = serial \<and> ci_next_clear_slot i = 0 \<and>
       take (unat (ci_payload_size i)) (ci_payload i) = pl)"
proof -
  have lp: "length p = 144" and ll: "length pl \<le> 116" using assms(1,2) by (simp_all add: ob_sizes)
  have c: "schema \<noteq> 0" "serial \<noteq> 0" using assms(3) by (auto simp: encodeControl_def split: if_splits)
  have e: "e = control_bytes kind schema serial pl @ replicate 8 0xFF"
    using encodeControl_eq [OF lp refl c ll] assms(3) by simp
  note r = control_bytes_reads [OF ll e]
  have le: "length e = 144" using r by simp
  let ?t = "torn_slot 144 e k w"
  have lt: "length ?t = 144" using le assms(4) by (simp add: length_torn_slot)
  have commit: "ob_get32 ?t 132 = (if k = 33 then w else UINT32_MAX)"
    using torn_commit [of e 132 k w] le assms(4) by auto
  have "e ! 0 \<noteq> 0xFF" using r(2) by (cases kind) simp_all
  then have erased: "ob_erased ?t 144 \<longleftrightarrow> k = 0 \<and> w = UINT32_MAX"
    using torn_erased [of e 144 k w] le assms(4) by simp
  have c0: "slice 132 4 e = be_bytes 4 (0 :: u32)"
    using r(8) le by (auto simp: ob_get32_eq dest: arg_cong [of _ _ "be_bytes 4"])
  have whole: "k = 33 \<and> w = 0 \<Longrightarrow> ?t = e"
    using torn_complete [of e 132 33] le c0 r(9) by simp
  have u: "unat (of_nat (length pl) :: u16) = length pl" using ll by (simp add: unat_of_nat)
  have free: "ob_get32 e 136 = UINT32_MAX" "ob_get32 e 140 = UINT32_MAX"
    using free_words [of e 136] le r(9) by simp_all
  have ne: "\<not> ob_erased e 144" using erased_word [of e 144 132] le r(8) by auto
  show ?thesis
  proof (cases "k = 33 \<and> w = 0")
    case True
    have "inspectControl (Some e) = (True, control_clear e (ControlInspection_init\<lparr>ci_kind := kind, ci_schema := schema,
        ci_payload_size := of_nat (length pl), ci_serial := serial, ci_payload := pl @ replicate (116 - length pl) 0\<rparr>))"
      using r c ne ll by (simp add: inspectControl_def ob_sizes u le del: One_nat_def)
    then show ?thesis using True whole free
      by (simp add: ob_sizes control_clear_def u)
  next
    case False
    then show ?thesis using lt commit erased assms(4)
      by (auto simp: inspectControl_def ob_sizes ControlInspection_init_def Let_def)
  qed
qed

theorem control_append_commit_last_witness:
  "\<exists>e. encodeControl kStoreState 1 7 (Some [1, 2, 3]) (length [1, 2, 3 :: u8]) (Some (replicate 144 0)) = Some e \<and>
     ci_evidence (snd (inspectControl (Some (torn_slot kControlRecordSize e 20 0x1234)))) = kControlStaged"
proof -
  obtain e where e: "encodeControl kStoreState 1 7 (Some [1, 2, 3]) (length [1, 2, 3 :: u8]) (Some (replicate 144 0)) = Some e"
    using encodeControl_eq [of "replicate 144 0" "[1, 2, 3]" 3 1 7] by (simp add: numeral_3_eq_3)
  from control_append_commit_last [OF _ _ e, of 20 "0x1234"] show ?thesis
    using e by (simp add: ob_sizes Let_def)
qed

end
