(* ===== verification/Battery_Policy.thy ===== *)
theory Battery_Policy
  imports Prelude
begin

text \<open>
  \<open>firmware/include/battery_policy.h\<close> and \<open>firmware/src/battery_policy.cpp\<close>: the battery state with
  hysteresis and confirmation, the charge estimate, the interval multiplier of a critical battery, and
  the window behind the periodic battery log line.
\<close>

datatype BatteryState = kUnknown | kNormal | kLow | kCritical

definition kLowEnterMv :: u32 where "kLowEnterMv = 3500"
definition kLowExitMv :: u32 where "kLowExitMv = 3600"
definition kCriticalEnterMv :: u32 where "kCriticalEnterMv = 3350"
definition kCriticalExitMv :: u32 where "kCriticalExitMv = 3500"
definition kConfirmReadings :: u8 where "kConfirmReadings = 3"
definition kCriticalIntervalMultiplier :: u32 where "kCriticalIntervalMultiplier = 4"

lemmas battery_consts = kLowEnterMv_def kLowExitMv_def kCriticalEnterMv_def kCriticalExitMv_def

fun batteryStateName :: "BatteryState \<Rightarrow> string" where
  "batteryStateName kUnknown = ''UNKNOWN''"
| "batteryStateName kNormal = ''NORMAL''"
| "batteryStateName kLow = ''LOW''"
| "batteryStateName kCritical = ''CRITICAL''"

section \<open>State with hysteresis\<close>

definition classify :: "u32 \<Rightarrow> BatteryState \<Rightarrow> BatteryState" where
  "classify mv current =
     (case current of
        kCritical \<Rightarrow> if mv \<ge> kLowExitMv then kNormal else if mv \<ge> kCriticalExitMv then kLow else kCritical
      | kLow \<Rightarrow> if mv < kCriticalEnterMv then kCritical else if mv \<ge> kLowExitMv then kNormal else kLow
      | _ \<Rightarrow> if mv < kCriticalEnterMv then kCritical else if mv < kLowEnterMv then kLow else kNormal)"

record BatteryStateTracker =
  bt_state :: BatteryState
  bt_candidate :: BatteryState
  bt_candidate_count :: u8

definition BatteryStateTracker_init :: BatteryStateTracker where
  "BatteryStateTracker_init = \<lparr>bt_state = kUnknown, bt_candidate = kUnknown, bt_candidate_count = 0\<rparr>"

definition bt_update :: "BatteryStateTracker \<Rightarrow> u32 \<Rightarrow> BatteryStateTracker \<times> bool" where
  "bt_update t millivolts =
     (let nxt = classify millivolts (bt_state t) in
      if bt_state t = kUnknown then (t\<lparr>bt_state := nxt, bt_candidate_count := 0\<rparr>, True)
      else if nxt = bt_state t then (t\<lparr>bt_candidate_count := 0\<rparr>, False)
      else
        let t = (if nxt \<noteq> bt_candidate t then t\<lparr>bt_candidate := nxt, bt_candidate_count := 0\<rparr> else t);
            t = t\<lparr>bt_candidate_count := bt_candidate_count t + 1\<rparr> in
        if bt_candidate_count t < kConfirmReadings then (t, False)
        else (t\<lparr>bt_state := nxt, bt_candidate_count := 0\<rparr>, True))"

fun bt_run :: "u32 list \<Rightarrow> BatteryStateTracker \<Rightarrow> BatteryStateTracker" where
  "bt_run [] t = t"
| "bt_run (mv # rest) t = bt_run rest (fst (bt_update t mv))"

text \<open>
  The counting specification: the state in force, and the run of latest readings that all ask for one
  and the same other state.
\<close>

definition pending_run :: "BatteryState \<Rightarrow> u32 list \<Rightarrow> BatteryState \<Rightarrow> nat \<Rightarrow> bool" where
  "pending_run st readings cand n \<longleftrightarrow> n \<le> length readings \<and> cand \<noteq> st \<and>
     (\<forall>mv\<in>set (drop (length readings - n) readings). classify mv st = cand)"

definition bt_inv :: "u32 list \<Rightarrow> BatteryStateTracker \<Rightarrow> bool" where
  "bt_inv readings t \<longleftrightarrow> (readings = [] \<longleftrightarrow> bt_state t = kUnknown) \<and> unat (bt_candidate_count t) < 3 \<and>
     (0 < bt_candidate_count t \<longrightarrow> pending_run (bt_state t) readings (bt_candidate t) (unat (bt_candidate_count t)))"

lemma classify_known: "classify mv st \<noteq> kUnknown"
  by (cases st) (simp_all add: classify_def)

lemma pending_snoc:
  "pending_run st readings cand n \<Longrightarrow> classify mv st = cand \<Longrightarrow> pending_run st (readings @ [mv]) cand (Suc n)"
  by (auto simp: pending_run_def Suc_diff_le)

lemma count_next: "unat (c :: u8) < 3 \<Longrightarrow> unat (c + 1) = Suc (unat c)"
  by (simp add: unat_word_ariths)

lemma bt_update_inv:
  assumes "bt_inv readings t"
  shows "bt_inv (readings @ [mv]) (fst (bt_update t mv))"
proof -
  let ?n = "classify mv (bt_state t)"
  have c3: "unat (bt_candidate_count t) < 3" using assms by (simp add: bt_inv_def)
  show ?thesis
  proof (cases "bt_state t = kUnknown \<or> ?n = bt_state t")
    case True
    then show ?thesis using assms classify_known [of mv] by (auto simp: bt_inv_def bt_update_def Let_def)
  next
    case False
    have k: "unat kConfirmReadings = 3" by (simp add: kConfirmReadings_def)
    show ?thesis
    proof (cases "?n = bt_candidate t \<and> 0 < bt_candidate_count t")
      case True
      then have "pending_run (bt_state t) (readings @ [mv]) (bt_candidate t) (Suc (unat (bt_candidate_count t)))"
        using assms by (intro pending_snoc) (simp_all add: bt_inv_def)
      then show ?thesis using assms False True count_next [OF c3] classify_known [of mv] k
        by (auto simp: bt_inv_def bt_update_def Let_def word_less_nat_alt)
    next
      case f: False
      have "pending_run (bt_state t) (readings @ [mv]) ?n (Suc 0)"
        using False by (simp add: pending_run_def)
      then show ?thesis using assms False f classify_known [of mv] k count_next [OF c3]
        by (auto simp: bt_inv_def bt_update_def Let_def word_less_nat_alt word_gt_0)
    qed
  qed
qed

lemma bt_run_append: "bt_run (xs @ ys) t = bt_run ys (bt_run xs t)"
  by (induction xs arbitrary: t) simp_all

lemma bt_run_inv: "bt_inv readings (bt_run readings BatteryStateTracker_init)"
proof (induction readings rule: rev_induct)
  case Nil
  show ?case by (simp add: bt_inv_def BatteryStateTracker_init_def)
next
  case (snoc mv readings)
  then show ?case using bt_update_inv [OF snoc] by (simp add: bt_run_append)
qed

text \<open>
  One reading under load never switches the battery state.  After the first reading, the tracker
  reports a change only when the latest three readings, this one included, all ask for the new
  state from the state in force.
\<close>
theorem battery_change_confirmed:
  assumes "t = bt_run readings BatteryStateTracker_init" and "bt_update t mv = (t', True)" and "readings \<noteq> []"
  shows "bt_state t' \<noteq> bt_state t \<and> 2 \<le> length readings \<and>
    (\<forall>r\<in>set (mv # drop (length readings - 2) readings). classify r (bt_state t) = bt_state t')"
proof -
  let ?n = "classify mv (bt_state t)"
  have inv: "bt_inv readings t" using bt_run_inv assms(1) by simp
  have u: "bt_state t \<noteq> kUnknown" using inv assms(3) by (simp add: bt_inv_def)
  have c3: "unat (bt_candidate_count t) < 3" using inv by (simp add: bt_inv_def)
  have k: "unat kConfirmReadings = 3" by (simp add: kConfirmReadings_def)
  have ne: "?n \<noteq> bt_state t" using assms(2) u by (auto simp: bt_update_def Let_def)
  have same: "?n = bt_candidate t"
  proof (rule ccontr)
    assume "?n \<noteq> bt_candidate t"
    then show False using assms(2) u ne k by (simp add: bt_update_def Let_def word_less_nat_alt)
  qed
  then have two: "unat (bt_candidate_count t) = 2" and t': "bt_state t' = ?n"
    using assms(2) u ne k count_next [OF c3] c3
    by (auto simp: bt_update_def Let_def word_less_nat_alt split: if_splits)
  then have "0 < bt_candidate_count t" by (simp add: word_gt_0 unat_eq_zero [symmetric])
  then have "pending_run (bt_state t) readings (bt_candidate t) 2" using inv two by (simp add: bt_inv_def)
  then show ?thesis using t' same ne by (auto simp: pending_run_def)
qed

theorem battery_change_confirmed_witness:
  "bt_state (fst (bt_update (bt_run [3700, 3490, 3480] BatteryStateTracker_init) 3470)) = kLow \<and>
   bt_state (bt_run [3700, 3490, 3480] BatteryStateTracker_init) = kNormal"
proof -
  let ?t = "bt_run [3700, 3490, 3480] BatteryStateTracker_init"
  have e: "bt_update ?t 3470 = (fst (bt_update ?t 3470), True)" "bt_state ?t = kNormal" "classify 3470 kNormal = kLow"
    by code_simp+
  have "[3700, 3490, 3480] \<noteq> ([] :: u32 list)" by simp
  from battery_change_confirmed [OF refl e(1) this] show ?thesis using e by simp
qed

section \<open>Charge estimate\<close>

definition kCurve :: "(u16 \<times> u8) list" where
  "kCurve = [(3270, 0), (3610, 5), (3690, 10), (3710, 15), (3730, 20),
      (3750, 25), (3770, 30), (3790, 35), (3800, 40), (3820, 45),
      (3840, 50), (3850, 55), (3870, 60), (3910, 65), (3950, 70),
      (3980, 75), (4020, 80), (4080, 85), (4110, 90), (4150, 95),
      (4200, 100)]"

definition interpolate :: "u16 \<times> u8 \<Rightarrow> u16 \<times> u8 \<Rightarrow> u32 \<Rightarrow> u8" where
  "interpolate lo hi mv =
     (let span_mv = ucast (fst hi) - ucast (fst lo) :: u32; span_pct = ucast (snd hi) - ucast (snd lo) :: u32 in
      ucast (ucast (snd lo) + ((mv - ucast (fst lo)) * span_pct + span_mv div 2) div span_mv))"

fun curve_scan :: "u16 \<times> u8 \<Rightarrow> (u16 \<times> u8) list \<Rightarrow> u32 \<Rightarrow> u8" where
  "curve_scan lo [] mv = 100"
| "curve_scan lo (hi # rest) mv =
     (if mv > ucast (fst hi) then curve_scan hi rest mv else interpolate lo hi mv)"

definition batteryPercentEstimate :: "u32 \<Rightarrow> u8" where
  "batteryPercentEstimate mv =
     (if mv \<le> ucast (fst (hd kCurve)) then 0
      else if mv \<ge> ucast (fst (last kCurve)) then 100
      else curve_scan (hd kCurve) (tl kCurve) mv)"

text \<open>The interpolation over the natural numbers; nothing wraps within the curve.\<close>

definition nat_interp :: "nat \<times> nat \<Rightarrow> nat \<times> nat \<Rightarrow> nat \<Rightarrow> nat" where
  "nat_interp lo hi mv = snd lo + ((mv - fst lo) * (snd hi - snd lo) + (fst hi - fst lo) div 2) div (fst hi - fst lo)"

abbreviation nat_point :: "u16 \<times> u8 \<Rightarrow> nat \<times> nat" where "nat_point p \<equiv> (unat (fst p), unat (snd p))"

lemma nat_interp_bounds:
  assumes "fst lo < fst hi" "snd lo \<le> snd hi" "fst lo \<le> mv" "mv \<le> fst hi"
  shows "snd lo \<le> nat_interp lo hi mv" "nat_interp lo hi mv \<le> snd hi"
proof -
  let ?s = "fst hi - fst lo" and ?p = "snd hi - snd lo"
  have "(mv - fst lo) * ?p \<le> ?s * ?p" using assms(3,4) by (intro mult_right_mono) auto
  then have "((mv - fst lo) * ?p + ?s div 2) div ?s \<le> (?p * ?s + ?s div 2) div ?s"
    by (intro div_le_mono) (simp add: mult.commute)
  also have "\<dots> = ?p" using assms(1) by (simp add: div_mult_self3)
  finally have le: "((mv - fst lo) * ?p + ?s div 2) div ?s \<le> ?p" .
  show "snd lo \<le> nat_interp lo hi mv" by (simp add: nat_interp_def)
  show "nat_interp lo hi mv \<le> snd hi" unfolding nat_interp_def using le assms(2) by linarith
qed

lemma nat_interp_mono: "mv \<le> mv' \<Longrightarrow> nat_interp lo hi mv \<le> nat_interp lo hi mv'"
  by (simp add: nat_interp_def div_le_mono diff_le_mono mult_right_mono)

lemma unat_add_small: "unat x + unat y < 2 ^ 32 \<Longrightarrow> unat (x + y :: u32) = unat x + unat y"
  by (simp add: unat_word_ariths)

lemma interpolate_nat:
  assumes "unat (fst lo) < unat (fst hi)" "unat (snd lo) \<le> unat (snd hi)" "unat (fst lo) \<le> unat mv" "unat mv \<le> unat (fst hi)"
  shows "unat (interpolate lo hi mv) = nat_interp (nat_point lo) (nat_point hi) (unat mv)"
proof -
  have b: "unat (fst lo) < 65536" "unat (fst hi) < 65536" "unat (snd lo) < 256" "unat (snd hi) < 256"
    by (rule unat_lt_16 unat_lt_8)+
  let ?sm = "ucast (fst hi) - ucast (fst lo) :: u32" and ?sp = "ucast (snd hi) - ucast (snd lo) :: u32"
  let ?d = "mv - ucast (fst lo)"
  have uu: "unat (ucast (fst lo) :: u32) = unat (fst lo)" "unat (ucast (fst hi) :: u32) = unat (fst hi)"
    "unat (ucast (snd lo) :: u32) = unat (snd lo)" "unat (ucast (snd hi) :: u32) = unat (snd hi)"
    by (simp_all add: unsigned_ucast_eq take_bit_nat_eq_self_iff b less_trans [OF b(1)] less_trans [OF b(2)]
        less_trans [OF b(3)] less_trans [OF b(4)])
  have sm: "unat ?sm = unat (fst hi) - unat (fst lo)" and sp: "unat ?sp = unat (snd hi) - unat (snd lo)"
    and d: "unat ?d = unat mv - unat (fst lo)"
    using assms uu by (simp_all add: unat_sub word_le_nat_alt)
  have "unat ?d * unat ?sp \<le> 65535 * 255" using b assms by (intro mult_mono) (simp_all add: d sp)
  then have m: "unat (?d * ?sp) = unat ?d * unat ?sp" by (simp add: unat_word_ariths)
  have h: "unat (?sm div 2) = unat ?sm div 2" by (simp add: unat_div)
  have a: "unat (?d * ?sp + ?sm div 2) = unat ?d * unat ?sp + unat ?sm div 2"
    using \<open>unat ?d * unat ?sp \<le> 65535 * 255\<close> b sm by (simp add: unat_word_ariths m h)
  have q: "unat ((?d * ?sp + ?sm div 2) div ?sm) = (unat ?d * unat ?sp + unat ?sm div 2) div unat ?sm"
    by (simp add: unat_div a)
  have le: "nat_interp (nat_point lo) (nat_point hi) (unat mv) \<le> unat (snd hi)"
    using nat_interp_bounds(2) [of "nat_point lo" "nat_point hi" "unat mv"] assms by simp
  have e: "nat_interp (nat_point lo) (nat_point hi) (unat mv) =
      unat (snd lo) + (unat ?d * unat ?sp + unat ?sm div 2) div unat ?sm"
    by (simp add: nat_interp_def d sp sm)
  have "unat (ucast (snd lo) + (?d * ?sp + ?sm div 2) div ?sm :: u32) = nat_interp (nat_point lo) (nat_point hi) (unat mv)"
    using le b unfolding e by (subst unat_add_small) (simp_all add: uu q)
  then show ?thesis using le b
    by (simp add: interpolate_def Let_def unsigned_ucast_eq take_bit_nat_eq_self_iff)
qed

fun curve_ok :: "u16 \<times> u8 \<Rightarrow> (u16 \<times> u8) list \<Rightarrow> bool" where
  "curve_ok lo [] \<longleftrightarrow> snd lo = 100"
| "curve_ok lo (hi # rest) \<longleftrightarrow> fst lo < fst hi \<and> snd lo \<le> snd hi \<and> curve_ok hi rest"

lemma curve_ok_kCurve: "curve_ok (hd kCurve) (tl kCurve)"
  by code_simp

lemma curve_scan_bounds:
  "curve_ok lo rest \<Longrightarrow> unat (fst lo) \<le> unat mv \<Longrightarrow>
   unat (snd lo) \<le> unat (curve_scan lo rest mv) \<and> unat (curve_scan lo rest mv) \<le> 100"
proof (induction lo rest mv rule: curve_scan.induct)
  case (2 lo hi rest mv)
  have u: "unat (ucast (fst hi) :: u32) = unat (fst hi)"
    by (simp add: unsigned_ucast_eq take_bit_nat_eq_self_iff less_trans [OF unat_lt_16])
  have h: "unat (snd hi) \<le> 100" if "curve_ok hi rest" for hi rest
    using that by (induction hi rest rule: curve_ok.induct) (auto simp: word_le_nat_alt)
  show ?case
  proof (cases "mv > ucast (fst hi)")
    case True
    then show ?thesis using 2 u by (simp add: word_less_nat_alt word_le_nat_alt)
  next
    case False
    then have "unat mv \<le> unat (fst hi)" using u by (simp add: word_less_nat_alt)
    then show ?thesis using 2 False interpolate_nat [of lo hi mv] h [of hi rest]
        nat_interp_bounds [of "nat_point lo" "nat_point hi" "unat mv"]
      by (simp add: word_less_nat_alt word_le_nat_alt)
  qed
qed simp

lemma curve_scan_mono:
  "curve_ok lo rest \<Longrightarrow> unat (fst lo) \<le> unat mv \<Longrightarrow> mv \<le> mv' \<Longrightarrow>
   unat (curve_scan lo rest mv) \<le> unat (curve_scan lo rest mv')"
proof (induction lo rest mv rule: curve_scan.induct)
  case (2 lo hi rest mv)
  have u: "unat (ucast (fst hi) :: u32) = unat (fst hi)"
    by (simp add: unsigned_ucast_eq take_bit_nat_eq_self_iff less_trans [OF unat_lt_16])
  consider "mv > ucast (fst hi)" | "\<not> mv > ucast (fst hi)" "mv' > ucast (fst hi)"
    | "\<not> mv > ucast (fst hi)" "\<not> mv' > ucast (fst hi)" by blast
  then show ?case
  proof cases
    case 1
    then have "mv' > ucast (fst hi)" using 2(4) by simp
    then show ?thesis using 1 2 u by (simp add: word_less_nat_alt)
  next
    case c: 2
    have "unat (fst hi) \<le> unat mv'" using c(2) u by (simp add: word_less_nat_alt)
    from curve_scan_bounds [OF _ this, of rest]
    have "unat (snd hi) \<le> unat (curve_scan hi rest mv')" using 2(2) by simp
    moreover have "unat mv \<le> unat (fst hi)" using c(1) u by (simp add: word_less_nat_alt)
    ultimately show ?thesis using c 2(2,3) interpolate_nat [of lo hi mv]
        nat_interp_bounds [of "nat_point lo" "nat_point hi" "unat mv"]
      by (simp add: word_less_nat_alt word_le_nat_alt)
  next
    case 3
    have "unat mv \<le> unat (fst hi)" "unat mv' \<le> unat (fst hi)" "unat (fst lo) \<le> unat mv'" "unat mv \<le> unat mv'"
      using 3 u 2(3,4) by (simp_all add: word_less_nat_alt word_le_nat_alt)
    then show ?thesis using 3 2(2,3) interpolate_nat [of lo hi mv] interpolate_nat [of lo hi mv']
        nat_interp_mono [of "unat mv" "unat mv'"]
      by (simp add: word_less_nat_alt word_le_nat_alt)
  qed
qed simp

text \<open>
  The charge estimate is a percentage and never falls when the voltage rises: it is at most 100,
  0 up to 3270 mV, 100 from 4200 mV, and monotone in between, so that the unsigned arithmetic of the
  interpolation never wraps.
\<close>
theorem battery_percent_monotone:
  assumes "mv \<le> mv'"
  shows "batteryPercentEstimate mv \<le> batteryPercentEstimate mv' \<and> batteryPercentEstimate mv' \<le> 100"
proof -
  have hd: "fst (hd kCurve) = 3270" "fst (last kCurve) = 4200" by (simp_all add: kCurve_def)
  note b = curve_scan_bounds [OF curve_ok_kCurve] and m = curve_scan_mono [OF curve_ok_kCurve]
  have le: "unat (batteryPercentEstimate x) \<le> 100" for x
    using b [of x] by (auto simp: batteryPercentEstimate_def hd word_le_nat_alt)
  have "unat (batteryPercentEstimate mv) \<le> unat (batteryPercentEstimate mv')"
  proof (cases "mv \<le> 3270 \<or> mv' \<ge> 4200")
    case True
    then show ?thesis using assms le [of mv]
      by (auto simp: batteryPercentEstimate_def hd word_le_nat_alt)
  next
    case False
    then show ?thesis using assms m [of mv mv']
      by (auto simp: batteryPercentEstimate_def hd word_le_nat_alt)
  qed
  then show ?thesis using le by (simp add: word_le_nat_alt)
qed

theorem battery_percent_monotone_witness:
  "batteryPercentEstimate 3800 = 40 \<and> batteryPercentEstimate 3805 \<ge> 40"
proof -
  have "batteryPercentEstimate 3800 = 40" by code_simp
  then show ?thesis using battery_percent_monotone [of 3800 3805] by simp
qed

section \<open>The interval in use\<close>

definition batteryAdjustedIntervalMs :: "u32 \<Rightarrow> BatteryState \<Rightarrow> u32" where
  "batteryAdjustedIntervalMs interval_ms state =
     (if state \<noteq> kCritical then interval_ms
      else if interval_ms > UINT32_MAX div kCriticalIntervalMultiplier then UINT32_MAX
      else interval_ms * kCriticalIntervalMultiplier)"

text \<open>
  A critical battery multiplies the tracking interval by four and saturates at the largest
  representable value instead of wrapping; any other state leaves it alone.
\<close>
theorem battery_interval_saturates:
  "unat (batteryAdjustedIntervalMs ms st) = (if st = kCritical then min (4 * unat ms) (2 ^ 32 - 1) else unat ms)"
proof -
  have d: "unat (UINT32_MAX div kCriticalIntervalMultiplier) = 1073741823"
    by (simp add: kCriticalIntervalMultiplier_def unat_div)
  have "unat (ms * kCriticalIntervalMultiplier) = 4 * unat ms" if "unat ms \<le> 1073741823"
    using that by (simp add: kCriticalIntervalMultiplier_def unat_word_ariths)
  then show ?thesis by (auto simp: batteryAdjustedIntervalMs_def word_less_nat_alt d min_def)
qed

section \<open>The log window\<close>

definition kDefaultPeriodReadings :: u16 where "kDefaultPeriodReadings = 10"
definition kMaxPeriodReadings :: u32 where "kMaxPeriodReadings = 1440"

record BatteryLogWindow =
  bw_period :: u16
  bw_count :: u16
  bw_complete :: bool
  bw_last :: u32
  bw_lowest :: u32
  bw_highest :: u32

definition BatteryLogWindow_init :: BatteryLogWindow where
  "BatteryLogWindow_init = \<lparr>bw_period = kDefaultPeriodReadings, bw_count = 0, bw_complete = False,
     bw_last = 0, bw_lowest = 0, bw_highest = 0\<rparr>"

definition bw_setPeriod :: "BatteryLogWindow \<Rightarrow> u32 \<Rightarrow> BatteryLogWindow \<times> bool" where
  "bw_setPeriod w readings =
     (if readings > kMaxPeriodReadings then (w, False)
      else (w\<lparr>bw_period := ucast readings, bw_count := 0, bw_complete := False\<rparr>, True))"

definition bw_add :: "BatteryLogWindow \<Rightarrow> u32 \<Rightarrow> BatteryLogWindow \<times> bool" where
  "bw_add w millivolts =
     (if bw_period w = 0 then (w, False)
      else
        let w = (if bw_count w = 0 \<or> bw_complete w
                 then w\<lparr>bw_count := 0, bw_complete := False, bw_lowest := millivolts, bw_highest := millivolts\<rparr> else w);
            w = w\<lparr>bw_last := millivolts\<rparr>;
            w = (if millivolts < bw_lowest w then w\<lparr>bw_lowest := millivolts\<rparr> else w);
            w = (if millivolts > bw_highest w then w\<lparr>bw_highest := millivolts\<rparr> else w);
            w = w\<lparr>bw_count := bw_count w + 1\<rparr> in
        if bw_count w < bw_period w then (w, False) else (w\<lparr>bw_complete := True\<rparr>, True))"

fun bw_run :: "u32 list \<Rightarrow> BatteryLogWindow \<Rightarrow> BatteryLogWindow" where
  "bw_run [] w = w"
| "bw_run (mv # rest) w = bw_run rest (fst (bw_add w mv))"

definition bw_holds :: "nat \<Rightarrow> u32 list \<Rightarrow> BatteryLogWindow \<Rightarrow> bool" where
  "bw_holds n xs w \<longleftrightarrow> unat (bw_period w) = n \<and> unat (bw_count w) = length xs \<and> bw_complete w = (length xs = n) \<and>
     (xs \<noteq> [] \<longrightarrow> bw_last w = last xs \<and> bw_lowest w = Min (set xs) \<and> bw_highest w = Max (set xs))"

lemma bw_run_append: "bw_run (xs @ ys) w = bw_run ys (bw_run xs w)"
  by (induction xs arbitrary: w) simp_all

lemma bw_add_holds:
  assumes h: "bw_holds n xs w" and lt: "length xs < n"
  shows "bw_holds n (xs @ [mv]) (fst (bw_add w mv)) \<and> snd (bw_add w mv) = (Suc (length xs) = n)"
proof -
  have n: "n < 65536" using h unat_lt_16 [of "bw_period w"] by (simp add: bw_holds_def)
  have c: "unat (bw_count w + 1) = Suc (length xs)" "unat (bw_count w) = length xs"
    using h lt n by (simp_all add: bw_holds_def unat_word_ariths)
  have p: "bw_period w \<noteq> 0" using h lt by (auto simp: bw_holds_def)
  have nc: "\<not> bw_complete w" using h lt by (simp add: bw_holds_def)
  have z: "bw_count w = 0 \<longleftrightarrow> xs = []" using c(2) by (metis length_0_conv unat_eq_zero)
  have lt': "bw_count w + 1 < bw_period w \<longleftrightarrow> Suc (length xs) < n"
    using c h by (simp add: word_less_nat_alt bw_holds_def)
  show ?thesis
  proof (cases "xs = []")
    case True
    have "(1 :: u16) < bw_period w \<longleftrightarrow> Suc 0 < n" using h by (simp add: word_less_nat_alt bw_holds_def)
    then show ?thesis using True h lt p nc z by (auto simp: bw_add_def Let_def bw_holds_def)
  next
    case False
    have mm: "Min (set (xs @ [mv])) = min (Min (set xs)) mv" "Max (set (xs @ [mv])) = max (Max (set xs)) mv"
      using False by (simp_all add: min.commute max.commute)
    define w' where "w' = w\<lparr>bw_last := mv, bw_lowest := min (bw_lowest w) mv, bw_highest := max (bw_highest w) mv,
        bw_count := bw_count w + 1\<rparr>"
    have "bw_add w mv = (if bw_count w + 1 < bw_period w then (w', False) else (w'\<lparr>bw_complete := True\<rparr>, True))"
      using p nc z False
      by (cases mv "bw_lowest w" rule: linorder_cases; cases mv "bw_highest w" rule: linorder_cases)
        (simp_all add: bw_add_def Let_def w'_def min_def max_def)
    then show ?thesis unfolding bw_holds_def mm
      using False h lt nc lt' c(1) by (auto simp: bw_holds_def w'_def)
  qed
qed

lemma bw_run_holds:
  "bw_holds n [] w \<Longrightarrow> length xs \<le> n \<Longrightarrow> bw_holds n xs (bw_run xs w)"
proof (induction xs rule: rev_induct)
  case (snoc mv xs)
  then show ?case using bw_add_holds [of n xs "bw_run xs w" mv] by (simp add: bw_run_append)
qed simp

text \<open>
  A log line describes exactly its period.  After \<open>setPeriod n\<close> the first \<open>n - 1\<close> readings
  complete nothing, the \<open>n\<close>-th completes the period, and \<open>last\<close>, \<open>lowest\<close>, \<open>highest\<close> and \<open>count\<close> are
  then those of precisely these \<open>n\<close> readings, whatever the window held before.
\<close>
theorem battery_log_period_exact:
  assumes "bw_setPeriod w0 (of_nat n) = (w, True)" and "0 < n" and "n \<le> 1440" and "length xs < n"
  shows "let w1 = bw_run xs w; (w2, complete) = bw_add w1 mv; seen = xs @ [mv] in
    complete = (length seen = n) \<and> unat (bw_count w2) = length seen \<and>
    bw_last w2 = mv \<and> bw_lowest w2 = Min (set seen) \<and> bw_highest w2 = Max (set seen)"
proof -
  have "bw_period w = of_nat n \<and> bw_count w = 0 \<and> \<not> bw_complete w"
  proof -
    have "unat (ucast (of_nat n :: u32) :: u16) = unat (of_nat n :: u16)"
      using assms(3) by (simp add: unsigned_ucast_eq unat_of_nat take_bit_nat_eq_self_iff)
    then have "(ucast (of_nat n :: u32) :: u16) = of_nat n" by (simp only: word_unat_eq_iff)
    then show ?thesis using assms(1) by (auto simp: bw_setPeriod_def split: if_splits)
  qed
  then have "bw_holds n [] w" using assms(2,3) by (simp add: bw_holds_def unat_of_nat)
  from bw_run_holds [OF this, of xs] assms(4) have "bw_holds n xs (bw_run xs w)" by simp
  from bw_add_holds [OF this assms(4), of mv] show ?thesis
    by (simp add: Let_def bw_holds_def case_prod_beta)
qed

theorem battery_log_period_exact_witness:
  "let (w2, complete) = bw_add (bw_run [3700, 3650] (fst (bw_setPeriod BatteryLogWindow_init 3))) 3680 in
    complete \<and> bw_lowest w2 = 3650 \<and> bw_highest w2 = 3700"
proof -
  have e: "bw_setPeriod BatteryLogWindow_init (of_nat 3) = (fst (bw_setPeriod BatteryLogWindow_init 3), True)"
    by (simp add: bw_setPeriod_def kMaxPeriodReadings_def)
  show ?thesis
    using battery_log_period_exact [OF e, of "[3700, 3650]" 3680] by (simp add: Let_def case_prod_beta)
qed

end
