(* ===== verification/Bridge_Frame.thy ===== *)
theory Bridge_Frame
  imports Tlp_Packets
begin

text \<open>
  \<open>firmware/include/bridge_frame.h\<close> and \<open>firmware/src/bridge_frame.cpp\<close>: the one-line text form in which
  a receiving node hands an accepted POSITION to its host.  The line writer keeps the characters
  written so far instead of the buffer it writes them to; a character is the byte of its code.
\<close>

record LineWriter =
  lw_text :: string
  lw_size :: nat
  lw_overflowed :: bool

definition LineWriter_init :: "nat \<Rightarrow> LineWriter" where
  "LineWriter_init n = \<lparr>lw_text = [], lw_size = n, lw_overflowed = False\<rparr>"

definition put :: "char \<Rightarrow> LineWriter \<Rightarrow> LineWriter" where
  "put v l = (if length (lw_text l) + 1 < lw_size l then l\<lparr>lw_text := lw_text l @ [v]\<rparr>
                  else l\<lparr>lw_overflowed := True\<rparr>)"

definition put_text :: "string \<Rightarrow> LineWriter \<Rightarrow> LineWriter" where
  "put_text v l = fold put v l"

text \<open>The digits of a number, least significant first, as the loop collects them.\<close>

function decimal_digits :: "u32 \<Rightarrow> string" where
  "decimal_digits v = char_of (48 + unat (v mod 10)) #
     (if v div 10 \<noteq> 0 then decimal_digits (v div 10) else [])"
  by pat_completeness auto
termination
proof (relation "measure unat")
  fix v :: u32 assume "v div 10 \<noteq> 0"
  then have "0 < unat v" by (metis div_0 unat_eq_zero gr0I)
  then show "(v div 10, v) \<in> measure unat" by (simp add: unat_div)
qed simp

declare decimal_digits.simps [simp del]

definition decimal :: "u32 \<Rightarrow> LineWriter \<Rightarrow> LineWriter" where
  "decimal v l = fold put (rev (decimal_digits v)) l"

definition signedDecimal :: "i32 \<Rightarrow> LineWriter \<Rightarrow> LineWriter" where
  "signedDecimal v l =
     (if v <s 0 then decimal (0 - v) (put CHR ''-'' l) else decimal v l)"

definition hex_digit :: "u64 \<Rightarrow> char" where
  "hex_digit nibble = ''0123456789ABCDEF'' ! unat nibble"

definition hex :: "u64 \<Rightarrow> nat \<Rightarrow> LineWriter \<Rightarrow> LineWriter" where
  "hex v digits l = fold (\<lambda>d. put (hex_digit (drop_bit (4 * d) v AND 0xF))) (rev [0..<digits]) l"

definition crc16_bit :: "u16 \<Rightarrow> u16" where
  "crc16_bit crc = (if crc AND 0x8000 \<noteq> 0 then push_bit 1 crc XOR 0x1021 else push_bit 1 crc)"

definition crc16_byte :: "u16 \<Rightarrow> char \<Rightarrow> u16" where
  "crc16_byte crc c = (crc16_bit ^^ 8) (crc XOR push_bit 8 (of_char c))"

definition crc16 :: "string \<Rightarrow> u16" where
  "crc16 text = foldl crc16_byte 0xFFFF text"

record ReceivedPosition =
  rp_line_number :: u32
  rp_uptime_ms :: u32
  rp_receiver_device_id :: u64
  rp_duplicate :: bool
  rp_relayed :: bool
  rp_relay_device_id :: u64
  rp_ingress_rssi_dbm :: i16
  rp_ingress_snr_db :: i8
  rp_link_rssi_dbm :: i16
  rp_link_snr_db :: i8
  rp_packet :: bytes

definition bf_kVersion :: u32 where "bf_kVersion = 1"
definition kMaxLineSize :: nat where "kMaxLineSize = 256"

text \<open>The part before the checksum; the result is the written line, or nothing when it did not fit.\<close>

definition write_fields :: "ReceivedPosition \<Rightarrow> LineWriter \<Rightarrow> LineWriter" where
  "write_fields r l =
     (let l = put_text ''BRIDGE v='' l;
          l = decimal bf_kVersion l;
          l = put_text '' kind=POSITION n='' l;
          l = decimal (rp_line_number r) l;
          l = put_text '' up='' l;
          l = decimal (rp_uptime_ms r) l;
          l = put_text '' node='' l;
          l = hex (rp_receiver_device_id r) 16 l;
          l = put_text '' dup='' l;
          l = put (if rp_duplicate r then CHR ''1'' else CHR ''0'') l;
          l = (if rp_relayed r then
                 let l = put_text '' path=RELAY relay='' l;
                     l = hex (rp_relay_device_id r) 16 l;
                     l = put_text '' in_rssi='' l;
                     l = signedDecimal (scast (rp_ingress_rssi_dbm r)) l;
                     l = put_text '' in_snr='' l
                 in signedDecimal (scast (rp_ingress_snr_db r)) l
               else put_text '' path=DIRECT'' l);
          l = put_text '' rssi='' l;
          l = signedDecimal (scast (rp_link_rssi_dbm r)) l;
          l = put_text '' snr='' l;
          l = signedDecimal (scast (rp_link_snr_db r)) l;
          l = put_text '' raw='' l
      in fold (\<lambda>b. hex (ucast b) 2) (rp_packet r) l)"

definition formatPositionLine :: "ReceivedPosition \<Rightarrow> nat \<Rightarrow> string option" where
  "formatPositionLine r output_size =
     (if output_size = 0 then None
      else
        let l = write_fields r (LineWriter_init output_size);
            checksum = crc16 (lw_text l);
            l = put_text '' crc='' l;
            l = hex (ucast checksum) 4 l in
        if lw_overflowed l then None else Some (lw_text l))"

section \<open>What the writer writes\<close>

text \<open>Every operation of the writer appends one string that does not depend on the writer.\<close>

definition appends :: "(LineWriter \<Rightarrow> LineWriter) \<Rightarrow> string \<Rightarrow> bool" where
  "appends f s \<longleftrightarrow> (\<forall>l. f l = fold put s l)"

lemma appends_put: "appends (put c) [c]"
  by (simp add: appends_def)

lemma appends_text: "appends (put_text s) s"
  by (simp add: appends_def put_text_def)

lemma appends_comp: "appends f s \<Longrightarrow> appends g t \<Longrightarrow> appends (\<lambda>l. g (f l)) (s @ t)"
  by (simp add: appends_def)

definition dec_string :: "u32 \<Rightarrow> string" where "dec_string v = rev (decimal_digits v)"
definition sdec_string :: "i32 \<Rightarrow> string" where
  "sdec_string v = (if v <s 0 then CHR ''-'' # dec_string (0 - v) else dec_string v)"
definition hex_string :: "nat \<Rightarrow> u64 \<Rightarrow> string" where
  "hex_string n v = map (\<lambda>d. hex_digit (drop_bit (4 * d) v AND 0xF)) (rev [0..<n])"

lemma appends_number:
  "appends (decimal v) (dec_string v)" "appends (signedDecimal w) (sdec_string w)" "appends (hex x n) (hex_string n x)"
  by (simp_all add: appends_def decimal_def dec_string_def signedDecimal_def sdec_string_def hex_def hex_string_def
      fold_map comp_def)

lemma appends_fold: "(\<And>x. appends (f x) (g x)) \<Longrightarrow> appends (fold f xs) (concat (map g xs))"
  by (induction xs) (simp_all add: appends_def)

definition field_text :: "ReceivedPosition \<Rightarrow> string" where
  "field_text r =
     ''BRIDGE v='' @ dec_string bf_kVersion @ '' kind=POSITION n='' @ dec_string (rp_line_number r) @
     '' up='' @ dec_string (rp_uptime_ms r) @ '' node='' @ hex_string 16 (rp_receiver_device_id r) @
     '' dup='' @ [if rp_duplicate r then CHR ''1'' else CHR ''0''] @
     (if rp_relayed r
      then '' path=RELAY relay='' @ hex_string 16 (rp_relay_device_id r) @
           '' in_rssi='' @ sdec_string (scast (rp_ingress_rssi_dbm r)) @
           '' in_snr='' @ sdec_string (scast (rp_ingress_snr_db r))
      else '' path=DIRECT'') @
     '' rssi='' @ sdec_string (scast (rp_link_rssi_dbm r)) @ '' snr='' @ sdec_string (scast (rp_link_snr_db r)) @
     '' raw='' @ concat (map (\<lambda>b. hex_string 2 (ucast b)) (rp_packet r))"

definition line_text :: "ReceivedPosition \<Rightarrow> string" where
  "line_text r = field_text r @ '' crc='' @ hex_string 4 (ucast (crc16 (field_text r)))"

lemma write_fields_text: "appends (write_fields r) (field_text r)"
proof -
  have packet: "appends (fold (\<lambda>b. hex (ucast b) 2) (rp_packet r)) (concat (map (\<lambda>b. hex_string 2 (ucast b)) (rp_packet r)))"
    by (rule appends_fold) (rule appends_number)
  show ?thesis
    using packet appends_text appends_put appends_number
    by (simp add: write_fields_def field_text_def appends_def Let_def)
qed

lemma fold_put:
  "lw_overflowed (fold put s l) = (lw_overflowed l \<or> s \<noteq> [] \<and> lw_size l \<le> length (lw_text l) + length s) \<and>
   lw_size (fold put s l) = lw_size l \<and>
   (lw_size l > length (lw_text l) + length s \<longrightarrow> lw_text (fold put s l) = lw_text l @ s)"
proof (induction s arbitrary: l)
  case (Cons c s)
  show ?case
  proof (cases "length (lw_text l) + 1 < lw_size l")
    case True
    then show ?thesis using Cons [of "put c l"] by (auto simp: put_def)
  next
    case False
    then show ?thesis using Cons [of "put c l"] by (auto simp: put_def)
  qed
qed simp

lemma format_exact:
  "formatPositionLine r n = (if length (line_text r) < n then Some (line_text r) else None)"
proof (cases "n = 0")
  case False
  let ?l0 = "LineWriter_init n"
  have w: "write_fields r ?l0 = fold put (field_text r) ?l0" using write_fields_text by (simp add: appends_def)
  define rest where "rest = (\<lambda>k :: u16. '' crc='' @ hex_string 4 (ucast k))"
  have r: "hex (ucast k) 4 (put_text '' crc='' l) = fold put (rest k) l" for k l
    using appends_text [of "'' crc=''"] appends_number(3) [of "ucast k" 4] by (simp add: appends_def rest_def)
  have lr: "length (rest k) = 9" for k by (simp add: rest_def hex_string_def)
  let ?k = "crc16 (lw_text (fold put (field_text r) ?l0))"
  have f: "formatPositionLine r n = (let l = fold put (field_text r @ rest ?k) ?l0 in
      if lw_overflowed l then None else Some (lw_text l))"
    using False by (simp add: formatPositionLine_def w r Let_def)
  have i: "lw_text ?l0 = []" "lw_size ?l0 = n" "\<not> lw_overflowed ?l0" by (simp_all add: LineWriter_init_def)
  have ll: "length (line_text r) = length (field_text r) + 9" by (simp add: line_text_def hex_string_def)
  have ov: "lw_overflowed (fold put (field_text r @ rest ?k) ?l0) \<longleftrightarrow> n \<le> length (line_text r)"
    using fold_put [of "field_text r @ rest ?k" ?l0] i lr by (auto simp: ll rest_def)
  show ?thesis
  proof (cases "length (line_text r) < n")
    case True
    then have "lw_text (fold put (field_text r) ?l0) = field_text r"
      using fold_put [of "field_text r" ?l0] i ll by simp
    then have k: "field_text r @ rest ?k = line_text r" by (simp add: rest_def line_text_def)
    have "lw_text (fold put (line_text r) ?l0) = line_text r" using fold_put [of "line_text r" ?l0] i True by simp
    then show ?thesis using True ov unfolding f k by (simp add: Let_def)
  next
    case False
    then show ?thesis using ov unfolding f by (simp add: Let_def)
  qed
qed (simp add: formatPositionLine_def)

section \<open>Length of a line\<close>

lemma length_digits: "unat v < 10 ^ Suc k \<Longrightarrow> length (decimal_digits v) \<le> Suc k"
proof (induction k arbitrary: v)
  case 0
  then have "v div 10 = 0" by (simp add: word_unat_eq_iff unat_div)
  then show ?case by (simp add: decimal_digits.simps [of v])
next
  case (Suc k)
  then have "unat (v div 10) < 10 ^ Suc k" by (simp add: unat_div)
  then show ?case using Suc.IH [of "v div 10"] by (simp add: decimal_digits.simps [of v])
qed

lemma length_dec: "length (dec_string v) \<le> 10"
  using length_digits [of v 9] unat_lt_32 [of v] by (simp add: dec_string_def)

lemma negated_magnitude:
  fixes w :: i32
  assumes "w <s 0"
  shows "int (unat (0 - w)) = - sint w"
proof -
  have n: "sint w < 0" using assms by (simp add: word_sless_alt)
  have l: "- (2 ^ 31) \<le> sint w" using sint_ge [of w] by simp
  have "of_int (sint w) = w" by simp
  then have "0 - w = of_int (0 - sint w)" by (simp only: of_int_diff of_int_0)
  then have "uint (0 - w) = uint (of_int (0 - sint w) :: i32)" by (rule arg_cong)
  also have "\<dots> = (0 - sint w) mod 2 ^ LENGTH(32)" by (rule uint_word_of_int)
  finally have "uint (0 - w) = - sint w" using n l by (simp add: mod_pos_pos_trivial)
  then show ?thesis by (simp only: uint_nat)
qed

lemma nonneg_magnitude:
  fixes w :: i32
  assumes "\<not> w <s 0"
  shows "int (unat w) = sint w"
proof -
  have n: "0 \<le> sint w" using assms by (simp add: word_sless_alt)
  have l: "sint w < 2 ^ 31" using sint_lt [of w] by simp
  have "uint w = uint (of_int (sint w) :: i32)" by simp
  also have "\<dots> = sint w mod 2 ^ LENGTH(32)" by (rule uint_word_of_int)
  finally have "uint w = sint w" using n l by (simp add: mod_pos_pos_trivial)
  then show ?thesis by (simp only: uint_nat)
qed

lemma length_sdec:
  assumes "- (10 ^ Suc k) < sint w" "sint w < 10 ^ Suc k"
  shows "length (sdec_string w) \<le> Suc (Suc k)"
proof (cases "w <s 0")
  case True
  then have "int (unat (0 - w)) < 10 ^ Suc k" using negated_magnitude assms(1) by simp
  then have "unat (0 - w) < 10 ^ Suc k" by (metis of_nat_less_iff of_nat_numeral of_nat_power)
  then show ?thesis using length_digits [of "0 - w" k] True by (simp add: sdec_string_def dec_string_def)
next
  case False
  then have "int (unat w) < 10 ^ Suc k" using nonneg_magnitude assms(2) by simp
  then have "unat w < 10 ^ Suc k" by (metis of_nat_less_iff of_nat_numeral of_nat_power)
  then show ?thesis using length_digits [of w k] False by (simp add: sdec_string_def dec_string_def)
qed

lemma length_rssi: "length (sdec_string (scast (x :: i16))) \<le> 6"
proof -
  have "sint (scast x :: i32) = sint x" by (simp add: sint_up_scast is_up)
  then show ?thesis using length_sdec [where k = 4 and w = "scast x"] sint_ge [of x] sint_lt [of x] by simp
qed

lemma length_snr: "length (sdec_string (scast (x :: i8))) \<le> 4"
proof -
  have "sint (scast x :: i32) = sint x" by (simp add: sint_up_scast is_up)
  then show ?thesis using length_sdec [where k = 2 and w = "scast x"] sint_ge [of x] sint_lt [of x] by simp
qed

lemma length_hex [simp]: "length (hex_string n v) = n"
  by (simp add: hex_string_def)

lemma length_raw: "length (concat (map (\<lambda>b. hex_string 2 (ucast b)) (bs :: bytes))) = 2 * length bs"
  by (induction bs) simp_all

lemma length_line:
  assumes "length (rp_packet r) = 34"
  shows "length (line_text r) \<le> 243"
proof -
  have v: "dec_string bf_kVersion = ''1''" by (simp add: dec_string_def bf_kVersion_def decimal_digits.simps) code_simp
  show ?thesis
    using length_dec [of "rp_line_number r"] length_dec [of "rp_uptime_ms r"] length_rssi [of "rp_link_rssi_dbm r"]
      length_rssi [of "rp_ingress_rssi_dbm r"] length_snr [of "rp_link_snr_db r"] length_snr [of "rp_ingress_snr_db r"]
    by (simp add: line_text_def field_text_def length_raw assms v)
qed

text \<open>
  A line is printed whole or not at all.  The formatter returns the complete line, checksum
  included, exactly when it fits with its terminator, and nothing otherwise; no line of a 34-byte
  packet is longer than 243 characters, so the 256-byte buffer of the firmware always holds it.
\<close>
theorem bridge_line_whole:
  assumes "length (rp_packet r) = 34"
  shows "formatPositionLine r n = (if length (line_text r) < n then Some (line_text r) else None) \<and>
    length (line_text r) \<le> 243 \<and> formatPositionLine r kMaxLineSize = Some (line_text r)"
  using format_exact [of r] length_line [OF assms] by (simp add: kMaxLineSize_def)

definition bridge_sample :: ReceivedPosition where
  "bridge_sample = \<lparr>rp_line_number = 7, rp_uptime_ms = 123456, rp_receiver_device_id = 0xAB, rp_duplicate = False,
     rp_relayed = True, rp_relay_device_id = 0xCD, rp_ingress_rssi_dbm = -97, rp_ingress_snr_db = -4,
     rp_link_rssi_dbm = -80, rp_link_snr_db = 9, rp_packet = replicate 33 0x5A @ [0xF1]\<rparr>"

theorem bridge_line_whole_witness:
  "formatPositionLine bridge_sample kMaxLineSize = Some (line_text bridge_sample)"
proof -
  have "length (rp_packet bridge_sample) = 34" by (simp add: bridge_sample_def)
  then show ?thesis using bridge_line_whole by blast
qed

section \<open>What a host can read back\<close>

lemma hex_digit_inj:
  assumes "unat x < 16" "unat y < 16" "hex_digit x = hex_digit y"
  shows "x = y"
proof -
  have "distinct ''0123456789ABCDEF''" by simp
  then have "unat x = unat y" using assms nth_eq_iff_index_eq [of "''0123456789ABCDEF''" "unat x" "unat y"]
    by (simp add: hex_digit_def)
  then show ?thesis by (simp only: word_unat_eq_iff)
qed

lemma hex_byte_inj:
  fixes a b :: u8
  assumes "hex_string 2 (ucast a) = hex_string 2 (ucast b)"
  shows "a = b"
proof -
  have nib: "unat (w AND 0xF) < 16" for w :: u64
  proof -
    have "w AND 0xF = take_bit 4 w" by (simp add: take_bit_eq_mask mask_eq_exp_minus_1)
    then show ?thesis by (simp add: unsigned_take_bit_eq take_bit_nat_less_exp [of 4, simplified])
  qed
  have two: "rev [0..<2] = [1, 0 :: nat]" by (simp add: upt_rec)
  have "hex_digit (drop_bit 4 (ucast a) AND 0xF) = hex_digit (drop_bit 4 (ucast b) AND 0xF)"
    "hex_digit (ucast a AND 0xF) = hex_digit (ucast b AND 0xF)"
    using assms by (simp_all add: hex_string_def two)
  then have e: "drop_bit 4 (ucast a) AND 0xF = (drop_bit 4 (ucast b) AND 0xF :: u64)"
    "ucast a AND 0xF = (ucast b AND 0xF :: u64)"
    using hex_digit_inj nib by blast+
  show ?thesis
  proof (rule bit_word_eqI)
    fix k assume "k < LENGTH(8)"
    then have k8: "k < 8" by simp
    have m: "bit (0xF :: u64) i \<longleftrightarrow> i < 4" for i
    proof -
      have f: "(0xF :: u64) = mask 4" by (simp add: mask_eq_exp_minus_1)
      show ?thesis unfolding f by (auto simp: bit_mask_iff)
    qed
    show "bit a k = bit b k"
    proof (cases "k < 4")
      case True
      have "bit (ucast a AND 0xF :: u64) k = bit (ucast b AND 0xF :: u64) k" by (simp only: e)
      then show ?thesis using True k8 unfolding bit_and_iff m bit_ucast_iff by simp
    next
      case False
      have "bit (drop_bit 4 (ucast a) AND 0xF :: u64) (k - 4) = bit (drop_bit 4 (ucast b) AND 0xF :: u64) (k - 4)"
        by (simp only: e)
      moreover have "k - 4 < 4" using False k8 by linarith
      ultimately show ?thesis using False k8 unfolding bit_and_iff m bit_drop_bit_eq comp_def bit_ucast_iff by simp
    qed
  qed
qed

lemma raw_inj:
  "length xs = length ys \<Longrightarrow> concat (map (\<lambda>b. hex_string 2 (ucast b)) xs) = concat (map (\<lambda>b. hex_string 2 (ucast b)) ys) \<Longrightarrow>
   xs = (ys :: bytes)"
proof (induction xs ys rule: list_induct2)
  case (Cons x xs y ys)
  then have "hex_string 2 (ucast x) = hex_string 2 (ucast y)"
    "concat (map (\<lambda>b. hex_string 2 (ucast b)) xs) = concat (map (\<lambda>b. hex_string 2 (ucast b)) ys)"
    by (simp_all add: append_eq_append_conv)
  then show ?case using Cons.IH hex_byte_inj by simp
qed simp

text \<open>
  The original packet survives the trip to the host.  Two received positions that print the same
  line carry the same 34 bytes, whatever the other fields are.
\<close>
theorem bridge_line_carries_packet:
  assumes "length (rp_packet r) = 34" and "length (rp_packet q) = 34"
    and "formatPositionLine r n = Some line" and "formatPositionLine q m = Some line"
  shows "rp_packet r = rp_packet q"
proof -
  have "line_text r = line_text q" using assms(3,4) by (simp add: format_exact split: if_splits)
  then have f: "field_text r = field_text q"
    by (simp add: line_text_def append_eq_append_conv)
  obtain a b where "field_text r = a @ concat (map (\<lambda>b. hex_string 2 (ucast b)) (rp_packet r))"
    "field_text q = b @ concat (map (\<lambda>b. hex_string 2 (ucast b)) (rp_packet q))"
    unfolding field_text_def by (metis append.assoc)
  then have "concat (map (\<lambda>b. hex_string 2 (ucast b)) (rp_packet r)) = concat (map (\<lambda>b. hex_string 2 (ucast b)) (rp_packet q))"
    using f assms(1,2) by (simp add: append_eq_append_conv length_raw)
  then show ?thesis using raw_inj assms(1,2) by simp
qed

theorem bridge_line_carries_packet_witness:
  "\<exists>line. formatPositionLine bridge_sample 244 = Some line \<and> formatPositionLine bridge_sample 250 = Some line"
proof -
  have l: "length (rp_packet bridge_sample) = 34" by (simp add: bridge_sample_def)
  have e: "formatPositionLine bridge_sample 244 = Some (line_text bridge_sample)"
    "formatPositionLine bridge_sample 250 = Some (line_text bridge_sample)"
    using format_exact [of bridge_sample] length_line [OF l] by simp_all
  have "rp_packet bridge_sample = rp_packet bridge_sample"
    by (rule bridge_line_carries_packet [OF l l e])
  then show ?thesis using e by simp
qed

section \<open>Decimal fields\<close>

definition dec_value :: "string \<Rightarrow> nat" where
  "dec_value s = foldl (\<lambda>a c. 10 * a + (of_char c - 48)) 0 s"

lemma unat_ten: "unat (10 :: u32) = 10"
  by simp

lemma dec_value_digits: "dec_value (rev (decimal_digits v)) = unat v"
proof (induction v rule: decimal_digits.induct)
  case (1 v)
  have d: "of_char (char_of (48 + unat (v mod 10)) :: char) - 48 = unat v mod 10"
  proof -
    have "unat v mod 10 < 10" by simp
    then have "(48 + unat v mod 10) mod 256 = 48 + unat v mod 10" by (intro mod_less) linarith
    then show ?thesis by (simp add: unat_mod)
  qed
  show ?case
  proof (cases "v div 10 = 0")
    case True
    then have "unat v div 10 = 0" by (metis unat_div unsigned_0 unat_ten)
    then show ?thesis using d True by (simp add: decimal_digits.simps [of v] dec_value_def)
  next
    case False
    then show ?thesis using 1 [OF False] d
      by (simp add: decimal_digits.simps [of v] dec_value_def unat_div)
  qed
qed

text \<open>
  Decimal fields read back exactly: the digits printed for any 32-bit number denote that number.
\<close>
theorem bridge_decimal_exact:
  "dec_value (lw_text (decimal v (LineWriter_init 12))) = unat v"
proof -
  have "decimal v (LineWriter_init 12) = fold put (dec_string v) (LineWriter_init 12)"
    using appends_number(1) by (simp add: appends_def)
  then have "lw_text (decimal v (LineWriter_init 12)) = dec_string v"
    using fold_put [of "dec_string v" "LineWriter_init 12"] length_dec [of v] by (simp add: LineWriter_init_def)
  then show ?thesis by (simp add: dec_string_def dec_value_digits)
qed

end
