(* ===== verification/Loop_Health.thy ===== *)
theory Loop_Health
  imports Prelude
begin

text \<open>
  \<open>firmware/include/loop_health.h\<close> and \<open>firmware/src/loop_health.cpp\<close>: the stage the cooperative
  loop is in, the byte in which a stall or a hard fault survives the reset, the detector the
  independent timer feeds and the statistics of idle sleeps.  The enumeration has an underlying byte,
  so any byte is a stage; the named ones are constants.
\<close>

type_synonym LoopStage = u8

definition kNone :: LoopStage where "kNone = 0"
definition kGnss :: LoopStage where "kGnss = 1"
definition kAccelerometer :: LoopStage where "kAccelerometer = 2"
definition kActivity :: LoopStage where "kActivity = 3"
definition kUsbCommands :: LoopStage where "kUsbCommands = 4"
definition kServices :: LoopStage where "kServices = 5"
definition kBle :: LoopStage where "kBle = 6"
definition kFlashEvents :: LoopStage where "kFlashEvents = 7"
definition kHistoryStore :: LoopStage where "kHistoryStore = 8"
definition kConfigStore :: LoopStage where "kConfigStore = 9"
definition kSecurityStore :: LoopStage where "kSecurityStore = 10"
definition kConfigMutation :: LoopStage where "kConfigMutation = 11"
definition kPositionFlow :: LoopStage where "kPositionFlow = 12"
definition kFixHandling :: LoopStage where "kFixHandling = 13"
definition kRadio :: LoopStage where "kRadio = 14"
definition kStoreForward :: LoopStage where "kStoreForward = 15"
definition kIdle :: LoopStage where "kIdle = 16"
definition kBattery :: LoopStage where "kBattery = 17"
definition kGeofenceStore :: LoopStage where "kGeofenceStore = 18"
definition kProductStore :: LoopStage where "kProductStore = 19"
definition kLoopStageMaxValue :: u8 where "kLoopStageMaxValue = 63"

definition loop_stage_names :: "string list" where
  "loop_stage_names = [''NONE'', ''GNSS'', ''ACCEL'', ''ACTIVITY'', ''USB'', ''SERVICES'', ''BLE'', ''FLASH_EVENTS'',
     ''HISTORY'', ''CONFIG'', ''SECURITY'', ''CONFIG_MUTATION'', ''POSITION'', ''FIX'', ''RADIO'', ''STORE_FORWARD'',
     ''IDLE'', ''BATTERY'', ''GEOFENCE'', ''PRODUCT'']"

definition loopStageName :: "LoopStage \<Rightarrow> string" where
  "loopStageName stage =
     (if unat stage < length loop_stage_names then loop_stage_names ! unat stage else ''UNKNOWN'')"

record LoopStallRecord =
  lr_stall_captured :: bool
  lr_hard_fault :: bool
  lr_stage :: LoopStage

definition kStallCapturedBit :: u8 where "kStallCapturedBit = 0x80"
definition kHardFaultBit :: u8 where "kHardFaultBit = 0x40"
definition kStageMask :: u8 where "kStageMask = 0x3F"
definition kEmpty :: u8 where "kEmpty = 0"

definition encodeStall :: "LoopStage \<Rightarrow> u8" where
  "encodeStall stage = kStallCapturedBit OR (stage AND kStageMask)"

definition encodeHardFault :: "LoopStage \<Rightarrow> u8" where
  "encodeHardFault stage = kHardFaultBit OR (stage AND kStageMask)"

definition lh_decode :: "u8 \<Rightarrow> LoopStallRecord" where
  "lh_decode v =
     (let r = \<lparr>lr_stall_captured = v AND kStallCapturedBit \<noteq> 0, lr_hard_fault = v AND kHardFaultBit \<noteq> 0,
               lr_stage = kNone\<rparr> in
      if lr_stall_captured r \<or> lr_hard_fault r then r\<lparr>lr_stage := v AND kStageMask\<rparr> else r)"

datatype Action = kNoAction | kCapture | kClear

record LoopStallDetector =
  ld_capture_after_ticks :: u8
  ld_stalled_ticks :: u8
  ld_captured :: bool
  ld_seen_any :: bool
  ld_last_completed_passes :: u32
  ld_recovered_stalls :: u32

definition LoopStallDetector_init :: "u8 \<Rightarrow> LoopStallDetector" where
  "LoopStallDetector_init n = \<lparr>ld_capture_after_ticks = n, ld_stalled_ticks = 0, ld_captured = False,
     ld_seen_any = False, ld_last_completed_passes = 0, ld_recovered_stalls = 0\<rparr>"

definition onTick :: "u32 \<Rightarrow> LoopStallDetector \<Rightarrow> Action \<times> LoopStallDetector" where
  "onTick completed_passes d =
     (if \<not> ld_seen_any d \<or> completed_passes \<noteq> ld_last_completed_passes d then
        let d = d\<lparr>ld_seen_any := True, ld_last_completed_passes := completed_passes, ld_stalled_ticks := 0\<rparr> in
        if ld_captured d
        then (kClear, d\<lparr>ld_captured := False, ld_recovered_stalls := ld_recovered_stalls d + 1\<rparr>)
        else (kNoAction, d)
      else if ld_captured d then (kNoAction, d)
      else
        let d = (if ld_stalled_ticks d < ld_capture_after_ticks d
                 then d\<lparr>ld_stalled_ticks := ld_stalled_ticks d + 1\<rparr> else d) in
        if ld_stalled_ticks d \<ge> ld_capture_after_ticks d then (kCapture, d\<lparr>ld_captured := True\<rparr>)
        else (kNoAction, d))"

record IdleSleepStats =
  is_oversleep_threshold_ms :: u32
  is_oversleeps :: u32
  is_longest_ms :: u32

definition IdleSleepStats_init :: "u32 \<Rightarrow> IdleSleepStats" where
  "IdleSleepStats_init n = \<lparr>is_oversleep_threshold_ms = n, is_oversleeps = 0, is_longest_ms = 0\<rparr>"

definition is_record :: "u32 \<Rightarrow> IdleSleepStats \<Rightarrow> IdleSleepStats" where
  "is_record measured_ms s =
     (let s = (if measured_ms > is_longest_ms s then s\<lparr>is_longest_ms := measured_ms\<rparr> else s) in
      if measured_ms \<ge> is_oversleep_threshold_ms s \<and> is_oversleeps s \<noteq> UINT32_MAX
      then s\<lparr>is_oversleeps := is_oversleeps s + 1\<rparr> else s)"

section \<open>The detector against its history\<close>

text \<open>
  The history of the pass counters the timer has seen, latest first, the state it leads to, and the
  number of ticks since the counter last changed.
\<close>

fun detector_after :: "u8 \<Rightarrow> u32 list \<Rightarrow> LoopStallDetector" where
  "detector_after n [] = LoopStallDetector_init n"
| "detector_after n (p # h) = snd (onTick p (detector_after n h))"

fun stalled_for :: "u32 list \<Rightarrow> nat" where
  "stalled_for (p # q # h) = (if p = q then Suc (stalled_for (q # h)) else 0)"
| "stalled_for h = 0"

lemma next_tick:
  fixes s :: u8
  assumes "s < n"
  shows "unat (s + 1) = Suc (unat s)"
proof -
  have "unat s < unat n" using assms by (simp add: word_less_nat_alt)
  then have "unat s + 1 < 2 ^ 8" using unat_lt_8 [of n] by simp
  then show ?thesis by (simp add: unat_word_ariths)
qed

lemma detector_state:
  "ld_capture_after_ticks (detector_after n h) = n \<and> ld_seen_any (detector_after n h) = (h \<noteq> []) \<and>
   (h \<noteq> [] \<longrightarrow> ld_last_completed_passes (detector_after n h) = hd h) \<and>
   ld_captured (detector_after n h) = (max 1 (unat n) \<le> stalled_for h) \<and>
   unat (ld_stalled_ticks (detector_after n h)) = min (stalled_for h) (unat n)"
proof (induction h)
  case Nil
  show ?case by (simp add: LoopStallDetector_init_def)
next
  case (Cons p h)
  let ?d = "detector_after n h"
  show ?case
  proof (cases "h = [] \<or> p \<noteq> hd h")
    case True
    then have "stalled_for (p # h) = 0" by (cases h) auto
    then show ?thesis using True Cons by (auto simp: onTick_def Let_def)
  next
    case False
    then have st: "stalled_for (p # h) = Suc (stalled_for h)" by (cases h) auto
    show ?thesis
    proof (cases "ld_captured ?d")
      case True
      then show ?thesis using False Cons st by (auto simp: onTick_def)
    next
      case nc: False
      then have lt: "stalled_for h < max 1 (unat n)" using Cons unfolding not_le [symmetric] by blast
      show ?thesis
      proof (cases "ld_stalled_ticks ?d < n")
        case True
        then have "unat (ld_stalled_ticks ?d + 1) = Suc (unat (ld_stalled_ticks ?d))" by (rule next_tick)
        moreover have "unat (ld_stalled_ticks ?d) < unat n" using True by (simp add: word_less_nat_alt)
        ultimately show ?thesis using False nc True Cons st lt
          by (auto simp: onTick_def Let_def word_le_nat_alt)
      next
        case ge: False
        then have "unat n \<le> unat (ld_stalled_ticks ?d)" by (simp add: word_le_nat_alt not_less)
        then have "unat n = 0" "stalled_for h = 0" using Cons lt by auto
        then show ?thesis using False nc ge Cons st by (auto simp: onTick_def Let_def not_less)
      qed
    qed
  qed
qed

text \<open>
  C40: A stall is captured once, on time, and cleared when it ends.  For every sequence of pass counters
  the independent timer sees, the detector answers a tick with a capture exactly when the counter has
  then stood still for the configured number of ticks (one, when that is zero), with a clear exactly
  when the counter moves after a captured stall, and with nothing otherwise.
\<close>
theorem loop_stall_detection_exact:
  "fst (onTick p (detector_after n h)) =
     (if h \<noteq> [] \<and> p = hd h \<and> Suc (stalled_for h) = max 1 (unat n) then kCapture
      else if h \<noteq> [] \<and> p \<noteq> hd h \<and> max 1 (unat n) \<le> stalled_for h then kClear
      else kNoAction)"
proof -
  let ?d = "detector_after n h"
  note d = detector_state [of n h]
  show ?thesis
  proof (cases "h = [] \<or> p \<noteq> hd h")
    case True
    then have "h = [] \<Longrightarrow> stalled_for h = 0" by simp
    then show ?thesis using True d by (auto simp: onTick_def Let_def)
  next
    case False
    show ?thesis
    proof (cases "ld_captured ?d")
      case True
      then show ?thesis using False d by (auto simp: onTick_def)
    next
      case nc: False
      then have lt: "stalled_for h < max 1 (unat n)" using d unfolding not_le [symmetric] by blast
      show ?thesis
      proof (cases "ld_stalled_ticks ?d < n")
        case True
        then have "unat (ld_stalled_ticks ?d + 1) = Suc (unat (ld_stalled_ticks ?d))" by (rule next_tick)
        moreover have "unat (ld_stalled_ticks ?d) < unat n" using True by (simp add: word_less_nat_alt)
        ultimately show ?thesis using False nc True d lt
          by (auto simp: onTick_def Let_def word_le_nat_alt)
      next
        case ge: False
        then have "unat n \<le> unat (ld_stalled_ticks ?d)" by (simp add: word_le_nat_alt not_less)
        then have "unat n = 0" "stalled_for h = 0" using d lt by auto
        then show ?thesis using False nc ge d by (auto simp: onTick_def Let_def not_less)
      qed
    qed
  qed
qed

section \<open>What survives the reset\<close>

lemma retained_bits:
  "encodeStall stage AND kStallCapturedBit = kStallCapturedBit" "encodeStall stage AND kHardFaultBit = 0"
  "encodeStall stage AND kStageMask = stage AND kStageMask"
  "encodeHardFault stage AND kStallCapturedBit = 0" "encodeHardFault stage AND kHardFaultBit = kHardFaultBit"
  "encodeHardFault stage AND kStageMask = stage AND kStageMask"
  by (simp_all add: encodeStall_def encodeHardFault_def kStallCapturedBit_def kHardFaultBit_def kStageMask_def
      and.assoc bit.conj_disj_distrib2)

lemma retained_roundtrip:
  assumes "stage \<le> kLoopStageMaxValue"
  shows "lh_decode (encodeStall stage) = \<lparr>lr_stall_captured = True, lr_hard_fault = False, lr_stage = stage\<rparr>"
    and "lh_decode (encodeHardFault stage) = \<lparr>lr_stall_captured = False, lr_hard_fault = True, lr_stage = stage\<rparr>"
proof -
  have "unat stage < 2 ^ 6" using assms by (simp add: word_le_nat_alt kLoopStageMaxValue_def)
  then have "take_bit 6 stage = stage" by (metis take_bit_nat_eq_self unsigned_take_bit_eq word_unat_eq_iff)
  moreover have "kStageMask = mask 6" by (simp add: kStageMask_def mask_eq_exp_minus_1)
  ultimately have m: "stage AND kStageMask = stage" by (simp add: take_bit_eq_mask)
  have nz: "kStallCapturedBit \<noteq> 0" "kHardFaultBit \<noteq> 0" by (simp_all add: kStallCapturedBit_def kHardFaultBit_def)
  show "lh_decode (encodeStall stage) = \<lparr>lr_stall_captured = True, lr_hard_fault = False, lr_stage = stage\<rparr>"
    "lh_decode (encodeHardFault stage) = \<lparr>lr_stall_captured = False, lr_hard_fault = True, lr_stage = stage\<rparr>"
    using nz by (simp_all add: lh_decode_def retained_bits m Let_def)
qed

section \<open>Idle sleeps\<close>

lemma is_record_fields:
  "is_oversleep_threshold_ms (is_record m s) = is_oversleep_threshold_ms s"
  "is_longest_ms (is_record m s) = max m (is_longest_ms s)"
  "is_oversleeps (is_record m s) =
     (if is_oversleep_threshold_ms s \<le> m \<and> is_oversleeps s \<noteq> UINT32_MAX then is_oversleeps s + 1 else is_oversleeps s)"
  by (auto simp: is_record_def Let_def max_def)

text \<open>The statistics of any sequence of measurements, latest first.\<close>

lemma idle_sleep_exact:
  "is_oversleep_threshold_ms (foldr is_record ms (IdleSleepStats_init t)) = t \<and>
   is_longest_ms (foldr is_record ms (IdleSleepStats_init t)) = foldr max ms 0 \<and>
   unat (is_oversleeps (foldr is_record ms (IdleSleepStats_init t))) =
     min (length (filter (\<lambda>m. t \<le> m) ms)) (2 ^ 32 - 1)"
proof (induction ms)
  case Nil
  show ?case by (simp add: IdleSleepStats_init_def)
next
  case (Cons m ms)
  let ?s = "foldr is_record ms (IdleSleepStats_init t)"
  have step: "unat (c + 1) = Suc (unat c)" if "c \<noteq> UINT32_MAX" for c :: u32
  proof -
    have "unat c \<noteq> unat UINT32_MAX" using that word_unat_eq_iff by blast
    moreover have "unat UINT32_MAX = 2 ^ 32 - 1" by simp
    ultimately have "unat c + 1 < 2 ^ 32" using unat_lt_32 [of c] by linarith
    then show ?thesis by (simp add: unat_word_ariths)
  qed
  have top: "is_oversleeps ?s = UINT32_MAX \<Longrightarrow> unat (is_oversleeps ?s) = 2 ^ 32 - 1" by simp
  have below: "is_oversleeps ?s \<noteq> UINT32_MAX \<Longrightarrow> unat (is_oversleeps ?s) < 2 ^ 32 - 1"
  proof -
    assume "is_oversleeps ?s \<noteq> UINT32_MAX"
    then have "unat (is_oversleeps ?s) \<noteq> unat UINT32_MAX" using word_unat_eq_iff by blast
    moreover have "unat UINT32_MAX = 2 ^ 32 - 1" by simp
    ultimately show ?thesis using unat_lt_32 [of "is_oversleeps ?s"] by linarith
  qed
  show ?case
    using Cons step [of "is_oversleeps ?s"] top below
    by (cases "is_oversleeps ?s = UINT32_MAX") (auto simp: is_record_fields)
qed

end
