(* ===== verification/Ble_Admission.thy ===== *)
theory Ble_Admission
  imports Monotonic_Time
begin

text \<open>
  \<open>firmware/include/ble_admission_policy.h\<close> and \<open>firmware/src/ble_admission_policy.cpp\<close>: when the
  Bluetooth window of a tracker closes and when advertising must be restarted.  Times are the wrapping
  32-bit milliseconds of the loop; the caller's physical actions are the values \<open>update\<close> returns.
\<close>

definition kNoClientTimeoutMs :: u32 where "kNoClientTimeoutMs = 600000"
definition kRetryIntervalMs :: u32 where "kRetryIntervalMs = 1000"

datatype BleAdmissionAction = kNone | kClose | kStartAdvertising
datatype BleState = kClosed | kOpen | kClosing

record BleAdmissionInput =
  bi_connected :: bool
  bi_disconnect_event :: bool
  bi_advertising_running :: bool

record BleAdmissionPolicy =
  ba_state :: BleState
  ba_connected :: bool
  ba_always_available :: bool
  ba_close_at_ms :: u32
  ba_next_action_at_ms :: u32

definition BleAdmissionPolicy_init :: BleAdmissionPolicy where
  "BleAdmissionPolicy_init = \<lparr>ba_state = kClosed, ba_connected = False, ba_always_available = False,
     ba_close_at_ms = 0, ba_next_action_at_ms = 0\<rparr>"

definition startFreshWindow :: "u32 \<Rightarrow> BleAdmissionPolicy \<Rightarrow> BleAdmissionPolicy" where
  "startFreshWindow now p = p\<lparr>ba_close_at_ms := now + kNoClientTimeoutMs, ba_next_action_at_ms := now\<rparr>"

definition ba_begin :: "u32 \<Rightarrow> BleAdmissionPolicy \<Rightarrow> BleAdmissionPolicy" where
  "ba_begin now p = startFreshWindow now (p\<lparr>ba_state := kOpen, ba_connected := False\<rparr>)"

definition setAlwaysAvailable :: "bool \<Rightarrow> BleAdmissionPolicy \<Rightarrow> BleAdmissionPolicy" where
  "setAlwaysAvailable on p =
     (let p = p\<lparr>ba_always_available := on\<rparr> in
      if on \<and> ba_state p = kClosing then p\<lparr>ba_state := kOpen\<rparr> else p)"

definition openFor :: "u32 \<Rightarrow> u32 \<Rightarrow> BleAdmissionPolicy \<Rightarrow> BleAdmissionPolicy" where
  "openFor now duration_ms p =
     (if duration_ms = 0 then p
      else
        let until = now + duration_ms in
        if ba_state p = kOpen then
          if ba_connected p then p
          else if reached until (ba_close_at_ms p) then p\<lparr>ba_close_at_ms := until\<rparr>
          else p
        else p\<lparr>ba_state := kOpen, ba_connected := False, ba_close_at_ms := until, ba_next_action_at_ms := now\<rparr>)"

definition confirmClosed :: "BleAdmissionPolicy \<Rightarrow> BleAdmissionPolicy" where
  "confirmClosed p = (if ba_state p = kClosing then p\<lparr>ba_state := kClosed\<rparr> else p)"

text \<open>The part of \<open>update\<close> behind the connection checks: expiry, close requests, restarts.\<close>

definition update_window :: "BleAdmissionInput \<Rightarrow> u32 \<Rightarrow> BleAdmissionPolicy \<Rightarrow> BleAdmissionAction \<times> BleAdmissionPolicy" where
  "update_window i now p =
     (let p = (if ba_state p = kOpen \<and> \<not> ba_always_available p \<and> reached now (ba_close_at_ms p)
               then p\<lparr>ba_state := kClosing, ba_next_action_at_ms := now\<rparr> else p) in
      if ba_state p = kClosing then
        if \<not> reached now (ba_next_action_at_ms p) then (kNone, p)
        else (kClose, p\<lparr>ba_next_action_at_ms := now + kRetryIntervalMs\<rparr>)
      else if \<not> bi_advertising_running i \<and> reached now (ba_next_action_at_ms p)
      then (kStartAdvertising, p\<lparr>ba_next_action_at_ms := now + kRetryIntervalMs\<rparr>)
      else (kNone, p))"

definition ba_update :: "BleAdmissionInput \<Rightarrow> u32 \<Rightarrow> BleAdmissionPolicy \<Rightarrow> BleAdmissionAction \<times> BleAdmissionPolicy" where
  "ba_update i now p =
     (if ba_state p = kClosed then (kNone, p\<lparr>ba_connected := False\<rparr>)
      else
        let p = (if bi_disconnect_event i then startFreshWindow now (p\<lparr>ba_state := kOpen\<rparr>) else p) in
        if bi_connected i then (kNone, p\<lparr>ba_state := kOpen, ba_connected := True\<rparr>)
        else
          let p = (if ba_connected p
                   then startFreshWindow now (p\<lparr>ba_connected := False, ba_state := kOpen\<rparr>) else p) in
          update_window i now p)"

section \<open>Fresh windows\<close>

lemma fresh_not_reached [simp]: "\<not> reached now (now + kNoClientTimeoutMs)"
  using reached_after [of 600000 0 now] by (simp add: kNoClientTimeoutMs_def)

text \<open>
  A close is only asked for when no client is or was connected, no disconnect was just reported and
  the deadline or the retry time of an earlier request is due.
\<close>

lemma close_exact:
  "fst (ba_update i now p) = kClose \<longleftrightarrow>
     ba_state p \<noteq> kClosed \<and> \<not> bi_connected i \<and> \<not> bi_disconnect_event i \<and> \<not> ba_connected p \<and>
     (ba_state p = kOpen \<and> \<not> ba_always_available p \<and> reached now (ba_close_at_ms p) \<or>
      ba_state p = kClosing \<and> reached now (ba_next_action_at_ms p))"
  by (cases "ba_state p") (auto simp: ba_update_def update_window_def startFreshWindow_def Let_def)

section \<open>The window of an idle tracker\<close>

definition idle_tick :: "u32 \<Rightarrow> BleAdmissionPolicy \<Rightarrow> nat \<times> bool \<Rightarrow> BleAdmissionPolicy" where
  "idle_tick t p tick = snd (ba_update
     \<lparr>bi_connected = False, bi_disconnect_event = False, bi_advertising_running = snd tick\<rparr> (t + of_nat (fst tick)) p)"

definition in_window :: "u32 \<Rightarrow> BleAdmissionPolicy \<Rightarrow> bool" where
  "in_window t p \<longleftrightarrow> ba_state p = kOpen \<and> \<not> ba_connected p \<and> ba_close_at_ms p = t + of_nat 600000"

lemma deadline_reached:
  "e < 2 ^ 31 \<Longrightarrow> reached (t + of_nat e) (t + of_nat 600000) \<longleftrightarrow> 600000 \<le> e"
  by (rule reached_after) simp_all

lemma idle_tick_window:
  assumes "in_window t p" "fst tick < 600000"
  shows "in_window t (idle_tick t p tick)" "ba_always_available (idle_tick t p tick) = ba_always_available p"
proof -
  have "\<not> reached (t + of_nat (fst tick)) (t + of_nat 600000)"
    using deadline_reached [of "fst tick" t] assms(2) by simp
  then show "in_window t (idle_tick t p tick)" "ba_always_available (idle_tick t p tick) = ba_always_available p"
    using assms(1) by (simp_all add: idle_tick_def in_window_def ba_update_def update_window_def)
qed

lemma idle_run_window:
  "in_window t p \<Longrightarrow> \<forall>tick\<in>set ticks. fst tick < 600000 \<Longrightarrow>
   in_window t (foldl (idle_tick t) p ticks) \<and>
   ba_always_available (foldl (idle_tick t) p ticks) = ba_always_available p"
  by (induction ticks arbitrary: p) (simp_all add: idle_tick_window)

text \<open>
  An idle tracker offers Bluetooth for ten minutes and not longer.  After \<open>begin\<close> at any clock
  value, also one about to wrap, and any number of loop ticks without a client in the first 600000
  milliseconds, the window is still open; the next tick asks for the close exactly when those ten
  minutes are over, and never while the gateway commitment is on.
\<close>
theorem ble_window_ten_minutes:
  assumes "\<forall>tick\<in>set ticks. fst tick < 600000" and "d < 2 ^ 31"
  shows "let q = foldl (idle_tick t) (ba_begin t p) ticks;
      i = \<lparr>bi_connected = False, bi_disconnect_event = False, bi_advertising_running = adv\<rparr> in
    ba_state q = kOpen \<and>
    (fst (ba_update i (t + of_nat d) q) = kClose \<longleftrightarrow> 600000 \<le> d \<and> \<not> ba_always_available p)"
proof -
  have "in_window t (ba_begin t p)"
    by (simp add: in_window_def ba_begin_def startFreshWindow_def kNoClientTimeoutMs_def)
  moreover have "ba_always_available (ba_begin t p) = ba_always_available p"
    by (simp add: ba_begin_def startFreshWindow_def)
  ultimately show ?thesis
    using idle_run_window [of t "ba_begin t p" ticks] assms(1) deadline_reached [OF assms(2), of t]
    by (auto simp: Let_def close_exact in_window_def)
qed

theorem ble_window_ten_minutes_witness:
  "fst (ba_update \<lparr>bi_connected = False, bi_disconnect_event = False, bi_advertising_running = True\<rparr>
     (0xFFFFFF00 + of_nat 600000)
     (foldl (idle_tick 0xFFFFFF00) (ba_begin 0xFFFFFF00 BleAdmissionPolicy_init) [(5, False), (599999, True)])) = kClose"
  using ble_window_ten_minutes [of "[(5, False), (599999, True)]" 600000 "0xFFFFFF00" BleAdmissionPolicy_init True]
  by (simp add: Let_def BleAdmissionPolicy_init_def)

section \<open>The gateway commitment\<close>

datatype ble_op = Begin u32 | Update BleAdmissionInput u32 | OpenFor u32 u32 | SetAlways bool | ConfirmClosed

fun ble_step :: "ble_op \<Rightarrow> BleAdmissionPolicy \<Rightarrow> BleAdmissionAction \<times> BleAdmissionPolicy" where
  "ble_step (Begin t) p = (kNone, ba_begin t p)"
| "ble_step (Update i t) p = ba_update i t p"
| "ble_step (OpenFor t d) p = (kNone, openFor t d p)"
| "ble_step (SetAlways on) p = (kNone, setAlwaysAvailable on p)"
| "ble_step ConfirmClosed p = (kNone, confirmClosed p)"

inductive ble_reachable :: "BleAdmissionPolicy \<Rightarrow> bool" where
  boot: "ble_reachable BleAdmissionPolicy_init"
| step: "ble_reachable p \<Longrightarrow> ble_reachable (snd (ble_step x p))"

lemma committed_not_closing:
  "ba_always_available p \<longrightarrow> ba_state p \<noteq> kClosing \<Longrightarrow>
   ba_always_available (snd (ble_step x p)) \<longrightarrow> ba_state (snd (ble_step x p)) \<noteq> kClosing"
  by (cases x) (auto simp: ba_begin_def ba_update_def update_window_def startFreshWindow_def openFor_def
      setAlwaysAvailable_def confirmClosed_def Let_def)

lemma reachable_not_closing: "ble_reachable p \<Longrightarrow> ba_always_available p \<longrightarrow> ba_state p \<noteq> kClosing"
proof (induction rule: ble_reachable.induct)
  case boot
  show ?case by (simp add: BleAdmissionPolicy_init_def)
next
  case (step p x)
  then show ?case using committed_not_closing by blast
qed

lemma open_stays_open:
  "ba_always_available p \<Longrightarrow> ba_state p = kOpen \<Longrightarrow> x \<noteq> SetAlways False \<Longrightarrow>
   ba_state (snd (ble_step x p)) = kOpen \<and> ba_always_available (snd (ble_step x p)) \<and> fst (ble_step x p) \<noteq> kClose"
  by (cases x) (auto simp: ba_begin_def ba_update_def update_window_def startFreshWindow_def openFor_def
      setAlwaysAvailable_def confirmClosed_def Let_def)

text \<open>
  The gateway commitment holds.  In every reachable state the commitment rules out a pending close,
  and once Bluetooth is open with the commitment on, no sequence of operations that does not withdraw
  it closes the window, starts closing it, or asks the caller to stop advertising.
\<close>
theorem ble_commitment_kept:
  assumes "ble_reachable p" and "ba_always_available p" and "SetAlways False \<notin> set xs"
  shows "ba_state p \<noteq> kClosing \<and>
    (ba_state p = kOpen \<longrightarrow>
      (let q = foldl (\<lambda>p x. snd (ble_step x p)) p xs in
       ba_state q = kOpen \<and> (\<forall>x. x \<noteq> SetAlways False \<longrightarrow> fst (ble_step x q) \<noteq> kClose)))"
proof -
  have "ba_state p = kOpen \<longrightarrow> (let q = foldl (\<lambda>p x. snd (ble_step x p)) p xs in
       ba_state q = kOpen \<and> ba_always_available q)"
    using assms(2,3)
  proof (induction xs arbitrary: p)
    case Nil
    then show ?case by simp
  next
    case (Cons x xs)
    then show ?case using open_stays_open [of p x] by (auto simp: Let_def)
  qed
  then show ?thesis using open_stays_open reachable_not_closing [OF assms(1)] assms(2) by (auto simp: Let_def)
qed

theorem ble_commitment_kept_witness:
  "ba_state (foldl (\<lambda>p x. snd (ble_step x p)) (setAlwaysAvailable True (ba_begin 0 BleAdmissionPolicy_init))
     [Update \<lparr>bi_connected = False, bi_disconnect_event = False, bi_advertising_running = True\<rparr> 700000, ConfirmClosed]) = kOpen"
proof -
  have "ble_reachable (snd (ble_step (SetAlways True) (snd (ble_step (Begin 0) BleAdmissionPolicy_init))))"
    by (intro ble_reachable.intros)
  then have r: "ble_reachable (setAlwaysAvailable True (ba_begin 0 BleAdmissionPolicy_init))" by simp
  have a: "ba_always_available (setAlwaysAvailable True (ba_begin 0 BleAdmissionPolicy_init))"
    "ba_state (setAlwaysAvailable True (ba_begin 0 BleAdmissionPolicy_init)) = kOpen"
    by (simp_all add: setAlwaysAvailable_def ba_begin_def startFreshWindow_def Let_def)
  show ?thesis
    using ble_commitment_kept [OF r a(1), of "[Update \<lparr>bi_connected = False, bi_disconnect_event = False,
      bi_advertising_running = True\<rparr> 700000, ConfirmClosed]"] a(2)
    unfolding Let_def by auto
qed

end
