(* ===== verification/Spec2Isabelle.thy ===== *)
theory Spec2Isabelle
  imports Monotonic_Time Crc32 Packet_Dedupe Tlp_Packets Node_Role Network_Service
    Geofence_Geometry Geofence_Area_Set Geofence_Runtime Geofence_Operational Geofence_Confirmation
    Journal_Format Geofence_Format Flash_Backend Flash_Gate Geofence_Store_Guarantees Geofence_Staging Geofence_Mutation Geofence_Provider
    Config_Bounds Service_Runtime Config_Mutation
    History_Sample History_Secure
    Observation_Control Battery_Policy Bridge_Frame Loop_Health Ble_Admission
begin

text \<open>
  A verification library of the ORUN TLP firmware (C++ under \<open>src/firmware\<close>): a battery-powered tracker
  that takes positions, judges them against a set of permitted areas, keeps its configuration and areas on
  flash across power cuts, and sends positions over LoRa, directly or through one relay hop.

  HOW THE PARTS INTERACT.  The main loop (\<open>main.cpp\<close>) owns one object of each component and calls them in
  turn; everything is single-threaded except the SoftDevice events.  A client (USB or Bluetooth) hands a
  change to a mutation owner, the owner to a store, the store to a flash driver or to the shared flash gate.
  When the owner announces the change, the main loop hands the stored areas to the geofence runtime, and every
  later position goes through the confirmation coordinator.  Positions are encoded by the packet codecs and
  relayed by the network service.

  THE PARTS AND THEIR THEORIES.  Each theory opens with the files it models.
  \<^item> Shared: \<open>Prelude\<close> (words, buffers, slices, little-endian values), \<open>Monotonic_Time\<close>, \<open>Crc32\<close>,
    \<open>Journal_Format\<close> (seals and slots), \<open>Packet_Dedupe\<close>.
  \<^item> Radio path: \<open>Tlp_Packets\<close>, \<open>Node_Role\<close>, \<open>Network_Service\<close>, \<open>Bridge_Frame\<close>.
  \<^item> Geofence judgement: \<open>Geofence_Geometry\<close>, \<open>Geofence_Area_Set\<close>, \<open>Geofence_Runtime\<close>, \<open>Geofence_Operational\<close>,
    \<open>Geofence_Confirmation\<close>.
  \<^item> Flash: \<open>Flash_Backend\<close> (the interface, its contract, the synchronous geofence driver), \<open>Flash_Gate\<close> (the
    arbiter of all asynchronous flash work and the five region drivers), \<open>Two_Page_Flash\<close> (what the two-page stores
    share), \<open>Nrf_Config_Flash\<close>.
  \<^item> Durable areas: \<open>Geofence_Format\<close>, \<open>Geofence_Store\<close>; proofs in \<open>Geofence_Durability\<close>,
    \<open>Geofence_Store_Invariant\<close>, \<open>Geofence_Store_Run\<close>, \<open>Geofence_Store_Guarantees\<close>; clients \<open>Geofence_Staging\<close>,
    \<open>Geofence_Mutation\<close>, \<open>Geofence_Provider\<close>.
  \<^item> Durable configuration: \<open>Config_Format\<close>, \<open>Config_Store\<close>; proofs in \<open>Config_Durability\<close>, \<open>Config_Power_Cut\<close>,
    \<open>Config_Store_Invariant\<close>, \<open>Config_Store_Run\<close>, \<open>Config_Guarantees\<close>, \<open>Config_Bounds\<close>; clients
    \<open>Application_Request\<close>, \<open>Config_Mutation\<close>, \<open>Runtime_Config\<close>, and \<open>Service_Runtime\<close> (how the main
    loop applies the service intent).
  \<^item> Position journal: \<open>History_Store\<close>, \<open>History_Flash\<close> (its driver, and the contract the store relies on); proofs in
    \<open>History_Index\<close> (recovery reads the index off the cells), \<open>History_Cells\<close>, \<open>History_Writes\<close>, \<open>History_Map\<close> (the
    ring of pages and the retained records), \<open>History_Sound\<close>, \<open>History_Blob\<close>, \<open>History_Invariant\<close>, \<open>History_Reads\<close>,
    \<open>History_Steps\<close>, \<open>History_Run\<close>, \<open>History_Poll\<close>, \<open>History_Events\<close>, \<open>History_Session\<close> (events and reachable states),
    \<open>History_Guarantees\<close>, \<open>History_Progress\<close>, \<open>History_Completion\<close>; \<open>History_Sample\<close> is a concrete run.
    \<open>History_Secure\<close> holds the packet formats the journal is delivered and acknowledged in.
  \<^item> Observation store: \<open>Observation_Format\<close>, \<open>Observation_Control\<close>.
  \<^item> Device health: \<open>Battery_Policy\<close>, \<open>Loop_Health\<close>, \<open>Ble_Admission\<close>.

  HOW STATE AND OPERATIONS CORRESPOND.  A class is a record of its members, an operation a function from the
  state to the new state and its answer, under the name it has in the code (prefixed where two components or the
  library share it: \<open>gs_\<close> and \<open>cs_\<close> for the stores, \<open>cm_\<close> and \<open>mo_\<close> for the owners, \<open>gc_\<close>, \<open>rt_\<close>, \<open>op_\<close>, \<open>ns_\<close>,
  \<open>dd_\<close>).  Integers are words of the width of the code; the geometry, whose intermediate values are 64-bit, is
  over \<open>int\<close> with a theorem that 64 bits suffice.  Pointers with a size are optional byte lists; an out-parameter
  is part of the result.  A class that refers to another takes that one's state beside its own and returns both.
  The flash interface is the record \<open>FlashBackend\<close> of its six operations over an arbitrary backend state.

  WHAT IS ABSTRACT.  The Nordic SoftDevice calls are the parameter \<open>softdevice\<close> of the synchronous drivers and
  \<open>gate_env\<close> of the gate; the theorems assume of them only that a call changes no cell outside the words or page
  it names (a lying or failing call is allowed), and, for progress only, that calls do what they report.  The
  random source of incarnations is an argument of \<open>gs_begin\<close>, \<open>cs_begin\<close> and \<open>hs_begin\<close>
  and may fail.  Of an erase in the journal region the theorems also assume that, however it ends, it leaves each
  sealed unit of its page as it was or no longer sealed (\<open>erase_forges_nothing\<close>: what the checksums are there for).  The clock is an argument.

  INTERFACES.  \<open>flash_contract\<close> states what a store may rely on of a backend; \<open>two_page_flash\<close> fixes its size;
  \<open>readable_two_page\<close> adds that reads in bounds succeed; \<open>geofence_flash\<close>, \<open>readable_flash\<close>, \<open>config_flash\<close> and
  \<open>readable_config\<close> hold the lemmas of the two stores, \<open>journal_flash\<close> those of the journal (interpreted as \<open>nhf\<close>).  They are interpreted on the drivers of the code (\<open>nrf\<close>,
  \<open>nrf_store\<close>, \<open>ncf\<close>, \<open>ncf_store\<close>).  \<open>dedupe_window\<close> is the contract of the duplicate filter, interpreted on the ring
  (\<open>ring\<close>) and used by the network service.

  WHAT THE LEMMAS SHOW.
  \<^item> Stores: an invariant of every reachable state (any sequence of boots, requests, polls and resets with any
    torn cells); old-or-new after a power cut at every word; what each result means; progress in two polls.
  \<^item> Journal: lookups are exact; an append that reported success survives a reset; a power cut loses nothing; an
    erase evicts the oldest only; tickets never return; acknowledgements skip nothing; checkpoints last; every job
    ends within four polls of a working flash; every reset leads back to a ready store.
  \<^item> Owners and provider: what APPLIED means from the client's request down to the cells, and up to the judgement
    of the next position; who may change what.
  \<^item> Gate: one owner at a time, confinement, order, time limits, the token kept until the vendor reports.
  \<^item> Formats and codecs: exact in both directions; every torn prefix classified; single-byte damage found.
  \<^item> Geometry: accepted polygons are simple and the classifier is the winding-number rule; the confirmation machine
    refines a specification over the list of evidence, terminates, and never confirms an exit on one reading.
  \<^item> Network service: counters, queue bounds, duplicate suppression, delay, one hop end to end from the
    reception at the relay to the report of the base.
  \<^item> Policies: battery, loop health, Bluetooth window; what a saved service intent makes the device run, with the
    reason when it cannot.

  BOUNDS.  8 areas and 64 vertices in all; 564-byte geofence record (141 words); 68-byte configuration record (17
  words) and a 72-byte page prefix; 7 journal pages of 104 records, 8 blocks of 256 tickets and 4 delivery states; 34-byte radio packets; 3 readings per episode; 10 minutes of idle Bluetooth; 4000
  and 6000 ms gate limits.  No definition uses fuel: loops are structural recursions or \<open>function\<close>s with a
  measure (\<open>tail_scan\<close> walks a page in 64-byte chunks).

  NOT MODELLED.  Drivers of GNSS, accelerometer, radio, I2C, power and watchdog (hardware access); the vendor
  cryptography and everything that is a thin layer over it; serial and Bluetooth text output; bench and enrolment
  programs; the Python and TypeScript programs beside the firmware.  Still to do: the state machines of the
  observation, custody and security stores over the formats modelled here, the delivery protocol above the journal, the
  application transports,
  the activity classifier, and the configuration and geofence stores on a port of the gate instead of on the
  synchronous driver.
\<close>

end
